(* ===== verification/Prelude.thy ===== *)
theory Prelude
  imports Main "HOL-Library.Word"
begin

text \<open>
  Shared vocabulary of the development: the machine types of the C sources (64-bit targets, where
  \<^verbatim>\<open>size_t\<close> and \<^verbatim>\<open>crypto_word_t\<close> are 64 bits wide), big-endian and little-endian values of byte
  lists, writing into a memory block, the sequencing of readers that report success through
  an \<^verbatim>\<open>int\<close> result, and the lemmas on words and lists that the component theories share.
\<close>

unbundle bit_operations_syntax

type_synonym byte = "8 word"
type_synonym u16 = "16 word"
type_synonym u32 = "32 word"
type_synonym u64 = "64 word"

named_theorems der_simps \<open>encoding and decoding of lengths, tags and integers\<close>
named_theorems len_simps \<open>lengths of the values the operations build\<close>

subsection \<open>Sizes\<close>

text \<open>\<^verbatim>\<open>size_t\<close> values are natural numbers below \<open>SIZE_MOD\<close>; an addition of the code that can
  exceed it is written with \<open>size_add\<close>, which wraps around as the hardware does.\<close>

definition SIZE_MOD :: nat where
  "SIZE_MOD = 2 ^ 64"

definition size_add :: "nat \<Rightarrow> nat \<Rightarrow> nat" where
  "size_add a b = (a + b) mod SIZE_MOD"

text \<open>The largest \<^verbatim>\<open>int\<close>.\<close>

definition INT_MAX :: nat where "INT_MAX = 2 ^ 31 - 1"

definition size_mul :: "nat \<Rightarrow> nat \<Rightarrow> nat" where
  "size_mul a b = (a * b) mod SIZE_MOD"

text \<open>The 32-bit \<^verbatim>\<open>int\<close> and the 64-bit \<^verbatim>\<open>long\<close> as integers: what a value becomes when it is converted to one of them, and
  the result of an operation on them, which wraps around.\<close>

definition int32 :: "int \<Rightarrow> int" where "int32 = signed_take_bit 31"
definition int64 :: "int \<Rightarrow> int" where "int64 = signed_take_bit 63"

lemma int32_id: "- (2 ^ 31) \<le> x \<Longrightarrow> x < 2 ^ 31 \<Longrightarrow> int32 x = x"
  by (simp add: int32_def signed_take_bit_int_eq_self)

lemma int64_id: "- (2 ^ 63) \<le> x \<Longrightarrow> x < 2 ^ 63 \<Longrightarrow> int64 x = x"
  by (simp add: int64_def signed_take_bit_int_eq_self)

lemma int32_num: "- 2147483648 \<le> x \<Longrightarrow> x \<le> 2147483647 \<Longrightarrow> int32 x = x"
  by (rule int32_id) simp_all

lemma int64_num: "- 9223372036854775808 \<le> x \<Longrightarrow> x \<le> 9223372036854775807 \<Longrightarrow> int64 x = x"
  by (rule int64_id) simp_all

lemma int32_range: "- (2 ^ 31) \<le> int32 x" "int32 x < 2 ^ 31"
  unfolding int32_def by (rule signed_take_bit_int_greater_eq_minus_exp, rule signed_take_bit_int_less_exp)

lemma int32_less: "int32 x < y" if "2 ^ 31 \<le> y"
  using int32_range(2) [of x] that by (rule less_le_trans)

lemma SIZE_MOD_pos [simp]: "0 < SIZE_MOD"
  by (simp add: SIZE_MOD_def)

lemma size_add_no_wrap: "a + b < SIZE_MOD \<Longrightarrow> size_add a b = a + b"
  by (simp add: size_add_def)

lemma size_mul_no_wrap: "a * b < SIZE_MOD \<Longrightarrow> size_mul a b = a * b"
  by (simp add: size_mul_def)

lemma size_add_wraps_iff:
  assumes "a < SIZE_MOD" "b < SIZE_MOD"
  shows "size_add a b < a \<longleftrightarrow> SIZE_MOD \<le> a + b"
proof (cases "a + b < SIZE_MOD")
  case True
  then show ?thesis by (simp add: size_add_def)
next
  case False
  with assms have "(a + b) mod SIZE_MOD = a + b - SIZE_MOD"
    by (simp add: le_mod_geq)
  with False assms show ?thesis by (simp add: size_add_def)
qed

subsection \<open>Sequencing of readers\<close>

text \<open>An operation on a reader state returns its output (\<open>None\<close> for a zero result) together
  with the state it leaves behind, also when it fails.\<close>

type_synonym 'a reader = "byte list \<Rightarrow> 'a option \<times> byte list"

definition rbind :: "'a option \<times> 's \<Rightarrow> ('a \<Rightarrow> 's \<Rightarrow> 'b option \<times> 's) \<Rightarrow> 'b option \<times> 's" where
  "rbind m f = (case m of (None, s) \<Rightarrow> (None, s) | (Some a, s) \<Rightarrow> f a s)"

lemma rbind_simps [simp]:
  "rbind (None, s) f = (None, s)"
  "rbind (Some a, s) f = f a s"
  by (simp_all add: rbind_def)

lemma rbind_Some_iff:
  "rbind m f = (Some b, t) \<longleftrightarrow> (\<exists>a s. m = (Some a, s) \<and> f a s = (Some b, t))"
  by (auto simp: rbind_def split: prod.splits option.splits)

lemma rbind_SomeE:
  assumes "rbind m f = (Some b, t)"
  obtains a s where "m = (Some a, s)" "f a s = (Some b, t)"
  using assms by (auto simp: rbind_Some_iff)

subsection \<open>Words\<close>

lemma push_or_eq_add:
  fixes v w :: "'a::len word"
  assumes "unat w < 2 ^ k"
  shows "push_bit k v OR w = push_bit k v + w"
proof -
  have "\<not> bit w n" if "k \<le> n" for n
  proof -
    have "unat w < 2 ^ n"
      using assms that by (meson order_less_le_trans one_le_numeral power_increasing)
    then have "\<not> bit (unat w) n"
      by (simp add: bit_iff_odd)
    then show ?thesis
      by (simp add: bit_unsigned_iff possible_bit_def)
  qed
  then have "push_bit k v AND w = 0"
    by (auto intro!: bit_word_eqI simp: bit_simps)
  then show ?thesis
    by (simp add: disjunctive_add_eq_or)
qed

lemma unat_push_bit_small:
  fixes v :: "'a::len word"
  assumes "unat v * 2 ^ k < 2 ^ LENGTH('a)"
  shows "unat (push_bit k v) = unat v * 2 ^ k"
proof -
  have "unat (push_bit k v) = take_bit LENGTH('a) (push_bit k (unat v))"
    by (simp add: unsigned_push_bit_eq)
  also have "\<dots> = unat v * 2 ^ k"
    using assms by (simp add: push_bit_eq_mult take_bit_nat_eq_self)
  finally show ?thesis .
qed

lemma unat_push_or:
  fixes v w :: "'a::len word"
  assumes "unat w < 2 ^ k" "(unat v + 1) * 2 ^ k \<le> 2 ^ LENGTH('a)"
  shows "unat (push_bit k v OR w) = unat v * 2 ^ k + unat w"
proof -
  have lt: "unat v * 2 ^ k + unat w < 2 ^ LENGTH('a)"
    using assms by simp
  then have p: "unat (push_bit k v) = unat v * 2 ^ k"
    by (intro unat_push_bit_small) simp
  show ?thesis
    using lt by (simp add: push_or_eq_add [OF assms(1)] p unat_word_ariths)
qed

lemma unat_byte_lt: "unat (b :: byte) < 256"
  using unsigned_less [of b] by simp

lemma unat_ucast_up [simp]:
  fixes v :: "'b::len word"
  assumes "LENGTH('b) \<le> LENGTH('a::len)"
  shows "unat (ucast v :: 'a word) = unat v"
proof -
  have "unat v < 2 ^ LENGTH('a)"
    using unsigned_less [of v] power_increasing [OF assms, of "2 :: nat"]
    by (meson one_le_numeral order_less_le_trans)
  then show ?thesis
    by (simp add: unsigned_ucast_eq take_bit_nat_eq_self)
qed

lemmas unat_ucast_byte = unat_ucast_up [where 'b = 8]

lemma unat_u16_lt: "unat (v :: u16) < 2 ^ 16"
  using unsigned_less [of v] by simp

lemma unat_word_of_nat_lt:
  "n < 2 ^ LENGTH('a) \<Longrightarrow> unat (word_of_nat n :: 'a::len word) = n"
  by (simp add: unat_of_nat)

lemma unat_u64_lt: "unat (v :: u64) < 2 ^ 64"
  using unsigned_less [of v] by simp

lemma unat_u32_lt: "unat (v :: u32) < 2 ^ 32"
  using unsigned_less [of v] by simp

lemma unat_drop_bit_div:
  fixes v :: "'a::len word"
  shows "unat (drop_bit n v) = unat v div 2 ^ n"
  by (metis unat_drop_bit_eq drop_bit_eq_div)

lemma drop_bit_eq_0_iff_unat:
  fixes v :: "'a::len word"
  shows "drop_bit n v = 0 \<longleftrightarrow> unat v < 2 ^ n"
  by (metis div_eq_0_iff drop_bit_eq_div power_not_zero unat_drop_bit_eq unsigned_eq_0_iff
      zero_neq_numeral)

lemma unat_and_mask_eq:
  fixes v :: "'a::len word"
  shows "unat (v AND mask n) = unat v mod 2 ^ n"
  by (metis take_bit_eq_mask take_bit_eq_mod unsigned_take_bit_eq)

lemma xor_word_eq_0_iff [simp]: "(x :: 'a::len word) XOR y = 0 \<longleftrightarrow> x = y"
  by (metis xor.assoc xor.left_neutral xor.right_neutral xor_self_eq)

lemma xor_word_cancel [simp]: "((x :: 'a::len word) XOR y) XOR y = x"
  by (simp add: xor.assoc)

lemma or_word_eq_0_iff: "(x :: 'a::len word) OR y = 0 \<longleftrightarrow> x = 0 \<and> y = 0"
  by (metis or_eq_0_iff)

subsection \<open>Values of byte lists\<close>

definition be_val :: "byte list \<Rightarrow> nat" where
  "be_val bs = foldl (\<lambda>v b. v * 256 + unat b) 0 bs"

fun be_bytes :: "nat \<Rightarrow> nat \<Rightarrow> byte list" where
  "be_bytes 0 v = []"
| "be_bytes (Suc n) v = be_bytes n (v div 256) @ [word_of_nat v]"

definition le_val :: "byte list \<Rightarrow> nat" where
  "le_val bs = be_val (rev bs)"

lemma be_val_Nil [simp]: "be_val [] = 0"
  by (simp add: be_val_def)

lemma be_val_snoc [simp]: "be_val (bs @ [b]) = be_val bs * 256 + unat b"
  by (simp add: be_val_def)

lemma be_val_append: "be_val (xs @ ys) = be_val xs * 256 ^ length ys + be_val ys"
proof (induction ys rule: rev_induct)
  case (snoc y ys)
  then show ?case
    by (simp del: append_assoc add: append_assoc [symmetric] algebra_simps)
qed simp

lemma be_val_Cons: "be_val (b # bs) = unat b * 256 ^ length bs + be_val bs"
  using be_val_append [of "[b]" bs] by (simp add: be_val_def)

lemma be_val_bound: "be_val bs < 256 ^ length bs"
proof (induction bs rule: rev_induct)
  case (snoc b bs)
  have "unat b < 256" by (rule unat_byte_lt)
  moreover have "be_val bs + 1 \<le> 256 ^ length bs" using snoc by simp
  then have "(be_val bs + 1) * 256 \<le> 256 ^ length bs * 256"
    by (rule mult_le_mono1)
  ultimately show ?case by (simp add: mult.commute)
qed simp

lemma length_be_bytes [simp, len_simps]: "length (be_bytes n v) = n"
  by (induction n arbitrary: v) simp_all

lemma be_bytes_numeral:
  "be_bytes (numeral k) v = be_bytes (pred_numeral k) (v div 256) @ [word_of_nat v]"
  using be_bytes.simps(2) [of "pred_numeral k" v] by (simp only: numeral_eq_Suc [of k, symmetric])

lemma unat_word_of_nat_byte: "unat (word_of_nat v :: byte) = v mod 256"
  by (simp add: unat_of_nat)

lemma be_val_be_bytes [der_simps]: "be_val (be_bytes n v) = v mod 256 ^ n"
proof (induction n arbitrary: v)
  case (Suc n)
  have "v mod 256 ^ Suc n = v div 256 mod 256 ^ n * 256 + v mod 256"
    by (simp add: mod_mult2_eq mult.commute)
  with Suc show ?case by (simp add: unat_word_of_nat_byte)
qed simp

lemma be_bytes_be_val [der_simps]: "be_bytes (length bs) (be_val bs) = bs"
proof (induction bs rule: rev_induct)
  case (snoc b bs)
  have "unat b div 256 = 0" "unat b mod 256 = unat b"
    using unat_byte_lt [of b] by simp_all
  then have "(be_val bs * 256 + unat b) div 256 = be_val bs"
    by simp
  moreover have "(word_of_nat (be_val bs * 256 + unat b) :: byte) = b"
    by (rule word_unat_eq_iff [THEN iffD2], subst unat_word_of_nat_byte)
      (simp add: unat_byte_lt)
  ultimately show ?case using snoc by simp
qed simp

lemma be_bytes_mod: "be_bytes n v = be_bytes n (v mod 256 ^ n)"
  using be_bytes_be_val [of "be_bytes n v"] by (simp add: be_val_be_bytes)

lemma be_bytes_append: "be_bytes m (v div 256 ^ n) @ be_bytes n v = be_bytes (m + n) v"
  by (induction n arbitrary: v) (simp_all add: div_mult2_eq)

lemma be_val_inj: "length xs = length ys \<Longrightarrow> be_val xs = be_val ys \<Longrightarrow> xs = ys"
  by (metis be_bytes_be_val)

subsection \<open>Memory blocks\<close>

text \<open>\<open>mem_write off bs m\<close>: the block \<open>m\<close> after \<open>bs\<close> has been stored from offset \<open>off\<close> on.\<close>

definition mem_write :: "nat \<Rightarrow> 'a list \<Rightarrow> 'a list \<Rightarrow> 'a list" where
  "mem_write off bs m = take off m @ bs @ drop (off + length bs) m"

lemma length_mem_write [len_simps]:
  "off + length bs \<le> length m \<Longrightarrow> length (mem_write off bs m) = length m"
  by (simp add: mem_write_def)

lemma take_mem_write_before:
  "n \<le> off \<Longrightarrow> off \<le> length m \<Longrightarrow> take n (mem_write off bs m) = take n m"
  by (simp add: mem_write_def min_def)

lemma take_mem_write_end:
  "off \<le> length m \<Longrightarrow> take (off + length bs) (mem_write off bs m) = take off m @ bs"
  by (simp add: mem_write_def)

lemma mem_write_Nil [simp]: "off \<le> length m \<Longrightarrow> mem_write off [] m = m"
  by (simp add: mem_write_def)

subsection \<open>Lists\<close>

lemma take_drop_split:
  "n \<le> length xs \<Longrightarrow> xs = take n xs @ drop n xs"
  by simp

lemma append_eq_length_conv:
  "length a = length c \<Longrightarrow> a @ b = c @ d \<longleftrightarrow> a = c \<and> b = d"
  by simp

subsection \<open>The codec contract\<close>

text \<open>
  A codec is an encoder and a reader that undoes it in front of any further input, on the values
  of \<open>dom\<close>; it is canonical when the reader accepts nothing but encodings. The laws
  below are what the parsers built from readers rely on: encodings are injective and prefix-free, a
  sequence of encodings is read back element by element, and what a canonical reader returns does not
  depend on the bytes after the element.
\<close>

fun read_many :: "'a reader \<Rightarrow> nat \<Rightarrow> 'a list reader" where
  "read_many dec 0 c = (Some [], c)"
| "read_many dec (Suc n) c =
     rbind (dec c) (\<lambda>x c. rbind (read_many dec n c) (\<lambda>xs c. (Some (x # xs), c)))"

locale codec =
  fixes enc :: "'a \<Rightarrow> byte list"
    and dec :: "'a reader"
    and dom :: "'a \<Rightarrow> bool"
  assumes dec_enc: "dom a \<Longrightarrow> dec (enc a @ r) = (Some a, r)"
begin

lemma prefix_free: "dom a \<Longrightarrow> dom b \<Longrightarrow> enc a @ r = enc b @ s \<Longrightarrow> a = b \<and> r = s"
  by (metis dec_enc option.inject prod.inject)

lemma enc_inj: "dom a \<Longrightarrow> dom b \<Longrightarrow> enc a = enc b \<Longrightarrow> a = b"
  using prefix_free [of a b "[]" "[]"] by simp

lemma read_many_enc:
  "list_all dom xs \<Longrightarrow> read_many dec (length xs) (concat (map enc xs) @ r) = (Some xs, r)"
  by (induction xs) (simp_all add: dec_enc)

end

locale canonical_codec = codec +
  assumes enc_dec: "dec c = (Some a, r) \<Longrightarrow> dom a \<and> c = enc a @ r"
begin

lemma dec_Some_iff: "dec c = (Some a, r) \<longleftrightarrow> dom a \<and> c = enc a @ r"
  by (auto dest: enc_dec simp: dec_enc)

lemma dec_frame: "dec c = (Some a, r) \<Longrightarrow> dec (c @ s) = (Some a, r @ s)"
  by (simp add: dec_Some_iff)

lemma dec_rest_length: "dec c = (Some a, r) \<Longrightarrow> length r + length (enc a) = length c"
  by (simp add: dec_Some_iff)

lemma read_many_Some_iff:
  "read_many dec n c = (Some xs, r) \<longleftrightarrow>
     length xs = n \<and> list_all dom xs \<and> c = concat (map enc xs) @ r"
proof (induction n arbitrary: c xs)
  case 0
  then show ?case by auto
next
  case (Suc n)
  then show ?case
    by (cases xs) (auto simp: rbind_Some_iff dec_Some_iff)
qed

end

end
