(* ===== verification/Mem.thy ===== *)
theory Mem
  imports Prelude
begin

text \<open>
  The helpers of \<^verbatim>\<open>crypto/mem.c\<close> that the other components call: constant-time comparison,
  the FNV-1a hash, and the C string functions. A C string is the list of the bytes in front of its
  terminator; reading index \<open>length s\<close> yields the terminator (\<open>cstr_at\<close>). A destination
  buffer is the list of its bytes, and a write or a read behind its end makes the result \<open>None\<close> where the code goes
  through a pointer (\<open>mem_store\<close>, \<open>mem_load\<close>). The system allocator is outside the sources: a \<open>heap_env\<close>
  says which request sizes it serves and which bytes fresh memory holds. Every theorem
  of the development quantifies over it.
\<close>

subsection \<open>Allocation\<close>

record heap_env =
  h_ok :: "nat \<Rightarrow> bool"
  h_junk :: "nat \<Rightarrow> byte"

definition OPENSSL_malloc :: "heap_env \<Rightarrow> nat \<Rightarrow> byte list option" where
  "OPENSSL_malloc env n =
     (if size_add n 8 < n then None
      else if \<not> h_ok env (n + 8) then None
      else Some (map (h_junk env) [0..<n]))"

text \<open>The block a pointer points to is \<open>Some\<close> of its bytes, the null pointer is \<open>None\<close>; the
  length of the block is what the allocator recorded in front of it.\<close>

definition OPENSSL_realloc :: "heap_env \<Rightarrow> byte list option \<Rightarrow> nat \<Rightarrow> byte list option" where
  "OPENSSL_realloc env orig new_size =
     (case orig of
        None \<Rightarrow> OPENSSL_malloc env new_size
      | Some old \<Rightarrow>
        (case OPENSSL_malloc env new_size of
           None \<Rightarrow> None
         | Some ret \<Rightarrow>
           let to_copy = (if length old < new_size then length old else new_size) in
           Some (mem_write 0 (take to_copy old) ret)))"

subsection \<open>C strings\<close>

type_synonym cstr = "byte list"

definition is_cstr :: "cstr \<Rightarrow> bool" where
  "is_cstr s \<longleftrightarrow> list_all (\<lambda>b. b \<noteq> 0) s"

definition cstr_at :: "cstr \<Rightarrow> nat \<Rightarrow> byte" where
  "cstr_at s i = (if i < length s then s ! i else 0)"

subsection \<open>Comparison and hashing\<close>

fun CRYPTO_memcmp_loop :: "byte \<Rightarrow> byte list \<Rightarrow> byte list \<Rightarrow> nat \<Rightarrow> byte" where
  "CRYPTO_memcmp_loop x a b 0 = x"
| "CRYPTO_memcmp_loop x a b (Suc n) =
     CRYPTO_memcmp_loop (x OR (hd a XOR hd b)) (tl a) (tl b) n"

definition CRYPTO_memcmp :: "byte list \<Rightarrow> byte list \<Rightarrow> nat \<Rightarrow> nat" where
  "CRYPTO_memcmp a b len = unat (CRYPTO_memcmp_loop 0 a b len)"

text \<open>The C library's \<^verbatim>\<open>memcmp\<close> on blocks of the same size. Only the sign of the result is specified; the difference of
  the first bytes that differ stands for it.\<close>

fun memcmp :: "byte list \<Rightarrow> byte list \<Rightarrow> int" where
  "memcmp (a # as) (b # bs) = (if a = b then memcmp as bs else int (unat a) - int (unat b))"
| "memcmp as bs = 0"

definition OPENSSL_memcmp :: "byte list \<Rightarrow> byte list \<Rightarrow> nat \<Rightarrow> int" where
  "OPENSSL_memcmp s1 s2 n = (if n = 0 then 0 else memcmp (take n s1) (take n s2))"

definition OPENSSL_hash32 :: "byte list \<Rightarrow> u32" where
  "OPENSSL_hash32 ptr = foldl (\<lambda>h b. (h XOR ucast b) * 16777619) 2166136261 ptr"

definition OPENSSL_strhash :: "cstr \<Rightarrow> u32" where
  "OPENSSL_strhash s = OPENSSL_hash32 s"

subsection \<open>Lengths and copies\<close>

text \<open>\<^verbatim>\<open>OPENSSL_strnlen\<close> scans at most \<open>len\<close> bytes of memory, which need not be terminated.\<close>

fun OPENSSL_strnlen_from :: "nat \<Rightarrow> byte list \<Rightarrow> nat \<Rightarrow> nat" where
  "OPENSSL_strnlen_from i s 0 = i"
| "OPENSSL_strnlen_from i [] (Suc n) = i"
| "OPENSSL_strnlen_from i (c # s) (Suc n) = (if c = 0 then i else OPENSSL_strnlen_from (Suc i) s n)"

definition OPENSSL_strnlen :: "byte list \<Rightarrow> nat \<Rightarrow> nat" where
  "OPENSSL_strnlen s len = OPENSSL_strnlen_from 0 s len"

text \<open>The result is the memory of the copy, terminator included.\<close>

definition OPENSSL_strdup :: "heap_env \<Rightarrow> cstr option \<Rightarrow> byte list option" where
  "OPENSSL_strdup env s =
     (case s of
        None \<Rightarrow> None
      | Some s \<Rightarrow>
        let len = length s + 1 in
        (case OPENSSL_malloc env len of
           None \<Rightarrow> None
         | Some ret \<Rightarrow> Some (mem_write 0 (s @ [0]) ret)))"

definition OPENSSL_strndup :: "heap_env \<Rightarrow> byte list \<Rightarrow> nat \<Rightarrow> byte list option" where
  "OPENSSL_strndup env str n =
     (let n = OPENSSL_strnlen str n;
          alloc_size = size_add n 1 in
      if alloc_size < n then None
      else
        (case OPENSSL_malloc env alloc_size of
           None \<Rightarrow> None
         | Some ret \<Rightarrow> Some ((mem_write 0 (take n str) ret)[n := 0])))"

definition OPENSSL_memdup :: "heap_env \<Rightarrow> byte list \<Rightarrow> nat \<Rightarrow> byte list option" where
  "OPENSSL_memdup env data n =
     (if n = 0 then None
      else
        (case OPENSSL_malloc env n of
           None \<Rightarrow> None
         | Some ret \<Rightarrow> Some (mem_write 0 (take n data) ret)))"

text \<open>Accesses through a pointer: \<open>None\<close> is an access behind the end of the buffer.\<close>

definition mem_store :: "byte list \<Rightarrow> nat \<Rightarrow> byte \<Rightarrow> byte list option" where
  "mem_store m i b = (if i < length m then Some (m[i := b]) else None)"

definition mem_load :: "byte list \<Rightarrow> nat \<Rightarrow> byte option" where
  "mem_load m i = (if i < length m then Some (m ! i) else None)"

text \<open>The copying loop of \<^verbatim>\<open>OPENSSL_strlcpy\<close>: \<open>d\<close> is the next index of the destination, \<open>dst_size\<close>
  the size the caller gives, counted down; it need not be the size of the buffer. The result is the destination, the next
  index, the rest of the source, the room left and the number of bytes copied.\<close>

fun strlcpy_loop :: "byte list \<Rightarrow> nat \<Rightarrow> cstr \<Rightarrow> nat \<Rightarrow> nat \<Rightarrow> (byte list \<times> nat \<times> cstr \<times> nat \<times> nat) option" where
  "strlcpy_loop dst d [] dst_size l = Some (dst, d, [], dst_size, l)"
| "strlcpy_loop dst d (c # src) dst_size l =
     (if dst_size > 1 then
        (case mem_store dst d c of
           None \<Rightarrow> None
         | Some dst \<Rightarrow> strlcpy_loop dst (d + 1) src (dst_size - 1) (l + 1))
      else Some (dst, d, c # src, dst_size, l))"

text \<open>\<open>strlcpy_at d\<close> copies to the position \<open>d\<close> of the buffer, which is where the pointer
  \<^verbatim>\<open>dst\<close> of the call points.\<close>

definition strlcpy_at :: "byte list \<Rightarrow> nat \<Rightarrow> cstr \<Rightarrow> nat \<Rightarrow> (byte list \<times> nat) option" where
  "strlcpy_at dst d src dst_size =
     (case strlcpy_loop dst d src dst_size 0 of
        None \<Rightarrow> None
      | Some (dst, d, src, dst_size, l) \<Rightarrow>
          map_option (\<lambda>dst. (dst, l + length src)) (if dst_size \<noteq> 0 then mem_store dst d 0 else Some dst))"

definition OPENSSL_strlcpy :: "byte list \<Rightarrow> cstr \<Rightarrow> nat \<Rightarrow> (byte list \<times> nat) option" where
  "OPENSSL_strlcpy dst src dst_size = strlcpy_at dst 0 src dst_size"

function strlcat_scan :: "byte list \<Rightarrow> nat \<Rightarrow> nat \<Rightarrow> nat \<Rightarrow> (nat \<times> nat \<times> nat) option" where
  "strlcat_scan dst d dst_size l =
     (if dst_size > 0 then
        (case mem_load dst d of
           None \<Rightarrow> None
         | Some c \<Rightarrow>
             if c \<noteq> 0 then strlcat_scan dst (d + 1) (dst_size - 1) (l + 1) else Some (d, dst_size, l))
      else Some (d, dst_size, l))"
  by pat_completeness auto
termination
  by (relation "measure (\<lambda>(dst, d, dst_size, l). dst_size)") auto

declare strlcat_scan.simps [simp del]

definition OPENSSL_strlcat :: "byte list \<Rightarrow> cstr \<Rightarrow> nat \<Rightarrow> (byte list \<times> nat) option" where
  "OPENSSL_strlcat dst src dst_size =
     (case strlcat_scan dst 0 dst_size 0 of
        None \<Rightarrow> None
      | Some (d, dst_size, l) \<Rightarrow> map_option (\<lambda>(dst, n). (dst, l + n)) (strlcpy_at dst d src dst_size))"

subsection \<open>Case-insensitive comparison\<close>

text \<open>A \<^verbatim>\<open>char\<close> is signed on the targets of this tree; \<^verbatim>\<open>OPENSSL_tolower\<close> works on its
  \<^verbatim>\<open>int\<close> value.\<close>

definition OPENSSL_tolower :: "int \<Rightarrow> int" where
  "OPENSSL_tolower c = (if c \<ge> 65 \<and> c \<le> 90 then c + (97 - 65) else c)"

function strcasecmp_from :: "cstr \<Rightarrow> cstr \<Rightarrow> nat \<Rightarrow> int" where
  "strcasecmp_from a b i =
     (let aa = OPENSSL_tolower (sint (cstr_at a i)); bb = OPENSSL_tolower (sint (cstr_at b i)) in
      if aa < bb then -1
      else if aa > bb then 1
      else if aa = 0 then 0
      else strcasecmp_from a b (Suc i))"
  by pat_completeness auto
termination
proof (relation "measure (\<lambda>(a, b, i). length a - i)", goal_cases)
  case (2 a b i aa bb)
  then have "cstr_at a i \<noteq> 0" by (auto simp: OPENSSL_tolower_def)
  then have "i < length a" by (auto simp: cstr_at_def split: if_splits)
  then show ?case by simp
qed simp

declare strcasecmp_from.simps [simp del]

definition OPENSSL_strcasecmp :: "cstr \<Rightarrow> cstr \<Rightarrow> int" where
  "OPENSSL_strcasecmp a b = strcasecmp_from a b 0"

fun strncasecmp_from :: "cstr \<Rightarrow> cstr \<Rightarrow> nat \<Rightarrow> nat \<Rightarrow> int" where
  "strncasecmp_from a b i 0 = 0"
| "strncasecmp_from a b i (Suc n) =
     (let aa = OPENSSL_tolower (sint (cstr_at a i)); bb = OPENSSL_tolower (sint (cstr_at b i)) in
      if aa < bb then -1
      else if aa > bb then 1
      else if aa = 0 then 0
      else strncasecmp_from a b (Suc i) n)"

definition OPENSSL_strncasecmp :: "cstr \<Rightarrow> cstr \<Rightarrow> nat \<Rightarrow> int" where
  "OPENSSL_strncasecmp a b n = strncasecmp_from a b 0 n"

subsection \<open>Facts\<close>

lemma OPENSSL_malloc_length: "OPENSSL_malloc env n = Some m \<Longrightarrow> length m = n"
  by (auto simp: OPENSSL_malloc_def split: if_splits)

lemma OPENSSL_realloc_grow:
  assumes "OPENSSL_realloc env (Some old) n = Some m" "length old \<le> n"
  shows "length m = n" "take (length old) m = old"
  using assms by (auto simp: OPENSSL_realloc_def mem_write_def dest!: OPENSSL_malloc_length
      split: option.splits)

lemma OPENSSL_memdup_Some:
  "OPENSSL_memdup env data n = Some m \<Longrightarrow> n \<le> length data \<Longrightarrow> m = take n data"
  by (auto simp: OPENSSL_memdup_def mem_write_def dest!: OPENSSL_malloc_length
      split: option.splits if_splits)

lemma CRYPTO_memcmp_loop_0:
  "length a = n \<Longrightarrow> length b = n \<Longrightarrow> CRYPTO_memcmp_loop x a b n = 0 \<longleftrightarrow> x = 0 \<and> a = b"
proof (induction x a b n rule: CRYPTO_memcmp_loop.induct)
  case (2 x a b n)
  then obtain a0 a' b0 b' where ab: "a = a0 # a'" "b = b0 # b'" "length a' = n" "length b' = n"
    by (auto simp: length_Suc_conv)
  with 2 have "CRYPTO_memcmp_loop x a b (Suc n) = 0 \<longleftrightarrow> x OR (a0 XOR b0) = 0 \<and> a' = b'"
    by simp
  then show ?case using ab by (auto simp: or_word_eq_0_iff)
qed simp

theorem CRYPTO_memcmp_0_iff:
  "length a = n \<Longrightarrow> length b = n \<Longrightarrow> CRYPTO_memcmp a b n = 0 \<longleftrightarrow> a = b"
  by (simp add: CRYPTO_memcmp_def CRYPTO_memcmp_loop_0 unsigned_eq_0_iff)

lemma memcmp_0_iff: "length a = length b \<Longrightarrow> memcmp a b = 0 \<longleftrightarrow> a = b"
  by (induction a b rule: memcmp.induct) (auto simp: word_uint_eq_iff)

lemma OPENSSL_memcmp_0_iff:
  "length a = n \<Longrightarrow> length b = n \<Longrightarrow> OPENSSL_memcmp a b n = 0 \<longleftrightarrow> a = b"
  by (auto simp: OPENSSL_memcmp_def memcmp_0_iff)

lemma OPENSSL_strnlen_from_le: "OPENSSL_strnlen_from i s n \<le> i + n"
  by (induction i s n rule: OPENSSL_strnlen_from.induct) auto

lemma OPENSSL_strnlen_from_eq:
  "OPENSSL_strnlen_from i s n = i + length (takeWhile (\<lambda>c. c \<noteq> 0) (take n s))"
  by (induction i s n rule: OPENSSL_strnlen_from.induct) auto

lemma OPENSSL_strnlen_eq: "OPENSSL_strnlen s n = length (takeWhile (\<lambda>c. c \<noteq> 0) (take n s))"
  by (simp add: OPENSSL_strnlen_def OPENSSL_strnlen_from_eq)

lemma strlcpy_loop_eq:
  "d + dst_size \<le> length dst \<Longrightarrow> m = min (length src) (dst_size - 1) \<Longrightarrow>
   strlcpy_loop dst d src dst_size l =
     Some (mem_write d (take m src) dst, d + m, drop m src, dst_size - m, l + m)"
proof (induction dst d src dst_size l arbitrary: m rule: strlcpy_loop.induct)
  case (2 dst d c src dst_size l)
  show ?case
  proof (cases "dst_size > 1")
    case True
    define k where "k = min (length src) (dst_size - 1 - 1)"
    have m: "m = Suc k" using 2 True by (simp add: k_def)
    have d: "d < length dst" using 2 True by simp
    then have s: "mem_store dst d c = Some (dst[d := c])" by (simp add: mem_store_def)
    have step: "mem_write (d + 1) (take k src) (dst[d := c]) = mem_write d (c # take k src) dst"
      using d by (simp add: mem_write_def upd_conv_take_nth_drop take_Suc_conv_app_nth add.commute)
    have "strlcpy_loop (dst[d := c]) (d + 1) src (dst_size - 1) (l + 1) =
        Some (mem_write (d + 1) (take k src) (dst[d := c]), d + 1 + k, drop k src, dst_size - 1 - k, l + 1 + k)"
      using 2 True s by (simp add: k_def)
    then show ?thesis
      using True m step s by simp
  next
    case False
    then show ?thesis using 2 by simp
  qed
qed simp

lemma strlcpy_at_eq:
  assumes "d + n \<le> length dst" "0 < n"
  shows "strlcpy_at dst d src n = Some (mem_write d (take (n - 1) src @ [0]) dst, length src)"
proof -
  define m where "m = min (length src) (n - 1)"
  have tk: "take m src = take (n - 1) src" by (simp add: m_def min_def)
  have len: "length (take m src) = m" by (simp add: m_def)
  have dm: "d + m < length dst" using assms by (simp add: m_def)
  have pos: "n - m \<noteq> 0" using assms by (simp add: m_def) arith
  have "(mem_write d (take m src) dst)[d + m := 0] = mem_write d (take m src @ [0]) dst"
    using dm len by (simp add: mem_write_def list_update_append drop_Suc
        split: nat.split) (metis Cons_nth_drop_Suc add.commute list_update_code(2) drop_Suc tl_drop)
  moreover have "d + m < length (mem_write d (take m src) dst)" using dm len by (simp add: mem_write_def)
  ultimately have "mem_store (mem_write d (take m src) dst) (d + m) 0 = Some (mem_write d (take m src @ [0]) dst)"
    by (simp add: mem_store_def)
  moreover have "m + length (drop m src) = length src" by (simp add: m_def)
  ultimately show ?thesis
    using pos by (simp add: strlcpy_at_def strlcpy_loop_eq [OF assms(1) m_def] tk)
qed

lemma strlcpy_at_0: "strlcpy_at dst d src 0 = Some (dst, length src)"
  by (cases src) (simp_all add: strlcpy_at_def)

text \<open>With a size that the buffer has no access leaves it.\<close>

theorem OPENSSL_strlcpy_eq:
  assumes "n \<le> length dst"
  shows "OPENSSL_strlcpy dst src n =
    Some (if n = 0 then dst else mem_write 0 (take (n - 1) src @ [0]) dst, length src)"
  using assms by (cases "n = 0") (simp_all add: OPENSSL_strlcpy_def strlcpy_at_eq strlcpy_at_0)

lemma strlcat_scan_eq:
  assumes "is_cstr s" "dst = pre @ s @ 0 # rest" "d = length pre" "length s < n"
  shows "strlcat_scan dst d n l = Some (d + length s, n - length s, l + length s)"
  using assms
proof (induction s arbitrary: pre d n l)
  case Nil
  then show ?case by (subst strlcat_scan.simps) (simp add: mem_load_def)
next
  case (Cons c s)
  have c: "c \<noteq> 0" and s: "is_cstr s" using Cons.prems by (auto simp: is_cstr_def)
  have "strlcat_scan dst (d + 1) (n - 1) (l + 1) =
      Some (d + 1 + length s, n - 1 - length s, l + 1 + length s)"
    by (rule Cons.IH [OF s, of "pre @ [c]"]) (use Cons.prems in simp_all)
  then show ?case using Cons.prems c
    by (subst strlcat_scan.simps) (simp add: nth_append mem_load_def)
qed

theorem OPENSSL_strlcat_eq:
  assumes "is_cstr s" "dst = s @ 0 # rest" "length s < n" "n \<le> length dst"
  shows "OPENSSL_strlcat dst src n =
    Some (mem_write (length s) (take (n - length s - 1) src @ [0]) dst, length s + length src)"
proof -
  have "strlcat_scan dst 0 n 0 = Some (length s, n - length s, length s)"
    using strlcat_scan_eq [of s dst "[]" rest 0 n 0] assms by simp
  moreover have "strlcpy_at dst (length s) src (n - length s) =
      Some (mem_write (length s) (take (n - length s - 1) src @ [0]) dst, length src)"
    using strlcpy_at_eq [of "length s" "n - length s" dst src] assms by simp
  ultimately show ?thesis by (simp add: OPENSSL_strlcat_def)
qed

text \<open>The allocator of the examples serves every request.\<close>

definition all_ok :: heap_env where
  "all_ok = \<lparr>h_ok = (\<lambda>n. True), h_junk = (\<lambda>n. 0)\<rparr>"

lemma h_ok_all [simp]: "h_ok all_ok n"
  by (simp add: all_ok_def)

section \<open>Properties\<close>

lemma strlcpy_bounds:
  assumes "is_cstr src" "n \<le> length dst"
  obtains dst' where "OPENSSL_strlcpy dst src n = Some (dst', length src)" "length dst' = length dst"
    "drop (min n (length src + 1)) dst' = drop (min n (length src + 1)) dst"
    "if n = 0 then dst' = dst else takeWhile (\<lambda>c. c \<noteq> 0) dst' = take (n - 1) src"
proof (cases "n = 0")
  case True
  then show ?thesis using that [of dst] OPENSSL_strlcpy_eq [OF assms(2), of src] by simp
next
  case False
  let ?s = "take (n - 1) src"
  define dst' where "dst' = ?s @ 0 # drop (length ?s + 1) dst"
  have e: "OPENSSL_strlcpy dst src n = Some (dst', length src)"
    using OPENSSL_strlcpy_eq [OF assms(2), of src] False assms(2) by (simp add: dst'_def mem_write_def)
  have nz: "\<forall>c \<in> set ?s. c \<noteq> 0" using assms(1) set_take_subset [of "n - 1" src] by (auto simp: is_cstr_def list_all_iff)
  then have t: "takeWhile (\<lambda>c. c \<noteq> 0) dst' = ?s" unfolding dst'_def by (subst takeWhile_append2) auto
  have l: "length ?s + 1 = min n (length src + 1)" using False by auto
  then have "length dst' = length dst" using assms(2) unfolding dst'_def by simp
  moreover have "drop (length ?s + 1) dst' = drop (length ?s + 1) dst" unfolding dst'_def by simp
  ultimately show ?thesis using that [OF e] t False unfolding l by simp
qed

text \<open>C30: copying a string with a size that the destination has never accesses memory behind the size and always ends the
  copy if the size is not zero: the first \<open>n - 1\<close> characters at most and a zero are written, everything behind them is left
  alone, a size of zero writes nothing, and the result is the length of the source, so that a result of at least \<open>n\<close> says the
  copy is cut short. A write behind the end of the destination would make the function \<open>None\<close>.\<close>

theorem OPENSSL_strlcpy_bounds:
  assumes "is_cstr src" "n \<le> length dst"
  shows "\<exists>dst'. OPENSSL_strlcpy dst src n = Some (dst', length src) \<and> length dst' = length dst \<and>
    drop (min n (length src + 1)) dst' = drop (min n (length src + 1)) dst \<and>
    (if n = 0 then dst' = dst else takeWhile (\<lambda>c. c \<noteq> 0) dst' = take (n - 1) src)"
proof -
  obtain dst' where "OPENSSL_strlcpy dst src n = Some (dst', length src)" "length dst' = length dst"
    "drop (min n (length src + 1)) dst' = drop (min n (length src + 1)) dst"
    "if n = 0 then dst' = dst else takeWhile (\<lambda>c. c \<noteq> 0) dst' = take (n - 1) src"
    by (rule strlcpy_bounds [OF assms])
  then show ?thesis by (intro exI [of _ dst']) simp
qed

text \<open>With a size beyond the destination the code does write behind its end.\<close>

theorem OPENSSL_strlcpy_bounds_witness:
  "(\<exists>r. OPENSSL_strlcpy [9, 9, 9, 7] [65, 66, 67, 68] 3 = Some ([65, 66, 0, 7], r)) \<and>
   OPENSSL_strlcpy [9, 9, 9] [65, 66, 67, 68] 4 = None"
proof -
  obtain d where d: "OPENSSL_strlcpy [9, 9, 9, 7] [65, 66, 67, 68] 3 = Some (d, Suc (Suc (Suc (Suc 0))))"
    "length d = Suc (Suc (Suc (Suc 0)))" "drop (Suc (Suc (Suc 0))) d = [7]"
    "takeWhile (\<lambda>c. c \<noteq> 0) d = [65, 66]"
    using OPENSSL_strlcpy_bounds [of "[65, 66, 67, 68]" 3 "[9, 9, 9, 7]"] by (auto simp: is_cstr_def)
  then have "d = [65, 66, 0, 7]"
    by (cases d; cases "tl d"; cases "tl (tl d)"; cases "tl (tl (tl d))") (auto split: if_split_asm)
  then show ?thesis using d(1) by (simp add: OPENSSL_strlcpy_def strlcpy_at_def mem_store_def)
qed

end
