(* ===== verification/Constant_Time.thy ===== *)
theory Constant_Time
  imports Prelude
begin

text \<open>
  The constant-time helpers of \<^verbatim>\<open>crypto/internal.h\<close>. They compute with masks of all ones or all zeros instead of
  branching; the lemmas show that each mask is the one of the intended condition for every pair of words, and that the
  selections pick the right argument.
\<close>

section \<open>Definitions\<close>

text \<open>\<^verbatim>\<open>crypto_word_t\<close> is 64 bits wide on the platforms of the repository. The value barriers return their
  argument.\<close>

type_synonym crypto_word = u64

definition CONSTTIME_TRUE_W :: crypto_word where "CONSTTIME_TRUE_W = NOT 0"
definition CONSTTIME_FALSE_W :: crypto_word where "CONSTTIME_FALSE_W = 0"
definition CONSTTIME_TRUE_8 :: byte where "CONSTTIME_TRUE_8 = 0xff"
definition CONSTTIME_FALSE_8 :: byte where "CONSTTIME_FALSE_8 = 0"

definition value_barrier_w :: "crypto_word \<Rightarrow> crypto_word" where
  "value_barrier_w a = a"

definition constant_time_msb_w :: "crypto_word \<Rightarrow> crypto_word" where
  "constant_time_msb_w a = 0 - drop_bit (8 * 8 - 1) a"

definition constant_time_lt_w :: "crypto_word \<Rightarrow> crypto_word \<Rightarrow> crypto_word" where
  "constant_time_lt_w a b = constant_time_msb_w (a XOR ((a XOR b) OR ((a - b) XOR a)))"

definition constant_time_lt_8 :: "crypto_word \<Rightarrow> crypto_word \<Rightarrow> byte" where
  "constant_time_lt_8 a b = ucast (constant_time_lt_w a b)"

definition constant_time_ge_w :: "crypto_word \<Rightarrow> crypto_word \<Rightarrow> crypto_word" where
  "constant_time_ge_w a b = NOT (constant_time_lt_w a b)"

definition constant_time_ge_8 :: "crypto_word \<Rightarrow> crypto_word \<Rightarrow> byte" where
  "constant_time_ge_8 a b = ucast (constant_time_ge_w a b)"

definition constant_time_is_zero_w :: "crypto_word \<Rightarrow> crypto_word" where
  "constant_time_is_zero_w a = constant_time_msb_w (NOT a AND (a - 1))"

definition constant_time_is_zero_8 :: "crypto_word \<Rightarrow> byte" where
  "constant_time_is_zero_8 a = ucast (constant_time_is_zero_w a)"

definition constant_time_eq_w :: "crypto_word \<Rightarrow> crypto_word \<Rightarrow> crypto_word" where
  "constant_time_eq_w a b = constant_time_is_zero_w (a XOR b)"

definition constant_time_eq_8 :: "crypto_word \<Rightarrow> crypto_word \<Rightarrow> byte" where
  "constant_time_eq_8 a b = ucast (constant_time_eq_w a b)"

text \<open>An \<^verbatim>\<open>int\<close> is a 32-bit word that is sign-extended by the conversion to \<^verbatim>\<open>crypto_word_t\<close>.\<close>

definition constant_time_eq_int :: "u32 \<Rightarrow> u32 \<Rightarrow> crypto_word" where
  "constant_time_eq_int a b = constant_time_eq_w (scast a) (scast b)"

definition constant_time_eq_int_8 :: "u32 \<Rightarrow> u32 \<Rightarrow> byte" where
  "constant_time_eq_int_8 a b = constant_time_eq_8 (scast a) (scast b)"

definition constant_time_select_w :: "crypto_word \<Rightarrow> crypto_word \<Rightarrow> crypto_word \<Rightarrow> crypto_word" where
  "constant_time_select_w m a b = (value_barrier_w m AND a) OR (value_barrier_w (NOT m) AND b)"

definition constant_time_select_8 :: "byte \<Rightarrow> byte \<Rightarrow> byte \<Rightarrow> byte" where
  "constant_time_select_8 m a b = ucast (constant_time_select_w (ucast m) (ucast a) (ucast b))"

definition constant_time_select_int :: "crypto_word \<Rightarrow> u32 \<Rightarrow> u32 \<Rightarrow> u32" where
  "constant_time_select_int m a b = ucast (constant_time_select_w m (scast a) (scast b))"

section \<open>Masks stand for conditions\<close>

definition mask_w :: "bool \<Rightarrow> crypto_word" where
  "mask_w c = (if c then CONSTTIME_TRUE_W else CONSTTIME_FALSE_W)"

definition mask_8 :: "bool \<Rightarrow> byte" where
  "mask_8 c = (if c then CONSTTIME_TRUE_8 else CONSTTIME_FALSE_8)"

lemmas mask_defs = mask_w_def mask_8_def CONSTTIME_TRUE_W_def CONSTTIME_FALSE_W_def CONSTTIME_TRUE_8_def
  CONSTTIME_FALSE_8_def

lemma byte_0xff: "(0xff :: byte) = - 1"
  by simp

lemma ucast_mask_w [simp]: "ucast (mask_w c) = mask_8 c"
  unfolding mask_defs byte_0xff by (rule bit_word_eqI) (auto simp: bit_simps)

lemma NOT_mask_w [simp]: "NOT (mask_w c) = mask_w (\<not> c)"
  by (simp add: mask_defs)

lemma mask_8_bits [simp]:
  "mask_8 c AND x = (if c then x else 0)" "x AND mask_8 c = (if c then x else 0)"
  "mask_8 c OR mask_8 d = mask_8 (c \<or> d)" "NOT (mask_8 c) = mask_8 (\<not> c)"
  unfolding mask_defs byte_0xff by simp_all

lemma bit63_iff: "bit (a :: u64) 63 \<longleftrightarrow> 2 ^ 63 \<le> unat a"
proof -
  have "bit a 63 \<longleftrightarrow> odd (unat a div 2 ^ 63)"
    using bit_iff_odd [of "unat a" 63] bit_unsigned_iff [where 'a = nat and w = a and n = 63] by simp
  moreover have "unat a div 2 ^ 63 < 2" using unat_u64_lt [of a] by (simp add: less_mult_imp_div_less)
  moreover have "unat a div 2 ^ 63 = 0 \<longleftrightarrow> unat a < 2 ^ 63" by (simp add: div_eq_0_iff)
  ultimately show ?thesis by (metis One_nat_def even_zero less_2_cases linorder_not_le odd_one)
qed

lemma drop_bit_63: "drop_bit 63 (a :: u64) = of_bool (bit a 63)"
proof (rule bit_word_eqI)
  fix n
  show "bit (drop_bit 63 a) n \<longleftrightarrow> bit (of_bool (bit a 63) :: u64) n"
    by (cases n) (auto simp: bit_drop_bit_eq bit_1_iff dest: bit_imp_le_length)
qed

lemma constant_time_msb_w: "constant_time_msb_w a = mask_w (bit a 63)"
  by (simp add: constant_time_msb_w_def drop_bit_63 mask_defs)

lemma unat_sub_u64:
  fixes a b :: u64
  shows "unat (a - b) = (if unat b \<le> unat a then unat a - unat b else unat a + 2 ^ 64 - unat b)"
  by (simp add: unat_sub_if_size word_size)

lemma constant_time_lt_w: "constant_time_lt_w a b = mask_w (a < b)"
proof -
  have "bit (a XOR ((a XOR b) OR ((a - b) XOR a))) 63 \<longleftrightarrow>
      (if bit a 63 = bit b 63 then bit (a - b) 63 else bit b 63)"
    by (auto simp: bit_simps)
  also have "\<dots> \<longleftrightarrow> a < b"
    using unat_u64_lt [of a] unat_u64_lt [of b]
    by (auto simp: bit63_iff unat_sub_u64 word_less_nat_alt)
  finally show ?thesis by (simp add: constant_time_lt_w_def constant_time_msb_w)
qed

lemma constant_time_ge_w: "constant_time_ge_w a b = mask_w (b \<le> a)"
  by (simp add: constant_time_ge_w_def constant_time_lt_w not_less)

lemma constant_time_is_zero_w: "constant_time_is_zero_w a = mask_w (a = 0)"
proof -
  have "bit (NOT a AND (a - 1)) 63 \<longleftrightarrow> \<not> bit a 63 \<and> bit (a - 1) 63" by (simp add: bit_simps)
  also have "\<dots> \<longleftrightarrow> a = 0"
    using unat_u64_lt [of a] unsigned_eq_0_iff [of a] unfolding bit63_iff unat_sub_u64 by auto
  finally have "bit (NOT a AND (a - 1)) 63 \<longleftrightarrow> a = 0" .
  then show ?thesis by (simp add: constant_time_is_zero_w_def constant_time_msb_w)
qed

lemma constant_time_eq_w: "constant_time_eq_w a b = mask_w (a = b)"
  by (simp add: constant_time_eq_w_def constant_time_is_zero_w)

lemma constant_time_8:
  "constant_time_lt_8 a b = mask_8 (a < b)" "constant_time_ge_8 a b = mask_8 (b \<le> a)"
  "constant_time_is_zero_8 a = mask_8 (a = 0)" "constant_time_eq_8 a b = mask_8 (a = b)"
  by (simp_all add: constant_time_lt_8_def constant_time_ge_8_def constant_time_is_zero_8_def
      constant_time_eq_8_def constant_time_lt_w constant_time_ge_w constant_time_is_zero_w constant_time_eq_w)

lemma ucast_scast [simp]: "ucast (scast (a :: u32) :: u64) = a"
  by (rule bit_word_eqI) (auto simp: bit_simps)

lemma scast_eq_iff: "scast (a :: u32) = (scast b :: u64) \<longleftrightarrow> a = b"
  by (metis ucast_scast)

lemma constant_time_eq_int: "constant_time_eq_int a b = mask_w (a = b)" "constant_time_eq_int_8 a b = mask_8 (a = b)"
  by (simp_all add: constant_time_eq_int_def constant_time_eq_int_8_def constant_time_eq_w constant_time_8 scast_eq_iff)

lemma constant_time_select_w: "constant_time_select_w (mask_w c) a b = (if c then a else b)"
  by (simp add: constant_time_select_w_def value_barrier_w_def mask_defs)

lemma constant_time_select_int: "constant_time_select_int (mask_w c) a b = (if c then a else b)"
  by (simp add: constant_time_select_int_def constant_time_select_w)

lemma constant_time_select_8: "constant_time_select_8 (mask_8 c) a b = (if c then a else b)"
  unfolding constant_time_select_8_def constant_time_select_w_def value_barrier_w_def mask_defs byte_0xff
  by (rule bit_word_eqI) (auto simp: bit_simps)

section \<open>Properties\<close>

text \<open>C29: the mask arithmetic computes the comparisons it is named after: all ones where the relation holds and zero
  where it does not, on all words of 64 bits and in the variants that return a byte or take an \<^verbatim>\<open>int\<close>; selecting
  by such a mask is the conditional.\<close>

theorem constant_time_masks:
  "constant_time_lt_w a b = (if a < b then CONSTTIME_TRUE_W else CONSTTIME_FALSE_W) \<and>
   constant_time_ge_w a b = (if b \<le> a then CONSTTIME_TRUE_W else CONSTTIME_FALSE_W) \<and>
   constant_time_eq_w a b = (if a = b then CONSTTIME_TRUE_W else CONSTTIME_FALSE_W) \<and>
   constant_time_is_zero_w a = (if a = 0 then CONSTTIME_TRUE_W else CONSTTIME_FALSE_W) \<and>
   constant_time_lt_8 a b = (if a < b then CONSTTIME_TRUE_8 else CONSTTIME_FALSE_8) \<and>
   constant_time_ge_8 a b = (if b \<le> a then CONSTTIME_TRUE_8 else CONSTTIME_FALSE_8) \<and>
   constant_time_eq_8 a b = (if a = b then CONSTTIME_TRUE_8 else CONSTTIME_FALSE_8) \<and>
   constant_time_eq_int x y = (if x = y then CONSTTIME_TRUE_W else CONSTTIME_FALSE_W) \<and>
   constant_time_select_w (constant_time_lt_w a b) c d = (if a < b then c else d) \<and>
   constant_time_select_int (constant_time_eq_w a b) i j = (if a = b then i else j) \<and>
   constant_time_select_8 (constant_time_eq_8 a b) u v = (if a = b then u else v)"
  unfolding constant_time_lt_w constant_time_ge_w constant_time_eq_w constant_time_is_zero_w constant_time_8
    constant_time_eq_int constant_time_select_w constant_time_select_int constant_time_select_8
  by (simp add: mask_w_def mask_8_def)

end
