(* ===== verification/Base64.thy ===== *)
theory Base64
  imports Mem Constant_Time
begin

text \<open>
  The base64 coder (\<^verbatim>\<open>crypto/base64/base64.c\<close>): constant-time character conversion, one-shot encoding and
  decoding, and the streaming interface with its line breaks. A context is the record of the code; an operation returns
  the bytes written through the output pointer, the value stored through \<^verbatim>\<open>out_len\<close> and the new context. The lemmas
  show that the characters are those of the standard alphabet, that decoding inverts encoding, that any sequence of
  updates of the encoder writes the lines of the concatenated input (\<open>encode_stream\<close>), that the decoding stream accepts
  exactly the inputs whose characters other than spaces decode in one piece (\<open>decode_stream_Some_iff\<close>), and that the
  decoding stream inverts the encoding stream (\<open>stream_roundtrip\<close>).
\<close>

section \<open>Characters\<close>

definition constant_time_lt_args_8 :: "byte \<Rightarrow> byte \<Rightarrow> byte" where
  "constant_time_lt_args_8 a b = (let aw = ucast a; bw = ucast b in ucast (constant_time_msb_w (aw - bw)))"

definition constant_time_in_range_8 :: "byte \<Rightarrow> byte \<Rightarrow> byte \<Rightarrow> byte" where
  "constant_time_in_range_8 a lo hi = (let a = a - lo in constant_time_lt_args_8 a (hi - lo + 1))"

definition conv_bin2ascii :: "byte \<Rightarrow> byte" where
  "conv_bin2ascii a =
     (let a = a AND 0x3f;
          ret = constant_time_select_8 (constant_time_eq_8 (ucast a) 62) 0x2b 0x2f;
          ret = constant_time_select_8 (constant_time_lt_args_8 a 62) (a - 52 + 0x30) ret;
          ret = constant_time_select_8 (constant_time_lt_args_8 a 52) (a - 26 + 0x61) ret
      in constant_time_select_8 (constant_time_lt_args_8 a 26) (a + 0x41) ret)"

definition base64_ascii_to_bin :: "byte \<Rightarrow> byte" where
  "base64_ascii_to_bin a =
     (let is_upper = constant_time_in_range_8 a 0x41 0x5a;
          is_lower = constant_time_in_range_8 a 0x61 0x7a;
          is_digit = constant_time_in_range_8 a 0x30 0x39;
          is_plus = constant_time_eq_8 (ucast a) 0x2b;
          is_slash = constant_time_eq_8 (ucast a) 0x2f;
          is_equals = constant_time_eq_8 (ucast a) 0x3d;
          ret = 0;
          ret = ret OR is_upper AND (a - 0x41);
          ret = ret OR is_lower AND (a - 0x61 + 26);
          ret = ret OR is_digit AND (a - 0x30 + 52);
          ret = ret OR is_plus AND 62;
          ret = ret OR is_slash AND 63;
          is_valid = is_upper OR is_lower OR is_digit OR is_plus OR is_slash OR is_equals
      in ret OR NOT is_valid)"

section \<open>Encoding\<close>

definition EVP_EncodedLength :: "nat \<Rightarrow> nat option" where
  "EVP_EncodedLength len =
     (if size_add len 2 < len then None
      else
        let len = size_add len 2 div 3 in
        if size_mul len 4 div 4 \<noteq> len then None
        else
          let len = size_mul len 4 in
          if size_add len 1 < len then None else Some (size_add len 1))"

fun encode_block_loop :: "byte list \<Rightarrow> byte list" where
  "encode_block_loop (a # b # c # src) =
     (let l = push_bit 16 (ucast a) OR push_bit 8 (ucast b) OR ucast c :: u32 in
      [conv_bin2ascii (ucast (drop_bit 18 l)), conv_bin2ascii (ucast (drop_bit 12 l)),
       conv_bin2ascii (ucast (drop_bit 6 l)), conv_bin2ascii (ucast l)] @ encode_block_loop src)"
| "encode_block_loop [a, b] =
     (let l = push_bit 16 (ucast a) OR push_bit 8 (ucast b) :: u32 in
      [conv_bin2ascii (ucast (drop_bit 18 l)), conv_bin2ascii (ucast (drop_bit 12 l)),
       conv_bin2ascii (ucast (drop_bit 6 l)), 0x3d])"
| "encode_block_loop [a] =
     (let l = push_bit 16 (ucast a) :: u32 in
      [conv_bin2ascii (ucast (drop_bit 18 l)), conv_bin2ascii (ucast (drop_bit 12 l)), 0x3d, 0x3d])"
| "encode_block_loop [] = []"

text \<open>The bytes written to \<^verbatim>\<open>dst\<close>, the final zero included, and the return value.\<close>

definition EVP_EncodeBlock :: "byte list \<Rightarrow> nat \<Rightarrow> byte list \<times> nat" where
  "EVP_EncodeBlock src src_len = (let text = encode_block_loop (take src_len src) in (text @ [0], length text))"

record evp_encode_ctx =
  data_used :: nat
  ctx_data :: "byte list"
  eof_seen :: bool
  error_encountered :: bool

definition sizeof_data :: nat where "sizeof_data = 48"

definition EVP_EncodeInit :: evp_encode_ctx where
  "EVP_EncodeInit =
     \<lparr>data_used = 0, ctx_data = replicate sizeof_data 0, eof_seen = False, error_encountered = False\<rparr>"

text \<open>The loop over the complete lines: the text, the total (\<open>None\<close> when it overflows) and the rest of the input. The
  zero of \<^verbatim>\<open>EVP_EncodeBlock\<close> becomes the end of line.\<close>

function encode_lines_loop :: "byte list \<Rightarrow> nat \<Rightarrow> byte list \<times> nat option \<times> byte list" where
  "encode_lines_loop inp total_len =
     (if length inp \<ge> sizeof_data then
        let (block, encoded) = EVP_EncodeBlock inp sizeof_data;
            line = block[encoded := 0x0a];
            inp = drop sizeof_data inp in
        if size_add (size_add total_len encoded) 1 < total_len then (line, None, inp)
        else
          (case encode_lines_loop inp (size_add (size_add total_len encoded) 1) of
             (text, total_len, rest) \<Rightarrow> (line @ text, total_len, rest))
      else ([], Some total_len, inp))"
  by pat_completeness auto
termination
  by (relation "measure (\<lambda>(inp, total_len). length inp)") (auto simp: sizeof_data_def)

declare encode_lines_loop.simps [simp del]

definition terminated :: "byte list \<Rightarrow> byte list" where
  "terminated text = (if text = [] then [] else text @ [0])"

text \<open>The results are the bytes written to \<^verbatim>\<open>out\<close>, \<^verbatim>\<open>*out_len\<close> and the context.\<close>

definition EVP_EncodeUpdate :: "evp_encode_ctx \<Rightarrow> byte list \<Rightarrow> byte list \<times> nat \<times> evp_encode_ctx" where
  "EVP_EncodeUpdate ctx inp =
     (let in_len = length inp; used = data_used ctx in
      if in_len = 0 then ([], 0, ctx)
      else if sizeof_data - used > in_len then
        ([], 0, ctx\<lparr>ctx_data := mem_write used inp (ctx_data ctx), data_used := used + in_len\<rparr>)
      else
        let (first, total_len, inp, ctx) =
              (if used \<noteq> 0 then
                 let todo = sizeof_data - used;
                     ctx = ctx\<lparr>ctx_data := mem_write used (take todo inp) (ctx_data ctx)\<rparr>;
                     (block, encoded) = EVP_EncodeBlock (ctx_data ctx) sizeof_data in
                 (block[encoded := 0x0a], encoded + 1, drop todo inp, ctx\<lparr>data_used := 0\<rparr>)
               else ([], 0, inp, ctx));
            (lines, total_len, rest) = encode_lines_loop inp total_len in
        (case total_len of
           None \<Rightarrow> (terminated (first @ lines), 0, ctx)
         | Some total_len \<Rightarrow>
             (terminated (first @ lines), if total_len > INT_MAX then 0 else total_len,
              ctx\<lparr>ctx_data := mem_write 0 rest (ctx_data ctx), data_used := length rest\<rparr>)))"

definition EVP_EncodeFinal :: "evp_encode_ctx \<Rightarrow> byte list \<times> nat \<times> evp_encode_ctx" where
  "EVP_EncodeFinal ctx =
     (if data_used ctx = 0 then ([], 0, ctx)
      else
        let (block, encoded) = EVP_EncodeBlock (ctx_data ctx) (data_used ctx);
            out = block[encoded := 0x0a];
            encoded = encoded + 1 in
        (out @ [0], encoded, ctx\<lparr>data_used := 0\<rparr>))"

section \<open>Decoding\<close>

definition EVP_DecodedLength :: "nat \<Rightarrow> nat option" where
  "EVP_DecodedLength len = (if len mod 4 \<noteq> 0 then None else Some (size_mul (len div 4) 3))"

definition EVP_DecodeInit :: evp_encode_ctx where
  "EVP_DecodeInit =
     \<lparr>data_used = 0, ctx_data = replicate sizeof_data 0, eof_seen = False, error_encountered = False\<rparr>"

definition base64_decode_quad :: "byte list \<Rightarrow> byte list option" where
  "base64_decode_quad inp =
     (let a = base64_ascii_to_bin (inp ! 0); b = base64_ascii_to_bin (inp ! 1);
          c = base64_ascii_to_bin (inp ! 2); d = base64_ascii_to_bin (inp ! 3) in
      if a = 0xff \<or> b = 0xff \<or> c = 0xff \<or> d = 0xff then None
      else
        let v = push_bit 18 (ucast a) OR push_bit 12 (ucast b) OR push_bit 6 (ucast c) OR ucast d :: u32;
            padding_pattern = push_bit 3 (of_bool (inp ! 0 = 0x3d)) OR push_bit 2 (of_bool (inp ! 1 = 0x3d)) OR
              push_bit 1 (of_bool (inp ! 2 = 0x3d)) OR of_bool (inp ! 3 = 0x3d) :: nat in
        if padding_pattern = 0 then Some [ucast (drop_bit 16 v), ucast (drop_bit 8 v), ucast v]
        else if padding_pattern = 1 then Some [ucast (drop_bit 16 v), ucast (drop_bit 8 v)]
        else if padding_pattern = 3 then Some [ucast (drop_bit 16 v)]
        else None)"

definition is_line_space :: "byte \<Rightarrow> bool" where
  "is_line_space c \<longleftrightarrow> c = 0x20 \<or> c = 0x09 \<or> c = 0x0d \<or> c = 0x0a"

text \<open>The loop of \<^verbatim>\<open>EVP_DecodeUpdate\<close>: whether it ran to the end, the context and the bytes written so far.\<close>

fun decode_update_loop ::
    "evp_encode_ctx \<Rightarrow> byte list \<Rightarrow> byte list \<Rightarrow> bool \<times> evp_encode_ctx \<times> byte list" where
  "decode_update_loop ctx out [] = (True, ctx, out)"
| "decode_update_loop ctx out (c # inp) =
     (if is_line_space c then decode_update_loop ctx out inp
      else if eof_seen ctx then (False, ctx\<lparr>error_encountered := True\<rparr>, out)
      else
        let ctx = ctx\<lparr>ctx_data := (ctx_data ctx)[data_used ctx := c], data_used := data_used ctx + 1\<rparr> in
        if data_used ctx = 4 then
          (case base64_decode_quad (ctx_data ctx) of
             None \<Rightarrow> (False, ctx\<lparr>error_encountered := True\<rparr>, out)
           | Some bytes \<Rightarrow>
               decode_update_loop
                 (ctx\<lparr>data_used := 0, eof_seen := (if length bytes < 3 then True else eof_seen ctx)\<rparr>)
                 (out @ bytes) inp)
        else decode_update_loop ctx out inp)"

text \<open>The return value, \<^verbatim>\<open>*out_len\<close>, the bytes written and the context.\<close>

definition EVP_DecodeUpdate :: "evp_encode_ctx \<Rightarrow> byte list \<Rightarrow> int \<times> nat \<times> byte list \<times> evp_encode_ctx" where
  "EVP_DecodeUpdate ctx inp =
     (if error_encountered ctx then (- 1, 0, [], ctx)
      else
        (case decode_update_loop ctx [] inp of
           (False, ctx, out) \<Rightarrow> (- 1, 0, out, ctx)
         | (True, ctx, out) \<Rightarrow>
             if length out > INT_MAX then (- 1, 0, out, ctx\<lparr>error_encountered := True\<rparr>)
             else if eof_seen ctx then (0, length out, out, ctx)
             else (1, length out, out, ctx)))"

definition EVP_DecodeFinal :: "evp_encode_ctx \<Rightarrow> int" where
  "EVP_DecodeFinal ctx = (if error_encountered ctx \<or> data_used ctx \<noteq> 0 then - 1 else 1)"

function decode_base64_loop :: "byte list \<Rightarrow> byte list option" where
  "decode_base64_loop inp =
     (if inp = [] then Some []
      else case base64_decode_quad (take 4 inp) of
        None \<Rightarrow> None
      | Some bytes \<Rightarrow>
          if length bytes \<noteq> 3 \<and> length inp \<noteq> 4 then None
          else map_option ((@) bytes) (decode_base64_loop (drop 4 inp)))"
  by pat_completeness auto
termination
  by (relation "measure length") auto

declare decode_base64_loop.simps [simp del]

definition EVP_DecodeBase64 :: "nat \<Rightarrow> byte list \<Rightarrow> byte list option" where
  "EVP_DecodeBase64 max_out inp =
     (if length inp mod 4 \<noteq> 0 then None
      else case EVP_DecodedLength (length inp) of
        None \<Rightarrow> None
      | Some max_len \<Rightarrow> if max_out < max_len then None else decode_base64_loop inp)"

text \<open>\<^verbatim>\<open>EVP_DecodeBlock\<close>: the return value and the bytes written.\<close>

definition EVP_DecodeBlock :: "byte list \<Rightarrow> int \<times> byte list" where
  "EVP_DecodeBlock src =
     (let src = dropWhile (\<lambda>c. c = 0x20 \<or> c = 0x09) src;
          src = rev (dropWhile is_line_space (rev src)) in
      case EVP_DecodedLength (length src) of
        None \<Rightarrow> (- 1, [])
      | Some dst_len \<Rightarrow>
          if dst_len > INT_MAX then (- 1, [])
          else
            (case EVP_DecodeBase64 dst_len src of
               None \<Rightarrow> (- 1, [])
             | Some out \<Rightarrow>
                 let out = out @ replicate ((3 - length out mod 3) mod 3) 0 in
                 (int (length out), out)))"

section \<open>The alphabet\<close>

definition b64_char :: "nat \<Rightarrow> byte" where
  "b64_char n =
     word_of_nat (if n < 26 then n + 65 else if n < 52 then n + 71 else if n < 62 then n - 4 else if n = 62 then 43 else 47)"

definition b64_val :: "byte \<Rightarrow> nat option" where
  "b64_val c =
     (let n = unat c in
      if 65 \<le> n \<and> n \<le> 90 then Some (n - 65) else if 97 \<le> n \<and> n \<le> 122 then Some (n - 71)
      else if 48 \<le> n \<and> n \<le> 57 then Some (n + 4) else if n = 43 then Some 62 else if n = 47 then Some 63 else None)"

lemma unat_b64_char:
  "unat (b64_char n) =
     (if n < 26 then n + 65 else if n < 52 then n + 71 else if n < 62 then n - 4 else if n = 62 then 43 else 47)"
  unfolding b64_char_def by (rule unat_word_of_nat_lt) auto

lemma b64_val_char [simp]: "n < 64 \<Longrightarrow> b64_val (b64_char n) = Some n"
  by (auto simp: b64_val_def unat_b64_char Let_def)

lemma b64_val_bound: "b64_val c = Some n \<Longrightarrow> n < 64"
  by (auto simp: b64_val_def Let_def split: if_split_asm)

lemma b64_char_val:
  assumes "b64_val c = Some n" shows "b64_char n = c"
proof -
  have "unat (b64_char n) = unat c"
    using assms by (auto simp: unat_b64_char b64_val_def Let_def split: if_split_asm)
  then show ?thesis by (simp only: word_unat_eq_iff)
qed

lemma b64_val_pad [simp]: "b64_val 0x3d = None"
  by (simp add: b64_val_def)

lemma b64_char_not_pad [simp]: "n < 64 \<Longrightarrow> b64_char n \<noteq> 0x3d"
  by (metis b64_val_char b64_val_pad option.distinct(1))

lemma lt_args_8: "constant_time_lt_args_8 a b = mask_8 (a < b)"
proof -
  have "bit (ucast a - ucast b :: u64) 63 \<longleftrightarrow> a < b"
    using unat_byte_lt [of a] unat_byte_lt [of b]
    by (auto simp: bit63_iff unat_sub_u64 word_less_nat_alt)
  then show ?thesis by (simp add: constant_time_lt_args_8_def constant_time_msb_w)
qed

lemma unat_sub_byte:
  fixes a b :: byte
  shows "unat (a - b) = (if unat b \<le> unat a then unat a - unat b else unat a + 256 - unat b)"
  by (simp add: unat_sub_if_size word_size)

lemma in_range_8:
  assumes "unat lo \<le> unat hi" "unat hi - unat lo < 255"
  shows "constant_time_in_range_8 a lo hi = mask_8 (unat lo \<le> unat a \<and> unat a \<le> unat hi)"
proof -
  have "unat (hi - lo + 1) = unat hi - unat lo + 1"
    using assms by (subst unat_add_lem [THEN iffD1]) (simp_all add: unat_sub_byte)
  then have "a - lo < hi - lo + 1 \<longleftrightarrow> unat lo \<le> unat a \<and> unat a \<le> unat hi"
    using assms unat_byte_lt [of hi] by (auto simp: word_less_nat_alt unat_sub_byte)
  then show ?thesis by (simp add: constant_time_in_range_8_def lt_args_8)
qed

lemma conv_bin2ascii: "conv_bin2ascii a = b64_char (unat a mod 64)"
proof -
  define m where "m = a AND 0x3f"
  have "(0x3f :: byte) = mask 6" by (simp add: mask_eq_exp_minus_1)
  then have m: "unat m = unat a mod 64" using unat_and_mask_eq [of a 6] by (simp add: m_def)
  have lt: "unat m < 64" by (simp add: m)
  have cmp: "m < 62 \<longleftrightarrow> unat m < 62" "m < 52 \<longleftrightarrow> unat m < 52" "m < 26 \<longleftrightarrow> unat m < 26"
    by (simp_all add: word_less_nat_alt)
  have m62: "ucast m = (62 :: u64) \<longleftrightarrow> unat m = 62"
    using word_unat_eq_iff [of "ucast m :: u64" 62] by simp
  have r: "m = word_of_nat (unat m)" by simp
  have "conv_bin2ascii a =
      (if unat m < 26 then m + 0x41 else if unat m < 52 then m - 26 + 0x61
       else if unat m < 62 then m - 52 + 0x30 else if unat m = 62 then 0x2b else 0x2f)"
    by (simp add: conv_bin2ascii_def Let_def lt_args_8 constant_time_8 constant_time_select_8 cmp m62 flip: m_def)
  also have "\<dots> = b64_char (unat m)"
    using lt by (auto simp: b64_char_def of_nat_diff)
  finally show ?thesis by (simp add: m)
qed

lemma base64_ascii_to_bin:
  "base64_ascii_to_bin c = (case b64_val c of Some n \<Rightarrow> word_of_nat n | None \<Rightarrow> if c = 0x3d then 0 else 0xff)"
proof -
  have eqs: "ucast c = (0x2b :: u64) \<longleftrightarrow> unat c = 43" "ucast c = (0x2f :: u64) \<longleftrightarrow> unat c = 47"
    "ucast c = (0x3d :: u64) \<longleftrightarrow> unat c = 61" "c = 0x3d \<longleftrightarrow> unat c = 61"
    using word_unat_eq_iff [of "ucast c :: u64" 43] word_unat_eq_iff [of "ucast c :: u64" 47]
      word_unat_eq_iff [of "ucast c :: u64" 61] word_unat_eq_iff [of c 61] by simp_all
  have r: "c = word_of_nat (unat c)" by simp
  show ?thesis
    by (simp add: base64_ascii_to_bin_def Let_def in_range_8 constant_time_8 eqs)
      (auto simp: b64_val_def Let_def mask_defs)
qed

section \<open>Groups\<close>

text \<open>Three bytes are a number of 24 bits, four characters its digits in base 64.\<close>

definition digits64 :: "nat \<Rightarrow> nat list" where
  "digits64 v = [v div 64 ^ 3 mod 64, v div 64 ^ 2 mod 64, v div 64 mod 64, v mod 64]"

definition b64_quad :: "byte list \<Rightarrow> byte list" where
  "b64_quad bs = map b64_char (digits64 (be_val bs))"

lemma conv_digit:
  fixes l :: u32
  shows "conv_bin2ascii (ucast (drop_bit k l)) = b64_char (unat l div 2 ^ k mod 64)"
    "conv_bin2ascii (ucast l) = b64_char (unat l mod 64)"
proof -
  have m: "n mod 256 mod 64 = n mod 64" for n :: nat by (rule mod_mod_cancel) simp
  have u: "unat (ucast x :: byte) = unat x mod 256" for x :: u32
    by (simp add: unsigned_ucast_eq take_bit_eq_mod)
  show "conv_bin2ascii (ucast (drop_bit k l)) = b64_char (unat l div 2 ^ k mod 64)"
    "conv_bin2ascii (ucast l) = b64_char (unat l mod 64)"
    by (simp_all add: conv_bin2ascii u m unat_drop_bit_div del: unsigned_drop_bit_eq)
qed

lemma conv_group:
  fixes l :: u32
  assumes "unat l = v"
  shows "map b64_char (digits64 v) =
    [conv_bin2ascii (ucast (drop_bit 18 l)), conv_bin2ascii (ucast (drop_bit 12 l)),
     conv_bin2ascii (ucast (drop_bit 6 l)), conv_bin2ascii (ucast l)]"
  unfolding conv_digit(1) [of 18 l] conv_digit(1) [of 12 l] conv_digit(1) [of 6 l] conv_digit(2) [of l] assms
  by (simp add: digits64_def)

lemma unat_group:
  "unat (push_bit 16 (ucast (a :: byte)) OR push_bit 8 (ucast (b :: byte)) OR ucast (c :: byte) :: u32) =
     be_val [a, b, c]"
proof -
  have b: "unat (ucast x :: u32) = unat x" "unat x < 256" for x :: byte using unat_byte_lt [of x] by simp_all
  have 1: "unat (push_bit 8 (ucast b) OR ucast c :: u32) = unat b * 256 + unat c"
    using b(2) [of b] b(2) [of c] unat_push_or [of "ucast c :: u32" 8 "ucast b"] by simp
  then have "unat (push_bit 8 (ucast b) OR ucast c :: u32) < 65536" using b(2) [of b] b(2) [of c] by simp
  with 1 b(2) [of a] unat_push_or [of "push_bit 8 (ucast b) OR ucast c :: u32" 16 "ucast a"] show ?thesis
    by (simp add: be_val_Cons)
qed

lemma encode_block_simps:
  "encode_block_loop (a # b # c # src) = b64_quad [a, b, c] @ encode_block_loop src"
  "encode_block_loop [a, b] = take 3 (b64_quad [a, b, 0]) @ [0x3d]"
  "encode_block_loop [a] = take 2 (b64_quad [a, 0, 0]) @ [0x3d, 0x3d]"
proof -
  show "encode_block_loop (a # b # c # src) = b64_quad [a, b, c] @ encode_block_loop src"
    by (simp only: encode_block_loop.simps Let_def b64_quad_def conv_group [OF unat_group])
  have "unat (push_bit 16 (ucast a) OR push_bit 8 (ucast b) :: u32) = be_val [a, b, 0]"
    using unat_group [of a b 0] by simp
  from conv_group [OF this] show "encode_block_loop [a, b] = take 3 (b64_quad [a, b, 0]) @ [0x3d]"
    by (simp only: encode_block_loop.simps Let_def b64_quad_def) simp
  have "unat (push_bit 16 (ucast a) :: u32) = be_val [a, 0, 0]" using unat_group [of a 0 0] by simp
  from conv_group [OF this] show "encode_block_loop [a] = take 2 (b64_quad [a, 0, 0]) @ [0x3d, 0x3d]"
    by (simp only: encode_block_loop.simps Let_def b64_quad_def) simp
qed

lemma length_b64_quad [simp]: "length (b64_quad bs) = 4"
  by (simp add: b64_quad_def digits64_def)

lemma length_encode_block_loop: "length (encode_block_loop src) = 4 * ((length src + 2) div 3)"
proof (induction src rule: encode_block_loop.induct)
  case (1 a b c src)
  have "(length (a # b # c # src) + 2) div 3 = (length src + 2 + 3) div 3" by (simp add: add.commute)
  also have "\<dots> = (length src + 2) div 3 + 1" by (rule div_add_self2) simp
  finally have e: "(length (a # b # c # src) + 2) div 3 = (length src + 2) div 3 + 1" .
  show ?case unfolding e encode_block_simps length_append length_b64_quad using 1 by simp
qed (simp_all only: encode_block_simps, simp_all)

section \<open>Decoding a quad\<close>

lemma be_val_3: "be_val [a, b, c] = unat a * 65536 + unat b * 256 + unat c"
  by (simp add: be_val_Cons)

lemma unat_quad:
  assumes "unat a < 64" "unat b < 64" "unat c < 64" "unat d < 64"
  shows "unat (push_bit 18 (ucast (a :: byte)) OR push_bit 12 (ucast (b :: byte)) OR push_bit 6 (ucast (c :: byte)) OR
      ucast (d :: byte) :: u32) = unat a * 64 ^ 3 + unat b * 64 ^ 2 + unat c * 64 + unat d"
proof -
  have 1: "unat (push_bit 6 (ucast c) OR ucast d :: u32) = unat c * 64 + unat d"
    using assms unat_push_or [of "ucast d :: u32" 6 "ucast c"] by simp
  then have l: "unat (push_bit 6 (ucast c) OR ucast d :: u32) < 4096" using assms by simp
  have 2: "unat (push_bit 12 (ucast b) OR push_bit 6 (ucast c) OR ucast d :: u32) =
      unat b * 64 ^ 2 + unat c * 64 + unat d"
    using assms 1 l unat_push_or [of "push_bit 6 (ucast c) OR ucast d :: u32" 12 "ucast b"] by simp
  then have "unat (push_bit 12 (ucast b) OR push_bit 6 (ucast c) OR ucast d :: u32) < 262144" using assms by simp
  with 2 assms unat_push_or [of "push_bit 12 (ucast b) OR push_bit 6 (ucast c) OR ucast d :: u32" 18 "ucast a"]
  show ?thesis by simp
qed

text \<open>The values of the four characters, with padding for zero, and the bytes they encode.\<close>

definition quad_val :: "byte \<Rightarrow> nat option" where
  "quad_val c = (if c = 0x3d then Some 0 else b64_val c)"

definition undigits64 :: "nat list \<Rightarrow> nat" where
  "undigits64 ns = foldl (\<lambda>v n. v * 64 + n) 0 ns"

lemma quad_val_bound: "quad_val c = Some n \<Longrightarrow> n < 64"
  by (auto simp: quad_val_def dest: b64_val_bound split: if_split_asm)

lemma ascii_to_bin_quad_val:
  "base64_ascii_to_bin c = (case quad_val c of Some n \<Rightarrow> word_of_nat n | None \<Rightarrow> 0xff)"
  by (simp add: base64_ascii_to_bin quad_val_def split: option.split)

lemma ascii_to_bin_invalid: "base64_ascii_to_bin c = 0xff \<longleftrightarrow> quad_val c = None"
proof (cases "quad_val c")
  case (Some n)
  then have "n < 64" by (rule quad_val_bound)
  then have "unat (word_of_nat n :: byte) \<noteq> unat (0xff :: byte)" by (subst unat_word_of_nat_lt) simp_all
  then show ?thesis using Some by (auto simp: ascii_to_bin_quad_val)
qed (simp add: ascii_to_bin_quad_val)

lemma byte_parts:
  fixes v :: u32
  assumes "unat v < 2 ^ 24"
  shows "[ucast (drop_bit 16 v), ucast (drop_bit 8 v), ucast v] = be_bytes 3 (unat v)"
proof -
  have u: "ucast x = (word_of_nat (unat x) :: byte)" for x :: u32 by (simp add: unsigned_ucast_eq)
  show ?thesis
    by (simp add: u be_bytes_numeral unat_drop_bit_div del: unsigned_drop_bit_eq of_nat_unat)
      (simp add: div_mult2_eq [symmetric])
qed

lemma padding_pattern:
  "push_bit 3 (of_bool p) OR push_bit 2 (of_bool q) OR push_bit 1 (of_bool r) OR of_bool s =
    (8 * of_bool p + 4 * of_bool q + 2 * of_bool r + of_bool s :: nat)"
  by (cases p; cases q; cases r; cases s) simp_all

lemma decode_quad:
  "base64_decode_quad [c0, c1, c2, c3] =
     (case (quad_val c0, quad_val c1, quad_val c2, quad_val c3) of
        (Some n0, Some n1, Some n2, Some n3) \<Rightarrow>
          let bytes = be_bytes 3 (undigits64 [n0, n1, n2, n3]) in
          if c0 = 0x3d \<or> c1 = 0x3d then None
          else if c2 = 0x3d then if c3 = 0x3d then Some (take 1 bytes) else None
          else if c3 = 0x3d then Some (take 2 bytes)
          else Some bytes
      | _ \<Rightarrow> None)"
proof -
  have nth: "[c0, c1, c2, c3] ! 0 = c0" "[c0, c1, c2, c3] ! 1 = c1" "[c0, c1, c2, c3] ! 2 = c2"
    "[c0, c1, c2, c3] ! 3 = c3" by simp_all
  show ?thesis
proof (cases "quad_val c0 = None \<or> quad_val c1 = None \<or> quad_val c2 = None \<or> quad_val c3 = None")
  case True
  then have "base64_decode_quad [c0, c1, c2, c3] = None"
    by (simp only: base64_decode_quad_def Let_def nth ascii_to_bin_invalid if_True)
  with True show ?thesis by (elim disjE) (simp_all split: option.split)
next
  case False
  then obtain n0 n1 n2 n3 where n: "quad_val c0 = Some n0" "quad_val c1 = Some n1" "quad_val c2 = Some n2"
    "quad_val c3 = Some n3" by auto
  define w where "w n = (word_of_nat n :: byte)" for n
  have b: "base64_ascii_to_bin c0 = w n0" "base64_ascii_to_bin c1 = w n1" "base64_ascii_to_bin c2 = w n2"
    "base64_ascii_to_bin c3 = w n3" using n by (simp_all add: ascii_to_bin_quad_val w_def)
  have lt: "n0 < 64" "n1 < 64" "n2 < 64" "n3 < 64" using n by (auto dest: quad_val_bound)
  have u: "unat (w n) = n" if "n < 64" for n unfolding w_def by (rule unat_word_of_nat_lt) (use that in simp)
  define v :: u32 where "v = push_bit 18 (ucast (w n0)) OR push_bit 12 (ucast (w n1)) OR push_bit 6 (ucast (w n2)) OR
      ucast (w n3)"
  have v: "unat v = undigits64 [n0, n1, n2, n3]"
    unfolding v_def using unat_quad [of "w n0" "w n1" "w n2" "w n3"] lt by (simp add: u undigits64_def)
  then have vl: "unat v < 2 ^ 24" using lt by (simp add: undigits64_def)
  have bytes: "be_bytes 3 (undigits64 [n0, n1, n2, n3]) = [ucast (drop_bit 16 v), ucast (drop_bit 8 v), ucast v]"
    unfolding v [symmetric] by (rule byte_parts [OF vl, symmetric])
  have ff: "w n0 \<noteq> 0xff" "w n1 \<noteq> 0xff" "w n2 \<noteq> 0xff" "w n3 \<noteq> 0xff"
    using n ascii_to_bin_invalid b by (metis option.distinct(1))+
  show ?thesis
  proof -
    have "base64_decode_quad [c0, c1, c2, c3] =
        (let padding_pattern = 8 * of_bool (c0 = 0x3d) + 4 * of_bool (c1 = 0x3d) + 2 * of_bool (c2 = 0x3d) +
              of_bool (c3 = 0x3d) :: nat in
        if padding_pattern = 0 then Some [ucast (drop_bit 16 v), ucast (drop_bit 8 v), ucast v]
        else if padding_pattern = 1 then Some [ucast (drop_bit 16 v), ucast (drop_bit 8 v)]
        else if padding_pattern = 3 then Some [ucast (drop_bit 16 v)]
        else None)"
      unfolding base64_decode_quad_def nth b Let_def padding_pattern v_def [symmetric]
      by (simp only: ff simp_thms if_False)
    also have "\<dots> = (let bytes = be_bytes 3 (undigits64 [n0, n1, n2, n3]) in
          if c0 = 0x3d \<or> c1 = 0x3d then None
          else if c2 = 0x3d then if c3 = 0x3d then Some (take 1 bytes) else None
          else if c3 = 0x3d then Some (take 2 bytes)
          else Some bytes)"
      unfolding bytes
      by (cases "c0 = 0x3d"; cases "c1 = 0x3d"; cases "c2 = 0x3d"; cases "c3 = 0x3d") (simp_all only:, simp_all)
    finally show ?thesis unfolding n by simp
  qed
qed
qed

section \<open>One block\<close>

lemma encode_block_append:
  "length xs mod 3 = 0 \<Longrightarrow> encode_block_loop (xs @ ys) = encode_block_loop xs @ encode_block_loop ys"
  by (induction xs rule: encode_block_loop.induct) (simp_all add: encode_block_simps del: encode_block_loop.simps(1-3))

lemma undigits_digits64: "v < 64 ^ 4 \<Longrightarrow> undigits64 (digits64 v) = v"
proof -
  assume v: "v < 64 ^ 4"
  have "v div 64 ^ 3 mod 64 = v div 64 ^ 3" using v by (simp add: less_mult_imp_div_less)
  moreover have "v div 64 ^ 2 = v div 64 ^ 3 * 64 + v div 64 ^ 2 mod 64"
    using div_mult_mod_eq [of "v div 64 ^ 2" 64] by (simp add: div_mult2_eq [symmetric])
  moreover have "v div 64 = v div 64 ^ 2 * 64 + v div 64 mod 64"
    using div_mult_mod_eq [of "v div 64" 64] by (simp add: div_mult2_eq [symmetric])
  moreover have "v = v div 64 * 64 + v mod 64" by simp
  ultimately show ?thesis by (simp add: undigits64_def digits64_def)
qed

lemma quad_val_char [simp]: "n < 64 \<Longrightarrow> quad_val (b64_char n) = Some n"
  by (simp add: quad_val_def)

lemma quad_val_pad [simp]: "quad_val 0x3d = Some 0"
  by (simp add: quad_val_def)

lemma be_bytes_3: "be_bytes 3 (be_val [a, b, c]) = [a, b, c]"
  using be_bytes_be_val [of "[a, b, c]"] by (simp add: numeral_3_eq_3)

lemma group_bound: "be_val [a, b, c] < 64 ^ 4"
  using be_val_bound [of "[a, b, c]"] by simp

lemma decode_digits:
  assumes "n0 < 64" "n1 < 64" "n2 < 64" "n3 < 64"
  shows "base64_decode_quad [b64_char n0, b64_char n1, b64_char n2, b64_char n3] =
      Some (be_bytes 3 (undigits64 [n0, n1, n2, n3]))"
    "base64_decode_quad [b64_char n0, b64_char n1, b64_char n2, 0x3d] =
      Some (take 2 (be_bytes 3 (undigits64 [n0, n1, n2, 0])))"
    "base64_decode_quad [b64_char n0, b64_char n1, 0x3d, 0x3d] =
      Some (take 1 (be_bytes 3 (undigits64 [n0, n1, 0, 0])))"
  using assms by (simp_all only: decode_quad quad_val_char quad_val_pad b64_char_not_pad Let_def prod.case option.case
      simp_thms if_True if_False)

lemma quad_digits:
  obtains n0 n1 n2 n3 where "n0 < 64" "n1 < 64" "n2 < 64" "n3 < 64" "n2 = be_val [a, b, c] div 64 mod 64"
    "n3 = be_val [a, b, c] mod 64" "b64_quad [a, b, c] = [b64_char n0, b64_char n1, b64_char n2, b64_char n3]"
    "be_bytes 3 (undigits64 [n0, n1, n2, n3]) = [a, b, c]"
proof (rule that)
  let ?v = "be_val [a, b, c]"
  show "?v div 64 ^ 3 mod 64 < 64" "?v div 64 ^ 2 mod 64 < 64" "?v div 64 mod 64 < 64" "?v mod 64 < 64"
    by (rule mod_less_divisor, simp)+
  show "b64_quad [a, b, c] = [b64_char (?v div 64 ^ 3 mod 64), b64_char (?v div 64 ^ 2 mod 64),
      b64_char (?v div 64 mod 64), b64_char (?v mod 64)]"
    unfolding b64_quad_def digits64_def by (simp only: list.map)
  have "undigits64 [?v div 64 ^ 3 mod 64, ?v div 64 ^ 2 mod 64, ?v div 64 mod 64, ?v mod 64] = ?v"
    using undigits_digits64 [OF group_bound] unfolding digits64_def .
  then show "be_bytes 3 (undigits64 [?v div 64 ^ 3 mod 64, ?v div 64 ^ 2 mod 64, ?v div 64 mod 64, ?v mod 64]) =
      [a, b, c]" by (simp only: be_bytes_3)
qed (rule refl)+

lemma decode_group:
  "base64_decode_quad (b64_quad [a, b, c]) = Some [a, b, c]"
  "base64_decode_quad (take 3 (b64_quad [a, b, 0]) @ [0x3d]) = Some [a, b]"
  "base64_decode_quad (take 2 (b64_quad [a, 0, 0]) @ [0x3d, 0x3d]) = Some [a]"
proof -
  show "base64_decode_quad (b64_quad [a, b, c]) = Some [a, b, c]"
    by (rule quad_digits [of a b c]) (simp add: decode_digits)
  have z: "be_val [a, b, 0] mod 64 = 0" by (simp add: be_val_3 mod_add_eq [symmetric])
  show "base64_decode_quad (take 3 (b64_quad [a, b, 0]) @ [0x3d]) = Some [a, b]"
    by (rule quad_digits [of a b 0]) (simp add: decode_digits(2) z)
  have z: "be_val [a, 0, 0] mod 64 = 0" "be_val [a, 0, 0] div 64 mod 64 = 0" by (simp_all add: be_val_3)
  show "base64_decode_quad (take 2 (b64_quad [a, 0, 0]) @ [0x3d, 0x3d]) = Some [a]"
    by (rule quad_digits [of a 0 0]) (simp add: decode_digits(3) z)
qed

lemma decode_loop_Nil [simp]: "decode_base64_loop [] = Some []"
  by (simp add: decode_base64_loop.simps)

lemma decode_encode: "decode_base64_loop (encode_block_loop src) = Some src"
proof (induction src rule: encode_block_loop.induct)
  case (1 a b c src)
  have "encode_block_loop (a # b # c # src) \<noteq> []" by (simp add: encode_block_simps flip: length_0_conv)
  then show ?case
    using 1 by (subst decode_base64_loop.simps) (simp add: encode_block_simps decode_group del: encode_block_loop.simps)
next
  case (2 a b)
  then show ?case
    by (subst decode_base64_loop.simps) (simp add: encode_block_simps decode_group del: encode_block_loop.simps)
next
  case (3 a)
  then show ?case
    by (subst decode_base64_loop.simps) (simp add: encode_block_simps decode_group del: encode_block_loop.simps)
qed simp

section \<open>Lengths\<close>

lemma EVP_EncodedLength:
  assumes "len \<le> 2 ^ 62"
  shows "EVP_EncodedLength len = Some (length (fst (EVP_EncodeBlock (replicate len 0) len)))"
proof -
  have "(len + 2) div 3 \<le> 2 ^ 62" using assms by linarith
  then show ?thesis
    using assms
    by (simp add: EVP_EncodedLength_def EVP_EncodeBlock_def length_encode_block_loop size_add_no_wrap Let_def
        size_mul_def SIZE_MOD_def)
qed

section \<open>The encoder as a stream\<close>

text \<open>The lines of a text: 48 bytes make a line of 64 characters.\<close>

definition b64_line :: "byte list \<Rightarrow> byte list" where
  "b64_line d = encode_block_loop d @ [0x0a]"

function full_lines :: "byte list \<Rightarrow> byte list" where
  "full_lines d = (if length d \<ge> 48 then b64_line (take 48 d) @ full_lines (drop 48 d) else [])"
  by pat_completeness auto
termination by (relation "measure length") auto

declare full_lines.simps [simp del]

definition last_line :: "byte list \<Rightarrow> byte list" where
  "last_line d = drop (48 * (length d div 48)) d"

definition b64_text :: "byte list \<Rightarrow> byte list" where
  "b64_text d = full_lines d @ (if last_line d = [] then [] else b64_line (last_line d))"

lemma full_lines_short [simp]: "length d < 48 \<Longrightarrow> full_lines d = []"
  by (simp add: full_lines.simps)

lemma full_lines_long: "48 \<le> length d \<Longrightarrow> full_lines d = b64_line (take 48 d) @ full_lines (drop 48 d)"
  by (subst full_lines.simps) simp

lemma last_line_short [simp]: "length d < 48 \<Longrightarrow> last_line d = d"
  by (simp add: last_line_def)

lemma last_line_long: "48 \<le> length d \<Longrightarrow> last_line d = last_line (drop 48 d)"
  by (simp add: last_line_def le_div_geq add.commute)

lemma length_last_line: "length (last_line d) = length d mod 48"
  by (simp add: last_line_def minus_mult_div_eq_mod)

lemma full_lines_append: "full_lines (xs @ ys) = full_lines xs @ full_lines (last_line xs @ ys)"
proof (induction xs rule: full_lines.induct)
  case (1 xs)
  then show ?case by (cases "48 \<le> length xs") (simp_all add: full_lines_long [of "xs @ ys"] full_lines_long last_line_long)
qed

lemma last_line_append: "last_line (xs @ ys) = last_line (last_line xs @ ys)"
proof (induction xs rule: full_lines.induct)
  case (1 xs)
  then show ?case by (cases "48 \<le> length xs") (simp_all add: last_line_long [of "xs @ ys"] last_line_long)
qed

lemma length_full_lines: "length (full_lines d) = 65 * (length d div 48)"
proof (induction d rule: full_lines.induct)
  case (1 d)
  then show ?case
    by (cases "48 \<le> length d")
      (simp_all add: full_lines_long b64_line_def length_encode_block_loop le_div_geq)
qed

lemma encode_block_line:
  "EVP_EncodeBlock d n = (block, encoded) \<Longrightarrow> block[encoded := 0x0a] = b64_line (take n d) \<and>
     encoded = length (encode_block_loop (take n d))"
  by (auto simp: EVP_EncodeBlock_def b64_line_def Let_def list_update_append)

lemma encode_lines_loop:
  "total_len + 65 * (length inp div 48) < SIZE_MOD \<Longrightarrow>
   encode_lines_loop inp total_len = (full_lines inp, Some (total_len + length (full_lines inp)), last_line inp)"
proof (induction inp total_len rule: encode_lines_loop.induct)
  case (1 inp total_len)
  show ?case
  proof (cases "48 \<le> length inp")
    case True
    obtain block encoded where b: "EVP_EncodeBlock inp sizeof_data = (block, encoded)" by fastforce
    from encode_block_line [OF b] have e: "block[encoded := 0x0a] = b64_line (take 48 inp)" "encoded = 64"
      using True by (auto simp: sizeof_data_def length_encode_block_loop)
    have le: "1 \<le> length inp div 48" using True by (simp add: le_div_geq)
    have a: "size_add (size_add total_len 64) 1 = total_len + 65"
      using 1(2) le by (simp add: size_add_no_wrap size_add_def)
    have "encode_lines_loop (drop 48 inp) (total_len + 65) =
        (full_lines (drop 48 inp), Some (total_len + 65 + length (full_lines (drop 48 inp))), last_line (drop 48 inp))"
      using 1 True b a e(2) by (simp add: sizeof_data_def le_div_geq)
    then show ?thesis
      using True b e a
      by (subst encode_lines_loop.simps)
        (simp add: sizeof_data_def full_lines_long [of inp] last_line_long [of inp] b64_line_def length_encode_block_loop)
  next
    case False
    then show ?thesis by (subst encode_lines_loop.simps) (simp add: sizeof_data_def)
  qed
qed

text \<open>The context holds the bytes of the line that is not complete.\<close>

definition encode_ctx_ok :: "evp_encode_ctx \<Rightarrow> bool" where
  "encode_ctx_ok ctx \<longleftrightarrow> length (ctx_data ctx) = 48 \<and> data_used ctx < 48"

definition pending :: "evp_encode_ctx \<Rightarrow> byte list" where
  "pending ctx = take (data_used ctx) (ctx_data ctx)"

lemma EVP_EncodeInit: "encode_ctx_ok EVP_EncodeInit" "pending EVP_EncodeInit = []"
  by (simp_all add: EVP_EncodeInit_def encode_ctx_ok_def pending_def sizeof_data_def)

lemma EVP_EncodeUpdate:
  assumes "encode_ctx_ok ctx" "length inp < 2 ^ 60"
  defines "text \<equiv> full_lines (pending ctx @ inp)"
  obtains ctx' where "EVP_EncodeUpdate ctx inp = (terminated text, if length text \<le> INT_MAX then length text else 0, ctx')"
    "encode_ctx_ok ctx'" "pending ctx' = last_line (pending ctx @ inp)"
proof -
  let ?u = "data_used ctx"
  have u: "length (ctx_data ctx) = 48" "?u < 48" "length (pending ctx) = ?u"
    using assms(1) by (simp_all add: encode_ctx_ok_def pending_def)
  consider "inp = []" | "inp \<noteq> []" "length inp < 48 - ?u" | "inp \<noteq> []" "48 - ?u \<le> length inp" by linarith
  then show thesis
  proof cases
    case 1
    then show ?thesis
      using assms u by (intro that [of ctx]) (simp_all add: EVP_EncodeUpdate_def terminated_def)
  next
    case 2
    let ?c = "ctx\<lparr>ctx_data := mem_write ?u inp (ctx_data ctx), data_used := ?u + length inp\<rparr>"
    have p: "pending ?c = pending ctx @ inp"
      using u 2 by (simp add: pending_def take_mem_write_end)
    have "encode_ctx_ok ?c" using u 2 by (simp add: encode_ctx_ok_def length_mem_write)
    moreover have "EVP_EncodeUpdate ctx inp = ([], 0, ?c)"
      using u 2 by (simp add: EVP_EncodeUpdate_def sizeof_data_def Let_def)
    ultimately show ?thesis
      using u 2 p assms(3) by (intro that [of ?c]) (simp_all add: terminated_def)
  next
    case 3
    let ?all = "pending ctx @ inp" and ?rest = "last_line (pending ctx @ inp)"
    have lr: "length ?rest < 48" by (simp add: length_last_line)
    have ll: "length ?all < 2 ^ 61" using assms(2) u by simp
    have lines: "encode_lines_loop d n = (full_lines d, Some (n + length (full_lines d)), last_line d)"
      if "length d \<le> length ?all" "n \<le> 65" for d n
    proof (rule encode_lines_loop)
      define x where "x = length d div 48"
      have "48 * x \<le> length d" by (simp add: x_def)
      then have "48 * x < 2 ^ 61" using that ll by linarith
      then show "n + 65 * (length d div 48) < SIZE_MOD"
        using that(2) by (simp add: SIZE_MOD_def flip: x_def)
    qed
    have fin: "encode_ctx_ok c" "pending c = ?rest"
      if "length d = 48" "c = ctx\<lparr>ctx_data := mem_write 0 ?rest d, data_used := length ?rest\<rparr>" for c d
      using that lr take_mem_write_end [of 0 d ?rest]
      by (simp_all add: encode_ctx_ok_def pending_def length_mem_write)
    show ?thesis
    proof (cases "?u = 0")
      case True
      then have all: "?all = inp" by (simp add: pending_def)
      let ?c = "ctx\<lparr>ctx_data := mem_write 0 ?rest (ctx_data ctx), data_used := length ?rest\<rparr>"
      have "EVP_EncodeUpdate ctx inp = (terminated text, if length text \<le> INT_MAX then length text else 0, ?c)"
        using 3 True lines [of inp 0] unfolding assms(3) all
        by (simp add: EVP_EncodeUpdate_def sizeof_data_def)
      then show ?thesis using fin [OF u(1) refl] by (rule that)
    next
      case False
      let ?todo = "48 - ?u" and ?d = "mem_write ?u (take (48 - ?u) inp) (ctx_data ctx)"
      let ?c = "ctx\<lparr>ctx_data := mem_write 0 ?rest ?d, data_used := length ?rest\<rparr>"
      have d: "?d = take 48 ?all" "length ?d = 48"
        using u 3 by (simp_all add: mem_write_def pending_def)
      obtain block encoded where b: "EVP_EncodeBlock ?d 48 = (block, encoded)" by fastforce
      have td: "take 48 ?d = ?d" using d(2) by simp
      from encode_block_line [OF b] have e: "block[encoded := 0x0a] = b64_line (take 48 ?all)"
        unfolding td unfolding d(1) by blast
      from encode_block_line [OF b] have e2: "encoded = 64"
        unfolding td length_encode_block_loop d(2) by simp
      have dr: "drop ?todo inp = drop 48 ?all" using u 3 by simp
      have long: "48 \<le> length ?all" using u 3 by simp
      have t: "text = b64_line (take 48 ?all) @ full_lines (drop 48 ?all)"
        unfolding assms(3) by (rule full_lines_long [OF long])
      have lt: "length text = 65 + length (full_lines (drop 48 ?all))"
        unfolding t using long by (simp add: b64_line_def length_encode_block_loop)
      have "EVP_EncodeUpdate ctx inp = (terminated text, if length text \<le> INT_MAX then length text else 0, ?c)"
        using 3 False b e e2 lines [of "drop 48 ?all" 65] last_line_long [OF long] unfolding lt unfolding t
        by (simp add: EVP_EncodeUpdate_def sizeof_data_def Let_def dr)
      then show ?thesis using fin [OF d(2) refl] by (rule that)
    qed
  qed
qed
text \<open>What a caller collects from a sequence of updates and the final call.\<close>

fun encode_updates :: "evp_encode_ctx \<Rightarrow> byte list list \<Rightarrow> byte list \<times> evp_encode_ctx" where
  "encode_updates ctx [] = ([], ctx)"
| "encode_updates ctx (d # ds) =
     (case EVP_EncodeUpdate ctx d of (out, out_len, ctx) \<Rightarrow>
        (case encode_updates ctx ds of (text, ctx) \<Rightarrow> (take out_len out @ text, ctx)))"

definition encode_stream :: "byte list list \<Rightarrow> byte list" where
  "encode_stream ds =
     (case encode_updates EVP_EncodeInit ds of (text, ctx) \<Rightarrow>
        (case EVP_EncodeFinal ctx of (out, out_len, ctx) \<Rightarrow> text @ take out_len out))"

lemma take_terminated: "take (length text) (terminated text) = text"
  by (simp add: terminated_def)

lemma encode_updates:
  assumes "encode_ctx_ok ctx" "list_all (\<lambda>d. length d \<le> 2 ^ 30) ds"
  shows "fst (encode_updates ctx ds) = full_lines (pending ctx @ concat ds) \<and>
    encode_ctx_ok (snd (encode_updates ctx ds)) \<and>
    pending (snd (encode_updates ctx ds)) = last_line (pending ctx @ concat ds)"
  using assms
proof (induction ds arbitrary: ctx)
  case Nil
  then have "length (pending ctx) < 48" by (simp add: encode_ctx_ok_def pending_def)
  with Nil show ?case by simp
next
  case (Cons d ds)
  let ?text = "full_lines (pending ctx @ d)"
  have p: "length (pending ctx) < 48" using Cons by (simp add: encode_ctx_ok_def pending_def)
  obtain ctx' where u: "EVP_EncodeUpdate ctx d =
      (terminated ?text, if length ?text \<le> INT_MAX then length ?text else 0, ctx')"
    "encode_ctx_ok ctx'" "pending ctx' = last_line (pending ctx @ d)"
    using Cons by (rule_tac EVP_EncodeUpdate [of ctx d]) auto
  have "length ?text \<le> INT_MAX"
  proof -
    define x where "x = length (pending ctx @ d) div 48"
    have "48 * x \<le> length (pending ctx @ d)" by (simp add: x_def)
    then have "48 * x \<le> 48 + 2 ^ 30" using p Cons(3) by simp
    then show ?thesis unfolding length_full_lines x_def [symmetric] INT_MAX_def by simp
  qed
  moreover have "list_all (\<lambda>d. length d \<le> 2 ^ 30) ds" using Cons(3) by simp
  note IH = Cons.IH [OF u(2) this]
  ultimately show ?case
    using IH u full_lines_append [of "pending ctx @ d" "concat ds"] last_line_append [of "pending ctx @ d" "concat ds"]
    by (cases "encode_updates ctx' ds") (simp add: take_terminated)
qed

lemma encode_stream:
  assumes "list_all (\<lambda>d. length d \<le> 2 ^ 30) ds"
  shows "encode_stream ds = b64_text (concat ds)"
proof -
  obtain out1 ctx where run: "encode_updates EVP_EncodeInit ds = (out1, ctx)" by fastforce
  with encode_updates [OF EVP_EncodeInit(1) assms] have r: "out1 = full_lines (concat ds)" "encode_ctx_ok ctx"
    "pending ctx = last_line (concat ds)" by (simp_all add: EVP_EncodeInit)
  show ?thesis
  proof (cases "data_used ctx = 0")
    case True
    then have "last_line (concat ds) = []" using r(3) by (simp add: pending_def)
    with True r run show ?thesis by (simp add: encode_stream_def EVP_EncodeFinal_def b64_text_def)
  next
    case False
    obtain block encoded where b: "EVP_EncodeBlock (ctx_data ctx) (data_used ctx) = (block, encoded)" by fastforce
    from encode_block_line [OF b] r(3) have e: "block[encoded := 0x0a] = b64_line (last_line (concat ds))"
      "encoded + 1 = length (b64_line (last_line (concat ds)))"
      by (auto simp: pending_def b64_line_def)
    have "last_line (concat ds) \<noteq> []" using False r(2,3) by (auto simp: pending_def encode_ctx_ok_def)
    with False e run r(1) b show ?thesis by (simp add: encode_stream_def EVP_EncodeFinal_def b64_text_def Let_def)
  qed
qed

section \<open>The decoder as a stream\<close>

lemma update_append:
  "decode_update_loop ctx out (xs @ ys) =
     (case decode_update_loop ctx out xs of
        (r, c, o') \<Rightarrow> if r then decode_update_loop c o' ys else (False, c, o'))"
  by (induction ctx out xs rule: decode_update_loop.induct)
    (simp_all add: Let_def split: option.split)

lemma update_filter:
  "decode_update_loop ctx out inp = decode_update_loop ctx out (filter (\<lambda>c. \<not> is_line_space c) inp)"
  by (induction ctx out inp rule: decode_update_loop.induct)
    (simp_all add: Let_def split: option.split)

lemma update_out:
  "decode_update_loop ctx out inp = (case decode_update_loop ctx [] inp of (r, c, o') \<Rightarrow> (r, c, out @ o'))"
proof (induction inp arbitrary: ctx out)
  case (Cons b inp)
  have IH: "decode_update_loop c (out @ bytes) inp =
      (case decode_update_loop c bytes inp of (r, c, o') \<Rightarrow> (r, c, out @ o'))" for c out bytes
    using Cons [of c "out @ bytes"] Cons [of c bytes] by (simp split: prod.split)
  show ?case
    using Cons [of _ out] by (simp add: Let_def IH split: option.split)
qed simp

lemma decode_quad_take: "base64_decode_quad (take 4 xs) = base64_decode_quad xs"
  by (simp add: base64_decode_quad_def)

lemma length_quad: "base64_decode_quad xs = Some bytes \<Longrightarrow> length bytes \<le> 3"
  by (auto simp: base64_decode_quad_def Let_def split: if_split_asm)

definition put_char :: "evp_encode_ctx \<Rightarrow> byte \<Rightarrow> evp_encode_ctx" where
  "put_char ctx c = ctx\<lparr>ctx_data := (ctx_data ctx)[data_used ctx := c], data_used := data_used ctx + 1\<rparr>"

definition after_quad :: "evp_encode_ctx \<Rightarrow> byte list \<Rightarrow> evp_encode_ctx" where
  "after_quad ctx bytes = ctx\<lparr>data_used := 0, eof_seen := (if length bytes < 3 then True else eof_seen ctx)\<rparr>"

lemma put_char_simps [simp]:
  "data_used (put_char ctx c) = data_used ctx + 1" "ctx_data (put_char ctx c) = (ctx_data ctx)[data_used ctx := c]"
  "eof_seen (put_char ctx c) = eof_seen ctx" "error_encountered (put_char ctx c) = error_encountered ctx"
  "data_used (after_quad ctx bytes) = 0" "ctx_data (after_quad ctx bytes) = ctx_data ctx"
  "eof_seen (after_quad ctx bytes) \<longleftrightarrow> length bytes < 3 \<or> eof_seen ctx"
  "error_encountered (after_quad ctx bytes) = error_encountered ctx"
  by (simp_all add: put_char_def after_quad_def)

lemma update_step:
  "decode_update_loop ctx out (c # inp) =
     (if is_line_space c then decode_update_loop ctx out inp
      else if eof_seen ctx then (False, ctx\<lparr>error_encountered := True\<rparr>, out)
      else if data_used ctx = 3 then
        (case base64_decode_quad (ctx_data (put_char ctx c)) of
           None \<Rightarrow> (False, (put_char ctx c)\<lparr>error_encountered := True\<rparr>, out)
         | Some bytes \<Rightarrow> decode_update_loop (after_quad (put_char ctx c) bytes) (out @ bytes) inp)
      else decode_update_loop (put_char ctx c) out inp)"
  by (simp add: Let_def put_char_def after_quad_def del: put_char_simps split: option.split)

declare decode_update_loop.simps(2) [simp del]

lemma update_bounds:
  "decode_update_loop ctx out inp = (True, c, o') \<Longrightarrow> data_used ctx < 4 \<Longrightarrow>
   data_used c < 4 \<and> error_encountered c = error_encountered ctx \<and>
   length (ctx_data c) = length (ctx_data ctx) \<and>
   length o' + data_used c \<le> length out + data_used ctx + length inp"
proof (induction inp arbitrary: ctx out)
  case (Cons b inp)
  consider "is_line_space b" | "\<not> is_line_space b" "data_used ctx = 3" | "\<not> is_line_space b" "data_used ctx < 3"
    using Cons(3) by linarith
  then show ?case
  proof cases
    case 1
    with Cons.prems have "decode_update_loop ctx out inp = (True, c, o')" by (simp add: update_step)
    from Cons.IH [OF this Cons(3)] show ?thesis by simp
  next
    case 2
    with Cons.prems obtain bytes where q: "base64_decode_quad (ctx_data (put_char ctx b)) = Some bytes"
      "decode_update_loop (after_quad (put_char ctx b) bytes) (out @ bytes) inp = (True, c, o')"
      unfolding update_step by (auto split: if_split_asm option.split_asm)
    from Cons.IH [OF q(2)] length_quad [OF q(1)] 2 show ?thesis by simp
  next
    case 3
    with Cons.prems have "decode_update_loop (put_char ctx b) out inp = (True, c, o')"
      unfolding update_step by (auto split: if_split_asm)
    from Cons.IH [OF this] 3 show ?thesis by simp
  qed
qed simp

text \<open>Four characters in a row, and fewer.\<close>

lemma update_four:
  assumes "\<not> eof_seen ctx" "data_used ctx = 0" "4 \<le> length (ctx_data ctx)" "\<forall>c \<in> set [a, b, c, d]. \<not> is_line_space c"
  shows "decode_update_loop ctx out (a # b # c # d # inp) =
    (case base64_decode_quad [a, b, c, d] of
       None \<Rightarrow> (False, (put_char (put_char (put_char (put_char ctx a) b) c) d)\<lparr>error_encountered := True\<rparr>, out)
     | Some bytes \<Rightarrow>
         decode_update_loop (after_quad (put_char (put_char (put_char (put_char ctx a) b) c) d) bytes) (out @ bytes) inp)"
proof -
  obtain x0 x1 x2 x3 xs where x: "ctx_data ctx = x0 # x1 # x2 # x3 # xs"
    using assms(3) by (auto simp: Suc_le_length_iff eval_nat_numeral)
  have "base64_decode_quad (ctx_data (put_char (put_char (put_char (put_char ctx a) b) c) d)) =
      base64_decode_quad [a, b, c, d]"
    using decode_quad_take [of "a # b # c # d # xs"] assms(2) by (simp add: x)
  then show ?thesis using assms(1,2,4) by (simp only: update_step put_char_simps) simp
qed

lemma update_few:
  "\<not> eof_seen ctx \<Longrightarrow> data_used ctx + length inp < 4 \<Longrightarrow> list_all (\<lambda>c. \<not> is_line_space c) inp \<Longrightarrow>
   \<exists>c. decode_update_loop ctx out inp = (True, c, out) \<and> data_used c = data_used ctx + length inp"
proof (induction inp arbitrary: ctx)
  case (Cons b inp)
  from Cons.IH [of "put_char ctx b"] Cons.prems show ?case by (simp add: update_step)
qed simp

lemma update_decode:
  assumes "\<not> eof_seen ctx" "data_used ctx = 0" "4 \<le> length (ctx_data ctx)" "list_all (\<lambda>c. \<not> is_line_space c) inp"
  shows "(\<exists>c. decode_update_loop ctx out inp = (True, c, o') \<and> data_used c = 0) \<longleftrightarrow>
    (\<exists>bytes. length inp mod 4 = 0 \<and> decode_base64_loop inp = Some bytes \<and> o' = out @ bytes)"
  using assms
proof (induction inp arbitrary: ctx out rule: decode_base64_loop.induct)
  case (1 inp)
  consider "inp = []" | "inp \<noteq> []" "length inp < 4" | "4 \<le> length inp" by linarith
  then show ?case
  proof cases
    case 1
    then show ?thesis using \<open>data_used ctx = 0\<close> by auto
  next
    case 2
    with update_few [of ctx inp out] 1(2-5) show ?thesis by auto
  next
    case 3
    then obtain a b c d rest where inp: "inp = a # b # c # d # rest"
      by (auto simp: Suc_le_length_iff eval_nat_numeral)
    have t: "take 4 inp = [a, b, c, d]" "drop 4 inp = rest" "inp \<noteq> []" by (simp_all add: inp)
    have step: "decode_update_loop ctx out inp =
      (case base64_decode_quad [a, b, c, d] of
         None \<Rightarrow> (False, (put_char (put_char (put_char (put_char ctx a) b) c) d)\<lparr>error_encountered := True\<rparr>, out)
       | Some bytes \<Rightarrow>
         decode_update_loop (after_quad (put_char (put_char (put_char (put_char ctx a) b) c) d) bytes) (out @ bytes) rest)"
      unfolding inp by (rule update_four) (use 1(2-5) in \<open>simp_all add: inp\<close>)
    have loop: "decode_base64_loop inp =
        (case base64_decode_quad [a, b, c, d] of
           None \<Rightarrow> None
         | Some bytes \<Rightarrow>
             if length bytes \<noteq> 3 \<and> rest \<noteq> [] then None else map_option ((@) bytes) (decode_base64_loop rest))"
      by (subst decode_base64_loop.simps) (simp add: inp split: option.split)
    show ?thesis
    proof (cases "base64_decode_quad [a, b, c, d]")
      case None
      then show ?thesis by (simp add: step loop)
    next
      case (Some bytes)
      let ?ctx = "after_quad (put_char (put_char (put_char (put_char ctx a) b) c) d) bytes"
      have mod: "length inp mod 4 = length rest mod 4" by (simp add: inp)
      show ?thesis
      proof (cases "length bytes = 3")
        case True
        have "(\<exists>c. decode_update_loop ?ctx (out @ bytes) rest = (True, c, o') \<and> data_used c = 0) \<longleftrightarrow>
            (\<exists>b2. length rest mod 4 = 0 \<and> decode_base64_loop rest = Some b2 \<and> o' = (out @ bytes) @ b2)"
          using 1(1) [OF t(3), of bytes ?ctx "out @ bytes"] Some True t 1(2-5) by (simp add: inp)
        with True Some show ?thesis unfolding mod by (auto simp: step loop)
      next
        case False
        then have short: "length bytes < 3" using length_quad [OF Some] by simp
        then have "decode_update_loop ?ctx (out @ bytes) rest =
            (if rest = [] then (True, ?ctx, out @ bytes) else (False, ?ctx\<lparr>error_encountered := True\<rparr>, out @ bytes))"
          using 1(5) by (cases rest) (simp_all add: inp update_step)
        with False Some show ?thesis unfolding mod by (auto simp: step loop)
      qed
    qed
  qed
qed

text \<open>A sequence of updates and the final call; \<open>None\<close> when one of them reports an error.\<close>

fun decode_updates :: "evp_encode_ctx \<Rightarrow> byte list list \<Rightarrow> (byte list \<times> evp_encode_ctx) option" where
  "decode_updates ctx [] = Some ([], ctx)"
| "decode_updates ctx (d # ds) =
     (case EVP_DecodeUpdate ctx d of (r, out_len, out, ctx) \<Rightarrow>
        if r < 0 then None
        else map_option (\<lambda>(rest, c). (take out_len out @ rest, c)) (decode_updates ctx ds))"

definition decode_stream :: "byte list list \<Rightarrow> byte list option" where
  "decode_stream ds =
     (case decode_updates EVP_DecodeInit ds of
        None \<Rightarrow> None
      | Some (out, ctx) \<Rightarrow> if EVP_DecodeFinal ctx = 1 then Some out else None)"

lemma EVP_DecodeUpdate_Some:
  assumes "\<not> error_encountered ctx" "data_used ctx < 4" "length d \<le> 2 ^ 30"
  shows "EVP_DecodeUpdate ctx d =
    (case decode_update_loop ctx [] d of
       (r, c, out) \<Rightarrow> if r then (if eof_seen c then 0 else 1, length out, out, c) else (- 1, 0, out, c))"
proof (cases "decode_update_loop ctx [] d")
  case (fields r c out)
  show ?thesis
  proof (cases r)
    case True
    from update_bounds [of ctx "[]" d c out] fields True assms have "length out \<le> INT_MAX" by (simp add: INT_MAX_def)
    then show ?thesis using fields True assms(1) by (simp add: EVP_DecodeUpdate_def)
  qed (use fields assms(1) in \<open>simp add: EVP_DecodeUpdate_def\<close>)
qed

lemma decode_updates_Some_iff:
  assumes "\<not> error_encountered ctx" "data_used ctx < 4" "list_all (\<lambda>d. length d \<le> 2 ^ 30) ds"
  shows "decode_updates ctx ds = Some (out, c) \<longleftrightarrow> decode_update_loop ctx [] (concat ds) = (True, c, out)"
  using assms
proof (induction ds arbitrary: ctx out)
  case (Cons d ds)
  obtain r c1 out1 where l: "decode_update_loop ctx [] d = (r, c1, out1)" by (metis prod_cases3)
  have u: "EVP_DecodeUpdate ctx d =
      (if r then (if eof_seen c1 then 0 else 1, length out1, out1, c1) else (- 1, 0, out1, c1))"
    using EVP_DecodeUpdate_Some [of ctx d] Cons.prems l by simp
  show ?case
  proof (cases r)
    case True
    with update_bounds [of ctx "[]" d c1 out1] l Cons.prems have ok: "\<not> error_encountered c1" "data_used c1 < 4" by auto
    have "decode_updates ctx (d # ds) = Some (out, c) \<longleftrightarrow>
        (\<exists>rest. out = out1 @ rest \<and> decode_updates c1 ds = Some (rest, c))"
      using u True by auto
    also have "\<dots> \<longleftrightarrow> (\<exists>rest. out = out1 @ rest \<and> decode_update_loop c1 [] (concat ds) = (True, c, rest))"
      using Cons.IH [OF ok] Cons.prems by simp
    also have "\<dots> \<longleftrightarrow> decode_update_loop ctx [] (concat (d # ds)) = (True, c, out)"
      using l True update_out [of c1 out1 "concat ds"] by (auto simp: update_append split: prod.split)
    finally show ?thesis .
  next
    case False
    then show ?thesis using u l by (simp add: update_append)
  qed
qed auto

lemma decode_stream_Some_iff:
  assumes "list_all (\<lambda>d. length d \<le> 2 ^ 30) ds"
  defines "chars \<equiv> filter (\<lambda>c. \<not> is_line_space c) (concat ds)"
  shows "decode_stream ds = Some out \<longleftrightarrow> length chars mod 4 = 0 \<and> decode_base64_loop chars = Some out"
proof -
  let ?c = EVP_DecodeInit
  have i: "\<not> error_encountered ?c" "data_used ?c = 0" "\<not> eof_seen ?c" "4 \<le> length (ctx_data ?c)"
    by (simp_all add: EVP_DecodeInit_def sizeof_data_def)
  have e: "\<not> error_encountered c" if "decode_update_loop ?c [] (concat ds) = (True, c, out)" for c
    using update_bounds [OF that] i by simp
  have "decode_stream ds = Some out \<longleftrightarrow>
      (\<exists>c. decode_updates ?c ds = Some (out, c) \<and> EVP_DecodeFinal c = 1)"
    by (auto simp: decode_stream_def split: option.split)
  also have "\<dots> \<longleftrightarrow> (\<exists>c. decode_update_loop ?c [] (concat ds) = (True, c, out) \<and> data_used c = 0)"
    using decode_updates_Some_iff [OF i(1) _ assms(1)] i(2) e by (auto simp: EVP_DecodeFinal_def)
  also have "\<dots> \<longleftrightarrow> (\<exists>c. decode_update_loop ?c [] chars = (True, c, out) \<and> data_used c = 0)"
    unfolding chars_def by (simp flip: update_filter)
  also have "\<dots> \<longleftrightarrow> length chars mod 4 = 0 \<and> decode_base64_loop chars = Some out"
    using update_decode [OF i(3,2,4), of chars "[]" out] by (simp add: chars_def list_all_iff)
  finally show ?thesis .
qed

section \<open>Round trips\<close>

lemma b64_char_no_space: "n < 64 \<Longrightarrow> \<not> is_line_space (b64_char n)"
proof -
  assume n: "n < 64"
  have "\<not> is_line_space c" if "b64_val c \<noteq> None" for c
    using that by (auto simp: is_line_space_def b64_val_def)
  from this [of "b64_char n"] n show ?thesis by simp
qed

lemma encode_block_no_space: "list_all (\<lambda>c. \<not> is_line_space c) (encode_block_loop d)"
proof -
  have q: "list_all (\<lambda>c. \<not> is_line_space c) (b64_quad bs)" for bs
    unfolding b64_quad_def digits64_def by (simp add: b64_char_no_space)
  have p: "list_all P xs \<Longrightarrow> list_all P (take n xs)" for P :: "byte \<Rightarrow> bool" and n xs
    by (auto simp: list_all_iff dest: in_set_takeD)
  have "\<not> is_line_space 0x3d" by (simp add: is_line_space_def)
  then show ?thesis
    by (induction d rule: encode_block_loop.induct)
      (simp_all add: encode_block_simps q p del: encode_block_loop.simps(1-3))
qed

lemma filter_b64_text: "filter (\<lambda>c. \<not> is_line_space c) (b64_text d) = encode_block_loop d"
proof -
  have f: "filter (\<lambda>c. \<not> is_line_space c) (b64_line d) = encode_block_loop d" for d
    using encode_block_no_space [of d] by (simp add: b64_line_def filter_id_conv list_all_iff is_line_space_def)
  have "filter (\<lambda>c. \<not> is_line_space c) (full_lines d) @ encode_block_loop (last_line d) = encode_block_loop d"
  proof (induction d rule: full_lines.induct)
    case (1 d)
    show ?case
    proof (cases "48 \<le> length d")
      case True
      have "encode_block_loop d = encode_block_loop (take 48 d) @ encode_block_loop (drop 48 d)"
        using encode_block_append [of "take 48 d" "drop 48 d"] True by simp
      with 1 True f show ?thesis by (simp add: full_lines_long last_line_long)
    qed simp
  qed
  then show ?thesis by (auto simp: b64_text_def f)
qed

lemma stream_roundtrip:
  assumes "list_all (\<lambda>d. length d \<le> 2 ^ 30) ds" "list_all (\<lambda>d. length d \<le> 2 ^ 30) es" "concat es = encode_stream ds"
  shows "decode_stream es = Some (concat ds)"
proof -
  have "filter (\<lambda>c. \<not> is_line_space c) (concat es) = encode_block_loop (concat ds)"
    using assms(3) encode_stream [OF assms(1)] filter_b64_text by simp
  then show ?thesis
    by (simp add: decode_stream_Some_iff [OF assms(2)] decode_encode length_encode_block_loop)
qed

lemma EVP_DecodeBase64_EncodeBlock:
  assumes "length src \<le> 2 ^ 60" "length src + 2 \<le> max_out"
  shows "EVP_DecodeBase64 max_out (encode_block_loop src) = Some src"
proof -
  define q where "q = (length src + 2) div 3"
  have "3 * q \<le> length src + 2" by (simp add: q_def)
  then have "3 * q \<le> max_out" "size_mul q 3 = 3 * q"
    using assms by (simp_all add: SIZE_MOD_def size_mul_def mult.commute)
  then show ?thesis
    unfolding EVP_DecodeBase64_def EVP_DecodedLength_def length_encode_block_loop q_def [symmetric]
    by (simp add: decode_encode)
qed

text \<open>\<^verbatim>\<open>EVP_DecodeBlock\<close> gives the source back with zeros up to a multiple of three.\<close>

lemma EVP_DecodeBlock_encode:
  assumes "length src \<le> 2 ^ 30"
  shows "EVP_DecodeBlock (encode_block_loop src) =
    (int (3 * ((length src + 2) div 3)), src @ replicate (3 * ((length src + 2) div 3) - length src) 0)"
proof -
  let ?e = "encode_block_loop src"
  have ns: "list_all (\<lambda>c. \<not> is_line_space c) ?e" by (rule encode_block_no_space)
  have d: "dropWhile P xs = xs" if "list_all (\<lambda>c. \<not> Q c) xs" "\<And>c. P c \<Longrightarrow> Q c" for P Q and xs :: "byte list"
    using that by (cases xs) auto
  have t1: "dropWhile (\<lambda>c. c = 0x20 \<or> c = 0x09) ?e = ?e"
    by (rule d [OF ns]) (auto simp: is_line_space_def)
  have t2: "dropWhile is_line_space (rev ?e) = rev ?e"
    using d [of is_line_space "rev ?e" is_line_space] ns by (simp add: list_all_iff)
  define q where "q = (length src + 2) div 3"
  have q: "3 * q \<le> length src + 2" "length src \<le> 3 * q" unfolding q_def by simp linarith
  have len: "length ?e = 4 * q" by (simp add: length_encode_block_loop q_def)
  have pad: "(3 - length src mod 3) mod 3 = 3 * q - length src"
  proof -
    have "length src mod 3 = 0 \<or> length src mod 3 = 1 \<or> length src mod 3 = 2" by linarith
    then show ?thesis using q by auto presburger+
  qed
  have small: "3 * q \<le> INT_MAX" "size_mul q 3 = 3 * q"
    using q assms by (simp_all add: INT_MAX_def size_mul_def SIZE_MOD_def mult.commute)
  have "EVP_DecodeBase64 (3 * q) ?e = Some src"
    by (simp add: EVP_DecodeBase64_def EVP_DecodedLength_def len small(2) decode_encode)
  then show ?thesis
    using q small unfolding q_def [symmetric]
    by (simp add: EVP_DecodeBlock_def Let_def t1 t2 EVP_DecodedLength_def len pad)
qed

section \<open>Properties\<close>

text \<open>C25: decoding undoes encoding: a text encoded in any pieces and decoded in any other pieces is the text
  again.\<close>

theorem base64_stream_roundtrip:
  assumes "list_all (\<lambda>d. length d \<le> 2 ^ 30) ds" "list_all (\<lambda>d. length d \<le> 2 ^ 30) es" "concat es = encode_stream ds"
  shows "decode_stream es = Some (concat ds)"
  using assms by (rule stream_roundtrip)

theorem base64_stream_roundtrip_witness: "decode_stream [[65], [81, 73, 68, 10]] = Some [1, 2, 3]"
proof -
  have "length (concat [[1, 2], [3 :: byte]]) < 48" "last_line (concat [[1, 2], [3 :: byte]]) = [1, 2, 3]"
    by (simp_all add: last_line_def)
  then have "encode_stream [[1, 2], [3]] = encode_block_loop [1, 2, 3] @ [10]"
    by (subst encode_stream) (simp_all add: b64_text_def b64_line_def)
  also have "encode_block_loop [1, 2, 3] = [65, 81, 73, 68]"
    by (simp add: encode_block_simps b64_quad_def digits64_def be_val_3 b64_char_def encode_block_loop.simps(4) del: encode_block_loop.simps(1-3))
  finally show ?thesis using base64_stream_roundtrip [of "[[1, 2], [3]]" "[[65], [81, 73, 68, 10]]"] by simp
qed

text \<open>C26: the decoder that is fed piece by piece accepts what the one-shot decoder accepts when the line breaks and
  blanks are taken out, and with the same result, wherever the pieces are cut.\<close>

theorem base64_decode_stream_equiv:
  assumes "list_all (\<lambda>d. length d \<le> 2 ^ 30) ds" "length (concat ds) \<le> max_out" "max_out < SIZE_MOD"
  shows "decode_stream ds = EVP_DecodeBase64 max_out (filter (\<lambda>c. \<not> is_line_space c) (concat ds))"
proof -
  let ?cs = "filter (\<lambda>c. \<not> is_line_space c) (concat ds)"
  have l: "length ?cs \<le> max_out" using length_filter_le [of "\<lambda>c. \<not> is_line_space c" "concat ds"] assms(2) by linarith
  then have "length ?cs div 4 * 3 \<le> max_out" by linarith
  then have "size_mul (length ?cs div 4) 3 \<le> max_out" using assms(3) by (simp add: size_mul_def)
  then have e: "EVP_DecodeBase64 max_out ?cs = (if length ?cs mod 4 = 0 then decode_base64_loop ?cs else None)"
    by (simp add: EVP_DecodeBase64_def EVP_DecodedLength_def)
  show ?thesis
  proof (rule option.expand)
    show "(decode_stream ds = None) = (EVP_DecodeBase64 max_out ?cs = None)"
      using decode_stream_Some_iff [OF assms(1)] unfolding e by (metis not_Some_eq)
    show "the (decode_stream ds) = the (EVP_DecodeBase64 max_out ?cs)"
      if "decode_stream ds \<noteq> None" "EVP_DecodeBase64 max_out ?cs \<noteq> None"
      using that decode_stream_Some_iff [OF assms(1)] unfolding e by (metis option.sel not_Some_eq)
  qed
qed

theorem base64_decode_stream_equiv_witness:
  "decode_stream [[65, 10], [81, 32, 73, 68]] = EVP_DecodeBase64 6 [65, 81, 73, 68]"
  using base64_decode_stream_equiv [of "[[65, 10], [81, 32, 73, 68]]" 6] by (simp add: is_line_space_def SIZE_MOD_def)

text \<open>\<^verbatim>\<open>EVP_EncodedLength\<close> is the exact number of bytes that \<^verbatim>\<open>EVP_EncodeBlock\<close> writes, its final zero
  included, and fails exactly when this number does not fit into a \<^verbatim>\<open>size_t\<close>.\<close>

theorem EVP_EncodedLength_exact:
  assumes "length src < SIZE_MOD"
  shows "EVP_EncodedLength (length src) =
    (let n = length (fst (EVP_EncodeBlock src (length src))) in if n < SIZE_MOD then Some n else None)"
proof -
  define k where "k = length src"
  have n: "length (fst (EVP_EncodeBlock src (length src))) = 4 * ((k + 2) div 3) + 1"
    by (simp add: EVP_EncodeBlock_def length_encode_block_loop Let_def k_def)
  have k: "k < 2 ^ 64" using assms by (simp add: k_def SIZE_MOD_def)
  show ?thesis
  proof (cases "k + 2 < 2 ^ 64")
    case True
    then have a: "size_add k 2 = k + 2" by (simp add: size_add_def SIZE_MOD_def)
    define q where "q = (k + 2) div 3"
    have q: "q < 2 ^ 63" using True by (simp add: q_def)
    show ?thesis
    proof (cases "q < 2 ^ 62")
      case True
      then show ?thesis unfolding n unfolding EVP_EncodedLength_def k_def [symmetric] a q_def [symmetric]
        by (simp add: size_add_def size_mul_def SIZE_MOD_def Let_def)
    next
      case False
      then have "q * 4 mod 2 ^ 64 div 4 \<noteq> q" by (simp add: mod_mult_mult2 [of q 4 "2 ^ 62", simplified])
      with False show ?thesis unfolding n unfolding EVP_EncodedLength_def k_def [symmetric] a q_def [symmetric]
        by (simp add: size_mul_def SIZE_MOD_def Let_def)
    qed
  next
    case False
    have "size_add k 2 < k" using False k by (simp add: size_add_def SIZE_MOD_def mod_if)
    moreover have "2 ^ 64 \<le> 4 * ((k + 2) div 3) + 1" using False by simp
    ultimately show ?thesis unfolding n unfolding EVP_EncodedLength_def k_def [symmetric]
      by (simp add: SIZE_MOD_def Let_def)
  qed
qed

theorem EVP_EncodedLength_exact_witness: "EVP_EncodedLength 4 = Some 9"
proof -
  have l: "length [1, 2, 3, 4 :: byte] = 4" by simp
  have n: "length (fst (EVP_EncodeBlock [1, 2, 3, 4] 4)) = 9"
    by (simp add: EVP_EncodeBlock_def length_encode_block_loop Let_def)
  have "length [1, 2, 3, 4 :: byte] < SIZE_MOD" by (simp add: SIZE_MOD_def)
  from EVP_EncodedLength_exact [OF this] show ?thesis unfolding l n by (simp add: SIZE_MOD_def)
qed

text \<open>C27: the context of the encoder stays well-formed: its buffer keeps its 48 bytes, at most 47 of them pending, so no
  write runs past it. Nothing of the input is lost: the complete lines are written, with a zero behind them, and the rest is
  pending. The length that is reported is the number of characters of those lines, so a caller finds them all, unless it
  exceeds \<^verbatim>\<open>INT_MAX\<close>: then the characters are written, too, but zero is reported for them, against \<^verbatim>\<open>base64.h\<close>.\<close>

theorem EVP_EncodeUpdate_type:
  assumes "encode_ctx_ok ctx" "length inp < 2 ^ 60" "EVP_EncodeUpdate ctx inp = (out, out_len, ctx')"
  shows "encode_ctx_ok ctx' \<and> out = terminated (full_lines (pending ctx @ inp)) \<and> pending ctx' = last_line (pending ctx @ inp) \<and>
    out_len = (if length (full_lines (pending ctx @ inp)) \<le> INT_MAX then length (full_lines (pending ctx @ inp)) else 0)"
proof -
  obtain c where "EVP_EncodeUpdate ctx inp = (terminated (full_lines (pending ctx @ inp)),
      if length (full_lines (pending ctx @ inp)) \<le> INT_MAX then length (full_lines (pending ctx @ inp)) else 0, c)"
    "encode_ctx_ok c" "pending c = last_line (pending ctx @ inp)"
    by (rule EVP_EncodeUpdate [OF assms(1,2)])
  with assms(3) show ?thesis by simp
qed

theorem EVP_EncodeUpdate_type_witness:
  "\<exists>out out_len ctx'. EVP_EncodeUpdate EVP_EncodeInit [1, 2] = (out, out_len, ctx') \<and> encode_ctx_ok ctx' \<and> pending ctx' = [1, 2]"
proof -
  obtain out out_len ctx' where r: "EVP_EncodeUpdate EVP_EncodeInit [1, 2] = (out, out_len, ctx')" by (metis prod_cases3)
  from EVP_EncodeUpdate_type [OF EVP_EncodeInit(1) _ r] show ?thesis
    using r by (simp add: EVP_EncodeInit last_line_def)
qed

end
