(* ===== verification/Qsort.thy ===== *)
theory Qsort
  imports Prelude "HOL-Library.Multiset"
begin

text \<open>
  Comparison functions in the style of C and the sorting of the C library, shared by the components that sort.
\<close>

text \<open>A comparison function orders its arguments by the sign of the result.\<close>

locale comparison =
  fixes cmp :: "'a \<Rightarrow> 'a \<Rightarrow> int"
  assumes cmp_swap: "cmp a b \<le> 0 \<longleftrightarrow> 0 \<le> cmp b a"
    and cmp_trans: "cmp a b \<le> 0 \<Longrightarrow> cmp b c \<le> 0 \<Longrightarrow> cmp a c \<le> 0"

definition cmp_sorted :: "('a \<Rightarrow> 'a \<Rightarrow> int) \<Rightarrow> 'a list \<Rightarrow> bool" where
  "cmp_sorted cmp xs \<longleftrightarrow> sorted_wrt (\<lambda>a b. cmp a b \<le> 0) xs"

text \<open>The C library leaves the order of elements that compare equal open; this is one admissible result.\<close>

fun qsort_insert :: "('a \<Rightarrow> 'a \<Rightarrow> int) \<Rightarrow> 'a \<Rightarrow> 'a list \<Rightarrow> 'a list" where
  "qsort_insert cmp x [] = [x]"
| "qsort_insert cmp x (y # ys) = (if cmp x y \<le> 0 then x # y # ys else y # qsort_insert cmp x ys)"

definition qsort :: "('a \<Rightarrow> 'a \<Rightarrow> int) \<Rightarrow> 'a list \<Rightarrow> 'a list" where
  "qsort cmp xs = foldr (qsort_insert cmp) xs []"

lemma mset_qsort_insert: "mset (qsort_insert cmp x xs) = {#x#} + mset xs"
  by (induction xs) auto

lemma mset_qsort [simp]: "mset (qsort cmp xs) = mset xs"
  unfolding qsort_def by (induction xs) (simp_all add: mset_qsort_insert)

lemma set_qsort [simp]: "set (qsort cmp xs) = set xs"
  by (metis mset_qsort set_mset_mset)

lemma length_qsort [simp]: "length (qsort cmp xs) = length xs"
  by (metis mset_qsort size_mset)

context comparison
begin

lemma cmp_total: "\<not> cmp a b \<le> 0 \<Longrightarrow> cmp b a \<le> 0"
  using cmp_swap [of b a] by linarith

lemma sorted_qsort_insert: "cmp_sorted cmp xs \<Longrightarrow> cmp_sorted cmp (qsort_insert cmp x xs)"
proof (induction xs)
  case (Cons y ys)
  have set: "set (qsort_insert cmp x ys) = insert x (set ys)"
    using arg_cong [OF mset_qsort_insert [of cmp x ys], of set_mset] by simp
  show ?case
  proof (cases "cmp x y \<le> 0")
    case True
    with Cons show ?thesis by (auto simp: cmp_sorted_def intro: cmp_trans)
  next
    case False
    with Cons cmp_total [OF False] show ?thesis by (auto simp: cmp_sorted_def set)
  qed
qed (simp add: cmp_sorted_def)

lemma sorted_qsort: "cmp_sorted cmp (qsort cmp xs)"
  unfolding qsort_def by (induction xs) (simp_all add: sorted_qsort_insert, simp add: cmp_sorted_def)

end

end
