(* ===== verification/Stack.thy ===== *)
theory Stack
  imports Mem Qsort
begin

text \<open>
  The stack of \<^verbatim>\<open>crypto/stack/stack.c\<close>: a growing array of pointers with a comparison function and a flag that says that
  the elements are sorted. The operations are followed by the invariants (the array is as long as recorded
  and never full, a set flag means a sorted list), the binary search as the linear search of a sorted range,
  and the refinement: every operation acts on the abstract stack, the list of the pointers it holds and the
  comparison function, as its counterpart on lists does.
\<close>

section \<open>State\<close>

text \<open>A pointer is \<open>None\<close> for \<^verbatim>\<open>NULL\<close>. The comparison functions are values of a type of their own, as the code compares
  them; \<open>call_cmp\<close>, the parameter \<^verbatim>\<open>call_cmp_func\<close> of the code, applies one to two pointers.\<close>

type_synonym ptr = "nat option"

record 'f stack_st =
  num :: nat
  data :: "ptr list"
  sorted_flag :: bool
  num_alloc :: nat
  comp :: "'f option"

definition sizeof_ptr :: nat where "sizeof_ptr = 8"
definition sizeof_STACK :: nat where "sizeof_STACK = 40"
definition kMinSize :: nat where "kMinSize = 4"

text \<open>An array of \<open>n\<close> pointers from the allocator; what it holds is arbitrary.\<close>

definition malloc_ptrs :: "heap_env \<Rightarrow> nat \<Rightarrow> ptr list option" where
  "malloc_ptrs env n =
     (case OPENSSL_malloc env (size_mul sizeof_ptr n) of
        None \<Rightarrow> None
      | Some _ \<Rightarrow> Some (map (\<lambda>i. Some (unat (h_junk env i))) [0..<n]))"

definition realloc_ptrs :: "heap_env \<Rightarrow> ptr list \<Rightarrow> nat \<Rightarrow> ptr list option" where
  "realloc_ptrs env old n =
     (case malloc_ptrs env n of
        None \<Rightarrow> None
      | Some ret \<Rightarrow> Some (take n old @ drop (length old) ret))"

section \<open>Operations\<close>

definition sk_new :: "heap_env \<Rightarrow> 'f option \<Rightarrow> 'f stack_st option" where
  "sk_new env cmp =
     (if OPENSSL_malloc env sizeof_STACK = None then None
      else case malloc_ptrs env kMinSize of
        None \<Rightarrow> None
      | Some _ \<Rightarrow>
          Some \<lparr>num = 0, data = replicate kMinSize None, sorted_flag = False, num_alloc = kMinSize, comp = cmp\<rparr>)"

definition sk_new_null :: "heap_env \<Rightarrow> 'f stack_st option" where
  "sk_new_null env = sk_new env None"

definition sk_num :: "'f stack_st option \<Rightarrow> nat" where
  "sk_num sk = (case sk of None \<Rightarrow> 0 | Some s \<Rightarrow> num s)"

definition sk_zero :: "'f stack_st option \<Rightarrow> 'f stack_st option" where
  "sk_zero sk =
     (case sk of
        None \<Rightarrow> None
      | Some s \<Rightarrow>
          if num s = 0 then Some s
          else Some (s\<lparr>data := replicate (num s) None @ drop (num s) (data s), num := 0, sorted_flag := False\<rparr>))"

definition sk_value :: "'f stack_st option \<Rightarrow> nat \<Rightarrow> ptr" where
  "sk_value sk i = (case sk of None \<Rightarrow> None | Some s \<Rightarrow> if i \<ge> num s then None else data s ! i)"

definition sk_set :: "'f stack_st option \<Rightarrow> nat \<Rightarrow> ptr \<Rightarrow> ptr \<times> 'f stack_st option" where
  "sk_set sk i p =
     (case sk of
        None \<Rightarrow> (None, None)
      | Some s \<Rightarrow> if i \<ge> num s then (None, Some s) else (p, Some (s\<lparr>data := (data s)[i := p]\<rparr>)))"

text \<open>\<^verbatim>\<open>sk_pop_free_ex\<close> releases the stack; the result are the pointers its callback is called with, in order.\<close>

definition sk_pop_free_ex :: "'f stack_st option \<Rightarrow> ptr list" where
  "sk_pop_free_ex sk = (case sk of None \<Rightarrow> [] | Some s \<Rightarrow> filter (\<lambda>p. p \<noteq> None) (take (num s) (data s)))"

definition sk_pop_free :: "'f stack_st option \<Rightarrow> ptr list" where
  "sk_pop_free sk = sk_pop_free_ex sk"

definition sk_insert :: "heap_env \<Rightarrow> 'f stack_st option \<Rightarrow> ptr \<Rightarrow> nat \<Rightarrow> nat \<times> 'f stack_st option" where
  "sk_insert env sk p pos =
     (case sk of
        None \<Rightarrow> (0, None)
      | Some s \<Rightarrow>
        (case (if num_alloc s \<le> size_add (num s) 1 then
                 let new_alloc = size_mul (num_alloc s) 2;
                     alloc_size = size_mul new_alloc sizeof_ptr;
                     (new_alloc, alloc_size) =
                       (if new_alloc < num_alloc s \<or> alloc_size div sizeof_ptr \<noteq> new_alloc then
                          (size_add (num_alloc s) 1, size_mul (size_add (num_alloc s) 1) sizeof_ptr)
                        else (new_alloc, alloc_size))
                 in if new_alloc < num_alloc s \<or> alloc_size div sizeof_ptr \<noteq> new_alloc then None
                    else map_option (\<lambda>d. s\<lparr>data := d, num_alloc := new_alloc\<rparr>) (realloc_ptrs env (data s) new_alloc)
               else Some s) of
           None \<Rightarrow> (0, Some s)
         | Some s \<Rightarrow>
             let d = (if pos \<ge> num s then (data s)[num s := p]
                      else take pos (data s) @ p # take (num s - pos) (drop pos (data s)) @ drop (num s + 1) (data s))
             in (size_add (num s) 1, Some (s\<lparr>data := d, num := size_add (num s) 1, sorted_flag := False\<rparr>))))"

definition sk_delete :: "'f stack_st option \<Rightarrow> nat \<Rightarrow> ptr \<times> 'f stack_st option" where
  "sk_delete sk pos =
     (case sk of
        None \<Rightarrow> (None, None)
      | Some s \<Rightarrow>
          if pos \<ge> num s then (None, Some s)
          else
            let d = (if pos \<noteq> num s - 1
                     then take pos (data s) @ take (num s - pos - 1) (drop (pos + 1) (data s)) @
                       drop (num s - 1) (data s)
                     else data s)
            in (data s ! pos, Some (s\<lparr>data := d, num := num s - 1\<rparr>)))"

text \<open>The loops that look for an element from the index \<open>i\<close> on.\<close>

function find_from :: "('a \<Rightarrow> bool) \<Rightarrow> 'a list \<Rightarrow> nat \<Rightarrow> nat \<Rightarrow> nat option" where
  "find_from P d n i = (if i < n then if P (d ! i) then Some i else find_from P d n (i + 1) else None)"
  by pat_completeness auto
termination by (relation "measure (\<lambda>(P, d, n, i). n - i)") auto

declare find_from.simps [simp del]

definition sk_delete_ptr :: "'f stack_st option \<Rightarrow> ptr \<Rightarrow> ptr \<times> 'f stack_st option" where
  "sk_delete_ptr sk p =
     (case sk of
        None \<Rightarrow> (None, None)
      | Some s \<Rightarrow>
          (case find_from (\<lambda>q. q = p) (data s) (num s) 0 of
             None \<Rightarrow> (None, sk)
           | Some i \<Rightarrow> sk_delete sk i))"

definition sk_is_sorted :: "'f stack_st option \<Rightarrow> bool" where
  "sk_is_sorted sk = (case sk of None \<Rightarrow> True | Some s \<Rightarrow> sorted_flag s)"

lemma mid_bounds:
  fixes lo hi :: nat
  assumes "lo < hi"
  defines "mid \<equiv> lo + (hi - lo - 1) div 2"
  shows "lo \<le> mid" "mid < hi" "hi - lo \<noteq> 1 \<Longrightarrow> mid + 1 < hi"
proof -
  define k where "k = hi - lo - 1"
  have hi: "hi = lo + k + 1" using assms(1) by (simp add: k_def)
  have "k div 2 \<le> k" by simp
  then show "lo \<le> mid" "mid < hi" unfolding mid_def k_def [symmetric] hi by simp_all
  assume "hi - lo \<noteq> 1"
  then have "0 < k" unfolding hi by simp
  then have "k div 2 < k" by simp
  then show "mid + 1 < hi" unfolding mid_def k_def [symmetric] hi by simp
qed

text \<open>The binary search: \<open>None\<close> is the return value 0, \<open>Some i\<close> the return value 1 with the index.\<close>

function sk_binary_search :: "('a \<Rightarrow> 'a \<Rightarrow> int) \<Rightarrow> 'a \<Rightarrow> 'a list \<Rightarrow> nat \<Rightarrow> nat \<Rightarrow> nat option" where
  "sk_binary_search cmp p d lo hi =
     (if lo < hi then
        let mid = lo + (hi - lo - 1) div 2;
            r = cmp p (d ! mid) in
        if r > 0 then sk_binary_search cmp p d (mid + 1) hi
        else if r < 0 then sk_binary_search cmp p d lo mid
        else if hi - lo = 1 then Some mid
        else sk_binary_search cmp p d lo (mid + 1)
      else None)"
  by pat_completeness auto
termination
  by (relation "measure (\<lambda>(cmp, p, d, lo, hi). hi - lo)")
    (use mid_bounds in \<open>fastforce simp: less_diff_conv\<close>)+

declare sk_binary_search.simps [simp del]

definition sk_find :: "('f \<Rightarrow> ptr \<Rightarrow> ptr \<Rightarrow> int) \<Rightarrow> 'f stack_st option \<Rightarrow> ptr \<Rightarrow> nat option" where
  "sk_find call_cmp sk p =
     (case sk of
        None \<Rightarrow> None
      | Some s \<Rightarrow>
          (case comp s of
             None \<Rightarrow> find_from (\<lambda>q. q = p) (data s) (num s) 0
           | Some f \<Rightarrow>
               if p = None then None
               else if \<not> sk_is_sorted sk then find_from (\<lambda>q. call_cmp f p q = 0) (data s) (num s) 0
               else sk_binary_search (call_cmp f) p (data s) 0 (num s)))"

definition sk_shift :: "'f stack_st option \<Rightarrow> ptr \<times> 'f stack_st option" where
  "sk_shift sk =
     (case sk of None \<Rightarrow> (None, None) | Some s \<Rightarrow> if num s = 0 then (None, sk) else sk_delete sk 0)"

definition sk_push :: "heap_env \<Rightarrow> 'f stack_st option \<Rightarrow> ptr \<Rightarrow> nat \<times> 'f stack_st option" where
  "sk_push env sk p = sk_insert env sk p (sk_num sk)"

definition sk_pop :: "'f stack_st option \<Rightarrow> ptr \<times> 'f stack_st option" where
  "sk_pop sk =
     (case sk of None \<Rightarrow> (None, None) | Some s \<Rightarrow> if num s = 0 then (None, sk) else sk_delete sk (num s - 1))"

definition sk_dup :: "heap_env \<Rightarrow> 'f stack_st option \<Rightarrow> 'f stack_st option" where
  "sk_dup env sk =
     (case sk of
        None \<Rightarrow> None
      | Some s \<Rightarrow>
          if OPENSSL_malloc env sizeof_STACK = None then None
          else case malloc_ptrs env (num_alloc s) of
            None \<Rightarrow> None
          | Some d \<Rightarrow>
              Some \<lparr>num = num s, data = take (num s) (data s) @ drop (num s) d, sorted_flag = sorted_flag s,
                    num_alloc = num_alloc s, comp = comp s\<rparr>)"

definition sk_sort :: "('f \<Rightarrow> ptr \<Rightarrow> ptr \<Rightarrow> int) \<Rightarrow> 'f stack_st option \<Rightarrow> 'f stack_st option" where
  "sk_sort call_cmp sk =
     (case sk of
        None \<Rightarrow> None
      | Some s \<Rightarrow>
          (case comp s of
             None \<Rightarrow> Some s
           | Some f \<Rightarrow>
               if sorted_flag s then Some s
               else
                 let s = (if num s \<ge> 2
                          then s\<lparr>data := qsort (call_cmp f) (take (num s) (data s)) @ drop (num s) (data s)\<rparr> else s)
                 in Some (s\<lparr>sorted_flag := True\<rparr>)))"

definition sk_set_cmp_func :: "'f stack_st \<Rightarrow> 'f option \<Rightarrow> 'f option \<times> 'f stack_st" where
  "sk_set_cmp_func s cmp =
     (let old = comp s; s = (if comp s \<noteq> cmp then s\<lparr>sorted_flag := False\<rparr> else s) in (old, s\<lparr>comp := cmp\<rparr>))"

text \<open>The copying loop of \<^verbatim>\<open>sk_deep_copy\<close>: the copies (\<open>None\<close> when one fails) and the pointers that are released
  again.\<close>

fun deep_copy_loop :: "(nat \<Rightarrow> ptr) \<Rightarrow> ptr list \<Rightarrow> ptr list \<Rightarrow> ptr list option \<times> ptr list" where
  "deep_copy_loop copy copied [] = (Some copied, [])"
| "deep_copy_loop copy copied (None # ps) = deep_copy_loop copy (copied @ [None]) ps"
| "deep_copy_loop copy copied (Some p # ps) =
     (case copy p of
        None \<Rightarrow> (None, filter (\<lambda>q. q \<noteq> None) copied)
      | Some q \<Rightarrow> deep_copy_loop copy (copied @ [Some q]) ps)"

definition sk_deep_copy :: "heap_env \<Rightarrow> (nat \<Rightarrow> ptr) \<Rightarrow> 'f stack_st option \<Rightarrow> 'f stack_st option \<times> ptr list" where
  "sk_deep_copy env copy sk =
     (case sk_dup env sk of
        None \<Rightarrow> (None, [])
      | Some ret \<Rightarrow>
          (case deep_copy_loop copy [] (take (num ret) (data ret)) of
             (None, freed) \<Rightarrow> (None, freed)
           | (Some copies, freed) \<Rightarrow> (Some (ret\<lparr>data := copies @ drop (num ret) (data ret)\<rparr>), freed)))"

section \<open>Invariants and the list a stack holds\<close>

definition sk_ok :: "'f stack_st \<Rightarrow> bool" where
  "sk_ok s \<longleftrightarrow> length (data s) = num_alloc s \<and> num s < num_alloc s \<and> num_alloc s * sizeof_ptr < SIZE_MOD"

definition sk_list :: "'f stack_st \<Rightarrow> ptr list" where
  "sk_list s = take (num s) (data s)"

text \<open>What the field \<^verbatim>\<open>sorted\<close> is documented to mean.\<close>

definition sk_flag_ok :: "('f \<Rightarrow> ptr \<Rightarrow> ptr \<Rightarrow> int) \<Rightarrow> 'f stack_st \<Rightarrow> bool" where
  "sk_flag_ok call_cmp s \<longleftrightarrow>
     (sorted_flag s \<longrightarrow> (\<exists>f. comp s = Some f \<and> cmp_sorted (call_cmp f) (sk_list s)))"

lemma length_sk_list [simp]: "sk_ok s \<Longrightarrow> length (sk_list s) = num s"
  by (simp add: sk_list_def sk_ok_def)

lemma malloc_ptrs_length: "malloc_ptrs env n = Some d \<Longrightarrow> length d = n"
  by (auto simp: malloc_ptrs_def split: option.split_asm)

lemma realloc_ptrs_Some:
  "realloc_ptrs env old n = Some d \<Longrightarrow> length old \<le> n \<Longrightarrow> length d = n \<and> take (length old) d = old"
  by (auto simp: realloc_ptrs_def malloc_ptrs_length split: option.split_asm)

lemma sk_new_Some:
  "sk_new env cmp = Some s \<Longrightarrow> sk_ok s \<and> sk_list s = [] \<and> comp s = cmp \<and> sk_flag_ok call_cmp s"
  by (auto simp: sk_new_def sk_ok_def sk_list_def sk_flag_ok_def kMinSize_def sizeof_ptr_def SIZE_MOD_def
      split: if_split_asm option.split_asm)

definition list_insert :: "ptr list \<Rightarrow> ptr \<Rightarrow> nat \<Rightarrow> ptr list" where
  "list_insert xs p i = (if i \<ge> length xs then xs @ [p] else take i xs @ p # drop i xs)"

definition list_delete :: "ptr list \<Rightarrow> nat \<Rightarrow> ptr list" where
  "list_delete xs i = take i xs @ drop (i + 1) xs"

text \<open>The growing step.\<close>

definition sk_grow :: "heap_env \<Rightarrow> 'f stack_st \<Rightarrow> 'f stack_st option" where
  "sk_grow env s =
     (if num_alloc s \<le> size_add (num s) 1 then
        let new_alloc = size_mul (num_alloc s) 2;
            alloc_size = size_mul new_alloc sizeof_ptr;
            (new_alloc, alloc_size) =
              (if new_alloc < num_alloc s \<or> alloc_size div sizeof_ptr \<noteq> new_alloc then
                 (size_add (num_alloc s) 1, size_mul (size_add (num_alloc s) 1) sizeof_ptr)
               else (new_alloc, alloc_size))
        in if new_alloc < num_alloc s \<or> alloc_size div sizeof_ptr \<noteq> new_alloc then None
           else map_option (\<lambda>d. s\<lparr>data := d, num_alloc := new_alloc\<rparr>) (realloc_ptrs env (data s) new_alloc)
      else Some s)"

lemma size_mul_ptr: "size_mul n sizeof_ptr div sizeof_ptr = n \<longleftrightarrow> n * sizeof_ptr < SIZE_MOD"
proof
  assume "size_mul n sizeof_ptr div sizeof_ptr = n"
  moreover have "size_mul n sizeof_ptr < SIZE_MOD" by (simp add: size_mul_def SIZE_MOD_def)
  ultimately show "n * sizeof_ptr < SIZE_MOD"
    unfolding sizeof_ptr_def SIZE_MOD_def by (simp add: div_eq_dividend_iff less_mult_imp_div_less)
next
  assume "n * sizeof_ptr < SIZE_MOD"
  then show "size_mul n sizeof_ptr div sizeof_ptr = n" by (simp add: size_mul_def sizeof_ptr_def)
qed

lemma sk_grow_Some:
  assumes "sk_ok s" "sk_grow env s = Some s'"
  shows "sk_ok s' \<and> num s + 1 < num_alloc s' \<and> sk_list s' = sk_list s \<and> num s' = num s \<and> comp s' = comp s \<and>
    sorted_flag s' = sorted_flag s"
proof -
  have s: "length (data s) = num_alloc s" "num s < num_alloc s" "num_alloc s * 8 < 2 ^ 64"
    using assms(1) by (simp_all add: sk_ok_def sizeof_ptr_def SIZE_MOD_def)
  have a: "size_add (num s) 1 = num s + 1" "size_mul (num_alloc s) 2 = num_alloc s * 2"
    "size_add (num_alloc s) 1 = num_alloc s + 1"
    using s by (simp_all add: size_add_def size_mul_def SIZE_MOD_def)
  show ?thesis
  proof (cases "num_alloc s \<le> num s + 1")
    case True
    define n where "n = (if num_alloc s * 2 * sizeof_ptr < SIZE_MOD then num_alloc s * 2 else num_alloc s + 1)"
    have g: "sk_grow env s = (if n * sizeof_ptr < SIZE_MOD
        then map_option (\<lambda>d. s\<lparr>data := d, num_alloc := n\<rparr>) (realloc_ptrs env (data s) n) else None)"
      using True unfolding sk_grow_def Let_def a by (simp add: size_mul_ptr n_def)
    with assms(2) obtain d where n: "n * sizeof_ptr < SIZE_MOD" "realloc_ptrs env (data s) n = Some d"
      "s' = s\<lparr>data := d, num_alloc := n\<rparr>" by (auto split: if_split_asm)
    have n1: "num_alloc s < n" using s(2) by (simp add: n_def)
    from realloc_ptrs_Some [OF n(2)] n1 s(1) have d: "length d = n" "take (num_alloc s) d = data s" by simp_all
    have "take (num s) d = take (num s) (take (num_alloc s) d)" using s(2) by simp
    then have t: "take (num s) d = take (num s) (data s)" by (simp only: d(2))
    have "num s + 1 < n" using n1 s(2) by linarith
    then show ?thesis using n(1) d(1) t unfolding n(3) by (simp add: sk_ok_def sk_list_def)
  next
    case False
    with assms a show ?thesis by (simp add: sk_grow_def)
  qed
qed

lemma sk_insert_eq:
  "sk_insert env (Some s) p pos =
     (case sk_grow env s of
        None \<Rightarrow> (0, Some s)
      | Some s \<Rightarrow>
         let d = (if pos \<ge> num s then (data s)[num s := p]
                  else take pos (data s) @ p # take (num s - pos) (drop pos (data s)) @ drop (num s + 1) (data s))
         in (size_add (num s) 1, Some (s\<lparr>data := d, num := size_add (num s) 1, sorted_flag := False\<rparr>)))"
  by (simp add: sk_insert_def sk_grow_def)

lemma sk_insert:
  assumes "sk_ok s"
  shows "sk_grow env s = None \<and> sk_insert env (Some s) p pos = (0, Some s) \<or>
    (\<exists>s'. sk_insert env (Some s) p pos = (num s + 1, Some s') \<and> sk_ok s' \<and>
       sk_list s' = list_insert (sk_list s) p pos \<and> comp s' = comp s \<and> \<not> sorted_flag s')"
proof (cases "sk_grow env s")
  case None
  then show ?thesis by (simp add: sk_insert_eq)
next
  case (Some s1)
  from sk_grow_Some [OF assms Some] have s1: "sk_ok s1" "num s + 1 < num_alloc s1" "sk_list s1 = sk_list s"
    "num s1 = num s" "comp s1 = comp s" by simp_all
  then have l: "length (data s1) = num_alloc s1" "size_add (num s) 1 = num s + 1"
    by (simp_all add: sk_ok_def size_add_def sizeof_ptr_def SIZE_MOD_def)
  define d where "d = (if pos \<ge> num s then (data s1)[num s := p]
    else take pos (data s1) @ p # take (num s - pos) (drop pos (data s1)) @ drop (num s + 1) (data s1))"
  define s2 where "s2 = s1\<lparr>data := d, num := num s + 1, sorted_flag := False\<rparr>"
  have r: "sk_insert env (Some s) p pos = (num s + 1, Some s2)"
    unfolding sk_insert_eq Some option.case Let_def s1(4) l(2) s2_def d_def by (rule refl)
  have len: "length d = num_alloc s1" using l(1) s1(2) by (auto simp: d_def)
  have "take (num s + 1) d = list_insert (take (num s) (data s1)) p pos"
  proof (cases "num s \<le> pos")
    case True
    then show ?thesis using l(1) s1(2) by (simp add: d_def list_insert_def take_Suc_conv_app_nth)
  next
    case False
    then have "num s + 1 - pos = Suc (num s - pos)" by linarith
    with False show ?thesis using l(1) s1(2) by (simp add: d_def list_insert_def drop_take)
  qed
  then have "sk_ok s2" "sk_list s2 = list_insert (sk_list s) p pos"
    using s1 len unfolding sk_ok_def sk_list_def s2_def by simp_all
  moreover have "comp s2 = comp s" "\<not> sorted_flag s2" by (simp_all add: s2_def s1)
  ultimately show ?thesis unfolding r by blast
qed

lemma sk_delete:
  assumes "sk_ok s" "pos < num s"
  obtains s' where "sk_delete (Some s) pos = (sk_list s ! pos, Some s')" "sk_ok s'"
    "sk_list s' = list_delete (sk_list s) pos" "comp s' = comp s" "sorted_flag s' = sorted_flag s" "num s' = num s - 1"
proof -
  let ?d = "if pos \<noteq> num s - 1
    then take pos (data s) @ take (num s - pos - 1) (drop (pos + 1) (data s)) @ drop (num s - 1) (data s) else data s"
  let ?s = "s\<lparr>data := ?d, num := num s - 1\<rparr>"
  have l: "length (data s) = num_alloc s" "num s < num_alloc s" using assms(1) by (simp_all add: sk_ok_def)
  have len: "length ?d = num_alloc s" using l assms(2) by auto
  have "take (num s - 1) ?d = list_delete (take (num s) (data s)) pos"
    using l assms(2) by (auto simp: list_delete_def drop_take min_def)
  then have "sk_ok ?s" "sk_list ?s = list_delete (sk_list s) pos"
    using assms len unfolding sk_ok_def sk_list_def by auto
  then show thesis using assms(2) by (intro that [of ?s]) (simp_all add: sk_delete_def sk_list_def Let_def)
qed

lemma cmp_sorted_delete: "cmp_sorted cmp xs \<Longrightarrow> cmp_sorted cmp (list_delete xs i)"
proof -
  assume a: "cmp_sorted cmp xs"
  have "set (drop (i + 1) xs) \<subseteq> set (drop i xs)" by (rule set_drop_subset_set_drop) simp
  moreover have "sorted_wrt (\<lambda>x y. cmp x y \<le> 0) (take i xs @ drop i xs)"
    using a by (simp add: cmp_sorted_def)
  ultimately show ?thesis using a
    unfolding cmp_sorted_def list_delete_def sorted_wrt_append by (auto intro: sorted_wrt_drop)
qed

lemma sk_flag_delete:
  "sk_flag_ok cc s \<Longrightarrow> sk_list s' = list_delete (sk_list s) i \<Longrightarrow> comp s' = comp s \<Longrightarrow> sorted_flag s' = sorted_flag s \<Longrightarrow>
   sk_flag_ok cc s'"
  by (auto simp: sk_flag_ok_def cmp_sorted_delete)

section \<open>Searching\<close>

lemma find_from_Some_iff:
  "find_from P d n i = Some j \<longleftrightarrow> i \<le> j \<and> j < n \<and> P (d ! j) \<and> (\<forall>k. i \<le> k \<and> k < j \<longrightarrow> \<not> P (d ! k))"
proof (induction P d n i rule: find_from.induct)
  case (1 P d n i)
  show ?case
  proof (cases "i < n \<and> \<not> P (d ! i)")
    case True
    then have "find_from P d n i = find_from P d n (i + 1)" by (subst find_from.simps) simp
    moreover have "i \<le> j \<and> P (d ! j) \<longleftrightarrow> i + 1 \<le> j \<and> P (d ! j)" using True by (metis Suc_eq_plus1 le_antisym not_less_eq_eq le_SucI)
    moreover have "(\<forall>k. i \<le> k \<and> k < j \<longrightarrow> \<not> P (d ! k)) \<longleftrightarrow> (\<forall>k. i + 1 \<le> k \<and> k < j \<longrightarrow> \<not> P (d ! k))"
      using True by (metis Suc_eq_plus1 le_antisym not_less_eq_eq le_SucI)
    ultimately show ?thesis using 1 True by (metis (no_types, lifting))
  next
    case False
    then show ?thesis by (subst find_from.simps) (auto intro: le_neq_implies_less)
  qed
qed

lemma option_eqI: "(\<And>j. a = Some j \<longleftrightarrow> b = Some j) \<Longrightarrow> a = b"
  by (metis option.exhaust)

text \<open>The search as a function of the list alone.\<close>

fun first_index :: "('a \<Rightarrow> bool) \<Rightarrow> 'a list \<Rightarrow> nat option" where
  "first_index P [] = None"
| "first_index P (x # xs) = (if P x then Some 0 else map_option Suc (first_index P xs))"

lemma first_index_Some_iff:
  "first_index P xs = Some j \<longleftrightarrow> j < length xs \<and> P (xs ! j) \<and> (\<forall>k<j. \<not> P (xs ! k))"
proof (induction xs arbitrary: j)
  case (Cons x xs)
  show ?case by (cases j) (auto simp: Cons.IH All_less_Suc2)
qed simp

lemma find_from_first_index: "n \<le> length d \<Longrightarrow> find_from P d n 0 = first_index P (take n d)"
  by (rule option_eqI) (auto simp: find_from_Some_iff first_index_Some_iff)

definition unmatched :: "('a \<Rightarrow> bool) \<Rightarrow> 'a list \<Rightarrow> nat \<Rightarrow> nat \<Rightarrow> bool" where
  "unmatched P d i j \<longleftrightarrow> (\<forall>k. i \<le> k \<and> k < j \<longrightarrow> \<not> P (d ! k))"

lemma find_from_unmatched: "find_from P d n i = Some j \<longleftrightarrow> i \<le> j \<and> j < n \<and> P (d ! j) \<and> unmatched P d i j"
  by (simp add: find_from_Some_iff unmatched_def)

lemma find_from_above:
  assumes "\<And>k. k < m \<Longrightarrow> \<not> P (d ! k)" "lo \<le> m"
  shows "find_from P d hi m = find_from P d hi lo"
proof (rule option_eqI)
  fix j
  have m: "m \<le> k" if "P (d ! k)" for k
    using assms(1) [of k] that by (cases "k < m") simp_all
  then have "m \<le> j \<longleftrightarrow> lo \<le> j" if "P (d ! j)"
    using m [OF that] assms(2) by simp
  moreover have "unmatched P d m j = unmatched P d lo j"
    unfolding unmatched_def using assms(2) m by (meson le_trans)
  ultimately show "find_from P d hi m = Some j \<longleftrightarrow> find_from P d hi lo = Some j"
    unfolding find_from_unmatched by (cases "P (d ! j)") simp_all
qed

lemma find_from_below:
  assumes "\<And>k. m \<le> k \<Longrightarrow> k < hi \<Longrightarrow> \<not> P (d ! k)" "m \<le> hi"
  shows "find_from P d m lo = find_from P d hi lo"
proof (rule option_eqI)
  fix j
  have "j < m \<longleftrightarrow> j < hi" if "P (d ! j)"
    using assms(1) [of j] that assms(2) by linarith
  then show "find_from P d m lo = Some j \<longleftrightarrow> find_from P d hi lo = Some j"
    unfolding find_from_unmatched by (cases "P (d ! j)") simp_all
qed

lemma find_from_hit:
  assumes "P (d ! m)" "lo \<le> m" "m < hi"
  shows "find_from P d (m + 1) lo = find_from P d hi lo"
proof (rule option_eqI)
  fix j
  have "j < m + 1 \<longleftrightarrow> j < hi" if "unmatched P d lo j"
  proof -
    have "\<not> m < j" using that assms(1,2) by (auto simp: unmatched_def)
    then show ?thesis using assms(3) by linarith
  qed
  then show "find_from P d (m + 1) lo = Some j \<longleftrightarrow> find_from P d hi lo = Some j"
    unfolding find_from_unmatched by (cases "unmatched P d lo j") simp_all
qed

text \<open>In a sorted range the binary search finds what the linear search finds.\<close>

context comparison
begin

lemma sorted_nth: "cmp_sorted cmp (take n d) \<Longrightarrow> i \<le> j \<Longrightarrow> j < n \<Longrightarrow> n \<le> length d \<Longrightarrow> cmp (d ! i) (d ! j) \<le> 0"
  using sorted_wrt_nth_less [of "\<lambda>a b. cmp a b \<le> 0" "take n d" i j] cmp_swap [of "d ! i" "d ! i"]
  by (cases "i = j") (auto simp: cmp_sorted_def)

lemma above_not_equal: "cmp a b \<le> 0 \<Longrightarrow> 0 < cmp p b \<Longrightarrow> cmp p a \<noteq> 0"
  using cmp_trans [of p a b] by linarith

lemma below_not_equal: "cmp b a \<le> 0 \<Longrightarrow> cmp p b < 0 \<Longrightarrow> cmp p a \<noteq> 0"
  using cmp_trans [of b a p] cmp_swap [of a p] cmp_swap [of b p] by linarith

lemma sk_binary_search:
  assumes "cmp_sorted cmp (take n d)" "n \<le> length d" "hi \<le> n"
  shows "sk_binary_search cmp p d lo hi = find_from (\<lambda>q. cmp p q = 0) d hi lo"
  using assms(3)
proof (induction "hi - lo" arbitrary: lo hi rule: less_induct)
  case less
  define mid where "mid = lo + (hi - lo - 1) div 2"
  note le = sorted_nth [OF assms(1) _ _ assms(2)]
  show ?case
  proof (cases "lo < hi")
    case True
    note mid = mid_bounds [OF True, folded mid_def]
    note step = sk_binary_search.simps [of cmp p d lo hi, folded mid_def, unfolded Let_def]
    consider "cmp p (d ! mid) > 0" | "cmp p (d ! mid) < 0" | "cmp p (d ! mid) = 0" by linarith
    then show ?thesis
    proof cases
      case 1
      then have "sk_binary_search cmp p d lo hi = sk_binary_search cmp p d (mid + 1) hi" using True by (simp add: step)
      also have "\<dots> = find_from (\<lambda>q. cmp p q = 0) d hi (mid + 1)" by (rule less.hyps) (use mid less.prems in auto)
      also have "\<dots> = find_from (\<lambda>q. cmp p q = 0) d hi lo"
      proof (rule find_from_above)
        show "cmp p (d ! k) \<noteq> 0" if "k < mid + 1" for k
          using above_not_equal [OF le 1, of k] that mid(2) less.prems by simp
      qed (use mid(1) in simp)
      finally show ?thesis .
    next
      case 2
      then have "sk_binary_search cmp p d lo hi = sk_binary_search cmp p d lo mid" using True by (simp add: step)
      also have "\<dots> = find_from (\<lambda>q. cmp p q = 0) d mid lo" by (rule less.hyps) (use mid less.prems in auto)
      also have "\<dots> = find_from (\<lambda>q. cmp p q = 0) d hi lo"
      proof (rule find_from_below)
        show "cmp p (d ! k) \<noteq> 0" if "mid \<le> k" "k < hi" for k
          using below_not_equal [OF le 2, of k] that less.prems by simp
      qed (use mid(2) in simp)
      finally show ?thesis .
    next
      case 3
      have e: "find_from (\<lambda>q. cmp p q = 0) d (mid + 1) lo = find_from (\<lambda>q. cmp p q = 0) d hi lo"
        by (rule find_from_hit) (use 3 mid(1,2) in auto)
      show ?thesis
      proof (cases "hi - lo = 1")
        case one: True
        then have "mid = lo" "hi = lo + 1" using mid by linarith+
        then have "find_from (\<lambda>q. cmp p q = 0) d hi lo = Some mid" unfolding find_from_Some_iff using 3 by simp
        moreover have "sk_binary_search cmp p d lo hi = Some mid" using 3 True one by (simp add: step)
        ultimately show ?thesis by (simp only:)
      next
        case False
        then have "sk_binary_search cmp p d lo hi = sk_binary_search cmp p d lo (mid + 1)"
          using True 3 by (simp add: step)
        also have "\<dots> = find_from (\<lambda>q. cmp p q = 0) d (mid + 1) lo"
          by (rule less.hyps) (use mid(1) mid(3) [OF False] less.prems in auto)
        finally show ?thesis using e by simp
      qed
    qed
  next
    case False
    then show ?thesis by (simp add: sk_binary_search.simps [of cmp p d lo hi] find_from.simps [of _ d hi lo])
  qed
qed

end

section \<open>The abstract stack\<close>

text \<open>What a stack promises: a list of pointers, the comparison function in force, and the flag \<^verbatim>\<open>sorted\<close>, which selects the
  search and makes sorting again superfluous.\<close>

type_synonym 'f sk_abs = "ptr list \<times> 'f option \<times> bool"

definition sk_alpha :: "'f stack_st \<Rightarrow> 'f sk_abs" where
  "sk_alpha s = (sk_list s, comp s, sorted_flag s)"

definition sk_inv :: "('f \<Rightarrow> ptr \<Rightarrow> ptr \<Rightarrow> int) \<Rightarrow> 'f stack_st \<Rightarrow> bool" where
  "sk_inv call_cmp s \<longleftrightarrow> sk_ok s \<and> sk_flag_ok call_cmp s"

text \<open>The flag is truthful.\<close>

fun abs_honest :: "('f \<Rightarrow> ptr \<Rightarrow> ptr \<Rightarrow> int) \<Rightarrow> 'f sk_abs \<Rightarrow> bool" where
  "abs_honest call_cmp (xs, c, b) \<longleftrightarrow> (b \<longrightarrow> (\<exists>f. c = Some f \<and> cmp_sorted (call_cmp f) xs))"

lemma sk_inv_honest: "sk_inv cc s \<longleftrightarrow> sk_ok s \<and> abs_honest cc (sk_alpha s)"
  by (simp add: sk_inv_def sk_flag_ok_def sk_alpha_def)

fun abs_find :: "('f \<Rightarrow> ptr \<Rightarrow> ptr \<Rightarrow> int) \<Rightarrow> 'f sk_abs \<Rightarrow> ptr \<Rightarrow> nat option" where
  "abs_find call_cmp (xs, c, b) p =
     (case c of
        None \<Rightarrow> first_index (\<lambda>q. q = p) xs
      | Some f \<Rightarrow> if p = None then None else first_index (\<lambda>q. call_cmp f p q = 0) xs)"

datatype 'f sk_op =
    Insert ptr nat
  | Push ptr
  | Delete nat
  | Delete_ptr ptr
  | Shift
  | Pop
  | Set nat ptr
  | Zero
  | Sort
  | Set_cmp "'f option"

text \<open>What an operation returns: a number of pointers, a pointer, a comparison function, or nothing.\<close>

datatype 'f sk_result = R_count nat | R_ptr ptr | R_cmp "'f option" | R_done

fun sk_apply :: "('f \<Rightarrow> ptr \<Rightarrow> ptr \<Rightarrow> int) \<Rightarrow> heap_env \<Rightarrow> 'f sk_op \<Rightarrow> 'f stack_st option \<Rightarrow> 'f sk_result \<times> 'f stack_st option" where
  "sk_apply cc env (Insert p i) sk = apfst R_count (sk_insert env sk p i)"
| "sk_apply cc env (Push p) sk = apfst R_count (sk_push env sk p)"
| "sk_apply cc env (Delete i) sk = apfst R_ptr (sk_delete sk i)"
| "sk_apply cc env (Delete_ptr p) sk = apfst R_ptr (sk_delete_ptr sk p)"
| "sk_apply cc env Shift sk = apfst R_ptr (sk_shift sk)"
| "sk_apply cc env Pop sk = apfst R_ptr (sk_pop sk)"
| "sk_apply cc env (Set i p) sk = apfst R_ptr (sk_set sk i p)"
| "sk_apply cc env Zero sk = (R_done, sk_zero sk)"
| "sk_apply cc env Sort sk = (R_done, sk_sort cc sk)"
| "sk_apply cc env (Set_cmp f) sk =
     (case sk of None \<Rightarrow> (R_done, None) | Some s \<Rightarrow> (case sk_set_cmp_func s f of (old, s) \<Rightarrow> (R_cmp old, Some s)))"

text \<open>The operations on lists. Inserting makes the list unsorted; replacing a pointer does not, as far as the flag is concerned.\<close>

fun abs_apply :: "('f \<Rightarrow> ptr \<Rightarrow> ptr \<Rightarrow> int) \<Rightarrow> 'f sk_op \<Rightarrow> 'f sk_abs \<Rightarrow> 'f sk_result \<times> 'f sk_abs" where
  "abs_apply cc (Insert p i) (xs, c, b) = (R_count (length xs + 1), list_insert xs p i, c, False)"
| "abs_apply cc (Push p) (xs, c, b) = (R_count (length xs + 1), xs @ [p], c, False)"
| "abs_apply cc (Delete i) (xs, c, b) = (R_ptr (if i < length xs then xs ! i else None), list_delete xs i, c, b)"
| "abs_apply cc (Delete_ptr p) (xs, c, b) =
     (if p \<in> set xs then (R_ptr p, remove1 p xs, c, b) else (R_ptr None, xs, c, b))"
| "abs_apply cc Shift (xs, c, b) = (R_ptr (if xs = [] then None else hd xs), tl xs, c, b)"
| "abs_apply cc Pop (xs, c, b) = (R_ptr (if xs = [] then None else last xs), butlast xs, c, b)"
| "abs_apply cc (Set i p) (xs, c, b) = (if i < length xs then (R_ptr p, xs[i := p], c, b) else (R_ptr None, xs, c, b))"
| "abs_apply cc Zero (xs, c, b) = (R_done, [], c, b \<and> xs = [])"
| "abs_apply cc Sort (xs, c, b) =
     (case c of None \<Rightarrow> (R_done, xs, c, b) | Some f \<Rightarrow> (R_done, if b then xs else qsort (cc f) xs, c, True))"
| "abs_apply cc (Set_cmp f) (xs, c, b) = (R_cmp c, xs, f, b \<and> c = f)"

lemma list_delete_beyond [simp]: "length xs \<le> i \<Longrightarrow> list_delete xs i = xs"
  by (simp add: list_delete_def)

lemma list_delete_0 [simp]: "list_delete xs 0 = tl xs"
  by (simp add: list_delete_def drop_Suc)

lemma list_delete_last [simp]: "list_delete xs (length xs - Suc 0) = butlast xs"
  by (cases "xs = []") (simp_all add: list_delete_def butlast_conv_take)

lemma list_insert_end [simp]: "list_insert xs p (length xs) = xs @ [p]"
  by (simp add: list_insert_def)

lemma sk_list_nth: "i < num s \<Longrightarrow> sk_list s ! i = data s ! i"
  by (simp add: sk_list_def)

lemma qsort_short: "\<not> 2 \<le> length xs \<Longrightarrow> qsort cmp xs = xs"
  by (cases xs; cases "tl xs") (auto simp: qsort_def)

lemma first_index_remove1: "first_index (\<lambda>q. q = p) xs = Some i \<Longrightarrow> xs ! i = p \<and> list_delete xs i = remove1 p xs \<and> p \<in> set xs"
proof (induction xs arbitrary: i)
  case (Cons x xs)
  show ?case
  proof (cases "x = p")
    case True
    then show ?thesis using Cons.prems by (auto simp: list_delete_def split: if_splits)
  next
    case False
    with Cons.prems obtain k where k: "first_index (\<lambda>q. q = p) xs = Some k" "i = Suc k" by auto
    from Cons.IH [OF k(1)] False k(2) show ?thesis by (simp add: list_delete_def)
  qed
qed simp

lemma first_index_None: "first_index P xs = None \<longleftrightarrow> (\<forall>x \<in> set xs. \<not> P x)"
  by (induction xs) auto

section \<open>Refinement\<close>

lemma sk_find_alpha:
  assumes "sk_ok s" "abs_honest cc (sk_alpha s)" "\<And>f. comparison (cc f)"
  shows "sk_find cc (Some s) p = abs_find cc (sk_alpha s) p"
proof -
  have l: "num s \<le> length (data s)" using assms(1) by (simp add: sk_ok_def)
  note lin = find_from_first_index [OF l, folded sk_list_def]
  show ?thesis
  proof (cases "comp s")
    case None
    then show ?thesis by (simp add: sk_find_def sk_alpha_def lin)
  next
    case (Some f)
    have "sk_binary_search (cc f) p (data s) 0 (num s) = first_index (\<lambda>q. cc f p q = 0) (sk_list s)" if "sorted_flag s"
      using comparison.sk_binary_search [OF assms(3), of f "num s" "data s" "num s" p 0] l that assms(2) Some
      by (simp add: sk_alpha_def lin flip: sk_list_def)
    with Some show ?thesis by (simp add: sk_find_def sk_alpha_def sk_is_sorted_def lin)
  qed
qed

lemma sk_insert_alpha:
  assumes "sk_ok s"
  shows "sk_insert env (Some s) p pos = (0, Some s) \<and> sk_grow env s = None \<or>
    (\<exists>s'. sk_insert env (Some s) p pos = (num s + 1, Some s') \<and> sk_ok s' \<and>
       sk_alpha s' = (list_insert (sk_list s) p pos, comp s, False))"
  using sk_insert [of s env p pos] assms by (auto simp: sk_alpha_def)

lemma sk_delete_alpha:
  assumes "sk_ok s"
  shows "\<exists>s'. sk_delete (Some s) pos = ((if pos < num s then sk_list s ! pos else None), Some s') \<and> sk_ok s' \<and>
    sk_alpha s' = (list_delete (sk_list s) pos, comp s, sorted_flag s)"
proof (cases "pos < num s")
  case True
  from sk_delete [OF assms True] obtain s' where
    "sk_delete (Some s) pos = (sk_list s ! pos, Some s')" "sk_ok s'"
    "sk_list s' = list_delete (sk_list s) pos" "comp s' = comp s" "sorted_flag s' = sorted_flag s"
    by metis
  with True show ?thesis by (auto simp: sk_alpha_def)
next
  case False
  with assms show ?thesis by (simp add: sk_delete_def sk_alpha_def)
qed

lemma sk_set_alpha:
  assumes "sk_ok s"
  shows "\<exists>s'. sk_set (Some s) i p = ((if i < num s then p else None), Some s') \<and> sk_ok s' \<and>
    sk_alpha s' = (if i < num s then (sk_list s)[i := p] else sk_list s, comp s, sorted_flag s)"
  using assms by (auto simp: sk_set_def sk_ok_def sk_alpha_def sk_list_def take_update_swap)

lemma sk_sort_alpha:
  assumes "sk_ok s"
  shows "\<exists>s'. sk_sort cc (Some s) = Some s' \<and> sk_ok s' \<and> (R_done, sk_alpha s') = abs_apply cc Sort (sk_alpha s)"
proof (cases "comp s")
  case None
  with assms(1) show ?thesis by (simp add: sk_sort_def sk_alpha_def)
next
  case (Some f)
  show ?thesis
  proof (cases "sorted_flag s")
    case True
    then show ?thesis using assms Some by (simp add: sk_sort_def sk_alpha_def)
  next
    case False
    define d where "d = (if num s \<ge> 2 then qsort (cc f) (take (num s) (data s)) @ drop (num s) (data s) else data s)"
    have r: "sk_sort cc (Some s) = Some (s\<lparr>data := d, sorted_flag := True\<rparr>)"
      using Some False by (simp add: sk_sort_def Let_def d_def)
    have ok: "length (data s) = num_alloc s" "num s < num_alloc s" "num_alloc s * sizeof_ptr < SIZE_MOD"
      using assms(1) by (simp_all add: sk_ok_def)
    have "length d = num_alloc s" "take (num s) d = qsort (cc f) (sk_list s)"
      using ok by (simp_all add: d_def sk_list_def qsort_short)
    with r ok Some False show ?thesis by (simp add: sk_ok_def sk_alpha_def sk_list_def)
  qed
qed

text \<open>Every operation keeps the array well formed, acts as its counterpart on the list and returns what that returns; the operations
  that insert may run out of memory, and then report it and change nothing.\<close>

theorem sk_apply_refines:
  assumes "sk_ok s"
  shows "\<exists>r s'. sk_apply cc env op (Some s) = (r, Some s') \<and> sk_ok s' \<and>
    ((r, sk_alpha s') = abs_apply cc op (sk_alpha s) \<or> sk_grow env s = None \<and> s' = s \<and> r = R_count 0)"
proof -
  have n: "length (sk_list s) = num s" "num s \<le> length (data s)" using assms by (simp_all add: sk_ok_def)
  have n0: "num s = 0 \<longleftrightarrow> sk_list s = []" using n(1) by auto
  note del = sk_delete_alpha [OF assms]
  show ?thesis
  proof (cases op)
    case (Insert p i)
    with sk_insert_alpha [OF assms, of env p i] assms n(1) show ?thesis by (auto simp: sk_alpha_def)
  next
    case (Push p)
    with sk_insert_alpha [OF assms, of env p "num s"] assms n(1) list_insert_end [of "sk_list s" p]
    show ?thesis by (auto simp: sk_alpha_def sk_push_def sk_num_def)
  next
    case (Delete i)
    with del [of i] n(1) show ?thesis by (auto simp: sk_alpha_def)
  next
    case (Delete_ptr p)
    show ?thesis
    proof (cases "first_index (\<lambda>q. q = p) (sk_list s)")
      case None
      then have "p \<notin> set (sk_list s)" by (auto simp: first_index_None)
      with None Delete_ptr assms n(2) show ?thesis
        by (simp add: sk_delete_ptr_def find_from_first_index sk_alpha_def flip: sk_list_def)
    next
      case (Some i)
      from Some have "i < num s" using n(1) first_index_Some_iff by metis
      with Some first_index_remove1 [OF Some] Delete_ptr del [of i] n(2) show ?thesis
        by (auto simp: sk_delete_ptr_def find_from_first_index sk_alpha_def simp flip: sk_list_def)
    qed
  next
    case Shift
    show ?thesis
    proof (cases "num s = 0")
      case True
      with Shift assms n0 show ?thesis by (simp add: sk_shift_def sk_alpha_def)
    next
      case False
      with Shift del [of 0] n0 show ?thesis by (auto simp: sk_shift_def sk_alpha_def hd_conv_nth)
    qed
  next
    case Pop
    show ?thesis
    proof (cases "num s = 0")
      case True
      with Pop assms n0 show ?thesis by (simp add: sk_pop_def sk_alpha_def)
    next
      case False
      with Pop del [of "num s - 1"] n n0 list_delete_last [of "sk_list s"] show ?thesis
        by (auto simp: sk_pop_def sk_alpha_def last_conv_nth)
    qed
  next
    case (Set i p)
    with sk_set_alpha [OF assms, of i p] n(1) show ?thesis by (auto simp: sk_alpha_def)
  next
    case Zero
    with assms n0 show ?thesis by (auto simp: sk_zero_def sk_ok_def sk_alpha_def sk_list_def)
  next
    case Sort
    with sk_sort_alpha [OF assms] show ?thesis by auto
  next
    case (Set_cmp f)
    with assms show ?thesis by (auto simp: sk_set_cmp_func_def Let_def sk_ok_def sk_alpha_def sk_list_def)
  qed
qed

text \<open>Every operation but replacing a pointer keeps the flag truthful.\<close>

lemma abs_honest_apply:
  assumes "abs_honest cc a" "\<And>f. comparison (cc f)" "\<And>i p. op \<noteq> Set i p"
  shows "abs_honest cc (snd (abs_apply cc op a))"
proof -
  obtain xs c b where a: "a = (xs, c, b)" by (cases a)
  have tl: "cmp_sorted cmp (tl xs)" "cmp_sorted cmp (butlast xs)" if "cmp_sorted cmp xs" for cmp :: "ptr \<Rightarrow> ptr \<Rightarrow> int"
    using cmp_sorted_delete [OF that, of 0] cmp_sorted_delete [OF that, of "length xs - Suc 0"] by simp_all
  have rm: "cmp_sorted cmp (remove1 p xs)" if "cmp_sorted cmp xs" for cmp :: "ptr \<Rightarrow> ptr \<Rightarrow> int" and p
  proof (cases "first_index (\<lambda>q. q = p) xs")
    case None
    then have "p \<notin> set xs" by (auto simp: first_index_None)
    with that show ?thesis by (simp add: remove1_idem)
  next
    case (Some i)
    with cmp_sorted_delete [OF that, of i] first_index_remove1 [OF Some] show ?thesis by simp
  qed
  show ?thesis
  proof (cases op)
    case (Set i p)
    with assms(3) [of i p] show ?thesis by simp
  next
    case Sort
    with assms(1) comparison.sorted_qsort [OF assms(2)] show ?thesis unfolding a by (auto split: option.split)
  qed (use assms(1) tl rm cmp_sorted_delete in \<open>auto simp: a\<close>)
qed

section \<open>Runs\<close>

fun sk_run :: "('f \<Rightarrow> ptr \<Rightarrow> ptr \<Rightarrow> int) \<Rightarrow> heap_env \<Rightarrow> 'f sk_op list \<Rightarrow> 'f stack_st option \<Rightarrow> 'f sk_result list \<times> 'f stack_st option"
where
  "sk_run cc env [] sk = ([], sk)"
| "sk_run cc env (op # ops) sk = (let (r, sk) = sk_apply cc env op sk; (rs, sk) = sk_run cc env ops sk in (r # rs, sk))"

fun abs_run :: "('f \<Rightarrow> ptr \<Rightarrow> ptr \<Rightarrow> int) \<Rightarrow> 'f sk_op list \<Rightarrow> 'f sk_abs \<Rightarrow> 'f sk_result list \<times> 'f sk_abs" where
  "abs_run cc [] a = ([], a)"
| "abs_run cc (op # ops) a = (let (r, a) = abs_apply cc op a; (rs, a) = abs_run cc ops a in (r # rs, a))"

lemma abs_run_honest:
  assumes "\<And>f. comparison (cc f)" "\<And>i p. Set i p \<notin> set ops" "abs_honest cc a"
  shows "abs_honest cc (snd (abs_run cc ops a))"
  using assms(2,3)
proof (induction ops arbitrary: a)
  case (Cons op ops)
  have "\<And>i p. op \<noteq> Set i p" using Cons.prems(1) by auto
  from abs_honest_apply [OF Cons.prems(2) assms(1) this] have "abs_honest cc (snd (abs_apply cc op a))" .
  with Cons.IH [of "snd (abs_apply cc op a)"] Cons.prems(1) show ?case by (auto simp: Let_def split: prod.splits)
qed simp

text \<open>With an allocator that serves every request a run of any practical length acts on the list exactly.\<close>

lemma sk_grow_ok:
  assumes "sk_ok s" "\<And>n. h_ok env n" "num_alloc s \<le> 2 * k + 4" "num s \<le> k" "k < 2 ^ 59"
  obtains s' where "sk_grow env s = Some s'" "num_alloc s' \<le> 2 * (k + 1) + 4"
proof -
  have s: "length (data s) = num_alloc s" "num s < num_alloc s" "num_alloc s * 8 < 2 ^ 64"
    using assms(1) by (simp_all add: sk_ok_def sizeof_ptr_def SIZE_MOD_def)
  have a: "size_add (num s) 1 = num s + 1" "size_mul (num_alloc s) 2 = num_alloc s * 2"
    using s by (simp_all add: size_add_def size_mul_def SIZE_MOD_def)
  show thesis
  proof (cases "num_alloc s \<le> num s + 1")
    case True
    define n where "n = num_alloc s * 2"
    have n: "n * 8 + 64 < 2 ^ 64" "n \<le> 2 * (k + 1) + 4"
      using True assms(4,5) by (simp_all add: n_def)
    then have "n * sizeof_ptr < SIZE_MOD" by (simp add: sizeof_ptr_def SIZE_MOD_def)
    moreover have "\<exists>d. realloc_ptrs env (data s) n = Some d"
      using n(1) assms(2) by (simp add: realloc_ptrs_def malloc_ptrs_def OPENSSL_malloc_def size_mul_def size_add_def
          sizeof_ptr_def SIZE_MOD_def)
    moreover have "\<not> n < num_alloc s" by (simp add: n_def)
    ultimately show thesis
      using that True n(2) unfolding sk_grow_def Let_def a n_def [symmetric] by (auto simp: size_mul_ptr)
  next
    case False
    with that [of s] assms(3) a show thesis by (simp add: sk_grow_def)
  qed
qed
lemma sk_insert_num_alloc:
  "sk_insert env (Some s) p pos = (n, Some s') \<Longrightarrow> num_alloc s' = num_alloc (case sk_grow env s of None \<Rightarrow> s | Some s1 \<Rightarrow> s1)"
  unfolding sk_insert_eq Let_def by (auto split: option.splits)

lemma sk_apply_num_alloc:
  assumes "sk_apply cc env op (Some s) = (r, Some s')"
  shows "num_alloc s' = num_alloc s \<or> num_alloc s' = num_alloc (case sk_grow env s of None \<Rightarrow> s | Some s1 \<Rightarrow> s1)"
proof -
  have ins: "sk_insert env (Some s) p i = (n, Some s') \<Longrightarrow> ?thesis" for p i n
    using sk_insert_num_alloc [of env s p i n s'] by blast
  have del: "sk_delete (Some s) i = (q, Some s') \<Longrightarrow> ?thesis" for i q
    by (auto simp: sk_delete_def Let_def split: if_splits)
  show ?thesis
  proof (cases op)
    case (Insert p i)
    with assms ins show ?thesis by (auto simp: apfst_def map_prod_def split: prod.splits)
  next
    case (Push p)
    with assms ins show ?thesis by (auto simp: sk_push_def apfst_def map_prod_def split: prod.splits)
  next
    case (Delete i)
    with assms del show ?thesis by (auto simp: apfst_def map_prod_def split: prod.splits)
  next
    case (Delete_ptr p)
    with assms del show ?thesis by (auto simp: sk_delete_ptr_def apfst_def map_prod_def split: option.splits prod.splits)
  next
    case Shift
    with assms del show ?thesis by (auto simp: sk_shift_def apfst_def map_prod_def split: if_splits prod.splits)
  next
    case Pop
    with assms del show ?thesis by (auto simp: sk_pop_def apfst_def map_prod_def split: if_splits prod.splits)
  next
    case (Set i p)
    with assms show ?thesis by (auto simp: sk_set_def split: if_splits)
  next
    case Zero
    with assms show ?thesis by (auto simp: sk_zero_def split: if_splits)
  next
    case Sort
    with assms show ?thesis by (auto simp: sk_sort_def Let_def split: if_splits option.splits)
  next
    case (Set_cmp f)
    with assms show ?thesis by (auto simp: sk_set_cmp_func_def Let_def)
  qed
qed

lemma length_list_insert: "length (list_insert xs p i) \<le> length xs + 1"
  by (simp add: list_insert_def)

lemma length_list_delete: "length (list_delete xs i) \<le> length xs"
  by (simp add: list_delete_def)

lemma length_abs_apply: "length (fst (snd (abs_apply cc op a))) \<le> length (fst a) + 1"
proof -
  obtain xs c b where a: "a = (xs, c, b)" by (cases a)
  show ?thesis
    unfolding a using length_list_insert [of xs] length_list_delete [of xs]
    by (cases op) (auto simp: length_remove1 le_SucI split: option.split)
qed

lemma sk_run_alpha:
  assumes "\<And>n. h_ok env n"
  shows "sk_ok s \<Longrightarrow> num s \<le> k \<Longrightarrow> num_alloc s \<le> 2 * k + 4 \<Longrightarrow> k + length ops \<le> 2 ^ 59 \<Longrightarrow>
    \<exists>rs s'. sk_run cc env ops (Some s) = (rs, Some s') \<and> sk_ok s' \<and> (rs, sk_alpha s') = abs_run cc ops (sk_alpha s)"
proof (induction ops arbitrary: s k)
  case (Cons op ops)
  then have ok: "sk_ok s" and k: "k < 2 ^ 59" by simp_all
  from sk_grow_ok [OF ok assms Cons.prems(3,2) k] obtain g where
    g: "sk_grow env s = Some g" "num_alloc g \<le> 2 * (k + 1) + 4" .
  from sk_apply_refines [OF ok, of cc env op] g(1) obtain r s1 where
    s1: "sk_apply cc env op (Some s) = (r, Some s1)" "sk_ok s1" "(r, sk_alpha s1) = abs_apply cc op (sk_alpha s)" by auto
  have len: "num x = length (fst (sk_alpha x))" if "sk_ok x" for x :: "'a stack_st"
    using that by (simp add: sk_alpha_def)
  have "num s1 \<le> k + 1"
    using len [OF s1(2)] len [OF ok] s1(3) length_abs_apply [of cc op "sk_alpha s"] Cons.prems(2) by (metis add_le_mono1 le_trans snd_conv)
  moreover have "num_alloc s1 \<le> 2 * (k + 1) + 4"
    using sk_apply_num_alloc [OF s1(1)] g Cons.prems(3) by auto
  ultimately obtain rs s' where "sk_run cc env ops (Some s1) = (rs, Some s')" "sk_ok s'" "(rs, sk_alpha s') = abs_run cc ops (sk_alpha s1)"
    using Cons.IH [OF s1(2), of "k + 1"] Cons.prems(4) by auto
  with s1(1,3) show ?case
    by (intro exI [of _ "r # rs"] exI [of _ s']) (simp flip: s1(3), metis (mono_tags, lifting) case_prod_conv)
qed simp

lemma sk_new_inv:
  assumes "\<And>n. h_ok env n"
  obtains s where "sk_new env f = Some s" "sk_ok s" "sk_alpha s = ([], f, False)" "num s = 0" "num_alloc s = 4"
proof -
  let ?s = "\<lparr>num = 0, data = replicate kMinSize None, sorted_flag = False, num_alloc = kMinSize, comp = f\<rparr>"
  have s: "sk_new env f = Some ?s"
    using assms by (simp add: sk_new_def malloc_ptrs_def OPENSSL_malloc_def size_mul_def size_add_def sizeof_ptr_def
        sizeof_STACK_def kMinSize_def SIZE_MOD_def)
  from sk_new_Some [OF s] show thesis by (intro that [OF s]) (simp_all add: sk_alpha_def kMinSize_def)
qed

theorem sk_run_new:
  assumes "\<And>n. h_ok env n" "length ops \<le> 2 ^ 59"
  shows "\<exists>rs s. sk_run cc env ops (sk_new env f) = (rs, Some s) \<and> sk_ok s \<and> (rs, sk_alpha s) = abs_run cc ops ([], f, False)"
proof -
  obtain s where "sk_new env f = Some s" "sk_ok s" "sk_alpha s = ([], f, False)" "num s = 0" "num_alloc s = 4"
    by (rule sk_new_inv [where env = env and f = f]) (rule assms(1))
  with sk_run_alpha [OF assms(1), where s = s and k = 0 and ops = ops] assms(2) show ?thesis by simp
qed

section \<open>Copies\<close>

lemma sk_dup_alpha:
  assumes "sk_inv cc s" "sk_dup env (Some s) = Some t"
  shows "sk_inv cc t \<and> sk_alpha t = sk_alpha s \<and> num t = num s \<and> take (num t) (data t) = sk_list s"
  using assms
  by (auto simp: sk_dup_def sk_inv_def sk_ok_def sk_flag_ok_def sk_alpha_def sk_list_def malloc_ptrs_length
      split: if_split_asm option.split_asm)

text \<open>What the copying function returns for each element of the list; the null pointer is kept.\<close>

fun copies_of :: "(nat \<Rightarrow> ptr) \<Rightarrow> ptr list \<Rightarrow> ptr list" where
  "copies_of copy [] = []"
| "copies_of copy (None # ps) = None # copies_of copy ps"
| "copies_of copy (Some p # ps) = copy p # copies_of copy ps"

lemma length_copies_of [simp]: "length (copies_of copy ps) = length ps"
  by (induction copy ps rule: copies_of.induct) simp_all

lemma deep_copy_loop_Some:
  "deep_copy_loop copy acc ps = (Some r, freed) \<Longrightarrow>
   r = acc @ copies_of copy ps \<and> freed = [] \<and> (\<forall>p. Some p \<in> set ps \<longrightarrow> copy p \<noteq> None)"
  by (induction copy acc ps rule: deep_copy_loop.induct) (auto split: option.split_asm)

lemma deep_copy_loop_None:
  "deep_copy_loop copy acc ps = (None, freed) \<Longrightarrow>
   \<exists>qs p rs. ps = qs @ Some p # rs \<and> copy p = None \<and> (\<forall>p. Some p \<in> set qs \<longrightarrow> copy p \<noteq> None) \<and>
     freed = filter (\<lambda>q. q \<noteq> None) (acc @ copies_of copy qs)"
proof (induction copy acc ps rule: deep_copy_loop.induct)
  case (2 copy copied ps)
  then obtain qs p rs where "ps = qs @ Some p # rs" "copy p = None" "\<forall>p. Some p \<in> set qs \<longrightarrow> copy p \<noteq> None"
    "freed = filter (\<lambda>q. q \<noteq> None) ((copied @ [None]) @ copies_of copy qs)" by auto
  then show ?case by (intro exI [of _ "None # qs"] exI [of _ p] exI [of _ rs]) auto
next
  case (3 copy copied p ps)
  show ?case
  proof (cases "copy p")
    case None
    with 3 show ?thesis by (intro exI [of _ "[]"] exI [of _ p] exI [of _ ps]) auto
  next
    case (Some c)
    with 3 obtain qs p' rs where "ps = qs @ Some p' # rs" "copy p' = None" "\<forall>p. Some p \<in> set qs \<longrightarrow> copy p \<noteq> None"
      "freed = filter (\<lambda>q. q \<noteq> None) ((copied @ [Some c]) @ copies_of copy qs)" by auto
    with Some show ?thesis by (intro exI [of _ "Some p # qs"] exI [of _ p'] exI [of _ rs]) auto
  qed
qed simp

lemma sk_deep_copy_Some:
  assumes "sk_inv cc s" "sk_deep_copy env copy (Some s) = (Some t, freed)"
  shows "sk_ok t \<and> sk_list t = copies_of copy (sk_list s) \<and> comp t = comp s \<and> freed = [] \<and>
    (\<forall>p. Some p \<in> set (sk_list s) \<longrightarrow> copy p \<noteq> None)"
proof -
  obtain u where u: "sk_dup env (Some s) = Some u" using assms(2) by (auto simp: sk_deep_copy_def split: option.splits)
  from sk_dup_alpha [OF assms(1) u] have i: "sk_ok u" "num u = num s" "take (num u) (data u) = sk_list s" "comp u = comp s"
    by (simp_all add: sk_inv_def sk_alpha_def, metis)
  from assms(2) u i(2,3) obtain r where r: "deep_copy_loop copy [] (sk_list s) = (Some r, freed)"
    "t = u\<lparr>data := r @ drop (num u) (data u)\<rparr>"
    by (auto simp: sk_deep_copy_def split: option.splits prod.splits)
  from deep_copy_loop_Some [OF r(1)] have c: "r = copies_of copy (sk_list s)" "freed = []"
    "\<forall>p. Some p \<in> set (sk_list s) \<longrightarrow> copy p \<noteq> None" by simp_all
  have "length (sk_list s) = num s" using assms(1) by (simp add: sk_inv_def)
  then have "length r = num u" using c(1) i(2) by (simp add: length_copies_of)
  with r(2) c i show ?thesis by (auto simp: sk_ok_def sk_list_def)
qed

lemma sk_deep_copy_None:
  assumes "sk_inv cc s" "sk_deep_copy env copy (Some s) = (None, freed)"
  shows "sk_dup env (Some s) = None \<and> freed = [] \<or>
    (\<exists>qs p rs. sk_list s = qs @ Some p # rs \<and> copy p = None \<and> (\<forall>p. Some p \<in> set qs \<longrightarrow> copy p \<noteq> None) \<and>
       freed = filter (\<lambda>q. q \<noteq> None) (copies_of copy qs))"
proof (cases "sk_dup env (Some s)")
  case None
  with assms(2) show ?thesis by (simp add: sk_deep_copy_def)
next
  case (Some u)
  with assms have "deep_copy_loop copy [] (sk_list s) = (None, freed)"
    using sk_dup_alpha [OF assms(1) Some] by (auto simp: sk_deep_copy_def split: option.splits prod.splits)
  from deep_copy_loop_None [OF this] show ?thesis by simp
qed

section \<open>Properties\<close>

text \<open>Comparing by a number behind the pointer.\<close>

definition by_number :: "unit \<Rightarrow> ptr \<Rightarrow> ptr \<Rightarrow> int" where
  "by_number f a b = int (case a of None \<Rightarrow> 0 | Some n \<Rightarrow> n) - int (case b of None \<Rightarrow> 0 | Some n \<Rightarrow> n)"

lemma by_number_comparison: "comparison (by_number f)"
  by unfold_locales (auto simp: by_number_def)

text \<open>C8: The stack implements a list with a comparison function: in any sequence of operations on a new stack, replacing pointers
  among them, every operation returns what the operation on lists returns, and the stack holds what the list holds.
  A search returns the least matching index of that list, although the stack searches by bisection when it is sorted,
  unless pointers have been replaced (\<^verbatim>\<open>sk_set\<close>) and the flag \<^verbatim>\<open>sorted\<close> is set all the same.\<close>

theorem sk_refines_list:
  assumes "\<And>f. comparison (cc f)" "\<And>n. h_ok env n" "length ops \<le> 2 ^ 59"
  shows "\<exists>rs s. sk_run cc env ops (sk_new env f) = (rs, Some s) \<and> (rs, sk_alpha s) = abs_run cc ops ([], f, False) \<and>
    ((\<forall>i p. Set i p \<notin> set ops) \<or> \<not> sk_is_sorted (Some s) \<longrightarrow> (\<forall>p. sk_find cc (Some s) p = abs_find cc (sk_alpha s) p))"
proof -
  obtain rs s where s: "sk_run cc env ops (sk_new env f) = (rs, Some s)" "sk_ok s" "(rs, sk_alpha s) = abs_run cc ops ([], f, False)"
    using sk_run_new [where cc = cc and env = env and ops = ops and f = f, OF assms(2,3)] by blast
  have "abs_honest cc (sk_alpha s)" if "(\<forall>i p. Set i p \<notin> set ops) \<or> \<not> sk_is_sorted (Some s)"
    using that abs_run_honest [where cc = cc and ops = ops and a = "([], f, False)", OF assms(1)] s(3) [symmetric] by (auto simp: sk_is_sorted_def sk_alpha_def)
  with sk_find_alpha [where cc = cc, OF s(2) _ assms(1)] s show ?thesis by blast
qed

theorem sk_refines_list_witness:
  "\<exists>rs s. sk_run by_number all_ok [Push (Some 7), Push (Some 3), Sort, Push (Some 9), Set 2 (Some 8), Shift] (sk_new all_ok (Some ())) = (rs, Some s) \<and>
     rs = [R_count 1, R_count 2, R_done, R_count 3, R_ptr (Some 8), R_ptr (Some 3)] \<and>
     sk_find by_number (Some s) (Some 8) = Some 1"
proof -
  let ?ops = "[Push (Some 7), Push (Some 3), Sort, Push (Some 9), Set 2 (Some 8), Shift]"
  have r: "abs_run by_number ?ops ([], Some (), False) =
      ([R_count 1, R_count 2, R_done, R_count 3, R_ptr (Some 8), R_ptr (Some 3)], [Some 7, Some 8], Some (), False)"
    by (simp add: qsort_def by_number_def)
  from sk_refines_list [of by_number all_ok ?ops "Some ()"] by_number_comparison obtain rs s where
    s: "sk_run by_number all_ok ?ops (sk_new all_ok (Some ())) = (rs, Some s)"
      "(rs, sk_alpha s) = abs_run by_number ?ops ([], Some (), False)"
      "\<not> sk_is_sorted (Some s) \<longrightarrow> (\<forall>p. sk_find by_number (Some s) p = abs_find by_number (sk_alpha s) p)" by auto
  from s(2) r have a: "rs = [R_count 1, R_count 2, R_done, R_count 3, R_ptr (Some 8), R_ptr (Some 3)]"
    "sk_alpha s = ([Some 7, Some 8], Some (), False)" by simp_all
  then have "\<not> sk_is_sorted (Some s)" by (simp add: sk_alpha_def sk_is_sorted_def)
  with s(1,3) a show ?thesis by (auto simp: by_number_def)
qed

lemma sample_stack_inv:
  "sk_inv by_number \<lparr>num = 2, data = [Some 1, Some 3, None, None], sorted_flag = True, num_alloc = 4, comp = Some ()\<rparr>"
  by (simp add: sk_inv_def sk_ok_def sk_flag_ok_def sk_list_def cmp_sorted_def by_number_def sizeof_ptr_def SIZE_MOD_def)

text \<open>A deep copy is all or nothing: either it holds the copy of every pointer, in order, or some pointer could not be
  copied and exactly the copies made before are released.\<close>

theorem sk_deep_copy_all_or_nothing:
  assumes "sk_inv cc s" "sk_dup env (Some s) \<noteq> None"
  shows "(case sk_deep_copy env copy (Some s) of
      (Some t, freed) \<Rightarrow> sk_ok t \<and> sk_list t = copies_of copy (sk_list s) \<and> comp t = comp s \<and> freed = [] \<and>
        (\<forall>p. Some p \<in> set (sk_list s) \<longrightarrow> copy p \<noteq> None)
    | (None, freed) \<Rightarrow>
        \<exists>qs p rs. sk_list s = qs @ Some p # rs \<and> copy p = None \<and> (\<forall>p. Some p \<in> set qs \<longrightarrow> copy p \<noteq> None) \<and>
          freed = filter (\<lambda>q. q \<noteq> None) (copies_of copy qs))"
proof (cases "sk_deep_copy env copy (Some s)")
  case (Pair t freed)
  show ?thesis
  proof (cases t)
    case None
    with sk_deep_copy_None [OF assms(1) Pair [unfolded None]] assms(2) Pair show ?thesis by simp
  next
    case (Some u)
    with sk_deep_copy_Some [OF assms(1) Pair [unfolded Some]] Pair show ?thesis by simp
  qed
qed

theorem sk_deep_copy_all_or_nothing_witness:
  "snd (sk_deep_copy all_ok (\<lambda>n. if n = 3 then None else Some (n + 10))
     (Some \<lparr>num = 2, data = [Some 1, Some 3, None, None], sorted_flag = True, num_alloc = 4, comp = Some ()\<rparr>)) = [Some 11]"
proof -
  let ?s = "\<lparr>num = 2, data = [Some 1, Some 3, None, None], sorted_flag = True, num_alloc = 4, comp = Some ()\<rparr>"
  let ?f = "\<lambda>n. if n = 3 then None else Some (n + 10)"
  have d: "sk_dup all_ok (Some ?s) \<noteq> None"
    by (simp add: sk_dup_def OPENSSL_malloc_def malloc_ptrs_def size_add_def size_mul_def sizeof_STACK_def sizeof_ptr_def
        SIZE_MOD_def)
  have l: "sk_list ?s = [Some 1, Some 3]" by (simp add: sk_list_def)
  obtain t freed where r: "sk_deep_copy all_ok ?f (Some ?s) = (t, freed)" by fastforce
  from sk_deep_copy_all_or_nothing [OF sample_stack_inv d, of ?f] r l
  have "t = None" by (cases t) auto
  with sk_deep_copy_all_or_nothing [OF sample_stack_inv d, of ?f] r l obtain qs p rs where
    q: "[Some 1, Some 3] = qs @ Some p # rs" "?f p = None" "freed = filter (\<lambda>q. q \<noteq> None) (copies_of ?f qs)" by auto
  then have "p = 3" by (simp split: if_split_asm)
  with q(1) have "qs = [Some 1]" by (auto simp: Cons_eq_append_conv)
  with q(3) r show ?thesis by simp
qed

text \<open>Replacing a pointer with \<^verbatim>\<open>sk_set\<close> leaves the flag \<^verbatim>\<open>sorted\<close> set, and the search then misses a pointer
  that is there.\<close>

theorem sk_set_breaks_find:
  "\<exists>s s'. sk_inv by_number s \<and> sk_list s = [Some 1, Some 3] \<and> sk_set (Some s) 0 (Some 5) = (Some 5, Some s') \<and>
     sk_list s' = [Some 5, Some 3] \<and> \<not> sk_inv by_number s' \<and> sk_find by_number (Some s') (Some 3) = None"
proof -
  let ?s = "\<lparr>num = 2, data = [Some 1, Some 3, None, None], sorted_flag = True, num_alloc = 4, comp = Some ()\<rparr>"
  let ?s' = "?s\<lparr>data := [Some 5, Some 3, None, None]\<rparr>"
  have "sk_inv by_number ?s"
    by (simp add: sk_inv_def sk_ok_def sk_flag_ok_def sk_list_def cmp_sorted_def by_number_def sizeof_ptr_def SIZE_MOD_def)
  moreover have "\<not> sk_inv by_number ?s'"
    by (simp add: sk_inv_def sk_flag_ok_def sk_list_def cmp_sorted_def by_number_def)
  moreover have "sk_find by_number (Some ?s') (Some 3) = None"
    by (simp add: sk_find_def sk_is_sorted_def sk_binary_search.simps by_number_def)
  ultimately show ?thesis
    by (intro exI [of _ ?s] exI [of _ ?s']) (simp add: sk_list_def sk_set_def)
qed

end
