(* ===== verification/Cbs.thy ===== *)
theory Cbs
  imports Mem
begin

text \<open>
  The byte-string reader \<^verbatim>\<open>CBS\<close> of \<^verbatim>\<open>crypto/bytestring/cbs.c\<close>. A \<^verbatim>\<open>CBS\<close> is a pointer and a
  length into memory that the reader never writes, so its state is the list of the bytes it
  still covers; advancing the pointer drops bytes at the front. Every operation returns its output
  (\<open>None\<close> where the C function returns zero) and the reader it leaves behind: some operations
  have already advanced the reader when they fail, and that is visible to the caller.
  The last part shows that the integer readers decode exactly the big-endian and little-endian
  encodings, as interpretations of the codec contract of the prelude.
\<close>

type_synonym cbs = "byte list"

subsection \<open>Access\<close>

definition CBS_init :: "byte list \<Rightarrow> nat \<Rightarrow> cbs" where
  "CBS_init data len = take len data"

definition cbs_get :: "cbs \<Rightarrow> nat \<Rightarrow> byte list option \<times> cbs" where
  "cbs_get cbs n = (if length cbs < n then (None, cbs) else (Some (take n cbs), drop n cbs))"

definition CBS_skip :: "cbs \<Rightarrow> nat \<Rightarrow> unit option \<times> cbs" where
  "CBS_skip cbs len = rbind (cbs_get cbs len) (\<lambda>dummy cbs. (Some (), cbs))"

definition CBS_data :: "cbs \<Rightarrow> byte list" where
  "CBS_data cbs = cbs"

definition CBS_len :: "cbs \<Rightarrow> nat" where
  "CBS_len cbs = length cbs"

text \<open>\<^verbatim>\<open>CBS_stow\<close> copies into a fresh allocation. The result is the success flag and the new \<^verbatim>\<open>*out_ptr\<close> (\<open>None\<close> for
  \<^verbatim>\<open>NULL\<close>) and \<^verbatim>\<open>*out_len\<close>.\<close>

definition CBS_stow :: "heap_env \<Rightarrow> cbs \<Rightarrow> bool \<times> byte list option \<times> nat" where
  "CBS_stow env cbs =
     (if length cbs = 0 then (True, None, 0)
      else case OPENSSL_memdup env cbs (length cbs) of
             None \<Rightarrow> (False, None, 0)
           | Some out_ptr \<Rightarrow> (True, Some out_ptr, length cbs))"

text \<open>\<^verbatim>\<open>CBS_strdup\<close> stops at the first zero byte, as \<^verbatim>\<open>OPENSSL_strndup\<close> does; the flag tells
  whether the copy was made.\<close>

definition CBS_strdup :: "heap_env \<Rightarrow> cbs \<Rightarrow> bool \<times> byte list option" where
  "CBS_strdup env cbs =
     (let out_ptr = OPENSSL_strndup env cbs (length cbs) in (out_ptr \<noteq> None, out_ptr))"

fun OPENSSL_memchr :: "byte list \<Rightarrow> byte \<Rightarrow> nat option" where
  "OPENSSL_memchr [] c = None"
| "OPENSSL_memchr (b # bs) c = (if b = c then Some 0 else map_option Suc (OPENSSL_memchr bs c))"

definition CBS_contains_zero_byte :: "cbs \<Rightarrow> bool" where
  "CBS_contains_zero_byte cbs \<longleftrightarrow> OPENSSL_memchr cbs 0 \<noteq> None"

definition CBS_mem_equal :: "cbs \<Rightarrow> byte list \<Rightarrow> nat \<Rightarrow> bool" where
  "CBS_mem_equal cbs data len =
     (if len \<noteq> length cbs then False else CRYPTO_memcmp cbs data len = 0)"

subsection \<open>Integers of fixed width\<close>

fun cbs_get_u_loop :: "u64 \<Rightarrow> byte list \<Rightarrow> u64" where
  "cbs_get_u_loop result [] = result"
| "cbs_get_u_loop result (b # data) = cbs_get_u_loop (push_bit 8 result OR ucast b) data"

definition cbs_get_u :: "cbs \<Rightarrow> nat \<Rightarrow> u64 option \<times> cbs" where
  "cbs_get_u cbs len = rbind (cbs_get cbs len) (\<lambda>data cbs. (Some (cbs_get_u_loop 0 data), cbs))"

definition CBS_get_u8 :: "byte reader" where
  "CBS_get_u8 cbs = rbind (cbs_get cbs 1) (\<lambda>v cbs. (Some (hd v), cbs))"

definition CBS_get_u16 :: "u16 reader" where
  "CBS_get_u16 cbs = rbind (cbs_get_u cbs 2) (\<lambda>v cbs. (Some (ucast v), cbs))"

text \<open>The byte swaps are the compiler's builtins, which reverse the bytes of their argument.\<close>

definition CRYPTO_bswap2 :: "u16 \<Rightarrow> u16" where
  "CRYPTO_bswap2 x = word_of_nat (be_val (rev (be_bytes 2 (unat x))))"

definition CRYPTO_bswap4 :: "u32 \<Rightarrow> u32" where
  "CRYPTO_bswap4 x = word_of_nat (be_val (rev (be_bytes 4 (unat x))))"

definition CRYPTO_bswap8 :: "u64 \<Rightarrow> u64" where
  "CRYPTO_bswap8 x = word_of_nat (be_val (rev (be_bytes 8 (unat x))))"

definition CBS_get_u16le :: "u16 reader" where
  "CBS_get_u16le cbs = rbind (CBS_get_u16 cbs) (\<lambda>v cbs. (Some (CRYPTO_bswap2 v), cbs))"

definition CBS_get_u24 :: "u32 reader" where
  "CBS_get_u24 cbs = rbind (cbs_get_u cbs 3) (\<lambda>v cbs. (Some (ucast v), cbs))"

definition CBS_get_u32 :: "u32 reader" where
  "CBS_get_u32 cbs = rbind (cbs_get_u cbs 4) (\<lambda>v cbs. (Some (ucast v), cbs))"

definition CBS_get_u32le :: "u32 reader" where
  "CBS_get_u32le cbs = rbind (CBS_get_u32 cbs) (\<lambda>v cbs. (Some (CRYPTO_bswap4 v), cbs))"

definition CBS_get_u64 :: "u64 reader" where
  "CBS_get_u64 cbs = cbs_get_u cbs 8"

definition CBS_get_u64le :: "u64 reader" where
  "CBS_get_u64le cbs = rbind (cbs_get_u cbs 8) (\<lambda>v cbs. (Some (CRYPTO_bswap8 v), cbs))"

definition CBS_get_last_u8 :: "byte reader" where
  "CBS_get_last_u8 cbs =
     (if length cbs = 0 then (None, cbs)
      else (Some (cbs ! (length cbs - 1)), take (length cbs - 1) cbs))"

definition CBS_get_bytes :: "cbs \<Rightarrow> nat \<Rightarrow> cbs option \<times> cbs" where
  "CBS_get_bytes cbs len = rbind (cbs_get cbs len) (\<lambda>v cbs. (Some (CBS_init v len), cbs))"

definition CBS_copy_bytes :: "cbs \<Rightarrow> nat \<Rightarrow> byte list option \<times> cbs" where
  "CBS_copy_bytes cbs len = rbind (cbs_get cbs len) (\<lambda>v cbs. (Some (take len v), cbs))"

definition cbs_get_length_prefixed :: "cbs \<Rightarrow> nat \<Rightarrow> cbs option \<times> cbs" where
  "cbs_get_length_prefixed cbs len_len =
     rbind (cbs_get_u cbs len_len) (\<lambda>len cbs. CBS_get_bytes cbs (unat len))"

definition CBS_get_u8_length_prefixed :: "cbs reader" where
  "CBS_get_u8_length_prefixed cbs = cbs_get_length_prefixed cbs 1"

definition CBS_get_u16_length_prefixed :: "cbs reader" where
  "CBS_get_u16_length_prefixed cbs = cbs_get_length_prefixed cbs 2"

definition CBS_get_u24_length_prefixed :: "cbs reader" where
  "CBS_get_u24_length_prefixed cbs = cbs_get_length_prefixed cbs 3"

definition CBS_get_until_first :: "cbs \<Rightarrow> byte \<Rightarrow> cbs option \<times> cbs" where
  "CBS_get_until_first cbs c =
     (case OPENSSL_memchr (CBS_data cbs) c of
        None \<Rightarrow> (None, cbs)
      | Some split \<Rightarrow> CBS_get_bytes cbs split)"

subsection \<open>ASN.1 elements\<close>

definition CBS_ASN1_TAG_SHIFT :: nat where "CBS_ASN1_TAG_SHIFT = 24"
definition CBS_ASN1_CONSTRUCTED :: u32 where "CBS_ASN1_CONSTRUCTED = push_bit CBS_ASN1_TAG_SHIFT 0x20"
definition CBS_ASN1_TAG_NUMBER_MASK :: u32 where
  "CBS_ASN1_TAG_NUMBER_MASK = push_bit (5 + CBS_ASN1_TAG_SHIFT) 1 - 1"
definition CBS_ASN1_BOOLEAN :: u32 where "CBS_ASN1_BOOLEAN = 0x1"
definition CBS_ASN1_INTEGER :: u32 where "CBS_ASN1_INTEGER = 0x2"
definition CBS_ASN1_OCTETSTRING :: u32 where "CBS_ASN1_OCTETSTRING = 0x4"

fun parse_base128_loop :: "u64 \<Rightarrow> cbs \<Rightarrow> u64 option \<times> cbs" where
  "parse_base128_loop v [] = (None, [])"
| "parse_base128_loop v (b # cbs) =
     (if drop_bit (64 - 7) v \<noteq> 0 then (None, cbs)
      else if v = 0 \<and> b = 0x80 then (None, cbs)
      else let v' = push_bit 7 v OR ucast (b AND 0x7f) in
        if b AND 0x80 \<noteq> 0 then parse_base128_loop v' cbs else (Some v', cbs))"

definition parse_base128_integer :: "u64 reader" where
  "parse_base128_integer cbs = parse_base128_loop 0 cbs"

definition parse_asn1_tag :: "u32 reader" where
  "parse_asn1_tag cbs =
     rbind (CBS_get_u8 cbs) (\<lambda>tag_byte cbs.
       let tag = push_bit CBS_ASN1_TAG_SHIFT (ucast tag_byte AND 0xe0 :: u32);
           tag_number = ucast tag_byte AND 0x1f :: u32 in
       if tag_number = 0x1f then
         rbind (parse_base128_integer cbs) (\<lambda>v cbs.
           if v > ucast CBS_ASN1_TAG_NUMBER_MASK \<or> v < 0x1f then (None, cbs)
           else (Some (tag OR ucast v), cbs))
       else (Some (tag OR tag_number), cbs))"

text \<open>The outputs of \<^verbatim>\<open>cbs_get_any_asn1_element\<close>: the element, its tag, the length of its header
  and whether a form that is only legal in BER was met.\<close>

record asn1_element =
  el_out :: cbs
  el_tag :: u32
  el_header_len :: nat
  el_ber_found :: bool

text \<open>The header is parsed on a copy of the reader (\<^verbatim>\<open>CBS header = *cbs\<close>), so a failure up to
  the final \<^verbatim>\<open>CBS_get_bytes\<close> leaves the reader where it was.\<close>

definition cbs_get_any_asn1_element :: "cbs \<Rightarrow> bool \<Rightarrow> asn1_element option \<times> cbs" where
  "cbs_get_any_asn1_element cbs ber_ok =
     (case parse_asn1_tag cbs of
        (None, header) \<Rightarrow> (None, cbs)
      | (Some tag, header) \<Rightarrow>
     (case CBS_get_u8 header of
        (None, header) \<Rightarrow> (None, cbs)
      | (Some length_byte, header) \<Rightarrow>
      let header_len = length cbs - length header in
      if length_byte AND 0x80 = 0 then
        rbind (CBS_get_bytes cbs (unat length_byte + header_len)) (\<lambda>out cbs.
          (Some \<lparr>el_out = out, el_tag = tag, el_header_len = header_len, el_ber_found = False\<rparr>, cbs))
      else
        let num_bytes = unat (length_byte AND 0x7f) in
        if ber_ok \<and> tag AND CBS_ASN1_CONSTRUCTED \<noteq> 0 \<and> num_bytes = 0 then
          rbind (CBS_get_bytes cbs header_len) (\<lambda>out cbs.
            (Some \<lparr>el_out = out, el_tag = tag, el_header_len = header_len, el_ber_found = True\<rparr>, cbs))
        else if num_bytes = 0 \<or> num_bytes > 4 then (None, cbs)
        else
          (case cbs_get_u header num_bytes of
             (None, header) \<Rightarrow> (None, cbs)
           | (Some len64, header) \<Rightarrow>
           let short = len64 < 128;
               padded = drop_bit ((num_bytes - 1) * 8) len64 = 0;
               len = unat len64 in
           if short \<and> \<not> ber_ok then (None, cbs)
           else if padded \<and> \<not> ber_ok then (None, cbs)
           else if size_add len (header_len + num_bytes) < len then (None, cbs)
           else
             rbind (CBS_get_bytes cbs (len + (header_len + num_bytes))) (\<lambda>out cbs.
               (Some \<lparr>el_out = out, el_tag = tag, el_header_len = header_len + num_bytes,
                      el_ber_found = short \<or> padded\<rparr>, cbs)))))"

definition CBS_get_any_asn1_element :: "cbs \<Rightarrow> asn1_element option \<times> cbs" where
  "CBS_get_any_asn1_element cbs = cbs_get_any_asn1_element cbs False"

definition CBS_get_any_ber_asn1_element :: "cbs \<Rightarrow> asn1_element option \<times> cbs" where
  "CBS_get_any_ber_asn1_element cbs = cbs_get_any_asn1_element cbs True"

definition CBS_get_any_asn1 :: "cbs \<Rightarrow> (cbs \<times> u32) option \<times> cbs" where
  "CBS_get_any_asn1 cbs =
     rbind (CBS_get_any_asn1_element cbs) (\<lambda>el cbs.
       case CBS_skip (el_out el) (el_header_len el) of
         (None, out) \<Rightarrow> (None, cbs)
       | (Some _, out) \<Rightarrow> (Some (out, el_tag el), cbs))"

definition cbs_get_asn1 :: "cbs \<Rightarrow> u32 \<Rightarrow> bool \<Rightarrow> cbs option \<times> cbs" where
  "cbs_get_asn1 cbs tag_value skip_header =
     rbind (CBS_get_any_asn1_element cbs) (\<lambda>el cbs.
       if el_tag el \<noteq> tag_value then (None, cbs)
       else if skip_header then
         (case CBS_skip (el_out el) (el_header_len el) of
            (None, out) \<Rightarrow> (None, cbs)
          | (Some _, out) \<Rightarrow> (Some out, cbs))
       else (Some (el_out el), cbs))"

definition CBS_get_asn1 :: "cbs \<Rightarrow> u32 \<Rightarrow> cbs option \<times> cbs" where
  "CBS_get_asn1 cbs tag_value = cbs_get_asn1 cbs tag_value True"

definition CBS_get_asn1_element :: "cbs \<Rightarrow> u32 \<Rightarrow> cbs option \<times> cbs" where
  "CBS_get_asn1_element cbs tag_value = cbs_get_asn1 cbs tag_value False"

definition CBS_peek_asn1_tag :: "cbs \<Rightarrow> u32 \<Rightarrow> bool" where
  "CBS_peek_asn1_tag cbs tag_value =
     (if CBS_len cbs < 1 then False
      else case fst (parse_asn1_tag cbs) of None \<Rightarrow> False | Some actual_tag \<Rightarrow> tag_value = actual_tag)"

subsection \<open>ASN.1 integers, booleans and bit strings\<close>

text \<open>\<open>None\<close>: not a valid INTEGER; \<open>Some neg\<close>: valid, with \<open>neg\<close> the value stored through
  \<^verbatim>\<open>out_is_negative\<close>.\<close>

definition CBS_is_valid_asn1_integer :: "cbs \<Rightarrow> bool option" where
  "CBS_is_valid_asn1_integer cbs =
     (case CBS_get_u8 cbs of
        (None, copy) \<Rightarrow> None
      | (Some first_byte, copy) \<Rightarrow>
      let is_negative = first_byte AND 0x80 \<noteq> 0 in
      (case CBS_get_u8 copy of
         (None, copy) \<Rightarrow> Some is_negative
       | (Some second_byte, copy) \<Rightarrow>
         if (first_byte = 0x00 \<and> second_byte AND 0x80 = 0) \<or>
            (first_byte = 0xff \<and> second_byte AND 0x80 \<noteq> 0) then None
         else Some is_negative))"

definition CBS_is_unsigned_asn1_integer :: "cbs \<Rightarrow> bool" where
  "CBS_is_unsigned_asn1_integer cbs =
     (case CBS_is_valid_asn1_integer cbs of None \<Rightarrow> False | Some is_negative \<Rightarrow> \<not> is_negative)"

fun asn1_uint64_loop :: "u64 \<Rightarrow> byte list \<Rightarrow> u64 option" where
  "asn1_uint64_loop out [] = Some out"
| "asn1_uint64_loop out (b # data) =
     (if drop_bit 56 out \<noteq> 0 then None
      else asn1_uint64_loop (push_bit 8 out OR ucast b) data)"

definition CBS_get_asn1_uint64 :: "u64 reader" where
  "CBS_get_asn1_uint64 cbs =
     rbind (CBS_get_asn1 cbs CBS_ASN1_INTEGER) (\<lambda>bytes cbs.
       if \<not> CBS_is_unsigned_asn1_integer bytes then (None, cbs)
       else (asn1_uint64_loop 0 (CBS_data bytes), cbs))"

text \<open>The union of \<^verbatim>\<open>CBS_get_asn1_int64\<close> is read on a little-endian machine: byte \<open>i\<close> of the
  integer has weight \<open>256 ^ i\<close>, and the 64 bits are read in two's complement.\<close>

definition CBS_get_asn1_int64 :: "int reader" where
  "CBS_get_asn1_int64 cbs =
     rbind (CBS_get_asn1 cbs CBS_ASN1_INTEGER) (\<lambda>bytes cbs.
       case CBS_is_valid_asn1_integer bytes of
         None \<Rightarrow> (None, cbs)
       | Some is_negative \<Rightarrow>
         if length bytes > 8 then (None, cbs)
         else
           let u_bytes = mem_write 0 (rev bytes) (replicate 8 (if is_negative then 0xff else 0)) in
           (Some (sint (word_of_nat (le_val u_bytes) :: u64)), cbs))"

definition CBS_get_asn1_bool :: "bool reader" where
  "CBS_get_asn1_bool cbs =
     rbind (CBS_get_asn1 cbs CBS_ASN1_BOOLEAN) (\<lambda>bytes cbs.
       if length bytes \<noteq> 1 then (None, cbs)
       else let value = hd bytes in
         if value \<noteq> 0 \<and> value \<noteq> 0xff then (None, cbs) else (Some (value \<noteq> 0), cbs))"

text \<open>The optional forms return \<open>None\<close> in the inner option when the element is absent.\<close>

definition CBS_get_optional_asn1 :: "cbs \<Rightarrow> u32 \<Rightarrow> cbs option option \<times> cbs" where
  "CBS_get_optional_asn1 cbs tag =
     (if CBS_peek_asn1_tag cbs tag
      then rbind (CBS_get_asn1 cbs tag) (\<lambda>out cbs. (Some (Some out), cbs))
      else (Some None, cbs))"

definition CBS_get_optional_asn1_octet_string :: "cbs \<Rightarrow> u32 \<Rightarrow> (cbs \<times> bool) option \<times> cbs" where
  "CBS_get_optional_asn1_octet_string cbs tag =
     rbind (CBS_get_optional_asn1 cbs tag) (\<lambda>child cbs.
       case child of
         None \<Rightarrow> (Some (CBS_init [] 0, False), cbs)
       | Some child \<Rightarrow>
         (case CBS_get_asn1 child CBS_ASN1_OCTETSTRING of
            (None, child) \<Rightarrow> (None, cbs)
          | (Some out, child) \<Rightarrow>
            if CBS_len child \<noteq> 0 then (None, cbs) else (Some (out, True), cbs)))"

definition CBS_get_optional_asn1_uint64 :: "cbs \<Rightarrow> u32 \<Rightarrow> u64 \<Rightarrow> u64 option \<times> cbs" where
  "CBS_get_optional_asn1_uint64 cbs tag default_value =
     rbind (CBS_get_optional_asn1 cbs tag) (\<lambda>child cbs.
       case child of
         None \<Rightarrow> (Some default_value, cbs)
       | Some child \<Rightarrow>
         (case CBS_get_asn1_uint64 child of
            (None, child) \<Rightarrow> (None, cbs)
          | (Some out, child) \<Rightarrow>
            if CBS_len child \<noteq> 0 then (None, cbs) else (Some out, cbs)))"

definition CBS_get_optional_asn1_bool :: "cbs \<Rightarrow> u32 \<Rightarrow> bool \<Rightarrow> bool option \<times> cbs" where
  "CBS_get_optional_asn1_bool cbs tag default_value =
     rbind (CBS_get_optional_asn1 cbs tag) (\<lambda>child cbs.
       case child of
         None \<Rightarrow> (Some default_value, cbs)
       | Some child \<Rightarrow>
         (case CBS_get_asn1 child CBS_ASN1_BOOLEAN of
            (None, child) \<Rightarrow> (None, cbs)
          | (Some child2, child) \<Rightarrow>
            if CBS_len child2 \<noteq> 1 \<or> CBS_len child \<noteq> 0 then (None, cbs)
            else let boolean = CBS_data child2 ! 0 in
              if boolean = 0 then (Some False, cbs)
              else if boolean = 0xff then (Some True, cbs)
              else (None, cbs)))"

definition CBS_is_valid_asn1_bitstring :: "cbs \<Rightarrow> bool" where
  "CBS_is_valid_asn1_bitstring cbs =
     (case CBS_get_u8 cbs of
        (None, i) \<Rightarrow> False
      | (Some num_unused_bits, i) \<Rightarrow>
        if num_unused_bits > 7 then False
        else if num_unused_bits = 0 then True
        else
          (case CBS_get_last_u8 i of
             (None, i) \<Rightarrow> False
           | (Some last_byte, i) \<Rightarrow> last_byte AND (push_bit (unat num_unused_bits) 1 - 1) = 0))"

definition CBS_asn1_bitstring_has_bit :: "cbs \<Rightarrow> u32 \<Rightarrow> bool" where
  "CBS_asn1_bitstring_has_bit cbs bit_index =
     (if \<not> CBS_is_valid_asn1_bitstring cbs then False
      else
        let byte_num = unat (drop_bit 3 bit_index + 1);
            bit_num = unat (7 - (bit_index AND 7)) in
        byte_num < CBS_len cbs \<and> CBS_data cbs ! byte_num AND push_bit bit_num 1 \<noteq> 0)"

subsection \<open>Facts about the readers\<close>

lemma cbs_get_append [simp]: "length bs = n \<Longrightarrow> cbs_get (bs @ r) n = (Some bs, r)"
  by (simp add: cbs_get_def)

lemma cbs_get_Some_iff:
  "cbs_get c n = (Some bs, r) \<longleftrightarrow> c = bs @ r \<and> length bs = n"
  by (auto simp: cbs_get_def)

lemma cbs_get_None_iff: "cbs_get c n = (None, r) \<longleftrightarrow> length c < n \<and> r = c"
  by (auto simp: cbs_get_def)

lemma CBS_get_u8_Nil [simp]: "CBS_get_u8 [] = (None, [])"
  and CBS_get_u8_Cons [simp]: "CBS_get_u8 (b # c) = (Some b, c)"
  by (simp_all add: CBS_get_u8_def cbs_get_def)

lemma CBS_get_u8_Some_iff: "CBS_get_u8 c = (Some b, r) \<longleftrightarrow> c = b # r"
  by (cases c) auto

lemma CBS_get_bytes_append [simp]: "length bs = n \<Longrightarrow> CBS_get_bytes (bs @ r) n = (Some bs, r)"
  by (simp add: CBS_get_bytes_def CBS_init_def)

lemma CBS_get_bytes_Some_iff:
  "CBS_get_bytes c n = (Some bs, r) \<longleftrightarrow> c = bs @ r \<and> length bs = n"
  by (auto simp: CBS_get_bytes_def CBS_init_def rbind_Some_iff cbs_get_Some_iff)

lemma CBS_skip_append [simp]: "length bs = n \<Longrightarrow> CBS_skip (bs @ r) n = (Some (), r)"
  by (simp add: CBS_skip_def)

lemma CBS_skip_Some_iff: "CBS_skip c n = (Some (), r) \<longleftrightarrow> n \<le> length c \<and> r = drop n c"
  by (auto simp: CBS_skip_def cbs_get_def)

lemma cbs_get_u_loop_eq:
  "cbs_get_u_loop v data = v * 256 ^ length data + word_of_nat (be_val data)"
proof (induction v data rule: cbs_get_u_loop.induct)
  case (2 v b data)
  have "push_bit 8 v OR ucast b = push_bit 8 v + (ucast b :: u64)"
    by (rule push_or_eq_add) (use unat_byte_lt [of b] in simp)
  then have step: "push_bit 8 v OR ucast b = v * 256 + (ucast b :: u64)"
    by (simp add: push_bit_eq_mult)
  have "(ucast b :: u64) = word_of_nat (unat b)" by (simp add: unsigned_ucast_eq)
  then show ?case using 2 by (simp add: step be_val_Cons algebra_simps)
qed simp

lemma cbs_get_u_eq:
  "cbs_get_u c n = (if length c < n then (None, c) else (Some (word_of_nat (be_val (take n c))), drop n c))"
  by (simp add: cbs_get_u_def cbs_get_def cbs_get_u_loop_eq)

subsection \<open>The integer readers are canonical codecs\<close>

text \<open>Reading \<open>n\<close> bytes and narrowing to a type of width at least \<open>8 * n\<close> loses nothing.\<close>

lemma word_of_nat_ucast_be_val:
  assumes "n \<le> 8"
  shows "(ucast (word_of_nat (be_val (take n c)) :: u64) :: 'a::len word) = word_of_nat (be_val (take n c))"
proof -
  have "be_val (take n c) < 256 ^ length (take n c)" by (rule be_val_bound)
  also have "\<dots> \<le> 256 ^ 8" using assms by (intro power_increasing) simp_all
  finally have "unat (word_of_nat (be_val (take n c)) :: u64) = be_val (take n c)"
    by (simp add: unat_of_nat)
  then show ?thesis by (metis of_nat_unat)
qed

lemma be_val_less_len:
  assumes "length bs = n" "8 * n \<le> LENGTH('a::len)"
  shows "unat (word_of_nat (be_val bs) :: 'a word) = be_val bs"
proof -
  have "be_val bs < 256 ^ n" using be_val_bound [of bs] assms by simp
  also have "(256 :: nat) ^ n = 2 ^ (8 * n)" by (simp add: power_mult)
  also have "\<dots> \<le> 2 ^ LENGTH('a)" using assms by (intro power_increasing) simp_all
  finally show ?thesis by (simp add: unat_of_nat)
qed

lemma be_reader_codec:
  fixes rd :: "'a::len word reader"
  assumes rd: "\<And>c. rd c =
      (if length c < n then (None, c) else (Some (word_of_nat (be_val (take n c))), drop n c))"
    and n: "8 * n \<le> LENGTH('a)"
  shows "canonical_codec (\<lambda>v. be_bytes n (unat v)) rd (\<lambda>v. unat v < 256 ^ n)"
proof
  fix a :: "'a word" and r
  assume "unat a < 256 ^ n"
  then show "rd (be_bytes n (unat a) @ r) = (Some a, r)"
    by (simp add: rd der_simps)
next
  fix c r and a :: "'a word"
  assume "rd c = (Some a, r)"
  then have c: "n \<le> length c" "a = word_of_nat (be_val (take n c))" "r = drop n c"
    by (auto simp: rd split: if_splits)
  then have u: "unat a = be_val (take n c)"
    using be_val_less_len [OF _ n, of "take n c"] by simp
  have "be_bytes n (be_val (take n c)) = take n c"
    using be_bytes_be_val [of "take n c"] c(1) by simp
  then show "unat a < 256 ^ n \<and> c = be_bytes n (unat a) @ r"
    using be_val_bound [of "take n c"] c u by simp
qed

lemma le_reader_codec:
  fixes rd :: "'a::len word reader"
  assumes rd: "\<And>c. rd c =
      (if length c < n then (None, c) else (Some (word_of_nat (be_val (rev (take n c)))), drop n c))"
    and n: "8 * n \<le> LENGTH('a)"
  shows "canonical_codec (\<lambda>v. rev (be_bytes n (unat v))) rd (\<lambda>v. unat v < 256 ^ n)"
proof
  fix a :: "'a word" and r
  assume "unat a < 256 ^ n"
  then show "rd (rev (be_bytes n (unat a)) @ r) = (Some a, r)"
    by (simp add: rd der_simps)
next
  fix c r and a :: "'a word"
  assume "rd c = (Some a, r)"
  then have c: "n \<le> length c" "a = word_of_nat (be_val (rev (take n c)))" "r = drop n c"
    by (auto simp: rd split: if_splits)
  then have u: "unat a = be_val (rev (take n c))"
    using be_val_less_len [OF _ n, of "rev (take n c)"] by simp
  have "be_bytes n (be_val (rev (take n c))) = rev (take n c)"
    using be_bytes_be_val [of "rev (take n c)"] c(1) by simp
  then show "unat a < 256 ^ n \<and> c = rev (be_bytes n (unat a)) @ r"
    using be_val_bound [of "rev (take n c)"] c u by simp
qed

lemma bswap_be_val:
  assumes "length bs = n" "8 * n \<le> LENGTH('a::len)"
  shows "(word_of_nat (be_val (rev (be_bytes n (unat (word_of_nat (be_val bs) :: 'a word))))) :: 'a word) =
    word_of_nat (be_val (rev bs))"
  using be_bytes_be_val [of bs] assms by (simp add: be_val_less_len [OF assms])

lemmas cbs_reader_defs = CBS_get_u16_def CBS_get_u16le_def CBS_get_u24_def CBS_get_u32_def
  CBS_get_u32le_def CBS_get_u64_def CBS_get_u64le_def CRYPTO_bswap2_def CRYPTO_bswap4_def
  CRYPTO_bswap8_def

interpretation cbs_u8: canonical_codec "\<lambda>v. [v]" CBS_get_u8 "\<lambda>v. True"
  by unfold_locales (simp_all add: CBS_get_u8_Some_iff)

interpretation cbs_u16: canonical_codec "\<lambda>v. be_bytes 2 (unat v)" CBS_get_u16 "\<lambda>v. unat v < 256 ^ 2"
  by (rule be_reader_codec) (simp_all add: cbs_reader_defs cbs_get_u_eq word_of_nat_ucast_be_val)

interpretation cbs_u24: canonical_codec "\<lambda>v. be_bytes 3 (unat v)" CBS_get_u24 "\<lambda>v. unat v < 256 ^ 3"
  by (rule be_reader_codec) (simp_all add: cbs_reader_defs cbs_get_u_eq word_of_nat_ucast_be_val)

interpretation cbs_u32: canonical_codec "\<lambda>v. be_bytes 4 (unat v)" CBS_get_u32 "\<lambda>v. unat v < 256 ^ 4"
  by (rule be_reader_codec) (simp_all add: cbs_reader_defs cbs_get_u_eq word_of_nat_ucast_be_val)

interpretation cbs_u64: canonical_codec "\<lambda>v. be_bytes 8 (unat v)" CBS_get_u64 "\<lambda>v. unat v < 256 ^ 8"
  by (rule be_reader_codec) (simp_all add: cbs_reader_defs cbs_get_u_eq)

interpretation cbs_u16le: canonical_codec "\<lambda>v. rev (be_bytes 2 (unat v))" CBS_get_u16le
  "\<lambda>v. unat v < 256 ^ 2"
  by (rule le_reader_codec)
    (simp_all add: cbs_reader_defs cbs_get_u_eq word_of_nat_ucast_be_val bswap_be_val)

interpretation cbs_u32le: canonical_codec "\<lambda>v. rev (be_bytes 4 (unat v))" CBS_get_u32le
  "\<lambda>v. unat v < 256 ^ 4"
  by (rule le_reader_codec)
    (simp_all add: cbs_reader_defs cbs_get_u_eq word_of_nat_ucast_be_val bswap_be_val)

interpretation cbs_u64le: canonical_codec "\<lambda>v. rev (be_bytes 8 (unat v))" CBS_get_u64le
  "\<lambda>v. unat v < 256 ^ 8"
  by (rule le_reader_codec)
    (simp_all add: cbs_reader_defs cbs_get_u_eq word_of_nat_ucast_be_val bswap_be_val)

end
