(* ===== verification/Endian.thy ===== *)
theory Endian
  imports Cbs
begin

text \<open>
  Loading and storing words of memory and rotating words (\<^verbatim>\<open>crypto/internal.h\<close>), with the lemmas that relate them to the
  values of byte lists and to the rotations of the word library.
\<close>

section \<open>Loads and stores\<close>

text \<open>The targets are little-endian: copying a word from memory reads its bytes from the lowest up.\<close>

definition CRYPTO_load_u32_le :: "byte list \<Rightarrow> u32" where
  "CRYPTO_load_u32_le inp = word_of_nat (be_val (rev (take 4 inp)))"

definition CRYPTO_store_u32_le :: "u32 \<Rightarrow> byte list" where
  "CRYPTO_store_u32_le v = rev (be_bytes 4 (unat v))"

definition CRYPTO_load_u32_be :: "byte list \<Rightarrow> u32" where
  "CRYPTO_load_u32_be inp = CRYPTO_bswap4 (word_of_nat (be_val (rev (take 4 inp))))"

definition CRYPTO_store_u32_be :: "u32 \<Rightarrow> byte list" where
  "CRYPTO_store_u32_be v = (let v = CRYPTO_bswap4 v in rev (be_bytes 4 (unat v)))"

definition CRYPTO_load_u64_be :: "byte list \<Rightarrow> u64" where
  "CRYPTO_load_u64_be inp = CRYPTO_bswap8 (word_of_nat (be_val (rev (take 8 inp))))"

definition CRYPTO_store_u64_be :: "u64 \<Rightarrow> byte list" where
  "CRYPTO_store_u64_be v = (let v = CRYPTO_bswap8 v in rev (be_bytes 8 (unat v)))"

lemma load_u32_be: "4 \<le> length inp \<Longrightarrow> CRYPTO_load_u32_be inp = word_of_nat (be_val (take 4 inp))"
  using bswap_be_val [of "rev (take 4 inp)" 4, where ?'a = 32]
  by (simp add: CRYPTO_load_u32_be_def CRYPTO_bswap4_def)

lemma load_u64_be: "8 \<le> length inp \<Longrightarrow> CRYPTO_load_u64_be inp = word_of_nat (be_val (take 8 inp))"
  using bswap_be_val [of "rev (take 8 inp)" 8, where ?'a = 64]
  by (simp add: CRYPTO_load_u64_be_def CRYPTO_bswap8_def)

lemma unat_be_val_rev:
  "8 * n \<le> LENGTH('a::len) \<Longrightarrow> be_bytes n (unat (word_of_nat (be_val (rev (be_bytes n v))) :: 'a word)) = rev (be_bytes n v)"
  using be_bytes_be_val [of "rev (be_bytes n v)"] by (simp add: be_val_less_len [of _ n])

lemma store_u32_be: "CRYPTO_store_u32_be v = be_bytes 4 (unat v)"
  using unat_be_val_rev [of 4, where ?'a = 32] by (simp add: CRYPTO_store_u32_be_def CRYPTO_bswap4_def)

lemma store_u64_be: "CRYPTO_store_u64_be v = be_bytes 8 (unat v)"
  using unat_be_val_rev [of 8, where ?'a = 64] by (simp add: CRYPTO_store_u64_be_def CRYPTO_bswap8_def)

lemma length_stores [simp, len_simps]:
  "length (CRYPTO_store_u32_le v) = 4" "length (CRYPTO_store_u32_be v) = 4" "length (CRYPTO_store_u64_be w) = 8"
  by (simp_all add: CRYPTO_store_u32_le_def store_u32_be store_u64_be)

lemma load_store_u32_be: "CRYPTO_load_u32_be (CRYPTO_store_u32_be v @ r) = v"
  using unat_u32_lt [of v] by (simp add: load_u32_be store_u32_be be_val_be_bytes)

lemma load_store_u32_le: "CRYPTO_load_u32_le (CRYPTO_store_u32_le v @ r) = v"
  using unat_u32_lt [of v] by (simp add: CRYPTO_load_u32_le_def CRYPTO_store_u32_le_def be_val_be_bytes)

lemma load_store_u64_be: "CRYPTO_load_u64_be (CRYPTO_store_u64_be w @ r) = w"
  using unat_u64_lt [of w] by (simp add: load_u64_be store_u64_be be_val_be_bytes)

section \<open>Rotations\<close>

definition CRYPTO_rotl_u32 :: "u32 \<Rightarrow> nat \<Rightarrow> u32" where
  "CRYPTO_rotl_u32 value' shift = push_bit shift value' OR drop_bit (nat (- int shift AND 31)) value'"

definition CRYPTO_rotr_u32 :: "u32 \<Rightarrow> nat \<Rightarrow> u32" where
  "CRYPTO_rotr_u32 value' shift = drop_bit shift value' OR push_bit (nat (- int shift AND 31)) value'"

definition CRYPTO_rotl_u64 :: "u64 \<Rightarrow> nat \<Rightarrow> u64" where
  "CRYPTO_rotl_u64 value' shift = push_bit shift value' OR drop_bit (nat (- int shift AND 63)) value'"

definition CRYPTO_rotr_u64 :: "u64 \<Rightarrow> nat \<Rightarrow> u64" where
  "CRYPTO_rotr_u64 value' shift = drop_bit shift value' OR push_bit (nat (- int shift AND 63)) value'"

lemma neg_mod: "0 < s \<Longrightarrow> s < n \<Longrightarrow> nat (- int s mod int n) = n - s"
  by (simp add: zmod_zminus1_eq_if)

lemma neg_and_31: "0 < s \<Longrightarrow> s < 32 \<Longrightarrow> nat (- int s AND 31) = 32 - s"
proof -
  have "- int s AND 31 = - int s mod 32"
    using take_bit_eq_mask [of 5 "- int s"] by (simp add: take_bit_eq_mod mask_eq_exp_minus_1)
  then show "0 < s \<Longrightarrow> s < 32 \<Longrightarrow> ?thesis" using neg_mod [of s 32] by simp
qed

lemma neg_and_63: "0 < s \<Longrightarrow> s < 64 \<Longrightarrow> nat (- int s AND 63) = 64 - s"
proof -
  have "- int s AND 63 = - int s mod 64"
    using take_bit_eq_mask [of 6 "- int s"] by (simp add: take_bit_eq_mod mask_eq_exp_minus_1)
  then show "0 < s \<Longrightarrow> s < 64 \<Longrightarrow> ?thesis" using neg_mod [of s 64] by simp
qed

lemma rotr_bits:
  fixes w :: "'a::len word"
  assumes "0 < s" "s < LENGTH('a)"
  shows "drop_bit s w OR push_bit (LENGTH('a) - s) w = word_rotr s w"
proof (rule bit_word_eqI)
  fix n assume n: "n < LENGTH('a)"
  show "bit (drop_bit s w OR push_bit (LENGTH('a) - s) w) n = bit (word_rotr s w) n"
  proof (cases "n + s < LENGTH('a)")
    case True
    with assms n show ?thesis
      by (auto simp: bit_word_rotr_iff bit_simps add.commute not_le)
  next
    case False
    then have "(n + s) mod LENGTH('a) = n + s - LENGTH('a)" using assms n by (simp add: mod_if)
    with False assms n show ?thesis
      by (auto simp: bit_word_rotr_iff bit_simps add.commute dest: bit_imp_le_length)
  qed
qed

lemma rotl_bits:
  fixes w :: "'a::len word"
  assumes "0 < s" "s < LENGTH('a)"
  shows "push_bit s w OR drop_bit (LENGTH('a) - s) w = word_rotl s w"
  using rotr_bits [of "LENGTH('a) - s" w] assms by (simp add: or.commute word_rotl_eq_word_rotr)

lemma rotr_u32: "0 < s \<Longrightarrow> s < 32 \<Longrightarrow> CRYPTO_rotr_u32 w s = word_rotr s w"
  using rotr_bits [of s w] by (simp add: CRYPTO_rotr_u32_def neg_and_31)

lemma rotr_u64: "0 < s \<Longrightarrow> s < 64 \<Longrightarrow> CRYPTO_rotr_u64 w s = word_rotr s w"
  using rotr_bits [of s w] by (simp add: CRYPTO_rotr_u64_def neg_and_63)

lemma rotl_u32: "0 < s \<Longrightarrow> s < 32 \<Longrightarrow> CRYPTO_rotl_u32 w s = word_rotl s w"
  using rotl_bits [of s w] by (simp add: CRYPTO_rotl_u32_def neg_and_31)

lemma rotl_u64: "0 < s \<Longrightarrow> s < 64 \<Longrightarrow> CRYPTO_rotl_u64 w s = word_rotl s w"
  using rotl_bits [of s w] by (simp add: CRYPTO_rotl_u64_def neg_and_63)

end
