(* ===== verification/Md32.thy ===== *)
theory Md32
  imports Endian
begin

text \<open>
  The collector that the 32-bit digests share (\<^verbatim>\<open>crypto/fipsmodule/digest/md32_common.h\<close>): it gathers input in blocks,
  counts the bits, and pads the last block. The locale \<open>md_block\<close> is the contract of a block function: it
  compresses the blocks it is given one after the other. From it follow \<open>md_rep_update\<close> (an update appends its input to
  the message a context represents), \<open>md_rep_final\<close> (finishing yields the hash of the padded message) and
  \<open>md_stream\<close> (the hash does not depend on how the message was cut into updates).
\<close>

section \<open>The collector\<close>

text \<open>The part of a context the collector works on; the contexts of the digests extend it.\<close>

record md32_ctx =
  md_h :: "u32 list"
  md_Nl :: u32
  md_Nh :: u32
  md_data :: "byte list"
  md_num :: nat

type_synonym crypto_md32_block_func = "u32 list \<Rightarrow> byte list \<Rightarrow> nat \<Rightarrow> u32 list"

text \<open>The part of \<^verbatim>\<open>crypto_md32_update\<close> after the partial block has been completed, and the function.\<close>

definition md32_update_blocks ::
    "crypto_md32_block_func \<Rightarrow> nat \<Rightarrow> 'a md32_ctx_scheme \<Rightarrow> byte list \<Rightarrow> 'a md32_ctx_scheme" where
  "md32_update_blocks block_func block_size c inp =
     (let n = length inp div block_size;
          (c, inp) = (if n > 0 then (c\<lparr>md_h := block_func (md_h c) inp n\<rparr>, drop (n * block_size) inp) else (c, inp))
      in if length inp \<noteq> 0 then c\<lparr>md_num := length inp, md_data := mem_write 0 inp (md_data c)\<rparr> else c)"

definition crypto_md32_update ::
    "crypto_md32_block_func \<Rightarrow> nat \<Rightarrow> 'a md32_ctx_scheme \<Rightarrow> byte list \<Rightarrow> 'a md32_ctx_scheme" where
  "crypto_md32_update block_func block_size c inp =
     (if length inp = 0 then c
      else
        let len = length inp;
            l = md_Nl c + push_bit 3 (word_of_nat len);
            Nh = (if l < md_Nl c then md_Nh c + 1 else md_Nh c);
            c = c\<lparr>md_Nh := Nh + word_of_nat (len div 2 ^ 29), md_Nl := l\<rparr>;
            n = md_num c
        in if n \<noteq> 0 then
             if len \<ge> block_size \<or> len + n \<ge> block_size then
               let data = mem_write n (take (block_size - n) inp) (md_data c);
                   c = c\<lparr>md_h := block_func (md_h c) data 1, md_num := 0, md_data := replicate block_size 0\<rparr>
               in md32_update_blocks block_func block_size c (drop (block_size - n) inp)
             else c\<lparr>md_data := mem_write n inp (md_data c), md_num := n + len\<rparr>
           else md32_update_blocks block_func block_size c inp)"

definition crypto_md32_final ::
    "crypto_md32_block_func \<Rightarrow> nat \<Rightarrow> 'a md32_ctx_scheme \<Rightarrow> bool \<Rightarrow> 'a md32_ctx_scheme" where
  "crypto_md32_final block_func block_size c is_big_endian =
     (let n = md_num c;
          data = (md_data c)[n := 0x80];
          n = n + 1;
          (h, data, n) =
            (if n > block_size - 8 then
               let data = take n data @ replicate (block_size - n) 0 in (block_func (md_h c) data 1, data, 0)
             else (md_h c, data, n));
          data = mem_write n (replicate (block_size - 8 - n) 0) data;
          data = (if is_big_endian
                  then mem_write (block_size - 4) (CRYPTO_store_u32_be (md_Nl c))
                         (mem_write (block_size - 8) (CRYPTO_store_u32_be (md_Nh c)) data)
                  else mem_write (block_size - 4) (CRYPTO_store_u32_le (md_Nh c))
                         (mem_write (block_size - 8) (CRYPTO_store_u32_le (md_Nl c)) data))
      in c\<lparr>md_h := block_func h data 1, md_num := 0, md_data := replicate block_size 0\<rparr>)"

section \<open>The padded message\<close>

text \<open>The specification: a message is padded to whole blocks with a one bit, zeros and its length in bits modulo \<open>2 ^ 64\<close>, and
  the blocks are compressed one after the other.\<close>

fun run_blocks :: "('h \<Rightarrow> byte list \<Rightarrow> 'h) \<Rightarrow> nat \<Rightarrow> 'h \<Rightarrow> byte list \<Rightarrow> nat \<Rightarrow> 'h" where
  "run_blocks f bs h d 0 = h"
| "run_blocks f bs h d (Suc n) = run_blocks f bs (f h (take bs d)) (drop bs d) n"

definition md_length_bytes :: "bool \<Rightarrow> nat \<Rightarrow> byte list" where
  "md_length_bytes big_endian len =
     (let bytes = be_bytes 8 (8 * len mod 2 ^ 64) in if big_endian then bytes else rev bytes)"

definition md_pad :: "nat \<Rightarrow> bool \<Rightarrow> nat \<Rightarrow> byte list" where
  "md_pad bs big_endian len =
     0x80 # replicate ((bs - (len + 9) mod bs) mod bs) 0 @ md_length_bytes big_endian len"

definition md_hash :: "('h \<Rightarrow> byte list \<Rightarrow> 'h) \<Rightarrow> nat \<Rightarrow> bool \<Rightarrow> 'h \<Rightarrow> byte list \<Rightarrow> 'h" where
  "md_hash f bs big_endian h0 msg =
     (let p = msg @ md_pad bs big_endian (length msg) in run_blocks f bs h0 p (length p div bs))"

lemma run_blocks_add:
  "run_blocks f bs h d (m + n) = run_blocks f bs (run_blocks f bs h d m) (drop (m * bs) d) n"
  by (induction m arbitrary: h d) (simp_all add: add.commute)

lemma run_blocks_append:
  "n * bs \<le> length d \<Longrightarrow> run_blocks f bs h (d @ x) n = run_blocks f bs h d n"
proof (induction n arbitrary: h d)
  case (Suc n)
  then show ?case using Suc.IH [of "drop bs d" "f h (take bs d)"] by simp
qed simp

lemma length_run_blocks:
  "(\<And>h d. length (f h d) = m) \<Longrightarrow> length h = m \<Longrightarrow> length (run_blocks f bs h d n) = m"
  by (induction n arbitrary: h d) simp_all

lemma run_blocks_1: "run_blocks f bs h d 1 = f h (take bs d)"
  by simp

text \<open>A block function compresses the blocks it is given one after the other.\<close>

locale md_block =
  fixes block_func :: crypto_md32_block_func and compress :: "u32 list \<Rightarrow> byte list \<Rightarrow> u32 list" and bs :: nat
  assumes block_func: "0 < n \<Longrightarrow> n * bs \<le> length d \<Longrightarrow> block_func h d n = run_blocks compress bs h d n"
    and bs_large: "9 \<le> bs"

subsection \<open>Counting bits\<close>

definition md_bits :: "u32 \<Rightarrow> u32 \<Rightarrow> nat" where
  "md_bits Nh Nl = unat Nh * 2 ^ 32 + unat Nl"

lemma high_low_mod: "l < 2 ^ 32 \<Longrightarrow> (a * 2 ^ 32 + l) mod 2 ^ 64 = a mod 2 ^ 32 * 2 ^ 32 + l" for a l :: nat
  using mod_mult2_eq [of "a * 2 ^ 32 + l" "2 ^ 32" "2 ^ 32"] by simp

lemma md_bits_update:
  assumes "l = Nl + push_bit 3 (word_of_nat len)"
  shows "md_bits ((if l < Nl then Nh + 1 else Nh) + word_of_nat (len div 2 ^ 29)) l =
    (md_bits Nh Nl + 8 * len) mod 2 ^ 64"
proof -
  define q r where "q = len div 2 ^ 29" and "r = len mod 2 ^ 29"
  have len: "len = q * 2 ^ 29 + r" by (simp add: q_def r_def)
  have r: "8 * r < 2 ^ 32" using mod_less_divisor [of "2 ^ 29" len] by (simp add: r_def)
  have x: "unat (push_bit 3 (word_of_nat len :: u32)) = 8 * r"
  proof -
    have "unat (push_bit 3 (word_of_nat len :: u32)) = (8 * len) mod 2 ^ 32"
      by (simp add: push_bit_eq_mult unat_word_ariths unsigned_of_nat take_bit_eq_mod mod_mult_right_eq mult.commute)
    also have "8 * len = 8 * r + q * 2 ^ 32" by (simp add: len)
    finally show ?thesis using r by simp
  qed
  have l: "unat l = (unat Nl + 8 * r) mod 2 ^ 32" by (simp add: assms unat_word_ariths x)
  have lt: "l < Nl \<longleftrightarrow> unat l < unat Nl" by (rule word_less_nat_alt)
  have nl: "unat Nl < 2 ^ 32" "unat Nh < 2 ^ 32" by (rule unat_u32_lt)+
  define k where "k = (if l < Nl then 1 else 0 :: nat)"
  have split: "unat Nl + 8 * r = k * 2 ^ 32 + unat l"
  proof (cases "unat Nl + 8 * r < 2 ^ 32")
    case True
    then show ?thesis using l lt by (simp add: k_def)
  next
    case False
    then have "unat l = unat Nl + 8 * r - 2 ^ 32" using l nl(1) r by (simp add: mod_if)
    then show ?thesis using lt False r by (simp add: k_def)
  qed
  have h: "unat ((if l < Nl then Nh + 1 else Nh) + word_of_nat q :: u32) = (unat Nh + k + q) mod 2 ^ 32"
    by (simp add: k_def unat_word_ariths unsigned_of_nat take_bit_eq_mod mod_simps)
  have "md_bits Nh Nl + 8 * len = (unat Nh + k + q) * 2 ^ 32 + unat l"
    using split by (simp add: md_bits_def len algebra_simps)
  moreover have "((unat Nh + k + q) * 2 ^ 32 + unat l) mod 2 ^ 64 = (unat Nh + k + q) mod 2 ^ 32 * 2 ^ 32 + unat l"
    by (rule high_low_mod) (rule unat_u32_lt)
  ultimately have "(md_bits Nh Nl + 8 * len) mod 2 ^ 64 = (unat Nh + k + q) mod 2 ^ 32 * 2 ^ 32 + unat l"
    by (simp only:)
  then show ?thesis unfolding q_def [symmetric] by (simp only: md_bits_def h)
qed

lemma md_bits_bytes:
  "CRYPTO_store_u32_be Nh @ CRYPTO_store_u32_be Nl = be_bytes 8 (md_bits Nh Nl)"
  "CRYPTO_store_u32_le Nl @ CRYPTO_store_u32_le Nh = rev (be_bytes 8 (md_bits Nh Nl))"
proof -
  have "be_bytes 8 (md_bits Nh Nl) = be_bytes 4 (unat Nh) @ be_bytes 4 (unat Nl)"
    using be_bytes_append [of 4 "md_bits Nh Nl" 4] be_bytes_mod [of 4 "md_bits Nh Nl"] unat_u32_lt [of Nl] by (simp add: md_bits_def)
  then show "CRYPTO_store_u32_be Nh @ CRYPTO_store_u32_be Nl = be_bytes 8 (md_bits Nh Nl)"
    "CRYPTO_store_u32_le Nl @ CRYPTO_store_u32_le Nh = rev (be_bytes 8 (md_bits Nh Nl))"
    by (simp_all add: store_u32_be CRYPTO_store_u32_le_def)
qed

section \<open>What a context represents\<close>

context md_block
begin

definition absorbed :: "u32 list \<Rightarrow> byte list \<Rightarrow> u32 list \<Rightarrow> byte list \<Rightarrow> nat \<Rightarrow> bool" where
  "absorbed h0 msg h data n \<longleftrightarrow>
     h = run_blocks compress bs h0 msg (length msg div bs) \<and> n = length msg mod bs \<and> length data = bs \<and>
     take n data = drop (bs * (length msg div bs)) msg"

definition md_rep :: "u32 list \<Rightarrow> byte list \<Rightarrow> 'a md32_ctx_scheme \<Rightarrow> bool" where
  "md_rep h0 msg c \<longleftrightarrow>
     absorbed h0 msg (md_h c) (md_data c) (md_num c) \<and> md_bits (md_Nh c) (md_Nl c) = 8 * length msg mod 2 ^ 64"

lemma bs_pos: "0 < bs"
  using bs_large by simp

text \<open>After \<open>k\<close> whole blocks the rest of the input is absorbed from the start of a block.\<close>

lemma update_blocks:
  assumes "md_h c = run_blocks compress bs h0 m k" "length m = k * bs" "length (md_data c) = bs" "md_num c = 0"
  shows "absorbed h0 (m @ inp) (md_h (md32_update_blocks block_func bs c inp))
      (md_data (md32_update_blocks block_func bs c inp)) (md_num (md32_update_blocks block_func bs c inp)) \<and>
    md_Nh (md32_update_blocks block_func bs c inp) = md_Nh c \<and> md_Nl (md32_update_blocks block_func bs c inp) = md_Nl c"
proof -
  define n where "n = length inp div bs"
  define rest where "rest = drop (n * bs) inp"
  have n: "n * bs \<le> length inp" by (simp add: n_def)
  have len: "length (m @ inp) div bs = k + n" "length (m @ inp) mod bs = length inp mod bs"
    using bs_pos by (simp_all add: assms(2) n_def)
  have rest: "length rest = length inp mod bs" by (simp add: rest_def n_def minus_div_mult_eq_mod)
  define h where "h = (if n > 0 then block_func (md_h c) inp n else md_h c)"
  have "h = run_blocks compress bs (md_h c) inp n"
    using n by (simp add: h_def block_func)
  also have "\<dots> = run_blocks compress bs h0 (m @ inp) (k + n)"
    by (simp add: run_blocks_add run_blocks_append assms(1,2))
  finally have h: "h = run_blocks compress bs h0 (m @ inp) (length (m @ inp) div bs)" by (simp only: len)
  have u: "md32_update_blocks block_func bs c inp =
      (if length rest \<noteq> 0 then c\<lparr>md_h := h, md_num := length rest, md_data := mem_write 0 rest (md_data c)\<rparr>
       else c\<lparr>md_h := h\<rparr>)"
    by (simp add: md32_update_blocks_def Let_def n_def [symmetric] rest_def [symmetric] h_def) (simp add: rest_def)
  have d: "drop (bs * (length (m @ inp) div bs)) (m @ inp) = rest"
    unfolding len by (simp add: assms(2) rest_def algebra_simps)
  have le: "length rest \<le> length (md_data c)" using rest bs_pos assms(3) by (simp add: less_imp_le)
  show ?thesis
  proof (cases "rest = []")
    case True
    with rest len(2) have "length (m @ inp) mod bs = 0" by simp
    with True u h d assms(3,4) show ?thesis by (simp add: absorbed_def)
  next
    case False
    then have "md_h (md32_update_blocks block_func bs c inp) = h"
      "md_num (md32_update_blocks block_func bs c inp) = length (m @ inp) mod bs"
      "md_data (md32_update_blocks block_func bs c inp) = mem_write 0 rest (md_data c)"
      "md_Nh (md32_update_blocks block_func bs c inp) = md_Nh c"
      "md_Nl (md32_update_blocks block_func bs c inp) = md_Nl c"
      unfolding u len(2) rest [symmetric] by simp_all
    moreover have "take (length (m @ inp) mod bs) (mem_write 0 rest (md_data c)) = rest"
      unfolding len(2) rest [symmetric] using take_mem_write_end [of 0 "md_data c" rest] by simp
    moreover have "length (mem_write 0 rest (md_data c)) = bs" using le assms(3) by (simp add: length_mem_write)
    ultimately show ?thesis using h d unfolding absorbed_def by (simp only: simp_thms)
  qed
qed

lemma compress_block:
  assumes "length m = k * bs" "length blk = bs"
  shows "block_func (run_blocks compress bs h0 m k) blk 1 = run_blocks compress bs h0 (m @ blk) (k + 1)"
proof -
  have "run_blocks compress bs h0 (m @ blk) (k + 1) = run_blocks compress bs (run_blocks compress bs h0 (m @ blk) k) blk 1"
    using run_blocks_add [of compress bs h0 "m @ blk" k 1] assms by simp
  also have "run_blocks compress bs h0 (m @ blk) k = run_blocks compress bs h0 m k"
    using assms by (intro run_blocks_append) simp
  finally show ?thesis using block_func [of 1 blk] assms by simp
qed

theorem md_rep_update:
  assumes "md_rep h0 msg c"
  shows "md_rep h0 (msg @ inp) (crypto_md32_update block_func bs c inp)"
proof (cases "inp = []")
  case True
  with assms show ?thesis by (simp add: crypto_md32_update_def)
next
  case False
  define l where "l = md_Nl c + push_bit 3 (word_of_nat (length inp))"
  define Nh where "Nh = (if l < md_Nl c then md_Nh c + 1 else md_Nh c) + word_of_nat (length inp div 2 ^ 29)"
  define c1 where "c1 = c\<lparr>md_Nh := Nh, md_Nl := l\<rparr>"
  define k where "k = length msg div bs"
  define n where "n = md_num c"
  have a: "md_h c = run_blocks compress bs h0 msg k" "n = length msg mod bs" "length (md_data c) = bs"
    "take n (md_data c) = drop (bs * k) msg" "md_bits (md_Nh c) (md_Nl c) = 8 * length msg mod 2 ^ 64"
    using assms unfolding md_rep_def absorbed_def k_def n_def by blast+
  have msg: "length msg = bs * k + n" using a(2) by (simp add: k_def)
  have nbs: "n < bs" using a(2) bs_pos by simp
  have "md_bits Nh l = (md_bits (md_Nh c) (md_Nl c) + 8 * length inp) mod 2 ^ 64"
    unfolding Nh_def by (rule md_bits_update) (simp add: l_def)
  also have "\<dots> = 8 * length (msg @ inp) mod 2 ^ 64" by (simp add: a(5) mod_simps algebra_simps)
  finally have bits: "md_bits Nh l = 8 * length (msg @ inp) mod 2 ^ 64" .
  have upd: "crypto_md32_update block_func bs c inp =
    (if n \<noteq> 0 then
       if length inp \<ge> bs \<or> length inp + n \<ge> bs then
         md32_update_blocks block_func bs
           (c1\<lparr>md_h := block_func (md_h c) (mem_write n (take (bs - n) inp) (md_data c)) 1, md_num := 0,
               md_data := replicate bs 0\<rparr>) (drop (bs - n) inp)
       else c1\<lparr>md_data := mem_write n inp (md_data c), md_num := n + length inp\<rparr>
     else md32_update_blocks block_func bs c1 inp)"
    using False by (simp add: crypto_md32_update_def Let_def c1_def Nh_def l_def n_def)
  consider "n = 0" | "n \<noteq> 0" "length inp + n < bs" | "n \<noteq> 0" "bs \<le> length inp + n" by linarith
  then show ?thesis
  proof cases
    case 1
    with upd update_blocks [of c1 h0 msg k inp] a msg bits show ?thesis
      by (simp add: md_rep_def c1_def n_def mult.commute)
  next
    case 2
    have e: "length (msg @ inp) = n + length inp + k * bs" using msg by simp
    have m: "length (msg @ inp) div bs = k" "length (msg @ inp) mod bs = n + length inp"
      unfolding e using 2 bs_pos by simp_all
    have "take (n + length inp) (mem_write n inp (md_data c)) = take n (md_data c) @ inp"
      using nbs a(3) by (simp add: take_mem_write_end)
    moreover have "length (mem_write n inp (md_data c)) = bs" using 2 a(3) by (simp add: length_mem_write)
    moreover have "run_blocks compress bs h0 (msg @ inp) k = md_h c"
      unfolding a(1) using msg by (intro run_blocks_append) simp
    moreover have "drop (bs * k) (msg @ inp) = take n (md_data c) @ inp" using msg a(4) by simp
    moreover have "crypto_md32_update block_func bs c inp =
        c1\<lparr>md_data := mem_write n inp (md_data c), md_num := n + length inp\<rparr>"
      using upd 2 by simp
    ultimately show ?thesis using bits unfolding md_rep_def absorbed_def m by (simp add: c1_def)
  next
    case 3
    define first where "first = take (bs - n) inp"
    define m where "m = msg @ first"
    have f: "length first = bs - n" using 3 by (simp add: first_def)
    have m: "length m = (k + 1) * bs" "drop (k * bs) m = take n (md_data c) @ first"
      using msg f nbs a(4) by (simp_all add: m_def algebra_simps)
    have blk: "mem_write n first (md_data c) = take n (md_data c) @ first"
      using f nbs a(3) by (simp add: mem_write_def)
    have split: "m = take (k * bs) msg @ take n (md_data c) @ first"
      using msg nbs a(4) by (simp add: m_def mult.commute flip: append_assoc)
    have "run_blocks compress bs h0 (take (k * bs) msg) k = md_h c"
      using run_blocks_append [of k bs "take (k * bs) msg" compress h0 "drop (k * bs) msg"] msg a(1)
      by (simp add: mult.commute)
    then have h: "block_func (md_h c) (mem_write n first (md_data c)) 1 = run_blocks compress bs h0 m (k + 1)"
      using compress_block [of "take (k * bs) msg" k "take n (md_data c) @ first" h0] msg f nbs a(3)
      unfolding blk split by (simp add: mult.commute)
    define c2 where "c2 = c1\<lparr>md_h := run_blocks compress bs h0 m (k + 1), md_num := 0, md_data := replicate bs 0\<rparr>"
    have "absorbed h0 (m @ drop (bs - n) inp) (md_h (md32_update_blocks block_func bs c2 (drop (bs - n) inp)))
      (md_data (md32_update_blocks block_func bs c2 (drop (bs - n) inp)))
      (md_num (md32_update_blocks block_func bs c2 (drop (bs - n) inp))) \<and>
      md_Nh (md32_update_blocks block_func bs c2 (drop (bs - n) inp)) = md_Nh c2 \<and>
      md_Nl (md32_update_blocks block_func bs c2 (drop (bs - n) inp)) = md_Nl c2"
      by (rule update_blocks [of c2 h0 m "k + 1"]) (simp_all add: c2_def m)
    moreover have "m @ drop (bs - n) inp = msg @ inp" by (simp add: m_def first_def)
    moreover have "crypto_md32_update block_func bs c inp = md32_update_blocks block_func bs c2 (drop (bs - n) inp)"
      using upd 3 h by (simp add: c2_def first_def)
    ultimately show ?thesis using bits by (simp add: md_rep_def c2_def c1_def)
  qed
qed

text \<open>The last blocks are the rest of the message with the padding.\<close>

lemma final_stores:
  assumes "length data = bs" "length x = 4" "length y = 4"
  shows "mem_write (bs - 4) y (mem_write (bs - 8) x data) = take (bs - 8) data @ x @ y"
  using assms bs_large by (simp add: mem_write_def)

theorem md_rep_final:
  assumes "md_rep h0 msg c"
  shows "md_h (crypto_md32_final block_func bs c be) = md_hash compress bs be h0 msg"
proof -
  define k where "k = length msg div bs"
  define n where "n = md_num c"
  define full part where "full = take (k * bs) msg" and "part = drop (k * bs) msg"
  define L where "L = md_length_bytes be (length msg)"
  have a: "md_h c = run_blocks compress bs h0 msg k" "n = length msg mod bs" "length (md_data c) = bs"
    "take n (md_data c) = part" "md_bits (md_Nh c) (md_Nl c) = 8 * length msg mod 2 ^ 64"
    using assms unfolding md_rep_def absorbed_def k_def n_def part_def mult.commute [of _ bs] by blast+
  have len: "length msg = k * bs + n" using a(2) by (simp add: k_def)
  have "n < bs" unfolding a(2) by (rule mod_less_divisor [OF bs_pos])
  with len have n: "n < bs" "length part = n" "length full = k * bs" "msg = full @ part"
    by (simp_all add: part_def full_def)
  have L: "length L = 8" by (simp add: L_def md_length_bytes_def Let_def)
  have st: "(if be then CRYPTO_store_u32_be (md_Nh c) @ CRYPTO_store_u32_be (md_Nl c)
      else CRYPTO_store_u32_le (md_Nl c) @ CRYPTO_store_u32_le (md_Nh c)) = L"
    by (simp add: L_def md_length_bytes_def md_bits_bytes a(5))
  have h: "md_h c = run_blocks compress bs h0 full k"
    using run_blocks_append [of k bs full compress h0 part] n a(1) by simp
  have one: "take (n + 1) ((md_data c)[n := 0x80]) = part @ [0x80]"
    using n(1) a(3,4) by (simp add: take_Suc_conv_app_nth)
  define put where "put data = (if be
      then mem_write (bs - 4) (CRYPTO_store_u32_be (md_Nl c)) (mem_write (bs - 8) (CRYPTO_store_u32_be (md_Nh c)) data)
      else mem_write (bs - 4) (CRYPTO_store_u32_le (md_Nh c)) (mem_write (bs - 8) (CRYPTO_store_u32_le (md_Nl c)) data))" for data
  have stores: "put data = take (bs - 8) data @ L" if "length data = bs" for data
    unfolding st [symmetric] put_def using final_stores [OF that] by simp
  define d where "d = (md_data c)[n := 0x80]"
  define fin where "fin h data m = block_func h (put (mem_write m (replicate (bs - 8 - m) 0) data)) 1" for h data m
  have fin: "md_h (crypto_md32_final block_func bs c be) =
      (if n + 1 > bs - 8 then
         fin (block_func (md_h c) (take (n + 1) d @ replicate (bs - (n + 1)) 0) 1) (take (n + 1) d @ replicate (bs - (n + 1)) 0) 0
       else fin (md_h c) d (n + 1))"
    unfolding crypto_md32_final_def Let_def n_def [symmetric] d_def [symmetric] put_def [symmetric] fin_def
    by (cases "n + 1 > bs - 8") simp_all
  have d: "length d = bs" using a(3) by (simp add: d_def)
  have fin_eq: "fin h' data m = block_func h' (take m data @ replicate (bs - 8 - m) 0 @ L) 1"
    if "length data = bs" "m \<le> bs - 8" for h' data m
  proof -
    have "length (mem_write m (replicate (bs - 8 - m) 0) data) = bs" using that by (simp add: mem_write_def)
    from stores [OF this] have "put (mem_write m (replicate (bs - 8 - m) 0) data) = take m data @ replicate (bs - 8 - m) 0 @ L"
      using that by (simp add: mem_write_def)
    then show ?thesis by (simp only: fin_def)
  qed
  define p where "p = msg @ md_pad bs be (length msg)"
  have hash: "md_hash compress bs be h0 msg = run_blocks compress bs h0 p (length p div bs)"
    by (simp add: md_hash_def p_def)
  show ?thesis
  proof (cases "n + 9 \<le> bs")
    case True
    have e: "length msg + 9 = n + 9 + k * bs" using len by simp
    have z: "(bs - (length msg + 9) mod bs) mod bs = bs - 9 - n"
      unfolding e using True by (cases "n + 9 = bs") simp_all
    define blk where "blk = part @ 0x80 # replicate (bs - 9 - n) 0 @ L"
    have blk: "length blk = bs" using True n(2) L by (simp add: blk_def)
    have "p = full @ blk" unfolding p_def md_pad_def z blk_def L_def using n(4) by simp
    then have p: "p = full @ blk" "length p div bs = k + 1" using blk n(3) bs_pos by simp_all
    have "\<not> n + 1 > bs - 8" "n + 1 \<le> bs - 8" using True by linarith+
    then have "md_h (crypto_md32_final block_func bs c be) = block_func (md_h c) (take (n + 1) d @ replicate (bs - 8 - (n + 1)) 0 @ L) 1"
      using fin fin_eq [OF d] by (simp only: if_False)
    also have "bs - 8 - (n + 1) = bs - 9 - n" by simp
    also have "take (n + 1) d @ replicate (bs - 9 - n) 0 @ L = blk" by (simp only: one d_def blk_def append_assoc append_Cons append_Nil)
    also have "block_func (md_h c) blk 1 = md_hash compress bs be h0 msg"
      unfolding h hash p(2) unfolding p(1) by (rule compress_block [OF n(3) blk])
    finally show ?thesis .
  next
    case False
    have e: "length msg + 9 = n + 9 - bs + (k + 1) * bs" using False len by simp
    have "n + 9 - bs < bs" using n(1) bs_large by linarith
    then have "(length msg + 9) mod bs = n + 9 - bs" unfolding e mod_mult_self1 by (rule mod_less)
    then have z: "(bs - (length msg + 9) mod bs) mod bs = bs - n - 1 + (bs - 8)" using False n(1) bs_large by simp
    define b1 b2 where "b1 = part @ 0x80 # replicate (bs - n - 1) 0" and "b2 = replicate (bs - 8) 0 @ L"
    have blk: "length b1 = bs" "length b2 = bs" using n(1,2) L bs_large by (simp_all add: b1_def b2_def)
    have "p = (full @ b1) @ b2"
      unfolding p_def md_pad_def z b1_def b2_def L_def replicate_add using n(4) by simp
    then have p: "p = (full @ b1) @ b2" "length p div bs = k + 1 + 1" using blk n(3) bs_pos by simp_all
    have b1: "take (n + 1) d @ replicate (bs - (n + 1)) 0 = b1" unfolding d_def one b1_def by simp
    have "n + 1 > bs - 8" using False by linarith
    then have "md_h (crypto_md32_final block_func bs c be) = fin (block_func (md_h c) b1 1) b1 0"
      using fin unfolding b1 by (simp only: if_True)
    also have "\<dots> = block_func (block_func (md_h c) b1 1) b2 1"
      using fin_eq [OF blk(1), of 0] by (simp add: b2_def)
    also have "\<dots> = md_hash compress bs be h0 msg"
      unfolding h hash p(2) compress_block [OF n(3) blk(1)] unfolding p(1) using n(3) blk(1) by (intro compress_block [OF _ blk(2)]) simp
    finally show ?thesis .
  qed
qed

end

context md_block
begin

lemma md_rep_updates:
  "md_rep h0 msg c \<Longrightarrow> md_rep h0 (msg @ concat ds) (foldl (crypto_md32_update block_func bs) c ds)"
proof (induction ds arbitrary: msg c)
  case (Cons d ds)
  from Cons.IH [OF md_rep_update [OF Cons.prems, of d]] show ?case by simp
qed simp

text \<open>However a message is cut into updates, the digest state at the end is the hash of the message.\<close>

theorem md_stream:
  assumes "md_h c = h0" "md_Nl c = 0" "md_Nh c = 0" "length (md_data c) = bs" "md_num c = 0"
  shows "md_h (crypto_md32_final block_func bs (foldl (crypto_md32_update block_func bs) c ds) be) =
    md_hash compress bs be h0 (concat ds)"
proof -
  have "md_rep h0 [] c" using assms by (simp add: md_rep_def absorbed_def md_bits_def)
  from md_rep_final [OF md_rep_updates [OF this]] show ?thesis by simp
qed

end

section \<open>The circular message schedule\<close>

text \<open>The block functions keep the last sixteen words of the message schedule \<open>W\<close> in a circular buffer.\<close>

definition circ :: "'w list \<Rightarrow> (nat \<Rightarrow> 'w) \<Rightarrow> nat \<Rightarrow> bool" where
  "circ X W i \<longleftrightarrow> length X = 16 \<and> (\<forall>t < i. i \<le> t + 16 \<longrightarrow> X ! (t mod 16) = W t)"

lemma circ_0: "length X = 16 \<Longrightarrow> circ X W 0"
  by (simp add: circ_def)

lemma circ_Suc: "circ X W i \<Longrightarrow> w = W i \<Longrightarrow> circ (X[i mod 16 := w]) W (Suc i)"
proof -
  assume a: "circ X W i" "w = W i"
  have "X[i mod 16 := w] ! (t mod 16) = W t" if "t < Suc i" "Suc i \<le> t + 16" for t
  proof (cases "t = i")
    case False
    then have "t < i" "i < t + 16" using that by simp_all
    then have "\<not> 16 dvd i - t" using \<open>t < i\<close> \<open>i < t + 16\<close> by (intro nat_dvd_not_less) simp_all
    then have "i mod 16 \<noteq> t mod 16" using \<open>t < i\<close> mod_eq_dvd_iff_nat [of t i 16] by auto
    with a \<open>t < i\<close> \<open>i < t + 16\<close> show ?thesis by (simp add: circ_def)
  qed (use a in \<open>simp add: circ_def\<close>)
  with a show ?thesis by (simp add: circ_def)
qed

lemma circ_nth: "circ X W i \<Longrightarrow> 16 \<le> i \<Longrightarrow> k < 16 \<Longrightarrow> X ! ((i + k) mod 16) = W (i - 16 + k)"
proof -
  assume a: "circ X W i" "16 \<le> i" "k < 16"
  have "(i - 16 + k) mod 16 = (i + k) mod 16" using a(2) mod_add_self2 [of "i - 16 + k" 16] by simp
  with a show ?thesis by (auto simp: circ_def dest: spec [of _ "i - 16 + k"])
qed

lemma and_15: "n AND 15 = n mod 16" for n :: nat
  using take_bit_eq_mask [of 4 n] by (simp add: take_bit_eq_mod mask_eq_exp_minus_1)

end
