(* ===== verification/Sha256.thy ===== *)
theory Sha256
  imports Md32
begin

text \<open>
  SHA-224 and SHA-256 (\<^verbatim>\<open>crypto/fipsmodule/sha/sha256.c\<close>, the portable code that is compiled with
  \<^verbatim>\<open>OPENSSL_NO_ASM\<close>). The block function with its circular message schedule is shown to be the compression function of
  FIPS 180-4, it interprets the contract of the collector, and so the digest operations compute the digest
  of the standard for any sequence of updates. The specification has none of the code's tables, functions and initial
  values: it computes its constants from the roots of the primes, as the standard defines them, and the tables of the
  code are proved equal to them.
\<close>

section \<open>State\<close>

record sha256_ctx = md32_ctx + md_len :: nat

definition SHA256_CBLOCK :: nat where "SHA256_CBLOCK = 64"
definition SHA224_DIGEST_LENGTH :: nat where "SHA224_DIGEST_LENGTH = 28"
definition SHA256_DIGEST_LENGTH :: nat where "SHA256_DIGEST_LENGTH = 32"

section \<open>The block function\<close>

text \<open>The table, row by row.\<close>

definition K256 :: "u32 list" where
  "K256 = concat
    [[0x428a2f98, 0x71374491, 0xb5c0fbcf, 0xe9b5dba5, 0x3956c25b],
     [0x59f111f1, 0x923f82a4, 0xab1c5ed5, 0xd807aa98, 0x12835b01],
     [0x243185be, 0x550c7dc3, 0x72be5d74, 0x80deb1fe, 0x9bdc06a7],
     [0xc19bf174, 0xe49b69c1, 0xefbe4786, 0x0fc19dc6, 0x240ca1cc],
     [0x2de92c6f, 0x4a7484aa, 0x5cb0a9dc, 0x76f988da, 0x983e5152],
     [0xa831c66d, 0xb00327c8, 0xbf597fc7, 0xc6e00bf3, 0xd5a79147],
     [0x06ca6351, 0x14292967, 0x27b70a85, 0x2e1b2138, 0x4d2c6dfc],
     [0x53380d13, 0x650a7354, 0x766a0abb, 0x81c2c92e, 0x92722c85],
     [0xa2bfe8a1, 0xa81a664b, 0xc24b8b70, 0xc76c51a3, 0xd192e819],
     [0xd6990624, 0xf40e3585, 0x106aa070, 0x19a4c116, 0x1e376c08],
     [0x2748774c, 0x34b0bcb5, 0x391c0cb3, 0x4ed8aa4a, 0x5b9cca4f],
     [0x682e6ff3, 0x748f82ee, 0x78a5636f, 0x84c87814, 0x8cc70208],
     [0x90befffa, 0xa4506ceb, 0xbef9a3f7, 0xc67178f2]]"

definition Sigma0 :: "u32 \<Rightarrow> u32" where
  "Sigma0 x = CRYPTO_rotr_u32 x 2 XOR CRYPTO_rotr_u32 x 13 XOR CRYPTO_rotr_u32 x 22"

definition Sigma1 :: "u32 \<Rightarrow> u32" where
  "Sigma1 x = CRYPTO_rotr_u32 x 6 XOR CRYPTO_rotr_u32 x 11 XOR CRYPTO_rotr_u32 x 25"

definition sigma0 :: "u32 \<Rightarrow> u32" where
  "sigma0 x = CRYPTO_rotr_u32 x 7 XOR CRYPTO_rotr_u32 x 18 XOR drop_bit 3 x"

definition sigma1 :: "u32 \<Rightarrow> u32" where
  "sigma1 x = CRYPTO_rotr_u32 x 17 XOR CRYPTO_rotr_u32 x 19 XOR drop_bit 10 x"

definition Ch :: "'a::len word \<Rightarrow> 'a word \<Rightarrow> 'a word \<Rightarrow> 'a word" where
  "Ch x y z = (x AND y) XOR (NOT x AND z)"

definition Maj :: "'a::len word \<Rightarrow> 'a word \<Rightarrow> 'a word \<Rightarrow> 'a word" where
  "Maj x y z = (x AND y) XOR (x AND z) XOR (y AND z)"

text \<open>The working variables are the tuple of the arguments of the next round, so that every round has them rotated by one
  place, as the calls in the code have.\<close>

type_synonym 'w vars8 = "'w \<times> 'w \<times> 'w \<times> 'w \<times> 'w \<times> 'w \<times> 'w \<times> 'w"

fun ROUND_00_15 :: "nat \<Rightarrow> u32 \<Rightarrow> u32 vars8 \<Rightarrow> u32 vars8" where
  "ROUND_00_15 i T1 (a, b, c, d, e, f, g, h) =
     (let T1 = T1 + (h + Sigma1 e + Ch e f g + K256 ! i);
          h = Sigma0 a + Maj a b c;
          d = d + T1;
          h = h + T1
      in (h, a, b, c, d, e, f, g))"

definition sha256_load :: "byte list \<Rightarrow> nat \<Rightarrow> u32 vars8 \<times> u32 list \<Rightarrow> u32 vars8 \<times> u32 list" where
  "sha256_load data i vX =
     (case vX of (v, X) \<Rightarrow>
        let T1 = CRYPTO_load_u32_be (drop (4 * i) data); X = X[i := T1] in (ROUND_00_15 i T1 v, X))"

definition ROUND_16_63 :: "nat \<Rightarrow> u32 vars8 \<times> u32 list \<Rightarrow> u32 vars8 \<times> u32 list" where
  "ROUND_16_63 i vX =
     (case vX of (v, X) \<Rightarrow>
        let s0 = sigma0 (X ! ((i + 1) AND 0x0f));
            s1 = sigma1 (X ! ((i + 14) AND 0x0f));
            X = X[i AND 0x0f := X ! (i AND 0x0f) + (s0 + s1 + X ! ((i + 9) AND 0x0f))];
            T1 = X ! (i AND 0x0f)
        in (ROUND_00_15 i T1 v, X))"

definition vars8 :: "'w list \<Rightarrow> 'w vars8" where
  "vars8 h = (h ! 0, h ! 1, h ! 2, h ! 3, h ! 4, h ! 5, h ! 6, h ! 7)"

fun add_vars8 :: "'w::plus list \<Rightarrow> 'w vars8 \<Rightarrow> 'w list" where
  "add_vars8 s (a, b, c, d, e, f, g, h) = [s ! 0 + a, s ! 1 + b, s ! 2 + c, s ! 3 + d, s ! 4 + e, s ! 5 + f, s ! 6 + g, s ! 7 + h]"

fun sha256_block_data_order :: crypto_md32_block_func where
  "sha256_block_data_order state data 0 = state"
| "sha256_block_data_order state data (Suc num) =
     (let vX = fold (sha256_load data) [0..<16] (vars8 state, replicate 16 0);
          vX = fold ROUND_16_63 [16..<64] vX
      in sha256_block_data_order (add_vars8 state (fst vX)) (drop 64 data) num)"

section \<open>Operations\<close>

definition sha256_ctx_of :: "u32 list \<Rightarrow> nat \<Rightarrow> sha256_ctx" where
  "sha256_ctx_of h len =
     \<lparr>md_h = h, md_Nl = 0, md_Nh = 0, md_data = replicate SHA256_CBLOCK 0, md_num = 0, md_len = len\<rparr>"

definition SHA224_Init :: sha256_ctx where
  "SHA224_Init = sha256_ctx_of
     [0xc1059ed8, 0x367cd507, 0x3070dd17, 0xf70e5939, 0xffc00b31, 0x68581511, 0x64f98fa7, 0xbefa4fa4] SHA224_DIGEST_LENGTH"

definition SHA256_Init :: sha256_ctx where
  "SHA256_Init = sha256_ctx_of
     [0x6a09e667, 0xbb67ae85, 0x3c6ef372, 0xa54ff53a, 0x510e527f, 0x9b05688c, 0x1f83d9ab, 0x5be0cd19] SHA256_DIGEST_LENGTH"

definition SHA256_Transform :: "sha256_ctx \<Rightarrow> byte list \<Rightarrow> sha256_ctx" where
  "SHA256_Transform c data = c\<lparr>md_h := sha256_block_data_order (md_h c) data 1\<rparr>"

definition SHA256_TransformBlocks :: crypto_md32_block_func where
  "SHA256_TransformBlocks state data num_blocks = sha256_block_data_order state data num_blocks"

definition SHA256_Update :: "sha256_ctx \<Rightarrow> byte list \<Rightarrow> sha256_ctx" where
  "SHA256_Update c data = crypto_md32_update sha256_block_data_order SHA256_CBLOCK c data"

definition SHA224_Update :: "sha256_ctx \<Rightarrow> byte list \<Rightarrow> sha256_ctx" where
  "SHA224_Update ctx data = SHA256_Update ctx data"

text \<open>The digest that is written, \<open>None\<close> when the function returns zero, and the context.\<close>

definition sha256_final_impl :: "sha256_ctx \<Rightarrow> byte list option \<times> sha256_ctx" where
  "sha256_final_impl c =
     (let c = crypto_md32_final sha256_block_data_order SHA256_CBLOCK c True in
      if md_len c > SHA256_DIGEST_LENGTH then (None, c)
      else
        let out_words = md_len c div 4
        in (Some (concat (map (\<lambda>i. CRYPTO_store_u32_be (md_h c ! i)) [0..<out_words])), c))"

definition SHA256_Final :: "sha256_ctx \<Rightarrow> byte list option \<times> sha256_ctx" where
  "SHA256_Final c = sha256_final_impl c"

definition SHA224_Final :: "sha256_ctx \<Rightarrow> byte list option \<times> sha256_ctx" where
  "SHA224_Final ctx = sha256_final_impl ctx"

definition SHA224 :: "byte list \<Rightarrow> byte list option" where
  "SHA224 data = fst (SHA224_Final (SHA224_Update SHA224_Init data))"

definition SHA256 :: "byte list \<Rightarrow> byte list option" where
  "SHA256 data = fst (SHA256_Final (SHA256_Update SHA256_Init data))"

section \<open>The constants of the standard\<close>

text \<open>FIPS 180-4, sections 4.2.2, 5.3.2 and 5.3.3: the constants are the first 32 bits of the fractional parts of the cube roots of
  the first 64 primes, the initial values those of the square roots of the first eight; for SHA-224 they are the second 32 bits
  of the fractional parts of the square roots of the ninth to the sixteenth prime.\<close>

definition first_primes :: "nat list" where
  "first_primes =
  [2, 3, 5, 7, 11, 13, 17, 19, 23, 29, 31, 37, 41, 43, 47, 53, 59, 61, 67, 71, 73, 79, 83, 89, 97, 101, 103, 107, 109, 113,
   127, 131, 137, 139, 149, 151, 157, 163, 167, 173, 179, 181, 191, 193, 197, 199, 211, 223, 227, 229, 233, 239, 241, 251,
   257, 263, 269, 271, 277, 281, 283, 293, 307, 311]"

text \<open>The largest \<open>r\<close> with \<open>r ^ k \<le> n\<close>, bit by bit from the highest; all but the lowest \<open>b\<close> bits of it are in \<open>m\<close>.\<close>

fun root_bits :: "nat \<Rightarrow> nat \<Rightarrow> nat \<Rightarrow> nat \<Rightarrow> nat" where
  "root_bits k n 0 m = m"
| "root_bits k n (Suc b) m = root_bits k n b (if (m + 2 ^ b) ^ k \<le> n then m + 2 ^ b else m)"

text \<open>The first bits behind the point of the \<open>k\<close>-th root of \<open>p\<close>, as many as the word has: the root of \<open>p\<close> times a power of two
  without the bits of its integer part, of which there are four at most here.\<close>

definition root_word :: "nat \<Rightarrow> nat \<Rightarrow> 'a::len word" where
  "root_word k p = word_of_nat (root_bits k (p * 2 ^ (k * LENGTH('a))) (LENGTH('a) + 4) 0)"

lemma root_bits_correct:
  assumes "m ^ k \<le> n" "n < (m + 2 ^ b) ^ k"
  shows "root_bits k n b m ^ k \<le> n \<and> n < (root_bits k n b m + 1) ^ k"
  using assms
proof (induction b arbitrary: m)
  case (Suc b)
  show ?case
  proof (cases "(m + 2 ^ b) ^ k \<le> n")
    case True
    moreover have "m + 2 ^ Suc b = m + 2 ^ b + 2 ^ b" by simp
    then have "n < (m + 2 ^ b + 2 ^ b) ^ k" using Suc.prems(2) by (simp only:)
    ultimately show ?thesis using Suc.IH [of "m + 2 ^ b"] by (simp only: root_bits.simps if_True)
  next
    case False
    then have "n < (m + 2 ^ b) ^ k" by (simp only: not_le)
    then show ?thesis using Suc.IH [of m] Suc.prems(1) False by (simp only: root_bits.simps if_False)
  qed
qed simp

lemma root_unique: "r ^ k \<le> n \<Longrightarrow> n < (r + 1) ^ k \<Longrightarrow> s ^ k \<le> n \<Longrightarrow> n < (s + 1) ^ k \<Longrightarrow> r = (s :: nat)"
  using power_less_imp_less_base [of r k "s + 1"] power_less_imp_less_base [of s k "r + 1"] by fastforce

text \<open>The check that a word is what a root begins with; all roots here lie between 1 and 8.\<close>

definition root_fraction :: "nat \<Rightarrow> nat \<Rightarrow> nat \<Rightarrow> nat \<Rightarrow> bool" where
  "root_fraction k bits p w \<longleftrightarrow>
     w < 2 ^ bits \<and>
     list_ex (\<lambda>q. if q ^ k \<le> p \<and> p < (q + 1) ^ k
                 then (q * 2 ^ bits + w) ^ k \<le> p * 2 ^ (k * bits) \<and> p * 2 ^ (k * bits) < (q * 2 ^ bits + w + 1) ^ k
                 else False) [1, 2, 3, 4, 5, 6, 7]"

lemma root_word_eq:
  fixes w :: "'a::len word"
  assumes "root_fraction k LENGTH('a) p (unat w)" "k \<noteq> 0"
  shows "root_word k p = w"
proof -
  define L where "L = LENGTH('a)"
  define n where "n = p * 2 ^ (k * L)"
  obtain q where q0: "q \<in> set [1, 2, 3, 4, 5, 6, 7]"
    and "if q ^ k \<le> p \<and> p < (q + 1) ^ k then (q * 2 ^ L + unat w) ^ k \<le> n \<and> n < (q * 2 ^ L + unat w + 1) ^ k else False"
    using assms(1) unfolding root_fraction_def list_ex_iff L_def n_def by blast
  then have q: "(q * 2 ^ L + unat w) ^ k \<le> n" "n < (q * 2 ^ L + unat w + 1) ^ k" by meson+
  have q7: "q \<le> 7" using q0 by auto
  have "q * 2 ^ L + unat w + 1 \<le> 2 ^ (L + 4)"
  proof -
    have "unat w < 2 ^ L" by (simp add: L_def unsigned_less)
    moreover have "q * 2 ^ L \<le> 7 * 2 ^ L" using q7 by (rule mult_le_mono1)
    moreover have "(2 :: nat) ^ (L + 4) = 16 * 2 ^ L" by (simp add: power_add)
    ultimately show ?thesis by linarith
  qed
  then have "(q * 2 ^ L + unat w + 1) ^ k \<le> (2 ^ (L + 4)) ^ k" by (rule power_mono) simp
  then have "n < (0 + 2 ^ (L + 4)) ^ k" using q(2) by simp
  moreover have "(0 :: nat) ^ k \<le> n" using assms(2) by (simp add: zero_power)
  ultimately have "root_bits k n (L + 4) 0 ^ k \<le> n \<and> n < (root_bits k n (L + 4) 0 + 1) ^ k" by (intro root_bits_correct)
  then have "root_bits k n (L + 4) 0 = q * 2 ^ L + unat w" using q(1,2) by (intro root_unique) simp_all
  moreover have "word_of_nat (q * 2 ^ L + unat w) = w"
    by (simp add: L_def)
  ultimately show ?thesis by (simp only: root_word_def flip: L_def n_def)
qed

lemma root_words:
  fixes ws :: "'a::len word list"
  assumes "list_all2 (\<lambda>p w. root_fraction k LENGTH('a) p (unat w)) ps ws" "k \<noteq> 0"
  shows "ws = map (root_word k) ps"
  using assms(1) by (induction rule: list_all2_induct) (simp_all add: root_word_eq [OF _ assms(2)])

definition fips_K256 :: "u32 list" where
  "fips_K256 = map (root_word 3) first_primes"

definition fips_256_h :: "u32 list" where
  "fips_256_h = map (root_word 2) (take 8 first_primes)"

definition fips_384_h :: "u64 list" where
  "fips_384_h = map (root_word 2) (take 8 (drop 8 first_primes))"

definition fips_224_h :: "u32 list" where
  "fips_224_h = map ucast fips_384_h"

lemma K256_fips: "K256 = fips_K256"
proof -
  have "list_all2 (\<lambda>p w. root_fraction 3 LENGTH(32) p (unat w)) first_primes K256"
    unfolding first_primes_def K256_def concat.simps append.simps
    by (intro list.rel_intros; (simp add: root_fraction_def flip: numeral_2_eq_2; fail)?)
  from root_words [OF this] show ?thesis by (simp add: fips_K256_def)
qed

lemma SHA256_Init_fips: "md_h SHA256_Init = fips_256_h"
proof -
  have t: "take 8 first_primes = [2, 3, 5, 7, 11, 13, 17, 19]" by (simp add: first_primes_def)
  have "list_all2 (\<lambda>p w. root_fraction 2 LENGTH(32) p (unat w)) (take 8 first_primes) (md_h SHA256_Init)"
    unfolding t SHA256_Init_def sha256_ctx_of_def md32_ctx.simps
    by (intro list.rel_intros; (simp add: root_fraction_def flip: numeral_2_eq_2; fail)?)
  from root_words [OF this] show ?thesis by (simp add: fips_256_h_def)
qed

lemma fips_384_h:
  "fips_384_h = concat
    [[0xcbbb9d5dc1059ed8, 0x629a292a367cd507, 0x9159015a3070dd17, 0x152fecd8f70e5939],
     [0x67332667ffc00b31, 0x8eb44a8768581511, 0xdb0c2e0d64f98fa7, 0x47b5481dbefa4fa4]]" (is "_ = ?h")
proof -
  have t: "take 8 (drop 8 first_primes) = [23, 29, 31, 37, 41, 43, 47, 53]" by (simp add: first_primes_def)
  have "list_all2 (\<lambda>p w. root_fraction 2 LENGTH(64) p (unat w)) (take 8 (drop 8 first_primes)) ?h"
    unfolding t concat.simps append.simps
    by (intro list.rel_intros; (simp add: root_fraction_def flip: numeral_2_eq_2; fail)?)
  from root_words [OF this] show ?thesis by (simp add: fips_384_h_def)
qed

lemma SHA224_Init_fips: "md_h SHA224_Init = fips_224_h"
  by (simp add: SHA224_Init_def sha256_ctx_of_def fips_224_h_def fips_384_h)

section \<open>The specification\<close>

text \<open>The compression function of FIPS 180-4, sections 4.1.2, 4.1.3, 6.2 and 6.4: the message schedule \<open>W\<close>, the rounds with the
  functions ``Ch'' and ``Maj'', and their result added to the chaining value.\<close>

fun sha2_W :: "('a::len word \<Rightarrow> 'a word) \<Rightarrow> ('a word \<Rightarrow> 'a word) \<Rightarrow> (nat \<Rightarrow> 'a word) \<Rightarrow> nat \<Rightarrow> 'a word" where
  "sha2_W s0 s1 M t =
     (if t < 16 then M t
      else s1 (sha2_W s0 s1 M (t - 2)) + sha2_W s0 s1 M (t - 7) + s0 (sha2_W s0 s1 M (t - 15)) + sha2_W s0 s1 M (t - 16))"

declare sha2_W.simps [simp del]

fun sha2_round ::
    "('a::len word \<Rightarrow> 'a word) \<Rightarrow> ('a word \<Rightarrow> 'a word) \<Rightarrow> (nat \<Rightarrow> 'a word) \<Rightarrow> (nat \<Rightarrow> 'a word) \<Rightarrow> nat \<Rightarrow>
     'a word vars8 \<Rightarrow> 'a word vars8" where
  "sha2_round S0 S1 K W t (a, b, c, d, e, f, g, h) =
     (let T1 = h + S1 e + ((e AND f) XOR (NOT e AND g)) + K t + W t;
          T2 = S0 a + ((a AND b) XOR (a AND c) XOR (b AND c))
      in (T1 + T2, a, b, c, d + T1, e, f, g))"

definition sha2_compress :: "(nat \<Rightarrow> 'a::len word vars8 \<Rightarrow> 'a word vars8) \<Rightarrow> nat \<Rightarrow> 'a word list \<Rightarrow> 'a word list" where
  "sha2_compress round n H =
     (case fold round [0..<n] (H ! 0, H ! 1, H ! 2, H ! 3, H ! 4, H ! 5, H ! 6, H ! 7) of
        (a, b, c, d, e, f, g, h) \<Rightarrow>
          [a + H ! 0, b + H ! 1, c + H ! 2, d + H ! 3, e + H ! 4, f + H ! 5, g + H ! 6, h + H ! 7])"

definition sha256_W :: "byte list \<Rightarrow> nat \<Rightarrow> u32" where
  "sha256_W M = sha2_W (\<lambda>x. word_rotr 7 x XOR word_rotr 18 x XOR drop_bit 3 x)
     (\<lambda>x. word_rotr 17 x XOR word_rotr 19 x XOR drop_bit 10 x) (\<lambda>t. word_of_nat (be_val (take 4 (drop (4 * t) M))))"

definition sha256_round :: "byte list \<Rightarrow> nat \<Rightarrow> u32 vars8 \<Rightarrow> u32 vars8" where
  "sha256_round M = sha2_round (\<lambda>x. word_rotr 2 x XOR word_rotr 13 x XOR word_rotr 22 x)
     (\<lambda>x. word_rotr 6 x XOR word_rotr 11 x XOR word_rotr 25 x) (\<lambda>t. fips_K256 ! t) (sha256_W M)"

definition sha256_compress :: "u32 list \<Rightarrow> byte list \<Rightarrow> u32 list" where
  "sha256_compress H M = sha2_compress (sha256_round M) 64 H"

section \<open>The block function implements it\<close>

lemma sha2_compress: "sha2_compress round n H = add_vars8 H (fold round [0..<n] (vars8 H))"
proof -
  obtain a b c d e f g h where v: "fold round [0..<n] (vars8 H) = (a, b, c, d, e, f, g, h)" by (metis surj_pair)
  then show ?thesis unfolding sha2_compress_def vars8_def [symmetric] v by (simp add: add.commute)
qed

lemma length_sha2_compress [simp]: "length (sha2_compress round n H) = 8"
  by (simp add: sha2_compress_def split: prod.split)

lemma sha256_sigmas:
  "Sigma0 = (\<lambda>x. word_rotr 2 x XOR word_rotr 13 x XOR word_rotr 22 x)"
  "Sigma1 = (\<lambda>x. word_rotr 6 x XOR word_rotr 11 x XOR word_rotr 25 x)"
  "sigma0 = (\<lambda>x. word_rotr 7 x XOR word_rotr 18 x XOR drop_bit 3 x)"
  "sigma1 = (\<lambda>x. word_rotr 17 x XOR word_rotr 19 x XOR drop_bit 10 x)"
  by (simp_all add: fun_eq_iff Sigma0_def Sigma1_def sigma0_def sigma1_def rotr_u32)

lemma ROUND_00_15: "ROUND_00_15 t (sha256_W M t) v = sha256_round M t v"
proof -
  obtain a b c d e f g h where v: "v = (a, b, c, d, e, f, g, h)" by (metis surj_pair)
  show ?thesis
    by (simp add: v sha256_round_def Let_def Ch_def Maj_def K256_fips add.commute add.left_commute flip: sha256_sigmas)
qed

lemma sha256_W_early: "t < 16 \<Longrightarrow> sha256_W M t = word_of_nat (be_val (take 4 (drop (4 * t) M)))"
  by (simp add: sha256_W_def sha2_W.simps)

lemma sha256_W_late:
  "16 \<le> t \<Longrightarrow> sha256_W M t =
     sigma1 (sha256_W M (t - 2)) + sha256_W M (t - 7) + sigma0 (sha256_W M (t - 15)) + sha256_W M (t - 16)"
  unfolding sha256_W_def sha256_sigmas by (subst sha2_W.simps) simp

lemma sha256_load_rounds:
  assumes "64 \<le> length M" "length X = 16"
  shows "i \<le> 16 \<Longrightarrow> \<exists>X'. fold (sha256_load M) [0..<i] (v, X) = (fold (sha256_round M) [0..<i] v, X') \<and> circ X' (sha256_W M) i"
proof (induction i)
  case 0
  then show ?case by (simp add: circ_0 assms)
next
  case (Suc i)
  then obtain X' where X': "fold (sha256_load M) [0..<i] (v, X) = (fold (sha256_round M) [0..<i] v, X')"
    "circ X' (sha256_W M) i" by auto
  have w: "CRYPTO_load_u32_be (drop (4 * i) M) = sha256_W M i"
    using Suc.prems assms(1) by (simp add: sha256_W_early load_u32_be)
  have c: "circ (X'[i := sha256_W M i]) (sha256_W M) (Suc i)"
    using circ_Suc [OF X'(2)] Suc.prems by (metis Suc_le_lessD mod_less)
  have "sha256_load M i (fold (sha256_round M) [0..<i] v, X') =
      (sha256_round M i (fold (sha256_round M) [0..<i] v), X'[i := sha256_W M i])"
    by (simp add: sha256_load_def w ROUND_00_15 Let_def)
  with c show ?case by (simp add: X'(1))
qed

lemma ROUND_16_63:
  assumes "circ X (sha256_W M) i" "16 \<le> i"
  shows "\<exists>X'. ROUND_16_63 i (v, X) = (sha256_round M i v, X') \<and> circ X' (sha256_W M) (Suc i)"
proof -
  have n: "X ! ((i + k) mod 16) = sha256_W M (i - 16 + k)" if "k < 16" for k
    by (rule circ_nth [OF assms that])
  have w: "X ! (i mod 16) + (sigma0 (X ! ((i + 1) mod 16)) + sigma1 (X ! ((i + 14) mod 16)) + X ! ((i + 9) mod 16)) = sha256_W M i"
  proof -
    have "i - 16 + 1 = i - 15" "i - 16 + 14 = i - 2" "i - 16 + 9 = i - 7" using assms(2) by simp_all
    then show ?thesis
      unfolding sha256_W_late [OF assms(2), of M] using n [of 0] n [of 1] n [of 14] n [of 9] by (simp only:) simp
  qed
  have "length X = 16" using assms(1) by (simp add: circ_def)
  then have "ROUND_16_63 i (v, X) = (sha256_round M i v, X[i mod 16 := sha256_W M i])"
    unfolding ROUND_16_63_def prod.case Let_def and_15 w by (simp add: ROUND_00_15)
  with circ_Suc [OF assms(1)] show ?thesis by simp
qed

lemma sha256_late_rounds:
  assumes "circ X (sha256_W M) 16"
  shows "16 \<le> n \<Longrightarrow> \<exists>X'. fold ROUND_16_63 [16..<n] (v, X) = (fold (sha256_round M) [16..<n] v, X') \<and>
    circ X' (sha256_W M) n"
proof (induction n rule: dec_induct)
  case base
  then show ?case using assms by simp
next
  case (step n)
  then obtain X' where X': "fold ROUND_16_63 [16..<n] (v, X) = (fold (sha256_round M) [16..<n] v, X')"
    "circ X' (sha256_W M) n" by auto
  from ROUND_16_63 [OF X'(2) step(1), of "fold (sha256_round M) [16..<n] v"] show ?case
    using step(1) by (auto simp: upt_Suc_append X'(1))
qed

lemma fold_rounds_split: "fold f [0..<64] v = fold f [16..<64] (fold f [0..<16] v)" for f :: "nat \<Rightarrow> 'a \<Rightarrow> 'a"
  using upt_add_eq_append [of 0 16 48] by (simp del: upt_rec_numeral)

lemma sha256_block:
  assumes "64 \<le> length M"
  shows "add_vars8 H (fst (fold ROUND_16_63 [16..<64] (fold (sha256_load M) [0..<16] (vars8 H, replicate 16 0)))) =
    sha256_compress H M"
proof -
  obtain X where X: "fold (sha256_load M) [0..<16] (vars8 H, replicate 16 0) = (fold (sha256_round M) [0..<16] (vars8 H), X)"
    "circ X (sha256_W M) 16"
    using sha256_load_rounds [OF assms, where X = "replicate 16 0" and v = "vars8 H" and i = 16] by auto
  from sha256_late_rounds [OF X(2), of 64 "fold (sha256_round M) [0..<16] (vars8 H)"] obtain X' where
    "fold ROUND_16_63 [16..<64] (fold (sha256_round M) [0..<16] (vars8 H), X) =
      (fold (sha256_round M) [16..<64] (fold (sha256_round M) [0..<16] (vars8 H)), X')" by auto
  then show ?thesis unfolding X(1) sha256_compress_def sha2_compress fold_rounds_split [of "sha256_round M"] by (simp only: fst_conv)
qed

lemma sha2_W_cong: "(\<And>t. t < 16 \<Longrightarrow> M t = M' t) \<Longrightarrow> sha2_W s0 s1 M t = sha2_W s0 s1 M' t"
  by (induction t rule: less_induct) (simp add: sha2_W.simps [of _ _ M] sha2_W.simps [of _ _ M'])

lemma sha256_compress_take: "sha256_compress H (take 64 M) = sha256_compress H M"
proof -
  have "sha256_W (take 64 M) t = sha256_W M t" for t
    unfolding sha256_W_def by (rule sha2_W_cong) (simp add: drop_take)
  then have "sha256_W (take 64 M) = sha256_W M" by (rule ext)
  then show ?thesis by (simp only: sha256_compress_def sha256_round_def)
qed

theorem sha256_block_data_order:
  "n * 64 \<le> length d \<Longrightarrow> sha256_block_data_order H d n = run_blocks sha256_compress 64 H d n"
proof (induction n arbitrary: H d)
  case (Suc n)
  have "sha256_block_data_order H d (Suc n) = sha256_block_data_order (sha256_compress H (take 64 d)) (drop 64 d) n"
    unfolding sha256_block_data_order.simps Let_def sha256_compress_take
    using Suc.prems by (subst sha256_block) simp_all
  then show ?case using Suc by simp
qed simp

interpretation sha256: md_block sha256_block_data_order sha256_compress SHA256_CBLOCK
  by unfold_locales (simp_all add: SHA256_CBLOCK_def sha256_block_data_order)

section \<open>The digest\<close>

text \<open>SHA-224 and SHA-256 as FIPS 180-4 defines them: the words of the hash of the padded message, cut to the length of the
  digest.\<close>

definition sha256_digest :: "u32 list \<Rightarrow> nat \<Rightarrow> byte list \<Rightarrow> byte list" where
  "sha256_digest h0 len msg =
     concat (map (\<lambda>w. be_bytes 4 (unat w)) (take (len div 4) (md_hash sha256_compress 64 True h0 msg)))"

definition fips_sha256 :: "byte list \<Rightarrow> byte list" where
  "fips_sha256 msg = sha256_digest fips_256_h 32 msg"

definition fips_sha224 :: "byte list \<Rightarrow> byte list" where
  "fips_sha224 msg = sha256_digest fips_224_h 28 msg"

lemma md_len_update [simp]: "md_len (crypto_md32_update f bs c inp) = md_len c"
  by (simp add: crypto_md32_update_def md32_update_blocks_def Let_def)

lemma md_len_updates [simp]: "md_len (foldl (crypto_md32_update f bs) c ds) = md_len c"
  by (induction ds arbitrary: c) simp_all

lemma md_len_final [simp]: "md_len (crypto_md32_final f bs c be) = md_len c"
  by (simp add: crypto_md32_final_def Let_def split: prod.split)

lemma length_sha256_compress: "length (sha256_compress H M) = 8"
  by (simp add: sha256_compress_def)

lemma length_sha256_hash: "length h0 = 8 \<Longrightarrow> length (md_hash sha256_compress bs be h0 msg) = 8"
  by (simp add: md_hash_def Let_def length_run_blocks length_sha256_compress)

lemma concat_take: "n \<le> length h \<Longrightarrow> concat (map (\<lambda>i. f (h ! i)) [0..<n]) = concat (map f (take n h))"
  by (rule arg_cong [of _ _ concat]) (auto intro: nth_equalityI)

theorem sha256_stream:
  assumes "length h0 = 8" "len \<le> 32"
  shows "fst (sha256_final_impl (foldl SHA256_Update (sha256_ctx_of h0 len) ds)) = Some (sha256_digest h0 len (concat ds))"
proof -
  have u: "SHA256_Update = crypto_md32_update sha256_block_data_order SHA256_CBLOCK"
    by (simp add: fun_eq_iff SHA256_Update_def)
  have h: "md_h (crypto_md32_final sha256_block_data_order SHA256_CBLOCK (foldl SHA256_Update (sha256_ctx_of h0 len) ds) True) =
      md_hash sha256_compress SHA256_CBLOCK True h0 (concat ds)"
    unfolding u by (rule sha256.md_stream) (simp_all add: sha256_ctx_of_def)
  have l: "md_len (foldl SHA256_Update (sha256_ctx_of h0 len) ds) = len" unfolding u by (simp add: sha256_ctx_of_def)
  show ?thesis
    using assms concat_take [of "len div 4" "md_hash sha256_compress SHA256_CBLOCK True h0 (concat ds)" "\<lambda>w. be_bytes 4 (unat w)"]
    by (simp add: sha256_final_impl_def Let_def h l SHA256_DIGEST_LENGTH_def store_u32_be sha256_digest_def
        length_sha256_hash flip: SHA256_CBLOCK_def)
qed

section \<open>Properties\<close>

lemma sha256_streams:
  "fst (SHA256_Final (foldl SHA256_Update SHA256_Init ds)) = Some (fips_sha256 (concat ds))"
  "fst (SHA224_Final (foldl SHA224_Update SHA224_Init ds)) = Some (fips_sha224 (concat ds))"
proof -
  have u: "SHA224_Update = SHA256_Update" by (simp add: fun_eq_iff SHA224_Update_def)
  have i: "SHA256_Init = sha256_ctx_of (md_h SHA256_Init) 32" "length (md_h SHA256_Init) = 8"
    "SHA224_Init = sha256_ctx_of (md_h SHA224_Init) 28" "length (md_h SHA224_Init) = 8"
    by (simp_all add: SHA256_Init_def SHA224_Init_def sha256_ctx_of_def SHA256_DIGEST_LENGTH_def SHA224_DIGEST_LENGTH_def)
  show "fst (SHA256_Final (foldl SHA256_Update SHA256_Init ds)) = Some (fips_sha256 (concat ds))"
    using sha256_stream [OF i(2), of 32 ds] unfolding SHA256_Final_def i(1) [symmetric] unfolding SHA256_Init_fips fips_sha256_def by simp
  show "fst (SHA224_Final (foldl SHA224_Update SHA224_Init ds)) = Some (fips_sha224 (concat ds))"
    using sha256_stream [OF i(4), of 28 ds] unfolding SHA224_Final_def u i(3) [symmetric] unfolding SHA224_Init_fips fips_sha224_def by simp
qed

text \<open>C10: SHA-256 and SHA-224 compute the digests of FIPS 180-4, and a message may be passed in any pieces, empty ones
  included. The specification computes its 64 constants and both initial values from the roots of the primes and has its own
  ``Ch'' and ``Maj'', so the tables and functions of the code are part of what is proved.\<close>

theorem sha256_is_fips:
  "fst (SHA256_Final (foldl SHA256_Update SHA256_Init ds)) = Some (fips_sha256 (concat ds)) \<and>
   fst (SHA224_Final (foldl SHA224_Update SHA224_Init ds)) = Some (fips_sha224 (concat ds))"
  using sha256_streams by blast

text \<open>After any updates the context counts the bits of the message modulo \<open>2 ^ 64\<close> in its two words, holds what
  exceeds the last full block, and keeps the size of its buffer.\<close>

theorem sha256_context:
  "md_bits (md_Nh (foldl SHA256_Update SHA256_Init ds)) (md_Nl (foldl SHA256_Update SHA256_Init ds)) = 8 * length (concat ds) mod 2 ^ 64 \<and>
   md_num (foldl SHA256_Update SHA256_Init ds) = length (concat ds) mod 64 \<and>
   length (md_data (foldl SHA256_Update SHA256_Init ds)) = 64 \<and>
   take (length (concat ds) mod 64) (md_data (foldl SHA256_Update SHA256_Init ds)) = drop (length (concat ds) div 64 * 64) (concat ds)"
proof -
  have u: "SHA256_Update = crypto_md32_update sha256_block_data_order SHA256_CBLOCK"
    by (simp add: fun_eq_iff SHA256_Update_def)
  have "sha256.md_rep (md_h SHA256_Init) [] SHA256_Init"
    unfolding sha256.md_rep_def sha256.absorbed_def
    by (simp add: md_bits_def SHA256_Init_def sha256_ctx_of_def SHA256_CBLOCK_def)
  from sha256.md_rep_updates [OF this, of ds] show ?thesis
    unfolding u sha256.md_rep_def sha256.absorbed_def by (elim conjE) (simp add: SHA256_CBLOCK_def mult.commute)
qed

end
