(* ===== verification/Sha1.thy ===== *)
theory Sha1
  imports Sha256
begin

text \<open>
  SHA-1 (\<^verbatim>\<open>crypto/fipsmodule/sha/sha1.c\<close>, the portable code). The rounds of the block function, unrolled in the code by
  macros, are shown to be those of FIPS 180-4, whose functions and constants the specification writes out for itself, so that the digest operations compute the digest of the standard
  for any sequence of updates.
\<close>

section \<open>The block function\<close>

definition SHA_CBLOCK :: nat where "SHA_CBLOCK = 64"

type_synonym sha_ctx = md32_ctx

text \<open>\<^verbatim>\<open>Xupdate\<close> gives the value it stores both in the schedule and in the working variable.\<close>

definition Xupdate :: "u32 \<Rightarrow> u32 \<Rightarrow> u32 \<Rightarrow> u32 \<Rightarrow> u32" where
  "Xupdate ia ib ic id' = CRYPTO_rotl_u32 (ia XOR ib XOR ic XOR id') 1"

definition K_00_19 :: u32 where "K_00_19 = 0x5a827999"
definition K_20_39 :: u32 where "K_20_39 = 0x6ed9eba1"
definition K_40_59 :: u32 where "K_40_59 = 0x8f1bbcdc"
definition K_60_79 :: u32 where "K_60_79 = 0xca62c1d6"

definition F_00_19 :: "u32 \<Rightarrow> u32 \<Rightarrow> u32 \<Rightarrow> u32" where "F_00_19 b c d = ((c XOR d) AND b) XOR d"
definition F_20_39 :: "u32 \<Rightarrow> u32 \<Rightarrow> u32 \<Rightarrow> u32" where "F_20_39 b c d = b XOR c XOR d"
definition F_40_59 :: "u32 \<Rightarrow> u32 \<Rightarrow> u32 \<Rightarrow> u32" where "F_40_59 b c d = (b AND c) OR ((b OR c) AND d)"
definition F_60_79 :: "u32 \<Rightarrow> u32 \<Rightarrow> u32 \<Rightarrow> u32" where "F_60_79 b c d = F_20_39 b c d"

text \<open>The six working variables are the tuple of the arguments of the next round, which the calls in the code rotate by one
  place. The call of round \<open>t\<close> names the schedule words \<open>t\<close>, \<open>t + 2\<close>, \<open>t + 8\<close> and \<open>t + 13\<close> modulo 16.\<close>

type_synonym vars6 = "u32 \<times> u32 \<times> u32 \<times> u32 \<times> u32 \<times> u32"

fun BODY_00_15 :: "vars6 \<Rightarrow> u32 \<Rightarrow> vars6" where
  "BODY_00_15 (a, b, c, d, e, f) xi =
     (let f = xi + e + K_00_19 + CRYPTO_rotl_u32 a 5 + F_00_19 b c d; b = CRYPTO_rotl_u32 b 30 in (f, a, b, c, d, e))"

definition schedule_update :: "nat \<Rightarrow> u32 list \<Rightarrow> u32" where
  "schedule_update t X = Xupdate (X ! (t mod 16)) (X ! ((t + 2) mod 16)) (X ! ((t + 8) mod 16)) (X ! ((t + 13) mod 16))"

fun BODY_16_19 :: "nat \<Rightarrow> vars6 \<times> u32 list \<Rightarrow> vars6 \<times> u32 list" where
  "BODY_16_19 t ((a, b, c, d, e, f), X) =
     (let f = schedule_update t X; X = X[t mod 16 := f];
          f = f + (e + K_00_19 + CRYPTO_rotl_u32 a 5 + F_00_19 b c d);
          b = CRYPTO_rotl_u32 b 30 in ((f, a, b, c, d, e), X))"

fun BODY_20_31 :: "nat \<Rightarrow> vars6 \<times> u32 list \<Rightarrow> vars6 \<times> u32 list" where
  "BODY_20_31 t ((a, b, c, d, e, f), X) =
     (let f = schedule_update t X; X = X[t mod 16 := f];
          f = f + (e + K_20_39 + CRYPTO_rotl_u32 a 5 + F_20_39 b c d);
          b = CRYPTO_rotl_u32 b 30 in ((f, a, b, c, d, e), X))"

fun BODY_32_39 :: "nat \<Rightarrow> vars6 \<times> u32 list \<Rightarrow> vars6 \<times> u32 list" where
  "BODY_32_39 t ((a, b, c, d, e, f), X) =
     (let f = schedule_update t X; X = X[t mod 16 := f];
          f = f + (e + K_20_39 + CRYPTO_rotl_u32 a 5 + F_20_39 b c d);
          b = CRYPTO_rotl_u32 b 30 in ((f, a, b, c, d, e), X))"

fun BODY_40_59 :: "nat \<Rightarrow> vars6 \<times> u32 list \<Rightarrow> vars6 \<times> u32 list" where
  "BODY_40_59 t ((a, b, c, d, e, f), X) =
     (let f = schedule_update t X; X = X[t mod 16 := f];
          f = f + (e + K_40_59 + CRYPTO_rotl_u32 a 5 + F_40_59 b c d);
          b = CRYPTO_rotl_u32 b 30 in ((f, a, b, c, d, e), X))"

fun BODY_60_79 :: "nat \<Rightarrow> vars6 \<times> u32 list \<Rightarrow> vars6 \<times> u32 list" where
  "BODY_60_79 t ((a, b, c, d, e, f), X) =
     (let f = schedule_update t X; X = X[t mod 16 := f];
          f = X ! (t mod 16) + e + K_60_79 + CRYPTO_rotl_u32 a 5 + F_60_79 b c d;
          b = CRYPTO_rotl_u32 b 30 in ((f, a, b, c, d, e), X))"

definition sha1_load :: "byte list \<Rightarrow> nat \<Rightarrow> vars6 \<times> u32 list \<Rightarrow> vars6 \<times> u32 list" where
  "sha1_load data i vX =
     (case vX of (v, X) \<Rightarrow> let X = X[i := CRYPTO_load_u32_be (drop (4 * i) data)] in (BODY_00_15 v (X ! i), X))"

fun sha1_add :: "u32 list \<Rightarrow> vars6 \<Rightarrow> u32 list" where
  "sha1_add state (a, b, c, d, e, f) =
     [state ! 0 + a, state ! 1 + b, state ! 2 + c, state ! 3 + d, state ! 4 + e]"

definition sha1_one_block :: "u32 list \<Rightarrow> byte list \<Rightarrow> u32 list" where
  "sha1_one_block state data =
     (let A = state ! 0; B = state ! 1; C = state ! 2; D = state ! 3; E = state ! 4;
          vX = fold (sha1_load data) [0..<16] ((A, B, C, D, E, 0), replicate 16 0);
          vX = fold BODY_16_19 [16..<20] vX;
          vX = fold BODY_20_31 [20..<32] vX;
          vX = fold BODY_32_39 [32..<40] vX;
          vX = fold BODY_40_59 [40..<60] vX;
          vX = fold BODY_60_79 [60..<80] vX
      in sha1_add state (fst vX))"

text \<open>The loop runs at least once: the callers pass one block or more.\<close>

fun sha1_block_data_order :: crypto_md32_block_func where
  "sha1_block_data_order state data 0 = state"
| "sha1_block_data_order state data (Suc num) = sha1_block_data_order (sha1_one_block state data) (drop 64 data) num"

section \<open>Operations\<close>

definition SHA1_Init :: sha_ctx where
  "SHA1_Init =
     \<lparr>md_h = [0x67452301, 0xefcdab89, 0x98badcfe, 0x10325476, 0xc3d2e1f0], md_Nl = 0, md_Nh = 0,
      md_data = replicate SHA_CBLOCK 0, md_num = 0\<rparr>"

definition SHA1_Transform :: "sha_ctx \<Rightarrow> byte list \<Rightarrow> sha_ctx" where
  "SHA1_Transform c data = c\<lparr>md_h := sha1_block_data_order (md_h c) data 1\<rparr>"

definition SHA1_Update :: "sha_ctx \<Rightarrow> byte list \<Rightarrow> sha_ctx" where
  "SHA1_Update c data = crypto_md32_update sha1_block_data_order SHA_CBLOCK c data"

definition SHA1_Final :: "sha_ctx \<Rightarrow> byte list \<times> sha_ctx" where
  "SHA1_Final c =
     (let c = crypto_md32_final sha1_block_data_order SHA_CBLOCK c True in
      (CRYPTO_store_u32_be (md_h c ! 0) @ CRYPTO_store_u32_be (md_h c ! 1) @ CRYPTO_store_u32_be (md_h c ! 2) @
       CRYPTO_store_u32_be (md_h c ! 3) @ CRYPTO_store_u32_be (md_h c ! 4), c))"

definition SHA1 :: "byte list \<Rightarrow> byte list" where
  "SHA1 data = fst (SHA1_Final (SHA1_Update SHA1_Init data))"

section \<open>The specification\<close>

text \<open>The compression function of FIPS 180-4, sections 4.1.1, 4.2.1, 5.3.1 and 6.1.\<close>

fun sha1_W :: "(nat \<Rightarrow> u32) \<Rightarrow> nat \<Rightarrow> u32" where
  "sha1_W M t =
     (if t < 16 then M t
      else word_rotl 1 (sha1_W M (t - 3) XOR sha1_W M (t - 8) XOR sha1_W M (t - 14) XOR sha1_W M (t - 16)))"

declare sha1_W.simps [simp del]

definition sha1_f :: "nat \<Rightarrow> u32 \<Rightarrow> u32 \<Rightarrow> u32 \<Rightarrow> u32" where
  "sha1_f t x y z =
     (if t < 20 then (x AND y) XOR (NOT x AND z)
      else if t < 40 then x XOR y XOR z
      else if t < 60 then (x AND y) XOR (x AND z) XOR (y AND z)
      else x XOR y XOR z)"

definition sha1_K :: "nat \<Rightarrow> u32" where
  "sha1_K t = (if t < 20 then 0x5a827999 else if t < 40 then 0x6ed9eba1 else if t < 60 then 0x8f1bbcdc else 0xca62c1d6)"

definition sha1_words :: "byte list \<Rightarrow> nat \<Rightarrow> u32" where
  "sha1_words M = sha1_W (\<lambda>t. word_of_nat (be_val (take 4 (drop (4 * t) M))))"

type_synonym vars5 = "u32 \<times> u32 \<times> u32 \<times> u32 \<times> u32"

fun sha1_round :: "byte list \<Rightarrow> nat \<Rightarrow> vars5 \<Rightarrow> vars5" where
  "sha1_round M t (a, b, c, d, e) =
     (word_rotl 5 a + sha1_f t b c d + e + sha1_K t + sha1_words M t, a, word_rotl 30 b, c, d)"

definition sha1_compress :: "u32 list \<Rightarrow> byte list \<Rightarrow> u32 list" where
  "sha1_compress H M =
     (case fold (sha1_round M) [0..<80] (H ! 0, H ! 1, H ! 2, H ! 3, H ! 4) of
        (a, b, c, d, e) \<Rightarrow> [H ! 0 + a, H ! 1 + b, H ! 2 + c, H ! 3 + d, H ! 4 + e])"

definition fips_sha1_h :: "u32 list" where
  "fips_sha1_h = [0x67452301] @ [0xefcdab89] @ [0x98badcfe] @ [0x10325476] @ [0xc3d2e1f0]"

lemma SHA1_Init_fips: "md_h SHA1_Init = fips_sha1_h"
  by (simp add: SHA1_Init_def fips_sha1_h_def)

section \<open>The block function implements it\<close>

lemma F_00_19: "F_00_19 b c d = (b AND c) XOR (NOT b AND d)"
  by (rule bit_word_eqI) (auto simp: F_00_19_def bit_simps)

lemma F_40_59: "F_40_59 b c d = (b AND c) XOR (b AND d) XOR (c AND d)"
  by (rule bit_word_eqI) (auto simp: F_40_59_def bit_simps)

lemma sha1_words_early: "t < 16 \<Longrightarrow> sha1_words M t = word_of_nat (be_val (take 4 (drop (4 * t) M)))"
  by (simp add: sha1_words_def sha1_W.simps)

lemma schedule_update:
  assumes "circ X (sha1_words M) t" "16 \<le> t"
  shows "schedule_update t X = sha1_words M t"
proof -
  have n: "X ! ((t + k) mod 16) = sha1_words M (t - 16 + k)" if "k < 16" for k
    by (rule circ_nth [OF assms that])
  have "t - 16 + 2 = t - 14" "t - 16 + 8 = t - 8" "t - 16 + 13 = t - 3" using assms(2) by simp_all
  then have "schedule_update t X =
      word_rotl 1 (sha1_words M (t - 16) XOR sha1_words M (t - 14) XOR sha1_words M (t - 8) XOR sha1_words M (t - 3))"
    unfolding schedule_update_def Xupdate_def using n [of 0] n [of 2] n [of 8] n [of 13] by (simp add: rotl_u32)
  also have "\<dots> = sha1_words M t"
    unfolding sha1_words_def using assms(2) by (subst (5) sha1_W.simps) (simp add: xor.commute xor.left_commute)
  finally show ?thesis .
qed

text \<open>The first five of the six variables are those of the standard.\<close>

definition five :: "vars6 \<Rightarrow> vars5" where
  "five v = (case v of (a, b, c, d, e, f) \<Rightarrow> (a, b, c, d, e))"

lemma sha1_load_rounds:
  assumes "64 \<le> length M" "length X = 16"
  shows "i \<le> 16 \<Longrightarrow> \<exists>v' X'. fold (sha1_load M) [0..<i] (v, X) = (v', X') \<and> five v' = fold (sha1_round M) [0..<i] (five v) \<and>
    circ X' (sha1_words M) i"
proof (induction i)
  case 0
  then show ?case by (simp add: circ_0 assms)
next
  case (Suc i)
  then obtain v' X' where IH: "fold (sha1_load M) [0..<i] (v, X) = (v', X')" "five v' = fold (sha1_round M) [0..<i] (five v)"
    "circ X' (sha1_words M) i" by auto
  have w: "CRYPTO_load_u32_be (drop (4 * i) M) = sha1_words M i"
    using Suc.prems assms(1) by (simp add: sha1_words_early load_u32_be)
  have i: "i < length X'" "i mod 16 = i" using IH(3) Suc.prems by (simp_all add: circ_def)
  have c: "circ (X'[i := sha1_words M i]) (sha1_words M) (Suc i)" using circ_Suc [OF IH(3)] i(2) by metis
  obtain a b c d e f where v': "v' = (a, b, c, d, e, f)" by (metis surj_pair)
  have "five (BODY_00_15 v' (sha1_words M i)) = sha1_round M i (five v')"
    using Suc.prems
    by (simp add: v' five_def Let_def F_00_19 sha1_f_def sha1_K_def K_00_19_def rotl_u32 add.commute add.left_commute)
  moreover have "sha1_load M i (v', X') = (BODY_00_15 v' (sha1_words M i), X'[i := sha1_words M i])"
    using i(1) by (simp add: sha1_load_def w Let_def)
  ultimately show ?case
    using c by (intro exI [of _ "BODY_00_15 v' (sha1_words M i)"] exI [of _ "X'[i := sha1_words M i]"]) (simp add: IH(1,2))
qed

lemma circ_update_nth: "circ X W i \<Longrightarrow> X[i mod 16 := w] ! (i mod 16) = w"
  by (simp add: circ_def)

text \<open>A later round, whichever of the macros it uses.\<close>

definition implements_round :: "(nat \<Rightarrow> vars6 \<times> u32 list \<Rightarrow> vars6 \<times> u32 list) \<Rightarrow> nat \<Rightarrow> bool" where
  "implements_round body t \<longleftrightarrow>
     (\<forall>M v X. circ X (sha1_words M) t \<longrightarrow>
        (\<exists>v' X'. body t (v, X) = (v', X') \<and> five v' = sha1_round M t (five v) \<and> circ X' (sha1_words M) (Suc t)))"

lemma bodies:
  "16 \<le> t \<Longrightarrow> t < 20 \<Longrightarrow> implements_round BODY_16_19 t"
  "20 \<le> t \<Longrightarrow> t < 32 \<Longrightarrow> implements_round BODY_20_31 t"
  "32 \<le> t \<Longrightarrow> t < 40 \<Longrightarrow> implements_round BODY_32_39 t"
  "40 \<le> t \<Longrightarrow> t < 60 \<Longrightarrow> implements_round BODY_40_59 t"
  "60 \<le> t \<Longrightarrow> implements_round BODY_60_79 t"
  unfolding implements_round_def
  by (auto simp: five_def Let_def schedule_update F_00_19 F_40_59 F_20_39_def F_60_79_def sha1_f_def sha1_K_def
      K_00_19_def K_20_39_def K_40_59_def K_60_79_def rotl_u32 circ_Suc circ_update_nth add.commute add.left_commute split: prod.split)
lemma later_rounds:
  assumes "\<And>t. m \<le> t \<Longrightarrow> t < n \<Longrightarrow> implements_round body t" "circ X (sha1_words M) m"
  shows "m \<le> k \<Longrightarrow> k \<le> n \<Longrightarrow>
    \<exists>v' X'. fold body [m..<k] (v, X) = (v', X') \<and> five v' = fold (sha1_round M) [m..<k] (five v) \<and> circ X' (sha1_words M) k"
proof (induction k rule: dec_induct)
  case base
  then show ?case using assms(2) by simp
next
  case (step k)
  then obtain v' X' where IH: "fold body [m..<k] (v, X) = (v', X')" "five v' = fold (sha1_round M) [m..<k] (five v)"
    "circ X' (sha1_words M) k" by auto
  have "implements_round body k" using assms(1) step.hyps(1) step.prems by simp
  with IH(3) obtain v2 X2 where
    b: "body k (v', X') = (v2, X2)" "five v2 = sha1_round M k (five v')" "circ X2 (sha1_words M) (Suc k)"
    unfolding implements_round_def by meson
  have "fold body [m..<Suc k] (v, X) = (v2, X2)" "five v2 = fold (sha1_round M) [m..<Suc k] (five v)"
    unfolding upt_Suc_append [OF step.hyps(1)] by (simp_all add: IH b)
  with b(3) show ?case by blast
qed

lemma fold_upt_split: "m \<le> k \<Longrightarrow> k \<le> n \<Longrightarrow> fold f [m..<n] v = fold f [k..<n] (fold f [m..<k] v)"
  by (metis fold_append comp_apply upt_add_eq_append le_add_diff_inverse)

lemma sha1_one_block:
  assumes "64 \<le> length M"
  shows "sha1_one_block H M = sha1_compress H M"
proof -
  define v0 where "v0 = (H ! 0, H ! 1, H ! 2, H ! 3, H ! 4, 0 :: u32)"
  from sha1_load_rounds [OF assms, where X = "replicate 16 0" and v = v0 and i = 16] obtain v1 X1 where
    1: "fold (sha1_load M) [0..<16] (v0, replicate 16 0) = (v1, X1)" "five v1 = fold (sha1_round M) [0..<16] (five v0)"
      "circ X1 (sha1_words M) 16" by auto
  from later_rounds [of 16 20 BODY_16_19 X1 M 20 v1] bodies(1) 1(3) obtain v2 X2 where
    2: "fold BODY_16_19 [16..<20] (v1, X1) = (v2, X2)" "five v2 = fold (sha1_round M) [16..<20] (five v1)"
      "circ X2 (sha1_words M) 20" by auto
  from later_rounds [of 20 32 BODY_20_31 X2 M 32 v2] bodies(2) 2(3) obtain v3 X3 where
    3: "fold BODY_20_31 [20..<32] (v2, X2) = (v3, X3)" "five v3 = fold (sha1_round M) [20..<32] (five v2)"
      "circ X3 (sha1_words M) 32" by auto
  from later_rounds [of 32 40 BODY_32_39 X3 M 40 v3] bodies(3) 3(3) obtain v4 X4 where
    4: "fold BODY_32_39 [32..<40] (v3, X3) = (v4, X4)" "five v4 = fold (sha1_round M) [32..<40] (five v3)"
      "circ X4 (sha1_words M) 40" by auto
  from later_rounds [of 40 60 BODY_40_59 X4 M 60 v4] bodies(4) 4(3) obtain v5 X5 where
    5: "fold BODY_40_59 [40..<60] (v4, X4) = (v5, X5)" "five v5 = fold (sha1_round M) [40..<60] (five v4)"
      "circ X5 (sha1_words M) 60" by auto
  from later_rounds [of 60 80 BODY_60_79 X5 M 80 v5] bodies(5) 5(3) obtain v6 X6 where
    6: "fold BODY_60_79 [60..<80] (v5, X5) = (v6, X6)" "five v6 = fold (sha1_round M) [60..<80] (five v5)"
    by auto
  have "five v6 = fold (sha1_round M) [0..<80] (five v0)"
    unfolding 6(2) 5(2) 4(2) 3(2) 2(2) 1(2)
    by (simp only: fold_upt_split [of 0 60 80] fold_upt_split [of 0 40 60] fold_upt_split [of 0 32 40]
        fold_upt_split [of 0 20 32] fold_upt_split [of 0 16 20] order.refl zero_le)
  moreover obtain a b c d e f where v6: "v6 = (a, b, c, d, e, f)" by (metis surj_pair)
  ultimately have "fold (sha1_round M) [0..<80] (H ! 0, H ! 1, H ! 2, H ! 3, H ! 4) = (a, b, c, d, e)"
    by (simp only: five_def v0_def prod.case)
  then show ?thesis
    unfolding sha1_one_block_def Let_def v0_def [symmetric] 1(1) 2(1) 3(1) 4(1) 5(1) 6(1)
    unfolding sha1_compress_def by (simp only: v6 fst_conv sha1_add.simps prod.case)
qed

lemma sha1_W_cong: "(\<And>t. t < 16 \<Longrightarrow> M t = M' t) \<Longrightarrow> sha1_W M t = sha1_W M' t"
  by (induction t rule: less_induct) (simp add: sha1_W.simps [of M] sha1_W.simps [of M'])

lemma sha1_compress_take: "sha1_compress H (take 64 M) = sha1_compress H M"
proof -
  have "sha1_words (take 64 M) t = sha1_words M t" for t
    unfolding sha1_words_def by (rule sha1_W_cong) (simp add: drop_take)
  then have "sha1_round (take 64 M) t v = sha1_round M t v" for t v
    by (cases "(M, t, v)" rule: sha1_round.cases) simp
  then have "sha1_round (take 64 M) = sha1_round M" by (intro ext)
  then show ?thesis by (simp only: sha1_compress_def)
qed

theorem sha1_block_data_order:
  "n * 64 \<le> length d \<Longrightarrow> sha1_block_data_order H d n = run_blocks sha1_compress 64 H d n"
proof (induction n arbitrary: H d)
  case (Suc n)
  then show ?case by (simp add: sha1_one_block sha1_compress_take)
qed simp

interpretation sha1: md_block sha1_block_data_order sha1_compress SHA_CBLOCK
  by unfold_locales (simp_all add: SHA_CBLOCK_def sha1_block_data_order)

section \<open>The digest\<close>

definition sha1_digest :: "byte list \<Rightarrow> byte list" where
  "sha1_digest msg = concat (map (\<lambda>w. be_bytes 4 (unat w)) (md_hash sha1_compress 64 True fips_sha1_h msg))"

lemma length_sha1_hash: "length h0 = 5 \<Longrightarrow> length (md_hash sha1_compress bs be h0 msg) = 5"
  by (simp add: md_hash_def Let_def length_run_blocks sha1_compress_def split: prod.split)

theorem sha1_stream: "fst (SHA1_Final (foldl SHA1_Update SHA1_Init ds)) = sha1_digest (concat ds)"
proof -
  have u: "SHA1_Update = crypto_md32_update sha1_block_data_order SHA_CBLOCK"
    by (simp add: fun_eq_iff SHA1_Update_def)
  define h where "h = md_hash sha1_compress SHA_CBLOCK True fips_sha1_h (concat ds)"
  have e: "md_h (crypto_md32_final sha1_block_data_order SHA_CBLOCK (foldl SHA1_Update SHA1_Init ds) True) = h"
    unfolding u h_def SHA1_Init_fips [symmetric] by (rule sha1.md_stream) (simp_all add: SHA1_Init_def)
  have "length h = 5" by (simp add: h_def length_sha1_hash fips_sha1_h_def)
  then obtain a b c d e where "h = [a, b, c, d, e]" by (auto simp: length_Suc_conv eval_nat_numeral)
  then show ?thesis by (simp add: SHA1_Final_def Let_def e store_u32_be sha1_digest_def flip: SHA_CBLOCK_def h_def)
qed

end
