(* ===== verification/Md5.thy ===== *)
theory Md5
  imports Sha1
begin

text \<open>
  MD4 and MD5 (\<^verbatim>\<open>crypto/fipsmodule/md4/md4.c\<close>, \<^verbatim>\<open>crypto/fipsmodule/md5/md5.c\<close>, the portable code). The rounds that the
  code unrolls by macros are tables of calls here; they are shown to be the steps of RFC 1320 and RFC 1321, whose words
  and shifts are formulas in the number of the step and whose functions, constants and initial words the specification
  writes out for itself. Both block functions are interpretations of the locale \<open>md_block\<close>,
  so that the digest operations compute the digest of the standard for any sequence of updates.
\<close>

section \<open>Rounds\<close>

text \<open>The four working variables are the tuple of the arguments of the next call: the calls in the code name them rotated by one
  place each time. \<open>words\<close> are the sixteen variables the code loads the block into.\<close>

type_synonym vars4 = "u32 \<times> u32 \<times> u32 \<times> u32"

definition le_words :: "byte list \<Rightarrow> u32 list" where
  "le_words data = map (\<lambda>i. CRYPTO_load_u32_le (drop (4 * i) data)) [0..<16]"

fun add_vars4 :: "u32 list \<Rightarrow> vars4 \<Rightarrow> u32 list" where
  "add_vars4 state (a, b, c, d) = [state ! 0 + a, state ! 1 + b, state ! 2 + c, state ! 3 + d]"

definition md_initial :: "u32 list" where
  "md_initial = concat [[0x67452301, 0xefcdab89], [0x98badcfe, 0x10325476]]"

subsection \<open>MD4\<close>

definition MD4_CBLOCK :: nat where "MD4_CBLOCK = 64"

definition MD4_F :: "u32 \<Rightarrow> u32 \<Rightarrow> u32 \<Rightarrow> u32" where "MD4_F b c d = ((c XOR d) AND b) XOR d"
definition MD4_G :: "u32 \<Rightarrow> u32 \<Rightarrow> u32 \<Rightarrow> u32" where "MD4_G b c d = (b AND c) OR (b AND d) OR (c AND d)"
definition MD4_H :: "u32 \<Rightarrow> u32 \<Rightarrow> u32 \<Rightarrow> u32" where "MD4_H b c d = b XOR c XOR d"

text \<open>The three macros differ in the function only.\<close>

fun MD4_R :: "(u32 \<Rightarrow> u32 \<Rightarrow> u32 \<Rightarrow> u32) \<Rightarrow> u32 \<Rightarrow> nat \<Rightarrow> u32 \<Rightarrow> vars4 \<Rightarrow> vars4" where
  "MD4_R f k s t (a, b, c, d) =
     (let a = a + (k + t + f b c d);
          a = CRYPTO_rotl_u32 a s
      in (d, a, b, c))"

text \<open>The calls of the three rounds: the word and the shift.\<close>

definition md4_calls_0 :: "(nat \<times> nat) list" where
  "md4_calls_0 = concat
    [[(0, 3), (1, 7), (2, 11), (3, 19), (4, 3), (5, 7), (6, 11), (7, 19)],
     [(8, 3), (9, 7), (10, 11), (11, 19), (12, 3), (13, 7), (14, 11), (15, 19)]]"

definition md4_calls_1 :: "(nat \<times> nat) list" where
  "md4_calls_1 = concat
    [[(0, 3), (4, 5), (8, 9), (12, 13), (1, 3), (5, 5), (9, 9), (13, 13)],
     [(2, 3), (6, 5), (10, 9), (14, 13), (3, 3), (7, 5), (11, 9), (15, 13)]]"

definition md4_calls_2 :: "(nat \<times> nat) list" where
  "md4_calls_2 = concat
    [[(0, 3), (8, 9), (4, 11), (12, 15), (2, 3), (10, 9), (6, 11), (14, 15)],
     [(1, 3), (9, 9), (5, 11), (13, 15), (3, 3), (11, 9), (7, 11), (15, 15)]]"

definition md4_one_block :: "u32 list \<Rightarrow> byte list \<Rightarrow> u32 list" where
  "md4_one_block state data =
     (let X = le_words data;
          v = (state ! 0, state ! 1, state ! 2, state ! 3);
          v = fold (\<lambda>(k, s). MD4_R MD4_F (X ! k) s 0) md4_calls_0 v;
          v = fold (\<lambda>(k, s). MD4_R MD4_G (X ! k) s 0x5A827999) md4_calls_1 v;
          v = fold (\<lambda>(k, s). MD4_R MD4_H (X ! k) s 0x6ED9EBA1) md4_calls_2 v
      in add_vars4 state v)"

fun md4_block_data_order :: crypto_md32_block_func where
  "md4_block_data_order state data 0 = state"
| "md4_block_data_order state data (Suc num) = md4_block_data_order (md4_one_block state data) (drop 64 data) num"

subsection \<open>MD5\<close>

definition MD5_CBLOCK :: nat where "MD5_CBLOCK = 64"

definition MD5_F :: "u32 \<Rightarrow> u32 \<Rightarrow> u32 \<Rightarrow> u32" where "MD5_F b c d = ((c XOR d) AND b) XOR d"
definition MD5_G :: "u32 \<Rightarrow> u32 \<Rightarrow> u32 \<Rightarrow> u32" where "MD5_G b c d = ((b XOR c) AND d) XOR c"
definition MD5_H :: "u32 \<Rightarrow> u32 \<Rightarrow> u32 \<Rightarrow> u32" where "MD5_H b c d = b XOR c XOR d"
definition MD5_I :: "u32 \<Rightarrow> u32 \<Rightarrow> u32 \<Rightarrow> u32" where "MD5_I b c d = (NOT d OR b) XOR c"

fun MD5_R :: "(u32 \<Rightarrow> u32 \<Rightarrow> u32 \<Rightarrow> u32) \<Rightarrow> u32 \<Rightarrow> nat \<Rightarrow> u32 \<Rightarrow> vars4 \<Rightarrow> vars4" where
  "MD5_R f k s t (a, b, c, d) =
     (let a = a + (k + t + f b c d);
          a = CRYPTO_rotl_u32 a s;
          a = a + b
      in (d, a, b, c))"

text \<open>The calls of the four rounds: the word, the shift and the constant.\<close>

definition md5_calls_0 :: "(nat \<times> nat \<times> u32) list" where
  "md5_calls_0 = concat
    [[(0, 7, 0xd76aa478), (1, 12, 0xe8c7b756), (2, 17, 0x242070db), (3, 22, 0xc1bdceee)],
     [(4, 7, 0xf57c0faf), (5, 12, 0x4787c62a), (6, 17, 0xa8304613), (7, 22, 0xfd469501)],
     [(8, 7, 0x698098d8), (9, 12, 0x8b44f7af), (10, 17, 0xffff5bb1), (11, 22, 0x895cd7be)],
     [(12, 7, 0x6b901122), (13, 12, 0xfd987193), (14, 17, 0xa679438e), (15, 22, 0x49b40821)]]"

definition md5_calls_1 :: "(nat \<times> nat \<times> u32) list" where
  "md5_calls_1 = concat
    [[(1, 5, 0xf61e2562), (6, 9, 0xc040b340), (11, 14, 0x265e5a51), (0, 20, 0xe9b6c7aa)],
     [(5, 5, 0xd62f105d), (10, 9, 0x02441453), (15, 14, 0xd8a1e681), (4, 20, 0xe7d3fbc8)],
     [(9, 5, 0x21e1cde6), (14, 9, 0xc33707d6), (3, 14, 0xf4d50d87), (8, 20, 0x455a14ed)],
     [(13, 5, 0xa9e3e905), (2, 9, 0xfcefa3f8), (7, 14, 0x676f02d9), (12, 20, 0x8d2a4c8a)]]"

definition md5_calls_2 :: "(nat \<times> nat \<times> u32) list" where
  "md5_calls_2 = concat
    [[(5, 4, 0xfffa3942), (8, 11, 0x8771f681), (11, 16, 0x6d9d6122), (14, 23, 0xfde5380c)],
     [(1, 4, 0xa4beea44), (4, 11, 0x4bdecfa9), (7, 16, 0xf6bb4b60), (10, 23, 0xbebfbc70)],
     [(13, 4, 0x289b7ec6), (0, 11, 0xeaa127fa), (3, 16, 0xd4ef3085), (6, 23, 0x04881d05)],
     [(9, 4, 0xd9d4d039), (12, 11, 0xe6db99e5), (15, 16, 0x1fa27cf8), (2, 23, 0xc4ac5665)]]"

definition md5_calls_3 :: "(nat \<times> nat \<times> u32) list" where
  "md5_calls_3 = concat
    [[(0, 6, 0xf4292244), (7, 10, 0x432aff97), (14, 15, 0xab9423a7), (5, 21, 0xfc93a039)],
     [(12, 6, 0x655b59c3), (3, 10, 0x8f0ccc92), (10, 15, 0xffeff47d), (1, 21, 0x85845dd1)],
     [(8, 6, 0x6fa87e4f), (15, 10, 0xfe2ce6e0), (6, 15, 0xa3014314), (13, 21, 0x4e0811a1)],
     [(4, 6, 0xf7537e82), (11, 10, 0xbd3af235), (2, 15, 0x2ad7d2bb), (9, 21, 0xeb86d391)]]"

definition md5_round_of :: "u32 list \<Rightarrow> (u32 \<Rightarrow> u32 \<Rightarrow> u32 \<Rightarrow> u32) \<Rightarrow> nat \<times> nat \<times> u32 \<Rightarrow> vars4 \<Rightarrow> vars4" where
  "md5_round_of X f = (\<lambda>(k, s, t). MD5_R f (X ! k) s t)"

definition md5_one_block :: "u32 list \<Rightarrow> byte list \<Rightarrow> u32 list" where
  "md5_one_block state data =
     (let X = le_words data;
          v = (state ! 0, state ! 1, state ! 2, state ! 3);
          v = fold (md5_round_of X MD5_F) md5_calls_0 v;
          v = fold (md5_round_of X MD5_G) md5_calls_1 v;
          v = fold (md5_round_of X MD5_H) md5_calls_2 v;
          v = fold (md5_round_of X MD5_I) md5_calls_3 v
      in add_vars4 state v)"

fun md5_block_data_order :: crypto_md32_block_func where
  "md5_block_data_order state data 0 = state"
| "md5_block_data_order state data (Suc num) = md5_block_data_order (md5_one_block state data) (drop 64 data) num"

section \<open>Operations\<close>

type_synonym md_ctx = md32_ctx

definition store_state_le :: "u32 list \<Rightarrow> byte list" where
  "store_state_le h = CRYPTO_store_u32_le (h ! 0) @ CRYPTO_store_u32_le (h ! 1) @ CRYPTO_store_u32_le (h ! 2) @ CRYPTO_store_u32_le (h ! 3)"

definition MD4_Init :: md_ctx where
  "MD4_Init = \<lparr>md_h = md_initial, md_Nl = 0, md_Nh = 0, md_data = replicate MD4_CBLOCK 0, md_num = 0\<rparr>"

definition MD4_Transform :: "md_ctx \<Rightarrow> byte list \<Rightarrow> md_ctx" where
  "MD4_Transform c data = c\<lparr>md_h := md4_block_data_order (md_h c) data 1\<rparr>"

definition MD4_Update :: "md_ctx \<Rightarrow> byte list \<Rightarrow> md_ctx" where
  "MD4_Update c data = crypto_md32_update md4_block_data_order MD4_CBLOCK c data"

definition MD4_Final :: "md_ctx \<Rightarrow> byte list \<times> md_ctx" where
  "MD4_Final c = (let c = crypto_md32_final md4_block_data_order MD4_CBLOCK c False in (store_state_le (md_h c), c))"

definition MD4 :: "byte list \<Rightarrow> byte list" where
  "MD4 data = fst (MD4_Final (MD4_Update MD4_Init data))"

definition MD5_Init :: md_ctx where
  "MD5_Init = \<lparr>md_h = md_initial, md_Nl = 0, md_Nh = 0, md_data = replicate MD5_CBLOCK 0, md_num = 0\<rparr>"

definition MD5_Transform :: "md_ctx \<Rightarrow> byte list \<Rightarrow> md_ctx" where
  "MD5_Transform c data = c\<lparr>md_h := md5_block_data_order (md_h c) data 1\<rparr>"

definition MD5_Update :: "md_ctx \<Rightarrow> byte list \<Rightarrow> md_ctx" where
  "MD5_Update c data = crypto_md32_update md5_block_data_order MD5_CBLOCK c data"

definition MD5_Final :: "md_ctx \<Rightarrow> byte list \<times> md_ctx" where
  "MD5_Final c = (let c = crypto_md32_final md5_block_data_order MD5_CBLOCK c False in (store_state_le (md_h c), c))"

definition MD5 :: "byte list \<Rightarrow> byte list" where
  "MD5 data = fst (MD5_Final (MD5_Update MD5_Init data))"

section \<open>The specification\<close>

text \<open>RFC 1320 and RFC 1321: step \<open>i\<close> with the word and the shift given by its number. The initial words are given by their
  bytes, the lowest first, as the RFCs give them.\<close>

definition rfc_initial :: "u32 list" where
  "rfc_initial = map (\<lambda>bs. word_of_nat (be_val (rev bs)))
     [[0x01, 0x23, 0x45, 0x67], [0x89, 0xab, 0xcd, 0xef], [0xfe, 0xdc, 0xba, 0x98], [0x76, 0x54, 0x32, 0x10]]"

lemma md_initial_rfc: "md_initial = rfc_initial"
  by (simp add: md_initial_def rfc_initial_def be_val_def)

text \<open>The words a block leads to are added to the words it began with.\<close>

definition add_words4 :: "vars4 \<Rightarrow> u32 list \<Rightarrow> u32 list" where
  "add_words4 v H = (case v of (a, b, c, d) \<Rightarrow> [a + H ! 0, b + H ! 1, c + H ! 2, d + H ! 3])"

lemma add_words4: "add_vars4 H v = add_words4 v H"
  by (cases "(H, v)" rule: add_vars4.cases) (simp add: add_words4_def add.commute)

definition block_word :: "byte list \<Rightarrow> nat \<Rightarrow> u32" where
  "block_word M i = word_of_nat (be_val (rev (take 4 (drop (4 * i) M))))"

definition md4_word :: "nat \<Rightarrow> nat" where
  "md4_word i =
     (if i < 16 then i
      else if i < 32 then 4 * (i mod 4) + i div 4 mod 4
      else 8 * (i mod 2) + 4 * (i div 2 mod 2) + 2 * (i div 4 mod 2) + i div 8 mod 2)"

definition md4_shift :: "nat \<Rightarrow> nat" where
  "md4_shift i = (if i < 16 then [3, 7, 11, 19] else if i < 32 then [3, 5, 9, 13] else [3, 9, 11, 15]) ! (i mod 4)"

definition md4_fun :: "nat \<Rightarrow> u32 \<Rightarrow> u32 \<Rightarrow> u32 \<Rightarrow> u32" where
  "md4_fun i x y z = (if i < 16 then (x AND y) OR (NOT x AND z) else if i < 32 then (x AND y) OR (x AND z) OR (y AND z) else x XOR y XOR z)"

definition md4_const :: "nat \<Rightarrow> u32" where
  "md4_const i = (if i < 16 then 0 else if i < 32 then 0x5a827999 else 0x6ed9eba1)"

definition md4_step :: "byte list \<Rightarrow> nat \<Rightarrow> vars4 \<Rightarrow> vars4" where
  "md4_step M i = (\<lambda>(a, b, c, d).
     (d, word_rotl (md4_shift i) (a + md4_fun i b c d + block_word M (md4_word i) + md4_const i), b, c))"

definition md4_compress :: "u32 list \<Rightarrow> byte list \<Rightarrow> u32 list" where
  "md4_compress H M = add_words4 (fold (md4_step M) [0..<48] (H ! 0, H ! 1, H ! 2, H ! 3)) H"

definition md5_T :: "u32 list" where
  "md5_T = concat
    [[0xd76aa478, 0xe8c7b756, 0x242070db, 0xc1bdceee],
     [0xf57c0faf, 0x4787c62a, 0xa8304613, 0xfd469501],
     [0x698098d8, 0x8b44f7af, 0xffff5bb1, 0x895cd7be],
     [0x6b901122, 0xfd987193, 0xa679438e, 0x49b40821],
     [0xf61e2562, 0xc040b340, 0x265e5a51, 0xe9b6c7aa],
     [0xd62f105d, 0x02441453, 0xd8a1e681, 0xe7d3fbc8],
     [0x21e1cde6, 0xc33707d6, 0xf4d50d87, 0x455a14ed],
     [0xa9e3e905, 0xfcefa3f8, 0x676f02d9, 0x8d2a4c8a],
     [0xfffa3942, 0x8771f681, 0x6d9d6122, 0xfde5380c],
     [0xa4beea44, 0x4bdecfa9, 0xf6bb4b60, 0xbebfbc70],
     [0x289b7ec6, 0xeaa127fa, 0xd4ef3085, 0x04881d05],
     [0xd9d4d039, 0xe6db99e5, 0x1fa27cf8, 0xc4ac5665],
     [0xf4292244, 0x432aff97, 0xab9423a7, 0xfc93a039],
     [0x655b59c3, 0x8f0ccc92, 0xffeff47d, 0x85845dd1],
     [0x6fa87e4f, 0xfe2ce6e0, 0xa3014314, 0x4e0811a1],
     [0xf7537e82, 0xbd3af235, 0x2ad7d2bb, 0xeb86d391]]"

definition md5_word :: "nat \<Rightarrow> nat" where
  "md5_word i =
     (if i < 16 then i else if i < 32 then (5 * i + 1) mod 16 else if i < 48 then (3 * i + 5) mod 16 else 7 * i mod 16)"

definition md5_shift :: "nat \<Rightarrow> nat" where
  "md5_shift i =
     (if i < 16 then [7, 12, 17, 22] else if i < 32 then [5, 9, 14, 20] else if i < 48 then [4, 11, 16, 23] else [6, 10, 15, 21]) ! (i mod 4)"

definition md5_fun :: "nat \<Rightarrow> u32 \<Rightarrow> u32 \<Rightarrow> u32 \<Rightarrow> u32" where
  "md5_fun i x y z =
     (if i < 16 then (x AND y) OR (NOT x AND z) else if i < 32 then (x AND z) OR (y AND NOT z)
      else if i < 48 then x XOR y XOR z else y XOR (x OR NOT z))"

definition md5_step :: "byte list \<Rightarrow> nat \<Rightarrow> vars4 \<Rightarrow> vars4" where
  "md5_step M i = (\<lambda>(a, b, c, d).
     (d, b + word_rotl (md5_shift i) (a + md5_fun i b c d + block_word M (md5_word i) + md5_T ! i), b, c))"

definition md5_compress :: "u32 list \<Rightarrow> byte list \<Rightarrow> u32 list" where
  "md5_compress H M = add_words4 (fold (md5_step M) [0..<64] (H ! 0, H ! 1, H ! 2, H ! 3)) H"

section \<open>The block functions implement it\<close>

lemma le_words: "i < 16 \<Longrightarrow> le_words M ! i = block_word M i"
  by (simp add: le_words_def block_word_def CRYPTO_load_u32_le_def)

lemma md4_word_less: "md4_word i < 16" if "i < 48"
proof -
  have "i div 4 mod 4 < 4" "i mod 4 < 4" "i mod 2 < 2" "i div 2 mod 2 < 2" "i div 4 mod 2 < 2" "i div 8 mod 2 < 2" by simp_all
  then have "4 * (i mod 4) + i div 4 mod 4 < 16" "8 * (i mod 2) + 4 * (i div 2 mod 2) + 2 * (i div 4 mod 2) + i div 8 mod 2 < 16"
    by linarith+
  then show ?thesis by (simp add: md4_word_def)
qed

lemma md5_word_less: "md5_word i < 16"
  by (simp add: md5_word_def)

lemma nth_mod_4: "length xs = 4 \<Longrightarrow> list_all P xs \<Longrightarrow> P (xs ! (i mod 4))"
  by (simp add: list_all_length)

lemma shifts: "0 < md4_shift i \<and> md4_shift i < 32" "0 < md5_shift i \<and> md5_shift i < 32"
  unfolding md4_shift_def md5_shift_def by (rule nth_mod_4; simp)+

lemma md4_calls:
  "md4_calls_0 = map (\<lambda>i. (md4_word i, md4_shift i)) [0..<16]"
  "md4_calls_1 = map (\<lambda>i. (md4_word i, md4_shift i)) [16..<32]"
  "md4_calls_2 = map (\<lambda>i. (md4_word i, md4_shift i)) [32..<48]"
  by code_simp+

lemma md5_calls:
  "md5_calls_0 = map (\<lambda>i. (md5_word i, md5_shift i, md5_T ! i)) [0..<16]"
  "md5_calls_1 = map (\<lambda>i. (md5_word i, md5_shift i, md5_T ! i)) [16..<32]"
  "md5_calls_2 = map (\<lambda>i. (md5_word i, md5_shift i, md5_T ! i)) [32..<48]"
  "md5_calls_3 = map (\<lambda>i. (md5_word i, md5_shift i, md5_T ! i)) [48..<64]"
  by code_simp+

lemma choose_eq:
  "MD4_F x y z = (x AND y) OR (NOT x AND z)" "MD5_F x y z = (x AND y) OR (NOT x AND z)"
  "MD5_G x y z = (x AND z) OR (y AND NOT z)" "MD5_I x y z = y XOR (x OR NOT z)"
  by (rule bit_word_eqI; auto simp: MD4_F_def MD5_F_def MD5_G_def MD5_I_def bit_simps)+

lemma md4_R:
  assumes "i < 48" "\<And>x y z. f x y z = md4_fun i x y z" "t = md4_const i"
  shows "MD4_R f (le_words M ! md4_word i) (md4_shift i) t = md4_step M i"
  using assms shifts(1) [of i]
  by (auto simp: fun_eq_iff md4_step_def le_words md4_word_less rotl_u32 Let_def add_ac)

lemma md5_R:
  assumes "\<And>x y z. f x y z = md5_fun i x y z"
  shows "MD5_R f (le_words M ! md5_word i) (md5_shift i) (md5_T ! i) = md5_step M i"
  using assms shifts(2) [of i]
  by (auto simp: fun_eq_iff md5_step_def le_words md5_word_less rotl_u32 Let_def add_ac)

lemma fold_map_cong: "(\<And>i. m \<le> i \<Longrightarrow> i < n \<Longrightarrow> f (g i) = h i) \<Longrightarrow> fold f (map g [m..<n]) v = fold h [m..<n] v"
  unfolding fold_map by (rule fold_cong) auto

theorem md4_one_block: "md4_one_block H M = md4_compress H M"
proof -
  define v where "v = (H ! 0, H ! 1, H ! 2, H ! 3)"
  have r0: "fold (\<lambda>(k, s). MD4_R MD4_F (le_words M ! k) s 0) md4_calls_0 v = fold (md4_step M) [0..<16] v" for v
    unfolding md4_calls by (intro fold_map_cong) (simp add: md4_R choose_eq md4_fun_def md4_const_def)
  have r1: "fold (\<lambda>(k, s). MD4_R MD4_G (le_words M ! k) s 0x5A827999) md4_calls_1 v = fold (md4_step M) [16..<32] v" for v
    unfolding md4_calls by (intro fold_map_cong) (simp add: md4_R MD4_G_def md4_fun_def md4_const_def)
  have r2: "fold (\<lambda>(k, s). MD4_R MD4_H (le_words M ! k) s 0x6ED9EBA1) md4_calls_2 v = fold (md4_step M) [32..<48] v" for v
    unfolding md4_calls by (intro fold_map_cong) (simp add: md4_R MD4_H_def md4_fun_def md4_const_def)
  show ?thesis
    unfolding md4_one_block_def Let_def r0 r1 r2 md4_compress_def add_words4
    by (simp only: fold_upt_split [of 0 32 48] fold_upt_split [of 0 16 32] order.refl zero_le)
qed

theorem md5_one_block: "md5_one_block H M = md5_compress H M"
proof -
  have r0: "fold (md5_round_of (le_words M) MD5_F) md5_calls_0 v = fold (md5_step M) [0..<16] v" for v
    unfolding md5_calls by (intro fold_map_cong) (simp add: md5_round_of_def md5_R choose_eq md5_fun_def)
  have r1: "fold (md5_round_of (le_words M) MD5_G) md5_calls_1 v = fold (md5_step M) [16..<32] v" for v
    unfolding md5_calls by (intro fold_map_cong) (simp add: md5_round_of_def md5_R choose_eq md5_fun_def)
  have r2: "fold (md5_round_of (le_words M) MD5_H) md5_calls_2 v = fold (md5_step M) [32..<48] v" for v
    unfolding md5_calls by (intro fold_map_cong) (simp add: md5_round_of_def md5_R MD5_H_def md5_fun_def)
  have r3: "fold (md5_round_of (le_words M) MD5_I) md5_calls_3 v = fold (md5_step M) [48..<64] v" for v
    unfolding md5_calls by (intro fold_map_cong) (simp add: md5_round_of_def md5_R choose_eq md5_fun_def)
  show ?thesis
    unfolding md5_one_block_def Let_def r0 r1 r2 r3 md5_compress_def add_words4
    by (simp only: fold_upt_split [of 0 48 64] fold_upt_split [of 0 32 48] fold_upt_split [of 0 16 32] order.refl zero_le)
qed

lemma block_word_take: "i < 16 \<Longrightarrow> block_word (take 64 M) i = block_word M i"
  by (simp add: block_word_def drop_take)

lemma md_compress_take: "md4_compress H (take 64 M) = md4_compress H M" "md5_compress H (take 64 M) = md5_compress H M"
proof -
  have "le_words (take 64 M) = le_words M"
    by (simp add: le_words_def CRYPTO_load_u32_le_def drop_take)
  then show "md4_compress H (take 64 M) = md4_compress H M" "md5_compress H (take 64 M) = md5_compress H M"
    by (simp_all flip: md4_one_block md5_one_block add: md4_one_block_def md5_one_block_def)
qed

lemma md_block_data_order:
  "md4_block_data_order H d n = run_blocks md4_compress 64 H d n"
  "md5_block_data_order H d n = run_blocks md5_compress 64 H d n"
  by (induction n arbitrary: H d) (simp_all add: md4_one_block md5_one_block md_compress_take)

interpretation md4: md_block md4_block_data_order md4_compress MD4_CBLOCK
  by unfold_locales (simp_all add: MD4_CBLOCK_def md_block_data_order)

interpretation md5: md_block md5_block_data_order md5_compress MD5_CBLOCK
  by unfold_locales (simp_all add: MD5_CBLOCK_def md_block_data_order)

section \<open>The digests\<close>

definition le_digest :: "u32 list \<Rightarrow> byte list" where
  "le_digest h = concat (map (\<lambda>w. rev (be_bytes 4 (unat w))) h)"

definition md4_digest :: "byte list \<Rightarrow> byte list" where
  "md4_digest msg = le_digest (md_hash md4_compress 64 False rfc_initial msg)"

definition md5_digest :: "byte list \<Rightarrow> byte list" where
  "md5_digest msg = le_digest (md_hash md5_compress 64 False rfc_initial msg)"

lemma length_add_words4: "length (add_words4 v H) = 4"
  by (simp add: add_words4_def split: prod.split)

lemma length_md_hash:
  "length (md_hash md4_compress bs be rfc_initial msg) = 4" "length (md_hash md5_compress bs be rfc_initial msg) = 4"
  by (simp_all add: md_hash_def Let_def length_run_blocks md4_compress_def md5_compress_def length_add_words4 rfc_initial_def)

lemma store_state: "length h = 4 \<Longrightarrow> store_state_le h = le_digest h"
proof -
  assume "length h = 4"
  then obtain a b c d where "h = [a, b, c, d]" by (auto simp: length_Suc_conv eval_nat_numeral)
  then show ?thesis by (simp add: store_state_le_def le_digest_def CRYPTO_store_u32_le_def)
qed

theorem md4_stream: "fst (MD4_Final (foldl MD4_Update MD4_Init ds)) = md4_digest (concat ds)"
proof -
  have u: "MD4_Update = crypto_md32_update md4_block_data_order MD4_CBLOCK" by (simp add: fun_eq_iff MD4_Update_def)
  have "md_h (crypto_md32_final md4_block_data_order MD4_CBLOCK (foldl MD4_Update MD4_Init ds) False) =
      md_hash md4_compress MD4_CBLOCK False rfc_initial (concat ds)"
    unfolding u md_initial_rfc [symmetric] by (rule md4.md_stream) (simp_all add: MD4_Init_def)
  then show ?thesis by (simp add: MD4_Final_def Let_def md4_digest_def store_state length_md_hash flip: MD4_CBLOCK_def)
qed

theorem md5_stream: "fst (MD5_Final (foldl MD5_Update MD5_Init ds)) = md5_digest (concat ds)"
proof -
  have u: "MD5_Update = crypto_md32_update md5_block_data_order MD5_CBLOCK" by (simp add: fun_eq_iff MD5_Update_def)
  have "md_h (crypto_md32_final md5_block_data_order MD5_CBLOCK (foldl MD5_Update MD5_Init ds) False) =
      md_hash md5_compress MD5_CBLOCK False rfc_initial (concat ds)"
    unfolding u md_initial_rfc [symmetric] by (rule md5.md_stream) (simp_all add: MD5_Init_def)
  then show ?thesis by (simp add: MD5_Final_def Let_def md5_digest_def store_state length_md_hash flip: MD5_CBLOCK_def)
qed

text \<open>RFC 1320 takes the constants of its rounds from the square roots of 2 and 3.\<close>

lemma md4_constants: "root_fraction 2 30 2 (0x5a827999 - 2 ^ 30)" "root_fraction 2 30 3 (0x6ed9eba1 - 2 ^ 30)"
  by (simp_all add: root_fraction_def flip: numeral_2_eq_2)

section \<open>Properties\<close>

text \<open>C16: SHA-1, MD4 and MD5 compute the digests of FIPS 180-4, RFC 1320 and RFC 1321 however the message is cut into
  updates. The specifications have their own initial words, functions, constants and final additions.\<close>

theorem older_digests_are_standard:
  "fst (SHA1_Final (foldl SHA1_Update SHA1_Init ds)) = sha1_digest (concat ds) \<and>
   fst (MD4_Final (foldl MD4_Update MD4_Init ds)) = md4_digest (concat ds) \<and>
   fst (MD5_Final (foldl MD5_Update MD5_Init ds)) = md5_digest (concat ds)"
  using sha1_stream md4_stream md5_stream by blast

end
