(* ===== verification/Sha512.thy ===== *)
theory Sha512
  imports Sha256
begin

text \<open>
  SHA-384, SHA-512 and SHA-512/256 (\<^verbatim>\<open>crypto/fipsmodule/sha/sha512.c\<close>, the portable code): the context, the block
  function, updates, which count the bits in two words of 64 bits, and the padding. \<open>sha512_rep\<close> says what message
  a context represents; \<open>sha512_rep_update\<close> and \<open>sha512_rep_final\<close> are its laws, and \<open>sha512_stream\<close> follows: the digest
  is that of FIPS 180-4 however the message is cut into updates. The specification computes its constants and initial values
  from the roots of the primes, and the tables of the code are proved equal to them.
\<close>

section \<open>State\<close>

record sha512_ctx =
  s5_h :: "u64 list"
  s5_Nl :: u64
  s5_Nh :: u64
  s5_p :: "byte list"
  s5_num :: nat
  s5_md_len :: nat

definition SHA512_CBLOCK :: nat where "SHA512_CBLOCK = 128"
definition SHA384_DIGEST_LENGTH :: nat where "SHA384_DIGEST_LENGTH = 48"
definition SHA512_DIGEST_LENGTH :: nat where "SHA512_DIGEST_LENGTH = 64"
definition SHA512_256_DIGEST_LENGTH :: nat where "SHA512_256_DIGEST_LENGTH = 32"

section \<open>The block function\<close>

definition K512 :: "u64 list" where
  "K512 = concat
    [[0x428a2f98d728ae22, 0x7137449123ef65cd, 0xb5c0fbcfec4d3b2f, 0xe9b5dba58189dbbc],
     [0x3956c25bf348b538, 0x59f111f1b605d019, 0x923f82a4af194f9b, 0xab1c5ed5da6d8118],
     [0xd807aa98a3030242, 0x12835b0145706fbe, 0x243185be4ee4b28c, 0x550c7dc3d5ffb4e2],
     [0x72be5d74f27b896f, 0x80deb1fe3b1696b1, 0x9bdc06a725c71235, 0xc19bf174cf692694],
     [0xe49b69c19ef14ad2, 0xefbe4786384f25e3, 0x0fc19dc68b8cd5b5, 0x240ca1cc77ac9c65],
     [0x2de92c6f592b0275, 0x4a7484aa6ea6e483, 0x5cb0a9dcbd41fbd4, 0x76f988da831153b5],
     [0x983e5152ee66dfab, 0xa831c66d2db43210, 0xb00327c898fb213f, 0xbf597fc7beef0ee4],
     [0xc6e00bf33da88fc2, 0xd5a79147930aa725, 0x06ca6351e003826f, 0x142929670a0e6e70],
     [0x27b70a8546d22ffc, 0x2e1b21385c26c926, 0x4d2c6dfc5ac42aed, 0x53380d139d95b3df],
     [0x650a73548baf63de, 0x766a0abb3c77b2a8, 0x81c2c92e47edaee6, 0x92722c851482353b],
     [0xa2bfe8a14cf10364, 0xa81a664bbc423001, 0xc24b8b70d0f89791, 0xc76c51a30654be30],
     [0xd192e819d6ef5218, 0xd69906245565a910, 0xf40e35855771202a, 0x106aa07032bbd1b8],
     [0x19a4c116b8d2d0c8, 0x1e376c085141ab53, 0x2748774cdf8eeb99, 0x34b0bcb5e19b48a8],
     [0x391c0cb3c5c95a63, 0x4ed8aa4ae3418acb, 0x5b9cca4f7763e373, 0x682e6ff3d6b2b8a3],
     [0x748f82ee5defb2fc, 0x78a5636f43172f60, 0x84c87814a1f0ab72, 0x8cc702081a6439ec],
     [0x90befffa23631e28, 0xa4506cebde82bde9, 0xbef9a3f7b2c67915, 0xc67178f2e372532b],
     [0xca273eceea26619c, 0xd186b8c721c0c207, 0xeada7dd6cde0eb1e, 0xf57d4f7fee6ed178],
     [0x06f067aa72176fba, 0x0a637dc5a2c898a6, 0x113f9804bef90dae, 0x1b710b35131c471b],
     [0x28db77f523047d84, 0x32caab7b40c72493, 0x3c9ebe0a15c9bebc, 0x431d67c49c100d4c],
     [0x4cc5d4becb3e42b6, 0x597f299cfc657e2a, 0x5fcb6fab3ad6faec, 0x6c44198c4a475817]]"

definition Sigma0_64 :: "u64 \<Rightarrow> u64" where
  "Sigma0_64 x = CRYPTO_rotr_u64 x 28 XOR CRYPTO_rotr_u64 x 34 XOR CRYPTO_rotr_u64 x 39"

definition Sigma1_64 :: "u64 \<Rightarrow> u64" where
  "Sigma1_64 x = CRYPTO_rotr_u64 x 14 XOR CRYPTO_rotr_u64 x 18 XOR CRYPTO_rotr_u64 x 41"

definition sigma0_64 :: "u64 \<Rightarrow> u64" where
  "sigma0_64 x = CRYPTO_rotr_u64 x 1 XOR CRYPTO_rotr_u64 x 8 XOR drop_bit 7 x"

definition sigma1_64 :: "u64 \<Rightarrow> u64" where
  "sigma1_64 x = CRYPTO_rotr_u64 x 19 XOR CRYPTO_rotr_u64 x 61 XOR drop_bit 6 x"

text \<open>The working variables rotate as those of SHA-256 do. The rounds from 16 on are numbered from 0 within their group of
  sixteen; the index of the code is the sum \<open>i + j\<close>, which is the round number here.\<close>

fun round512_00_15 :: "nat \<Rightarrow> u64 \<Rightarrow> u64 vars8 \<Rightarrow> u64 vars8" where
  "round512_00_15 i T1 (a, b, c, d, e, f, g, h) =
     (let T1 = T1 + (h + Sigma1_64 e + Ch e f g + K512 ! i);
          h = Sigma0_64 a + Maj a b c;
          d = d + T1;
          h = h + T1
      in (h, a, b, c, d, e, f, g))"

definition sha512_load :: "byte list \<Rightarrow> nat \<Rightarrow> u64 vars8 \<times> u64 list \<Rightarrow> u64 vars8 \<times> u64 list" where
  "sha512_load inp i vX =
     (case vX of (v, X) \<Rightarrow>
        let T1 = CRYPTO_load_u64_be (drop (8 * i) inp); X = X[i := T1] in (round512_00_15 i T1 v, X))"

definition ROUND_16_80 :: "nat \<Rightarrow> u64 vars8 \<times> u64 list \<Rightarrow> u64 vars8 \<times> u64 list" where
  "ROUND_16_80 i vX =
     (case vX of (v, X) \<Rightarrow>
        let j = i mod 16;
            s0 = sigma0_64 (X ! ((j + 1) AND 0x0f));
            s1 = sigma1_64 (X ! ((j + 14) AND 0x0f));
            X = X[j AND 0x0f := X ! (j AND 0x0f) + (s0 + s1 + X ! ((j + 9) AND 0x0f))];
            T1 = X ! (j AND 0x0f)
        in (round512_00_15 i T1 v, X))"

fun sha512_block_data_order :: "u64 list \<Rightarrow> byte list \<Rightarrow> nat \<Rightarrow> u64 list" where
  "sha512_block_data_order state inp 0 = state"
| "sha512_block_data_order state inp (Suc num) =
     (let vX = fold (sha512_load inp) [0..<16] (vars8 state, replicate 16 0);
          vX = fold ROUND_16_80 [16..<80] vX
      in sha512_block_data_order (add_vars8 state (fst vX)) (drop (16 * 8) inp) num)"

section \<open>Operations\<close>

text \<open>The initialisation leaves the buffer of the context as it is.\<close>

definition sha512_reset :: "u64 list \<Rightarrow> nat \<Rightarrow> sha512_ctx \<Rightarrow> sha512_ctx" where
  "sha512_reset h len sha = sha\<lparr>s5_h := h, s5_Nl := 0, s5_Nh := 0, s5_num := 0, s5_md_len := len\<rparr>"

definition SHA384_h :: "u64 list" where
  "SHA384_h = concat
    [[0xcbbb9d5dc1059ed8, 0x629a292a367cd507, 0x9159015a3070dd17, 0x152fecd8f70e5939],
     [0x67332667ffc00b31, 0x8eb44a8768581511, 0xdb0c2e0d64f98fa7, 0x47b5481dbefa4fa4]]"

definition SHA512_h :: "u64 list" where
  "SHA512_h = concat
    [[0x6a09e667f3bcc908, 0xbb67ae8584caa73b, 0x3c6ef372fe94f82b, 0xa54ff53a5f1d36f1],
     [0x510e527fade682d1, 0x9b05688c2b3e6c1f, 0x1f83d9abfb41bd6b, 0x5be0cd19137e2179]]"

definition SHA512_256_h :: "u64 list" where
  "SHA512_256_h = concat
    [[0x22312194fc2bf72c, 0x9f555fa3c84c64c2, 0x2393b86b6f53b151, 0x963877195940eabd],
     [0x96283ee2a88effe3, 0xbe5e1e2553863992, 0x2b0199fc2c85b8aa, 0x0eb72ddc81c52ca2]]"

definition SHA384_Init :: "sha512_ctx \<Rightarrow> sha512_ctx" where
  "SHA384_Init sha = sha512_reset SHA384_h SHA384_DIGEST_LENGTH sha"

definition SHA512_Init :: "sha512_ctx \<Rightarrow> sha512_ctx" where
  "SHA512_Init sha = sha512_reset SHA512_h SHA512_DIGEST_LENGTH sha"

definition SHA512_256_Init :: "sha512_ctx \<Rightarrow> sha512_ctx" where
  "SHA512_256_Init sha = sha512_reset SHA512_256_h SHA512_256_DIGEST_LENGTH sha"

definition SHA512_Transform :: "sha512_ctx \<Rightarrow> byte list \<Rightarrow> sha512_ctx" where
  "SHA512_Transform c block = c\<lparr>s5_h := sha512_block_data_order (s5_h c) block 1\<rparr>"

text \<open>The part of \<^verbatim>\<open>SHA512_Update\<close> after a partial block has been completed, and the function.\<close>

definition sha512_update_blocks :: "sha512_ctx \<Rightarrow> byte list \<Rightarrow> sha512_ctx" where
  "sha512_update_blocks c inp =
     (let len = length inp;
          (c, inp) =
            (if len \<ge> SHA512_CBLOCK
             then (c\<lparr>s5_h := sha512_block_data_order (s5_h c) inp (len div SHA512_CBLOCK)\<rparr>, drop (len - len mod SHA512_CBLOCK) inp)
             else (c, inp))
      in if length inp \<noteq> 0 then c\<lparr>s5_p := mem_write 0 inp (s5_p c), s5_num := length inp\<rparr> else c)"

definition SHA512_Update :: "sha512_ctx \<Rightarrow> byte list \<Rightarrow> sha512_ctx" where
  "SHA512_Update c inp =
     (let len = length inp in
      if len = 0 then c
      else
        let l = s5_Nl c + push_bit 3 (word_of_nat len);
            Nh = (if l < s5_Nl c then s5_Nh c + 1 else s5_Nh c);
            c = c\<lparr>s5_Nh := Nh + word_of_nat (len div 2 ^ 61), s5_Nl := l\<rparr>
        in if s5_num c \<noteq> 0 then
             let n = SHA512_CBLOCK - s5_num c in
             if len < n then c\<lparr>s5_p := mem_write (s5_num c) inp (s5_p c), s5_num := s5_num c + len\<rparr>
             else
               let p = mem_write (s5_num c) (take n inp) (s5_p c);
                   c = c\<lparr>s5_p := p, s5_num := 0, s5_h := sha512_block_data_order (s5_h c) p 1\<rparr>
               in sha512_update_blocks c (drop n inp)
           else sha512_update_blocks c inp)"

definition SHA384_Update :: "sha512_ctx \<Rightarrow> byte list \<Rightarrow> sha512_ctx" where
  "SHA384_Update sha inp = SHA512_Update sha inp"

definition SHA512_256_Update :: "sha512_ctx \<Rightarrow> byte list \<Rightarrow> sha512_ctx" where
  "SHA512_256_Update sha inp = SHA512_Update sha inp"

text \<open>The output is not a null pointer here.\<close>

definition sha512_final_impl :: "sha512_ctx \<Rightarrow> byte list \<times> sha512_ctx" where
  "sha512_final_impl sha =
     (let n = s5_num sha;
          p = (s5_p sha)[n := 0x80];
          n = n + 1;
          (h, p, n) =
            (if n > SHA512_CBLOCK - 16 then
               let p = mem_write n (replicate (SHA512_CBLOCK - n) 0) p in (sha512_block_data_order (s5_h sha) p 1, p, 0)
             else (s5_h sha, p, n));
          p = mem_write n (replicate (SHA512_CBLOCK - 16 - n) 0) p;
          p = mem_write (SHA512_CBLOCK - 16) (CRYPTO_store_u64_be (s5_Nh sha)) p;
          p = mem_write (SHA512_CBLOCK - 8) (CRYPTO_store_u64_be (s5_Nl sha)) p;
          h = sha512_block_data_order h p 1;
          out_words = s5_md_len sha div 8
      in (concat (map (\<lambda>i. CRYPTO_store_u64_be (h ! i)) [0..<out_words]), sha\<lparr>s5_h := h, s5_p := p\<rparr>))"

definition SHA384_Final :: "sha512_ctx \<Rightarrow> byte list \<times> sha512_ctx" where
  "SHA384_Final sha = sha512_final_impl sha"

definition SHA512_Final :: "sha512_ctx \<Rightarrow> byte list \<times> sha512_ctx" where
  "SHA512_Final sha = sha512_final_impl sha"

definition SHA512_256_Final :: "sha512_ctx \<Rightarrow> byte list \<times> sha512_ctx" where
  "SHA512_256_Final sha = sha512_final_impl sha"

text \<open>The one-shot functions work on a local context with arbitrary contents.\<close>

definition SHA384 :: "sha512_ctx \<Rightarrow> byte list \<Rightarrow> byte list" where
  "SHA384 ctx inp = fst (SHA384_Final (SHA384_Update (SHA384_Init ctx) inp))"

definition SHA512 :: "sha512_ctx \<Rightarrow> byte list \<Rightarrow> byte list" where
  "SHA512 ctx inp = fst (SHA512_Final (SHA512_Update (SHA512_Init ctx) inp))"

definition SHA512_256 :: "sha512_ctx \<Rightarrow> byte list \<Rightarrow> byte list" where
  "SHA512_256 ctx inp = fst (SHA512_256_Final (SHA512_256_Update (SHA512_256_Init ctx) inp))"

section \<open>The constants of the standard\<close>

text \<open>FIPS 180-4, sections 4.2.3, 5.3.4, 5.3.5 and 5.3.6.2: the first 64 bits of the fractional parts of the cube roots of the first
  eighty primes, and of the square roots of the first eight (SHA-512) and of the next eight (SHA-384). The initial words of
  SHA-512/256 are those the standard lists.\<close>

definition first_80_primes :: "nat list" where
  "first_80_primes = first_primes @
    [313, 317, 331, 337, 347, 349, 353, 359, 367, 373, 379, 383, 389, 397, 401, 409]"

definition fips_K512 :: "u64 list" where
  "fips_K512 = map (root_word 3) first_80_primes"

definition fips_512_h :: "u64 list" where
  "fips_512_h = map (root_word 2) (take 8 first_primes)"

definition fips_512_256_h :: "u64 list" where
  "fips_512_256_h =
     [0x22312194FC2BF72C] @ [0x9F555FA3C84C64C2] @ [0x2393B86B6F53B151] @ [0x963877195940EABD] @
     [0x96283EE2A88EFFE3] @ [0xBE5E1E2553863992] @ [0x2B0199FC2C85B8AA] @ [0x0EB72DDC81C52CA2]"

lemma K512_fips: "K512 = fips_K512"
proof -
  have "list_all2 (\<lambda>p w. root_fraction 3 LENGTH(64) p (unat w)) first_80_primes K512"
    unfolding first_80_primes_def first_primes_def K512_def concat.simps append.simps
    by (intro list.rel_intros; (simp add: root_fraction_def flip: numeral_2_eq_2; fail)?)
  from root_words [OF this] show ?thesis by (simp add: fips_K512_def)
qed

lemma SHA512_h_fips: "SHA512_h = fips_512_h"
proof -
  have t: "take 8 first_primes = [2, 3, 5, 7, 11, 13, 17, 19]" by (simp add: first_primes_def)
  have "list_all2 (\<lambda>p w. root_fraction 2 LENGTH(64) p (unat w)) (take 8 first_primes) SHA512_h"
    unfolding t SHA512_h_def concat.simps append.simps
    by (intro list.rel_intros; (simp add: root_fraction_def flip: numeral_2_eq_2; fail)?)
  from root_words [OF this] show ?thesis by (simp add: fips_512_h_def)
qed

lemma SHA384_h_fips: "SHA384_h = fips_384_h"
  by (simp only: SHA384_h_def fips_384_h)

lemma SHA512_256_h_fips: "SHA512_256_h = fips_512_256_h"
  by (simp add: SHA512_256_h_def fips_512_256_h_def)

section \<open>The specification\<close>

text \<open>The compression function of FIPS 180-4, section 6.4, and the padding to blocks of 1024 bits.\<close>

definition sha512_W :: "byte list \<Rightarrow> nat \<Rightarrow> u64" where
  "sha512_W M = sha2_W (\<lambda>x. word_rotr 1 x XOR word_rotr 8 x XOR drop_bit 7 x)
     (\<lambda>x. word_rotr 19 x XOR word_rotr 61 x XOR drop_bit 6 x) (\<lambda>t. word_of_nat (be_val (take 8 (drop (8 * t) M))))"

definition sha512_round :: "byte list \<Rightarrow> nat \<Rightarrow> u64 vars8 \<Rightarrow> u64 vars8" where
  "sha512_round M = sha2_round (\<lambda>x. word_rotr 28 x XOR word_rotr 34 x XOR word_rotr 39 x)
     (\<lambda>x. word_rotr 14 x XOR word_rotr 18 x XOR word_rotr 41 x) (\<lambda>t. fips_K512 ! t) (sha512_W M)"

definition sha512_compress :: "u64 list \<Rightarrow> byte list \<Rightarrow> u64 list" where
  "sha512_compress H M = sha2_compress (sha512_round M) 80 H"

definition sha512_pad :: "nat \<Rightarrow> byte list" where
  "sha512_pad len = 0x80 # replicate ((128 - (len + 17) mod 128) mod 128) 0 @ be_bytes 16 (8 * len mod 2 ^ 128)"

definition sha512_hash :: "u64 list \<Rightarrow> byte list \<Rightarrow> u64 list" where
  "sha512_hash h0 msg =
     (let p = msg @ sha512_pad (length msg) in run_blocks sha512_compress 128 h0 p (length p div 128))"

definition sha512_digest :: "u64 list \<Rightarrow> nat \<Rightarrow> byte list \<Rightarrow> byte list" where
  "sha512_digest h0 len msg = concat (map (\<lambda>w. be_bytes 8 (unat w)) (take (len div 8) (sha512_hash h0 msg)))"

definition fips_sha512 :: "byte list \<Rightarrow> byte list" where
  "fips_sha512 msg = sha512_digest fips_512_h 64 msg"

definition fips_sha384 :: "byte list \<Rightarrow> byte list" where
  "fips_sha384 msg = sha512_digest fips_384_h 48 msg"

definition fips_sha512_256 :: "byte list \<Rightarrow> byte list" where
  "fips_sha512_256 msg = sha512_digest fips_512_256_h 32 msg"

section \<open>The block function implements it\<close>

lemma sha512_sigmas:
  "Sigma0_64 = (\<lambda>x. word_rotr 28 x XOR word_rotr 34 x XOR word_rotr 39 x)"
  "Sigma1_64 = (\<lambda>x. word_rotr 14 x XOR word_rotr 18 x XOR word_rotr 41 x)"
  "sigma0_64 = (\<lambda>x. word_rotr 1 x XOR word_rotr 8 x XOR drop_bit 7 x)"
  "sigma1_64 = (\<lambda>x. word_rotr 19 x XOR word_rotr 61 x XOR drop_bit 6 x)"
  by (simp_all add: fun_eq_iff Sigma0_64_def Sigma1_64_def sigma0_64_def sigma1_64_def rotr_u64)

lemma round512: "round512_00_15 t (sha512_W M t) v = sha512_round M t v"
proof -
  obtain a b c d e f g h where v: "v = (a, b, c, d, e, f, g, h)" by (metis surj_pair)
  show ?thesis
    by (simp add: v sha512_round_def Let_def Ch_def Maj_def K512_fips add.commute add.left_commute flip: sha512_sigmas)
qed

lemma sha512_W_early: "t < 16 \<Longrightarrow> sha512_W M t = word_of_nat (be_val (take 8 (drop (8 * t) M)))"
  by (simp add: sha512_W_def sha2_W.simps)

lemma sha512_W_late:
  "16 \<le> t \<Longrightarrow> sha512_W M t =
     sigma1_64 (sha512_W M (t - 2)) + sha512_W M (t - 7) + sigma0_64 (sha512_W M (t - 15)) + sha512_W M (t - 16)"
  unfolding sha512_W_def sha512_sigmas by (subst sha2_W.simps) simp

lemma sha512_load_rounds:
  assumes "128 \<le> length M" "length X = 16"
  shows "i \<le> 16 \<Longrightarrow> \<exists>X'. fold (sha512_load M) [0..<i] (v, X) = (fold (sha512_round M) [0..<i] v, X') \<and> circ X' (sha512_W M) i"
proof (induction i)
  case 0
  then show ?case by (simp add: circ_0 assms)
next
  case (Suc i)
  then obtain X' where X': "fold (sha512_load M) [0..<i] (v, X) = (fold (sha512_round M) [0..<i] v, X')"
    "circ X' (sha512_W M) i" by auto
  have w: "CRYPTO_load_u64_be (drop (8 * i) M) = sha512_W M i"
    using Suc.prems assms(1) by (simp add: sha512_W_early load_u64_be)
  have c: "circ (X'[i := sha512_W M i]) (sha512_W M) (Suc i)"
    using circ_Suc [OF X'(2)] Suc.prems by (metis Suc_le_lessD mod_less)
  have "sha512_load M i (fold (sha512_round M) [0..<i] v, X') =
      (sha512_round M i (fold (sha512_round M) [0..<i] v), X'[i := sha512_W M i])"
    by (simp add: sha512_load_def w round512 Let_def)
  with c show ?case by (simp add: X'(1))
qed

lemma ROUND_16_80:
  assumes "circ X (sha512_W M) i" "16 \<le> i"
  shows "\<exists>X'. ROUND_16_80 i (v, X) = (sha512_round M i v, X') \<and> circ X' (sha512_W M) (Suc i)"
proof -
  have n: "X ! ((i + k) mod 16) = sha512_W M (i - 16 + k)" if "k < 16" for k
    by (rule circ_nth [OF assms that])
  have w: "X ! (i mod 16) + (sigma0_64 (X ! ((i + 1) mod 16)) + sigma1_64 (X ! ((i + 14) mod 16)) + X ! ((i + 9) mod 16)) = sha512_W M i"
  proof -
    have "i - 16 + 1 = i - 15" "i - 16 + 14 = i - 2" "i - 16 + 9 = i - 7" using assms(2) by simp_all
    then show ?thesis
      unfolding sha512_W_late [OF assms(2), of M] using n [of 0] n [of 1] n [of 14] n [of 9] by (simp only:) simp
  qed
  have "length X = 16" using assms(1) by (simp add: circ_def)
  then have "ROUND_16_80 i (v, X) = (sha512_round M i v, X[i mod 16 := sha512_W M i])"
    unfolding ROUND_16_80_def prod.case Let_def and_15 mod_add_left_eq mod_mod_trivial w by (simp add: round512)
  with circ_Suc [OF assms(1)] show ?thesis by simp
qed

lemma sha512_late_rounds:
  assumes "circ X (sha512_W M) 16"
  shows "16 \<le> n \<Longrightarrow> \<exists>X'. fold ROUND_16_80 [16..<n] (v, X) = (fold (sha512_round M) [16..<n] v, X') \<and>
    circ X' (sha512_W M) n"
proof (induction n rule: dec_induct)
  case base
  then show ?case using assms by simp
next
  case (step n)
  then obtain X' where X': "fold ROUND_16_80 [16..<n] (v, X) = (fold (sha512_round M) [16..<n] v, X')"
    "circ X' (sha512_W M) n" by auto
  from ROUND_16_80 [OF X'(2) step(1), of "fold (sha512_round M) [16..<n] v"] show ?case
    using step(1) by (auto simp: upt_Suc_append X'(1))
qed

lemma fold_rounds512_split: "fold f [0..<80] v = fold f [16..<80] (fold f [0..<16] v)" for f :: "nat \<Rightarrow> 'a \<Rightarrow> 'a"
  using upt_add_eq_append [of 0 16 64] by (simp del: upt_rec_numeral)

lemma sha512_block:
  assumes "128 \<le> length M"
  shows "add_vars8 H (fst (fold ROUND_16_80 [16..<80] (fold (sha512_load M) [0..<16] (vars8 H, replicate 16 0)))) =
    sha512_compress H M"
proof -
  obtain X where X: "fold (sha512_load M) [0..<16] (vars8 H, replicate 16 0) = (fold (sha512_round M) [0..<16] (vars8 H), X)"
    "circ X (sha512_W M) 16"
    using sha512_load_rounds [OF assms, where X = "replicate 16 0" and v = "vars8 H" and i = 16] by auto
  from sha512_late_rounds [OF X(2), of 80 "fold (sha512_round M) [0..<16] (vars8 H)"] obtain X' where
    "fold ROUND_16_80 [16..<80] (fold (sha512_round M) [0..<16] (vars8 H), X) =
      (fold (sha512_round M) [16..<80] (fold (sha512_round M) [0..<16] (vars8 H)), X')" by auto
  then show ?thesis unfolding X(1) sha512_compress_def sha2_compress fold_rounds512_split [of "sha512_round M"] by (simp only: fst_conv)
qed

lemma sha512_compress_take: "sha512_compress H (take 128 M) = sha512_compress H M"
proof -
  have "sha512_W (take 128 M) t = sha512_W M t" for t
    unfolding sha512_W_def by (rule sha2_W_cong) (simp add: drop_take)
  then have "sha512_W (take 128 M) = sha512_W M" by (rule ext)
  then show ?thesis by (simp only: sha512_compress_def sha512_round_def)
qed

theorem sha512_block_data_order:
  "n * 128 \<le> length d \<Longrightarrow> sha512_block_data_order H d n = run_blocks sha512_compress 128 H d n"
proof (induction n arbitrary: H d)
  case (Suc n)
  have "sha512_block_data_order H d (Suc n) = sha512_block_data_order (sha512_compress H (take 128 d)) (drop 128 d) n"
    unfolding sha512_block_data_order.simps Let_def sha512_compress_take
    using Suc.prems by (subst sha512_block) simp_all
  then show ?case using Suc by simp
qed simp

section \<open>What a context represents\<close>

definition sha512_bits :: "u64 \<Rightarrow> u64 \<Rightarrow> nat" where
  "sha512_bits Nh Nl = unat Nh * 2 ^ 64 + unat Nl"

lemma high_low_mod64: "l < 2 ^ 64 \<Longrightarrow> (a * 2 ^ 64 + l) mod 2 ^ 128 = a mod 2 ^ 64 * 2 ^ 64 + l" for a l :: nat
  using mod_mult2_eq [of "a * 2 ^ 64 + l" "2 ^ 64" "2 ^ 64"] by simp

lemma sha512_bits_update:
  assumes "l = Nl + push_bit 3 (word_of_nat len)"
  shows "sha512_bits ((if l < Nl then Nh + 1 else Nh) + word_of_nat (len div 2 ^ 61)) l =
    (sha512_bits Nh Nl + 8 * len) mod 2 ^ 128"
proof -
  define q r where "q = len div 2 ^ 61" and "r = len mod 2 ^ 61"
  have len: "len = q * 2 ^ 61 + r" by (simp add: q_def r_def)
  have r: "8 * r < 2 ^ 64" using mod_less_divisor [of "2 ^ 61" len] by (simp add: r_def)
  have x: "unat (push_bit 3 (word_of_nat len :: u64)) = 8 * r"
  proof -
    have "unat (push_bit 3 (word_of_nat len :: u64)) = (8 * len) mod 2 ^ 64"
      by (simp add: push_bit_eq_mult unat_word_ariths unsigned_of_nat take_bit_eq_mod mod_mult_right_eq mult.commute)
    also have "8 * len = 8 * r + q * 2 ^ 64" by (simp add: len)
    finally show ?thesis using r by simp
  qed
  have l: "unat l = (unat Nl + 8 * r) mod 2 ^ 64" by (simp add: assms unat_word_ariths x)
  have lt: "l < Nl \<longleftrightarrow> unat l < unat Nl" by (rule word_less_nat_alt)
  have nl: "unat Nl < 2 ^ 64" "unat Nh < 2 ^ 64" by (rule unat_u64_lt)+
  define k where "k = (if l < Nl then 1 else 0 :: nat)"
  have split: "unat Nl + 8 * r = k * 2 ^ 64 + unat l"
  proof (cases "unat Nl + 8 * r < 2 ^ 64")
    case True
    then show ?thesis using l lt by (simp add: k_def)
  next
    case False
    then have "unat l = unat Nl + 8 * r - 2 ^ 64" using l nl(1) r by (simp add: mod_if)
    then show ?thesis using lt False r by (simp add: k_def)
  qed
  have h: "unat ((if l < Nl then Nh + 1 else Nh) + word_of_nat q :: u64) = (unat Nh + k + q) mod 2 ^ 64"
    by (simp add: k_def unat_word_ariths unsigned_of_nat take_bit_eq_mod mod_simps)
  have "sha512_bits Nh Nl + 8 * len = (unat Nh + k + q) * 2 ^ 64 + unat l"
    using split by (simp add: sha512_bits_def len algebra_simps)
  moreover have "((unat Nh + k + q) * 2 ^ 64 + unat l) mod 2 ^ 128 = (unat Nh + k + q) mod 2 ^ 64 * 2 ^ 64 + unat l"
    by (rule high_low_mod64) (rule unat_u64_lt)
  ultimately have "(sha512_bits Nh Nl + 8 * len) mod 2 ^ 128 = (unat Nh + k + q) mod 2 ^ 64 * 2 ^ 64 + unat l"
    by (simp only:)
  then show ?thesis unfolding q_def [symmetric] by (simp only: sha512_bits_def h)
qed

lemma sha512_bits_bytes: "CRYPTO_store_u64_be Nh @ CRYPTO_store_u64_be Nl = be_bytes 16 (sha512_bits Nh Nl)"
  using be_bytes_append [of 8 "sha512_bits Nh Nl" 8] be_bytes_mod [of 8 "sha512_bits Nh Nl"] unat_u64_lt [of Nl]
  by (simp add: sha512_bits_def store_u64_be)

text \<open>A context represents a message: the whole blocks are compressed, the rest is in the buffer.\<close>

definition sha512_rep :: "u64 list \<Rightarrow> byte list \<Rightarrow> sha512_ctx \<Rightarrow> bool" where
  "sha512_rep h0 msg c \<longleftrightarrow>
     s5_h c = run_blocks sha512_compress 128 h0 msg (length msg div 128) \<and> s5_num c = length msg mod 128 \<and>
     length (s5_p c) = 128 \<and> take (s5_num c) (s5_p c) = drop (128 * (length msg div 128)) msg \<and>
     sha512_bits (s5_Nh c) (s5_Nl c) = 8 * length msg mod 2 ^ 128"

text \<open>One more block.\<close>

lemma sha512_compress_block:
  assumes "length m = k * 128" "length blk = 128"
  shows "sha512_block_data_order (run_blocks sha512_compress 128 h0 m k) blk 1 = run_blocks sha512_compress 128 h0 (m @ blk) (k + 1)"
proof -
  have "run_blocks sha512_compress 128 h0 (m @ blk) (k + 1) =
      run_blocks sha512_compress 128 (run_blocks sha512_compress 128 h0 (m @ blk) k) blk 1"
    using run_blocks_add [of sha512_compress 128 h0 "m @ blk" k 1] assms by simp
  also have "run_blocks sha512_compress 128 h0 (m @ blk) k = run_blocks sha512_compress 128 h0 m k"
    using assms by (intro run_blocks_append) simp
  finally show ?thesis using sha512_block_data_order [of 1 blk] assms by simp
qed

text \<open>After \<open>k\<close> whole blocks, with the bits of all of the message counted, the rest of the input is absorbed.\<close>

lemma sha512_update_blocks:
  assumes "s5_h c = run_blocks sha512_compress 128 h0 m k" "length m = k * 128" "length (s5_p c) = 128" "s5_num c = 0"
    and "sha512_bits (s5_Nh c) (s5_Nl c) = 8 * length (m @ inp) mod 2 ^ 128"
  shows "sha512_rep h0 (m @ inp) (sha512_update_blocks c inp)"
proof -
  define n where "n = length inp div 128"
  define rest where "rest = drop (n * 128) inp"
  have len: "length (m @ inp) div 128 = k + n" "length (m @ inp) mod 128 = length inp mod 128" by (simp_all add: assms(2) n_def)
  have rest: "length rest = length inp mod 128" "drop (length inp - length inp mod 128) inp = rest"
    by (simp_all add: rest_def n_def minus_div_mult_eq_mod minus_mod_eq_div_mult)
  define h where "h = (if length inp \<ge> 128 then sha512_block_data_order (s5_h c) inp n else s5_h c)"
  have "h = run_blocks sha512_compress 128 (s5_h c) inp n"
    using sha512_block_data_order [of n inp] by (auto simp: h_def n_def)
  also have "\<dots> = run_blocks sha512_compress 128 h0 (m @ inp) (k + n)"
    by (simp add: run_blocks_add run_blocks_append assms(1,2))
  finally have h: "h = run_blocks sha512_compress 128 h0 (m @ inp) (length (m @ inp) div 128)" by (simp only: len)
  have u: "sha512_update_blocks c inp =
      (if length rest \<noteq> 0 then c\<lparr>s5_h := h, s5_p := mem_write 0 rest (s5_p c), s5_num := length rest\<rparr> else c\<lparr>s5_h := h\<rparr>)"
  proof (cases "length inp \<ge> 128")
    case True
    then show ?thesis
      unfolding sha512_update_blocks_def Let_def SHA512_CBLOCK_def rest(2) n_def [symmetric] h_def by simp
  next
    case False
    then have "n = 0" by (simp add: n_def)
    then have "rest = inp" by (simp add: rest_def)
    with False show ?thesis by (simp add: sha512_update_blocks_def Let_def SHA512_CBLOCK_def h_def)
  qed
  have d: "drop (128 * (length (m @ inp) div 128)) (m @ inp) = rest"
    unfolding len by (simp add: assms(2) rest_def algebra_simps)
  have "length rest < 128" using rest by simp
  then have w: "take (length rest) (mem_write 0 rest (s5_p c)) = rest" "length (mem_write 0 rest (s5_p c)) = 128"
    using assms(3) by (simp_all add: mem_write_def)
  define c' where "c' = sha512_update_blocks c inp"
  have "s5_h c' = h" "s5_num c' = length rest" "s5_Nh c' = s5_Nh c" "s5_Nl c' = s5_Nl c"
    "length (s5_p c') = 128" "take (length rest) (s5_p c') = rest"
    using w assms(3,4) by (cases "rest = []"; simp add: c'_def u)+
  then show ?thesis
    unfolding sha512_rep_def c'_def [symmetric] d using h rest(1) len(2) assms(5) by simp
qed

lemma sha512_rep_update:
  assumes "sha512_rep h0 msg c"
  shows "sha512_rep h0 (msg @ inp) (SHA512_Update c inp)"
proof (cases "inp = []")
  case True
  with assms show ?thesis by (simp add: SHA512_Update_def)
next
  case False
  define l where "l = s5_Nl c + push_bit 3 (word_of_nat (length inp))"
  define Nh where "Nh = (if l < s5_Nl c then s5_Nh c + 1 else s5_Nh c) + word_of_nat (length inp div 2 ^ 61)"
  define c1 where "c1 = c\<lparr>s5_Nh := Nh, s5_Nl := l\<rparr>"
  define k where "k = length msg div 128"
  define n where "n = s5_num c"
  have a: "s5_h c = run_blocks sha512_compress 128 h0 msg k" "n = length msg mod 128" "length (s5_p c) = 128"
    "take n (s5_p c) = drop (128 * k) msg" "sha512_bits (s5_Nh c) (s5_Nl c) = 8 * length msg mod 2 ^ 128"
    using assms unfolding sha512_rep_def k_def n_def by blast+
  have msg: "length msg = k * 128 + n" using a(2) by (simp add: k_def)
  have n: "n < 128" using a(2) by simp
  have "sha512_bits Nh l = (sha512_bits (s5_Nh c) (s5_Nl c) + 8 * length inp) mod 2 ^ 128"
    unfolding Nh_def by (rule sha512_bits_update) (simp add: l_def)
  also have "\<dots> = 8 * length (msg @ inp) mod 2 ^ 128" by (simp add: a(5) mod_simps algebra_simps)
  finally have bits: "sha512_bits Nh l = 8 * length (msg @ inp) mod 2 ^ 128" .
  define p where "p = mem_write n (take (128 - n) inp) (s5_p c)"
  define c2 where "c2 = c1\<lparr>s5_p := p, s5_num := 0, s5_h := sha512_block_data_order (s5_h c) p 1\<rparr>"
  have upd: "SHA512_Update c inp =
    (if n \<noteq> 0 then
       if length inp < 128 - n then c1\<lparr>s5_p := mem_write n inp (s5_p c), s5_num := n + length inp\<rparr>
       else sha512_update_blocks c2 (drop (128 - n) inp)
     else sha512_update_blocks c1 inp)"
    using False unfolding SHA512_Update_def Let_def c2_def p_def c1_def Nh_def l_def n_def by (simp add: SHA512_CBLOCK_def)
  consider "n = 0" | "n \<noteq> 0" "length inp < 128 - n" | "n \<noteq> 0" "128 - n \<le> length inp" by linarith
  then show ?thesis
  proof cases
    case 1
    have "sha512_rep h0 (msg @ inp) (sha512_update_blocks c1 inp)"
      by (rule sha512_update_blocks [of c1 h0 msg k]) (use 1 a msg bits in \<open>simp_all add: c1_def n_def\<close>)
    with 1 show ?thesis unfolding upd by simp
  next
    case 2
    have e: "length (msg @ inp) = n + length inp + k * 128" using msg by simp
    have m: "length (msg @ inp) div 128 = k" "length (msg @ inp) mod 128 = n + length inp"
      unfolding e using 2 by simp_all
    have "take (n + length inp) (mem_write n inp (s5_p c)) = take n (s5_p c) @ inp" "length (mem_write n inp (s5_p c)) = 128"
      using n 2 a(3) by (simp_all add: take_mem_write_end length_mem_write)
    moreover have "run_blocks sha512_compress 128 h0 (msg @ inp) k = s5_h c"
      unfolding a(1) using msg by (intro run_blocks_append) simp
    moreover have "drop (128 * k) (msg @ inp) = take n (s5_p c) @ inp" using msg a(4) by simp
    ultimately show ?thesis using 2 bits unfolding upd sha512_rep_def m by (simp add: c1_def)
  next
    case 3
    define first where "first = take (128 - n) inp"
    define m where "m = msg @ first"
    have f: "length first = 128 - n" using 3 by (simp add: first_def)
    have p: "p = take n (s5_p c) @ first" "length p = 128"
      using f n a(3) by (simp_all add: p_def mem_write_def flip: first_def)
    have "m = take (k * 128) msg @ p"
      using msg a(4) by (simp add: m_def p(1) mult.commute flip: append_assoc)
    moreover have "run_blocks sha512_compress 128 h0 (take (k * 128) msg) k = s5_h c"
      using run_blocks_append [of k 128 "take (k * 128) msg" sha512_compress h0 "drop (k * 128) msg"] msg a(1) by simp
    ultimately have h: "sha512_block_data_order (s5_h c) p 1 = run_blocks sha512_compress 128 h0 m (k + 1)"
      using sha512_compress_block [of "take (k * 128) msg" k p h0] msg p(2) by simp
    have mm: "length m = (k + 1) * 128" "m @ drop (128 - n) inp = msg @ inp"
      using msg f n by (simp_all add: m_def first_def)
    have "sha512_rep h0 (m @ drop (128 - n) inp) (sha512_update_blocks c2 (drop (128 - n) inp))"
      by (rule sha512_update_blocks [of c2 h0 m "k + 1"]) (use bits mm p(2) h in \<open>simp_all add: c2_def c1_def\<close>)
    then show ?thesis using 3 unfolding upd mm(2) by simp
  qed
qed

lemma sha512_rep_updates: "sha512_rep h0 msg c \<Longrightarrow> sha512_rep h0 (msg @ concat ds) (foldl SHA512_Update c ds)"
proof (induction ds arbitrary: msg c)
  case (Cons d ds)
  from Cons.IH [OF sha512_rep_update [OF Cons.prems, of d]] show ?case by simp
qed simp

lemma sha512_rep_reset: "length (s5_p c) = 128 \<Longrightarrow> sha512_rep h0 [] (sha512_reset h0 len c)"
  by (simp add: sha512_rep_def sha512_reset_def sha512_bits_def)

subsection \<open>The padding\<close>

theorem sha512_rep_final:
  assumes "sha512_rep h0 msg c"
  shows "fst (sha512_final_impl c) = concat (map (\<lambda>i. CRYPTO_store_u64_be (sha512_hash h0 msg ! i)) [0..<s5_md_len c div 8])"
proof -
  define k where "k = length msg div 128"
  define n where "n = s5_num c"
  define full part where "full = take (k * 128) msg" and "part = drop (k * 128) msg"
  define L where "L = be_bytes 16 (8 * length msg mod 2 ^ 128)"
  have a: "s5_h c = run_blocks sha512_compress 128 h0 msg k" "n = length msg mod 128" "length (s5_p c) = 128"
    "take n (s5_p c) = part" "sha512_bits (s5_Nh c) (s5_Nl c) = 8 * length msg mod 2 ^ 128"
    using assms unfolding sha512_rep_def k_def n_def part_def mult.commute [of _ 128] by blast+
  have len: "length msg = k * 128 + n" using a(2) by (simp add: k_def)
  have n: "n < 128" "length part = n" "length full = k * 128" "msg = full @ part"
    using len a(2) by (simp_all add: part_def full_def)
  have L: "length L = 16" by (simp add: L_def)
  have st: "CRYPTO_store_u64_be (s5_Nh c) @ CRYPTO_store_u64_be (s5_Nl c) = L"
    by (simp only: L_def sha512_bits_bytes a(5))
  have h: "s5_h c = run_blocks sha512_compress 128 h0 full k"
    using run_blocks_append [of k 128 full sha512_compress h0 part] n a(1) by simp
  define d where "d = (s5_p c)[n := 0x80]"
  have d: "length d = 128" "take (n + 1) d = part @ [0x80]"
    using n(1) a(3,4) by (simp_all add: d_def take_Suc_conv_app_nth)
  define fin where "fin h data m = sha512_block_data_order h
      (mem_write 120 (CRYPTO_store_u64_be (s5_Nl c)) (mem_write 112 (CRYPTO_store_u64_be (s5_Nh c))
        (mem_write m (replicate (112 - m) 0) data))) 1" for h data m
  define out where "out h = concat (map (\<lambda>i. CRYPTO_store_u64_be (h ! i)) [0..<s5_md_len c div 8])" for h :: "u64 list"
  have fin: "fst (sha512_final_impl c) =
      (if n + 1 > 112 then
         out (fin (sha512_block_data_order (s5_h c) (mem_write (n + 1) (replicate (128 - (n + 1)) 0) d) 1)
           (mem_write (n + 1) (replicate (128 - (n + 1)) 0) d) 0)
       else out (fin (s5_h c) d (n + 1)))"
    unfolding sha512_final_impl_def Let_def n_def [symmetric] d_def [symmetric] SHA512_CBLOCK_def
    by (cases "n + 1 > 112") (simp_all add: fin_def out_def)
  have fin_eq: "fin h' data m = sha512_block_data_order h' (take m data @ replicate (112 - m) 0 @ L) 1"
    if "length data = 128" "m \<le> 112" for h' data m
  proof -
    have "length (CRYPTO_store_u64_be w) = 8" for w by (simp add: store_u64_be)
    with that show ?thesis by (simp add: fin_def mem_write_def flip: st)
  qed
  define p where "p = msg @ sha512_pad (length msg)"
  have hash: "sha512_hash h0 msg = run_blocks sha512_compress 128 h0 p (length p div 128)"
    by (simp add: sha512_hash_def p_def)
  show ?thesis unfolding out_def [symmetric]
  proof (cases "n + 17 \<le> 128")
    case True
    have e: "length msg + 17 = n + 17 + k * 128" using len by simp
    have z: "(128 - (length msg + 17) mod 128) mod 128 = 111 - n"
      unfolding e using True by (cases "n + 17 = 128") simp_all
    define blk where "blk = part @ 0x80 # replicate (111 - n) 0 @ L"
    have blk: "length blk = 128" using True n(2) L by (simp add: blk_def)
    have "p = full @ blk" unfolding p_def sha512_pad_def z blk_def L_def using n(4) by simp
    then have p: "p = full @ blk" "length p div 128 = k + 1" using blk n(3) by simp_all
    have "fst (sha512_final_impl c) = out (fin (s5_h c) d (n + 1))" using True by (simp add: fin)
    also have "fin (s5_h c) d (n + 1) = sha512_block_data_order (s5_h c) blk 1"
      using fin_eq [OF d(1), of "n + 1" "s5_h c"] True unfolding d(2) by (simp add: blk_def)
    also have "\<dots> = sha512_hash h0 msg"
      unfolding h hash p(2) unfolding p(1) by (rule sha512_compress_block [OF n(3) blk])
    finally show "fst (sha512_final_impl c) = out (sha512_hash h0 msg)" .
  next
    case False
    have e: "length msg + 17 = n + 17 - 128 + (k + 1) * 128" using False len by simp
    have "(length msg + 17) mod 128 = n + 17 - 128" unfolding e mod_mult_self1 using n(1) by (intro mod_less) linarith
    then have z: "(128 - (length msg + 17) mod 128) mod 128 = 127 - n + 112" using False n(1) by simp
    define b1 b2 where "b1 = part @ 0x80 # replicate (127 - n) 0" and "b2 = replicate 112 0 @ L"
    have blk: "length b1 = 128" "length b2 = 128" using n(1,2) L by (simp_all add: b1_def b2_def)
    have "p = (full @ b1) @ b2"
      unfolding p_def sha512_pad_def z b1_def b2_def L_def replicate_add using n(4) by simp
    then have p: "p = (full @ b1) @ b2" "length p div 128 = k + 1 + 1" using blk n(3) by simp_all
    have b1: "mem_write (n + 1) (replicate (128 - (n + 1)) 0) d = b1"
      using n(1) d unfolding mem_write_def d(2) b1_def by simp
    have "fst (sha512_final_impl c) = out (fin (sha512_block_data_order (s5_h c) b1 1) b1 0)"
      using False unfolding fin b1 by simp
    also have "fin (sha512_block_data_order (s5_h c) b1 1) b1 0 = sha512_block_data_order (sha512_block_data_order (s5_h c) b1 1) b2 1"
      using fin_eq [OF blk(1), of 0] by (simp add: b2_def)
    also have "\<dots> = sha512_hash h0 msg"
      unfolding h hash p(2) sha512_compress_block [OF n(3) blk(1)] unfolding p(1)
      using n(3) blk(1) by (intro sha512_compress_block [OF _ blk(2)]) simp
    finally show "fst (sha512_final_impl c) = out (sha512_hash h0 msg)" .
  qed
qed

lemma s5_md_len_update: "s5_md_len (SHA512_Update c d) = s5_md_len c"
  by (simp add: SHA512_Update_def sha512_update_blocks_def Let_def split: if_splits)

lemma s5_md_len_updates: "s5_md_len (foldl SHA512_Update c ds) = s5_md_len c"
  by (induction ds arbitrary: c) (simp_all add: s5_md_len_update)

lemma length_sha512_compress: "length (sha512_compress H M) = 8"
  by (simp add: sha512_compress_def)

lemma length_sha512_hash: "length h0 = 8 \<Longrightarrow> length (sha512_hash h0 msg) = 8"
  by (simp add: sha512_hash_def Let_def length_run_blocks length_sha512_compress)

theorem sha512_stream:
  assumes "length (s5_p ctx) = 128" "length h0 = 8" "len \<le> 64"
  shows "fst (sha512_final_impl (foldl SHA512_Update (sha512_reset h0 len ctx) ds)) = sha512_digest h0 len (concat ds)"
proof -
  have "sha512_rep h0 ([] @ concat ds) (foldl SHA512_Update (sha512_reset h0 len ctx) ds)"
    by (rule sha512_rep_updates [OF sha512_rep_reset [OF assms(1)]])
  from sha512_rep_final [OF this]
  have "fst (sha512_final_impl (foldl SHA512_Update (sha512_reset h0 len ctx) ds)) =
      concat (map (\<lambda>i. CRYPTO_store_u64_be (sha512_hash h0 (concat ds) ! i)) [0..<len div 8])"
    by (simp add: s5_md_len_updates sha512_reset_def)
  also have "map (\<lambda>i. CRYPTO_store_u64_be (sha512_hash h0 (concat ds) ! i)) [0..<len div 8] =
      map (\<lambda>w. be_bytes 8 (unat w)) (take (len div 8) (sha512_hash h0 (concat ds)))"
    by (rule nth_equalityI) (use assms(3) length_sha512_hash [OF assms(2), of "concat ds"] in \<open>simp_all add: store_u64_be\<close>)
  finally show ?thesis by (simp only: sha512_digest_def)
qed

section \<open>Properties\<close>

lemma sha512_streams:
  assumes "length (s5_p ctx) = 128"
  shows "fst (SHA512_Final (foldl SHA512_Update (SHA512_Init ctx) ds)) = fips_sha512 (concat ds)"
    and "fst (SHA384_Final (foldl SHA384_Update (SHA384_Init ctx) ds)) = fips_sha384 (concat ds)"
    and "fst (SHA512_256_Final (foldl SHA512_256_Update (SHA512_256_Init ctx) ds)) = fips_sha512_256 (concat ds)"
proof -
  have u: "SHA384_Update = SHA512_Update" "SHA512_256_Update = SHA512_Update"
    by (simp_all add: fun_eq_iff SHA384_Update_def SHA512_256_Update_def)
  have l: "length fips_512_h = 8" "length fips_384_h = 8" "length fips_512_256_h = 8"
    by (simp_all add: SHA512_h_def SHA384_h_def SHA512_256_h_def flip: SHA512_h_fips SHA384_h_fips SHA512_256_h_fips)
  show "fst (SHA512_Final (foldl SHA512_Update (SHA512_Init ctx) ds)) = fips_sha512 (concat ds)"
    unfolding SHA512_Final_def SHA512_Init_def SHA512_h_fips SHA512_DIGEST_LENGTH_def fips_sha512_def
    by (rule sha512_stream [OF assms l(1)]) simp
  show "fst (SHA384_Final (foldl SHA384_Update (SHA384_Init ctx) ds)) = fips_sha384 (concat ds)"
    unfolding SHA384_Final_def SHA384_Init_def u SHA384_h_fips SHA384_DIGEST_LENGTH_def fips_sha384_def
    by (rule sha512_stream [OF assms l(2)]) simp
  show "fst (SHA512_256_Final (foldl SHA512_256_Update (SHA512_256_Init ctx) ds)) = fips_sha512_256 (concat ds)"
    unfolding SHA512_256_Final_def SHA512_256_Init_def u SHA512_256_h_fips SHA512_256_DIGEST_LENGTH_def fips_sha512_256_def
    by (rule sha512_stream [OF assms l(3)]) simp
qed

text \<open>C15: SHA-512, SHA-384 and SHA-512/256 compute the digests of FIPS 180-4 however the message is cut, and whatever the
  buffer of the context holds when it is initialised. The specification computes its 80 constants and the initial values of
  SHA-512 and SHA-384 from the roots of the primes, has those of SHA-512/256 as a list of its own, and its own ``Ch'' and
  ``Maj''.\<close>

theorem sha512_is_fips:
  assumes "length (s5_p ctx) = 128"
  shows "fst (SHA512_Final (foldl SHA512_Update (SHA512_Init ctx) ds)) = fips_sha512 (concat ds) \<and>
    fst (SHA384_Final (foldl SHA384_Update (SHA384_Init ctx) ds)) = fips_sha384 (concat ds) \<and>
    fst (SHA512_256_Final (foldl SHA512_256_Update (SHA512_256_Init ctx) ds)) = fips_sha512_256 (concat ds)"
  using sha512_streams [OF assms] by blast

definition sha512_ctx_example :: sha512_ctx where
  "sha512_ctx_example = \<lparr>s5_h = [], s5_Nl = 7, s5_Nh = 7, s5_p = replicate 128 0xaa, s5_num = 5, s5_md_len = 0\<rparr>"

theorem sha512_is_fips_witness:
  "fst (SHA512_Final (foldl SHA512_Update (SHA512_Init sha512_ctx_example) [[1, 2], [], [3]])) =
    fips_sha512 [1, 2, 3]"
  using sha512_is_fips [of sha512_ctx_example "[[1, 2], [], [3]]"] by (simp add: sha512_ctx_example_def)

end
