(* ===== verification/Evp_Digest.thy ===== *)
theory Evp_Digest
  imports Md5 Sha512 Mem "HOL-Library.Monad_Syntax"
begin

text \<open>
  The digest layer (\<^verbatim>\<open>crypto/fipsmodule/digest/digest.c\<close>, \<^verbatim>\<open>digests.c\<close>): the method tables of the nine digests, contexts, and
  the operations that go through the tables. The locale \<open>stream_digest\<close> is the contract of a table: what finishing yields
  after any updates, and that the memory can be used again. It is interpreted on every table of the model (\<open>evp\<close>), from
  the theorems of the digests. \<open>evp_rep\<close> says what message a context represents; the laws \<open>DigestInit\<close>, \<open>DigestUpdate\<close>,
  \<open>DigestFinal\<close>, \<open>copy_ok\<close> and \<open>copy_same\<close> are all the users of the layer rely on.
\<close>

section \<open>The methods of the digests\<close>

subsection \<open>The memory of a context\<close>

text \<open>The block of \<^verbatim>\<open>ctx_size\<close> bytes that \<^verbatim>\<open>md_data\<close> points to holds the state of a digest once a method has written it. Before that
  it is fresh memory; \<^verbatim>\<open>OPENSSL_cleanse\<close> makes it zeros. The views are what a method sees in the block: the state,
  and in bytes it has not written zeros. Of fresh memory, which the initialisation alone reaches, only the buffer of
  \<^verbatim>\<open>SHA512_CTX\<close> is kept, as only this initialisation leaves it as it is.\<close>

datatype md_memory =
    Raw_memory "byte list"
  | Md4_data md_ctx
  | Md5_data md_ctx
  | Sha1_data sha_ctx
  | Sha256_data sha256_ctx
  | Sha512_data sha512_ctx
  | Md5_sha1_data md_ctx sha_ctx

definition zero_md32 :: "nat \<Rightarrow> md32_ctx" where
  "zero_md32 words = \<lparr>md_h = replicate words 0, md_Nl = 0, md_Nh = 0, md_data = replicate 64 0, md_num = 0\<rparr>"

definition md4_view :: "md_memory \<Rightarrow> md_ctx" where
  "md4_view m = (case m of Md4_data c \<Rightarrow> c | _ \<Rightarrow> zero_md32 4)"

definition md5_view :: "md_memory \<Rightarrow> md_ctx" where
  "md5_view m = (case m of Md5_data c \<Rightarrow> c | _ \<Rightarrow> zero_md32 4)"

definition sha1_view :: "md_memory \<Rightarrow> sha_ctx" where
  "sha1_view m = (case m of Sha1_data c \<Rightarrow> c | _ \<Rightarrow> zero_md32 5)"

definition sha256_view :: "md_memory \<Rightarrow> sha256_ctx" where
  "sha256_view m =
     (case m of
        Sha256_data c \<Rightarrow> c
      | _ \<Rightarrow> \<lparr>md_h = replicate 8 0, md_Nl = 0, md_Nh = 0, md_data = replicate 64 0, md_num = 0, md_len = 0\<rparr>)"

definition sha512_view :: "md_memory \<Rightarrow> sha512_ctx" where
  "sha512_view m =
     (case m of
        Sha512_data c \<Rightarrow> c
      | Raw_memory b \<Rightarrow>
          \<lparr>s5_h = replicate 8 0, s5_Nl = 0, s5_Nh = 0, s5_p = take 128 (drop 80 b), s5_num = 0, s5_md_len = 0\<rparr>
      | _ \<Rightarrow> \<lparr>s5_h = replicate 8 0, s5_Nl = 0, s5_Nh = 0, s5_p = replicate 128 0, s5_num = 0, s5_md_len = 0\<rparr>)"

definition md5_sha1_view :: "md_memory \<Rightarrow> md_ctx \<times> sha_ctx" where
  "md5_sha1_view m = (case m of Md5_sha1_data c d \<Rightarrow> (c, d) | _ \<Rightarrow> (zero_md32 4, zero_md32 5))"

subsection \<open>The method tables\<close>

record EVP_MD =
  evp_type :: nat
  evp_md_size :: nat
  evp_flags :: u32
  evp_init :: "md_memory \<Rightarrow> md_memory"
  evp_update :: "md_memory \<Rightarrow> byte list \<Rightarrow> md_memory"
  evp_final :: "md_memory \<Rightarrow> byte list \<times> md_memory"
  evp_block_size :: nat
  evp_ctx_size :: nat

definition md4_init :: "md_memory \<Rightarrow> md_memory" where
  "md4_init m = Md4_data MD4_Init"

definition md4_update :: "md_memory \<Rightarrow> byte list \<Rightarrow> md_memory" where
  "md4_update m data = Md4_data (MD4_Update (md4_view m) data)"

definition md4_final :: "md_memory \<Rightarrow> byte list \<times> md_memory" where
  "md4_final m = (let (out, c) = MD4_Final (md4_view m) in (out, Md4_data c))"

definition EVP_md4 :: EVP_MD where
  "EVP_md4 = \<lparr>evp_type = 257, evp_md_size = 16, evp_flags = 0, evp_init = md4_init, evp_update = md4_update,
     evp_final = md4_final, evp_block_size = 64, evp_ctx_size = 92\<rparr>"

definition md5_init :: "md_memory \<Rightarrow> md_memory" where
  "md5_init m = Md5_data MD5_Init"

definition md5_update :: "md_memory \<Rightarrow> byte list \<Rightarrow> md_memory" where
  "md5_update m data = Md5_data (MD5_Update (md5_view m) data)"

definition md5_final :: "md_memory \<Rightarrow> byte list \<times> md_memory" where
  "md5_final m = (let (out, c) = MD5_Final (md5_view m) in (out, Md5_data c))"

definition EVP_md5 :: EVP_MD where
  "EVP_md5 = \<lparr>evp_type = 4, evp_md_size = 16, evp_flags = 0, evp_init = md5_init, evp_update = md5_update,
     evp_final = md5_final, evp_block_size = 64, evp_ctx_size = 92\<rparr>"

definition sha1_init :: "md_memory \<Rightarrow> md_memory" where
  "sha1_init m = Sha1_data SHA1_Init"

definition sha1_update :: "md_memory \<Rightarrow> byte list \<Rightarrow> md_memory" where
  "sha1_update m data = Sha1_data (SHA1_Update (sha1_view m) data)"

definition sha1_final :: "md_memory \<Rightarrow> byte list \<times> md_memory" where
  "sha1_final m = (let (out, c) = SHA1_Final (sha1_view m) in (out, Sha1_data c))"

definition EVP_sha1 :: EVP_MD where
  "EVP_sha1 = \<lparr>evp_type = 64, evp_md_size = 20, evp_flags = 0, evp_init = sha1_init, evp_update = sha1_update,
     evp_final = sha1_final, evp_block_size = 64, evp_ctx_size = 96\<rparr>"

text \<open>The results of \<^verbatim>\<open>SHA224_Final\<close> and \<^verbatim>\<open>SHA256_Final\<close> are dropped by \<^verbatim>\<open>CHECK\<close>; nothing is written when they fail.\<close>

definition written :: "byte list option \<Rightarrow> byte list" where
  "written out = (case out of None \<Rightarrow> [] | Some b \<Rightarrow> b)"

definition sha224_init :: "md_memory \<Rightarrow> md_memory" where
  "sha224_init m = Sha256_data SHA224_Init"

definition sha224_update :: "md_memory \<Rightarrow> byte list \<Rightarrow> md_memory" where
  "sha224_update m data = Sha256_data (SHA224_Update (sha256_view m) data)"

definition sha224_final :: "md_memory \<Rightarrow> byte list \<times> md_memory" where
  "sha224_final m = (let (out, c) = SHA224_Final (sha256_view m) in (written out, Sha256_data c))"

definition EVP_sha224 :: EVP_MD where
  "EVP_sha224 = \<lparr>evp_type = 675, evp_md_size = SHA224_DIGEST_LENGTH, evp_flags = 0, evp_init = sha224_init, evp_update = sha224_update,
     evp_final = sha224_final, evp_block_size = 64, evp_ctx_size = 112\<rparr>"

definition sha256_init :: "md_memory \<Rightarrow> md_memory" where
  "sha256_init m = Sha256_data SHA256_Init"

definition sha256_update :: "md_memory \<Rightarrow> byte list \<Rightarrow> md_memory" where
  "sha256_update m data = Sha256_data (SHA256_Update (sha256_view m) data)"

definition sha256_final :: "md_memory \<Rightarrow> byte list \<times> md_memory" where
  "sha256_final m = (let (out, c) = SHA256_Final (sha256_view m) in (written out, Sha256_data c))"

definition EVP_sha256 :: EVP_MD where
  "EVP_sha256 = \<lparr>evp_type = 672, evp_md_size = SHA256_DIGEST_LENGTH, evp_flags = 0, evp_init = sha256_init, evp_update = sha256_update,
     evp_final = sha256_final, evp_block_size = 64, evp_ctx_size = 112\<rparr>"

definition sha384_init :: "md_memory \<Rightarrow> md_memory" where
  "sha384_init m = Sha512_data (SHA384_Init (sha512_view m))"

definition sha384_update :: "md_memory \<Rightarrow> byte list \<Rightarrow> md_memory" where
  "sha384_update m data = Sha512_data (SHA384_Update (sha512_view m) data)"

definition sha384_final :: "md_memory \<Rightarrow> byte list \<times> md_memory" where
  "sha384_final m = (let (out, c) = SHA384_Final (sha512_view m) in (out, Sha512_data c))"

definition EVP_sha384 :: EVP_MD where
  "EVP_sha384 = \<lparr>evp_type = 673, evp_md_size = SHA384_DIGEST_LENGTH, evp_flags = 0, evp_init = sha384_init, evp_update = sha384_update,
     evp_final = sha384_final, evp_block_size = 128, evp_ctx_size = 216\<rparr>"

definition sha512_init :: "md_memory \<Rightarrow> md_memory" where
  "sha512_init m = Sha512_data (SHA512_Init (sha512_view m))"

definition sha512_update :: "md_memory \<Rightarrow> byte list \<Rightarrow> md_memory" where
  "sha512_update m data = Sha512_data (SHA512_Update (sha512_view m) data)"

definition sha512_final :: "md_memory \<Rightarrow> byte list \<times> md_memory" where
  "sha512_final m = (let (out, c) = SHA512_Final (sha512_view m) in (out, Sha512_data c))"

definition EVP_sha512 :: EVP_MD where
  "EVP_sha512 = \<lparr>evp_type = 674, evp_md_size = SHA512_DIGEST_LENGTH, evp_flags = 0, evp_init = sha512_init, evp_update = sha512_update,
     evp_final = sha512_final, evp_block_size = 128, evp_ctx_size = 216\<rparr>"

definition sha512_256_init :: "md_memory \<Rightarrow> md_memory" where
  "sha512_256_init m = Sha512_data (SHA512_256_Init (sha512_view m))"

definition sha512_256_update :: "md_memory \<Rightarrow> byte list \<Rightarrow> md_memory" where
  "sha512_256_update m data = Sha512_data (SHA512_256_Update (sha512_view m) data)"

definition sha512_256_final :: "md_memory \<Rightarrow> byte list \<times> md_memory" where
  "sha512_256_final m = (let (out, c) = SHA512_256_Final (sha512_view m) in (out, Sha512_data c))"

definition EVP_sha512_256 :: EVP_MD where
  "EVP_sha512_256 = \<lparr>evp_type = 962, evp_md_size = SHA512_256_DIGEST_LENGTH, evp_flags = 0, evp_init = sha512_256_init,
     evp_update = sha512_256_update, evp_final = sha512_256_final, evp_block_size = 128, evp_ctx_size = 216\<rparr>"

definition md5_sha1_init :: "md_memory \<Rightarrow> md_memory" where
  "md5_sha1_init m = Md5_sha1_data MD5_Init SHA1_Init"

definition md5_sha1_update :: "md_memory \<Rightarrow> byte list \<Rightarrow> md_memory" where
  "md5_sha1_update m data =
     (let (md5, sha1) = md5_sha1_view m in Md5_sha1_data (MD5_Update md5 data) (SHA1_Update sha1 data))"

definition md5_sha1_final :: "md_memory \<Rightarrow> byte list \<times> md_memory" where
  "md5_sha1_final m =
     (let (md5, sha1) = md5_sha1_view m;
          (out1, md5) = MD5_Final md5;
          (out2, sha1) = SHA1_Final sha1
      in (out1 @ out2, Md5_sha1_data md5 sha1))"

definition EVP_md5_sha1 :: EVP_MD where
  "EVP_md5_sha1 = \<lparr>evp_type = 114, evp_md_size = 16 + 20, evp_flags = 0, evp_init = md5_sha1_init, evp_update = md5_sha1_update,
     evp_final = md5_sha1_final, evp_block_size = 64, evp_ctx_size = 92 + 96\<rparr>"

text \<open>The tables are static objects; a pointer to one of them is its name, and two pointers are equal when the names are.\<close>

datatype md_ptr = P_md4 | P_md5 | P_sha1 | P_sha224 | P_sha256 | P_sha384 | P_sha512 | P_sha512_256 | P_md5_sha1

fun md_at :: "md_ptr \<Rightarrow> EVP_MD" where
  "md_at P_md4 = EVP_md4"
| "md_at P_md5 = EVP_md5"
| "md_at P_sha1 = EVP_sha1"
| "md_at P_sha224 = EVP_sha224"
| "md_at P_sha256 = EVP_sha256"
| "md_at P_sha384 = EVP_sha384"
| "md_at P_sha512 = EVP_sha512"
| "md_at P_sha512_256 = EVP_sha512_256"
| "md_at P_md5_sha1 = EVP_md5_sha1"

definition EVP_MD_type :: "md_ptr \<Rightarrow> nat" where "EVP_MD_type md = evp_type (md_at md)"
definition EVP_MD_nid :: "md_ptr \<Rightarrow> nat" where "EVP_MD_nid md = EVP_MD_type md"
definition EVP_MD_flags :: "md_ptr \<Rightarrow> u32" where "EVP_MD_flags md = evp_flags (md_at md)"
definition EVP_MD_size :: "md_ptr \<Rightarrow> nat" where "EVP_MD_size md = evp_md_size (md_at md)"
definition EVP_MD_block_size :: "md_ptr \<Rightarrow> nat" where "EVP_MD_block_size md = evp_block_size (md_at md)"

section \<open>Digest contexts\<close>

text \<open>A context without the data of a signature (\<^verbatim>\<open>pctx\<close>). A null pointer is \<open>None\<close>. The operations that follow pointers
  are \<open>None\<close> as a whole when the code would follow a null pointer.\<close>

record EVP_MD_CTX =
  digest :: "md_ptr option"
  ctx_mem :: "md_memory option"

definition sizeof_EVP_MD_CTX :: nat where "sizeof_EVP_MD_CTX = 32"
definition EVP_MAX_MD_SIZE :: nat where "EVP_MAX_MD_SIZE = 64"
definition EVP_MAX_MD_BLOCK_SIZE :: nat where "EVP_MAX_MD_BLOCK_SIZE = 128"

definition EVP_MD_CTX_init :: EVP_MD_CTX where
  "EVP_MD_CTX_init = \<lparr>digest = None, ctx_mem = None\<rparr>"

definition EVP_MD_CTX_new :: "heap_env \<Rightarrow> EVP_MD_CTX option" where
  "EVP_MD_CTX_new env = (if OPENSSL_malloc env sizeof_EVP_MD_CTX = None then None else Some EVP_MD_CTX_init)"

definition EVP_MD_CTX_create :: "heap_env \<Rightarrow> EVP_MD_CTX option" where
  "EVP_MD_CTX_create env = EVP_MD_CTX_new env"

definition EVP_MD_CTX_cleanup :: "EVP_MD_CTX \<Rightarrow> EVP_MD_CTX" where
  "EVP_MD_CTX_cleanup ctx = EVP_MD_CTX_init"

text \<open>Copying returns success and the new destination.\<close>

definition EVP_MD_CTX_copy_ex :: "heap_env \<Rightarrow> EVP_MD_CTX \<Rightarrow> EVP_MD_CTX option \<Rightarrow> bool \<times> EVP_MD_CTX" where
  "EVP_MD_CTX_copy_ex env out src =
     (case src of
        None \<Rightarrow> (False, out)
      | Some src \<Rightarrow>
        (case digest src of
           None \<Rightarrow> (False, out)
         | Some md \<Rightarrow>
           let tmp_buf =
                 (if digest out \<noteq> Some md
                  then map_option Raw_memory (OPENSSL_malloc env (evp_ctx_size (md_at md)))
                  else ctx_mem out)
           in if digest out \<noteq> Some md \<and> tmp_buf = None then (False, out)
              else (True, (EVP_MD_CTX_cleanup out)\<lparr>digest := Some md, ctx_mem := ctx_mem src\<rparr>)))"

definition EVP_MD_CTX_move :: "EVP_MD_CTX \<Rightarrow> EVP_MD_CTX \<Rightarrow> EVP_MD_CTX \<times> EVP_MD_CTX" where
  "EVP_MD_CTX_move out src = (src, EVP_MD_CTX_init)"

definition EVP_MD_CTX_copy :: "heap_env \<Rightarrow> EVP_MD_CTX \<Rightarrow> EVP_MD_CTX option \<Rightarrow> bool \<times> EVP_MD_CTX" where
  "EVP_MD_CTX_copy env out src = EVP_MD_CTX_copy_ex env EVP_MD_CTX_init src"

definition EVP_MD_CTX_reset :: "EVP_MD_CTX \<Rightarrow> EVP_MD_CTX" where
  "EVP_MD_CTX_reset ctx = EVP_MD_CTX_init"

definition EVP_DigestInit_ex :: "heap_env \<Rightarrow> EVP_MD_CTX \<Rightarrow> md_ptr \<Rightarrow> bool \<times> EVP_MD_CTX" where
  "EVP_DigestInit_ex env ctx type =
     (if digest ctx \<noteq> Some type then
        case OPENSSL_malloc env (evp_ctx_size (md_at type)) of
          None \<Rightarrow> (False, ctx)
        | Some block \<Rightarrow>
            (True, ctx\<lparr>ctx_mem := Some (evp_init (md_at type) (Raw_memory block)), digest := Some type\<rparr>)
      else (True, ctx\<lparr>ctx_mem := map_option (evp_init (md_at type)) (ctx_mem ctx)\<rparr>))"

definition EVP_DigestInit :: "heap_env \<Rightarrow> EVP_MD_CTX \<Rightarrow> md_ptr \<Rightarrow> bool \<times> EVP_MD_CTX" where
  "EVP_DigestInit env ctx type = EVP_DigestInit_ex env EVP_MD_CTX_init type"

definition EVP_DigestUpdate :: "EVP_MD_CTX \<Rightarrow> byte list \<Rightarrow> EVP_MD_CTX option" where
  "EVP_DigestUpdate ctx data =
     do {
       md \<leftarrow> digest ctx;
       m \<leftarrow> ctx_mem ctx;
       Some (ctx\<lparr>ctx_mem := Some (evp_update (md_at md) m data)\<rparr>)
     }"

text \<open>The digest, its length, and the context, whose memory is cleansed.\<close>

definition EVP_DigestFinal_ex :: "EVP_MD_CTX \<Rightarrow> (byte list \<times> nat \<times> EVP_MD_CTX) option" where
  "EVP_DigestFinal_ex ctx =
     do {
       md \<leftarrow> digest ctx;
       m \<leftarrow> ctx_mem ctx;
       Some (fst (evp_final (md_at md) m), evp_md_size (md_at md),
         ctx\<lparr>ctx_mem := Some (Raw_memory (replicate (evp_ctx_size (md_at md)) 0))\<rparr>)
     }"

definition EVP_DigestFinal :: "EVP_MD_CTX \<Rightarrow> (byte list \<times> nat \<times> EVP_MD_CTX) option" where
  "EVP_DigestFinal ctx =
     do {
       (out, size, ctx) \<leftarrow> EVP_DigestFinal_ex ctx;
       Some (out, size, EVP_MD_CTX_cleanup ctx)
     }"

text \<open>The inner result is \<open>None\<close> when the function returns zero.\<close>

definition EVP_Digest :: "heap_env \<Rightarrow> byte list \<Rightarrow> md_ptr \<Rightarrow> (byte list \<times> nat) option option" where
  "EVP_Digest env data type =
     (let (ok, ctx) = EVP_DigestInit_ex env EVP_MD_CTX_init type in
      if ok then
        do {
          ctx \<leftarrow> EVP_DigestUpdate ctx data;
          (out, size, ctx) \<leftarrow> EVP_DigestFinal_ex ctx;
          Some (Some (out, size))
        }
      else Some None)"

definition EVP_MD_CTX_md :: "EVP_MD_CTX option \<Rightarrow> md_ptr option" where
  "EVP_MD_CTX_md ctx = (case ctx of None \<Rightarrow> None | Some ctx \<Rightarrow> digest ctx)"

definition EVP_MD_CTX_size :: "EVP_MD_CTX option \<Rightarrow> nat option" where
  "EVP_MD_CTX_size ctx = map_option EVP_MD_size (EVP_MD_CTX_md ctx)"

definition EVP_MD_CTX_block_size :: "EVP_MD_CTX option \<Rightarrow> nat option" where
  "EVP_MD_CTX_block_size ctx = map_option EVP_MD_block_size (EVP_MD_CTX_md ctx)"

definition EVP_MD_CTX_type :: "EVP_MD_CTX option \<Rightarrow> nat option" where
  "EVP_MD_CTX_type ctx = map_option EVP_MD_type (EVP_MD_CTX_md ctx)"

section \<open>What every digest promises\<close>

text \<open>The contract of a method table: from usable memory the state after any updates finishes with the hash of their
  concatenation, and the memory is usable again.\<close>

locale stream_digest =
  fixes init :: "'s \<Rightarrow> 's" and update :: "'s \<Rightarrow> byte list \<Rightarrow> 's" and finish :: "'s \<Rightarrow> byte list"
    and hash :: "byte list \<Rightarrow> byte list" and usable :: "'s \<Rightarrow> bool"
  assumes stream: "usable s \<Longrightarrow> finish (foldl update (init s) ds) = hash (concat ds)"
    and reusable: "usable s \<Longrightarrow> usable (foldl update (init s) ds)"

context stream_digest
begin

definition rep :: "byte list \<Rightarrow> 's \<Rightarrow> bool" where
  "rep msg s \<longleftrightarrow> (\<exists>s0 ds. usable s0 \<and> s = foldl update (init s0) ds \<and> msg = concat ds)"

lemma rep_init: "usable s \<Longrightarrow> rep [] (init s)"
  unfolding rep_def by (rule exI [of _ s], rule exI [of _ "[]"]) simp

lemma rep_update: "rep msg s \<Longrightarrow> rep (msg @ d) (update s d)"
proof -
  assume "rep msg s"
  then obtain s0 ds where "usable s0" "s = foldl update (init s0) ds" "msg = concat ds" by (auto simp: rep_def)
  then have "usable s0" "update s d = foldl update (init s0) (ds @ [d])" "msg @ d = concat (ds @ [d])" by simp_all
  then show ?thesis unfolding rep_def by blast
qed

lemma rep_finish: "rep msg s \<Longrightarrow> finish s = hash msg"
  by (auto simp: rep_def stream)

lemma rep_usable: "rep msg s \<Longrightarrow> usable s"
  by (auto simp: rep_def reusable)

end

text \<open>The hash of each table, and the memory it can start from.\<close>

fun evp_hash :: "md_ptr \<Rightarrow> byte list \<Rightarrow> byte list" where
  "evp_hash P_md4 msg = md4_digest msg"
| "evp_hash P_md5 msg = md5_digest msg"
| "evp_hash P_sha1 msg = sha1_digest msg"
| "evp_hash P_sha224 msg = fips_sha224 msg"
| "evp_hash P_sha256 msg = fips_sha256 msg"
| "evp_hash P_sha384 msg = fips_sha384 msg"
| "evp_hash P_sha512 msg = fips_sha512 msg"
| "evp_hash P_sha512_256 msg = fips_sha512_256 msg"
| "evp_hash P_md5_sha1 msg = md5_digest msg @ sha1_digest msg"

definition md_usable :: "md_ptr \<Rightarrow> md_memory \<Rightarrow> bool" where
  "md_usable t m \<longleftrightarrow> (t \<in> {P_sha384, P_sha512, P_sha512_256} \<longrightarrow> length (s5_p (sha512_view m)) = 128)"

lemma foldl_md_updates:
  "foldl md4_update (Md4_data c) ds = Md4_data (foldl MD4_Update c ds)"
  "foldl md5_update (Md5_data c) ds = Md5_data (foldl MD5_Update c ds)"
  "foldl sha1_update (Sha1_data c) ds = Sha1_data (foldl SHA1_Update c ds)"
  "foldl sha224_update (Sha256_data e) ds = Sha256_data (foldl SHA224_Update e ds)"
  "foldl sha256_update (Sha256_data e) ds = Sha256_data (foldl SHA256_Update e ds)"
  "foldl sha384_update (Sha512_data g) ds = Sha512_data (foldl SHA384_Update g ds)"
  "foldl sha512_update (Sha512_data g) ds = Sha512_data (foldl SHA512_Update g ds)"
  "foldl sha512_256_update (Sha512_data g) ds = Sha512_data (foldl SHA512_256_Update g ds)"
  "foldl md5_sha1_update (Md5_sha1_data c c') ds = Md5_sha1_data (foldl MD5_Update c ds) (foldl SHA1_Update c' ds)"
  by (induction ds arbitrary: c c' e g)
    (simp_all add: md4_update_def md5_update_def sha1_update_def sha224_update_def sha256_update_def sha384_update_def
      sha512_update_def sha512_256_update_def md5_sha1_update_def md4_view_def md5_view_def sha1_view_def sha256_view_def
      sha512_view_def md5_sha1_view_def)

lemma sha512_updates_usable:
  assumes "length (s5_p c) = 128"
  shows "length (s5_p (foldl SHA512_Update (sha512_reset h len c) ds)) = 128"
  using sha512_rep_updates [OF sha512_rep_reset [OF assms, of h len], of ds] by (simp add: sha512_rep_def)

lemma sha512_view_data: "sha512_view (Sha512_data c) = c"
  by (simp add: sha512_view_def)

lemma sha384_updates: "SHA384_Update = SHA512_Update" "SHA512_256_Update = SHA512_Update"
  by (simp_all add: fun_eq_iff SHA384_Update_def SHA512_256_Update_def)

lemma md_stream_laws:
  assumes "md_usable t m"
  shows "fst (evp_final (md_at t) (foldl (evp_update (md_at t)) (evp_init (md_at t) m) ds)) = evp_hash t (concat ds) \<and>
    md_usable t (foldl (evp_update (md_at t)) (evp_init (md_at t) m) ds)"
proof (cases t)
  case P_md4
  with md4_stream [of ds] show ?thesis
    by (simp add: EVP_md4_def md4_init_def foldl_md_updates md4_final_def md4_view_def md_usable_def case_prod_beta Let_def)
next
  case P_md5
  with md5_stream [of ds] show ?thesis
    by (simp add: EVP_md5_def md5_init_def foldl_md_updates md5_final_def md5_view_def md_usable_def case_prod_beta Let_def)
next
  case P_sha1
  with sha1_stream [of ds] show ?thesis
    by (simp add: EVP_sha1_def sha1_init_def foldl_md_updates sha1_final_def sha1_view_def md_usable_def case_prod_beta Let_def)
next
  case P_sha224
  with sha256_streams(2) [of ds] show ?thesis
    by (simp add: EVP_sha224_def sha224_init_def foldl_md_updates sha224_final_def sha256_view_def md_usable_def written_def case_prod_beta Let_def)
next
  case P_sha256
  with sha256_streams(1) [of ds] show ?thesis
    by (simp add: EVP_sha256_def sha256_init_def foldl_md_updates sha256_final_def sha256_view_def md_usable_def written_def case_prod_beta Let_def)
next
  case P_sha384
  then have u: "length (s5_p (sha512_view m)) = 128" using assms by (simp add: md_usable_def)
  from P_sha384 sha512_streams(2) [OF u, of ds] sha512_updates_usable [OF u] show ?thesis
    by (simp add: EVP_sha384_def sha384_init_def foldl_md_updates sha384_final_def md_usable_def SHA384_Init_def sha384_updates
        sha512_view_data case_prod_beta Let_def)
next
  case P_sha512
  then have u: "length (s5_p (sha512_view m)) = 128" using assms by (simp add: md_usable_def)
  from P_sha512 sha512_streams(1) [OF u, of ds] sha512_updates_usable [OF u] show ?thesis
    by (simp add: EVP_sha512_def sha512_init_def foldl_md_updates sha512_final_def md_usable_def SHA512_Init_def
        sha512_view_data case_prod_beta Let_def)
next
  case P_sha512_256
  then have u: "length (s5_p (sha512_view m)) = 128" using assms by (simp add: md_usable_def)
  from P_sha512_256 sha512_streams(3) [OF u, of ds] sha512_updates_usable [OF u] show ?thesis
    by (simp add: EVP_sha512_256_def sha512_256_init_def foldl_md_updates sha512_256_final_def md_usable_def SHA512_256_Init_def
        sha384_updates sha512_view_data case_prod_beta Let_def)
next
  case P_md5_sha1
  with md5_stream [of ds] sha1_stream [of ds] show ?thesis
    by (simp add: EVP_md5_sha1_def md5_sha1_init_def foldl_md_updates md5_sha1_final_def md5_sha1_view_def md_usable_def case_prod_beta Let_def)
qed

interpretation evp: stream_digest "evp_init (md_at t)" "evp_update (md_at t)" "\<lambda>m. fst (evp_final (md_at t) m)" "evp_hash t" "md_usable t"
  for t
  by unfold_locales (simp_all add: md_stream_laws)

section \<open>What a context represents\<close>

definition evp_rep :: "md_ptr \<Rightarrow> byte list \<Rightarrow> EVP_MD_CTX \<Rightarrow> bool" where
  "evp_rep t msg ctx \<longleftrightarrow> digest ctx = Some t \<and> (\<exists>m. ctx_mem ctx = Some m \<and> evp.rep t msg m)"

definition evp_wf :: "EVP_MD_CTX \<Rightarrow> bool" where
  "evp_wf ctx \<longleftrightarrow> (case digest ctx of None \<Rightarrow> True | Some t \<Rightarrow> \<exists>m. ctx_mem ctx = Some m \<and> md_usable t m)"

lemma evp_rep_wf: "evp_rep t msg ctx \<Longrightarrow> evp_wf ctx"
  by (auto simp: evp_rep_def evp_wf_def evp.rep_usable)

lemma evp_wf_init [simp]: "evp_wf EVP_MD_CTX_init"
  by (simp add: evp_wf_def EVP_MD_CTX_init_def)

lemma usable_block: "length b = evp_ctx_size (md_at t) \<Longrightarrow> md_usable t (Raw_memory b)"
  by (cases t) (simp_all add: md_usable_def sha512_view_def EVP_sha384_def EVP_sha512_def EVP_sha512_256_def)

lemma DigestInit:
  assumes "evp_wf ctx" "EVP_DigestInit_ex env ctx t = (ok, ctx')"
  shows "if ok then evp_rep t [] ctx' else digest ctx \<noteq> Some t \<and> ctx' = ctx \<and> OPENSSL_malloc env (evp_ctx_size (md_at t)) = None"
  using assms
  by (auto simp: EVP_DigestInit_ex_def evp_rep_def evp_wf_def evp.rep_init usable_block OPENSSL_malloc_length
      split: if_splits option.splits)

lemma DigestInit_ok:
  "digest ctx = Some t \<or> OPENSSL_malloc env (evp_ctx_size (md_at t)) \<noteq> None \<Longrightarrow> fst (EVP_DigestInit_ex env ctx t)"
  by (auto simp: EVP_DigestInit_ex_def split: option.split)

lemma DigestUpdate: "evp_rep t msg ctx \<Longrightarrow> \<exists>ctx'. EVP_DigestUpdate ctx d = Some ctx' \<and> evp_rep t (msg @ d) ctx'"
  by (auto simp: EVP_DigestUpdate_def evp_rep_def evp.rep_update)

lemma DigestFinal:
  "evp_rep t msg ctx \<Longrightarrow>
     \<exists>ctx'. EVP_DigestFinal_ex ctx = Some (evp_hash t msg, EVP_MD_size t, ctx') \<and> digest ctx' = Some t \<and> evp_wf ctx'"
  by (auto simp: EVP_DigestFinal_ex_def evp_rep_def evp_wf_def EVP_MD_size_def evp.rep_finish usable_block)

lemma copy_ok:
  assumes "evp_rep t msg src" "EVP_MD_CTX_copy_ex env out (Some src) = (ok, out')"
  shows "if ok then evp_rep t msg out' else digest out \<noteq> Some t \<and> out' = out \<and> OPENSSL_malloc env (evp_ctx_size (md_at t)) = None"
  using assms by (auto simp: EVP_MD_CTX_copy_ex_def evp_rep_def Let_def split: if_splits)

lemma copy_same: "evp_rep t msg src \<Longrightarrow> digest out = Some t \<Longrightarrow> fst (EVP_MD_CTX_copy_ex env out (Some src))"
  by (simp add: EVP_MD_CTX_copy_ex_def evp_rep_def Let_def)

lemma length_words:
  "length (concat (map (\<lambda>w. be_bytes n (unat w)) h)) = n * length h"
  "length (concat (map (\<lambda>w. rev (be_bytes n (unat w))) h)) = n * length h"
  by (induction h) simp_all

lemma length_evp_hash: "length (evp_hash t msg) = EVP_MD_size t"
proof -
  have d: "length (md4_digest msg) = 16" "length (md5_digest msg) = 16" "length (sha1_digest msg) = 20"
    by (simp_all only: md4_digest_def md5_digest_def le_digest_def sha1_digest_def length_words length_md_hash)
      (simp add: length_sha1_hash fips_sha1_h_def)
  have s2: "length (sha256_digest h0 len msg) = 4 * (len div 4)" if "length h0 = 8" "len \<le> 32" for h0 len
    using that by (simp add: sha256_digest_def length_words length_sha256_hash)
  have s5: "length (sha512_digest h0 len msg) = 8 * (len div 8)" if "length h0 = 8" "len \<le> 64" for h0 len
    using that by (simp add: sha512_digest_def length_words length_sha512_hash)
  have h: "length fips_224_h = 8" "length fips_256_h = 8" "length fips_384_h = 8" "length fips_512_h = 8" "length fips_512_256_h = 8"
    by (simp_all add: SHA224_Init_def SHA256_Init_def sha256_ctx_of_def SHA384_h_def SHA512_h_def SHA512_256_h_def
        flip: SHA224_Init_fips SHA256_Init_fips SHA384_h_fips SHA512_h_fips SHA512_256_h_fips)
  show ?thesis
    by (cases t)
      (simp_all add: d s2 s5 h fips_sha224_def fips_sha256_def fips_sha384_def fips_sha512_def fips_sha512_256_def EVP_MD_size_def EVP_md4_def EVP_md5_def EVP_sha1_def EVP_sha224_def EVP_sha256_def EVP_sha384_def
        EVP_sha512_def EVP_sha512_256_def EVP_md5_sha1_def SHA224_DIGEST_LENGTH_def SHA256_DIGEST_LENGTH_def SHA384_DIGEST_LENGTH_def
        SHA512_DIGEST_LENGTH_def SHA512_256_DIGEST_LENGTH_def)
qed

lemma EVP_MD_size_bounds: "0 < EVP_MD_size t" "EVP_MD_size t \<le> EVP_MAX_MD_SIZE"
  by (cases t; simp add: EVP_MD_size_def EVP_md4_def EVP_md5_def EVP_sha1_def EVP_sha224_def EVP_sha256_def EVP_sha384_def
    EVP_sha512_def EVP_sha512_256_def EVP_md5_sha1_def SHA224_DIGEST_LENGTH_def SHA256_DIGEST_LENGTH_def
    SHA384_DIGEST_LENGTH_def SHA512_DIGEST_LENGTH_def SHA512_256_DIGEST_LENGTH_def EVP_MAX_MD_SIZE_def)+

lemma EVP_MD_block_size_bounds: "EVP_MD_size t \<le> EVP_MD_block_size t" "EVP_MD_block_size t \<le> EVP_MAX_MD_BLOCK_SIZE"
  by (cases t; simp add: EVP_MD_size_def EVP_MD_block_size_def EVP_md4_def EVP_md5_def EVP_sha1_def EVP_sha224_def EVP_sha256_def
    EVP_sha384_def EVP_sha512_def EVP_sha512_256_def EVP_md5_sha1_def SHA224_DIGEST_LENGTH_def SHA256_DIGEST_LENGTH_def
    SHA384_DIGEST_LENGTH_def SHA512_DIGEST_LENGTH_def SHA512_256_DIGEST_LENGTH_def EVP_MAX_MD_BLOCK_SIZE_def)+

section \<open>Properties\<close>

fun EVP_DigestUpdates :: "EVP_MD_CTX \<Rightarrow> byte list list \<Rightarrow> EVP_MD_CTX option" where
  "EVP_DigestUpdates ctx [] = Some ctx"
| "EVP_DigestUpdates ctx (d # ds) = do { ctx \<leftarrow> EVP_DigestUpdate ctx d; EVP_DigestUpdates ctx ds }"

lemma DigestUpdates: "evp_rep t msg ctx \<Longrightarrow> \<exists>ctx'. EVP_DigestUpdates ctx ds = Some ctx' \<and> evp_rep t (msg @ concat ds) ctx'"
proof (induction ds arbitrary: msg ctx)
  case (Cons d ds)
  from DigestUpdate [OF Cons.prems, of d] obtain c where c: "EVP_DigestUpdate ctx d = Some c" "evp_rep t (msg @ d) c" by blast
  from Cons.IH [OF this(2)] show ?case by (simp add: c(1))
qed simp

lemma EVP_Digest_hash:
  "EVP_Digest env data t =
     Some (if OPENSSL_malloc env (evp_ctx_size (md_at t)) = None then None else Some (evp_hash t data, EVP_MD_size t))"
proof -
  obtain ok c where c: "EVP_DigestInit_ex env EVP_MD_CTX_init t = (ok, c)" by force
  note i = DigestInit [OF evp_wf_init c]
  show ?thesis
  proof (cases ok)
    case True
    with i have "evp_rep t [] c" by simp
    from DigestUpdate [OF this, of data] obtain c1 where c1: "EVP_DigestUpdate c data = Some c1" "evp_rep t data c1" by auto
    from DigestFinal [OF c1(2)] obtain c2 where "EVP_DigestFinal_ex c1 = Some (evp_hash t data, EVP_MD_size t, c2)" by blast
    moreover have "OPENSSL_malloc env (evp_ctx_size (md_at t)) \<noteq> None"
      using c True by (auto simp: EVP_DigestInit_ex_def EVP_MD_CTX_init_def split: option.splits)
    ultimately show ?thesis using c c1(1) True by (simp add: EVP_Digest_def)
  next
    case False
    with i c show ?thesis by (simp add: EVP_Digest_def)
  qed
qed

text \<open>C14: Every digest of the library, through the method tables: a context of any past computes, once it is initialised for
  a digest, the hash of the concatenation of what it is given, reports its size, never follows a null pointer, and
  can be used again. The initialisation fails only when the digest changes and the allocator has no memory.\<close>

theorem evp_digest_is_hash:
  assumes "evp_wf ctx"
  shows "(\<exists>ctx1 ctx2 ctx3. EVP_DigestInit_ex env ctx t = (True, ctx1) \<and> EVP_DigestUpdates ctx1 ds = Some ctx2 \<and>
      EVP_DigestFinal_ex ctx2 = Some (evp_hash t (concat ds), EVP_MD_size t, ctx3) \<and>
      length (evp_hash t (concat ds)) = EVP_MD_size t \<and> evp_wf ctx3) \<or>
    EVP_DigestInit_ex env ctx t = (False, ctx) \<and> digest ctx \<noteq> Some t \<and> OPENSSL_malloc env (evp_ctx_size (md_at t)) = None"
proof -
  obtain ok c where c: "EVP_DigestInit_ex env ctx t = (ok, c)" by force
  note i = DigestInit [OF assms c]
  show ?thesis
  proof (cases ok)
    case True
    with i have "evp_rep t [] c" by simp
    from DigestUpdates [OF this, of ds] obtain c1 where c1: "EVP_DigestUpdates c ds = Some c1" "evp_rep t (concat ds) c1" by auto
    from DigestFinal [OF c1(2)] c1(1) c True show ?thesis by (auto simp: length_evp_hash)
  next
    case False
    with i c show ?thesis by simp
  qed
qed

text \<open>An allocator for the examples: it serves every request with bytes of 0xa5.\<close>

definition evp_env :: heap_env where "evp_env = \<lparr>h_ok = (\<lambda>n. True), h_junk = (\<lambda>n. 0xa5)\<rparr>"

theorem evp_digest_is_hash_witness:
  "\<exists>ctx1 ctx2 ctx3. EVP_DigestInit_ex evp_env EVP_MD_CTX_init P_sha384 = (True, ctx1) \<and>
     EVP_DigestUpdates ctx1 [[1], [], [2, 3]] = Some ctx2 \<and>
     EVP_DigestFinal_ex ctx2 = Some (fips_sha384 [1, 2, 3], 48, ctx3) \<and> evp_wf ctx3"
  using evp_digest_is_hash [OF evp_wf_init, of evp_env P_sha384 "[[1], [], [2, 3]]"]
  by (simp add: evp_env_def OPENSSL_malloc_def size_add_def SIZE_MOD_def EVP_MD_size_def EVP_sha384_def SHA384_DIGEST_LENGTH_def) blast

end
