(* ===== verification/Hmac.thy ===== *)
theory Hmac
  imports Evp_Digest
begin

text \<open>
  HMAC (\<^verbatim>\<open>crypto/fipsmodule/hmac/hmac.c\<close>) over the digest layer. A context holds the started inner and outer digest and the
  digest at work; a result that is \<open>None\<close> as a whole stands for following a null pointer. \<open>hmac_rep\<close> says what key and
  message a context represents. The operations keep it (\<open>HMAC_Init_key\<close>, \<open>HMAC_Init_again\<close>, \<open>HMAC_Update_rep\<close>), and
  finishing yields the code of RFC 2104 (\<open>HMAC_Final_rep\<close>) and cannot fail.
\<close>

section \<open>State and operations\<close>

record HMAC_CTX =
  hm_md :: "md_ptr option"
  hm_md_ctx :: EVP_MD_CTX
  i_ctx :: EVP_MD_CTX
  o_ctx :: EVP_MD_CTX

definition sizeof_HMAC_CTX :: nat where "sizeof_HMAC_CTX = 8 + 3 * sizeof_EVP_MD_CTX"

definition HMAC_CTX_init :: HMAC_CTX where
  "HMAC_CTX_init = \<lparr>hm_md = None, hm_md_ctx = EVP_MD_CTX_init, i_ctx = EVP_MD_CTX_init, o_ctx = EVP_MD_CTX_init\<rparr>"

definition HMAC_CTX_new :: "heap_env \<Rightarrow> HMAC_CTX option" where
  "HMAC_CTX_new env = (if OPENSSL_malloc env sizeof_HMAC_CTX = None then None else Some HMAC_CTX_init)"

text \<open>The whole context is cleansed, so that its pointers are null.\<close>

definition HMAC_CTX_cleanup :: "HMAC_CTX \<Rightarrow> HMAC_CTX" where
  "HMAC_CTX_cleanup ctx = HMAC_CTX_init"

text \<open>The first part of \<^verbatim>\<open>HMAC_Init_ex\<close>: the key, hashed when it is longer than a block, in front of zeros. A null key has no
  bytes. The flag is false when the function returns zero.\<close>

definition hmac_key_block :: "heap_env \<Rightarrow> HMAC_CTX \<Rightarrow> byte list \<Rightarrow> md_ptr \<Rightarrow> (bool \<times> byte list \<times> HMAC_CTX) option" where
  "hmac_key_block env ctx key md =
     (let pad = (\<lambda>b. b @ replicate (EVP_MAX_MD_BLOCK_SIZE - length b) 0) in
      if EVP_MD_block_size md < length key then
        let (ok, m) = EVP_DigestInit_ex env (hm_md_ctx ctx) md in
        if ok then
          do {
            m \<leftarrow> EVP_DigestUpdate m key;
            (key_block, key_block_len, m) \<leftarrow> EVP_DigestFinal_ex m;
            Some (True, pad (take key_block_len key_block), ctx\<lparr>hm_md_ctx := m\<rparr>)
          }
        else Some (False, [], ctx\<lparr>hm_md_ctx := m\<rparr>)
      else Some (True, pad key, ctx))"

text \<open>Starting the inner or the outer context with the key and a constant.\<close>

definition hmac_start :: "heap_env \<Rightarrow> EVP_MD_CTX \<Rightarrow> md_ptr \<Rightarrow> byte \<Rightarrow> byte list \<Rightarrow> (bool \<times> EVP_MD_CTX) option" where
  "hmac_start env c md const key_block =
     (let pad = map (\<lambda>b. const XOR b) key_block;
          (ok, c) = EVP_DigestInit_ex env c md
      in if ok then
           do {
             c \<leftarrow> EVP_DigestUpdate c (take (EVP_MD_block_size md) pad);
             Some (True, c)
           }
         else Some (False, c))"

definition hmac_set_key :: "heap_env \<Rightarrow> HMAC_CTX \<Rightarrow> byte list \<Rightarrow> md_ptr \<Rightarrow> (bool \<times> HMAC_CTX) option" where
  "hmac_set_key env ctx key md =
     do {
       (ok, key_block, ctx) \<leftarrow> hmac_key_block env ctx key md;
       if \<not> ok then Some (False, ctx)
       else do {
         (ok, c) \<leftarrow> hmac_start env (i_ctx ctx) md 0x36 key_block;
         let ctx = ctx\<lparr>i_ctx := c\<rparr>;
         if \<not> ok then Some (False, ctx)
         else do {
           (ok, c) \<leftarrow> hmac_start env (o_ctx ctx) md 0x5c key_block;
           let ctx = ctx\<lparr>o_ctx := c\<rparr>;
           if \<not> ok then Some (False, ctx) else Some (True, ctx\<lparr>hm_md := Some md\<rparr>)
         }
       }
     }"

definition HMAC_Init_ex :: "heap_env \<Rightarrow> HMAC_CTX \<Rightarrow> byte list option \<Rightarrow> md_ptr option \<Rightarrow> (bool \<times> HMAC_CTX) option" where
  "HMAC_Init_ex env ctx key md =
     (let md = (if md = None then hm_md ctx else md) in
      do {
        (ok, ctx) \<leftarrow>
          (if md \<noteq> hm_md ctx \<or> key \<noteq> None
           then do { md \<leftarrow> md; hmac_set_key env ctx (case key of None \<Rightarrow> [] | Some k \<Rightarrow> k) md }
           else Some (True, ctx));
        if \<not> ok then Some (False, ctx)
        else
          let (ok, m) = EVP_MD_CTX_copy_ex env (hm_md_ctx ctx) (Some (i_ctx ctx)) in
          Some (ok, ctx\<lparr>hm_md_ctx := m\<rparr>)
      })"

definition HMAC_Update :: "HMAC_CTX \<Rightarrow> byte list \<Rightarrow> HMAC_CTX option" where
  "HMAC_Update ctx data = do { m \<leftarrow> EVP_DigestUpdate (hm_md_ctx ctx) data; Some (ctx\<lparr>hm_md_ctx := m\<rparr>) }"

text \<open>\<open>len_given\<close> tells whether the pointer for the length is not null; it is written in the failing case without a check. The result is
  the output with its length, when there is one.\<close>

definition HMAC_Final :: "heap_env \<Rightarrow> HMAC_CTX \<Rightarrow> bool \<Rightarrow> ((byte list \<times> nat) option \<times> HMAC_CTX) option" where
  "HMAC_Final env ctx len_given =
     do {
       (buf, i, m) \<leftarrow> EVP_DigestFinal_ex (hm_md_ctx ctx);
       let (ok, m) = EVP_MD_CTX_copy_ex env m (Some (o_ctx ctx));
       if ok then do {
         m \<leftarrow> EVP_DigestUpdate m (take i buf);
         (out, size, m) \<leftarrow> EVP_DigestFinal_ex m;
         Some (Some (out, size), ctx\<lparr>hm_md_ctx := m\<rparr>)
       }
       else if len_given then Some (None, ctx\<lparr>hm_md_ctx := m\<rparr>) else None
     }"

definition HMAC :: "heap_env \<Rightarrow> md_ptr \<Rightarrow> byte list option \<Rightarrow> byte list \<Rightarrow> (byte list \<times> nat) option option" where
  "HMAC env evp_md key data =
     do {
       (ok, ctx) \<leftarrow> HMAC_Init_ex env HMAC_CTX_init key (Some evp_md);
       if \<not> ok then Some None
       else do {
         ctx \<leftarrow> HMAC_Update ctx data;
         (out, ctx) \<leftarrow> HMAC_Final env ctx True;
         Some out
       }
     }"

definition HMAC_size :: "HMAC_CTX \<Rightarrow> nat option" where
  "HMAC_size ctx = map_option EVP_MD_size (hm_md ctx)"

definition HMAC_CTX_copy_ex :: "heap_env \<Rightarrow> HMAC_CTX \<Rightarrow> HMAC_CTX \<Rightarrow> bool \<times> HMAC_CTX" where
  "HMAC_CTX_copy_ex env dest src =
     (let (ok, c) = EVP_MD_CTX_copy_ex env (i_ctx dest) (Some (i_ctx src)); dest = dest\<lparr>i_ctx := c\<rparr> in
      if \<not> ok then (False, dest)
      else
        let (ok, c) = EVP_MD_CTX_copy_ex env (o_ctx dest) (Some (o_ctx src)); dest = dest\<lparr>o_ctx := c\<rparr> in
        if \<not> ok then (False, dest)
        else
          let (ok, c) = EVP_MD_CTX_copy_ex env (hm_md_ctx dest) (Some (hm_md_ctx src)); dest = dest\<lparr>hm_md_ctx := c\<rparr> in
          if \<not> ok then (False, dest) else (True, dest\<lparr>hm_md := hm_md src\<rparr>))"

definition HMAC_CTX_reset :: "HMAC_CTX \<Rightarrow> HMAC_CTX" where
  "HMAC_CTX_reset ctx = HMAC_CTX_init"

definition HMAC_Init :: "heap_env \<Rightarrow> HMAC_CTX \<Rightarrow> byte list option \<Rightarrow> md_ptr option \<Rightarrow> (bool \<times> HMAC_CTX) option" where
  "HMAC_Init env ctx key md =
     (let ctx = (if key \<noteq> None \<and> md \<noteq> None then HMAC_CTX_init else ctx) in HMAC_Init_ex env ctx key md)"

definition HMAC_CTX_copy :: "heap_env \<Rightarrow> HMAC_CTX \<Rightarrow> HMAC_CTX \<Rightarrow> bool \<times> HMAC_CTX" where
  "HMAC_CTX_copy env dest src = HMAC_CTX_copy_ex env HMAC_CTX_init src"

section \<open>The specification\<close>

text \<open>RFC 2104, section 2.\<close>

definition hmac_pad :: "md_ptr \<Rightarrow> byte \<Rightarrow> byte list \<Rightarrow> byte list" where
  "hmac_pad t const key =
     (let B = EVP_MD_block_size t; K = (if B < length key then evp_hash t key else key)
      in map (\<lambda>b. b XOR const) (K @ replicate (B - length K) 0))"

definition hmac_rfc2104 :: "md_ptr \<Rightarrow> byte list \<Rightarrow> byte list \<Rightarrow> byte list" where
  "hmac_rfc2104 t key msg = evp_hash t (hmac_pad t 0x5c key @ evp_hash t (hmac_pad t 0x36 key @ msg))"

section \<open>What a context represents\<close>

definition hmac_wf :: "HMAC_CTX \<Rightarrow> bool" where
  "hmac_wf ctx \<longleftrightarrow> evp_wf (hm_md_ctx ctx) \<and> evp_wf (i_ctx ctx) \<and> evp_wf (o_ctx ctx)"

definition hmac_keyed :: "md_ptr \<Rightarrow> byte list \<Rightarrow> HMAC_CTX \<Rightarrow> bool" where
  "hmac_keyed t key ctx \<longleftrightarrow> hm_md ctx = Some t \<and> evp_rep t (hmac_pad t 0x36 key) (i_ctx ctx) \<and>
     evp_rep t (hmac_pad t 0x5c key) (o_ctx ctx)"

definition hmac_rep :: "md_ptr \<Rightarrow> byte list \<Rightarrow> byte list \<Rightarrow> HMAC_CTX \<Rightarrow> bool" where
  "hmac_rep t key msg ctx \<longleftrightarrow> hmac_keyed t key ctx \<and> evp_rep t (hmac_pad t 0x36 key @ msg) (hm_md_ctx ctx)"

abbreviation no_memory :: "heap_env \<Rightarrow> md_ptr \<Rightarrow> bool" where
  "no_memory env t \<equiv> OPENSSL_malloc env (evp_ctx_size (md_at t)) = None"

lemma hmac_wf_init [simp]: "hmac_wf HMAC_CTX_init"
  by (simp add: hmac_wf_def HMAC_CTX_init_def)

lemma hmac_rep_wf: "hmac_rep t key msg ctx \<Longrightarrow> hmac_wf ctx"
  by (auto simp: hmac_rep_def hmac_keyed_def hmac_wf_def evp_rep_wf)

lemma hmac_start:
  assumes "evp_wf c"
  shows "\<exists>ok c'. hmac_start env c t const key_block = Some (ok, c') \<and>
    (if ok then evp_rep t (take (EVP_MD_block_size t) (map (\<lambda>b. const XOR b) key_block)) c' else c' = c \<and> no_memory env t)"
proof -
  obtain ok c1 where c1: "EVP_DigestInit_ex env c t = (ok, c1)" by force
  note i = DigestInit [OF assms c1]
  define d where "d = take (EVP_MD_block_size t) (map (\<lambda>b. const XOR b) key_block)"
  have s: "hmac_start env c t const key_block =
      (if ok then do { c \<leftarrow> EVP_DigestUpdate c1 d; Some (True, c) } else Some (False, c1))"
    by (simp only: hmac_start_def Let_def c1 prod.case d_def)
  show ?thesis
  proof (cases ok)
    case True
    with i have "evp_rep t [] c1" by simp
    from DigestUpdate [OF this, of d] obtain c2 where "EVP_DigestUpdate c1 d = Some c2" "evp_rep t d c2" by auto
    then show ?thesis unfolding s d_def [symmetric] by (intro exI [of _ True]) (simp add: True)
  next
    case False
    with i show ?thesis unfolding s by (intro exI [of _ False]) simp
  qed
qed

lemma hmac_key_block:
  assumes "hmac_wf ctx"
  shows "\<exists>ok kb ctx'. hmac_key_block env ctx key t = Some (ok, kb, ctx') \<and> hmac_wf ctx' \<and> i_ctx ctx' = i_ctx ctx \<and>
    o_ctx ctx' = o_ctx ctx \<and> hm_md ctx' = hm_md ctx \<and>
    (if ok then kb = (let K = (if EVP_MD_block_size t < length key then evp_hash t key else key)
                      in K @ replicate (EVP_MAX_MD_BLOCK_SIZE - length K) 0)
     else no_memory env t)"
proof (cases "EVP_MD_block_size t < length key")
  case True
  have wf: "evp_wf (hm_md_ctx ctx)" "evp_wf (i_ctx ctx)" "evp_wf (o_ctx ctx)" using assms by (simp_all add: hmac_wf_def)
  obtain ok c where c: "EVP_DigestInit_ex env (hm_md_ctx ctx) t = (ok, c)" by force
  note i = DigestInit [OF wf(1) c]
  show ?thesis
  proof (cases ok)
    case ok: True
    with i have "evp_rep t [] c" by simp
    from DigestUpdate [OF this, of key] obtain c1 where c1: "EVP_DigestUpdate c key = Some c1" "evp_rep t key c1" by auto
    from DigestFinal [OF c1(2)] obtain c2 where
      c2: "EVP_DigestFinal_ex c1 = Some (evp_hash t key, EVP_MD_size t, c2)" "evp_wf c2" by blast
    then show ?thesis using True ok c c1 wf
      by (intro exI [of _ True]) (simp add: hmac_key_block_def hmac_wf_def length_evp_hash)
  next
    case False
    with i c True wf show ?thesis by (intro exI [of _ False]) (simp add: hmac_key_block_def hmac_wf_def)
  qed
next
  case False
  with assms show ?thesis by (intro exI [of _ True]) (simp add: hmac_key_block_def)
qed

text \<open>The part of the padded key a digest takes is the key of the specification.\<close>

lemma hmac_pad:
  assumes "kb = (let K = (if EVP_MD_block_size t < length key then evp_hash t key else key)
                 in K @ replicate (EVP_MAX_MD_BLOCK_SIZE - length K) 0)"
  shows "take (EVP_MD_block_size t) (map (\<lambda>b. const XOR b) kb) = hmac_pad t const key"
proof -
  define K where "K = (if EVP_MD_block_size t < length key then evp_hash t key else key)"
  have "length K \<le> EVP_MD_block_size t"
    using EVP_MD_block_size_bounds(1) [of t] by (auto simp: K_def length_evp_hash)
  then have "take (EVP_MD_block_size t) (map (\<lambda>b. const XOR b) (K @ replicate (EVP_MAX_MD_BLOCK_SIZE - length K) 0)) =
      map (\<lambda>b. b XOR const) (K @ replicate (EVP_MD_block_size t - length K) 0)"
    using EVP_MD_block_size_bounds(2) [of t] by (simp add: xor.commute take_map)
  then show ?thesis by (simp add: assms hmac_pad_def flip: K_def)
qed

section \<open>The operations implement it\<close>

lemma hmac_set_key:
  assumes "hmac_wf ctx"
  shows "\<exists>ok ctx'. hmac_set_key env ctx key t = Some (ok, ctx') \<and> hmac_wf ctx' \<and>
    (if ok then hmac_keyed t key ctx' else no_memory env t)"
proof -
  from hmac_key_block [OF assms, of env key t] obtain ok kb c where
    k: "hmac_key_block env ctx key t = Some (ok, kb, c)" "hmac_wf c"
      "if ok then kb = (let K = (if EVP_MD_block_size t < length key then evp_hash t key else key)
                        in K @ replicate (EVP_MAX_MD_BLOCK_SIZE - length K) 0)
       else no_memory env t" by blast
  show ?thesis
  proof (cases ok)
    case False
    with k show ?thesis by (intro exI [of _ False]) (simp add: hmac_set_key_def)
  next
    case True
    with k have pad: "take (EVP_MD_block_size t) (map (\<lambda>b. const XOR b) kb) = hmac_pad t const key" for const
      by (intro hmac_pad) simp
    have wf: "evp_wf (hm_md_ctx c)" "evp_wf (i_ctx c)" "evp_wf (o_ctx c)" using k(2) by (simp_all add: hmac_wf_def)
    from hmac_start [OF wf(2), of env t "0x36" kb] obtain ok1 c1 where
      c1: "hmac_start env (i_ctx c) t 0x36 kb = Some (ok1, c1)"
        "if ok1 then evp_rep t (hmac_pad t 0x36 key) c1 else c1 = i_ctx c \<and> no_memory env t" unfolding pad by blast
    from hmac_start [OF wf(3), of env t "0x5c" kb] obtain ok2 c2 where
      c2: "hmac_start env (o_ctx c) t 0x5c kb = Some (ok2, c2)"
        "if ok2 then evp_rep t (hmac_pad t 0x5c key) c2 else c2 = o_ctx c \<and> no_memory env t" unfolding pad by blast
    have w: "evp_wf c1" "evp_wf c2" using c1(2) c2(2) wf by (auto split: if_splits dest: evp_rep_wf)
    have e: "hmac_set_key env ctx key t =
        Some (if \<not> ok1 then (False, c\<lparr>i_ctx := c1\<rparr>)
              else if \<not> ok2 then (False, c\<lparr>i_ctx := c1, o_ctx := c2\<rparr>)
              else (True, c\<lparr>i_ctx := c1, o_ctx := c2, hm_md := Some t\<rparr>))"
      using k(1) True c1(1) c2(1) by (simp add: hmac_set_key_def)
    show ?thesis unfolding e
      by (intro exI [of _ "ok1 \<and> ok2"]) (use c1(2) c2(2) w wf in \<open>cases ok1; cases ok2; simp add: hmac_wf_def hmac_keyed_def\<close>)
  qed
qed

text \<open>The inner context is copied; the copy needs memory only when the digest has changed.\<close>

lemma hmac_rewind:
  assumes "hmac_keyed t key ctx" "hmac_wf ctx"
  shows "\<exists>ok m. EVP_MD_CTX_copy_ex env (hm_md_ctx ctx) (Some (i_ctx ctx)) = (ok, m) \<and>
    (if ok then hmac_rep t key [] (ctx\<lparr>hm_md_ctx := m\<rparr>) else m = hm_md_ctx ctx \<and> digest m \<noteq> Some t \<and> no_memory env t)"
proof -
  obtain ok m where m: "EVP_MD_CTX_copy_ex env (hm_md_ctx ctx) (Some (i_ctx ctx)) = (ok, m)" by force
  have "evp_rep t (hmac_pad t 0x36 key) (i_ctx ctx)" using assms(1) by (simp add: hmac_keyed_def)
  from copy_ok [OF this m] assms(1) show ?thesis
    by (cases ok; intro exI) (use m in \<open>auto simp: hmac_rep_def hmac_keyed_def\<close>)
qed

text \<open>Setting a key: a key that is given, or a change of the digest.\<close>

lemma HMAC_Init_key:
  assumes "hmac_wf ctx" "key \<noteq> None \<or> hm_md ctx \<noteq> Some t" "md = Some t \<or> md = None \<and> hm_md ctx = Some t"
  shows "\<exists>ok ctx'. HMAC_Init_ex env ctx key md = Some (ok, ctx') \<and> hmac_wf ctx' \<and>
    (if ok then hmac_rep t (case key of None \<Rightarrow> [] | Some k \<Rightarrow> k) [] ctx' else no_memory env t)"
proof -
  define k where "k = (case key of None \<Rightarrow> [] | Some k \<Rightarrow> k)"
  from hmac_set_key [OF assms(1), of env k t] obtain ok c where
    c: "hmac_set_key env ctx k t = Some (ok, c)" "hmac_wf c" "if ok then hmac_keyed t k c else no_memory env t" by blast
  have e: "(if md = None then hm_md ctx else md) = Some t" using assms(3) by auto
  have i: "HMAC_Init_ex env ctx key md =
      (if \<not> ok then Some (False, c)
       else let (ok, m) = EVP_MD_CTX_copy_ex env (hm_md_ctx c) (Some (i_ctx c)) in Some (ok, c\<lparr>hm_md_ctx := m\<rparr>))"
    unfolding HMAC_Init_ex_def Let_def e k_def [symmetric] using assms(2) c(1) by (auto split: prod.split)
  show ?thesis
  proof (cases ok)
    case False
    with c show ?thesis unfolding i by (intro exI [of _ False]) simp
  next
    case True
    with c(3) have "hmac_keyed t k c" by simp
    from hmac_rewind [OF this c(2), of env] obtain ok' m where
      m: "EVP_MD_CTX_copy_ex env (hm_md_ctx c) (Some (i_ctx c)) = (ok', m)"
        "if ok' then hmac_rep t k [] (c\<lparr>hm_md_ctx := m\<rparr>) else m = hm_md_ctx c \<and> digest m \<noteq> Some t \<and> no_memory env t" by blast
    have "hmac_wf (c\<lparr>hm_md_ctx := m\<rparr>)"
      using m(2) c(2) hmac_rep_wf [of t k "[]" "c\<lparr>hm_md_ctx := m\<rparr>"] by (cases ok') (auto simp: hmac_wf_def)
    with m show ?thesis unfolding i k_def [symmetric] by (intro exI [of _ ok']) (simp add: True)
  qed
qed

text \<open>Without a key the previous one is used again.\<close>

lemma HMAC_Init_again:
  assumes "hmac_keyed t key ctx" "hmac_wf ctx" "digest (hm_md_ctx ctx) = Some t" "md = None \<or> md = Some t"
  shows "\<exists>ctx'. HMAC_Init_ex env ctx None md = Some (True, ctx') \<and> hmac_rep t key [] ctx'"
proof -
  have "hm_md ctx = Some t" using assms(1) by (simp add: hmac_keyed_def)
  then have i: "HMAC_Init_ex env ctx None md =
      (let (ok, m) = EVP_MD_CTX_copy_ex env (hm_md_ctx ctx) (Some (i_ctx ctx)) in Some (ok, ctx\<lparr>hm_md_ctx := m\<rparr>))"
    using assms(4) by (auto simp: HMAC_Init_ex_def)
  from hmac_rewind [OF assms(1,2), of env] obtain ok m where
    m: "EVP_MD_CTX_copy_ex env (hm_md_ctx ctx) (Some (i_ctx ctx)) = (ok, m)"
      "if ok then hmac_rep t key [] (ctx\<lparr>hm_md_ctx := m\<rparr>) else m = hm_md_ctx ctx \<and> digest m \<noteq> Some t \<and> no_memory env t" by blast
  with assms(3) have ok by (auto split: if_splits)
  with m show ?thesis unfolding i by simp
qed

lemma HMAC_Update_rep:
  assumes "hmac_rep t key msg ctx"
  shows "\<exists>ctx'. HMAC_Update ctx d = Some ctx' \<and> hmac_rep t key (msg @ d) ctx'"
proof -
  have "evp_rep t (hmac_pad t 0x36 key @ msg) (hm_md_ctx ctx)" using assms by (simp add: hmac_rep_def)
  from DigestUpdate [OF this, of d] assms show ?thesis by (auto simp: HMAC_Update_def hmac_rep_def hmac_keyed_def)
qed

text \<open>Finishing never fails, so that a null length pointer does no harm.\<close>

lemma HMAC_Final_rep:
  assumes "hmac_rep t key msg ctx"
  shows "\<exists>ctx'. HMAC_Final env ctx g = Some (Some (hmac_rfc2104 t key msg, EVP_MD_size t), ctx') \<and>
    hmac_keyed t key ctx' \<and> hmac_wf ctx' \<and> digest (hm_md_ctx ctx') = Some t"
proof -
  have r: "evp_rep t (hmac_pad t 0x36 key @ msg) (hm_md_ctx ctx)" "evp_rep t (hmac_pad t 0x5c key) (o_ctx ctx)"
    "hmac_keyed t key ctx" using assms by (simp_all add: hmac_rep_def hmac_keyed_def)
  define h where "h = evp_hash t (hmac_pad t 0x36 key @ msg)"
  from DigestFinal [OF r(1)] obtain m where
    m: "EVP_DigestFinal_ex (hm_md_ctx ctx) = Some (h, EVP_MD_size t, m)" "digest m = Some t" unfolding h_def by blast
  obtain ok m1 where m1: "EVP_MD_CTX_copy_ex env m (Some (o_ctx ctx)) = (ok, m1)" by force
  have ok: "ok" using copy_same [OF r(2) m(2), of env] m1 by simp
  with copy_ok [OF r(2) m1] have "evp_rep t (hmac_pad t 0x5c key) m1" by simp
  from DigestUpdate [OF this, of h] obtain m2 where m2: "EVP_DigestUpdate m1 h = Some m2"
    "evp_rep t (hmac_pad t 0x5c key @ h) m2" by blast
  from DigestFinal [OF m2(2)] obtain m3 where
    m3: "EVP_DigestFinal_ex m2 = Some (hmac_rfc2104 t key msg, EVP_MD_size t, m3)" "digest m3 = Some t" "evp_wf m3"
    unfolding hmac_rfc2104_def h_def by blast
  have "take (EVP_MD_size t) h = h" by (simp add: h_def length_evp_hash)
  then have "HMAC_Final env ctx g = Some (Some (hmac_rfc2104 t key msg, EVP_MD_size t), ctx\<lparr>hm_md_ctx := m3\<rparr>)"
    using m(1) m1 ok m2(1) m3(1) by (simp add: HMAC_Final_def)
  moreover have "hmac_keyed t key (ctx\<lparr>hm_md_ctx := m3\<rparr>)" using r(3) by (simp add: hmac_keyed_def)
  moreover have "hmac_wf (ctx\<lparr>hm_md_ctx := m3\<rparr>)" using hmac_rep_wf [OF assms] m3(3) by (simp add: hmac_wf_def)
  ultimately show ?thesis using m3(2) by auto
qed

text \<open>Several messages with one key, each in pieces, the context rewound in between.\<close>

fun HMAC_Updates :: "HMAC_CTX \<Rightarrow> byte list list \<Rightarrow> HMAC_CTX option" where
  "HMAC_Updates ctx [] = Some ctx"
| "HMAC_Updates ctx (d # ds) = do { ctx \<leftarrow> HMAC_Update ctx d; HMAC_Updates ctx ds }"

fun hmac_messages :: "heap_env \<Rightarrow> HMAC_CTX \<Rightarrow> byte list list list \<Rightarrow> (byte list \<times> nat) option list option" where
  "hmac_messages env ctx [] = Some []"
| "hmac_messages env ctx (ds # msgs) =
     do {
       ctx \<leftarrow> HMAC_Updates ctx ds;
       (out, ctx) \<leftarrow> HMAC_Final env ctx False;
       (ok, ctx) \<leftarrow> HMAC_Init_ex env ctx None None;
       outs \<leftarrow> hmac_messages env ctx msgs;
       Some ((if ok then out else None) # outs)
     }"

lemma HMAC_Updates_rep:
  "hmac_rep t key msg ctx \<Longrightarrow> \<exists>ctx'. HMAC_Updates ctx ds = Some ctx' \<and> hmac_rep t key (msg @ concat ds) ctx'"
proof (induction ds arbitrary: msg ctx)
  case (Cons d ds)
  from HMAC_Update_rep [OF Cons.prems, of d] obtain c where c: "HMAC_Update ctx d = Some c" "hmac_rep t key (msg @ d) c" by blast
  from Cons.IH [OF this(2)] show ?case by (simp add: c(1))
qed simp

lemma hmac_messages_rep:
  "hmac_rep t key [] ctx \<Longrightarrow>
     hmac_messages env ctx msgs = Some (map (\<lambda>ds. Some (hmac_rfc2104 t key (concat ds), EVP_MD_size t)) msgs)"
proof (induction msgs arbitrary: ctx)
  case (Cons ds msgs)
  from HMAC_Updates_rep [OF Cons.prems, of ds] obtain c where c: "HMAC_Updates ctx ds = Some c" "hmac_rep t key (concat ds) c"
    by auto
  from HMAC_Final_rep [OF c(2), of env False] obtain c1 where
    c1: "HMAC_Final env c False = Some (Some (hmac_rfc2104 t key (concat ds), EVP_MD_size t), c1)" "hmac_keyed t key c1" "hmac_wf c1"
      "digest (hm_md_ctx c1) = Some t" by blast
  from HMAC_Init_again [OF c1(2-4), of None env] obtain c2 where
    "HMAC_Init_ex env c1 None None = Some (True, c2)" "hmac_rep t key [] c2" by blast
  with Cons.IH [of c2] c c1 show ?case by simp
qed simp

lemma HMAC_Init_no_memory: "no_memory env t \<Longrightarrow> \<exists>c. HMAC_Init_ex env HMAC_CTX_init key (Some t) = Some (False, c)"
proof -
  assume "no_memory env t"
  then have "EVP_DigestInit_ex env EVP_MD_CTX_init t = (False, EVP_MD_CTX_init)"
    by (simp add: EVP_DigestInit_ex_def EVP_MD_CTX_init_def)
  then show ?thesis
    by (simp add: HMAC_Init_ex_def HMAC_CTX_init_def hmac_set_key_def hmac_key_block_def hmac_start_def)
qed

lemma HMAC_value:
  "HMAC env t key data =
     Some (if no_memory env t then None
           else Some (hmac_rfc2104 t (case key of None \<Rightarrow> [] | Some k \<Rightarrow> k) data, EVP_MD_size t))"
proof -
  have n: "key \<noteq> None \<or> hm_md HMAC_CTX_init \<noteq> Some t" by (simp add: HMAC_CTX_init_def)
  from HMAC_Init_key [OF hmac_wf_init n, of "Some t" env] obtain ok c where
    c: "HMAC_Init_ex env HMAC_CTX_init key (Some t) = Some (ok, c)"
      "if ok then hmac_rep t (case key of None \<Rightarrow> [] | Some k \<Rightarrow> k) [] c else no_memory env t" by auto
  show ?thesis
  proof (cases ok)
    case False
    with c show ?thesis by (simp add: HMAC_def)
  next
    case True
    with c(2) have r: "hmac_rep t (case key of None \<Rightarrow> [] | Some k \<Rightarrow> k) [] c" by simp
    from HMAC_Update_rep [OF r, of data] obtain c1 where
      c1: "HMAC_Update c data = Some c1" "hmac_rep t (case key of None \<Rightarrow> [] | Some k \<Rightarrow> k) data c1" by auto
    from HMAC_Final_rep [OF c1(2), of env True] obtain c2 where
      c2: "HMAC_Final env c1 True = Some (Some (hmac_rfc2104 t (case key of None \<Rightarrow> [] | Some k \<Rightarrow> k) data, EVP_MD_size t), c2)" by blast
    have "\<not> no_memory env t" using HMAC_Init_no_memory [of env t key] c(1) True by auto
    then show ?thesis using c(1) True c1(1) c2 by (simp add: HMAC_def)
  qed
qed

section \<open>Properties\<close>

text \<open>C11: HMAC is the function of RFC 2104 for every digest, key and message: a context of any past that is given a key computes,
  for one message after the other, the code of each, however the messages are cut, and \<^verbatim>\<open>HMAC_Init_ex\<close> without a key
  starts the next message with the same key. No null pointer is followed, also when no length is asked for, and
  only the setting of the key can fail, for want of memory.\<close>

theorem hmac_is_rfc2104:
  assumes "hmac_wf ctx"
  shows "\<exists>ok ctx'. HMAC_Init_ex env ctx (Some key) (Some t) = Some (ok, ctx') \<and>
    (if ok then hmac_messages env ctx' msgs = Some (map (\<lambda>ds. Some (hmac_rfc2104 t key (concat ds), EVP_MD_size t)) msgs)
     else no_memory env t)"
proof -
  from HMAC_Init_key [OF assms, of "Some key" t "Some t" env, unfolded option.case] obtain ok c where
    c: "HMAC_Init_ex env ctx (Some key) (Some t) = Some (ok, c)" "if ok then hmac_rep t key [] c else no_memory env t" by blast
  show ?thesis
  proof (cases ok)
    case True
    with c(2) have "hmac_rep t key [] c" by simp
    from hmac_messages_rep [OF this, of env msgs] c(1) True show ?thesis by auto
  next
    case False
    with c show ?thesis by auto
  qed
qed

theorem hmac_is_rfc2104_witness:
  "\<exists>ok ctx'. HMAC_Init_ex evp_env HMAC_CTX_init (Some [1, 2]) (Some P_sha256) = Some (ok, ctx') \<and>
    hmac_messages evp_env ctx' [[[3], [4, 5]], []] =
      Some [Some (hmac_rfc2104 P_sha256 [1, 2] [3, 4, 5], 32), Some (hmac_rfc2104 P_sha256 [1, 2] [], 32)]"
proof -
  have "\<not> no_memory evp_env P_sha256"
    by (simp add: evp_env_def OPENSSL_malloc_def size_add_def SIZE_MOD_def EVP_sha256_def)
  moreover have "EVP_MD_size P_sha256 = 32" by (simp add: EVP_MD_size_def EVP_sha256_def SHA256_DIGEST_LENGTH_def)
  ultimately show ?thesis
    using hmac_is_rfc2104 [OF hmac_wf_init, of evp_env "[1, 2]" P_sha256 "[[[3], [4, 5]], []]"] by (auto split: if_splits)
qed

end
