(* ===== verification/Kdf.thy ===== *)
theory Kdf
  imports Hmac
begin

text \<open>
  The key derivations over HMAC: HKDF (\<^verbatim>\<open>crypto/hkdf/hkdf.c\<close>) and PBKDF2 (\<^verbatim>\<open>crypto/evp/pbkdf.c\<close>), with the functions of RFC 5869
  and RFC 8018 as specifications. The invariants \<open>hkdf_loop\<close> and \<open>pbkdf2_blocks\<close> carry the key through the reuse of
  one HMAC context; the values of all operations follow, the failing cases included.
\<close>

section \<open>HKDF\<close>

text \<open>The inner result is \<open>None\<close> when the function returns zero.\<close>

definition HKDF_extract :: "heap_env \<Rightarrow> md_ptr \<Rightarrow> byte list \<Rightarrow> byte list option \<Rightarrow> (byte list \<times> nat) option option" where
  "HKDF_extract env md secret salt =
     do {
       r \<leftarrow> HMAC env md salt secret;
       case r of None \<Rightarrow> Some None | Some (out_key, len) \<Rightarrow> Some (Some (out_key, len))
     }"

text \<open>The rounds \<open>i\<close> to \<open>i + k - 1\<close> of the loop of \<^verbatim>\<open>HKDF_expand\<close>; \<open>done\<close> bytes of the key are the length of \<open>out_key\<close>.\<close>

fun hkdf_loop ::
    "heap_env \<Rightarrow> byte list \<Rightarrow> nat \<Rightarrow> nat \<Rightarrow> nat \<Rightarrow> nat \<Rightarrow> HMAC_CTX \<Rightarrow> byte list \<Rightarrow> byte list \<Rightarrow> byte list option option" where
  "hkdf_loop env info out_len digest_len i 0 hmac previous out_key = Some (Some out_key)"
| "hkdf_loop env info out_len digest_len i (Suc k) hmac previous out_key =
     do {
       let ctr = word_of_nat (i + 1);
       (ok, hmac) \<leftarrow>
         (if i \<noteq> 0 then
            do {
              (ok, hmac) \<leftarrow> HMAC_Init_ex env hmac None None;
              if \<not> ok then Some (False, hmac)
              else do { hmac \<leftarrow> HMAC_Update hmac (take digest_len previous); Some (True, hmac) }
            }
          else Some (True, hmac));
       if \<not> ok then Some None
       else do {
         hmac \<leftarrow> HMAC_Update hmac info;
         hmac \<leftarrow> HMAC_Update hmac [ctr];
         (r, hmac) \<leftarrow> HMAC_Final env hmac False;
         case r of
           None \<Rightarrow> Some None
         | Some (previous, _) \<Rightarrow>
             let todo = (if length out_key + digest_len > out_len then out_len - length out_key else digest_len) in
             hkdf_loop env info out_len digest_len (i + 1) k hmac previous (out_key @ take todo previous)
       }
     }"

text \<open>The sum that rounds up is one of \<^verbatim>\<open>size_t\<close> values: subtracting one before adding gives the same value modulo the word.\<close>

definition HKDF_expand :: "heap_env \<Rightarrow> nat \<Rightarrow> md_ptr \<Rightarrow> byte list \<Rightarrow> byte list \<Rightarrow> byte list option option" where
  "HKDF_expand env out_len md prk info =
     (let digest_len = EVP_MD_size md;
          n = size_add out_len (digest_len - 1) div digest_len
      in if size_add out_len digest_len < out_len \<or> n > 255 then Some None
         else do {
           (ok, hmac) \<leftarrow> HMAC_Init_ex env HMAC_CTX_init (Some prk) (Some md);
           if \<not> ok then Some None else hkdf_loop env info out_len digest_len 0 n hmac [] []
         })"

definition HKDF :: "heap_env \<Rightarrow> nat \<Rightarrow> md_ptr \<Rightarrow> byte list \<Rightarrow> byte list option \<Rightarrow> byte list \<Rightarrow> byte list option option" where
  "HKDF env out_len md secret salt info =
     do {
       r \<leftarrow> HKDF_extract env md secret salt;
       case r of None \<Rightarrow> Some None | Some (prk, prk_len) \<Rightarrow> HKDF_expand env out_len md (take prk_len prk) info
     }"

subsection \<open>RFC 5869\<close>

fun hkdf_T :: "md_ptr \<Rightarrow> byte list \<Rightarrow> byte list \<Rightarrow> nat \<Rightarrow> byte list" where
  "hkdf_T t prk info 0 = []"
| "hkdf_T t prk info (Suc i) = hmac_rfc2104 t prk (hkdf_T t prk info i @ info @ [word_of_nat (Suc i)])"

definition hkdf_expand_rfc5869 :: "md_ptr \<Rightarrow> byte list \<Rightarrow> byte list \<Rightarrow> nat \<Rightarrow> byte list" where
  "hkdf_expand_rfc5869 t prk info L =
     (let N = (L + EVP_MD_size t - 1) div EVP_MD_size t in take L (concat (map (\<lambda>i. hkdf_T t prk info (Suc i)) [0..<N])))"

text \<open>A salt that is not provided is a string of zeros of the length of the hash.\<close>

definition hkdf_extract_rfc5869 :: "md_ptr \<Rightarrow> byte list \<Rightarrow> byte list option \<Rightarrow> byte list" where
  "hkdf_extract_rfc5869 t ikm salt =
     hmac_rfc2104 t (case salt of None \<Rightarrow> replicate (EVP_MD_size t) 0 | Some s \<Rightarrow> s) ikm"

subsection \<open>The implementation\<close>

lemma length_hmac: "length (hmac_rfc2104 t key msg) = EVP_MD_size t"
  by (simp add: hmac_rfc2104_def length_evp_hash)

lemma hmac_no_key: "hmac_rfc2104 t [] msg = hmac_rfc2104 t (replicate (EVP_MD_size t) 0) msg"
proof -
  have "hmac_pad t c [] = hmac_pad t c (replicate (EVP_MD_size t) 0)" for c
    using EVP_MD_block_size_bounds(1) [of t] by (simp add: hmac_pad_def flip: replicate_add)
  then show ?thesis by (simp add: hmac_rfc2104_def)
qed

lemma HKDF_extract_value:
  "HKDF_extract env t secret salt =
     Some (if no_memory env t then None else Some (hkdf_extract_rfc5869 t secret salt, EVP_MD_size t))"
  by (cases salt) (simp_all add: HKDF_extract_def HMAC_value hkdf_extract_rfc5869_def hmac_no_key)

definition hkdf_upto :: "md_ptr \<Rightarrow> byte list \<Rightarrow> byte list \<Rightarrow> nat \<Rightarrow> byte list" where
  "hkdf_upto t prk info n = concat (map (\<lambda>i. hkdf_T t prk info (Suc i)) [0..<n])"

lemma length_hkdf_upto: "length (hkdf_upto t prk info n) = n * EVP_MD_size t"
  by (induction n) (simp_all add: hkdf_upto_def length_hmac)

lemma hkdf_upto_Suc: "hkdf_upto t prk info (Suc n) = hkdf_upto t prk info n @ hkdf_T t prk info (Suc n)"
  by (simp add: hkdf_upto_def)

text \<open>Before round \<open>i\<close> the context has the key; in the first round it has also been started.\<close>

lemma hkdf_loop:
  assumes "hmac_keyed t prk hmac" "hmac_wf hmac" "digest (hm_md_ctx hmac) = Some t" "i = 0 \<Longrightarrow> hmac_rep t prk [] hmac"
    and "previous = hkdf_T t prk info i" "i * EVP_MD_size t \<le> L" "L \<le> (i + k) * EVP_MD_size t"
    and "i + k \<noteq> 0 \<Longrightarrow> (i + k - 1) * EVP_MD_size t < L"
  shows "hkdf_loop env info L (EVP_MD_size t) i k hmac previous (take L (hkdf_upto t prk info i)) =
    Some (Some (take L (hkdf_upto t prk info (i + k))))"
  using assms
proof (induction k arbitrary: i hmac previous)
  case (Suc k)
  define c0 where "c0 = (if i \<noteq> 0 then
      do {
        (ok, hmac) \<leftarrow> HMAC_Init_ex env hmac None None;
        if \<not> ok then Some (False, hmac)
        else do { hmac \<leftarrow> HMAC_Update hmac (take (EVP_MD_size t) previous); Some (True, hmac) }
      }
    else Some (True, hmac))"
  have "\<exists>c. c0 = Some (True, c) \<and> hmac_rep t prk (hkdf_T t prk info i) c"
  proof (cases i)
    case 0
    with Suc.prems(4) show ?thesis by (simp add: c0_def)
  next
    case (Suc j)
    from HMAC_Init_again [OF Suc.prems(1-3), of None env] obtain c where
      c: "HMAC_Init_ex env hmac None None = Some (True, c)" "hmac_rep t prk [] c" by blast
    have "take (EVP_MD_size t) previous = hkdf_T t prk info i" unfolding Suc.prems(5) Suc by (simp add: length_hmac)
    with HMAC_Update_rep [OF c(2), of "hkdf_T t prk info i"] c(1) Suc show ?thesis by (auto simp: c0_def)
  qed
  then obtain c where c: "c0 = Some (True, c)" "hmac_rep t prk (hkdf_T t prk info i) c" by blast
  from HMAC_Update_rep [OF c(2), of info] obtain c1 where
    c1: "HMAC_Update c info = Some c1" "hmac_rep t prk (hkdf_T t prk info i @ info) c1" by blast
  from HMAC_Update_rep [OF c1(2), of "[word_of_nat (i + 1)]"] obtain c2 where
    c2: "HMAC_Update c1 [word_of_nat (i + 1)] = Some c2"
      "hmac_rep t prk (hkdf_T t prk info i @ info @ [word_of_nat (i + 1)]) c2" by auto
  from HMAC_Final_rep [OF c2(2), of env False] obtain c3 where
    c3: "HMAC_Final env c2 False = Some (Some (hkdf_T t prk info (Suc i), EVP_MD_size t), c3)" "hmac_keyed t prk c3" "hmac_wf c3"
      "digest (hm_md_ctx c3) = Some t" by auto
  define todo where "todo = (if i * EVP_MD_size t + EVP_MD_size t > L then L - i * EVP_MD_size t else EVP_MD_size t)"
  have len: "length (take L (hkdf_upto t prk info i)) = i * EVP_MD_size t" "length (hkdf_T t prk info (Suc i)) = EVP_MD_size t"
    using Suc.prems(6) by (simp_all add: length_hkdf_upto length_hmac)
  have out: "take L (hkdf_upto t prk info i) @ take todo (hkdf_T t prk info (Suc i)) = take L (hkdf_upto t prk info (Suc i))"
    using len Suc.prems(6) by (auto simp: hkdf_upto_Suc length_hkdf_upto todo_def min_def simp del: hkdf_T.simps)
  have step: "hkdf_loop env info L (EVP_MD_size t) i (Suc k) hmac previous (take L (hkdf_upto t prk info i)) =
      hkdf_loop env info L (EVP_MD_size t) (Suc i) k c3 (hkdf_T t prk info (Suc i)) (take L (hkdf_upto t prk info (Suc i)))"
    unfolding hkdf_loop.simps Let_def c0_def [symmetric] len(1) todo_def [symmetric]
    using c(1) c1(1) c2(1) c3(1) out by (simp del: hkdf_T.simps hkdf_loop.simps)
  show ?case
  proof (cases k)
    case 0
    then show ?thesis unfolding step by simp
  next
    case (Suc k')
    have "Suc i * EVP_MD_size t \<le> L"
    proof -
      have "Suc i * EVP_MD_size t \<le> (i + Suc k - 1) * EVP_MD_size t" using Suc by (intro mult_le_mono1) simp
      also have "\<dots> < L" using Suc.prems(8) by simp
      finally show ?thesis by simp
    qed
    with Suc.IH [of c3 "Suc i" "hkdf_T t prk info (Suc i)"] c3(2-4) Suc.prems(7,8) show ?thesis
      unfolding step by (simp del: hkdf_T.simps)
  qed
qed simp

lemma hkdf_rounds:
  fixes L h n m :: nat
  assumes "0 < h" "n = (L + h - 1) div h"
  shows "L \<le> n * h" "n \<noteq> 0 \<Longrightarrow> (n - 1) * h < L" "n \<le> m \<longleftrightarrow> L \<le> m * h"
proof -
  have d: "n * h + (L + h - 1) mod h = L + h - 1" unfolding assms(2) by (rule div_mult_mod_eq)
  have m: "(L + h - 1) mod h \<le> h - 1" using assms(1) by (simp add: less_Suc_eq_le [symmetric])
  show *: "L \<le> n * h" using d m assms(1) by linarith
  have lt: "n * h < L + h" using d assms(1) by linarith
  show "(n - 1) * h < L" if "n \<noteq> 0"
  proof -
    from that obtain k where "n = Suc k" by (cases n) simp_all
    with lt show ?thesis by simp
  qed
  show "n \<le> m \<longleftrightarrow> L \<le> m * h"
  proof
    assume "n \<le> m"
    then have "n * h \<le> m * h" by simp
    with * show "L \<le> m * h" by linarith
  next
    assume "L \<le> m * h"
    with lt have "n * h < Suc m * h" by simp
    then show "n \<le> m" unfolding mult_less_cancel2 by simp
  qed
qed

lemma HKDF_expand_value:
  assumes "L < SIZE_MOD"
  shows "HKDF_expand env L t prk info =
    Some (if no_memory env t \<or> 255 * EVP_MD_size t < L then None else Some (hkdf_expand_rfc5869 t prk info L))"
proof -
  define h where "h = EVP_MD_size t"
  define n where "n = (L + h - 1) div h"
  have h: "0 < h" "h \<le> 64" using EVP_MD_size_bounds [of t] by (simp_all add: h_def EVP_MAX_MD_SIZE_def)
  note r = hkdf_rounds [OF h(1) n_def]
  have w: "size_add L h < L \<longleftrightarrow> SIZE_MOD \<le> L + h"
    using assms h(2) by (intro size_add_wraps_iff) (simp_all add: SIZE_MOD_def)
  have n: "size_add L (h - 1) div h = n" if "L + h < SIZE_MOD"
  proof -
    have "size_add L (h - 1) = L + (h - 1)" using that by (intro size_add_no_wrap) simp
    then show ?thesis using h(1) by (simp add: n_def)
  qed
  have big: "(SIZE_MOD \<le> L + h \<or> size_add L (h - 1) div h > 255) \<longleftrightarrow> 255 * h < L"
  proof (cases "L + h < SIZE_MOD")
    case True
    with n r(3) [of 255] show ?thesis by auto
  next
    case False
    then have "255 * h < L" using h(2) by (simp add: SIZE_MOD_def)
    with False show ?thesis by simp
  qed
  obtain ok c where c: "HMAC_Init_ex env HMAC_CTX_init (Some prk) (Some t) = Some (ok, c)" "hmac_wf c"
      "if ok then hmac_rep t prk [] c else no_memory env t"
    using HMAC_Init_key [OF hmac_wf_init, of "Some prk" t "Some t" env, unfolded option.case] by blast
  have mem: "ok \<longleftrightarrow> \<not> no_memory env t" using HMAC_Init_no_memory [of env t "Some prk"] c(1,3) by (cases ok) auto
  have e: "HKDF_expand env L t prk info =
      (if 255 * h < L then Some None
       else if \<not> ok then Some None else hkdf_loop env info L h 0 (size_add L (h - 1) div h) c [] [])"
    unfolding HKDF_expand_def Let_def h_def [symmetric] w big using c(1) by simp
  show ?thesis
  proof (cases "255 * h < L \<or> \<not> ok")
    case True
    then show ?thesis unfolding e using mem by (auto simp: h_def)
  next
    case False
    then have ok: ok and le: "L \<le> 255 * h" by simp_all
    have rep: "hmac_rep t prk [] c" using c(3) ok by simp
    have d: "hmac_keyed t prk c" "digest (hm_md_ctx c) = Some t" using rep by (simp_all add: hmac_rep_def evp_rep_def)
    have "hkdf_loop env info L h 0 n c [] (take L (hkdf_upto t prk info 0)) = Some (Some (take L (hkdf_upto t prk info (0 + n))))"
      unfolding h_def by (rule hkdf_loop [OF d(1) c(2) d(2)]) (use rep r(1,2) in \<open>simp_all add: h_def\<close>)
    moreover have "L + h < SIZE_MOD" using le h(2) by (simp add: SIZE_MOD_def)
    ultimately have "HKDF_expand env L t prk info = Some (Some (take L (hkdf_upto t prk info n)))"
      unfolding e using False n by (simp add: hkdf_upto_def)
    then show ?thesis
      using le mem ok by (simp add: hkdf_expand_rfc5869_def hkdf_upto_def n_def h_def)
  qed
qed

text \<open>C12: HKDF computes the keying material of RFC 5869 for every digest, secret, salt, info and length, with an absent salt standing
  for zeros. It returns zero exactly when more than 255 blocks are asked for or the memory is short, however large the
  length is, and follows no null pointer, though it finishes its HMACs without a pointer for the length.\<close>

theorem hkdf_is_rfc5869:
  assumes "L < SIZE_MOD"
  shows "HKDF env L t secret salt info =
    Some (if no_memory env t \<or> 255 * EVP_MD_size t < L then None
          else Some (hkdf_expand_rfc5869 t (hkdf_extract_rfc5869 t secret salt) info L))"
  by (simp add: HKDF_def HKDF_extract_value HKDF_expand_value [OF assms] hkdf_extract_rfc5869_def length_hmac)

theorem hkdf_is_rfc5869_witness:
  "HKDF evp_env 42 P_sha256 [0x0b, 0x0b] None [0xf0] =
     Some (Some (hkdf_expand_rfc5869 P_sha256 (hkdf_extract_rfc5869 P_sha256 [0x0b, 0x0b] None) [0xf0] 42)) \<and>
   HKDF evp_env (2 ^ 64 - 1) P_sha256 [0x0b, 0x0b] None [0xf0] = Some None"
proof -
  have m: "\<not> no_memory evp_env P_sha256" "EVP_MD_size P_sha256 = 32"
    by (simp_all add: evp_env_def OPENSSL_malloc_def size_add_def SIZE_MOD_def EVP_sha256_def EVP_MD_size_def SHA256_DIGEST_LENGTH_def)
  have l: "42 < SIZE_MOD" "2 ^ 64 - 1 < SIZE_MOD" by (simp_all add: SIZE_MOD_def)
  show ?thesis using hkdf_is_rfc5869 [OF l(1)] hkdf_is_rfc5869 [OF l(2)] m by simp
qed

section \<open>PBKDF2\<close>

text \<open>The remaining iterations for one block: \<open>k\<close> of them. The flag is false when the function returns zero.\<close>

fun pbkdf2_iterations ::
    "heap_env \<Rightarrow> nat \<Rightarrow> nat \<Rightarrow> HMAC_CTX \<Rightarrow> byte list \<Rightarrow> byte list \<Rightarrow> (bool \<times> HMAC_CTX \<times> byte list) option" where
  "pbkdf2_iterations env mdlen 0 hctx digest_tmp out_key = Some (True, hctx, out_key)"
| "pbkdf2_iterations env mdlen (Suc k) hctx digest_tmp out_key =
     do {
       (ok, hctx) \<leftarrow> HMAC_Init_ex env hctx None None;
       if \<not> ok then Some (False, hctx, out_key)
       else do {
         hctx \<leftarrow> HMAC_Update hctx (take mdlen digest_tmp);
         (r, hctx) \<leftarrow> HMAC_Final env hctx False;
         case r of
           None \<Rightarrow> Some (False, hctx, out_key)
         | Some (digest_tmp, _) \<Rightarrow> pbkdf2_iterations env mdlen k hctx digest_tmp (map2 (XOR) out_key digest_tmp)
       }
     }"

definition pbkdf2_i_buf :: "u32 \<Rightarrow> byte list" where
  "pbkdf2_i_buf i =
     [ucast (drop_bit 24 i AND 0xff), ucast (drop_bit 16 i AND 0xff), ucast (drop_bit 8 i AND 0xff), ucast (i AND 0xff)]"

text \<open>One block of \<open>todo\<close> bytes.\<close>

definition pbkdf2_block ::
    "heap_env \<Rightarrow> nat \<Rightarrow> byte list \<Rightarrow> nat \<Rightarrow> HMAC_CTX \<Rightarrow> u32 \<Rightarrow> nat \<Rightarrow> (bool \<times> HMAC_CTX \<times> byte list) option" where
  "pbkdf2_block env mdlen salt iterations hctx i todo =
     do {
       (ok, hctx) \<leftarrow> HMAC_Init_ex env hctx None None;
       if \<not> ok then Some (False, hctx, [])
       else do {
         hctx \<leftarrow> HMAC_Update hctx salt;
         hctx \<leftarrow> HMAC_Update hctx (pbkdf2_i_buf i);
         (r, hctx) \<leftarrow> HMAC_Final env hctx False;
         case r of
           None \<Rightarrow> Some (False, hctx, [])
         | Some (digest_tmp, _) \<Rightarrow> pbkdf2_iterations env mdlen (iterations - 1) hctx digest_tmp (take todo digest_tmp)
       }
     }"

text \<open>The loop over the blocks. It ends because a digest is not empty.\<close>

function pbkdf2_blocks ::
    "heap_env \<Rightarrow> md_ptr \<Rightarrow> byte list \<Rightarrow> nat \<Rightarrow> HMAC_CTX \<Rightarrow> u32 \<Rightarrow> nat \<Rightarrow> byte list \<Rightarrow> (bool \<times> byte list) option" where
  "pbkdf2_blocks env md salt iterations hctx i key_len out_key =
     (if key_len > 0 then
        let mdlen = EVP_MD_size md;
            todo = (if mdlen > key_len then key_len else mdlen)
        in case pbkdf2_block env mdlen salt iterations hctx i todo of
             None \<Rightarrow> None
           | Some (ok, hctx, block) \<Rightarrow>
               if \<not> ok then Some (False, out_key @ block)
               else pbkdf2_blocks env md salt iterations hctx (i + 1) (key_len - todo) (out_key @ block)
      else Some (True, out_key))"
  by pat_completeness auto

termination
  by (relation "measure (\<lambda>(env, md, salt, iterations, hctx, i, key_len, out_key). key_len)")
    (use EVP_MD_size_bounds(1) in \<open>auto simp: neq0_conv\<close>)

definition PKCS5_PBKDF2_HMAC ::
    "heap_env \<Rightarrow> byte list option \<Rightarrow> byte list \<Rightarrow> nat \<Rightarrow> md_ptr \<Rightarrow> nat \<Rightarrow> (bool \<times> byte list) option" where
  "PKCS5_PBKDF2_HMAC env password salt iterations md key_len =
     do {
       (ok, hctx) \<leftarrow> HMAC_Init_ex env HMAC_CTX_init password (Some md);
       if \<not> ok then Some (False, [])
       else do {
         (ok, out_key) \<leftarrow> pbkdf2_blocks env md salt iterations hctx 1 key_len [];
         if \<not> ok then Some (False, out_key) else Some (iterations \<noteq> 0, out_key)
       }
     }"

definition PKCS5_PBKDF2_HMAC_SHA1 ::
    "heap_env \<Rightarrow> byte list option \<Rightarrow> byte list \<Rightarrow> nat \<Rightarrow> nat \<Rightarrow> (bool \<times> byte list) option" where
  "PKCS5_PBKDF2_HMAC_SHA1 env password salt iterations key_len = PKCS5_PBKDF2_HMAC env password salt iterations P_sha1 key_len"

subsection \<open>RFC 8018\<close>

text \<open>Section 5.2: \<open>pbkdf2_U\<close> starts at \<open>U_1\<close>, \<open>pbkdf2_F\<close> is the exclusive or of the first \<open>c\<close>. The number of a block is
  encoded in four octets, so that numbers from \<open>2 ^ 32\<close> on, which the RFC does not admit, repeat.\<close>

fun pbkdf2_U :: "md_ptr \<Rightarrow> byte list \<Rightarrow> byte list \<Rightarrow> nat \<Rightarrow> nat \<Rightarrow> byte list" where
  "pbkdf2_U t P S i 0 = hmac_rfc2104 t P (S @ be_bytes 4 i)"
| "pbkdf2_U t P S i (Suc j) = hmac_rfc2104 t P (pbkdf2_U t P S i j)"

definition pbkdf2_F :: "md_ptr \<Rightarrow> byte list \<Rightarrow> byte list \<Rightarrow> nat \<Rightarrow> nat \<Rightarrow> byte list" where
  "pbkdf2_F t P S c i = foldl (map2 (XOR)) (pbkdf2_U t P S i 0) (map (pbkdf2_U t P S i) [1..<c])"

definition pbkdf2_rfc8018 :: "md_ptr \<Rightarrow> byte list \<Rightarrow> byte list \<Rightarrow> nat \<Rightarrow> nat \<Rightarrow> byte list" where
  "pbkdf2_rfc8018 t P S c dkLen =
     (let l = (dkLen + EVP_MD_size t - 1) div EVP_MD_size t
      in take dkLen (concat (map (\<lambda>i. pbkdf2_F t P S c (i + 1)) [0..<l])))"

subsection \<open>The implementation\<close>

lemma length_pbkdf2_U: "length (pbkdf2_U t P S i j) = EVP_MD_size t"
  by (cases j) (simp_all add: length_hmac)

lemma ucast_and_ff: "ucast (w AND 0xff) = (ucast w :: byte)" for w :: u32
proof -
  have m: "(0xff :: u32) = mask 8" by (simp add: mask_eq_exp_minus_1)
  show ?thesis unfolding m by (rule bit_word_eqI) (auto simp: bit_simps)
qed

lemma ucast_unat: "(ucast w :: byte) = word_of_nat (unat w)" for w :: u32
  by simp

lemma ucast_drop_bit: "(ucast (drop_bit n w) :: byte) = word_of_nat (unat w div 2 ^ n)" for w :: u32
  unfolding ucast_unat by (simp only: unat_drop_bit_eq drop_bit_eq_div [of n "unat w"])

lemma pbkdf2_i_buf: "pbkdf2_i_buf (word_of_nat i) = be_bytes 4 i"
proof -
  define w :: u32 where "w = word_of_nat i"
  have "pbkdf2_i_buf w = be_bytes 4 (unat w)"
    unfolding pbkdf2_i_buf_def ucast_and_ff ucast_drop_bit unfolding ucast_unat
    by (simp add: be_bytes_numeral del: of_nat_unat flip: div_mult2_eq)
  also have "unat w = i mod 256 ^ 4" by (simp add: w_def unsigned_of_nat take_bit_eq_mod)
  finally show ?thesis using be_bytes_mod [of 4 i] by (simp only: w_def)
qed

definition hmac_idle :: "md_ptr \<Rightarrow> byte list \<Rightarrow> HMAC_CTX \<Rightarrow> bool" where
  "hmac_idle t key ctx \<longleftrightarrow> hmac_keyed t key ctx \<and> hmac_wf ctx \<and> digest (hm_md_ctx ctx) = Some t"

lemma hmac_rep_idle: "hmac_rep t key msg ctx \<Longrightarrow> hmac_idle t key ctx"
  using hmac_rep_wf by (auto simp: hmac_idle_def hmac_rep_def evp_rep_def)

lemma take_map2: "take n (map2 f xs ys) = map2 f (take n xs) (take n ys)"
  by (simp add: take_map take_zip)

lemma map2_take: "length xs = n \<Longrightarrow> map2 f xs (take n ys) = map2 f xs ys"
proof (induction xs arbitrary: n ys)
  case (Cons x xs)
  then show ?case by (cases ys) auto
qed simp

lemma pbkdf2_iterations:
  assumes "hmac_idle t P c" "d = pbkdf2_U t P S i j" "n \<le> EVP_MD_size t" "length acc = n"
  shows "\<exists>c'. pbkdf2_iterations env (EVP_MD_size t) k c d acc =
      Some (True, c', foldl (map2 (XOR)) acc (map (pbkdf2_U t P S i) [Suc j..<Suc j + k])) \<and> hmac_idle t P c'"
  using assms
proof (induction k arbitrary: c d j acc)
  case (Suc k)
  from Suc.prems(1) have i: "hmac_keyed t P c" "hmac_wf c" "digest (hm_md_ctx c) = Some t" by (simp_all add: hmac_idle_def)
  from HMAC_Init_again [OF i, of None env] obtain c1 where
    c1: "HMAC_Init_ex env c None None = Some (True, c1)" "hmac_rep t P [] c1" by blast
  from HMAC_Update_rep [OF c1(2), of d] obtain c2 where c2: "HMAC_Update c1 d = Some c2" "hmac_rep t P d c2" by auto
  from HMAC_Final_rep [OF c2(2), of env False] obtain c3 where
    c3: "HMAC_Final env c2 False = Some (Some (pbkdf2_U t P S i (Suc j), EVP_MD_size t), c3)" "hmac_idle t P c3"
    by (auto simp: hmac_idle_def Suc.prems(2))
  have t: "take (EVP_MD_size t) d = d" by (simp add: Suc.prems(2) length_pbkdf2_U)
  have l: "length (map2 (XOR) acc (pbkdf2_U t P S i (Suc j))) = n"
    using Suc.prems(3,4) by (simp add: length_pbkdf2_U del: pbkdf2_U.simps)
  have u: "[Suc j..<Suc j + Suc k] = Suc j # [Suc (Suc j)..<Suc (Suc j) + k]" by (simp add: upt_rec del: upt_Suc)
  from Suc.IH [OF c3(2) refl Suc.prems(3) l] obtain c4 where
    "pbkdf2_iterations env (EVP_MD_size t) k c3 (pbkdf2_U t P S i (Suc j)) (map2 (XOR) acc (pbkdf2_U t P S i (Suc j))) =
      Some (True, c4, foldl (map2 (XOR)) (map2 (XOR) acc (pbkdf2_U t P S i (Suc j)))
        (map (pbkdf2_U t P S i) [Suc (Suc j)..<Suc (Suc j) + k]))" "hmac_idle t P c4" by blast
  then show ?case unfolding u using c1(1) c2(1) c3(1) t by (simp del: pbkdf2_U.simps upt_Suc)
qed simp

lemma foldl_map2_take:
  "length acc = m \<Longrightarrow> n \<le> m \<Longrightarrow> list_all (\<lambda>x. length x = m) xs \<Longrightarrow>
     foldl (map2 f) (take n acc) xs = take n (foldl (map2 f) acc xs)"
proof (induction xs arbitrary: acc)
  case (Cons x xs)
  have "map2 f (take n acc) x = take n (map2 f acc x)"
    unfolding take_map2 using Cons.prems by (simp add: map2_take)
  with Cons show ?case by simp
qed simp

lemma pbkdf2_block:
  assumes "hmac_idle t P c" "n \<le> EVP_MD_size t"
  shows "\<exists>c'. pbkdf2_block env (EVP_MD_size t) S iterations c (word_of_nat i) n =
      Some (True, c', take n (pbkdf2_F t P S (max 1 iterations) i)) \<and> hmac_idle t P c'"
proof -
  from assms(1) have i: "hmac_keyed t P c" "hmac_wf c" "digest (hm_md_ctx c) = Some t" by (simp_all add: hmac_idle_def)
  from HMAC_Init_again [OF i, of None env] obtain c1 where
    c1: "HMAC_Init_ex env c None None = Some (True, c1)" "hmac_rep t P [] c1" by blast
  from HMAC_Update_rep [OF c1(2), of S] obtain c2 where c2: "HMAC_Update c1 S = Some c2" "hmac_rep t P S c2" by auto
  from HMAC_Update_rep [OF c2(2), of "be_bytes 4 i"] obtain c3 where
    c3: "HMAC_Update c2 (be_bytes 4 i) = Some c3" "hmac_rep t P (S @ be_bytes 4 i) c3" by auto
  from HMAC_Final_rep [OF c3(2), of env False] obtain c4 where
    c4: "HMAC_Final env c3 False = Some (Some (pbkdf2_U t P S i 0, EVP_MD_size t), c4)" "hmac_idle t P c4"
    by (auto simp: hmac_idle_def)
  have l: "length (take n (pbkdf2_U t P S i 0)) = n" using assms(2) by (simp add: length_pbkdf2_U del: pbkdf2_U.simps)
  define xs where "xs = map (pbkdf2_U t P S i) [Suc 0..<Suc 0 + (iterations - 1)]"
  from pbkdf2_iterations [OF c4(2) refl assms(2) l, of env "iterations - 1"] obtain c5 where
    c5: "pbkdf2_iterations env (EVP_MD_size t) (iterations - 1) c4 (pbkdf2_U t P S i 0) (take n (pbkdf2_U t P S i 0)) =
      Some (True, c5, foldl (map2 (XOR)) (take n (pbkdf2_U t P S i 0)) xs)" "hmac_idle t P c5"
    unfolding xs_def by blast
  have "foldl (map2 (XOR)) (take n (pbkdf2_U t P S i 0)) xs = take n (foldl (map2 (XOR)) (pbkdf2_U t P S i 0) xs)"
    by (rule foldl_map2_take [OF length_pbkdf2_U assms(2)]) (simp add: xs_def list_all_iff length_pbkdf2_U del: pbkdf2_U.simps)
  also have "Suc 0 + (iterations - 1) = max 1 iterations" by simp
  then have "foldl (map2 (XOR)) (pbkdf2_U t P S i 0) xs = pbkdf2_F t P S (max 1 iterations) i"
    unfolding pbkdf2_F_def xs_def by (simp only: One_nat_def)
  finally show ?thesis
    using c1(1) c2(1) c3(1) c4(1) c5 by (simp add: pbkdf2_block_def pbkdf2_i_buf del: pbkdf2_U.simps)
qed

lemma length_pbkdf2_F: "length (pbkdf2_F t P S c i) = EVP_MD_size t"
proof -
  have "length (foldl (map2 f) acc xs) = length acc" if "list_all (\<lambda>x. length x = length acc) xs"
    for f :: "byte \<Rightarrow> byte \<Rightarrow> byte" and acc xs
    using that by (induction xs arbitrary: acc) simp_all
  then show ?thesis by (simp add: pbkdf2_F_def list_all_iff length_pbkdf2_U del: pbkdf2_U.simps)
qed

text \<open>The blocks from number \<open>i\<close> on, as many as it takes.\<close>

definition pbkdf2_from :: "md_ptr \<Rightarrow> byte list \<Rightarrow> byte list \<Rightarrow> nat \<Rightarrow> nat \<Rightarrow> nat \<Rightarrow> byte list" where
  "pbkdf2_from t P S c i L =
     take L (concat (map (pbkdf2_F t P S c) [i..<i + (L + EVP_MD_size t - 1) div EVP_MD_size t]))"

lemma pbkdf2_from_step:
  assumes "0 < L"
  shows "take (min (EVP_MD_size t) L) (pbkdf2_F t P S c i) @ pbkdf2_from t P S c (Suc i) (L - min (EVP_MD_size t) L) =
    pbkdf2_from t P S c i L"
proof -
  define h where "h = EVP_MD_size t"
  have h: "0 < h" using EVP_MD_size_bounds(1) by (simp add: h_def)
  define k where "k = (L - min h L + h - 1) div h"
  have n: "(L + h - 1) div h = Suc k"
  proof (cases "L \<le> h")
    case True
    then have "L + h - 1 = (L - 1) + h" "L - 1 < h" using assms by linarith+
    then have "(L + h - 1) div h = 1" using h div_add_self2 [of h "L - 1"] by (simp only: div_less)
    moreover have "k = 0" using True h by (simp add: k_def min_absorb2)
    ultimately show ?thesis by (simp only: One_nat_def)
  next
    case False
    then have "L + h - 1 = (L - min h L + h - 1) + h" by linarith
    then show ?thesis using h div_add_self2 [of h "L - min h L + h - 1"] by (simp only: k_def Suc_eq_plus1)
  qed
  have "[i..<i + Suc k] = i # [Suc i..<Suc i + k]" by (simp add: upt_rec del: upt_Suc)
  then have "pbkdf2_from t P S c i L = take L (pbkdf2_F t P S c i @ concat (map (pbkdf2_F t P S c) [Suc i..<Suc i + k]))"
    unfolding pbkdf2_from_def h_def [symmetric] n by (simp del: upt_Suc)
  moreover have "length (pbkdf2_F t P S c i) = h" by (simp add: length_pbkdf2_F h_def)
  moreover have "L - min h L = L - h" by simp
  ultimately show ?thesis
    unfolding pbkdf2_from_def [of t P S c "Suc i"] h_def [symmetric] k_def [symmetric]
    by (simp only: take_append min.commute [of h L]) (simp add: min_def)
qed

lemma pbkdf2_blocks:
  "hmac_idle t P c \<Longrightarrow>
     pbkdf2_blocks env t S iterations c (word_of_nat i) L out = Some (True, out @ pbkdf2_from t P S (max 1 iterations) i L)"
proof (induction L arbitrary: c i out rule: less_induct)
  case (less L)
  show ?case
  proof (cases "L = 0")
    case True
    then show ?thesis by (simp add: pbkdf2_from_def)
  next
    case False
    define n where "n = min (EVP_MD_size t) L"
    have n: "0 < n" "n \<le> EVP_MD_size t" "n \<le> L" using False EVP_MD_size_bounds(1) [of t] by (simp_all add: n_def)
    have todo: "(if EVP_MD_size t > L then L else EVP_MD_size t) = n" by (simp add: n_def)
    from pbkdf2_block [OF less.prems n(2), of env S iterations i] obtain c1 where
      c1: "pbkdf2_block env (EVP_MD_size t) S iterations c (word_of_nat i) n =
        Some (True, c1, take n (pbkdf2_F t P S (max 1 iterations) i))" "hmac_idle t P c1" by blast
    have w: "word_of_nat i + 1 = (word_of_nat (Suc i) :: u32)" by (simp add: add.commute)
    have "pbkdf2_blocks env t S iterations c (word_of_nat i) L out =
        pbkdf2_blocks env t S iterations c1 (word_of_nat (Suc i)) (L - n) (out @ take n (pbkdf2_F t P S (max 1 iterations) i))"
      unfolding pbkdf2_blocks.simps [of env t S iterations c "word_of_nat i" L out] Let_def todo c1(1) w
      using False by (simp del: of_nat_Suc pbkdf2_blocks.simps)
    also have "\<dots> = Some (True, (out @ take n (pbkdf2_F t P S (max 1 iterations) i)) @ pbkdf2_from t P S (max 1 iterations) (Suc i) (L - n))"
      by (rule less.IH [OF _ c1(2)]) (use n in simp)
    also have "\<dots> = Some (True, out @ pbkdf2_from t P S (max 1 iterations) i L)"
      using pbkdf2_from_step [of L t P S "max 1 iterations" i] False by (simp add: n_def)
    finally show ?thesis .
  qed
qed

lemma pbkdf2_from_1: "pbkdf2_from t P S c 1 L = pbkdf2_rfc8018 t P S c L"
proof -
  have "map (pbkdf2_F t P S c) [1..<1 + n] = map (\<lambda>i. pbkdf2_F t P S c (i + 1)) [0..<n]" for n
    by (induction n) simp_all
  then show ?thesis unfolding pbkdf2_from_def pbkdf2_rfc8018_def Let_def by (simp only:)
qed

text \<open>C13: PBKDF2 computes the key of RFC 8018 for every digest, password, salt, iteration count and length: the loops end, no null
  pointer is followed, and once the password is set nothing fails. With no iterations it returns zero, and the key of
  one iteration all the same.\<close>

theorem pbkdf2_is_rfc8018:
  "PKCS5_PBKDF2_HMAC env password salt iterations t key_len =
     Some (if no_memory env t then (False, [])
           else (iterations \<noteq> 0,
                 pbkdf2_rfc8018 t (case password of None \<Rightarrow> [] | Some p \<Rightarrow> p) salt (max 1 iterations) key_len))"
proof -
  define P where "P = (case password of None \<Rightarrow> [] | Some p \<Rightarrow> p)"
  have n: "password \<noteq> None \<or> hm_md HMAC_CTX_init \<noteq> Some t" by (simp add: HMAC_CTX_init_def)
  obtain ok c where c: "HMAC_Init_ex env HMAC_CTX_init password (Some t) = Some (ok, c)"
      "if ok then hmac_rep t P [] c else no_memory env t"
    unfolding P_def using HMAC_Init_key [OF hmac_wf_init n, of "Some t" env] by blast
  show ?thesis unfolding P_def [symmetric]
  proof (cases ok)
    case False
    with c show "PKCS5_PBKDF2_HMAC env password salt iterations t key_len =
        Some (if no_memory env t then (False, []) else (iterations \<noteq> 0, pbkdf2_rfc8018 t P salt (max 1 iterations) key_len))"
      by (simp add: PKCS5_PBKDF2_HMAC_def)
  next
    case True
    with c(2) have "hmac_idle t P c" by (simp add: hmac_rep_idle)
    from pbkdf2_blocks [OF this, of env salt iterations 1 key_len "[]"]
    have b: "pbkdf2_blocks env t salt iterations c 1 key_len [] = Some (True, pbkdf2_rfc8018 t P salt (max 1 iterations) key_len)"
      by (simp only: of_nat_1 append_Nil pbkdf2_from_1)
    have "\<not> no_memory env t" using HMAC_Init_no_memory [of env t password] c(1) True by auto
    then show "PKCS5_PBKDF2_HMAC env password salt iterations t key_len =
        Some (if no_memory env t then (False, []) else (iterations \<noteq> 0, pbkdf2_rfc8018 t P salt (max 1 iterations) key_len))"
      unfolding PKCS5_PBKDF2_HMAC_def if_not_P [OF \<open>\<not> no_memory env t\<close>]
      using c(1) True b by (simp del: pbkdf2_blocks.simps)
  qed
qed

end
