(* ===== verification/Lhash.thy ===== *)
theory Lhash
  imports Mem "HOL-Library.Multiset"
begin

text \<open>
  The hash table of \<^verbatim>\<open>crypto/lhash/lhash.c\<close>: an array of chains that is doubled and halved as the average chain length
  asks for. After the operations come the invariant \<open>lh_ok\<close> (every item in the bucket of its hash, no two equal
  elements, right counters), the effect of every operation on the multiset of elements, and the interface
  of a dictionary, a locale that the operations interpret. The callback of \<^verbatim>\<open>OPENSSL_lh_doall_arg\<close> is a
  function on the state behind its argument: a callback that changes the table itself is not modelled.
\<close>

section \<open>State\<close>

text \<open>A chain is the list of its items. The fields \<^verbatim>\<open>comp\<close> and \<^verbatim>\<open>hash\<close> hold the functions that the typed wrappers call.\<close>

record 'd lhash_item_st =
  item_data :: 'd
  item_hash :: "32 word"

record 'd lhash_st =
  num_items :: nat
  buckets :: "'d lhash_item_st list list"
  num_buckets :: nat
  callback_depth :: "32 word"
  lh_comp :: "'d \<Rightarrow> 'd \<Rightarrow> int"
  lh_hash :: "'d \<Rightarrow> 32 word"

definition kMinNumBuckets :: nat where "kMinNumBuckets = 16"
definition kMaxAverageChainLength :: nat where "kMaxAverageChainLength = 2"
definition kMinAverageChainLength :: nat where "kMinAverageChainLength = 1"
definition sizeof_LHASH :: nat where "sizeof_LHASH = 48"
definition sizeof_LHASH_ITEM :: nat where "sizeof_LHASH_ITEM = 24"
definition sizeof_item_ptr :: nat where "sizeof_item_ptr = 8"
definition LH_UINT_MAX :: "32 word" where "LH_UINT_MAX = 0xffffffff"

section \<open>Operations\<close>

definition OPENSSL_lh_new :: "heap_env \<Rightarrow> ('d \<Rightarrow> 32 word) \<Rightarrow> ('d \<Rightarrow> 'd \<Rightarrow> int) \<Rightarrow> 'd lhash_st option" where
  "OPENSSL_lh_new env hash cmp =
     (if OPENSSL_malloc env sizeof_LHASH = None then None
      else if OPENSSL_malloc env (size_mul sizeof_item_ptr kMinNumBuckets) = None then None
      else Some \<lparr>num_items = 0, buckets = replicate kMinNumBuckets [], num_buckets = kMinNumBuckets,
                 callback_depth = 0, lh_comp = cmp, lh_hash = hash\<rparr>)"

definition OPENSSL_lh_num_items :: "'d lhash_st \<Rightarrow> nat" where
  "OPENSSL_lh_num_items lh = num_items lh"

text \<open>A pointer to a pointer to an item is the bucket and the position in its chain; the pointer it points to is null when
  the position is the end of the chain.\<close>

fun chain_pos :: "('d \<Rightarrow> bool) \<Rightarrow> 'd lhash_item_st list \<Rightarrow> nat" where
  "chain_pos found [] = 0"
| "chain_pos found (cur # chain) = (if found (item_data cur) then 0 else chain_pos found chain + 1)"

definition get_next_ptr_and_hash :: "'d lhash_st \<Rightarrow> 'd \<Rightarrow> (nat \<times> nat) \<times> 32 word" where
  "get_next_ptr_and_hash lh d =
     (let hash = lh_hash lh d; b = unat hash mod num_buckets lh in
      ((b, chain_pos (\<lambda>x. lh_comp lh x d = 0) (buckets lh ! b)), hash))"

definition get_next_ptr_by_key :: "'d lhash_st \<Rightarrow> 'k \<Rightarrow> 32 word \<Rightarrow> ('k \<Rightarrow> 'd \<Rightarrow> int) \<Rightarrow> nat \<times> nat" where
  "get_next_ptr_by_key lh key key_hash cmp_key =
     (let b = unat key_hash mod num_buckets lh in (b, chain_pos (\<lambda>x. cmp_key key x = 0) (buckets lh ! b)))"

definition item_at :: "'d lhash_st \<Rightarrow> nat \<times> nat \<Rightarrow> 'd lhash_item_st option" where
  "item_at lh p = (case p of (b, i) \<Rightarrow> if i < length (buckets lh ! b) then Some (buckets lh ! b ! i) else None)"

definition OPENSSL_lh_retrieve :: "'d lhash_st \<Rightarrow> 'd \<Rightarrow> 'd option" where
  "OPENSSL_lh_retrieve lh d = map_option item_data (item_at lh (fst (get_next_ptr_and_hash lh d)))"

definition OPENSSL_lh_retrieve_key :: "'d lhash_st \<Rightarrow> 'k \<Rightarrow> 32 word \<Rightarrow> ('k \<Rightarrow> 'd \<Rightarrow> int) \<Rightarrow> 'd option" where
  "OPENSSL_lh_retrieve_key lh key key_hash cmp_key =
     map_option item_data (item_at lh (get_next_ptr_by_key lh key key_hash cmp_key))"

text \<open>Moving one item to the head of its new chain, and the items of all chains in order.\<close>

definition move_item :: "nat \<Rightarrow> 'd lhash_item_st \<Rightarrow> 'd lhash_item_st list list \<Rightarrow> 'd lhash_item_st list list" where
  "move_item n cur new = (let b = unat (item_hash cur) mod n in new[b := cur # new ! b])"

definition lh_rebucket :: "heap_env \<Rightarrow> 'd lhash_st \<Rightarrow> nat \<Rightarrow> 'd lhash_st" where
  "lh_rebucket env lh n =
     (let alloc_size = size_mul sizeof_item_ptr n in
      if alloc_size div sizeof_item_ptr \<noteq> n then lh
      else if OPENSSL_malloc env alloc_size = None then lh
      else lh\<lparr>num_buckets := n, buckets := fold (fold (move_item n)) (buckets lh) (replicate n [])\<rparr>)"

definition lh_maybe_resize :: "heap_env \<Rightarrow> 'd lhash_st \<Rightarrow> 'd lhash_st" where
  "lh_maybe_resize env lh =
     (if callback_depth lh > 0 then lh
      else
        let avg_chain_length = num_items lh div num_buckets lh in
        if avg_chain_length > kMaxAverageChainLength then
          let n = size_mul (num_buckets lh) 2 in
          if n > num_buckets lh then lh_rebucket env lh n else lh
        else if avg_chain_length < kMinAverageChainLength \<and> num_buckets lh > kMinNumBuckets then
          let n = num_buckets lh div 2; n = (if n < kMinNumBuckets then kMinNumBuckets else n)
          in lh_rebucket env lh n
        else lh)"

definition set_chain :: "'d lhash_st \<Rightarrow> nat \<Rightarrow> 'd lhash_item_st list \<Rightarrow> 'd lhash_st" where
  "set_chain lh b chain = lh\<lparr>buckets := (buckets lh)[b := chain]\<rparr>"

text \<open>Inserting returns whether it succeeded, the element it replaced, and the table.\<close>

definition OPENSSL_lh_insert :: "heap_env \<Rightarrow> 'd lhash_st \<Rightarrow> 'd \<Rightarrow> bool \<times> 'd option \<times> 'd lhash_st" where
  "OPENSSL_lh_insert env lh d =
     (case get_next_ptr_and_hash lh d of
        ((b, i), hash) \<Rightarrow>
          (case item_at lh (b, i) of
             Some it \<Rightarrow> (True, Some (item_data it), set_chain lh b ((buckets lh ! b)[i := it\<lparr>item_data := d\<rparr>]))
           | None \<Rightarrow>
               if OPENSSL_malloc env sizeof_LHASH_ITEM = None then (False, None, lh)
               else
                 let lh = set_chain lh b (buckets lh ! b @ [\<lparr>item_data = d, item_hash = hash\<rparr>]);
                     lh = lh\<lparr>num_items := size_add (num_items lh) 1\<rparr>
                 in (True, None, lh_maybe_resize env lh)))"

definition OPENSSL_lh_delete :: "heap_env \<Rightarrow> 'd lhash_st \<Rightarrow> 'd \<Rightarrow> 'd option \<times> 'd lhash_st" where
  "OPENSSL_lh_delete env lh d =
     (case get_next_ptr_and_hash lh d of
        ((b, i), hash) \<Rightarrow>
          (case item_at lh (b, i) of
             None \<Rightarrow> (None, lh)
           | Some it \<Rightarrow>
               let lh = set_chain lh b (take i (buckets lh ! b) @ drop (i + 1) (buckets lh ! b));
                   lh = lh\<lparr>num_items := num_items lh - 1\<rparr>
               in (Some (item_data it), lh_maybe_resize env lh)))"

text \<open>Iteration with a callback that leaves the table alone and updates the state behind its argument.\<close>

definition OPENSSL_lh_doall_arg :: "heap_env \<Rightarrow> 'd lhash_st \<Rightarrow> ('d \<Rightarrow> 'a \<Rightarrow> 'a) \<Rightarrow> 'a \<Rightarrow> 'a \<times> 'd lhash_st" where
  "OPENSSL_lh_doall_arg env lh func arg =
     (let lh = (if callback_depth lh < LH_UINT_MAX then lh\<lparr>callback_depth := callback_depth lh + 1\<rparr> else lh);
          arg = fold (fold (\<lambda>cur. func (item_data cur))) (buckets lh) arg;
          lh = (if callback_depth lh < LH_UINT_MAX then lh\<lparr>callback_depth := callback_depth lh - 1\<rparr> else lh)
      in (arg, lh_maybe_resize env lh))"

section \<open>What a table holds\<close>

definition lh_items :: "'d lhash_st \<Rightarrow> 'd lhash_item_st multiset" where
  "lh_items lh = mset (concat (buckets lh))"

definition lh_elems :: "'d lhash_st \<Rightarrow> 'd multiset" where
  "lh_elems lh = image_mset item_data (lh_items lh)"

text \<open>The functions of a table: comparing equal is an equivalence that the hash function respects.\<close>

locale hash_functions =
  fixes hash :: "'d \<Rightarrow> 32 word" and cmp :: "'d \<Rightarrow> 'd \<Rightarrow> int"
  assumes cmp_refl: "cmp x x = 0"
    and cmp_sym: "cmp x y = 0 \<Longrightarrow> cmp y x = 0"
    and cmp_trans: "cmp x y = 0 \<Longrightarrow> cmp y z = 0 \<Longrightarrow> cmp x z = 0"
    and cmp_hash: "cmp x y = 0 \<Longrightarrow> hash x = hash y"

definition lh_matches :: "('d \<Rightarrow> 'd \<Rightarrow> int) \<Rightarrow> 'd \<Rightarrow> 'd multiset \<Rightarrow> 'd multiset" where
  "lh_matches cmp d M = filter_mset (\<lambda>x. cmp x d = 0) M"

text \<open>An item lies in the bucket of its hash, which is that of its element; no two elements are equal; the counters are right.\<close>

definition lh_placed :: "'d lhash_st \<Rightarrow> bool" where
  "lh_placed lh \<longleftrightarrow>
     (\<forall>b < num_buckets lh. \<forall>it \<in> set (buckets lh ! b). unat (item_hash it) mod num_buckets lh = b)"

definition lh_ok :: "'d lhash_st \<Rightarrow> bool" where
  "lh_ok lh \<longleftrightarrow>
     hash_functions (lh_hash lh) (lh_comp lh) \<and> length (buckets lh) = num_buckets lh \<and>
     kMinNumBuckets \<le> num_buckets lh \<and> num_buckets lh * sizeof_item_ptr < SIZE_MOD \<and> lh_placed lh \<and>
     (\<forall>it \<in># lh_items lh. item_hash it = lh_hash lh (item_data it)) \<and>
     (\<forall>d. size (lh_matches (lh_comp lh) d (lh_elems lh)) \<le> 1) \<and>
     num_items lh = size (lh_items lh)"

lemma set_lh_items: "set_mset (lh_items lh) = (\<Union>c \<in> set (buckets lh). set c)"
  by (simp add: lh_items_def)

lemma mset_concat_update:
  "b < length bs \<Longrightarrow> mset (concat (bs[b := c])) + mset (bs ! b) = mset (concat bs) + mset c"
  by (induction bs arbitrary: b) (auto simp: nth_Cons split: nat.split)

lemma lh_items_set_chain:
  "b < length (buckets lh) \<Longrightarrow> lh_items (set_chain lh b c) + mset (buckets lh ! b) = lh_items lh + mset c"
  by (simp add: lh_items_def set_chain_def mset_concat_update)

lemma set_chain_simps [simp]:
  "num_items (set_chain lh b c) = num_items lh" "num_buckets (set_chain lh b c) = num_buckets lh"
  "callback_depth (set_chain lh b c) = callback_depth lh" "lh_comp (set_chain lh b c) = lh_comp lh"
  "lh_hash (set_chain lh b c) = lh_hash lh" "length (buckets (set_chain lh b c)) = length (buckets lh)"
  by (simp_all add: set_chain_def)

lemma lh_items_num_items [simp]: "lh_items (lh\<lparr>num_items := n\<rparr>) = lh_items lh"
  by (simp add: lh_items_def)

lemma lh_placed_num_items [simp]: "lh_placed (lh\<lparr>num_items := n\<rparr>) = lh_placed lh"
  by (simp add: lh_placed_def)

lemma lh_placed_set_chain:
  "lh_placed lh \<Longrightarrow> length (buckets lh) = num_buckets lh \<Longrightarrow> b < num_buckets lh \<Longrightarrow> \<forall>it \<in> set c. unat (item_hash it) mod num_buckets lh = b \<Longrightarrow>
   lh_placed (set_chain lh b c)"
  by (auto simp: lh_placed_def set_chain_def nth_list_update split: if_split_asm)

section \<open>Searching\<close>

lemma chain_pos_le: "chain_pos P c \<le> length c"
  by (induction c) auto

lemma chain_pos_less: "chain_pos P c < length c \<longleftrightarrow> (\<exists>it \<in> set c. P (item_data it))"
  by (induction c) auto

lemma chain_pos_found: "chain_pos P c < length c \<Longrightarrow> P (item_data (c ! chain_pos P c))"
  by (induction c) auto

text \<open>The matching elements are all in the bucket the search looks at.\<close>

lemma lh_matches_bucket:
  assumes "lh_ok lh" "b = unat (lh_hash lh d) mod num_buckets lh"
  shows "lh_matches (lh_comp lh) d (lh_elems lh) =
    mset (filter (\<lambda>x. lh_comp lh x d = 0) (map item_data (buckets lh ! b)))"
proof -
  have h: "hash_functions (lh_hash lh) (lh_comp lh)" and l: "length (buckets lh) = num_buckets lh"
    and p: "lh_placed lh" and hash: "\<forall>it \<in># lh_items lh. item_hash it = lh_hash lh (item_data it)"
    and "0 < num_buckets lh"
    using assms(1) by (auto simp: lh_ok_def kMinNumBuckets_def)
  then have b: "b < length (buckets lh)" using assms(2) by simp
  have other: "filter (\<lambda>it. lh_comp lh (item_data it) d = 0) (buckets lh ! i) = []"
    if "i < num_buckets lh" "i \<noteq> b" for i
  proof (rule ccontr)
    assume "filter (\<lambda>it. lh_comp lh (item_data it) d = 0) (buckets lh ! i) \<noteq> []"
    then obtain it where it: "it \<in> set (buckets lh ! i)" "lh_comp lh (item_data it) d = 0"
      by (auto simp: filter_empty_conv)
    then have "it \<in># lh_items lh" using that l by (auto simp: set_lh_items intro!: bexI [of _ "buckets lh ! i"])
    with hash hash_functions.cmp_hash [OF h it(2)] have "item_hash it = lh_hash lh d" by auto
    moreover have "unat (item_hash it) mod num_buckets lh = i" using p it(1) that by (simp add: lh_placed_def)
    ultimately show False using that(2) assms(2) by simp
  qed
  have "concat (map (filter (\<lambda>it. lh_comp lh (item_data it) d = 0)) (buckets lh)) =
      filter (\<lambda>it. lh_comp lh (item_data it) d = 0) (buckets lh ! b)"
  proof -
    have "map (filter (\<lambda>it. lh_comp lh (item_data it) d = 0)) (buckets lh) =
      (replicate (num_buckets lh) [])[b := filter (\<lambda>it. lh_comp lh (item_data it) d = 0) (buckets lh ! b)]"
      using other l b by (intro nth_equalityI) (auto simp: nth_list_update)
    moreover have "concat ((replicate n [])[i := c]) = c" if "i < n" for n i and c :: "'a lhash_item_st list"
      using that by (simp add: list_update_append upd_conv_take_nth_drop)
    ultimately show ?thesis using b l by simp
  qed
  then show ?thesis
    by (simp add: lh_matches_def lh_elems_def lh_items_def filter_mset_image_mset filter_concat [symmetric] comp_def
        filter_map flip: mset_filter mset_map)
qed
lemma filter_unique:
  assumes "length (filter P xs) \<le> 1" "i < length xs" "P (xs ! i)"
  shows "filter P xs = [xs ! i]"
proof -
  have "xs ! i \<in> set (filter P xs)" using assms(2,3) by simp
  with assms(1) show ?thesis by (cases "filter P xs") auto
qed

text \<open>The search finds the one matching element, or the end of the chain when there is none.\<close>

lemma lh_search:
  assumes "lh_ok lh" "get_next_ptr_and_hash lh d = ((b, i), hash)"
  obtains (found) it where "item_at lh (b, i) = Some it" "lh_comp lh (item_data it) d = 0" "i < length (buckets lh ! b)"
      "it = buckets lh ! b ! i" "b < num_buckets lh" "lh_matches (lh_comp lh) d (lh_elems lh) = {#item_data it#}"
    | (missing) "item_at lh (b, i) = None" "b < num_buckets lh" "hash = lh_hash lh d"
      "b = unat hash mod num_buckets lh" "lh_matches (lh_comp lh) d (lh_elems lh) = {#}"
proof -
  from assms(2) have b: "hash = lh_hash lh d" "b = unat hash mod num_buckets lh"
    and i: "i = chain_pos (\<lambda>x. lh_comp lh x d = 0) (buckets lh ! b)"
    by (auto simp: get_next_ptr_and_hash_def Let_def)
  from assms(1) have "0 < num_buckets lh" and one: "size (lh_matches (lh_comp lh) d (lh_elems lh)) \<le> 1"
    by (simp_all add: lh_ok_def kMinNumBuckets_def)
  with b have b': "b < num_buckets lh" by simp
  note m = lh_matches_bucket [OF assms(1)]
  show thesis
  proof (cases "i < length (buckets lh ! b)")
    case True
    then have c: "lh_comp lh (item_data (buckets lh ! b ! i)) d = 0" 
      using chain_pos_found [of "\<lambda>x. lh_comp lh x d = 0" "buckets lh ! b"] unfolding i [symmetric] by simp
    have "filter (\<lambda>x. lh_comp lh x d = 0) (map item_data (buckets lh ! b)) = [item_data (buckets lh ! b ! i)]"
    proof -
      have "length (filter (\<lambda>x. lh_comp lh x d = 0) (map item_data (buckets lh ! b))) \<le> 1"
        using one unfolding m [OF b(2) [unfolded b(1)]] size_mset .
      from filter_unique [OF this, of i] show ?thesis using True c by simp
    qed
    then have "lh_matches (lh_comp lh) d (lh_elems lh) = {#item_data (buckets lh ! b ! i)#}"
      using m [of b d] b by simp
    then show thesis using True c b' by (intro found [of "buckets lh ! b ! i"]) (simp_all add: item_at_def)
  next
    case False
    then have "\<forall>it \<in> set (buckets lh ! b). lh_comp lh (item_data it) d \<noteq> 0"
      using chain_pos_less [of "\<lambda>x. lh_comp lh x d = 0" "buckets lh ! b"] unfolding i [symmetric] by blast
    then have "filter (\<lambda>x. lh_comp lh x d = 0) (map item_data (buckets lh ! b)) = []"
      by (simp add: filter_empty_conv)
    then have "lh_matches (lh_comp lh) d (lh_elems lh) = {#}" using m [of b d] b by simp
    then show thesis using False b' b by (intro missing) (simp_all add: item_at_def)
  qed
qed

theorem lh_retrieve:
  assumes "lh_ok lh"
  shows "lh_matches (lh_comp lh) d (lh_elems lh) =
    (case OPENSSL_lh_retrieve lh d of None \<Rightarrow> {#} | Some x \<Rightarrow> {#x#})"
proof -
  obtain b i hash where s: "get_next_ptr_and_hash lh d = ((b, i), hash)" by (metis surj_pair)
  from assms s show ?thesis by (cases rule: lh_search) (simp_all add: OPENSSL_lh_retrieve_def s)
qed

section \<open>Resizing\<close>

definition placed_in :: "nat \<Rightarrow> 'd lhash_item_st list list \<Rightarrow> bool" where
  "placed_in n bs \<longleftrightarrow> length bs = n \<and> (\<forall>b < n. \<forall>it \<in> set (bs ! b). unat (item_hash it) mod n = b)"

lemma move_item:
  assumes "placed_in n bs" "0 < n"
  shows "placed_in n (move_item n it bs) \<and> mset (concat (move_item n it bs)) = add_mset it (mset (concat bs))"
proof -
  define b where "b = unat (item_hash it) mod n"
  have b: "b < length bs" using assms by (simp add: b_def placed_in_def)
  have "mset (concat (bs[b := it # bs ! b])) + mset (bs ! b) = mset (concat bs) + mset (it # bs ! b)"
    by (rule mset_concat_update [OF b])
  then have "mset (concat (bs[b := it # bs ! b])) = add_mset it (mset (concat bs))" by simp
  then show ?thesis
    using assms b by (auto simp: move_item_def Let_def placed_in_def nth_list_update b_def [symmetric] split: if_split_asm)
qed

lemma move_chain:
  "placed_in n bs \<Longrightarrow> 0 < n \<Longrightarrow>
   placed_in n (fold (move_item n) c bs) \<and> mset (concat (fold (move_item n) c bs)) = mset c + mset (concat bs)"
proof (induction c arbitrary: bs)
  case (Cons it c)
  with move_item [OF Cons.prems, of it] show ?case by simp
qed simp

lemma move_all:
  "placed_in n bs \<Longrightarrow> 0 < n \<Longrightarrow>
   placed_in n (fold (fold (move_item n)) cs bs) \<and>
   mset (concat (fold (fold (move_item n)) cs bs)) = mset (concat cs) + mset (concat bs)"
proof (induction cs arbitrary: bs)
  case (Cons c cs)
  with move_chain [OF Cons.prems, of c] show ?case by simp
qed simp

lemma size_mul_item_ptr: "size_mul sizeof_item_ptr n div sizeof_item_ptr = n \<longleftrightarrow> sizeof_item_ptr * n < SIZE_MOD"
proof
  assume "size_mul sizeof_item_ptr n div sizeof_item_ptr = n"
  moreover have "size_mul sizeof_item_ptr n < SIZE_MOD" by (simp add: size_mul_def SIZE_MOD_def)
  ultimately show "sizeof_item_ptr * n < SIZE_MOD"
    unfolding sizeof_item_ptr_def SIZE_MOD_def by (simp add: div_eq_dividend_iff less_mult_imp_div_less)
next
  assume "sizeof_item_ptr * n < SIZE_MOD"
  then show "size_mul sizeof_item_ptr n div sizeof_item_ptr = n" by (simp add: size_mul_def sizeof_item_ptr_def)
qed

text \<open>The table behind the functions is the same: it holds the same items and is as well formed.\<close>

definition lh_same :: "'d lhash_st \<Rightarrow> 'd lhash_st \<Rightarrow> bool" where
  "lh_same lh lh' \<longleftrightarrow>
     lh_items lh' = lh_items lh \<and> num_items lh' = num_items lh \<and> lh_comp lh' = lh_comp lh \<and> lh_hash lh' = lh_hash lh \<and>
     callback_depth lh' = callback_depth lh \<and> (lh_ok lh \<longrightarrow> lh_ok lh')"

lemma lh_same_refl [simp]: "lh_same lh lh"
  by (simp add: lh_same_def)

lemma lh_rebucket: "kMinNumBuckets \<le> n \<Longrightarrow> lh_same lh (lh_rebucket env lh n)"
proof (cases "size_mul sizeof_item_ptr n div sizeof_item_ptr \<noteq> n \<or> OPENSSL_malloc env (size_mul sizeof_item_ptr n) = None")
  case False
  assume n: "kMinNumBuckets \<le> n"
  define bs where "bs = fold (fold (move_item n)) (buckets lh) (replicate n [])"
  have n0: "0 < n" using n by (simp add: kMinNumBuckets_def)
  have "placed_in n (replicate n [])" by (simp add: placed_in_def)
  from move_all [OF this n0, of "buckets lh"]
  have bs: "placed_in n bs" "mset (concat bs) = lh_items lh"
    unfolding bs_def lh_items_def by simp_all
  have r: "lh_rebucket env lh n = lh\<lparr>num_buckets := n, buckets := bs\<rparr>"
    using False by (auto simp: lh_rebucket_def Let_def bs_def)
  have sz: "n * sizeof_item_ptr < SIZE_MOD" using False by (simp add: size_mul_item_ptr mult.commute)
  have it: "lh_items (lh_rebucket env lh n) = lh_items lh" using bs(2) unfolding r lh_items_def by simp
  have "lh_ok (lh_rebucket env lh n)" if "lh_ok lh"
    using that bs(1) n sz it unfolding lh_ok_def lh_elems_def it
    by (simp add: r lh_placed_def placed_in_def)
  with it show ?thesis by (simp add: lh_same_def r)
qed (auto simp: lh_rebucket_def Let_def)

lemma lh_maybe_resize: "kMinNumBuckets \<le> num_buckets lh \<Longrightarrow> lh_same lh (lh_maybe_resize env lh)"
  unfolding lh_maybe_resize_def Let_def by (auto intro!: lh_rebucket simp: not_less)

section \<open>The dictionary\<close>

lemma lh_same_elems: "lh_same lh lh' \<Longrightarrow> lh_elems lh' = lh_elems lh"
  by (simp add: lh_same_def lh_elems_def)

lemma lh_new:
  assumes "OPENSSL_lh_new env hash cmp = Some lh" "hash_functions hash cmp"
  shows "lh_ok lh \<and> lh_elems lh = {#} \<and> lh_comp lh = cmp \<and> lh_hash lh = hash"
  using assms
  by (auto simp: OPENSSL_lh_new_def lh_ok_def lh_placed_def lh_items_def lh_elems_def lh_matches_def kMinNumBuckets_def
      sizeof_item_ptr_def SIZE_MOD_def split: if_split_asm)

lemma lh_matches_add:
  "lh_matches cmp d (add_mset x M) = (if cmp x d = 0 then add_mset x (lh_matches cmp d M) else lh_matches cmp d M)"
  by (simp add: lh_matches_def)

lemma lh_matches_diff_size: "size (lh_matches cmp d (M - N)) \<le> size (lh_matches cmp d M)"
  unfolding lh_matches_def by (intro size_mset_mono multiset_filter_mono) simp

lemma lh_ok_matches:
  assumes "lh_ok lh" "lh_comp lh d d' = 0"
  shows "lh_matches (lh_comp lh) d' M = lh_matches (lh_comp lh) d M"
proof -
  have h: "hash_functions (lh_hash lh) (lh_comp lh)" using assms(1) by (simp add: lh_ok_def)
  have "lh_comp lh x d' = 0 \<longleftrightarrow> lh_comp lh x d = 0" for x
    using hash_functions.cmp_trans [OF h] hash_functions.cmp_sym [OF h] assms(2) by blast
  then show ?thesis by (simp add: lh_matches_def)
qed

text \<open>Putting the new items of one chain in its place keeps the table well formed when the counter follows.\<close>

lemma lh_ok_set_chain:
  assumes "lh_ok lh" "b < num_buckets lh" "\<forall>it \<in> set c. unat (item_hash it) mod num_buckets lh = b"
    "\<forall>it \<in> set c. item_hash it = lh_hash lh (item_data it)"
    "\<forall>d. size (lh_matches (lh_comp lh) d (lh_elems (set_chain lh b c))) \<le> 1"
    "n = size (lh_items (set_chain lh b c))"
  shows "lh_ok ((set_chain lh b c)\<lparr>num_items := n\<rparr>)"
proof -
  have l: "length (buckets lh) = num_buckets lh" using assms(1) by (simp add: lh_ok_def)
  have "set_mset (lh_items (set_chain lh b c)) \<subseteq> set_mset (lh_items lh) \<union> set c"
    unfolding set_lh_items set_chain_def using set_update_subset_insert [of "buckets lh" b c] by auto
  then have "\<forall>it \<in># lh_items (set_chain lh b c). item_hash it = lh_hash lh (item_data it)"
    using assms(1,4) unfolding lh_ok_def by blast
  moreover have "lh_placed (set_chain lh b c)"
    using assms(1-3) l by (intro lh_placed_set_chain) (simp_all add: lh_ok_def)
  ultimately show ?thesis
    using assms(1,5,6) unfolding lh_ok_def by (simp add: lh_elems_def)
qed

lemma chain_swap:
  assumes "b < length bs" "M \<subseteq># mset (bs ! b)" "mset c = N + (mset (bs ! b) - M)"
  shows "mset (concat (bs[b := c])) = N + (mset (concat bs) - M) \<and> M \<subseteq># mset (concat bs)"
proof -
  obtain B where B: "mset (bs ! b) = M + B" using assms(2) by (metis mset_subset_eq_exists_conv)
  have "mset (bs ! b) \<subseteq># mset (concat bs)"
    using mset_concat_update [OF assms(1), of "[]"] by (metis mset_subset_eq_add_right mset.simps(1) add.right_neutral)
  then obtain I where I: "mset (concat bs) = M + B + I" using B by (metis mset_subset_eq_exists_conv)
  have "mset (concat (bs[b := c])) + (M + B) = M + B + I + (N + B)"
    using mset_concat_update [OF assms(1), of c] assms(3) unfolding B I by simp
  then have "mset (concat (bs[b := c])) = N + (B + I)" by (simp add: ac_simps)
  then show ?thesis by (simp add: I ac_simps)
qed

text \<open>Retrieving after an insertion and after a deletion.\<close>

lemma lh_retrieve_eqI:
  assumes "lh_ok lh" "lh_matches (lh_comp lh) d (lh_elems lh) = (case r of None \<Rightarrow> {#} | Some x \<Rightarrow> {#x#})"
  shows "OPENSSL_lh_retrieve lh d = r"
  using lh_retrieve [OF assms(1), of d] assms(2) by (auto split: option.splits)

lemma lh_matches_removed:
  assumes "lh_ok lh"
  shows "lh_matches (lh_comp lh) d' (lh_elems lh - lh_matches (lh_comp lh) d (lh_elems lh)) =
    (if lh_comp lh d d' = 0 then {#} else lh_matches (lh_comp lh) d' (lh_elems lh))"
proof (cases "lh_comp lh d d' = 0")
  case True
  then show ?thesis
    unfolding lh_ok_matches [OF assms True] by (simp add: lh_matches_def filter_diff_mset filter_filter_mset)
next
  case False
  have h: "hash_functions (lh_hash lh) (lh_comp lh)" using assms(1) by (simp add: lh_ok_def)
  have "\<not> (lh_comp lh x d = 0 \<and> lh_comp lh x d' = 0)" for x
    using False hash_functions.cmp_trans [OF h] hash_functions.cmp_sym [OF h] by blast
  then have e: "filter_mset (\<lambda>x. lh_comp lh x d = 0 \<and> lh_comp lh x d' = 0) (lh_elems lh) = {#}"
    unfolding filter_mset_eq_mempty_iff by blast
  show ?thesis unfolding lh_matches_def filter_diff_mset filter_filter_mset e using False by simp
qed

lemma one_match:
  assumes "lh_ok lh"
  shows "size (lh_matches (lh_comp lh) d' (add_mset d (lh_elems lh - lh_matches (lh_comp lh) d (lh_elems lh)))) \<le> 1"
  using assms by (simp add: lh_matches_add lh_matches_removed [OF assms] lh_ok_def)

lemma lh_chain_props:
  assumes "lh_ok lh" "b < num_buckets lh" "it \<in> set (buckets lh ! b)"
  shows "unat (item_hash it) mod num_buckets lh = b" "item_hash it = lh_hash lh (item_data it)"
proof -
  show "unat (item_hash it) mod num_buckets lh = b" using assms by (simp add: lh_ok_def lh_placed_def)
  have "it \<in># lh_items lh" using assms by (auto simp: set_lh_items lh_ok_def intro!: bexI [of _ "buckets lh ! b"])
  then show "item_hash it = lh_hash lh (item_data it)" using assms(1) by (simp add: lh_ok_def)
qed

text \<open>Replacing the items \<open>M\<close> of a chain by \<open>N\<close>.\<close>

lemma lh_swap:
  assumes "lh_ok lh" "b < num_buckets lh" "M \<subseteq># mset (buckets lh ! b)" "mset c = N + (mset (buckets lh ! b) - M)"
    "\<forall>it \<in># N. unat (item_hash it) mod num_buckets lh = b \<and> item_hash it = lh_hash lh (item_data it)"
    "\<forall>d. size (lh_matches (lh_comp lh) d (image_mset item_data N + (lh_elems lh - image_mset item_data M))) \<le> 1"
    "n = num_items lh + size N - size M"
  shows "lh_ok ((set_chain lh b c)\<lparr>num_items := n\<rparr>) \<and>
    lh_elems ((set_chain lh b c)\<lparr>num_items := n\<rparr>) = image_mset item_data N + (lh_elems lh - image_mset item_data M)"
proof -
  have l: "b < length (buckets lh)" using assms(1,2) by (simp add: lh_ok_def)
  from chain_swap [OF l assms(3,4)] have I: "lh_items (set_chain lh b c) = N + (lh_items lh - M)" "M \<subseteq># lh_items lh"
    by (simp_all add: lh_items_def set_chain_def)
  have E: "lh_elems (set_chain lh b c) = image_mset item_data N + (lh_elems lh - image_mset item_data M)"
    unfolding lh_elems_def I(1) image_mset_union image_mset_Diff [OF I(2)] by (rule refl)
  have c: "it \<in># N \<or> it \<in> set (buckets lh ! b)" if "it \<in> set c" for it
  proof -
    have "it \<in># N + (mset (buckets lh ! b) - M)" using that by (simp flip: assms(4))
    then show ?thesis by (auto dest: in_diffD)
  qed
  have "n = size (lh_items (set_chain lh b c))"
    unfolding I(1) size_union size_Diff_submset [OF I(2)] using assms(1,7) size_mset_mono [OF I(2)]
    by (simp add: lh_ok_def)
  moreover have "\<forall>it \<in> set c. unat (item_hash it) mod num_buckets lh = b"
    "\<forall>it \<in> set c. item_hash it = lh_hash lh (item_data it)"
    using c assms(5) lh_chain_props [OF assms(1,2)] by blast+
  ultimately have "lh_ok ((set_chain lh b c)\<lparr>num_items := n\<rparr>)"
    using assms(6) by (intro lh_ok_set_chain [OF assms(1,2)]) (simp_all add: E)
  with E show ?thesis by (simp add: lh_elems_def)
qed

theorem lh_insert:
  assumes "lh_ok lh" "num_items lh + 1 < SIZE_MOD" "OPENSSL_lh_insert env lh d = (ok, old, lh')"
  shows "lh_ok lh' \<and> lh_comp lh' = lh_comp lh \<and> lh_hash lh' = lh_hash lh \<and>
    (if ok then old = OPENSSL_lh_retrieve lh d \<and>
                lh_elems lh' = add_mset d (lh_elems lh - lh_matches (lh_comp lh) d (lh_elems lh))
     else old = None \<and> OPENSSL_lh_retrieve lh d = None \<and> lh' = lh)"
proof -
  obtain b i hash where s: "get_next_ptr_and_hash lh d = ((b, i), hash)" by (metis surj_pair)
  have h: "hash_functions (lh_hash lh) (lh_comp lh)" using assms(1) by (simp add: lh_ok_def)
  note one = one_match [OF assms(1), of _ d]
  from assms(1) s show ?thesis
  proof (cases rule: lh_search)
    case (found it)
    define c where "c = (buckets lh ! b)[i := it\<lparr>item_data := d\<rparr>]"
    have itb: "it \<in> set (buckets lh ! b)" using found(3,4) by simp
    have same: "set_chain lh b c = (set_chain lh b c)\<lparr>num_items := num_items lh\<rparr>" by (simp add: set_chain_def)
    have r: "ok = True" "old = Some (item_data it)" "lh' = (set_chain lh b c)\<lparr>num_items := num_items lh\<rparr>"
      unfolding same [symmetric] using assms(3) s found(1) by (simp_all add: OPENSSL_lh_insert_def c_def)
    have c: "mset c = {#it\<lparr>item_data := d\<rparr>#} + (mset (buckets lh ! b) - {#it#})"
      using found(3,4) by (simp add: c_def mset_update)
    have "lh_hash lh (item_data it) = lh_hash lh d" by (rule hash_functions.cmp_hash [OF h found(2)])
    then have "lh_ok lh' \<and> lh_elems lh' = {#d#} + (lh_elems lh - {#item_data it#})"
      unfolding r(3) using lh_swap [OF assms(1) found(5) _ c, of "num_items lh"] itb lh_chain_props [OF assms(1) found(5) itb]
        one found(6) by simp
    with r found s show ?thesis by (simp add: OPENSSL_lh_retrieve_def set_chain_def)
  next
    case missing
    define c where "c = buckets lh ! b @ [\<lparr>item_data = d, item_hash = hash\<rparr>]"
    define t where "t = (set_chain lh b c)\<lparr>num_items := num_items lh + 1\<rparr>"
    have ret: "OPENSSL_lh_retrieve lh d = None" using missing(1) s by (simp add: OPENSSL_lh_retrieve_def)
    show ?thesis
    proof (cases "OPENSSL_malloc env sizeof_LHASH_ITEM = None")
      case True
      then show ?thesis using assms(1,3) missing(1) s ret by (simp add: OPENSSL_lh_insert_def)
    next
      case False
      have "size_add (num_items lh) 1 = num_items lh + 1" using assms(2) by (simp add: size_add_def SIZE_MOD_def)
      then have r: "ok = True" "old = None" "lh' = lh_maybe_resize env t"
        using assms(3) s missing(1) False by (simp_all add: OPENSSL_lh_insert_def c_def t_def)
      have c: "mset c = {#\<lparr>item_data = d, item_hash = hash\<rparr>#} + (mset (buckets lh ! b) - {#})"
        by (simp add: c_def)
      have t: "lh_ok t \<and> lh_elems t = {#d#} + (lh_elems lh - {#})"
        unfolding t_def using lh_swap [OF assms(1) missing(2) _ c, of "num_items lh + 1"] missing(3-5) one by simp
      then have "lh_same t lh'" unfolding r(3) by (intro lh_maybe_resize) (simp add: lh_ok_def)
      with t r ret missing(5) lh_same_elems [of t lh'] show ?thesis by (simp add: lh_same_def t_def)
    qed
  qed
qed

theorem lh_delete:
  assumes "lh_ok lh" "OPENSSL_lh_delete env lh d = (old, lh')"
  shows "lh_ok lh' \<and> lh_comp lh' = lh_comp lh \<and> lh_hash lh' = lh_hash lh \<and> old = OPENSSL_lh_retrieve lh d \<and>
    lh_elems lh' = lh_elems lh - lh_matches (lh_comp lh) d (lh_elems lh)"
proof -
  obtain b i hash where s: "get_next_ptr_and_hash lh d = ((b, i), hash)" by (metis surj_pair)
  from assms(1) s show ?thesis
  proof (cases rule: lh_search)
    case (found it)
    define c where "c = take i (buckets lh ! b) @ drop (i + 1) (buckets lh ! b)"
    define t where "t = (set_chain lh b c)\<lparr>num_items := num_items lh - 1\<rparr>"
    have itb: "it \<in> set (buckets lh ! b)" using found(3,4) by simp
    have r: "old = Some (item_data it)" "lh' = lh_maybe_resize env t"
      using assms(2) s found(1) by (simp_all add: OPENSSL_lh_delete_def c_def t_def)
    have "mset (take i (buckets lh ! b) @ it # drop (i + 1) (buckets lh ! b)) = mset (buckets lh ! b)"
      using found(3,4) by (simp add: id_take_nth_drop [symmetric])
    then have c: "mset c = {#} + (mset (buckets lh ! b) - {#it#})"
      by (simp add: c_def flip: \<open>mset (take i (buckets lh ! b) @ it # drop (i + 1) (buckets lh ! b)) = _\<close>)
    have one: "size (lh_matches (lh_comp lh) x (lh_elems lh - {#item_data it#})) \<le> 1" for x
      using lh_matches_diff_size [of "lh_comp lh" x "lh_elems lh" "{#item_data it#}"] assms(1)
      unfolding lh_ok_def by (metis order_trans)
    have t: "lh_ok t \<and> lh_elems t = {#} + (lh_elems lh - {#item_data it#})"
      unfolding t_def using lh_swap [OF assms(1) found(5) _ c, of "num_items lh - 1"] itb one by simp
    then have "lh_same t lh'" unfolding r(2) by (intro lh_maybe_resize) (simp add: lh_ok_def)
    with t r s found(1,6) lh_same_elems [of t lh'] show ?thesis
      by (simp add: lh_same_def t_def OPENSSL_lh_retrieve_def)
  next
    case missing
    with assms s show ?thesis by (simp add: OPENSSL_lh_delete_def OPENSSL_lh_retrieve_def)
  qed
qed
theorem lh_insert_retrieve:
  assumes "lh_ok lh" "num_items lh + 1 < SIZE_MOD" "OPENSSL_lh_insert env lh d = (True, old, lh')"
  shows "OPENSSL_lh_retrieve lh' d' = (if lh_comp lh d d' = 0 then Some d else OPENSSL_lh_retrieve lh d')"
proof -
  from lh_insert [OF assms] have i: "lh_ok lh'" "lh_comp lh' = lh_comp lh"
    "lh_elems lh' = add_mset d (lh_elems lh - lh_matches (lh_comp lh) d (lh_elems lh))" by simp_all
  show ?thesis
    using lh_retrieve [OF assms(1), of d'] lh_matches_removed [OF assms(1), of d' d]
    by (intro lh_retrieve_eqI [OF i(1)]) (simp add: i(2,3) lh_matches_add)
qed

theorem lh_delete_retrieve:
  assumes "lh_ok lh" "OPENSSL_lh_delete env lh d = (old, lh')"
  shows "OPENSSL_lh_retrieve lh' d' = (if lh_comp lh d d' = 0 then None else OPENSSL_lh_retrieve lh d')"
proof -
  from lh_delete [OF assms] have i: "lh_ok lh'" "lh_comp lh' = lh_comp lh"
    "lh_elems lh' = lh_elems lh - lh_matches (lh_comp lh) d (lh_elems lh)" by simp_all
  show ?thesis
    using lh_retrieve [OF assms(1), of d'] lh_matches_removed [OF assms(1), of d' d]
    by (intro lh_retrieve_eqI [OF i(1)]) (simp add: i(2,3))
qed

text \<open>A lookup by key finds what a lookup by an element with that key finds.\<close>

lemma lh_retrieve_key:
  "key_hash = lh_hash lh d \<Longrightarrow> (\<And>x. cmp_key key x = 0 \<longleftrightarrow> lh_comp lh x d = 0) \<Longrightarrow>
   OPENSSL_lh_retrieve_key lh key key_hash cmp_key = OPENSSL_lh_retrieve lh d"
  by (simp add: OPENSSL_lh_retrieve_key_def OPENSSL_lh_retrieve_def get_next_ptr_by_key_def get_next_ptr_and_hash_def Let_def)

text \<open>Iteration calls the callback once for every element and leaves the contents alone.\<close>

lemma fold_fold_concat: "fold (fold f) xss a = fold f (concat xss) a"
  by (induction xss arbitrary: a) simp_all

lemma lh_doall_arg:
  assumes "lh_ok lh" "OPENSSL_lh_doall_arg env lh func a = (r, lh')"
  obtains xs where "mset xs = lh_elems lh" "r = fold func xs a" "lh_ok lh'" "lh_elems lh' = lh_elems lh"
    "num_items lh' = num_items lh"
proof -
  define t where "t = (let lh = (if callback_depth lh < LH_UINT_MAX then lh\<lparr>callback_depth := callback_depth lh + 1\<rparr> else lh)
    in (if callback_depth lh < LH_UINT_MAX then lh\<lparr>callback_depth := callback_depth lh - 1\<rparr> else lh))"
  have t: "lh_ok t" "lh_elems t = lh_elems lh" "num_items t = num_items lh"
    using assms(1) by (simp_all add: t_def Let_def lh_ok_def lh_items_def lh_elems_def lh_placed_def)
  have r: "r = fold (fold (\<lambda>cur. func (item_data cur))) (buckets lh) a" "lh' = lh_maybe_resize env t"
    using assms(2) by (auto simp: OPENSSL_lh_doall_arg_def t_def Let_def)
  have "lh_same t lh'" unfolding r(2) using t(1) by (intro lh_maybe_resize) (simp add: lh_ok_def)
  with t lh_same_elems [of t lh'] have "lh_ok lh'" "lh_elems lh' = lh_elems lh" "num_items lh' = num_items lh"
    by (simp_all add: lh_same_def)
  then show thesis
    using r(1) by (intro that [of "map item_data (concat (buckets lh))"])
      (simp_all add: lh_elems_def lh_items_def fold_fold_concat fold_map comp_def)
qed

section \<open>The interface of a dictionary\<close>

locale dictionary =
  fixes eq :: "'d \<Rightarrow> 'd \<Rightarrow> bool" and ok :: "'s \<Rightarrow> bool" and get :: "'s \<Rightarrow> 'd \<Rightarrow> 'd option"
    and put :: "'s \<Rightarrow> 'd \<Rightarrow> 's option" and del :: "'s \<Rightarrow> 'd \<Rightarrow> 's"
  assumes put_ok: "ok s \<Longrightarrow> put s d = Some s' \<Longrightarrow> ok s'"
    and get_put: "ok s \<Longrightarrow> put s d = Some s' \<Longrightarrow> get s' d' = (if eq d d' then Some d else get s d')"
    and del_ok: "ok s \<Longrightarrow> ok (del s d)"
    and get_del: "ok s \<Longrightarrow> get (del s d) d' = (if eq d d' then None else get s d')"
begin

fun put_all :: "'s \<Rightarrow> 'd list \<Rightarrow> 's option" where
  "put_all s [] = Some s"
| "put_all s (d # ds) = (case put s d of None \<Rightarrow> None | Some s \<Rightarrow> put_all s ds)"

lemma put_all:
  "ok s \<Longrightarrow> put_all s ds = Some s' \<Longrightarrow>
   ok s' \<and> get s' d = (case find (\<lambda>x. eq x d) (rev ds) of None \<Rightarrow> get s d | Some x \<Rightarrow> Some x)"
proof (induction ds arbitrary: s)
  case (Cons x ds)
  then obtain t where t: "put s x = Some t" "put_all t ds = Some s'" by (auto split: option.splits)
  have "find P (xs @ [x]) = (case find P xs of None \<Rightarrow> if P x then Some x else None | Some y \<Rightarrow> Some y)" for P and xs :: "'d list"
    by (induction xs) auto
  with Cons.IH [OF put_ok [OF Cons.prems(1) t(1)] t(2)] get_put [OF Cons.prems(1) t(1), of d] show ?case
    by (auto split: option.splits)
qed simp

lemma get_del_all: "ok s \<Longrightarrow> get (foldl del s ds) d = (if \<exists>x \<in> set ds. eq x d then None else get s d)"
proof (induction ds arbitrary: s)
  case (Cons x ds)
  with Cons.IH [OF del_ok [OF Cons.prems]] get_del [OF Cons.prems, of x d] show ?case by simp
qed simp

end

text \<open>The table as a dictionary: entering fails when memory runs out, or when the counter would overflow.\<close>

definition lh_put :: "heap_env \<Rightarrow> 'd lhash_st \<Rightarrow> 'd \<Rightarrow> 'd lhash_st option" where
  "lh_put env lh d =
     (if num_items lh + 1 < SIZE_MOD then
        (case OPENSSL_lh_insert env lh d of (True, old, lh) \<Rightarrow> Some lh | (False, old, lh) \<Rightarrow> None)
      else None)"

interpretation lh_dict: dictionary "\<lambda>x y. cmp x y = 0" "\<lambda>lh. lh_ok lh \<and> lh_comp lh = cmp" OPENSSL_lh_retrieve
  "lh_put env" "\<lambda>lh d. snd (OPENSSL_lh_delete env lh d)" for cmp env
proof (unfold_locales, goal_cases)
  case (1 s d s')
  then obtain old where "num_items s + 1 < SIZE_MOD" "OPENSSL_lh_insert env s d = (True, old, s')"
    by (auto simp: lh_put_def split: if_split_asm prod.split_asm bool.split_asm)
  with 1 lh_insert [of s env d True old s'] show ?case by simp
next
  case (2 s d s' d')
  then obtain old where "num_items s + 1 < SIZE_MOD" "OPENSSL_lh_insert env s d = (True, old, s')"
    by (auto simp: lh_put_def split: if_split_asm prod.split_asm bool.split_asm)
  with 2 lh_insert_retrieve [of s env d old s' d'] show ?case by simp
next
  case (3 s d)
  with lh_delete [of s env d] show ?case by (metis prod.collapse)
next
  case (4 s d d')
  with lh_delete_retrieve [of s env d _ _ d'] show ?case by (metis prod.collapse)
qed

text \<open>Without allocation failures a table of any practical size can be built.\<close>

fun lh_load :: "heap_env \<Rightarrow> 'd lhash_st \<Rightarrow> 'd list \<Rightarrow> 'd lhash_st option" where
  "lh_load env lh [] = Some lh"
| "lh_load env lh (d # ds) = (case lh_put env lh d of None \<Rightarrow> None | Some lh \<Rightarrow> lh_load env lh ds)"

lemma lh_load_put_all: "lh_load env lh ds = lh_dict.put_all env lh ds"
  by (induction ds arbitrary: lh) (simp_all split: option.split)

lemma lh_put_ok:
  assumes "lh_ok lh" "\<And>n. h_ok env n" "num_items lh + 1 < SIZE_MOD"
  obtains lh' where "lh_put env lh d = Some lh'" "lh_ok lh'" "num_items lh' \<le> num_items lh + 1"
proof -
  obtain ok old lh' where i: "OPENSSL_lh_insert env lh d = (ok, old, lh')" by (metis surj_pair)
  have "OPENSSL_malloc env sizeof_LHASH_ITEM \<noteq> None"
    using assms(2) by (simp add: OPENSSL_malloc_def size_add_def sizeof_LHASH_ITEM_def SIZE_MOD_def)
  with i have ok: "ok" by (auto simp: OPENSSL_lh_insert_def Let_def split: prod.split_asm option.split_asm if_split_asm)
  from lh_insert [OF assms(1,3) i] ok have r: "lh_ok lh'"
    "lh_elems lh' = add_mset d (lh_elems lh - lh_matches (lh_comp lh) d (lh_elems lh))" by simp_all
  have "size (lh_elems lh') \<le> size (lh_elems lh) + 1" using r(2) by (simp add: size_mset_mono)
  then have "num_items lh' \<le> num_items lh + 1" using r(1) assms(1) by (simp add: lh_ok_def lh_elems_def)
  with i ok r(1) assms(3) show thesis by (intro that [of lh']) (simp_all add: lh_put_def)
qed

lemma lh_load_ok:
  assumes "\<And>n. h_ok env n"
  shows "lh_ok lh \<Longrightarrow> num_items lh + length ds < SIZE_MOD \<Longrightarrow> \<exists>lh'. lh_load env lh ds = Some lh'"
proof (induction ds arbitrary: lh)
  case (Cons d ds)
  then have "num_items lh + 1 < SIZE_MOD" by simp
  from lh_put_ok [OF Cons.prems(1) assms this, of d] obtain t where
    "lh_put env lh d = Some t" "lh_ok t" "num_items t \<le> num_items lh + 1" .
  with Cons show ?case by simp
qed simp

section \<open>Properties\<close>

text \<open>Operations on a table, and what they do to a list of elements.\<close>

datatype 'd lh_op = Put 'd | Remove 'd

fun lh_step :: "heap_env \<Rightarrow> 'd lh_op \<Rightarrow> 'd lhash_st \<Rightarrow> 'd lhash_st" where
  "lh_step env (Put d) lh = snd (snd (OPENSSL_lh_insert env lh d))"
| "lh_step env (Remove d) lh = snd (OPENSSL_lh_delete env lh d)"

fun dict_step :: "('d \<Rightarrow> 'd \<Rightarrow> int) \<Rightarrow> 'd lh_op \<Rightarrow> 'd list \<Rightarrow> 'd list" where
  "dict_step cmp (Put d) xs = d # filter (\<lambda>x. cmp x d \<noteq> 0) xs"
| "dict_step cmp (Remove d) xs = filter (\<lambda>x. cmp x d \<noteq> 0) xs"

lemma lh_without_matches: "M - lh_matches cmp d M = filter_mset (\<lambda>x. cmp x d \<noteq> 0) M"
  using multiset_partition [of M "\<lambda>x. cmp x d = 0"] by (metis add_diff_cancel_left' lh_matches_def)

lemma lh_insert_ok:
  "(\<And>n. h_ok env n) \<Longrightarrow> OPENSSL_lh_insert env lh d = (ok, old, lh') \<Longrightarrow> ok"
  by (auto simp: OPENSSL_lh_insert_def OPENSSL_malloc_def size_add_def sizeof_LHASH_ITEM_def SIZE_MOD_def Let_def
      split: prod.split_asm option.split_asm if_split_asm)

lemma lh_step_dict:
  assumes "\<And>n. h_ok env n" "lh_ok lh" "num_items lh + 1 < SIZE_MOD" "lh_elems lh = mset xs"
  shows "lh_ok (lh_step env op lh) \<and> lh_comp (lh_step env op lh) = lh_comp lh \<and>
    lh_elems (lh_step env op lh) = mset (dict_step (lh_comp lh) op xs)"
proof (cases op)
  case (Put d)
  obtain ok old lh' where i: "OPENSSL_lh_insert env lh d = (ok, old, lh')" by (metis surj_pair)
  have "ok" using lh_insert_ok [OF assms(1) i] .
  with lh_insert [OF assms(2,3) i] show ?thesis by (simp add: Put i assms(4) lh_without_matches)
next
  case (Remove d)
  obtain old lh' where i: "OPENSSL_lh_delete env lh d = (old, lh')" by (metis surj_pair)
  from lh_delete [OF assms(2) i] show ?thesis by (simp add: Remove i assms(4) lh_without_matches)
qed

lemma num_items_elems: "lh_ok lh \<Longrightarrow> num_items lh = size (lh_elems lh)"
  by (simp add: lh_ok_def lh_elems_def)

lemma length_dict_step: "length (dict_step cmp op xs) \<le> length xs + 1"
  using length_filter_le [of _ xs] by (cases op) (auto simp: le_SucI)

lemma lh_run_dict:
  assumes "\<And>n. h_ok env n"
  shows "lh_ok lh \<Longrightarrow> lh_elems lh = mset xs \<Longrightarrow> length xs + length ops < SIZE_MOD \<Longrightarrow>
    lh_ok (fold (lh_step env) ops lh) \<and> lh_comp (fold (lh_step env) ops lh) = lh_comp lh \<and>
    lh_elems (fold (lh_step env) ops lh) = mset (fold (dict_step (lh_comp lh)) ops xs)"
proof (induction ops arbitrary: lh xs)
  case (Cons op ops)
  have "num_items lh + 1 < SIZE_MOD" using Cons.prems num_items_elems [of lh] by simp
  from lh_step_dict [OF assms Cons.prems(1) this Cons.prems(2), of op]
  have s: "lh_ok (lh_step env op lh)" "lh_comp (lh_step env op lh) = lh_comp lh"
    "lh_elems (lh_step env op lh) = mset (dict_step (lh_comp lh) op xs)" by simp_all
  have "length (dict_step (lh_comp lh) op xs) + length ops < SIZE_MOD"
    using Cons.prems(3) length_dict_step [of "lh_comp lh" op xs] by simp
  from Cons.IH [OF s(1,3) this] s(2) show ?case by simp
qed simp

lemma lh_new_ok:
  assumes "\<And>n. h_ok env n" obtains lh where "OPENSSL_lh_new env hash cmp = Some lh"
  using assms by (auto simp: OPENSSL_lh_new_def OPENSSL_malloc_def size_add_def size_mul_def sizeof_LHASH_def
      sizeof_item_ptr_def kMinNumBuckets_def SIZE_MOD_def)

text \<open>C9: the hash table implements a dictionary: after any sequence of insertions and deletions on a new table, however
  often it was resized, it holds exactly the elements that the operations leave in a list, it counts them, and looking an
  element up finds the one element of the list that compares equal.\<close>

theorem lh_refines_dictionary:
  assumes "\<And>n. h_ok env n" "hash_functions hash cmp" "length ops < SIZE_MOD"
  shows "\<exists>lh lh'. OPENSSL_lh_new env hash cmp = Some lh \<and> lh' = fold (lh_step env) ops lh \<and>
    lh_elems lh' = mset (fold (dict_step cmp) ops []) \<and> OPENSSL_lh_num_items lh' = length (fold (dict_step cmp) ops []) \<and>
    (\<forall>d. mset (filter (\<lambda>x. cmp x d = 0) (fold (dict_step cmp) ops [])) =
      (case OPENSSL_lh_retrieve lh' d of None \<Rightarrow> {#} | Some x \<Rightarrow> {#x#}))"
proof -
  obtain lh where lh: "OPENSSL_lh_new env hash cmp = Some lh" by (rule lh_new_ok [OF assms(1)])
  from lh_new [OF lh assms(2)] have n: "lh_ok lh" "lh_elems lh = mset []" "lh_comp lh = cmp" by simp_all
  have r: "lh_ok (fold (lh_step env) ops lh)" "lh_comp (fold (lh_step env) ops lh) = cmp"
    "lh_elems (fold (lh_step env) ops lh) = mset (fold (dict_step cmp) ops [])"
    using lh_run_dict [OF assms(1) n(1,2), of ops] assms(3) n(3) by simp_all
  have "mset (filter (\<lambda>x. cmp x d = 0) (fold (dict_step cmp) ops [])) =
      (case OPENSSL_lh_retrieve (fold (lh_step env) ops lh) d of None \<Rightarrow> {#} | Some x \<Rightarrow> {#x#})" for d
    using lh_retrieve [OF r(1), of d] r(2,3) by (simp add: lh_matches_def)
  with lh r num_items_elems [OF r(1)] show ?thesis by (simp add: OPENSSL_lh_num_items_def)
qed

text \<open>Numbers with a hash function that sends all of them to one bucket.\<close>

definition cmp_nat :: "nat \<Rightarrow> nat \<Rightarrow> int" where
  "cmp_nat a b = int a - int b"

lemma hash_nat: "hash_functions (\<lambda>n :: nat. 0) cmp_nat"
  by unfold_locales (auto simp: cmp_nat_def)

theorem lh_refines_dictionary_witness:
  "\<exists>lh. OPENSSL_lh_new all_ok (\<lambda>n. 0) cmp_nat = Some lh \<and>
     OPENSSL_lh_retrieve (fold (lh_step all_ok) [Put 5, Put 7, Remove 5] lh) 7 = Some 7 \<and>
     OPENSSL_lh_retrieve (fold (lh_step all_ok) [Put 5, Put 7, Remove 5] lh) 5 = None"
proof -
  have d: "fold (dict_step cmp_nat) [Put 5, Put 7, Remove 5] [] = [7]" by (simp add: cmp_nat_def)
  have "length [Put (5 :: nat), Put 7, Remove 5] < SIZE_MOD" by (simp add: SIZE_MOD_def)
  from lh_refines_dictionary [where env = all_ok, OF _ hash_nat this] obtain lh where
    lh: "OPENSSL_lh_new all_ok (\<lambda>n. 0) cmp_nat = Some lh"
    and r: "\<And>d. mset (filter (\<lambda>x. cmp_nat x d = 0) [7]) =
      (case OPENSSL_lh_retrieve (fold (lh_step all_ok) [Put 5, Put 7, Remove 5] lh) d of None \<Rightarrow> {#} | Some x \<Rightarrow> {#x#})"
    unfolding d by auto
  from r [of 7] r [of 5] lh show ?thesis by (auto simp: cmp_nat_def split: option.split_asm)
qed

text \<open>Every operation keeps the table well-formed, whether or not memory is available: every item lies in the bucket
  of its stored hash, which is the hash of its element, no two elements compare equal, and the counters are right.\<close>

theorem lh_operations_keep_invariant:
  assumes "lh_ok lh" "num_items lh + 1 < SIZE_MOD"
  shows "lh_ok (lh_step env op lh) \<and> lh_ok (snd (OPENSSL_lh_doall_arg env lh func arg))"
proof
  obtain r lh' where d: "OPENSSL_lh_doall_arg env lh func arg = (r, lh')" by fastforce
  show "lh_ok (snd (OPENSSL_lh_doall_arg env lh func arg))" by (rule lh_doall_arg [OF assms(1) d]) (simp add: d)
  show "lh_ok (lh_step env op lh)"
  proof (cases op)
    case (Put d)
    obtain ok old lh' where i: "OPENSSL_lh_insert env lh d = (ok, old, lh')" by (metis surj_pair)
    from lh_insert [OF assms i] show ?thesis by (simp add: Put i)
  next
    case (Remove d)
    obtain old lh' where i: "OPENSSL_lh_delete env lh d = (old, lh')" by (metis surj_pair)
    from lh_delete [OF assms(1) i] show ?thesis by (simp add: Remove i)
  qed
qed

text \<open>An empty table.\<close>

definition empty_table :: "nat lhash_st" where
  "empty_table = \<lparr>num_items = 0, buckets = replicate 16 [], num_buckets = 16, callback_depth = 0, lh_comp = cmp_nat, lh_hash = (\<lambda>n. 0)\<rparr>"

lemma empty_table_ok: "lh_ok empty_table" "num_items empty_table + 1 < SIZE_MOD"
  by (auto simp: empty_table_def lh_ok_def hash_nat lh_items_def lh_elems_def lh_placed_def lh_matches_def
      kMinNumBuckets_def sizeof_item_ptr_def SIZE_MOD_def concat_replicate_trivial)

theorem lh_operations_keep_invariant_witness:
  "lh_ok (lh_step (all_ok\<lparr>h_ok := \<lambda>n. False\<rparr>) (Put 3) empty_table)"
  using lh_operations_keep_invariant [OF empty_table_ok, of "all_ok\<lparr>h_ok := \<lambda>n. False\<rparr>" "Put 3" "\<lambda>d a. a" "()"] by blast

text \<open>An insertion that fails for want of memory leaves the table as it was, and it only fails when no equal element
  is there, so that replacing an element never fails; one that succeeds reports the element it replaced.\<close>

theorem lh_insert_errors:
  assumes "lh_ok lh" "num_items lh + 1 < SIZE_MOD" "OPENSSL_lh_insert env lh d = (ok, old, lh')"
  shows "(ok \<longrightarrow> old = OPENSSL_lh_retrieve lh d \<and> OPENSSL_lh_retrieve lh' d = Some d) \<and>
    (\<not> ok \<longrightarrow> lh' = lh \<and> old = None \<and> OPENSSL_lh_retrieve lh d = None)"
proof -
  have "hash_functions (lh_hash lh) (lh_comp lh)" using assms(1) by (simp add: lh_ok_def)
  then have "lh_comp lh d d = 0" by (rule hash_functions.cmp_refl)
  then show ?thesis using lh_insert [OF assms] lh_insert_retrieve [OF assms(1,2), of env d old lh' d] assms(3) by auto
qed

theorem lh_insert_errors_witness:
  "snd (snd (OPENSSL_lh_insert (all_ok\<lparr>h_ok := \<lambda>n. False\<rparr>) empty_table 3)) = empty_table"
proof -
  obtain ok old lh' where i: "OPENSSL_lh_insert (all_ok\<lparr>h_ok := \<lambda>n. False\<rparr>) empty_table 3 = (ok, old, lh')"
    by (metis surj_pair)
  have "\<not> fst (OPENSSL_lh_insert (all_ok\<lparr>h_ok := \<lambda>n. False\<rparr>) empty_table 3)"
    by (simp add: OPENSSL_lh_insert_def get_next_ptr_and_hash_def empty_table_def item_at_def OPENSSL_malloc_def)
  with lh_insert_errors [OF empty_table_ok i] i show ?thesis by simp
qed

text \<open>An iteration calls its function exactly once for every element and leaves the contents of the table alone.\<close>

theorem lh_doall_visits_each:
  assumes "lh_ok lh"
  shows "\<exists>xs. mset xs = lh_elems lh \<and> fst (OPENSSL_lh_doall_arg env lh func arg) = fold func xs arg \<and>
    lh_elems (snd (OPENSSL_lh_doall_arg env lh func arg)) = lh_elems lh"
proof -
  obtain r lh' where d: "OPENSSL_lh_doall_arg env lh func arg = (r, lh')" by fastforce
  show ?thesis by (rule lh_doall_arg [OF assms d]) (auto simp: d)
qed

theorem lh_doall_visits_each_witness:
  "fst (OPENSSL_lh_doall_arg all_ok empty_table (\<lambda>d n. n + d) 4) = 4"
  using lh_doall_visits_each [OF empty_table_ok(1), of all_ok "\<lambda>d n. n + d" 4]
  by (simp add: empty_table_def lh_elems_def lh_items_def concat_replicate_trivial)

end
