(* ===== verification/Der.thy ===== *)
theory Der
  imports Cbs
begin

text \<open>
  The Distinguished Encoding Rules, written over natural numbers, and the proof that the
  parser of \<^verbatim>\<open>cbs.c\<close> is a canonical codec for them: every element it accepts is the one DER
  encoding of its tag and contents, and every encoding with contents below four gigabytes
  is accepted.
\<close>

subsection \<open>The encodings\<close>

fun base128_cont :: "nat \<Rightarrow> byte list" where
  "base128_cont v = (if v = 0 then [] else base128_cont (v div 128) @ [word_of_nat (128 + v mod 128)])"

declare base128_cont.simps [simp del]

definition base128 :: "nat \<Rightarrow> byte list" where
  "base128 v = base128_cont (v div 128) @ [word_of_nat (v mod 128)]"

definition der_tag :: "u32 \<Rightarrow> byte list" where
  "der_tag t =
     (let cls = unat t div 2 ^ 29; n = unat t mod 2 ^ 29 in
      if n < 31 then [word_of_nat (32 * cls + n)] else word_of_nat (32 * cls + 31) # base128 n)"

definition der_len :: "nat \<Rightarrow> byte list" where
  "der_len n =
     (if n < 128 then [word_of_nat n]
      else if n < 256 then 0x81 # be_bytes 1 n
      else if n < 256 ^ 2 then 0x82 # be_bytes 2 n
      else if n < 256 ^ 3 then 0x83 # be_bytes 3 n
      else 0x84 # be_bytes 4 n)"

definition der_header :: "u32 \<Rightarrow> nat \<Rightarrow> byte list" where
  "der_header tag n = der_tag tag @ der_len n"

definition der_element :: "u32 \<Rightarrow> byte list \<Rightarrow> byte list" where
  "der_element tag body = der_header tag (length body) @ body"

subsection \<open>Bytes in arithmetic form\<close>

lemma unat_and_not_mask:
  fixes v :: "'a::len word"
  shows "unat (v AND NOT (mask n)) = unat v div 2 ^ n * 2 ^ n"
proof -
  have "v AND NOT (mask n) = push_bit n (drop_bit n v)"
    by (rule bit_word_eqI) (auto simp: bit_simps)
  moreover have "unat (push_bit n (drop_bit n v)) = unat (drop_bit n v) * 2 ^ n"
  proof (rule unat_push_bit_small)
    have "unat (drop_bit n v) * 2 ^ n \<le> unat v"
      by (metis unat_drop_bit_eq drop_bit_eq_div div_times_less_eq_dividend)
    then show "unat (drop_bit n v) * 2 ^ n < 2 ^ LENGTH('a)"
      using unsigned_less [of v] by (rule le_less_trans)
  qed
  ultimately show ?thesis by (metis unat_drop_bit_eq drop_bit_eq_div)
qed

lemma byte_masks:
  "(0xe0 :: byte) = NOT (mask 5)" "(0x80 :: byte) = NOT (mask 7)" "(0x1f :: byte) = mask 5"
  "(0x7f :: byte) = mask 7"
  by (simp_all add: mask_eq_exp_minus_1)

lemma unat_and_byte:
  fixes b :: byte
  shows "unat (b AND 0xe0) = 32 * (unat b div 32)" "unat (b AND 0x80) = 128 * (unat b div 128)"
    "unat (b AND 0x1f) = unat b mod 32" "unat (b AND 0x7f) = unat b mod 128"
  unfolding byte_masks by (simp_all add: unat_and_not_mask unat_and_mask_eq)

lemma high_bit_iff: "(b :: byte) AND 0x80 = 0 \<longleftrightarrow> unat b < 128"
proof -
  have "b AND 0x80 = 0 \<longleftrightarrow> unat (b AND 0x80) = 0" by (simp only: unsigned_eq_0_iff)
  also have "\<dots> \<longleftrightarrow> unat b < 128" by (auto simp: unat_and_byte(2))
  finally show ?thesis .
qed

subsection \<open>Base-128 integers\<close>

lemma base128_cont_0 [simp]: "base128_cont 0 = []"
  by (simp add: base128_cont.simps)

lemma base128_cont_step:
  "v * 128 + d \<noteq> 0 \<Longrightarrow> d < 128 \<Longrightarrow>
   base128_cont (v * 128 + d) = base128_cont v @ [word_of_nat (128 + d)]"
  by (subst base128_cont.simps) (simp add: add.commute)

lemma base128_step: "d < 128 \<Longrightarrow> base128 (v * 128 + d) = base128_cont v @ [word_of_nat d]"
  by (simp add: base128_def)

lemma base128_digit:
  fixes v :: u64
  assumes "unat v < 2 ^ 57"
  shows "unat (push_bit 7 v OR ucast (b AND 0x7f :: byte)) = unat v * 128 + unat b mod 128"
proof -
  have "unat (ucast (b AND 0x7f) :: u64) = unat b mod 128" by (simp add: unat_and_byte)
  moreover have "unat b mod 128 < 2 ^ 7" by simp
  ultimately show ?thesis using assms by (subst unat_push_or) simp_all
qed

lemma parse_base128_loop_Cons:
  "parse_base128_loop v (b # c) =
     (if 2 ^ 57 \<le> unat v \<or> v = 0 \<and> b = 0x80 then (None, c)
      else let v' = word_of_nat (unat v * 128 + unat b mod 128) in
        if 128 \<le> unat b then parse_base128_loop v' c else (Some v', c))"
proof (cases "unat v < 2 ^ 57")
  case True
  have "push_bit 7 v OR ucast (b AND 0x7f) = word_of_nat (unat v * 128 + unat b mod 128)"
    by (simp only: base128_digit [OF True, symmetric] of_nat_unat ucast_id)
  then show ?thesis using True
    by (simp add: drop_bit_eq_0_iff_unat high_bit_iff Let_def not_less)
next
  case False
  then show ?thesis by (simp add: drop_bit_eq_0_iff_unat)
qed

declare parse_base128_loop.simps(2) [simp del]

lemma parse_base128_cont:
  "x < 2 ^ 57 \<Longrightarrow> parse_base128_loop 0 (base128_cont x @ c) = parse_base128_loop (word_of_nat x) c"
proof (induction x arbitrary: c rule: base128_cont.induct)
  case (1 x)
  show ?case
  proof (cases "x = 0")
    case False
    define d where "d = x mod 128"
    have d: "d < 128" and x: "x = x div 128 * 128 + d" by (simp_all add: d_def)
    have b: "unat (word_of_nat (128 + d) :: byte) = 128 + d"
      by (rule unat_word_of_nat_lt) (use d in simp)
    have q: "unat (word_of_nat (x div 128) :: u64) = x div 128"
      by (rule unat_word_of_nat_lt) (use 1 in simp)
    have nz: "\<not> ((word_of_nat (x div 128) :: u64) = 0 \<and> (word_of_nat (128 + d) :: byte) = 0x80)"
    proof
      assume a: "(word_of_nat (x div 128) :: u64) = 0 \<and> (word_of_nat (128 + d) :: byte) = 0x80"
      have "unat (word_of_nat (x div 128) :: u64) = 0" "unat (word_of_nat (128 + d) :: byte) = 128"
        using a by simp_all
      with q b have "x div 128 = 0" "d = 0" by linarith+
      with x False show False by simp
    qed
    have "base128_cont x @ c = base128_cont (x div 128) @ word_of_nat (128 + d) # c"
      using False by (subst base128_cont.simps) (simp add: d_def)
    then have "parse_base128_loop 0 (base128_cont x @ c) =
        parse_base128_loop (word_of_nat (x div 128)) (word_of_nat (128 + d) # c)"
      using 1 False by simp
    also have "\<dots> = parse_base128_loop (word_of_nat x) c"
    proof -
      have "\<not> (2 ^ 57 \<le> x div 128 \<or> (word_of_nat (x div 128) :: u64) = 0 \<and> (word_of_nat (128 + d) :: byte) = 0x80)"
        using nz "1.prems" div_le_dividend [of x 128] by linarith
      moreover have "x div 128 * 128 + (128 + d) mod 128 = x" using d x by simp
      ultimately show ?thesis
        by (simp only: parse_base128_loop_Cons q b Let_def if_False) simp
    qed
    finally show ?thesis .
  qed simp
qed

lemma parse_base128_loop_sound:
  "parse_base128_loop v c = (Some w, r) \<Longrightarrow> base128_cont (unat v) @ c = base128 (unat w) @ r"
proof (induction c arbitrary: v)
  case (Cons b c)
  define d where "d = unat b mod 128"
  define v' :: u64 where "v' = word_of_nat (unat v * 128 + d)"
  have guard: "\<not> (2 ^ 57 \<le> unat v \<or> v = 0 \<and> b = 0x80)"
  proof
    assume "2 ^ 57 \<le> unat v \<or> v = 0 \<and> b = 0x80"
    then have "parse_base128_loop v (b # c) = (None, c)"
      by (simp only: parse_base128_loop_Cons if_True)
    with Cons.prems show False by simp
  qed
  then have eq: "(if 128 \<le> unat b then parse_base128_loop v' c else (Some v', c)) = (Some w, r)"
    using Cons.prems unfolding parse_base128_loop_Cons Let_def d_def [symmetric] v'_def [symmetric]
    by (simp only: if_False)
  have d: "d < 128" by (simp add: d_def)
  have v': "unat v' = unat v * 128 + d"
    unfolding v'_def by (rule unat_word_of_nat_lt) (use guard d in simp)
  show ?case
  proof (cases "128 \<le> unat b")
    case True
    have bd: "unat b = 128 + d" using True unat_byte_lt [of b] by (simp add: d_def le_mod_geq)
    have "unat v * 128 + d \<noteq> 0"
    proof
      assume "unat v * 128 + d = 0"
      then have "unat v = 0" "unat b = unat (0x80 :: byte)" using bd by simp_all
      then have "v = 0" "b = 0x80" by (simp only: unsigned_eq_0_iff, simp only: word_unat_eq_iff)
      with guard show False by simp
    qed
    then have "base128_cont (unat v') = base128_cont (unat v) @ [b]"
      by (metis base128_cont_step [OF _ d] v' bd of_nat_unat ucast_id)
    moreover have "base128_cont (unat v') @ c = base128 (unat w) @ r"
      by (rule Cons.IH) (use eq True in simp)
    ultimately show ?thesis by simp
  next
    case False
    then have "unat b = d" by (simp add: d_def)
    then have "base128 (unat v') = base128_cont (unat v) @ [b]"
      unfolding v' base128_step [OF d] by (simp only: of_nat_unat ucast_id flip: \<open>unat b = d\<close>)
    with False eq show ?thesis by simp
  qed
qed simp

interpretation base128: canonical_codec "\<lambda>v. base128 (unat v)" parse_base128_integer "\<lambda>v. True"
proof unfold_locales
  fix a :: u64 and r
  define x d where "x = unat a div 128" and "d = unat a mod 128"
  have x: "x < 2 ^ 57" and d: "d < 128" and a: "unat a = x * 128 + d"
    using unat_u64_lt [of a] by (simp_all add: x_def d_def)
  have ux: "unat (word_of_nat x :: u64) = x" using x by (simp add: unat_of_nat)
  have ud: "unat (word_of_nat d :: byte) = d" using d by (simp add: unat_of_nat)
  have "word_of_nat d \<noteq> (0x80 :: byte)"
  proof
    assume "word_of_nat d = (0x80 :: byte)"
    then have "unat (word_of_nat d :: byte) = 128" by simp
    with ud d show False by simp
  qed
  then show "parse_base128_integer (base128 (unat a) @ r) = (Some a, r)"
    using x d ux ud
    by (simp add: parse_base128_integer_def base128_def parse_base128_cont parse_base128_loop_Cons
        Let_def flip: x_def d_def) (metis a of_nat_unat ucast_id of_nat_add of_nat_mult of_nat_numeral)
next
  fix c r and a :: u64
  assume "parse_base128_integer c = (Some a, r)"
  then show "True \<and> c = base128 (unat a) @ r"
    using parse_base128_loop_sound [of 0 c a r] by (simp add: parse_base128_integer_def)
qed

subsection \<open>Tags\<close>

lemma TAG_NUMBER_MASK_eq: "CBS_ASN1_TAG_NUMBER_MASK = 0x1fffffff"
  by (simp add: CBS_ASN1_TAG_NUMBER_MASK_def CBS_ASN1_TAG_SHIFT_def push_bit_eq_mult)

lemma tag_bits_or:
  fixes b :: byte and w :: u32
  assumes "unat w < 2 ^ 29"
  shows "push_bit CBS_ASN1_TAG_SHIFT (ucast b AND 0xe0) OR w = word_of_nat (unat b div 32 * 2 ^ 29 + unat w)"
proof -
  define y :: u32 where "y = word_of_nat (unat b div 32)"
  have "(ucast b AND 0xe0 :: u32) = ucast (b AND 0xe0)"
    by (simp add: unsigned_and_eq)
  also have "\<dots> = word_of_nat (32 * (unat b div 32))"
    by (metis of_nat_unat unat_and_byte(1))
  also have "\<dots> = push_bit 5 y"
    by (simp add: y_def push_bit_eq_mult mult.commute)
  finally have "push_bit CBS_ASN1_TAG_SHIFT (ucast b AND 0xe0) = push_bit 29 y"
    by (simp add: CBS_ASN1_TAG_SHIFT_def)
  moreover have "push_bit 29 y OR w = push_bit 29 y + w"
    using assms by (rule push_or_eq_add)
  ultimately show ?thesis
    by (simp add: y_def push_bit_eq_mult)
qed

lemma parse_asn1_tag_Cons:
  "parse_asn1_tag (b # c) =
     (if unat b mod 32 = 31 then
        rbind (parse_base128_integer c) (\<lambda>v c.
          if 2 ^ 29 \<le> unat v \<or> unat v < 31 then (None, c)
          else (Some (word_of_nat (unat b div 32 * 2 ^ 29 + unat v)), c))
      else (Some (word_of_nat (unat b div 32 * 2 ^ 29 + unat b mod 32)), c))"
proof -
  have m: "(ucast b AND 0x1f :: u32) = ucast (b AND 0x1f)"
    by (simp add: unsigned_and_eq)
  then have n: "unat (ucast b AND 0x1f :: u32) = unat b mod 32"
    by (simp add: unat_and_byte)
  then have eq31: "ucast b AND 0x1f = (0x1f :: u32) \<longleftrightarrow> unat b mod 32 = 31"
    by (simp add: word_unat_eq_iff)
  have gt: "v > ucast CBS_ASN1_TAG_NUMBER_MASK \<longleftrightarrow> 2 ^ 29 \<le> unat v"
    and lt: "v < 0x1f \<longleftrightarrow> unat v < 31" for v :: u64
    by (auto simp: TAG_NUMBER_MASK_eq word_less_nat_alt)
  have big: "push_bit CBS_ASN1_TAG_SHIFT (ucast b AND 0xe0) OR (ucast v :: u32) =
      word_of_nat (unat b div 32 * 2 ^ 29 + unat v)" if "\<not> 2 ^ 29 \<le> unat v" for v :: u64
  proof -
    have "unat (ucast v :: u32) = unat v"
      using that by (simp add: unsigned_ucast_eq take_bit_nat_eq_self)
    with that show ?thesis by (subst tag_bits_or) simp_all
  qed
  have branch: "(if 2 ^ 29 \<le> unat v \<or> unat v < 31 then (None, c')
      else (Some (push_bit CBS_ASN1_TAG_SHIFT (ucast b AND 0xe0) OR (ucast v :: u32)), c')) =
    (if 2 ^ 29 \<le> unat v \<or> unat v < 31 then (None, c')
      else (Some (word_of_nat (unat b div 32 * 2 ^ 29 + unat v)), c'))" for v :: u64 and c' :: cbs
    by (cases "2 ^ 29 \<le> unat v") (simp_all only: big simp_thms if_True)
  have small: "push_bit CBS_ASN1_TAG_SHIFT (ucast b AND 0xe0) OR (ucast b AND 0x1f) =
      (word_of_nat (unat b div 32 * 2 ^ 29 + unat b mod 32) :: u32)"
    by (subst tag_bits_or) (simp_all add: n order_less_trans [OF mod_less_divisor])
  show ?thesis
    unfolding parse_asn1_tag_def CBS_get_u8_Cons rbind_simps Let_def eq31 gt lt small branch ..
qed

lemma der_tag_split:
  assumes "cls < 8" "n < 2 ^ 29"
  shows "der_tag (word_of_nat (cls * 2 ^ 29 + n)) =
    (if n < 31 then [word_of_nat (32 * cls + n)] else word_of_nat (32 * cls + 31) # base128 n)"
proof -
  have "unat (word_of_nat (cls * 2 ^ 29 + n) :: u32) = cls * 2 ^ 29 + n"
    by (rule unat_word_of_nat_lt) (use assms in simp)
  then show ?thesis using assms by (simp add: der_tag_def Let_def)
qed

lemma tag_first_byte:
  assumes "cls < 8" "n < 32"
  shows "unat (word_of_nat (32 * cls + n) :: byte) = 32 * cls + n"
  by (rule unat_word_of_nat_lt) (use assms in simp)

interpretation der_tag: canonical_codec der_tag parse_asn1_tag "\<lambda>t. True"
proof unfold_locales
  fix t :: u32 and r
  define cls n where "cls = unat t div 2 ^ 29" and "n = unat t mod 2 ^ 29"
  have cn: "cls < 8" "n < 2 ^ 29" using unat_u32_lt [of t] by (simp_all add: cls_def n_def)
  have ut: "unat t = cls * 2 ^ 29 + n" by (simp add: cls_def n_def)
  then have t: "t = word_of_nat (cls * 2 ^ 29 + n)" by (metis of_nat_unat ucast_id)
  show "parse_asn1_tag (der_tag t @ r) = (Some t, r)"
  proof (cases "n < 31")
    case True
    then have "der_tag t @ r = word_of_nat (32 * cls + n) # r"
      unfolding t der_tag_split [OF cn] by simp
    then show ?thesis
      using True cn by (simp only: parse_asn1_tag_Cons tag_first_byte) (simp add: t)
  next
    case False
    define v :: u64 where "v = word_of_nat n"
    have v: "unat v = n" unfolding v_def by (rule unat_word_of_nat_lt) (use cn in simp)
    from False have "der_tag t @ r = word_of_nat (32 * cls + 31) # base128 (unat v) @ r"
      unfolding t der_tag_split [OF cn] v by simp
    moreover have "parse_base128_integer (base128 (unat v) @ r) = (Some v, r)"
      by (rule base128.dec_enc) simp
    ultimately show ?thesis
      using False cn by (simp only: parse_asn1_tag_Cons tag_first_byte) (simp add: v t)
  qed
next
  fix c r and t :: u32
  assume p: "parse_asn1_tag c = (Some t, r)"
  then obtain b c' where c: "c = b # c'"
    by (cases c) (auto simp: parse_asn1_tag_def)
  define cls where "cls = unat b div 32"
  have cls: "cls < 8" using unat_byte_lt [of b] by (simp add: cls_def)
  have b: "b = word_of_nat (32 * cls + unat b mod 32)"
    unfolding cls_def by (metis mult_div_mod_eq of_nat_unat ucast_id)
  show "True \<and> c = der_tag t @ r"
  proof (cases "unat b mod 32 = 31")
    case True
    with p obtain v where v: "parse_base128_integer c' = (Some v, r)" "unat v < 2 ^ 29" "31 \<le> unat v"
      and t: "t = word_of_nat (cls * 2 ^ 29 + unat v)"
      by (auto simp: c parse_asn1_tag_Cons rbind_Some_iff cls_def not_le not_less split: if_splits)
    have "c' = base128 (unat v) @ r" using v(1) by (simp add: base128.dec_Some_iff)
    with v t b True show ?thesis
      unfolding c t der_tag_split [OF cls v(2)] by simp
  next
    case False
    then have t: "t = word_of_nat (cls * 2 ^ 29 + unat b mod 32)" "r = c'"
      using p by (simp_all add: c parse_asn1_tag_Cons cls_def)
    have lt: "unat b mod 32 < 31" "unat b mod 32 < 2 ^ 29"
      using False mod_less_divisor [of 32 "unat b"] by simp_all
    show ?thesis
      unfolding c t der_tag_split [OF cls lt(2)] using lt b by simp
  qed
qed

subsection \<open>Lengths\<close>

lemma der_len_short: "n < 128 \<Longrightarrow> der_len n = [word_of_nat n]"
  by (simp add: der_len_def)

text \<open>A length of at least 128 has one long form: \<open>k\<close> bytes, the first of them not zero.\<close>

definition long_form :: "nat \<Rightarrow> nat \<Rightarrow> bool" where
  "long_form k n \<longleftrightarrow> 128 \<le> n \<and> k \<in> {1, 2, 3, 4} \<and> 256 ^ (k - 1) \<le> n \<and> n < 256 ^ k"

lemma long_form_der_len:
  assumes "long_form k n"
  shows "der_len n = word_of_nat (128 + k) # be_bytes k n"
proof -
  have "k = 1 \<or> k = 2 \<or> k = 3 \<or> k = 4" using assms by (auto simp: long_form_def)
  then show ?thesis using assms by (elim disjE) (simp_all add: long_form_def der_len_def)
qed

lemma long_form_exists:
  assumes "128 \<le> n" "n < 2 ^ 32"
  obtains k where "long_form k n"
proof -
  consider "n < 256" | "256 \<le> n" "n < 256 ^ 2" | "256 ^ 2 \<le> n" "n < 256 ^ 3" | "256 ^ 3 \<le> n"
    by linarith
  then show ?thesis
  proof cases
    case 1 then show ?thesis using assms that [of 1] by (simp add: long_form_def)
  next
    case 2 then show ?thesis using assms that [of 2] by (simp add: long_form_def)
  next
    case 3 then show ?thesis using assms that [of 3] by (simp add: long_form_def)
  next
    case 4 then show ?thesis using assms that [of 4] by (simp add: long_form_def)
  qed
qed

lemma length_base128_cont: "v < 128 ^ k \<Longrightarrow> length (base128_cont v) \<le> k"
proof (induction k arbitrary: v)
  case (Suc k)
  then have "v div 128 < 128 ^ k" by (simp add: less_mult_imp_div_less mult.commute)
  then have "length (base128_cont (v div 128)) \<le> k" by (rule Suc.IH)
  then show ?case by (subst base128_cont.simps) simp
qed simp

lemma length_der_tag: "length (der_tag t) \<le> 6" "0 < length (der_tag t)"
proof -
  have "length (base128_cont (unat t mod 2 ^ 29 div 128)) \<le> 4"
    by (rule length_base128_cont) (simp add: less_mult_imp_div_less order_less_le_trans [OF mod_less_divisor])
  then show "length (der_tag t) \<le> 6" "0 < length (der_tag t)"
    by (simp_all add: der_tag_def base128_def Let_def)
qed

subsection \<open>Elements\<close>

definition der_el :: "u32 \<Rightarrow> byte list \<Rightarrow> asn1_element" where
  "der_el tag body =
     \<lparr>el_out = der_element tag body, el_tag = tag,
      el_header_len = length (der_header tag (length body)), el_ber_found = False\<rparr>"

lemma unat_long_byte: "k \<in> {1, 2, 3, 4} \<Longrightarrow> unat (word_of_nat (128 + k) :: byte) = 128 + k"
  by (rule unat_word_of_nat_lt) auto

lemma get_element_short:
  assumes "parse_asn1_tag c = (Some t, lb # h)" "unat lb < 128" "c = pre @ lb # h"
  shows "cbs_get_any_asn1_element c ber =
    rbind (CBS_get_bytes c (unat lb + (length pre + 1))) (\<lambda>out c.
      (Some \<lparr>el_out = out, el_tag = t, el_header_len = length pre + 1, el_ber_found = False\<rparr>, c))"
proof -
  have "length c - length h = length pre + 1" using assms by simp
  then show ?thesis
    using assms(1,2) by (simp add: cbs_get_any_asn1_element_def high_bit_iff Let_def)
qed

lemma get_element_long:
  assumes "parse_asn1_tag c = (Some t, lb # h)" "128 \<le> unat lb" "c = pre @ lb # h"
    and k: "k = unat lb - 128" and pre: "length pre \<le> 6"
  shows "cbs_get_any_asn1_element c False =
    (if k = 0 \<or> k > 4 \<or> length h < k then (None, c)
     else let n = be_val (take k h) in
       if n < 128 \<or> n < 256 ^ (k - 1) then (None, c)
       else rbind (CBS_get_bytes c (n + (length pre + 1 + k))) (\<lambda>out c.
         (Some \<lparr>el_out = out, el_tag = t, el_header_len = length pre + 1 + k, el_ber_found = False\<rparr>, c)))"
proof -
  have hl: "length c - length h = length pre + 1" using assms by simp
  have nb: "unat (lb AND 0x7f) = k"
    using assms(2) unat_byte_lt [of lb] by (simp add: unat_and_byte k le_mod_geq)
  have hb: "lb AND 0x80 \<noteq> 0" using assms(2) by (simp add: high_bit_iff)
  show ?thesis
  proof (cases "k = 0 \<or> k > 4 \<or> length h < k")
    case True
    then show ?thesis
      using assms(1) hb by (auto simp: cbs_get_any_asn1_element_def Let_def nb cbs_get_u_eq)
  next
    case False
    define n where "n = be_val (take k h)"
    have "n < 256 ^ length (take k h)" unfolding n_def by (rule be_val_bound)
    also have "\<dots> \<le> 256 ^ 4" using False by (intro power_increasing) simp_all
    finally have n: "n < 256 ^ 4" .
    then have un: "unat (word_of_nat n :: u64) = n" by (intro unat_word_of_nat_lt) simp
    have short: "(word_of_nat n :: u64) < 128 \<longleftrightarrow> n < 128"
      by (simp add: word_less_nat_alt un)
    have padded: "drop_bit ((k - Suc 0) * 8) (word_of_nat n :: u64) = 0 \<longleftrightarrow> n < 256 ^ (k - Suc 0)"
      by (simp add: drop_bit_eq_0_iff_unat un mult.commute [of _ 8] power_mult)
    have ov: "\<not> size_add n (length pre + 1 + k) < n"
      using n pre False by (subst size_add_no_wrap) (simp_all add: SIZE_MOD_def)
    have "cbs_get_u h k = (Some (word_of_nat n), drop k h)"
      using False by (simp add: cbs_get_u_eq n_def)
    then show ?thesis
      using assms(1) hb False ov
      by (simp add: cbs_get_any_asn1_element_def Let_def nb hl short padded un flip: n_def)
  qed
qed

lemma get_any_asn1_element_complete:
  assumes "length body < 2 ^ 32"
  shows "CBS_get_any_asn1_element (der_element tag body @ r) = (Some (der_el tag body), r)"
proof -
  let ?n = "length body" and ?c = "der_element tag body @ r"
  have c: "?c = der_tag tag @ der_len ?n @ body @ r"
    by (simp add: der_element_def der_header_def)
  have tag: "parse_asn1_tag ?c = (Some tag, der_len ?n @ body @ r)"
    unfolding c by (rule der_tag.dec_enc) simp
  show ?thesis
  proof (cases "?n < 128")
    case True
    have lb: "unat (word_of_nat ?n :: byte) = ?n"
      by (rule unat_word_of_nat_lt) (use True in simp)
    have c': "?c = der_tag tag @ word_of_nat ?n # body @ r"
      and t: "parse_asn1_tag ?c = (Some tag, word_of_nat ?n # body @ r)"
      using c tag True by (simp_all add: der_len_short)
    have "length (der_element tag body) = ?n + (length (der_tag tag) + 1)"
      using True by (simp add: der_element_def der_header_def der_len_short)
    then show ?thesis
      using get_element_short [OF t _ c', of False] True lb
      by (simp add: CBS_get_any_asn1_element_def der_el_def der_header_def der_len_short)
  next
    case False
    with assms obtain k where k: "long_form k ?n" by (meson linorder_not_less long_form_exists)
    then have k4: "k \<in> {1, 2, 3, 4}" by (simp add: long_form_def)
    define lb :: byte where "lb = word_of_nat (128 + k)"
    have lb: "unat lb = 128 + k" using k4 unat_long_byte by (simp only: lb_def)
    have c': "?c = der_tag tag @ lb # be_bytes k ?n @ body @ r"
      and t: "parse_asn1_tag ?c = (Some tag, lb # be_bytes k ?n @ body @ r)"
      using c tag k by (simp_all only: long_form_der_len lb_def append_Cons)
    have v: "be_val (be_bytes k ?n) = ?n"
      using k by (simp add: be_val_be_bytes long_form_def)
    have len: "length (der_element tag body) = ?n + (length (der_tag tag) + 1 + k)"
      using k by (simp add: der_element_def der_header_def long_form_der_len)
    have "CBS_get_any_asn1_element ?c =
        rbind (CBS_get_bytes ?c (?n + (length (der_tag tag) + 1 + k))) (\<lambda>out c.
         (Some \<lparr>el_out = out, el_tag = tag, el_header_len = length (der_tag tag) + 1 + k,
           el_ber_found = False\<rparr>, c))"
      unfolding CBS_get_any_asn1_element_def
      by (subst get_element_long [OF t _ c', of k])
        (use k k4 v lb length_der_tag in \<open>auto simp: Let_def long_form_def\<close>)
    then show ?thesis
      using k len by (simp add: der_el_def der_header_def long_form_der_len)
  qed
qed

lemma get_any_asn1_element_sound:
  assumes "CBS_get_any_asn1_element c = (Some el, r)"
  obtains body where "length body < 2 ^ 32" "c = der_element (el_tag el) body @ r"
    "el = der_el (el_tag el) body"
proof -
  obtain t lb h where tag: "parse_asn1_tag c = (Some t, lb # h)"
  proof -
    from assms obtain t h where p: "parse_asn1_tag c = (Some t, h)"
      by (auto simp: CBS_get_any_asn1_element_def cbs_get_any_asn1_element_def split: prod.splits option.splits)
    moreover from assms p have "h \<noteq> []"
      by (auto simp: CBS_get_any_asn1_element_def cbs_get_any_asn1_element_def)
    ultimately show ?thesis using that by (metis list.exhaust)
  qed
  have c: "c = der_tag t @ lb # h" using tag by (simp add: der_tag.dec_Some_iff)
  show ?thesis
  proof (cases "unat lb < 128")
    case True
    from assms obtain out where out: "CBS_get_bytes c (unat lb + (length (der_tag t) + 1)) = (Some out, r)"
      and el: "el = \<lparr>el_out = out, el_tag = t, el_header_len = length (der_tag t) + 1, el_ber_found = False\<rparr>"
      by (auto simp: CBS_get_any_asn1_element_def get_element_short [OF tag True c] rbind_Some_iff)
    define body where "body = drop (length (der_tag t) + 1) out"
    have o: "c = out @ r" "length out = unat lb + (length (der_tag t) + 1)"
      using out by (simp_all add: CBS_get_bytes_Some_iff)
    have b: "length body = unat lb" using o by (simp add: body_def)
    have "take (length (der_tag t) + 1) c = der_tag t @ [lb]" by (simp add: c)
    then have "out = der_tag t @ [lb] @ body"
      unfolding body_def using o by (metis append_assoc append_take_drop_id le_add2 take_append take_all_iff
          diff_is_0_eq take0 append_Nil2)
    then have e: "out = der_element t body"
      using b True by (simp add: der_element_def der_header_def der_len_short)
    show ?thesis
      by (rule that [of body])
        (use b True el e o in \<open>simp_all add: der_el_def der_header_def der_len_short\<close>)
  next
    case False
    define k n where "k = unat lb - 128" and "n = be_val (take k h)"
    note el_eq = get_element_long [OF tag _ c k_def length_der_tag(1)]
    from assms False have k: "k \<noteq> 0" "k \<le> 4" "k \<le> length h" and n: "128 \<le> n" "256 ^ (k - 1) \<le> n"
      by (auto simp: CBS_get_any_asn1_element_def el_eq Let_def n_def split: if_splits)
    from assms False k n obtain out where
        out: "CBS_get_bytes c (n + (length (der_tag t) + 1 + k)) = (Some out, r)"
      and el: "el = \<lparr>el_out = out, el_tag = t, el_header_len = length (der_tag t) + 1 + k, el_ber_found = False\<rparr>"
      by (auto simp: CBS_get_any_asn1_element_def el_eq Let_def rbind_Some_iff simp flip: n_def)
    have nk: "n < 256 ^ k" using be_val_bound [of "take k h"] k by (simp add: n_def)
    have lf: "long_form k n" using k n nk by (auto simp: long_form_def)
    have tk: "take k h = be_bytes k n"
      using be_bytes_be_val [of "take k h"] k by (simp add: n_def)
    have lb: "lb = word_of_nat (128 + k)"
      using False by (metis k_def le_add_diff_inverse linorder_not_less of_nat_unat ucast_id)
    define body where "body = drop (length (der_tag t) + 1 + k) out"
    have o: "c = out @ r" "length out = n + (length (der_tag t) + 1 + k)"
      using out by (simp_all add: CBS_get_bytes_Some_iff)
    have b: "length body = n" using o by (simp add: body_def)
    have "take (length (der_tag t) + 1 + k) c = der_tag t @ lb # be_bytes k n" by (simp add: c tk)
    then have "out = (der_tag t @ lb # be_bytes k n) @ body"
      unfolding body_def using o by (metis append_take_drop_id le_add2 take_append
          diff_is_0_eq take0 append_Nil2)
    then have e: "out = der_element t body"
      using b lf lb by (simp add: der_element_def der_header_def long_form_der_len)
    have "n < 256 ^ 4" using nk k(2) by (meson order_less_le_trans one_le_numeral power_increasing)
    then show ?thesis
      by (intro that [of body])
        (use b lf el e o in \<open>simp_all add: der_el_def der_header_def long_form_der_len\<close>)
  qed
qed

text \<open>The element readers as canonical codecs; a value of the first is a pair of a tag and contents.\<close>

lemma CBS_get_any_asn1_complete:
  "length body < 2 ^ 32 \<Longrightarrow> CBS_get_any_asn1 (der_element tag body @ r) = (Some (body, tag), r)"
  by (simp add: CBS_get_any_asn1_def get_any_asn1_element_complete der_el_def)
    (simp add: der_element_def)

interpretation der: canonical_codec "\<lambda>(body, tag). der_element tag body" CBS_get_any_asn1
  "\<lambda>(body, tag). length body < 2 ^ 32"
proof unfold_locales
  fix a :: "cbs \<times> u32" and r
  assume "case a of (body, tag) \<Rightarrow> length body < 2 ^ 32"
  then show "CBS_get_any_asn1 ((case a of (body, tag) \<Rightarrow> der_element tag body) @ r) = (Some a, r)"
    by (cases a) (simp add: CBS_get_any_asn1_complete)
next
  fix c r and a :: "cbs \<times> u32"
  assume a: "CBS_get_any_asn1 c = (Some a, r)"
  then obtain el where "CBS_get_any_asn1_element c = (Some el, r)"
    by (auto simp: CBS_get_any_asn1_def elim!: rbind_SomeE split: prod.split_asm option.split_asm)
  then obtain body where body: "length body < 2 ^ 32" "c = der_element (el_tag el) body @ r"
    by (rule get_any_asn1_element_sound)
  with a have "a = (body, el_tag el)" by (simp add: CBS_get_any_asn1_complete)
  with body show "(case a of (body, tag) \<Rightarrow> length body < 2 ^ 32) \<and>
      c = (case a of (body, tag) \<Rightarrow> der_element tag body) @ r"
    by simp
qed

lemma CBS_get_asn1_Some_iff:
  "CBS_get_asn1 c tag = (Some body, r) \<longleftrightarrow> length body < 2 ^ 32 \<and> c = der_element tag body @ r"
proof -
  have "CBS_get_asn1 c tag = (Some body, r) \<longleftrightarrow> CBS_get_any_asn1 c = (Some (body, tag), r)"
  proof (cases "CBS_get_any_asn1_element c")
    case (Pair e s)
    show ?thesis
    proof (cases e)
      case (Some el)
      obtain x y where "CBS_skip (el_out el) (el_header_len el) = (x, y)" by fastforce
      with Pair Some show ?thesis
        by (cases x) (auto simp: CBS_get_asn1_def cbs_get_asn1_def CBS_get_any_asn1_def)
    qed (use Pair in \<open>simp add: CBS_get_asn1_def cbs_get_asn1_def CBS_get_any_asn1_def\<close>)
  qed
  then show ?thesis by (simp add: der.dec_Some_iff)
qed

interpretation der_any: canonical_codec "\<lambda>el. el_out el" CBS_get_any_asn1_element
  "\<lambda>el. \<exists>body. length body < 2 ^ 32 \<and> el = der_el (el_tag el) body"
proof unfold_locales
  fix a :: asn1_element and r
  assume "\<exists>body. length body < 2 ^ 32 \<and> a = der_el (el_tag a) body"
  then obtain body where "length body < 2 ^ 32" "a = der_el (el_tag a) body" by blast
  then show "CBS_get_any_asn1_element (el_out a @ r) = (Some a, r)"
    using get_any_asn1_element_complete [of body "el_tag a" r]
    by (metis asn1_element.select_convs(1) der_el_def)
next
  fix c r and a :: asn1_element
  assume "CBS_get_any_asn1_element c = (Some a, r)"
  then obtain body where "length body < 2 ^ 32" "c = der_element (el_tag a) body @ r"
    "a = der_el (el_tag a) body" by (rule get_any_asn1_element_sound)
  then show "(\<exists>body. length body < 2 ^ 32 \<and> a = der_el (el_tag a) body) \<and> c = el_out a @ r"
    by (metis asn1_element.select_convs(1) der_el_def)
qed

end
