(* ===== verification/Cbb.thy ===== *)
theory Cbb
  imports Der
begin

text \<open>
  The byte-string builder \<^verbatim>\<open>CBB\<close> of \<^verbatim>\<open>crypto/bytestring/cbb.c\<close>. The shared \<^verbatim>\<open>cbb_buffer_st\<close>
  is a record; the \<^verbatim>\<open>base\<close> pointer of a tree of builders is \<open>None\<close> when it is null. A
  builder holds its open child as a component, so the chain of \<^verbatim>\<open>child\<close> pointers from the
  root down to the innermost open builder is one value; a child that has been flushed is no longer
  part of it, which is the \<^verbatim>\<open>child->base = NULL\<close> of the code. An operation takes the
  buffer and the builder it is called on and returns the success flag with the new state,
  also when it fails. An operation on a child is the operation under \<open>on_child\<close>.
\<close>

subsection \<open>State\<close>

text \<open>\<open>b_buf\<close> is the whole block of \<open>b_cap\<close> bytes. A null \<^verbatim>\<open>buf\<close> is the empty block, which
  \<^verbatim>\<open>OPENSSL_realloc\<close> treats in the same way.\<close>

record cbb_buffer =
  b_buf :: "byte list"
  b_len :: nat
  b_cap :: nat
  b_can_resize :: bool
  b_error :: bool

datatype cbb =
  CBB (cbb_child: "cbb option") (cbb_offset: nat) (cbb_pending_len_len: nat)
    (cbb_pending_is_asn1: bool) (cbb_is_child: bool)

type_synonym base = "cbb_buffer option"
type_synonym cbbst = "base \<times> cbb"

text \<open>\<^verbatim>\<open>a && b\<close> on operations: the second one runs when the first one has succeeded.\<close>

definition seqb :: "bool \<times> 's \<Rightarrow> ('s \<Rightarrow> bool \<times> 's) \<Rightarrow> bool \<times> 's" where
  "seqb m f = (case m of (r, s) \<Rightarrow> if r then f s else (False, s))"

definition on_base :: "(base \<Rightarrow> bool \<times> base) \<Rightarrow> cbbst \<Rightarrow> bool \<times> cbbst" where
  "on_base f s = (case s of (base, cbb) \<Rightarrow> case f base of (r, base) \<Rightarrow> (r, base, cbb))"

definition on_child :: "(cbbst \<Rightarrow> bool \<times> cbbst) \<Rightarrow> cbbst \<Rightarrow> bool \<times> cbbst" where
  "on_child f s =
     (case s of (base, CBB child offset pll asn1 is_child) \<Rightarrow>
        (case child of
           None \<Rightarrow> (False, s)
         | Some ch \<Rightarrow>
           (case f (base, ch) of (r, base, ch) \<Rightarrow>
              (r, base, CBB (Some ch) offset pll asn1 is_child))))"

definition base_len :: "base \<Rightarrow> nat" where
  "base_len base = (case base of None \<Rightarrow> 0 | Some b \<Rightarrow> b_len b)"

definition base_set_error :: "base \<Rightarrow> base" where
  "base_set_error base = map_option (\<lambda>b. b\<lparr>b_error := True\<rparr>) base"

definition base_write :: "nat \<Rightarrow> byte list \<Rightarrow> base \<Rightarrow> base" where
  "base_write off bs base = map_option (\<lambda>b. b\<lparr>b_buf := mem_write off bs (b_buf b)\<rparr>) base"

subsection \<open>Creation and release\<close>

definition CBB_zero :: cbbst where
  "CBB_zero = (None, CBB None 0 0 False False)"

definition sizeof_cbb_buffer :: nat where
  "sizeof_cbb_buffer = 32"

definition cbb_init :: "heap_env \<Rightarrow> byte list \<Rightarrow> nat \<Rightarrow> cbbst \<Rightarrow> bool \<times> cbbst" where
  "cbb_init env buf cap s =
     (case OPENSSL_malloc env sizeof_cbb_buffer of
        None \<Rightarrow> (False, s)
      | Some _ \<Rightarrow>
        (True,
         Some \<lparr>b_buf = buf, b_len = 0, b_cap = cap, b_can_resize = True, b_error = False\<rparr>,
         (case snd s of CBB child offset pll asn1 _ \<Rightarrow> CBB child offset pll asn1 False)))"

definition CBB_init :: "heap_env \<Rightarrow> nat \<Rightarrow> bool \<times> cbbst" where
  "CBB_init env initial_capacity =
     (case OPENSSL_malloc env initial_capacity of
        None \<Rightarrow>
          if initial_capacity > 0 then (False, CBB_zero) else cbb_init env [] initial_capacity CBB_zero
      | Some buf \<Rightarrow> cbb_init env buf initial_capacity CBB_zero)"

definition CBB_init_fixed :: "heap_env \<Rightarrow> byte list \<Rightarrow> nat \<Rightarrow> bool \<times> cbbst" where
  "CBB_init_fixed env buf len =
     seqb (cbb_init env buf len CBB_zero)
       (\<lambda>(base, cbb). (True, map_option (\<lambda>b. b\<lparr>b_can_resize := False\<rparr>) base, cbb))"

definition CBB_cleanup :: "cbbst \<Rightarrow> cbbst" where
  "CBB_cleanup s = (if cbb_is_child (snd s) then s else (None, snd s))"

subsection \<open>The shared buffer\<close>

definition cbb_buffer_reserve :: "heap_env \<Rightarrow> nat \<Rightarrow> base \<Rightarrow> bool \<times> base" where
  "cbb_buffer_reserve env len base =
     (case base of
        None \<Rightarrow> (False, None)
      | Some b \<Rightarrow>
        let newlen = size_add (b_len b) len in
        if newlen < b_len b then (False, base_set_error base)
        else if newlen > b_cap b then
          (let newcap = size_mul (b_cap b) 2 in
           if \<not> b_can_resize b then (False, base_set_error base)
           else
             let newcap = (if newcap < b_cap b \<or> newcap < newlen then newlen else newcap) in
             (case OPENSSL_realloc env (Some (b_buf b)) newcap of
                None \<Rightarrow> (False, base_set_error base)
              | Some newbuf \<Rightarrow> (True, Some (b\<lparr>b_buf := newbuf, b_cap := newcap\<rparr>))))
        else (True, base))"

definition cbb_buffer_add :: "heap_env \<Rightarrow> nat \<Rightarrow> base \<Rightarrow> bool \<times> base" where
  "cbb_buffer_add env len base =
     seqb (cbb_buffer_reserve env len base)
       (\<lambda>base. (True, map_option (\<lambda>b. b\<lparr>b_len := b_len b + len\<rparr>) base))"

text \<open>The loop \<^verbatim>\<open>for (i = n - 1; i < n; i--) { buf[i] = v; v >>= 8; }\<close>, which ends when \<open>i\<close>
  wraps around: it returns what is left of \<open>v\<close> and the memory.\<close>

fun store_be_loop :: "nat \<Rightarrow> u64 \<Rightarrow> byte list \<Rightarrow> nat \<Rightarrow> u64 \<times> byte list" where
  "store_be_loop off v m 0 = (v, m)"
| "store_be_loop off v m (Suc i) = store_be_loop off (drop_bit 8 v) (m[off + i := ucast v]) i"

definition cbb_buffer_add_u :: "heap_env \<Rightarrow> u64 \<Rightarrow> nat \<Rightarrow> base \<Rightarrow> bool \<times> base" where
  "cbb_buffer_add_u env v len_len base =
     (if len_len = 0 then (True, base)
      else
        let buf = base_len base in
        seqb (cbb_buffer_add env len_len base) (\<lambda>base.
          case base of
            None \<Rightarrow> (False, None)
          | Some b \<Rightarrow>
            (case store_be_loop buf v (b_buf b) len_len of (v, m) \<Rightarrow>
               let base = Some (b\<lparr>b_buf := m\<rparr>) in
               if v \<noteq> 0 then (False, base_set_error base) else (True, base))))"

subsection \<open>Flushing\<close>

text \<open>The tail of \<^verbatim>\<open>CBB_flush\<close>, from the computation of \<open>len\<close> on, in two parts: the bytes of
  the length, and the length of an ASN.1 child, for which one byte has been set aside
  and the contents move when more are needed. The child comes back as the code leaves it.\<close>

definition cbb_flush_len_bytes :: "nat \<Rightarrow> base \<Rightarrow> cbb \<Rightarrow> bool \<times> cbbst" where
  "cbb_flush_len_bytes len base child =
     (case base of
        None \<Rightarrow> (False, base, child)
      | Some b \<Rightarrow>
        (case store_be_loop (cbb_offset child) (word_of_nat len) (b_buf b) (cbb_pending_len_len child) of
           (len, m) \<Rightarrow> (len = 0, Some (b\<lparr>b_buf := m\<rparr>), child)))"

definition cbb_make_room :: "heap_env \<Rightarrow> nat \<Rightarrow> nat \<Rightarrow> nat \<Rightarrow> base \<Rightarrow> bool \<times> base" where
  "cbb_make_room env child_start len len_len base =
     (if len_len \<noteq> 1 then
        let extra_bytes = len_len - 1 in
        seqb (cbb_buffer_add env extra_bytes base) (\<lambda>base.
          (True, map_option (\<lambda>b. b\<lparr>b_buf :=
             mem_write (child_start + extra_bytes) (take len (drop child_start (b_buf b))) (b_buf b)\<rparr>) base))
      else (True, base))"

text \<open>\<open>len_len\<close>, \<open>initial_length_byte\<close> and the \<open>len\<close> that is left to be written after it.\<close>

definition cbb_len_form :: "nat \<Rightarrow> nat \<times> byte \<times> nat" where
  "cbb_len_form len =
     (if len > 0xffffff then (5, 0x80 OR 4, len)
      else if len > 0xffff then (4, 0x80 OR 3, len)
      else if len > 0xff then (3, 0x80 OR 2, len)
      else if len > 0x7f then (2, 0x80 OR 1, len)
      else (1, word_of_nat len, 0))"

definition cbb_flush_pending :: "heap_env \<Rightarrow> nat \<Rightarrow> base \<Rightarrow> cbb \<Rightarrow> bool \<times> cbbst" where
  "cbb_flush_pending env child_start base child =
     (let len = base_len base - child_start in
      if cbb_pending_is_asn1 child then
        if len > 0xfffffffe then (False, base, child)
        else
          (case cbb_len_form len of (len_len, initial_length_byte, len) \<Rightarrow>
           (case cbb_make_room env child_start len len_len base of (r, base) \<Rightarrow>
              if \<not> r then (False, base, child)
              else
                cbb_flush_len_bytes len (base_write (cbb_offset child) [initial_length_byte] base)
                  (CBB (cbb_child child) (cbb_offset child + 1) (len_len - 1)
                     (cbb_pending_is_asn1 child) (cbb_is_child child))))
      else cbb_flush_len_bytes len base child)"

fun CBB_flush :: "heap_env \<Rightarrow> base \<Rightarrow> cbb \<Rightarrow> bool \<times> cbbst" where
  "CBB_flush env base (CBB None offset pll asn1 is_child) =
     (case base of
        None \<Rightarrow> (False, base, CBB None offset pll asn1 is_child)
      | Some b \<Rightarrow> (\<not> b_error b, base, CBB None offset pll asn1 is_child))"
| "CBB_flush env base (CBB (Some child) offset pll asn1 is_child) =
     (let cbb = (\<lambda>child. CBB child offset pll asn1 is_child) in
      case base of
        None \<Rightarrow> (False, base, cbb (Some child))
      | Some b \<Rightarrow>
        if b_error b then (False, base, cbb (Some child))
        else if cbb_pending_len_len child = 0 then (True, base, cbb (Some child))
        else
          let child_start = size_add (cbb_offset child) (cbb_pending_len_len child) in
          (case CBB_flush env base child of (r, base, child) \<Rightarrow>
             if \<not> r \<or> child_start < cbb_offset child \<or> base_len base < child_start
             then (False, base_set_error base, cbb (Some child))
             else
               (case cbb_flush_pending env child_start base child of (r, base, child) \<Rightarrow>
                  if \<not> r then (False, base_set_error base, cbb (Some child))
                  else (True, base, cbb None))))"

definition cbb_flush :: "heap_env \<Rightarrow> cbbst \<Rightarrow> bool \<times> cbbst" where
  "cbb_flush env s = CBB_flush env (fst s) (snd s)"

text \<open>\<^verbatim>\<open>CBB_finish\<close> returns the buffer and the length through its out parameters; the flags say
  which of the two pointers is not null. The buffer leaves the builder, so the cleanup
  does not free it.\<close>

definition CBB_finish ::
    "heap_env \<Rightarrow> bool \<Rightarrow> bool \<Rightarrow> cbbst \<Rightarrow> (byte list option \<times> nat option) option \<times> cbbst" where
  "CBB_finish env out_data out_len s =
     (if cbb_is_child (snd s) then (None, s)
      else
        (case cbb_flush env s of (r, s) \<Rightarrow>
           if \<not> r then (None, s)
           else
             (case fst s of
                None \<Rightarrow> (None, s)
              | Some b \<Rightarrow>
                if b_can_resize b \<and> (\<not> out_data \<or> \<not> out_len) then (None, s)
                else
                  (Some (if out_data then Some (b_buf b) else None,
                         if out_len then Some (b_len b) else None),
                   CBB_cleanup (Some (b\<lparr>b_buf := []\<rparr>), snd s)))))"

text \<open>\<^verbatim>\<open>CBB_data\<close> and \<^verbatim>\<open>CBB_len\<close> require that no child is open.\<close>

definition CBB_data :: "cbbst \<Rightarrow> byte list" where
  "CBB_data s =
     (case s of (base, cbb) \<Rightarrow>
        case base of None \<Rightarrow> [] | Some b \<Rightarrow> drop (cbb_offset cbb + cbb_pending_len_len cbb) (b_buf b))"

definition CBB_len :: "cbbst \<Rightarrow> nat" where
  "CBB_len s =
     (case s of (base, cbb) \<Rightarrow> base_len base - cbb_offset cbb - cbb_pending_len_len cbb)"

subsection \<open>Adding data\<close>

text \<open>The end of the operations that open a child: the parent gets a fresh child whose length prefix
  starts at \<open>offset\<close>.\<close>

definition cbb_open_child :: "nat \<Rightarrow> nat \<Rightarrow> bool \<Rightarrow> cbbst \<Rightarrow> bool \<times> cbbst" where
  "cbb_open_child child_offset len_len is_asn1 s =
     (case s of (base, CBB _ offset pll asn1 is_child) \<Rightarrow>
        (True, base, CBB (Some (CBB None child_offset len_len is_asn1 True)) offset pll asn1 is_child))"

definition cbb_add_length_prefixed :: "heap_env \<Rightarrow> nat \<Rightarrow> cbbst \<Rightarrow> bool \<times> cbbst" where
  "cbb_add_length_prefixed env len_len s =
     seqb (cbb_flush env s) (\<lambda>s.
       let offset = base_len (fst s) in
       seqb (on_base (cbb_buffer_add env len_len) s) (\<lambda>(base, cbb).
         cbb_open_child offset len_len False (base_write offset (replicate len_len 0) base, cbb)))"

definition CBB_add_u8_length_prefixed :: "heap_env \<Rightarrow> cbbst \<Rightarrow> bool \<times> cbbst" where
  "CBB_add_u8_length_prefixed env s = cbb_add_length_prefixed env 1 s"

definition CBB_add_u16_length_prefixed :: "heap_env \<Rightarrow> cbbst \<Rightarrow> bool \<times> cbbst" where
  "CBB_add_u16_length_prefixed env s = cbb_add_length_prefixed env 2 s"

definition CBB_add_u24_length_prefixed :: "heap_env \<Rightarrow> cbbst \<Rightarrow> bool \<times> cbbst" where
  "CBB_add_u24_length_prefixed env s = cbb_add_length_prefixed env 3 s"

text \<open>The functions that add an integer differ in the width of their argument only.\<close>

definition CBB_add_u8 :: "heap_env \<Rightarrow> byte \<Rightarrow> cbbst \<Rightarrow> bool \<times> cbbst" where
  "CBB_add_u8 env value s = seqb (cbb_flush env s) (on_base (cbb_buffer_add_u env (ucast value) 1))"

definition CBB_add_u16 :: "heap_env \<Rightarrow> u16 \<Rightarrow> cbbst \<Rightarrow> bool \<times> cbbst" where
  "CBB_add_u16 env value s = seqb (cbb_flush env s) (on_base (cbb_buffer_add_u env (ucast value) 2))"

definition CBB_add_u16le :: "heap_env \<Rightarrow> u16 \<Rightarrow> cbbst \<Rightarrow> bool \<times> cbbst" where
  "CBB_add_u16le env value s = CBB_add_u16 env (CRYPTO_bswap2 value) s"

definition CBB_add_u24 :: "heap_env \<Rightarrow> u32 \<Rightarrow> cbbst \<Rightarrow> bool \<times> cbbst" where
  "CBB_add_u24 env value s = seqb (cbb_flush env s) (on_base (cbb_buffer_add_u env (ucast value) 3))"

definition CBB_add_u32 :: "heap_env \<Rightarrow> u32 \<Rightarrow> cbbst \<Rightarrow> bool \<times> cbbst" where
  "CBB_add_u32 env value s = seqb (cbb_flush env s) (on_base (cbb_buffer_add_u env (ucast value) 4))"

definition CBB_add_u32le :: "heap_env \<Rightarrow> u32 \<Rightarrow> cbbst \<Rightarrow> bool \<times> cbbst" where
  "CBB_add_u32le env value s = CBB_add_u32 env (CRYPTO_bswap4 value) s"

definition CBB_add_u64 :: "heap_env \<Rightarrow> u64 \<Rightarrow> cbbst \<Rightarrow> bool \<times> cbbst" where
  "CBB_add_u64 env value s = seqb (cbb_flush env s) (on_base (cbb_buffer_add_u env value 8))"

definition CBB_add_u64le :: "heap_env \<Rightarrow> u64 \<Rightarrow> cbbst \<Rightarrow> bool \<times> cbbst" where
  "CBB_add_u64le env value s = CBB_add_u64 env (CRYPTO_bswap8 value) s"

text \<open>\<open>base128_len\<close> is the first loop of \<^verbatim>\<open>add_base128_integer\<close>, \<open>add_base128_loop i\<close> the second one
  when \<open>i\<close> more bytes follow.\<close>

function base128_len :: "u64 \<Rightarrow> nat" where
  "base128_len copy = (if copy > 0 then Suc (base128_len (drop_bit 7 copy)) else 0)"
  by pat_completeness auto
termination
proof (relation "measure unat", goal_cases)
  case (2 copy)
  then have "0 < unat copy" by (simp add: word_less_nat_alt)
  then have "unat copy div 128 < unat copy" by (rule div_less_dividend [rotated]) simp
  then show ?case by (simp add: unat_drop_bit_div del: unsigned_drop_bit_eq)
qed simp

declare base128_len.simps [simp del]

fun add_base128_loop :: "heap_env \<Rightarrow> u64 \<Rightarrow> nat \<Rightarrow> cbbst \<Rightarrow> bool \<times> cbbst" where
  "add_base128_loop env v 0 s = (True, s)"
| "add_base128_loop env v (Suc i) s =
     (let b = (ucast (drop_bit (7 * i) v AND 0x7f) :: byte);
          b = (if i \<noteq> 0 then b OR 0x80 else b) in
      seqb (CBB_add_u8 env b s) (add_base128_loop env v i))"

definition add_base128_integer :: "heap_env \<Rightarrow> u64 \<Rightarrow> cbbst \<Rightarrow> bool \<times> cbbst" where
  "add_base128_integer env v s =
     (let len_len = base128_len v;
          len_len = (if len_len = 0 then 1 else len_len) in
      add_base128_loop env v len_len s)"

definition CBB_add_asn1 :: "heap_env \<Rightarrow> u32 \<Rightarrow> cbbst \<Rightarrow> bool \<times> cbbst" where
  "CBB_add_asn1 env tag s =
     seqb (cbb_flush env s) (\<lambda>s.
       let tag_bits = (ucast (drop_bit CBS_ASN1_TAG_SHIFT tag AND 0xe0) :: byte);
           tag_number = tag AND CBS_ASN1_TAG_NUMBER_MASK in
       seqb
         (if tag_number \<ge> 0x1f then
            seqb (CBB_add_u8 env (tag_bits OR 0x1f) s) (add_base128_integer env (ucast tag_number))
          else CBB_add_u8 env (tag_bits OR ucast tag_number) s) (\<lambda>s.
         let offset = base_len (fst s) in
         seqb (CBB_add_u8 env 0 s) (cbb_open_child offset 1 True)))"

definition CBB_add_bytes :: "heap_env \<Rightarrow> byte list \<Rightarrow> cbbst \<Rightarrow> bool \<times> cbbst" where
  "CBB_add_bytes env data s =
     seqb (cbb_flush env s) (\<lambda>s.
       let dest = base_len (fst s) in
       seqb (on_base (cbb_buffer_add env (length data)) s)
         (\<lambda>(base, cbb). (True, base_write dest data base, cbb)))"

text \<open>\<^verbatim>\<open>CBB_add_space\<close> and \<^verbatim>\<open>CBB_reserve\<close> hand out a pointer into the buffer; it is the length of
  the buffer before the call.\<close>

definition CBB_add_space :: "heap_env \<Rightarrow> nat \<Rightarrow> cbbst \<Rightarrow> bool \<times> cbbst" where
  "CBB_add_space env len s = seqb (cbb_flush env s) (on_base (cbb_buffer_add env len))"

definition CBB_add_zeros :: "heap_env \<Rightarrow> nat \<Rightarrow> cbbst \<Rightarrow> bool \<times> cbbst" where
  "CBB_add_zeros env len s =
     seqb (CBB_add_space env len s) (\<lambda>(base, cbb).
       let out = base_len base - len in (True, base_write out (replicate len 0) base, cbb))"

definition CBB_reserve :: "heap_env \<Rightarrow> nat \<Rightarrow> cbbst \<Rightarrow> bool \<times> cbbst" where
  "CBB_reserve env len s = seqb (cbb_flush env s) (on_base (cbb_buffer_reserve env len))"

definition CBB_did_write :: "nat \<Rightarrow> cbbst \<Rightarrow> bool \<times> cbbst" where
  "CBB_did_write len s =
     (case s of (base, cbb) \<Rightarrow>
        (case base of
           None \<Rightarrow> (False, s)
         | Some b \<Rightarrow>
           let newlen = size_add (b_len b) len in
           if cbb_child cbb \<noteq> None \<or> newlen < b_len b \<or> newlen > b_cap b then (False, s)
           else (True, Some (b\<lparr>b_len := newlen\<rparr>), cbb)))"

definition CBB_discard_child :: "cbbst \<Rightarrow> cbbst" where
  "CBB_discard_child s =
     (case s of (base, CBB child offset pll asn1 is_child) \<Rightarrow>
        (case child of
           None \<Rightarrow> s
         | Some ch \<Rightarrow>
           (map_option (\<lambda>b. b\<lparr>b_len := cbb_offset ch\<rparr>) base, CBB None offset pll asn1 is_child)))"

subsection \<open>ASN.1 values\<close>

text \<open>The loop of \<^verbatim>\<open>CBB_add_asn1_uint64\<close> over the eight bytes of the value, with \<open>n\<close> bytes left; it
  runs on the child and returns \<open>started\<close> as well.\<close>

fun asn1_uint64_bytes ::
    "heap_env \<Rightarrow> u64 \<Rightarrow> nat \<Rightarrow> bool \<Rightarrow> cbbst \<Rightarrow> bool \<times> bool \<times> cbbst" where
  "asn1_uint64_bytes env value 0 started s = (True, started, s)"
| "asn1_uint64_bytes env value (Suc n) started s =
     (let b = (ucast (drop_bit (8 * n) value AND 0xff) :: byte) in
      if \<not> started \<and> b = 0 then asn1_uint64_bytes env value n started s
      else
        (case (if \<not> started \<and> b AND 0x80 \<noteq> 0 then CBB_add_u8 env 0 s else (True, s)) of (r, s) \<Rightarrow>
           if \<not> r then (False, started, s)
           else
             (case CBB_add_u8 env b s of (r, s) \<Rightarrow>
                if \<not> r then (False, True, s) else asn1_uint64_bytes env value n True s)))"

definition asn1_uint64_body :: "heap_env \<Rightarrow> u64 \<Rightarrow> cbbst \<Rightarrow> bool \<times> cbbst" where
  "asn1_uint64_body env value s =
     (case asn1_uint64_bytes env value 8 False s of (r, started, s) \<Rightarrow>
        if \<not> r then (False, s)
        else if \<not> started then CBB_add_u8 env 0 s
        else (True, s))"

definition CBB_add_asn1_uint64 :: "heap_env \<Rightarrow> u64 \<Rightarrow> cbbst \<Rightarrow> bool \<times> cbbst" where
  "CBB_add_asn1_uint64 env value s =
     seqb (CBB_add_asn1 env CBS_ASN1_INTEGER s) (\<lambda>s.
       seqb (on_child (asn1_uint64_body env value) s) (cbb_flush env))"

text \<open>The bytes of the union \<^verbatim>\<open>u\<close> of \<^verbatim>\<open>CBB_add_asn1_int64\<close>, in memory order on a
  little-endian machine.\<close>

definition int64_bytes :: "int \<Rightarrow> byte list" where
  "int64_bytes value = rev (be_bytes 8 (unat (word_of_int value :: u64)))"

fun int64_start :: "byte list \<Rightarrow> nat \<Rightarrow> nat" where
  "int64_start u 0 = 0"
| "int64_start u (Suc n) = (if u ! Suc n = 0xff \<and> u ! n AND 0x80 \<noteq> 0 then int64_start u n else Suc n)"

fun add_bytes_down :: "heap_env \<Rightarrow> byte list \<Rightarrow> nat \<Rightarrow> cbbst \<Rightarrow> bool \<times> cbbst" where
  "add_bytes_down env u 0 s = (True, s)"
| "add_bytes_down env u (Suc i) s = seqb (CBB_add_u8 env (u ! i) s) (add_bytes_down env u i)"

definition CBB_add_asn1_int64 :: "heap_env \<Rightarrow> int \<Rightarrow> cbbst \<Rightarrow> bool \<times> cbbst" where
  "CBB_add_asn1_int64 env value s =
     (if value \<ge> 0 then CBB_add_asn1_uint64 env (word_of_int value) s
      else
        let u = int64_bytes value; start = int64_start u 7 in
        seqb (CBB_add_asn1 env CBS_ASN1_INTEGER s) (\<lambda>s.
          seqb (on_child (add_bytes_down env u (start + 1)) s) (cbb_flush env)))"

definition CBB_add_asn1_octet_string :: "heap_env \<Rightarrow> byte list \<Rightarrow> cbbst \<Rightarrow> bool \<times> cbbst" where
  "CBB_add_asn1_octet_string env data s =
     seqb (CBB_add_asn1 env CBS_ASN1_OCTETSTRING s) (\<lambda>s.
       seqb (on_child (CBB_add_bytes env data) s) (cbb_flush env))"

definition CBB_add_asn1_bool :: "heap_env \<Rightarrow> int \<Rightarrow> cbbst \<Rightarrow> bool \<times> cbbst" where
  "CBB_add_asn1_bool env value s =
     seqb (CBB_add_asn1 env CBS_ASN1_BOOLEAN s) (\<lambda>s.
       seqb (on_child (CBB_add_u8 env (if value \<noteq> 0 then 0xff else 0)) s) (cbb_flush env))"

subsection \<open>Object identifiers from text\<close>

text \<open>The state of the loop of \<^verbatim>\<open>parse_dotted_decimal\<close> is the value so far and \<open>seen_digit\<close>; the
  result is \<open>None\<close> for a malformed component.\<close>

fun dotted_decimal_loop :: "u64 \<Rightarrow> bool \<Rightarrow> cbs \<Rightarrow> u64 option \<times> cbs" where
  "dotted_decimal_loop out seen_digit [] = (if seen_digit then Some out else None, [])"
| "dotted_decimal_loop out seen_digit (u # cbs) =
     (if u = 46 \<and> CBS_len cbs > 0 then (if seen_digit then Some out else None, cbs)
      else if u < 48 \<or> u > 57 \<or> (seen_digit \<and> out = 0) \<or> out > (- 1) div 10 \<or>
          out * 10 > - 1 - ucast (u - 48) then (None, cbs)
      else dotted_decimal_loop (out * 10 + ucast (u - 48)) True cbs)"

definition parse_dotted_decimal :: "u64 reader" where
  "parse_dotted_decimal cbs = dotted_decimal_loop 0 False cbs"

lemma parse_dotted_decimal_shorter:
  "length (snd (dotted_decimal_loop out seen (u # cbs))) \<le> length cbs"
proof (induction cbs arbitrary: out seen u)
  case (Cons u' cbs)
  have "length (snd (dotted_decimal_loop (out * 10 + ucast (u - 48)) True (u' # cbs))) \<le> length cbs"
    by (rule Cons)
  then show ?case by (simp only: dotted_decimal_loop.simps(2) split: if_split) auto
qed simp

text \<open>The loop over the remaining components; the reader is empty at its end.\<close>

function oid_components_loop :: "heap_env \<Rightarrow> cbs \<Rightarrow> cbbst \<Rightarrow> bool \<times> cbbst" where
  "oid_components_loop env cbs s =
     (if CBS_len cbs > 0 then
        (case parse_dotted_decimal cbs of
           (None, cbs) \<Rightarrow> (False, s)
         | (Some a, cbs) \<Rightarrow> seqb (add_base128_integer env a s) (oid_components_loop env cbs))
      else (True, s))"
  by pat_completeness auto
termination
proof (relation "measure (\<lambda>(env, cbs, s). length cbs)", goal_cases)
  case (2 env cbs s y cbs' a s')
  then obtain u c where c: "cbs = u # c" by (cases cbs) (auto simp: CBS_len_def)
  with 2(2) have "cbs' = snd (dotted_decimal_loop 0 False (u # c))"
    by (simp only: parse_dotted_decimal_def) (metis snd_conv)
  with parse_dotted_decimal_shorter [of 0 False u c] c show ?case by simp
qed simp

declare oid_components_loop.simps [simp del]

definition CBB_add_asn1_oid_from_text :: "heap_env \<Rightarrow> byte list \<Rightarrow> nat \<Rightarrow> cbbst \<Rightarrow> bool \<times> cbbst" where
  "CBB_add_asn1_oid_from_text env text len s =
     seqb (cbb_flush env s) (\<lambda>s.
       let cbs = CBS_init text len in
       (case parse_dotted_decimal cbs of
          (None, cbs) \<Rightarrow> (False, s)
        | (Some a, cbs) \<Rightarrow>
       (case parse_dotted_decimal cbs of
          (None, cbs) \<Rightarrow> (False, s)
        | (Some b, cbs) \<Rightarrow>
          if a > 2 \<or> (a < 2 \<and> b > 39) \<or> b > - 1 - 80 then (False, s)
          else seqb (add_base128_integer env (40 * a + b) s) (oid_components_loop env cbs))))"

end
