(* ===== verification/Cbb_Spec.thy ===== *)
theory Cbb_Spec
  imports Cbb
begin

text \<open>
  What a \<^verbatim>\<open>CBB\<close> promises. The abstract value of a builder is the byte string it stands for
  (\<open>cbb_contents\<close>): the bytes of the buffer with every pending length prefix filled in from the
  contents that follow it. The contract \<open>cbb_appender\<close> says that an operation appends one
  byte string to this value, when it succeeds, and when it is bound to succeed;
  sequencing and nesting preserve the contract, and every writing operation of \<^verbatim>\<open>cbb.c\<close> meets it.
\<close>

subsection \<open>The abstract value\<close>

definition cbb_prefix :: "cbb \<Rightarrow> nat \<Rightarrow> byte list" where
  "cbb_prefix ch n = (if cbb_pending_is_asn1 ch then der_len n else be_bytes (cbb_pending_len_len ch) n)"

definition cbb_start :: "cbb \<Rightarrow> nat" where
  "cbb_start cbb = cbb_offset cbb + cbb_pending_len_len cbb"

definition fill_prefix :: "cbb \<Rightarrow> byte list \<Rightarrow> byte list" where
  "fill_prefix ch m =
     (let body = drop (cbb_start ch) m in take (cbb_offset ch) m @ cbb_prefix ch (length body) @ body)"

fun cbb_render :: "cbb \<Rightarrow> byte list \<Rightarrow> byte list" where
  "cbb_render (CBB None offset pll asn1 is_child) m = m"
| "cbb_render (CBB (Some ch) offset pll asn1 is_child) m = fill_prefix ch (cbb_render ch m)"

text \<open>A pending length is representable in the prefix set aside for it.\<close>

definition prefix_fits :: "cbb \<Rightarrow> nat \<Rightarrow> bool" where
  "prefix_fits ch n \<longleftrightarrow>
     (if cbb_pending_is_asn1 ch then n \<le> 0xfffffffe else n < 256 ^ cbb_pending_len_len ch)"

fun cbb_fits :: "cbb \<Rightarrow> byte list \<Rightarrow> bool" where
  "cbb_fits (CBB None offset pll asn1 is_child) m \<longleftrightarrow> True"
| "cbb_fits (CBB (Some ch) offset pll asn1 is_child) m \<longleftrightarrow>
     cbb_fits ch m \<and> prefix_fits ch (length (cbb_render ch m) - cbb_start ch)"

subsection \<open>Invariants\<close>

fun cbb_wf :: "nat \<Rightarrow> cbb \<Rightarrow> bool" where
  "cbb_wf n (CBB None offset pll asn1 is_child) \<longleftrightarrow> offset + pll \<le> n"
| "cbb_wf n (CBB (Some ch) offset pll asn1 is_child) \<longleftrightarrow>
     offset + pll \<le> cbb_offset ch \<and> 0 < cbb_pending_len_len ch \<and> cbb_pending_len_len ch \<le> 8 \<and>
     (cbb_pending_is_asn1 ch \<longrightarrow> cbb_pending_len_len ch = 1) \<and> cbb_wf n ch"

definition buf_ok :: "cbb_buffer \<Rightarrow> bool" where
  "buf_ok b \<longleftrightarrow> length (b_buf b) = b_cap b \<and> b_len b \<le> b_cap b \<and> b_cap b < SIZE_MOD \<and> \<not> b_error b"

definition cbb_bytes :: "cbb_buffer \<Rightarrow> byte list" where
  "cbb_bytes b = take (b_len b) (b_buf b)"

definition cbb_ok :: "cbb_buffer \<Rightarrow> cbb \<Rightarrow> bool" where
  "cbb_ok b cbb \<longleftrightarrow> buf_ok b \<and> cbb_wf (b_len b) cbb"

definition cbb_contents :: "cbb_buffer \<Rightarrow> cbb \<Rightarrow> byte list" where
  "cbb_contents b cbb = cbb_render cbb (cbb_bytes b)"

definition cbb_closed :: "cbb \<Rightarrow> cbb" where
  "cbb_closed cbb =
     CBB None (cbb_offset cbb) (cbb_pending_len_len cbb) (cbb_pending_is_asn1 cbb) (cbb_is_child cbb)"

text \<open>\<open>holds b c b'\<close>: \<open>b'\<close> is the buffer \<open>b\<close> after a write that made its contents \<open>c\<close>.\<close>

definition holds :: "cbb_buffer \<Rightarrow> byte list \<Rightarrow> cbb_buffer \<Rightarrow> bool" where
  "holds b c b' \<longleftrightarrow> buf_ok b' \<and> cbb_bytes b' = c \<and> b_can_resize b' = b_can_resize b"

text \<open>The buffer can take \<open>N\<close> bytes in all: it is large enough, or the allocator serves every request
  up to twice that size. The bound on the capacity is what the doubling of \<^verbatim>\<open>cbb_buffer_reserve\<close>
  maintains.\<close>

definition roomy :: "heap_env \<Rightarrow> nat \<Rightarrow> cbb_buffer \<Rightarrow> bool" where
  "roomy env N b \<longleftrightarrow> N < SIZE_MOD \<and>
     (N \<le> b_cap b \<or>
      b_can_resize b \<and> b_cap b \<le> 2 * N \<and> N \<le> 2 ^ 62 \<and> (\<forall>n \<le> 2 * N + 8. h_ok env n))"

subsection \<open>Lemmas on sequencing and on memory\<close>

lemma seqb_simps [simp]: "seqb (True, s) f = f s" "seqb (False, s) f = (False, s)"
  by (simp_all add: seqb_def)

lemma seqb_True_iff: "seqb m f = (True, t) \<longleftrightarrow> (\<exists>s. m = (True, s) \<and> f s = (True, t))"
  by (auto simp: seqb_def split: prod.splits)

lemma seqb_False_iff:
  "seqb m f = (False, t) \<longleftrightarrow> m = (False, t) \<or> (\<exists>s. m = (True, s) \<and> f s = (False, t))"
  by (auto simp: seqb_def split: prod.splits)

lemma seqb_assoc: "seqb (seqb m f) g = seqb m (\<lambda>s. seqb (f s) g)"
  by (auto simp: seqb_def split: prod.splits)

lemma mem_write_snoc:
  "off + length xs < length m \<Longrightarrow> mem_write off (xs @ [x]) m = mem_write off xs (m[off + length xs := x])"
  by (simp add: mem_write_def drop_update_cancel)
    (metis Cons_nth_drop_Suc drop_Suc list.sel(3) length_list_update nth_list_update_eq drop_update_swap
      drop_update_cancel lessI)

lemma store_be_loop_eq:
  "off + n \<le> length m \<Longrightarrow>
   store_be_loop off v m n = (drop_bit (8 * n) v, mem_write off (be_bytes n (unat v)) m)"
proof (induction n arbitrary: v m)
  case (Suc n)
  have b: "(word_of_nat (unat v) :: byte) = ucast v"
    by (simp only: of_nat_unat)
  have "store_be_loop off v m (Suc n) =
      (drop_bit (8 * n) (drop_bit 8 v), mem_write off (be_bytes n (unat v div 256)) (m[off + n := ucast v]))"
    using Suc by (simp add: unat_drop_bit_div)
  also have "\<dots> = (drop_bit (8 * Suc n) v, mem_write off (be_bytes (Suc n) (unat v)) m)"
    using Suc.prems mem_write_snoc [of off "be_bytes n (unat v div 256)" m "ucast v"]
    by (simp add: b add.commute)
  finally show ?case .
qed simp

lemma length_cbb_bytes [simp]: "buf_ok b \<Longrightarrow> length (cbb_bytes b) = b_len b"
  by (simp add: cbb_bytes_def buf_ok_def)

subsection \<open>The buffer\<close>

lemma reserve_sound:
  assumes "buf_ok b" "n < SIZE_MOD" "cbb_buffer_reserve env n (Some b) = (True, base')"
  shows "\<exists>b'. base' = Some b' \<and> holds b (cbb_bytes b) b' \<and> b_len b' = b_len b \<and> b_len b + n \<le> b_cap b'"
proof -
  let ?new = "size_add (b_len b) n"
  have lt: "b_len b < SIZE_MOD" using assms(1) by (simp add: buf_ok_def)
  have "\<not> ?new < b_len b" using assms(3) by (auto simp: cbb_buffer_reserve_def Let_def)
  then have new: "?new = b_len b + n" "b_len b + n < SIZE_MOD"
    using size_add_wraps_iff [OF lt assms(2)] by (auto intro: size_add_no_wrap)
  show ?thesis
  proof (cases "b_len b + n \<le> b_cap b")
    case True
    then show ?thesis using assms new by (auto simp: cbb_buffer_reserve_def holds_def)
  next
    case False
    define cap' where "cap' = (if size_mul (b_cap b) 2 < b_cap b \<or> size_mul (b_cap b) 2 < b_len b + n
      then b_len b + n else size_mul (b_cap b) 2)"
    from assms(3) False new obtain m where m: "OPENSSL_realloc env (Some (b_buf b)) cap' = Some m"
      and base': "base' = Some (b\<lparr>b_buf := m, b_cap := cap'\<rparr>)"
      by (auto simp: cbb_buffer_reserve_def Let_def cap'_def split: if_split_asm option.split_asm)
    have cap': "b_len b + n \<le> cap'" "b_cap b \<le> cap'" "cap' < SIZE_MOD"
      using False new by (auto simp: cap'_def size_mul_def)
    then have m': "length m = cap'" "take (b_cap b) m = b_buf b"
      using OPENSSL_realloc_grow [OF m] assms(1) by (auto simp: buf_ok_def)
    then have "take (b_len b) m = take (b_len b) (b_buf b)"
      using assms(1) by (auto simp: buf_ok_def min_def simp flip: m'(2))
    then show ?thesis using base' m' cap' assms(1)
      by (simp add: holds_def buf_ok_def cbb_bytes_def)
  qed
qed

lemma reserve_complete:
  assumes "buf_ok b" "roomy env N b" "b_len b + n \<le> N"
  shows "\<exists>b'. cbb_buffer_reserve env n (Some b) = (True, Some b') \<and> roomy env N b'"
proof -
  have new: "size_add (b_len b) n = b_len b + n"
    using assms by (intro size_add_no_wrap) (auto simp: roomy_def)
  show ?thesis
  proof (cases "b_len b + n \<le> b_cap b")
    case True
    then show ?thesis using assms new by (simp add: cbb_buffer_reserve_def)
  next
    case False
    with assms have r: "b_can_resize b" "N \<le> 2 ^ 62" "\<forall>n \<le> 2 * N + 8. h_ok env n" "b_cap b < N"
      by (auto simp: roomy_def)
    define cap' where "cap' = (if size_mul (b_cap b) 2 < b_cap b \<or> size_mul (b_cap b) 2 < b_len b + n
      then b_len b + n else size_mul (b_cap b) 2)"
    have "size_mul (b_cap b) 2 = b_cap b * 2"
      using r by (intro size_mul_no_wrap) (simp add: SIZE_MOD_def)
    then have cap': "cap' \<le> 2 * N" using r assms(3) by (auto simp: cap'_def)
    then have no_wrap: "size_add cap' 8 = cap' + 8"
      using r by (intro size_add_no_wrap) (simp add: SIZE_MOD_def)
    have "h_ok env (cap' + 8)" using cap' r by simp
    then obtain m where m: "OPENSSL_realloc env (Some (b_buf b)) cap' = Some m"
      using no_wrap by (simp add: OPENSSL_realloc_def OPENSSL_malloc_def)
    have "cbb_buffer_reserve env n (Some b) = (True, Some (b\<lparr>b_buf := m, b_cap := cap'\<rparr>))"
      using False new r m by (auto simp: cbb_buffer_reserve_def Let_def cap'_def)
    moreover have "roomy env N (b\<lparr>b_buf := m, b_cap := cap'\<rparr>)"
      using assms cap' r by (simp add: roomy_def)
    ultimately show ?thesis by blast
  qed
qed

lemma reserve_failed:
  "cbb_buffer_reserve env n (Some b) = (False, base') \<Longrightarrow> \<exists>b'. base' = Some b' \<and> b_error b'"
  by (auto simp: cbb_buffer_reserve_def base_set_error_def Let_def split: if_split_asm option.split_asm)

lemma buffer_add_sound:
  assumes "buf_ok b" "n < SIZE_MOD" "cbb_buffer_add env n (Some b) = (True, base')"
  shows "\<exists>b'. base' = Some b' \<and> buf_ok b' \<and> b_len b' = b_len b + n \<and> b_can_resize b' = b_can_resize b \<and>
    take (b_len b) (b_buf b') = cbb_bytes b"
  using assms(3) reserve_sound [OF assms(1,2), of env]
  by (auto simp: cbb_buffer_add_def seqb_True_iff holds_def buf_ok_def cbb_bytes_def)

lemma buffer_add_complete:
  assumes "buf_ok b" "roomy env N b" "b_len b + n \<le> N"
  shows "\<exists>b'. cbb_buffer_add env n (Some b) = (True, Some b') \<and> roomy env N b'"
proof -
  obtain b' where "cbb_buffer_reserve env n (Some b) = (True, Some b')" "roomy env N b'"
    using reserve_complete [OF assms] by blast
  then show ?thesis by (simp add: cbb_buffer_add_def roomy_def)
qed

lemma buffer_add_failed:
  "cbb_buffer_add env n (Some b) = (False, base') \<Longrightarrow> \<exists>b'. base' = Some b' \<and> b_error b'"
  by (auto simp: cbb_buffer_add_def seqb_False_iff dest: reserve_failed)

subsection \<open>Flushing a pending prefix\<close>

lemma take_mem_write_within:
  "off + length bs \<le> n \<Longrightarrow> n \<le> length m \<Longrightarrow> take n (mem_write off bs m) = mem_write off bs (take n m)"
  by (cases "n = off") (auto simp: mem_write_def take_drop min_def)

lemma cbb_len_form_eq:
  assumes "cbb_len_form n = (k, h, n')" "n < 2 ^ 32"
  shows "0 < k" "k \<le> 5" "der_len n = h # be_bytes (k - 1) n'" "n' < 256 ^ (k - 1)" "k \<noteq> 1 \<Longrightarrow> n' = n"
    "n' \<le> n"
  using assms by (auto simp: cbb_len_form_def der_len_def split: if_split_asm)

lemma length_der_len: "0 < length (der_len n)"
  by (simp add: der_len_def)

lemma length_cbb_prefix:
  "(cbb_pending_is_asn1 ch \<longrightarrow> cbb_pending_len_len ch = 1) \<Longrightarrow>
   cbb_pending_len_len ch \<le> length (cbb_prefix ch n)"
  using length_der_len [of n] by (auto simp: cbb_prefix_def Suc_le_eq)

lemma cbb_start_simps [simp]: "cbb_start (CBB c off pll a i) = off + pll"
  by (simp add: cbb_start_def)

lemma cbb_closed_simps [simp]:
  "cbb_closed (CBB c off pll a i) = CBB None off pll a i"
  "cbb_start (cbb_closed cbb) = cbb_start cbb" "cbb_prefix (cbb_closed cbb) = cbb_prefix cbb"
  "cbb_offset (cbb_closed cbb) = cbb_offset cbb"
  "cbb_pending_len_len (cbb_closed cbb) = cbb_pending_len_len cbb"
  "cbb_pending_is_asn1 (cbb_closed cbb) = cbb_pending_is_asn1 cbb"
  "prefix_fits (cbb_closed cbb) = prefix_fits cbb" "fill_prefix (cbb_closed cbb) = fill_prefix cbb"
  "cbb_closed (cbb_closed cbb) = cbb_closed cbb" "cbb_child (cbb_closed cbb) = None"
  "cbb_render (cbb_closed cbb) m = m" "cbb_fits (cbb_closed cbb) m"
  by (auto simp: cbb_closed_def cbb_start_def cbb_prefix_def prefix_fits_def fill_prefix_def Let_def fun_eq_iff)

lemma length_fill_prefix:
  "cbb_start ch \<le> length m \<Longrightarrow>
   length (fill_prefix ch m) =
     cbb_offset ch + length (cbb_prefix ch (length m - cbb_start ch)) + (length m - cbb_start ch)"
  by (simp add: fill_prefix_def cbb_start_def)

lemma cbb_render_length:
  "cbb_wf (length m) cbb \<Longrightarrow>
   length m \<le> length (cbb_render cbb m) \<and> cbb_start cbb \<le> length (cbb_render cbb m)"
proof (induction cbb m rule: cbb_render.induct)
  case (2 ch off pll a i m)
  then have ch: "length m \<le> length (cbb_render ch m)" "cbb_start ch \<le> length (cbb_render ch m)"
    and wf: "off + pll \<le> cbb_offset ch" "cbb_pending_is_asn1 ch \<longrightarrow> cbb_pending_len_len ch = 1"
    by simp_all
  from length_cbb_prefix [OF wf(2)] length_fill_prefix [OF ch(2)]
  have "length (cbb_render ch m) \<le> length (fill_prefix ch (cbb_render ch m))"
    by (simp add: cbb_start_def) (metis add_le_mono le_add_diff_inverse le_refl ch(2) cbb_start_def
        add.assoc add_le_cancel_left)
  then show ?case using ch wf by (simp add: cbb_start_def)
qed simp

lemma flush_len_bytes_eq:
  assumes "buf_ok b" "cbb_start ch \<le> b_len b" "n < SIZE_MOD"
  shows "\<exists>b'. cbb_flush_len_bytes n (Some b) ch = (n < 256 ^ cbb_pending_len_len ch, Some b', ch) \<and>
    holds b (mem_write (cbb_offset ch) (be_bytes (cbb_pending_len_len ch) n) (cbb_bytes b)) b' \<and>
    b_cap b' = b_cap b"
proof -
  have u: "unat (word_of_nat n :: u64) = n"
    using assms(3) by (simp add: SIZE_MOD_def unat_word_of_nat_lt)
  have z: "drop_bit (8 * k) (word_of_nat n :: u64) = 0 \<longleftrightarrow> n < 256 ^ k" for k
    unfolding drop_bit_eq_0_iff_unat u by (simp add: power_mult)
  have le: "cbb_offset ch + cbb_pending_len_len ch \<le> b_len b" "b_len b \<le> length (b_buf b)"
    using assms by (simp_all add: cbb_start_def buf_ok_def)
  define m where "m = mem_write (cbb_offset ch) (be_bytes (cbb_pending_len_len ch) n) (b_buf b)"
  have "cbb_flush_len_bytes n (Some b) ch =
      (n < 256 ^ cbb_pending_len_len ch, Some (b\<lparr>b_buf := m\<rparr>), ch)"
    using le by (simp add: cbb_flush_len_bytes_def store_be_loop_eq z u m_def)
  moreover have "holds b (mem_write (cbb_offset ch) (be_bytes (cbb_pending_len_len ch) n) (cbb_bytes b))
      (b\<lparr>b_buf := m\<rparr>)"
    using assms(1) le by (simp add: holds_def buf_ok_def cbb_bytes_def m_def length_mem_write
        take_mem_write_within)
  ultimately show ?thesis by (metis cbb_buffer.select_convs(3) cbb_buffer.update_convs(1) cbb_buffer.surjective)
qed

lemma make_room_sound:
  assumes "buf_ok b" "start \<le> b_len b" "0 < k" "k \<le> 5" "k \<noteq> 1 \<Longrightarrow> n = b_len b - start"
    "cbb_make_room env start n k (Some b) = (True, base')"
  shows "\<exists>b'. base' = Some b' \<and> buf_ok b' \<and> b_len b' = b_len b + (k - 1) \<and>
    b_can_resize b' = b_can_resize b \<and> take start (b_buf b') = take start (cbb_bytes b) \<and>
    drop (start + (k - 1)) (cbb_bytes b') = drop start (cbb_bytes b)"
proof (cases "k = 1")
  case True
  then show ?thesis using assms by (auto simp: cbb_make_room_def cbb_bytes_def min_def)
next
  case False
  then have n: "n = b_len b - start" using assms by simp
  have k: "k - 1 < SIZE_MOD" using assms by (simp add: SIZE_MOD_def)
  from assms(6) False obtain base1 where add: "cbb_buffer_add env (k - 1) (Some b) = (True, base1)"
    and base': "base' = map_option (\<lambda>b. b\<lparr>b_buf :=
      mem_write (start + (k - 1)) (take n (drop start (b_buf b))) (b_buf b)\<rparr>) base1"
    by (auto simp: cbb_make_room_def seqb_True_iff Let_def)
  from buffer_add_sound [OF assms(1) k add] obtain b1 where
    b1: "base1 = Some b1" "buf_ok b1" "b_len b1 = b_len b + (k - 1)" "b_can_resize b1 = b_can_resize b"
      "take (b_len b) (b_buf b1) = cbb_bytes b"
    by auto
  have body: "take n (drop start (b_buf b1)) = drop start (cbb_bytes b)"
    using n assms(2) by (simp add: take_drop flip: b1(5))
  have len: "length (drop start (cbb_bytes b)) = n" using n assms(1) by simp
  define b' where "b' = b1\<lparr>b_buf := mem_write (start + (k - 1)) (drop start (cbb_bytes b)) (b_buf b1)\<rparr>"
  have room: "start + (k - 1) + n = b_len b1" "b_len b1 \<le> length (b_buf b1)" "b_len b \<le> length (b_buf b1)"
    using b1 n assms(2) by (auto simp: buf_ok_def)
  have "base' = Some b'" by (simp add: base' b1 body b'_def)
  moreover have "buf_ok b'" using b1(2) room len by (simp add: buf_ok_def b'_def length_mem_write)
  moreover have "take start (b_buf b') = take start (cbb_bytes b)"
    using assms(2) room by (simp add: b'_def mem_write_def min_def flip: b1(5))
  moreover have "drop (start + (k - 1)) (cbb_bytes b') = drop start (cbb_bytes b)"
    using room len by (auto simp: b'_def cbb_bytes_def mem_write_def min_def)
  ultimately show ?thesis using b1(3,4) by (simp add: b'_def)
qed

lemma make_room_complete:
  assumes "buf_ok b" "roomy env N b" "b_len b + (k - 1) \<le> N"
  shows "\<exists>b'. cbb_make_room env start n k (Some b) = (True, Some b') \<and> roomy env N b'"
  using buffer_add_complete [OF assms] assms(2) by (auto simp: cbb_make_room_def Let_def roomy_def)

lemma roomy_mono: "roomy env N b \<Longrightarrow> b_cap b' = b_cap b \<Longrightarrow> b_can_resize b' = b_can_resize b \<Longrightarrow> roomy env N b'"
  by (simp add: roomy_def)

text \<open>The prefix of an ASN.1 child, once the room for it is there.\<close>

lemma asn1_prefix_written:
  assumes b1: "buf_ok b1" "b_len b1 = b_len b + (k - 1)" "b_can_resize b1 = b_can_resize b"
      "take (cbb_start ch) (b_buf b1) = take (cbb_start ch) (cbb_bytes b)"
      "drop (cbb_start ch + (k - 1)) (cbb_bytes b1) = drop (cbb_start ch) (cbb_bytes b)"
    and b: "buf_ok b" "cbb_start ch \<le> b_len b" "cbb_pending_is_asn1 ch" "cbb_pending_len_len ch = 1"
    and form: "cbb_len_form (b_len b - cbb_start ch) = (k, h, n)" "b_len b - cbb_start ch < 2 ^ 32"
  shows "\<exists>b' ch'. cbb_flush_len_bytes n (base_write (cbb_offset ch) [h] (Some b1))
      (CBB c (cbb_offset ch + 1) (k - 1) a i) = (True, Some b', ch') \<and>
    holds b (fill_prefix ch (cbb_bytes b)) b' \<and> b_cap b' = b_cap b1"
proof -
  let ?off = "cbb_offset ch" and ?ch' = "CBB c (cbb_offset ch + 1) (k - 1) a i"
  note k = cbb_len_form_eq [OF form]
  define b2 where "b2 = b1\<lparr>b_buf := mem_write ?off [h] (b_buf b1)\<rparr>"
  have start: "cbb_start ch = ?off + 1" using b by (simp add: cbb_start_def)
  have le: "?off + 1 + (k - 1) \<le> b_len b1" "b_len b1 \<le> length (b_buf b1)"
    using b1 b start by (auto simp: buf_ok_def)
  have b2: "buf_ok b2" "b_len b2 = b_len b1" "cbb_bytes b2 = mem_write ?off [h] (cbb_bytes b1)"
    using b1(1) le by (simp_all add: b2_def buf_ok_def cbb_bytes_def length_mem_write take_mem_write_within)
  have n: "n < SIZE_MOD" using k(6) form(2) by (simp add: SIZE_MOD_def)
  have st: "cbb_start ?ch' \<le> b_len b2" using b2 le by simp
  from flush_len_bytes_eq [OF b2(1) st n] k(4) obtain b' where
    fl: "cbb_flush_len_bytes n (Some b2) ?ch' = (True, Some b', ?ch')"
    and h: "holds b2 (mem_write (?off + 1) (be_bytes (k - 1) n) (cbb_bytes b2)) b'" "b_cap b' = b_cap b2"
    by auto
  have tk: "take ?off (cbb_bytes b1) = take ?off (cbb_bytes b)"
    using arg_cong [OF b1(4), of "take ?off"] start le by (simp add: cbb_bytes_def min_def)
  have len1: "length (cbb_bytes b1) = b_len b1" using b1 by simp
  have lenb: "?off < length (cbb_bytes b)" using b start by simp
  have dr: "drop (Suc (?off + (k - Suc 0))) (cbb_bytes b1) = drop (Suc ?off) (cbb_bytes b)"
    using b1(5) start by simp
  have "mem_write (?off + 1) (be_bytes (k - 1) n) (cbb_bytes b2) =
      take ?off (cbb_bytes b) @ h # be_bytes (k - 1) n @ drop (cbb_start ch) (cbb_bytes b)"
    using le len1 lenb start dr by (simp add: b2(3) mem_write_def tk min_def add.commute)
  also have "\<dots> = fill_prefix ch (cbb_bytes b)"
    using b k(3) by (simp add: fill_prefix_def cbb_prefix_def)
  finally show ?thesis
    using fl h b1(3) by (auto simp: b2_def base_write_def holds_def)
qed

definition child_ok :: "nat \<Rightarrow> cbb \<Rightarrow> bool" where
  "child_ok n ch \<longleftrightarrow> cbb_start ch \<le> n \<and> 0 < cbb_pending_len_len ch \<and> cbb_pending_len_len ch \<le> 8 \<and>
     (cbb_pending_is_asn1 ch \<longrightarrow> cbb_pending_len_len ch = 1)"

lemma flush_pending_plain:
  assumes "buf_ok b" "child_ok (b_len b) ch" "\<not> cbb_pending_is_asn1 ch"
  shows "\<exists>b' ch'. cbb_flush_pending env (cbb_start ch) (Some b) ch =
      (prefix_fits ch (b_len b - cbb_start ch), Some b', ch') \<and>
    holds b (fill_prefix ch (cbb_bytes b)) b' \<and> b_cap b' = b_cap b"
proof -
  let ?n = "b_len b - cbb_start ch"
  have "cbb_start ch \<le> b_len b" "?n < SIZE_MOD"
    using assms by (auto simp: child_ok_def buf_ok_def)
  from flush_len_bytes_eq [OF assms(1) this] obtain b' where
    "cbb_flush_len_bytes ?n (Some b) ch = (?n < 256 ^ cbb_pending_len_len ch, Some b', ch)"
    "holds b (mem_write (cbb_offset ch) (be_bytes (cbb_pending_len_len ch) ?n) (cbb_bytes b)) b'"
    "b_cap b' = b_cap b"
    by auto
  then show ?thesis using assms
    by (simp add: cbb_flush_pending_def base_len_def prefix_fits_def fill_prefix_def cbb_prefix_def
        mem_write_def cbb_start_def)
qed

lemma flush_pending_sound:
  assumes b: "buf_ok b" "child_ok (b_len b) ch"
    and fl: "cbb_flush_pending env (cbb_start ch) (Some b) ch = (True, base', ch')"
  shows "prefix_fits ch (b_len b - cbb_start ch) \<and>
    (\<exists>b'. base' = Some b' \<and> holds b (fill_prefix ch (cbb_bytes b)) b')"
proof (cases "cbb_pending_is_asn1 ch")
  case False
  then show ?thesis using flush_pending_plain [OF b False, of env] fl by auto
next
  case True
  let ?n = "b_len b - cbb_start ch"
  obtain k h n where form: "cbb_len_form ?n = (k, h, n)" by (metis prod_cases3)
  have lim: "?n \<le> 0xfffffffe"
    using fl True by (auto simp: cbb_flush_pending_def base_len_def Let_def split: if_split_asm)
  then have lt: "?n < 2 ^ 32" by simp
  note k = cbb_len_form_eq [OF form lt]
  from fl True lim form obtain base1 where room: "cbb_make_room env (cbb_start ch) n k (Some b) = (True, base1)"
    and wr: "cbb_flush_len_bytes n (base_write (cbb_offset ch) [h] base1)
      (CBB (cbb_child ch) (cbb_offset ch + 1) (k - 1) True (cbb_is_child ch)) = (True, base', ch')"
    by (auto simp: cbb_flush_pending_def base_len_def split: prod.split_asm if_split_asm)
  have st: "cbb_start ch \<le> b_len b" "cbb_pending_len_len ch = 1" using b True by (auto simp: child_ok_def)
  from make_room_sound [OF b(1) st(1) k(1,2) _ room] k(5) obtain b1 where
    b1: "base1 = Some b1" "buf_ok b1" "b_len b1 = b_len b + (k - 1)" "b_can_resize b1 = b_can_resize b"
      "take (cbb_start ch) (b_buf b1) = take (cbb_start ch) (cbb_bytes b)"
      "drop (cbb_start ch + (k - 1)) (cbb_bytes b1) = drop (cbb_start ch) (cbb_bytes b)"
    by auto
  from asn1_prefix_written [OF b1(2-6) b(1) st(1) True st(2) form lt,
      of "cbb_child ch" True "cbb_is_child ch"] wr b1(1) True lim
  show ?thesis by (auto simp: prefix_fits_def)
qed

lemma flush_pending_complete:
  assumes b: "buf_ok b" "child_ok (b_len b) ch" and fits: "prefix_fits ch (b_len b - cbb_start ch)"
    and room: "roomy env N b" "length (fill_prefix ch (cbb_bytes b)) \<le> N"
  shows "\<exists>b' ch'. cbb_flush_pending env (cbb_start ch) (Some b) ch = (True, Some b', ch') \<and> roomy env N b'"
proof (cases "cbb_pending_is_asn1 ch")
  case False
  then show ?thesis
    using flush_pending_plain [OF b False, of env] fits room(1) by (auto simp: holds_def intro: roomy_mono)
next
  case True
  let ?n = "b_len b - cbb_start ch"
  obtain k h n where form: "cbb_len_form ?n = (k, h, n)" by (metis prod_cases3)
  have lim: "?n \<le> 0xfffffffe" using fits True by (simp add: prefix_fits_def)
  then have lt: "?n < 2 ^ 32" by simp
  note k = cbb_len_form_eq [OF form lt]
  have st: "cbb_start ch \<le> b_len b" "cbb_pending_len_len ch = 1" using b True by (auto simp: child_ok_def)
  have "length (fill_prefix ch (cbb_bytes b)) = cbb_offset ch + k + ?n"
    using b(1) st k(1,3) True by (simp add: length_fill_prefix cbb_prefix_def)
  then have "b_len b + (k - 1) \<le> N" using room(2) st k(1) by (simp add: cbb_start_def)
  from make_room_complete [OF b(1) room(1) this] obtain b1 where
    mr: "cbb_make_room env (cbb_start ch) n k (Some b) = (True, Some b1)" "roomy env N b1"
    by blast
  from make_room_sound [OF b(1) st(1) k(1,2) _ mr(1)] k(5) have
    b1: "buf_ok b1" "b_len b1 = b_len b + (k - 1)" "b_can_resize b1 = b_can_resize b"
      "take (cbb_start ch) (b_buf b1) = take (cbb_start ch) (cbb_bytes b)"
      "drop (cbb_start ch + (k - 1)) (cbb_bytes b1) = drop (cbb_start ch) (cbb_bytes b)"
    by auto
  from asn1_prefix_written [OF b1 b(1) st(1) True st(2) form lt,
      of "cbb_child ch" True "cbb_is_child ch"] obtain b' ch' where
    wr: "cbb_flush_len_bytes n (base_write (cbb_offset ch) [h] (Some b1))
      (CBB (cbb_child ch) (cbb_offset ch + 1) (k - 1) True (cbb_is_child ch)) = (True, Some b', ch')"
    and h: "holds b (fill_prefix ch (cbb_bytes b)) b'" "b_cap b' = b_cap b1"
    by blast
  have "roomy env N b'" using mr(2) h b1(3) by (auto simp: holds_def intro: roomy_mono)
  then show ?thesis using True lim form mr(1) wr by (simp add: cbb_flush_pending_def base_len_def)
qed

subsection \<open>The contract of a writer\<close>

locale buffer_appender =
  fixes f :: "heap_env \<Rightarrow> base \<Rightarrow> bool \<times> base"
    and d :: "byte list"
    and ok :: bool
  assumes buf_sound: "buf_ok b \<Longrightarrow> length d < SIZE_MOD \<Longrightarrow> f env (Some b) = (True, base') \<Longrightarrow>
      ok \<and> (\<exists>b'. base' = Some b' \<and> holds b (cbb_bytes b @ d) b')"
    and buf_complete: "buf_ok b \<Longrightarrow> ok \<Longrightarrow> roomy env N b \<Longrightarrow> b_len b + length d \<le> N \<Longrightarrow>
      \<exists>b'. f env (Some b) = (True, Some b') \<and> roomy env N b'"
    and buf_failed: "f env (Some b) = (False, base') \<Longrightarrow> \<exists>b'. base' = Some b' \<and> b_error b'"

locale cbb_appender =
  fixes op :: "heap_env \<Rightarrow> cbbst \<Rightarrow> bool \<times> cbbst"
    and d :: "byte list"
    and ok :: bool
  assumes sound: "cbb_ok b cbb \<Longrightarrow> length d < SIZE_MOD \<Longrightarrow> op env (Some b, cbb) = (True, s') \<Longrightarrow>
      ok \<and> cbb_fits cbb (cbb_bytes b) \<and>
      (\<exists>b'. s' = (Some b', cbb_closed cbb) \<and> holds b (cbb_contents b cbb @ d) b')"
    and complete: "cbb_ok b cbb \<Longrightarrow> ok \<Longrightarrow> cbb_fits cbb (cbb_bytes b) \<Longrightarrow> roomy env N b \<Longrightarrow>
      length (cbb_contents b cbb @ d) \<le> N \<Longrightarrow>
      \<exists>b'. op env (Some b, cbb) = (True, Some b', cbb_closed cbb) \<and> roomy env N b'"
    and failed: "cbb_ok b cbb \<Longrightarrow> length d < SIZE_MOD \<Longrightarrow> op env (Some b, cbb) = (False, base', cbb') \<Longrightarrow>
      \<exists>b'. base' = Some b' \<and> b_error b'"
    and sticky: "b_error b \<Longrightarrow> op env (Some b, cbb) = (False, Some b, cbb)"

lemma holds_len: "holds b c b' \<Longrightarrow> b_len b' = length c"
  by (metis holds_def length_cbb_bytes)

lemma cbb_wf_start: "cbb_wf n cbb \<Longrightarrow> cbb_start cbb \<le> n"
  by (induction n cbb rule: cbb_wf.induct) (auto simp: cbb_start_def)

lemma cbb_ok_closed: "holds b (cbb_contents b cbb @ d) b' \<Longrightarrow> cbb_ok b cbb \<Longrightarrow> cbb_ok b' (cbb_closed cbb)"
proof -
  assume h: "holds b (cbb_contents b cbb @ d) b'" and ok: "cbb_ok b cbb"
  from h have len: "b_len b' = length (cbb_contents b cbb) + length d"
    by (metis holds_def length_append length_cbb_bytes)
  have "cbb_start cbb \<le> length (cbb_contents b cbb)"
    using cbb_render_length [of "cbb_bytes b" cbb] ok by (simp add: cbb_ok_def cbb_contents_def)
  then show "cbb_ok b' (cbb_closed cbb)"
    using h len by (simp add: cbb_ok_def holds_def cbb_closed_def cbb_start_def)
qed

lemma cbb_contents_closed [simp]: "cbb_contents b (cbb_closed cbb) = cbb_bytes b"
  by (simp add: cbb_contents_def)

text \<open>The weaker contract of a step that is only run when no child is open, such as the filling of a child that
  has just been opened. Doing nothing meets it.\<close>

locale closed_appender =
  fixes op :: "heap_env \<Rightarrow> cbbst \<Rightarrow> bool \<times> cbbst"
    and d :: "byte list"
    and ok :: bool
  assumes csound: "cbb_ok b cbb \<Longrightarrow> cbb_closed cbb = cbb \<Longrightarrow> length d < SIZE_MOD \<Longrightarrow>
      op env (Some b, cbb) = (True, s') \<Longrightarrow>
      ok \<and> (\<exists>b'. s' = (Some b', cbb) \<and> holds b (cbb_bytes b @ d) b')"
    and ccomplete: "cbb_ok b cbb \<Longrightarrow> cbb_closed cbb = cbb \<Longrightarrow> ok \<Longrightarrow> roomy env N b \<Longrightarrow>
      b_len b + length d \<le> N \<Longrightarrow> \<exists>b'. op env (Some b, cbb) = (True, Some b', cbb) \<and> roomy env N b'"
    and cfailed: "cbb_ok b cbb \<Longrightarrow> cbb_closed cbb = cbb \<Longrightarrow> length d < SIZE_MOD \<Longrightarrow>
      op env (Some b, cbb) = (False, base', cbb') \<Longrightarrow> \<exists>b'. base' = Some b' \<and> b_error b'"

lemma cbb_appender_closed:
  assumes "cbb_appender op d ok" shows "closed_appender op d ok"
proof
  fix b cbb env s'
  assume a: "cbb_ok b cbb" "cbb_closed cbb = cbb" "length d < SIZE_MOD" "op env (Some b, cbb) = (True, s')"
  show "ok \<and> (\<exists>b'. s' = (Some b', cbb) \<and> holds b (cbb_bytes b @ d) b')"
    using cbb_appender.sound [OF assms a(1,3,4)] cbb_contents_closed [of b cbb] a(2) by simp
next
  fix b cbb env N
  assume a: "cbb_ok b cbb" "cbb_closed cbb = cbb" "ok" "roomy env N b" "b_len b + length d \<le> N"
  have "cbb_fits cbb (cbb_bytes b)" using cbb_closed_simps(12) [of cbb "cbb_bytes b"] a(2) by metis
  moreover have "length (cbb_contents b cbb @ d) \<le> N"
    using cbb_contents_closed [of b cbb] a by (simp add: cbb_ok_def)
  ultimately show "\<exists>b'. op env (Some b, cbb) = (True, Some b', cbb) \<and> roomy env N b'"
    using cbb_appender.complete [OF assms a(1,3) _ a(4)] a(2) by simp
next
  fix b cbb env base' cbb'
  assume "cbb_ok b cbb" "length d < SIZE_MOD" "op env (Some b, cbb) = (False, base', cbb')"
  then show "\<exists>b'. base' = Some b' \<and> b_error b'" by (rule cbb_appender.failed [OF assms])
qed

sublocale cbb_appender \<subseteq> closed: closed_appender op d ok
  by (rule cbb_appender_closed) (rule cbb_appender_axioms)

lemma closed_appender_skip: "closed_appender (\<lambda>env s. (True, s)) [] True"
  by unfold_locales (auto simp: cbb_ok_def holds_def)

lemma cbb_ok_holds: "cbb_ok b cbb \<Longrightarrow> cbb_closed cbb = cbb \<Longrightarrow> holds b (cbb_bytes b @ d) b' \<Longrightarrow> cbb_ok b' cbb"
  using cbb_ok_closed [of b cbb d b'] cbb_contents_closed [of b cbb] by simp

lemma closed_appender_seq:
  assumes f: "closed_appender f d1 ok1" and g: "closed_appender g d2 ok2"
  shows "closed_appender (\<lambda>env s. seqb (f env s) (g env)) (d1 @ d2) (ok1 \<and> ok2)"
proof
  fix b cbb env s'
  assume a: "cbb_ok b cbb" "cbb_closed cbb = cbb" and d: "length (d1 @ d2) < SIZE_MOD"
    and r: "seqb (f env (Some b, cbb)) (g env) = (True, s')"
  from r obtain s1 where s1: "f env (Some b, cbb) = (True, s1)" "g env s1 = (True, s')"
    by (auto simp: seqb_True_iff)
  from closed_appender.csound [OF f a _ s1(1)] d obtain b1 where
    b1: "ok1" "s1 = (Some b1, cbb)" "holds b (cbb_bytes b @ d1) b1" by auto
  with closed_appender.csound [OF g cbb_ok_holds [OF a b1(3)] a(2), of env s'] d s1(2)
  show "(ok1 \<and> ok2) \<and> (\<exists>b'. s' = (Some b', cbb) \<and> holds b (cbb_bytes b @ d1 @ d2) b')"
    by (auto simp: holds_def)
next
  fix b cbb env N
  assume a: "cbb_ok b cbb" "cbb_closed cbb = cbb" "ok1 \<and> ok2" and N: "roomy env N b" "b_len b + length (d1 @ d2) \<le> N"
  from closed_appender.ccomplete [OF f a(1,2) _ N(1)] a(3) N(2) obtain b1 where
    b1: "f env (Some b, cbb) = (True, Some b1, cbb)" "roomy env N b1" by auto
  have "length d1 < SIZE_MOD" using N by (simp add: roomy_def)
  from closed_appender.csound [OF f a(1,2) this b1(1)] have h: "holds b (cbb_bytes b @ d1) b1" by auto
  then have "b_len b1 = b_len b + length d1"
    using a(1) by (metis cbb_ok_def holds_def length_append length_cbb_bytes)
  then have "b_len b1 + length d2 \<le> N" using N(2) by simp
  from closed_appender.ccomplete [OF g cbb_ok_holds [OF a(1,2) h] a(2) _ b1(2) this] a(3) b1(1)
  show "\<exists>b'. seqb (f env (Some b, cbb)) (g env) = (True, Some b', cbb) \<and> roomy env N b'" by auto
next
  fix b cbb env base' cbb'
  assume a: "cbb_ok b cbb" "cbb_closed cbb = cbb" and d: "length (d1 @ d2) < SIZE_MOD"
    and r: "seqb (f env (Some b, cbb)) (g env) = (False, base', cbb')"
  show "\<exists>b'. base' = Some b' \<and> b_error b'"
  proof (cases "f env (Some b, cbb) = (False, base', cbb')")
    case True
    then show ?thesis using closed_appender.cfailed [OF f a] d by simp
  next
    case False
    with r obtain s1 where s1: "f env (Some b, cbb) = (True, s1)" "g env s1 = (False, base', cbb')"
      by (auto simp: seqb_False_iff)
    from closed_appender.csound [OF f a _ s1(1)] d obtain b1 where
      b1: "s1 = (Some b1, cbb)" "holds b (cbb_bytes b @ d1) b1" by auto
    then show ?thesis
      using closed_appender.cfailed [OF g cbb_ok_holds [OF a b1(2)] a(2), of env base' cbb'] d s1(2) by simp
  qed
qed

text \<open>\<^verbatim>\<open>CBB_flush\<close> appends nothing: it makes the buffer hold the abstract value.\<close>

lemma flush_sound:
  "cbb_ok b cbb \<Longrightarrow> CBB_flush env (Some b) cbb = (True, base', cbb') \<Longrightarrow>
   cbb_fits cbb (cbb_bytes b) \<and> cbb' = cbb_closed cbb \<and>
   (\<exists>b'. base' = Some b' \<and> holds b (cbb_contents b cbb) b')"
proof (induction env "Some b" cbb arbitrary: base' cbb' rule: CBB_flush.induct)
  case (1 env off pll a i)
  then show ?case by (auto simp: cbb_ok_def holds_def cbb_contents_def)
next
  case (2 env ch off pll a i)
  have ch: "cbb_ok b ch" "\<not> b_error b" "cbb_pending_len_len ch \<noteq> 0"
      "cbb_start ch \<le> b_len b" "b_len b < SIZE_MOD"
    using 2(2) cbb_wf_start [of "b_len b" ch] by (auto simp: cbb_ok_def buf_ok_def)
  have st: "size_add (cbb_offset ch) (cbb_pending_len_len ch) = cbb_start ch"
    using ch by (simp add: size_add_no_wrap cbb_start_def)
  obtain r1 base1 ch1 where f1: "CBB_flush env (Some b) ch = (r1, base1, ch1)" by (metis prod_cases3)
  from 2(3) ch f1 st have r1: "r1" by (auto simp: Let_def split: if_split_asm)
  have IH: "cbb_fits ch (cbb_bytes b) \<and> ch1 = cbb_closed ch \<and>
      (\<exists>b'. base1 = Some b' \<and> holds b (cbb_contents b ch) b')"
    using 2(1) [of "\<lambda>child. CBB child off pll a i" b "cbb_start ch"] ch f1 r1 st by auto
  then obtain b1 where b1: "base1 = Some b1" "holds b (cbb_contents b ch) b1" by blast
  have len1: "b_len b1 = length (cbb_contents b ch)"
    using b1(2) by (metis holds_def length_cbb_bytes)
  have le1: "cbb_start ch \<le> b_len b1"
    using cbb_ok_closed [of b ch "[]" b1] b1 ch(1) cbb_wf_start [of "b_len b1" "cbb_closed ch"]
    by (simp add: cbb_ok_def)
  then have cok: "child_ok (b_len b1) (cbb_closed ch)"
    using 2(2) by (simp add: child_ok_def cbb_ok_def)
  from 2(3) ch f1 r1 st b1 IH le1 obtain ch2 where
    f2: "cbb_flush_pending env (cbb_start (cbb_closed ch)) (Some b1) (cbb_closed ch) = (True, base', ch2)"
    and cbb': "cbb' = CBB None off pll a i"
    by (auto simp: base_len_def Let_def split: prod.split_asm if_split_asm)
  from flush_pending_sound [OF _ cok f2] b1(2) obtain b' where
    "prefix_fits ch (b_len b1 - cbb_start ch)" "base' = Some b'"
    "holds b1 (fill_prefix ch (cbb_bytes b1)) b'"
    by (auto simp: holds_def)
  then show ?case
    using IH b1(2) cbb' len1 by (auto simp: cbb_contents_def holds_def)
qed

lemma flush_complete:
  "cbb_ok b cbb \<Longrightarrow> cbb_fits cbb (cbb_bytes b) \<Longrightarrow> roomy env N b \<Longrightarrow> length (cbb_contents b cbb) \<le> N \<Longrightarrow>
   \<exists>b'. CBB_flush env (Some b) cbb = (True, Some b', cbb_closed cbb) \<and> roomy env N b'"
proof (induction env "Some b" cbb rule: CBB_flush.induct)
  case (1 env off pll a i)
  then show ?case by (simp add: cbb_ok_def buf_ok_def)
next
  case (2 env ch off pll a i)
  have ch: "cbb_ok b ch" "\<not> b_error b" "cbb_pending_len_len ch \<noteq> 0"
      "cbb_start ch \<le> b_len b" "b_len b < SIZE_MOD" "cbb_fits ch (cbb_bytes b)"
    using 2(2,3) cbb_wf_start [of "b_len b" ch] by (auto simp: cbb_ok_def buf_ok_def)
  have st: "size_add (cbb_offset ch) (cbb_pending_len_len ch) = cbb_start ch"
    using ch by (simp add: size_add_no_wrap cbb_start_def)
  have fill: "length (fill_prefix ch (cbb_contents b ch)) \<le> N"
    using 2(5) by (simp add: cbb_contents_def)
  have wfch: "cbb_pending_is_asn1 ch \<longrightarrow> cbb_pending_len_len ch = 1" "cbb_wf (b_len b) ch"
    using 2(2) by (simp_all add: cbb_ok_def)
  have "cbb_start ch \<le> length (cbb_contents b ch)"
    using cbb_render_length [of "cbb_bytes b" ch] ch(1) by (simp add: cbb_ok_def cbb_contents_def)
  with fill length_cbb_prefix [OF wfch(1), of "length (cbb_contents b ch) - cbb_start ch"]
  have "length (cbb_contents b ch) \<le> N"
    by (simp add: length_fill_prefix cbb_start_def)
  with 2(1) [of "\<lambda>child. CBB child off pll a i" b "cbb_start ch"] ch st 2(4) obtain b1 where
    f1: "CBB_flush env (Some b) ch = (True, Some b1, cbb_closed ch)" and room1: "roomy env N b1"
    by auto
  have h1: "holds b (cbb_contents b ch) b1" using flush_sound [OF ch(1) f1] by auto
  then have len1: "b_len b1 = length (cbb_contents b ch)" and bytes1: "cbb_bytes b1 = cbb_contents b ch"
    and ok1: "buf_ok b1"
    by (metis holds_def length_cbb_bytes)+
  have cok: "child_ok (b_len b1) (cbb_closed ch)" and le1: "cbb_start ch \<le> b_len b1"
    using 2(2) \<open>cbb_start ch \<le> length (cbb_contents b ch)\<close>
    by (simp_all add: child_ok_def cbb_ok_def len1)
  have "prefix_fits (cbb_closed ch) (b_len b1 - cbb_start (cbb_closed ch))"
    using 2(3) by (simp add: len1 cbb_contents_def)
  from flush_pending_complete [OF ok1 cok this room1] fill bytes1 obtain b' ch' where
    "cbb_flush_pending env (cbb_start ch) (Some b1) (cbb_closed ch) = (True, Some b', ch')" "roomy env N b'"
    by auto
  then show ?case using ch f1 st le1 by (auto simp: base_len_def Let_def cbb_start_def)
qed

lemma base_set_error_Some: "base = Some b \<Longrightarrow> \<exists>b'. base_set_error base = Some b' \<and> b_error b'"
  by (simp add: base_set_error_def)

lemma make_room_Some: "cbb_make_room env st n k (Some b) = (r, base') \<Longrightarrow> \<exists>b'. base' = Some b'"
  by (cases "cbb_buffer_add env (k - 1) (Some b)")
    (auto simp: cbb_make_room_def Let_def cbb_buffer_add_def cbb_buffer_reserve_def base_set_error_def seqb_def
      split: if_split_asm option.split_asm prod.split_asm)

lemma flush_pending_Some:
  "cbb_flush_pending env st (Some b) ch = (r, base', ch') \<Longrightarrow> \<exists>b'. base' = Some b'"
  by (auto simp: cbb_flush_pending_def cbb_flush_len_bytes_def base_write_def Let_def dest!: make_room_Some
      split: if_split_asm prod.split_asm option.split_asm)

lemma flush_Some: "CBB_flush env (Some b) cbb = (r, base', cbb') \<Longrightarrow> \<exists>b'. base' = Some b'"
proof (induction env "Some b" cbb arbitrary: r base' cbb' rule: CBB_flush.induct)
  case (2 env ch off pll a i)
  obtain r1 base1 ch1 where f1: "CBB_flush env (Some b) ch = (r1, base1, ch1)" by (metis prod_cases3)
  show ?case
  proof (cases "b_error b \<or> cbb_pending_len_len ch = 0")
    case False
    then obtain b1 where "base1 = Some b1"
      using 2(1) [of "\<lambda>child. CBB child off pll a i" b "size_add (cbb_offset ch) (cbb_pending_len_len ch)"] f1
      by auto
    then show ?thesis using False 2(2) f1
      by (auto simp: Let_def base_set_error_def dest!: flush_pending_Some
          split: if_split_asm prod.split_asm)
  qed (use 2(2) in \<open>auto split: if_split_asm\<close>)
qed (auto split: if_split_asm)

lemma flush_failed:
  assumes "CBB_flush env (Some b) cbb = (False, base', cbb')"
  shows "\<exists>b'. base' = Some b' \<and> b_error b'"
proof (cases "\<exists>ch off pll a i. cbb = CBB (Some ch) off pll a i")
  case True
  then obtain ch off pll a i where cbb: "cbb = CBB (Some ch) off pll a i" by blast
  obtain r1 base1 ch1 where f1: "CBB_flush env (Some b) ch = (r1, base1, ch1)" by (metis prod_cases3)
  then obtain b1 where b1: "base1 = Some b1" using flush_Some by blast
  show ?thesis using assms f1 unfolding cbb b1
    by (auto simp: Let_def base_set_error_def dest!: flush_pending_Some split: if_split_asm prod.split_asm)
next
  case False
  then have "cbb = cbb_closed cbb" by (cases cbb) (metis cbb_closed_simps(1) option.exhaust)
  then show ?thesis using assms by (auto simp: cbb_closed_def split: if_split_asm)
       (metis CBB_flush.simps(1) option.simps(5) prod.inject)
qed

interpretation flush: cbb_appender cbb_flush "[]" True
proof
  fix b cbb env s'
  assume "cbb_ok b cbb" "cbb_flush env (Some b, cbb) = (True, s')"
  then show "True \<and> cbb_fits cbb (cbb_bytes b) \<and>
      (\<exists>b'. s' = (Some b', cbb_closed cbb) \<and> holds b (cbb_contents b cbb @ []) b')"
    using flush_sound [of b cbb env "fst s'" "snd s'"] by (cases s') (auto simp: cbb_flush_def)
next
  fix b cbb env N
  assume "cbb_ok b cbb" "cbb_fits cbb (cbb_bytes b)" "roomy env N b" "length (cbb_contents b cbb @ []) \<le> N"
  then show "\<exists>b'. cbb_flush env (Some b, cbb) = (True, Some b', cbb_closed cbb) \<and> roomy env N b'"
    using flush_complete by (simp add: cbb_flush_def)
next
  fix b cbb env base' cbb'
  assume "cbb_flush env (Some b, cbb) = (False, base', cbb')"
  then show "\<exists>b'. base' = Some b' \<and> b_error b'"
    by (simp add: cbb_flush_def flush_failed)
next
  fix b :: cbb_buffer and cbb env
  assume "b_error b"
  then show "cbb_flush env (Some b, cbb) = (False, Some b, cbb)"
    unfolding cbb_flush_def by (cases "(env, Some b, cbb)" rule: CBB_flush.cases) auto
qed

subsection \<open>Sequencing and nesting\<close>

lemma holds_trans: "holds b c b1 \<Longrightarrow> holds b1 c' b2 \<Longrightarrow> holds b c' b2"
  by (simp add: holds_def)

lemma cbb_appender_seq:
  assumes f: "cbb_appender f d1 ok1" and g: "cbb_appender g d2 ok2"
  shows "cbb_appender (\<lambda>env s. seqb (f env s) (g env)) (d1 @ d2) (ok1 \<and> ok2)"
proof
  fix b cbb env s'
  assume ok: "cbb_ok b cbb" and d: "length (d1 @ d2) < SIZE_MOD"
    and r: "seqb (f env (Some b, cbb)) (g env) = (True, s')"
  from r obtain s1 where s1: "f env (Some b, cbb) = (True, s1)" "g env s1 = (True, s')"
    by (auto simp: seqb_True_iff)
  from cbb_appender.sound [OF f ok _ s1(1)] d obtain b1 where
    b1: "ok1" "cbb_fits cbb (cbb_bytes b)" "s1 = (Some b1, cbb_closed cbb)" "holds b (cbb_contents b cbb @ d1) b1"
    by auto
  from cbb_appender.sound [OF g cbb_ok_closed [OF b1(4) ok], of env s'] d s1(2) b1(3) obtain b2 where
    "ok2" "s' = (Some b2, cbb_closed cbb)" "holds b1 (cbb_bytes b1 @ d2) b2"
    by auto
  then show "(ok1 \<and> ok2) \<and> cbb_fits cbb (cbb_bytes b) \<and>
      (\<exists>b'. s' = (Some b', cbb_closed cbb) \<and> holds b (cbb_contents b cbb @ d1 @ d2) b')"
    using b1 by (auto simp: holds_def)
next
  fix b cbb env N
  assume ok: "cbb_ok b cbb" "ok1 \<and> ok2" "cbb_fits cbb (cbb_bytes b)" and N: "roomy env N b"
    "length (cbb_contents b cbb @ d1 @ d2) \<le> N"
  from cbb_appender.complete [OF f ok(1) _ ok(3) N(1)] ok(2) N(2) obtain b1 where
    b1: "f env (Some b, cbb) = (True, Some b1, cbb_closed cbb)" "roomy env N b1"
    by auto
  have "length d1 < SIZE_MOD" using N by (simp add: roomy_def)
  from cbb_appender.sound [OF f ok(1) this b1(1)] have h: "holds b (cbb_contents b cbb @ d1) b1" by auto
  then have "length (cbb_contents b1 (cbb_closed cbb) @ d2) \<le> N" using N(2) by (simp add: holds_def)
  from cbb_appender.complete [OF g cbb_ok_closed [OF h ok(1)] _ _ b1(2) this] ok(2) b1(1)
  show "\<exists>b'. seqb (f env (Some b, cbb)) (g env) = (True, Some b', cbb_closed cbb) \<and> roomy env N b'"
    by auto
next
  fix b cbb env base' cbb'
  assume ok: "cbb_ok b cbb" and d: "length (d1 @ d2) < SIZE_MOD"
    and r: "seqb (f env (Some b, cbb)) (g env) = (False, base', cbb')"
  show "\<exists>b'. base' = Some b' \<and> b_error b'"
  proof (cases "f env (Some b, cbb) = (False, base', cbb')")
    case True
    then show ?thesis using cbb_appender.failed [OF f ok] d by simp
  next
    case False
    with r obtain s1 where s1: "f env (Some b, cbb) = (True, s1)" "g env s1 = (False, base', cbb')"
      by (auto simp: seqb_False_iff)
    from cbb_appender.sound [OF f ok _ s1(1)] d obtain b1 where
      b1: "s1 = (Some b1, cbb_closed cbb)" "holds b (cbb_contents b cbb @ d1) b1"
      by auto
    then show ?thesis
      using cbb_appender.failed [OF g cbb_ok_closed [OF b1(2) ok], of env base' cbb'] d s1(2) by simp
  qed
next
  fix b :: cbb_buffer and cbb env
  assume "b_error b"
  then show "seqb (f env (Some b, cbb)) (g env) = (False, Some b, cbb)"
    by (simp add: cbb_appender.sticky [OF f])
qed

sublocale buffer_appender \<subseteq> lifted: cbb_appender "\<lambda>env s. seqb (cbb_flush env s) (on_base (f env))" d ok
proof
  fix b cbb env s'
  assume a: "cbb_ok b cbb" "length d < SIZE_MOD" "seqb (cbb_flush env (Some b, cbb)) (on_base (f env)) = (True, s')"
  then obtain s1 where s1: "cbb_flush env (Some b, cbb) = (True, s1)" "on_base (f env) s1 = (True, s')"
    by (auto simp: seqb_True_iff)
  from flush.sound [OF a(1) _ s1(1)] obtain b1 where b1: "cbb_fits cbb (cbb_bytes b)"
    "s1 = (Some b1, cbb_closed cbb)" "holds b (cbb_contents b cbb) b1" by auto
  with s1(2) buf_sound [of b1 env "fst s'"] a(2) show "ok \<and> cbb_fits cbb (cbb_bytes b) \<and>
      (\<exists>b'. s' = (Some b', cbb_closed cbb) \<and> holds b (cbb_contents b cbb @ d) b')"
    by (auto simp: on_base_def holds_def split: prod.split_asm)
next
  fix b cbb env N
  assume a: "cbb_ok b cbb" "ok" "cbb_fits cbb (cbb_bytes b)" "roomy env N b" "length (cbb_contents b cbb @ d) \<le> N"
  then obtain b1 where b1: "cbb_flush env (Some b, cbb) = (True, Some b1, cbb_closed cbb)" "roomy env N b1"
    using flush.complete [of b cbb env N] by auto
  have h: "holds b (cbb_contents b cbb) b1" using flush.sound [OF a(1) _ b1(1)] by auto
  then have "b_len b1 = length (cbb_contents b cbb)" by (metis holds_def length_cbb_bytes)
  then obtain b2 where "f env (Some b1) = (True, Some b2)" "roomy env N b2"
    using buf_complete [of b1 env N] h a(2,5) b1(2) by (auto simp: holds_def)
  then show "\<exists>b'. seqb (cbb_flush env (Some b, cbb)) (on_base (f env)) = (True, Some b', cbb_closed cbb) \<and> roomy env N b'"
    using b1 by (simp add: on_base_def)
next
  fix b cbb env base' cbb'
  assume a: "cbb_ok b cbb" "seqb (cbb_flush env (Some b, cbb)) (on_base (f env)) = (False, base', cbb')"
  show "\<exists>b'. base' = Some b' \<and> b_error b'"
  proof (cases "cbb_flush env (Some b, cbb) = (False, base', cbb')")
    case True
    then show ?thesis using flush.failed [OF a(1)] by simp
  next
    case False
    with a obtain s1 where s1: "cbb_flush env (Some b, cbb) = (True, s1)" "on_base (f env) s1 = (False, base', cbb')"
      by (auto simp: seqb_False_iff)
    with flush.sound [OF a(1) _ s1(1)] show ?thesis
      by (auto simp: on_base_def split: prod.split_asm dest: buf_failed)
  qed
next
  fix b :: cbb_buffer and cbb env
  assume "b_error b"
  then show "seqb (cbb_flush env (Some b, cbb)) (on_base (f env)) = (False, Some b, cbb)"
    by (simp add: flush.sticky)
qed

subsection \<open>The writing operations\<close>

definition buf_append :: "byte list \<Rightarrow> heap_env \<Rightarrow> base \<Rightarrow> bool \<times> base" where
  "buf_append d env base =
     seqb (cbb_buffer_add env (length d) base) (\<lambda>base'. (True, base_write (base_len base) d base'))"

lemma holds_write:
  assumes "buf_ok b'" "b_len b' = b_len b + length d" "b_can_resize b' = b_can_resize b"
    "take (b_len b) (b_buf b') = cbb_bytes b"
  shows "holds b (cbb_bytes b @ d) (b'\<lparr>b_buf := mem_write (b_len b) d (b_buf b')\<rparr>)"
  using assms take_mem_write_end [of "b_len b" "b_buf b'" d]
  by (auto simp: holds_def buf_ok_def cbb_bytes_def length_mem_write)

interpretation buf_append: buffer_appender "buf_append d" d True for d
proof
  fix b env base'
  assume a: "buf_ok b" "length d < SIZE_MOD" "buf_append d env (Some b) = (True, base')"
  then obtain base1 where b1: "cbb_buffer_add env (length d) (Some b) = (True, base1)"
    "base' = base_write (b_len b) d base1"
    by (auto simp: buf_append_def seqb_True_iff base_len_def)
  with buffer_add_sound [OF a(1,2) b1(1)] holds_write [where b = b and d = d]
  show "True \<and> (\<exists>b'. base' = Some b' \<and> holds b (cbb_bytes b @ d) b')"
    by (auto simp: base_write_def)
next
  fix b env N
  assume "buf_ok b" "roomy env N b" "b_len b + length d \<le> N"
  from buffer_add_complete [OF this]
  show "\<exists>b'. buf_append d env (Some b) = (True, Some b') \<and> roomy env N b'"
    by (auto simp: buf_append_def base_write_def roomy_def)
next
  fix env b base'
  assume "buf_append d env (Some b) = (False, base')"
  then show "\<exists>b'. base' = Some b' \<and> b_error b'"
    by (auto simp: buf_append_def seqb_False_iff dest: buffer_add_failed)
qed

lemma buffer_add_Some: "cbb_buffer_add env n (Some b) = (True, base') \<Longrightarrow> \<exists>b'. base' = Some b'"
  by (auto simp: cbb_buffer_add_def cbb_buffer_reserve_def seqb_True_iff Let_def
      split: if_split_asm option.split_asm)

interpretation buf_add_u: buffer_appender "\<lambda>env. cbb_buffer_add_u env v n" "be_bytes n (unat v)"
  "n = 0 \<or> unat v < 256 ^ n" for v n
proof
  fix b env base'
  assume a: "buf_ok b" "length (be_bytes n (unat v)) < SIZE_MOD" "cbb_buffer_add_u env v n (Some b) = (True, base')"
  show "(n = 0 \<or> unat v < 256 ^ n) \<and> (\<exists>b'. base' = Some b' \<and> holds b (cbb_bytes b @ be_bytes n (unat v)) b')"
  proof (cases "n = 0")
    case True
    then show ?thesis using a by (auto simp: cbb_buffer_add_u_def holds_def)
  next
    case False
    with a obtain base1 where add: "cbb_buffer_add env n (Some b) = (True, base1)"
      by (auto simp: cbb_buffer_add_u_def Let_def seqb_True_iff)
    from buffer_add_sound [OF a(1) _ add] a(2) obtain b1 where
      b1: "base1 = Some b1" "buf_ok b1" "b_len b1 = b_len b + n" "b_can_resize b1 = b_can_resize b"
        "take (b_len b) (b_buf b1) = cbb_bytes b"
      by auto
    then show ?thesis using a(3) False add
        holds_write [of b1 b "be_bytes n (unat v)"]
      by (auto simp: cbb_buffer_add_u_def base_len_def Let_def store_be_loop_eq buf_ok_def drop_bit_eq_0_iff_unat
          power_mult split: if_split_asm)
  qed
next
  fix b env N
  assume a: "buf_ok b" "n = 0 \<or> unat v < 256 ^ n" "roomy env N b" "b_len b + length (be_bytes n (unat v)) \<le> N"
  show "\<exists>b'. cbb_buffer_add_u env v n (Some b) = (True, Some b') \<and> roomy env N b'"
  proof (cases "n = 0")
    case True
    then show ?thesis using a by (simp add: cbb_buffer_add_u_def)
  next
    case False
    from a obtain b1 where add: "cbb_buffer_add env n (Some b) = (True, Some b1)" "roomy env N b1"
      using buffer_add_complete [of b env N n] by auto
    have "n < SIZE_MOD" using a(3,4) by (simp add: roomy_def)
    from buffer_add_sound [OF a(1) this add(1)] have "b_len b + n \<le> length (b_buf b1)"
      by (auto simp: buf_ok_def)
    then show ?thesis using add a(2) False
      by (auto simp: cbb_buffer_add_u_def base_len_def store_be_loop_eq drop_bit_eq_0_iff_unat power_mult
          intro: roomy_mono)
  qed
next
  fix env b base'
  assume a: "cbb_buffer_add_u env v n (Some b) = (False, base')"
  then show "\<exists>b'. base' = Some b' \<and> b_error b'"
    by (auto simp: cbb_buffer_add_u_def seqb_False_iff Let_def base_set_error_def split: if_split_asm prod.split_asm
        dest: buffer_add_failed dest!: buffer_add_Some)
qed

lemma cbb_appender_eqI:
  "cbb_appender f d ok \<Longrightarrow> (\<And>env s. g env s = f env s) \<Longrightarrow> d' = d \<Longrightarrow> ok' = ok \<Longrightarrow> cbb_appender g d' ok'"
  by presburger

interpretation add_bytes: cbb_appender "\<lambda>env. CBB_add_bytes env data" data True for data
  by (rule cbb_appender_eqI [OF buf_append.lifted.cbb_appender_axioms [of data]])
    (auto simp: CBB_add_bytes_def buf_append_def on_base_def seqb_def Let_def split: prod.split)

interpretation add_zeros: cbb_appender "\<lambda>env. CBB_add_zeros env n" "replicate n 0" True for n
proof (rule cbb_appender_eqI [OF buf_append.lifted.cbb_appender_axioms [of "replicate n 0"]])
  have len: "base_len base' - n = base_len base"
    if "cbb_buffer_add env n base = (True, base')" for env base base'
    using that by (auto simp: cbb_buffer_add_def cbb_buffer_reserve_def base_len_def seqb_True_iff Let_def
        split: option.splits if_split_asm)
  show "CBB_add_zeros env n s = seqb (cbb_flush env s) (on_base (buf_append (replicate n 0) env))" for env s
    by (auto simp: CBB_add_zeros_def CBB_add_space_def buf_append_def on_base_def seqb_def Let_def len
        split: prod.split)
qed auto

interpretation add_u8: cbb_appender "\<lambda>env. CBB_add_u8 env v" "[v]" True for v
  by (rule cbb_appender_eqI [OF buf_add_u.lifted.cbb_appender_axioms [of "ucast v" 1]])
    (simp_all add: CBB_add_u8_def unat_byte_lt)

interpretation add_u16: cbb_appender "\<lambda>env. CBB_add_u16 env v" "be_bytes 2 (unat v)" True for v
  by (rule cbb_appender_eqI [OF buf_add_u.lifted.cbb_appender_axioms [of "ucast v" 2]])
    (use unat_u16_lt [of v] in \<open>simp_all add: CBB_add_u16_def\<close>)

interpretation add_u24: cbb_appender "\<lambda>env. CBB_add_u24 env v" "be_bytes 3 (unat v)" "unat v < 2 ^ 24" for v
  by (rule cbb_appender_eqI [OF buf_add_u.lifted.cbb_appender_axioms [of "ucast v" 3]])
    (use unat_u32_lt [of v] in \<open>simp_all add: CBB_add_u24_def\<close>)

interpretation add_u32: cbb_appender "\<lambda>env. CBB_add_u32 env v" "be_bytes 4 (unat v)" True for v
  by (rule cbb_appender_eqI [OF buf_add_u.lifted.cbb_appender_axioms [of "ucast v" 4]])
    (use unat_u32_lt [of v] in \<open>simp_all add: CBB_add_u32_def\<close>)

interpretation add_u64: cbb_appender "\<lambda>env. CBB_add_u64 env v" "be_bytes 8 (unat v)" True for v
  by (rule cbb_appender_eqI [OF buf_add_u.lifted.cbb_appender_axioms [of v 8]])
    (use unat_u64_lt [of v] in \<open>simp_all add: CBB_add_u64_def\<close>)

end
