(* ===== verification/Cbb_Child.thy ===== *)
theory Cbb_Child
  imports Cbb_Spec
begin

text \<open>
  The builders that open a child: length-prefixed strings and ASN.1 elements. The contract \<open>cbb_opener\<close>
  describes an operation that leaves a child open; inside it, running any appender on the child and
  flushing the parent is shown to be an appender again, of the enclosed bytes. It is met by
  \<^verbatim>\<open>cbb_add_length_prefixed\<close> and by \<^verbatim>\<open>CBB_add_asn1\<close>, whose enclosed bytes are the DER element. What is asked
  of the code that fills the child is the weaker contract \<open>child_filler\<close>, so that operations that rearrange a child are
  covered, too.
\<close>

subsection \<open>Base-128 integers\<close>

definition base128_byte :: "u64 \<Rightarrow> nat \<Rightarrow> byte" where
  "base128_byte v i =
     (let b = (ucast (drop_bit (7 * i) v AND 0x7f) :: byte) in if i \<noteq> 0 then b OR 0x80 else b)"

lemma base128_byte_eq:
  "base128_byte v i = word_of_nat ((if i = 0 then 0 else 128) + unat v div 128 ^ i mod 128)"
proof -
  define b :: byte where "b = ucast (drop_bit (7 * i) v AND 0x7f)"
  have m: "(0x7f :: u64) = mask 7" by (simp add: mask_eq_exp_minus_1)
  have w: "unat (drop_bit (7 * i) v AND 0x7f) = unat v div 128 ^ i mod 128"
    unfolding m unat_and_mask_eq unat_drop_bit_div by (simp add: power_mult)
  then have b: "unat b = unat v div 128 ^ i mod 128"
    by (simp add: b_def unsigned_ucast_eq take_bit_eq_mod)
  then have b128: "unat b < 2 ^ 7" by simp
  have "unat (b OR 0x80) = 128 + unat b"
    using unat_push_or [OF b128, of "1 :: byte"] by (simp add: push_bit_eq_mult or.commute)
  then have "unat (base128_byte v i) = (if i = 0 then 0 else 128) + unat v div 128 ^ i mod 128"
    using b by (simp add: base128_byte_def flip: b_def)
  then show ?thesis by (metis of_nat_unat ucast_id)
qed

lemma rev_upt_Suc: "rev [0..<Suc n] = map Suc (rev [0..<n]) @ [0]"
  by (metis map_Suc_upt rev_map rev.simps(2) upt_conv_Cons zero_less_Suc)

lemma base128_cont_digits:
  "w < 128 ^ n \<Longrightarrow> (n = 0 \<or> 128 ^ (n - 1) \<le> w) \<Longrightarrow>
   base128_cont w = map (\<lambda>i. word_of_nat (128 + w div 128 ^ i mod 128)) (rev [0..<n])"
proof (induction n arbitrary: w)
  case (Suc n)
  have pos: "w \<noteq> 0" using Suc.prems(2) by (metis diff_Suc_1 le_zero_eq nat.distinct(1) power_not_zero zero_neq_numeral)
  have "w div 128 < 128 ^ n" using Suc.prems(1) by (simp add: less_mult_imp_div_less mult.commute)
  moreover have "n = 0 \<or> 128 ^ (n - 1) \<le> w div 128"
  proof (cases n)
    case (Suc k)
    then have "128 ^ k * 128 \<le> w" using Suc.prems(2) by (simp add: mult.commute)
    then show ?thesis using Suc by (simp add: less_eq_div_iff_mult_less_eq)
  qed simp
  ultimately have "base128_cont (w div 128) = map (\<lambda>i. word_of_nat (128 + w div 128 div 128 ^ i mod 128)) (rev [0..<n])"
    by (rule Suc.IH)
  moreover have "w div 128 div 128 ^ i = w div 128 ^ Suc i" for i by (simp add: div_mult2_eq)
  ultimately show ?case
    using pos by (subst base128_cont.simps) (simp add: rev_upt_Suc del: upt_Suc power_Suc)
qed simp

lemma base128_len_bounds:
  "(unat v < 128 ^ base128_len v) \<and> (v = 0 \<or> 0 < base128_len v \<and> 128 ^ (base128_len v - 1) \<le> unat v)"
proof (induction v rule: base128_len.induct)
  case (1 v)
  show ?case
  proof (cases "v > 0")
    case True
    have d: "unat (drop_bit 7 v) = unat v div 128" by (simp add: unat_drop_bit_div del: unsigned_drop_bit_eq)
    from 1 [OF True] have IH: "unat v div 128 < 128 ^ base128_len (drop_bit 7 v)"
      "drop_bit 7 v = 0 \<or> 0 < base128_len (drop_bit 7 v) \<and>
         128 ^ (base128_len (drop_bit 7 v) - 1) \<le> unat v div 128"
      unfolding d by auto
    have lt: "unat v < 128 ^ Suc (base128_len (drop_bit 7 v))"
      using IH(1) by (simp add: div_less_iff_less_mult mult.commute)
    have "128 ^ base128_len (drop_bit 7 v) \<le> unat v"
    proof (cases "drop_bit 7 v = 0")
      case True
      then show ?thesis using \<open>v > 0\<close> by (subst base128_len.simps) (simp add: word_less_nat_alt)
    next
      case False
      then obtain k where k: "base128_len (drop_bit 7 v) = Suc k" and "128 ^ k \<le> unat v div 128"
        using IH(2) by (metis diff_Suc_1 gr0_conv_Suc)
      then have "128 ^ k * 128 \<le> unat v" by (simp add: less_eq_div_iff_mult_less_eq)
      then show ?thesis by (simp add: k mult.commute)
    qed
    then show ?thesis using True lt by (subst (1 2 3) base128_len.simps) simp
  next
    case False
    then have "v = 0" by (simp add: word_gt_0)
    then show ?thesis by (simp add: base128_len.simps)
  qed
qed

lemma add_base128_loop_appender:
  "cbb_appender (\<lambda>env. add_base128_loop env v (Suc n)) (map (base128_byte v) (rev [0..<Suc n])) True"
proof (induction n)
  case 0
  show ?case
    by (rule cbb_appender_eqI [OF add_u8.cbb_appender_axioms [of "base128_byte v 0"]])
      (auto simp: seqb_def base128_byte_def Let_def split: prod.split)
next
  case (Suc n)
  show ?case
    by (rule cbb_appender_eqI [OF cbb_appender_seq [OF add_u8.cbb_appender_axioms [of "base128_byte v (Suc n)"] Suc]])
      (simp_all add: add_base128_loop.simps(2) [of _ _ "Suc n"] base128_byte_def Let_def del: add_base128_loop.simps)
qed

interpretation add_base128: cbb_appender "\<lambda>env. add_base128_integer env v" "base128 (unat v)" True for v
proof -
  define n where "n = (if base128_len v = 0 then 0 else base128_len v - 1)"
  have bounds: "unat v < 128 ^ Suc n" "n = 0 \<or> 128 ^ n \<le> unat v"
    using base128_len_bounds [of v] by (cases "base128_len v"; auto simp: n_def base128_len.simps [of 0])+
  have len: "add_base128_integer env v s = add_base128_loop env v (Suc n) s" for env s
    by (simp add: add_base128_integer_def n_def del: add_base128_loop.simps)
  have "unat v div 128 < 128 ^ n" using bounds(1) by (simp add: less_mult_imp_div_less mult.commute)
  moreover have "n = 0 \<or> 128 ^ (n - 1) \<le> unat v div 128"
    using bounds(2) by (cases n) (auto simp: less_eq_div_iff_mult_less_eq mult.commute)
  ultimately have cont: "base128_cont (unat v div 128) =
      map (\<lambda>i. word_of_nat (128 + unat v div 128 div 128 ^ i mod 128)) (rev [0..<n])"
    by (rule base128_cont_digits)
  have "unat v div 128 div 128 ^ i = unat v div 128 ^ Suc i" for i by (simp add: div_mult2_eq)
  then have eq: "base128 (unat v) = map (base128_byte v) (rev [0..<Suc n])"
    unfolding base128_def cont rev_upt_Suc by (simp add: base128_byte_eq del: upt_Suc power_Suc)
  show "cbb_appender (\<lambda>env. add_base128_integer env v) (base128 (unat v)) True"
    by (rule cbb_appender_eqI [OF add_base128_loop_appender [of v n]]) (simp_all only: len eq)
qed

subsection \<open>Children\<close>

definition cbb_with_child :: "cbb \<Rightarrow> cbb \<Rightarrow> cbb" where
  "cbb_with_child cbb ch =
     CBB (Some ch) (cbb_offset cbb) (cbb_pending_len_len cbb) (cbb_pending_is_asn1 cbb) (cbb_is_child cbb)"

lemma cbb_with_child_simps [simp]:
  "cbb_closed (cbb_with_child cbb ch) = cbb_closed cbb"
  "cbb_render (cbb_with_child cbb ch) m = fill_prefix ch (cbb_render ch m)"
  "cbb_fits (cbb_with_child cbb ch) m \<longleftrightarrow>
     cbb_fits ch m \<and> prefix_fits ch (length (cbb_render ch m) - cbb_start ch)"
  by (simp_all add: cbb_with_child_def cbb_closed_def)

text \<open>The contract of what a caller does with a child that has just been opened, and is still empty: the bytes
  \<open>d\<close> are in it afterwards, and this always succeeds when the memory \<open>res\<close> asks for is there. An appender meets it, and so
  does an operation that rearranges what it finds in the child.\<close>

locale child_filler =
  fixes op :: "heap_env \<Rightarrow> cbbst \<Rightarrow> bool \<times> cbbst"
    and d :: "byte list"
    and ok :: bool
    and res :: "heap_env \<Rightarrow> nat \<Rightarrow> bool"
  assumes fill_sound: "cbb_ok b cbb \<Longrightarrow> cbb_closed cbb = cbb \<Longrightarrow> cbb_start cbb = b_len b \<Longrightarrow> length d < SIZE_MOD \<Longrightarrow>
      op env (Some b, cbb) = (True, s') \<Longrightarrow>
      ok \<and> (\<exists>b'. s' = (Some b', cbb) \<and> holds b (cbb_bytes b @ d) b')"
    and fill_complete: "cbb_ok b cbb \<Longrightarrow> cbb_closed cbb = cbb \<Longrightarrow> cbb_start cbb = b_len b \<Longrightarrow> ok \<Longrightarrow> res env N \<Longrightarrow>
      roomy env N b \<Longrightarrow> b_len b + length d \<le> N \<Longrightarrow>
      \<exists>b'. op env (Some b, cbb) = (True, Some b', cbb) \<and> roomy env N b'"

sublocale closed_appender \<subseteq> filler: child_filler op d ok "\<lambda>env N. True"
  by unfold_locales (simp_all add: csound ccomplete)

lemma closed_appender_filler: "closed_appender op d ok \<Longrightarrow> child_filler op d ok (\<lambda>env N. True)"
  by (simp add: child_filler_def closed_appender_def)

text \<open>An operation that appends a header and the bytes of a length prefix and opens a child there.\<close>

locale cbb_opener =
  fixes op :: "heap_env \<Rightarrow> cbbst \<Rightarrow> bool \<times> cbbst"
    and hdr :: "byte list"
    and n :: nat
    and asn1 :: bool
  assumes open_sound: "cbb_ok b cbb \<Longrightarrow> op env (Some b, cbb) = (True, s') \<Longrightarrow>
      cbb_fits cbb (cbb_bytes b) \<and>
      (\<exists>b'. s' = (Some b', cbb_with_child cbb (CBB None (length (cbb_contents b cbb @ hdr)) n asn1 True)) \<and>
        holds b (cbb_contents b cbb @ hdr @ replicate n 0) b')"
    and open_complete: "cbb_ok b cbb \<Longrightarrow> cbb_fits cbb (cbb_bytes b) \<Longrightarrow> roomy env N b \<Longrightarrow>
      length (cbb_contents b cbb @ hdr) + n \<le> N \<Longrightarrow>
      \<exists>b'. op env (Some b, cbb) =
        (True, Some b', cbb_with_child cbb (CBB None (length (cbb_contents b cbb @ hdr)) n asn1 True)) \<and>
        roomy env N b'"
    and open_failed: "cbb_ok b cbb \<Longrightarrow> op env (Some b, cbb) = (False, base', cbb') \<Longrightarrow>
      \<exists>b'. base' = Some b' \<and> b_error b'"
    and open_sticky: "b_error b \<Longrightarrow> op env (Some b, cbb) = (False, Some b, cbb)"
    and prefix_ok: "0 < n" "n \<le> 8" "asn1 \<longrightarrow> n = 1"
begin

definition child_of :: "cbb_buffer \<Rightarrow> cbb \<Rightarrow> cbb" where
  "child_of b cbb = CBB None (length (cbb_contents b cbb @ hdr)) n asn1 True"

definition nested :: "(heap_env \<Rightarrow> cbbst \<Rightarrow> bool \<times> cbbst) \<Rightarrow> heap_env \<Rightarrow> cbbst \<Rightarrow> bool \<times> cbbst" where
  "nested body env s = seqb (op env s) (\<lambda>s. seqb (on_child (body env) s) (cbb_flush env))"

definition enclosed :: "byte list \<Rightarrow> byte list" where
  "enclosed d = hdr @ (if asn1 then der_len (length d) else be_bytes n (length d)) @ d"

definition enclosable :: "byte list \<Rightarrow> bool" where
  "enclosable d \<longleftrightarrow> (if asn1 then length d \<le> 0xfffffffe else length d < 256 ^ n)"

lemma on_child_with: "on_child f (base, cbb_with_child cbb ch) =
    (case f (base, ch) of (r, base, ch) \<Rightarrow> (r, base, cbb_with_child cbb ch))"
  by (simp add: on_child_def cbb_with_child_def)

lemma cbb_ok_with_child:
  assumes "cbb_ok b cbb" "buf_ok b'" "length (cbb_contents b cbb @ hdr) + n \<le> b_len b'"
  shows "cbb_ok b' (cbb_with_child cbb (child_of b cbb))"
proof -
  have "cbb_start cbb \<le> length (cbb_contents b cbb)"
    using cbb_render_length [of "cbb_bytes b" cbb] assms(1) by (simp add: cbb_ok_def cbb_contents_def)
  then show ?thesis
    using assms prefix_ok by (simp add: cbb_ok_def cbb_with_child_def child_of_def cbb_start_def)
qed

lemma child_ok: "holds b (cbb_contents b cbb @ hdr @ replicate n 0) b' \<Longrightarrow> cbb_ok b' (child_of b cbb)"
  using length_cbb_bytes [of b'] by (auto simp: holds_def cbb_ok_def child_of_def)

lemma filled:
  assumes "holds b1 (cbb_contents b cbb @ hdr @ replicate n 0 @ d) b2"
  shows "cbb_contents b2 (cbb_with_child cbb (child_of b cbb)) = cbb_contents b cbb @ enclosed d"
    "cbb_fits (cbb_with_child cbb (child_of b cbb)) (cbb_bytes b2) \<longleftrightarrow> enclosable d"
  using assms by (simp_all add: holds_def cbb_contents_def child_of_def fill_prefix_def cbb_prefix_def
      enclosed_def enclosable_def prefix_fits_def)

lemma length_enclosed: "length (cbb_contents b cbb @ hdr) + n + length d \<le> length (cbb_contents b cbb @ enclosed d)"
  using prefix_ok length_der_len [of "length d"] by (auto simp: enclosed_def Suc_le_eq)

lemma child_of_closed [simp]: "cbb_closed (child_of b cbb) = child_of b cbb"
  by (simp add: child_of_def)

lemma child_start: "holds b (cbb_contents b cbb @ hdr @ replicate n 0) b1 \<Longrightarrow> cbb_start (child_of b cbb) = b_len b1"
  using holds_len by (fastforce simp: child_of_def cbb_start_def)

lemma opened:
  assumes "cbb_ok b cbb" "op env (Some b, cbb) = (True, s1)"
  obtains b1 where "cbb_fits cbb (cbb_bytes b)" "s1 = (Some b1, cbb_with_child cbb (child_of b cbb))"
    "holds b (cbb_contents b cbb @ hdr @ replicate n 0) b1" "cbb_ok b1 (child_of b cbb)"
  using open_sound [OF assms] child_ok [of b cbb] by (auto simp: child_of_def)

lemma body_done:
  assumes body: "child_filler body d ok res" and b: "cbb_ok b cbb"
    and b1: "holds b (cbb_contents b cbb @ hdr @ replicate n 0) b1" "cbb_ok b1 (child_of b cbb)"
    and d: "length d < SIZE_MOD" and run: "body env (Some b1, child_of b cbb) = (True, s2)"
  obtains b2 where "ok" "s2 = (Some b2, child_of b cbb)" "cbb_ok b2 (cbb_with_child cbb (child_of b cbb))"
    "holds b (cbb_contents b cbb @ hdr @ replicate n 0 @ d) b2"
proof -
  from child_filler.fill_sound [OF body b1(2) child_of_closed child_start [OF b1(1)] d run] b1(1) obtain b2 where
    b2: "ok" "s2 = (Some b2, child_of b cbb)" "holds b (cbb_contents b cbb @ hdr @ replicate n 0 @ d) b2"
    by (auto simp: holds_def)
  have "cbb_ok b2 (cbb_with_child cbb (child_of b cbb))"
    using b2(3) length_cbb_bytes [of b2] by (intro cbb_ok_with_child [OF b]) (auto simp: holds_def)
  with b2 show thesis by (intro that)
qed

text \<open>Opening a child, filling it and flushing the parent.\<close>

lemma nested_sound:
  assumes body: "child_filler body d ok res"
    and "cbb_ok b cbb" "length (enclosed d) < SIZE_MOD" "nested body env (Some b, cbb) = (True, s')"
  shows "(ok \<and> enclosable d) \<and> cbb_fits cbb (cbb_bytes b) \<and>
      (\<exists>b'. s' = (Some b', cbb_closed cbb) \<and> holds b (cbb_contents b cbb @ enclosed d) b')"
proof -
  from assms(4) obtain s1 s2 where s: "op env (Some b, cbb) = (True, s1)" "on_child (body env) s1 = (True, s2)"
    "cbb_flush env s2 = (True, s')"
    by (auto simp: nested_def seqb_True_iff)
  have d: "length d < SIZE_MOD" using assms(3) by (simp add: enclosed_def)
  obtain b1 where b1: "cbb_fits cbb (cbb_bytes b)" "s1 = (Some b1, cbb_with_child cbb (child_of b cbb))"
    "holds b (cbb_contents b cbb @ hdr @ replicate n 0) b1" "cbb_ok b1 (child_of b cbb)"
    by (rule opened [OF assms(2) s(1)])
  obtain base2 ch2 where f2: "body env (Some b1, child_of b cbb) = (True, base2, ch2)"
    "s2 = (base2, cbb_with_child cbb ch2)"
    using s(2) by (auto simp: b1(2) on_child_with split: prod.split_asm)
  obtain b2 where b2: "ok" "(base2, ch2) = (Some b2, child_of b cbb)"
    "cbb_ok b2 (cbb_with_child cbb (child_of b cbb))" "holds b (cbb_contents b cbb @ hdr @ replicate n 0 @ d) b2"
    by (rule body_done [OF body assms(2) b1(3,4) d f2(1)])
  from flush.sound [OF b2(3)] s(3) f2(2) b2(1,2,4) filled [OF b2(4)] b1(1)
  show "(ok \<and> enclosable d) \<and> cbb_fits cbb (cbb_bytes b) \<and>
      (\<exists>b'. s' = (Some b', cbb_closed cbb) \<and> holds b (cbb_contents b cbb @ enclosed d) b')"
    by (auto simp: holds_def)
qed

lemma nested_complete:
  assumes body: "child_filler body d ok res"
    and "cbb_ok b cbb" "ok \<and> enclosable d" "cbb_fits cbb (cbb_bytes b)" "res env N" "roomy env N b"
    "length (cbb_contents b cbb @ enclosed d) \<le> N"
  shows "\<exists>b'. nested body env (Some b, cbb) = (True, Some b', cbb_closed cbb) \<and> roomy env N b'"
proof -
  have N: "length (cbb_contents b cbb @ hdr) + n + length d \<le> N" "length d < SIZE_MOD"
    using length_enclosed [of b cbb d] assms(6,7) by (auto simp: roomy_def)
  then have "length (cbb_contents b cbb @ hdr) + n \<le> N" by simp
  from open_complete [OF assms(2,4,6) this] obtain b1 where
    b1: "op env (Some b, cbb) = (True, Some b1, cbb_with_child cbb (child_of b cbb))" "roomy env N b1"
    by (auto simp: child_of_def)
  from opened [OF assms(2) b1(1)] have h1: "holds b (cbb_contents b cbb @ hdr @ replicate n 0) b1"
    "cbb_ok b1 (child_of b cbb)" by auto
  have "b_len b1 + length d \<le> N" using holds_len [OF h1(1)] N(1) by simp
  from child_filler.fill_complete [OF body h1(2) child_of_closed child_start [OF h1(1)] _ assms(5) b1(2) this] assms(3) obtain b2 where
    b2: "body env (Some b1, child_of b cbb) = (True, Some b2, child_of b cbb)" "roomy env N b2"
    by auto
  from body_done [OF body assms(2) h1 N(2) b2(1)] have
    h2: "cbb_ok b2 (cbb_with_child cbb (child_of b cbb))" "holds b (cbb_contents b cbb @ hdr @ replicate n 0 @ d) b2"
    by auto
  from flush.complete [OF h2(1) _ _ b2(2)] filled [OF h2(2)] assms(3,7) obtain b3 where
    "cbb_flush env (Some b2, cbb_with_child cbb (child_of b cbb)) = (True, Some b3, cbb_closed cbb)" "roomy env N b3"
    by auto
  then show "\<exists>b'. nested body env (Some b, cbb) = (True, Some b', cbb_closed cbb) \<and> roomy env N b'"
    by (simp add: nested_def b1(1) on_child_with b2(1))

qed

lemma nested_filler:
  assumes "child_filler body d ok res"
  shows "child_filler (nested body) (enclosed d) (ok \<and> enclosable d) res"
proof
  fix b cbb env s'
  assume a: "cbb_ok b cbb" "cbb_closed cbb = cbb" "length (enclosed d) < SIZE_MOD" "nested body env (Some b, cbb) = (True, s')"
  show "(ok \<and> enclosable d) \<and> (\<exists>b'. s' = (Some b', cbb) \<and> holds b (cbb_bytes b @ enclosed d) b')"
    using nested_sound [OF assms a(1,3,4)] cbb_contents_closed [of b cbb] a(2) by simp
next
  fix b cbb env N
  assume a: "cbb_ok b cbb" "cbb_closed cbb = cbb" "ok \<and> enclosable d" "res env N" "roomy env N b"
    "b_len b + length (enclosed d) \<le> N"
  have "cbb_fits cbb (cbb_bytes b)" using cbb_closed_simps(12) [of cbb "cbb_bytes b"] a(2) by metis
  moreover have "length (cbb_contents b cbb @ enclosed d) \<le> N"
    using cbb_contents_closed [of b cbb] a by (simp add: cbb_ok_def)
  ultimately show "\<exists>b'. nested body env (Some b, cbb) = (True, Some b', cbb) \<and> roomy env N b'"
    using nested_complete [OF assms a(1,3) _ a(4,5)] a(2) by simp
qed

lemma nested_appender:
  assumes body: "closed_appender body d ok"
  shows "cbb_appender (nested body) (enclosed d) (ok \<and> enclosable d)"
proof
  fix b cbb env s'
  assume a: "cbb_ok b cbb" "length (enclosed d) < SIZE_MOD" "nested body env (Some b, cbb) = (True, s')"
  show "(ok \<and> enclosable d) \<and> cbb_fits cbb (cbb_bytes b) \<and>
      (\<exists>b'. s' = (Some b', cbb_closed cbb) \<and> holds b (cbb_contents b cbb @ enclosed d) b')"
    by (rule nested_sound [OF closed_appender_filler [OF body] a])
next
  fix b cbb env N
  assume a: "cbb_ok b cbb" "ok \<and> enclosable d" "cbb_fits cbb (cbb_bytes b)" "roomy env N b"
    "length (cbb_contents b cbb @ enclosed d) \<le> N"
  show "\<exists>b'. nested body env (Some b, cbb) = (True, Some b', cbb_closed cbb) \<and> roomy env N b'"
    by (rule nested_complete [OF closed_appender_filler [OF body] a(1-3) TrueI a(4,5)])
next
  fix b cbb env base' cbb'
  assume a: "cbb_ok b cbb" "length (enclosed d) < SIZE_MOD" "nested body env (Some b, cbb) = (False, base', cbb')"
  have d: "length d < SIZE_MOD" using a(2) by (simp add: enclosed_def)
  obtain r s1 where op: "op env (Some b, cbb) = (r, s1)" by (metis surj_pair)
  show "\<exists>b'. base' = Some b' \<and> b_error b'"
  proof (cases r)
    case False
    then show ?thesis using op a(3) open_failed [OF a(1)] by (simp add: nested_def)
  next
    case True
    obtain b1 where b1: "s1 = (Some b1, cbb_with_child cbb (child_of b cbb))"
      "holds b (cbb_contents b cbb @ hdr @ replicate n 0) b1" "cbb_ok b1 (child_of b cbb)"
      using opened [OF a(1)] op True by metis
    obtain r2 base2 ch2 where f2: "body env (Some b1, child_of b cbb) = (r2, base2, ch2)" by (metis prod_cases3)
    show ?thesis
    proof (cases r2)
      case False
      then show ?thesis
        using a(3) op True b1(1) f2 closed_appender.cfailed [OF body b1(3) child_of_closed d, of env base2 ch2]
        by (simp add: nested_def on_child_with)
    next
      case r2: True
      obtain b2 where "(base2, ch2) = (Some b2, child_of b cbb)" "cbb_ok b2 (cbb_with_child cbb (child_of b cbb))"
        using body_done [OF closed_appender_filler [OF body] a(1) b1(2,3) d, of env "(base2, ch2)"] f2 r2 by metis
      then show ?thesis
        using a(3) op True b1(1) f2 r2 flush.failed [of b2 "cbb_with_child cbb (child_of b cbb)" env base' cbb']
        by (simp add: nested_def on_child_with)
    qed
  qed
next
  fix b :: cbb_buffer and cbb env
  assume "b_error b"
  then show "nested body env (Some b, cbb) = (False, Some b, cbb)"
    by (simp add: nested_def open_sticky)
qed

end

lemma cbb_open_child_True: "cbb_open_child off n asn1 s \<noteq> (False, t)"
  by (cases s; cases "snd s") (simp add: cbb_open_child_def)

lemma cbb_open_child_closed:
  "cbb_open_child off n asn1 (base, cbb_closed cbb) = (True, base, cbb_with_child cbb (CBB None off n asn1 True))"
  by (simp add: cbb_open_child_def cbb_closed_def cbb_with_child_def)

lemma cbb_opener_intro:
  assumes pre: "cbb_appender pre hdr True" and Z: "cbb_appender Z (replicate n 0) True"
    and zeros: "\<And>env b cbb. buf_ok b \<Longrightarrow> zeros env (Some b, cbb_closed cbb) = Z env (Some b, cbb_closed cbb)"
    and op: "\<And>env s. op env s =
      seqb (pre env s) (\<lambda>s. seqb (zeros env s) (cbb_open_child (base_len (fst s)) n asn1))"
    and len: "length hdr + n < SIZE_MOD" "0 < n" "n \<le> 8" "asn1 \<longrightarrow> n = 1"
  shows "cbb_opener op hdr n asn1"
proof -
  have step1: "\<exists>b1. cbb_fits cbb (cbb_bytes b) \<and> s1 = (Some b1, cbb_closed cbb) \<and>
      holds b (cbb_contents b cbb @ hdr) b1 \<and> cbb_ok b1 (cbb_closed cbb) \<and>
      b_len b1 = length (cbb_contents b cbb @ hdr)"
    if ok: "cbb_ok b cbb" and run: "pre env (Some b, cbb) = (True, s1)" for b cbb env s1
    using cbb_appender.sound [OF pre ok _ run] len cbb_ok_closed [OF _ ok, of hdr]
    by (metis holds_len le_add1 length_append order_le_less_trans)
  have step2: "\<exists>b2. s2 = (Some b2, cbb_closed cbb) \<and> holds b1 (cbb_bytes b1 @ replicate n 0) b2"
    if "cbb_ok b1 (cbb_closed cbb)" "Z env (Some b1, cbb_closed cbb) = (True, s2)" for b1 cbb env s2
    using cbb_appender.sound [OF Z that(1) _ that(2)] len by auto
  show ?thesis
  proof
    fix b cbb env s'
    assume a: "cbb_ok b cbb" "op env (Some b, cbb) = (True, s')"
    then obtain s1 s2 where s1: "pre env (Some b, cbb) = (True, s1)" "zeros env s1 = (True, s2)"
      "s' = snd (cbb_open_child (base_len (fst s1)) n asn1 s2)"
      by (auto simp: op seqb_True_iff)
    from step1 [OF a(1) s1(1)] obtain b1 where b1: "cbb_fits cbb (cbb_bytes b)" "s1 = (Some b1, cbb_closed cbb)"
      "holds b (cbb_contents b cbb @ hdr) b1" "cbb_ok b1 (cbb_closed cbb)"
      "b_len b1 = length (cbb_contents b cbb @ hdr)"
      by blast
    then have "Z env (Some b1, cbb_closed cbb) = (True, s2)" using s1(2) zeros by (simp add: cbb_ok_def)
    from step2 [OF b1(4) this] s1(3) b1
    show "cbb_fits cbb (cbb_bytes b) \<and>
      (\<exists>b'. s' = (Some b', cbb_with_child cbb (CBB None (length (cbb_contents b cbb @ hdr)) n asn1 True)) \<and>
        holds b (cbb_contents b cbb @ hdr @ replicate n 0) b')"
      by (auto simp: cbb_open_child_closed base_len_def holds_def)
  next
    fix b cbb env N
    assume a: "cbb_ok b cbb" "cbb_fits cbb (cbb_bytes b)" "roomy env N b" "length (cbb_contents b cbb @ hdr) + n \<le> N"
    obtain b1 where b1: "pre env (Some b, cbb) = (True, Some b1, cbb_closed cbb)" "roomy env N b1"
      using cbb_appender.complete [OF pre a(1) _ a(2,3)] a(4) by auto
    from step1 [OF a(1) b1(1)] have h1: "cbb_ok b1 (cbb_closed cbb)"
      "b_len b1 = length (cbb_contents b cbb @ hdr)" "buf_ok b1" by (auto simp: cbb_ok_def)
    obtain b2 where "Z env (Some b1, cbb_closed cbb) = (True, Some b2, cbb_closed cbb)" "roomy env N b2"
      using cbb_appender.complete [OF Z h1(1) _ _ b1(2)] a(4) h1(2,3) by auto
    then show "\<exists>b'. op env (Some b, cbb) =
        (True, Some b', cbb_with_child cbb (CBB None (length (cbb_contents b cbb @ hdr)) n asn1 True)) \<and>
        roomy env N b'"
      using b1(1) h1 by (simp add: op zeros cbb_open_child_closed base_len_def)
  next
    fix b cbb env base' cbb'
    assume a: "cbb_ok b cbb" "op env (Some b, cbb) = (False, base', cbb')"
    obtain r s1 where run: "pre env (Some b, cbb) = (r, s1)" by (metis surj_pair)
    show "\<exists>b'. base' = Some b' \<and> b_error b'"
    proof (cases r)
      case False
      then show ?thesis using run a(2) cbb_appender.failed [OF pre a(1)] len by (simp add: op)
    next
      case True
      then obtain b1 where b1: "s1 = (Some b1, cbb_closed cbb)" "cbb_ok b1 (cbb_closed cbb)" "buf_ok b1"
        using step1 [OF a(1), of env s1] run unfolding cbb_ok_def by auto
      then have "Z env (Some b1, cbb_closed cbb) = (False, base', cbb')"
        using True run a(2) by (auto simp: op zeros seqb_False_iff cbb_open_child_True)
      then show ?thesis using cbb_appender.failed [OF Z b1(2)] len by simp
    qed
  next
    fix b :: cbb_buffer and cbb env
    assume "b_error b"
    then show "op env (Some b, cbb) = (False, Some b, cbb)"
      by (simp add: op cbb_appender.sticky [OF pre])
  qed (use len in auto)
qed

lemma flush_closed: "buf_ok b \<Longrightarrow> cbb_flush env (Some b, cbb_closed cbb) = (True, Some b, cbb_closed cbb)"
  by (simp add: cbb_flush_def cbb_closed_def buf_ok_def)

lemma prefixed_opener: "0 < n \<Longrightarrow> n \<le> 8 \<Longrightarrow> cbb_opener (\<lambda>env. cbb_add_length_prefixed env n) [] n False"
  by (rule cbb_opener_intro [OF flush.cbb_appender_axioms buf_append.lifted.cbb_appender_axioms,
        where zeros = "\<lambda>env. on_base (buf_append (replicate n 0) env)"])
    (auto simp: flush_closed cbb_add_length_prefixed_def buf_append_def on_base_def seqb_def Let_def SIZE_MOD_def
      split: prod.split)

definition add_tag :: "heap_env \<Rightarrow> u32 \<Rightarrow> cbbst \<Rightarrow> bool \<times> cbbst" where
  "add_tag env tag s =
     (let tag_bits = (ucast (drop_bit CBS_ASN1_TAG_SHIFT tag AND 0xe0) :: byte);
          tag_number = tag AND CBS_ASN1_TAG_NUMBER_MASK in
      if tag_number \<ge> 0x1f then
        seqb (CBB_add_u8 env (tag_bits OR 0x1f) s) (add_base128_integer env (ucast tag_number))
      else CBB_add_u8 env (tag_bits OR ucast tag_number) s)"

lemma tag_bits_byte:
  fixes tag :: u32
  assumes "unat w < 32"
  shows "ucast (drop_bit CBS_ASN1_TAG_SHIFT tag AND 0xe0) OR (w :: byte) =
    word_of_nat (32 * (unat tag div 2 ^ 29) + unat w)"
proof -
  define x :: byte where "x = ucast (drop_bit CBS_ASN1_TAG_SHIFT tag)"
  have "unat tag div 2 ^ 24 < 256" using unat_u32_lt [of tag] by (simp add: less_mult_imp_div_less)
  then have x: "unat x = unat tag div 2 ^ 24"
    by (simp add: x_def CBS_ASN1_TAG_SHIFT_def unsigned_ucast_eq take_bit_eq_mod unat_drop_bit_div
        del: unsigned_drop_bit_eq)
  have "unat x div 32 = unat tag div 2 ^ 29"
    unfolding x div_mult2_eq [symmetric] by simp
  then have "x AND 0xe0 = push_bit 5 (word_of_nat (unat tag div 2 ^ 29))"
    using arg_cong [OF unat_and_byte(1) [of x], of "word_of_nat :: nat \<Rightarrow> byte"]
    by (simp add: push_bit_eq_mult mult.commute of_nat_unat ucast_id)
  moreover have "ucast (drop_bit CBS_ASN1_TAG_SHIFT tag AND 0xe0) = x AND 0xe0"
    by (simp add: x_def unsigned_and_eq)
  ultimately have "ucast (drop_bit CBS_ASN1_TAG_SHIFT tag AND 0xe0) OR w =
      push_bit 5 (word_of_nat (unat tag div 2 ^ 29)) OR w" by simp
  also have "\<dots> = push_bit 5 (word_of_nat (unat tag div 2 ^ 29)) + w"
    using assms by (intro push_or_eq_add) simp
  finally show ?thesis by (simp add: push_bit_eq_mult mult.commute)
qed

interpretation add_tag: cbb_appender "\<lambda>env. add_tag env tag" "der_tag tag" True for tag
proof -
  let ?n = "tag AND CBS_ASN1_TAG_NUMBER_MASK"
  have mask: "CBS_ASN1_TAG_NUMBER_MASK = mask 29" by (simp add: TAG_NUMBER_MASK_eq mask_eq_exp_minus_1)
  have n: "unat ?n = unat tag mod 2 ^ 29" unfolding mask by (rule unat_and_mask_eq)
  show "cbb_appender (\<lambda>env. add_tag env tag) (der_tag tag) True"
  proof (cases "?n \<ge> 0x1f")
    case True
    then have "31 \<le> unat tag mod 2 ^ 29" by (simp add: word_le_nat_alt n)
    then have "der_tag tag = [word_of_nat (32 * (unat tag div 2 ^ 29) + 31)] @ base128 (unat (ucast ?n :: u64))"
      by (simp add: der_tag_def Let_def n)
    with True show ?thesis
      by (intro cbb_appender_eqI [OF cbb_appender_seq [OF
              add_u8.cbb_appender_axioms [of "ucast (drop_bit CBS_ASN1_TAG_SHIFT tag AND 0xe0) OR 0x1f"]
              add_base128.cbb_appender_axioms [of "ucast ?n"]]])
        (simp_all add: add_tag_def tag_bits_byte Let_def)
  next
    case False
    then have lt: "unat tag mod 2 ^ 29 < 31" by (simp add: word_le_nat_alt n)
    then have b: "unat (ucast ?n :: byte) = unat tag mod 2 ^ 29"
      using n by (simp add: unsigned_ucast_eq take_bit_eq_mod)
    have "der_tag tag = [ucast (drop_bit CBS_ASN1_TAG_SHIFT tag AND 0xe0) OR ucast ?n]"
      using lt by (subst tag_bits_byte) (simp_all add: b der_tag_def Let_def)
    with False show ?thesis
      by (intro cbb_appender_eqI [OF add_u8.cbb_appender_axioms]) (simp_all add: add_tag_def Let_def)
  qed
qed

interpretation add_asn1: cbb_opener "\<lambda>env. CBB_add_asn1 env tag" "der_tag tag" 1 True for tag
proof (rule cbb_opener_intro)
  show "cbb_appender (\<lambda>env s. seqb (cbb_flush env s) (add_tag env tag)) (der_tag tag) True"
    by (rule cbb_appender_eqI [OF cbb_appender_seq [OF flush.cbb_appender_axioms add_tag.cbb_appender_axioms]]) simp_all
  show "cbb_appender (\<lambda>env. CBB_add_u8 env 0) (replicate 1 0) True"
    using add_u8.cbb_appender_axioms [of 0] by simp
  show "length (der_tag tag) + 1 < SIZE_MOD" using length_der_tag(1) [of tag] by (simp add: SIZE_MOD_def)
  show "CBB_add_asn1 env tag s = seqb (seqb (cbb_flush env s) (add_tag env tag))
      (\<lambda>s. seqb (CBB_add_u8 env 0 s) (cbb_open_child (base_len (fst s)) 1 True))" for env s
    by (simp add: CBB_add_asn1_def add_tag_def seqb_assoc Let_def)
qed simp_all

lemmas asn1_nested_defs = add_asn1.nested_def [abs_def] add_asn1.enclosed_def add_asn1.enclosable_def if_True

lemma asn1_nested_closed:
  assumes "closed_appender body d ok"
  shows "cbb_appender (\<lambda>env s. seqb (CBB_add_asn1 env tag s) (\<lambda>s. seqb (on_child (body env) s) (cbb_flush env)))
    (der_element tag d) (ok \<and> length d \<le> 0xfffffffe)"
  using add_asn1.nested_appender [OF assms, of tag]
  unfolding asn1_nested_defs der_element_def der_header_def append_assoc .

lemma asn1_nested_filler:
  assumes "child_filler body d ok res"
  shows "child_filler (\<lambda>env s. seqb (CBB_add_asn1 env tag s) (\<lambda>s. seqb (on_child (body env) s) (cbb_flush env)))
    (der_element tag d) (ok \<and> length d \<le> 0xfffffffe) res"
  using add_asn1.nested_filler [OF assms, of tag]
  unfolding asn1_nested_defs der_element_def der_header_def append_assoc .

lemmas asn1_nested = asn1_nested_closed [OF cbb_appender_closed]

lemma prefixed_nested_closed:
  assumes "closed_appender body d ok" "0 < n" "n \<le> 8"
  shows "cbb_appender
    (\<lambda>env s. seqb (cbb_add_length_prefixed env n s) (\<lambda>s. seqb (on_child (body env) s) (cbb_flush env)))
    (be_bytes n (length d) @ d) (ok \<and> length d < 256 ^ n)"
proof -
  note o = prefixed_opener [OF assms(2,3)]
  show ?thesis
    using cbb_opener.nested_appender [OF o assms(1)]
    unfolding cbb_opener.nested_def [OF o, abs_def] cbb_opener.enclosed_def [OF o]
      cbb_opener.enclosable_def [OF o] if_False append_Nil .
qed

lemmas prefixed_nested = prefixed_nested_closed [OF cbb_appender_closed]

end
