(* ===== verification/Asn1_Int.thy ===== *)
theory Asn1_Int
  imports Cbb_Child
begin

text \<open>
  ASN.1 integers. The contents of the DER encoding of an integer are written down over the integers
  (\<open>der_int\<close>: the shortest two's complement string); \<^verbatim>\<open>CBB_add_asn1_uint64\<close> and \<^verbatim>\<open>CBB_add_asn1_int64\<close>
  append exactly that, and \<^verbatim>\<open>CBS_get_asn1_uint64\<close> and \<^verbatim>\<open>CBS_get_asn1_int64\<close> are canonical codecs for it, so the
  two sides of the library agree on every value and the reader accepts no second encoding of it.
\<close>

subsection \<open>Bytes one at a time\<close>

fun add_u8s :: "heap_env \<Rightarrow> byte list \<Rightarrow> cbbst \<Rightarrow> bool \<times> cbbst" where
  "add_u8s env [] s = (True, s)"
| "add_u8s env (b # bs) s = seqb (CBB_add_u8 env b s) (add_u8s env bs)"

lemma seqb_True_id [simp]: "seqb m (\<lambda>s. (True, s)) = m"
  by (auto simp: seqb_def split: prod.split)

lemma add_u8s_Nil [simp]: "add_u8s env [] = (\<lambda>s. (True, s))"
  by (simp add: fun_eq_iff)

lemma add_u8s_appender: "bs \<noteq> [] \<Longrightarrow> cbb_appender (\<lambda>env. add_u8s env bs) bs True"
proof (induction bs)
  case (Cons b bs)
  show ?case
  proof (cases "bs = []")
    case True
    then show ?thesis using add_u8.cbb_appender_axioms [of b] by simp
  next
    case False
    then show ?thesis
      using cbb_appender_seq [OF add_u8.cbb_appender_axioms [of b] Cons.IH] by simp
  qed
qed simp

lemma be_bytes_Suc_Cons: "be_bytes (Suc n) v = word_of_nat (v div 256 ^ n) # be_bytes n v"
  by (induction n arbitrary: v) (simp_all add: div_mult2_eq)

subsection \<open>Unsigned integers\<close>

fun min_bytes :: "nat \<Rightarrow> byte list" where
  "min_bytes n = (if n = 0 then [] else min_bytes (n div 256) @ [word_of_nat n])"

declare min_bytes.simps [simp del]

text \<open>The contents of the DER encoding of a natural number: the shortest two's complement form.\<close>

definition der_uint :: "nat \<Rightarrow> byte list" where
  "der_uint n =
     (if n = 0 then [0] else if hd (min_bytes n) AND 0x80 \<noteq> 0 then 0 # min_bytes n else min_bytes n)"

lemma min_bytes_0 [simp]: "min_bytes 0 = []"
  by (simp add: min_bytes.simps)

lemma min_bytes_eq: "256 ^ k \<le> n \<Longrightarrow> n < 256 ^ Suc k \<Longrightarrow> min_bytes n = be_bytes (Suc k) n"
proof (induction k arbitrary: n)
  case 0
  then show ?case by (simp add: min_bytes.simps)
next
  case (Suc k)
  then have "256 ^ k \<le> n div 256" "n div 256 < 256 ^ Suc k" "n \<noteq> 0"
    by (auto simp: less_eq_div_iff_mult_less_eq div_less_iff_less_mult mult.commute)
  with Suc.IH show ?case by (subst min_bytes.simps) simp
qed

lemma uint64_byte: "(ucast (drop_bit (8 * n) val AND 0xff) :: byte) = word_of_nat (unat (val :: u64) div 256 ^ n)"
proof -
  have m: "(0xff :: u64) = mask 8" by (simp add: mask_eq_exp_minus_1)
  have "(ucast (drop_bit (8 * n) val AND 0xff) :: byte) = ucast (drop_bit (8 * n) val)"
    unfolding m by (rule bit_word_eqI) (auto simp: bit_simps)
  also have "\<dots> = word_of_nat (unat (drop_bit (8 * n) val))" by (simp only: of_nat_unat)
  finally show ?thesis by (simp add: unat_drop_bit_div power_mult del: unsigned_drop_bit_eq)
qed

lemma asn1_uint64_bytes_started:
  "asn1_uint64_bytes env val n True s =
     (case add_u8s env (be_bytes n (unat val)) s of (r, s) \<Rightarrow> (r, True, s))"
  by (induction n arbitrary: s)
    (auto simp: uint64_byte be_bytes_Suc_Cons seqb_def simp del: be_bytes.simps(2) split: prod.split)

lemma asn1_uint64_body_skip:
  "unat val < 256 ^ n \<Longrightarrow> n \<le> m \<Longrightarrow>
   asn1_uint64_bytes env val m False s = asn1_uint64_bytes env val n False s"
proof (induction "m - n" arbitrary: m)
  case (Suc k)
  then obtain m' where m: "m = Suc m'" "n \<le> m'" by (metis Suc_diff_le diff_diff_cancel diff_le_self le_SucE
        nat.simps(3) not0_implies_Suc diff_is_0_eq le_0_eq)
  have "unat val < 256 ^ m'" using Suc.prems(1) m(2) by (meson order_less_le_trans one_le_numeral power_increasing)
  then have "(ucast (drop_bit (8 * m') val AND 0xff) :: byte) = 0" by (simp add: uint64_byte)
  then show ?case using Suc m by simp
qed simp

lemma asn1_uint64_body_eq: "asn1_uint64_body env val s = add_u8s env (der_uint (unat val)) s"
proof (cases "val = 0")
  case True
  have "asn1_uint64_bytes env 0 8 False s = (True, False, s)"
    using asn1_uint64_body_skip [of 0 0 8 env s] by simp
  then show ?thesis using True by (simp add: asn1_uint64_body_def der_uint_def)
next
  case False
  define k where "k = (LEAST k. unat val < 256 ^ Suc k)"
  have "unat val < 256 ^ Suc 7" using unat_u64_lt [of val] by simp
  then have k: "unat val < 256 ^ Suc k" "k \<le> 7" unfolding k_def by (rule LeastI, rule Least_le)
  have k': "256 ^ k \<le> unat val"
  proof (cases k)
    case 0
    then show ?thesis using False by (simp add: Suc_le_eq word_unat_eq_iff)
  next
    case (Suc j)
    then have "\<not> unat val < 256 ^ Suc j" using not_less_Least [of j "\<lambda>k. unat val < 256 ^ Suc k"] by (simp add: k_def)
    then show ?thesis using Suc by simp
  qed
  let ?b = "word_of_nat (unat val div 256 ^ k) :: byte"
  have "unat val div 256 ^ k < 256" using k by (simp add: div_less_iff_less_mult mult.commute)
  then have "unat ?b = unat val div 256 ^ k" by (intro unat_word_of_nat_lt) simp
  moreover have "0 < unat val div 256 ^ k" using k' by (simp add: div_greater_zero_iff)
  ultimately have b: "?b \<noteq> 0" by (metis less_numeral_extra(3) unsigned_0)
  have mb: "min_bytes (unat val) = ?b # be_bytes k (unat val)"
    using min_bytes_eq [OF k' k(1)] by (simp only: be_bytes_Suc_Cons)
  have "asn1_uint64_bytes env val 8 False s = asn1_uint64_bytes env val (Suc k) False s"
    by (rule asn1_uint64_body_skip) (use k in auto)
  then show ?thesis
    using False b
    by (auto simp: asn1_uint64_body_def der_uint_def mb uint64_byte asn1_uint64_bytes_started seqb_def
        unat_eq_zero split: prod.split)
qed

lemma der_uint_not_Nil [simp]: "der_uint n \<noteq> []"
  by (subst der_uint_def) (simp add: min_bytes.simps)

interpretation add_asn1_uint64: cbb_appender "\<lambda>env. CBB_add_asn1_uint64 env v"
  "der_element CBS_ASN1_INTEGER (der_uint (unat v))" "length (der_uint (unat v)) \<le> 0xfffffffe" for v
  using asn1_nested [OF add_u8s_appender [OF der_uint_not_Nil], of CBS_ASN1_INTEGER "unat v"]
  by (simp add: CBB_add_asn1_uint64_def [abs_def] asn1_uint64_body_eq [abs_def])

interpretation add_asn1_octet_string: cbb_appender "\<lambda>env. CBB_add_asn1_octet_string env data"
  "der_element CBS_ASN1_OCTETSTRING data" "length data \<le> 0xfffffffe" for data
  using asn1_nested [OF add_bytes.cbb_appender_axioms, of CBS_ASN1_OCTETSTRING data]
  by (simp add: CBB_add_asn1_octet_string_def [abs_def])

interpretation add_asn1_bool: cbb_appender "\<lambda>env. CBB_add_asn1_bool env v"
  "der_element CBS_ASN1_BOOLEAN [if v \<noteq> 0 then 0xff else 0]" True for v
  using asn1_nested [OF add_u8.cbb_appender_axioms, of CBS_ASN1_BOOLEAN "if v \<noteq> 0 then 0xff else 0"]
  by (simp add: CBB_add_asn1_bool_def [abs_def])

subsection \<open>Reading unsigned integers\<close>

lemma asn1_uint64_loop_eq:
  "asn1_uint64_loop out bs =
     (if unat out * 256 ^ length bs + be_val bs < 2 ^ 64
      then Some (word_of_nat (unat out * 256 ^ length bs + be_val bs)) else None)"
proof (induction bs arbitrary: out)
  case Nil
  then show ?case using unat_u64_lt [of out] by simp
next
  case (Cons b bs)
  show ?case
  proof (cases "unat out < 2 ^ 56")
    case True
    have "unat (push_bit 8 out OR ucast b) = unat out * 256 + unat b"
      using True unat_byte_lt [of b] by (subst unat_push_or) simp_all
    then show ?thesis
      using True Cons.IH [of "push_bit 8 out OR ucast b"]
      by (simp add: drop_bit_eq_0_iff_unat be_val_Cons algebra_simps)
  next
    case False
    have "(2 :: nat) ^ 64 \<le> 2 ^ 56 * 256" by simp
    also have "\<dots> \<le> unat out * 256" using False by simp
    also have "\<dots> \<le> unat out * 256 * 256 ^ length bs" by simp
    also have "\<dots> \<le> unat out * 256 ^ length (b # bs) + be_val (b # bs)" by (simp add: mult.assoc)
    finally show ?thesis using False by (simp add: drop_bit_eq_0_iff_unat)
  qed
qed

lemma valid_integer_simps [simp]:
  "CBS_is_valid_asn1_integer [] = None"
  "CBS_is_valid_asn1_integer [b] = Some (b AND 0x80 \<noteq> 0)"
  "CBS_is_valid_asn1_integer (b # c # bs) =
     (if b = 0 \<and> c AND 0x80 = 0 \<or> b = 0xff \<and> c AND 0x80 \<noteq> 0 then None else Some (b AND 0x80 \<noteq> 0))"
  by (simp_all add: CBS_is_valid_asn1_integer_def CBS_get_u8_Cons)

lemma be_val_lead:
  assumes "b \<noteq> 0" shows "256 ^ length bs \<le> be_val (b # bs)"
proof -
  have "1 \<le> unat b" using assms by (simp add: Suc_le_eq word_unat_eq_iff)
  then have "1 * 256 ^ length bs \<le> unat b * 256 ^ length bs" by (rule mult_le_mono1)
  then show ?thesis unfolding be_val_Cons by linarith
qed

lemma min_bytes_be_val:
  assumes "b \<noteq> 0" shows "min_bytes (be_val (b # bs)) = b # bs"
proof -
  have "256 ^ length bs \<le> be_val (b # bs)" using assms by (rule be_val_lead)
  moreover have "be_val (b # bs) < 256 ^ Suc (length bs)" using be_val_bound [of "b # bs"] by simp
  ultimately show ?thesis using min_bytes_eq be_bytes_be_val [of "b # bs"] by simp
qed

lemma be_val_pos: "b \<noteq> 0 \<Longrightarrow> be_val (b # bs) \<noteq> 0"
  by (metis min_bytes_be_val min_bytes_0 list.distinct(1))

lemma be_val_0_Cons: "be_val (0 # bs) = be_val bs"
  by (simp add: be_val_Cons)

lemma unsigned_integer_eq_der_uint:
  "CBS_is_unsigned_asn1_integer bs \<Longrightarrow> bs = der_uint (be_val bs)"
proof (cases bs rule: remdups_adj.cases)
  case (2 b)
  then show "CBS_is_unsigned_asn1_integer bs \<Longrightarrow> ?thesis"
    using min_bytes_be_val [of b "[]"] be_val_pos [of b "[]"]
    by (cases "b = 0") (auto simp: CBS_is_unsigned_asn1_integer_def der_uint_def be_val_0_Cons)
next
  case (3 b c r)
  assume u: "CBS_is_unsigned_asn1_integer bs"
  show ?thesis
  proof (cases "b = 0")
    case True
    with 3 u have "c AND 0x80 \<noteq> 0" by (auto simp: CBS_is_unsigned_asn1_integer_def split: if_split_asm)
    moreover from this have "c \<noteq> 0" by auto
    ultimately show ?thesis
      using 3 True by (simp add: be_val_0_Cons der_uint_def min_bytes_be_val be_val_pos)
  next
    case False
    with 3 u have "b AND 0x80 = 0" by (auto simp: CBS_is_unsigned_asn1_integer_def split: if_split_asm)
    then show ?thesis using 3 False by (simp add: der_uint_def min_bytes_be_val be_val_pos)
  qed
qed (simp add: CBS_is_unsigned_asn1_integer_def)

lemma min_bytes_Cons: "n \<noteq> 0 \<Longrightarrow> \<exists>b bs. min_bytes n = b # bs \<and> b \<noteq> 0 \<and> be_val (b # bs) = n"
proof (induction n rule: min_bytes.induct)
  case (1 n)
  show ?case
  proof (cases "n div 256 = 0")
    case True
    then have "n < 256" by (simp add: div_eq_0_iff)
    then have "unat (word_of_nat n :: byte) = n" by (intro unat_word_of_nat_lt) simp
    moreover from this have "(word_of_nat n :: byte) \<noteq> 0" using 1(2) by (metis unsigned_0)
    moreover have "min_bytes n = [word_of_nat n]" using 1(2) True by (subst min_bytes.simps) simp
    ultimately show ?thesis by (simp add: be_val_def)
  next
    case False
    with 1 obtain b bs where b: "min_bytes (n div 256) = b # bs" "b \<noteq> 0" "be_val (b # bs) = n div 256" by auto
    have "min_bytes n = b # (bs @ [word_of_nat n])" using 1(2) b(1) by (subst min_bytes.simps) simp
    moreover have "be_val ((b # bs) @ [word_of_nat n]) = n"
      unfolding be_val_snoc b(3) by (simp add: unat_word_of_nat_byte)
    ultimately show ?thesis using b(2) by auto
  qed
qed

lemma be_val_der_uint [der_simps]: "be_val (der_uint n) = n"
  using min_bytes_Cons [of n] by (cases "n = 0") (auto simp: der_uint_def be_val_0_Cons)

lemma unsigned_der_uint: "CBS_is_unsigned_asn1_integer (der_uint n)"
proof (cases "n = 0")
  case True
  then show ?thesis by (simp add: der_uint_def CBS_is_unsigned_asn1_integer_def)
next
  case False
  then obtain b bs where "min_bytes n = b # bs" "b \<noteq> 0" using min_bytes_Cons by blast
  with False show ?thesis
    by (cases bs) (auto simp: der_uint_def CBS_is_unsigned_asn1_integer_def)
qed

lemma length_der_uint: "n < 256 ^ k \<Longrightarrow> 0 < k \<Longrightarrow> length (der_uint n) \<le> Suc k"
proof (cases "n = 0")
  case False
  assume k: "n < 256 ^ k"
  obtain b bs where b: "min_bytes n = b # bs" "b \<noteq> 0" "be_val (b # bs) = n" using False min_bytes_Cons by blast
  have "256 ^ length bs \<le> n" using be_val_lead [OF b(2)] b(3) by metis
  then have "256 ^ length bs < (256 :: nat) ^ k" using k by (rule order_le_less_trans)
  then have "length bs < k" by simp
  then show ?thesis using False b(1) by (simp add: der_uint_def)
qed (simp add: der_uint_def)

interpretation asn1_uint64: canonical_codec "\<lambda>v. der_element CBS_ASN1_INTEGER (der_uint (unat v))"
  CBS_get_asn1_uint64 "\<lambda>v. True"
proof
  fix a :: u64 and r
  have "length (der_uint (unat a)) \<le> Suc 8" using unat_u64_lt [of a] by (intro length_der_uint) simp_all
  then have "CBS_get_asn1 (der_element CBS_ASN1_INTEGER (der_uint (unat a)) @ r) CBS_ASN1_INTEGER =
      (Some (der_uint (unat a)), r)"
    by (simp add: CBS_get_asn1_Some_iff)
  then show "CBS_get_asn1_uint64 (der_element CBS_ASN1_INTEGER (der_uint (unat a)) @ r) = (Some a, r)"
    using unat_u64_lt [of a] by (simp add: CBS_get_asn1_uint64_def unsigned_der_uint CBS_data_def
        asn1_uint64_loop_eq be_val_der_uint of_nat_unat ucast_id)
next
  fix c r and a :: u64
  assume "CBS_get_asn1_uint64 c = (Some a, r)"
  then obtain bs where bs: "CBS_get_asn1 c CBS_ASN1_INTEGER = (Some bs, r)" "CBS_is_unsigned_asn1_integer bs"
    "asn1_uint64_loop 0 bs = Some a"
    by (auto simp: CBS_get_asn1_uint64_def rbind_Some_iff CBS_data_def split: if_split_asm)
  from bs(3) have "be_val bs < 2 ^ 64" "a = word_of_nat (be_val bs)"
    by (auto simp: asn1_uint64_loop_eq split: if_split_asm)
  then have "unat a = be_val bs" by (simp add: unat_word_of_nat_lt)
  then have "bs = der_uint (unat a)" using unsigned_integer_eq_der_uint [OF bs(2)] by simp
  with bs(1) show "True \<and> c = der_element CBS_ASN1_INTEGER (der_uint (unat a)) @ r"
    by (simp add: CBS_get_asn1_Some_iff)
qed

subsection \<open>Signed integers\<close>

text \<open>The contents of the DER encoding of an integer: a negative number \<open>i\<close> is the bitwise complement of
  the encoding of \<open>- i - 1\<close>.\<close>

definition der_int :: "int \<Rightarrow> byte list" where
  "der_int i = (if 0 \<le> i then der_uint (nat i) else map NOT (der_uint (nat (- i - 1))))"

text \<open>The value of a big-endian two's complement string.\<close>

definition sbe_val :: "byte list \<Rightarrow> int" where
  "sbe_val bs = int (be_val bs) - (if hd bs AND 0x80 \<noteq> 0 then 256 ^ length bs else 0)"

lemma unat_NOT_byte: "unat (NOT (b :: byte)) = 255 - unat b"
proof -
  have "NOT b = - 1 - b" by (simp add: not_eq_complement)
  moreover have "unat (- 1 - b) = unat (- 1 :: byte) - unat b" by (rule unat_sub) simp
  moreover have "unat (- 1 :: byte) = 255" by (simp add: unsigned_minus_1_eq_mask mask_eq_exp_minus_1)
  ultimately show ?thesis by simp
qed

lemma be_val_map_NOT: "be_val (map NOT bs) + be_val bs + 1 = 256 ^ length bs"
proof (induction bs rule: rev_induct)
  case (snoc b bs)
  have "unat b \<le> 255" using unat_byte_lt [of b] by simp
  with snoc show ?case by (simp add: unat_NOT_byte algebra_simps)
qed simp

lemma high_NOT [simp]: "NOT (b :: byte) AND 0x80 = 0 \<longleftrightarrow> b AND 0x80 \<noteq> 0"
  using unat_byte_lt [of b] by (auto simp: high_bit_iff unat_NOT_byte)

lemma NOT_byte_eq [simp]: "NOT (b :: byte) = 0 \<longleftrightarrow> b = 0xff" "NOT (b :: byte) = 0xff \<longleftrightarrow> b = 0"
  using unat_byte_lt [of b] by (auto simp: word_unat_eq_iff unat_NOT_byte)

lemma valid_map_NOT: "CBS_is_valid_asn1_integer (map NOT bs) = map_option Not (CBS_is_valid_asn1_integer bs)"
  by (cases bs rule: remdups_adj.cases) auto

lemma sbe_val_map_NOT: "bs \<noteq> [] \<Longrightarrow> sbe_val (map NOT bs) = - sbe_val bs - 1"
proof -
  assume ne: "bs \<noteq> []"
  have "int (be_val (map NOT bs) + be_val bs + 1) = int (256 ^ length bs)" by (simp only: be_val_map_NOT)
  then have "int (be_val (map NOT bs)) = 256 ^ length bs - int (be_val bs) - 1" by simp
  then show ?thesis using ne by (simp add: sbe_val_def hd_map)
qed

lemma map_NOT_NOT [simp]: "map NOT (map NOT (bs :: byte list)) = bs"
  by (simp add: comp_def)

lemma valid_unsigned: "CBS_is_valid_asn1_integer bs = Some False \<longleftrightarrow> CBS_is_unsigned_asn1_integer bs"
  by (auto simp: CBS_is_unsigned_asn1_integer_def split: option.splits)

lemma valid_hd: "CBS_is_valid_asn1_integer bs = Some neg \<Longrightarrow> bs \<noteq> [] \<and> neg = (hd bs AND 0x80 \<noteq> 0)"
  by (cases bs rule: remdups_adj.cases) (auto split: if_split_asm)

lemma sbe_val_der_int [der_simps]: "sbe_val (der_int i) = i"
proof -
  have u: "sbe_val (der_uint n) = int n" for n
    using valid_hd [of "der_uint n" False] unsigned_der_uint [of n]
    by (auto simp: sbe_val_def be_val_der_uint valid_unsigned)
  then show ?thesis by (simp add: der_int_def sbe_val_map_NOT)
qed

lemma valid_der_int: "CBS_is_valid_asn1_integer (der_int i) = Some (i < 0)"
  using unsigned_der_uint [of "nat i"] unsigned_der_uint [of "nat (- i - 1)"]
  by (auto simp: der_int_def valid_map_NOT simp flip: valid_unsigned)

lemma valid_eq_der_int: "CBS_is_valid_asn1_integer bs \<noteq> None \<Longrightarrow> bs = der_int (sbe_val bs)"
proof -
  assume "CBS_is_valid_asn1_integer bs \<noteq> None"
  then obtain neg where v: "CBS_is_valid_asn1_integer bs = Some neg" by blast
  note ne = valid_hd [OF v]
  show ?thesis
  proof (cases neg)
    case False
    then have "bs = der_uint (be_val bs)" using v by (intro unsigned_integer_eq_der_uint) (simp add: valid_unsigned)
    moreover have "sbe_val bs = int (be_val bs)" using ne False by (simp add: sbe_val_def)
    ultimately show ?thesis by (simp add: der_int_def)
  next
    case True
    let ?c = "map NOT bs"
    have vc: "CBS_is_valid_asn1_integer ?c = Some False" using v True by (simp add: valid_map_NOT)
    then have c: "?c = der_uint (be_val ?c)" by (intro unsigned_integer_eq_der_uint) (simp add: valid_unsigned)
    have "sbe_val ?c = int (be_val ?c)" using valid_hd [OF vc] by (simp add: sbe_val_def)
    then have "sbe_val bs = - int (be_val ?c) - 1" using sbe_val_map_NOT [of bs] ne by simp
    then have "der_int (sbe_val bs) = map NOT ?c" using c by (simp add: der_int_def)
    then show ?thesis by (simp only: map_NOT_NOT)
  qed
qed

lemma be_val_replicate_0: "be_val (replicate k 0) = 0"
  by (induction k) (simp_all add: be_val_0_Cons)

lemma be_val_replicate_ff: "be_val (replicate k 0xff) + 1 = 256 ^ k"
  by (induction k) (simp_all add: be_val_Cons)

lemma sint_word_of_int_64: "- (2 ^ 63) \<le> i \<Longrightarrow> i < 2 ^ 63 \<Longrightarrow> sint (word_of_int i :: u64) = i"
  by (simp add: signed_of_int signed_take_bit_int_eq_self)

lemma word_of_nat_sub: "word_of_int (int w - 2 ^ 64) = (word_of_nat w :: u64)"
  by simp

text \<open>Sign extension to eight bytes keeps the value.\<close>

lemma sbe_val_bounds: "bs \<noteq> [] \<Longrightarrow> - (256 ^ length bs) \<le> 2 * sbe_val bs \<and> 2 * sbe_val bs < 256 ^ length bs"
proof -
  assume "bs \<noteq> []"
  then obtain b r where b: "bs = b # r" by (cases bs) auto
  define m u where "m = int (256 ^ length r)" and "u = int (unat b)"
  have u: "u < 256" "0 \<le> u" "128 \<le> unat b \<longleftrightarrow> 128 \<le> u"
    using unat_byte_lt [of b] unfolding u_def by linarith+
  have r: "0 \<le> int (be_val r)" "int (be_val r) < m" using be_val_bound [of r] unfolding m_def by simp_all
  have s: "sbe_val bs = u * m + int (be_val r) - (if 128 \<le> u then 256 * m else 0)"
    unfolding u(3) [symmetric] by (simp add: sbe_val_def b high_bit_iff m_def be_val_Cons not_less u_def)
  have p: "256 ^ length bs = 256 * m" by (simp add: b m_def)
  have m: "0 < m" by (simp add: m_def)
  show ?thesis
  proof (cases "128 \<le> u")
    case True
    define x where "x = u * m"
    have "128 * m \<le> x" "x \<le> 255 * m" using m u True by (simp_all add: x_def mult_right_mono)
    then show ?thesis using r unfolding s p if_P [OF True] x_def [symmetric] by simp
  next
    case False
    define x where "x = u * m"
    have "x \<le> 127 * m" "0 \<le> x" using m u False by (simp_all add: x_def mult_right_mono)
    then show ?thesis using r m unfolding s p if_not_P [OF False] x_def [symmetric] by simp
  qed
qed

lemma sign_extended:
  assumes "bs \<noteq> []" "length bs \<le> 8"
  shows "sint (word_of_nat (be_val (replicate (8 - length bs) (if hd bs AND 0x80 \<noteq> 0 then 0xff else 0) @ bs)) :: u64)
    = sbe_val bs"
proof -
  define w where "w = be_val (replicate (8 - length bs) (if hd bs AND 0x80 \<noteq> 0 then 0xff else 0) @ bs)"
  have m: "256 ^ (8 - length bs) * 256 ^ length bs = (2 :: nat) ^ 64" "(256 :: int) ^ length bs \<le> 2 ^ 64"
    using assms(2) power_add [of "256 :: nat" "8 - length bs" "length bs"]
      power_increasing [OF assms(2), of "256 :: int"] by simp_all
  have "(word_of_nat w :: u64) = word_of_int (sbe_val bs)"
  proof (cases "hd bs AND 0x80 \<noteq> 0")
    case True
    have "w + 256 ^ length bs = (be_val (replicate (8 - length bs) 0xff) + 1) * 256 ^ length bs + be_val bs"
      using True by (simp add: w_def be_val_append)
    then have "w + 256 ^ length bs = 2 ^ 64 + be_val bs" unfolding be_val_replicate_ff m(1) .
    then have "int w + 256 ^ length bs = 2 ^ 64 + int (be_val bs)" by (metis of_nat_add of_nat_numeral of_nat_power)
    then have "sbe_val bs = int w - 2 ^ 64" using True by (simp add: sbe_val_def)
    then show ?thesis by (simp only: word_of_nat_sub)
  next
    case False
    then have "w = be_val bs" "sbe_val bs = int (be_val bs)"
      by (simp_all add: w_def sbe_val_def be_val_append be_val_replicate_0)
    then show ?thesis by simp
  qed
  moreover have "- (2 ^ 63) \<le> sbe_val bs" "sbe_val bs < 2 ^ 63"
    using sbe_val_bounds [OF assms(1)] m(2) by simp_all
  ultimately show ?thesis using sint_word_of_int_64 by (simp only: w_def)
qed

lemma length_der_uint_half:
  assumes "2 * n < 256 ^ k" "0 < k" shows "length (der_uint n) \<le> k"
proof (cases "n = 0")
  case False
  obtain b bs where b: "min_bytes n = b # bs" "b \<noteq> 0" "be_val (b # bs) = n" using False min_bytes_Cons by blast
  have n: "n = unat b * 256 ^ length bs + be_val bs" using b(3) by (simp add: be_val_Cons)
  show ?thesis
  proof (cases "128 \<le> unat b")
    case True
    define x where "x = unat b * 256 ^ length bs"
    have "128 * 256 ^ length bs \<le> x" unfolding x_def using True by (rule mult_le_mono1)
    then have "256 ^ Suc (length bs) \<le> 2 * n" unfolding n x_def [symmetric] by simp
    then have "256 ^ Suc (length bs) < (256 :: nat) ^ k" using assms(1) by (rule order_le_less_trans)
    then have "Suc (length bs) < k" by (simp only: power_strict_increasing_iff)
    then show ?thesis using False b(1) True by (simp add: der_uint_def)
  next
    case False
    have "256 ^ length bs \<le> n" using be_val_lead [OF b(2)] b(3) by metis
    then have "256 ^ length bs < (256 :: nat) ^ k" using assms(1) by linarith
    then have "length bs < k" by simp
    then show ?thesis using False b(1) by (auto simp: der_uint_def high_bit_iff)
  qed
qed (use assms in \<open>simp add: der_uint_def\<close>)

lemma length_der_int_8: "- (2 ^ 63) \<le> i \<Longrightarrow> i < 2 ^ 63 \<Longrightarrow> length (der_int i) \<le> 8"
  using length_der_uint_half [of "nat i" 8] length_der_uint_half [of "nat (- i - 1)" 8] by (simp add: der_int_def)

lemma get_asn1_int64_contents:
  assumes "CBS_get_asn1 c CBS_ASN1_INTEGER = (Some bs, r)"
  shows "CBS_get_asn1_int64 c =
    (if CBS_is_valid_asn1_integer bs = None \<or> 8 < length bs then None else Some (sbe_val bs), r)"
proof (cases "CBS_is_valid_asn1_integer bs")
  case None
  then show ?thesis using assms by (simp add: CBS_get_asn1_int64_def)
next
  case (Some neg)
  note ne = valid_hd [OF Some]
  have "le_val (mem_write 0 (rev bs) (replicate 8 x)) = be_val (replicate (8 - length bs) x @ bs)"
    if "length bs \<le> 8" for x :: byte
    using that by (simp add: le_val_def mem_write_def)
  then show ?thesis
    using assms Some ne sign_extended [of bs] by (simp add: CBS_get_asn1_int64_def Let_def)
qed

interpretation asn1_int64: canonical_codec "\<lambda>i. der_element CBS_ASN1_INTEGER (der_int i)"
  CBS_get_asn1_int64 "\<lambda>i. - (2 ^ 63) \<le> i \<and> i < 2 ^ 63"
proof
  fix i :: int and r
  assume "- (2 ^ 63) \<le> i \<and> i < 2 ^ 63"
  then have len: "length (der_int i) \<le> 8" using length_der_int_8 by blast
  then have "CBS_get_asn1 (der_element CBS_ASN1_INTEGER (der_int i) @ r) CBS_ASN1_INTEGER = (Some (der_int i), r)"
    by (simp add: CBS_get_asn1_Some_iff)
  from get_asn1_int64_contents [OF this] len
  show "CBS_get_asn1_int64 (der_element CBS_ASN1_INTEGER (der_int i) @ r) = (Some i, r)"
    by (simp add: valid_der_int sbe_val_der_int)
next
  fix c r and i :: int
  assume a: "CBS_get_asn1_int64 c = (Some i, r)"
  then obtain bs where bs: "CBS_get_asn1 c CBS_ASN1_INTEGER = (Some bs, r)"
    by (auto simp: CBS_get_asn1_int64_def rbind_Some_iff split: option.split_asm if_split_asm)
  from a get_asn1_int64_contents [OF bs] have v: "CBS_is_valid_asn1_integer bs \<noteq> None" "length bs \<le> 8" "i = sbe_val bs"
    by (auto split: if_split_asm)
  then have ne: "bs \<noteq> []" by auto
  have "(256 :: int) ^ length bs \<le> 2 ^ 64" using power_increasing [OF v(2), of "256 :: int"] by simp
  then have "- (2 ^ 63) \<le> i \<and> i < 2 ^ 63" using sbe_val_bounds [OF ne] v(3) by simp
  moreover have "bs = der_int i" using valid_eq_der_int [OF v(1)] v(3) by simp
  ultimately show "(- (2 ^ 63) \<le> i \<and> i < 2 ^ 63) \<and> c = der_element CBS_ASN1_INTEGER (der_int i) @ r"
    using bs by (simp add: CBS_get_asn1_Some_iff)
qed

subsection \<open>Writing signed integers\<close>

fun strip_ff :: "byte list \<Rightarrow> byte list" where
  "strip_ff (b # c # bs) = (if b = 0xff \<and> c AND 0x80 \<noteq> 0 then strip_ff (c # bs) else b # c # bs)"
| "strip_ff bs = bs"

lemma strip_ff_props:
  "bs \<noteq> [] \<Longrightarrow> hd bs AND 0x80 \<noteq> 0 \<Longrightarrow>
   CBS_is_valid_asn1_integer (strip_ff bs) = Some True \<and> sbe_val (strip_ff bs) = sbe_val bs"
proof (induction bs rule: strip_ff.induct)
  case (1 b c bs)
  show ?case
  proof (cases "b = 0xff \<and> c AND 0x80 \<noteq> 0")
    case True
    then have "sbe_val (b # c # bs) = sbe_val (c # bs)" by (simp add: sbe_val_def be_val_Cons)
    with True 1 show ?thesis by simp
  next
    case False
    then show ?thesis using 1(3) by auto
  qed
qed auto

lemma rev_take_Suc: "n < length u \<Longrightarrow> rev (take (Suc n) u) = u ! n # rev (take n u)"
  by (simp add: take_Suc_conv_app_nth)

lemma int64_start_strip:
  "n < length u \<Longrightarrow> rev (take (Suc (int64_start u n)) u) = strip_ff (rev (take (Suc n) u))"
proof (induction n)
  case 0
  then show ?case by (cases u) simp_all
next
  case (Suc n)
  have two: "rev (take (Suc (Suc n)) u) = u ! Suc n # u ! n # rev (take n u)"
    using Suc.prems by (simp only: rev_take_Suc Suc_lessD)
  have one: "rev (take (Suc n) u) = u ! n # rev (take n u)"
    using Suc.prems by (simp only: rev_take_Suc Suc_lessD)
  show ?case
  proof (cases "u ! Suc n = 0xff \<and> u ! n AND 0x80 \<noteq> 0")
    case True
    then show ?thesis using Suc.IH Suc.prems one two by simp
  next
    case False
    then have "int64_start u (Suc n) = Suc n" "strip_ff (u ! Suc n # u ! n # rev (take n u)) = rev (take (Suc (Suc n)) u)"
      using two by auto
    then show ?thesis by (simp only: two)
  qed
qed

lemma add_bytes_down_eq: "n \<le> length u \<Longrightarrow> add_bytes_down env u n s = add_u8s env (rev (take n u)) s"
proof (induction n arbitrary: s)
  case (Suc n)
  then show ?case by (simp add: rev_take_Suc seqb_def split: prod.split)
qed simp

lemma int64_bytes_props:
  assumes "- (2 ^ 63) \<le> i" "i < 0"
  shows "hd (rev (int64_bytes i)) AND 0x80 \<noteq> 0" "sbe_val (rev (int64_bytes i)) = i"
proof -
  define w where "w = nat (i + 2 ^ 64)"
  have w: "w < 2 ^ 64" "2 ^ 63 \<le> w" "int w = i + 2 ^ 64" using assms by (simp_all add: w_def)
  have "(word_of_int i :: u64) = word_of_nat w"
    using word_of_nat_sub [of w] w(3) by simp
  then have u: "unat (word_of_int i :: u64) = w" using w(1) by (simp add: unat_word_of_nat_lt)
  have bytes: "rev (int64_bytes i) = word_of_nat (w div 256 ^ 7) # be_bytes 7 w"
    unfolding int64_bytes_def u rev_rev_ident using be_bytes_Suc_Cons [of 7 w] by (simp del: be_bytes.simps(2) power_Suc)
  have "w div 256 ^ 7 < 256" "128 \<le> w div 256 ^ 7"
    using w(1,2) by (simp_all add: div_less_iff_less_mult less_eq_div_iff_mult_less_eq)
  then have "128 \<le> unat (word_of_nat (w div 256 ^ 7) :: byte)" by (simp add: unat_word_of_nat_lt)
  then show hi: "hd (rev (int64_bytes i)) AND 0x80 \<noteq> 0" by (simp add: bytes high_bit_iff)
  have "be_val (rev (int64_bytes i)) = w" using w(1) by (simp add: int64_bytes_def u be_val_be_bytes)
  moreover have "length (rev (int64_bytes i)) = 8" by (simp add: int64_bytes_def)
  ultimately show "sbe_val (rev (int64_bytes i)) = i" using hi w(3) by (simp add: sbe_val_def)
qed

lemma int64_body_eq:
  assumes "- (2 ^ 63) \<le> i" "i < 0"
  shows "add_bytes_down env (int64_bytes i) (int64_start (int64_bytes i) 7 + 1) s = add_u8s env (der_int i) s"
proof -
  let ?u = "int64_bytes i"
  have len: "length ?u = 8" by (simp add: int64_bytes_def)
  have "int64_start u n \<le> n" for u n by (induction n) auto
  then have le: "Suc (int64_start ?u 7) \<le> length ?u" unfolding len by (simp add: less_Suc_eq_le)
  have strip: "rev (take (Suc (int64_start ?u 7)) ?u) = strip_ff (rev ?u)"
    using int64_start_strip [of 7 ?u] len by simp
  have "rev ?u \<noteq> []" using len by auto
  from strip_ff_props [OF this int64_bytes_props(1) [OF assms]]
  have "strip_ff (rev ?u) = der_int i"
    using valid_eq_der_int [of "strip_ff (rev ?u)"] int64_bytes_props(2) [OF assms] by simp
  then show ?thesis using add_bytes_down_eq [OF le] strip by simp
qed

lemma der_int_not_Nil [simp]: "der_int i \<noteq> []"
  by (simp add: der_int_def)

lemma add_asn1_int64_appender:
  assumes "- (2 ^ 63) \<le> i" "i < 2 ^ 63"
  shows "cbb_appender (\<lambda>env. CBB_add_asn1_int64 env i) (der_element CBS_ASN1_INTEGER (der_int i)) True"
proof (cases "0 \<le> i")
  case True
  have u: "unat (word_of_int i :: u64) = nat i"
    using True assms by (simp add: unsigned_of_int take_bit_int_eq_self)
  have "length (der_uint (nat i)) \<le> 8" using length_der_int_8 [OF assms] True by (simp add: der_int_def)
  with True show ?thesis
    using add_asn1_uint64.cbb_appender_axioms [of "word_of_int i"]
    by (simp add: CBB_add_asn1_int64_def [abs_def] der_int_def u)
next
  case False
  have "length (der_int i) \<le> 8" by (rule length_der_int_8 [OF assms])
  moreover have "add_bytes_down env (int64_bytes i) (int64_start (int64_bytes i) 7 + 1) = add_u8s env (der_int i)" for env
    using False by (intro ext int64_body_eq [OF assms(1)]) simp
  ultimately show ?thesis
    using asn1_nested [OF add_u8s_appender [OF der_int_not_Nil], of CBS_ASN1_INTEGER i] False
    by (simp add: CBB_add_asn1_int64_def [abs_def] Let_def del: add_bytes_down.simps)
qed

end
