(* ===== verification/Cbb_Build.thy ===== *)
theory Cbb_Build
  imports Asn1_Int
begin

text \<open>
  Whole uses of a builder. A nested structure of byte strings, length-prefixed strings and ASN.1 elements is
  built by the calls a caller would make; by the contracts of \<open>Cbb_Spec\<close> and \<open>Cbb_Child\<close> the sequence of
  calls is an appender of the encoded structure, and for every appender the run from
  \<^verbatim>\<open>CBB_init\<close> to \<^verbatim>\<open>CBB_finish\<close> returns the bytes it appends. The last part covers
  \<^verbatim>\<open>CBB_reserve\<close> with \<^verbatim>\<open>CBB_did_write\<close>, and \<^verbatim>\<open>CBB_discard_child\<close>.
\<close>

subsection \<open>Builder programs\<close>

text \<open>What a caller can write into a builder: byte strings, strings with a length prefix of \<open>n\<close> bytes and
  ASN.1 elements, nested to any depth.\<close>

datatype item = Raw "byte list" | Prefixed nat "item list" | Asn1 u32 "item list"

text \<open>The calls a caller makes for it. A child is filled and its parent is flushed before the next item.\<close>

fun build_items :: "heap_env \<Rightarrow> item list \<Rightarrow> cbbst \<Rightarrow> bool \<times> cbbst" where
  "build_items env [] s = cbb_flush env s"
| "build_items env (Raw d # its) s = seqb (CBB_add_bytes env d s) (build_items env its)"
| "build_items env (Prefixed n sub # its) s =
     seqb (seqb (cbb_add_length_prefixed env n s) (\<lambda>s. seqb (on_child (build_items env sub) s) (cbb_flush env)))
       (build_items env its)"
| "build_items env (Asn1 tag sub # its) s =
     seqb (seqb (CBB_add_asn1 env tag s) (\<lambda>s. seqb (on_child (build_items env sub) s) (cbb_flush env)))
       (build_items env its)"

text \<open>The bytes they stand for, and the limits on the lengths.\<close>

fun enc_items :: "item list \<Rightarrow> byte list" where
  "enc_items [] = []"
| "enc_items (Raw d # its) = d @ enc_items its"
| "enc_items (Prefixed n sub # its) = (be_bytes n (length (enc_items sub)) @ enc_items sub) @ enc_items its"
| "enc_items (Asn1 tag sub # its) = der_element tag (enc_items sub) @ enc_items its"

fun items_ok :: "item list \<Rightarrow> bool" where
  "items_ok [] \<longleftrightarrow> True"
| "items_ok (Raw d # its) \<longleftrightarrow> items_ok its"
| "items_ok (Prefixed n sub # its) \<longleftrightarrow> (items_ok sub \<and> length (enc_items sub) < 256 ^ n) \<and> items_ok its"
| "items_ok (Asn1 tag sub # its) \<longleftrightarrow> (items_ok sub \<and> length (enc_items sub) \<le> 0xfffffffe) \<and> items_ok its"

text \<open>The prefixes the interface offers have one, two or three bytes.\<close>

fun items_wf :: "item list \<Rightarrow> bool" where
  "items_wf [] \<longleftrightarrow> True"
| "items_wf (Raw d # its) \<longleftrightarrow> items_wf its"
| "items_wf (Prefixed n sub # its) \<longleftrightarrow> 1 \<le> n \<and> n \<le> 3 \<and> items_wf sub \<and> items_wf its"
| "items_wf (Asn1 tag sub # its) \<longleftrightarrow> items_wf sub \<and> items_wf its"

lemma build_items_appender:
  "items_wf its \<Longrightarrow> cbb_appender (\<lambda>env. build_items env its) (enc_items its) (items_ok its)"
proof (induction its rule: enc_items.induct)
  case 1
  then show ?case using flush.cbb_appender_axioms by (auto intro: cbb_appender_eqI)
next
  case (2 d its)
  then show ?case using cbb_appender_seq [OF add_bytes.cbb_appender_axioms [of d]] by simp
next
  case (3 n sub its)
  then have "cbb_appender (\<lambda>env. build_items env sub) (enc_items sub) (items_ok sub)" "0 < n" "n \<le> 8" by simp_all
  from cbb_appender_seq [OF prefixed_nested [OF this]] 3 show ?case by simp
next
  case (4 tag sub its)
  then have "cbb_appender (\<lambda>env. build_items env sub) (enc_items sub) (items_ok sub)" by simp
  from cbb_appender_seq [OF asn1_nested [OF this]] 4 show ?case by simp
qed

subsection \<open>From initialisation to the finished string\<close>

definition init_ok :: "heap_env \<Rightarrow> nat \<Rightarrow> bool" where
  "init_ok env N \<longleftrightarrow> N \<le> 2 ^ 62 \<and> (\<forall>n \<le> 2 * N + 40. h_ok env n)"

lemma cbb_init_True_iff:
  "cbb_init env buf cap CBB_zero = (True, s) \<longleftrightarrow>
     OPENSSL_malloc env sizeof_cbb_buffer \<noteq> None \<and>
     s = (Some \<lparr>b_buf = buf, b_len = 0, b_cap = cap, b_can_resize = True, b_error = False\<rparr>, CBB None 0 0 False False)"
  by (cases "OPENSSL_malloc env sizeof_cbb_buffer") (auto simp: cbb_init_def CBB_zero_def)

lemma CBB_init_sound:
  assumes "CBB_init env cap = (True, s)" "cap < SIZE_MOD"
  shows "\<exists>b. s = (Some b, CBB None 0 0 False False) \<and> buf_ok b \<and> cbb_bytes b = [] \<and> b_cap b = cap \<and> b_can_resize b"
proof (cases "OPENSSL_malloc env cap")
  case None
  then have "cap = 0" "cbb_init env [] 0 CBB_zero = (True, s)"
    using assms(1) by (auto simp: CBB_init_def split: if_split_asm)
  then show ?thesis by (simp add: cbb_init_True_iff buf_ok_def cbb_bytes_def)
next
  case (Some buf)
  then have "length buf = cap" by (rule OPENSSL_malloc_length)
  moreover have "cbb_init env buf cap CBB_zero = (True, s)"
    using assms(1) Some by (simp add: CBB_init_def)
  ultimately show ?thesis using assms(2) by (simp add: cbb_init_True_iff buf_ok_def cbb_bytes_def)
qed

lemma CBB_init_complete:
  assumes "init_ok env N" "cap \<le> N"
  shows "\<exists>b. CBB_init env cap = (True, Some b, CBB None 0 0 False False) \<and> roomy env N b"
proof -
  have ok: "h_ok env n" if "n \<le> 2 * N + 40" for n using assms(1) that by (simp add: init_ok_def)
  have n: "N \<le> 2 ^ 62" using assms(1) by (simp add: init_ok_def)
  have s: "size_add cap 8 = cap + 8" "size_add 32 8 = 40"
    using assms n by (simp_all add: size_add_def SIZE_MOD_def)
  show ?thesis
    using assms(2) n ok by (simp add: CBB_init_def cbb_init_def CBB_zero_def OPENSSL_malloc_def s sizeof_cbb_buffer_def
        roomy_def SIZE_MOD_def)
qed

text \<open>A caller's whole use of a builder: initialise, write, finish.\<close>

definition cbb_run :: "heap_env \<Rightarrow> nat \<Rightarrow> (heap_env \<Rightarrow> cbbst \<Rightarrow> bool \<times> cbbst) \<Rightarrow> byte list option" where
  "cbb_run env cap op =
     (case seqb (CBB_init env cap) (op env) of (r, s) \<Rightarrow>
        if \<not> r then None
        else
          (case CBB_finish env True True s of
             (Some (Some buf, Some len), s) \<Rightarrow> Some (take len buf)
           | _ \<Rightarrow> None))"

context child_filler
begin

lemma run_complete:
  assumes "init_ok env N" "cap \<le> N" "ok" "length d \<le> N" "res env N"
  shows "cbb_run env cap op = Some d"
proof -
  let ?c = "CBB None 0 0 False False"
  have N: "cap < SIZE_MOD" "length d < SIZE_MOD" using assms by (simp_all add: init_ok_def SIZE_MOD_def)
  obtain b where b: "CBB_init env cap = (True, Some b, ?c)" "roomy env N b"
    using CBB_init_complete [OF assms(1,2)] by blast
  from CBB_init_sound [OF b(1) N(1)] have ok: "cbb_ok b ?c" "cbb_bytes b = []" "cbb_closed ?c = ?c"
    by (auto simp: cbb_ok_def)
  then have len: "b_len b + length d \<le> N" and st: "cbb_start ?c = b_len b"
    using assms(4) length_cbb_bytes [of b] by (simp_all add: cbb_ok_def cbb_start_def)
  obtain b1 where b1: "op env (Some b, ?c) = (True, Some b1, ?c)"
    using fill_complete [OF ok(1,3) st assms(3,5) b(2) len] by auto
  from fill_sound [OF ok(1,3) st N(2) b1] ok(2) have h: "holds b d b1" by auto
  then have "cbb_flush env (Some b1, ?c) = (True, Some b1, ?c)"
    using flush_closed [of b1 env ?c] by (simp add: holds_def)
  then show ?thesis using b(1) b1 h by (simp add: cbb_run_def CBB_finish_def holds_def cbb_bytes_def)
qed

lemma run_sound:
  assumes "cbb_run env cap op = Some out" "cap < SIZE_MOD" "length d < SIZE_MOD"
  shows "out = d \<and> ok"
proof -
  let ?c = "CBB None 0 0 False False"
  from assms(1) obtain s s1 where run: "CBB_init env cap = (True, s)" "op env s = (True, s1)"
    by (auto simp: cbb_run_def seqb_def split: prod.split_asm if_split_asm)
  from CBB_init_sound [OF run(1) assms(2)] obtain b where b: "s = (Some b, ?c)" "buf_ok b" "cbb_bytes b = []" by auto
  then have ok: "cbb_ok b ?c" "cbb_contents b ?c = []" "cbb_closed ?c = ?c"
    by (auto simp: cbb_ok_def cbb_contents_def)
  have "op env (Some b, ?c) = (True, s1)" using run(2) b(1) by simp
  moreover have st: "cbb_start ?c = b_len b" using b(2,3) length_cbb_bytes [of b] by (simp add: cbb_start_def)
  ultimately have "ok \<and> (\<exists>b1. s1 = (Some b1, ?c) \<and> holds b (cbb_bytes b @ d) b1)" using fill_sound [OF ok(1,3) _ assms(3)] by blast
  with b(3) obtain b1 where "ok" "s1 = (Some b1, ?c)" "holds b d b1" by auto
  then show ?thesis using assms(1) run flush_closed [of b1 env ?c]
    by (simp add: cbb_run_def CBB_finish_def holds_def cbb_bytes_def split: if_split_asm)
qed

end

context closed_appender
begin

lemmas run_complete = filler.run_complete [OF _ _ _ _ TrueI]
lemmas run_sound = filler.run_sound

end

context cbb_appender
begin

lemmas run_complete = closed.run_complete
lemmas run_sound = closed.run_sound

end

text \<open>The operation that \<^verbatim>\<open>CBB_reserve\<close>, a write by the caller and \<^verbatim>\<open>CBB_did_write\<close> make up.\<close>

definition reserve_and_write :: "heap_env \<Rightarrow> nat \<Rightarrow> byte list \<Rightarrow> cbbst \<Rightarrow> bool \<times> cbbst" where
  "reserve_and_write env len data s =
     seqb (CBB_reserve env len s) (\<lambda>(base, cbb).
       CBB_did_write (length data) (base_write (base_len base) data base, cbb))"

lemma reserve_and_write_sound:
  assumes "cbb_ok b cbb" "len < SIZE_MOD" "length data \<le> len" "CBB_reserve env len (Some b, cbb) = (True, s)"
  shows "\<exists>b'. reserve_and_write env len data (Some b, cbb) = (True, Some b', cbb_closed cbb) \<and>
    holds b (cbb_contents b cbb @ data) b'"
proof -
  from assms(4) obtain s1 where s1: "cbb_flush env (Some b, cbb) = (True, s1)"
    "on_base (cbb_buffer_reserve env len) s1 = (True, s)"
    by (auto simp: CBB_reserve_def seqb_True_iff)
  from flush.sound [OF assms(1) _ s1(1)] obtain b1 where b1: "s1 = (Some b1, cbb_closed cbb)"
    "holds b (cbb_contents b cbb) b1" by auto
  then obtain base2 where r: "cbb_buffer_reserve env len (Some b1) = (True, base2)" "s = (base2, cbb_closed cbb)"
    using s1(2) by (auto simp: on_base_def split: prod.split_asm)
  from reserve_sound [OF _ assms(2) r(1)] b1(2) obtain b2 where
    b2: "base2 = Some b2" "holds b1 (cbb_bytes b1) b2" "b_len b2 = b_len b1" "b_len b1 + len \<le> b_cap b2"
    by (auto simp: holds_def)
  define b' where "b' = b2\<lparr>b_buf := mem_write (b_len b2) data (b_buf b2), b_len := b_len b2 + length data\<rparr>"
  have le: "b_len b2 + length data \<le> b_cap b2" "b_cap b2 < SIZE_MOD" "length (b_buf b2) = b_cap b2"
    using b2 assms(3) by (auto simp: holds_def buf_ok_def)
  have "reserve_and_write env len data (Some b, cbb) = (True, Some b', cbb_closed cbb)"
    using assms(4) r(2) b2(1) le
    by (simp add: reserve_and_write_def CBB_did_write_def base_write_def base_len_def size_add_no_wrap b'_def)
  moreover have "cbb_bytes b' = cbb_bytes b2 @ data"
    using take_mem_write_end [of "b_len b2" "b_buf b2" data] le by (simp add: cbb_bytes_def b'_def)
  ultimately show ?thesis
    using b1(2) b2 le by (auto simp: holds_def buf_ok_def b'_def length_mem_write)
qed

text \<open>Discarding a length-prefixed child takes back everything since it was opened.\<close>

lemma discard_child_restores:
  assumes ok: "cbb_ok b cbb" and n: "0 < n" "n \<le> 8" and body: "cbb_appender body d ok'" "length d < SIZE_MOD"
    and run: "seqb (cbb_add_length_prefixed env n (Some b, cbb)) (on_child (body env)) = (True, s)"
  shows "\<exists>b'. CBB_discard_child s = (Some b', cbb_closed cbb) \<and> holds b (cbb_contents b cbb) b'"
proof -
  note o = prefixed_opener [OF n]
  let ?ch = "cbb_opener.child_of [] n False b cbb"
  have ch: "?ch = CBB None (length (cbb_contents b cbb)) n False True"
    by (simp add: cbb_opener.child_of_def [OF o])
  from run obtain s1 where s1: "cbb_add_length_prefixed env n (Some b, cbb) = (True, s1)"
    "on_child (body env) s1 = (True, s)"
    by (auto simp: seqb_True_iff)
  obtain b1 where b1: "s1 = (Some b1, cbb_with_child cbb ?ch)"
    "holds b (cbb_contents b cbb @ [] @ replicate n 0) b1" "cbb_ok b1 ?ch"
    by (rule cbb_opener.opened [OF o ok s1(1)])
  obtain base2 ch2 where f2: "body env (Some b1, ?ch) = (True, base2, ch2)" "s = (base2, cbb_with_child cbb ch2)"
    using s1(2) by (auto simp: b1(1) cbb_opener.on_child_with [OF o] split: prod.split_asm)
  obtain b2 where b2: "(base2, ch2) = (Some b2, ?ch)"
    "holds b (cbb_contents b cbb @ [] @ replicate n 0 @ d) b2"
    by (rule cbb_opener.body_done [OF o closed_appender_filler [OF cbb_appender_closed [OF body(1)]] ok b1(2,3) body(2) f2(1)])
  let ?b' = "b2\<lparr>b_len := length (cbb_contents b cbb)\<rparr>"
  have "CBB_discard_child s = (Some ?b', cbb_closed cbb)"
    using f2(2) b2(1) ch by (simp add: CBB_discard_child_def cbb_with_child_def cbb_closed_def)
  moreover have "take (length (cbb_contents b cbb)) (cbb_bytes b2) = cbb_contents b cbb"
    using b2(2) by (simp add: holds_def)
  then have "holds b (cbb_contents b cbb) ?b'"
    using b2(2) holds_len [OF b2(2)] by (simp add: holds_def buf_ok_def cbb_bytes_def min_def)
  ultimately show ?thesis by blast
qed

lemma init_ok_all [simp]: "N \<le> 2 ^ 62 \<Longrightarrow> init_ok all_ok N"
  by (simp add: init_ok_def)

section \<open>Properties\<close>

text \<open>C28: for writes of byte strings, length-prefixed strings and ASN.1 elements, nested to any depth (the programs of
  \<open>build_items\<close>), an error of a builder is final: when such a sequence of writes fails, every later one fails without
  changing anything and \<^verbatim>\<open>CBB_finish\<close> returns nothing, so a caller may check only the last call. This says nothing of the
  operations that can fail without recording an error (\<^verbatim>\<open>CBB_add_asn1_oid_from_text\<close>, \<^verbatim>\<open>cbb_add_utf8\<close>,
  \<^verbatim>\<open>CBB_flush_asn1_set_of\<close>) nor of \<^verbatim>\<open>CBB_did_write\<close>, which does not look at the recorded one.\<close>

theorem cbb_error_is_final:
  assumes "cbb_ok b cbb" "items_wf its" "length (enc_items its) < SIZE_MOD" "build_items env its (Some b, cbb) = (False, s)"
    and "items_wf its'"
  shows "build_items env' its' s = (False, s) \<and> fst (CBB_finish env' out_data out_len s) = None"
proof -
  obtain base' cbb' where s: "s = (base', cbb')" by (cases s)
  from cbb_appender.failed [OF build_items_appender [OF assms(2)] assms(1,3)] assms(4) s obtain b' where
    b': "base' = Some b'" "b_error b'" by blast
  have "build_items env' its' s = (False, s)"
    using cbb_appender.sticky [OF build_items_appender [OF assms(5)] b'(2)] s b'(1) by simp
  moreover have "cbb_flush env' s = (False, s)" using flush.sticky [OF b'(2)] s b'(1) by simp
  ultimately show ?thesis by (simp add: CBB_finish_def)
qed

theorem cbb_error_is_final_witness:
  "\<exists>s. build_items (all_ok\<lparr>h_ok := \<lambda>n. False\<rparr>) [Raw [1]] (Some \<lparr>b_buf = [], b_len = 0, b_cap = 0, b_can_resize = True, b_error = False\<rparr>,
       CBB None 0 0 False False) = (False, s) \<and> build_items all_ok [Raw []] s = (False, s)"
proof -
  let ?b = "\<lparr>b_buf = [], b_len = 0, b_cap = 0, b_can_resize = True, b_error = False\<rparr>" and ?c = "CBB None 0 0 False False"
  have ok: "cbb_ok ?b ?c" by (simp add: cbb_ok_def buf_ok_def SIZE_MOD_def)
  obtain s where s: "build_items (all_ok\<lparr>h_ok := \<lambda>n. False\<rparr>) [Raw [1]] (Some ?b, ?c) = (False, s)"
    by (simp add: seqb_def CBB_add_bytes_def cbb_flush_def on_base_def cbb_buffer_add_def cbb_buffer_reserve_def size_add_def
        size_mul_def SIZE_MOD_def OPENSSL_realloc_def OPENSSL_malloc_def base_set_error_def Let_def)
  from cbb_error_is_final [OF ok _ _ s, of "[Raw []]" all_ok] s show ?thesis by (auto simp: SIZE_MOD_def)
qed

text \<open>Discarding a length-prefixed child takes back its prefix and everything that was written to it.\<close>

theorem CBB_discard_child_restores:
  assumes "cbb_ok b cbb" "0 < n" "n \<le> 8" "items_wf its" "length (enc_items its) < SIZE_MOD"
    and "seqb (cbb_add_length_prefixed env n (Some b, cbb)) (on_child (build_items env its)) = (True, s)"
  shows "\<exists>b'. CBB_discard_child s = (Some b', cbb_closed cbb) \<and> holds b (cbb_contents b cbb) b'"
  using discard_child_restores [OF assms(1-3) build_items_appender [OF assms(4)] assms(5,6)] .

theorem CBB_discard_child_restores_witness:
  "\<exists>s b'. seqb (cbb_add_length_prefixed all_ok 2 (Some \<lparr>b_buf = [7, 0, 0, 0], b_len = 1, b_cap = 4, b_can_resize = True, b_error = False\<rparr>,
       CBB None 0 0 False False)) (on_child (build_items all_ok [Raw [9]])) = (True, s) \<and>
     CBB_discard_child s = (Some b', CBB None 0 0 False False) \<and> cbb_bytes b' = [7]"
proof -
  let ?b = "\<lparr>b_buf = [7, 0, 0, 0], b_len = 1, b_cap = 4, b_can_resize = True, b_error = False\<rparr>"
    and ?c = "CBB None 0 0 False False"
  have ok: "cbb_ok ?b ?c" by (simp add: cbb_ok_def buf_ok_def SIZE_MOD_def)
  obtain s where s: "seqb (cbb_add_length_prefixed all_ok 2 (Some ?b, ?c)) (on_child (build_items all_ok [Raw [9]])) = (True, s)"
    by (simp add: seqb_def cbb_add_length_prefixed_def cbb_open_child_def on_child_def CBB_add_bytes_def cbb_flush_def on_base_def cbb_buffer_add_def
        cbb_buffer_reserve_def size_add_def base_write_def base_len_def SIZE_MOD_def mem_write_def Let_def)
  from CBB_discard_child_restores [OF ok _ _ _ _ s] obtain b' where
    "CBB_discard_child s = (Some b', cbb_closed ?c)" "holds ?b (cbb_contents ?b ?c) b'" by (auto simp: SIZE_MOD_def)
  moreover have "cbb_contents ?b ?c = [7]" by (simp add: cbb_contents_def cbb_bytes_def)
  ultimately have "CBB_discard_child s = (Some b', ?c)" "cbb_bytes b' = [7]" by (simp_all add: holds_def cbb_closed_def)
  with s show ?thesis by blast
qed

end
