(* ===== verification/Oid.thy ===== *)
theory Oid
  imports Cbb_Build
begin

text \<open>
  Object identifiers and their textual form: \<^verbatim>\<open>CBS_asn1_oid_to_text\<close> of \<^verbatim>\<open>cbs.c\<close> and
  \<^verbatim>\<open>CBB_add_asn1_oid_from_text\<close> of \<^verbatim>\<open>cbb.c\<close> (whose definitions are in \<open>Cbb\<close>). An identifier is a list of natural
  numbers; \<open>oid_bytes\<close> and \<open>oid_text\<close> are its two representations and \<open>oid_ok\<close> says which lists have them. Both
  functions are shown to accept exactly the representations of such lists and to produce the other one.
\<close>

subsection \<open>From encoded to text\<close>

text \<open>The decimal digits that the C library prints for a \<^verbatim>\<open>PRIu64\<close> conversion.\<close>

fun dec :: "nat \<Rightarrow> byte list" where
  "dec n = (if n < 10 then [word_of_nat (48 + n)] else dec (n div 10) @ [word_of_nat (48 + n mod 10)])"

declare dec.simps [simp del]

definition add_decimal :: "heap_env \<Rightarrow> u64 \<Rightarrow> cbbst \<Rightarrow> bool \<times> cbbst" where
  "add_decimal env v s = CBB_add_bytes env (dec (unat v)) s"

lemma parse_base128_shorter: "parse_base128_integer c = (Some v, r) \<Longrightarrow> length r < length c"
  using base128.dec_rest_length [of c v r] by (auto simp: base128_def)

function oid_text_loop :: "heap_env \<Rightarrow> cbs \<Rightarrow> cbbst \<Rightarrow> bool \<times> cbbst" where
  "oid_text_loop env copy s =
     (if CBS_len copy \<noteq> 0 then
        (case parse_base128_integer copy of
           (None, copy) \<Rightarrow> (False, s)
         | (Some v, copy) \<Rightarrow>
           seqb (seqb (CBB_add_u8 env 46 s) (add_decimal env v)) (oid_text_loop env copy))
      else (True, s))"
  by pat_completeness auto
termination
  by (relation "measure (\<lambda>(env, copy, s). length copy)") (auto dest!: parse_base128_shorter [OF sym])

declare oid_text_loop.simps [simp del]

definition oid_text_body :: "heap_env \<Rightarrow> cbs \<Rightarrow> cbbst \<Rightarrow> bool \<times> cbbst" where
  "oid_text_body env cbs s =
     (case parse_base128_integer cbs of
        (None, copy) \<Rightarrow> (False, s)
      | (Some v, copy) \<Rightarrow>
        seqb
          (if v \<ge> 80 then seqb (CBB_add_bytes env [50, 46] s) (add_decimal env (v - 80))
           else seqb (seqb (add_decimal env (v div 40) s) (CBB_add_u8 env 46)) (add_decimal env (v mod 40)))
          (oid_text_loop env copy))"

text \<open>The string that \<^verbatim>\<open>CBS_asn1_oid_to_text\<close> returns, with its terminator.\<close>

definition CBS_asn1_oid_to_text :: "heap_env \<Rightarrow> cbs \<Rightarrow> byte list option" where
  "CBS_asn1_oid_to_text env cbs =
     (case seqb (CBB_init env 32) (\<lambda>s. seqb (oid_text_body env cbs s) (CBB_add_u8 env 0)) of (r, s) \<Rightarrow>
        if \<not> r then None
        else
          (case CBB_finish env True True s of
             (Some (Some txt, Some txt_len), s) \<Rightarrow> Some (take txt_len txt)
           | _ \<Rightarrow> None))"

subsection \<open>Object identifiers\<close>

text \<open>An object identifier is the list of its components. Its encoding merges the first two; its text
  joins the decimals with dots.\<close>

fun join_dots :: "byte list list \<Rightarrow> byte list" where
  "join_dots [] = []"
| "join_dots [x] = x"
| "join_dots (x # xs) = x @ 46 # join_dots xs"

definition oid_text :: "nat list \<Rightarrow> byte list" where
  "oid_text arcs = join_dots (map dec arcs)"

fun oid_bytes :: "nat list \<Rightarrow> byte list" where
  "oid_bytes (a # b # rest) = base128 (40 * a + b) @ concat (map base128 rest)"
| "oid_bytes _ = []"

fun oid_ok :: "nat list \<Rightarrow> bool" where
  "oid_ok (a # b # rest) \<longleftrightarrow>
     a \<le> 2 \<and> (a < 2 \<longrightarrow> b \<le> 39) \<and> b + 80 < 2 ^ 64 \<and> list_all (\<lambda>x. x < 2 ^ 64) rest"
| "oid_ok _ \<longleftrightarrow> False"

subsection \<open>Decimal numbers\<close>

lemma dec_digit: "n < 10 \<Longrightarrow> dec n = [word_of_nat (48 + n)]"
  by (simp add: dec.simps)

lemma dec_step: "n \<noteq> 0 \<Longrightarrow> d < 10 \<Longrightarrow> dec (n * 10 + d) = dec n @ [word_of_nat (48 + d)]"
  by (subst dec.simps) simp

lemma dec_not_Nil [simp]: "dec n \<noteq> []"
  by (subst dec.simps) simp

lemma digit_overflow:
  fixes u :: byte
  assumes "n < 2 ^ 64" "48 \<le> unat u" "unat u \<le> 57"
  shows "(word_of_nat n > (- 1 :: u64) div 10 \<or> word_of_nat n * 10 > (- 1 :: u64) - ucast (u - 48)) \<longleftrightarrow>
    2 ^ 64 \<le> n * 10 + (unat u - 48)"
    "\<not> 2 ^ 64 \<le> n * 10 + (unat u - 48) \<Longrightarrow>
    (word_of_nat n * 10 + ucast (u - 48) :: u64) = word_of_nat (n * 10 + (unat u - 48))"
proof -
  define d where "d = unat u - 48"
  have d: "d < 10" "unat (u - 48) = d" using assms by (simp_all add: d_def unat_sub word_le_nat_alt)
  have un: "unat (word_of_nat n :: u64) = n" using assms(1) by (simp add: unat_word_of_nat_lt)
  have ud: "unat (ucast (u - 48) :: u64) = d" using d by simp
  have max: "unat (- 1 :: u64) = 2 ^ 64 - 1" by (simp add: unsigned_minus_1_eq_mask mask_eq_exp_minus_1)
  have div: "unat ((- 1 :: u64) div 10) = (2 ^ 64 - 1) div 10" by (simp only: unat_div max) simp
  have sub: "unat ((- 1 :: u64) - ucast (u - 48)) = 2 ^ 64 - 1 - d"
    by (subst unat_sub) (simp_all add: max ud del: unat_ucast_up)
  have one: "word_of_nat n > (- 1 :: u64) div 10 \<longleftrightarrow> 1844674407370955161 < n"
    unfolding word_less_nat_alt div un by simp
  show "(word_of_nat n > (- 1 :: u64) div 10 \<or> word_of_nat n * 10 > (- 1 :: u64) - ucast (u - 48)) \<longleftrightarrow>
    2 ^ 64 \<le> n * 10 + (unat u - 48)"
  proof (cases "1844674407370955161 < n")
    case True
    then show ?thesis unfolding one by simp
  next
    case False
    then have ten: "unat (word_of_nat n * 10 :: u64) = n * 10" by (simp add: unat_word_ariths un)
    have two: "word_of_nat n * 10 > (- 1 :: u64) - ucast (u - 48) \<longleftrightarrow> 2 ^ 64 - 1 - d < n * 10"
      unfolding word_less_nat_alt sub ten ..
    show ?thesis using False d unfolding one two d_def [symmetric] by auto
  qed
  have "(ucast (u - 48) :: u64) = word_of_nat d" by (metis ud of_nat_unat ucast_id)
  then show "(word_of_nat n * 10 + ucast (u - 48) :: u64) = word_of_nat (n * 10 + (unat u - 48))"
    unfolding d_def [symmetric] by simp
qed

lemma dotted_Cons:
  assumes "n < 2 ^ 64"
  shows "dotted_decimal_loop (word_of_nat n) seen (u # c) =
    (if u = 46 \<and> c \<noteq> [] then (if seen then Some (word_of_nat n) else None, c)
     else if unat u < 48 \<or> 57 < unat u \<or> (seen \<and> n = 0) \<or> 2 ^ 64 \<le> n * 10 + (unat u - 48) then (None, c)
     else dotted_decimal_loop (word_of_nat (n * 10 + (unat u - 48))) True c)"
proof (cases "48 \<le> unat u \<and> unat u \<le> 57")
  case True
  have z: "(word_of_nat n :: u64) = 0 \<longleftrightarrow> n = 0"
    unfolding word_unat_eq_iff unsigned_0 by (subst unat_word_of_nat_lt) (use assms in simp_all)
  have u: "\<not> u < 48" "\<not> 57 < u" using True by (simp_all add: word_less_nat_alt)
  have step: "dotted_decimal_loop (word_of_nat n) seen (u # c) =
    (if u = 46 \<and> c \<noteq> [] then (if seen then Some (word_of_nat n) else None, c)
     else if (seen \<and> n = 0) \<or> 2 ^ 64 \<le> n * 10 + (unat u - 48) then (None, c)
     else dotted_decimal_loop (word_of_nat n * 10 + ucast (u - 48)) True c)"
    using u True digit_overflow(1) [OF assms, of u]
    by (simp only: dotted_decimal_loop.simps(2) z CBS_len_def length_greater_0_conv simp_thms)
  show ?thesis
  proof (cases "2 ^ 64 \<le> n * 10 + (unat u - 48)")
    case ov: True
    then show ?thesis unfolding step using True by simp
  next
    case ok: False
    show ?thesis unfolding step digit_overflow(2) [OF assms conjunct1 [OF True] conjunct2 [OF True] ok]
      using True by simp
  qed
next
  case False
  then have "u < 48 \<or> u > 57" by (auto simp: word_less_nat_alt)
  with False show ?thesis by (auto simp: CBS_len_def)
qed

declare dotted_decimal_loop.simps(2) [simp del]

lemma dotted_complete:
  "n < 2 ^ 64 \<Longrightarrow> dotted_decimal_loop 0 False (dec n @ c) = dotted_decimal_loop (word_of_nat n) True c"
proof (induction n arbitrary: c rule: dec.induct)
  case (1 n)
  have digit: "unat (word_of_nat (48 + d) :: byte) = 48 + d" if "d < 10" for d
    by (rule unat_word_of_nat_lt) (use that in simp)
  show ?case
  proof (cases "n < 10")
    case True
    define u :: byte where "u = word_of_nat (48 + n)"
    have u: "unat u = 48 + n" unfolding u_def by (rule digit [OF True])
    then have "u \<noteq> 46" by auto
    with u have "dotted_decimal_loop 0 False (u # c) = dotted_decimal_loop (word_of_nat n) True c"
      using True dotted_Cons [of 0 False u c] by simp
    then show ?thesis unfolding dec_digit [OF True] u_def [symmetric] by simp
  next
    case False
    define m d where "m = n div 10" and "d = n mod 10"
    have nd: "n = m * 10 + d" "d < 10" "m \<noteq> 0" "m < 2 ^ 64" using False 1(2) by (auto simp: m_def d_def)
    define u :: byte where "u = word_of_nat (48 + d)"
    have u1: "unat u = 48 + d" unfolding u_def by (rule digit [OF nd(2)])
    then have u: "unat u = 48 + d" "u \<noteq> 46" by auto
    have "dotted_decimal_loop 0 False (dec n @ c) = dotted_decimal_loop 0 False (dec m @ u # c)"
      unfolding nd(1) u_def using nd by (simp add: dec_step)
    also have "\<dots> = dotted_decimal_loop (word_of_nat m) True (u # c)"
      using 1(1) [OF False] nd(4) by (simp only: m_def)
    also have "\<dots> = dotted_decimal_loop (word_of_nat (m * 10 + d)) True c"
      unfolding dotted_Cons [OF nd(4)] u(1) using nd 1(2) u(2) by simp
    finally show ?thesis by (simp only: nd(1))
  qed
qed

lemma dotted_sound:
  "n < 2 ^ 64 \<Longrightarrow> \<not> seen \<longrightarrow> n = 0 \<Longrightarrow> dotted_decimal_loop (word_of_nat n) seen c = (Some v, r) \<Longrightarrow>
   \<exists>ds. c = ds @ (if r = [] then [] else 46 # r) \<and> (if seen then dec n @ ds else ds) = dec (unat v)"
proof (induction c arbitrary: n seen)
  case Nil
  then show ?case by (auto simp: unat_word_of_nat_lt split: if_split_asm)
next
  case (Cons u c)
  show ?case
  proof (cases "u = 46 \<and> c \<noteq> []")
    case True
    then show ?thesis using Cons.prems by (auto simp: dotted_Cons unat_word_of_nat_lt split: if_split_asm)
  next
    case False
    define d where "d = unat u - 48"
    note step = dotted_Cons [OF Cons.prems(1), of seen u c, folded d_def]
    from Cons.prems(3) [unfolded step] False have u: "48 \<le> unat u" "unat u \<le> 57" "\<not> (seen \<and> n = 0)" "n * 10 + d < 2 ^ 64"
      and rec: "dotted_decimal_loop (word_of_nat (n * 10 + d)) True c = (Some v, r)"
      by (auto split: if_split_asm)
    from Cons.IH [OF u(4) _ rec] obtain ds where ds: "c = ds @ (if r = [] then [] else 46 # r)"
      "dec (n * 10 + d) @ ds = dec (unat v)" by auto
    have "unat u = 48 + d" "d < 10" using u by (simp_all add: d_def)
    then have u': "u = word_of_nat (48 + d)" by (metis of_nat_unat ucast_id)
    have "(if seen then dec n @ u # ds else u # ds) = dec (unat v)"
    proof (cases seen)
      case True
      then show ?thesis using u(3) ds(2) dec_step [of n d] \<open>d < 10\<close> u' by simp
    next
      case False
      then have "n = 0" using Cons.prems(2) by simp
      then show ?thesis using False ds(2) dec_digit [OF \<open>d < 10\<close>] u' by simp
    qed
    then show ?thesis using ds(1) by (intro exI [of _ "u # ds"]) auto
  qed
qed

lemma parse_dotted_Some_iff:
  "parse_dotted_decimal c = (Some v, r) \<longleftrightarrow> c = dec (unat v) @ (if r = [] then [] else 46 # r)"
proof
  assume "parse_dotted_decimal c = (Some v, r)"
  then show "c = dec (unat v) @ (if r = [] then [] else 46 # r)"
    using dotted_sound [of 0 False c v r] by (auto simp: parse_dotted_decimal_def)
next
  assume c: "c = dec (unat v) @ (if r = [] then [] else 46 # r)"
  have z: "dotted_decimal_loop (word_of_nat (unat v)) True (if r = [] then [] else 46 # r) = (Some v, r)"
    by (cases "r = []") (simp_all add: CBS_len_def dotted_decimal_loop.simps(2) of_nat_unat ucast_id)
  show "parse_dotted_decimal c = (Some v, r)"
    unfolding c parse_dotted_decimal_def dotted_complete [OF unat_u64_lt] by (rule z)
qed

lemma oid_text_simps [simp]:
  "oid_text [x] = dec x"
  "oid_text (x # y # xs) = dec x @ 46 # oid_text (y # xs)"
  by (simp_all add: oid_text_def)

lemma oid_text_Cons: "oid_text (x # xs) = dec x @ (if xs = [] then [] else 46 # oid_text xs)"
  by (cases xs) simp_all

lemma oid_text_eq_Nil_iff [simp]: "oid_text xs = [] \<longleftrightarrow> xs = []"
  by (cases xs) (simp_all add: oid_text_Cons, simp add: oid_text_def)

subsection \<open>Parsing the text\<close>

fun add_arcs :: "heap_env \<Rightarrow> nat list \<Rightarrow> cbbst \<Rightarrow> bool \<times> cbbst" where
  "add_arcs env [] s = (True, s)"
| "add_arcs env (x # xs) s = seqb (add_base128_integer env (word_of_nat x) s) (add_arcs env xs)"

lemma add_arcs_Cons:
  "add_arcs env (x # xs) = (\<lambda>s. seqb (add_base128_integer env (word_of_nat x) s) (add_arcs env xs))"
  by (simp add: fun_eq_iff)

fun add_oid :: "heap_env \<Rightarrow> nat list \<Rightarrow> cbbst \<Rightarrow> bool \<times> cbbst" where
  "add_oid env (a # b # rest) s =
     seqb (cbb_flush env s) (add_arcs env ((40 * a + b) # rest))"
| "add_oid env _ s = (False, s)"

lemma add_arcs_appender:
  "xs \<noteq> [] \<Longrightarrow> list_all (\<lambda>x. x < 2 ^ 64) xs \<Longrightarrow>
   cbb_appender (\<lambda>env. add_arcs env xs) (concat (map base128 xs)) True"
proof (induction xs)
  case (Cons x xs)
  have x: "unat (word_of_nat x :: u64) = x" using Cons.prems by (simp add: unat_word_of_nat_lt)
  have one: "cbb_appender (\<lambda>env. add_base128_integer env (word_of_nat x)) (base128 x) True"
    using add_base128.cbb_appender_axioms [of "word_of_nat x"] by (simp only: x)
  have nil: "add_arcs env [] = (\<lambda>s. (True, s))" for env by (simp add: fun_eq_iff)
  show ?case
  proof (cases "xs = []")
    case True
    with one show ?thesis by (simp add: nil)
  next
    case False
    then show ?thesis using cbb_appender_seq [OF one Cons.IH] Cons.prems by simp
  qed
qed simp

lemma oid_ok_first: "oid_ok (a # b # rest) \<Longrightarrow> 40 * a + b < 2 ^ 64"
  by auto

lemma add_oid_appender: "oid_ok arcs \<Longrightarrow> cbb_appender (\<lambda>env. add_oid env arcs) (oid_bytes arcs) True"
proof -
  assume ok: "oid_ok arcs"
  then obtain a b rest where arcs: "arcs = a # b # rest" by (cases arcs rule: oid_ok.cases) auto
  have "list_all (\<lambda>x. x < 2 ^ 64) ((40 * a + b) # rest)" using ok oid_ok_first arcs by simp
  note app = cbb_appender_seq [OF flush.cbb_appender_axioms add_arcs_appender [OF _ this]]
  show ?thesis by (rule cbb_appender_eqI [OF app]) (simp_all add: arcs)
qed

lemma oid_components_loop_complete:
  "list_all (\<lambda>x. x < 2 ^ 64) xs \<Longrightarrow> oid_components_loop env (oid_text xs) s = add_arcs env xs s"
proof (induction xs arbitrary: s)
  case Nil
  then show ?case by (subst oid_components_loop.simps) (simp add: oid_text_def CBS_len_def)
next
  case (Cons x xs)
  have x: "unat (word_of_nat x :: u64) = x" using Cons.prems by (simp add: unat_word_of_nat_lt)
  have p: "parse_dotted_decimal (oid_text (x # xs)) = (Some (word_of_nat x), oid_text xs)"
    unfolding parse_dotted_Some_iff x by (auto simp: oid_text_Cons)
  show ?case
    by (subst oid_components_loop.simps) (use Cons p in \<open>auto simp: CBS_len_def seqb_def split: prod.split\<close>)
qed

lemma oid_components_loop_sound:
  "oid_components_loop env c s = (True, s') \<Longrightarrow>
   \<exists>xs. list_all (\<lambda>x. x < 2 ^ 64) xs \<and> c = oid_text xs"
proof (induction env c s rule: oid_components_loop.induct)
  case (1 env c s)
  show ?case
  proof (cases "CBS_len c > 0")
    case False
    then show ?thesis by (intro exI [of _ "[]"]) (simp add: CBS_len_def oid_text_def)
  next
    case True
    with 1(2) obtain v r s1 where p: "parse_dotted_decimal c = (Some v, r)"
      and rec: "add_base128_integer env v s = (True, s1)" "oid_components_loop env r s1 = (True, s')"
      by (subst (asm) oid_components_loop.simps) (auto simp: seqb_True_iff split: prod.split_asm option.split_asm)
    from 1(1) [OF True p [symmetric] refl rec(2)] obtain xs where "list_all (\<lambda>x. x < 2 ^ 64) xs" "r = oid_text xs"
      by blast
    moreover have "c = oid_text (unat v # xs)"
      using p calculation(2) by (auto simp: parse_dotted_Some_iff oid_text_Cons)
    ultimately show ?thesis using unat_u64_lt [of v] by (intro exI [of _ "unat v # xs"]) simp
  qed
qed

lemma oid_from_text_complete:
  assumes "oid_ok arcs"
  shows "CBB_add_asn1_oid_from_text env (oid_text arcs) (length (oid_text arcs)) s = add_oid env arcs s"
proof -
  obtain a b rest where arcs: "arcs = a # b # rest" using assms by (cases arcs rule: oid_ok.cases) auto
  have ok: "a \<le> 2" "a < 2 \<longrightarrow> b \<le> 39" "b + 80 < 2 ^ 64" "list_all (\<lambda>x. x < 2 ^ 64) rest" using assms arcs by simp_all
  have u: "unat (word_of_nat a :: u64) = a" "unat (word_of_nat b :: u64) = b"
    by (rule unat_word_of_nat_lt; use ok in simp)+
  have p1: "parse_dotted_decimal (oid_text arcs) = (Some (word_of_nat a), oid_text (b # rest))"
    unfolding parse_dotted_Some_iff u by (simp add: arcs oid_text_Cons)
  have p2: "parse_dotted_decimal (oid_text (b # rest)) = (Some (word_of_nat b), oid_text rest)"
    unfolding parse_dotted_Some_iff u by (simp add: oid_text_Cons)
  have max: "unat (- 1 - 80 :: u64) = 2 ^ 64 - 81" by simp
  have guard: "\<not> (word_of_nat a > (2 :: u64) \<or> (word_of_nat a < (2 :: u64) \<and> word_of_nat b > (39 :: u64)) \<or>
      word_of_nat b > (- 1 - 80 :: u64))"
    unfolding word_less_nat_alt u max using ok by auto
  have first: "40 * word_of_nat a + word_of_nat b = (word_of_nat (40 * a + b) :: u64)" by simp
  show ?thesis
    unfolding CBB_add_asn1_oid_from_text_def CBS_init_def take_all [OF order_refl] Let_def p1 prod.case
      option.case p2 if_not_P [OF guard] first oid_components_loop_complete [OF ok(4)]
    by (simp add: arcs add_arcs_Cons del: of_nat_add of_nat_mult)
qed

lemma oid_from_text_sound:
  assumes "CBB_add_asn1_oid_from_text env t (length t) s = (True, s')"
  shows "\<exists>arcs. oid_ok arcs \<and> t = oid_text arcs"
proof -
  obtain x c where p1: "parse_dotted_decimal t = (x, c)" by (metis surj_pair)
  obtain y c' where p2: "parse_dotted_decimal c = (y, c')" by (metis surj_pair)
  from assms p1 p2 obtain a b where xy: "x = Some a" "y = Some b"
    by (cases x; cases y) (auto simp: CBB_add_asn1_oid_from_text_def seqb_True_iff CBS_init_def)
  note p = p1 [unfolded xy(1)] p2 [unfolded xy(2)]
  have g: "\<not> (a > 2 \<or> (a < 2 \<and> b > 39) \<or> b > - 1 - 80)"
  proof
    assume "a > 2 \<or> (a < 2 \<and> b > 39) \<or> b > - 1 - 80"
    with assms p show False
      unfolding CBB_add_asn1_oid_from_text_def CBS_init_def take_all [OF order_refl] Let_def
      by (simp add: seqb_True_iff)
  qed
  from assms p obtain s1 where rec: "oid_components_loop env c' s1 = (True, s')"
    unfolding CBB_add_asn1_oid_from_text_def CBS_init_def take_all [OF order_refl] Let_def p prod.case option.case
      if_not_P [OF g] by (auto simp: seqb_True_iff)
  from oid_components_loop_sound [OF rec] obtain rest where rest: "list_all (\<lambda>x. x < 2 ^ 64) rest" "c' = oid_text rest"
    by blast
  have max: "unat (- 1 - 80 :: u64) = 2 ^ 64 - 81" by simp
  have "oid_ok (unat a # unat b # rest)"
    using g rest(1) unat_u64_lt [of b] unfolding word_less_nat_alt max by auto
  moreover have "t = oid_text (unat a # unat b # rest)"
    using p rest(2) by (auto simp: parse_dotted_Some_iff oid_text_Cons split: if_split_asm)
  ultimately show ?thesis by blast
qed

subsection \<open>Printing\<close>

fun add_dots :: "heap_env \<Rightarrow> nat list \<Rightarrow> cbbst \<Rightarrow> bool \<times> cbbst" where
  "add_dots env [] s = (True, s)"
| "add_dots env (x # xs) s = seqb (seqb (CBB_add_u8 env 46 s) (CBB_add_bytes env (dec x))) (add_dots env xs)"

fun add_oid_text :: "heap_env \<Rightarrow> nat list \<Rightarrow> cbbst \<Rightarrow> bool \<times> cbbst" where
  "add_oid_text env (a # b # rest) s =
     seqb
       (if 80 \<le> 40 * a + b then seqb (CBB_add_bytes env [50, 46] s) (CBB_add_bytes env (dec b))
        else seqb (seqb (CBB_add_bytes env (dec a) s) (CBB_add_u8 env 46)) (CBB_add_bytes env (dec b)))
       (add_dots env rest)"
| "add_oid_text env _ s = (False, s)"

lemma add_dots_Nil [simp]: "add_dots env [] = (\<lambda>s. (True, s))"
  by (simp add: fun_eq_iff)

lemma add_dots_appender:
  "xs \<noteq> [] \<Longrightarrow> cbb_appender (\<lambda>env. add_dots env xs) (concat (map (\<lambda>x. 46 # dec x) xs)) True"
proof (induction xs)
  case (Cons x xs)
  note one = cbb_appender_seq [OF add_u8.cbb_appender_axioms [of 46] add_bytes.cbb_appender_axioms [of "dec x"]]
  show ?case
  proof (cases "xs = []")
    case True
    then show ?thesis using one by simp
  next
    case False
    then show ?thesis using cbb_appender_seq [OF one Cons.IH] by simp
  qed
qed simp

lemma oid_text_dots: "oid_text (a # xs) = dec a @ concat (map (\<lambda>x. 46 # dec x) xs)"
  by (induction xs arbitrary: a) simp_all

lemma dec_2: "dec 2 = [50]"
  by (simp add: dec_digit)

lemma add_oid_text_appender:
  assumes "oid_ok arcs"
  shows "cbb_appender (\<lambda>env. add_oid_text env arcs) (oid_text arcs) True"
proof -
  obtain a b rest where arcs: "arcs = a # b # rest" using assms by (cases arcs rule: oid_ok.cases) auto
  have two: "a = 2 \<longleftrightarrow> 80 \<le> 40 * a + b" using assms arcs by (auto; linarith)
  have first: "cbb_appender (\<lambda>env s.
      if 80 \<le> 40 * a + b then seqb (CBB_add_bytes env [50, 46] s) (CBB_add_bytes env (dec b))
      else seqb (seqb (CBB_add_bytes env (dec a) s) (CBB_add_u8 env 46)) (CBB_add_bytes env (dec b)))
    (dec a @ 46 # dec b) True"
  proof (cases "a = 2")
    case True
    with two show ?thesis
      using cbb_appender_seq [OF add_bytes.cbb_appender_axioms [of "[50, 46]"] add_bytes.cbb_appender_axioms [of "dec b"]]
      by (simp add: dec_2)
  next
    case False
    then have "\<not> 80 \<le> 40 * a + b" using two by simp
    then show ?thesis
      using cbb_appender_seq [OF cbb_appender_seq [OF add_bytes.cbb_appender_axioms [of "dec a"]
            add_u8.cbb_appender_axioms [of 46]] add_bytes.cbb_appender_axioms [of "dec b"]]
      by simp
  qed
  show ?thesis
  proof (cases "rest = []")
    case True
    show ?thesis by (rule cbb_appender_eqI [OF first]) (simp_all add: arcs True)
  next
    case False
    show ?thesis
      by (rule cbb_appender_eqI [OF cbb_appender_seq [OF first add_dots_appender [OF False]]])
        (simp_all add: arcs oid_text_dots)
  qed
qed

lemma base128_not_Nil [simp]: "base128 v \<noteq> []"
  by (simp add: base128_def)

lemma parse_base128_complete: "v < 2 ^ 64 \<Longrightarrow> parse_base128_integer (base128 v @ c) = (Some (word_of_nat v), c)"
  using base128.dec_enc [of "word_of_nat v" c] by (simp add: unat_word_of_nat_lt)

lemma add_decimal_fun: "add_decimal env v = CBB_add_bytes env (dec (unat v))"
  by (simp add: add_decimal_def fun_eq_iff)

lemma oid_text_loop_complete:
  "list_all (\<lambda>x. x < 2 ^ 64) xs \<Longrightarrow> oid_text_loop env (concat (map base128 xs)) s = add_dots env xs s"
proof (induction xs arbitrary: s)
  case Nil
  then show ?case by (subst oid_text_loop.simps) (simp add: CBS_len_def)
next
  case (Cons x xs)
  have u: "unat (word_of_nat x :: u64) = x" using Cons.prems by (simp add: unat_word_of_nat_lt)
  have p: "parse_base128_integer (concat (map base128 (x # xs))) = (Some (word_of_nat x), concat (map base128 xs))"
    using parse_base128_complete [of x] Cons.prems by simp
  have "oid_text_loop env (concat (map base128 (x # xs))) s =
      seqb (seqb (CBB_add_u8 env 46 s) (add_decimal env (word_of_nat x))) (oid_text_loop env (concat (map base128 xs)))"
    by (subst oid_text_loop.simps) (unfold p, simp add: CBS_len_def)
  moreover have "oid_text_loop env (concat (map base128 xs)) = add_dots env xs"
    using Cons by (intro ext) simp
  ultimately show ?case by (simp add: add_decimal_fun u)
qed

lemma oid_text_loop_sound:
  "oid_text_loop env c s = (True, s') \<Longrightarrow> \<exists>xs. list_all (\<lambda>x. x < 2 ^ 64) xs \<and> c = concat (map base128 xs)"
proof (induction env c s rule: oid_text_loop.induct)
  case (1 env c s)
  show ?case
  proof (cases "CBS_len c \<noteq> 0")
    case False
    then show ?thesis by (intro exI [of _ "[]"]) (simp add: CBS_len_def)
  next
    case True
    with 1(2) obtain v r s1 where p: "parse_base128_integer c = (Some v, r)" and rec: "oid_text_loop env r s1 = (True, s')"
      by (subst (asm) oid_text_loop.simps) (auto simp: seqb_True_iff split: prod.split_asm option.split_asm)
    from 1(1) [OF True p [symmetric] refl rec] obtain xs where "list_all (\<lambda>x. x < 2 ^ 64) xs" "r = concat (map base128 xs)"
      by blast
    then show ?thesis using p unat_u64_lt [of v]
      by (intro exI [of _ "unat v # xs"]) (simp add: base128.dec_Some_iff)
  qed
qed

lemma oid_text_body_complete:
  assumes "oid_ok arcs"
  shows "oid_text_body env (oid_bytes arcs) s = add_oid_text env arcs s"
proof -
  obtain a b rest where arcs: "arcs = a # b # rest" using assms by (cases arcs rule: oid_ok.cases) auto
  have ok: "a \<le> 2" "a < 2 \<longrightarrow> b \<le> 39" "b + 80 < 2 ^ 64" "list_all (\<lambda>x. x < 2 ^ 64) rest" using assms arcs by simp_all
  define v where "v = 40 * a + b"
  have v: "v < 2 ^ 64" unfolding v_def using ok by auto
  have u: "unat (word_of_nat v :: u64) = v" using v by (simp add: unat_word_of_nat_lt)
  have p: "parse_base128_integer (oid_bytes arcs) = (Some (word_of_nat v), concat (map base128 rest))"
    using parse_base128_complete [OF v] by (simp add: arcs v_def)
  have ge: "(word_of_nat v :: u64) \<ge> 80 \<longleftrightarrow> 80 \<le> v" by (simp add: word_le_nat_alt u)
  have big: "unat (word_of_nat v - 80 :: u64) = b" if "80 \<le> v"
  proof -
    have "unat (word_of_nat v - 80 :: u64) = v - 80" using that ge by (subst unat_sub) (simp_all add: u)
    moreover have "v = 80 + b" using that ok unfolding v_def by (cases "a = 2") auto
    ultimately show ?thesis by simp
  qed
  have small: "unat (word_of_nat v div 40 :: u64) = a \<and> unat (word_of_nat v mod 40 :: u64) = b" if "\<not> 80 \<le> v"
  proof -
    have "a < 2" using that ok unfolding v_def by (cases "a = 2") auto
    then have "v div 40 = a" "v mod 40 = b" using ok unfolding v_def by auto
    then show ?thesis by (simp add: unat_div unat_mod_distrib u)
  qed
  have loop: "oid_text_loop env (concat (map base128 rest)) = add_dots env rest"
    using oid_text_loop_complete [OF ok(4)] by (intro ext)
  show ?thesis
    unfolding oid_text_body_def p prod.case option.case ge loop
    using big small by (cases "80 \<le> v") (simp_all add: arcs add_decimal_fun v_def [symmetric])
qed

lemma oid_text_body_sound:
  assumes "oid_text_body env c s = (True, s')"
  shows "\<exists>arcs. oid_ok arcs \<and> c = oid_bytes arcs"
proof -
  from assms obtain v r s1 where p: "parse_base128_integer c = (Some v, r)" and rec: "oid_text_loop env r s1 = (True, s')"
    by (auto simp: oid_text_body_def seqb_True_iff split: prod.split_asm option.split_asm)
  from oid_text_loop_sound [OF rec] obtain rest where rest: "list_all (\<lambda>x. x < 2 ^ 64) rest" "r = concat (map base128 rest)"
    by blast
  define a b where "a = (if 80 \<le> unat v then 2 else unat v div 40)" and "b = unat v - 40 * a"
  have ab: "40 * a + b = unat v" "a \<le> 2" "a < 2 \<longrightarrow> b \<le> 39" "b + 80 < 2 ^ 64"
    using unat_u64_lt [of v] by (auto simp: a_def b_def minus_mult_div_eq_mod split: if_split_asm)
  then have "oid_ok (a # b # rest)" using rest by simp
  moreover have "c = oid_bytes (a # b # rest)" using p rest(2) ab(1) by (simp add: base128.dec_Some_iff)
  ultimately show ?thesis by blast
qed

lemma cbb_run_mono:
  assumes "cbb_run env cap op = Some out" "\<And>s s'. op env s = (True, s') \<Longrightarrow> op' env s = (True, s')"
  shows "cbb_run env cap op' = Some out"
proof -
  from assms(1) obtain s s' where "CBB_init env cap = (True, s)" "op env s = (True, s')"
    by (auto simp: cbb_run_def seqb_def split: prod.split_asm if_split_asm)
  with assms show ?thesis by (auto simp: cbb_run_def)
qed

lemma oid_to_text_run:
  "CBS_asn1_oid_to_text env c = cbb_run env 32 (\<lambda>env s. seqb (oid_text_body env c s) (CBB_add_u8 env 0))"
  by (simp add: CBS_asn1_oid_to_text_def cbb_run_def)

lemma oid_text_run_appender:
  "oid_ok arcs \<Longrightarrow>
   cbb_appender (\<lambda>env s. seqb (add_oid_text env arcs s) (CBB_add_u8 env 0)) (oid_text arcs @ [0]) True"
  using cbb_appender_seq [OF add_oid_text_appender add_u8.cbb_appender_axioms [of 0]] by simp

text \<open>The two functions on whole strings. The length bounds only exclude texts that do not fit into memory.\<close>

lemma oid_to_text_complete:
  assumes "oid_ok arcs" "init_ok env N" "32 \<le> N" "length (oid_text arcs) < N"
  shows "CBS_asn1_oid_to_text env (oid_bytes arcs) = Some (oid_text arcs @ [0])"
  unfolding oid_to_text_run oid_text_body_complete [OF assms(1)]
  by (rule cbb_appender.run_complete [OF oid_text_run_appender [OF assms(1)] assms(2,3)]) (use assms(4) in simp_all)

lemma oid_to_text_sound:
  assumes "CBS_asn1_oid_to_text env c = Some t"
  shows "\<exists>arcs. oid_ok arcs \<and> c = oid_bytes arcs \<and> (length (oid_text arcs) < 2 ^ 63 \<longrightarrow> t = oid_text arcs @ [0])"
proof -
  from assms obtain s s' where "oid_text_body env c s = (True, s')"
    by (auto simp: CBS_asn1_oid_to_text_def seqb_def split: prod.split_asm if_split_asm)
  then obtain arcs where arcs: "oid_ok arcs" "c = oid_bytes arcs" using oid_text_body_sound by blast
  have run: "cbb_run env 32 (\<lambda>env s. seqb (add_oid_text env arcs s) (CBB_add_u8 env 0)) = Some t"
    using assms unfolding oid_to_text_run arcs(2) oid_text_body_complete [OF arcs(1)] .
  then have "t = oid_text arcs @ [0]" if "length (oid_text arcs) < 2 ^ 63"
    using cbb_appender.run_sound [OF oid_text_run_appender [OF arcs(1)] run] that by (simp add: SIZE_MOD_def)
  with arcs show ?thesis by blast
qed

subsection \<open>The encoding is never longer than the text\<close>

lemma dec_bound: "n < 10 ^ length (dec n)"
proof (induction n rule: dec.induct)
  case (1 n)
  then show ?case by (subst dec.simps) (auto simp: div_less_iff_less_mult mult.commute)
qed

lemma length_base128_le: "n < 10 ^ k \<Longrightarrow> 0 < k \<Longrightarrow> length (base128 n) \<le> k"
proof -
  assume n: "n < 10 ^ k" and k: "0 < k"
  have "(10 :: nat) ^ k \<le> 128 ^ k" by (rule power_mono) simp_all
  then have "n < 128 * 128 ^ (k - 1)" using n k by (metis order_less_le_trans power_eq_if less_not_refl2)
  then have "n div 128 < 128 ^ (k - 1)" by (simp add: div_less_iff_less_mult mult.commute)
  then have "length (base128_cont (n div 128)) \<le> k - 1" by (rule length_base128_cont)
  then show ?thesis using k by (simp add: base128_def)
qed

lemma length_oid_bytes: "oid_ok arcs \<Longrightarrow> length (oid_bytes arcs) \<le> length (oid_text arcs)"
proof -
  assume ok: "oid_ok arcs"
  then obtain a b rest where arcs: "arcs = a # b # rest" by (cases arcs rule: oid_ok.cases) auto
  have pos: "0 < length (dec n)" for n by simp
  have one: "length (base128 x) \<le> length (dec x)" for x using length_base128_le [OF dec_bound] by simp
  have rest: "length (concat (map base128 xs)) \<le> length (concat (map (\<lambda>x. 46 # dec x) xs))" for xs
    using one by (induction xs) (auto intro: add_mono le_SucI)
  have "40 * a + b < 10 ^ (2 + length (dec b))"
  proof -
    have "40 * a + b \<le> 80 + b" "b < 10 ^ length (dec b)" using ok arcs dec_bound [of b] by auto
    moreover have "(10 :: nat) ^ (2 + length (dec b)) = 100 * 10 ^ length (dec b)" by simp
    moreover have "(1 :: nat) \<le> 10 ^ length (dec b)" by simp
    ultimately show ?thesis by linarith
  qed
  then have "length (base128 (40 * a + b)) \<le> 2 + length (dec b)" by (rule length_base128_le) simp
  moreover have "1 \<le> length (dec a)" using pos [of a] by linarith
  ultimately show ?thesis using rest [of rest] by (simp add: arcs oid_text_dots)
qed

lemma from_text_run_sound:
  assumes "cbb_run env cap (\<lambda>env. CBB_add_asn1_oid_from_text env t (length t)) = Some d" "cap < SIZE_MOD"
    "length t < SIZE_MOD"
  shows "\<exists>arcs. oid_ok arcs \<and> t = oid_text arcs \<and> d = oid_bytes arcs"
proof -
  from assms(1) obtain s s' where "CBB_add_asn1_oid_from_text env t (length t) s = (True, s')"
    by (auto simp: cbb_run_def seqb_def split: prod.split_asm if_split_asm)
  then obtain arcs where arcs: "oid_ok arcs" "t = oid_text arcs" using oid_from_text_sound by blast
  have run: "cbb_run env cap (\<lambda>env. add_oid env arcs) = Some d"
    by (rule cbb_run_mono [OF assms(1)]) (simp add: arcs(2) oid_from_text_complete [OF arcs(1)])
  have "length (oid_bytes arcs) < SIZE_MOD" using length_oid_bytes [OF arcs(1)] assms(3) arcs(2) by simp
  from cbb_appender.run_sound [OF add_oid_appender [OF arcs(1)] run assms(2) this] arcs show ?thesis by blast
qed

lemma from_text_run_complete:
  assumes "oid_ok arcs" "init_ok env N" "cap \<le> N" "length (oid_text arcs) \<le> N"
  shows "cbb_run env cap (\<lambda>env. CBB_add_asn1_oid_from_text env (oid_text arcs) (length (oid_text arcs))) =
    Some (oid_bytes arcs)"
  unfolding oid_from_text_complete [OF assms(1)]
  by (rule cbb_appender.run_complete [OF add_oid_appender [OF assms(1)] assms(2,3)])
    (use length_oid_bytes [OF assms(1)] assms(4) in simp_all)

section \<open>Properties\<close>

text \<open>The text is at most about twenty times as long as the encoding.\<close>

lemma length_dec_le: "n < 10 ^ k \<Longrightarrow> 0 < k \<Longrightarrow> length (dec n) \<le> k"
proof (induction k arbitrary: n)
  case (Suc k)
  show ?case
  proof (cases "n < 10")
    case False
    with Suc.prems have "n div 10 < 10 ^ k" "0 < k" by (auto intro: Suc_leI ccontr)
    with Suc.IH [of "n div 10"] False show ?thesis by (simp add: dec.simps [of n])
  qed (simp add: dec.simps [of n])
qed simp

lemma length_join_dots: "length (join_dots xs) \<le> sum_list (map (\<lambda>x. length x + 1) xs)"
  by (induction xs rule: join_dots.induct) auto

lemma length_oid_text:
  assumes "oid_ok arcs"
  shows "length (oid_text arcs) \<le> 21 * (length (oid_bytes arcs) + 1)"
proof -
  obtain a b rest where arcs: "arcs = a # b # rest" using assms by (cases arcs rule: oid_ok.cases) auto
  have d: "length (dec x) \<le> 20" if "x < 2 ^ 64" for x
    by (rule length_dec_le) (use that in simp_all)
  have b1: "1 \<le> length (base128 x)" for x using base128_not_Nil [of x] by (cases "base128 x") auto
  have r: "sum_list (map (\<lambda>x. length (dec x) + 1) xs) \<le> 21 * length (concat (map base128 xs))"
    if "list_all (\<lambda>x. x < 2 ^ 64) xs" for xs
    using that
  proof (induction xs)
    case (Cons x xs)
    then have "sum_list (map (\<lambda>x. length (dec x) + 1) xs) \<le> 21 * length (concat (map base128 xs))" by simp
    moreover have "length (dec x) + 1 \<le> 21 * length (base128 x)" using d [of x] b1 [of x] Cons.prems by auto
    ultimately show ?case by simp
  qed simp
  have ab: "length (dec a) \<le> 20" "length (dec b) \<le> 20" using d [of a] d [of b] assms arcs by auto
  have "length (oid_text arcs) \<le> sum_list (map (\<lambda>x. length (dec x) + 1) arcs)"
    unfolding oid_text_def using length_join_dots [of "map dec arcs"] by (simp add: comp_def)
  also have "\<dots> \<le> 42 + 21 * length (concat (map base128 rest))" using r [of rest] ab assms arcs by simp
  also have "\<dots> \<le> 21 * (length (oid_bytes arcs) + 1)" using b1 [of "40 * a + b"] arcs by simp
  finally show ?thesis .
qed

text \<open>The object identifier 1.2.840.113549.\<close>

definition rsadsi :: "nat list" where
  "rsadsi = [1, 2, 840, 113549]"

lemma rsadsi:
  "oid_ok rsadsi" "oid_bytes rsadsi = [0x2a, 0x86, 0x48, 0x86, 0xf7, 0x0d]"
  "oid_text rsadsi = [49, 46, 50, 46, 56, 52, 48, 46, 49, 49, 51, 53, 52, 57]"
  by (simp_all add: rsadsi_def base128_def base128_cont.simps oid_text_def dec.simps)

text \<open>Printing an object identifier and parsing the text is the identity: whatever text
  \<^verbatim>\<open>CBS_asn1_oid_to_text\<close> prints for a string of bytes, \<^verbatim>\<open>CBB_add_asn1_oid_from_text\<close> turns it back into these bytes.\<close>

theorem oid_print_parse:
  assumes "CBS_asn1_oid_to_text env c = Some t" "length c < 2 ^ 50" "init_ok env' N" "cap \<le> N" "length t \<le> N"
  shows "\<exists>u. t = u @ [0] \<and> cbb_run env' cap (\<lambda>env. CBB_add_asn1_oid_from_text env u (length u)) = Some c"
proof -
  from oid_to_text_sound [OF assms(1)] obtain arcs where
    arcs: "oid_ok arcs" "c = oid_bytes arcs" "length (oid_text arcs) < 2 ^ 63 \<longrightarrow> t = oid_text arcs @ [0]" by blast
  then have t: "t = oid_text arcs @ [0]" using length_oid_text [OF arcs(1)] assms(2) by simp
  then show ?thesis using from_text_run_complete [OF arcs(1) assms(3,4)] assms(5) arcs(2) by simp
qed

theorem oid_print_parse_witness:
  "\<exists>u. [49, 46, 50, 46, 56, 52, 48, 46, 49, 49, 51, 53, 52, 57, 0] = u @ [0] \<and>
     cbb_run all_ok 0 (\<lambda>env. CBB_add_asn1_oid_from_text env u (length u)) = Some [0x2a, 0x86, 0x48, 0x86, 0xf7, 0x0d]"
proof -
  have "CBS_asn1_oid_to_text all_ok (oid_bytes rsadsi) = Some (oid_text rsadsi @ [0])"
    by (rule oid_to_text_complete [where N = 100]) (simp_all add: rsadsi)
  from oid_print_parse [OF this [unfolded rsadsi], of all_ok 100 0] show ?thesis by simp
qed

text \<open>C22: parsing and printing is the identity: a text that \<^verbatim>\<open>CBB_add_asn1_oid_from_text\<close> accepts is printed
  from its encoding as it was, so that no two texts have the same encoding.\<close>

theorem oid_parse_print:
  assumes "cbb_run env cap (\<lambda>env. CBB_add_asn1_oid_from_text env t (length t)) = Some d" "cap < SIZE_MOD"
    and "init_ok env' N" "32 \<le> N" "length t < N"
  shows "CBS_asn1_oid_to_text env' d = Some (t @ [0])"
proof -
  have "length t < SIZE_MOD" using assms(3,5) by (simp add: init_ok_def SIZE_MOD_def)
  from from_text_run_sound [OF assms(1,2) this] obtain arcs where
    "oid_ok arcs" "t = oid_text arcs" "d = oid_bytes arcs" by blast
  with oid_to_text_complete [OF _ assms(3,4)] assms(5) show ?thesis by simp
qed

theorem oid_parse_print_witness:
  "CBS_asn1_oid_to_text all_ok [0x2a, 0x86, 0x48, 0x86, 0xf7, 0x0d] =
     Some ([49, 46, 50, 46, 56, 52, 48, 46, 49, 49, 51, 53, 52, 57] @ [0])"
proof -
  have "cbb_run all_ok 0 (\<lambda>env. CBB_add_asn1_oid_from_text env (oid_text rsadsi)
      (length (oid_text rsadsi))) = Some (oid_bytes rsadsi)"
    by (rule from_text_run_complete [where N = 100]) (simp_all add: rsadsi)
  from oid_parse_print [OF this [unfolded rsadsi], of all_ok 100] show ?thesis by (simp add: SIZE_MOD_def)
qed

end
