(* ===== verification/Unicode.thy ===== *)
theory Unicode
  imports Oid
begin

text \<open>
  The character encodings of \<^verbatim>\<open>crypto/bytestring/unicode.c\<close>: UTF-8, Latin-1, UCS-2 and UTF-32. A reader takes
  one code point from the front of a byte string, a writer appends one to a builder. UTF-8 is written down
  over the natural numbers (\<open>utf8\<close>); \<^verbatim>\<open>cbs_get_utf8\<close> is shown to be a canonical codec for it (so overlong forms,
  surrogates and the reserved code points are rejected), and \<^verbatim>\<open>cbb_add_utf8\<close> to append it.
\<close>

subsection \<open>Definitions\<close>

definition is_valid_code_point :: "u32 \<Rightarrow> bool" where
  "is_valid_code_point v =
     (if v > 0x10ffff \<or> v AND 0xfffe = 0xfffe \<or> (v \<ge> 0xfdd0 \<and> v \<le> 0xfdef) \<or> (v \<ge> 0xd800 \<and> v \<le> 0xdfff)
      then False else True)"

definition BOTTOM_BITS :: "nat \<Rightarrow> byte" where
  "BOTTOM_BITS n = ucast (push_bit n (1 :: u32) - 1)"

definition TOP_BITS :: "nat \<Rightarrow> byte" where
  "TOP_BITS n = NOT (BOTTOM_BITS (8 - n))"

text \<open>The loop over the continuation bytes.\<close>

fun utf8_tail :: "u32 \<Rightarrow> nat \<Rightarrow> u32 reader" where
  "utf8_tail v 0 cbs = (Some v, cbs)"
| "utf8_tail v (Suc n) cbs =
     rbind (CBS_get_u8 cbs) (\<lambda>c cbs.
       if c AND TOP_BITS 2 \<noteq> TOP_BITS 1 then (None, cbs)
       else utf8_tail (push_bit 6 v OR ucast (c AND BOTTOM_BITS 6)) n cbs)"

definition cbs_get_utf8 :: "u32 reader" where
  "cbs_get_utf8 cbs =
     rbind (CBS_get_u8 cbs) (\<lambda>c cbs.
       if c \<le> 0x7f then (Some (ucast c), cbs)
       else
         (case (if c AND TOP_BITS 3 = TOP_BITS 2 then Some (ucast (c AND BOTTOM_BITS 5), 1, 0x80)
                else if c AND TOP_BITS 4 = TOP_BITS 3 then Some (ucast (c AND BOTTOM_BITS 4), 2, 0x800)
                else if c AND TOP_BITS 5 = TOP_BITS 4 then Some (ucast (c AND BOTTOM_BITS 3), 3, 0x10000)
                else None) of
            None \<Rightarrow> (None, cbs)
          | Some (v, len, lower_bound) \<Rightarrow>
            rbind (utf8_tail v len cbs) (\<lambda>v cbs.
              if \<not> is_valid_code_point v \<or> v < lower_bound then (None, cbs) else (Some v, cbs))))"

definition cbs_get_latin1 :: "u32 reader" where
  "cbs_get_latin1 cbs = rbind (CBS_get_u8 cbs) (\<lambda>c cbs. (Some (ucast c), cbs))"

definition cbs_get_ucs2_be :: "u32 reader" where
  "cbs_get_ucs2_be cbs =
     rbind (CBS_get_u16 cbs) (\<lambda>c cbs.
       if \<not> is_valid_code_point (ucast c) then (None, cbs) else (Some (ucast c), cbs))"

definition cbs_get_utf32_be :: "u32 reader" where
  "cbs_get_utf32_be cbs =
     rbind (CBS_get_u32 cbs) (\<lambda>out cbs. if is_valid_code_point out then (Some out, cbs) else (None, cbs))"

definition cbb_get_utf8_len :: "u32 \<Rightarrow> nat" where
  "cbb_get_utf8_len u = (if u \<le> 0x7f then 1 else if u \<le> 0x7ff then 2 else if u \<le> 0xffff then 3 else 4)"

definition cbb_add_utf8 :: "heap_env \<Rightarrow> u32 \<Rightarrow> cbbst \<Rightarrow> bool \<times> cbbst" where
  "cbb_add_utf8 env u s =
     (if \<not> is_valid_code_point u then (False, s)
      else if u \<le> 0x7f then CBB_add_u8 env (ucast u) s
      else if u \<le> 0x7ff then
        seqb (CBB_add_u8 env (TOP_BITS 2 OR ucast (drop_bit 6 u)) s)
          (CBB_add_u8 env (TOP_BITS 1 OR (ucast u AND BOTTOM_BITS 6)))
      else if u \<le> 0xffff then
        seqb (seqb (CBB_add_u8 env (TOP_BITS 3 OR ucast (drop_bit 12 u)) s)
            (CBB_add_u8 env (TOP_BITS 1 OR (ucast (drop_bit 6 u) AND BOTTOM_BITS 6))))
          (CBB_add_u8 env (TOP_BITS 1 OR (ucast u AND BOTTOM_BITS 6)))
      else if u \<le> 0x10ffff then
        seqb (seqb (seqb (CBB_add_u8 env (TOP_BITS 4 OR ucast (drop_bit 18 u)) s)
              (CBB_add_u8 env (TOP_BITS 1 OR (ucast (drop_bit 12 u) AND BOTTOM_BITS 6))))
            (CBB_add_u8 env (TOP_BITS 1 OR (ucast (drop_bit 6 u) AND BOTTOM_BITS 6))))
          (CBB_add_u8 env (TOP_BITS 1 OR (ucast u AND BOTTOM_BITS 6)))
      else (False, s))"

definition cbb_add_latin1 :: "heap_env \<Rightarrow> u32 \<Rightarrow> cbbst \<Rightarrow> bool \<times> cbbst" where
  "cbb_add_latin1 env u s = (if u \<le> 0xff then CBB_add_u8 env (ucast u) s else (False, s))"

definition cbb_add_ucs2_be :: "heap_env \<Rightarrow> u32 \<Rightarrow> cbbst \<Rightarrow> bool \<times> cbbst" where
  "cbb_add_ucs2_be env u s =
     (if u \<le> 0xffff \<and> is_valid_code_point u then CBB_add_u16 env (ucast u) s else (False, s))"

definition cbb_add_utf32_be :: "heap_env \<Rightarrow> u32 \<Rightarrow> cbbst \<Rightarrow> bool \<times> cbbst" where
  "cbb_add_utf32_be env u s = (if is_valid_code_point u then CBB_add_u32 env u s else (False, s))"

subsection \<open>UTF-8 over the natural numbers\<close>

definition utf8_cont :: "nat \<Rightarrow> byte" where
  "utf8_cont n = word_of_nat (128 + n mod 64)"

definition utf8 :: "nat \<Rightarrow> byte list" where
  "utf8 n =
     (if n < 0x80 then [word_of_nat n]
      else if n < 0x800 then [word_of_nat (192 + n div 64), utf8_cont n]
      else if n < 0x10000 then [word_of_nat (224 + n div 4096), utf8_cont (n div 64), utf8_cont n]
      else [word_of_nat (240 + n div 262144), utf8_cont (n div 4096), utf8_cont (n div 64), utf8_cont n])"

subsection \<open>Bit masks as arithmetic\<close>

lemma BOTTOM_BITS_mask: "n \<le> 8 \<Longrightarrow> BOTTOM_BITS n = mask n"
proof -
  assume n: "n \<le> 8"
  have "push_bit n (1 :: u32) - 1 = mask n" by (simp add: mask_eq_exp_minus_1 push_bit_eq_mult)
  then show ?thesis unfolding BOTTOM_BITS_def
    by (simp only:) (rule bit_word_eqI, use n in \<open>auto simp: bit_simps\<close>)
qed

lemma unat_top_mask:
  fixes c :: byte
  shows "n \<le> 8 \<Longrightarrow> unat (c AND TOP_BITS n) = unat c div 2 ^ (8 - n) * 2 ^ (8 - n)"
  by (simp add: TOP_BITS_def BOTTOM_BITS_mask unat_and_not_mask)

lemma TOP_BITS_values:
  "TOP_BITS 1 = 0x80" "TOP_BITS 2 = 0xc0" "TOP_BITS 3 = 0xe0" "TOP_BITS 4 = 0xf0" "TOP_BITS 5 = 0xf8"
  by (simp_all add: TOP_BITS_def BOTTOM_BITS_mask mask_eq_exp_minus_1)

lemma unat_bottom_mask:
  fixes c :: byte
  shows "n \<le> 8 \<Longrightarrow> unat (c AND BOTTOM_BITS n) = unat c mod 2 ^ n"
  by (simp add: BOTTOM_BITS_mask unat_and_mask_eq)

lemma lead_iff:
  fixes c :: byte
  shows "c AND TOP_BITS 2 = TOP_BITS 1 \<longleftrightarrow> 128 \<le> unat c \<and> unat c < 192"
    "c AND TOP_BITS 3 = TOP_BITS 2 \<longleftrightarrow> 192 \<le> unat c \<and> unat c < 224"
    "c AND TOP_BITS 4 = TOP_BITS 3 \<longleftrightarrow> 224 \<le> unat c \<and> unat c < 240"
    "c AND TOP_BITS 5 = TOP_BITS 4 \<longleftrightarrow> 240 \<le> unat c \<and> unat c < 248"
proof -
  have m: "unat (c AND TOP_BITS 2) = unat c div 64 * 64" "unat (c AND TOP_BITS 3) = unat c div 32 * 32"
    "unat (c AND TOP_BITS 4) = unat c div 16 * 16" "unat (c AND TOP_BITS 5) = unat c div 8 * 8"
    using unat_top_mask [of 2 c] unat_top_mask [of 3 c] unat_top_mask [of 4 c] unat_top_mask [of 5 c] by simp_all
  have v: "unat (TOP_BITS 1) = 128" "unat (TOP_BITS 2) = 192" "unat (TOP_BITS 3) = 224" "unat (TOP_BITS 4) = 240"
    by (simp_all only: TOP_BITS_values) simp_all
  show "c AND TOP_BITS 2 = TOP_BITS 1 \<longleftrightarrow> 128 \<le> unat c \<and> unat c < 192"
    "c AND TOP_BITS 3 = TOP_BITS 2 \<longleftrightarrow> 192 \<le> unat c \<and> unat c < 224"
    "c AND TOP_BITS 4 = TOP_BITS 3 \<longleftrightarrow> 224 \<le> unat c \<and> unat c < 240"
    "c AND TOP_BITS 5 = TOP_BITS 4 \<longleftrightarrow> 240 \<le> unat c \<and> unat c < 248"
    unfolding word_unat_eq_iff m v by auto
qed

definition is_cont :: "byte \<Rightarrow> bool" where
  "is_cont b \<longleftrightarrow> 128 \<le> unat b \<and> unat b < 192"

lemma unat_utf8_cont: "unat (utf8_cont n) = 128 + n mod 64"
proof -
  have "n mod 64 < 64" by simp
  then have "128 + n mod 64 < 2 ^ LENGTH(8)" by simp
  then show ?thesis unfolding utf8_cont_def by (rule unat_word_of_nat_lt)
qed

lemma is_cont_mod: "is_cont b \<Longrightarrow> unat b mod 64 = unat b - 128"
  by (auto simp: is_cont_def le_mod_geq)

lemma utf8_cont_props [simp]: "is_cont (utf8_cont n)" "unat (utf8_cont n) mod 64 = n mod 64"
proof -
  have "n mod 64 < 64" by simp
  then show c: "is_cont (utf8_cont n)" by (simp add: is_cont_def unat_utf8_cont)
  show "unat (utf8_cont n) mod 64 = n mod 64"
    using is_cont_mod [OF c] unfolding unat_utf8_cont by (simp only: add_diff_cancel_left')
qed

lemma utf8_cont_unique: "is_cont b \<Longrightarrow> unat b mod 64 = n mod 64 \<Longrightarrow> b = utf8_cont n"
proof -
  assume b: "is_cont b" "unat b mod 64 = n mod 64"
  then have "unat b = 128 + n mod 64" using is_cont_mod [OF b(1)] unfolding is_cont_def by linarith
  then show ?thesis by (metis of_nat_unat ucast_id utf8_cont_def)
qed

lemma utf8_tail_Cons:
  assumes "unat v < 2 ^ 26"
  shows "utf8_tail v (Suc n) (b # c) =
    (if is_cont b then utf8_tail (word_of_nat (unat v * 64 + unat b mod 64)) n c else (None, c))"
proof -
  have b: "unat (ucast (b AND BOTTOM_BITS 6) :: u32) = unat b mod 64" by (simp add: unat_bottom_mask)
  have "unat (push_bit 6 v OR ucast (b AND BOTTOM_BITS 6)) = unat v * 64 + unat b mod 64"
    unfolding b [symmetric] by (subst unat_push_or) (use assms b in simp_all)
  then have "push_bit 6 v OR ucast (b AND BOTTOM_BITS 6) = word_of_nat (unat v * 64 + unat b mod 64)"
    by (metis of_nat_unat ucast_id)
  then show ?thesis unfolding utf8_tail.simps CBS_get_u8_Cons rbind_simps lead_iff(1) is_cont_def by simp
qed

declare utf8_tail.simps(2) [simp del]

definition tail_val :: "nat \<Rightarrow> byte list \<Rightarrow> nat" where
  "tail_val v bs = foldl (\<lambda>v b. v * 64 + unat b mod 64) v bs"

lemma tail_val_Nil [simp]: "tail_val v [] = v" and tail_val_Cons [simp]: "tail_val v (b # bs) = tail_val (v * 64 + unat b mod 64) bs"
  by (simp_all add: tail_val_def)

lemma utf8_tail_Some_iff:
  "(v + 1) * 64 ^ n \<le> 2 ^ 32 \<Longrightarrow>
   utf8_tail (word_of_nat v) n c = (Some w, r) \<longleftrightarrow>
     (\<exists>bs. length bs = n \<and> list_all is_cont bs \<and> c = bs @ r \<and> w = word_of_nat (tail_val v bs))"
proof (induction n arbitrary: v c)
  case 0
  then show ?case by auto
next
  case (Suc n)
  have "(v + 1) * 64 * 1 \<le> (v + 1) * 64 * 64 ^ n" by (rule mult_le_mono2) simp
  also have "\<dots> \<le> 2 ^ 32" using Suc.prems by (simp only: power_Suc mult.assoc)
  finally have v: "v < 2 ^ 26" by simp
  then have u: "unat (word_of_nat v :: u32) = v" by (simp add: unat_word_of_nat_lt)
  show ?case
  proof (cases c)
    case Nil
    then show ?thesis by (auto simp: utf8_tail.simps(2))
  next
    case (Cons b c')
    define v' where "v' = v * 64 + unat b mod 64"
    have step: "utf8_tail (word_of_nat v) (Suc n) c =
        (if is_cont b then utf8_tail (word_of_nat v') n c' else (None, c'))"
      unfolding Cons v'_def by (subst utf8_tail_Cons) (simp_all only: u v)
    have "unat b mod 64 < 64" by simp
    then have "v' + 1 \<le> (v + 1) * 64" unfolding v'_def by simp
    then have "(v' + 1) * 64 ^ n \<le> (v + 1) * 64 * 64 ^ n" by (rule mult_le_mono1)
    also have "\<dots> \<le> 2 ^ 32" using Suc.prems by (simp only: power_Suc mult.assoc)
    finally have IH: "utf8_tail (word_of_nat v') n c' = (Some w, r) \<longleftrightarrow>
        (\<exists>bs. length bs = n \<and> list_all is_cont bs \<and> c' = bs @ r \<and> w = word_of_nat (tail_val v' bs))"
      by (rule Suc.IH)
    show ?thesis
    proof (cases "is_cont b")
      case True
      then have "utf8_tail (word_of_nat v) (Suc n) c = (Some w, r) \<longleftrightarrow>
          (\<exists>bs. length bs = n \<and> list_all is_cont bs \<and> c' = bs @ r \<and> w = word_of_nat (tail_val v' bs))"
        unfolding step using IH by simp
      also have "\<dots> \<longleftrightarrow> (\<exists>bs. length bs = Suc n \<and> list_all is_cont bs \<and> c = bs @ r \<and> w = word_of_nat (tail_val v bs))"
        unfolding Cons length_Suc_conv using True by (auto simp: v'_def)
      finally show ?thesis .
    next
      case False
      then show ?thesis unfolding step by (auto simp: length_Suc_conv Cons)
    qed
  qed
qed

text \<open>Which byte sequences \<^verbatim>\<open>cbs_get_utf8\<close> accepts, and the value it gives them.\<close>

definition utf8_form :: "byte \<Rightarrow> (nat \<times> nat \<times> nat) option" where
  "utf8_form c =
     (if 192 \<le> unat c \<and> unat c < 224 then Some (unat c - 192, 1, 0x80)
      else if 224 \<le> unat c \<and> unat c < 240 then Some (unat c - 224, 2, 0x800)
      else if 240 \<le> unat c \<and> unat c < 248 then Some (unat c - 240, 3, 0x10000)
      else None)"

lemma lead_val:
  fixes c :: byte
  shows "192 \<le> unat c \<Longrightarrow> unat c < 224 \<Longrightarrow> (ucast (c AND BOTTOM_BITS 5) :: u32) = word_of_nat (unat c - 192)"
    "224 \<le> unat c \<Longrightarrow> unat c < 240 \<Longrightarrow> (ucast (c AND BOTTOM_BITS 4) :: u32) = word_of_nat (unat c - 224)"
    "240 \<le> unat c \<Longrightarrow> unat c < 248 \<Longrightarrow> (ucast (c AND BOTTOM_BITS 3) :: u32) = word_of_nat (unat c - 240)"
proof -
  have w: "(ucast x :: u32) = word_of_nat (unat x)" for x :: byte by (metis of_nat_unat unat_ucast_byte ucast_id
        len_num1 len_bit0 eval_nat_numeral(2) numeral_le_iff)
  show "192 \<le> unat c \<Longrightarrow> unat c < 224 \<Longrightarrow> (ucast (c AND BOTTOM_BITS 5) :: u32) = word_of_nat (unat c - 192)"
    by (simp only: w) (auto simp: unat_bottom_mask le_mod_geq)
  show "224 \<le> unat c \<Longrightarrow> unat c < 240 \<Longrightarrow> (ucast (c AND BOTTOM_BITS 4) :: u32) = word_of_nat (unat c - 224)"
    by (simp only: w) (auto simp: unat_bottom_mask le_mod_geq)
  show "240 \<le> unat c \<Longrightarrow> unat c < 248 \<Longrightarrow> (ucast (c AND BOTTOM_BITS 3) :: u32) = word_of_nat (unat c - 240)"
    by (simp only: w) (auto simp: unat_bottom_mask le_mod_geq)
qed

lemma cbs_get_utf8_Some_iff:
  "cbs_get_utf8 c = (Some w, r) \<longleftrightarrow>
     (\<exists>b rest. c = b # rest \<and>
        (if unat b < 128 then w = ucast b \<and> r = rest
         else \<exists>v n lb bs. utf8_form b = Some (v, n, lb) \<and> length bs = n \<and> list_all is_cont bs \<and> rest = bs @ r \<and>
           w = word_of_nat (tail_val v bs) \<and> is_valid_code_point w \<and> lb \<le> unat w))"
proof (cases c)
  case Nil
  then show ?thesis by (simp add: cbs_get_utf8_def)
next
  case (Cons b rest)
  show ?thesis
  proof (cases "unat b < 128")
    case True
    then have "b \<le> 0x7f" by (simp add: word_le_nat_alt)
    then show ?thesis using True by (auto simp: Cons cbs_get_utf8_def CBS_get_u8_Cons)
  next
    case False
    then have "\<not> b \<le> 0x7f" by (simp add: word_le_nat_alt)
    then have eq: "cbs_get_utf8 c =
      (case utf8_form b of None \<Rightarrow> (None, rest) | Some (v, n, lb) \<Rightarrow>
        rbind (utf8_tail (word_of_nat v) n rest) (\<lambda>v cbs.
          if \<not> is_valid_code_point v \<or> unat v < lb then (None, cbs) else (Some v, cbs)))"
      by (simp add: Cons cbs_get_utf8_def CBS_get_u8_Cons lead_iff utf8_form_def lead_val word_less_nat_alt
          del: of_nat_diff)
    show ?thesis
    proof (cases "utf8_form b")
      case None
      then show ?thesis using False by (simp add: eq) (auto simp: Cons)
    next
      case (Some t)
      then obtain v n lb where t: "utf8_form b = Some (v, n, lb)" by (cases t) auto
      then have bound: "(v + 1) * 64 ^ n \<le> 2 ^ 32" by (auto simp: utf8_form_def split: if_split_asm)
      have "cbs_get_utf8 c = (Some w, r) \<longleftrightarrow> (\<exists>bs. length bs = n \<and> list_all is_cont bs \<and> rest = bs @ r \<and>
          w = word_of_nat (tail_val v bs) \<and> is_valid_code_point w \<and> lb \<le> unat w)"
        unfolding eq t option.case prod.case rbind_Some_iff
        by (auto simp: utf8_tail_Some_iff [OF bound] not_less split: if_split_asm)
      then show ?thesis using False by (simp add: Cons t)
    qed
  qed
qed

lemma valid_code_point_bound: "is_valid_code_point u \<Longrightarrow> unat u \<le> 0x10ffff"
  by (simp add: is_valid_code_point_def word_less_nat_alt split: if_split_asm)

lemma small_code_point: "unat u = n \<Longrightarrow> n < 128 \<Longrightarrow> is_valid_code_point u"
proof -
  assume u: "unat u = n" "n < 128"
  have m: "(0xfffe :: u32) AND u = 0xfffe \<Longrightarrow> False"
  proof -
    assume a: "(0xfffe :: u32) AND u = 0xfffe"
    have "unat (0xfffe AND u) \<le> unat u" by (metis and.commute word_and_le2 word_le_nat_alt)
    then show False using a u by simp
  qed
  then show ?thesis using u by (auto simp: is_valid_code_point_def word_less_nat_alt word_le_nat_alt and.commute)
qed

lemma tail_val_le: "tail_val v bs < (v + 1) * 64 ^ length bs"
proof (induction bs arbitrary: v)
  case (Cons b bs)
  have "unat b mod 64 < 64" by simp
  then have "v * 64 + unat b mod 64 + 1 \<le> (v + 1) * 64" by simp
  then have "(v * 64 + unat b mod 64 + 1) * 64 ^ length bs \<le> (v + 1) * 64 * 64 ^ length bs" by (rule mult_le_mono1)
  also have "\<dots> = (v + 1) * 64 ^ length (b # bs)" by (simp only: power_Suc list.size(4) add_Suc_right add_0_right One_nat_def mult.assoc)
  finally show ?case using Cons.IH [of "v * 64 + unat b mod 64"] by simp
qed simp

lemma tail_val_bound:
  "utf8_form b = Some (v, n, lb) \<Longrightarrow> length bs = n \<Longrightarrow> list_all is_cont bs \<Longrightarrow> tail_val v bs < 2 ^ 32"
proof -
  assume a: "utf8_form b = Some (v, n, lb)" "length bs = n"
  have "(v + 1) * 64 ^ n \<le> 2 ^ 32" using a(1) by (auto simp: utf8_form_def split: if_split_asm)
  then show ?thesis using tail_val_le [of v bs] unfolding a(2) by linarith
qed

lemma utf8_decompose:
  assumes "utf8_form b = Some (v, n, lb)" "length bs = n" "list_all is_cont bs" "lb \<le> tail_val v bs" "tail_val v bs \<le> 0x10ffff"
  shows "utf8 (tail_val v bs) = b # bs"
proof -
  have bw: "b = word_of_nat (unat b)" by simp
  from assms(1) consider
      "n = 1" "unat b = 192 + v" "v < 32" "lb = 0x80"
    | "n = 2" "unat b = 224 + v" "v < 16" "lb = 0x800"
    | "n = 3" "unat b = 240 + v" "v < 8" "lb = 0x10000"
    by (auto simp: utf8_form_def split: if_split_asm)
  then show ?thesis
  proof cases
    case 1
    then obtain c where bs: "bs = [c]" "is_cont c" using assms(2,3) by (auto simp: length_Suc_conv)
    define m where "m = unat c mod 64"
    have m: "m < 64" "tail_val v bs = v * 64 + m" by (simp_all add: m_def bs)
    have "tail_val v bs div 64 = v" using m by simp
    moreover have "utf8_cont (tail_val v bs) = c"
      by (intro utf8_cont_unique [OF bs(2), symmetric]) (unfold m_def [symmetric] mod_mult_self3, use m in simp)
    moreover have "tail_val v bs < 0x800" "\<not> tail_val v bs < 0x80" using m 1 assms(4) by simp_all
    moreover have "word_of_nat (192 + v) = b" using 1(2) by (metis of_nat_unat ucast_id)
    ultimately show ?thesis unfolding utf8_def bs(1) by (simp only: if_False if_True)
  next
    case 2
    then obtain c d where bs: "bs = [c, d]" "is_cont c" "is_cont d"
      using assms(2,3) by (auto simp: length_Suc_conv numeral_2_eq_2)
    define m k where "m = unat c mod 64" and "k = unat d mod 64"
    have m: "m < 64" "k < 64" "tail_val v bs = (v * 64 + m) * 64 + k" by (simp_all add: m_def k_def bs)
    have "tail_val v bs div 64 = v * 64 + m" "tail_val v bs div 4096 = v" using m by simp_all
    moreover have "utf8_cont (v * 64 + m) = c"
      by (intro utf8_cont_unique [OF bs(2), symmetric]) (unfold m_def [symmetric] mod_mult_self3, use m in simp)
    moreover have "utf8_cont (tail_val v bs) = d"
      by (intro utf8_cont_unique [OF bs(3), symmetric]) (unfold k_def [symmetric] m(3) mod_mult_self3, use m in simp)
    moreover have "tail_val v bs < 0x10000" "\<not> tail_val v bs < 0x800" "\<not> tail_val v bs < 0x80"
      using m 2 assms(4) by simp_all
    moreover have "word_of_nat (224 + v) = b" using 2(2) by (metis of_nat_unat ucast_id)
    ultimately show ?thesis unfolding utf8_def bs(1) by (simp only: if_False if_True)
  next
    case 3
    then obtain c d e where bs: "bs = [c, d, e]" "is_cont c" "is_cont d" "is_cont e"
      using assms(2,3) by (auto simp: length_Suc_conv numeral_3_eq_3)
    define m k l where "m = unat c mod 64" and "k = unat d mod 64" and "l = unat e mod 64"
    have m: "m < 64" "k < 64" "l < 64" "tail_val v bs = ((v * 64 + m) * 64 + k) * 64 + l"
      by (simp_all add: m_def k_def l_def bs)
    have "tail_val v bs div 64 = (v * 64 + m) * 64 + k" "tail_val v bs div 4096 = v * 64 + m" "tail_val v bs div 262144 = v"
      using m by simp_all
    moreover have "utf8_cont (v * 64 + m) = c"
      by (intro utf8_cont_unique [OF bs(2), symmetric]) (unfold m_def [symmetric] mod_mult_self3, use m in simp)
    moreover have "utf8_cont ((v * 64 + m) * 64 + k) = d"
      by (intro utf8_cont_unique [OF bs(3), symmetric]) (unfold k_def [symmetric] mod_mult_self3, use m in simp)
    moreover have "utf8_cont (tail_val v bs) = e"
      by (intro utf8_cont_unique [OF bs(4), symmetric]) (unfold l_def [symmetric] m(4) mod_mult_self3, use m in simp)
    moreover have "\<not> tail_val v bs < 0x10000" "\<not> tail_val v bs < 0x800" "\<not> tail_val v bs < 0x80"
      using m 3 assms(4) by simp_all
    moreover have "word_of_nat (240 + v) = b" using 3(2) by (metis of_nat_unat ucast_id)
    ultimately show ?thesis unfolding utf8_def bs(1) by (simp only: if_False if_True)
  qed
qed

lemma utf8_compose:
  assumes "0x80 \<le> u" "u \<le> 0x10ffff"
  shows "\<exists>b v lb bs. utf8 u = b # bs \<and> utf8_form b = Some (v, length bs, lb) \<and> list_all is_cont bs \<and>
    lb \<le> u \<and> tail_val v bs = u \<and> 128 \<le> unat b"
proof -
  consider "u < 0x800" | "0x800 \<le> u" "u < 0x10000" | "0x10000 \<le> u" by linarith
  then show ?thesis
  proof cases
    case 1
    have d: "u div 64 < 32" "2 \<le> u div 64" using 1 assms by auto
    have w: "unat (word_of_nat (192 + u div 64) :: byte) = 192 + u div 64" by (rule unat_word_of_nat_lt) (use d in simp)
    show ?thesis
      by (rule exI [of _ "word_of_nat (192 + u div 64)"], rule exI [of _ "u div 64"], rule exI [of _ "0x80"], rule exI [of _ "[utf8_cont u]"])
        (use 1 assms d w in \<open>simp_all add: utf8_def utf8_form_def del: of_nat_add\<close>)
  next
    case 2
    have d: "u div 4096 < 16" using 2 by auto
    have w: "unat (word_of_nat (224 + u div 4096) :: byte) = 224 + u div 4096" by (rule unat_word_of_nat_lt) (use d in simp)
    have t: "(u div 4096 * 64 + u div 64 mod 64) = u div 64" using div_mult_mod_eq [of "u div 64" 64] by (simp add: div_mult2_eq [symmetric])
    show ?thesis
      by (rule exI [of _ "word_of_nat (224 + u div 4096)"], rule exI [of _ "u div 4096"], rule exI [of _ "0x800"], rule exI [of _ "[utf8_cont (u div 64), utf8_cont u]"])
        (use 2 assms d t w in \<open>simp_all add: utf8_def utf8_form_def del: of_nat_add\<close>)
  next
    case 3
    have d: "u div 262144 < 8" using assms by auto
    have w: "unat (word_of_nat (240 + u div 262144) :: byte) = 240 + u div 262144" by (rule unat_word_of_nat_lt) (use d in simp)
    have t: "(u div 4096 * 64 + u div 64 mod 64) = u div 64" using div_mult_mod_eq [of "u div 64" 64] by (simp add: div_mult2_eq [symmetric])
    have t2: "(u div 262144 * 64 + u div 4096 mod 64) = u div 4096" using div_mult_mod_eq [of "u div 4096" 64] by (simp add: div_mult2_eq [symmetric])
    show ?thesis
      by (rule exI [of _ "word_of_nat (240 + u div 262144)"], rule exI [of _ "u div 262144"], rule exI [of _ "0x10000"], rule exI [of _ "[utf8_cont (u div 4096), utf8_cont (u div 64), utf8_cont u]"])
        (use 3 assms d t t2 w in \<open>simp_all add: utf8_def utf8_form_def del: of_nat_add\<close>)
  qed
qed

interpretation utf8: canonical_codec "\<lambda>u. utf8 (unat u)" cbs_get_utf8 is_valid_code_point
proof
  fix u :: u32 and r
  assume v: "is_valid_code_point u"
  show "cbs_get_utf8 (utf8 (unat u) @ r) = (Some u, r)"
  proof (cases "unat u < 128")
    case True
    have "unat (word_of_nat (unat u) :: byte) = unat u" by (rule unat_word_of_nat_lt) (use True in simp)
    moreover from this have "ucast (word_of_nat (unat u) :: byte) = u" by (simp add: word_unat_eq_iff del: of_nat_unat)
    ultimately show ?thesis using True by (simp add: utf8_def cbs_get_utf8_Some_iff del: of_nat_unat)
  next
    case False
    then obtain b v' lb bs where "utf8 (unat u) = b # bs" "utf8_form b = Some (v', length bs, lb)"
      "list_all is_cont bs" "lb \<le> unat u" "tail_val v' bs = unat u" "128 \<le> unat b"
      using utf8_compose [of "unat u"] valid_code_point_bound [OF v] by auto
    then show ?thesis using v by (auto simp: cbs_get_utf8_Some_iff of_nat_unat ucast_id)
  qed
next
  fix c r and u :: u32
  assume g: "cbs_get_utf8 c = (Some u, r)"
  then obtain b rest where c: "c = b # rest" by (auto simp: cbs_get_utf8_Some_iff)
  show "is_valid_code_point u \<and> c = utf8 (unat u) @ r"
  proof (cases "unat b < 128")
    case True
    with g c have u: "u = ucast b" "r = rest" by (auto simp: cbs_get_utf8_Some_iff)
    then have "unat u = unat b" by simp
    moreover from this have "is_valid_code_point u" by (rule small_code_point) (use True in simp)
    ultimately show ?thesis using True c u(2) by (simp add: utf8_def of_nat_unat ucast_id)
  next
    case False
    with g c obtain v n lb bs where t: "utf8_form b = Some (v, n, lb)" "length bs = n" "list_all is_cont bs" "rest = bs @ r"
      "u = word_of_nat (tail_val v bs)" "is_valid_code_point u" "lb \<le> unat u"
      by (auto simp: cbs_get_utf8_Some_iff)
    have "tail_val v bs < 2 ^ 32" by (rule tail_val_bound [OF t(1-3)])
    then have "unat u = tail_val v bs" by (simp add: t(5) unat_word_of_nat_lt)
    then show ?thesis
      using utf8_decompose [OF t(1-3)] t(4,6,7) c valid_code_point_bound [OF t(6)] by simp
  qed
qed

subsection \<open>The other encodings\<close>

interpretation latin1: canonical_codec "\<lambda>u. [ucast u :: byte]" cbs_get_latin1 "\<lambda>u :: u32. u \<le> 0xff"
proof
  fix u :: u32 and r
  assume "u \<le> 0xff"
  then have "unat u < 256" by (simp add: word_le_nat_alt)
  then have "ucast (ucast u :: byte) = u" by (simp add: word_unat_eq_iff unsigned_take_bit_eq unsigned_ucast_eq take_bit_nat_eq_self)
  then show "cbs_get_latin1 ([ucast u] @ r) = (Some u, r)" by (simp add: cbs_get_latin1_def CBS_get_u8_Cons)
next
  fix c r and u :: u32
  assume "cbs_get_latin1 c = (Some u, r)"
  then obtain b where "c = b # r" "u = ucast b" by (auto simp: cbs_get_latin1_def rbind_Some_iff CBS_get_u8_Some_iff)
  moreover have "(ucast (ucast b :: u32) :: byte) = b" by (rule bit_word_eqI) (auto simp: bit_simps)
  ultimately show "u \<le> 0xff \<and> c = [ucast u] @ r" using unat_byte_lt [of b] by (simp add: word_le_nat_alt)
qed

lemma ucs2_widen: "unat u < 2 ^ 16 \<Longrightarrow> ucast (ucast (u :: u32) :: u16) = u"
  by (simp add: word_unat_eq_iff unsigned_take_bit_eq unsigned_ucast_eq take_bit_nat_eq_self)

interpretation ucs2: canonical_codec "\<lambda>u. be_bytes 2 (unat u)" cbs_get_ucs2_be
  "\<lambda>u. u \<le> 0xffff \<and> is_valid_code_point u"
proof
  fix u :: u32 and r
  assume u: "u \<le> 0xffff \<and> is_valid_code_point u"
  then have lt: "unat u < 2 ^ 16" by (simp add: word_le_nat_alt)
  have w: "unat (ucast u :: u16) = unat u" using lt by (simp add: unsigned_ucast_eq take_bit_nat_eq_self)
  have "CBS_get_u16 (be_bytes 2 (unat u) @ r) = (Some (ucast u), r)"
    using cbs_u16.dec_enc [of "ucast u" r] lt by (simp only: w) simp
  then show "cbs_get_ucs2_be (be_bytes 2 (unat u) @ r) = (Some u, r)"
    using u ucs2_widen [OF lt] by (simp add: cbs_get_ucs2_be_def)
next
  fix c r and u :: u32
  assume "cbs_get_ucs2_be c = (Some u, r)"
  then obtain w where w: "CBS_get_u16 c = (Some w, r)" "u = ucast w" "is_valid_code_point u"
    by (auto simp: cbs_get_ucs2_be_def rbind_Some_iff split: if_split_asm)
  then show "(u \<le> 0xffff \<and> is_valid_code_point u) \<and> c = be_bytes 2 (unat u) @ r"
    using unat_u16_lt [of w] by (simp add: cbs_u16.dec_Some_iff word_le_nat_alt)
qed

interpretation utf32: canonical_codec "\<lambda>u. be_bytes 4 (unat u)" cbs_get_utf32_be is_valid_code_point
proof
  fix u :: u32 and r
  assume "is_valid_code_point u"
  then show "cbs_get_utf32_be (be_bytes 4 (unat u) @ r) = (Some u, r)"
    using unat_u32_lt [of u] by (simp add: cbs_get_utf32_be_def cbs_u32.dec_enc)
next
  fix c r and u :: u32
  assume "cbs_get_utf32_be c = (Some u, r)"
  then show "is_valid_code_point u \<and> c = be_bytes 4 (unat u) @ r"
    by (auto simp: cbs_get_utf32_be_def rbind_Some_iff cbs_u32.dec_Some_iff split: if_split_asm)
qed

subsection \<open>The writers\<close>

lemma utf8_bytes:
  fixes u :: u32
  shows "unat u < 128 \<Longrightarrow> (ucast u :: byte) = word_of_nat (unat u)"
    "TOP_BITS 1 OR (ucast (drop_bit k u) AND BOTTOM_BITS 6) = utf8_cont (unat u div 2 ^ k)"
    "TOP_BITS 1 OR (ucast u AND BOTTOM_BITS 6) = utf8_cont (unat u)"
    "unat u div 64 < 32 \<Longrightarrow> TOP_BITS 2 OR ucast (drop_bit 6 u) = word_of_nat (192 + unat u div 64)"
    "unat u div 4096 < 16 \<Longrightarrow> TOP_BITS 3 OR ucast (drop_bit 12 u) = word_of_nat (224 + unat u div 4096)"
    "unat u div 262144 < 8 \<Longrightarrow> TOP_BITS 4 OR ucast (drop_bit 18 u) = word_of_nat (240 + unat u div 262144)"
proof -
  have w: "(ucast v :: byte) = word_of_nat (unat v)" for v :: u32 by (simp only: of_nat_unat)
  show "unat u < 128 \<Longrightarrow> (ucast u :: byte) = word_of_nat (unat u)" by (rule w)
  have c: "TOP_BITS 1 OR (ucast v AND BOTTOM_BITS 6) = utf8_cont (unat v)" for v :: u32
  proof -
    have m: "unat (ucast v AND BOTTOM_BITS 6 :: byte) = unat v mod 64"
      by (simp add: unat_bottom_mask w unat_word_of_nat_byte mod_mod_cancel del: of_nat_unat)
    have "unat (TOP_BITS 1 OR (ucast v AND BOTTOM_BITS 6)) = 128 + unat v mod 64"
      using unat_push_or [of "ucast v AND BOTTOM_BITS 6" 7 "1 :: byte"] m
      by (simp only: TOP_BITS_values) (simp add: push_bit_eq_mult order_less_trans [OF mod_less_divisor])
    then show ?thesis by (metis of_nat_unat ucast_id utf8_cont_def)
  qed
  show "TOP_BITS 1 OR (ucast (drop_bit k u) AND BOTTOM_BITS 6) = utf8_cont (unat u div 2 ^ k)"
    unfolding c unat_drop_bit_div ..
  show "TOP_BITS 1 OR (ucast u AND BOTTOM_BITS 6) = utf8_cont (unat u)" by (rule c)
  have lead: "t OR ucast v = word_of_nat (2 ^ k * m + unat v)"
    if "t = push_bit k (word_of_nat m)" "unat v < 2 ^ k" "k \<le> 8" "(m + 1) * 2 ^ k \<le> 256" for v :: u32 and k m and t :: byte
  proof -
    have "(2 :: nat) ^ k \<le> 2 ^ 8" using that(3) by (rule power_increasing) simp
    then have v: "unat (ucast v :: byte) = unat v" using that(2) by (simp add: w unat_word_of_nat_byte del: of_nat_unat)
    have "m + 1 \<le> 256" using that(4) by (metis le_trans mult.right_neutral mult_le_mono2 one_le_numeral one_le_power)
    then have m: "unat (word_of_nat m :: byte) = m" by (intro unat_word_of_nat_lt) simp
    have "unat (t OR ucast v) = m * 2 ^ k + unat v"
      unfolding that(1) using that(2,4) m v by (subst unat_push_or) simp_all
    then show ?thesis by (metis of_nat_unat ucast_id mult.commute)
  qed
  show "unat u div 64 < 32 \<Longrightarrow> TOP_BITS 2 OR ucast (drop_bit 6 u) = word_of_nat (192 + unat u div 64)"
    using lead [of "TOP_BITS 2" 5 6 "drop_bit 6 u"]
    by (simp add: TOP_BITS_values push_bit_eq_mult unat_drop_bit_div del: unsigned_drop_bit_eq)
  show "unat u div 4096 < 16 \<Longrightarrow> TOP_BITS 3 OR ucast (drop_bit 12 u) = word_of_nat (224 + unat u div 4096)"
    using lead [of "TOP_BITS 3" 4 14 "drop_bit 12 u"]
    by (simp add: TOP_BITS_values push_bit_eq_mult unat_drop_bit_div del: unsigned_drop_bit_eq)
  show "unat u div 262144 < 8 \<Longrightarrow> TOP_BITS 4 OR ucast (drop_bit 18 u) = word_of_nat (240 + unat u div 262144)"
    using lead [of "TOP_BITS 4" 3 30 "drop_bit 18 u"]
    by (simp add: TOP_BITS_values push_bit_eq_mult unat_drop_bit_div del: unsigned_drop_bit_eq)
qed

lemma cbb_add_utf8_appender:
  assumes "is_valid_code_point u"
  shows "cbb_appender (\<lambda>env. cbb_add_utf8 env u) (utf8 (unat u)) True"
proof -
  have max: "unat u \<le> 0x10ffff" by (rule valid_code_point_bound [OF assms])
  note ax = add_u8.cbb_appender_axioms
  consider "unat u < 0x80" | "0x80 \<le> unat u" "unat u < 0x800" | "0x800 \<le> unat u" "unat u < 0x10000" | "0x10000 \<le> unat u"
    by linarith
  then show ?thesis
  proof cases
    case 1
    then show ?thesis using assms
      by (intro cbb_appender_eqI [OF ax [of "word_of_nat (unat u)"]])
        (simp_all add: cbb_add_utf8_def utf8_def word_le_nat_alt utf8_bytes utf8_bytes [unfolded One_nat_def]
          unat_drop_bit_div del: unsigned_drop_bit_eq of_nat_unat)
  next
    case 2
    then show ?thesis using assms
      by (intro cbb_appender_eqI [OF cbb_appender_seq [OF ax [of "word_of_nat (192 + unat u div 64)"] ax [of "utf8_cont (unat u)"]]])
        (simp_all add: cbb_add_utf8_def utf8_def word_le_nat_alt utf8_bytes(2-6) utf8_bytes(2,3) [unfolded One_nat_def]
          unat_drop_bit_div del: unsigned_drop_bit_eq of_nat_unat of_nat_add)
  next
    case 3
    then show ?thesis using assms
      by (intro cbb_appender_eqI [OF cbb_appender_seq [OF cbb_appender_seq [OF ax [of "word_of_nat (224 + unat u div 4096)"]
              ax [of "utf8_cont (unat u div 64)"]] ax [of "utf8_cont (unat u)"]]])
        (simp_all add: cbb_add_utf8_def utf8_def word_le_nat_alt utf8_bytes(2-6) utf8_bytes(2,3) [unfolded One_nat_def]
          unat_drop_bit_div del: unsigned_drop_bit_eq of_nat_unat of_nat_add)
  next
    case 4
    then show ?thesis using assms max
      by (intro cbb_appender_eqI [OF cbb_appender_seq [OF cbb_appender_seq [OF cbb_appender_seq [OF
              ax [of "word_of_nat (240 + unat u div 262144)"] ax [of "utf8_cont (unat u div 4096)"]]
              ax [of "utf8_cont (unat u div 64)"]] ax [of "utf8_cont (unat u)"]]])
        (simp_all add: cbb_add_utf8_def utf8_def word_le_nat_alt utf8_bytes(2-6) utf8_bytes(2,3) [unfolded One_nat_def]
          unat_drop_bit_div del: unsigned_drop_bit_eq of_nat_unat of_nat_add)
  qed
qed

lemma cbb_get_utf8_len_eq: "cbb_get_utf8_len u = length (utf8 (unat u))"
  by (simp add: cbb_get_utf8_len_def utf8_def word_le_nat_alt)

section \<open>Properties\<close>

text \<open>Writing a text, one code point after the other.\<close>

fun add_utf8_all :: "heap_env \<Rightarrow> u32 list \<Rightarrow> cbbst \<Rightarrow> bool \<times> cbbst" where
  "add_utf8_all env [] s = cbb_flush env s"
| "add_utf8_all env (u # us) s = seqb (cbb_add_utf8 env u s) (add_utf8_all env us)"

lemma add_utf8_valid: "cbb_add_utf8 env u s = (True, s') \<Longrightarrow> is_valid_code_point u"
  by (cases "is_valid_code_point u") (simp_all add: cbb_add_utf8_def)

lemma add_utf8_all_valid: "add_utf8_all env us s = (True, s') \<Longrightarrow> list_all is_valid_code_point us"
  by (induction us arbitrary: s) (auto simp: seqb_True_iff dest: add_utf8_valid)

lemma add_utf8_all_appender:
  "list_all is_valid_code_point us \<Longrightarrow> cbb_appender (\<lambda>env. add_utf8_all env us) (concat (map (\<lambda>u. utf8 (unat u)) us)) True"
proof (induction us)
  case Nil
  then show ?case using flush.cbb_appender_axioms by (auto intro: cbb_appender_eqI)
next
  case (Cons u us)
  then show ?case using cbb_appender_seq [OF cbb_add_utf8_appender [of u]] by simp
qed

lemma length_utf8_all: "length (concat (map (\<lambda>u. utf8 (unat u)) us)) \<le> 4 * length us"
  by (induction us) (auto simp: utf8_def)

text \<open>C23: a text written as UTF-8 consists of valid code points, and reading the output gives the text back; the
  output is the only string of bytes from which the reader takes this text, so overlong forms and surrogates are
  never accepted.\<close>

theorem utf8_text_roundtrip:
  assumes "cbb_run env cap (\<lambda>env. add_utf8_all env us) = Some out" "cap < SIZE_MOD" "length us < 2 ^ 60"
  shows "list_all is_valid_code_point us \<and> read_many cbs_get_utf8 (length us) (out @ r) = (Some us, r) \<and>
    (\<forall>c. read_many cbs_get_utf8 (length us) c = (Some us, r) \<longrightarrow> c = out @ r)"
proof -
  from assms(1) obtain s s' where "add_utf8_all env us s = (True, s')"
    by (auto simp: cbb_run_def seqb_def split: prod.split_asm if_split_asm)
  then have v: "list_all is_valid_code_point us" by (rule add_utf8_all_valid)
  have "length (concat (map (\<lambda>u. utf8 (unat u)) us)) < SIZE_MOD"
    using length_utf8_all [of us] assms(3) by (simp add: SIZE_MOD_def)
  from cbb_appender.run_sound [OF add_utf8_all_appender [OF v] assms(1,2) this]
  show ?thesis using v by (simp add: utf8.read_many_Some_iff)
qed

theorem utf8_text_roundtrip_witness:
  "read_many cbs_get_utf8 2 ([0x41, 0xe2, 0x82, 0xac] @ [7]) = (Some [0x41, 0x20ac], [7])"
proof -
  have v: "list_all is_valid_code_point [0x41, 0x20ac]" by (simp add: is_valid_code_point_def)
  have e: "concat (map (\<lambda>u. utf8 (unat u)) [0x41, 0x20ac :: u32]) = [0x41, 0xe2, 0x82, 0xac]"
    by (simp add: utf8_def utf8_cont_def)
  have "cbb_run all_ok 0 (\<lambda>env. add_utf8_all env [0x41, 0x20ac]) = Some (concat (map (\<lambda>u. utf8 (unat u)) [0x41, 0x20ac :: u32]))"
    by (rule cbb_appender.run_complete [OF add_utf8_all_appender [OF v], where N = 32]) (simp_all only: e, simp_all)
  from utf8_text_roundtrip [OF this [unfolded e], of "[7]"]
  have "read_many cbs_get_utf8 (length [0x41, 0x20ac :: u32]) ([0x41, 0xe2, 0x82, 0xac] @ [7]) = (Some [0x41, 0x20ac], [7])"
    by (simp only: SIZE_MOD_def) simp
  moreover have "length [0x41, 0x20ac :: u32] = 2" by simp
  ultimately show ?thesis by (simp only:)
qed

end
