(* ===== verification/Ber.thy ===== *)
theory Ber
  imports Unicode
begin

text \<open>
  The BER to DER conversion (\<^verbatim>\<open>crypto/bytestring/ber.c\<close>). The first pass \<^verbatim>\<open>cbs_find_ber\<close> looks for
  elements that need conversion, the second \<^verbatim>\<open>cbs_convert_ber\<close> reads elements and writes them through the builder
  of \<open>Cbb\<close>. Both are recursive functions on the reader whose termination rests on the reader getting shorter; the depth
  bound of the code is an argument. The specification is the datatype \<open>ber\<close> of element trees with their length
  forms, the encoding \<open>enc_ber\<close> and the DER value \<open>der_of\<close>. The conversion accepts exactly the encodings of
  well-formed trees within the depth bound and writes their DER value (\<open>convert_enc\<close>, \<open>convert_sound\<close>,
  \<open>ber_to_der_sound\<close>, \<open>ber_to_der_complete\<close>); its output contains nothing to convert (\<open>ber_to_der_idem\<close>).
  \<open>find_ber_enc\<close> says what the first pass reports, which is less than it should. The last part is
  \<^verbatim>\<open>CBS_get_asn1_implicit_string\<close>.
\<close>

section \<open>Tags\<close>

definition kMaxDepth :: nat where "kMaxDepth = 2048"

definition is_string_type :: "u32 \<Rightarrow> bool" where
  "is_string_type tag \<longleftrightarrow>
     tag AND NOT CBS_ASN1_CONSTRUCTED \<in>
       {0x4, 0xc, 0x12, 0x13, 0x14, 0x15, 0x16, 0x19, 0x1a, 0x1b, 0x1c, 0x1e}"

definition is_constructed :: "u32 \<Rightarrow> bool" where
  "is_constructed tag \<longleftrightarrow> tag AND CBS_ASN1_CONSTRUCTED \<noteq> 0"

section \<open>The BER reader\<close>

text \<open>The length octets of BER: the short form (\<open>k = 0\<close>) or \<open>k\<close> bytes, not necessarily the fewest.\<close>

definition ber_len :: "nat \<Rightarrow> nat \<Rightarrow> byte list" where
  "ber_len k n = (if k = 0 then [word_of_nat n] else word_of_nat (128 + k) # be_bytes k n)"

definition ber_form :: "nat \<Rightarrow> nat \<Rightarrow> bool" where
  "ber_form k n \<longleftrightarrow> (if k = 0 then n < 128 else k \<le> 4 \<and> n < 256 ^ k)"

definition der_form :: "nat \<Rightarrow> nat \<Rightarrow> bool" where
  "der_form k n \<longleftrightarrow> k = 0 \<or> 128 \<le> n \<and> 256 ^ (k - 1) \<le> n"

definition definite_el :: "u32 \<Rightarrow> nat \<Rightarrow> byte list \<Rightarrow> asn1_element" where
  "definite_el t k body =
     \<lparr>el_out = der_tag t @ ber_len k (length body) @ body, el_tag = t,
      el_header_len = length (der_tag t) + 1 + k, el_ber_found = (\<not> der_form k (length body))\<rparr>"

definition indefinite_el :: "u32 \<Rightarrow> asn1_element" where
  "indefinite_el t =
     \<lparr>el_out = der_tag t @ [0x80], el_tag = t, el_header_len = length (der_tag t) + 1, el_ber_found = True\<rparr>"

lemma length_ber_len [simp]: "length (ber_len k n) = 1 + k"
  by (simp add: ber_len_def)

lemma get_ber_element_long:
  assumes "parse_asn1_tag c = (Some t, lb # h)" "128 \<le> unat lb" "c = pre @ lb # h"
    and k: "k = unat lb - 128" and pre: "length pre \<le> 6"
  shows "cbs_get_any_asn1_element c True =
    (if k = 0 \<and> is_constructed t then
       (Some \<lparr>el_out = pre @ [lb], el_tag = t, el_header_len = length pre + 1, el_ber_found = True\<rparr>, h)
     else if k = 0 \<or> k > 4 \<or> length h < k then (None, c)
     else rbind (CBS_get_bytes c (be_val (take k h) + (length pre + 1 + k))) (\<lambda>out c.
         (Some \<lparr>el_out = out, el_tag = t, el_header_len = length pre + 1 + k,
            el_ber_found = (\<not> der_form k (be_val (take k h)))\<rparr>, c)))"
proof -
  have hl: "length c - length h = length pre + 1" using assms by simp
  have nb: "unat (lb AND 0x7f) = k"
    using assms(2) unat_byte_lt [of lb] by (simp add: unat_and_byte k le_mod_geq)
  have hb: "lb AND 0x80 \<noteq> 0" using assms(2) by (simp add: high_bit_iff)
  have g: "CBS_get_bytes c (length pre + 1) = (Some (pre @ [lb]), h)"
    using assms(3) by (simp add: CBS_get_bytes_Some_iff)
  show ?thesis
  proof (cases "k = 0 \<or> k > 4 \<or> length h < k")
    case True
    then show ?thesis
      using assms(1) hb hl g
      by (auto simp: cbs_get_any_asn1_element_def Let_def nb cbs_get_u_eq is_constructed_def)
  next
    case False
    define n where "n = be_val (take k h)"
    have "n < 256 ^ length (take k h)" unfolding n_def by (rule be_val_bound)
    also have "\<dots> \<le> 256 ^ 4" using False by (intro power_increasing) simp_all
    finally have n: "n < 256 ^ 4" .
    then have un: "unat (word_of_nat n :: u64) = n" by (intro unat_word_of_nat_lt) simp
    have short: "(word_of_nat n :: u64) < 128 \<longleftrightarrow> n < 128"
      by (simp add: word_less_nat_alt un)
    have padded: "drop_bit ((k - Suc 0) * 8) (word_of_nat n :: u64) = 0 \<longleftrightarrow> n < 256 ^ (k - Suc 0)"
      by (simp add: drop_bit_eq_0_iff_unat un mult.commute [of _ 8] power_mult)
    have ov: "\<not> size_add n (length pre + 1 + k) < n"
      using n pre False by (subst size_add_no_wrap) (simp_all add: SIZE_MOD_def)
    have "cbs_get_u h k = (Some (word_of_nat n), drop k h)"
      using False by (simp add: cbs_get_u_eq n_def)
    moreover have "(n < 128 \<or> n < 256 ^ (k - Suc 0)) \<longleftrightarrow> \<not> der_form k n"
      using False by (auto simp: der_form_def)
    ultimately show ?thesis
      using assms(1) hb False ov
      by (simp add: cbs_get_any_asn1_element_def Let_def nb hl short padded un flip: n_def)
  qed
qed

lemma get_ber_definite:
  assumes "ber_form k (length body)"
  shows "CBS_get_any_ber_asn1_element (der_tag t @ ber_len k (length body) @ body @ r) =
    (Some (definite_el t k body), r)"
proof -
  let ?n = "length body" and ?c = "der_tag t @ ber_len k (length body) @ body @ r"
  have tag: "parse_asn1_tag ?c = (Some t, ber_len k ?n @ body @ r)" by (rule der_tag.dec_enc) simp
  show ?thesis
  proof (cases "k = 0")
    case True
    have lb: "unat (word_of_nat ?n :: byte) = ?n"
      by (rule unat_word_of_nat_lt) (use assms True in \<open>simp add: ber_form_def\<close>)
    from tag True have t: "parse_asn1_tag ?c = (Some t, word_of_nat ?n # body @ r)"
      and c: "?c = der_tag t @ word_of_nat ?n # body @ r" by (simp_all add: ber_len_def)
    have "CBS_get_bytes ?c (?n + (length (der_tag t) + 1)) = (Some (der_tag t @ word_of_nat ?n # body), r)"
      unfolding c by (simp add: CBS_get_bytes_Some_iff)
    then show ?thesis
      using get_element_short [OF t _ c, of True] assms True lb
      by (simp add: CBS_get_any_ber_asn1_element_def definite_el_def ber_form_def ber_len_def der_form_def)
  next
    case False
    then have k: "k \<in> {1, 2, 3, 4}" "?n < 256 ^ k" using assms by (auto simp: ber_form_def)
    define lb :: byte where "lb = word_of_nat (128 + k)"
    have lb: "unat lb = 128 + k" using k unat_long_byte by (simp only: lb_def)
    from tag False have t: "parse_asn1_tag ?c = (Some t, lb # be_bytes k ?n @ body @ r)"
      and c: "?c = der_tag t @ lb # be_bytes k ?n @ body @ r" by (simp_all add: ber_len_def lb_def)
    have v: "be_val (be_bytes k ?n) = ?n" using k by (simp add: be_val_be_bytes)
    have eq: "CBS_get_any_ber_asn1_element ?c = rbind (CBS_get_bytes ?c (?n + (length (der_tag t) + 1 + k)))
       (\<lambda>out c. (Some \<lparr>el_out = out, el_tag = t, el_header_len = length (der_tag t) + 1 + k,
          el_ber_found = (\<not> der_form k ?n)\<rparr>, c))"
      unfolding CBS_get_any_ber_asn1_element_def
      by (subst get_ber_element_long [OF t _ c, of k])
        (use False k v lb length_der_tag in \<open>auto simp: Let_def\<close>)
    have "CBS_get_bytes ?c (?n + (length (der_tag t) + 1 + k)) = (Some (der_tag t @ ber_len k ?n @ body), r)"
      by (simp add: CBS_get_bytes_Some_iff)
    then show ?thesis unfolding eq by (simp add: definite_el_def)
  qed
qed

lemma get_ber_indefinite:
  assumes "is_constructed t"
  shows "CBS_get_any_ber_asn1_element (der_tag t @ 0x80 # r) = (Some (indefinite_el t), r)"
proof -
  have tag: "parse_asn1_tag (der_tag t @ 0x80 # r) = (Some t, 0x80 # r)" by (rule der_tag.dec_enc) simp
  show ?thesis
    using get_ber_element_long [OF tag _ refl, of 0] assms length_der_tag(1) [of t]
    by (simp add: CBS_get_any_ber_asn1_element_def indefinite_el_def)
qed

lemma get_ber_cases:
  assumes "CBS_get_any_ber_asn1_element c = (Some el, r)"
  obtains (definite) t k body where "ber_form k (length body)" "el = definite_el t k body"
      "c = der_tag t @ ber_len k (length body) @ body @ r"
    | (indefinite) t where "is_constructed t" "el = indefinite_el t" "c = der_tag t @ 0x80 # r"
proof -
  obtain t lb h where tag: "parse_asn1_tag c = (Some t, lb # h)"
  proof -
    from assms obtain t h where p: "parse_asn1_tag c = (Some t, h)"
      by (auto simp: CBS_get_any_ber_asn1_element_def cbs_get_any_asn1_element_def split: prod.splits option.splits)
    moreover from assms p have "h \<noteq> []"
      by (auto simp: CBS_get_any_ber_asn1_element_def cbs_get_any_asn1_element_def)
    ultimately show ?thesis using that by (metis list.exhaust)
  qed
  have c: "c = der_tag t @ lb # h" using tag by (simp add: der_tag.dec_Some_iff)
  show ?thesis
  proof (cases "unat lb < 128")
    case True
    from assms obtain out where out: "CBS_get_bytes c (unat lb + (length (der_tag t) + 1)) = (Some out, r)"
      by (auto simp: CBS_get_any_ber_asn1_element_def get_element_short [OF tag True c] rbind_Some_iff)
    define body where "body = drop (length (der_tag t) + 1) out"
    have o: "c = out @ r" "length out = unat lb + (length (der_tag t) + 1)"
      using out by (simp_all add: CBS_get_bytes_Some_iff)
    have "h = drop (length (der_tag t) + 1) c" by (simp add: c)
    then have b: "length body = unat lb" "h = body @ r" using o by (simp_all add: body_def)
    have len: "ber_len 0 (length body) = [lb]" by (simp add: ber_len_def b ucast_id)
    have form: "ber_form 0 (length body)" using True b by (simp add: ber_form_def)
    have c2: "c = der_tag t @ ber_len 0 (length body) @ body @ r" unfolding len using c b by simp
    from get_ber_definite [OF form, of t r] assms c2 have "el = definite_el t 0 body" by simp
    with form c2 show ?thesis using definite by blast
  next
    case False
    define k n where "k = unat lb - 128" and "n = be_val (take k h)"
    note el_eq = get_ber_element_long [OF tag _ c k_def length_der_tag(1)]
    have lb: "lb = word_of_nat (128 + k)"
      using False by (metis k_def le_add_diff_inverse linorder_not_less of_nat_unat ucast_id)
    show ?thesis
    proof (cases "k = 0 \<and> is_constructed t")
      case True
      then have "lb = 0x80" using lb by simp
      with c have c2: "c = der_tag t @ 0x80 # h" by simp
      with assms get_ber_indefinite [of t h] True have "el = indefinite_el t" "r = h" by simp_all
      with True c2 show ?thesis using indefinite by blast
    next
      case nb: False
      with assms False have k: "k \<noteq> 0" "k \<le> 4" "k \<le> length h"
        by (auto simp: CBS_get_any_ber_asn1_element_def el_eq split: if_splits)
      from assms False nb k obtain out where
        out: "CBS_get_bytes c (n + (length (der_tag t) + 1 + k)) = (Some out, r)"
        by (auto simp: CBS_get_any_ber_asn1_element_def el_eq rbind_Some_iff simp flip: n_def)
      define body where "body = take n (drop k h)"
      have "h = take k h @ drop k h" by simp
      have l: "length c = length (der_tag t) + 1 + length h" using c by simp
      have o: "length out = n + (length (der_tag t) + 1 + k)" "c = out @ r"
        using out by (auto simp: CBS_get_bytes_Some_iff)
      then have r: "r = drop (n + (length (der_tag t) + 1 + k)) c" by simp
      have nl: "n \<le> length (drop k h)" using l arg_cong [OF o(2), of length] o(1) by simp
      have rn: "r = drop n (drop k h)"
        unfolding r c by (simp add: drop_append add.commute)
      have b: "length body = n" "drop k h = body @ r"
        using nl by (simp add: body_def) (simp only: body_def rn append_take_drop_id)
      have tk: "take k h = be_bytes k n"
        using be_bytes_be_val [of "take k h"] k by (simp add: n_def)
      have nk: "n < 256 ^ k" using be_val_bound [of "take k h"] k by (simp add: n_def)
      have form: "ber_form k (length body)" using k nk b by (simp add: ber_form_def)
      have len: "ber_len k (length body) = lb # take k h"
        using k(1) unfolding ber_len_def b tk lb by simp
      have c2: "c = der_tag t @ ber_len k (length body) @ body @ r"
        unfolding len using c b(2) by (metis append.assoc append_Cons append_take_drop_id)
      from get_ber_definite [OF form, of t r] assms c2 have "el = definite_el t k body" by simp
      with form c2 show ?thesis using definite by blast
    qed
  qed
qed

lemma get_ber_element_shape:
  assumes "CBS_get_any_ber_asn1_element c = (Some el, r)"
  shows "c = el_out el @ r" "2 \<le> el_header_len el" "el_header_len el \<le> length (el_out el)"
    "length r < length c" "length (el_out el) - el_header_len el < length c"
  using assms length_der_tag(2)
  by (elim get_ber_cases; simp add: definite_el_def indefinite_el_def Suc_le_eq)+

lemma der_tag_not_Nil [simp]: "der_tag t \<noteq> []"
  using length_der_tag(2) [of t] by auto

section \<open>Finding BER\<close>

text \<open>The loop of \<^verbatim>\<open>cbs_find_ber\<close>. The argument \<open>ber_found\<close> is the variable behind the pointer of that
  name: every element read stores into it, and so does the recursive call. \<open>None\<close> is the return value 0.\<close>

function cbs_find_ber_loop :: "cbs \<Rightarrow> bool \<Rightarrow> nat \<Rightarrow> bool option" where
  "cbs_find_ber_loop c ber_found depth =
     (if CBS_len c = 0 then Some ber_found
      else case CBS_get_any_ber_asn1_element c of
        (None, c) \<Rightarrow> None
      | (Some el, c) \<Rightarrow>
          if el_ber_found el then Some True
          else if is_constructed (el_tag el) then
            if is_string_type (el_tag el) then Some True
            else
              (case CBS_skip (el_out el) (el_header_len el) of
                 (None, contents) \<Rightarrow> None
               | (Some _, contents) \<Rightarrow>
                   (case (if depth + 1 > kMaxDepth then None else cbs_find_ber_loop contents False (depth + 1)) of
                      None \<Rightarrow> None
                    | Some ber_found \<Rightarrow> cbs_find_ber_loop c ber_found depth))
          else cbs_find_ber_loop c False depth)"
  by pat_completeness auto
termination
  by (relation "measure (\<lambda>(c, f, d). length c)")
    (auto dest: get_ber_element_shape [OF sym] simp: CBS_skip_def cbs_get_def rbind_def split: if_split_asm)

declare cbs_find_ber_loop.simps [simp del]

definition cbs_find_ber :: "cbs \<Rightarrow> nat \<Rightarrow> bool option" where
  "cbs_find_ber orig_in depth =
     (if depth > kMaxDepth then None else cbs_find_ber_loop (CBS_init orig_in (CBS_len orig_in)) False depth)"

section \<open>Conversion\<close>

text \<open>The end-of-contents element.\<close>

definition is_eoc :: "nat \<Rightarrow> cbs \<Rightarrow> bool" where
  "is_eoc header_len contents \<longleftrightarrow>
     header_len = 2 \<and> CBS_len contents = 2 \<and> OPENSSL_memcmp contents [0, 0] 2 = 0"

text \<open>Where the contents of an element go: into the builder itself, for a fragment of a string, or into the
  child that was opened.\<close>

definition contents_of :: "u32 \<Rightarrow> cbbst \<Rightarrow> cbbst" where
  "contents_of string_tag out =
     (if string_tag \<noteq> 0 then out else (fst out, the (cbb_child (snd out))))"

definition with_contents :: "u32 \<Rightarrow> cbbst \<Rightarrow> cbbst \<Rightarrow> cbbst" where
  "with_contents string_tag out s =
     (if string_tag \<noteq> 0 then s else (fst s, cbb_with_child (snd out) (snd s)))"

text \<open>The element opened for a constructed string is primitive.\<close>

definition der_out_tag :: "u32 \<Rightarrow> u32" where
  "der_out_tag tag =
     (if is_constructed tag \<and> is_string_type tag then tag AND NOT CBS_ASN1_CONSTRUCTED else tag)"

definition open_contents :: "heap_env \<Rightarrow> u32 \<Rightarrow> u32 \<Rightarrow> cbbst \<Rightarrow> bool \<times> cbbst" where
  "open_contents env string_tag tag out =
     (if string_tag \<noteq> 0 then (tag AND NOT CBS_ASN1_CONSTRUCTED = string_tag, out)
      else CBB_add_asn1 env (der_out_tag tag) out)"

definition child_string_tag :: "u32 \<Rightarrow> u32 \<Rightarrow> u32" where
  "child_string_tag string_tag tag =
     (if string_tag = 0 \<and> is_constructed tag \<and> is_string_type tag
      then tag AND NOT CBS_ASN1_CONSTRUCTED else string_tag)"

definition indefinite_length :: "asn1_element \<Rightarrow> bool" where
  "indefinite_length el \<longleftrightarrow>
     CBS_len (el_out el) = el_header_len el \<and> el_header_len el > 0 \<and>
     el_out el ! (el_header_len el - 1) = 0x80"

text \<open>The result is the return value, the reader after the call and the builder after the call. The loop of the
  code is the recursion at the same depth.\<close>

function cbs_convert_ber ::
    "heap_env \<Rightarrow> cbs \<Rightarrow> u32 \<Rightarrow> bool \<Rightarrow> nat \<Rightarrow> cbbst \<Rightarrow> bool \<times> cbs \<times> cbbst" where
  "cbs_convert_ber env c string_tag looking_for_eoc depth out =
     (if depth > kMaxDepth then (False, c, out)
      else if CBS_len c = 0 then (\<not> looking_for_eoc, c, out)
      else case CBS_get_any_ber_asn1_element c of
        (None, c) \<Rightarrow> (False, c, out)
      | (Some el, c) \<Rightarrow>
        if is_eoc (el_header_len el) (el_out el) then (looking_for_eoc, c, out)
        else
          (case open_contents env string_tag (el_tag el) out of
             (False, out) \<Rightarrow> (False, c, out)
           | (True, out) \<Rightarrow>
             let child_tag = child_string_tag string_tag (el_tag el);
                 out_contents = contents_of string_tag out in
             (case (if indefinite_length el then
                      cbs_convert_ber env c child_tag True (depth + 1) out_contents
                    else
                      case CBS_skip (el_out el) (el_header_len el) of
                        (None, contents) \<Rightarrow> (False, c, out_contents)
                      | (Some _, contents) \<Rightarrow>
                          if is_constructed (el_tag el) then
                            (case cbs_convert_ber env contents child_tag False (depth + 1) out_contents of
                               (r, _, s) \<Rightarrow> (r, c, s))
                          else (case CBB_add_bytes env contents out_contents of (r, s) \<Rightarrow> (r, c, s))) of
                (False, c, s) \<Rightarrow> (False, c, with_contents string_tag out s)
              | (True, c, s) \<Rightarrow>
                  (case cbb_flush env (with_contents string_tag out s) of
                     (False, out) \<Rightarrow> (False, c, out)
                   | (True, out) \<Rightarrow> cbs_convert_ber env c string_tag looking_for_eoc depth out))))"
  by pat_completeness auto

lemma get_ber_element_rest: "length (snd (CBS_get_any_ber_asn1_element c)) \<le> length c"
  by (simp add: CBS_get_any_ber_asn1_element_def cbs_get_any_asn1_element_def rbind_def CBS_get_bytes_def cbs_get_def
      Let_def split: prod.split option.split)

lemma cbs_convert_ber_rest:
  assumes "cbs_convert_ber_dom (env, c, st, looking, depth, out)"
  shows "length (fst (snd (cbs_convert_ber env c st looking depth out))) \<le> length c"
  using assms
proof (induction rule: cbs_convert_ber.pinduct)
  case (1 env c st looking depth out)
  note eq = cbs_convert_ber.psimps [OF 1(1)]
  consider "depth > kMaxDepth \<or> CBS_len c = 0 \<or> fst (CBS_get_any_ber_asn1_element c) = None"
    | el c1 where "\<not> depth > kMaxDepth" "CBS_len c \<noteq> 0" "CBS_get_any_ber_asn1_element c = (Some el, c1)"
    by (metis option.exhaust prod.collapse)
  then show ?case
  proof cases
    case 1
    then show ?thesis using get_ber_element_rest [of c] by (auto simp: eq split: prod.split option.split)
  next
    case 2
    then have len: "length c1 < length c" by (auto dest: get_ber_element_shape)
    show ?thesis
    proof (cases "is_eoc (el_header_len el) (el_out el) \<or> fst (open_contents env st (el_tag el) out) = False")
      case True
      then show ?thesis using 2 len by (auto simp: eq split: prod.split)
    next
      case False
      then obtain out1 where out1: "open_contents env st (el_tag el) out = (True, out1)"
        by (metis (full_types) prod.collapse)
      let ?t = "child_string_tag st (el_tag el)" and ?o = "contents_of st out1"
      define p where "p = (if indefinite_length el then cbs_convert_ber env c1 ?t True (depth + 1) ?o
        else case CBS_skip (el_out el) (el_header_len el) of
           (None, contents) \<Rightarrow> (False, c1, ?o)
         | (Some _, contents) \<Rightarrow>
             if is_constructed (el_tag el) then
               (case cbs_convert_ber env contents ?t False (depth + 1) ?o of (r, _, s) \<Rightarrow> (r, c1, s))
             else (case CBB_add_bytes env contents ?o of (r, s) \<Rightarrow> (r, c1, s)))"
      have p_len: "length (fst (snd p)) \<le> length c1"
      proof (cases "indefinite_length el")
        case True
        then show ?thesis using 1(2) [of _ c1 el True out1] 2 False out1 by (simp add: p_def)
      qed (auto simp: p_def split: prod.split option.split)
      have run: "cbs_convert_ber env c st looking depth out =
        (case p of (False, c, s) \<Rightarrow> (False, c, with_contents st out1 s)
              | (True, c, s) \<Rightarrow>
                  (case cbb_flush env (with_contents st out1 s) of
                     (False, out) \<Rightarrow> (False, c, out)
                   | (True, out) \<Rightarrow> cbs_convert_ber env c st looking depth out))"
        using 2 False out1 by (simp add: eq p_def Let_def)
      show ?thesis
      proof (cases "\<exists>c2 s2 out2. p = (True, c2, s2) \<and> cbb_flush env (with_contents st out1 s2) = (True, out2)")
        case True
        then obtain c2 s2 out2 where t: "p = (True, c2, s2)" "cbb_flush env (with_contents st out1 s2) = (True, out2)"
          by blast
        have "length (fst (snd (cbs_convert_ber env c2 st looking depth out2))) \<le> length c2"
          using 1(4) [of _ c1 el True out1 _ _ True _ c2 s2 True out2] 2 False out1 t by (simp add: p_def)
        then show ?thesis using p_len t len by (simp add: run)
      next
        case False
        then show ?thesis using p_len len by (auto simp: run split: prod.split bool.split)
      qed
    qed
  qed
qed

termination cbs_convert_ber
proof (relation "measure (\<lambda>(env, c, st, looking, depth, out). length c)", goal_cases)
  case (2 env c st looking depth out x y el)
  then show ?case using get_ber_element_shape [of c el y] by simp
next
  case (3 env c st looking depth out x y el xa ya xb xc xd yaa x2a)
  then show ?case
    using get_ber_element_shape [of c el y] by (auto simp: CBS_skip_def cbs_get_def rbind_def split: if_split_asm)
next
  case (4 env c st looking depth out x y el xa ya xb xc xd yb xe yc xf yd)
  have "length xe \<le> length y"
  proof (cases "indefinite_length el")
    case True
    with 4(10) have e: "cbs_convert_ber env y xb True (depth + 1) xc = (xd, yb)" by simp
    show ?thesis
      using cbs_convert_ber_rest [OF 4(16) [OF True]] unfolding e 4(12) [symmetric] by simp
  next
    case False
    with 4(10,12) show ?thesis by (auto split: prod.split_asm option.split_asm if_split_asm)
  qed
  then show ?case using 4 get_ber_element_shape [of c el y] by simp
qed simp

declare cbs_convert_ber.simps [simp del]

text \<open>The results of \<^verbatim>\<open>CBS_asn1_ber_to_der\<close> are the converted bytes, whether they are in fresh storage, and the
  reader.\<close>

definition CBS_asn1_ber_to_der :: "heap_env \<Rightarrow> cbs \<Rightarrow> (cbs \<times> bool) option \<times> cbs" where
  "CBS_asn1_ber_to_der env c =
     (case cbs_find_ber c 0 of
        None \<Rightarrow> (None, c)
      | Some conversion_needed \<Rightarrow>
          if \<not> conversion_needed then
            rbind (CBS_get_any_asn1_element c) (\<lambda>el c. (Some (el_out el, False), c))
          else
            (case CBB_init env (CBS_len c) of
               (False, s) \<Rightarrow> (None, c)
             | (True, cbb) \<Rightarrow>
                 (case cbs_convert_ber env c 0 False 0 cbb of
                    (False, c, cbb) \<Rightarrow> (None, c)
                  | (True, c, cbb) \<Rightarrow>
                      (case CBB_finish env True True cbb of
                         (Some (Some out_storage, Some len), cbb) \<Rightarrow> (Some (CBS_init out_storage len, True), c)
                       | _ \<Rightarrow> (None, c)))))"

text \<open>The loop of \<^verbatim>\<open>CBS_get_asn1_implicit_string\<close>.\<close>

function implicit_string_loop :: "heap_env \<Rightarrow> cbs \<Rightarrow> u32 \<Rightarrow> cbbst \<Rightarrow> bool \<times> cbbst" where
  "implicit_string_loop env child inner_tag result =
     (if CBS_len child = 0 then (True, result)
      else case CBS_get_asn1 child inner_tag of
        (None, child) \<Rightarrow> (False, result)
      | (Some chunk, child) \<Rightarrow>
          seqb (CBB_add_bytes env chunk result) (implicit_string_loop env child inner_tag))"
  by pat_completeness auto
termination
  by (relation "measure (\<lambda>(env, c, t, s). length c)")
    (auto simp: CBS_get_asn1_Some_iff der_element_def der_header_def der_tag_not_Nil dest!: sym [of "(_, _)"])

declare implicit_string_loop.simps [simp del]

definition CBS_get_asn1_implicit_string ::
    "heap_env \<Rightarrow> cbs \<Rightarrow> u32 \<Rightarrow> u32 \<Rightarrow> (cbs \<times> bool) option \<times> cbs" where
  "CBS_get_asn1_implicit_string env c outer_tag inner_tag =
     (if CBS_peek_asn1_tag c outer_tag then
        rbind (CBS_get_asn1 c outer_tag) (\<lambda>out c. (Some (out, False), c))
      else
        (case CBB_init env (CBS_len c) of
           (False, s) \<Rightarrow> (None, c)
         | (True, result) \<Rightarrow>
             rbind (CBS_get_asn1 c (outer_tag OR CBS_ASN1_CONSTRUCTED)) (\<lambda>child c.
               case implicit_string_loop env child inner_tag result of
                 (False, result) \<Rightarrow> (None, c)
               | (True, result) \<Rightarrow>
                   (case CBB_finish env True True result of
                      (Some (Some data, Some len), result) \<Rightarrow> (Some (CBS_init data len, True), c)
                    | _ \<Rightarrow> (None, c)))))"

section \<open>BER structures\<close>

text \<open>An element of BER: primitive contents or a list of elements, with the number of bytes in the long form of the
  length (0 for the short form), or a list of elements closed by an end-of-contents.\<close>

datatype ber = BPrim u32 nat "byte list" | BCons u32 nat "ber list" | BIndef u32 "ber list"

fun enc_ber :: "ber list \<Rightarrow> byte list" where
  "enc_ber [] = []"
| "enc_ber (BPrim t k d # ts) = der_tag t @ ber_len k (length d) @ d @ enc_ber ts"
| "enc_ber (BCons t k cs # ts) = der_tag t @ ber_len k (length (enc_ber cs)) @ enc_ber cs @ enc_ber ts"
| "enc_ber (BIndef t cs # ts) = der_tag t @ 0x80 # enc_ber cs @ 0 # 0 # enc_ber ts"

text \<open>Well-formed elements, in a constructed string of the given tag or (tag 0) not: the constructed bit tells the two
  kinds of contents apart, a primitive element is not an end-of-contents, and the fragments of a string have the
  string's tag.\<close>

definition fragment_ok :: "u32 \<Rightarrow> u32 \<Rightarrow> bool" where
  "fragment_ok st t \<longleftrightarrow> (st \<noteq> 0 \<longrightarrow> t AND NOT CBS_ASN1_CONSTRUCTED = st)"

fun ber_wf :: "u32 \<Rightarrow> ber list \<Rightarrow> bool" where
  "ber_wf st [] \<longleftrightarrow> True"
| "ber_wf st (BPrim t k d # ts) \<longleftrightarrow>
     \<not> is_constructed t \<and> ber_form k (length d) \<and> \<not> (t = 0 \<and> k = 0 \<and> d = []) \<and> fragment_ok st t \<and> ber_wf st ts"
| "ber_wf st (BCons t k cs # ts) \<longleftrightarrow>
     is_constructed t \<and> ber_form k (length (enc_ber cs)) \<and> fragment_ok st t \<and>
     ber_wf (child_string_tag st t) cs \<and> ber_wf st ts"
| "ber_wf st (BIndef t cs # ts) \<longleftrightarrow>
     is_constructed t \<and> fragment_ok st t \<and> ber_wf (child_string_tag st t) cs \<and> ber_wf st ts"

text \<open>No element is nested more than \<^verbatim>\<open>kMaxDepth\<close> deep.\<close>

fun ber_depth :: "nat \<Rightarrow> ber list \<Rightarrow> bool" where
  "ber_depth d [] \<longleftrightarrow> d \<le> kMaxDepth"
| "ber_depth d (BPrim t k b # ts) \<longleftrightarrow> ber_depth d ts"
| "ber_depth d (BCons t k cs # ts) \<longleftrightarrow> ber_depth (d + 1) cs \<and> ber_depth d ts"
| "ber_depth d (BIndef t cs # ts) \<longleftrightarrow> ber_depth (d + 1) cs \<and> ber_depth d ts"

text \<open>The DER they stand for: definite lengths in the shortest form, and the fragments of a string joined.\<close>

definition der_wrap :: "u32 \<Rightarrow> u32 \<Rightarrow> byte list \<Rightarrow> byte list" where
  "der_wrap st t d = (if st \<noteq> 0 then d else der_element (der_out_tag t) d)"

fun der_of :: "u32 \<Rightarrow> ber list \<Rightarrow> byte list" where
  "der_of st [] = []"
| "der_of st (BPrim t k d # ts) = der_wrap st t d @ der_of st ts"
| "der_of st (BCons t k cs # ts) = der_wrap st t (der_of (child_string_tag st t) cs) @ der_of st ts"
| "der_of st (BIndef t cs # ts) = der_wrap st t (der_of (child_string_tag st t) cs) @ der_of st ts"

definition wrap_ok :: "u32 \<Rightarrow> byte list \<Rightarrow> bool" where
  "wrap_ok st d \<longleftrightarrow> st \<noteq> 0 \<or> length d \<le> 0xfffffffe"

fun der_ok :: "u32 \<Rightarrow> ber list \<Rightarrow> bool" where
  "der_ok st [] \<longleftrightarrow> True"
| "der_ok st (BPrim t k d # ts) \<longleftrightarrow> wrap_ok st d \<and> der_ok st ts"
| "der_ok st (BCons t k cs # ts) \<longleftrightarrow>
     (der_ok (child_string_tag st t) cs \<and> wrap_ok st (der_of (child_string_tag st t) cs)) \<and> der_ok st ts"
| "der_ok st (BIndef t cs # ts) \<longleftrightarrow>
     (der_ok (child_string_tag st t) cs \<and> wrap_ok st (der_of (child_string_tag st t) cs)) \<and> der_ok st ts"

section \<open>What the conversion writes\<close>

text \<open>The writes of a conversion, without the reading.\<close>

definition emit_el ::
    "heap_env \<Rightarrow> u32 \<Rightarrow> u32 \<Rightarrow> (cbbst \<Rightarrow> bool \<times> cbbst) \<Rightarrow> cbbst \<Rightarrow> bool \<times> cbbst" where
  "emit_el env st t body s =
     (if st \<noteq> 0 then seqb (body s) (cbb_flush env)
      else seqb (CBB_add_asn1 env (der_out_tag t) s) (\<lambda>s. seqb (on_child body s) (cbb_flush env)))"

lemma emit_el_cong [fundef_cong]:
  "env = env' \<Longrightarrow> st = st' \<Longrightarrow> t = t' \<Longrightarrow> (\<And>s. f s = g s) \<Longrightarrow> s = s' \<Longrightarrow>
   emit_el env st t f s = emit_el env' st' t' g s'"
  by (metis ext)

fun emit :: "heap_env \<Rightarrow> u32 \<Rightarrow> ber list \<Rightarrow> cbbst \<Rightarrow> bool \<times> cbbst" where
  "emit env st [] s = (True, s)"
| "emit env st (BPrim t k d # ts) s = seqb (emit_el env st t (CBB_add_bytes env d) s) (emit env st ts)"
| "emit env st (BCons t k cs # ts) s =
     seqb (emit_el env st t (emit env (child_string_tag st t) cs) s) (emit env st ts)"
| "emit env st (BIndef t cs # ts) s =
     seqb (emit_el env st t (emit env (child_string_tag st t) cs) s) (emit env st ts)"

lemma emit_el_closed:
  assumes "closed_appender body d ok"
  shows "closed_appender (\<lambda>env. emit_el env st t (body env)) (der_wrap st t d) (ok \<and> wrap_ok st d)"
proof (cases "st = 0")
  case True
  with cbb_appender_closed [OF asn1_nested_closed [OF assms, of "der_out_tag t"]] show ?thesis
    by (simp add: emit_el_def [abs_def] der_wrap_def wrap_ok_def)
next
  case False
  with closed_appender_seq [OF assms cbb_appender_closed [OF flush.cbb_appender_axioms]] show ?thesis
    by (simp add: emit_el_def [abs_def] der_wrap_def wrap_ok_def)
qed

lemma emit_closed: "closed_appender (\<lambda>env. emit env st ts) (der_of st ts) (der_ok st ts)"
proof (induction st ts rule: der_of.induct)
  case (1 st)
  then show ?case using closed_appender_skip by (simp add: fun_eq_iff)
next
  case (2 st t k d ts)
  from closed_appender_seq [OF emit_el_closed [OF cbb_appender_closed [OF add_bytes.cbb_appender_axioms]] 2]
  show ?case by simp
next
  case (3 st t k cs ts)
  from closed_appender_seq [OF emit_el_closed [OF 3(1)] 3(2)] show ?case by simp
next
  case (4 st t cs ts)
  from closed_appender_seq [OF emit_el_closed [OF 4(1)] 4(2)] show ?case by simp
qed

section \<open>The conversion reads what it writes\<close>

definition convert_contents ::
    "heap_env \<Rightarrow> asn1_element \<Rightarrow> cbs \<Rightarrow> u32 \<Rightarrow> nat \<Rightarrow> cbbst \<Rightarrow> bool \<times> cbs \<times> cbbst" where
  "convert_contents env el c st depth s =
     (if indefinite_length el then cbs_convert_ber env c st True (depth + 1) s
      else
        case CBS_skip (el_out el) (el_header_len el) of
          (None, contents) \<Rightarrow> (False, c, s)
        | (Some _, contents) \<Rightarrow>
            if is_constructed (el_tag el) then
              (case cbs_convert_ber env contents st False (depth + 1) s of (r, _, s) \<Rightarrow> (r, c, s))
            else (case CBB_add_bytes env contents s of (r, s) \<Rightarrow> (r, c, s)))"

lemma cbs_convert_ber_Nil:
  "depth \<le> kMaxDepth \<Longrightarrow> cbs_convert_ber env [] st looking depth s = (\<not> looking, [], s)"
  by (simp add: cbs_convert_ber.simps CBS_len_def)

lemma cbs_convert_ber_eoc:
  assumes "depth \<le> kMaxDepth" "CBS_get_any_ber_asn1_element c = (Some el, r)" "is_eoc (el_header_len el) (el_out el)"
  shows "cbs_convert_ber env c st looking depth s = (looking, r, s)"
proof -
  have "c \<noteq> []" using get_ber_element_shape(4) [OF assms(2)] by auto
  then show ?thesis using assms by (subst cbs_convert_ber.simps) (simp add: CBS_len_def)
qed

lemma cbs_convert_ber_el:
  assumes "depth \<le> kMaxDepth" "CBS_get_any_ber_asn1_element c = (Some el, r)" "\<not> is_eoc (el_header_len el) (el_out el)"
  shows "cbs_convert_ber env c st looking depth s = (True, rest, s') \<longleftrightarrow>
    (\<exists>s1 o2 c2 s2. open_contents env st (el_tag el) s = (True, s1) \<and>
      convert_contents env el r (child_string_tag st (el_tag el)) depth (contents_of st s1) = (True, c2, o2) \<and>
      cbb_flush env (with_contents st s1 o2) = (True, s2) \<and>
      cbs_convert_ber env c2 st looking depth s2 = (True, rest, s'))"
proof -
  have "c \<noteq> []" using get_ber_element_shape(4) [OF assms(2)] by auto
  then show ?thesis
    using assms
    by (subst cbs_convert_ber.simps)
      (auto simp: CBS_len_def Let_def simp flip: convert_contents_def split: prod.splits bool.splits)
qed

lemma cbs_convert_ber_elI:
  assumes "depth \<le> kMaxDepth" "CBS_get_any_ber_asn1_element c = (Some el, r)" "\<not> is_eoc (el_header_len el) (el_out el)"
    "open_contents env st (el_tag el) s = (True, s1)"
    "cbb_flush env (with_contents st s1 o2) = (True, s2)"
    "cbs_convert_ber env c2 st looking depth s2 = (True, rest, s')"
    "convert_contents env el r (child_string_tag st (el_tag el)) depth (contents_of st s1) = (True, c2, o2)"
  shows "cbs_convert_ber env c st looking depth s = (True, rest, s')"
  using assms(4-7) unfolding cbs_convert_ber_el [OF assms(1-3)] by blast

lemma emit_el_True_iff:
  assumes "fragment_ok st t"
  shows "emit_el env st t body s = (True, s2) \<longleftrightarrow>
    (\<exists>s1 o2. open_contents env st t s = (True, s1) \<and> body (contents_of st s1) = (True, o2) \<and>
      cbb_flush env (with_contents st s1 o2) = (True, s2))"
proof (cases "st = 0")
  case True
  have child: "\<exists>base ch off pll a i. s1 = (base, CBB (Some ch) off pll a i)"
    if "CBB_add_asn1 env tag s = (True, s1)" for tag s1
  proof -
    from that obtain s0 off pll a where "cbb_open_child off pll a s0 = (True, s1)"
      by (auto simp: CBB_add_asn1_def seqb_True_iff Let_def)
    then show ?thesis by (cases s0; cases "snd s0") (auto simp: cbb_open_child_def)
  qed
  have oc: "on_child body s1 = (True, x) \<longleftrightarrow>
      (\<exists>o2. body (contents_of 0 s1) = (True, o2) \<and> x = with_contents 0 s1 o2)"
    if "CBB_add_asn1 env tag s = (True, s1)" for tag s1 x
    using child [OF that]
    by (auto simp: on_child_def contents_of_def with_contents_def cbb_with_child_def split: prod.split prod.split_asm)
  show ?thesis
    unfolding True by (auto simp: emit_el_def open_contents_def seqb_True_iff oc) (metis surj_pair)
next
  case False
  then show ?thesis
    using assms
    by (auto simp: emit_el_def open_contents_def contents_of_def with_contents_def seqb_True_iff fragment_ok_def)
qed
lemma der_tag_0: "der_tag 0 = [0]"
  by (simp add: der_tag_def Let_def)

lemma is_eoc_definite [simp]:
  "is_eoc (el_header_len (definite_el t k body)) (el_out (definite_el t k body)) \<longleftrightarrow> t = 0 \<and> k = 0 \<and> body = []"
proof
  assume e: "is_eoc (el_header_len (definite_el t k body)) (el_out (definite_el t k body))"
  then have "el_header_len (definite_el t k body) = 2" "length (el_out (definite_el t k body)) = 2"
    by (simp_all add: is_eoc_def CBS_len_def)
  then have "length (der_tag t) + 1 + k = 2" "length (der_tag t) + (1 + k + length body) = 2"
    unfolding definite_el_def by simp_all
  moreover have "1 \<le> length (der_tag t)" unfolding One_nat_def Suc_le_eq by (rule length_der_tag)
  ultimately have "k = 0 \<and> length body = 0 \<and> length (der_tag t) = 1" by linarith
  then have "k = 0" "body = []" "length (der_tag t) = 1" by simp_all
  with e have "der_tag t = der_tag 0"
    by (cases "der_tag t") (auto simp: is_eoc_def definite_el_def CBS_len_def OPENSSL_memcmp_0_iff der_tag_0 ber_len_def)
  then have "t = 0" using der_tag.enc_inj [of t 0] by simp
  with \<open>k = 0\<close> \<open>body = []\<close> show "t = 0 \<and> k = 0 \<and> body = []" by simp
qed (simp add: is_eoc_def definite_el_def CBS_len_def OPENSSL_memcmp_0_iff der_tag_0 ber_len_def)

lemma is_eoc_indefinite [simp]: "\<not> is_eoc (el_header_len (indefinite_el t)) (el_out (indefinite_el t))"
  by (cases "der_tag t") (auto simp: is_eoc_def indefinite_el_def CBS_len_def OPENSSL_memcmp_0_iff)

lemma indefinite_length_definite [simp]: "\<not> indefinite_length (definite_el t k body)"
proof
  assume a: "indefinite_length (definite_el t k body)"
  then have b: "body = []" by (simp add: indefinite_length_def definite_el_def CBS_len_def)
  have "last (ber_len k 0) = 0"
    by (cases k) (simp_all add: ber_len_def)
  moreover have "ber_len k 0 \<noteq> []" by (simp add: ber_len_def)
  ultimately have "last (der_tag t @ ber_len k 0) = 0" by simp
  with a b show False
    by (simp add: indefinite_length_def definite_el_def CBS_len_def last_conv_nth)
qed

lemma indefinite_length_indefinite [simp]: "indefinite_length (indefinite_el t)"
  by (simp add: indefinite_length_def indefinite_el_def CBS_len_def nth_append)

lemma CBS_skip_definite [simp]:
  "CBS_skip (el_out (definite_el t k body)) (el_header_len (definite_el t k body)) = (Some (), body)"
  by (simp add: CBS_skip_def cbs_get_def definite_el_def)

lemma el_tag_simps [simp]: "el_tag (definite_el t k body) = t" "el_tag (indefinite_el t) = t"
  by (simp_all add: definite_el_def indefinite_el_def)

lemma get_ber_eoc: "CBS_get_any_ber_asn1_element (0 # 0 # r) = (Some (definite_el 0 0 []), r)"
  using get_ber_definite [of 0 "[]" 0 r] by (simp add: der_tag_0 ber_form_def ber_len_def)

lemma ber_depth_le: "ber_depth d ts \<Longrightarrow> d \<le> kMaxDepth"
  by (induction d ts rule: ber_depth.induct) auto

lemma is_constructed_0 [simp]: "\<not> is_constructed 0"
  by (simp add: is_constructed_def)

lemma convert_enc:
  "ber_wf st ts \<Longrightarrow> ber_depth depth ts \<Longrightarrow> emit env st ts s = (True, s') \<Longrightarrow>
   cbs_convert_ber env (enc_ber ts @ (if looking then 0 # 0 # r else [])) st looking depth s =
     (True, if looking then r else [], s')"
proof (induction st ts arbitrary: depth looking r s s' rule: der_of.induct)
  case (1 st)
  then show ?case
    using cbs_convert_ber_eoc [OF _ get_ber_eoc, where depth = depth and looking = True and r = r] by (simp add: cbs_convert_ber_Nil)
next
  case (2 st t k d ts)
  let ?tail = "enc_ber ts @ (if looking then 0 # 0 # r else [])"
  have g: "CBS_get_any_ber_asn1_element (enc_ber (BPrim t k d # ts) @ (if looking then 0 # 0 # r else [])) =
      (Some (definite_el t k d), ?tail)"
    using get_ber_definite [of k d t ?tail] 2 by simp
  from 2 obtain s2 where s2: "emit_el env st t (CBB_add_bytes env d) s = (True, s2)" "emit env st ts s2 = (True, s')"
    by (auto simp: seqb_True_iff)
  with 2(2) emit_el_True_iff [of st t env "CBB_add_bytes env d" s s2] obtain s1 o2 where
    "open_contents env st t s = (True, s1)" "CBB_add_bytes env d (contents_of st s1) = (True, o2)"
    "cbb_flush env (with_contents st s1 o2) = (True, s2)" by auto
  moreover from 2 s2 have "cbs_convert_ber env ?tail st looking depth s2 = (True, if looking then r else [], s')"
    by (intro 2(1)) auto
  ultimately show ?case
    using 2(2,3) ber_depth_le [OF 2(3)]
    by (intro cbs_convert_ber_elI [OF _ g]) (auto simp: convert_contents_def)
next
  case (3 st t k cs ts)
  let ?tail = "enc_ber ts @ (if looking then 0 # 0 # r else [])" and ?st = "child_string_tag st t"
  have g: "CBS_get_any_ber_asn1_element (enc_ber (BCons t k cs # ts) @ (if looking then 0 # 0 # r else [])) =
      (Some (definite_el t k (enc_ber cs)), ?tail)"
    using get_ber_definite [of k "enc_ber cs" t ?tail] 3 by simp
  from 3 obtain s2 where s2: "emit_el env st t (emit env ?st cs) s = (True, s2)" "emit env st ts s2 = (True, s')"
    by (auto simp: seqb_True_iff)
  with 3(3) emit_el_True_iff [of st t env "emit env ?st cs" s s2] obtain s1 o2 where
    o: "open_contents env st t s = (True, s1)" "emit env ?st cs (contents_of st s1) = (True, o2)"
    "cbb_flush env (with_contents st s1 o2) = (True, s2)" by auto
  moreover from 3 s2 have "cbs_convert_ber env ?tail st looking depth s2 = (True, if looking then r else [], s')"
    by (intro 3(2)) auto
  moreover from 3 o have "cbs_convert_ber env (enc_ber cs) ?st False (depth + 1) (contents_of st s1) = (True, [], o2)"
    using 3(1) [of "depth + 1" "contents_of st s1" o2 False] by simp
  ultimately show ?case
    using 3(3,4) ber_depth_le [OF 3(4)]
    by (intro cbs_convert_ber_elI [OF _ g]) (auto simp: convert_contents_def)
next
  case (4 st t cs ts)
  let ?tail = "enc_ber ts @ (if looking then 0 # 0 # r else [])" and ?st = "child_string_tag st t"
  have g: "CBS_get_any_ber_asn1_element (enc_ber (BIndef t cs # ts) @ (if looking then 0 # 0 # r else [])) =
      (Some (indefinite_el t), enc_ber cs @ 0 # 0 # ?tail)"
    using get_ber_indefinite [of t "enc_ber cs @ 0 # 0 # ?tail"] 4 by simp
  from 4 obtain s2 where s2: "emit_el env st t (emit env ?st cs) s = (True, s2)" "emit env st ts s2 = (True, s')"
    by (auto simp: seqb_True_iff)
  with 4(3) emit_el_True_iff [of st t env "emit env ?st cs" s s2] obtain s1 o2 where
    o: "open_contents env st t s = (True, s1)" "emit env ?st cs (contents_of st s1) = (True, o2)"
    "cbb_flush env (with_contents st s1 o2) = (True, s2)" by auto
  moreover from 4 s2 have "cbs_convert_ber env ?tail st looking depth s2 = (True, if looking then r else [], s')"
    by (intro 4(2)) auto
  moreover from 4 o have "cbs_convert_ber env (enc_ber cs @ 0 # 0 # ?tail) ?st True (depth + 1) (contents_of st s1) =
      (True, ?tail, o2)"
    using 4(1) [of "depth + 1" "contents_of st s1" o2 True ?tail] by simp
  ultimately show ?case
    using 4(3,4) ber_depth_le [OF 4(4)]
    by (intro cbs_convert_ber_elI [OF _ g]) (auto simp: convert_contents_def)
qed

lemma ber_len_0_0: "ber_len 0 0 = [0]"
  by (simp add: ber_len_def)

lemma emit_el_seqI:
  assumes "fragment_ok st t" "open_contents env st t s = (True, s1)" "body (contents_of st s1) = (True, o2)"
    "cbb_flush env (with_contents st s1 o2) = (True, s2)" "f s2 = (True, s')"
  shows "seqb (emit_el env st t body s) f = (True, s')"
proof -
  have "emit_el env st t body s = (True, s2)" using assms(2-4) unfolding emit_el_True_iff [OF assms(1)] by blast
  with assms(5) show ?thesis by simp
qed

text \<open>Every input that is converted is an encoding: the converse of \<open>convert_enc\<close>.\<close>

lemma convert_sound:
  "cbs_convert_ber env c st looking depth s = (True, rest, s') \<Longrightarrow>
   \<exists>ts. ber_wf st ts \<and> ber_depth depth ts \<and> c = enc_ber ts @ (if looking then 0 # 0 # rest else []) \<and>
     (looking \<or> rest = []) \<and> emit env st ts s = (True, s')"
proof (induction env c st looking depth s arbitrary: rest s' rule: cbs_convert_ber.induct)
  case (1 env c st looking depth s)
  have depth: "depth \<le> kMaxDepth"
    using 1(4) by (subst (asm) cbs_convert_ber.simps) (simp split: if_split_asm)
  show ?case
  proof (cases "c = []")
    case True
    with 1(4) depth have "\<not> looking \<and> rest = [] \<and> s' = s" by (simp add: cbs_convert_ber_Nil)
    with True depth show ?thesis by (intro exI [of _ "[]"]) simp
  next
    case False
    with 1(4) depth obtain el c1 where g: "CBS_get_any_ber_asn1_element c = (Some el, c1)"
      by (subst (asm) cbs_convert_ber.simps) (auto simp: CBS_len_def split: prod.split_asm option.split_asm)
    show ?thesis
    proof (cases "is_eoc (el_header_len el) (el_out el)")
      case True
      from g True have "c = 0 # 0 # c1"
        by (cases rule: get_ber_cases) (simp_all add: der_tag_0 ber_len_0_0)
      moreover from cbs_convert_ber_eoc [OF depth g True] 1(4) have "looking \<and> rest = c1 \<and> s' = s" by simp
      ultimately show ?thesis using depth by (intro exI [of _ "[]"]) simp
    next
      case neoc: False
      let ?st = "child_string_tag st (el_tag el)"
      from 1(4) cbs_convert_ber_el [OF depth g neoc] obtain s1 o2 c2 s2 where
        o: "open_contents env st (el_tag el) s = (True, s1)"
          "convert_contents env el c1 ?st depth (contents_of st s1) = (True, c2, o2)"
          "cbb_flush env (with_contents st s1 o2) = (True, s2)"
          "cbs_convert_ber env c2 st looking depth s2 = (True, rest, s')" by blast
      have frag: "fragment_ok st (el_tag el)"
        using o(1) by (simp add: fragment_ok_def open_contents_def split: if_split_asm)
      have len: "\<not> kMaxDepth < depth" "CBS_len c \<noteq> 0" using depth False by (simp_all add: CBS_len_def)
      note cc = o(2) [unfolded convert_contents_def]
      from 1(3) [OF len g [symmetric] refl neoc o(1) [symmetric] refl refl refl cc [symmetric] refl refl o(3) [symmetric]
          refl o(4)]
      obtain ts where ts: "ber_wf st ts" "ber_depth depth ts" "c2 = enc_ber ts @ (if looking then 0 # 0 # rest else [])"
        "looking \<or> rest = []" "emit env st ts s2 = (True, s')" by blast
      from g show ?thesis
      proof (cases rule: get_ber_cases)
        case (definite t k body)
        show ?thesis
        proof (cases "is_constructed t")
          case True
          with cc definite obtain r where r:
            "cbs_convert_ber env body ?st False (depth + 1) (contents_of st s1) = (True, r, o2)" and c2: "c2 = c1"
            by (auto split: prod.split_asm)
          from 1(2) [OF len g [symmetric] refl neoc o(1) [symmetric] refl refl refl, of "Some ()" body "()"] definite True r
          obtain cs where "ber_wf ?st cs" "ber_depth (depth + 1) cs" "body = enc_ber cs"
            "emit env ?st cs (contents_of st s1) = (True, o2)" by auto
          then show ?thesis
            using definite True ts o frag c2
            by (intro exI [of _ "BCons t k cs # ts"]) (auto intro: emit_el_seqI)
        next
          case prim: False
          with cc definite have "CBB_add_bytes env body (contents_of st s1) = (True, o2)" and c2: "c2 = c1"
            by (auto split: prod.split_asm)
          then show ?thesis
            using definite prim ts o frag neoc c2
            by (intro exI [of _ "BPrim t k body # ts"]) (auto intro: emit_el_seqI)
        qed
      next
        case (indefinite t)
        with cc have "cbs_convert_ber env c1 ?st True (depth + 1) (contents_of st s1) = (True, c2, o2)" by simp
        from 1(1) [OF len g [symmetric] refl neoc o(1) [symmetric] refl refl refl _ this] indefinite
        obtain cs where "ber_wf ?st cs" "ber_depth (depth + 1) cs" "c1 = enc_ber cs @ 0 # 0 # c2"
          "emit env ?st cs (contents_of st s1) = (True, o2)" by auto
        then show ?thesis
          using indefinite ts o frag
          by (intro exI [of _ "BIndef t cs # ts"]) (auto intro: emit_el_seqI)
      qed
    qed
  qed
qed

section \<open>What the search reports\<close>

text \<open>Well-formed for the search: it does not look into strings, and an end-of-contents is an element to it.\<close>

fun ber_shape :: "ber list \<Rightarrow> bool" where
  "ber_shape [] \<longleftrightarrow> True"
| "ber_shape (BPrim t k d # ts) \<longleftrightarrow> \<not> is_constructed t \<and> ber_form k (length d) \<and> ber_shape ts"
| "ber_shape (BCons t k cs # ts) \<longleftrightarrow>
     is_constructed t \<and> ber_form k (length (enc_ber cs)) \<and> ber_shape cs \<and> ber_shape ts"
| "ber_shape (BIndef t cs # ts) \<longleftrightarrow> is_constructed t \<and> ber_shape ts"

lemma ber_wf_shape: "ber_wf st ts \<Longrightarrow> ber_shape ts"
  by (induction st ts rule: ber_wf.induct) auto

text \<open>The element itself needs conversion.\<close>

fun own_ber :: "ber \<Rightarrow> bool" where
  "own_ber (BPrim t k d) \<longleftrightarrow> \<not> der_form k (length d)"
| "own_ber (BCons t k cs) \<longleftrightarrow> \<not> der_form k (length (enc_ber cs)) \<or> is_string_type t"
| "own_ber (BIndef t cs) \<longleftrightarrow> True"

fun ber_children :: "ber \<Rightarrow> ber list" where
  "ber_children (BPrim t k d) = []"
| "ber_children (BCons t k cs) = cs"
| "ber_children (BIndef t cs) = cs"

text \<open>Some element needs conversion; and what the search reports.\<close>

fun has_ber :: "ber list \<Rightarrow> bool" where
  "has_ber [] \<longleftrightarrow> False"
| "has_ber (BPrim t k d # ts) \<longleftrightarrow> own_ber (BPrim t k d) \<or> has_ber ts"
| "has_ber (BCons t k cs # ts) \<longleftrightarrow> own_ber (BCons t k cs) \<or> has_ber cs \<or> has_ber ts"
| "has_ber (BIndef t cs # ts) \<longleftrightarrow> True"

fun found_ber :: "ber list \<Rightarrow> bool" where
  "found_ber [] \<longleftrightarrow> False"
| "found_ber (BPrim t k d # ts) \<longleftrightarrow> own_ber (BPrim t k d) \<or> found_ber ts"
| "found_ber (BCons t k cs # ts) \<longleftrightarrow> own_ber (BCons t k cs) \<or> (if ts = [] then found_ber cs else found_ber ts)"
| "found_ber (BIndef t cs # ts) \<longleftrightarrow> True"

lemma found_ber_has_ber: "found_ber ts \<Longrightarrow> has_ber ts"
  by (induction ts rule: found_ber.induct) (auto split: if_split_asm)

lemma el_ber_found_simps [simp]:
  "el_ber_found (definite_el t k body) \<longleftrightarrow> \<not> der_form k (length body)" "el_ber_found (indefinite_el t)"
  by (simp_all add: definite_el_def indefinite_el_def)

lemma cbs_find_ber_loop_Nil [simp]: "cbs_find_ber_loop [] b depth = Some b"
  by (simp add: cbs_find_ber_loop.simps CBS_len_def)

lemma find_ber_enc:
  "ber_shape ts \<Longrightarrow> ber_depth depth ts \<Longrightarrow>
   cbs_find_ber_loop (enc_ber ts) b depth = Some (if ts = [] then b else found_ber ts)"
proof (induction ts arbitrary: b depth rule: enc_ber.induct)
  case 1
  then show ?case by (simp add: cbs_find_ber_loop.simps CBS_len_def)
next
  case (2 t k d ts)
  have g: "CBS_get_any_ber_asn1_element (enc_ber (BPrim t k d # ts)) = (Some (definite_el t k d), enc_ber ts)"
    using get_ber_definite [of k d t "enc_ber ts"] 2 by simp
  then have ne: "CBS_len (enc_ber (BPrim t k d # ts)) \<noteq> 0" by (simp add: CBS_len_def)
  from 2 show ?case
    by (subst cbs_find_ber_loop.simps) (use g ne in auto)
next
  case (3 t k cs ts)
  have g: "CBS_get_any_ber_asn1_element (enc_ber (BCons t k cs # ts)) =
      (Some (definite_el t k (enc_ber cs)), enc_ber ts)"
    using get_ber_definite [of k "enc_ber cs" t "enc_ber ts"] 3 by simp
  then have ne: "CBS_len (enc_ber (BCons t k cs # ts)) \<noteq> 0" by (simp add: CBS_len_def)
  have "depth + 1 \<le> kMaxDepth" using 3 ber_depth_le [of "depth + 1" cs] by simp
  with 3 show ?case
    by (subst cbs_find_ber_loop.simps) (use g ne in auto)
next
  case (4 t cs ts)
  have g: "CBS_get_any_ber_asn1_element (enc_ber (BIndef t cs # ts)) =
      (Some (indefinite_el t), enc_ber cs @ 0 # 0 # enc_ber ts)"
    using get_ber_indefinite [of t "enc_ber cs @ 0 # 0 # enc_ber ts"] 4 by simp
  then have ne: "CBS_len (enc_ber (BIndef t cs # ts)) \<noteq> 0" by (simp add: CBS_len_def)
  from 4 show ?case
    by (subst cbs_find_ber_loop.simps) (use g ne in auto)
qed

lemma cbs_find_ber_enc:
  assumes "ber_shape ts" "ber_depth 0 ts"
  shows "cbs_find_ber (enc_ber ts) 0 = Some (found_ber ts)"
  using find_ber_enc [OF assms, of False]
  by (cases ts) (simp_all add: cbs_find_ber_def CBS_init_def CBS_len_def)

section \<open>The whole conversion\<close>

lemma length_der_wrap: "length (der_wrap st t d) \<le> length (der_tag (der_out_tag t)) + 5 + length d"
  by (simp add: der_wrap_def der_element_def der_header_def der_len_def)

lemma length_der_out_tag: "length (der_tag (der_out_tag t)) \<le> 6 * length (der_tag t)"
proof -
  have "1 \<le> length (der_tag t)" unfolding One_nat_def Suc_le_eq by (rule length_der_tag)
  with length_der_tag(1) [of "der_out_tag t"] show ?thesis by linarith
qed

lemma length_der_of: "length (der_of st ts) \<le> 6 * length (enc_ber ts)"
proof (induction st ts rule: der_of.induct)
  case (2 st t k d ts)
  then show ?case using length_der_wrap [of st t d] length_der_out_tag [of t] by simp
next
  case (3 st t k cs ts)
  then show ?case
    using length_der_wrap [of st t "der_of (child_string_tag st t) cs"] length_der_out_tag [of t] by simp
next
  case (4 st t cs ts)
  then show ?case
    using length_der_wrap [of st t "der_of (child_string_tag st t) cs"] length_der_out_tag [of t] by simp
qed simp

lemma convert_run:
  assumes "cbs_find_ber c 0 = Some True"
  shows "CBS_asn1_ber_to_der env c = (Some (out, True), rest) \<longleftrightarrow>
    (\<exists>cbb s storage len s'. CBB_init env (length c) = (True, cbb) \<and>
       cbs_convert_ber env c 0 False 0 cbb = (True, rest, s) \<and>
       CBB_finish env True True s = (Some (Some storage, Some len), s') \<and> out = take len storage)"
  using assms
  by (auto simp: CBS_asn1_ber_to_der_def CBS_len_def CBS_init_def
      split: prod.splits bool.splits option.splits)

lemma cbb_run_Some_iff:
  "cbb_run env cap op = Some out \<longleftrightarrow>
    (\<exists>cbb s storage len s'. CBB_init env cap = (True, cbb) \<and> op env cbb = (True, s) \<and>
       CBB_finish env True True s = (Some (Some storage, Some len), s') \<and> out = take len storage)"
  by (auto simp: cbb_run_def seqb_def split: prod.splits option.splits if_splits)

lemma ber_to_der_sound:
  assumes "CBS_asn1_ber_to_der env c = (Some (out, True), rest)" "length c < 2 ^ 60"
  shows "\<exists>ts. ber_wf 0 ts \<and> ber_depth 0 ts \<and> found_ber ts \<and> c = enc_ber ts \<and> rest = [] \<and>
    out = der_of 0 ts \<and> der_ok 0 ts"
proof -
  have f: "cbs_find_ber c 0 = Some True"
    using assms(1) by (auto simp: CBS_asn1_ber_to_der_def rbind_def split: option.split_asm prod.split_asm if_split_asm)
  from assms(1) obtain cbb s storage len s' where run: "CBB_init env (length c) = (True, cbb)"
    "cbs_convert_ber env c 0 False 0 cbb = (True, rest, s)"
    "CBB_finish env True True s = (Some (Some storage, Some len), s')" "out = take len storage"
    unfolding convert_run [OF f] by blast
  from convert_sound [OF run(2)] obtain ts where ts: "ber_wf 0 ts" "ber_depth 0 ts" "c = enc_ber ts" "rest = []"
    "emit env 0 ts cbb = (True, s)" by auto
  have "cbb_run env (length c) (\<lambda>env. emit env 0 ts) = Some out"
    unfolding cbb_run_Some_iff using run ts(5) by blast
  from closed_appender.run_sound [OF emit_closed this] assms(2) length_der_of [of 0 ts] ts(3)
  have "out = der_of 0 ts \<and> der_ok 0 ts" by (simp add: SIZE_MOD_def)
  moreover have "found_ber ts" using f ts cbs_find_ber_enc [OF ber_wf_shape [OF ts(1)] ts(2)] by simp
  ultimately show ?thesis using ts by blast
qed

lemma ber_to_der_complete:
  assumes ts: "ber_wf 0 ts" "ber_depth 0 ts" "found_ber ts" "der_ok 0 ts"
    and mem: "init_ok env N" "length (enc_ber ts) \<le> N" "length (der_of 0 ts) \<le> N"
  shows "CBS_asn1_ber_to_der env (enc_ber ts) = (Some (der_of 0 ts, True), [])"
proof -
  have f: "cbs_find_ber (enc_ber ts) 0 = Some True"
    using ts cbs_find_ber_enc [OF ber_wf_shape [OF ts(1)] ts(2)] by simp
  have "cbb_run env (length (enc_ber ts)) (\<lambda>env. emit env 0 ts) = Some (der_of 0 ts)"
    by (rule closed_appender.run_complete [OF emit_closed mem(1,2) ts(4) mem(3)])
  then obtain cbb s storage len s' where run: "CBB_init env (length (enc_ber ts)) = (True, cbb)"
    "emit env 0 ts cbb = (True, s)"
    "CBB_finish env True True s = (Some (Some storage, Some len), s')" "der_of 0 ts = take len storage"
    unfolding cbb_run_Some_iff by blast
  from convert_enc [OF ts(1,2) run(2), of False] have
    "cbs_convert_ber env (enc_ber ts) 0 False 0 cbb = (True, [], s)" by simp
  with run show ?thesis unfolding convert_run [OF f] by blast
qed

section \<open>Input that is DER\<close>

lemma ber_len_der:
  assumes "ber_form k n" "der_form k n"
  shows "ber_len k n = der_len n"
proof (cases "k = 0")
  case True
  then show ?thesis using assms by (simp add: ber_len_def ber_form_def der_len_short)
next
  case False
  then have "k \<in> {1, 2, 3, 4}" using assms by (auto simp: ber_form_def)
  then have "long_form k n" using assms False by (auto simp: long_form_def ber_form_def der_form_def)
  then show ?thesis using False by (simp add: long_form_der_len ber_len_def)
qed

lemma ber_form_bound: "ber_form k n \<Longrightarrow> n < 2 ^ 32"
proof -
  assume a: "ber_form k n"
  then have "n < 256 ^ 4"
  proof (cases "k = 0")
    case False
    then have "(256::nat) ^ k \<le> 256 ^ 4" using a by (intro power_increasing) (simp_all add: ber_form_def)
    then show ?thesis using a False by (simp add: ber_form_def)
  qed (use a in \<open>simp add: ber_form_def\<close>)
  then show ?thesis by simp
qed

lemma ber_to_der_der:
  assumes "ber_shape (t # ts)" "ber_depth 0 (t # ts)" "\<not> found_ber (t # ts)" "\<not> own_ber t"
  shows "CBS_asn1_ber_to_der env (enc_ber (t # ts)) = (Some (enc_ber [t], False), enc_ber ts)"
proof -
  have f: "cbs_find_ber (enc_ber (t # ts)) 0 = Some False"
    using assms cbs_find_ber_enc [OF assms(1,2)] by simp
  obtain tag k body where t: "enc_ber [t] = der_tag tag @ ber_len k (length body) @ body"
    "enc_ber (t # ts) = enc_ber [t] @ enc_ber ts" "ber_form k (length body)" "der_form k (length body)"
    using assms by (cases t) auto
  then have e: "enc_ber [t] = der_element tag body" by (simp add: der_element_def der_header_def ber_len_der)
  from get_any_asn1_element_complete [OF ber_form_bound [OF t(3)], of tag "enc_ber ts"] f show ?thesis
    by (simp add: CBS_asn1_ber_to_der_def t(2) e der_el_def)
qed

section \<open>The output contains no BER\<close>

definition der_k :: "nat \<Rightarrow> nat" where
  "der_k n = (if n < 128 then 0 else if n < 256 then 1 else if n < 256 ^ 2 then 2 else if n < 256 ^ 3 then 3 else 4)"

lemma der_k: "n \<le> 0xfffffffe \<Longrightarrow> ber_form (der_k n) n" "der_form (der_k n) n"
  by (auto simp: der_k_def ber_form_def der_form_def)

fun normalise :: "ber list \<Rightarrow> ber list" where
  "normalise [] = []"
| "normalise (BPrim t k d # ts) = BPrim t (der_k (length d)) d # normalise ts"
| "normalise (BCons t k cs # ts) =
     (if is_string_type t then
        let d = der_of (child_string_tag 0 t) cs in BPrim (der_out_tag t) (der_k (length d)) d
      else BCons t (der_k (length (enc_ber (normalise cs)))) (normalise cs)) # normalise ts"
| "normalise (BIndef t cs # ts) =
     (if is_string_type t then
        let d = der_of (child_string_tag 0 t) cs in BPrim (der_out_tag t) (der_k (length d)) d
      else BCons t (der_k (length (enc_ber (normalise cs)))) (normalise cs)) # normalise ts"

lemma not_constructed_mask [simp]: "\<not> is_constructed (t AND NOT CBS_ASN1_CONSTRUCTED)"
  by (simp add: is_constructed_def and.assoc)

lemma not_constructed_out_tag: "is_string_type t \<Longrightarrow> is_constructed t \<Longrightarrow> \<not> is_constructed (der_out_tag t)"
  by (simp add: der_out_tag_def is_constructed_def and.assoc)

lemma enc_el_der:
  "n = length d \<Longrightarrow> n \<le> 0xfffffffe \<Longrightarrow> der_tag t @ ber_len (der_k n) n @ d @ r = der_element t d @ r"
  by (simp add: der_element_def der_header_def ber_len_der der_k)

lemma normalise:
  "ber_wf 0 ts \<Longrightarrow> der_ok 0 ts \<Longrightarrow> enc_ber (normalise ts) = der_of 0 ts \<and> ber_shape (normalise ts) \<and>
     \<not> has_ber (normalise ts)"
proof (induction ts rule: normalise.induct)
  case (2 t k d ts)
  then show ?case
    by (simp add: der_wrap_def der_out_tag_def wrap_ok_def enc_el_der der_k)
next
  case (3 t k cs ts)
  then show ?case
    by (cases "is_string_type t")
      (simp_all add: der_wrap_def wrap_ok_def enc_el_der der_k Let_def not_constructed_out_tag child_string_tag_def
        der_out_tag_def)
next
  case (4 t cs ts)
  then show ?case
    by (cases "is_string_type t")
      (simp_all add: der_wrap_def wrap_ok_def enc_el_der der_k Let_def not_constructed_out_tag child_string_tag_def
        der_out_tag_def)
qed simp

lemma normalise_depth: "ber_depth d ts \<Longrightarrow> ber_depth d (normalise ts)"
  by (induction d ts rule: ber_depth.induct) (auto simp: Let_def dest: ber_depth_le)

lemma ber_to_der_idem:
  assumes "ber_wf 0 ts" "ber_depth 0 ts" "der_ok 0 ts"
  shows "cbs_find_ber (der_of 0 ts) 0 = Some False"
  using cbs_find_ber_enc [of "normalise ts"] normalise [OF assms(1,3)] normalise_depth [OF assms(2)]
    found_ber_has_ber by metis

section \<open>Implicitly tagged strings\<close>

fun add_chunks :: "heap_env \<Rightarrow> byte list list \<Rightarrow> cbbst \<Rightarrow> bool \<times> cbbst" where
  "add_chunks env [] s = (True, s)"
| "add_chunks env (d # ds) s = seqb (CBB_add_bytes env d s) (add_chunks env ds)"

lemma add_chunks_closed: "closed_appender (\<lambda>env. add_chunks env ds) (concat ds) True"
proof (induction ds)
  case Nil
  then show ?case using closed_appender_skip by (simp add: fun_eq_iff)
next
  case (Cons d ds)
  from closed_appender_seq [OF cbb_appender_closed [OF add_bytes.cbb_appender_axioms] Cons] show ?case by simp
qed

definition chunk_elements :: "u32 \<Rightarrow> byte list list \<Rightarrow> byte list" where
  "chunk_elements tag ds = concat (map (der_element tag) ds)"

definition chunks_ok :: "byte list list \<Rightarrow> bool" where
  "chunks_ok ds \<longleftrightarrow> list_all (\<lambda>d. length d < 2 ^ 32) ds"

lemma der_element_not_Nil [simp]: "der_element t d \<noteq> []"
  by (simp add: der_element_def der_header_def)

lemma implicit_string_loop_enc:
  "chunks_ok ds \<Longrightarrow> implicit_string_loop env (chunk_elements tag ds) tag s = add_chunks env ds s"
proof (induction ds arbitrary: s)
  case (Cons d ds)
  then have "CBS_get_asn1 (chunk_elements tag (d # ds)) tag = (Some d, chunk_elements tag ds)"
    by (simp add: CBS_get_asn1_Some_iff chunk_elements_def chunks_ok_def)
  moreover have "chunk_elements tag (d # ds) \<noteq> []" by (simp add: chunk_elements_def)
  moreover have "implicit_string_loop env (chunk_elements tag ds) tag = add_chunks env ds"
    using Cons by (intro ext) (simp add: chunks_ok_def)
  ultimately show ?case by (subst implicit_string_loop.simps) (simp add: CBS_len_def)
qed (simp add: chunk_elements_def implicit_string_loop.simps CBS_len_def)

lemma implicit_string_loop_sound:
  "implicit_string_loop env c tag s = (True, s') \<Longrightarrow>
   \<exists>ds. chunks_ok ds \<and> c = chunk_elements tag ds \<and> add_chunks env ds s = (True, s')"
proof (induction env c tag s rule: implicit_string_loop.induct)
  case (1 env c tag s)
  show ?case
  proof (cases "c = []")
    case True
    with 1(2) show ?thesis
      by (intro exI [of _ "[]"]) (simp add: implicit_string_loop.simps CBS_len_def chunk_elements_def chunks_ok_def)
  next
    case False
    with 1(2) obtain d c1 s1 where g: "CBS_get_asn1 c tag = (Some d, c1)" "CBB_add_bytes env d s = (True, s1)"
      "implicit_string_loop env c1 tag s1 = (True, s')"
      by (subst (asm) implicit_string_loop.simps)
        (auto simp: CBS_len_def seqb_True_iff split: prod.split_asm option.split_asm)
    from 1(1) [OF _ g(1) [symmetric] refl g(3)] False obtain ds where
      "chunks_ok ds" "c1 = chunk_elements tag ds" "add_chunks env ds s1 = (True, s')" by (auto simp: CBS_len_def)
    with g show ?thesis
      by (intro exI [of _ "d # ds"]) (simp add: CBS_get_asn1_Some_iff chunk_elements_def chunks_ok_def)
  qed
qed

lemma length_concat_chunks: "length (concat ds) \<le> length (chunk_elements tag ds)"
  by (induction ds) (simp_all add: chunk_elements_def der_element_def)

lemma implicit_run:
  assumes "\<not> CBS_peek_asn1_tag c outer_tag"
  shows "CBS_get_asn1_implicit_string env c outer_tag inner_tag = (Some (out, fresh), rest) \<longleftrightarrow>
    fresh \<and> (\<exists>child cbb s storage len s'. CBB_init env (length c) = (True, cbb) \<and>
       CBS_get_asn1 c (outer_tag OR CBS_ASN1_CONSTRUCTED) = (Some child, rest) \<and>
       implicit_string_loop env child inner_tag cbb = (True, s) \<and>
       CBB_finish env True True s = (Some (Some storage, Some len), s') \<and> out = take len storage)"
  using assms
  by (auto simp: CBS_get_asn1_implicit_string_def CBS_len_def CBS_init_def rbind_def
      split: prod.splits bool.splits option.splits)

lemma implicit_string_sound:
  assumes "CBS_get_asn1_implicit_string env c outer_tag inner_tag = (Some (out, fresh), rest)" "length c < 2 ^ 60"
  shows "if fresh
    then \<exists>ds. chunks_ok ds \<and> out = concat ds \<and>
      c = der_element (outer_tag OR CBS_ASN1_CONSTRUCTED) (chunk_elements inner_tag ds) @ rest
    else c = der_element outer_tag out @ rest"
proof (cases "CBS_peek_asn1_tag c outer_tag")
  case True
  with assms(1) have "CBS_get_asn1 c outer_tag = (Some out, rest)" "\<not> fresh"
    by (auto simp: CBS_get_asn1_implicit_string_def rbind_Some_iff)
  then show ?thesis by (simp add: CBS_get_asn1_Some_iff)
next
  case False
  from assms(1) obtain child cbb s storage len s' where run: "fresh" "CBB_init env (length c) = (True, cbb)"
    "CBS_get_asn1 c (outer_tag OR CBS_ASN1_CONSTRUCTED) = (Some child, rest)"
    "implicit_string_loop env child inner_tag cbb = (True, s)"
    "CBB_finish env True True s = (Some (Some storage, Some len), s')" "out = take len storage"
    unfolding implicit_run [OF False] by blast
  from implicit_string_loop_sound [OF run(4)] obtain ds where
    ds: "chunks_ok ds" "child = chunk_elements inner_tag ds" "add_chunks env ds cbb = (True, s)" by blast
  have c: "c = der_element (outer_tag OR CBS_ASN1_CONSTRUCTED) child @ rest"
    using run(3) by (simp add: CBS_get_asn1_Some_iff)
  have "length child \<le> length c" unfolding c by (simp add: der_element_def)
  then have "length (concat ds) < 2 ^ 60"
    using length_concat_chunks [of ds inner_tag] assms(2) unfolding ds(2) by linarith
  then have "length (concat ds) < SIZE_MOD" by (simp add: SIZE_MOD_def)
  moreover have "cbb_run env (length c) (\<lambda>env. add_chunks env ds) = Some out"
    unfolding cbb_run_Some_iff using run ds(3) by blast
  ultimately have "out = concat ds"
    using closed_appender.run_sound [OF add_chunks_closed, of env "length c" ds out] assms(2) by (simp add: SIZE_MOD_def)
  with ds c run(1) show ?thesis by auto
qed

lemma implicit_string_primitive:
  assumes "length out < 2 ^ 32"
  shows "CBS_get_asn1_implicit_string env (der_element outer_tag out @ rest) outer_tag inner_tag =
    (Some (out, False), rest)"
proof -
  have p: "CBS_peek_asn1_tag (der_element outer_tag out @ rest) outer_tag"
    using der_tag.dec_enc [of outer_tag "der_len (length out) @ out @ rest"]
    by (simp add: CBS_peek_asn1_tag_def CBS_len_def der_element_def der_header_def Suc_le_eq)
  have "CBS_get_asn1 (der_element outer_tag out @ rest) outer_tag = (Some out, rest)"
    using assms by (simp add: CBS_get_asn1_Some_iff)
  then show ?thesis using p by (simp add: CBS_get_asn1_implicit_string_def)
qed

lemma implicit_string_constructed:
  assumes "chunks_ok ds" "length (chunk_elements inner_tag ds) < 2 ^ 32" "\<not> is_constructed outer_tag"
    and c: "c = der_element (outer_tag OR CBS_ASN1_CONSTRUCTED) (chunk_elements inner_tag ds) @ rest"
    and mem: "init_ok env N" "length c \<le> N"
  shows "CBS_get_asn1_implicit_string env c outer_tag inner_tag = (Some (concat ds, True), rest)"
proof -
  let ?t = "outer_tag OR CBS_ASN1_CONSTRUCTED"
  have "is_constructed ?t" 
    by (simp add: is_constructed_def bit.conj_disj_distrib2) (simp add: CBS_ASN1_CONSTRUCTED_def CBS_ASN1_TAG_SHIFT_def)
  then have "outer_tag \<noteq> ?t" using assms(3) by auto
  moreover have "parse_asn1_tag c = (Some ?t, der_len (length (chunk_elements inner_tag ds)) @ chunk_elements inner_tag ds @ rest)"
    unfolding c der_element_def der_header_def append_assoc by (rule der_tag.dec_enc) simp
  ultimately have peek: "\<not> CBS_peek_asn1_tag c outer_tag" by (simp add: CBS_peek_asn1_tag_def)
  have get: "CBS_get_asn1 c ?t = (Some (chunk_elements inner_tag ds), rest)"
    using assms(2) by (simp add: CBS_get_asn1_Some_iff c)
  have "length (concat ds) \<le> N"
    using length_concat_chunks [of ds inner_tag] mem(2) unfolding c der_element_def by simp
  from closed_appender.run_complete [OF add_chunks_closed mem _ this] obtain cbb s storage len s' where
    "CBB_init env (length c) = (True, cbb)" "add_chunks env ds cbb = (True, s)"
    "CBB_finish env True True s = (Some (Some storage, Some len), s')" "concat ds = take len storage"
    unfolding cbb_run_Some_iff by auto
  with get implicit_string_loop_enc [OF assms(1)] show ?thesis unfolding implicit_run [OF peek] by metis
qed

end
