(* ===== verification/Set_Of.thy ===== *)
theory Set_Of
  imports Ber Qsort "HOL-Library.List_Lexorder"
begin

text \<open>
  \<^verbatim>\<open>CBB_flush_asn1_set_of\<close> of \<^verbatim>\<open>crypto/bytestring/cbb.c\<close>: the elements a builder holds are put into the
  order X.690 asks of a DER SET OF. The comparison function is the lexicographic order of byte strings
  (\<open>compare_set_of_element_le\<close>), so the outcome of \<^verbatim>\<open>qsort\<close> is unique (\<open>qsort_unique\<close>), and the operation replaces the
  contents of the builder by the sorted concatenation of the elements they consist of (\<open>flush_set_of_sound\<close>), which it
  always manages when memory is available and the contents are a sequence of elements (\<open>flush_set_of_complete\<close>). Both hold
  for any builder, in particular a child behind the header of its parent: with the contract \<open>child_filler\<close> of \<open>Cbb_Child\<close>
  the bytes that are finished are the enclosing elements around the sorted ones.
\<close>

section \<open>Definitions\<close>

text \<open>The sign of the result orders the elements.\<close>

definition compare_set_of_element :: "cbs \<Rightarrow> cbs \<Rightarrow> int" where
  "compare_set_of_element a b =
     (let a_len = CBS_len a; b_len = CBS_len b;
          min_len = (if a_len < b_len then a_len else b_len);
          ret = OPENSSL_memcmp (CBS_data a) (CBS_data b) min_len in
      if ret \<noteq> 0 then ret
      else if a_len = b_len then 0
      else if a_len < b_len then - 1 else 1)"

text \<open>The two loops over the contents: one counts the elements, the other collects them.\<close>

lemma el_out_not_Nil: "\<exists>body. length body < n \<and> el = der_el (el_tag el) body \<Longrightarrow> el_out el \<noteq> []"
  by (metis asn1_element.select_convs(1) der_el_def der_element_not_Nil)

function count_set_of :: "cbs \<Rightarrow> nat \<Rightarrow> nat option" where
  "count_set_of c num_children =
     (if CBS_len c = 0 then Some num_children
      else case CBS_get_any_asn1_element c of
        (None, c) \<Rightarrow> None
      | (Some el, c) \<Rightarrow> count_set_of c (num_children + 1))"
  by pat_completeness auto
termination
  by (relation "measure (\<lambda>(c, n). length c)")
    (auto simp: der_any.dec_Some_iff dest!: sym [of "(_, _)"] el_out_not_Nil)

declare count_set_of.simps [simp del]

fun read_set_of :: "cbs \<Rightarrow> nat \<Rightarrow> cbs list option" where
  "read_set_of c 0 = Some []"
| "read_set_of c (Suc n) =
     (case CBS_get_any_asn1_element c of
        (None, c) \<Rightarrow> None
      | (Some el, c) \<Rightarrow> map_option (Cons (el_out el)) (read_set_of c n))"

definition sizeof_CBS :: nat where "sizeof_CBS = 16"

definition cbb_rewind :: "cbbst \<Rightarrow> cbbst" where
  "cbb_rewind s =
     (case s of (base, cbb) \<Rightarrow>
        (map_option (\<lambda>b. b\<lparr>b_len := cbb_offset cbb + cbb_pending_len_len cbb\<rparr>) base, cbb))"

definition CBB_flush_asn1_set_of :: "heap_env \<Rightarrow> cbbst \<Rightarrow> bool \<times> cbbst" where
  "CBB_flush_asn1_set_of env s =
     seqb (cbb_flush env s) (\<lambda>s.
       case count_set_of (CBS_init (CBB_data s) (CBB_len s)) 0 of
         None \<Rightarrow> (False, s)
       | Some num_children \<Rightarrow>
           if num_children < 2 then (True, s)
           else if num_children > (SIZE_MOD - 1) div sizeof_CBS then (False, s)
           else
             let buf_len = CBB_len s in
             (case OPENSSL_memdup env (CBB_data s) buf_len of
                None \<Rightarrow> (False, s)
              | Some buf \<Rightarrow>
                (case OPENSSL_malloc env (num_children * sizeof_CBS) of
                   None \<Rightarrow> (False, s)
                 | Some _ \<Rightarrow>
                   (case read_set_of (CBS_init buf buf_len) num_children of
                      None \<Rightarrow> (False, s)
                    | Some children \<Rightarrow>
                        add_chunks env (qsort compare_set_of_element children) (cbb_rewind s)))))"

section \<open>The order\<close>

lemma memcmp_swap: "memcmp a b = - memcmp b a"
  by (induction a b rule: memcmp.induct) auto

lemma OPENSSL_memcmp_swap: "OPENSSL_memcmp a b n = - OPENSSL_memcmp b a n"
  using memcmp_swap [of "take n a" "take n b"] by (simp add: OPENSSL_memcmp_def)

lemma memcmp_lex:
  "length a = length b \<Longrightarrow> memcmp a b < 0 \<longleftrightarrow> a < b"
  by (induction a b rule: memcmp.induct) (auto simp: word_less_def)

lemma memcmp_append:
  "length a = length b \<Longrightarrow> a \<noteq> b \<Longrightarrow> a @ x < b @ y \<longleftrightarrow> a < (b :: byte list)"
  by (induction a b rule: list_induct2) auto

lemma lex_prefix_less: "a < a @ b \<longleftrightarrow> b \<noteq> ([] :: 'a :: order list)"
  by (induction a) (cases b, auto)

lemma compare_set_of_element_le:
  "compare_set_of_element a b \<le> 0 \<longleftrightarrow> a \<le> b"
proof -
  define n where "n = min (length a) (length b)"
  let ?a = "take n a" and ?b = "take n b"
  have len: "length ?a = n" "length ?b = n" by (simp_all add: n_def)
  have ab: "a = ?a @ drop n a" "b = ?b @ drop n b" by simp_all
  have m: "OPENSSL_memcmp a b n = memcmp ?a ?b" by (auto simp: OPENSSL_memcmp_def)
  have min: "(if length a < length b then length a else length b) = n" by (simp add: n_def)
  show ?thesis
  proof (cases "?a = ?b")
    case True
    then have z: "memcmp ?a ?b = 0" by (simp add: memcmp_0_iff)
    have c: "compare_set_of_element a b =
        (if length a = length b then 0 else if length a < length b then - 1 else 1)"
      by (simp add: compare_set_of_element_def Let_def CBS_len_def CBS_data_def min m z)
    consider "length a = length b" | "length a < length b" | "length b < length a" by linarith
    then show ?thesis
    proof cases
      case 1
      then have "a = b" using True by (simp add: n_def)
      then show ?thesis using c by simp
    next
      case 2
      then have "a = ?a" by (simp add: n_def)
      with True ab(2) have "b = a @ drop n b" by simp
      then have "a \<le> b" using lex_prefix_less [of a "drop n b"] by (metis append_Nil2 less_imp_le order_refl)
      then show ?thesis using 2 by (simp add: c)
    next
      case 3
      then have "b = ?b" by (simp add: n_def)
      with True ab(1) have "a = b @ drop n a" by simp
      moreover have "drop n a \<noteq> []" using 3 by (simp add: n_def)
      ultimately have "b < a" using lex_prefix_less [of b "drop n a"] by metis
      then show ?thesis using 3 by (simp add: c)
    qed
  next
    case False
    then have z: "memcmp ?a ?b \<noteq> 0" using len by (simp add: memcmp_0_iff)
    then have "compare_set_of_element a b = memcmp ?a ?b"
      by (simp add: compare_set_of_element_def Let_def CBS_len_def CBS_data_def min m)
    moreover have "memcmp ?a ?b \<le> 0 \<longleftrightarrow> memcmp ?a ?b < 0" using z by linarith
    moreover have "a < b \<longleftrightarrow> ?a < ?b"
      using memcmp_append [OF _ False, of "drop n a" "drop n b"] len by simp
    moreover have "a \<noteq> b" using False by auto
    ultimately show ?thesis using memcmp_lex [of ?a ?b] len by (auto simp: le_less)
  qed
qed

interpretation set_of: comparison compare_set_of_element
proof unfold_locales
  fix a b c :: cbs
  have swap: "compare_set_of_element a b = - compare_set_of_element b a" for a b
    by (simp add: compare_set_of_element_def OPENSSL_memcmp_swap [of a b] Let_def CBS_data_def)
  show "compare_set_of_element a b \<le> 0 \<longleftrightarrow> 0 \<le> compare_set_of_element b a" using swap [of a b] by linarith
  show "compare_set_of_element a c \<le> 0"
    if "compare_set_of_element a b \<le> 0" "compare_set_of_element b c \<le> 0"
    using that unfolding compare_set_of_element_le by (rule order_trans)
qed

lemma qsort_sort:
  assumes "\<And>x y. cmp x y \<le> 0 \<longleftrightarrow> x \<le> (y :: 'a :: linorder)"
  shows "qsort cmp xs = sort xs"
proof -
  have "qsort_insert cmp x ys = insort x ys" for x ys by (induction ys) (auto simp: assms)
  then show ?thesis unfolding qsort_def by (induction xs) simp_all
qed

text \<open>Any rearrangement in the order of the comparison is the sorted list, so nothing is lost by a particular
  \<^verbatim>\<open>qsort\<close>.\<close>

lemma qsort_unique:
  assumes "mset ys = mset xs" "cmp_sorted compare_set_of_element ys"
  shows "ys = qsort compare_set_of_element xs"
  using assms properties_for_sort [of ys xs]
  by (simp add: cmp_sorted_def qsort_sort compare_set_of_element_le)

section \<open>Reading the elements\<close>

text \<open>The encodings of single elements.\<close>

definition is_element :: "cbs \<Rightarrow> bool" where
  "is_element e \<longleftrightarrow> (\<exists>tag body. length body < 2 ^ 32 \<and> e = der_element tag body)"

lemma not_is_element_Nil [simp]: "\<not> is_element []"
  using der_element_not_Nil unfolding is_element_def by metis

lemma el_out_der_el [simp]: "el_out (der_el tag body) = der_element tag body" "el_tag (der_el tag body) = tag"
  by (simp_all add: der_el_def)

lemma get_element_enc:
  assumes "is_element e"
  obtains el where "CBS_get_any_asn1_element (e @ r) = (Some el, r)" "el_out el = e"
  using assms get_any_asn1_element_complete unfolding is_element_def by (metis el_out_der_el(1))

lemma get_element_sound:
  assumes "CBS_get_any_asn1_element c = (Some el, r)"
  shows "is_element (el_out el)" "c = el_out el @ r"
  using assms unfolding der_any.dec_Some_iff is_element_def by (metis el_out_der_el(1))+

lemma count_set_of_Some_iff:
  "count_set_of c n = Some k \<longleftrightarrow> (\<exists>els. list_all is_element els \<and> c = concat els \<and> k = n + length els)"
proof (induction c n rule: count_set_of.induct)
  case (1 c n)
  show ?case
  proof (cases "c = []")
    case True
    have "els = []" if "list_all is_element els" "concat els = []" for els
      using that by (cases els) auto
    then have "(\<exists>els. list_all is_element els \<and> [] = concat els \<and> k = n + length els) \<longleftrightarrow> k = n"
      by (metis add_0_right concat.simps(1) list.pred_inject(1) list.size(3))
    with True show ?thesis by (auto simp: count_set_of.simps CBS_len_def)
  next
    case False
    show ?thesis
    proof (cases "CBS_get_any_asn1_element c")
      case (Pair e r)
      show ?thesis
      proof (cases e)
        case None
        have "\<not> (list_all is_element els \<and> c = concat els)" for els
        proof
          assume "list_all is_element els \<and> c = concat els"
          with False obtain x xs where "is_element x" "c = x @ concat xs" by (cases els) auto
          then show False using get_element_enc [of x "concat xs"] Pair None by auto
        qed
        then show ?thesis using False Pair None by (subst count_set_of.simps) (auto simp: CBS_len_def)
      next
        case (Some el)
        note g = get_element_sound [OF Pair [unfolded Some]]
        have "count_set_of c n = count_set_of r (n + 1)"
          using False Pair Some by (subst count_set_of.simps) (simp add: CBS_len_def)
        also have "\<dots> = Some k \<longleftrightarrow> (\<exists>els. list_all is_element els \<and> r = concat els \<and> k = n + 1 + length els)"
          using 1 [of e r el] False Pair Some by (simp add: CBS_len_def)
        also have "\<dots> \<longleftrightarrow> (\<exists>els. list_all is_element els \<and> c = concat els \<and> k = n + length els)"
        proof
          assume "\<exists>els. list_all is_element els \<and> r = concat els \<and> k = n + 1 + length els"
          then obtain els where "list_all is_element els" "r = concat els" "k = n + 1 + length els" by blast
          with g show "\<exists>els. list_all is_element els \<and> c = concat els \<and> k = n + length els"
            by (intro exI [of _ "el_out el # els"]) simp
        next
          assume "\<exists>els. list_all is_element els \<and> c = concat els \<and> k = n + length els"
          then obtain els where els: "list_all is_element els" "c = concat els" "k = n + length els" by blast
          with False obtain x xs where x: "els = x # xs" by (cases els) auto
          with els have "is_element x" by simp
          then obtain el' where "CBS_get_any_asn1_element (x @ concat xs) = (Some el', concat xs)"
            by (rule get_element_enc)
          with Pair els x have "r = concat xs" by simp
          with els x show "\<exists>els. list_all is_element els \<and> r = concat els \<and> k = n + 1 + length els"
            by (intro exI [of _ xs]) simp
        qed
        finally show ?thesis .
      qed
    qed
  qed
qed

lemma read_set_of_enc: "list_all is_element els \<Longrightarrow> read_set_of (concat els) (length els) = Some els"
proof (induction els)
  case (Cons e els)
  then have "is_element e" by simp
  then obtain el where "CBS_get_any_asn1_element (e @ concat els) = (Some el, concat els)" "el_out el = e"
    by (rule get_element_enc)
  with Cons show ?case by simp
qed simp

lemma CBS_get_any_concat_unique:
  "list_all is_element xs \<Longrightarrow> list_all is_element ys \<Longrightarrow> concat xs = concat ys \<Longrightarrow> xs = ys"
proof (induction xs arbitrary: ys)
  case Nil
  then show ?case by (cases ys) auto
next
  case (Cons x xs)
  then obtain y ys' where y: "ys = y # ys'" by (cases ys) auto
  with Cons have "is_element x" "is_element y" by auto
  then obtain e f where "CBS_get_any_asn1_element (x @ concat xs) = (Some e, concat xs)" "el_out e = x"
    "CBS_get_any_asn1_element (y @ concat ys') = (Some f, concat ys')" "el_out f = y"
    by (meson get_element_enc)
  with Cons y show ?case by auto
qed

section \<open>What the operation does to a builder\<close>

lemma flushed_payload:
  assumes "cbb_ok b cbb" "holds b c b1" "length c = length (cbb_contents b cbb)"
  shows "CBS_init (CBB_data (Some b1, cbb_closed cbb)) (CBB_len (Some b1, cbb_closed cbb)) = drop (cbb_start cbb) c"
    "CBB_len (Some b1, cbb_closed cbb) = length c - cbb_start cbb" "cbb_start cbb \<le> length c"
proof -
  have l: "b_len b1 = length c" "take (b_len b1) (b_buf b1) = c"
    using assms(2) holds_len [OF assms(2)] by (auto simp: holds_def cbb_bytes_def)
  show "CBB_len (Some b1, cbb_closed cbb) = length c - cbb_start cbb"
    by (simp add: CBB_len_def base_len_def cbb_start_def l(1))
  then have "CBS_init (CBB_data (Some b1, cbb_closed cbb)) (CBB_len (Some b1, cbb_closed cbb)) =
      drop (cbb_start cbb) (take (b_len b1) (b_buf b1))"
    by (simp add: CBS_init_def CBB_data_def cbb_start_def drop_take l(1))
  then show "CBS_init (CBB_data (Some b1, cbb_closed cbb)) (CBB_len (Some b1, cbb_closed cbb)) = drop (cbb_start cbb) c"
    by (simp only: l(2))
  show "cbb_start cbb \<le> length c"
    using cbb_render_length [of "cbb_bytes b" cbb] assms(1,3) by (simp add: cbb_ok_def cbb_contents_def)
qed
lemma rewound:
  assumes "buf_ok b1" "cbb_start cbb \<le> b_len b1"
  obtains b2 where "cbb_rewind (Some b1, cbb_closed cbb) = (Some b2, cbb_closed cbb)" "cbb_ok b2 (cbb_closed cbb)"
    "cbb_bytes b2 = take (cbb_start cbb) (cbb_bytes b1)" "b_len b2 = cbb_start cbb"
    "b_can_resize b2 = b_can_resize b1" "\<And>env N. roomy env N b2 = roomy env N b1"
proof -
  let ?b2 = "b1\<lparr>b_len := cbb_start cbb\<rparr>"
  have "cbb_ok ?b2 (cbb_closed cbb)"
    using assms by (simp add: cbb_ok_def buf_ok_def cbb_closed_def cbb_start_def)
  with assms show thesis
    by (intro that [of ?b2]) (simp_all add: cbb_rewind_def cbb_start_def cbb_bytes_def roomy_def min_absorb1)
qed

lemma flush_set_of_sound:
  assumes ok: "cbb_ok b cbb" and run: "CBB_flush_asn1_set_of env (Some b, cbb) = (True, s')"
    and len: "length (cbb_contents b cbb) < SIZE_MOD"
  shows "\<exists>els b'. cbb_fits cbb (cbb_bytes b) \<and> list_all is_element els \<and>
    drop (cbb_start cbb) (cbb_contents b cbb) = concat els \<and> s' = (Some b', cbb_closed cbb) \<and>
    holds b (take (cbb_start cbb) (cbb_contents b cbb) @ concat (sort els)) b'"
proof -
  let ?c = "cbb_contents b cbb" and ?i = "cbb_start cbb"
  from run obtain s1 where f: "cbb_flush env (Some b, cbb) = (True, s1)"
    by (auto simp: CBB_flush_asn1_set_of_def seqb_True_iff)
  from flush.sound [OF ok _ f] obtain b1 where b1: "cbb_fits cbb (cbb_bytes b)" "s1 = (Some b1, cbb_closed cbb)"
    "holds b ?c b1" by auto
  note pay = flushed_payload [OF ok b1(3) refl]
  from run f b1(2) pay(1) obtain n where n: "count_set_of (drop ?i ?c) 0 = Some n"
    by (simp add: CBB_flush_asn1_set_of_def split: option.split_asm)
  then obtain els where els: "list_all is_element els" "drop ?i ?c = concat els" "n = length els"
    by (auto simp: count_set_of_Some_iff)
  show ?thesis
  proof (cases "n < 2")
    case True
    then have "sort els = els" using els(3) by (cases els; cases "tl els") auto
    moreover have "s' = s1" using run f b1(2) pay(1) n True by (simp add: CBB_flush_asn1_set_of_def)
    moreover have "take ?i ?c @ concat els = ?c" by (simp flip: els(2))
    ultimately show ?thesis using b1 els by (intro exI [of _ els] exI [of _ b1]) simp
  next
    case False
    from run f b1(2) pay(1) n False obtain buf children where
      buf: "OPENSSL_memdup env (CBB_data s1) (CBB_len s1) = Some buf"
      "read_set_of (CBS_init buf (CBB_len s1)) n = Some children"
      "add_chunks env (qsort compare_set_of_element children) (cbb_rewind s1) = (True, s')"
      by (simp add: CBB_flush_asn1_set_of_def Let_def split: option.split_asm if_split_asm)
    have bl: "buf_ok b1" "?i \<le> b_len b1" using b1(3) holds_len [OF b1(3)] pay(3) by (simp_all add: holds_def)
    have "CBB_len s1 \<le> length (CBB_data s1)"
      using bl(1) by (simp add: b1(2) CBB_len_def CBB_data_def base_len_def buf_ok_def diff_le_mono)
    from OPENSSL_memdup_Some [OF buf(1) this] have "CBS_init buf (CBB_len s1) = drop ?i ?c"
      using pay(1) by (simp add: b1(2) CBS_init_def pay(2))
    with buf(2) els read_set_of_enc [OF els(1)] have ch: "children = els" by simp
    obtain b2 where b2: "cbb_rewind s1 = (Some b2, cbb_closed cbb)" "cbb_ok b2 (cbb_closed cbb)"
      "cbb_bytes b2 = take ?i (cbb_bytes b1)" "b_can_resize b2 = b_can_resize b1"
      unfolding b1(2) using rewound [OF bl] by metis
    have q: "qsort compare_set_of_element els = sort els" by (rule qsort_sort) (rule compare_set_of_element_le)
    have "length (concat (sort els)) = length (concat els)"
      by (simp add: length_concat flip: sum_mset_sum_list)
    then have "length (concat (sort els)) < SIZE_MOD" using len by (simp flip: els(2))
    moreover have "add_chunks env (sort els) (Some b2, cbb_closed cbb) = (True, s')" using buf(3) ch q b2(1) by simp
    ultimately obtain b' where "s' = (Some b', cbb_closed cbb)" "holds b2 (cbb_bytes b2 @ concat (sort els)) b'"
      using closed_appender.csound [OF add_chunks_closed b2(2)] cbb_closed_simps(9) by metis
    then show ?thesis
      using b1 els b2(3,4) by (intro exI [of _ els] exI [of _ b']) (simp add: holds_def)
  qed
qed
lemma OPENSSL_memdup_ok:
  assumes "\<forall>m \<le> M. h_ok env m" "n + 8 \<le> M" "M < SIZE_MOD" "0 < n" "n \<le> length data"
  shows "OPENSSL_memdup env data n = Some (take n data)"
proof -
  have "OPENSSL_malloc env n \<noteq> None" using assms by (simp add: OPENSSL_malloc_def size_add_def)
  then have "OPENSSL_memdup env data n \<noteq> None" using assms(4) by (auto simp: OPENSSL_memdup_def)
  then show ?thesis using OPENSSL_memdup_Some [OF _ assms(5)] by fastforce
qed

lemma length_le_concat: "list_all is_element els \<Longrightarrow> length els \<le> length (concat els)"
proof (induction els)
  case (Cons e els)
  then have "1 \<le> length e" by (cases e) auto
  with Cons show ?case by simp
qed simp

lemma flush_set_of_complete:
  assumes ok: "cbb_ok b cbb" "cbb_fits cbb (cbb_bytes b)"
    and els: "list_all is_element els" "drop (cbb_start cbb) (cbb_contents b cbb) = concat els"
    and N: "roomy env N b" "length (cbb_contents b cbb) \<le> N" "N < 2 ^ 59" "\<forall>m \<le> 16 * N + 8. h_ok env m"
  shows "\<exists>b'. CBB_flush_asn1_set_of env (Some b, cbb) = (True, Some b', cbb_closed cbb) \<and> roomy env N b'"
proof -
  let ?c = "cbb_contents b cbb" and ?i = "cbb_start cbb" and ?n = "length els"
  obtain b1 where f: "cbb_flush env (Some b, cbb) = (True, Some b1, cbb_closed cbb)" "roomy env N b1"
    using flush.complete [OF ok(1) _ ok(2) N(1)] N(2) by auto
  from flush.sound [OF ok(1) _ f(1)] have b1: "holds b ?c b1" by auto
  note pay = flushed_payload [OF ok(1) b1 refl]
  have cnt: "count_set_of (drop ?i ?c) 0 = Some ?n" using els by (auto simp: count_set_of_Some_iff)
  have "length (concat els) = length ?c - ?i" using arg_cong [OF els(2), of length] by simp
  then have len: "?n \<le> length ?c - ?i" "length (concat els) \<le> N"
    using length_le_concat [OF els(1)] N(2) by simp_all
  show ?thesis
  proof (cases "?n < 2")
    case True
    then show ?thesis using f cnt pay by (simp add: CBB_flush_asn1_set_of_def)
  next
    case False
    have bl: "buf_ok b1" "?i \<le> b_len b1" using b1 holds_len [OF b1] pay(3) by (simp_all add: holds_def)
    have big: "?n \<le> N" using len N(2) by linarith
    have dl: "CBB_len (Some b1, cbb_closed cbb) \<le> length (CBB_data (Some b1, cbb_closed cbb))"
      using bl(1) by (simp add: CBB_len_def CBB_data_def base_len_def buf_ok_def diff_le_mono)
    have dup: "OPENSSL_memdup env (CBB_data (Some b1, cbb_closed cbb)) (CBB_len (Some b1, cbb_closed cbb)) =
        Some (drop ?i ?c)"
    proof -
      have "length ?c - ?i \<le> N" "0 < length ?c - ?i" using len(1) False N(2) by linarith+
      then show ?thesis
        using OPENSSL_memdup_ok [OF N(4) _ _ _ dl] pay(1) N(3) by (simp add: pay(2) CBS_init_def SIZE_MOD_def)
    qed
    have mal: "OPENSSL_malloc env (?n * sizeof_CBS) \<noteq> None" "\<not> ?n > (SIZE_MOD - 1) div sizeof_CBS"
    proof -
      have "?n * 16 + 8 \<le> 16 * N + 8" "?n < 2 ^ 59" using big N(3) by simp_all
      then show "OPENSSL_malloc env (?n * sizeof_CBS) \<noteq> None" "\<not> ?n > (SIZE_MOD - 1) div sizeof_CBS"
        using N(4) by (simp_all add: OPENSSL_malloc_def size_add_def sizeof_CBS_def SIZE_MOD_def)
    qed
    obtain b2 where b2: "cbb_rewind (Some b1, cbb_closed cbb) = (Some b2, cbb_closed cbb)"
      "cbb_ok b2 (cbb_closed cbb)" "b_len b2 = ?i" "roomy env N b2"
      using rewound [OF bl] f(2) by metis
    have "length (concat (sort els)) = length (concat els)"
      by (simp add: length_concat flip: sum_mset_sum_list)
    then have "b_len b2 + length (concat (sort els)) \<le> N"
      using arg_cong [OF els(2), of length] pay(3) N(2) b2(3) by simp
    from closed_appender.ccomplete [OF add_chunks_closed b2(2) _ TrueI b2(4) this] obtain b' where
      "add_chunks env (sort els) (Some b2, cbb_closed cbb) = (True, Some b', cbb_closed cbb)" "roomy env N b'" by auto
    moreover have "qsort compare_set_of_element els = sort els" by (rule qsort_sort) (rule compare_set_of_element_le)
    moreover have "CBS_init (drop ?i ?c) (length ?c - ?i) = concat els" by (simp add: CBS_init_def els(2)) (simp flip: els(2))
    ultimately show ?thesis
      using f(1) cnt pay(1,2) False dup mal b2(1) read_set_of_enc [OF els(1)]
      by (auto simp: CBB_flush_asn1_set_of_def Let_def)
  qed
qed

section \<open>Inside a child\<close>

text \<open>A caller writes bytes into a builder and has them sorted as the elements of a SET OF. The builder is a child: the bytes
  are the contents of elements with the tags \<open>tags\<close>, one inside the other, the set being the innermost one. Without tags it
  is the builder itself.\<close>

definition add_set_of :: "byte list \<Rightarrow> heap_env \<Rightarrow> cbbst \<Rightarrow> bool \<times> cbbst" where
  "add_set_of d env s = seqb (CBB_add_bytes env d s) (CBB_flush_asn1_set_of env)"

fun in_elements ::
    "u32 list \<Rightarrow> (heap_env \<Rightarrow> cbbst \<Rightarrow> bool \<times> cbbst) \<Rightarrow> heap_env \<Rightarrow> cbbst \<Rightarrow> bool \<times> cbbst" where
  "in_elements [] op env s = op env s"
| "in_elements (tag # tags) op env s =
     seqb (CBB_add_asn1 env tag s) (\<lambda>s. seqb (on_child (in_elements tags op env) s) (cbb_flush env))"

definition set_of_run :: "heap_env \<Rightarrow> nat \<Rightarrow> u32 list \<Rightarrow> byte list \<Rightarrow> byte list option" where
  "set_of_run env cap tags d = cbb_run env cap (in_elements tags (add_set_of d))"

text \<open>The bytes of the nested elements, and when their lengths can be written.\<close>

definition enclosed_in :: "u32 list \<Rightarrow> byte list \<Rightarrow> byte list" where
  "enclosed_in tags d = foldr der_element tags d"

fun elements_fit :: "u32 list \<Rightarrow> byte list \<Rightarrow> bool" where
  "elements_fit [] d \<longleftrightarrow> True"
| "elements_fit (tag # tags) d \<longleftrightarrow> elements_fit tags d \<and> length (enclosed_in tags d) \<le> 0xfffffffe"

lemma enclosed_in_simps [simp]: "enclosed_in [] d = d" "enclosed_in (tag # tags) d = der_element tag (enclosed_in tags d)"
  by (simp_all add: enclosed_in_def)

text \<open>The memory that is needed besides the buffer.\<close>

definition set_of_room :: "heap_env \<Rightarrow> nat \<Rightarrow> bool" where
  "set_of_room env N \<longleftrightarrow> N < 2 ^ 59 \<and> (\<forall>m \<le> 16 * N + 8. h_ok env m)"

lemma add_set_of_sound:
  assumes "cbb_ok b cbb" "cbb_closed cbb = cbb" "cbb_start cbb = b_len b" "length d < SIZE_MOD"
    and "add_set_of d env (Some b, cbb) = (True, s')"
  shows "\<exists>els b'. list_all is_element els \<and> d = concat els \<and> s' = (Some b', cbb) \<and> holds b (cbb_bytes b @ concat (sort els)) b'"
proof -
  have c: "cbb_contents b0 cbb = cbb_bytes b0" for b0 using cbb_contents_closed [of b0 cbb] assms(2) by simp
  from assms(5) obtain s1 where s1: "CBB_add_bytes env d (Some b, cbb) = (True, s1)" "CBB_flush_asn1_set_of env s1 = (True, s')"
    by (auto simp: add_set_of_def seqb_True_iff)
  from add_bytes.sound [OF assms(1,4) s1(1)] assms(2) obtain b1 where b1: "s1 = (Some b1, cbb)" "holds b (cbb_bytes b @ d) b1"
    by (auto simp: c)
  have ok1: "cbb_ok b1 cbb" using cbb_ok_holds [OF assms(1,2) b1(2)] .
  have by1: "cbb_bytes b1 = cbb_bytes b @ d" using b1(2) by (simp add: holds_def)
  have lb: "length (cbb_bytes b) = b_len b" using assms(1) by (simp add: cbb_ok_def length_cbb_bytes)
  then have "length (cbb_contents b1 cbb) < SIZE_MOD" using ok1 length_cbb_bytes [of b1] by (simp add: c cbb_ok_def buf_ok_def)
  from flush_set_of_sound [OF ok1 s1(2) [unfolded b1(1)] this] obtain els b' where
    e: "list_all is_element els" "drop (cbb_start cbb) (cbb_contents b1 cbb) = concat els" "s' = (Some b', cbb)"
      "holds b1 (take (cbb_start cbb) (cbb_contents b1 cbb) @ concat (sort els)) b'"
    by (auto simp: assms(2))
  have "drop (cbb_start cbb) (cbb_contents b1 cbb) = d" "take (cbb_start cbb) (cbb_contents b1 cbb) = cbb_bytes b"
    using lb by (simp_all add: c by1 assms(3))
  then show ?thesis using e b1(2) by (intro exI [of _ els] exI [of _ b']) (simp add: holds_def)
qed

lemma add_set_of_complete:
  assumes "cbb_ok b cbb" "cbb_closed cbb = cbb" "cbb_start cbb = b_len b" "list_all is_element els"
    and "set_of_room env N" "roomy env N b" "b_len b + length (concat els) \<le> N"
  shows "\<exists>b'. add_set_of (concat els) env (Some b, cbb) = (True, Some b', cbb) \<and> roomy env N b'"
proof -
  have c: "cbb_contents b0 cbb = cbb_bytes b0" for b0 using cbb_contents_closed [of b0 cbb] assms(2) by simp
  have lb: "length (cbb_bytes b) = b_len b" using assms(1) by (simp add: cbb_ok_def length_cbb_bytes)
  have fits: "cbb_fits cbb m" for m using cbb_closed_simps(12) [of cbb m] assms(2) by metis
  obtain b1 where b1: "CBB_add_bytes env (concat els) (Some b, cbb) = (True, Some b1, cbb)" "roomy env N b1"
    using add_bytes.complete [OF assms(1) TrueI fits assms(6), of "concat els"] assms(2,7) by (auto simp: c lb)
  have "length (concat els) < SIZE_MOD" using assms(5,7) by (simp add: set_of_room_def SIZE_MOD_def)
  from add_bytes.sound [OF assms(1) this b1(1)] assms(2) have h: "holds b (cbb_bytes b @ concat els) b1" by (auto simp: c)
  have ok1: "cbb_ok b1 cbb" using cbb_ok_holds [OF assms(1,2) h] .
  have by1: "cbb_bytes b1 = cbb_bytes b @ concat els" using h by (simp add: holds_def)
  have "\<exists>b2. CBB_flush_asn1_set_of env (Some b1, cbb) = (True, Some b2, cbb_closed cbb) \<and> roomy env N b2"
    by (rule flush_set_of_complete [OF ok1 fits assms(4) _ b1(2)])
      (use assms(3,5,7) lb in \<open>simp_all add: c by1 set_of_room_def\<close>)
  then show ?thesis using b1(1) assms(2) by (auto simp: add_set_of_def)
qed

lemma length_sort_concat: "length (concat (sort els)) = length (concat els)" for els :: "cbs list"
  by (simp add: length_concat flip: sum_mset_sum_list)

lemma set_of_filler:
  assumes "list_all is_element els"
  shows "child_filler (add_set_of (concat els)) (concat (sort els)) True set_of_room"
proof
  fix b cbb env s'
  assume a: "cbb_ok b cbb" "cbb_closed cbb = cbb" "cbb_start cbb = b_len b" "length (concat (sort els)) < SIZE_MOD"
    "add_set_of (concat els) env (Some b, cbb) = (True, s')"
  then obtain els' b' where e: "list_all is_element els'" "concat els = concat els'" "s' = (Some b', cbb)"
    "holds b (cbb_bytes b @ concat (sort els')) b'"
    using add_set_of_sound [OF a(1-3) _ a(5)] by (auto simp: length_sort_concat)
  then have "els' = els" using CBS_get_any_concat_unique assms by metis
  with e show "True \<and> (\<exists>b'. s' = (Some b', cbb) \<and> holds b (cbb_bytes b @ concat (sort els)) b')" by auto
next
  fix b cbb env N
  assume "cbb_ok b cbb" "cbb_closed cbb = cbb" "cbb_start cbb = b_len b" "set_of_room env N" "roomy env N b"
    "b_len b + length (concat (sort els)) \<le> N"
  then show "\<exists>b'. add_set_of (concat els) env (Some b, cbb) = (True, Some b', cbb) \<and> roomy env N b'"
    using add_set_of_complete [OF _ _ _ assms] by (simp add: length_sort_concat)
qed

lemma no_set_of_filler:
  assumes "\<nexists>els. list_all is_element els \<and> d = concat els"
  shows "child_filler (add_set_of d) d False set_of_room"
  by unfold_locales (use add_set_of_sound assms in blast)+

lemma in_elements_filler:
  assumes "child_filler op d ok res"
  shows "child_filler (in_elements tags op) (enclosed_in tags d) (ok \<and> elements_fit tags d) res"
proof (induction tags)
  case Nil
  have "in_elements [] op = op" by (intro ext) simp
  then show ?case using assms by simp
next
  case (Cons tag tags)
  have "in_elements (tag # tags) op =
      (\<lambda>env s. seqb (CBB_add_asn1 env tag s) (\<lambda>s. seqb (on_child (in_elements tags op env) s) (cbb_flush env)))"
    by (intro ext) simp
  then show ?case using asn1_nested_filler [OF Cons, of tag] by (simp add: conj_assoc)
qed

lemma length_der_element_mono:
  "length d = length d' \<Longrightarrow> length (der_element tag d) = length (der_element tag d') \<and> length d \<le> length (der_element tag d')"
  by (simp add: der_element_def der_header_def)

lemma length_enclosed_in:
  "length d = length d' \<Longrightarrow> length (enclosed_in tags d) = length (enclosed_in tags d')"
proof (induction tags)
  case (Cons tag tags)
  then have "length (enclosed_in tags d) = length (enclosed_in tags d')" by blast
  then show ?case using length_der_element_mono unfolding enclosed_in_simps by blast
qed simp

lemma elements_fit_le: "tags = [] \<or> length (enclosed_in tags d) \<le> 0xfffffffe \<Longrightarrow> elements_fit tags d"
proof (induction tags)
  case (Cons tag tags)
  from Cons.prems have "length (der_element tag (enclosed_in tags d)) \<le> 0xfffffffe" by simp
  moreover have "length (enclosed_in tags d) \<le> length (der_element tag (enclosed_in tags d))"
    using length_der_element_mono [OF refl] by blast
  ultimately have l: "length (enclosed_in tags d) \<le> 0xfffffffe" by (rule order_trans [rotated])
  then have "elements_fit tags d" by (intro Cons.IH disjI2)
  with l show ?case unfolding elements_fit.simps by blast
qed simp

lemma set_of_run_complete:
  assumes "list_all is_element els" "cap \<le> N" "length (enclosed_in tags (concat els)) \<le> N" "N < 2 ^ 59"
    and "tags = [] \<or> N \<le> 0xfffffffe" "\<forall>m \<le> 16 * N + 40. h_ok env m"
  shows "set_of_run env cap tags (concat els) = Some (enclosed_in tags (concat (sort els)))"
proof -
  note f = in_elements_filler [OF set_of_filler [OF assms(1)], of tags]
  have l: "length (enclosed_in tags (concat (sort els))) \<le> N"
    using assms(3) length_enclosed_in [OF length_sort_concat, of tags els] by simp
  then have "True \<and> elements_fit tags (concat (sort els))" using assms(5) by (intro conjI elements_fit_le) auto
  moreover have "init_ok env N" "set_of_room env N" using assms(4,6) by (simp_all add: init_ok_def set_of_room_def)
  ultimately show ?thesis unfolding set_of_run_def using child_filler.run_complete [OF f] assms(2) l by blast
qed

lemma set_of_run_sound:
  assumes "set_of_run env cap tags d = Some out" "cap < SIZE_MOD" "length (enclosed_in tags d) < SIZE_MOD"
  shows "\<exists>els. list_all is_element els \<and> d = concat els \<and> out = enclosed_in tags (concat (sort els))"
proof (cases "\<exists>els. list_all is_element els \<and> d = concat els")
  case True
  then obtain els where els: "list_all is_element els" "d = concat els" by blast
  have "length (enclosed_in tags (concat (sort els))) < SIZE_MOD"
    using assms(3) length_enclosed_in [OF length_sort_concat, of tags els] by (simp add: els(2))
  then have "out = enclosed_in tags (concat (sort els))"
    using child_filler.run_sound [OF in_elements_filler [OF set_of_filler [OF els(1)]]] assms(1,2) els(2)
    unfolding set_of_run_def by blast
  with els show ?thesis by blast
next
  case False
  then show ?thesis
    using child_filler.run_sound [OF in_elements_filler [OF no_set_of_filler [OF False]]] assms
    unfolding set_of_run_def by blast
qed

section \<open>Properties\<close>

text \<open>C24: \<^verbatim>\<open>CBB_flush_asn1_set_of\<close> on a child builder, at any depth of enclosing elements: when the caller has written a sequence
  of DER elements into the child and memory is available, the finished bytes are the enclosing headers, with the right
  lengths, around those elements in the order of their encodings, as DER demands.\<close>

theorem set_of_sorts_elements:
  assumes "list_all is_element els" "cap \<le> N" "length (enclosed_in tags (concat els)) \<le> N" "N < 2 ^ 59"
    and "tags = [] \<or> N \<le> 0xfffffffe" "\<forall>m \<le> 16 * N + 40. h_ok env m"
  shows "set_of_run env cap tags (concat els) = Some (enclosed_in tags (concat (sort els)))"
  by (rule set_of_run_complete [OF assms])

lemma example_elements: "is_element [4, 1, 9]" "is_element [2, 1, 5]" "is_element [4, 0]"
  unfolding is_element_def
  by (rule exI [of _ 4], rule exI [of _ "[9]"], simp add: der_element_def der_header_def der_tag_def der_len_def Let_def)
    (rule exI [of _ 2], rule exI [of _ "[5]"], simp add: der_element_def der_header_def der_tag_def der_len_def Let_def,
      rule exI [of _ 4], rule exI [of _ "[]"], simp add: der_element_def der_header_def der_tag_def der_len_def Let_def)

theorem set_of_sorts_elements_witness:
  "set_of_run all_ok 0 [0x20000010, 0x20000011] [4, 1, 9, 2, 1, 5, 4, 0] =
     Some [0x30, 10, 0x31, 8, 2, 1, 5, 4, 0, 4, 1, 9]"
proof -
  have "concat (sort [[4, 1, 9], [2, 1, 5], [4, 0 :: byte]]) = [2, 1, 5, 4, 0, 4, 1, 9]" by simp
  moreover have "enclosed_in [0x20000010, 0x20000011] [2, 1, 5, 4, 0, 4, 1, 9] = [0x30, 10, 0x31, 8, 2, 1, 5, 4, 0, 4, 1, 9]"
    "length (enclosed_in [0x20000010, 0x20000011] [4, 1, 9, 2, 1, 5, 4, 0]) \<le> 100"
    by (simp_all add: der_element_def der_header_def der_tag_def der_len_def)
  ultimately show ?thesis
    using set_of_sorts_elements [of "[[4, 1, 9], [2, 1, 5], [4, 0]]" 0 100 "[0x20000010, 0x20000011]" all_ok] example_elements by simp
qed

text \<open>When the sorting succeeds, the contents were a sequence of DER elements and the output is its sorted
  rearrangement; anything else that was written into the set is an error.\<close>

theorem set_of_output_sound:
  assumes "set_of_run env cap tags d = Some out" "cap < SIZE_MOD" "length (enclosed_in tags d) < SIZE_MOD"
  shows "\<exists>els. list_all is_element els \<and> d = concat els \<and> out = enclosed_in tags (concat (sort els))"
  using assms by (rule set_of_run_sound)

theorem set_of_output_sound_witness:
  "\<exists>els. list_all is_element els \<and> [4, 0] = concat els \<and> [4, 0] = concat (sort els)"
proof -
  have "set_of_run all_ok 0 [] [4, 0] = Some [4, 0]"
    using set_of_run_complete [of "[[4, 0]]" 0 100 "[]" all_ok] example_elements by simp
  from set_of_output_sound [OF this] show ?thesis by (simp add: SIZE_MOD_def)
qed

end
