(* ===== verification/Asn1_Object.thy ===== *)
theory Asn1_Object
  imports Lhash Set_Of "HOL-Library.Product_Lexorder"
begin

text \<open>
  The objects of \<^verbatim>\<open>crypto/asn1/a_object.c\<close> and the functions on them that \<^verbatim>\<open>crypto/obj/obj.c\<close> compares and hashes them
  with. An object is a record of the memory behind its pointers; \<open>str_at\<close> and \<open>obj_bytes\<close> read the C strings and
  the encoding from it. The four pairs of functions interpret the locale \<open>hash_functions\<close> of the hash table.
  \<^verbatim>\<open>ASN1_OBJECT_free\<close> only releases memory; the functions that write a \<^verbatim>\<open>BIO\<close> are not modelled, and the DER of an
  object is in \<open>Asn1_String\<close>.
\<close>

section \<open>Objects\<close>

text \<open>The strings are the memory behind their pointers.\<close>

record asn1_object_st =
  obj_sn :: "byte list option"
  obj_ln :: "byte list option"
  obj_nid :: int
  obj_length :: int
  obj_data :: "byte list option"
  obj_flags :: u32

definition NID_undef :: int where "NID_undef = 0"

definition ASN1_OBJECT_FLAG_DYNAMIC :: u32 where "ASN1_OBJECT_FLAG_DYNAMIC = 0x01"
definition ASN1_OBJECT_FLAG_DYNAMIC_STRINGS :: u32 where "ASN1_OBJECT_FLAG_DYNAMIC_STRINGS = 0x04"
definition ASN1_OBJECT_FLAG_DYNAMIC_DATA :: u32 where "ASN1_OBJECT_FLAG_DYNAMIC_DATA = 0x08"

text \<open>The C string at a pointer ends at the first zero. No function below is called for the string at a null pointer, and
  none reads past the memory of \<^verbatim>\<open>data\<close>.\<close>

definition str_at :: "byte list option \<Rightarrow> cstr" where
  "str_at p = (case p of None \<Rightarrow> [] | Some mem \<Rightarrow> takeWhile (\<lambda>c. c \<noteq> 0) mem)"

definition obj_bytes :: "asn1_object_st \<Rightarrow> byte list" where
  "obj_bytes o' =
     (let mem = (case obj_data o' of None \<Rightarrow> [] | Some mem \<Rightarrow> mem)
      in map (\<lambda>i. if i < length mem then mem ! i else 0) [0..<nat (obj_length o')])"

text \<open>An \<^verbatim>\<open>int\<close> as a \<^verbatim>\<open>size_t\<close>.\<close>

definition size_of_int :: "int \<Rightarrow> nat" where
  "size_of_int i = nat (i mod int SIZE_MOD)"

definition sizeof_ASN1_OBJECT :: nat where "sizeof_ASN1_OBJECT = 40"

definition ASN1_OBJECT_new :: "heap_env \<Rightarrow> asn1_object_st option" where
  "ASN1_OBJECT_new env =
     (case OPENSSL_malloc env sizeof_ASN1_OBJECT of
        None \<Rightarrow> None
      | Some _ \<Rightarrow>
          Some \<lparr>obj_sn = None, obj_ln = None, obj_nid = 0, obj_length = 0, obj_data = None,
                obj_flags = ASN1_OBJECT_FLAG_DYNAMIC\<rparr>)"

text \<open>The two strings are copied in this order; a null pointer is kept.\<close>

definition dup_name :: "heap_env \<Rightarrow> byte list option \<Rightarrow> byte list option option" where
  "dup_name env p =
     (case p of
        None \<Rightarrow> Some None
      | Some mem \<Rightarrow>
          (case OPENSSL_strdup env (Some (str_at (Some mem))) of None \<Rightarrow> None | Some copy \<Rightarrow> Some (Some copy)))"

definition OBJ_dup :: "heap_env \<Rightarrow> asn1_object_st option \<Rightarrow> asn1_object_st option" where
  "OBJ_dup env p =
     (case p of
        None \<Rightarrow> None
      | Some obj \<Rightarrow>
        if obj_flags obj AND ASN1_OBJECT_FLAG_DYNAMIC = 0 then Some obj
        else
          (case ASN1_OBJECT_new env of
             None \<Rightarrow> None
           | Some r \<Rightarrow>
             (case OPENSSL_malloc env (size_of_int (obj_length obj)) of
                None \<Rightarrow> None
              | Some data \<Rightarrow>
                let data = (if obj_data obj \<noteq> None then mem_write 0 (obj_bytes obj) data else data);
                    r = r\<lparr>obj_data := Some data, obj_length := obj_length obj, obj_nid := obj_nid obj\<rparr> in
                (case dup_name env (obj_ln obj) of
                   None \<Rightarrow> None
                 | Some ln \<Rightarrow>
                   (case dup_name env (obj_sn obj) of
                      None \<Rightarrow> None
                    | Some sn \<Rightarrow>
                        Some (r\<lparr>obj_sn := sn, obj_ln := ln,
                          obj_flags := obj_flags obj OR (ASN1_OBJECT_FLAG_DYNAMIC OR ASN1_OBJECT_FLAG_DYNAMIC_STRINGS OR
                            ASN1_OBJECT_FLAG_DYNAMIC_DATA)\<rparr>))))))"

definition ASN1_OBJECT_create ::
    "heap_env \<Rightarrow> int \<Rightarrow> byte list \<Rightarrow> int \<Rightarrow> byte list option \<Rightarrow> byte list option \<Rightarrow> asn1_object_st option" where
  "ASN1_OBJECT_create env nid data len sn ln =
     OBJ_dup env (Some
       \<lparr>obj_sn = sn, obj_ln = ln, obj_nid = nid, obj_length = len, obj_data = Some data,
        obj_flags = ASN1_OBJECT_FLAG_DYNAMIC OR ASN1_OBJECT_FLAG_DYNAMIC_STRINGS OR ASN1_OBJECT_FLAG_DYNAMIC_DATA\<rparr>)"

text \<open>Reading an object from its contents. The loop looks for an octet \<open>0x80\<close> at the start of a component. The argument
  \<^verbatim>\<open>a\<close> is a pointer to a pointer, either of which may be null; the result is the object returned, what \<^verbatim>\<open>*a\<close> is
  afterwards and the rest of the input.\<close>

fun leading_80 :: "byte option \<Rightarrow> byte list \<Rightarrow> bool" where
  "leading_80 prev [] = False"
| "leading_80 prev (b # bs) =
     (if b = 0x80 \<and> (case prev of None \<Rightarrow> True | Some q \<Rightarrow> q AND 0x80 = 0) then True else leading_80 (Some b) bs)"

definition c2i_ASN1_OBJECT ::
    "heap_env \<Rightarrow> asn1_object_st option option \<Rightarrow> byte list \<Rightarrow> int \<Rightarrow>
     asn1_object_st option \<times> asn1_object_st option option \<times> byte list" where
  "c2i_ASN1_OBJECT env a pp len =
     (if len \<le> 0 \<or> len > int INT_MAX \<or> pp ! (nat len - 1) AND 0x80 \<noteq> 0 then (None, a, pp)
      else if leading_80 None (take (nat len) pp) then (None, a, pp)
      else
        let reuse = (case a of
                       Some (Some obj) \<Rightarrow> if obj_flags obj AND ASN1_OBJECT_FLAG_DYNAMIC \<noteq> 0 then Some obj else None
                     | _ \<Rightarrow> None) in
        (case (case reuse of Some obj \<Rightarrow> Some obj | None \<Rightarrow> ASN1_OBJECT_new env) of
           None \<Rightarrow> (None, a, pp)
         | Some ret \<Rightarrow>
           let data = obj_data ret; ret = ret\<lparr>obj_data := None\<rparr>;
               fresh = (data = None \<or> obj_length ret < len);
               ret = (if fresh then ret\<lparr>obj_length := 0\<rparr> else ret) in
           (case (if fresh then OPENSSL_malloc env (nat len) else data) of
              None \<Rightarrow> (None, if reuse = None then a else Some (Some ret), pp)
            | Some data \<Rightarrow>
              let ret = (if fresh then ret\<lparr>obj_flags := obj_flags ret OR ASN1_OBJECT_FLAG_DYNAMIC_DATA\<rparr> else ret);
                  data = mem_write 0 (take (nat len) pp) data;
                  ret = ret\<lparr>obj_flags := obj_flags ret AND NOT ASN1_OBJECT_FLAG_DYNAMIC_STRINGS,
                            obj_data := Some data, obj_length := len, obj_sn := None, obj_ln := None\<rparr>
              in (Some ret, map_option (\<lambda>_. Some ret) a, drop (nat len) pp))))"

section \<open>Comparing and hashing objects\<close>

text \<open>The C library's \<^verbatim>\<open>strcmp\<close>; only the sign of the result is specified.\<close>

fun strcmp :: "cstr \<Rightarrow> cstr \<Rightarrow> int" where
  "strcmp [] [] = 0"
| "strcmp [] (b # bs) = - 1"
| "strcmp (a # as) [] = 1"
| "strcmp (a # as) (b # bs) = (if a = b then strcmp as bs else int (unat a) - int (unat b))"

definition OBJ_cmp :: "asn1_object_st \<Rightarrow> asn1_object_st \<Rightarrow> int" where
  "OBJ_cmp a b =
     (let ret = obj_length a - obj_length b in
      if ret \<noteq> 0 then ret else OPENSSL_memcmp (obj_bytes a) (obj_bytes b) (nat (obj_length a)))"

definition OBJ_get0_data :: "asn1_object_st option \<Rightarrow> byte list option" where
  "OBJ_get0_data p = (case p of None \<Rightarrow> None | Some obj \<Rightarrow> obj_data obj)"

definition OBJ_length :: "asn1_object_st option \<Rightarrow> nat" where
  "OBJ_length p = (case p of None \<Rightarrow> 0 | Some obj \<Rightarrow> if obj_length obj < 0 then 0 else nat (obj_length obj))"

definition hash_nid :: "asn1_object_st \<Rightarrow> 32 word" where
  "hash_nid obj = word_of_int (obj_nid obj)"

definition cmp_nid :: "asn1_object_st \<Rightarrow> asn1_object_st \<Rightarrow> int" where
  "cmp_nid a b = obj_nid a - obj_nid b"

definition hash_data :: "asn1_object_st \<Rightarrow> 32 word" where
  "hash_data obj = OPENSSL_hash32 (obj_bytes obj)"

definition cmp_data :: "asn1_object_st \<Rightarrow> asn1_object_st \<Rightarrow> int" where
  "cmp_data a b =
     (let i = obj_length a - obj_length b in
      if i \<noteq> 0 then i else OPENSSL_memcmp (obj_bytes a) (obj_bytes b) (nat (obj_length a)))"

definition hash_short_name :: "asn1_object_st \<Rightarrow> 32 word" where
  "hash_short_name obj = OPENSSL_strhash (str_at (obj_sn obj))"

definition cmp_short_name :: "asn1_object_st \<Rightarrow> asn1_object_st \<Rightarrow> int" where
  "cmp_short_name a b = strcmp (str_at (obj_sn a)) (str_at (obj_sn b))"

definition hash_long_name :: "asn1_object_st \<Rightarrow> 32 word" where
  "hash_long_name obj = OPENSSL_strhash (str_at (obj_ln obj))"

definition cmp_long_name :: "asn1_object_st \<Rightarrow> asn1_object_st \<Rightarrow> int" where
  "cmp_long_name a b = strcmp (str_at (obj_ln a)) (str_at (obj_ln b))"

section \<open>The four tables have the functions they need\<close>

lemma strcmp_0_iff [simp]: "strcmp a b = 0 \<longleftrightarrow> a = b"
  by (induction a b rule: strcmp.induct) (auto simp: word_uint_eq_iff)

lemma length_obj_bytes [simp]: "length (obj_bytes obj) = nat (obj_length obj)"
  by (simp add: obj_bytes_def Let_def)

lemma obj_bytes_whole: "obj_data obj = Some d \<Longrightarrow> obj_length obj = int (length d) \<Longrightarrow> obj_bytes obj = d"
  by (auto simp: obj_bytes_def Let_def intro: nth_equalityI)

lemma cmp_data_0_iff: "cmp_data a b = 0 \<longleftrightarrow> obj_length a = obj_length b \<and> obj_bytes a = obj_bytes b"
  using OPENSSL_memcmp_0_iff [of "obj_bytes a" "nat (obj_length a)" "obj_bytes b"] by (auto simp: cmp_data_def Let_def)

lemma OBJ_cmp_0_iff: "OBJ_cmp a b = 0 \<longleftrightarrow> obj_length a = obj_length b \<and> obj_bytes a = obj_bytes b"
  using cmp_data_0_iff [of a b] by (simp only: OBJ_cmp_def cmp_data_def)

interpretation by_nid: hash_functions hash_nid cmp_nid
  by unfold_locales (simp_all add: hash_nid_def cmp_nid_def)

interpretation by_data: hash_functions hash_data cmp_data
  by unfold_locales (simp_all add: hash_data_def cmp_data_0_iff)

interpretation by_short_name: hash_functions hash_short_name cmp_short_name
  by unfold_locales (simp_all add: hash_short_name_def cmp_short_name_def)

interpretation by_long_name: hash_functions hash_long_name cmp_long_name
  by unfold_locales (simp_all add: hash_long_name_def cmp_long_name_def)

end
