(* ===== verification/Obj.thy ===== *)
theory Obj
  imports Asn1_Object
begin

text \<open>
  The registry of object identifiers of \<^verbatim>\<open>crypto/obj/obj.c\<close>: the generated tables, a parameter of the model, with the
  binary searches over their orders, and the objects added at run time in four hash tables. The locale
  \<open>ranked_comparison\<close> is what the search of the C library relies on, interpreted by the three comparison functions. \<open>tables_ok\<close> is what
  the generator of \<^verbatim>\<open>obj_dat.h\<close> establishes, \<open>obj_inv\<close> the invariant of the state. The locks are not modelled: the
  functions run one after the other. Integer overflow of the counter of NIDs is excluded by hypotheses.
\<close>

section \<open>The tables\<close>

text \<open>The generated tables of \<^verbatim>\<open>obj_dat.h\<close>: the objects by NID, and the NIDs in the orders of the encodings and of the
  names.\<close>

record obj_tables =
  kObjects :: "asn1_object_st list"
  kNIDsInOIDOrder :: "nat list"
  kNIDsInShortNameOrder :: "nat list"
  kNIDsInLongNameOrder :: "nat list"

definition NUM_NID :: "obj_tables \<Rightarrow> nat" where
  "NUM_NID k = length (kObjects k)"

text \<open>The global variables. The locks that protect them are not modelled.\<close>

record obj_state =
  global_added_by_data :: "asn1_object_st lhash_st option"
  global_added_by_nid :: "asn1_object_st lhash_st option"
  global_added_by_short_name :: "asn1_object_st lhash_st option"
  global_added_by_long_name :: "asn1_object_st lhash_st option"
  global_next_nid :: u32

definition obj_next_nid :: "obj_state \<Rightarrow> int \<times> obj_state" where
  "obj_next_nid st = (sint (global_next_nid st), st\<lparr>global_next_nid := global_next_nid st + 1\<rparr>)"

text \<open>The C library's \<^verbatim>\<open>bsearch\<close>.\<close>

function bsearch_from :: "('k \<Rightarrow> 'e \<Rightarrow> int) \<Rightarrow> 'k \<Rightarrow> 'e list \<Rightarrow> nat \<Rightarrow> nat \<Rightarrow> 'e option" where
  "bsearch_from compar key base lo hi =
     (if lo < hi then
        let mid = (lo + hi) div 2; c = compar key (base ! mid) in
        if c < 0 then bsearch_from compar key base lo mid
        else if c > 0 then bsearch_from compar key base (mid + 1) hi
        else Some (base ! mid)
      else None)"
  by pat_completeness auto
termination bsearch_from
  by (relation "measure (\<lambda>(compar, key, base, lo, hi). hi - lo)") auto

declare bsearch_from.simps [simp del]

definition bsearch :: "('k \<Rightarrow> 'e \<Rightarrow> int) \<Rightarrow> 'k \<Rightarrow> 'e list \<Rightarrow> 'e option" where
  "bsearch compar key base = bsearch_from compar key base 0 (length base)"

definition obj_cmp :: "obj_tables \<Rightarrow> asn1_object_st \<Rightarrow> nat \<Rightarrow> int" where
  "obj_cmp k a nid =
     (let b = kObjects k ! nid in
      if obj_length a < obj_length b then - 1
      else if obj_length a > obj_length b then 1
      else OPENSSL_memcmp (obj_bytes a) (obj_bytes b) (nat (obj_length a)))"

definition short_name_cmp :: "obj_tables \<Rightarrow> cstr \<Rightarrow> nat \<Rightarrow> int" where
  "short_name_cmp k name nid = strcmp name (str_at (obj_sn (kObjects k ! nid)))"

definition long_name_cmp :: "obj_tables \<Rightarrow> cstr \<Rightarrow> nat \<Rightarrow> int" where
  "long_name_cmp k name nid = strcmp name (str_at (obj_ln (kObjects k ! nid)))"

section \<open>Looking up\<close>

text \<open>The object used as a key has only the fields set that its table looks at.\<close>

definition blank_object :: asn1_object_st where
  "blank_object = \<lparr>obj_sn = None, obj_ln = None, obj_nid = 0, obj_length = 0, obj_data = None, obj_flags = 0\<rparr>"

definition retrieve_added :: "asn1_object_st lhash_st option \<Rightarrow> asn1_object_st \<Rightarrow> asn1_object_st option" where
  "retrieve_added tab key = (case tab of None \<Rightarrow> None | Some lh \<Rightarrow> OPENSSL_lh_retrieve lh key)"

definition OBJ_obj2nid :: "obj_tables \<Rightarrow> obj_state \<Rightarrow> asn1_object_st option \<Rightarrow> int" where
  "OBJ_obj2nid k st p =
     (case p of
        None \<Rightarrow> NID_undef
      | Some obj \<Rightarrow>
        if obj_nid obj \<noteq> 0 then obj_nid obj
        else
          (case retrieve_added (global_added_by_data st) obj of
             Some match \<Rightarrow> obj_nid match
           | None \<Rightarrow>
             (case bsearch (obj_cmp k) obj (kNIDsInOIDOrder k) of
                None \<Rightarrow> NID_undef
              | Some nid \<Rightarrow> obj_nid (kObjects k ! nid))))"

definition OBJ_cbs2nid :: "obj_tables \<Rightarrow> obj_state \<Rightarrow> cbs \<Rightarrow> int" where
  "OBJ_cbs2nid k st cbs =
     (if CBS_len cbs > INT_MAX then NID_undef
      else OBJ_obj2nid k st (Some (blank_object\<lparr>obj_data := Some (CBS_data cbs), obj_length := int (CBS_len cbs)\<rparr>)))"

definition OBJ_sn2nid :: "obj_tables \<Rightarrow> obj_state \<Rightarrow> cstr \<Rightarrow> int" where
  "OBJ_sn2nid k st short_name =
     (case retrieve_added (global_added_by_short_name st) (blank_object\<lparr>obj_sn := Some (short_name @ [0])\<rparr>) of
        Some match \<Rightarrow> obj_nid match
      | None \<Rightarrow>
        (case bsearch (short_name_cmp k) short_name (kNIDsInShortNameOrder k) of
           None \<Rightarrow> NID_undef
         | Some nid \<Rightarrow> obj_nid (kObjects k ! nid)))"

definition OBJ_ln2nid :: "obj_tables \<Rightarrow> obj_state \<Rightarrow> cstr \<Rightarrow> int" where
  "OBJ_ln2nid k st long_name =
     (case retrieve_added (global_added_by_long_name st) (blank_object\<lparr>obj_ln := Some (long_name @ [0])\<rparr>) of
        Some match \<Rightarrow> obj_nid match
      | None \<Rightarrow>
        (case bsearch (long_name_cmp k) long_name (kNIDsInLongNameOrder k) of
           None \<Rightarrow> NID_undef
         | Some nid \<Rightarrow> obj_nid (kObjects k ! nid)))"

definition OBJ_nid2obj :: "obj_tables \<Rightarrow> obj_state \<Rightarrow> int \<Rightarrow> asn1_object_st option" where
  "OBJ_nid2obj k st nid =
     (if nid \<ge> 0 \<and> nid < int (NUM_NID k) then
        if nid \<noteq> NID_undef \<and> obj_nid (kObjects k ! nat nid) = NID_undef then None
        else Some (kObjects k ! nat nid)
      else retrieve_added (global_added_by_nid st) (blank_object\<lparr>obj_nid := nid\<rparr>))"

definition CBS_ASN1_OBJECT :: u32 where "CBS_ASN1_OBJECT = 0x6"

definition OBJ_nid2cbb :: "heap_env \<Rightarrow> obj_tables \<Rightarrow> obj_state \<Rightarrow> int \<Rightarrow> cbbst \<Rightarrow> bool \<times> cbbst" where
  "OBJ_nid2cbb env k st nid out =
     (case OBJ_nid2obj k st nid of
        None \<Rightarrow> (False, out)
      | Some obj \<Rightarrow>
          seqb (CBB_add_asn1 env CBS_ASN1_OBJECT out) (\<lambda>out.
            seqb (on_child (CBB_add_bytes env (obj_bytes obj)) out) (cbb_flush env)))"

definition OBJ_nid2sn :: "obj_tables \<Rightarrow> obj_state \<Rightarrow> int \<Rightarrow> byte list option" where
  "OBJ_nid2sn k st nid = (case OBJ_nid2obj k st nid of None \<Rightarrow> None | Some obj \<Rightarrow> obj_sn obj)"

definition OBJ_nid2ln :: "obj_tables \<Rightarrow> obj_state \<Rightarrow> int \<Rightarrow> byte list option" where
  "OBJ_nid2ln k st nid = (case OBJ_nid2obj k st nid of None \<Rightarrow> None | Some obj \<Rightarrow> obj_ln obj)"

section \<open>Creating\<close>

text \<open>\<^verbatim>\<open>get_nid\<close> is called after the text was parsed, and may change the state. The length of the encoding is passed as an
  \<^verbatim>\<open>int\<close>.\<close>

definition create_object_with_text_oid ::
    "heap_env \<Rightarrow> (obj_state \<Rightarrow> int \<times> obj_state) option \<Rightarrow> cstr \<Rightarrow> byte list option \<Rightarrow> byte list option \<Rightarrow> obj_state \<Rightarrow>
     asn1_object_st option \<times> obj_state" where
  "create_object_with_text_oid env get_nid oid short_name long_name st =
     (case cbb_run env 32 (\<lambda>env. CBB_add_asn1_oid_from_text env oid (length oid)) of
        None \<Rightarrow> (None, st)
      | Some buf \<Rightarrow>
          (case (case get_nid of None \<Rightarrow> (NID_undef, st) | Some get \<Rightarrow> get st) of
             (nid, st) \<Rightarrow> (ASN1_OBJECT_create env nid buf (int32 (int (length buf))) short_name long_name, st)))"

definition OBJ_txt2obj :: "heap_env \<Rightarrow> obj_tables \<Rightarrow> obj_state \<Rightarrow> cstr \<Rightarrow> bool \<Rightarrow> asn1_object_st option" where
  "OBJ_txt2obj env k st s dont_search_names =
     (let nid = (if dont_search_names then NID_undef
                 else let nid = OBJ_sn2nid k st s in if nid = NID_undef then OBJ_ln2nid k st s else nid)
      in if nid \<noteq> NID_undef then OBJ_nid2obj k st nid
         else fst (create_object_with_text_oid env None s None None st))"

definition OBJ_txt2nid :: "heap_env \<Rightarrow> obj_tables \<Rightarrow> obj_state \<Rightarrow> cstr \<Rightarrow> int" where
  "OBJ_txt2nid env k st s = OBJ_obj2nid k st (OBJ_txt2obj env k st s False)"

text \<open>The functions that write a text: the destination after the call and the result, or \<open>None\<close> if they write behind the end of
  the destination.\<close>

definition strlcpy_int :: "byte list \<Rightarrow> cstr \<Rightarrow> int \<Rightarrow> (byte list \<times> int) option" where
  "strlcpy_int dst src dst_size =
     map_option (\<lambda>(dst, ret). if ret > INT_MAX then (dst, - 1) else (dst, int ret))
       (OPENSSL_strlcpy dst src (if dst_size < 0 then 0 else nat dst_size))"

definition OBJ_obj2txt ::
    "heap_env \<Rightarrow> obj_tables \<Rightarrow> obj_state \<Rightarrow> byte list \<Rightarrow> int \<Rightarrow> asn1_object_st option \<Rightarrow> bool \<Rightarrow> (byte list \<times> int) option" where
  "OBJ_obj2txt env k st out out_len p always_return_oid =
     (case p of
        None \<Rightarrow> strlcpy_int out [] out_len
      | Some obj \<Rightarrow>
        if obj_length obj = 0 then strlcpy_int out [] out_len
        else
          let name = (if always_return_oid then None
                      else
                        let nid = OBJ_obj2nid k st (Some obj) in
                        if nid = NID_undef then None
                        else case OBJ_nid2ln k st nid of None \<Rightarrow> OBJ_nid2sn k st nid | Some ln \<Rightarrow> Some ln) in
          (case name of
             Some name \<Rightarrow> strlcpy_int out (str_at (Some name)) out_len
           | None \<Rightarrow>
             (case CBS_asn1_oid_to_text env (CBS_init (obj_bytes obj) (nat (obj_length obj))) of
                None \<Rightarrow> map_option (\<lambda>out. (out, - 1)) (if out_len > 0 then mem_store out 0 0 else Some out)
              | Some txt \<Rightarrow> strlcpy_int out (str_at (Some txt)) out_len)))"

section \<open>Adding\<close>

text \<open>Inserting into a table that was never allocated dereferences a null pointer: the result is \<open>None\<close>. The allocator may
  answer differently at each call: \<open>envs i\<close> is what the \<open>i\<close>-th of the calls sees.\<close>

definition insert_added ::
    "heap_env \<Rightarrow> asn1_object_st \<Rightarrow> asn1_object_st lhash_st option \<Rightarrow> (bool \<times> asn1_object_st lhash_st option) option" where
  "insert_added env obj tab =
     (case tab of
        None \<Rightarrow> None
      | Some lh \<Rightarrow> (case OPENSSL_lh_insert env lh obj of (ok, old, lh) \<Rightarrow> Some (ok, Some lh)))"

definition insert_if ::
    "bool \<Rightarrow> heap_env \<Rightarrow> asn1_object_st \<Rightarrow> asn1_object_st lhash_st option \<Rightarrow> (bool \<times> asn1_object_st lhash_st option) option" where
  "insert_if b env obj tab = (if b then insert_added env obj tab else Some (True, tab))"

definition open_tables :: "(nat \<Rightarrow> heap_env) \<Rightarrow> obj_state \<Rightarrow> obj_state" where
  "open_tables envs st =
     (if global_added_by_nid st = None then
        st\<lparr>global_added_by_nid := OPENSSL_lh_new (envs 0) hash_nid cmp_nid,
           global_added_by_data := OPENSSL_lh_new (envs 1) hash_data cmp_data,
           global_added_by_short_name := OPENSSL_lh_new (envs 2) hash_short_name cmp_short_name,
           global_added_by_long_name := OPENSSL_lh_new (envs 3) hash_long_name cmp_long_name\<rparr>
      else st)"

definition obj_add_object :: "(nat \<Rightarrow> heap_env) \<Rightarrow> asn1_object_st \<Rightarrow> obj_state \<Rightarrow> (bool \<times> obj_state) option" where
  "obj_add_object envs obj st =
     (let obj = obj\<lparr>obj_flags := obj_flags obj AND NOT (ASN1_OBJECT_FLAG_DYNAMIC OR ASN1_OBJECT_FLAG_DYNAMIC_STRINGS OR
                      ASN1_OBJECT_FLAG_DYNAMIC_DATA)\<rparr>;
          st = open_tables envs st in
      case insert_added (envs 4) obj (global_added_by_nid st) of
        None \<Rightarrow> None
      | Some (ok1, by_nid) \<Rightarrow>
        (case insert_if (obj_length obj \<noteq> 0 \<and> obj_data obj \<noteq> None) (envs 5) obj (global_added_by_data st) of
           None \<Rightarrow> None
         | Some (ok2, by_data) \<Rightarrow>
           (case insert_if (obj_sn obj \<noteq> None) (envs 6) obj (global_added_by_short_name st) of
              None \<Rightarrow> None
            | Some (ok3, by_sn) \<Rightarrow>
              (case insert_if (obj_ln obj \<noteq> None) (envs 7) obj (global_added_by_long_name st) of
                 None \<Rightarrow> None
               | Some (ok4, by_ln) \<Rightarrow>
                   Some (ok1 \<and> ok2 \<and> ok3 \<and> ok4,
                     st\<lparr>global_added_by_nid := by_nid, global_added_by_data := by_data,
                        global_added_by_short_name := by_sn, global_added_by_long_name := by_ln\<rparr>)))))"

definition OBJ_create ::
    "heap_env \<Rightarrow> (nat \<Rightarrow> heap_env) \<Rightarrow> cstr \<Rightarrow> byte list option \<Rightarrow> byte list option \<Rightarrow> obj_state \<Rightarrow> (int \<times> obj_state) option" where
  "OBJ_create env envs oid short_name long_name st =
     (case create_object_with_text_oid env (Some obj_next_nid) oid short_name long_name st of
        (None, st) \<Rightarrow> Some (NID_undef, st)
      | (Some op, st) \<Rightarrow>
          (case obj_add_object envs op st of
             None \<Rightarrow> None
           | Some (ok, st) \<Rightarrow> Some (if ok then obj_nid op else NID_undef, st)))"

section \<open>The binary search of the library\<close>

text \<open>What the comparison of a key with an element has to be: that of their ranks in a linear order.\<close>

locale ranked_comparison =
  fixes compar :: "'k \<Rightarrow> 'e \<Rightarrow> int" and key_rank :: "'k \<Rightarrow> 'r::linorder" and rank :: "'e \<Rightarrow> 'r"
  assumes cmp_less: "compar key e < 0 \<longleftrightarrow> key_rank key < rank e"
    and cmp_greater: "0 < compar key e \<longleftrightarrow> rank e < key_rank key"
begin

lemma bsearch_from_Some:
  "hi \<le> length base \<Longrightarrow> bsearch_from compar key base lo hi = Some e \<Longrightarrow> e \<in> set base \<and> rank e = key_rank key"
proof (induction "hi - lo" arbitrary: lo hi rule: less_induct)
  case less
  define mid where "mid = (lo + hi) div 2"
  have lh: "lo < hi" using less.prems(2) by (subst (asm) bsearch_from.simps) (simp split: if_split_asm)
  then have mid: "lo \<le> mid" "mid < hi" by (simp_all add: mid_def)
  have step: "bsearch_from compar key base lo hi =
      (if compar key (base ! mid) < 0 then bsearch_from compar key base lo mid
       else if 0 < compar key (base ! mid) then bsearch_from compar key base (mid + 1) hi else Some (base ! mid))"
    using lh by (subst bsearch_from.simps) (simp add: Let_def mid_def)
  consider "compar key (base ! mid) < 0" | "0 < compar key (base ! mid)" | "compar key (base ! mid) = 0" by linarith
  then show ?case
  proof cases
    case 1
    with less.hyps [of mid lo] less.prems mid step show ?thesis by simp
  next
    case 2
    with less.hyps [of hi "mid + 1"] less.prems mid step show ?thesis by simp
  next
    case 3
    then have "rank (base ! mid) = key_rank key"
      using cmp_less [of key "base ! mid"] cmp_greater [of key "base ! mid"] by auto
    moreover have "e = base ! mid" using 3 step less.prems(2) by simp
    ultimately show ?thesis using mid(2) less.prems(1) by simp
  qed
qed

lemma bsearch_from_None:
  "hi \<le> length base \<Longrightarrow> sorted (map rank base) \<Longrightarrow> bsearch_from compar key base lo hi = None \<Longrightarrow>
   lo \<le> i \<Longrightarrow> i < hi \<Longrightarrow> rank (base ! i) \<noteq> key_rank key"
proof (induction "hi - lo" arbitrary: lo hi rule: less_induct)
  case less
  define mid where "mid = (lo + hi) div 2"
  have lh: "lo < hi" using less.prems(4,5) by simp
  then have mid: "lo \<le> mid" "mid < hi" by (simp_all add: mid_def)
  have mono: "rank (base ! m) \<le> rank (base ! n)" if "m \<le> n" "n < length base" for m n
    using sorted_nth_mono [OF less.prems(2), of m n] that by simp
  have step: "bsearch_from compar key base lo hi =
      (if compar key (base ! mid) < 0 then bsearch_from compar key base lo mid
       else if 0 < compar key (base ! mid) then bsearch_from compar key base (mid + 1) hi else Some (base ! mid))"
    using lh by (subst bsearch_from.simps) (simp add: Let_def mid_def)
  consider "compar key (base ! mid) < 0" | "0 < compar key (base ! mid)" | "compar key (base ! mid) = 0" by linarith
  then show ?case
  proof cases
    case 1
    show ?thesis
    proof (cases "i < mid")
      case True
      with less.hyps [of mid lo] less.prems mid step 1 show ?thesis by simp
    next
      case False
      with mono [of mid i] less.prems 1 cmp_less [of key "base ! mid"] show ?thesis by auto
    qed
  next
    case 2
    show ?thesis
    proof (cases "mid < i")
      case True
      with less.hyps [of hi "mid + 1"] less.prems mid step 2 show ?thesis by simp
    next
      case False
      with mono [of i mid] less.prems 2 mid cmp_greater [of key "base ! mid"] show ?thesis by auto
    qed
  next
    case 3
    with step less.prems(3) show ?thesis by simp
  qed
qed

lemma bsearch_Some: "bsearch compar key base = Some e \<Longrightarrow> e \<in> set base \<and> rank e = key_rank key"
  using bsearch_from_Some [of "length base" base key 0 e] by (simp add: bsearch_def)

lemma bsearch_None:
  "sorted (map rank base) \<Longrightarrow> bsearch compar key base = None \<Longrightarrow> e \<in> set base \<Longrightarrow> rank e \<noteq> key_rank key"
  using bsearch_from_None [of "length base" base key 0] by (auto simp: bsearch_def in_set_conv_nth)

text \<open>When no two elements have the same rank the search finds exactly the element with the rank of the key.\<close>

lemma bsearch_Some_iff:
  assumes "sorted (map rank base)" "distinct (map rank base)"
  shows "bsearch compar key base = Some e \<longleftrightarrow> e \<in> set base \<and> rank e = key_rank key"
proof
  assume e: "e \<in> set base \<and> rank e = key_rank key"
  then obtain f where f: "bsearch compar key base = Some f" using bsearch_None [OF assms(1)] by (cases "bsearch compar key base") auto
  from bsearch_Some [OF f] e assms(2) show "bsearch compar key base = Some e" using f by (auto simp: distinct_map inj_on_def)
qed (rule bsearch_Some)

end

lemma strcmp_less: "strcmp a b < 0 \<longleftrightarrow> a < b"
  by (induction a b rule: strcmp.induct) (auto simp: word_less_def)

lemma strcmp_greater: "0 < strcmp a b \<longleftrightarrow> b < a"
  using strcmp_less [of a b] strcmp_0_iff [of a b] by (metis linorder_less_linear order_less_asym)

definition sn_of :: "obj_tables \<Rightarrow> nat \<Rightarrow> cstr" where
  "sn_of k n = str_at (obj_sn (kObjects k ! n))"

definition ln_of :: "obj_tables \<Rightarrow> nat \<Rightarrow> cstr" where
  "ln_of k n = str_at (obj_ln (kObjects k ! n))"

definition oid_rank :: "asn1_object_st \<Rightarrow> int \<times> byte list" where
  "oid_rank obj = (obj_length obj, obj_bytes obj)"

interpretation sn_search: ranked_comparison "short_name_cmp k" "\<lambda>s. s" "sn_of k" for k
  by unfold_locales (simp_all add: short_name_cmp_def sn_of_def strcmp_less strcmp_greater)

interpretation ln_search: ranked_comparison "long_name_cmp k" "\<lambda>s. s" "ln_of k" for k
  by unfold_locales (simp_all add: long_name_cmp_def ln_of_def strcmp_less strcmp_greater)

lemma memcmp_greater: "length a = length b \<Longrightarrow> 0 < memcmp a b \<longleftrightarrow> b < a"
  using memcmp_lex [of b a] memcmp_swap [of a b] by simp

interpretation oid_search: ranked_comparison "obj_cmp k" oid_rank "\<lambda>n. oid_rank (kObjects k ! n)" for k
proof
  fix a n
  let ?b = "kObjects k ! n"
  have m: "OPENSSL_memcmp (obj_bytes a) (obj_bytes ?b) (nat (obj_length a)) = memcmp (obj_bytes a) (obj_bytes ?b)"
    if "obj_length a = obj_length ?b"
    using that by (cases "nat (obj_length a) = 0") (simp_all add: OPENSSL_memcmp_def obj_bytes_def Let_def)
  show "obj_cmp k a n < 0 \<longleftrightarrow> oid_rank a < oid_rank ?b"
    using m memcmp_lex [of "obj_bytes a" "obj_bytes ?b"] by (auto simp: obj_cmp_def oid_rank_def Let_def)
  show "0 < obj_cmp k a n \<longleftrightarrow> oid_rank ?b < oid_rank a"
    using m memcmp_greater [of "obj_bytes a" "obj_bytes ?b"] by (auto simp: obj_cmp_def oid_rank_def Let_def)
qed

section \<open>The static tables\<close>

text \<open>What the generator of the tables establishes: the orders are sorted and list exactly the objects with a name or an
  encoding, each object carries its own NID, and no two have the same name. Two objects may have the same encoding.\<close>

definition listed :: "obj_tables \<Rightarrow> nat list \<Rightarrow> (asn1_object_st \<Rightarrow> bool) \<Rightarrow> bool" where
  "listed k order has \<longleftrightarrow>
     (\<forall>n. n \<in> set order \<longleftrightarrow> n < NUM_NID k \<and> has (kObjects k ! n)) \<and> (\<forall>n \<in> set order. obj_nid (kObjects k ! n) = int n)"

definition tables_ok :: "obj_tables \<Rightarrow> bool" where
  "tables_ok k \<longleftrightarrow>
     listed k (kNIDsInShortNameOrder k) (\<lambda>obj. obj_sn obj \<noteq> None) \<and>
     sorted (map (sn_of k) (kNIDsInShortNameOrder k)) \<and> distinct (map (sn_of k) (kNIDsInShortNameOrder k)) \<and>
     listed k (kNIDsInLongNameOrder k) (\<lambda>obj. obj_ln obj \<noteq> None) \<and>
     sorted (map (ln_of k) (kNIDsInLongNameOrder k)) \<and> distinct (map (ln_of k) (kNIDsInLongNameOrder k)) \<and>
     listed k (kNIDsInOIDOrder k) (\<lambda>obj. 0 < obj_length obj) \<and> 0 \<notin> set (kNIDsInOIDOrder k) \<and>
     sorted (map (\<lambda>n. oid_rank (kObjects k ! n)) (kNIDsInOIDOrder k))"

lemma tables_okD:
  assumes "tables_ok k"
  shows "listed k (kNIDsInShortNameOrder k) (\<lambda>obj. obj_sn obj \<noteq> None)" "sorted (map (sn_of k) (kNIDsInShortNameOrder k))"
    "distinct (map (sn_of k) (kNIDsInShortNameOrder k))"
    "listed k (kNIDsInLongNameOrder k) (\<lambda>obj. obj_ln obj \<noteq> None)" "sorted (map (ln_of k) (kNIDsInLongNameOrder k))"
    "distinct (map (ln_of k) (kNIDsInLongNameOrder k))"
    "listed k (kNIDsInOIDOrder k) (\<lambda>obj. 0 < obj_length obj)" "0 \<notin> set (kNIDsInOIDOrder k)"
    "sorted (map (\<lambda>n. oid_rank (kObjects k ! n)) (kNIDsInOIDOrder k))"
  using assms unfolding tables_ok_def by blast+

lemma OBJ_nid2obj_static:
  assumes "0 < nid" "nid < int (NUM_NID k)"
  shows "OBJ_nid2obj k st nid =
    (if obj_nid (kObjects k ! nat nid) = NID_undef then None else Some (kObjects k ! nat nid))"
  using assms by (simp add: OBJ_nid2obj_def NID_undef_def)

text \<open>With nothing added, the names and the NIDs of the table are inverse to each other.\<close>

lemma bsearch_listed:
  assumes "listed k order has" "0 < nid"
    and "\<And>e. found = Some e \<longleftrightarrow> e \<in> set order \<and> name e = s"
  shows "(case found of None \<Rightarrow> NID_undef | Some n \<Rightarrow> obj_nid (kObjects k ! n)) = nid \<longleftrightarrow>
    nid < int (NUM_NID k) \<and> has (kObjects k ! nat nid) \<and> name (nat nid) = s"
proof -
  have mem: "n \<in> set order \<longleftrightarrow> n < NUM_NID k \<and> has (kObjects k ! n)" for n
    using assms(1) unfolding listed_def by blast
  have own: "obj_nid (kObjects k ! n) = int n" if "n \<in> set order" for n
    using assms(1) that unfolding listed_def by blast
  have r: "nid < int (NUM_NID k) \<and> has (kObjects k ! nat nid) \<and> name (nat nid) = s \<longleftrightarrow> found = Some (nat nid)"
    using assms(2) unfolding assms(3) mem by linarith
  show ?thesis
  proof (cases found)
    case None
    with r assms(2) show ?thesis by (simp add: NID_undef_def)
  next
    case (Some n)
    with assms(3) [of n] own [of n] have "obj_nid (kObjects k ! n) = int n" by blast
    with Some assms(2) show ?thesis unfolding r by auto
  qed
qed

lemma OBJ_sn2nid_static:
  assumes "tables_ok k" "global_added_by_short_name st = None" "0 < nid"
  shows "OBJ_sn2nid k st s = nid \<longleftrightarrow>
    nid < int (NUM_NID k) \<and> obj_sn (kObjects k ! nat nid) \<noteq> None \<and> sn_of k (nat nid) = s"
  using bsearch_listed [where name = "sn_of k", OF tables_okD(1) [OF assms(1)] assms(3) sn_search.bsearch_Some_iff [OF tables_okD(2,3) [OF assms(1)]]] assms(2)
  by (simp add: OBJ_sn2nid_def retrieve_added_def)

lemma OBJ_ln2nid_static:
  assumes "tables_ok k" "global_added_by_long_name st = None" "0 < nid"
  shows "OBJ_ln2nid k st s = nid \<longleftrightarrow>
    nid < int (NUM_NID k) \<and> obj_ln (kObjects k ! nat nid) \<noteq> None \<and> ln_of k (nat nid) = s"
  using bsearch_listed [where name = "ln_of k", OF tables_okD(4) [OF assms(1)] assms(3) ln_search.bsearch_Some_iff [OF tables_okD(5,6) [OF assms(1)]]] assms(2)
  by (simp add: OBJ_ln2nid_def retrieve_added_def)

lemma listed_nid: "listed k order has \<Longrightarrow> 0 < nid \<Longrightarrow> nid < int (NUM_NID k) \<Longrightarrow> has (kObjects k ! nat nid) \<Longrightarrow> obj_nid (kObjects k ! nat nid) = nid"
  unfolding listed_def by (metis nat_less_iff order_less_imp_le int_nat_eq)

lemma OBJ_nid2sn_static:
  assumes "tables_ok k" "0 < nid" "nid < int (NUM_NID k)"
  shows "OBJ_nid2sn k st nid = obj_sn (kObjects k ! nat nid) \<or>
    OBJ_nid2sn k st nid = None \<and> obj_sn (kObjects k ! nat nid) = None"
proof (cases "obj_sn (kObjects k ! nat nid)")
  case (Some mem)
  with assms listed_nid [of k _ _ nid] have "obj_nid (kObjects k ! nat nid) = nid" by (auto simp: tables_ok_def)
  with assms(2,3) show ?thesis by (simp add: OBJ_nid2sn_def OBJ_nid2obj_static NID_undef_def)
qed (use assms(2,3) in \<open>simp add: OBJ_nid2sn_def OBJ_nid2obj_static\<close>)

lemma OBJ_nid2ln_static:
  assumes "tables_ok k" "0 < nid" "nid < int (NUM_NID k)"
  shows "OBJ_nid2ln k st nid = obj_ln (kObjects k ! nat nid) \<or>
    OBJ_nid2ln k st nid = None \<and> obj_ln (kObjects k ! nat nid) = None"
proof (cases "obj_ln (kObjects k ! nat nid)")
  case (Some mem)
  with assms listed_nid [of k _ _ nid] have "obj_nid (kObjects k ! nat nid) = nid" by (auto simp: tables_ok_def)
  with assms(2,3) show ?thesis by (simp add: OBJ_nid2ln_def OBJ_nid2obj_static NID_undef_def)
qed (use assms(2,3) in \<open>simp add: OBJ_nid2ln_def OBJ_nid2obj_static\<close>)

text \<open>An encoding in the table is found, though perhaps as another object with the same encoding.\<close>

lemma obj_bytes_of: "obj_bytes (blank_object\<lparr>obj_data := Some d, obj_length := int (length d)\<rparr>) = d"
  by (rule obj_bytes_whole) simp_all

lemma OBJ_cbs2nid_static:
  assumes "tables_ok k" "global_added_by_data st = None" "length d \<le> INT_MAX"
  shows "(case OBJ_cbs2nid k st d of nid \<Rightarrow>
      nid \<noteq> NID_undef \<longrightarrow> 0 < nid \<and> nid < int (NUM_NID k) \<and> obj_bytes (kObjects k ! nat nid) = d \<and> obj_nid (kObjects k ! nat nid) = nid) \<and>
    (OBJ_cbs2nid k st d = NID_undef \<longrightarrow> (\<forall>n. 0 < n \<and> n < NUM_NID k \<and> 0 < obj_length (kObjects k ! n) \<longrightarrow> obj_bytes (kObjects k ! n) \<noteq> d))"
proof -
  let ?o = "blank_object\<lparr>obj_data := Some d, obj_length := int (length d)\<rparr>"
  have b: "oid_rank ?o = (int (length d), d)" using obj_bytes_of [of d] by (simp add: oid_rank_def)
  have e: "OBJ_cbs2nid k st d = (case bsearch (obj_cmp k) ?o (kNIDsInOIDOrder k) of None \<Rightarrow> NID_undef | Some n \<Rightarrow> obj_nid (kObjects k ! n))"
    using assms(2,3) by (simp add: OBJ_cbs2nid_def CBS_len_def CBS_data_def OBJ_obj2nid_def retrieve_added_def blank_object_def)
  have k: "listed k (kNIDsInOIDOrder k) (\<lambda>obj. 0 < obj_length obj)" "sorted (map (\<lambda>n. oid_rank (kObjects k ! n)) (kNIDsInOIDOrder k))"
    by (rule tables_okD [OF assms(1)])+
  show ?thesis
  proof (cases "bsearch (obj_cmp k) ?o (kNIDsInOIDOrder k)")
    case None
    have "obj_bytes (kObjects k ! n) \<noteq> d" if "n < NUM_NID k" "0 < obj_length (kObjects k ! n)" for n
    proof -
      have "n \<in> set (kNIDsInOIDOrder k)" using k(1) that by (simp add: listed_def)
      from oid_search.bsearch_None [OF k(2) None this] have "oid_rank (kObjects k ! n) \<noteq> (int (length d), d)" by (simp add: b)
      with that(2) show ?thesis by (auto simp: oid_rank_def)
    qed
    with None e show ?thesis by simp
  next
    case (Some n)
    from oid_search.bsearch_Some [OF Some] have n: "n \<in> set (kNIDsInOIDOrder k)" "oid_rank (kObjects k ! n) = (int (length d), d)"
      by (simp_all add: b)
    with k(1) have m: "n < NUM_NID k" "0 < obj_length (kObjects k ! n)" "obj_nid (kObjects k ! n) = int n"
      by (auto simp: listed_def)
    have "n \<noteq> 0" using n(1) tables_okD(8) [OF assms(1)] by metis
    with m n(2) e Some show ?thesis by (simp add: oid_rank_def NID_undef_def)
  qed
qed

section \<open>The registry\<close>

text \<open>A table that is there has the functions it was opened with and at most \<open>n\<close> items.\<close>

definition added_ok ::
    "(asn1_object_st \<Rightarrow> 32 word) \<Rightarrow> (asn1_object_st \<Rightarrow> asn1_object_st \<Rightarrow> int) \<Rightarrow> nat \<Rightarrow> asn1_object_st lhash_st option \<Rightarrow> bool" where
  "added_ok hash cmp n tab \<longleftrightarrow>
     (case tab of None \<Rightarrow> True | Some lh \<Rightarrow> lh_ok lh \<and> lh_hash lh = hash \<and> lh_comp lh = cmp \<and> num_items lh \<le> n)"

definition added_elems :: "asn1_object_st lhash_st option \<Rightarrow> asn1_object_st multiset" where
  "added_elems tab = (case tab of None \<Rightarrow> {#} | Some lh \<Rightarrow> lh_elems lh)"

lemma added_ok_new: "hash_functions hash cmp \<Longrightarrow> added_ok hash cmp n (OPENSSL_lh_new env hash cmp) \<and>
    added_elems (OPENSSL_lh_new env hash cmp) = {#} \<and> retrieve_added (OPENSSL_lh_new env hash cmp) key = None"
proof (cases "OPENSSL_lh_new env hash cmp")
  case (Some lh)
  assume h: "hash_functions hash cmp"
  from lh_new [OF Some h] have l: "lh_ok lh" "lh_elems lh = {#}" "lh_comp lh = cmp" "lh_hash lh = hash" by simp_all
  have "OPENSSL_lh_retrieve lh key = None" by (rule lh_retrieve_eqI [OF l(1)]) (simp add: l(2) lh_matches_def)
  with l Some num_items_elems [OF l(1)] show ?thesis by (simp add: added_ok_def added_elems_def retrieve_added_def)
qed (simp add: added_ok_def added_elems_def retrieve_added_def)

lemma insert_added:
  assumes "added_ok hash cmp n tab" "n + 1 < SIZE_MOD" "insert_added env obj tab = Some (ok, tab')"
  shows "tab' \<noteq> None \<and> added_ok hash cmp (n + 1) tab' \<and> added_elems tab' \<subseteq># add_mset obj (added_elems tab) \<and>
    (\<forall>key. retrieve_added tab' key = (if ok \<and> cmp obj key = 0 then Some obj else retrieve_added tab key))"
proof -
  from assms(3) obtain lh old lh' where lh: "tab = Some lh" "OPENSSL_lh_insert env lh obj = (ok, old, lh')" "tab' = Some lh'"
    by (auto simp: insert_added_def split: option.split_asm prod.split_asm)
  from assms(1) lh(1) have l: "lh_ok lh" "lh_hash lh = hash" "lh_comp lh = cmp" "num_items lh \<le> n" by (simp_all add: added_ok_def)
  have n: "num_items lh + 1 < SIZE_MOD" using l(4) assms(2) by simp
  note i = lh_insert [OF l(1) n lh(2)]
  have sub: "lh_elems lh' \<subseteq># add_mset obj (lh_elems lh)" using i by (cases ok) simp_all
  have "size (lh_elems lh') \<le> size (lh_elems lh) + 1" using size_mset_mono [OF sub] by simp
  then have "num_items lh' \<le> n + 1" using num_items_elems [OF l(1)] num_items_elems [of lh'] i l(4) by simp
  moreover have "OPENSSL_lh_retrieve lh' key = (if ok \<and> cmp obj key = 0 then Some obj else OPENSSL_lh_retrieve lh key)" for key
  proof (cases ok)
    case True
    with lh(2) have "OPENSSL_lh_insert env lh obj = (True, old, lh')" by simp
    from lh_insert_retrieve [OF l(1) n this] True l(3) show ?thesis by simp
  next
    case False
    with i show ?thesis by simp
  qed
  ultimately show ?thesis using i sub lh l by (simp add: added_ok_def added_elems_def retrieve_added_def)
qed

lemma added_ok_mono: "added_ok hash cmp m tab \<Longrightarrow> m \<le> n \<Longrightarrow> added_ok hash cmp n tab"
  by (auto simp: added_ok_def split: option.split)

lemma insert_if:
  assumes "added_ok hash cmp n tab" "n + 1 < SIZE_MOD" "insert_if b env obj tab = Some (ok, tab')"
  shows "added_ok hash cmp (n + 1) tab' \<and>
    (\<forall>key. retrieve_added tab' key = (if b \<and> ok \<and> cmp obj key = 0 then Some obj else retrieve_added tab key))"
proof (cases b)
  case True
  with insert_added [OF assms(1,2), of env obj ok tab'] assms(3) show ?thesis by (simp add: insert_if_def)
next
  case False
  with assms(3) added_ok_mono [OF assms(1), of "n + 1"] show ?thesis by (simp add: insert_if_def)
qed

text \<open>NIDs are given out in ascending order, from the first that the generated tables do not use.\<close>

definition registry_ok :: "obj_tables \<Rightarrow> nat \<Rightarrow> int \<Rightarrow> obj_state \<Rightarrow> bool" where
  "registry_ok k n m st \<longleftrightarrow>
     added_ok hash_nid cmp_nid n (global_added_by_nid st) \<and> added_ok hash_data cmp_data n (global_added_by_data st) \<and>
     added_ok hash_short_name cmp_short_name n (global_added_by_short_name st) \<and>
     added_ok hash_long_name cmp_long_name n (global_added_by_long_name st) \<and>
     (global_added_by_nid st = None \<longrightarrow>
       global_added_by_data st = None \<and> global_added_by_short_name st = None \<and> global_added_by_long_name st = None) \<and>
     (\<forall>obj \<in># added_elems (global_added_by_nid st). int (NUM_NID k) \<le> obj_nid obj \<and> obj_nid obj < m)"

definition obj_inv :: "obj_tables \<Rightarrow> obj_state \<Rightarrow> bool" where
  "obj_inv k st \<longleftrightarrow>
     0 < NUM_NID k \<and> int (NUM_NID k) \<le> sint (global_next_nid st) \<and>
     registry_ok k (nat (sint (global_next_nid st))) (sint (global_next_nid st)) st"

definition initial_state :: "obj_tables \<Rightarrow> obj_state" where
  "initial_state k =
     \<lparr>global_added_by_data = None, global_added_by_nid = None, global_added_by_short_name = None,
      global_added_by_long_name = None, global_next_nid = word_of_nat (NUM_NID k)\<rparr>"

lemma initial_state_inv: "0 < NUM_NID k \<Longrightarrow> NUM_NID k < 2 ^ 31 \<Longrightarrow> obj_inv k (initial_state k)"
  by (simp add: obj_inv_def registry_ok_def initial_state_def added_ok_def added_elems_def signed_of_nat signed_take_bit_int_eq_self)

lemma retrieve_added_elems:
  assumes "added_ok hash cmp n tab" "retrieve_added tab key = Some obj"
  shows "obj \<in># added_elems tab \<and> cmp obj key = 0"
proof -
  from assms obtain lh where lh: "tab = Some lh" "lh_ok lh" "lh_comp lh = cmp" "OPENSSL_lh_retrieve lh key = Some obj"
    by (auto simp: added_ok_def retrieve_added_def split: option.split_asm)
  with lh_retrieve [OF lh(2), of key] have "obj \<in># lh_matches cmp key (lh_elems lh)" by simp
  with lh(1) show ?thesis by (simp add: lh_matches_def added_elems_def)
qed

section \<open>Copying and creating objects\<close>

lemma oid_bytes_not_Nil: "oid_ok arcs \<Longrightarrow> oid_bytes arcs \<noteq> []"
  by (cases arcs rule: oid_ok.cases) auto

lemma strdup_Some: "OPENSSL_strdup env (Some s) = Some m \<Longrightarrow> m = s @ [0]"
  by (auto simp: OPENSSL_strdup_def Let_def mem_write_def dest: OPENSSL_malloc_length split: option.split_asm)

lemma dup_name_Some:
  assumes "dup_name env p = Some q"
  shows "str_at q = str_at p \<and> (q = None \<longleftrightarrow> p = None)"
proof (cases p)
  case None
  with assms show ?thesis by (simp add: dup_name_def)
next
  case (Some mem)
  with assms obtain m where m: "q = Some m" "OPENSSL_strdup env (Some (str_at (Some mem))) = Some m"
    by (cases "OPENSSL_strdup env (Some (str_at (Some mem)))") (force simp: dup_name_def)+
  have "takeWhile (\<lambda>c. c \<noteq> 0) (takeWhile (\<lambda>c. c \<noteq> 0) mem @ [0 :: byte]) = takeWhile (\<lambda>c. c \<noteq> 0) mem"
    by (subst takeWhile_append2) (auto dest: set_takeWhileD)
  with strdup_Some [OF m(2)] m(1) Some show ?thesis by (simp add: str_at_def)
qed

lemma OBJ_dup_Some:
  assumes "OBJ_dup env (Some obj) = Some r" "0 \<le> obj_length obj" "obj_length obj < int SIZE_MOD" "obj_data obj \<noteq> None"
  shows "obj_nid r = obj_nid obj \<and> obj_length r = obj_length obj \<and> obj_bytes r = obj_bytes obj \<and> obj_data r \<noteq> None \<and>
    str_at (obj_sn r) = str_at (obj_sn obj) \<and> (obj_sn r = None \<longleftrightarrow> obj_sn obj = None) \<and>
    str_at (obj_ln r) = str_at (obj_ln obj) \<and> (obj_ln r = None \<longleftrightarrow> obj_ln obj = None)"
proof (cases "obj_flags obj AND ASN1_OBJECT_FLAG_DYNAMIC = 0")
  case True
  with assms(1,4) show ?thesis by (simp add: OBJ_dup_def)
next
  case False
  with assms(1,4) obtain d ln sn where d: "OPENSSL_malloc env (size_of_int (obj_length obj)) = Some d"
    and n: "dup_name env (obj_ln obj) = Some ln" "dup_name env (obj_sn obj) = Some sn"
    and r: "obj_nid r = obj_nid obj" "obj_length r = obj_length obj" "obj_data r = Some (mem_write 0 (obj_bytes obj) d)"
      "obj_sn r = sn" "obj_ln r = ln"
    by (auto simp: OBJ_dup_def Let_def split: option.split_asm)
  have "length d = length (obj_bytes obj)"
    using OPENSSL_malloc_length [OF d] assms(2,3) by (simp add: size_of_int_def)
  then have "obj_data r = Some (obj_bytes obj)" using r(3) by (simp add: mem_write_def)
  then have "obj_bytes r = obj_bytes obj \<and> obj_data r \<noteq> None"
    using obj_bytes_whole [of r "obj_bytes obj"] r(2) assms(2) by simp
  with r n dup_name_Some [OF n(1)] dup_name_Some [OF n(2)] show ?thesis by simp
qed

lemma create_object_Some:
  assumes "create_object_with_text_oid env get oid sn ln st = (Some obj, st')" "length oid < 2 ^ 31"
  shows "\<exists>arcs nid. oid_ok arcs \<and> oid = oid_text arcs \<and> (case get of None \<Rightarrow> (NID_undef, st) | Some g \<Rightarrow> g st) = (nid, st') \<and>
    obj_nid obj = nid \<and> obj_length obj = int (length (oid_bytes arcs)) \<and> obj_bytes obj = oid_bytes arcs \<and> obj_data obj \<noteq> None \<and>
    str_at (obj_sn obj) = str_at sn \<and> (obj_sn obj = None \<longleftrightarrow> sn = None) \<and>
    str_at (obj_ln obj) = str_at ln \<and> (obj_ln obj = None \<longleftrightarrow> ln = None)"
proof -
  define gs where "gs = (case get of None \<Rightarrow> (NID_undef, st) | Some g \<Rightarrow> g st)"
  from assms(1) obtain buf where buf: "cbb_run env 32 (\<lambda>env. CBB_add_asn1_oid_from_text env oid (length oid)) = Some buf"
    and c32: "ASN1_OBJECT_create env (fst gs) buf (int32 (int (length buf))) sn ln = Some obj" "st' = snd gs"
    by (auto simp: create_object_with_text_oid_def gs_def [symmetric] split: option.split_asm prod.split_asm)
  have l: "32 < SIZE_MOD" "length oid < SIZE_MOD" using assms(2) by (simp_all add: SIZE_MOD_def)
  from from_text_run_sound [OF buf l] obtain arcs where arcs: "oid_ok arcs" "oid = oid_text arcs" "buf = oid_bytes arcs" by blast
  have "length buf < 2 ^ 31" using length_oid_bytes [OF arcs(1)] arcs(2,3) assms(2) by simp
  then have "int32 (int (length buf)) = int (length buf)" by (intro int32_id) simp_all
  note c = c32 [unfolded this]
  have "int (length buf) < int SIZE_MOD" using length_oid_bytes [OF arcs(1)] arcs l(2) by simp
  moreover have "obj_bytes \<lparr>obj_sn = sn, obj_ln = ln, obj_nid = fst gs, obj_length = int (length buf), obj_data = Some buf,
      obj_flags = f\<rparr> = buf" for f by (rule obj_bytes_whole) simp_all
  ultimately have o: "obj_nid obj = fst gs" "obj_length obj = int (length buf)" "obj_data obj \<noteq> None"
    "str_at (obj_sn obj) = str_at sn" "obj_sn obj = None \<longleftrightarrow> sn = None"
    "str_at (obj_ln obj) = str_at ln" "obj_ln obj = None \<longleftrightarrow> ln = None" "obj_bytes obj = buf"
    using OBJ_dup_Some [OF c(1) [unfolded ASN1_OBJECT_create_def]] by simp_all
  show ?thesis
    by (rule exI [of _ arcs], rule exI [of _ "fst gs"]) (use arcs o c(2) in \<open>simp flip: gs_def\<close>)
qed

section \<open>Adding an object\<close>

lemma open_tables:
  assumes "registry_ok k n m st"
  shows "registry_ok k n m (open_tables envs st) \<and> global_next_nid (open_tables envs st) = global_next_nid st \<and>
    (\<forall>key. retrieve_added (global_added_by_nid (open_tables envs st)) key = retrieve_added (global_added_by_nid st) key) \<and>
    (\<forall>key. retrieve_added (global_added_by_data (open_tables envs st)) key = retrieve_added (global_added_by_data st) key) \<and>
    (\<forall>key. retrieve_added (global_added_by_short_name (open_tables envs st)) key = retrieve_added (global_added_by_short_name st) key) \<and>
    (\<forall>key. retrieve_added (global_added_by_long_name (open_tables envs st)) key = retrieve_added (global_added_by_long_name st) key) \<or>
    global_added_by_nid (open_tables envs st) = None"
proof (cases "global_added_by_nid st")
  case None
  note new = added_ok_new [OF by_nid.hash_functions_axioms] added_ok_new [OF by_data.hash_functions_axioms]
    added_ok_new [OF by_short_name.hash_functions_axioms] added_ok_new [OF by_long_name.hash_functions_axioms]
  have n: "retrieve_added None key = None" for key by (simp add: retrieve_added_def)
  from assms None show ?thesis by (auto simp: registry_ok_def open_tables_def new n)
next
  case (Some lh)
  with assms show ?thesis by (simp add: open_tables_def)
qed

definition static_copy :: "asn1_object_st \<Rightarrow> asn1_object_st" where
  "static_copy obj = obj\<lparr>obj_flags := obj_flags obj AND NOT (ASN1_OBJECT_FLAG_DYNAMIC OR ASN1_OBJECT_FLAG_DYNAMIC_STRINGS OR
     ASN1_OBJECT_FLAG_DYNAMIC_DATA)\<rparr>"

lemma static_copy_simps [simp]:
  "obj_nid (static_copy obj) = obj_nid obj" "obj_sn (static_copy obj) = obj_sn obj" "obj_ln (static_copy obj) = obj_ln obj"
  "obj_length (static_copy obj) = obj_length obj" "obj_data (static_copy obj) = obj_data obj"
  "obj_bytes (static_copy obj) = obj_bytes obj"
  by (simp_all add: static_copy_def obj_bytes_def)

text \<open>What the tables answer after an object was added: \<open>b\<close> says that it was put into the table.\<close>

definition answers_after ::
    "bool \<Rightarrow> (asn1_object_st \<Rightarrow> asn1_object_st \<Rightarrow> int) \<Rightarrow> asn1_object_st \<Rightarrow> asn1_object_st lhash_st option \<Rightarrow> asn1_object_st lhash_st option \<Rightarrow> bool" where
  "answers_after b cmp obj tab tab' \<longleftrightarrow>
     (\<forall>key. retrieve_added tab' key = (if b \<and> cmp obj key = 0 then Some obj else retrieve_added tab key))"

lemma answers_after_eq: "(\<forall>key. retrieve_added t key = retrieve_added tab key) \<Longrightarrow> answers_after b cmp obj t tab' = answers_after b cmp obj tab tab'"
  by (simp add: answers_after_def)

lemma add_object:
  assumes inv: "registry_ok k n m st" and n: "n + 1 < SIZE_MOD"
    and add: "obj_add_object envs obj st = Some (ok, st')"
  obtains ok1 ok2 ok3 ok4 where "ok = (ok1 \<and> ok2 \<and> ok3 \<and> ok4)" "global_next_nid st' = global_next_nid st"
    "global_added_by_nid st' \<noteq> None" "added_ok hash_nid cmp_nid (n + 1) (global_added_by_nid st')"
    "added_ok hash_data cmp_data (n + 1) (global_added_by_data st')"
    "added_ok hash_short_name cmp_short_name (n + 1) (global_added_by_short_name st')"
    "added_ok hash_long_name cmp_long_name (n + 1) (global_added_by_long_name st')"
    "\<forall>o' \<in># added_elems (global_added_by_nid st').
       o' = static_copy obj \<or> int (NUM_NID k) \<le> obj_nid o' \<and> obj_nid o' < m"
    "answers_after ok1 cmp_nid (static_copy obj) (global_added_by_nid st) (global_added_by_nid st')"
    "answers_after (obj_length obj \<noteq> 0 \<and> obj_data obj \<noteq> None \<and> ok2) cmp_data (static_copy obj) (global_added_by_data st) (global_added_by_data st')"
    "answers_after (obj_sn obj \<noteq> None \<and> ok3) cmp_short_name (static_copy obj) (global_added_by_short_name st) (global_added_by_short_name st')"
    "answers_after (obj_ln obj \<noteq> None \<and> ok4) cmp_long_name (static_copy obj) (global_added_by_long_name st) (global_added_by_long_name st')"
proof -
  let ?o = "static_copy obj" and ?s = "open_tables envs st"
  from add obtain ok1 ok2 ok3 ok4 t1 t2 t3 t4 where
    i: "insert_added (envs 4) ?o (global_added_by_nid ?s) = Some (ok1, t1)"
    "insert_if (obj_length obj \<noteq> 0 \<and> obj_data obj \<noteq> None) (envs 5) ?o (global_added_by_data ?s) = Some (ok2, t2)"
    "insert_if (obj_sn obj \<noteq> None) (envs 6) ?o (global_added_by_short_name ?s) = Some (ok3, t3)"
    "insert_if (obj_ln obj \<noteq> None) (envs 7) ?o (global_added_by_long_name ?s) = Some (ok4, t4)"
    and ok: "ok = (ok1 \<and> ok2 \<and> ok3 \<and> ok4)"
    and st': "st' = ?s\<lparr>global_added_by_nid := t1, global_added_by_data := t2, global_added_by_short_name := t3,
      global_added_by_long_name := t4\<rparr>"
    by (auto simp: obj_add_object_def Let_def static_copy_def split: option.split_asm prod.split_asm)
  have "global_added_by_nid ?s \<noteq> None" using i(1) by (cases "global_added_by_nid ?s") (simp_all add: insert_added_def)
  with open_tables [OF inv, of envs] have o: "registry_ok k n m ?s" "global_next_nid ?s = global_next_nid st"
    "\<forall>key. retrieve_added (global_added_by_nid ?s) key = retrieve_added (global_added_by_nid st) key"
    "\<forall>key. retrieve_added (global_added_by_data ?s) key = retrieve_added (global_added_by_data st) key"
    "\<forall>key. retrieve_added (global_added_by_short_name ?s) key = retrieve_added (global_added_by_short_name st) key"
    "\<forall>key. retrieve_added (global_added_by_long_name ?s) key = retrieve_added (global_added_by_long_name st) key"
    by blast+
  have a: "added_ok hash_nid cmp_nid n (global_added_by_nid ?s)" "added_ok hash_data cmp_data n (global_added_by_data ?s)"
    "added_ok hash_short_name cmp_short_name n (global_added_by_short_name ?s)"
    "added_ok hash_long_name cmp_long_name n (global_added_by_long_name ?s)"
    "\<forall>o' \<in># added_elems (global_added_by_nid ?s). int (NUM_NID k) \<le> obj_nid o' \<and> obj_nid o' < m"
    using o(1) unfolding registry_ok_def by blast+
  note r1 = insert_added [OF a(1) n i(1)] and r2 = insert_if [OF a(2) n i(2)]
    and r3 = insert_if [OF a(3) n i(3)] and r4 = insert_if [OF a(4) n i(4)]
  have e: "\<forall>o' \<in># added_elems t1. o' = ?o \<or> int (NUM_NID k) \<le> obj_nid o' \<and> obj_nid o' < m"
    using r1 a(5) by (auto dest: mset_subset_eqD)
  show thesis
  proof (rule that [OF ok])
    show "global_next_nid st' = global_next_nid st" using o(2) by (simp add: st')
    show "global_added_by_nid st' \<noteq> None" "added_ok hash_nid cmp_nid (n + 1) (global_added_by_nid st')"
      using r1 by (simp_all add: st')
    show "added_ok hash_data cmp_data (n + 1) (global_added_by_data st')"
      "added_ok hash_short_name cmp_short_name (n + 1) (global_added_by_short_name st')"
      "added_ok hash_long_name cmp_long_name (n + 1) (global_added_by_long_name st')"
      using r2 r3 r4 by (simp_all add: st')
    show "\<forall>o' \<in># added_elems (global_added_by_nid st'). o' = ?o \<or> int (NUM_NID k) \<le> obj_nid o' \<and> obj_nid o' < m"
      using e by (simp add: st')
    show "answers_after ok1 cmp_nid ?o (global_added_by_nid st) (global_added_by_nid st')"
      using r1 by (simp add: st' answers_after_eq [OF o(3), symmetric]) (simp add: answers_after_def)
    show "answers_after (obj_length obj \<noteq> 0 \<and> obj_data obj \<noteq> None \<and> ok2) cmp_data ?o (global_added_by_data st) (global_added_by_data st')"
      using r2 unfolding answers_after_eq [OF o(4), symmetric] by (simp add: st' answers_after_def)
    show "answers_after (obj_sn obj \<noteq> None \<and> ok3) cmp_short_name ?o (global_added_by_short_name st) (global_added_by_short_name st')"
      using r3 unfolding answers_after_eq [OF o(5), symmetric] by (simp add: st' answers_after_def)
    show "answers_after (obj_ln obj \<noteq> None \<and> ok4) cmp_long_name ?o (global_added_by_long_name st) (global_added_by_long_name st')"
      using r4 unfolding answers_after_eq [OF o(6), symmetric] by (simp add: st' answers_after_def)
  qed
qed

lemma sint_next: "sint (w :: u32) + 1 < 2 ^ 31 \<Longrightarrow> sint (w + 1) = sint w + 1"
  using sint_ge [of w] by (simp add: sint_word_ariths signed_take_bit_int_eq_self)
text \<open>Creating an object consumes the next NID.\<close>

lemma OBJ_create_Some:
  assumes "OBJ_create env envs oid sn ln st = Some (nid, st')" "length oid < 2 ^ 31" "nid \<noteq> NID_undef"
  obtains arcs obj where "oid_ok arcs" "oid = oid_text arcs" "nid = sint (global_next_nid st)" "obj_nid obj = nid"
    "obj_length obj = int (length (oid_bytes arcs))" "obj_bytes obj = oid_bytes arcs" "obj_data obj \<noteq> None"
    "str_at (obj_sn obj) = str_at sn" "obj_sn obj = None \<longleftrightarrow> sn = None"
    "str_at (obj_ln obj) = str_at ln" "obj_ln obj = None \<longleftrightarrow> ln = None"
    "obj_add_object envs obj (st\<lparr>global_next_nid := global_next_nid st + 1\<rparr>) = Some (True, st')"
proof -
  from assms(1,3) obtain obj st1 where c: "create_object_with_text_oid env (Some obj_next_nid) oid sn ln st = (Some obj, st1)"
    "obj_add_object envs obj st1 = Some (True, st')" "nid = obj_nid obj"
    by (auto simp: OBJ_create_def split: option.split_asm prod.split_asm if_split_asm)
  from create_object_Some [OF c(1) assms(2)] c show thesis
    by (auto simp: obj_next_nid_def intro: that)
qed

lemma OBJ_nid2obj_added:
  assumes "int (NUM_NID k) \<le> nid"
  shows "OBJ_nid2obj k st nid = retrieve_added (global_added_by_nid st) (blank_object\<lparr>obj_nid := nid\<rparr>)"
  using assms by (simp add: OBJ_nid2obj_def)

text \<open>One lemma for all that a successful creation establishes.\<close>

lemma OBJ_create_effect:
  assumes "obj_inv k st" "OBJ_create env envs oid sn ln st = Some (nid, st')" "nid \<noteq> NID_undef"
    and "length oid < 2 ^ 31" "sint (global_next_nid st) + 1 < 2 ^ 31"
  obtains arcs obj where "oid_ok arcs" "oid = oid_text arcs" "nid = sint (global_next_nid st)" "obj_nid obj = nid"
    "obj_length obj = int (length (oid_bytes arcs))" "obj_bytes obj = oid_bytes arcs"
    "str_at (obj_sn obj) = str_at sn" "obj_sn obj = None \<longleftrightarrow> sn = None"
    "str_at (obj_ln obj) = str_at ln" "obj_ln obj = None \<longleftrightarrow> ln = None" "obj_inv k st'"
    "answers_after True cmp_nid obj (global_added_by_nid st) (global_added_by_nid st')"
    "answers_after True cmp_data obj (global_added_by_data st) (global_added_by_data st')"
    "answers_after (sn \<noteq> None) cmp_short_name obj (global_added_by_short_name st) (global_added_by_short_name st')"
    "answers_after (ln \<noteq> None) cmp_long_name obj (global_added_by_long_name st) (global_added_by_long_name st')"
proof -
  define n where "n = nat (sint (global_next_nid st))"
  let ?st = "st\<lparr>global_next_nid := global_next_nid st + 1\<rparr>"
  obtain arcs obj where c: "oid_ok arcs" "oid = oid_text arcs" "nid = sint (global_next_nid st)" "obj_nid obj = nid"
    "obj_length obj = int (length (oid_bytes arcs))" "obj_bytes obj = oid_bytes arcs" "obj_data obj \<noteq> None"
    "str_at (obj_sn obj) = str_at sn" "obj_sn obj = None \<longleftrightarrow> sn = None"
    "str_at (obj_ln obj) = str_at ln" "obj_ln obj = None \<longleftrightarrow> ln = None"
    "obj_add_object envs obj ?st = Some (True, st')"
    by (rule OBJ_create_Some [OF assms(2,4,3)])
  have i: "0 < NUM_NID k" "int (NUM_NID k) \<le> sint (global_next_nid st)" "registry_ok k n (sint (global_next_nid st)) ?st"
    using assms(1) by (simp_all add: obj_inv_def registry_ok_def n_def)
  have b: "n + 1 < SIZE_MOD" using assms(5) by (simp add: n_def SIZE_MOD_def)
  have nxt: "sint (global_next_nid ?st) = sint (global_next_nid st) + 1" using sint_next [OF assms(5)] by simp
  have n1: "n + 1 = nat (sint (global_next_nid ?st))" using nxt i(1,2) by (simp add: n_def nat_add_distrib)
  have nz: "obj_length obj \<noteq> 0" using oid_bytes_not_Nil [OF c(1)] unfolding c(5) by simp
  show thesis
  proof (rule add_object [OF i(3) b c(12)])
    fix ok1 ok2 ok3 ok4
    assume ok: "True = (ok1 \<and> ok2 \<and> ok3 \<and> ok4)"
      and r: "global_next_nid st' = global_next_nid ?st" "global_added_by_nid st' \<noteq> None"
        "added_ok hash_nid cmp_nid (n + 1) (global_added_by_nid st')" "added_ok hash_data cmp_data (n + 1) (global_added_by_data st')"
        "added_ok hash_short_name cmp_short_name (n + 1) (global_added_by_short_name st')"
        "added_ok hash_long_name cmp_long_name (n + 1) (global_added_by_long_name st')"
        "\<forall>o' \<in># added_elems (global_added_by_nid st'). o' = static_copy obj \<or>
           int (NUM_NID k) \<le> obj_nid o' \<and> obj_nid o' < sint (global_next_nid st)"
      and a: "answers_after ok1 cmp_nid (static_copy obj) (global_added_by_nid ?st) (global_added_by_nid st')"
        "answers_after (obj_length obj \<noteq> 0 \<and> obj_data obj \<noteq> None \<and> ok2) cmp_data (static_copy obj) (global_added_by_data ?st) (global_added_by_data st')"
        "answers_after (obj_sn obj \<noteq> None \<and> ok3) cmp_short_name (static_copy obj) (global_added_by_short_name ?st) (global_added_by_short_name st')"
        "answers_after (obj_ln obj \<noteq> None \<and> ok4) cmp_long_name (static_copy obj) (global_added_by_long_name ?st) (global_added_by_long_name st')"
    have "registry_ok k (n + 1) (sint (global_next_nid st')) st'"
      using r nxt c(3,4) i(2) unfolding registry_ok_def by fastforce
    moreover have "n + 1 = nat (sint (global_next_nid st'))" using n1 r(1) by simp
    ultimately have inv: "obj_inv k st'" using i(1,2) nxt r(1) by (simp add: obj_inv_def)
    show thesis
      by (rule that [of arcs "static_copy obj"]) (use c inv a ok nz in simp_all)
  qed
qed

section \<open>Properties\<close>

text \<open>A small table: the undefined object, two names for one encoding, and an object without a name.\<close>

definition sample_tables :: obj_tables where
  "sample_tables =
     \<lparr>kObjects =
        [\<lparr>obj_sn = Some [85, 0], obj_ln = Some [117, 0], obj_nid = 0, obj_length = 0, obj_data = None, obj_flags = 0\<rparr>,
         \<lparr>obj_sn = Some [79, 0], obj_ln = Some [111, 0], obj_nid = 1, obj_length = 1, obj_data = Some [43], obj_flags = 0\<rparr>,
         \<lparr>obj_sn = Some [73, 0], obj_ln = Some [105, 0], obj_nid = 2, obj_length = 1, obj_data = Some [43], obj_flags = 0\<rparr>,
         \<lparr>obj_sn = None, obj_ln = None, obj_nid = 0, obj_length = 0, obj_data = None, obj_flags = 0\<rparr>],
      kNIDsInOIDOrder = [1, 2], kNIDsInShortNameOrder = [2, 1, 0], kNIDsInLongNameOrder = [2, 1, 0]\<rparr>"

lemma less_4: "n < 4 \<longleftrightarrow> n = 0 \<or> n = 1 \<or> n = 2 \<or> n = (3 :: nat)"
  by auto

lemma sample_tables_ok: "tables_ok sample_tables"
proof -
  have n: "NUM_NID sample_tables = 4" by (simp add: NUM_NID_def sample_tables_def)
  show ?thesis unfolding tables_ok_def listed_def n less_4
    by (auto simp: sample_tables_def sn_of_def ln_of_def str_at_def oid_rank_def obj_bytes_def)
qed

text \<open>With nothing added, a name and its NID determine each other: looking up a short name gives the NID of the
  object that has it, and the same for long names.\<close>

theorem static_names_and_nids:
  assumes "tables_ok k" "global_added_by_short_name st = None" "global_added_by_long_name st = None"
    and "0 < nid" "nid < int (NUM_NID k)"
  shows "(OBJ_sn2nid k st s = nid \<longleftrightarrow> OBJ_nid2sn k st nid \<noteq> None \<and> str_at (OBJ_nid2sn k st nid) = s) \<and>
    (OBJ_ln2nid k st s = nid \<longleftrightarrow> OBJ_nid2ln k st nid \<noteq> None \<and> str_at (OBJ_nid2ln k st nid) = s)"
  using OBJ_sn2nid_static [OF assms(1,2,4), of s] OBJ_ln2nid_static [OF assms(1,3,4), of s]
    OBJ_nid2sn_static [OF assms(1,4,5), of st] OBJ_nid2ln_static [OF assms(1,4,5), of st] assms(5)
  by (auto simp: sn_of_def ln_of_def)

theorem static_names_and_nids_witness: "OBJ_sn2nid sample_tables (initial_state sample_tables) [73] = 2"
proof -
  have n: "int (NUM_NID sample_tables) = 4" by (simp add: NUM_NID_def sample_tables_def)
  have "OBJ_nid2sn sample_tables (initial_state sample_tables) 2 = Some [73, 0]"
    unfolding OBJ_nid2sn_def OBJ_nid2obj_def n by (simp add: sample_tables_def NID_undef_def)
  then show ?thesis
    using static_names_and_nids [OF sample_tables_ok, of "initial_state sample_tables" 2 "[73]"] n
    by (simp add: initial_state_def str_at_def)
qed

text \<open>C31: an object that was created is found under all its names: its NID leads to the encoding and the names it was
  created with, and its encoding and its names lead back to the NID, which no object had before. The other NIDs
  still lead to the same objects.\<close>

theorem OBJ_create_registers:
  assumes "obj_inv k st" "OBJ_create env envs oid sn ln st = Some (nid, st')" "nid \<noteq> NID_undef"
    and "length oid < 2 ^ 30" "sint (global_next_nid st) + 1 < 2 ^ 31"
  shows "obj_inv k st' \<and> OBJ_nid2obj k st nid = None \<and>
    (\<exists>arcs obj. oid_ok arcs \<and> oid = oid_text arcs \<and> OBJ_nid2obj k st' nid = Some obj \<and> obj_bytes obj = oid_bytes arcs \<and>
      OBJ_cbs2nid k st' (oid_bytes arcs) = nid) \<and>
    str_at (OBJ_nid2sn k st' nid) = str_at sn \<and> (sn \<noteq> None \<longrightarrow> OBJ_sn2nid k st' (str_at sn) = nid) \<and>
    str_at (OBJ_nid2ln k st' nid) = str_at ln \<and> (ln \<noteq> None \<longrightarrow> OBJ_ln2nid k st' (str_at ln) = nid) \<and>
    (\<forall>m obj. OBJ_nid2obj k st m = Some obj \<longrightarrow> OBJ_nid2obj k st' m = Some obj)"
proof -
  have "length oid < 2 ^ 31" using assms(4) by simp
  from OBJ_create_effect [OF assms(1-3) this assms(5)] obtain arcs obj where
    o: "oid_ok arcs" "oid = oid_text arcs" "nid = sint (global_next_nid st)" "obj_nid obj = nid"
      "obj_length obj = int (length (oid_bytes arcs))" "obj_bytes obj = oid_bytes arcs"
      "str_at (obj_sn obj) = str_at sn" "str_at (obj_ln obj) = str_at ln" "obj_inv k st'"
    and a: "answers_after True cmp_nid obj (global_added_by_nid st) (global_added_by_nid st')"
      "answers_after True cmp_data obj (global_added_by_data st) (global_added_by_data st')"
      "answers_after (sn \<noteq> None) cmp_short_name obj (global_added_by_short_name st) (global_added_by_short_name st')"
      "answers_after (ln \<noteq> None) cmp_long_name obj (global_added_by_long_name st) (global_added_by_long_name st')"
    by metis
  have k: "int (NUM_NID k) \<le> nid" using assms(1) o(3) by (simp add: obj_inv_def)
  have found: "OBJ_nid2obj k st' nid = Some obj"
    using a(1) o(4) unfolding OBJ_nid2obj_added [OF k] answers_after_def by (simp add: cmp_nid_def)
  have fresh: "OBJ_nid2obj k st nid = None"
  proof (rule ccontr)
    assume "OBJ_nid2obj k st nid \<noteq> None"
    then obtain x where x: "retrieve_added (global_added_by_nid st) (blank_object\<lparr>obj_nid := nid\<rparr>) = Some x"
      unfolding OBJ_nid2obj_added [OF k] by blast
    have r: "registry_ok k (nat nid) nid st" using assms(1) o(3) by (simp add: obj_inv_def)
    then have "added_ok hash_nid cmp_nid (nat nid) (global_added_by_nid st)" by (simp add: registry_ok_def)
    from retrieve_added_elems [OF this x] r show False by (auto simp: registry_ok_def cmp_nid_def)
  qed
  have "OBJ_nid2obj k st' m = Some x" if "OBJ_nid2obj k st m = Some x" for m x
  proof (cases "0 \<le> m \<and> m < int (NUM_NID k)")
    case True
    with that show ?thesis by (simp add: OBJ_nid2obj_def)
  next
    case False
    moreover have "m \<noteq> nid" using that fresh by auto
    ultimately show ?thesis using that a(1) o(4) by (auto simp: OBJ_nid2obj_def answers_after_def cmp_nid_def)
  qed
  moreover have "OBJ_cbs2nid k st' (oid_bytes arcs) = nid"
  proof -
    have l: "length (oid_bytes arcs) \<le> INT_MAX" using length_oid_bytes [OF o(1)] assms(4) o(2) by (simp add: INT_MAX_def)
    let ?key = "blank_object\<lparr>obj_data := Some (oid_bytes arcs), obj_length := int (length (oid_bytes arcs))\<rparr>"
    have "cmp_data obj ?key = 0" using o(5,6) obj_bytes_of [of "oid_bytes arcs"] by (simp add: cmp_data_0_iff)
    then have "retrieve_added (global_added_by_data st') ?key = Some obj" using a(2) by (simp add: answers_after_def)
    with l o(4) show ?thesis by (simp add: OBJ_cbs2nid_def CBS_len_def CBS_data_def OBJ_obj2nid_def blank_object_def)
  qed
  moreover have z: "takeWhile (\<lambda>c. c \<noteq> 0) (str_at p @ [0]) = str_at p" for p
    by (subst takeWhile_append2) (auto simp: str_at_def dest: set_takeWhileD split: option.split_asm)
  have "OBJ_sn2nid k st' (str_at sn) = nid" if "sn \<noteq> None"
    using a(3) that o(4,7) by (simp add: OBJ_sn2nid_def answers_after_def cmp_short_name_def) (simp add: str_at_def [of "Some _"] z)
  moreover have "OBJ_ln2nid k st' (str_at ln) = nid" if "ln \<noteq> None"
    using a(4) that o(4,8) by (simp add: OBJ_ln2nid_def answers_after_def cmp_long_name_def) (simp add: str_at_def [of "Some _"] z)
  moreover have "str_at (OBJ_nid2sn k st' nid) = str_at sn" "str_at (OBJ_nid2ln k st' nid) = str_at ln"
    using found o(7,8) by (simp_all add: OBJ_nid2sn_def OBJ_nid2ln_def)
  ultimately show ?thesis using o fresh found by blast
qed

section \<open>Creating with and without memory\<close>

lemma malloc_ok: "(\<And>n. h_ok env n) \<Longrightarrow> n + 8 < SIZE_MOD \<Longrightarrow> OPENSSL_malloc env n \<noteq> None"
  by (simp add: OPENSSL_malloc_def size_add_no_wrap)

lemma dup_name_ok: "(\<And>n. h_ok env n) \<Longrightarrow> length (str_at p) + 9 < SIZE_MOD \<Longrightarrow> dup_name env p \<noteq> None"
  using malloc_ok [of env "length (str_at p) + 1"]
  by (auto simp: dup_name_def OPENSSL_strdup_def Let_def split: option.split)

lemma create_object_ok:
  assumes "\<And>n. h_ok env n" "oid_ok arcs" "length (oid_text arcs) < 2 ^ 31"
    and "length (str_at sn) < 2 ^ 60" "length (str_at ln) < 2 ^ 60"
  shows "fst (create_object_with_text_oid env get (oid_text arcs) sn ln st) \<noteq> None"
proof -
  have "init_ok env (2 ^ 60)" using assms(1) by (simp add: init_ok_def)
  from from_text_run_complete [OF assms(2) this, of 32] assms(3)
  have c: "cbb_run env 32 (\<lambda>env. CBB_add_asn1_oid_from_text env (oid_text arcs) (length (oid_text arcs))) = Some (oid_bytes arcs)"
    by simp
  have l: "length (oid_bytes arcs) < 2 ^ 31" using length_oid_bytes [OF assms(2)] assms(3) by simp
  then have "int32 (int (length (oid_bytes arcs))) = int (length (oid_bytes arcs))" by (intro int32_id) simp_all
  with l have "size_of_int (int32 (int (length (oid_bytes arcs)))) = length (oid_bytes arcs)" by (simp add: size_of_int_def SIZE_MOD_def)
  with l have "OPENSSL_malloc env (size_of_int (int32 (int (length (oid_bytes arcs))))) \<noteq> None"
    using malloc_ok [OF assms(1)] by (simp add: SIZE_MOD_def)
  moreover have "dup_name env sn \<noteq> None" "dup_name env ln \<noteq> None"
    using dup_name_ok [OF assms(1)] assms(4,5) by (simp_all add: SIZE_MOD_def)
  moreover have "OPENSSL_malloc env sizeof_ASN1_OBJECT \<noteq> None"
    using malloc_ok [OF assms(1)] by (simp add: sizeof_ASN1_OBJECT_def SIZE_MOD_def)
  ultimately show ?thesis
    unfolding create_object_with_text_oid_def c
    by (auto simp: ASN1_OBJECT_create_def OBJ_dup_def ASN1_OBJECT_new_def Let_def split: prod.split option.split)
qed

lemma insert_added_ok: "(\<And>n. h_ok env n) \<Longrightarrow> tab \<noteq> None \<Longrightarrow> \<exists>tab'. insert_added env obj tab = Some (True, tab')"
  using lh_insert_ok [of env _ obj] by (fastforce simp: insert_added_def split: prod.split)

lemma insert_if_ok: "(\<And>n. h_ok env n) \<Longrightarrow> tab \<noteq> None \<Longrightarrow> \<exists>tab'. insert_if b env obj tab = Some (True, tab')"
  using insert_added_ok [of env tab obj] by (simp add: insert_if_def)

text \<open>Either no table is open or all of them are.\<close>

definition all_open :: "obj_state \<Rightarrow> bool" where
  "all_open st \<longleftrightarrow> global_added_by_nid st = None \<or>
     global_added_by_data st \<noteq> None \<and> global_added_by_short_name st \<noteq> None \<and> global_added_by_long_name st \<noteq> None"

lemma add_object_ok:
  assumes "\<And>i n. h_ok (envs i) n" "all_open st"
  shows "\<exists>st'. obj_add_object envs obj st = Some (True, st')"
proof -
  have new: "OPENSSL_lh_new (envs i) hash cmp \<noteq> None" for i hash cmp
    using lh_new_ok [where env = "envs i" and hash = hash and cmp = cmp] assms(1) by fastforce
  let ?s = "open_tables envs st" and ?o = "static_copy obj"
  have o: "global_added_by_nid ?s \<noteq> None" "global_added_by_data ?s \<noteq> None" "global_added_by_short_name ?s \<noteq> None"
    "global_added_by_long_name ?s \<noteq> None"
    using assms(2) new by (auto simp: open_tables_def all_open_def)
  obtain t1 t2 t3 t4 where
    "insert_added (envs 4) ?o (global_added_by_nid ?s) = Some (True, t1)"
    "insert_if (obj_length obj \<noteq> 0 \<and> obj_data obj \<noteq> None) (envs 5) ?o (global_added_by_data ?s) = Some (True, t2)"
    "insert_if (obj_sn obj \<noteq> None) (envs 6) ?o (global_added_by_short_name ?s) = Some (True, t3)"
    "insert_if (obj_ln obj \<noteq> None) (envs 7) ?o (global_added_by_long_name ?s) = Some (True, t4)"
    using insert_added_ok [OF assms(1) o(1)] insert_if_ok [OF assms(1) o(2)] insert_if_ok [OF assms(1) o(3)]
      insert_if_ok [OF assms(1) o(4)] by meson
  then show ?thesis unfolding obj_add_object_def Let_def static_copy_def [symmetric] by simp
qed

text \<open>C32: with memory available every text of an object identifier can be registered, and the new object gets the next
  NID.\<close>

theorem OBJ_create_succeeds:
  assumes "\<And>n. h_ok env n" "\<And>i n. h_ok (envs i) n" "all_open st" "oid_ok arcs" "length (oid_text arcs) < 2 ^ 31"
    and "length (str_at sn) < 2 ^ 60" "length (str_at ln) < 2 ^ 60" "sint (global_next_nid st) \<noteq> NID_undef"
  shows "\<exists>st'. OBJ_create env envs (oid_text arcs) sn ln st = Some (sint (global_next_nid st), st')"
proof -
  obtain obj st1 where c: "create_object_with_text_oid env (Some obj_next_nid) (oid_text arcs) sn ln st = (Some obj, st1)"
    using create_object_ok [OF assms(1,4-7), of "Some obj_next_nid" st] by (metis option.exhaust prod.collapse)
  have "length (oid_text arcs) < 2 ^ 31" using assms(5) by simp
  from create_object_Some [OF c this] have o: "obj_nid obj = sint (global_next_nid st)"
    "st1 = st\<lparr>global_next_nid := global_next_nid st + 1\<rparr>" by (auto simp: obj_next_nid_def)
  have "all_open st1" using assms(3) o(2) by (simp add: all_open_def)
  with add_object_ok [where envs = envs, OF assms(2)] obtain st' where "obj_add_object envs obj st1 = Some (True, st')" by blast
  with c o(1) show ?thesis by (simp add: OBJ_create_def)
qed

theorem OBJ_create_succeeds_witness:
  "\<exists>st'. OBJ_create all_ok (\<lambda>i. all_ok) (oid_text rsadsi) (Some [82, 0]) None (initial_state sample_tables) = Some (4, st')"
proof -
  have n: "sint (global_next_nid (initial_state sample_tables)) = 4"
    by (simp add: initial_state_def NUM_NID_def sample_tables_def)
  show ?thesis
    using OBJ_create_succeeds [of all_ok "\<lambda>i. all_ok" "initial_state sample_tables" rsadsi "Some [82, 0]" None] n
    by (simp add: rsadsi all_open_def initial_state_def str_at_def NID_undef_def)
qed
theorem OBJ_create_registers_witness:
  "\<exists>st. OBJ_sn2nid sample_tables st [82] = 4 \<and> OBJ_cbs2nid sample_tables st [0x2a, 0x86, 0x48, 0x86, 0xf7, 0x0d] = 4"
proof -
  let ?st = "initial_state sample_tables"
  have k: "NUM_NID sample_tables = 4" by (simp add: NUM_NID_def sample_tables_def)
  have n: "sint (global_next_nid ?st) = 4" by (simp add: initial_state_def k)
  have inv: "obj_inv sample_tables ?st" by (rule initial_state_inv) (simp_all add: k)
  obtain obj st1 where c: "create_object_with_text_oid all_ok (Some obj_next_nid) (oid_text rsadsi) (Some [82, 0]) None ?st = (Some obj, st1)"
    using create_object_ok [of all_ok rsadsi "Some [82, 0]" None "Some obj_next_nid" ?st] by (simp add: rsadsi str_at_def) (metis prod.collapse)
  have "length (oid_text rsadsi) < 2 ^ 31" by (simp add: rsadsi)
  from create_object_Some [OF c this] have o: "obj_nid obj = 4"
    "st1 = ?st\<lparr>global_next_nid := global_next_nid ?st + 1\<rparr>" by (auto simp: obj_next_nid_def n)
  have "all_open st1" using o(2) by (simp add: all_open_def initial_state_def)
  with add_object_ok [where envs = "\<lambda>i. all_ok" and st = st1 and obj = obj] obtain st' where
    "obj_add_object (\<lambda>i. all_ok) obj st1 = Some (True, st')" by auto
  with c o(1) have r: "OBJ_create all_ok (\<lambda>i. all_ok) (oid_text rsadsi) (Some [82, 0]) None ?st = Some (4, st')"
    by (simp add: OBJ_create_def)
  have nz: "(4 :: int) \<noteq> NID_undef" "length (oid_text rsadsi) < 2 ^ 30" "sint (global_next_nid ?st) + 1 < 2 ^ 31"
    by (simp_all add: NID_undef_def rsadsi n)
  from OBJ_create_registers [OF inv r nz] obtain arcs where
    a: "oid_ok arcs" "oid_text rsadsi = oid_text arcs" "OBJ_cbs2nid sample_tables st' (oid_bytes arcs) = 4" by blast
  have s: "OBJ_sn2nid sample_tables st' [82] = 4"
    using OBJ_create_registers [OF inv r nz] by (simp add: str_at_def)
  have l: "length (oid_text rsadsi) \<le> 100" "length (oid_text arcs) \<le> 100" unfolding a(2) [symmetric] by (simp_all add: rsadsi)
  have "Some (oid_bytes arcs) = Some (oid_bytes rsadsi)"
    using from_text_run_complete [OF a(1) _ _ l(2), of all_ok 32] from_text_run_complete [OF rsadsi(1) _ _ l(1), of all_ok 32]
    unfolding a(2) by simp
  with a(3) s show ?thesis by (auto simp: rsadsi)
qed

text \<open>When the first table cannot be allocated, the creation of an object dereferences a null pointer (the result
  \<open>None\<close>) instead of returning the undefined NID.\<close>

theorem OBJ_create_out_of_memory:
  "OBJ_create all_ok (\<lambda>i. all_ok\<lparr>h_ok := \<lambda>n. False\<rparr>) (oid_text rsadsi) None None (initial_state k) = None"
proof -
  obtain obj st1 where c: "create_object_with_text_oid all_ok (Some obj_next_nid) (oid_text rsadsi) None None (initial_state k) = (Some obj, st1)"
    using create_object_ok [of all_ok rsadsi None None "Some obj_next_nid" "initial_state k"]
    by (simp add: rsadsi str_at_def) (metis prod.collapse)
  have "length (oid_text rsadsi) < 2 ^ 31" by (simp add: rsadsi)
  from create_object_Some [OF c this] have "global_added_by_nid st1 = None" by (auto simp: obj_next_nid_def initial_state_def)
  then have "obj_add_object (\<lambda>i. all_ok\<lparr>h_ok := \<lambda>n. False\<rparr>) obj st1 = None"
    by (simp add: obj_add_object_def open_tables_def OPENSSL_lh_new_def OPENSSL_malloc_def insert_added_def Let_def)
  with c show ?thesis by (simp add: OBJ_create_def)
qed

section \<open>Objects as text\<close>

lemma dec_no_zero: "c \<in> set (dec n) \<Longrightarrow> c \<noteq> 0"
proof (induction n rule: dec.induct)
  case (1 n)
  have digit: "word_of_nat (48 + d) \<noteq> (0 :: byte)" if "d < 10" for d
    using that unfolding word_of_nat_eq_0_iff by (auto dest!: dvd_imp_le)
  from 1 digit [of n] digit [of "n mod 10"] show ?case
    by (subst (asm) dec.simps) (auto split: if_split_asm)
qed

lemma join_dots_set: "c \<in> set (join_dots xs) \<Longrightarrow> c = 46 \<or> (\<exists>x \<in> set xs. c \<in> set x)"
  by (induction xs rule: join_dots.induct) auto

lemma oid_text_cstr: "is_cstr (oid_text arcs)"
  using join_dots_set dec_no_zero by (fastforce simp: is_cstr_def list_all_iff oid_text_def)

lemma str_at_cstr: "is_cstr s \<Longrightarrow> str_at (Some (s @ [0])) = s"
  unfolding str_at_def option.case by (subst takeWhile_append2) (auto simp: is_cstr_def list_all_iff)

text \<open>The text of an object that was read from a text is that text, cut to the buffer; the result is its whole length, and
  nothing is written past the buffer.\<close>

theorem OBJ_text_roundtrip:
  assumes "OBJ_txt2obj env k st t True = Some obj"
    and "length t < N" "32 \<le> N" "N < 2 ^ 31" "init_ok env' N" "0 < length out"
  shows "\<exists>out'. OBJ_obj2txt env' k st out (int (length out)) (Some obj) True = Some (out', int (length t)) \<and>
    length out' = length out \<and> takeWhile (\<lambda>c. c \<noteq> 0) out' = take (length out - 1) t"
proof -
  have l: "length t < 2 ^ 31" "length t \<le> INT_MAX" using assms(2,4) by (simp_all add: INT_MAX_def)
  obtain st' where "create_object_with_text_oid env None t None None st = (Some obj, st')"
    using assms(1) by (cases "create_object_with_text_oid env None t None None st") (simp add: OBJ_txt2obj_def)
  from create_object_Some [OF this l(1)] obtain arcs where arcs: "oid_ok arcs" "t = oid_text arcs" "obj_bytes obj = oid_bytes arcs"
    "obj_length obj = int (length (oid_bytes arcs))" by blast
  have nz: "obj_length obj \<noteq> 0" using oid_bytes_not_Nil [OF arcs(1)] unfolding arcs(4) by simp
  have "CBS_asn1_oid_to_text env' (oid_bytes arcs) = Some (t @ [0])"
    using oid_to_text_complete [OF arcs(1) assms(5,3)] assms(2) arcs(2) by simp
  then have "OBJ_obj2txt env' k st out (int (length out)) (Some obj) True = strlcpy_int out t (int (length out))"
    using nz arcs str_at_cstr [OF oid_text_cstr [of arcs]] by (simp add: OBJ_obj2txt_def CBS_init_def)
  moreover have "is_cstr t" using oid_text_cstr arcs(2) by simp
  then obtain d where "OPENSSL_strlcpy out t (length out) = Some (d, length t)" "length d = length out"
    "if length out = 0 then d = out else takeWhile (\<lambda>c. c \<noteq> 0) d = take (length out - 1) t"
    using strlcpy_bounds [OF _ order.refl] by metis
  ultimately show ?thesis using l(2) assms(6) by (simp add: strlcpy_int_def)
qed

theorem OBJ_text_roundtrip_witness:
  "\<exists>obj. OBJ_txt2obj all_ok sample_tables (initial_state sample_tables) (oid_text rsadsi) True = Some obj \<and>
     map_option snd (OBJ_obj2txt all_ok sample_tables (initial_state sample_tables) [9, 9, 9] (int (length [9, 9, 9 :: byte]))
       (Some obj) True) = Some 14"
proof -
  obtain obj where o: "OBJ_txt2obj all_ok sample_tables (initial_state sample_tables) (oid_text rsadsi) True = Some obj"
    using create_object_ok [of all_ok rsadsi None None None "initial_state sample_tables"] by (auto simp: OBJ_txt2obj_def rsadsi str_at_def)
  have l: "length (oid_text rsadsi) < 100" "length (oid_text rsadsi) = 14" by (simp_all add: rsadsi)
  from OBJ_text_roundtrip [OF o l(1), of all_ok "[9, 9, 9]"] o l(2) show ?thesis by (auto simp: init_ok_def)
qed

section \<open>Reading objects from their contents\<close>

text \<open>A contents string is accepted when it is not empty, its last octet ends a component and no component starts with the
  octet \<open>0x80\<close>. The object that is returned holds it, whether its memory is new or reused.\<close>

lemma c2i_ASN1_OBJECT_Some:
  assumes "c2i_ASN1_OBJECT env a inp len = (Some obj, a', rest)" "nat len \<le> length inp"
    and reused: "\<And>o'. a = Some (Some o') \<Longrightarrow> obj_length o' = int (length (the (obj_data o')))"
  shows "0 < len \<and> \<not> leading_80 None (take (nat len) inp) \<and> inp ! (nat len - 1) AND 0x80 = 0 \<and>
    obj_length obj = len \<and> obj_bytes obj = take (nat len) inp \<and> rest = drop (nat len) inp \<and>
    obj_sn obj = None \<and> obj_ln obj = None \<and> a' = map_option (\<lambda>_. Some obj) a"
proof -
  have c: "0 < len" "len \<le> int INT_MAX" "inp ! (nat len - 1) AND 0x80 = 0" "\<not> leading_80 None (take (nat len) inp)"
    using assms(1) by (auto simp: c2i_ASN1_OBJECT_def split: if_split_asm)
  define reuse where "reuse = (case a of
      Some (Some obj) \<Rightarrow> if obj_flags obj AND ASN1_OBJECT_FLAG_DYNAMIC \<noteq> 0 then Some obj else None | _ \<Rightarrow> None)"
  obtain ret where ret: "(case reuse of Some obj \<Rightarrow> Some obj | None \<Rightarrow> ASN1_OBJECT_new env) = Some ret"
    using assms(1) c unfolding c2i_ASN1_OBJECT_def reuse_def [symmetric]
    by (cases "case reuse of Some obj \<Rightarrow> Some obj | None \<Rightarrow> ASN1_OBJECT_new env") (simp_all add: Let_def)
  define fresh where "fresh = (obj_data ret = None \<or> obj_length ret < len)"
  from assms(1) c ret obtain data where
    d: "(if fresh then OPENSSL_malloc env (nat len) else obj_data ret) = Some data"
    and r: "obj_length obj = len" "obj_data obj = Some (mem_write 0 (take (nat len) inp) data)" "obj_sn obj = None" "obj_ln obj = None"
      "a' = map_option (\<lambda>_. Some obj) a" "rest = drop (nat len) inp"
    unfolding c2i_ASN1_OBJECT_def reuse_def [symmetric]
    by (cases "if fresh then OPENSSL_malloc env (nat len) else obj_data ret") (auto simp: Let_def fresh_def)
  have "nat len \<le> length data"
  proof (cases fresh)
    case True
    with d OPENSSL_malloc_length show ?thesis by fastforce
  next
    case False
    then have "reuse = Some ret"
      using ret by (cases reuse) (auto simp: fresh_def ASN1_OBJECT_new_def split: option.split_asm)
    then have "a = Some (Some ret)" by (auto simp: reuse_def split: option.split_asm if_split_asm)
    from reused [OF this] have "obj_length ret = int (length (the (obj_data ret)))" .
    moreover have "obj_data ret = Some data" using False d by simp
    moreover have "len \<le> obj_length ret" using False by (simp add: fresh_def)
    ultimately show ?thesis by simp
  qed
  with r(1,2) assms(2) have "obj_bytes obj = take (nat len) inp"
    by (intro nth_equalityI) (auto simp: obj_bytes_def Let_def mem_write_def nth_append)
  with c r show ?thesis by simp
qed


text \<open>Reusing an object keeps its old NID, so that the object read from the contents \<open>2a\<close> still answers the NID \<open>4\<close>.\<close>

theorem c2i_keeps_nid:
  "\<exists>obj. c2i_ASN1_OBJECT all_ok (Some (Some (blank_object\<lparr>obj_nid := 4, obj_flags := ASN1_OBJECT_FLAG_DYNAMIC\<rparr>))) [0x2a] 1 =
      (Some obj, Some (Some obj), []) \<and> obj_bytes obj = [0x2a] \<and> OBJ_obj2nid k st (Some obj) = 4"
  by (simp add: c2i_ASN1_OBJECT_def blank_object_def INT_MAX_def OPENSSL_malloc_def size_add_def SIZE_MOD_def Let_def
      OBJ_obj2nid_def ASN1_OBJECT_FLAG_DYNAMIC_def obj_bytes_def mem_write_def)

end
