(* ===== verification/Asn1_Header.thy ===== *)
theory Asn1_Header
  imports Der
begin

text \<open>
  Headers of ASN.1 elements in the older interface of \<^verbatim>\<open>crypto/asn1/asn1_lib.c\<close>: \<^verbatim>\<open>ASN1_get_object\<close> reads one,
  \<^verbatim>\<open>ASN1_put_object\<close> writes one and \<^verbatim>\<open>ASN1_object_size\<close> tells how long it will be. An \<^verbatim>\<open>int\<close> or \<^verbatim>\<open>long\<close> of the code is an
  integer here; the bounds of the code keep every value in range. The writers are compared with the DER encoding
  of the theory \<open>Der\<close>, and through it with the byte-string reader.
\<close>

section \<open>Headers\<close>

definition V_ASN1_CONSTRUCTED :: int where "V_ASN1_CONSTRUCTED = 0x20"
definition V_ASN1_PRIMITIVE_TAG :: int where "V_ASN1_PRIMITIVE_TAG = 0x1f"
definition V_ASN1_PRIVATE :: int where "V_ASN1_PRIVATE = 0xc0"
definition V_ASN1_UNIVERSAL :: int where "V_ASN1_UNIVERSAL = 0"
definition V_ASN1_MAX_UNIVERSAL :: int where "V_ASN1_MAX_UNIVERSAL = 0xff"

text \<open>The loop over the octets of a high tag number: \<open>l\<close> is the number so far and \<open>room\<close> (\<^verbatim>\<open>max\<close>) the octets that are left. The
  result is the number, what is left and the rest of the input. The number stays below \<open>INT_MAX\<close>, so that \<^verbatim>\<open>long\<close> does not
  overflow.\<close>

fun get_tag_loop :: "int \<Rightarrow> int \<Rightarrow> byte list \<Rightarrow> (int \<times> int \<times> byte list) option" where
  "get_tag_loop l room [] = None"
| "get_tag_loop l room (b # p) =
     (let l = push_bit 7 l OR uint (b AND 0x7f); room = room - 1 in
      if b AND 0x80 \<noteq> 0 then
        (if room = 0 then None
         else if l > drop_bit 7 (int INT_MAX) then None
         else get_tag_loop l room p)
      else if room = 0 then None
      else Some (l, room, p))"

text \<open>\<^verbatim>\<open>asn1_get_length\<close>: the length and the rest of the input. The loop over the octets is the one of \<^verbatim>\<open>cbs_get_u\<close>.\<close>

definition asn1_get_length :: "byte list \<Rightarrow> int \<Rightarrow> (int \<times> byte list) option" where
  "asn1_get_length p room =
     (if room < 1 then None
      else case p of
        [] \<Rightarrow> None
      | b # p \<Rightarrow>
        let room = room - 1 in
        if b = 0x80 then None
        else
          let i = unat (b AND 0x7f) in
          if b AND 0x80 \<noteq> 0 then
            (if i > 8 \<or> room < int i then None
             else
               let ret = cbs_get_u_loop 0 (take i p) in
               if unat ret > INT_MAX div 2 then None else Some (int (unat ret), drop i p))
          else Some (int i, p))"

text \<open>The result of \<^verbatim>\<open>ASN1_get_object\<close> on success: \<open>hd_ret\<close> is the return value, which holds the bit that marks a constructed
  element, then \<^verbatim>\<open>*plength\<close>, \<^verbatim>\<open>*ptag\<close>, \<^verbatim>\<open>*pclass\<close>, and the input from the new \<^verbatim>\<open>*pp\<close> on. On failure, where the return value
  is \<^verbatim>\<open>0x80\<close>, it is the reason; what the outputs hold then is not modelled. The input is the memory from \<^verbatim>\<open>*pp\<close> on,
  and \<open>omax\<close> tells how much of it belongs to the element's container.\<close>

datatype header_error = ASN1_R_HEADER_TOO_LONG | ASN1_R_TOO_LONG

record asn1_hd =
  hd_ret :: int
  hd_length :: int
  hd_tag :: int
  hd_class :: int
  hd_rest :: "byte list"

definition ASN1_get_object :: "byte list \<Rightarrow> int \<Rightarrow> header_error + asn1_hd" where
  "ASN1_get_object pp omax =
     (if omax = 0 then Inl ASN1_R_HEADER_TOO_LONG
      else case pp of
        [] \<Rightarrow> Inl ASN1_R_HEADER_TOO_LONG
      | b # p \<Rightarrow>
        let ret = uint b AND V_ASN1_CONSTRUCTED;
            xclass = uint b AND V_ASN1_PRIVATE;
            i = uint b AND V_ASN1_PRIMITIVE_TAG;
            room = omax - 1 in
        if room = 0 then Inl ASN1_R_HEADER_TOO_LONG
        else
          (case (if i = V_ASN1_PRIMITIVE_TAG then get_tag_loop 0 room p else Some (i, room, p)) of
             None \<Rightarrow> Inl ASN1_R_HEADER_TOO_LONG
           | Some (tag, room, p) \<Rightarrow>
             if xclass = V_ASN1_UNIVERSAL \<and> tag > V_ASN1_MAX_UNIVERSAL then Inl ASN1_R_HEADER_TOO_LONG
             else
               (case asn1_get_length p room of
                  None \<Rightarrow> Inl ASN1_R_HEADER_TOO_LONG
                | Some (len, p) \<Rightarrow>
                  if len > omax - int (length pp - length p) then Inl ASN1_R_TOO_LONG
                  else Inr \<lparr>hd_ret = ret, hd_length = len, hd_tag = tag, hd_class = xclass, hd_rest = p\<rparr>)))"

text \<open>Writing a header. \<open>octets k n\<close> counts how often \<open>n\<close> has to be shifted right by \<open>k\<close> until it is zero. The two loops
  store the digits from the last to the first into the \<open>i\<close> bytes that have been counted.\<close>

function octets :: "nat \<Rightarrow> nat \<Rightarrow> nat" where
  "octets k n = (if n > 0 \<and> k > 0 then octets k (drop_bit k n) + 1 else 0)"
  by pat_completeness auto
termination
  by (relation "measure snd") (auto simp: drop_bit_eq_div intro!: div_less_dividend one_less_power)

declare octets.simps [simp del]

fun put_tag_loop :: "nat \<Rightarrow> nat \<Rightarrow> nat \<Rightarrow> byte list \<Rightarrow> byte list" where
  "put_tag_loop ttag 0 tag p = p"
| "put_tag_loop ttag (Suc i) tag p =
     (let b = word_of_nat (tag AND 0x7f) in
      put_tag_loop ttag i (drop_bit 7 tag) (p[i := (if i \<noteq> ttag - 1 then b OR 0x80 else b)]))"

fun put_length_loop :: "nat \<Rightarrow> nat \<Rightarrow> byte list \<Rightarrow> byte list" where
  "put_length_loop 0 len p = p"
| "put_length_loop (Suc i) len p = put_length_loop i (drop_bit 8 len) (p[i := word_of_nat (len AND 0xff)])"

text \<open>The result of the writers is the bytes they store from \<^verbatim>\<open>*pp\<close> on; the pointer moves past them.\<close>

definition asn1_put_length :: "int \<Rightarrow> byte list" where
  "asn1_put_length len =
     (if len \<le> 127 then [word_of_int len]
      else
        let l = octets 8 (nat len) in
        word_of_nat (l OR 0x80) # put_length_loop l (nat len) (replicate l 0))"

definition ASN1_put_object :: "int \<Rightarrow> int \<Rightarrow> int \<Rightarrow> int \<Rightarrow> byte list" where
  "ASN1_put_object constructed len tag xclass =
     (let i = (if constructed \<noteq> 0 then V_ASN1_CONSTRUCTED else 0) OR (xclass AND V_ASN1_PRIVATE) in
      (if tag < 31 then [word_of_int (i OR (tag AND V_ASN1_PRIMITIVE_TAG))]
       else
         let ttag = octets 7 (nat tag) in
         word_of_int (i OR V_ASN1_PRIMITIVE_TAG) # put_tag_loop ttag ttag (nat tag) (replicate ttag 0)) @
      (if constructed = 2 then [0x80] else asn1_put_length len))"

definition ASN1_put_eoc :: "byte list" where
  "ASN1_put_eoc = [0, 0]"

definition ASN1_object_size :: "int \<Rightarrow> int \<Rightarrow> int \<Rightarrow> int" where
  "ASN1_object_size constructed len tag =
     (if len < 0 then - 1
      else
        let ret = 1;
            ret = (if tag \<ge> 31 then ret + int (octets 7 (nat tag)) else ret);
            ret = (if constructed = 2 then ret + 3
                   else if len > 127 then ret + 1 + int (octets 8 (nat len))
                   else ret + 1) in
        if ret \<ge> int INT_MAX - len then - 1 else ret + len)"

section \<open>Bits of header octets\<close>

lemma int_push_or: "0 \<le> d \<Longrightarrow> d < 2 ^ k \<Longrightarrow> push_bit k x OR d = x * 2 ^ k + (d :: int)"
proof -
  assume d: "0 \<le> d" "d < 2 ^ k"
  have "push_bit k x AND d = 0"
  proof (rule bit_eqI)
    fix n
    have "\<not> bit d n" if "k \<le> n"
      using d that by (metis bit_take_bit_iff linorder_not_less take_bit_int_eq_self_iff)
    then show "bit (push_bit k x AND d) n = bit 0 n" by (auto simp: bit_simps)
  qed
  then have "push_bit k x OR d = push_bit k x + d" by (simp add: disjunctive_add_eq_or)
  then show ?thesis by (simp add: push_bit_eq_mult)
qed

lemma byte_or_0x80: "d < 128 \<Longrightarrow> word_of_nat d OR (0x80 :: byte) = word_of_nat (128 + d)"
proof -
  assume d: "d < 128"
  have u: "unat (word_of_nat d :: byte) < 2 ^ 7" using d by (simp add: unat_word_of_nat_byte)
  have "(0x80 :: byte) OR word_of_nat d = 0x80 + word_of_nat d"
    using push_or_eq_add [OF u, of 1] by (simp add: push_bit_eq_mult)
  then show ?thesis by (simp add: or.commute)
qed

lemma nat_and_masks: "(n :: nat) AND 0x7f = n mod 128" "(n :: nat) AND 0xff = n mod 256"
proof -
  have "n AND mask 7 = n mod 2 ^ 7" "n AND mask 8 = n mod 2 ^ 8"
    by (simp_all only: take_bit_eq_mask [symmetric] take_bit_eq_mod)
  then show "n AND 0x7f = n mod 128" "n AND 0xff = n mod 256" by (simp_all add: mask_eq_exp_minus_1)
qed

lemma uint_numeral_byte: "uint (0x1f :: byte) = 0x1f" "uint (0x20 :: byte) = 0x20" "uint (0xc0 :: byte) = 0xc0"
  by simp_all

lemma uint_and_unat: "uint (b :: byte) AND uint c = int (unat (b AND c))"
  by (subst uint_and [symmetric]) (rule uint_nat)

lemma unat_and_0xc0: "unat (b AND 0xc0) = 64 * (unat (b::byte) div 64)"
proof -
  have m: "(0xc0 :: byte) = NOT (mask 6)" by (simp add: mask_eq_exp_minus_1)
  show ?thesis unfolding m unat_and_not_mask by simp
qed
lemma unat_and_0x20: "unat (b AND 0x20) = 32 * (unat (b::byte) div 32 mod 2)"
proof -
  have m: "(0x20 :: byte) = mask 6 AND NOT (mask 5)" by (simp add: mask_eq_exp_minus_1)
  have "unat (b AND 0x20) = unat ((b AND mask 6) AND NOT (mask 5))" unfolding m by (simp only: and.assoc)
  also have "\<dots> = unat b mod 64 div 32 * 32" unfolding unat_and_not_mask unat_and_mask_eq by simp
  also have "unat b mod 64 = 32 * (unat b div 32 mod 2) + unat b mod 32"
    using mod_mult2_eq [of "unat b" 32 2] by simp
  finally show ?thesis by simp
qed

lemma uint_and_byte:
  fixes b :: byte
  shows "uint b AND 0x1f = int (unat b mod 32)" "uint b AND 0x20 = int (32 * (unat b div 32 mod 2))"
    "uint b AND 0xc0 = int (64 * (unat b div 64))" "uint (b AND 0x7f) = int (unat b mod 128)"
proof -
  show "uint b AND 0x1f = int (unat b mod 32)" "uint b AND 0x20 = int (32 * (unat b div 32 mod 2))"
    "uint b AND 0xc0 = int (64 * (unat b div 64))"
    unfolding uint_numeral_byte [symmetric] uint_and_unat unat_and_byte unat_and_0x20 unat_and_0xc0 by (rule refl)+
  show "uint (b AND 0x7f) = int (unat b mod 128)" unfolding unat_and_byte [symmetric] by simp
qed

section \<open>What is written\<close>

lemma octets_0 [simp]: "octets k 0 = 0"
  by (simp add: octets.simps)

lemma octets_step: "0 < n \<Longrightarrow> 0 < k \<Longrightarrow> octets k n = Suc (octets k (n div 2 ^ k))"
  by (subst octets.simps) (simp add: drop_bit_eq_div)

lemma octets_eq:
  assumes "0 < k" "n < 2 ^ (k * m)" "m = 0 \<or> 2 ^ (k * (m - 1)) \<le> n"
  shows "octets k n = m"
  using assms(2,3)
proof (induction m arbitrary: n)
  case (Suc m)
  have n: "0 < n" using Suc.prems(2) by (cases n) auto
  have "n div 2 ^ k < 2 ^ (k * m)"
    using Suc.prems(1) by (simp add: less_mult_imp_div_less power_add mult.commute)
  moreover have "m = 0 \<or> 2 ^ (k * (m - 1)) \<le> n div 2 ^ k"
  proof (cases m)
    case (Suc j)
    then have "2 ^ (k * j) * 2 ^ k \<le> n" using Suc.prems(2) by (simp add: power_add mult.commute)
    then show ?thesis using Suc by (simp add: less_eq_div_iff_mult_less_eq)
  qed simp
  ultimately have "octets k (n div 2 ^ k) = m" by (rule Suc.IH)
  then show ?case using octets_step [OF n assms(1)] by simp
qed simp

lemma put_tag_loop_cont:
  "octets 7 v = i \<Longrightarrow> i < n \<Longrightarrow> length p = i \<Longrightarrow> put_tag_loop n i v (p @ q) = base128_cont v @ q"
proof (induction i arbitrary: v p q)
  case 0
  then have "v = 0" by (cases "v = 0") (simp_all add: octets_step)
  then show ?case using 0 by simp
next
  case (Suc i)
  have v: "0 < v" using Suc.prems(1) by (cases v) auto
  then have o: "octets 7 (v div 128) = i" using Suc.prems(1) by (simp add: octets_step)
  obtain p' b where p: "p = p' @ [b]" "length p' = i" using Suc.prems(3) by (metis length_Suc_conv_rev)
  have "put_tag_loop n (Suc i) v (p @ q) = put_tag_loop n i (v div 128) (p' @ word_of_nat (128 + v mod 128) # q)"
    using Suc.prems(2) p
    by (simp add: Let_def nat_and_masks byte_or_0x80 drop_bit_eq_div list_update_append)
  also have "\<dots> = base128_cont (v div 128) @ word_of_nat (128 + v mod 128) # q"
    by (rule Suc.IH) (use o Suc.prems(2) p in simp_all)
  also have "\<dots> = base128_cont v @ q" using v by (subst (2) base128_cont.simps) simp
  finally show ?case .
qed

lemma put_tag_loop_base128:
  assumes "0 < v"
  shows "put_tag_loop (octets 7 v) (octets 7 v) v (replicate (octets 7 v) 0) = base128 v"
proof -
  obtain i where i: "octets 7 v = Suc i" "octets 7 (v div 128) = i"
    using assms by (simp add: octets_step)
  have "put_tag_loop (Suc i) (Suc i) v (replicate (Suc i) 0) =
      put_tag_loop (Suc i) i (v div 128) (replicate i 0 @ [word_of_nat (v mod 128)])"
  proof -
    have "replicate (Suc i) (0 :: byte) = replicate i 0 @ [0]" by (simp add: replicate_append_same)
    then show ?thesis by (simp only: put_tag_loop.simps Let_def) (simp add: nat_and_masks drop_bit_eq_div list_update_append)
  qed
  also have "\<dots> = base128_cont (v div 128) @ [word_of_nat (v mod 128)]"
    by (rule put_tag_loop_cont) (use i in simp_all)
  finally show ?thesis using i(1) by (simp add: base128_def)
qed

lemma put_length_loop_be:
  "length p = i \<Longrightarrow> put_length_loop i n (p @ q) = be_bytes i n @ q"
proof (induction i arbitrary: n p q)
  case (Suc i)
  obtain p' b where p: "p = p' @ [b]" "length p' = i" using Suc.prems by (metis length_Suc_conv_rev)
  have "put_length_loop (Suc i) n (p @ q) = put_length_loop i (n div 256) (p' @ word_of_nat (n mod 256) # q)"
    using p by (simp add: nat_and_masks drop_bit_eq_div list_update_append)
  also have "\<dots> = be_bytes i (n div 256) @ word_of_nat (n mod 256) # q" by (rule Suc.IH) (use p in simp)
  also have "(word_of_nat (n mod 256) :: byte) = word_of_nat n"
    by (rule word_unat_eq_iff [THEN iffD2]) (simp add: unat_word_of_nat_byte)
  finally show ?case by simp
qed simp

lemma octets_long_form: "long_form k n \<Longrightarrow> octets 8 n = k"
  by (rule octets_eq) (auto simp: long_form_def power_mult)

lemma asn1_put_length_der:
  assumes "0 \<le> n" "n \<le> int INT_MAX"
  shows "asn1_put_length n = der_len (nat n)"
proof (cases "n \<le> 127")
  case True
  then have "(word_of_int n :: byte) = word_of_nat (nat n)" using assms by simp
  then show ?thesis using True assms by (simp add: asn1_put_length_def der_len_short)
next
  case False
  then have "128 \<le> nat n" "nat n < 2 ^ 32" using assms by (simp_all add: INT_MAX_def)
  then obtain k where k: "long_form k (nat n)" by (rule long_form_exists)
  then have "k \<in> {1, 2, 3, 4}" by (simp add: long_form_def)
  then have "(word_of_nat (k OR 0x80) :: byte) = word_of_nat (128 + k)" by auto
  then show ?thesis
    using False k put_length_loop_be [of "replicate k 0" k "nat n" "[]"]
    by (simp add: asn1_put_length_def octets_long_form [OF k] long_form_der_len [OF k])
qed

text \<open>The octets of a tag, from its class and the bit for constructed elements (together \<open>cc\<close>, below 8) and its number; \<^term>\<open>der_tag\<close>
  is the same function of the tags of the byte-string readers.\<close>

definition hd_bytes :: "nat \<Rightarrow> nat \<Rightarrow> byte list" where
  "hd_bytes cc tag = (if tag < 31 then [word_of_nat (32 * cc + tag)] else word_of_nat (32 * cc + 31) # base128 tag)"

lemma der_tag_hd_bytes: "der_tag t = hd_bytes (unat t div 2 ^ 29) (unat t mod 2 ^ 29)"
  by (simp add: der_tag_def hd_bytes_def Let_def)

text \<open>The identifier bits of a class, given as the four values of the code, and of the constructed bit.\<close>

definition class_bits :: "int \<Rightarrow> int \<Rightarrow> nat" where
  "class_bits constructed xclass = nat xclass div 32 + (if constructed \<noteq> 0 then 1 else 0)"

definition classes :: "int set" where "classes = {0, 0x40, 0x80, 0xc0}"

lemma class_bits_less: "xclass \<in> classes \<Longrightarrow> class_bits c xclass < 8"
  by (auto simp: class_bits_def classes_def)

lemma identifier_bits:
  assumes "xclass \<in> classes"
  shows "(if c \<noteq> 0 then V_ASN1_CONSTRUCTED else 0) OR (xclass AND V_ASN1_PRIVATE) = push_bit 5 (int (class_bits c xclass))"
  using assms
  by (auto simp: classes_def class_bits_def V_ASN1_CONSTRUCTED_def V_ASN1_PRIVATE_def push_bit_eq_mult)

lemma word_of_int_header: "0 \<le> t \<Longrightarrow> (word_of_int (int cc * 2 ^ 5 + t) :: byte) = word_of_nat (32 * cc + nat t)"
  by (simp add: mult.commute)

lemma ASN1_put_object_eq:
  assumes "xclass \<in> classes" "0 \<le> tag" "0 \<le> len" "len \<le> int INT_MAX"
  shows "ASN1_put_object c len tag xclass =
    hd_bytes (class_bits c xclass) (nat tag) @ (if c = 2 then [0x80] else der_len (nat len))"
proof -
  have t: "push_bit 5 (int cc) OR d = int cc * 2 ^ 5 + d" if "0 \<le> d" "d < 32" for cc d
    using int_push_or [of d 5 "int cc"] that by simp
  have "tag AND V_ASN1_PRIMITIVE_TAG = tag" if "tag < 31"
  proof -
    have "tag AND mask 5 = tag mod 2 ^ 5" by (simp only: take_bit_eq_mask [symmetric] take_bit_eq_mod)
    then show ?thesis using that assms(2) by (simp add: V_ASN1_PRIMITIVE_TAG_def mask_eq_exp_minus_1)
  qed
  moreover have "0 < nat tag" if "\<not> tag < 31" using that by simp
  ultimately show ?thesis
    using assms(2-4)
    by (auto simp: ASN1_put_object_def identifier_bits [OF assms(1)] hd_bytes_def Let_def t word_of_int_header
        asn1_put_length_der put_tag_loop_base128 V_ASN1_PRIMITIVE_TAG_def)
qed

section \<open>What is read\<close>

lemma int_digit: "push_bit 7 (int x) OR int (d mod 128) = int (x * 128 + d mod 128)"
  using int_push_or [of "int (d mod 128)" 7 "int x"] by simp

lemma get_tag_loop_Cons:
  "get_tag_loop (int x) room (b # p) =
     (let l = x * 128 + unat b mod 128 in
      if room - 1 = 0 then None
      else if 128 \<le> unat b then
        (if l > INT_MAX div 128 then None else get_tag_loop (int l) (room - 1) p)
      else Some (int l, room - 1, p))"
proof -
  have "drop_bit 7 (int INT_MAX) = int (INT_MAX div 128)" by (simp add: INT_MAX_def drop_bit_eq_div)
  then show ?thesis by (auto simp: get_tag_loop.simps Let_def uint_and_byte int_digit high_bit_iff)
qed

declare get_tag_loop.simps(2) [simp del]

lemma get_tag_loop_cont:
  "v \<le> INT_MAX div 128 \<Longrightarrow> int (length (base128_cont v)) < room \<Longrightarrow>
   get_tag_loop 0 room (base128_cont v @ p) = get_tag_loop (int v) (room - int (length (base128_cont v))) p"
proof (induction v arbitrary: p rule: base128_cont.induct)
  case (1 v)
  show ?case
  proof (cases "v = 0")
    case False
    define b :: byte where "b = word_of_nat (128 + v mod 128)"
    define k where "k = length (base128_cont (v div 128))"
    have b: "unat b = 128 + v mod 128" unfolding b_def by (rule unat_word_of_nat_lt) simp
    have c: "base128_cont v = base128_cont (v div 128) @ [b]"
      using False by (subst base128_cont.simps) (simp add: b_def)
    have room: "int k + 1 < room" using "1.prems"(2) by (simp add: c k_def)
    have "v div 128 \<le> INT_MAX div 128" using "1.prems"(1) by (simp add: INT_MAX_def)
    then have "get_tag_loop 0 room (base128_cont (v div 128) @ b # p) = get_tag_loop (int (v div 128)) (room - int k) (b # p)"
      using "1.IH" [OF False, of "b # p"] room by (simp add: k_def)
    also have "\<dots> = get_tag_loop (int v) (room - int k - 1) p"
      using room "1.prems"(1) by (simp add: get_tag_loop_Cons b Let_def)
    finally show ?thesis by (simp add: c k_def algebra_simps)
  qed simp
qed

lemma get_tag_loop_base128:
  assumes "v \<le> INT_MAX" "int (length (base128 v)) < room"
  shows "get_tag_loop 0 room (base128 v @ p) = Some (int v, room - int (length (base128 v)), p)"
proof -
  have "v div 128 \<le> INT_MAX div 128" using assms(1) by (rule div_le_mono)
  moreover have "unat (word_of_nat (v mod 128) :: byte) = v mod 128" by (rule unat_word_of_nat_lt) (simp add: order_less_trans [OF mod_less_divisor])
  ultimately show ?thesis
    using assms(2) by (simp add: base128_def get_tag_loop_cont get_tag_loop_Cons Let_def algebra_simps not_le)
qed

lemma asn1_get_length_der:
  assumes "n \<le> INT_MAX div 2" "int (length (der_len n)) \<le> room"
  shows "asn1_get_length (der_len n @ p) room = Some (int n, p)"
proof (cases "n < 128")
  case True
  define b :: byte where "b = word_of_nat n"
  have "unat b = n" unfolding b_def by (rule unat_word_of_nat_lt) (use True in simp)
  moreover from this have "b \<noteq> 0x80" using True by auto
  ultimately show ?thesis
    using True assms(2) by (simp add: asn1_get_length_def der_len_short b_def [symmetric] Let_def high_bit_iff unat_and_byte)
next
  case False
  have n32: "n < 2 ^ 32" using assms(1) by (simp add: INT_MAX_def)
  from False n32 obtain k where k: "long_form k n" by (meson linorder_not_less long_form_exists)
  then have k4: "k \<in> {1, 2, 3, 4}" by (simp add: long_form_def)
  define lb :: byte where "lb = word_of_nat (128 + k)"
  have lb: "unat lb = 128 + k" using k4 unat_long_byte by (simp only: lb_def)
  have ne: "lb \<noteq> 0x80" using lb k4 by auto
  have i: "unat (lb AND 0x7f) = k" using lb k4 by (auto simp: unat_and_byte)
  have v: "be_val (be_bytes k n) = n" using k by (simp add: be_val_be_bytes long_form_def)
  have u: "unat (cbs_get_u_loop 0 (be_bytes k n)) = n"
    using n32 by (simp add: cbs_get_u_loop_eq v unat_word_of_nat_lt)
  have room: "1 + int k \<le> room" using assms(2) k by (simp add: long_form_der_len)
  have hb: "lb AND 0x80 \<noteq> 0" using lb by (simp add: high_bit_iff)
  have l: "der_len n @ p = lb # be_bytes k n @ p" using k by (simp add: long_form_der_len lb_def)
  show ?thesis
    unfolding l asn1_get_length_def using ne hb room assms(1) k4 u by (auto simp: Let_def i)
qed

text \<open>What \<^verbatim>\<open>ASN1_get_object\<close> makes of a header: the number of a tag of the universal class must not exceed \<open>0xff\<close>, and the
  contents have to fit into what is left of \<open>omax\<close> octets.\<close>

definition header_of :: "nat \<Rightarrow> nat \<Rightarrow> nat \<Rightarrow> byte list \<Rightarrow> asn1_hd" where
  "header_of cc tag len rest =
     \<lparr>hd_ret = int (32 * (cc mod 2)), hd_length = int len, hd_tag = int tag, hd_class = int (64 * (cc div 2)), hd_rest = rest\<rparr>"

lemma length_hd_bytes_pos: "0 < length (hd_bytes cc tag)"
  by (simp add: hd_bytes_def)

lemma length_der_len_pos: "0 < length (der_len n)"
  by (simp add: der_len_def)

lemma ASN1_get_object_tag:
  assumes cc: "cc < 8" and tag: "tag \<le> INT_MAX" and room: "int (length (hd_bytes cc tag)) < omax"
  shows "ASN1_get_object (hd_bytes cc tag @ p) omax =
    (if cc div 2 = 0 \<and> 0xff < tag then Inl ASN1_R_HEADER_TOO_LONG
     else
       (case asn1_get_length p (omax - int (length (hd_bytes cc tag))) of
          None \<Rightarrow> Inl ASN1_R_HEADER_TOO_LONG
        | Some (len, q) \<Rightarrow>
          if len > omax - int (length (hd_bytes cc tag @ p) - length q) then Inl ASN1_R_TOO_LONG
          else Inr \<lparr>hd_ret = int (32 * (cc mod 2)), hd_length = len, hd_tag = int tag, hd_class = int (64 * (cc div 2)), hd_rest = q\<rparr>))"
proof -
  define d where "d = (if tag < 31 then tag else 31)"
  define b :: byte where "b = word_of_nat (32 * cc + d)"
  define hi where "hi = (if tag < 31 then [] else base128 tag)"
  have d: "d < 32" by (simp add: d_def)
  have b: "unat b = 32 * cc + d" unfolding b_def using cc d by (rule tag_first_byte)
  have hb: "hd_bytes cc tag = b # hi" by (simp add: hd_bytes_def b_def d_def hi_def)
  have bits: "uint b AND V_ASN1_CONSTRUCTED = int (32 * (cc mod 2))" "uint b AND V_ASN1_PRIVATE = int (64 * (cc div 2))"
    "uint b AND V_ASN1_PRIMITIVE_TAG = int d"
  proof -
    have "(32 * cc + d) div 64 = (32 * cc + d) div 32 div 2" by (simp only: div_mult2_eq [symmetric]) simp
    then show "uint b AND V_ASN1_CONSTRUCTED = int (32 * (cc mod 2))" "uint b AND V_ASN1_PRIVATE = int (64 * (cc div 2))"
      "uint b AND V_ASN1_PRIMITIVE_TAG = int d"
      using d by (simp_all add: V_ASN1_CONSTRUCTED_def V_ASN1_PRIVATE_def V_ASN1_PRIMITIVE_TAG_def uint_and_byte b)
  qed
  have r: "omax \<noteq> 0" "omax - 1 \<noteq> 0" "int (length hi) < omax - 1" using room by (auto simp: hb)
  have t: "(if int d = V_ASN1_PRIMITIVE_TAG then get_tag_loop 0 (omax - 1) (hi @ p) else Some (int d, omax - 1, hi @ p)) =
      Some (int tag, omax - int (length (b # hi)), p)"
    using r get_tag_loop_base128 [OF tag, of "omax - 1" p]
    by (auto simp: d_def hi_def V_ASN1_PRIMITIVE_TAG_def)
  have u: "int (64 * (cc div 2)) = V_ASN1_UNIVERSAL \<and> int tag > V_ASN1_MAX_UNIVERSAL \<longleftrightarrow> cc div 2 = 0 \<and> 0xff < tag"
    by (auto simp: V_ASN1_UNIVERSAL_def V_ASN1_MAX_UNIVERSAL_def)
  show ?thesis
    unfolding hb append_Cons ASN1_get_object_def list.case Let_def bits t option.case prod.case u if_not_P [OF r(1)] if_not_P [OF r(2)] ..
qed

lemma ASN1_get_object_eq:
  assumes cc: "cc < 8" and tag: "tag \<le> INT_MAX" and len: "len \<le> INT_MAX div 2"
    and universal: "cc div 2 = 0 \<longrightarrow> tag \<le> 0xff"
    and room: "int (length (hd_bytes cc tag @ der_len len)) \<le> omax"
  shows "ASN1_get_object (hd_bytes cc tag @ der_len len @ rest) omax =
    (if int (length (hd_bytes cc tag @ der_len len) + len) \<le> omax then Inr (header_of cc tag len rest)
     else Inl ASN1_R_TOO_LONG)"
proof -
  obtain q where q: "length (der_len len) = Suc q" using length_der_len_pos [of len] gr0_conv_Suc by blast
  have r: "int (length (hd_bytes cc tag)) < omax" "int (length (der_len len)) \<le> omax - int (length (hd_bytes cc tag))"
    using room by (auto simp: q)
  have l: "int (length (hd_bytes cc tag @ der_len len @ rest) - length rest) = int (length (hd_bytes cc tag @ der_len len))"
    by simp
  show ?thesis
    unfolding ASN1_get_object_tag [OF cc tag r(1)] asn1_get_length_der [OF len r(2)] option.case prod.case l
    using universal by (auto simp: header_of_def)
qed

text \<open>What the reader refuses: a length that does not fit half an \<^verbatim>\<open>int\<close>, and the indefinite form.\<close>

lemma asn1_get_length_big:
  assumes "INT_MAX div 2 < n" "n \<le> INT_MAX" "int (length (der_len n)) \<le> room"
  shows "asn1_get_length (der_len n @ p) room = None"
proof -
  have n: "\<not> n < 128" "n < 2 ^ 32" using assms(1,2) by (simp_all add: INT_MAX_def)
  then obtain k where k: "long_form k n" by (meson linorder_not_less long_form_exists)
  then have k4: "k \<in> {1, 2, 3, 4}" by (simp add: long_form_def)
  define lb :: byte where "lb = word_of_nat (128 + k)"
  have lb: "unat lb = 128 + k" using k4 unat_long_byte by (simp only: lb_def)
  have i: "unat (lb AND 0x7f) = k" using lb k4 by (auto simp: unat_and_byte)
  have v: "be_val (be_bytes k n) = n" using k by (simp add: be_val_be_bytes long_form_def)
  have u: "unat (cbs_get_u_loop 0 (be_bytes k n)) = n"
    using n(2) by (simp add: cbs_get_u_loop_eq v unat_word_of_nat_lt)
  have hb: "lb AND 0x80 \<noteq> 0" using lb by (simp add: high_bit_iff)
  have l: "der_len n @ p = lb # be_bytes k n @ p" using k by (simp add: long_form_der_len lb_def)
  show ?thesis unfolding l asn1_get_length_def using hb assms(1) k4 u by (auto simp: Let_def i)
qed

lemma asn1_get_length_indefinite: "asn1_get_length (0x80 # p) room = None"
  by (simp add: asn1_get_length_def Let_def)

section \<open>Sizes\<close>

lemma length_base128_cont_octets: "length (base128_cont v) = octets 7 v"
proof (induction v rule: base128_cont.induct)
  case (1 v)
  then show ?case by (cases "v = 0") (simp_all add: octets_step base128_cont.simps [of v])
qed

lemma length_base128_octets: "0 < v \<Longrightarrow> length (base128 v) = octets 7 v"
  by (simp add: base128_def length_base128_cont_octets octets_step)

lemma length_der_len_octets:
  assumes "n \<le> INT_MAX"
  shows "length (der_len n) = (if n > 127 then 1 + octets 8 n else 1)"
proof (cases "n < 128")
  case False
  with assms obtain k where "long_form k n" using long_form_exists [of n] by (auto simp: INT_MAX_def)
  with False show ?thesis by (simp add: long_form_der_len octets_long_form)
qed (simp add: der_len_short)

lemma ASN1_object_size_eq:
  assumes "0 \<le> len" "len \<le> int INT_MAX" "0 \<le> tag" "n = int (length (hd_bytes cc (nat tag))) + (if c = 2 then 3 else int (length (der_len (nat len))))"
  shows "ASN1_object_size c len tag = (if n + len < int INT_MAX then n + len else - 1)"
proof -
  have n: "n = (if tag \<ge> 31 then 1 + int (octets 7 (nat tag)) else 1) +
      (if c = 2 then 3 else if len > 127 then 1 + int (octets 8 (nat len)) else 1)"
    using assms by (auto simp: hd_bytes_def length_base128_octets length_der_len_octets nat_less_iff zless_nat_eq_int_zless)
  show ?thesis unfolding n ASN1_object_size_def Let_def using assms(1) by auto
qed

section \<open>Bounds of what is read\<close>

lemma get_tag_loop_bounds:
  "get_tag_loop (int x) room p = Some (tag, room', p') \<Longrightarrow> x \<le> INT_MAX div 128 \<Longrightarrow> 0 < room \<Longrightarrow>
   \<exists>used. p = used @ p' \<and> used \<noteq> [] \<and> room' = room - int (length used) \<and> 0 < room' \<and> 0 \<le> tag \<and> tag \<le> int INT_MAX"
proof (induction p arbitrary: x room)
  case (Cons b p)
  define l where "l = x * 128 + unat b mod 128"
  have l: "l \<le> INT_MAX"
  proof -
    have "unat b mod 128 \<le> 127" using mod_less_divisor [of 128 "unat b"] by linarith
    then show ?thesis using Cons.prems(2) by (simp add: l_def INT_MAX_def)
  qed
  have r: "room - 1 \<noteq> 0" "0 < room - 1" using Cons.prems(1,3) by (auto simp: get_tag_loop_Cons Let_def split: if_split_asm)
  show ?case
  proof (cases "128 \<le> unat b")
    case True
    then have "get_tag_loop (int l) (room - 1) p = Some (tag, room', p')" "l \<le> INT_MAX div 128"
      using Cons.prems(1) r by (simp_all add: get_tag_loop_Cons l_def [symmetric] Let_def split: if_split_asm)
    from Cons.IH [OF this r(2)] obtain used where
      "p = used @ p'" "used \<noteq> []" "room' = room - 1 - int (length used)" "0 < room'" "0 \<le> tag" "tag \<le> int INT_MAX" by blast
    then show ?thesis by (intro exI [of _ "b # used"]) simp
  next
    case False
    then have "get_tag_loop (int x) room (b # p) = Some (int l, room - 1, p)"
      using r unfolding get_tag_loop_Cons l_def [symmetric] Let_def by simp
    then have "tag = int l" "room' = room - 1" "p' = p" using Cons.prems(1) by simp_all
    then show ?thesis using l r by (intro exI [of _ "[b]"]) simp
  qed
qed simp

lemma asn1_get_length_bounds:
  assumes "asn1_get_length p room = Some (n, p')" "room \<le> int (length p)"
  shows "\<exists>used. p = used @ p' \<and> used \<noteq> [] \<and> 0 \<le> n \<and> n \<le> int (INT_MAX div 2)"
proof -
  obtain b q where p: "p = b # q" using assms by (cases p) (auto simp: asn1_get_length_def split: if_split_asm)
  define i where "i = unat (b AND 0x7f)"
  have i: "i \<le> 127"
    unfolding i_def unat_and_byte using mod_less_divisor [of 128 "unat b"] by linarith
  show ?thesis
  proof (cases "b AND 0x80 = 0")
    case True
    then have "n = int i" "p' = q" using assms(1) by (auto simp: asn1_get_length_def p i_def Let_def split: if_split_asm)
    then show ?thesis using i p by (intro exI [of _ "[b]"]) (simp add: INT_MAX_def)
  next
    case False
    define ret where "ret = cbs_get_u_loop 0 (take i q)"
    have p': "p' = drop i q" and n: "n = uint ret" "unat ret \<le> INT_MAX div 2"
      using assms(1) False by (auto simp: asn1_get_length_def p i_def ret_def Let_def split: if_split_asm)
    have "int (unat ret) \<le> int (INT_MAX div 2)" using n(2) by (simp only: of_nat_le_iff)
    then have "0 \<le> n" "n \<le> int (INT_MAX div 2)" unfolding n(1) uint_nat by simp_all
    then show ?thesis using p p' by (intro exI [of _ "b # take i q"]) simp
  qed
qed

section \<open>Properties\<close>

text \<open>Whatever header \<^verbatim>\<open>ASN1_get_object\<close> accepts, the pointer moves past at least two octets and stays within the input, the
  contents announced fit into the rest of the container, the length is at most half of the largest \<^verbatim>\<open>int\<close>, the number
  fits an \<^verbatim>\<open>int\<close>, and a number of the universal class is at most \<open>0xff\<close>.\<close>

theorem ASN1_get_object_bounds:
  assumes "ASN1_get_object pp omax = Inr h" "0 \<le> omax" "omax \<le> int (length pp)"
  shows "\<exists>used. pp = used @ hd_rest h \<and> 2 \<le> length used \<and> int (length used) + hd_length h \<le> omax \<and>
    0 \<le> hd_length h \<and> hd_length h \<le> int (INT_MAX div 2) \<and> 0 \<le> hd_tag h \<and> hd_tag h \<le> int INT_MAX \<and>
    (hd_class h = V_ASN1_UNIVERSAL \<longrightarrow> hd_tag h \<le> V_ASN1_MAX_UNIVERSAL)"
proof -
  obtain b p where pp: "pp = b # p" using assms by (cases pp) (auto simp: ASN1_get_object_def)
  define i where "i = uint b AND V_ASN1_PRIMITIVE_TAG"
  have i: "0 \<le> i" "i \<le> int INT_MAX"
    using mod_less_divisor [of 32 "unat b"] by (simp_all add: i_def V_ASN1_PRIMITIVE_TAG_def uint_and_byte INT_MAX_def)
  have o: "omax - 1 \<noteq> 0" "omax \<noteq> 0" using assms(1) by (auto simp: ASN1_get_object_def pp Let_def)
  with assms(2) have pos: "0 < omax - 1" by simp
  from assms(1) o obtain tag room p1 where
    t: "(if i = V_ASN1_PRIMITIVE_TAG then get_tag_loop 0 (omax - 1) p else Some (i, omax - 1, p)) = Some (tag, room, p1)"
    unfolding pp ASN1_get_object_def list.case Let_def i_def [symmetric]
    by (cases "if i = V_ASN1_PRIMITIVE_TAG then get_tag_loop 0 (omax - 1) p else Some (i, omax - 1, p)") auto
  obtain used where u: "p = used @ p1" "room = omax - 1 - int (length used)" "0 \<le> tag" "tag \<le> int INT_MAX"
    using t get_tag_loop_bounds [of 0 "omax - 1" p tag room p1] pos i by (auto split: if_split_asm)
  from assms(1) o t have universal: "uint b AND V_ASN1_PRIVATE = V_ASN1_UNIVERSAL \<longrightarrow> tag \<le> V_ASN1_MAX_UNIVERSAL"
    unfolding pp ASN1_get_object_def list.case Let_def i_def [symmetric] by (auto split: if_split_asm)
  from assms(1) o t obtain len p2 where l: "asn1_get_length p1 room = Some (len, p2)"
    unfolding pp ASN1_get_object_def list.case Let_def i_def [symmetric]
    by (cases "asn1_get_length p1 room") (auto split: if_split_asm)
  have "room \<le> int (length p1)" using u assms(3) by (simp add: pp)
  from asn1_get_length_bounds [OF l this] obtain used' where
    u': "p1 = used' @ p2" "used' \<noteq> []" "0 \<le> len" "len \<le> int (INT_MAX div 2)" by blast
  have h: "hd_length h = len" "hd_tag h = tag" "hd_class h = uint b AND V_ASN1_PRIVATE" "hd_rest h = p2"
      "len \<le> omax - int (length pp - length p2)"
    using assms(1) o t l unfolding pp ASN1_get_object_def list.case Let_def i_def [symmetric]
    by (auto split: if_split_asm)
  have "pp = (b # used @ used') @ hd_rest h" "2 \<le> length (b # used @ used')"
    using u(1) u'(1,2) by (simp_all add: pp h Suc_le_eq)
  moreover have "int (length (b # used @ used')) + hd_length h \<le> omax"
    using h(5) u(1) u'(1) by (simp add: pp h)
  ultimately show ?thesis using universal u(3,4) u'(3,4) unfolding h by blast
qed

theorem ASN1_get_object_bounds_witness:
  "hd_length (case ASN1_get_object [0x5f, 0x81, 0x01, 0x01, 7] 5 of Inr h \<Rightarrow> h) \<le> 1"
proof -
  have "ASN1_get_object [0x5f, 0x81, 0x01, 0x01, 7] 5 =
      Inr \<lparr>hd_ret = 0, hd_length = 1, hd_tag = 129, hd_class = 0x40, hd_rest = [7]\<rparr>"
    by (simp add: ASN1_get_object_def asn1_get_length_def V_ASN1_CONSTRUCTED_def V_ASN1_PRIMITIVE_TAG_def V_ASN1_PRIVATE_def
        V_ASN1_UNIVERSAL_def INT_MAX_def get_tag_loop.simps)
  from ASN1_get_object_bounds [OF this] show ?thesis
    by (simp add: ASN1_get_object_def asn1_get_length_def V_ASN1_CONSTRUCTED_def V_ASN1_PRIMITIVE_TAG_def V_ASN1_PRIVATE_def
        V_ASN1_UNIVERSAL_def INT_MAX_def get_tag_loop.simps)
qed

lemma header_roundtrip:
  assumes "xclass \<in> classes" "constructed \<in> {0, 1, 2}" "0 \<le> tag" "tag \<le> int INT_MAX" "0 \<le> len" "len \<le> int INT_MAX"
    and "int (length (ASN1_put_object constructed len tag xclass)) + len \<le> omax"
  shows "ASN1_get_object (ASN1_put_object constructed len tag xclass @ rest) omax =
    (if constructed = 2 \<or> int (INT_MAX div 2) < len \<or> xclass = V_ASN1_UNIVERSAL \<and> V_ASN1_MAX_UNIVERSAL < tag
     then Inl ASN1_R_HEADER_TOO_LONG
     else Inr \<lparr>hd_ret = 32 * constructed, hd_length = len, hd_tag = tag, hd_class = xclass, hd_rest = rest\<rparr>)"
proof -
  define cc where "cc = class_bits constructed xclass"
  have cc: "cc < 8" "int (64 * (cc div 2)) = xclass" "constructed \<noteq> 2 \<Longrightarrow> int (32 * (cc mod 2)) = 32 * constructed"
    using assms(1,2) by (auto simp: cc_def classes_def class_bits_def)
  define l where "l = (if constructed = 2 then [0x80] else der_len (nat len))"
  have put: "ASN1_put_object constructed len tag xclass = hd_bytes cc (nat tag) @ l"
    using ASN1_put_object_eq [OF assms(1,3,5,6), of constructed] by (simp add: cc_def l_def)
  have t: "nat tag \<le> INT_MAX" using assms(4) by simp
  have u: "cc div 2 = 0 \<and> 0xff < nat tag \<longleftrightarrow> xclass = V_ASN1_UNIVERSAL \<and> V_ASN1_MAX_UNIVERSAL < tag"
    using cc(2) by (auto simp: V_ASN1_UNIVERSAL_def V_ASN1_MAX_UNIVERSAL_def)
  have "1 \<le> length l" using length_der_len_pos by (simp add: l_def Suc_le_eq)
  then have r: "int (length (hd_bytes cc (nat tag))) < omax" using assms(5,7) unfolding put length_append by linarith
  have room: "constructed \<noteq> 2 \<Longrightarrow> int (length (der_len (nat len))) \<le> omax - int (length (hd_bytes cc (nat tag)))"
    using assms(5,7) by (simp add: put l_def)
  note get = ASN1_get_object_tag [OF cc(1) t r, of "l @ rest"]
  consider "xclass = V_ASN1_UNIVERSAL \<and> V_ASN1_MAX_UNIVERSAL < tag" | "constructed = 2"
    | "constructed \<noteq> 2" "int (INT_MAX div 2) < len"
    | "\<not> (xclass = V_ASN1_UNIVERSAL \<and> V_ASN1_MAX_UNIVERSAL < tag)" "constructed \<noteq> 2" "len \<le> int (INT_MAX div 2)"
    by linarith
  then show ?thesis
  proof cases
    case 1
    then show ?thesis using u unfolding put append_assoc get by simp
  next
    case 2
    then have "asn1_get_length (l @ rest) (omax - int (length (hd_bytes cc (nat tag)))) = None"
      by (simp add: l_def asn1_get_length_indefinite)
    then show ?thesis using 2 unfolding put append_assoc get by simp
  next
    case 3
    then have "INT_MAX div 2 < nat len" "nat len \<le> INT_MAX" using assms(6) by (simp_all add: zless_nat_eq_int_zless)
    from asn1_get_length_big [OF this room [OF 3(1)]]
    have "asn1_get_length (l @ rest) (omax - int (length (hd_bytes cc (nat tag)))) = None" using 3(1) by (simp add: l_def)
    then show ?thesis using 3 unfolding put append_assoc get by simp
  next
    case 4
    have n: "nat len \<le> INT_MAX div 2" using 4(3) by simp
    have un: "cc div 2 = 0 \<longrightarrow> nat tag \<le> 0xff" using u 4(1) by auto
    have r2: "int (length (hd_bytes cc (nat tag) @ der_len (nat len))) \<le> omax" using room [OF 4(2)] by simp
    have fit: "int (length (hd_bytes cc (nat tag) @ der_len (nat len)) + nat len) \<le> omax"
      using assms(5,7) 4(2) by (simp add: put l_def)
    have "ASN1_get_object (hd_bytes cc (nat tag) @ der_len (nat len) @ rest) omax = Inr (header_of cc (nat tag) (nat len) rest)"
      unfolding ASN1_get_object_eq [OF cc(1) t n un r2] if_P [OF fit] ..
    then show ?thesis
      using 4 assms(3,5) cc(3) unfolding header_of_def cc(2) by (auto simp: put l_def)
  qed
qed

text \<open>C33: what becomes of a header that \<^verbatim>\<open>ASN1_put_object\<close> writes, for each of the four classes, every tag number and every
  length. \<^verbatim>\<open>ASN1_get_object\<close> reads back the tag, the class, the bit for constructed elements and the length that were given,
  with the pointer in front of the contents, except for the three kinds of header it does not accept and rejects as too long:
  the indefinite form, which is written when \<open>constructed\<close> is two, lengths above half of \<^verbatim>\<open>INT_MAX\<close>, and numbers of the
  universal class above \<open>0xff\<close>.\<close>

theorem asn1_header_roundtrip:
  assumes "xclass \<in> classes" "constructed \<in> {0, 1, 2}" "0 \<le> tag" "tag \<le> int INT_MAX" "0 \<le> len" "len \<le> int INT_MAX"
    and "int (length (ASN1_put_object constructed len tag xclass)) + len \<le> omax"
  shows "ASN1_get_object (ASN1_put_object constructed len tag xclass @ rest) omax =
    (if constructed = 2 \<or> int (INT_MAX div 2) < len \<or> xclass = V_ASN1_UNIVERSAL \<and> V_ASN1_MAX_UNIVERSAL < tag
     then Inl ASN1_R_HEADER_TOO_LONG
     else Inr \<lparr>hd_ret = 32 * constructed, hd_length = len, hd_tag = tag, hd_class = xclass, hd_rest = rest\<rparr>)"
  using assms by (rule header_roundtrip)

theorem asn1_header_roundtrip_witness:
  "ASN1_get_object (ASN1_put_object 1 2 1000 0x80 @ [5, 6]) 6 =
    Inr \<lparr>hd_ret = 32, hd_length = 2, hd_tag = 1000, hd_class = 0x80, hd_rest = [5, 6]\<rparr>"
proof -
  have "ASN1_put_object 1 2 1000 0x80 = hd_bytes 5 1000 @ der_len 2"
    using ASN1_put_object_eq [of "0x80" 1000 2 1] by (simp add: classes_def class_bits_def INT_MAX_def)
  then have "length (ASN1_put_object 1 2 1000 0x80) = 4" by (simp add: hd_bytes_def base128_def base128_cont.simps der_len_def)
  then show ?thesis
    using asn1_header_roundtrip [of "0x80" 1 1000 2 6 "[5, 6]"] by (simp add: classes_def V_ASN1_UNIVERSAL_def INT_MAX_def)
qed

text \<open>\<^verbatim>\<open>ASN1_object_size\<close> is exact: it is the number of octets of the header \<^verbatim>\<open>ASN1_put_object\<close> writes, the contents and,
  for the indefinite form, the two octets of \<^verbatim>\<open>ASN1_put_eoc\<close>, or \<open>- 1\<close> when that number does not fit an \<^verbatim>\<open>int\<close>.\<close>

theorem ASN1_object_size_exact:
  assumes "xclass \<in> classes" "0 \<le> tag" "0 \<le> len" "len \<le> int INT_MAX"
    and "n = int (length (ASN1_put_object constructed len tag xclass)) + len + (if constructed = 2 then int (length ASN1_put_eoc) else 0)"
  shows "ASN1_object_size constructed len tag = (if n < int INT_MAX then n else - 1)"
proof -
  define h where "h = int (length (hd_bytes (class_bits constructed xclass) (nat tag)))"
  have h: "int (length (hd_bytes cc (nat tag))) = h" for cc by (simp add: h_def hd_bytes_def)
  have n: "n = h + (if constructed = 2 then 3 else int (length (der_len (nat len)))) + len"
    unfolding assms(5) ASN1_put_object_eq [OF assms(1-4)] by (simp add: h ASN1_put_eoc_def)
  show ?thesis unfolding n using ASN1_object_size_eq [OF assms(3,4,2) refl, where cc = 0, unfolded h] .
qed

theorem ASN1_object_size_exact_witness: "ASN1_object_size 0 200 31 = 204 \<and> ASN1_object_size 0 (int INT_MAX) 2 = - 1"
proof -
  have l: "long_form 4 INT_MAX" by (simp add: long_form_def INT_MAX_def)
  have p: "ASN1_put_object 0 200 31 0x80 = hd_bytes 4 31 @ der_len 200"
      "ASN1_put_object 0 (int INT_MAX) 2 0 = hd_bytes 0 2 @ der_len INT_MAX"
    using ASN1_put_object_eq [of "0x80" 31 200 0] ASN1_put_object_eq [of 0 2 "int INT_MAX" 0]
    by (simp_all add: classes_def class_bits_def INT_MAX_def)
  have "int (length (ASN1_put_object 0 200 31 0x80)) = 4" "int (length (ASN1_put_object 0 (int INT_MAX) 2 0)) = 6"
    unfolding p by (simp_all add: hd_bytes_def base128_def base128_cont.simps long_form_der_len [OF l], simp add: der_len_def)
  then show ?thesis
    using ASN1_object_size_exact [of "0x80" 31 200 _ 0, OF _ _ _ _ refl] ASN1_object_size_exact [of 0 2 "int INT_MAX" _ 0, OF _ _ _ _ refl]
    by (simp add: classes_def INT_MAX_def)
qed

lemma get_object_CBS:
  assumes "CBS_get_any_asn1 c = (Some (body, tag), r)" "length body \<le> INT_MAX div 2"
    and "unat tag div 2 ^ 30 = 0 \<longrightarrow> unat tag mod 2 ^ 29 \<le> 0xff"
  shows "ASN1_get_object c (int (length c)) =
    Inr \<lparr>hd_ret = int (32 * (unat tag div 2 ^ 29 mod 2)), hd_length = int (length body), hd_tag = int (unat tag mod 2 ^ 29),
      hd_class = int (64 * (unat tag div 2 ^ 30)), hd_rest = body @ r\<rparr>"
proof -
  have c: "c = hd_bytes (unat tag div 2 ^ 29) (unat tag mod 2 ^ 29) @ der_len (length body) @ body @ r"
    using der.enc_dec [OF assms(1)] by (simp add: der_element_def der_header_def der_tag_hd_bytes)
  have cc: "unat tag div 2 ^ 29 < 8" "unat tag div 2 ^ 29 div 2 = unat tag div 2 ^ 30"
    using unat_u32_lt [of tag] by (simp_all add: div_mult2_eq [symmetric])
  have "unat tag mod 2 ^ 29 < 2 ^ 29" "2 ^ 29 \<le> INT_MAX" by (simp_all add: INT_MAX_def)
  then have t: "unat tag mod 2 ^ 29 \<le> INT_MAX" by linarith
  show ?thesis
    using ASN1_get_object_eq [OF cc(1) t assms(2), of "int (length c)" "body @ r"] assms(3) unfolding cc(2) header_of_def
    by (subst c) (simp add: c)
qed

text \<open>C34: on the elements the byte-string reader \<^verbatim>\<open>CBS_get_any_asn1\<close> accepts the older parser agrees with it, as long as the
  contents are at most half of the largest \<^verbatim>\<open>int\<close> and the number of a universal tag is at most \<open>0xff\<close>: it finds the same
  tag and its pointer is in front of the same contents.\<close>

theorem ASN1_get_object_agrees_CBS:
  assumes "CBS_get_any_asn1 c = (Some (body, tag), r)" "length body \<le> INT_MAX div 2"
    and "unat tag div 2 ^ 30 = 0 \<longrightarrow> unat tag mod 2 ^ 29 \<le> 0xff"
  shows "ASN1_get_object c (int (length c)) =
    Inr \<lparr>hd_ret = int (32 * (unat tag div 2 ^ 29 mod 2)), hd_length = int (length body), hd_tag = int (unat tag mod 2 ^ 29),
      hd_class = int (64 * (unat tag div 2 ^ 30)), hd_rest = body @ r\<rparr>"
  using assms by (rule get_object_CBS)

theorem ASN1_get_object_agrees_CBS_witness:
  "ASN1_get_object [0x30, 1, 7, 8] 4 = Inr \<lparr>hd_ret = 32, hd_length = 1, hd_tag = 16, hd_class = 0, hd_rest = [7, 8]\<rparr>"
proof -
  have "CBS_get_any_asn1 (der_element 0x20000010 [7] @ [8]) = (Some ([7], 0x20000010), [8])"
    by (rule CBS_get_any_asn1_complete) simp
  moreover have "der_element 0x20000010 [7] @ [8] = [0x30, 1, 7, 8]"
    by (simp add: der_element_def der_header_def der_tag_def der_len_def)
  ultimately show ?thesis
    using ASN1_get_object_agrees_CBS [of "[0x30, 1, 7, 8]" "[7]" "0x20000010" "[8]"] by (simp add: INT_MAX_def)
qed

end
