(* ===== verification/Asn1_String.thy ===== *)
theory Asn1_String
  imports Asn1_Header Obj
begin

text \<open>
  Values of the older interface: the DER element of an object identifier (\<^verbatim>\<open>crypto/asn1/a_object.c\<close>), \<^verbatim>\<open>ASN1_STRING\<close>
  (\<^verbatim>\<open>asn1_lib.c\<close>) and bit strings (\<^verbatim>\<open>a_bitstr.c\<close>). A string is a record of its length, type and flags and of the memory behind
  its pointer. The lemmas show that a bit string implements a set of numbers, that its contents octets are
  those the byte-string reader accepts, and that the comparison of strings is a total order.
\<close>

section \<open>Object identifiers as elements\<close>

definition V_ASN1_OBJECT :: int where "V_ASN1_OBJECT = 6"

text \<open>The output argument of \<^verbatim>\<open>i2d_ASN1_OBJECT\<close> is a null pointer, points to a null pointer, or points into a buffer. The
  result is the return value with, where something is written, the memory that is written: the allocation or the buffer.\<close>

datatype i2d_out = I2d_null | I2d_alloc | I2d_buffer "byte list"

definition i2d_ASN1_OBJECT :: "heap_env \<Rightarrow> asn1_object_st option \<Rightarrow> i2d_out \<Rightarrow> int \<times> byte list option" where
  "i2d_ASN1_OBJECT env p pp =
     (case p of
        None \<Rightarrow> (- 1, None)
      | Some a \<Rightarrow>
        if obj_length a = 0 then (- 1, None)
        else
          let objsize = ASN1_object_size 0 (obj_length a) V_ASN1_OBJECT;
              written = ASN1_put_object 0 (obj_length a) V_ASN1_OBJECT V_ASN1_UNIVERSAL @ obj_bytes a in
          if pp = I2d_null \<or> objsize = - 1 then (objsize, None)
          else
            (case (case pp of I2d_buffer buf \<Rightarrow> Some buf | _ \<Rightarrow> OPENSSL_malloc env (nat objsize)) of
               None \<Rightarrow> (- 1, None)
             | Some mem \<Rightarrow> (objsize, Some (mem_write 0 written mem))))"

text \<open>As with \<^const>\<open>c2i_ASN1_OBJECT\<close>, the result is the object returned, what \<^verbatim>\<open>*a\<close> is afterwards and the rest of the input.\<close>

definition d2i_ASN1_OBJECT ::
    "heap_env \<Rightarrow> asn1_object_st option option \<Rightarrow> byte list \<Rightarrow> int \<Rightarrow>
     asn1_object_st option \<times> asn1_object_st option option \<times> byte list" where
  "d2i_ASN1_OBJECT env a pp len =
     (case ASN1_get_object pp len of
        Inl e \<Rightarrow> (None, a, pp)
      | Inr h \<Rightarrow>
        if hd_ret h AND V_ASN1_CONSTRUCTED \<noteq> 0 then (None, a, pp)
        else if hd_tag h \<noteq> V_ASN1_OBJECT \<or> hd_class h \<noteq> V_ASN1_UNIVERSAL then (None, a, pp)
        else
          (case c2i_ASN1_OBJECT env a (hd_rest h) (hd_length h) of
             (None, a, p) \<Rightarrow> (None, a, pp)
           | (Some ret, a, p) \<Rightarrow> (Some ret, a, p)))"

lemma object_tag: "hd_bytes 0 6 = der_tag CBS_ASN1_OBJECT" "class_bits 0 V_ASN1_UNIVERSAL = 0" "V_ASN1_UNIVERSAL \<in> classes"
  by (simp_all add: der_tag_def hd_bytes_def CBS_ASN1_OBJECT_def class_bits_def V_ASN1_UNIVERSAL_def classes_def)

lemma put_object_header:
  "0 \<le> len \<Longrightarrow> len \<le> int INT_MAX \<Longrightarrow> ASN1_put_object 0 len V_ASN1_OBJECT V_ASN1_UNIVERSAL = der_header CBS_ASN1_OBJECT (nat len)"
  using ASN1_put_object_eq [OF object_tag(3), of 6 len 0]
  by (simp add: V_ASN1_OBJECT_def object_tag der_header_def)

lemma object_size:
  "0 \<le> len \<Longrightarrow> len \<le> int INT_MAX \<Longrightarrow> ASN1_object_size 0 len V_ASN1_OBJECT =
    (let n = int (length (der_header CBS_ASN1_OBJECT (nat len))) + len in if n < int INT_MAX then n else - 1)"
  using ASN1_object_size_eq [of len 6 _ 0 0, OF _ _ _ refl]
  by (simp add: V_ASN1_OBJECT_def object_tag der_header_def Let_def)

text \<open>\<^verbatim>\<open>i2d_ASN1_OBJECT\<close> writes the DER element of the object, the one \<^verbatim>\<open>CBS_get_asn1\<close> reads its contents from, and
  returns its size, or fails: without an object or contents, without memory, or when the size does not fit an \<^verbatim>\<open>int\<close>.\<close>

lemma i2d_object_der:
  assumes "obj_length a \<le> int INT_MAX" "i2d_ASN1_OBJECT env (Some a) I2d_alloc = (n, Some mem)"
  shows "mem = der_element CBS_ASN1_OBJECT (obj_bytes a) \<and> n = int (length mem) \<and> 0 < obj_length a"
proof -
  have nn: "0 < obj_length a"
    using assms(2) by (cases "obj_length a < 0") (auto simp: i2d_ASN1_OBJECT_def ASN1_object_size_def split: if_split_asm)
  define s where "s = int (length (der_header CBS_ASN1_OBJECT (nat (obj_length a)))) + obj_length a"
  define w where "w = der_element CBS_ASN1_OBJECT (obj_bytes a)"
  have w: "der_header CBS_ASN1_OBJECT (nat (obj_length a)) @ obj_bytes a = w" "int (length w) = s"
    using nn by (simp_all add: w_def s_def der_element_def)
  have size: "ASN1_object_size 0 (obj_length a) V_ASN1_OBJECT = (if s < int INT_MAX then s else - 1)"
    using object_size [of "obj_length a"] nn assms(1) by (simp add: s_def Let_def)
  have put: "ASN1_put_object 0 (obj_length a) V_ASN1_OBJECT V_ASN1_UNIVERSAL = der_header CBS_ASN1_OBJECT (nat (obj_length a))"
    using nn assms(1) by (intro put_object_header) simp_all
  from assms(2) nn obtain m where m: "OPENSSL_malloc env (nat s) = Some m" and n: "n = s" "mem = mem_write 0 w m"
    by (auto simp: i2d_ASN1_OBJECT_def Let_def put w(1) size split: if_split_asm option.split_asm)
  have "length m = length w" using OPENSSL_malloc_length [OF m] w(2) by simp
  then show ?thesis using n w(2) nn by (simp add: mem_write_def w_def)
qed

text \<open>The contents \<^verbatim>\<open>c2i_ASN1_OBJECT\<close> accepts.\<close>

definition oid_contents :: "byte list \<Rightarrow> bool" where
  "oid_contents bs \<longleftrightarrow> bs \<noteq> [] \<and> length bs \<le> INT_MAX \<and> last bs AND 0x80 = 0 \<and> \<not> leading_80 None bs"

lemma c2i_ok:
  assumes "oid_contents bs" "\<And>k. h_ok env k"
  shows "\<exists>obj. c2i_ASN1_OBJECT env None (bs @ rest) (int (length bs)) = (Some obj, None, rest) \<and> obj_bytes obj = bs"
proof -
  have l: "(bs @ rest) ! (length bs - 1) = last bs"
    using assms(1) by (simp add: oid_contents_def nth_append last_conv_nth)
  have k: "length bs < 2 ^ 40" using assms(1) by (simp add: oid_contents_def INT_MAX_def)
  obtain new where new: "ASN1_OBJECT_new env = Some new" "obj_data new = None"
    using assms(2) by (simp add: ASN1_OBJECT_new_def sizeof_ASN1_OBJECT_def OPENSSL_malloc_def size_add_def SIZE_MOD_def)
  obtain d where d: "OPENSSL_malloc env (length bs) = Some d"
    using assms(2) k by (simp add: OPENSSL_malloc_def size_add_def SIZE_MOD_def)
  then have "length d = length bs" by (rule OPENSSL_malloc_length)
  then show ?thesis
    using assms(1) l new d
    by (auto simp: c2i_ASN1_OBJECT_def oid_contents_def Let_def mem_write_def obj_bytes_whole)
qed

text \<open>An object survives the way through its DER element: when \<^verbatim>\<open>d2i_ASN1_OBJECT\<close> reads what \<^verbatim>\<open>i2d_ASN1_OBJECT\<close> has allocated,
  with anything behind it, it returns an object of the same contents and leaves what follows.\<close>

theorem asn1_object_roundtrip:
  assumes "i2d_ASN1_OBJECT env (Some a) I2d_alloc = (n, Some mem)" "oid_contents (obj_bytes a)"
    and "length (obj_bytes a) \<le> INT_MAX div 2" "\<And>k. h_ok env' k"
  shows "\<exists>obj. d2i_ASN1_OBJECT env' None (mem @ rest) (int (length (mem @ rest))) = (Some obj, None, rest) \<and> obj_bytes obj = obj_bytes a"
proof -
  have len: "obj_length a \<le> int INT_MAX" using assms(3) by (simp add: INT_MAX_def)
  have mem: "mem = der_element CBS_ASN1_OBJECT (obj_bytes a)"
    using i2d_object_der [OF len assms(1)] by simp
  have "CBS_get_any_asn1 (mem @ rest) = (Some (obj_bytes a, CBS_ASN1_OBJECT), rest)"
    unfolding mem by (rule CBS_get_any_asn1_complete) (use assms(3) in \<open>simp add: INT_MAX_def\<close>)
  from get_object_CBS [OF this assms(3)]
  have "ASN1_get_object (mem @ rest) (int (length (mem @ rest))) =
      Inr \<lparr>hd_ret = 0, hd_length = int (length (obj_bytes a)), hd_tag = V_ASN1_OBJECT, hd_class = V_ASN1_UNIVERSAL, hd_rest = obj_bytes a @ rest\<rparr>"
    by (simp add: CBS_ASN1_OBJECT_def V_ASN1_OBJECT_def V_ASN1_UNIVERSAL_def)
  then show ?thesis
    using c2i_ok [OF assms(2,4), of rest] by (auto simp: d2i_ASN1_OBJECT_def)
qed
theorem asn1_object_roundtrip_witness:
  "\<exists>obj. d2i_ASN1_OBJECT all_ok None [6, 1, 0x2a, 7] 4 = (Some obj, None, [7]) \<and> obj_bytes obj = [0x2a]"
proof -
  define a where "a = \<lparr>obj_sn = None, obj_ln = None, obj_nid = 0, obj_length = 1, obj_data = Some [0x2a :: byte], obj_flags = 0\<rparr>"
  have b: "obj_bytes a = [0x2a]" by (simp add: a_def obj_bytes_def)
  have h: "der_header CBS_ASN1_OBJECT (Suc 0) = [6, 1]"
    by (simp add: der_header_def der_tag_def der_len_def CBS_ASN1_OBJECT_def)
  have l: "obj_length a = 1" by (simp add: a_def)
  have w: "i2d_ASN1_OBJECT all_ok (Some a) I2d_alloc = (3, Some [6, 1, 0x2a])"
    using put_object_header [of 1] object_size [of 1]
    by (simp add: i2d_ASN1_OBJECT_def l b h INT_MAX_def OPENSSL_malloc_def size_add_def SIZE_MOD_def mem_write_def)
  show ?thesis
    using asn1_object_roundtrip [OF w, of all_ok "[7]"] by (simp add: b oid_contents_def INT_MAX_def)
qed

section \<open>Strings\<close>

text \<open>\<^verbatim>\<open>data\<close> is a null pointer or the memory it points to, which may be longer than \<^verbatim>\<open>length\<close> says.\<close>

record asn1_string =
  st_length :: int
  st_type :: int
  st_data :: "byte list option"
  st_flags :: u64

definition V_ASN1_BIT_STRING :: int where "V_ASN1_BIT_STRING = 3"
definition V_ASN1_OCTET_STRING :: int where "V_ASN1_OCTET_STRING = 4"
definition ASN1_STRING_FLAG_BITS_LEFT :: u64 where "ASN1_STRING_FLAG_BITS_LEFT = 0x08"

definition sizeof_ASN1_STRING :: nat where "sizeof_ASN1_STRING = 24"

definition ASN1_STRING_type_new :: "heap_env \<Rightarrow> int \<Rightarrow> asn1_string option" where
  "ASN1_STRING_type_new env type =
     (case OPENSSL_malloc env sizeof_ASN1_STRING of
        None \<Rightarrow> None
      | Some _ \<Rightarrow> Some \<lparr>st_length = 0, st_type = type, st_data = None, st_flags = 0\<rparr>)"

definition ASN1_STRING_new :: "heap_env \<Rightarrow> asn1_string option" where
  "ASN1_STRING_new env = ASN1_STRING_type_new env V_ASN1_OCTET_STRING"

text \<open>The source is a null pointer or the memory at \<^verbatim>\<open>_data\<close>; with a negative length it is a C string. The copy is made
  in the memory of \<^verbatim>\<open>str\<close>, which grows by \<^verbatim>\<open>OPENSSL_realloc\<close> only when the new length is not below the old one. The
  source is assumed not to overlap that memory.\<close>

definition ASN1_STRING_set :: "heap_env \<Rightarrow> asn1_string \<Rightarrow> byte list option \<Rightarrow> int \<Rightarrow> bool \<times> asn1_string" where
  "ASN1_STRING_set env str data len =
     (if len < 0 \<and> data = None then (False, str)
      else
        let len = (if len < 0 then length (takeWhile (\<lambda>c. c \<noteq> 0) (the data)) else nat len) in
        (case (if st_length str \<le> int len \<or> st_data str = None
               then (case st_data str of
                       None \<Rightarrow> OPENSSL_malloc env (len + 1)
                     | Some c \<Rightarrow> OPENSSL_realloc env (Some c) (len + 1))
               else st_data str) of
           None \<Rightarrow> (False, str)
         | Some mem \<Rightarrow>
           let mem = (case data of None \<Rightarrow> mem | Some d \<Rightarrow> mem_write 0 (take len d @ [0]) mem) in
           (True, str\<lparr>st_data := Some mem, st_length := int len\<rparr>)))"

definition ASN1_STRING_set0 :: "asn1_string \<Rightarrow> byte list option \<Rightarrow> int \<Rightarrow> asn1_string" where
  "ASN1_STRING_set0 str data len = str\<lparr>st_data := data, st_length := len\<rparr>"

definition ASN1_STRING_copy :: "heap_env \<Rightarrow> asn1_string \<Rightarrow> asn1_string option \<Rightarrow> bool \<times> asn1_string" where
  "ASN1_STRING_copy env dst str =
     (case str of
        None \<Rightarrow> (False, dst)
      | Some str \<Rightarrow>
        (case ASN1_STRING_set env dst (st_data str) (st_length str) of
           (False, dst) \<Rightarrow> (False, dst)
         | (True, dst) \<Rightarrow> (True, dst\<lparr>st_type := st_type str, st_flags := st_flags str\<rparr>)))"

definition ASN1_STRING_dup :: "heap_env \<Rightarrow> asn1_string option \<Rightarrow> asn1_string option" where
  "ASN1_STRING_dup env str =
     (case str of
        None \<Rightarrow> None
      | Some s \<Rightarrow>
        (case ASN1_STRING_new env of
           None \<Rightarrow> None
         | Some ret \<Rightarrow>
           (case ASN1_STRING_copy env ret (Some s) of (ok, ret) \<Rightarrow> if ok then Some ret else None)))"

definition ASN1_STRING_length :: "asn1_string \<Rightarrow> int" where
  "ASN1_STRING_length str = st_length str"

definition ASN1_STRING_type :: "asn1_string \<Rightarrow> int" where
  "ASN1_STRING_type str = st_type str"

definition ASN1_STRING_data :: "asn1_string \<Rightarrow> byte list option" where
  "ASN1_STRING_data str = st_data str"

definition ASN1_STRING_get0_data :: "asn1_string \<Rightarrow> byte list option" where
  "ASN1_STRING_get0_data str = st_data str"

section \<open>Bit strings\<close>

text \<open>The memory of a string; reading through a null pointer does not occur where the length is zero.\<close>

definition st_mem :: "asn1_string \<Rightarrow> byte list" where
  "st_mem str = (case st_data str of None \<Rightarrow> [] | Some mem \<Rightarrow> mem)"

definition ASN1_BIT_STRING_set :: "heap_env \<Rightarrow> asn1_string \<Rightarrow> byte list option \<Rightarrow> int \<Rightarrow> bool \<times> asn1_string" where
  "ASN1_BIT_STRING_set env x d len = ASN1_STRING_set env x d len"

text \<open>The loop that drops zero bytes at the end, and the one that counts the zero bits at the end of the last byte.\<close>

fun trim_zeros :: "byte list \<Rightarrow> nat \<Rightarrow> nat" where
  "trim_zeros mem 0 = 0"
| "trim_zeros mem (Suc len) = (if mem ! len = 0 then trim_zeros mem len else Suc len)"

function trailing_zero_bits :: "byte \<Rightarrow> nat \<Rightarrow> nat" where
  "trailing_zero_bits b padding_bits =
     (if padding_bits < 7
      then (if b AND push_bit padding_bits 1 \<noteq> 0 then padding_bits else trailing_zero_bits b (padding_bits + 1))
      else padding_bits)"
  by pat_completeness auto
termination
  by (relation "measure (\<lambda>(b, n). 7 - n)") auto

declare trailing_zero_bits.simps [simp del]

text \<open>The result is the length in bytes and the number of padding bits.\<close>

definition asn1_bit_string_length :: "asn1_string \<Rightarrow> int \<times> nat" where
  "asn1_bit_string_length str =
     (let len = st_length str in
      if st_flags str AND ASN1_STRING_FLAG_BITS_LEFT \<noteq> 0
      then (len, if len = 0 then 0 else unat (st_flags str AND 0x07))
      else
        let len = (if len > 0 then int (trim_zeros (st_mem str) (nat len)) else len) in
        (len, if len > 0 then trailing_zero_bits (st_mem str ! (nat len - 1)) 0 else 0))"

definition ASN1_BIT_STRING_num_bytes :: "asn1_string \<Rightarrow> int option" where
  "ASN1_BIT_STRING_num_bytes str =
     (case asn1_bit_string_length str of (len, padding_bits) \<Rightarrow> if padding_bits \<noteq> 0 then None else Some len)"

text \<open>The result is the return value and the bytes stored at \<^verbatim>\<open>*pp\<close>, none when \<^verbatim>\<open>pp\<close> is a null pointer.\<close>

definition i2c_ASN1_BIT_STRING :: "asn1_string option \<Rightarrow> bool \<Rightarrow> int \<times> byte list" where
  "i2c_ASN1_BIT_STRING p write =
     (case p of
        None \<Rightarrow> (0, [])
      | Some a \<Rightarrow>
        (case asn1_bit_string_length a of (len, bits) \<Rightarrow>
           let ret = 1 + len in
           if \<not> write then (ret, [])
           else
             let p = take (nat len) (st_mem a);
                 p = (if len > 0 then p[nat len - 1 := p ! (nat len - 1) AND push_bit bits 0xff] else p)
             in (ret, word_of_nat bits # p)))"

text \<open>The result is the string returned, what \<^verbatim>\<open>*a\<close> is afterwards, for an \<^verbatim>\<open>a\<close> that is a null pointer or points to a pointer,
  and the rest of the input. On the failure to allocate, the flags of a string that is reused have already been set.\<close>

definition c2i_ASN1_BIT_STRING ::
    "heap_env \<Rightarrow> asn1_string option option \<Rightarrow> byte list \<Rightarrow> int \<Rightarrow>
     asn1_string option \<times> asn1_string option option \<times> byte list" where
  "c2i_ASN1_BIT_STRING env a pp len =
     (if len < 1 then (None, a, pp)
      else if len > int INT_MAX then (None, a, pp)
      else
        (case (case a of Some (Some s) \<Rightarrow> Some s | _ \<Rightarrow> ASN1_STRING_type_new env V_ASN1_BIT_STRING) of
           None \<Rightarrow> (None, a, pp)
         | Some ret \<Rightarrow>
           let padding = hd pp; p = tl pp; len = nat (len - 1) in
           if padding > 7 then (None, a, pp)
           else
             let padding_mask = push_bit (unat padding) 1 - 1 in
             if padding \<noteq> 0 \<and> (len < 1 \<or> p ! (len - 1) AND padding_mask \<noteq> 0) then (None, a, pp)
             else
               let flags = st_flags ret AND NOT (ASN1_STRING_FLAG_BITS_LEFT OR 0x07);
                   ret = ret\<lparr>st_flags := flags OR (ASN1_STRING_FLAG_BITS_LEFT OR ucast padding)\<rparr> in
               (case (if len > 0 then map_option Some (OPENSSL_memdup env p len) else Some None) of
                  None \<Rightarrow> (None, (case a of Some (Some s) \<Rightarrow> Some (Some ret) | _ \<Rightarrow> a), pp)
                | Some s \<Rightarrow>
                  let ret = ret\<lparr>st_length := int len, st_data := s, st_type := V_ASN1_BIT_STRING\<rparr> in
                  (Some ret, map_option (\<lambda>_. Some ret) a, drop len p))))"

text \<open>Bits are numbered from the most significant bit of the first byte on; indices are not negative.\<close>

definition ASN1_BIT_STRING_set_bit :: "heap_env \<Rightarrow> asn1_string option \<Rightarrow> nat \<Rightarrow> bool \<Rightarrow> bool \<times> asn1_string option" where
  "ASN1_BIT_STRING_set_bit env p n value =
     (let w = n div 8;
          v = push_bit (7 - n mod 8) (1 :: byte);
          iv = NOT v;
          v = (if value then v else 0) in
      case p of
        None \<Rightarrow> (False, None)
      | Some a \<Rightarrow>
        let a = a\<lparr>st_flags := st_flags a AND NOT (ASN1_STRING_FLAG_BITS_LEFT OR 0x07)\<rparr> in
        if (st_length a < int w + 1 \<or> st_data a = None) \<and> \<not> value then (True, Some a)
        else
          (case (if st_length a < int w + 1 \<or> st_data a = None
                 then (case (case st_data a of
                               None \<Rightarrow> OPENSSL_malloc env (w + 1)
                             | Some d \<Rightarrow> OPENSSL_realloc env (Some d) (w + 1)) of
                         None \<Rightarrow> None
                       | Some c \<Rightarrow>
                         let k = nat (int w + 1 - st_length a) in
                         Some (a\<lparr>st_data := Some (mem_write (nat (st_length a)) (replicate k 0) c), st_length := int w + 1\<rparr>))
                 else Some a) of
             None \<Rightarrow> (False, Some a)
           | Some a \<Rightarrow>
             let mem = (st_mem a)[w := st_mem a ! w AND iv OR v] in
             (True, Some (a\<lparr>st_data := Some mem, st_length := int (trim_zeros mem (nat (st_length a)))\<rparr>))))"

definition ASN1_BIT_STRING_get_bit :: "asn1_string option \<Rightarrow> nat \<Rightarrow> bool" where
  "ASN1_BIT_STRING_get_bit p n =
     (let w = n div 8;
          v = push_bit (7 - n mod 8) (1 :: byte) in
      case p of
        None \<Rightarrow> False
      | Some a \<Rightarrow>
        if st_length a < int w + 1 \<or> st_data a = None then False
        else st_mem a ! w AND v \<noteq> 0)"

fun bits_allowed :: "byte list \<Rightarrow> byte list \<Rightarrow> bool" where
  "bits_allowed [] flags = True"
| "bits_allowed (b # data) flags =
     (let mask = (case flags of [] \<Rightarrow> 0xff | f # fs \<Rightarrow> NOT f) in
      if b AND mask = 0 then bits_allowed data (tl flags) else False)"

definition ASN1_BIT_STRING_check :: "asn1_string option \<Rightarrow> byte list \<Rightarrow> bool" where
  "ASN1_BIT_STRING_check p flags =
     (case p of
        None \<Rightarrow> True
      | Some a \<Rightarrow> if st_data a = None then True else bits_allowed (take (nat (st_length a)) (st_mem a)) flags)"

section \<open>Comparison\<close>

definition ASN1_STRING_cmp :: "asn1_string \<Rightarrow> asn1_string \<Rightarrow> int" where
  "ASN1_STRING_cmp a b =
     (let (a_length, a_padding) = (if st_type a = V_ASN1_BIT_STRING then asn1_bit_string_length a else (st_length a, 0));
          (b_length, b_padding) = (if st_type b = V_ASN1_BIT_STRING then asn1_bit_string_length b else (st_length b, 0)) in
      if a_length < b_length then - 1
      else if a_length > b_length then 1
      else if a_padding > b_padding then - 1
      else if a_padding < b_padding then 1
      else
        let ret = OPENSSL_memcmp (st_mem a) (st_mem b) (nat a_length) in
        if ret \<noteq> 0 then ret
        else if st_type a < st_type b then - 1
        else if st_type a > st_type b then 1
        else 0)"

section \<open>The invariant\<close>

text \<open>The memory of a string holds its contents; the bits a bit string declares as padding are zero.\<close>

definition st_ok :: "asn1_string \<Rightarrow> bool" where
  "st_ok str \<longleftrightarrow> 0 \<le> st_length str \<and> st_length str \<le> int INT_MAX \<and> nat (st_length str) \<le> length (st_mem str)"

definition contents :: "asn1_string \<Rightarrow> byte list" where
  "contents str = take (nat (st_length str)) (st_mem str)"

definition padding_clear :: "asn1_string \<Rightarrow> bool" where
  "padding_clear str \<longleftrightarrow>
     (st_flags str AND ASN1_STRING_FLAG_BITS_LEFT \<noteq> 0 \<and> 0 < st_length str \<longrightarrow>
      last (contents str) AND mask (unat (st_flags str AND 0x07)) = 0)"

definition bs_ok :: "asn1_string \<Rightarrow> bool" where
  "bs_ok str \<longleftrightarrow> st_ok str \<and> padding_clear str"

lemma st_ok_length: "st_ok str \<Longrightarrow> length (contents str) = nat (st_length str)"
  by (simp add: st_ok_def contents_def)

lemma st_mem_Some [simp]: "st_data str = Some m \<Longrightarrow> st_mem str = m"
  by (simp add: st_mem_def)

lemma st_ok_data: "st_ok str \<Longrightarrow> st_data str = None \<Longrightarrow> st_length str = 0"
  by (simp add: st_ok_def st_mem_def)

lemma set_memory:
  assumes "st_ok str" "(if st_length str \<le> int len \<or> st_data str = None
               then (case st_data str of
                       None \<Rightarrow> OPENSSL_malloc env (len + 1)
                     | Some c \<Rightarrow> OPENSSL_realloc env (Some c) (len + 1))
               else st_data str) = Some mem"
  shows "len < length mem"
proof (cases "st_length str \<le> int len \<or> st_data str = None")
  case True
  then have "length mem = len + 1"
    using assms(2)
    by (auto simp: OPENSSL_realloc_def mem_write_def dest!: OPENSSL_malloc_length split: option.split_asm if_split_asm)
  then show ?thesis by simp
next
  case False
  then show ?thesis using assms by (auto simp: st_ok_def)
qed

text \<open>Setting a string to a block of memory.\<close>

lemma ASN1_STRING_set_Some:
  assumes "st_ok str" "ASN1_STRING_set env str (Some d) len = (True, str')" "0 \<le> len" "nat len \<le> length d" "len \<le> int INT_MAX"
  shows "st_ok str' \<and> contents str' = take (nat len) d \<and> st_mem str' ! nat len = 0 \<and>
    st_type str' = st_type str \<and> st_flags str' = st_flags str"
proof -
  define X where "X = (if st_length str \<le> int (nat len) \<or> st_data str = None
               then (case st_data str of
                       None \<Rightarrow> OPENSSL_malloc env (nat len + 1)
                     | Some c \<Rightarrow> OPENSSL_realloc env (Some c) (nat len + 1))
               else st_data str)"
  have "ASN1_STRING_set env str (Some d) len =
      (case X of
         None \<Rightarrow> (False, str)
       | Some mem \<Rightarrow> (True, str\<lparr>st_data := Some (mem_write 0 (take (nat len) d @ [0]) mem), st_length := int (nat len)\<rparr>))"
    using assms(3) by (simp add: ASN1_STRING_set_def X_def Let_def split: option.split)
  with assms(2) obtain mem where m: "X = Some mem"
    and s: "str' = str\<lparr>st_data := Some (mem_write 0 (take (nat len) d @ [0]) mem), st_length := int (nat len)\<rparr>"
    by (auto split: option.split_asm)
  from set_memory [OF assms(1) m [unfolded X_def]] have "nat len < length mem" .
  then show ?thesis
    using assms(3-5) unfolding s by (simp add: st_ok_def contents_def mem_write_def nth_append)
qed

section \<open>Bits\<close>

lemma bit_test: "(b :: byte) AND 2 ^ k = 0 \<longleftrightarrow> \<not> bit b k" "b AND push_bit k 1 = 0 \<longleftrightarrow> \<not> bit b k"
  using and_exp_eq_0_iff_not_bit [of b k] by (simp_all add: push_bit_eq_mult)

definition bs_bit :: "asn1_string \<Rightarrow> nat \<Rightarrow> bool" where
  "bs_bit str n \<longleftrightarrow> n div 8 < nat (st_length str) \<and> bit (st_mem str ! (n div 8)) (7 - n mod 8)"

lemma get_bit_eq: "st_ok str \<Longrightarrow> ASN1_BIT_STRING_get_bit (Some str) n = bs_bit str n"
  by (cases "st_data str") (auto simp: ASN1_BIT_STRING_get_bit_def bs_bit_def Let_def bit_test st_ok_data)

lemma trim_zeros_le: "trim_zeros mem len \<le> len"
  by (induction mem len rule: trim_zeros.induct) auto

lemma trim_zeros_dropped: "trim_zeros mem len \<le> i \<Longrightarrow> i < len \<Longrightarrow> mem ! i = 0"
  by (induction mem len rule: trim_zeros.induct) (auto simp: less_Suc_eq split: if_split_asm)

lemma trim_zeros_last: "0 < trim_zeros mem len \<Longrightarrow> mem ! (trim_zeros mem len - 1) \<noteq> 0"
  by (induction mem len rule: trim_zeros.induct) auto

lemma trailing_zero_bits:
  assumes "b \<noteq> 0" "k \<le> 7" "\<And>i. i < k \<Longrightarrow> \<not> bit b i"
  shows "trailing_zero_bits b k \<le> 7 \<and> bit b (trailing_zero_bits b k) \<and> (\<forall>i < trailing_zero_bits b k. \<not> bit b i)"
  using assms
proof (induction b k rule: trailing_zero_bits.induct)
  case (1 b k)
  show ?case
  proof (cases "k < 7")
    case True
    show ?thesis
    proof (cases "bit b k")
      case True
      then show ?thesis using \<open>k < 7\<close> "1.prems" by (subst (1 2 3) trailing_zero_bits.simps) (simp add: bit_test)
    next
      case False
      have "\<not> bit b i" if "i < k + 1" for i using that False "1.prems"(3) by (cases "i = k") auto
      then have "trailing_zero_bits b (k + 1) \<le> 7 \<and> bit b (trailing_zero_bits b (k + 1)) \<and>
          (\<forall>i < trailing_zero_bits b (k + 1). \<not> bit b i)"
        using True False "1.prems" by (intro "1.IH") (auto simp: bit_test)
      moreover have "trailing_zero_bits b k = trailing_zero_bits b (k + 1)"
        using True False by (subst trailing_zero_bits.simps) (simp add: bit_test)
      ultimately show ?thesis by simp
    qed
  next
    case False
    then have k: "k = 7" using "1.prems"(2) by simp
    obtain i where i: "bit b i" using "1.prems"(1) by (metis bit_0_eq bit_eqI bot_apply bot_bool_def)
    then have "i < 8" using bit_imp_le_length by fastforce
    then have "i = 7" using i "1.prems"(3) [of i] k by (cases "i < 7") auto
    then show ?thesis using k i "1.prems"(3) by (simp add: trailing_zero_bits.simps)
  qed
qed

section \<open>Setting a bit\<close>

lemma flags_cleared:
  "(f AND NOT (ASN1_STRING_FLAG_BITS_LEFT OR 0x07)) AND ASN1_STRING_FLAG_BITS_LEFT = (0 :: u64)"
proof -
  have "NOT (ASN1_STRING_FLAG_BITS_LEFT OR 0x07) AND ASN1_STRING_FLAG_BITS_LEFT = 0"
    by (simp add: ASN1_STRING_FLAG_BITS_LEFT_def)
  then show ?thesis by (simp add: and.assoc)
qed

definition st_bits :: "byte list \<Rightarrow> nat \<Rightarrow> nat \<Rightarrow> bool" where
  "st_bits mem len n \<longleftrightarrow> n div 8 < len \<and> bit (mem ! (n div 8)) (7 - n mod 8)"

lemma bs_bit_st_bits: "bs_bit str n = st_bits (st_mem str) (nat (st_length str)) n"
  by (simp add: bs_bit_def st_bits_def)

lemma st_bits_trim: "st_bits mem (trim_zeros mem len) n = st_bits mem len n"
  using trim_zeros_dropped [of mem len "n div 8"] trim_zeros_le [of mem len]
  by (auto simp: st_bits_def not_less intro: ccontr)

lemma bit_index_inj: "m div 8 = n div 8 \<Longrightarrow> 7 - m mod 8 = 7 - n mod 8 \<longleftrightarrow> m = (n :: nat)"
proof -
  assume d: "m div 8 = n div 8"
  have "m mod 8 < 8" "n mod 8 < 8" by simp_all
  then have "7 - m mod 8 = 7 - n mod 8 \<longleftrightarrow> m mod 8 = n mod 8" by linarith
  then show ?thesis using d by (metis mult_div_mod_eq)
qed

lemma st_bits_update:
  assumes "n div 8 < len" "len \<le> length mem"
  shows "st_bits (mem[n div 8 := mem ! (n div 8) AND NOT (push_bit (7 - n mod 8) 1) OR
      (if value then push_bit (7 - n mod 8) 1 else 0)]) len m = (if m = n then value else st_bits mem len m)"
proof (cases "m div 8 = n div 8")
  case True
  have "7 - m mod 8 < 8" "7 - n mod 8 < 8" by simp_all
  then show ?thesis using assms True bit_index_inj [OF True] by (auto simp: st_bits_def bit_simps)
next
  case False
  then show ?thesis by (auto simp: st_bits_def)
qed

text \<open>The string \<^verbatim>\<open>ASN1_BIT_STRING_set_bit\<close> works on after it has made room.\<close>

lemma set_bit_room:
  assumes ok: "st_ok a" and w: "int w < int INT_MAX"
    and room: "(if st_length a < int w + 1 \<or> st_data a = None
       then (case (case st_data a of None \<Rightarrow> OPENSSL_malloc env (w + 1) | Some d \<Rightarrow> OPENSSL_realloc env (Some d) (w + 1)) of
               None \<Rightarrow> None
             | Some c \<Rightarrow>
               let k = nat (int w + 1 - st_length a) in
               Some (a\<lparr>st_data := Some (mem_write (nat (st_length a)) (replicate k 0) c), st_length := int w + 1\<rparr>))
       else Some a) = Some b"
  shows "st_ok b \<and> int w < st_length b \<and> (\<forall>m. bs_bit b m = bs_bit a m) \<and> st_flags b = st_flags a \<and> st_type b = st_type a"
proof (cases "st_length a < int w + 1 \<or> st_data a = None")
  case True
  define l where "l = nat (st_length a)"
  have l: "l \<le> w + 1" "st_length a = int l"
    using True ok st_ok_data [OF ok] by (auto simp: l_def st_ok_def)
  from room True obtain c where
    c: "(case st_data a of None \<Rightarrow> OPENSSL_malloc env (w + 1) | Some d \<Rightarrow> OPENSSL_realloc env (Some d) (w + 1)) = Some c"
    and b: "b = a\<lparr>st_data := Some (mem_write l (replicate (nat (int w + 1 - st_length a)) 0) c), st_length := int w + 1\<rparr>"
    by (auto simp: l_def Let_def split: option.split_asm)
  have k: "nat (int w + 1 - st_length a) = w + 1 - l" using l by simp
  have cl: "length c = w + 1" "take l c = take l (st_mem a)"
  proof -
    have "length c = w + 1 \<and> take l c = take l (st_mem a)"
    proof (cases "st_data a")
      case None
      then have "l = 0" "length c = w + 1" using c st_ok_data [OF ok] l(2) OPENSSL_malloc_length by auto
      then show ?thesis by simp
    next
      case (Some d)
      have ld: "l \<le> length d" using ok Some by (simp add: st_ok_def l_def)
      obtain m where m: "OPENSSL_malloc env (w + 1) = Some m" "c = mem_write 0 (take (min (length d) (w + 1)) d) m"
        using c Some by (auto simp: OPENSSL_realloc_def Let_def min_def split: option.split_asm)
      have "length m = w + 1" using OPENSSL_malloc_length [OF m(1)] .
      then show ?thesis using ld l(1) Some by (simp add: m(2) mem_write_def min_def)
    qed
    then show "length c = w + 1" "take l c = take l (st_mem a)" by simp_all
  qed
  have m: "st_mem b = take l (st_mem a) @ replicate (w + 1 - l) 0" "st_length b = int (w + 1)"
    using cl l by (simp_all add: b k mem_write_def)
  have la: "l \<le> length (st_mem a)" using ok by (simp add: st_ok_def l_def)
  have bits: "bs_bit b n = bs_bit a n" for n
    using la l by (auto simp: bs_bit_def m nth_append min_def)
  show ?thesis using ok w bits la l by (simp add: st_ok_def m b [symmetric] min_def) (simp add: b)
next
  case False
  then show ?thesis using ok room by (auto simp: st_ok_def)
qed

text \<open>The bits of a string after a bit has been set or cleared.\<close>

lemma set_bit_Some:
  assumes ok: "st_ok a" and w: "int (n div 8) < int INT_MAX"
    and set: "ASN1_BIT_STRING_set_bit env (Some a) n value = (True, Some b)"
  shows "bs_ok b \<and> st_flags b AND ASN1_STRING_FLAG_BITS_LEFT = 0 \<and> st_type b = st_type a \<and>
    (\<forall>m. bs_bit b m = (if m = n then value else bs_bit a m))"
proof -
  define a' where "a' = a\<lparr>st_flags := st_flags a AND NOT (ASN1_STRING_FLAG_BITS_LEFT OR 0x07)\<rparr>"
  have ok': "st_ok a'" using ok by (simp add: st_ok_def a'_def st_mem_def)
  have same: "bs_bit a' m = bs_bit a m" "st_type a' = st_type a" for m by (simp_all add: bs_bit_def a'_def st_mem_def)
  have fl: "st_flags a' AND ASN1_STRING_FLAG_BITS_LEFT = 0" using flags_cleared [of "st_flags a"] by (simp add: a'_def)
  show ?thesis
  proof (cases "(st_length a' < int (n div 8) + 1 \<or> st_data a' = None) \<and> \<not> value")
    case True
    then have b: "b = a'" using set unfolding ASN1_BIT_STRING_set_bit_def Let_def option.case a'_def [symmetric] if_P [OF True] by simp
    have "\<not> bs_bit a' n" using True st_ok_data [OF ok'] by (auto simp: bs_bit_def)
    then show ?thesis using True ok' fl by (auto simp: b bs_ok_def padding_clear_def same)
  next
    case False
    define X where "X = (if st_length a' < int (n div 8) + 1 \<or> st_data a' = None
       then (case (case st_data a' of None \<Rightarrow> OPENSSL_malloc env (n div 8 + 1) | Some d \<Rightarrow> OPENSSL_realloc env (Some d) (n div 8 + 1)) of
               None \<Rightarrow> None
             | Some c \<Rightarrow>
               let k = nat (int (n div 8) + 1 - st_length a') in
               Some (a'\<lparr>st_data := Some (mem_write (nat (st_length a')) (replicate k 0) c), st_length := int (n div 8) + 1\<rparr>))
       else Some a')"
    have e: "ASN1_BIT_STRING_set_bit env (Some a) n value =
        (case X of
           None \<Rightarrow> (False, Some a')
         | Some a \<Rightarrow>
           let mem = (st_mem a)[n div 8 := st_mem a ! (n div 8) AND NOT (push_bit (7 - n mod 8) 1) OR
             (if value then push_bit (7 - n mod 8) 1 else 0)] in
           (True, Some (a\<lparr>st_data := Some mem, st_length := int (trim_zeros mem (nat (st_length a)))\<rparr>)))"
      unfolding ASN1_BIT_STRING_set_bit_def Let_def option.case a'_def [symmetric] X_def [unfolded Let_def, symmetric] if_not_P [OF False] ..
    from set e obtain c where X: "X = Some c" by (cases X) auto
    define mem where "mem = (st_mem c)[n div 8 := st_mem c ! (n div 8) AND NOT (push_bit (7 - n mod 8) 1) OR
             (if value then push_bit (7 - n mod 8) 1 else 0)]"
    have b: "b = c\<lparr>st_data := Some mem, st_length := int (trim_zeros mem (nat (st_length c)))\<rparr>"
      using set unfolding e X by (simp add: mem_def Let_def)
    from set_bit_room [OF ok' w X [unfolded X_def]] have
      c: "st_ok c" "int (n div 8) < st_length c" "\<And>m. bs_bit c m = bs_bit a' m" "st_flags c = st_flags a'" "st_type c = st_type a'" by auto
    have t: "trim_zeros mem (nat (st_length c)) \<le> nat (st_length c)" by (rule trim_zeros_le)
    have "length mem = length (st_mem c)" "nat (st_length c) \<le> INT_MAX" using c(1) by (simp_all add: mem_def st_ok_def nat_le_iff)
    then have okb: "st_ok b" using c(1) t by (simp add: st_ok_def b)
    have "bs_bit b m = (if m = n then value else bs_bit a m)" for m
    proof -
      have "bs_bit b m = st_bits mem (nat (st_length c)) m" by (simp add: bs_bit_st_bits b st_bits_trim)
      also have "\<dots> = (if m = n then value else bs_bit c m)"
        unfolding mem_def bs_bit_st_bits using c(1,2) by (intro st_bits_update) (auto simp: st_ok_def)
      finally show ?thesis by (simp add: c(3) same)
    qed
    moreover have "st_flags b = st_flags a'" "st_type b = st_type a" by (simp_all add: b c(4,5) same)
    ultimately show ?thesis using okb fl by (auto simp: bs_ok_def padding_clear_def)
  qed
qed

section \<open>Contents octets of bit strings\<close>

text \<open>The bytes and the number of padding bits that are written.\<close>

lemma last_contents:
  "st_ok a \<Longrightarrow> 0 < st_length a \<Longrightarrow> contents a \<noteq> [] \<and> last (contents a) = st_mem a ! (nat (st_length a) - 1)"
proof -
  assume a: "st_ok a" "0 < st_length a"
  then have ne: "contents a \<noteq> []" using st_ok_length [of a] by auto
  have "last (contents a) = contents a ! (nat (st_length a) - 1)" using last_conv_nth [OF ne] st_ok_length [OF a(1)] by simp
  then show ?thesis using ne a(2) by (simp add: contents_def)
qed

lemma and_high_mask:
  fixes b :: byte
  shows "b AND mask k = 0 \<Longrightarrow> b AND push_bit k 0xff = b"
proof -
  assume b: "b AND mask k = 0"
  have low: "\<not> bit b i" if "i < k" for i
    using b that by (metis bit_0_eq bit_and_iff bit_mask_iff bit_imp_le_length bot_apply bot_bool_def linorder_not_less possible_bit_def possible_bit_word)
  have ff: "(0xff :: byte) = mask 8" by (simp add: mask_eq_exp_minus_1)
  show ?thesis
  proof (rule bit_word_eqI)
    fix i assume "i < LENGTH(8)"
    then show "bit (b AND push_bit k 0xff) i = bit b i"
      unfolding ff using low [of i] by (cases "i < k") (auto simp: bit_simps)
  qed
qed

lemma bit_string_length:
  assumes ok: "bs_ok a" and len: "asn1_bit_string_length a = (len, bits)"
  shows "0 \<le> len \<and> len \<le> st_length a \<and> bits \<le> 7 \<and> (len = 0 \<longrightarrow> bits = 0) \<and>
    (0 < len \<longrightarrow> st_mem a ! (nat len - 1) AND mask bits = 0) \<and> (\<forall>n. bs_bit a n = st_bits (st_mem a) (nat len) n)"
proof (cases "st_flags a AND ASN1_STRING_FLAG_BITS_LEFT \<noteq> 0")
  case True
  have st: "st_ok a" using ok by (simp add: bs_ok_def)
  have l: "len = st_length a" "bits = (if len = 0 then 0 else unat (st_flags a AND 0x07))"
    using len True by (auto simp: asn1_bit_string_length_def Let_def)
  have "unat (st_flags a AND mask 3) = unat (st_flags a) mod 2 ^ 3" by (rule unat_and_mask_eq)
  then have "unat (st_flags a AND 0x07) < 8" by (simp add: mask_eq_exp_minus_1)
  moreover have "0 < len \<longrightarrow> st_mem a ! (nat len - 1) AND mask bits = 0"
    using ok True last_contents [OF st] by (auto simp: bs_ok_def padding_clear_def l)
  ultimately show ?thesis using st by (auto simp: l st_ok_def bs_bit_st_bits)
next
  case False
  have st: "st_ok a" using ok by (simp add: bs_ok_def)
  define t where "t = trim_zeros (st_mem a) (nat (st_length a))"
  have l: "len = int t" "bits = (if 0 < t then trailing_zero_bits (st_mem a ! (t - 1)) 0 else 0)"
    using len False st by (auto simp: asn1_bit_string_length_def t_def Let_def st_ok_def split: if_split_asm)
  have tl: "t \<le> nat (st_length a)" unfolding t_def by (rule trim_zeros_le)
  have "st_mem a ! (t - 1) AND mask bits = 0 \<and> bits \<le> 7" if "0 < t"
  proof -
    define b where "b = st_mem a ! (t - 1)"
    have "b \<noteq> 0" using that unfolding b_def t_def by (rule trim_zeros_last)
    from trailing_zero_bits [OF this, of 0] have "bits \<le> 7" "\<forall>i < bits. \<not> bit b i" using that by (simp_all add: l b_def)
    moreover from this have "b AND mask bits = 0" by (intro bit_word_eqI) (auto simp: bit_simps)
    ultimately show ?thesis by (simp add: b_def)
  qed
  then show ?thesis
    using st tl by (auto simp: l st_ok_def bs_bit_st_bits st_bits_trim [of "st_mem a" "nat (st_length a)", folded t_def])
qed

lemma i2c_eq:
  assumes "bs_ok a" "asn1_bit_string_length a = (len, bits)"
  shows "i2c_ASN1_BIT_STRING (Some a) True = (1 + len, word_of_nat bits # take (nat len) (st_mem a))"
proof -
  note b = bit_string_length [OF assms]
  have "nat len \<le> length (st_mem a)"
    using b assms(1) nat_mono [of len "st_length a"] by (simp add: bs_ok_def st_ok_def)
  moreover have "st_mem a ! (nat len - 1) AND push_bit bits 0xff = st_mem a ! (nat len - 1)" if "0 < len"
    using b that and_high_mask by blast
  moreover have "(take (nat len) (st_mem a))[nat len - 1 := st_mem a ! (nat len - 1)] = take (nat len) (st_mem a)" if "0 < len"
    using list_update_id [of "take (nat len) (st_mem a)" "nat len - 1"] that by simp
  ultimately show ?thesis by (auto simp: i2c_ASN1_BIT_STRING_def assms(2) Let_def)
qed

lemma bitstring_bits:
  assumes "length body = len" "bits \<le> 7" "len = 0 \<longrightarrow> bits = 0" "0 < len \<longrightarrow> last body AND mask bits = 0" "len \<le> INT_MAX"
  shows "CBS_is_valid_asn1_bitstring (word_of_nat bits # body) \<and>
    CBS_asn1_bitstring_has_bit (word_of_nat bits # body) n = st_bits body len (unat n)"
proof -
  define u :: byte where "u = word_of_nat bits"
  have u: "unat u = bits" unfolding u_def by (rule unat_word_of_nat_lt) (use assms(2) in simp)
  have ule: "\<not> u > 7" using assms(2) by (simp add: word_less_nat_alt u)
  have "CBS_is_valid_asn1_bitstring (u # body)"
  proof (cases "bits = 0")
    case True
    then have "u = 0" by (simp add: u_def)
    then show ?thesis using ule by (simp add: CBS_is_valid_asn1_bitstring_def)
  next
    case False
    then have "u \<noteq> 0" using u by auto
    moreover have "body \<noteq> []" "0 < len" using False assms(1,3) by auto
    ultimately show ?thesis
      using ule assms(1,4) u
      by (simp add: CBS_is_valid_asn1_bitstring_def CBS_get_last_u8_def last_conv_nth mask_eq_exp_minus_1 push_bit_eq_mult)
  qed
  moreover have "unat (drop_bit 3 n + 1) = unat n div 8 + 1"
  proof -
    have "unat (drop_bit 3 n) = unat n div 8" by (simp add: unat_drop_bit_div)
    moreover have "unat n div 8 < 2 ^ 29" using unat_u32_lt [of n] by (simp add: less_mult_imp_div_less)
    then have "unat n div 8 + 1 < 2 ^ 32" by simp
    ultimately show ?thesis by (subst unat_add_lem [THEN iffD1]) simp_all
  qed
  moreover have "unat (7 - (n AND 7)) = 7 - unat n mod 8"
  proof -
    have "unat (n AND mask 3) = unat n mod 2 ^ 3" by (rule unat_and_mask_eq)
    then have "unat (n AND 7) = unat n mod 8" by (simp add: mask_eq_exp_minus_1)
    then show ?thesis by (subst unat_sub) (simp_all add: word_le_nat_alt less_Suc_eq_le [symmetric])
  qed
  ultimately show ?thesis
    using assms(1) unfolding u_def [symmetric]
    by (auto simp: CBS_asn1_bitstring_has_bit_def CBS_len_def CBS_data_def st_bits_def Let_def bit_test nth_Cons')
qed

section \<open>Reading contents octets\<close>

lemma padding_flags:
  fixes g :: u64
  assumes "bits \<le> 7"
  defines "f \<equiv> (g AND NOT (ASN1_STRING_FLAG_BITS_LEFT OR 0x07)) OR (ASN1_STRING_FLAG_BITS_LEFT OR (word_of_nat bits :: u64))"
  shows "f AND ASN1_STRING_FLAG_BITS_LEFT \<noteq> 0" "unat (f AND 0x07) = bits"
proof -
  define w :: u64 where "w = word_of_nat bits"
  have w: "unat w = bits" unfolding w_def by (rule unat_word_of_nat_lt) (use assms(1) in simp)
  have w7: "w AND 0x07 = w"
  proof -
    have "unat (w AND mask 3) = unat w mod 2 ^ 3" by (rule unat_and_mask_eq)
    then have "unat (w AND 0x07) = unat w" using assms(1) w by (simp add: mask_eq_exp_minus_1)
    then show ?thesis by (simp only: word_unat_eq_iff)
  qed
  have e: "ASN1_STRING_FLAG_BITS_LEFT = 2 ^ 3" and m: "(0x07 :: u64) = mask 3"
    by (simp_all add: ASN1_STRING_FLAG_BITS_LEFT_def mask_eq_exp_minus_1)
  have flag: "bit ASN1_STRING_FLAG_BITS_LEFT n \<longleftrightarrow> n = 3" for n
    unfolding e bit_exp_iff by auto
  have "bit (f AND ASN1_STRING_FLAG_BITS_LEFT) 3"
    unfolding f_def by (simp add: bit_and_iff bit_or_iff flag)
  then show "f AND ASN1_STRING_FLAG_BITS_LEFT \<noteq> 0" by auto
  have "f AND 0x07 = w AND 0x07"
    unfolding f_def w_def [symmetric] m
    by (rule bit_word_eqI) (auto simp: bit_and_iff bit_or_iff bit_not_iff bit_mask_iff flag)
  then show "unat (f AND 0x07) = bits" using w7 w by simp
qed

lemma valid_bitstring_Cons:
  "CBS_is_valid_asn1_bitstring (u # body) \<longleftrightarrow>
     unat u \<le> 7 \<and> (u \<noteq> 0 \<longrightarrow> body \<noteq> [] \<and> last body AND mask (unat u) = 0)"
  by (auto simp: CBS_is_valid_asn1_bitstring_def CBS_get_last_u8_def last_conv_nth mask_eq_exp_minus_1 push_bit_eq_mult
      word_less_nat_alt not_less split: if_split_asm)

text \<open>A contents string that is a valid bit string is accepted; the new string holds its bits.\<close>

lemma c2i_bit_string:
  assumes mem: "\<And>k. h_ok env k" and valid: "CBS_is_valid_asn1_bitstring (u # body)" and len: "Suc (length body) \<le> INT_MAX"
  shows "\<exists>b. c2i_ASN1_BIT_STRING env None (u # body @ rest) (int (Suc (length body))) = (Some b, None, rest) \<and>
    bs_ok b \<and> contents b = body \<and> st_type b = V_ASN1_BIT_STRING \<and> asn1_bit_string_length b = (int (length body), unat u)"
proof -
  have u: "unat u \<le> 7" "u \<noteq> 0 \<Longrightarrow> body \<noteq> [] \<and> last body AND mask (unat u) = 0"
    using valid by (simp_all add: valid_bitstring_Cons)
  have u7: "\<not> u > 7" using u(1) by (simp add: word_less_nat_alt)
  obtain ret where ret: "ASN1_STRING_type_new env V_ASN1_BIT_STRING = Some ret"
    using mem by (simp add: ASN1_STRING_type_new_def sizeof_ASN1_STRING_def OPENSSL_malloc_def size_add_def SIZE_MOD_def)
  define f where "f = st_flags ret AND NOT (ASN1_STRING_FLAG_BITS_LEFT OR 0x07) OR (ASN1_STRING_FLAG_BITS_LEFT OR ucast u)"
  have wu: "(word_of_nat (unat u) :: u64) = ucast u" by simp
  note f = padding_flags [OF u(1), of "st_flags ret", unfolded wu, folded f_def]
  have pad: "\<not> (u \<noteq> 0 \<and> (length body < 1 \<or> (body @ rest) ! (length body - 1) AND (push_bit (unat u) 1 - 1) \<noteq> 0))"
    using u(2) by (auto simp: nth_append last_conv_nth mask_eq_exp_minus_1 push_bit_eq_mult)
  have dup: "(if length body > 0 then map_option Some (OPENSSL_memdup env (body @ rest) (length body)) else Some None) =
      Some (if body = [] then None else Some body)"
  proof (cases "body = []")
    case False
    obtain m where m: "OPENSSL_memdup env (body @ rest) (length body) = Some m"
      using mem False len by (auto simp: OPENSSL_memdup_def OPENSSL_malloc_def size_add_def SIZE_MOD_def INT_MAX_def)
    from OPENSSL_memdup_Some [OF this] have "m = body" by simp
    then show ?thesis using m False by simp
  qed simp
  define b where "b = ret\<lparr>st_flags := f, st_length := int (length body), st_data := (if body = [] then None else Some body),
      st_type := V_ASN1_BIT_STRING\<rparr>"
  have n: "nat (int (Suc (length body)) - 1) = length body" "\<not> int (Suc (length body)) < 1" "\<not> int (Suc (length body)) > int INT_MAX"
    using len by simp_all
  have "c2i_ASN1_BIT_STRING env None (u # body @ rest) (int (Suc (length body))) = (Some b, None, rest)"
    unfolding c2i_ASN1_BIT_STRING_def Let_def option.case ret list.sel n(1) if_not_P [OF n(2)] if_not_P [OF n(3)]
      if_not_P [OF u7] if_not_P [OF pad] dup
    by (simp add: b_def f_def)
  moreover have mb: "st_mem b = body" "st_length b = int (length body)" "st_flags b = f" by (simp_all add: b_def st_mem_def)
  have "bs_ok b"
    using len u f by (cases "u = 0") (auto simp: bs_ok_def st_ok_def padding_clear_def mb contents_def)
  moreover have "asn1_bit_string_length b = (int (length body), unat u)"
    using f u(2) by (cases "u = 0") (auto simp: asn1_bit_string_length_def mb)
  ultimately show ?thesis by (auto simp: contents_def mb b_def)
qed

section \<open>Properties\<close>

text \<open>A string and a list of bits to set or clear, one after the other.\<close>

fun bs_run :: "heap_env \<Rightarrow> (nat \<times> bool) list \<Rightarrow> asn1_string \<Rightarrow> asn1_string option" where
  "bs_run env [] a = Some a"
| "bs_run env ((n, v) # ops) a =
     (case ASN1_BIT_STRING_set_bit env (Some a) n v of
        (True, Some b) \<Rightarrow> bs_run env ops b
      | _ \<Rightarrow> None)"

fun set_run :: "(nat \<times> bool) list \<Rightarrow> nat set \<Rightarrow> nat set" where
  "set_run [] S = S"
| "set_run ((n, v) # ops) S = set_run ops (if v then insert n S else S - {n})"

definition bits_of :: "asn1_string \<Rightarrow> nat set" where
  "bits_of a = {n. ASN1_BIT_STRING_get_bit (Some a) n}"

lemma bits_of_eq: "st_ok a \<Longrightarrow> bits_of a = {n. bs_bit a n}"
  by (simp add: bits_of_def get_bit_eq)

lemma set_bit_ok:
  assumes "\<And>k. h_ok env k" "n div 8 < INT_MAX"
  shows "\<exists>b. ASN1_BIT_STRING_set_bit env (Some a) n v = (True, Some b)"
proof -
  have "OPENSSL_malloc env (n div 8 + 1) \<noteq> None"
    using assms by (simp add: OPENSSL_malloc_def size_add_def SIZE_MOD_def INT_MAX_def)
  then show ?thesis
    by (auto simp: ASN1_BIT_STRING_set_bit_def OPENSSL_realloc_def Let_def split: option.split)
qed

lemma bs_run_refines:
  "bs_run env ops a = Some b \<Longrightarrow> bs_ok a \<Longrightarrow> \<forall>(n, v) \<in> set ops. n div 8 < INT_MAX \<Longrightarrow>
   bits_of b = set_run ops (bits_of a) \<and> bs_ok b"
proof (induction ops arbitrary: a)
  case (Cons op ops)
  obtain n v where op: "op = (n, v)" by fastforce
  obtain c where c: "ASN1_BIT_STRING_set_bit env (Some a) n v = (True, Some c)" "bs_run env ops c = Some b"
    using Cons.prems(1) by (auto simp: op split: prod.split_asm bool.split_asm option.split_asm)
  have st: "st_ok a" using Cons.prems(2) by (simp add: bs_ok_def)
  have w: "int (n div 8) < int INT_MAX" using Cons.prems(3) by (simp add: op)
  note s = set_bit_Some [OF st w c(1)]
  then have "bits_of c = (if v then insert n (bits_of a) else bits_of a - {n})"
    by (auto simp: bits_of_eq st bs_ok_def)
  moreover have "bits_of b = set_run ops (bits_of c) \<and> bs_ok b"
    using Cons.IH [OF c(2)] s Cons.prems(3) by simp
  ultimately show ?case by (simp add: op)
qed simp

text \<open>C35: a bit string implements a set of natural numbers: setting and clearing bits in any order, starting from any string whose
  declared padding is zero, has the effect of inserting and removing their numbers, for \<^verbatim>\<open>ASN1_BIT_STRING_get_bit\<close>;
  when memory is available no operation fails.\<close>

theorem bit_string_refines_set:
  assumes "bs_ok a" "\<forall>(n, v) \<in> set ops. n div 8 < INT_MAX"
  shows "(\<forall>b. bs_run env ops a = Some b \<longrightarrow> bits_of b = set_run ops (bits_of a) \<and> bs_ok b) \<and>
    ((\<forall>k. h_ok env k) \<longrightarrow> bs_run env ops a \<noteq> None)"
proof -
  have "bs_run env ops a \<noteq> None" if mem: "\<forall>k. h_ok env k"
    using assms(2)
  proof (induction ops arbitrary: a)
    case (Cons op ops)
    obtain n v where op: "op = (n, v)" by fastforce
    obtain b where "ASN1_BIT_STRING_set_bit env (Some a) n v = (True, Some b)"
      using set_bit_ok [of env n a v] mem Cons.prems by (auto simp: op)
    then show ?case using Cons.IH [of b] Cons.prems by (simp add: op)
  qed simp
  then show ?thesis using bs_run_refines assms by blast
qed

definition empty_bits :: asn1_string where
  "empty_bits = \<lparr>st_length = 0, st_type = V_ASN1_BIT_STRING, st_data = None, st_flags = 0\<rparr>"

lemma empty_bits_ok: "bs_ok empty_bits" "bits_of empty_bits = {}"
  by (simp_all add: bs_ok_def st_ok_def padding_clear_def empty_bits_def bits_of_def ASN1_BIT_STRING_get_bit_def Let_def)

theorem bit_string_refines_set_witness:
  "\<exists>b. bs_run all_ok [(9, True), (2, True), (9, False)] empty_bits = Some b \<and> bits_of b = {2}"
  using bit_string_refines_set [OF empty_bits_ok(1), of "[(9, True), (2, True), (9, False)]" all_ok]
  by (auto simp: empty_bits_ok(2) INT_MAX_def)

lemma i2c_valid:
  assumes "bs_ok a" "i2c_ASN1_BIT_STRING (Some a) True = (ret, out)"
  obtains len bits where "asn1_bit_string_length a = (len, bits)" "ret = 1 + len" "0 \<le> len"
    "out = word_of_nat bits # take (nat len) (st_mem a)" "length (take (nat len) (st_mem a)) = nat len" "bits \<le> 7"
    "CBS_is_valid_asn1_bitstring out" "\<And>n. CBS_asn1_bitstring_has_bit out n = bs_bit a (unat n)"
proof -
  obtain len bits where l: "asn1_bit_string_length a = (len, bits)" by fastforce
  note b = bit_string_length [OF assms(1) l]
  have o: "ret = 1 + len" "out = word_of_nat bits # take (nat len) (st_mem a)" using i2c_eq [OF assms(1) l] assms(2) by simp_all
  have n: "nat len \<le> length (st_mem a)" "nat len \<le> INT_MAX"
    using b assms(1) nat_mono [of len "st_length a"] by (auto simp: bs_ok_def st_ok_def)
  then have t: "length (take (nat len) (st_mem a)) = nat len" by simp
  have last: "0 < nat len \<longrightarrow> last (take (nat len) (st_mem a)) AND mask bits = 0"
  proof
    assume "0 < nat len"
    moreover from this have ne: "take (nat len) (st_mem a) \<noteq> []" using t by auto
    ultimately show "last (take (nat len) (st_mem a)) AND mask bits = 0" using b t by (simp add: last_conv_nth [OF ne])
  qed
  have z: "nat len = 0 \<longrightarrow> bits = 0" using b by auto
  have e: "st_bits (take (nat len) (st_mem a)) (nat len) m = st_bits (st_mem a) (nat len) m" for m
    by (simp add: st_bits_def cong: conj_cong)
  show ?thesis
    using bitstring_bits [OF t _ z last n(2)] b by (intro that [OF l o(1) _ o(2) t]) (simp_all add: o(2) e)
qed

text \<open>C36: the contents octets of a bit string are what the byte-string reader takes for one: \<^verbatim>\<open>i2c_ASN1_BIT_STRING\<close> returns
  their number, they pass \<^verbatim>\<open>CBS_is_valid_asn1_bitstring\<close>, and \<^verbatim>\<open>CBS_asn1_bitstring_has_bit\<close> finds the bits that
  \<^verbatim>\<open>ASN1_BIT_STRING_get_bit\<close> finds. Read by \<^verbatim>\<open>c2i_ASN1_BIT_STRING\<close>, with anything behind them, they give a string with the
  same bits and the same contents octets.\<close>

theorem bit_string_contents_octets:
  assumes "bs_ok a" "i2c_ASN1_BIT_STRING (Some a) True = (ret, out)" "ret \<le> int INT_MAX" "\<And>k. h_ok env k"
  shows "ret = int (length out) \<and> CBS_is_valid_asn1_bitstring out \<and>
    (\<forall>n. CBS_asn1_bitstring_has_bit out n = ASN1_BIT_STRING_get_bit (Some a) (unat n)) \<and>
    (\<exists>b. c2i_ASN1_BIT_STRING env None (out @ rest) ret = (Some b, None, rest) \<and> bits_of b = bits_of a \<and>
      i2c_ASN1_BIT_STRING (Some b) True = (ret, out))"
proof -
  from i2c_valid [OF assms(1,2)] obtain len bits where l: "asn1_bit_string_length a = (len, bits)" "ret = 1 + len" "0 \<le> len"
    and o: "out = word_of_nat bits # take (nat len) (st_mem a)" "length (take (nat len) (st_mem a)) = nat len" "bits \<le> 7"
    and v: "CBS_is_valid_asn1_bitstring out" and h: "\<And>n. CBS_asn1_bitstring_has_bit out n = bs_bit a (unat n)" by blast
  define body where "body = take (nat len) (st_mem a)"
  have st: "st_ok a" using assms(1) by (simp add: bs_ok_def)
  have r: "ret = int (Suc (length body))" using l o by (simp add: body_def)
  have u: "unat (word_of_nat bits :: byte) = bits" by (rule unat_word_of_nat_lt) (use o(3) in simp)
  have len: "Suc (length body) \<le> INT_MAX" using assms(3) unfolding r by (simp only: of_nat_le_iff)
  obtain b where b: "c2i_ASN1_BIT_STRING env None (word_of_nat bits # body @ rest) ret = (Some b, None, rest)"
      "bs_ok b" "contents b = body" "asn1_bit_string_length b = (int (length body), bits)"
    using c2i_bit_string [OF assms(4) _ len, of "word_of_nat bits" rest] v unfolding r o(1) body_def [symmetric] u by auto
  have tb: "take (length body) (st_mem b) = body"
  proof -
    have "st_length b = int (length body)"
      using b(2,3) st_ok_length [of b] bit_string_length [OF b(2,4)] by (simp add: bs_ok_def st_ok_def)
    then show ?thesis using b(3) by (simp add: contents_def)
  qed
  have "bs_bit b m = bs_bit a m" for m
  proof -
    have "bs_bit b m = st_bits (take (length body) (st_mem b)) (length body) m"
      using bit_string_length [OF b(2,4)] by (simp add: st_bits_def cong: conj_cong)
    also have "\<dots> = bs_bit a m"
      using bit_string_length [OF assms(1) l(1)] o(2) unfolding tb by (simp add: body_def st_bits_def cong: conj_cong)
    finally show ?thesis .
  qed
  then have "bits_of b = bits_of a" using b(2) st by (simp add: bits_of_eq bs_ok_def)
  moreover have "i2c_ASN1_BIT_STRING (Some b) True = (ret, out)"
    using i2c_eq [OF b(2,4)] tb by (simp add: r o(1) body_def)
  ultimately show ?thesis
    using b(1) v h r by (auto simp: o(1) body_def [symmetric] get_bit_eq [OF st])
qed

theorem bit_string_contents_octets_witness:
  "ASN1_BIT_STRING_get_bit (Some (empty_bits\<lparr>st_length := 1, st_data := Some [0x20, 9]\<rparr>)) 2 \<and>
   CBS_asn1_bitstring_has_bit [5, 0x20] 2"
proof -
  define a where "a = empty_bits\<lparr>st_length := 1, st_data := Some [0x20, 9]\<rparr>"
  have a: "st_length a = 1" "st_mem a = [0x20, 9]" "st_flags a = 0" by (simp_all add: a_def st_mem_def empty_bits_def)
  have ok: "bs_ok a" by (simp add: bs_ok_def st_ok_def padding_clear_def a INT_MAX_def)
  have l: "asn1_bit_string_length a = (1, 5)"
    by (simp add: asn1_bit_string_length_def a trailing_zero_bits.simps Let_def)
  have w: "i2c_ASN1_BIT_STRING (Some a) True = (2, [5, 0x20])" using i2c_eq [OF ok l] by (simp add: a)
  have g: "ASN1_BIT_STRING_get_bit (Some a) 2" by (simp add: ASN1_BIT_STRING_get_bit_def a_def empty_bits_def st_mem_def)
  then show ?thesis
    using bit_string_contents_octets [OF ok w, of all_ok "[]"] by (auto simp: INT_MAX_def a_def [symmetric] dest: spec [of _ "2 :: u32"])
qed

section \<open>The order of strings\<close>

text \<open>What is compared: the length and, negated, the number of padding bits, the bytes, and the type.\<close>

definition string_key :: "asn1_string \<Rightarrow> int \<times> int \<times> byte list \<times> int" where
  "string_key a =
     (case if st_type a = V_ASN1_BIT_STRING then asn1_bit_string_length a else (st_length a, 0) of
        (len, padding) \<Rightarrow> (len, - int padding, take (nat len) (st_mem a), st_type a))"

lemma string_key_cases:
  assumes "st_type a = V_ASN1_BIT_STRING \<longrightarrow> bs_ok a" "st_ok a"
  obtains len padding where "(if st_type a = V_ASN1_BIT_STRING then asn1_bit_string_length a else (st_length a, 0)) = (len, padding)"
    "length (take (nat len) (st_mem a)) = nat len"
proof -
  obtain len padding where e: "(if st_type a = V_ASN1_BIT_STRING then asn1_bit_string_length a else (st_length a, 0)) = (len, padding)"
    by fastforce
  have "len \<le> st_length a"
    using e assms(1) bit_string_length [of a len padding] by (auto split: if_split_asm)
  then have "nat len \<le> length (st_mem a)" using assms(2) nat_mono [of len "st_length a"] by (simp add: st_ok_def)
  then show ?thesis using that [OF e] by simp
qed

lemma OPENSSL_memcmp_take: "OPENSSL_memcmp a b n = memcmp (take n a) (take n b)"
  by (simp add: OPENSSL_memcmp_def)

lemma memcmp_order:
  assumes "length a = length b"
  shows "memcmp a b < 0 \<longleftrightarrow> a < b" "memcmp a b = 0 \<longleftrightarrow> a = b" "memcmp a b > 0 \<longleftrightarrow> b < a"
  using memcmp_lex [OF assms] memcmp_0_iff [OF assms] memcmp_lex [of b a] memcmp_swap [of a b] assms by simp_all

text \<open>\<^verbatim>\<open>ASN1_STRING_cmp\<close> is a total order: it compares the length, then the number of bits of the last byte that count, then
  the bytes, then the type. It is negative, zero or positive as the key of the first string is below, equal to or above
  that of the second.\<close>

theorem ASN1_STRING_cmp_order:
  assumes "st_ok a" "st_ok b" "st_type a = V_ASN1_BIT_STRING \<longrightarrow> bs_ok a" "st_type b = V_ASN1_BIT_STRING \<longrightarrow> bs_ok b"
  shows "(ASN1_STRING_cmp a b < 0 \<longleftrightarrow> string_key a < string_key b) \<and>
    (ASN1_STRING_cmp a b = 0 \<longleftrightarrow> string_key a = string_key b)"
proof -
  obtain la pa where a: "(if st_type a = V_ASN1_BIT_STRING then asn1_bit_string_length a else (st_length a, 0)) = (la, pa)"
      "length (take (nat la) (st_mem a)) = nat la"
    using string_key_cases [OF assms(3,1)] .
  obtain lb pb where b: "(if st_type b = V_ASN1_BIT_STRING then asn1_bit_string_length b else (st_length b, 0)) = (lb, pb)"
      "length (take (nat lb) (st_mem b)) = nat lb"
    using string_key_cases [OF assms(4,2)] .
  define x y where "x = take (nat la) (st_mem a)" and "y = take (nat lb) (st_mem b)"
  have k: "string_key a = (la, - int pa, x, st_type a)" "string_key b = (lb, - int pb, y, st_type b)"
    by (simp_all only: string_key_def a(1) b(1) prod.case x_def y_def)
  have c: "ASN1_STRING_cmp a b =
     (if la < lb then - 1 else if la > lb then 1 else if pa > pb then - 1 else if pa < pb then 1
      else
        let ret = OPENSSL_memcmp (st_mem a) (st_mem b) (nat la) in
        if ret \<noteq> 0 then ret else if st_type a < st_type b then - 1 else if st_type a > st_type b then 1 else 0)"
    by (simp only: ASN1_STRING_cmp_def a(1) b(1) Let_def prod.case)
  show ?thesis
  proof (cases "la = lb \<and> pa = pb")
    case True
    then have "length x = length y" using a(2) b(2) by (simp add: x_def y_def)
    note m = memcmp_order [OF this]
    have "OPENSSL_memcmp (st_mem a) (st_mem b) (nat la) = memcmp x y"
      using True by (simp add: OPENSSL_memcmp_take x_def y_def)
    then show ?thesis using True m unfolding k c by (auto simp: Let_def)
  next
    case False
    then show ?thesis unfolding k c by auto
  qed
qed

theorem ASN1_STRING_cmp_order_witness:
  "ASN1_STRING_cmp (empty_bits\<lparr>st_type := 4\<rparr>) (empty_bits\<lparr>st_type := 4, st_length := 1, st_data := Some [7]\<rparr>) < 0"
  using ASN1_STRING_cmp_order [of "empty_bits\<lparr>st_type := 4\<rparr>" "empty_bits\<lparr>st_type := 4, st_length := 1, st_data := Some [7]\<rparr>"]
  by (simp add: st_ok_def st_mem_def empty_bits_def V_ASN1_BIT_STRING_def INT_MAX_def string_key_def)

text \<open>Copying a string gives one with the same value, of the same type and with the same flags, in memory of its own; when memory is
  short the destination is as it was.\<close>

lemma string_set_failed: "ASN1_STRING_set env str data len = (False, str') \<Longrightarrow> str' = str"
  by (auto simp: ASN1_STRING_set_def Let_def split: if_split_asm option.split_asm)

lemma ASN1_STRING_copy_value:
  assumes "st_ok dst" "st_ok str" "st_data str \<noteq> None" "ASN1_STRING_copy env dst (Some str) = (ok, dst')"
  shows "if ok then st_ok dst' \<and> contents dst' = contents str \<and> st_type dst' = st_type str \<and> st_flags dst' = st_flags str
    else dst' = dst"
proof -
  obtain d where d: "st_data str = Some d" using assms(3) by blast
  obtain ok' s where s: "ASN1_STRING_set env dst (Some d) (st_length str) = (ok', s)" by fastforce
  show ?thesis
  proof (cases ok')
    case True
    have l: "0 \<le> st_length str" "nat (st_length str) \<le> length d" "st_length str \<le> int INT_MAX"
      using assms(2) d by (simp_all add: st_ok_def)
    have e: "ok" "dst' = s\<lparr>st_type := st_type str, st_flags := st_flags str\<rparr>"
      using assms(4) s True d by (auto simp: ASN1_STRING_copy_def)
    have s': "ASN1_STRING_set env dst (Some d) (st_length str) = (True, s)" using s True by simp
    from ASN1_STRING_set_Some [OF assms(1) s' l]
    have "st_ok s" "contents s = take (nat (st_length str)) d" by simp_all
    then show ?thesis using e d by (simp add: st_ok_def contents_def st_mem_def)
  next
    case False
    then show ?thesis using assms(4) s d string_set_failed [of env dst "Some d" "st_length str" s] by (auto simp: ASN1_STRING_copy_def)
  qed
qed

end
