(* ===== verification/Time_Support.thy ===== *)
theory Time_Support
  imports Prelude "HOL-Library.Signed_Division"
begin

text \<open>
  Dates and times of \<^verbatim>\<open>crypto/asn1/time_support.c\<close>: the conversion between dates and Julian day numbers, the
  arithmetic on \<^verbatim>\<open>struct tm\<close> and the difference of two times. The divisions of the code are those of C, which round
  towards zero, and its values have the widths of the platform: an \<^verbatim>\<open>int\<close> has 32 bits and a \<^verbatim>\<open>long\<close> 64. Every operation of
  the code on them goes through \<open>int32\<close> or \<open>int64\<close> of the prelude, which wrap around. (In C the overflow of a signed operation is
  undefined and only the conversion of a \<^verbatim>\<open>long\<close> to an \<^verbatim>\<open>int\<close> wraps, so the properties have bounds under which no operation
  leaves its range.) \<open>julian_day\<close> and \<open>julian_date\<close> are the same formulas on integers, and the lemmas in
  section ``Widths'' show where the two agree. The specification is the calendar itself, as the function from a day to the
  next, and the count of seconds a broken-down time stands for.
\<close>

section \<open>Dates and Julian days\<close>

text \<open>The division of C rounds towards zero: \<^verbatim>\<open>/\<close> is \<open>sdiv\<close>.\<close>

definition SECS_PER_DAY :: int where "SECS_PER_DAY = 24 * 60 * 60"

text \<open>The code is one expression of \<^verbatim>\<open>int\<close> values; \<open>a\<close> is its subexpression \<^verbatim>\<open>(m - 14) / 12\<close>.\<close>

definition date_to_julian :: "int \<Rightarrow> int \<Rightarrow> int \<Rightarrow> int" where
  "date_to_julian y m d =
     (let a = int32 (m - 14) sdiv 12;
          p = int32 (1461 * int32 (int32 (y + 4800) + a)) sdiv 4;
          q = int32 (367 * int32 (int32 (m - 2) - int32 (12 * a))) sdiv 12;
          r = int32 (3 * (int32 (int32 (y + 4900) + a) sdiv 100)) sdiv 4
      in int32 (int32 (int32 (int32 (p + q) - r) + d) - 32075))"

text \<open>The day, month and year are stored as \<^verbatim>\<open>int\<close> values.\<close>

definition julian_to_date :: "int \<Rightarrow> int \<times> int \<times> int" where
  "julian_to_date jd =
     (let L = int64 (jd + 68569);
          n = int64 (4 * L) sdiv 146097;
          L = int64 (L - int64 (int64 (146097 * n) + 3) sdiv 4);
          i = int64 (4000 * int64 (L + 1)) sdiv 1461001;
          L = int64 (int64 (L - int64 (1461 * i) sdiv 4) + 31);
          j = int64 (80 * L) sdiv 2447;
          d = int32 (int64 (L - int64 (2447 * j) sdiv 80));
          L = j sdiv 11;
          m = int32 (int64 (int64 (j + 2) - int64 (12 * L)));
          y = int32 (int64 (int64 (int64 (100 * int64 (n - 49)) + i) + L))
      in (y, m, d))"

text \<open>The formulas without the widths.\<close>

definition julian_day :: "int \<Rightarrow> int \<Rightarrow> int \<Rightarrow> int" where
  "julian_day y m d =
     (1461 * (y + 4800 + (m - 14) sdiv 12)) sdiv 4 +
     (367 * (m - 2 - 12 * ((m - 14) sdiv 12))) sdiv 12 -
     (3 * ((y + 4900 + (m - 14) sdiv 12) sdiv 100)) sdiv 4 + d - 32075"

definition julian_date :: "int \<Rightarrow> int \<times> int \<times> int" where
  "julian_date jd =
     (let L = jd + 68569;
          n = (4 * L) sdiv 146097;
          L = L - (146097 * n + 3) sdiv 4;
          i = (4000 * (L + 1)) sdiv 1461001;
          L = L - (1461 * i) sdiv 4 + 31;
          j = (80 * L) sdiv 2447;
          d = L - (2447 * j) sdiv 80;
          L = j sdiv 11;
          m = j + 2 - 12 * L;
          y = 100 * (n - 49) + i + L
      in (y, m, d))"

text \<open>The calendar: the length of a month and the day after a day.\<close>

definition leap_year :: "int \<Rightarrow> bool" where
  "leap_year y \<longleftrightarrow> y mod 4 = 0 \<and> (y mod 100 \<noteq> 0 \<or> y mod 400 = 0)"

definition month_length :: "int \<Rightarrow> int \<Rightarrow> int" where
  "month_length y m =
     (if m = 2 then (if leap_year y then 29 else 28) else if m \<in> {4, 6, 9, 11} then 30 else 31)"

definition valid_date :: "int \<Rightarrow> int \<Rightarrow> int \<Rightarrow> bool" where
  "valid_date y m d \<longleftrightarrow> 1 \<le> m \<and> m \<le> 12 \<and> 1 \<le> d \<and> d \<le> month_length y m"

definition next_day :: "int \<times> int \<times> int \<Rightarrow> int \<times> int \<times> int" where
  "next_day = (\<lambda>(y, m, d).
     if d < month_length y m then (y, m, d + 1)
     else if m < 12 then (y, m + 1, 1)
     else (y + 1, 1, 1))"

lemma sdiv_nonneg: "0 \<le> a \<Longrightarrow> 0 < b \<Longrightarrow> a sdiv b = a div (b :: int)"
  by (cases "a = 0") (simp_all add: signed_divide_int_def sgn_if)

text \<open>The year of the formula begins in March: \<open>Y\<close> counts from 4800 years back and \<open>M\<close> is 1 for March.\<close>

definition march_year :: "int \<Rightarrow> int \<Rightarrow> int" where
  "march_year y m = y + 4800 - (if m \<le> 2 then 1 else 0)"

definition march_month :: "int \<Rightarrow> int" where
  "march_month m = (if m \<le> 2 then m + 10 else m - 2)"

definition days_before :: "int \<Rightarrow> int" where
  "days_before Y = 1461 * Y div 4 - 3 * ((Y + 100) div 100) div 4"

lemma month_shift: "1 \<le> m \<Longrightarrow> m \<le> 12 \<Longrightarrow> (m - 14) sdiv 12 = (if m \<le> 2 then - 1 else (0 :: int))"
proof -
  assume "1 \<le> m" "m \<le> 12"
  then have "m \<in> {1 .. 12}" by simp
  also have "{1 .. 12 :: int} = {1, 2, 3, 4, 5, 6, 7, 8, 9, 10, 11, 12}" by (auto simp: set_upto [symmetric] upto.simps)
  finally show ?thesis by (auto simp: signed_divide_int_def sgn_if)
qed

lemma julian_day_eq:
  assumes "1 \<le> m" "m \<le> 12" "0 \<le> march_year y m"
  shows "julian_day y m d = days_before (march_year y m) + 367 * march_month m div 12 + d - 32075"
proof -
  define a :: int where "a = (if m \<le> 2 then - 1 else 0)"
  have s: "(m - 14) sdiv 12 = a" using month_shift [OF assms(1,2)] by (simp add: a_def)
  have Y: "y + 4800 + a = march_year y m" "y + 4900 + a = march_year y m + 100" "0 \<le> march_year y m"
    using assms(3) by (simp_all add: a_def march_year_def)
  have M: "m - 2 - 12 * a = march_month m" "0 \<le> march_month m"
    using assms(1) by (simp_all add: a_def march_month_def)
  have "0 \<le> (march_year y m + 100) div 100" using Y(3) by (simp add: pos_imp_zdiv_nonneg_iff)
  then show ?thesis
    unfolding julian_day_def s Y(1,2) M(1) using Y(3) M(2)
    by (simp add: sdiv_nonneg days_before_def)
qed

text \<open>A day in a cycle of 100 years from March on: \<open>c\<close> counts the centuries, \<open>r\<close> the years and \<open>T\<close> the days; the last day of a
  leap year is the day 365.\<close>

definition cycle_day :: "int \<Rightarrow> int \<Rightarrow> int \<Rightarrow> int" where
  "cycle_day c r T = 36525 * c - 3 * c div 4 + 1461 * r div 4 + T"

definition cycle_ok :: "int \<Rightarrow> int \<Rightarrow> int \<Rightarrow> bool" where
  "cycle_ok c r T \<longleftrightarrow> 0 \<le> c \<and> 0 \<le> r \<and> r \<le> 99 \<and> 0 \<le> T \<and> T \<le> 365 \<and>
     (T = 365 \<longrightarrow> r mod 4 = 3 \<and> (r = 99 \<longrightarrow> c mod 4 = 0))"

lemma div_unique: "a = b * q + e \<Longrightarrow> 0 \<le> e \<Longrightarrow> e < b \<Longrightarrow> a div b = (q :: int)"
  by (metis int_div_pos_eq)

lemma div_range: "0 < b \<Longrightarrow> b * (a div b) \<le> a \<and> a < b * (a div b) + (b :: int)"
  using pos_mod_bound [of b a] pos_mod_sign [of b a] mult_div_mod_eq [of b a] by linarith

lemma div_bounds: "(4 :: int) * (a div 4) \<le> a" "a \<le> 4 * (a div 4) + 3"
  by simp_all

lemma cycle_divisions:
  assumes "cycle_ok c r T"
  shows "(4 * cycle_day c r T) div 146097 = c" "cycle_day c r T - (146097 * c + 3) div 4 = 1461 * r div 4 + T"
    "(4000 * (1461 * r div 4 + T + 1)) div 1461001 = r"
proof -
  define q3 s3 where "q3 = 3 * c div 4" and "s3 = 3 * c mod 4"
  have c3: "3 * c = 4 * q3 + s3" "0 \<le> s3" "s3 \<le> 3"
    using pos_mod_bound [of 4 "3 * c"] by (simp_all add: q3_def s3_def)
  define q where "q = 1461 * r div 4"
  have q: "4 * q \<le> 1461 * r" "1461 * r \<le> 4 * q + 3" using div_bounds [of "1461 * r"] by (simp_all add: q_def)
  have b: "0 \<le> c" "0 \<le> r" "r \<le> 99" "0 \<le> T" "T \<le> 365" using assms by (simp_all add: cycle_ok_def)
  have last: "4 * q = 1461 * r - 3" "r = 99 \<longrightarrow> s3 = 0" if "T = 365"
  proof -
    have r: "r mod 4 = 3" "r = 99 \<longrightarrow> c mod 4 = 0" using assms that by (simp_all add: cycle_ok_def)
    have "1461 * r mod 4 = 3" using r(1) by (simp add: mod_mult_eq [of 1461 4 r, symmetric])
    then show "4 * q = 1461 * r - 3" using minus_mod_eq_mult_div [of "1461 * r" 4] by (simp add: q_def)
    show "r = 99 \<longrightarrow> s3 = 0" using r(2) by (simp add: s3_def mod_mult_eq [of 3 4 c, symmetric])
  qed
  have L: "cycle_day c r T = 36525 * c - q3 + q + T" by (simp add: cycle_day_def q3_def q_def)
  have q99: "4 * q = 144636" if "r = 99" using that by (simp add: q_def)
  have "s3 + 4 * (q + T) < 146097"
  proof (cases "r = 99")
    case True
    show ?thesis
    proof (cases "T = 365")
      case full: True
      have "s3 = 0" using last(2) [OF full] True by simp
      then show ?thesis using q99 [OF True] full by simp
    next
      case False
      then have "T \<le> 364" using b by simp
      then show ?thesis using q99 [OF True] c3(3) by simp
    qed
  next
    case False
    then have "r \<le> 98" using b by simp
    then have "s3 + 4 * q + 4 * T < 146097" using q b c3 by linarith
    then show ?thesis by simp
  qed
  moreover have "0 \<le> q" using b by (simp add: q_def)
  ultimately show "(4 * cycle_day c r T) div 146097 = c"
    using c3 b by (intro div_unique [of _ _ _ "s3 + 4 * (q + T)"]) (simp_all add: L)
  have "(146097 * c + 3) div 4 = 36525 * c - q3" using c3 by (intro div_unique [of _ _ _ "3 - s3"]) simp_all
  then show "cycle_day c r T - (146097 * c + 3) div 4 = 1461 * r div 4 + T" by (simp add: L q_def)
  have "4000 * q + 4000 * T + 4000 - 1461001 * r < 1461001"
  proof (cases "T = 365")
    case True
    then show ?thesis using last(1) [OF True] b by linarith
  next
    case False
    then have "T \<le> 364" using b by simp
    then show ?thesis using q b by linarith
  qed
  moreover have "0 \<le> 4000 * q + 4000 * T + 4000 - 1461001 * r" using q b by linarith
  ultimately show "(4000 * (1461 * r div 4 + T + 1)) div 1461001 = r"
    by (intro div_unique [of _ _ _ "4000 * q + 4000 * T + 4000 - 1461001 * r"]) (simp_all add: q_def)
qed

lemma cycle_day_nonneg: "cycle_ok c r T \<Longrightarrow> 0 \<le> cycle_day c r T"
proof -
  assume ok: "cycle_ok c r T"
  then have b: "0 \<le> c" "0 \<le> r" "0 \<le> T" by (simp_all add: cycle_ok_def)
  have "0 \<le> 1461 * r div 4" using b by simp
  moreover have "3 * c div 4 \<le> 36525 * c" using div_bounds(1) [of "3 * c"] b by linarith
  ultimately show ?thesis using b by (simp add: cycle_day_def)
qed

lemma julian_date_cycle:
  assumes "cycle_ok c r T" "jd = cycle_day c r T - 68569" "j = 80 * (T + 31) div 2447"
  shows "julian_date jd = (100 * (c - 49) + r + j div 11, j + 2 - 12 * (j div 11), T + 31 - 2447 * j div 80)"
proof -
  note d = cycle_divisions [OF assms(1)]
  have b: "0 \<le> c" "0 \<le> r" "0 \<le> T" using assms(1) by (simp_all add: cycle_ok_def)
  have L: "jd + 68569 = cycle_day c r T" by (simp add: assms(2))
  have nn: "0 \<le> cycle_day c r T" using assms(1) by (rule cycle_day_nonneg)
  have E: "0 \<le> 1461 * r div 4 + T" using b by (intro add_nonneg_nonneg) simp_all
  have j: "0 \<le> j" using b by (simp add: assms(3))
  have s1: "(4 * cycle_day c r T) sdiv 146097 = c" using nn d(1) by (simp add: sdiv_nonneg)
  have s2: "(146097 * c + 3) sdiv 4 = (146097 * c + 3) div 4" using b by (intro sdiv_nonneg) simp_all
  have s3: "(4000 * (1461 * r div 4 + T + 1)) sdiv 1461001 = r" using E d(3) by (simp add: sdiv_nonneg)
  have s4: "(1461 * r) sdiv 4 = 1461 * r div 4" using b by (intro sdiv_nonneg) simp_all
  have s5: "(80 * (T + 31)) sdiv 2447 = j" using b by (simp add: sdiv_nonneg assms(3))
  have s6: "2447 * j sdiv 80 = 2447 * j div 80" "j sdiv 11 = j div 11" using j by (simp_all add: sdiv_nonneg)
  have s7: "1461 * r div 4 + T - 1461 * r div 4 + 31 = T + 31" by simp
  show ?thesis unfolding julian_date_def Let_def L s1 s2 d(2) s3 s4 s7 s5 s6 ..
qed

lemma cycle_exists:
  assumes "0 \<le> L"
  obtains c r T where "cycle_ok c r T" "L = cycle_day c r T"
proof -
  define c where "c = 4 * L div 146097"
  define q3 s3 where "q3 = 3 * c div 4" and "s3 = 3 * c mod 4"
  define E where "E = L - (36525 * c - q3)"
  define r where "r = 4000 * (E + 1) div 1461001"
  define q where "q = 1461 * r div 4"
  define T where "T = E - q"
  have c: "146097 * c \<le> 4 * L" "4 * L < 146097 * c + 146097" "0 \<le> c"
    using assms div_range [of 146097 "4 * L"] by (simp_all add: c_def)
  have c3: "3 * c = 4 * q3 + s3" "0 \<le> s3" "s3 \<le> 3"
    using pos_mod_bound [of 4 "3 * c"] by (simp_all add: q3_def s3_def)
  have E: "0 \<le> E" "4 * E + s3 \<le> 146096"
  proof -
    have e: "4 * E = 4 * L - 146097 * c - s3" using c3(1) by (simp add: E_def)
    then show "4 * E + s3 \<le> 146096" using c by linarith
    have "- 3 \<le> 4 * E" using e c c3 by linarith
    then show "0 \<le> E" by linarith
  qed
  have r: "1461001 * r \<le> 4000 * (E + 1)" "4000 * (E + 1) < 1461001 * r + 1461001" "0 \<le> r"
    using E div_range [of 1461001 "4000 * (E + 1)"] by (simp_all add: r_def)
  have "1461001 * r \<le> 4000 * E + 4000" using r(1) by simp
  then have r99: "r \<le> 99" using E c3(2) by linarith
  have q: "4 * q \<le> 1461 * r" "1461 * r \<le> 4 * q + 3" using div_bounds [of "1461 * r"] by (simp_all add: q_def)
  have T0: "0 \<le> T"
  proof -
    have "1461001 * r \<le> 4000 * q + 4000 * T + 4000" using r(1) by (simp add: T_def)
    then have "r - 4000 \<le> 4000 * T" using q by linarith
    then have "- 1 < T \<or> r = 0" using r(3) by linarith
    then show ?thesis using E(1) by (auto simp: T_def q_def)
  qed
  have T1: "T \<le> 365"
  proof -
    have "4000 * q + 4000 * T + 4000 < 1461001 * r + 1461001" using r(2) by (simp add: T_def)
    then show ?thesis using q r99 by linarith
  qed
  have leap: "r mod 4 = 3 \<and> (r = 99 \<longrightarrow> c mod 4 = 0)" if "T = 365"
  proof
    have "4000 * q + 1464000 < 1461001 * r + 1461001" using r(2) that by (simp add: T_def)
    then have "4 * q < 1461 * r - 2" using r99 by linarith
    then have "1461 * r - 4 * q = 3" using q by linarith
    then have "1461 * r mod 4 = 3" using minus_div_mult_eq_mod [of "1461 * r" 4] by (simp add: q_def)
    then show "r mod 4 = 3" by (simp add: mod_mult_eq [of 1461 4 r, symmetric])
    show "r = 99 \<longrightarrow> c mod 4 = 0"
    proof
      assume "r = 99"
      then have "4 * E = 146096" using that by (simp add: T_def q_def)
      then have "s3 = 0" using E(2) c3(2) by linarith
      then show "c mod 4 = 0" unfolding s3_def by presburger
    qed
  qed
  have "cycle_ok c r T" using c(3) r(3) r99 T0 T1 leap by (simp add: cycle_ok_def)
  moreover have "L = cycle_day c r T" by (simp add: cycle_day_def T_def E_def q_def q3_def)
  ultimately show ?thesis by (rule that)
qed

section \<open>Months\<close>

text \<open>The lengths of the months from March on, with 29 days for February.\<close>

definition march_length :: "int \<Rightarrow> int" where
  "march_length M = (if M = 12 then 29 else if M \<in> {2, 4, 7, 9} then 30 else 31)"

lemma months: "1 \<le> M \<Longrightarrow> M \<le> 12 \<Longrightarrow> M \<in> {1, 2, 3, 4, 5, 6, 7, 8, 9, 10, 11, 12 :: int}"
  by simp presburger

lemma month_divisions:
  assumes "1 \<le> M" "M \<le> 12" "1 \<le> d" "d \<le> march_length M" "T = 367 * M div 12 - 31 + d"
  shows "80 * (T + 31) div 2447 = M \<and> 2447 * M div 80 = 367 * M div 12 \<and> 0 \<le> T \<and> T \<le> 365 \<and>
    (T = 365 \<longrightarrow> M = 12 \<and> d = 29)"
proof -
  have "80 * (T + 31) div 2447 = M" if "2447 * M \<le> 80 * (T + 31)" "80 * (T + 31) < 2447 * M + 2447"
    using that by (intro div_unique [of _ _ _ "80 * (T + 31) - 2447 * M"]) simp_all
  with months [OF assms(1,2)] assms(3-5) show ?thesis by (auto simp: march_length_def)
qed

lemma month_exists:
  assumes "0 \<le> T" "T \<le> 365"
  obtains M d where "1 \<le> M" "M \<le> 12" "1 \<le> d" "d \<le> march_length M" "T = 367 * M div 12 - 31 + d"
proof -
  define M where "M = 80 * (T + 31) div 2447"
  have r: "2447 * M \<le> 80 * T + 2480" "80 * T + 2480 < 2447 * M + 2447"
    using div_range [of 2447 "80 * (T + 31)"] by (simp_all add: M_def)
  then have M: "1 \<le> M" "M \<le> 12" using assms by linarith+
  define d where "d = T + 31 - 367 * M div 12"
  have "1 \<le> d \<and> d \<le> march_length M"
    using months [OF M] r assms by (auto simp: d_def march_length_def)
  then show ?thesis using M by (intro that [of M d]) (simp_all add: d_def)
qed

section \<open>Round trips\<close>

lemma days_before_cycle: "days_before (100 * (c - 1) + r) = 36525 * (c - 1) + 1461 * r div 4 - 3 * c div 4"
  if "0 \<le> r" "r \<le> 99"
proof -
  have "1461 * (100 * (c - 1) + r) = 1461 * r + 4 * (36525 * (c - 1))" by simp
  then have "1461 * (100 * (c - 1) + r) div 4 = 36525 * (c - 1) + 1461 * r div 4" by (simp only: div_mult_self2)
  moreover have "(100 * (c - 1) + r + 100) div 100 = c" using that by (intro div_unique [of _ _ _ r]) simp_all
  ultimately show ?thesis by (simp add: days_before_def)
qed

lemma march_month_bounds: "1 \<le> m \<Longrightarrow> m \<le> 12 \<Longrightarrow> 1 \<le> march_month m \<and> march_month m \<le> 12"
  by (simp add: march_month_def)

lemma month_length_march: "1 \<le> m \<Longrightarrow> m \<le> 12 \<Longrightarrow> month_length y m \<le> march_length (march_month m)"
  using months [of m] by (auto simp: month_length_def march_length_def march_month_def)

lemma leap_year_cycle:
  assumes "y = 100 * (c - 49) + r + 1" "0 \<le> r" "r \<le> 99"
  shows "leap_year y \<longleftrightarrow> r mod 4 = 3 \<and> (r = 99 \<longrightarrow> c mod 4 = 0)"
proof -
  have "y mod 4 = (r + 1) mod 4"
  proof -
    have "y = (r + 1) + 4 * (25 * (c - 49))" using assms(1) by simp
    then show ?thesis by (simp only: mod_mult_self2)
  qed
  moreover have "(r + 1) mod 4 = 0 \<longleftrightarrow> r mod 4 = 3" by presburger
  ultimately have y4: "y mod 4 = 0 \<longleftrightarrow> r mod 4 = 3" by simp
  have y100: "y mod 100 = 0 \<longleftrightarrow> r = 99"
  proof -
    have "y = (r + 1) + 100 * (c - 49)" using assms(1) by simp
    then have "y mod 100 = (r + 1) mod 100" by (simp only: mod_mult_self2)
    then show ?thesis using assms(2,3) by (cases "r = 99") (simp_all add: mod_pos_pos_trivial)
  qed
  have y400: "y mod 400 = 0 \<longleftrightarrow> c mod 4 = 0" if "r = 99"
  proof -
    have "y = 100 * (c - 48)" using assms(1) that by simp
    then have "y mod 400 = 100 * ((c - 48) mod 4)" using mult_mod_right [of 100 "c - 48" 4] by simp
    moreover have "c - 48 = c + 4 * (- 12)" by simp
    then have "(c - 48) mod 4 = c mod 4" by (simp only: mod_mult_self2)
    ultimately show ?thesis by simp
  qed
  show ?thesis unfolding leap_year_def y4 y100 using y400 by auto
qed

text \<open>A valid date as a day of the cycle.\<close>

lemma date_cycle:
  assumes "valid_date y m d" "0 \<le> march_year y m"
  obtains c r T where "cycle_ok c r T" "julian_day y m d = cycle_day c r T - 68569"
    "march_year y m = 100 * (c - 1) + r" "T = 367 * march_month m div 12 - 31 + d" "80 * (T + 31) div 2447 = march_month m"
    "2447 * march_month m div 80 = 367 * march_month m div 12"
proof -
  define c r T where "c = march_year y m div 100 + 1" and "r = march_year y m mod 100"
    and "T = 367 * march_month m div 12 - 31 + d"
  have m: "1 \<le> m" "m \<le> 12" and d: "1 \<le> d" "d \<le> month_length y m" using assms(1) by (simp_all add: valid_date_def)
  have Y: "march_year y m = 100 * (c - 1) + r" "0 \<le> r" "r \<le> 99"
    using pos_mod_bound [of 100 "march_year y m"] by (simp_all add: c_def r_def)
  have c: "0 \<le> c" using assms(2) by (simp add: c_def pos_imp_zdiv_nonneg_iff)
  have "d \<le> march_length (march_month m)" using d(2) month_length_march [OF m] by (rule order_trans)
  note md = month_divisions [OF march_month_bounds [OF m, THEN conjunct1] march_month_bounds [OF m, THEN conjunct2] d(1) this T_def]
  have leap: "r mod 4 = 3 \<and> (r = 99 \<longrightarrow> c mod 4 = 0)" if "T = 365"
  proof -
    have "march_month m = 12" "d = 29" using md that by simp_all
    then have m2: "m = 2" using m by (auto simp: march_month_def split: if_split_asm)
    then have "leap_year y" using d(2) \<open>d = 29\<close> by (simp add: month_length_def split: if_split_asm)
    moreover have "y = 100 * (c - 49) + r + 1" using Y(1) m2 by (simp add: march_year_def)
    ultimately show ?thesis using leap_year_cycle Y(2,3) by blast
  qed
  have ok: "cycle_ok c r T" using c Y(2,3) md leap by (simp add: cycle_ok_def)
  have j: "julian_day y m d = cycle_day c r T - 68569"
    unfolding julian_day_eq [OF m assms(2)] unfolding Y(1) days_before_cycle [OF Y(2,3)] cycle_day_def T_def by simp
  from md show ?thesis by (elim conjE) (rule that [OF ok j Y(1) T_def])
qed

lemma march_month_inverse:
  assumes "1 \<le> m" "m \<le> 12"
  shows "march_month m + 2 - 12 * (march_month m div 11) = m" "march_year y m + march_month m div 11 = y + 4800"
proof -
  have "march_month m div 11 = (if m \<le> 2 then 1 else 0)"
    using assms by (auto simp: march_month_def intro!: div_unique [of _ _ _ "m - 1"])
  then show "march_month m + 2 - 12 * (march_month m div 11) = m" "march_year y m + march_month m div 11 = y + 4800"
    by (simp_all add: march_month_def march_year_def)
qed

theorem julian_roundtrip:
  assumes "valid_date y m d" "0 \<le> march_year y m"
  shows "julian_date (julian_day y m d) = (y, m, d)"
proof -
  have m: "1 \<le> m" "m \<le> 12" using assms(1) by (simp_all add: valid_date_def)
  obtain c r T where c: "cycle_ok c r T" "julian_day y m d = cycle_day c r T - 68569" "march_year y m = 100 * (c - 1) + r"
      "T = 367 * march_month m div 12 - 31 + d" "80 * (T + 31) div 2447 = march_month m"
      "2447 * march_month m div 80 = 367 * march_month m div 12"
    using date_cycle [OF assms] .
  show ?thesis
    unfolding julian_date_cycle [OF c(1,2) c(5) [symmetric]] c(6)
    using march_month_inverse(1) [OF m] march_month_inverse(2) [OF m, of y] c(3,4) by simp
qed

text \<open>Every day from the first Julian day on is the day of a valid date.\<close>

theorem julian_date_valid:
  assumes "0 \<le> jd" "julian_date jd = (y, m, d)"
  shows "valid_date y m d \<and> 0 \<le> march_year y m \<and> julian_day y m d = jd"
proof -
  obtain c r T where c: "cycle_ok c r T" "jd + 68569 = cycle_day c r T"
    using cycle_exists [of "jd + 68569"] assms(1) by auto
  then have b: "0 \<le> c" "0 \<le> r" "r \<le> 99" "0 \<le> T" "T \<le> 365" by (simp_all add: cycle_ok_def)
  have c1: "1 \<le> c"
  proof (rule ccontr)
    assume "\<not> 1 \<le> c"
    then have "c = 0" using b by simp
    then have "jd + 68569 \<le> 1461 * r div 4 + 365" using c(2) b by (simp add: cycle_day_def)
    moreover have "1461 * r div 4 \<le> 36525" using b div_bounds(1) [of "1461 * r"] by linarith
    ultimately show False using assms(1) by linarith
  qed
  obtain M e where M: "1 \<le> M" "M \<le> 12" "1 \<le> e" "e \<le> march_length M" "T = 367 * M div 12 - 31 + e"
    using month_exists [OF b(4,5)] .
  note md = month_divisions [OF M]
  have j: "jd = cycle_day c r T - 68569" using c(2) by simp
  have mj: "M = 80 * (T + 31) div 2447" "T + 31 - 2447 * M div 80 = e" using md by (simp_all add: M(5))
  have v: "y = 100 * (c - 49) + r + M div 11" "m = M + 2 - 12 * (M div 11)" "d = e"
    using assms(2) unfolding julian_date_cycle [OF c(1) j mj(1)] mj(2) by simp_all
  have M11: "M div 11 = (if M \<ge> 11 then 1 else 0)" using months [OF M(1,2)] by auto
  have m: "1 \<le> m" "m \<le> 12" "march_month m = M" "march_year y m = 100 * (c - 1) + r"
    using M(1,2) by (auto simp: v M11 march_month_def march_year_def)
  have "e \<le> month_length y m"
  proof (cases "M = 12")
    case True
    then have m2: "m = 2" "y = 100 * (c - 49) + r + 1" by (simp_all add: v M11)
    show ?thesis
    proof (cases "e = 29")
      case e29: True
      then have "T = 365" using True M(5) by simp
      then have "leap_year y" using c(1) leap_year_cycle [OF m2(2) b(2,3)] by (simp add: cycle_ok_def)
      then show ?thesis using m2 e29 by (simp add: month_length_def)
    next
      case False
      then show ?thesis using M(4) True m2 by (simp add: month_length_def march_length_def)
    qed
  next
    case False
    then show ?thesis using months [OF M(1,2)] M(4) by (auto simp: v M11 month_length_def march_length_def)
  qed
  then have valid: "valid_date y m d" using m M(3) by (simp add: valid_date_def v)
  have Y: "0 \<le> march_year y m" using c1 b by (simp add: m)
  have "julian_day y m d = jd"
    unfolding julian_day_eq [OF m(1,2) Y] unfolding m(3,4) days_before_cycle [OF b(2,3)] j cycle_day_def v(3) M(5) by simp
  then show ?thesis using valid Y by simp
qed

section \<open>Counting days\<close>

lemma century_step:
  fixes c :: int
  shows "3 * (c + 1) div 4 = 3 * c div 4 + (if c mod 4 = 0 then 0 else 1)"
proof -
  define q s where "q = c div 4" and "s = c mod 4"
  have c: "c = s + 4 * q" "0 \<le> s" "s \<le> 3" using pos_mod_bound [of 4 c] by (simp_all add: q_def s_def)
  have "3 * c = 3 * s + 4 * (3 * q)" "3 * (c + 1) = 3 * (s + 1) + 4 * (3 * q)" using c(1) by simp_all
  then have e: "3 * c div 4 = 3 * q + 3 * s div 4" "3 * (c + 1) div 4 = 3 * q + 3 * (s + 1) div 4"
    by (simp_all only: div_mult_self2)
  have "s \<in> {0, 1, 2, 3}" using c(2,3) by auto
  then have "3 * (s + 1) div 4 = 3 * s div 4 + (if s = 0 then 0 else 1)" by auto
  then show ?thesis unfolding e s_def [symmetric] by simp
qed

lemma year_step:
  assumes "Y = 100 * (c - 1) + r" "0 \<le> r" "r \<le> 99"
  shows "days_before (Y + 1) = days_before Y + (if leap_year (Y + 1 - 4800) then 366 else 365)"
proof -
  have l: "leap_year (Y + 1 - 4800) \<longleftrightarrow> r mod 4 = 3 \<and> (r = 99 \<longrightarrow> c mod 4 = 0)"
    using assms by (intro leap_year_cycle) simp_all
  have q: "1461 * (r + 1) div 4 = 1461 * r div 4 + (if r mod 4 = 3 then 366 else 365)"
  proof -
    define k s where "k = r div 4" and "s = r mod 4"
    have r: "r = s + 4 * k" "0 \<le> s" "s \<le> 3" using pos_mod_bound [of 4 r] by (simp_all add: k_def s_def)
    have "1461 * r = 1461 * s + 4 * (1461 * k)" "1461 * (r + 1) = 1461 * (s + 1) + 4 * (1461 * k)" using r(1) by simp_all
    then have e: "1461 * r div 4 = 1461 * k + 1461 * s div 4" "1461 * (r + 1) div 4 = 1461 * k + 1461 * (s + 1) div 4"
      by (simp_all only: div_mult_self2)
    have "s \<in> {0, 1, 2, 3}" using r(2,3) by auto
    then have "1461 * (s + 1) div 4 = 1461 * s div 4 + (if s = 3 then 366 else 365)" by auto
    then show ?thesis unfolding e s_def [symmetric] by simp
  qed
  show ?thesis
  proof (cases "r = 99")
    case True
    have "Y + 1 = 100 * ((c + 1) - 1) + 0" using assms(1) True by simp
    then have "days_before (Y + 1) = 36525 * c - 3 * (c + 1) div 4"
      using days_before_cycle [of 0 "c + 1"] by simp
    moreover have "days_before Y = 36525 * (c - 1) + 36159 - 3 * c div 4"
      using days_before_cycle [of 99 c] assms(1) True by simp
    ultimately show ?thesis using True l century_step [of c] by simp
  next
    case False
    then have r: "0 \<le> r + 1" "r + 1 \<le> 99" using assms by simp_all
    have Y: "Y + 1 = 100 * (c - 1) + (r + 1)" using assms(1) by simp
    have "days_before (Y + 1) = 36525 * (c - 1) + 1461 * (r + 1) div 4 - 3 * c div 4"
      unfolding Y by (rule days_before_cycle [OF r])
    moreover have "days_before Y = 36525 * (c - 1) + 1461 * r div 4 - 3 * c div 4"
      unfolding assms(1) by (rule days_before_cycle [OF assms(2,3)])
    ultimately show ?thesis using q l False by simp
  qed
qed

lemma same_month_step:
  assumes "valid_date y m d" "0 \<le> march_year y m" "d < month_length y m"
  shows "julian_day y m (d + 1) = julian_day y m d + 1 \<and> valid_date y m (d + 1)"
  using assms by (simp add: julian_day_eq valid_date_def)

lemma march_month_step:
  assumes "m \<in> {1, 3, 4, 5, 6, 7, 8, 9, 10, 11}"
  shows "367 * march_month (m + 1) div 12 = 367 * march_month m div 12 + month_length y m"
  using assms by (auto simp: march_month_def month_length_def)

lemma next_month_step:
  assumes "1 \<le> m" "m < 12" "m \<noteq> 2" "0 \<le> march_year y m"
  shows "julian_day y (m + 1) 1 = julian_day y m (month_length y m) + 1"
proof -
  have Y: "march_year y (m + 1) = march_year y m" using assms by (simp add: march_year_def)
  have "m \<in> {1, 3, 4, 5, 6, 7, 8, 9, 10, 11}" using months [of m] assms by simp
  note s = march_month_step [OF this, of y]
  have "julian_day y (m + 1) 1 = days_before (march_year y m) + 367 * march_month (m + 1) div 12 + 1 - 32075"
    using julian_day_eq [of "m + 1" y 1] assms Y by simp
  moreover have "julian_day y m (month_length y m) =
      days_before (march_year y m) + 367 * march_month m div 12 + month_length y m - 32075"
    using julian_day_eq [of m y] assms by simp
  ultimately show ?thesis using s by simp
qed

lemma february_step:
  assumes "0 \<le> march_year y 2"
  shows "julian_day y 3 1 = julian_day y 2 (month_length y 2) + 1"
proof -
  define Y where "Y = march_year y 2"
  have Y: "march_year y 3 = Y + 1" "Y + 1 - 4800 = y" "0 \<le> Y" using assms by (simp_all add: Y_def march_year_def)
  have "Y = 100 * (Y div 100 + 1 - 1) + Y mod 100" "0 \<le> Y mod 100" "Y mod 100 \<le> 99"
    using pos_mod_bound [of 100 Y] by simp_all
  from year_step [OF this] have "days_before (Y + 1) = days_before Y + (if leap_year y then 366 else 365)"
    unfolding Y(2) .
  moreover have "julian_day y 3 1 = days_before (Y + 1) + 30 + 1 - 32075"
    using julian_day_eq [of 3 y 1] Y(1,3) by (simp add: march_month_def)
  moreover have "julian_day y 2 (month_length y 2) = days_before Y + 367 + month_length y 2 - 32075"
    using julian_day_eq [of 2 y] Y(3) by (simp add: march_month_def Y_def)
  ultimately show ?thesis by (simp add: month_length_def)
qed

lemma new_year_step:
  assumes "0 \<le> march_year y 12"
  shows "julian_day (y + 1) 1 1 = julian_day y 12 31 + 1"
  using assms julian_day_eq [of 12 y 31] julian_day_eq [of 1 "y + 1" 1]
  by (simp add: march_month_def march_year_def add.commute)

text \<open>\<^const>\<open>julian_day\<close> counts the days of the calendar: the day after a date has the next number. With the number of
  one day this determines it.\<close>

lemma julian_next_day:
  assumes "valid_date y m d" "0 \<le> march_year y m" "next_day (y, m, d) = (y', m', d')"
  shows "julian_day y' m' d' = julian_day y m d + 1 \<and> valid_date y' m' d'"
proof -
  have m: "1 \<le> m" "m \<le> 12" using assms(1) by (simp_all add: valid_date_def)
  have len: "1 \<le> month_length y k" for y k by (simp add: month_length_def)
  consider "d < month_length y m" | "d = month_length y m" "m < 12" "m \<noteq> 2" | "d = month_length y m" "m = 2" | "d = month_length y m" "m = 12"
    using assms(1) unfolding valid_date_def by (metis order_le_less)
  then show ?thesis
  proof cases
    case 1
    then have "y' = y" "m' = m" "d' = d + 1" using assms(3) by (simp_all add: next_day_def)
    then show ?thesis using same_month_step [OF assms(1,2) 1] by simp
  next
    case 2
    then have "y' = y" "m' = m + 1" "d' = 1" using assms(3) by (simp_all add: next_day_def)
    then show ?thesis
      using next_month_step [OF m(1) 2(2,3) assms(2)] 2(1,2) m len [of y "m + 1"] by (simp add: valid_date_def)
  next
    case 3
    then have "y' = y" "m' = 3" "d' = 1" using assms(3) by (simp_all add: next_day_def)
    then show ?thesis using february_step [of y] 3 assms(2) len [of y 3] by (simp add: valid_date_def)
  next
    case 4
    then have "y' = y + 1" "m' = 1" "d' = 1" "month_length y 12 = 31"
      using assms(3) by (simp_all add: next_day_def month_length_def)
    then show ?thesis using new_year_step [of y] 4 assms(2) len [of "y + 1" 1] by (simp add: valid_date_def)
  qed
qed

section \<open>Widths\<close>

lemma abs_sdiv: "0 < b \<Longrightarrow> b * \<bar>a sdiv b\<bar> \<le> \<bar>a :: int\<bar>"
  using div_range [of b "\<bar>a\<bar>"] by (cases "a \<ge> 0") (auto simp: signed_divide_int_def sgn_if abs_mult pos_imp_zdiv_nonneg_iff)

text \<open>The conversion from a date is exact up to the year 1465072, in which the first product overflows for the first time.\<close>

lemma date_to_julian_exact:
  assumes "1 \<le> m" "m \<le> 12" "- 4800 \<le> y" "y \<le> 1465072" "0 \<le> d" "d \<le> 31"
  shows "date_to_julian y m d = julian_day y m d"
proof -
  define a where "a = (m - 14) sdiv 12"
  have a: "- 1 \<le> a" "a \<le> 0" using month_shift [OF assms(1,2)] by (simp_all add: a_def)
  define p q s r where "p = (1461 * (y + 4800 + a)) sdiv 4" and "q = (367 * (m - 2 - 12 * a)) sdiv 12"
    and "s = (y + 4900 + a) sdiv 100" and "r = (3 * s) sdiv 4"
  have p: "4 * \<bar>p\<bar> \<le> \<bar>1461 * (y + 4800 + a)\<bar>" and q: "12 * \<bar>q\<bar> \<le> \<bar>367 * (m - 2 - 12 * a)\<bar>"
    and s: "100 * \<bar>s\<bar> \<le> \<bar>y + 4900 + a\<bar>" and r: "4 * \<bar>r\<bar> \<le> \<bar>3 * s\<bar>"
    by (simp_all only: p_def q_def s_def r_def abs_sdiv)
  have i: "int32 (m - 14) = m - 14" "int32 (y + 4800) = y + 4800" "int32 (y + 4800 + a) = y + 4800 + a"
    "int32 (1461 * (y + 4800 + a)) = 1461 * (y + 4800 + a)" "int32 (m - 2) = m - 2" "int32 (12 * a) = 12 * a"
    "int32 (m - 2 - 12 * a) = m - 2 - 12 * a" "int32 (367 * (m - 2 - 12 * a)) = 367 * (m - 2 - 12 * a)"
    "int32 (y + 4900) = y + 4900" "int32 (y + 4900 + a) = y + 4900 + a"
    by (rule int32_id; use assms a in simp)+
  have j: "int32 (3 * s) = 3 * s" by (rule int32_id; use assms a s in simp)
  have k: "int32 (p + q) = p + q" "int32 (p + q - r) = p + q - r" "int32 (p + q - r + d) = p + q - r + d"
    "int32 (p + q - r + d - 32075) = p + q - r + d - 32075"
    by (rule int32_id; use assms a p q s r in \<open>simp; linarith\<close>)+
  show ?thesis
    unfolding date_to_julian_def julian_day_def Let_def i(1) a_def [symmetric] i(2-10) s_def [symmetric] j
      p_def [symmetric] q_def [symmetric] r_def [symmetric] k ..
qed

lemma date_to_julian_less: "date_to_julian y m d < 2 ^ 31"
  unfolding date_to_julian_def Let_def by (rule int32_range)

lemma date_to_julian_abs: "\<bar>date_to_julian y m d\<bar> \<le> 2 ^ 31"
proof -
  have "\<bar>int32 x\<bar> \<le> 2 ^ 31" for x using int32_range [of x] by (simp add: abs_le_iff)
  then show ?thesis unfolding date_to_julian_def Let_def .
qed

text \<open>The conversion to a date is exact for all days that fit 32 bits and more.\<close>

lemma julian_to_date_exact:
  assumes "- 68569 \<le> jd" "jd \<le> 2 ^ 33"
  shows "julian_to_date jd = julian_date jd"
proof -
  obtain c r T where c: "cycle_ok c r T" "jd + 68569 = cycle_day c r T"
    using cycle_exists [of "jd + 68569"] assms(1) by auto
  note d = cycle_divisions [OF c(1), folded c(2)]
  have b: "0 \<le> c" "0 \<le> r" "r \<le> 99" "0 \<le> T" "T \<le> 365" using c(1) by (simp_all add: cycle_ok_def)
  have c1: "c \<le> 2 ^ 20" using d(1) assms div_range [of 146097 "4 * (jd + 68569)"] by simp
  define L where "L = 1461 * r div 4 + T"
  have L: "0 \<le> L" "L \<le> 40000" using b div_bounds(1) [of "1461 * r"] by (simp_all add: L_def)
  define q where "q = 1461 * r sdiv 4"
  have q: "q = 1461 * r div 4" "0 \<le> q" using b by (simp_all add: q_def sdiv_nonneg)
  define j where "j = 80 * (L - q + 31) sdiv 2447"
  have Lq: "L - q = T" by (simp add: L_def q)
  have j: "0 \<le> j" "j \<le> 2000"
    using b abs_sdiv [of 2447 "80 * (L - q + 31)"] by (simp_all add: j_def Lq sdiv_nonneg)
  define e f where "e = 2447 * j sdiv 80" and "f = j sdiv 11"
  have e: "0 \<le> e" "e \<le> 100000" and f: "0 \<le> f" "f \<le> 200"
    using j abs_sdiv [of 80 "2447 * j"] abs_sdiv [of 11 j] by (simp_all add: e_def f_def sdiv_nonneg)
  have n: "(4 * (jd + 68569)) sdiv 146097 = c" using assms d(1) by (simp add: sdiv_nonneg)
  have g: "(146097 * c + 3) sdiv 4 = (146097 * c + 3) div 4" using b by (intro sdiv_nonneg) simp_all
  have l: "jd + 68569 - (146097 * c + 3) sdiv 4 = L" using d(2) g by (simp add: L_def)
  have i: "(4000 * (L + 1)) sdiv 1461001 = r" using L d(3) by (simp add: sdiv_nonneg L_def)
  have w: "int64 (jd + 68569) = jd + 68569" "int64 (4 * (jd + 68569)) = 4 * (jd + 68569)"
    "int64 (146097 * c) = 146097 * c" "int64 (146097 * c + 3) = 146097 * c + 3" "int64 L = L"
    "int64 (L + 1) = L + 1" "int64 (4000 * (L + 1)) = 4000 * (L + 1)" "int64 (1461 * r) = 1461 * r"
    "int64 (L - q) = L - q" "int64 (L - q + 31) = L - q + 31" "int64 (80 * (L - q + 31)) = 80 * (L - q + 31)"
    "int64 (2447 * j) = 2447 * j" "int64 (L - q + 31 - e) = L - q + 31 - e" "int32 (L - q + 31 - e) = L - q + 31 - e"
    "int64 (j + 2) = j + 2" "int64 (12 * f) = 12 * f" "int64 (j + 2 - 12 * f) = j + 2 - 12 * f"
    "int32 (j + 2 - 12 * f) = j + 2 - 12 * f"
    "int64 (c - 49) = c - 49" "int64 (100 * (c - 49)) = 100 * (c - 49)" "int64 (100 * (c - 49) + r) = 100 * (c - 49) + r"
    "int64 (100 * (c - 49) + r + f) = 100 * (c - 49) + r + f" "int32 (100 * (c - 49) + r + f) = 100 * (c - 49) + r + f"
    by ((rule int64_id | rule int32_id); use assms b c1 L j e f in \<open>simp add: Lq\<close>)+
  show ?thesis
    unfolding julian_to_date_def julian_date_def Let_def w(1,2) n w(3,4) l w(5-7) i w(8) q_def [symmetric] w(9-11)
      j_def [symmetric] w(12) e_def [symmetric] w(13,14) f_def [symmetric] w(15-) ..
qed

section \<open>Broken-down times\<close>

text \<open>The fields of \<^verbatim>\<open>struct tm\<close> the code uses.\<close>

record tm =
  tm_sec :: int
  tm_min :: int
  tm_hour :: int
  tm_mday :: int
  tm_mon :: int
  tm_year :: int

text \<open>The result is the Julian day and the second in it. \<^verbatim>\<open>off_day\<close> is an \<^verbatim>\<open>int\<close> and \<^verbatim>\<open>offset_sec\<close> a \<^verbatim>\<open>long\<close>; the quotient of
  the latter is cut to an \<^verbatim>\<open>int\<close>, and its product with the length of a day is one, too.\<close>

definition julian_adj :: "tm \<Rightarrow> int \<Rightarrow> int \<Rightarrow> (int \<times> int) option" where
  "julian_adj tm off_day offset_sec =
     (let offset_day = int32 (offset_sec sdiv SECS_PER_DAY);
          offset_hms = int32 (int64 (offset_sec - int32 (offset_day * SECS_PER_DAY)));
          offset_day = int32 (offset_day + off_day);
          offset_hms = int32 (offset_hms + int32 (int32 (int32 (tm_hour tm * 3600) + int32 (tm_min tm * 60)) + tm_sec tm));
          (offset_day, offset_hms) =
            (if offset_hms \<ge> SECS_PER_DAY then (int32 (offset_day + 1), int32 (offset_hms - SECS_PER_DAY))
             else if offset_hms < 0 then (int32 (offset_day - 1), int32 (offset_hms + SECS_PER_DAY))
             else (offset_day, offset_hms));
          time_year = int32 (tm_year tm + 1900);
          time_month = int32 (tm_mon tm + 1);
          time_day = tm_mday tm;
          time_jd = date_to_julian time_year time_month time_day;
          time_jd = int64 (time_jd + offset_day)
      in if time_jd < 0 then None else Some (time_jd, offset_hms))"

definition OPENSSL_gmtime_adj :: "tm \<Rightarrow> int \<Rightarrow> int \<Rightarrow> bool \<times> tm" where
  "OPENSSL_gmtime_adj tm off_day offset_sec =
     (case julian_adj tm off_day offset_sec of
        None \<Rightarrow> (False, tm)
      | Some (time_jd, time_sec) \<Rightarrow>
        (case julian_to_date time_jd of
           (time_year, time_month, time_day) \<Rightarrow>
             if time_year < 1900 \<or> time_year > 9999 then (False, tm)
             else
               (True, tm\<lparr>tm_year := time_year - 1900, tm_mon := int32 (time_month - 1), tm_mday := time_day,
                  tm_hour := time_sec sdiv 3600, tm_min := (time_sec sdiv 60) smod 60, tm_sec := time_sec smod 60\<rparr>)))"

definition OPENSSL_gmtime_diff :: "tm \<Rightarrow> tm \<Rightarrow> (int \<times> int) option" where
  "OPENSSL_gmtime_diff from to =
     (case julian_adj from 0 0 of
        None \<Rightarrow> None
      | Some (from_jd, from_sec) \<Rightarrow>
        (case julian_adj to 0 0 of
           None \<Rightarrow> None
         | Some (to_jd, to_sec) \<Rightarrow>
           let diff_day = int64 (to_jd - from_jd);
               diff_sec = int32 (to_sec - from_sec);
               (diff_day, diff_sec) =
                 (if diff_day > 0 \<and> diff_sec < 0 then (int64 (diff_day - 1), int32 (diff_sec + SECS_PER_DAY))
                  else (diff_day, diff_sec));
               (diff_day, diff_sec) =
                 (if diff_day < 0 \<and> diff_sec > 0 then (int64 (diff_day + 1), int32 (diff_sec - SECS_PER_DAY))
                  else (diff_day, diff_sec))
           in Some (int32 diff_day, diff_sec)))"

text \<open>\<^verbatim>\<open>OPENSSL_gmtime\<close> calls \<^verbatim>\<open>gmtime_r\<close> of the C library, which breaks a count of seconds since 1970 down into a date and
  a time of day and fails when the year does not fit an \<^verbatim>\<open>int\<close>. The calendar repeats after 400 years of 146097 days.\<close>

definition EPOCH_JD :: int where "EPOCH_JD = 2440588"

definition OPENSSL_gmtime :: "int \<Rightarrow> tm option" where
  "OPENSSL_gmtime t =
     (let jd = EPOCH_JD + t div SECS_PER_DAY; s = t mod SECS_PER_DAY; k = jd div 146097 in
      case julian_date (jd mod 146097) of
        (y, m, d) \<Rightarrow>
          if y + 400 * k - 1900 < - (2 ^ 31) \<or> y + 400 * k - 1900 \<ge> 2 ^ 31 then None
          else Some \<lparr>tm_sec = s mod 60, tm_min = s div 60 mod 60, tm_hour = s div 3600, tm_mday = d, tm_mon = m - 1,
                     tm_year = y + 400 * k - 1900\<rparr>)"

section \<open>Times in seconds\<close>

definition tm_clock :: "tm \<Rightarrow> int" where
  "tm_clock tm = tm_hour tm * 3600 + tm_min tm * 60 + tm_sec tm"

definition clock_ok :: "tm \<Rightarrow> bool" where
  "clock_ok tm \<longleftrightarrow> 0 \<le> tm_hour tm \<and> tm_hour tm \<le> 23 \<and> 0 \<le> tm_min tm \<and> tm_min tm \<le> 59 \<and> 0 \<le> tm_sec tm \<and> tm_sec tm \<le> 59"

definition tm_jd :: "tm \<Rightarrow> int" where
  "tm_jd tm = julian_day (tm_year tm + 1900) (tm_mon tm + 1) (tm_mday tm)"

definition tm_secs :: "tm \<Rightarrow> int" where
  "tm_secs tm = tm_jd tm * SECS_PER_DAY + tm_clock tm"

definition valid_tm :: "tm \<Rightarrow> bool" where
  "valid_tm tm \<longleftrightarrow> valid_date (tm_year tm + 1900) (tm_mon tm + 1) (tm_mday tm) \<and> clock_ok tm"

text \<open>Bounds under which no operation of the code leaves its width: the fields of a date up to the year 1400000, an \<^verbatim>\<open>int\<close> number of
  days that leaves room for the days of the seconds, and a number of seconds that fits an \<^verbatim>\<open>int\<close>, too.\<close>

definition date_in_range :: "tm \<Rightarrow> bool" where
  "date_in_range tm \<longleftrightarrow> 0 \<le> tm_mon tm \<and> tm_mon tm \<le> 11 \<and> 1 \<le> tm_mday tm \<and> tm_mday tm \<le> 31 \<and>
     - 4800 \<le> tm_year tm + 1900 \<and> tm_year tm + 1900 \<le> 1400000"

definition offsets_in_range :: "int \<Rightarrow> int \<Rightarrow> bool" where
  "offsets_in_range off_day offset_sec \<longleftrightarrow>
     \<bar>off_day\<bar> \<le> 2 ^ 31 - 25000 \<and> - (2 ^ 31) \<le> offset_sec \<and> offset_sec < 2 ^ 31"

lemma offsets_in_range_0 [simp]: "offsets_in_range 0 0"
  by (simp add: offsets_in_range_def)

lemma clock_range: "clock_ok tm \<Longrightarrow> 0 \<le> tm_clock tm \<and> tm_clock tm < SECS_PER_DAY"
  by (simp add: clock_ok_def tm_clock_def SECS_PER_DAY_def)

lemma tm_secs_day: "clock_ok tm \<Longrightarrow> tm_secs tm div SECS_PER_DAY = tm_jd tm \<and> tm_secs tm mod SECS_PER_DAY = tm_clock tm"
  using clock_range [of tm] by (simp add: tm_secs_def SECS_PER_DAY_def)

lemma sdiv_range: "0 < b \<Longrightarrow> - b < a - a sdiv b * b \<and> a - a sdiv b * b < (b :: int)"
proof -
  assume b: "0 < b"
  show ?thesis
  proof (cases "0 \<le> a")
    case True
    then show ?thesis using b div_range [of b a] by (simp add: sdiv_nonneg mult.commute)
  next
    case False
    then have "a sdiv b = - ((- a) div b)" using b by (simp add: signed_divide_int_def sgn_if)
    then show ?thesis using b div_range [of b "- a"] by (simp add: mult.commute)
  qed
qed

text \<open>With offsets in range no operation of \<^const>\<open>julian_adj\<close> wraps: it is the exact computation.\<close>

lemma julian_adj_exact:
  assumes "clock_ok tm" "date_in_range tm" "offsets_in_range off_day offset_sec"
    and "q = offset_sec sdiv SECS_PER_DAY" "e = offset_sec - q * SECS_PER_DAY + tm_clock tm"
  shows "julian_adj tm off_day offset_sec =
      (case (if e \<ge> SECS_PER_DAY then (q + off_day + 1, e - SECS_PER_DAY)
             else if e < 0 then (q + off_day - 1, e + SECS_PER_DAY) else (q + off_day, e)) of
         (offset_day, offset_hms) \<Rightarrow> if tm_jd tm + offset_day < 0 then None else Some (tm_jd tm + offset_day, offset_hms))"
proof -
  have S: "SECS_PER_DAY = 86400" by (simp add: SECS_PER_DAY_def)
  have c: "0 \<le> tm_hour tm" "tm_hour tm \<le> 23" "0 \<le> tm_min tm" "tm_min tm \<le> 59" "0 \<le> tm_sec tm" "tm_sec tm \<le> 59"
    using assms(1) by (simp_all add: clock_ok_def)
  have o: "\<bar>off_day\<bar> \<le> 2147458648" "- 2147483648 \<le> offset_sec" "offset_sec < 2147483648"
    using assms(3) by (simp_all add: offsets_in_range_def)
  have "86400 * \<bar>q\<bar> \<le> \<bar>offset_sec\<bar>" using abs_sdiv [of 86400 offset_sec] by (simp add: assms(4) S)
  then have "86400 * \<bar>q\<bar> < 86400 * 24856" using o by (auto simp: abs_le_iff)
  then have q: "- 24855 \<le> q" "q \<le> 24855" by (auto simp: abs_less_iff)
  have o1: "- 2147458648 \<le> off_day" "off_day \<le> 2147458648" using o(1) by (auto simp: abs_le_iff)
  define h where "h = offset_sec - q * 86400"
  have h: "- 86400 < h" "h < 86400" using sdiv_range [of 86400 offset_sec] by (simp_all add: h_def assms(4) S)
  have t: "tm_clock tm = tm_hour tm * 3600 + tm_min tm * 60 + tm_sec tm" by (simp add: tm_clock_def)
  have q4: "offset_sec sdiv 86400 = q" and e4: "e = h + tm_clock tm" by (simp_all add: assms(4,5) S h_def)
  have cr: "0 \<le> tm_clock tm" "tm_clock tm < 86400" using clock_range [OF assms(1)] by (simp_all add: S)
  have w: "int32 q = q" "int32 (q * 86400) = q * 86400" "int64 h = h" "int32 h = h" "int32 (q + off_day) = q + off_day"
    "int32 (q + off_day + 1) = q + off_day + 1" "int32 (q + off_day - 1) = q + off_day - 1"
    "int32 (h + tm_clock tm) = h + tm_clock tm" "int32 (h + tm_clock tm - 86400) = h + tm_clock tm - 86400"
    "int32 (h + tm_clock tm + 86400) = h + tm_clock tm + 86400"
    by ((rule int32_num | rule int64_num); use o1 q h cr in linarith)+
  have wc: "int32 (tm_hour tm * 3600) = tm_hour tm * 3600" "int32 (tm_min tm * 60) = tm_min tm * 60"
    "int32 (tm_hour tm * 3600 + tm_min tm * 60) = tm_hour tm * 3600 + tm_min tm * 60" "int32 (tm_clock tm) = tm_clock tm"
    by (rule int32_id; use c cr in simp)+
  have wd: "int32 (tm_year tm + 1900) = tm_year tm + 1900" "int32 (tm_mon tm + 1) = tm_mon tm + 1"
    by (rule int32_id; use assms(2) in \<open>simp add: date_in_range_def\<close>)+
  have jd: "date_to_julian (tm_year tm + 1900) (tm_mon tm + 1) (tm_mday tm) = tm_jd tm"
    unfolding tm_jd_def by (rule date_to_julian_exact) (use assms(2) in \<open>simp_all add: date_in_range_def\<close>)
  have jb: "\<bar>tm_jd tm\<bar> \<le> 2 ^ 31"
    unfolding jd [symmetric] by (rule date_to_julian_abs)
  have wj: "int64 (tm_jd tm + k) = tm_jd tm + k" if "k \<in> {q + off_day, q + off_day + 1, q + off_day - 1}" for k
    by (rule int64_num; use that jb o1 q in \<open>auto simp: abs_le_iff\<close>)
  show ?thesis
    unfolding julian_adj_def Let_def S q4 w(1,2) h_def [symmetric] w(3-5) wc(1-3) t [symmetric] wc(4) wd jd e4 w(6-)
    using wj by (simp add: if_distrib [of int64] split: if_split)
qed

lemma julian_adj_eq:
  assumes "clock_ok tm" "date_in_range tm" "offsets_in_range off_day offset_sec"
    and "t = tm_secs tm + off_day * SECS_PER_DAY + offset_sec"
  shows "julian_adj tm off_day offset_sec =
    (if t div SECS_PER_DAY < 0 then None else Some (t div SECS_PER_DAY, t mod SECS_PER_DAY))"
proof -
  define q where "q = offset_sec sdiv SECS_PER_DAY"
  define e where "e = offset_sec - q * SECS_PER_DAY + tm_clock tm"
  have S: "(0 :: int) < SECS_PER_DAY" by (simp add: SECS_PER_DAY_def)
  have e: "- SECS_PER_DAY < e" "e < 2 * SECS_PER_DAY"
    using sdiv_range [OF S, of offset_sec] clock_range [OF assms(1)] by (simp_all add: e_def q_def)
  have t: "t = e + SECS_PER_DAY * (tm_jd tm + (q + off_day))"
    by (simp add: assms(4) tm_secs_def e_def algebra_simps)
  define k :: int where "k = (if e \<ge> SECS_PER_DAY then 1 else if e < 0 then - 1 else 0)"
  have "t = (e - k * SECS_PER_DAY) + SECS_PER_DAY * (tm_jd tm + (q + off_day) + k)" by (simp add: t algebra_simps)
  moreover have "0 \<le> e - k * SECS_PER_DAY" "e - k * SECS_PER_DAY < SECS_PER_DAY" using e by (auto simp: k_def)
  ultimately have d: "t div SECS_PER_DAY = tm_jd tm + (q + off_day) + k" "t mod SECS_PER_DAY = e - k * SECS_PER_DAY"
    by (simp_all add: mod_pos_pos_trivial div_pos_pos_trivial)
  show ?thesis unfolding julian_adj_exact [OF assms(1-3) q_def e_def] d by (auto simp: k_def)
qed

lemma date_in_range_jd: "date_in_range tm \<Longrightarrow> tm_jd tm < 2 ^ 31"
proof -
  assume d: "date_in_range tm"
  then have "date_to_julian (tm_year tm + 1900) (tm_mon tm + 1) (tm_mday tm) = tm_jd tm"
    unfolding tm_jd_def by (intro date_to_julian_exact) (simp_all add: date_in_range_def)
  then show ?thesis by (metis date_to_julian_less)
qed

lemma tm_jd_range: "date_in_range tm \<Longrightarrow> \<bar>tm_jd tm\<bar> \<le> 2 ^ 31"
proof -
  assume "date_in_range tm"
  then have "date_to_julian (tm_year tm + 1900) (tm_mon tm + 1) (tm_mday tm) = tm_jd tm"
    unfolding tm_jd_def by (intro date_to_julian_exact) (simp_all add: date_in_range_def)
  then show ?thesis using date_to_julian_abs by metis
qed

text \<open>The day a time in range is moved to by offsets in range.\<close>

lemma moved_day:
  assumes "clock_ok tm" "date_in_range tm" "offsets_in_range off_day offset_sec"
    and "t = tm_secs tm + off_day * SECS_PER_DAY + offset_sec"
  shows "t div SECS_PER_DAY \<le> 2 ^ 33"
proof -
  have "tm_jd tm \<le> 2147483648" using tm_jd_range [OF assms(2)] by simp
  moreover have "off_day \<le> 2147483648" "offset_sec \<le> 2147483648" using assms(3) by (auto simp: offsets_in_range_def abs_le_iff)
  ultimately have "t \<le> 86400 * 2 ^ 33" using clock_range [OF assms(1)] by (simp add: assms(4) tm_secs_def SECS_PER_DAY_def)
  then show ?thesis using div_range [of 86400 t] by (simp add: SECS_PER_DAY_def)
qed

lemma smod_nonneg: "0 \<le> a \<Longrightarrow> 0 < b \<Longrightarrow> a smod b = a mod (b :: int)"
  using sdiv_mult_smod_eq [of a b] by (simp add: sdiv_nonneg) (metis add_diff_cancel_left' minus_div_mult_eq_mod)

text \<open>\<^const>\<open>OPENSSL_gmtime_adj\<close> adds to the number of seconds.\<close>

lemma clock_split:
  assumes "0 \<le> s" "s < SECS_PER_DAY"
  shows "s = s div 3600 * 3600 + s div 60 mod 60 * 60 + s mod 60" "0 \<le> s div 3600" "s div 3600 \<le> 23"
    "s div 60 mod 60 \<le> 59" "s mod 60 \<le> 59"
proof -
  have "s div 3600 = s div 60 div 60" using zdiv_zmult2_eq [of 60 s 60] by simp
  then have "s div 60 = 60 * (s div 3600) + s div 60 mod 60" using mult_div_mod_eq [of 60 "s div 60"] by simp
  then show "s = s div 3600 * 3600 + s div 60 mod 60 * 60 + s mod 60" using mult_div_mod_eq [of 60 s] by linarith
  show "0 \<le> s div 3600" using assms by simp
  show "s div 3600 \<le> 23" using assms div_range [of 3600 s] by (simp add: SECS_PER_DAY_def)
  show "s div 60 mod 60 \<le> 59" "s mod 60 \<le> 59"
    using pos_mod_bound [of 60 "s div 60"] pos_mod_bound [of 60 s] by simp_all
qed

lemma gmtime_adj:
  assumes "clock_ok tm" "date_in_range tm" "offsets_in_range off_day offset_sec"
    and "t = tm_secs tm + off_day * SECS_PER_DAY + offset_sec" "0 \<le> t"
    and "julian_date (t div SECS_PER_DAY) = (y, m, d)"
    and "OPENSSL_gmtime_adj tm off_day offset_sec = (ok, tm')"
  shows "ok = (1900 \<le> y \<and> y \<le> 9999) \<and> (if ok then valid_tm tm' \<and> tm_secs tm' = t \<and> tm_year tm' = y - 1900 else tm' = tm)"
proof -
  define s where "s = t mod SECS_PER_DAY"
  have jd: "0 \<le> t div SECS_PER_DAY" using assms(5) by (simp add: SECS_PER_DAY_def)
  have s: "0 \<le> s" "s < SECS_PER_DAY" by (simp_all add: s_def SECS_PER_DAY_def)
  note cs = clock_split [OF s]
  note v = julian_date_valid [OF jd assms(6)]
  have jx: "julian_to_date (t div SECS_PER_DAY) = julian_date (t div SECS_PER_DAY)"
    by (rule julian_to_date_exact [OF _ moved_day [OF assms(1-4)]]) (use jd in simp)
  have m1: "int32 (m - 1) = m - 1" by (rule int32_id; use v in \<open>simp add: valid_date_def\<close>)
  have e: "OPENSSL_gmtime_adj tm off_day offset_sec =
      (if y < 1900 \<or> y > 9999 then (False, tm)
       else (True, tm\<lparr>tm_year := y - 1900, tm_mon := m - 1, tm_mday := d, tm_hour := s div 3600,
              tm_min := s div 60 mod 60, tm_sec := s mod 60\<rparr>))"
    using jd s m1 by (simp add: OPENSSL_gmtime_adj_def julian_adj_eq [OF assms(1-4)] jx assms(6) s_def [symmetric]
        sdiv_nonneg smod_nonneg)
  show ?thesis
  proof (cases "1900 \<le> y \<and> y \<le> 9999")
    case True
    then have ok: "ok" "tm' = tm\<lparr>tm_year := y - 1900, tm_mon := m - 1, tm_mday := d, tm_hour := s div 3600,
              tm_min := s div 60 mod 60, tm_sec := s mod 60\<rparr>"
      using assms(7) unfolding e by auto
    have "tm_secs tm' = t div SECS_PER_DAY * SECS_PER_DAY + s"
      using v cs(1) by (simp add: ok tm_secs_def tm_jd_def tm_clock_def)
    then have "tm_secs tm' = t" by (simp add: s_def)
    moreover have "valid_tm tm'" using v cs by (simp add: ok valid_tm_def clock_ok_def)
    ultimately show ?thesis using ok True by simp
  next
    case False
    then show ?thesis using assms(7) unfolding e by auto
  qed
qed

lemma gmtime_diff:
  assumes "clock_ok from" "clock_ok to" "date_in_range from" "date_in_range to" "0 \<le> tm_jd from" "0 \<le> tm_jd to"
  obtains dd ds where "OPENSSL_gmtime_diff from to = Some (dd, ds)" "dd * SECS_PER_DAY + ds = tm_secs to - tm_secs from"
    "- SECS_PER_DAY < ds" "ds < SECS_PER_DAY" "0 < dd \<longrightarrow> 0 \<le> ds" "dd < 0 \<longrightarrow> ds \<le> 0"
proof -
  have j: "julian_adj from 0 0 = Some (tm_jd from, tm_clock from)" "julian_adj to 0 0 = Some (tm_jd to, tm_clock to)"
    using assms tm_secs_day julian_adj_eq [of _ 0 0, OF _ _ _ refl] by simp_all
  define a b where "a = tm_jd to - tm_jd from" and "b = tm_clock to - tm_clock from"
  have b: "- SECS_PER_DAY < b" "b < SECS_PER_DAY" using clock_range [OF assms(1)] clock_range [OF assms(2)] by (simp_all add: b_def)
  have "tm_jd from < 2 ^ 31" "tm_jd to < 2 ^ 31" using date_in_range_jd [OF assms(3)] date_in_range_jd [OF assms(4)] by simp_all
  then have ab: "\<bar>a\<bar> < 2 ^ 31" using assms(5,6) by (simp add: a_def)
  have w: "int64 a = a" "int32 b = b" "int32 a = a"
    by ((rule int32_id | rule int64_id); use ab b in \<open>simp add: SECS_PER_DAY_def\<close>)+
  have S: "a * SECS_PER_DAY + b = tm_secs to - tm_secs from" by (simp add: a_def b_def tm_secs_def algebra_simps)
  consider "a > 0" "b < 0" | "a < 0" "b > 0" | "\<not> (a > 0 \<and> b < 0)" "\<not> (a < 0 \<and> b > 0)" by linarith
  then show ?thesis
  proof cases
    case 1
    moreover have "int64 (a - 1) = a - 1" "int32 (a - 1) = a - 1" "int32 (b + SECS_PER_DAY) = b + SECS_PER_DAY"
      by ((rule int32_id | rule int64_id); use ab b 1 in \<open>simp add: SECS_PER_DAY_def\<close>)+
    ultimately have "OPENSSL_gmtime_diff from to = Some (a - 1, b + SECS_PER_DAY)"
      unfolding OPENSSL_gmtime_diff_def j option.case prod.case Let_def a_def [symmetric] b_def [symmetric] w(1,2) by simp
    then show ?thesis using 1 b S by (intro that [of "a - 1" "b + SECS_PER_DAY"]) (simp_all add: algebra_simps)
  next
    case 2
    moreover have "int64 (a + 1) = a + 1" "int32 (a + 1) = a + 1" "int32 (b - SECS_PER_DAY) = b - SECS_PER_DAY"
      by ((rule int32_id | rule int64_id); use ab b 2 in \<open>simp add: SECS_PER_DAY_def\<close>)+
    ultimately have "OPENSSL_gmtime_diff from to = Some (a + 1, b - SECS_PER_DAY)"
      unfolding OPENSSL_gmtime_diff_def j option.case prod.case Let_def a_def [symmetric] b_def [symmetric] w(1,2) by simp
    then show ?thesis using 2 b S by (intro that [of "a + 1" "b - SECS_PER_DAY"]) (simp_all add: algebra_simps)
  next
    case 3
    then have "OPENSSL_gmtime_diff from to = Some (a, b)"
      unfolding OPENSSL_gmtime_diff_def j option.case prod.case Let_def a_def [symmetric] b_def [symmetric] w(1,2) using w(3) by auto
    then show ?thesis using 3 b S by (intro that [of a b]) auto
  qed
qed

section \<open>The C library's breaking down of seconds\<close>

lemma leap_year_period: "leap_year (y + 400 * k) = leap_year y"
proof -
  have "y + 400 * k = y + 4 * (100 * k)" by simp
  then have "(y + 400 * k) mod 4 = y mod 4" by (simp only: mod_mult_self2)
  moreover have "y + 400 * k = y + 100 * (4 * k)" by simp
  then have "(y + 400 * k) mod 100 = y mod 100" by (simp only: mod_mult_self2)
  ultimately show ?thesis by (simp add: leap_year_def)
qed

lemma valid_date_period: "valid_date (y + 400 * k) m d = valid_date y m d"
  by (simp add: valid_date_def month_length_def leap_year_period)

lemma julian_day_period:
  assumes "1 \<le> m" "m \<le> 12" "0 \<le> march_year y m" "0 \<le> march_year (y + 400 * k) m"
  shows "julian_day (y + 400 * k) m d = julian_day y m d + 146097 * k"
proof -
  define Y where "Y = march_year y m"
  have Y: "march_year (y + 400 * k) m = Y + 400 * k" by (simp add: Y_def march_year_def)
  have "1461 * (Y + 400 * k) = 1461 * Y + 4 * (146100 * k)" by simp
  then have a: "1461 * (Y + 400 * k) div 4 = 146100 * k + 1461 * Y div 4" by (simp only: div_mult_self2)
  have "Y + 400 * k + 100 = (Y + 100) + 100 * (4 * k)" by simp
  then have "(Y + 400 * k + 100) div 100 = 4 * k + (Y + 100) div 100" by (simp only: div_mult_self2)
  then have "3 * ((Y + 400 * k + 100) div 100) = 3 * ((Y + 100) div 100) + 4 * (3 * k)" by simp
  then have b: "3 * ((Y + 400 * k + 100) div 100) div 4 = 3 * k + 3 * ((Y + 100) div 100) div 4" by (simp only: div_mult_self2)
  show ?thesis
    using julian_day_eq [OF assms(1,2,4), of d] julian_day_eq [OF assms(1-3), of d]
    unfolding Y Y_def [symmetric] days_before_def a b by simp
qed

lemma gmtime_fields:
  assumes "OPENSSL_gmtime t = Some tm" "0 \<le> EPOCH_JD + t div SECS_PER_DAY"
  shows "valid_tm tm \<and> tm_secs tm = t + EPOCH_JD * SECS_PER_DAY \<and> 0 \<le> march_year (tm_year tm + 1900) (tm_mon tm + 1)"
proof -
  define jd s k where "jd = EPOCH_JD + t div SECS_PER_DAY" and "s = t mod SECS_PER_DAY" and "k = jd div 146097"
  obtain y m d where ymd: "julian_date (jd mod 146097) = (y, m, d)" by (metis prod.exhaust)
  have "0 \<le> jd mod 146097" by simp
  note v = julian_date_valid [OF this ymd]
  have k: "0 \<le> k" using assms(2) by (simp add: k_def jd_def pos_imp_zdiv_nonneg_iff)
  have m: "1 \<le> m" "m \<le> 12" using v by (simp_all add: valid_date_def)
  have tm: "tm = \<lparr>tm_sec = s mod 60, tm_min = s div 60 mod 60, tm_hour = s div 3600, tm_mday = d, tm_mon = m - 1,
      tm_year = y + 400 * k - 1900\<rparr>"
    using assms(1) unfolding OPENSSL_gmtime_def Let_def jd_def [symmetric] s_def [symmetric] k_def [symmetric] ymd
    by (auto split: if_split_asm)
  have Y: "0 \<le> march_year (y + 400 * k) m" "- 4800 \<le> y" using v k by (auto simp: march_year_def split: if_split_asm)
  have "julian_day (y + 400 * k) m d = jd"
    using julian_day_period [OF m _ Y(1)] v by (simp add: k_def)
  moreover have s: "0 \<le> s" "s < SECS_PER_DAY" by (simp_all add: s_def SECS_PER_DAY_def)
  note cs = clock_split [OF s]
  ultimately have "tm_secs tm = jd * SECS_PER_DAY + s" using cs(1) by (simp add: tm tm_secs_def tm_jd_def tm_clock_def)
  then have "tm_secs tm = t + EPOCH_JD * SECS_PER_DAY" by (simp add: jd_def s_def algebra_simps)
  moreover have "valid_tm tm"
    using v cs(2-5) s(1) by (simp add: tm valid_tm_def clock_ok_def valid_date_period)
  ultimately show ?thesis using Y(1) by (simp add: tm)
qed

section \<open>Years\<close>

lemma days_before_Suc: "days_before Y + 365 \<le> days_before (Y + 1)"
proof -
  have "Y = 100 * (Y div 100 + 1 - 1) + Y mod 100" "0 \<le> Y mod 100" "Y mod 100 \<le> 99"
    using pos_mod_bound [of 100 Y] by simp_all
  from year_step [OF this] show ?thesis by simp
qed

lemma days_before_mono: "Y \<le> Z \<Longrightarrow> days_before Y \<le> days_before Z"
proof (induction Z rule: int_ge_induct)
  case (step Z)
  then show ?case using days_before_Suc [of Z] by simp
qed simp

definition new_year :: "int \<Rightarrow> int" where
  "new_year y = days_before (y + 4799) + 337 - 32075"

lemma new_year_eq: "- 4799 \<le> y \<Longrightarrow> julian_day y 1 1 = new_year y"
  using julian_day_eq [of 1 y 1] by (simp add: new_year_def march_year_def march_month_def add.commute)

lemma month_days:
  assumes "1 \<le> m" "m \<le> 12" "1 \<le> d" "d \<le> month_length y m"
  shows "if m \<le> 2 then 337 \<le> 367 * march_month m div 12 + d \<and> 367 * march_month m div 12 + d \<le> 396
    else 31 \<le> 367 * march_month m div 12 + d \<and> 367 * march_month m div 12 + d \<le> 336"
  using months [OF assms(1,2)] assms(3,4) by (auto simp: march_month_def month_length_def split: if_split_asm)

lemma date_in_year:
  assumes "valid_date y m d" "0 \<le> march_year y m"
  shows "new_year y \<le> julian_day y m d" "julian_day y m d < new_year (y + 1)"
proof -
  have m: "1 \<le> m" "m \<le> 12" and d: "1 \<le> d" "d \<le> month_length y m" using assms(1) by (simp_all add: valid_date_def)
  define K where "K = 367 * march_month m div 12 + d"
  have j: "julian_day y m d = days_before (march_year y m) + K - 32075"
    using julian_day_eq [OF m assms(2)] by (simp add: K_def)
  have n: "new_year y = days_before (y + 4799) + 337 - 32075" "new_year (y + 1) = days_before (y + 4800) + 337 - 32075"
    by (simp_all add: new_year_def add.commute)
  have s: "days_before (y + 4799) + 365 \<le> days_before (y + 4800)" using days_before_Suc [of "y + 4799"] by (simp add: add.commute)
  have "new_year y \<le> julian_day y m d \<and> julian_day y m d < new_year (y + 1)"
  proof (cases "m \<le> 2")
    case True
    then have "march_year y m = y + 4799" by (simp add: march_year_def)
    then show ?thesis using month_days [OF m d] True s by (simp add: j n K_def [symmetric])
  next
    case False
    then have "march_year y m = y + 4800" by (simp add: march_year_def)
    then show ?thesis using month_days [OF m d] False s by (simp add: j n K_def [symmetric])
  qed
  then show "new_year y \<le> julian_day y m d" "julian_day y m d < new_year (y + 1)" by simp_all
qed

lemma new_year_mono: "y \<le> z \<Longrightarrow> new_year y \<le> new_year z"
  using days_before_mono [of "y + 4799" "z + 4799"] by (simp add: new_year_def)

lemma year_range:
  assumes "valid_date y m d" "0 \<le> march_year y m"
  shows "lo \<le> y \<longleftrightarrow> new_year lo \<le> julian_day y m d" "y < hi \<longleftrightarrow> julian_day y m d < new_year hi"
proof -
  note r = date_in_year [OF assms]
  have ge: "lo \<le> y \<longleftrightarrow> new_year lo \<le> julian_day y m d" for lo
  proof
    assume "lo \<le> y"
    then show "new_year lo \<le> julian_day y m d" using new_year_mono r(1) by (meson order_trans)
  next
    assume l: "new_year lo \<le> julian_day y m d"
    show "lo \<le> y"
    proof (rule ccontr)
      assume "\<not> lo \<le> y"
      then have "new_year (y + 1) \<le> new_year lo" by (intro new_year_mono) simp
      then show False using l r(2) by simp
    qed
  qed
  show "lo \<le> y \<longleftrightarrow> new_year lo \<le> julian_day y m d" by (rule ge)
  show "y < hi \<longleftrightarrow> julian_day y m d < new_year hi" using ge [of hi] by auto
qed

lemma date_in_calendar:
  assumes "valid_date y m d" "- 4800 \<le> y" "y \<le> 1465072"
  shows "date_to_julian y m d = julian_day y m d"
  using assms by (intro date_to_julian_exact) (simp_all add: valid_date_def month_length_def split: if_split_asm)

section \<open>Properties\<close>

text \<open>C37: the conversion between dates and Julian days, in the 32 and 64 bits of the code, is the calendar: for every valid date from
  the year -4799 up to the year 1465071 the two functions are inverse to each other, the day after a date has the next
  number, and the epoch has the number the library assumes. The upper bound is where the code ends: its first product
  overflows in March of the year 1465073.\<close>

theorem julian_day_correct:
  assumes "valid_date y m d" "- 4799 \<le> y" "y \<le> 1465071" "next_day (y, m, d) = (y', m', d')"
  shows "julian_to_date (date_to_julian y m d) = (y, m, d) \<and> date_to_julian y' m' d' = date_to_julian y m d + 1 \<and>
    valid_date y' m' d' \<and> date_to_julian 1970 1 1 = EPOCH_JD \<and> date_to_julian 1465073 3 1 < 0"
proof -
  have my: "0 \<le> march_year y m" using assms(2) by (simp add: march_year_def)
  note nx = julian_next_day [OF assms(1) my assms(4)]
  have y': "y' = y \<or> y' = y + 1" using assms(4) by (auto simp: next_day_def split: if_split_asm)
  have e: "date_to_julian y m d = julian_day y m d" "date_to_julian y' m' d' = julian_day y' m' d'"
    using date_in_calendar [OF assms(1)] date_in_calendar [of y' m' d'] nx assms(2,3) y' by auto
  have "new_year (- 4799) \<le> julian_day y m d" using year_range(1) [OF assms(1) my, of "- 4799"] assms(2) by simp
  moreover have "new_year (- 4799) = - 31738" by (simp add: new_year_def days_before_def)
  moreover have "julian_day y m d \<le> 2 ^ 31" unfolding e(1) [symmetric] using date_to_julian_less [of y m d] by simp
  ultimately have "julian_to_date (julian_day y m d) = (y, m, d)"
    using julian_to_date_exact [of "julian_day y m d"] julian_roundtrip [OF assms(1) my] by simp
  moreover have "date_to_julian 1970 1 1 = EPOCH_JD" "date_to_julian 1465073 3 1 < 0" by code_simp+
  ultimately show ?thesis using nx unfolding e by blast
qed

theorem julian_day_correct_witness: "date_to_julian 2000 2 29 + 1 = date_to_julian 2000 3 1"
  using julian_day_correct [of 2000 2 29 2000 3 1]
  by (simp add: valid_date_def month_length_def leap_year_def next_day_def)

lemma gmtime_adj_sum:
  assumes "clock_ok tm" "date_in_range tm" "offsets_in_range off_day offset_sec"
    and "t = tm_secs tm + off_day * SECS_PER_DAY + offset_sec" "0 \<le> t"
    and "OPENSSL_gmtime_adj tm off_day offset_sec = (ok, tm')"
  shows "ok = (julian_day 1900 1 1 * SECS_PER_DAY \<le> t \<and> t < julian_day 10000 1 1 * SECS_PER_DAY) \<and>
    (if ok then valid_tm tm' \<and> tm_secs tm' = t else tm' = tm)"
proof -
  define jd where "jd = t div SECS_PER_DAY"
  obtain y m d where ymd: "julian_date jd = (y, m, d)" by (metis prod.exhaust)
  have jd: "0 \<le> jd" using assms(5) by (simp add: jd_def SECS_PER_DAY_def)
  note v = julian_date_valid [OF jd ymd]
  have r: "1900 \<le> y \<longleftrightarrow> new_year 1900 \<le> jd" "y \<le> 9999 \<longleftrightarrow> jd < new_year 10000"
    using year_range(1) [of y m d 1900] year_range(2) [of y m d 10000] v by auto
  have "n \<le> jd \<longleftrightarrow> n * SECS_PER_DAY \<le> t" for n
    using div_range [of SECS_PER_DAY t] unfolding jd_def SECS_PER_DAY_def by auto
  moreover from this have "jd < n \<longleftrightarrow> t < n * SECS_PER_DAY" for n by (metis linorder_not_less)
  ultimately show ?thesis
    using gmtime_adj [OF assms(1-5) ymd [unfolded jd_def] assms(6)] r by (simp add: new_year_eq)
qed

text \<open>\<^verbatim>\<open>OPENSSL_gmtime_adj\<close> adds offsets in range exactly: it succeeds if and only if the sum lies in the years 1900 to 9999,
  the fields are then those of a valid date and time of day at that distance, and otherwise they are unchanged.\<close>

theorem gmtime_adj_adds:
  assumes "clock_ok tm" "date_in_range tm" "offsets_in_range off_day offset_sec"
    and "t = tm_secs tm + off_day * SECS_PER_DAY + offset_sec" "0 \<le> t"
    and "OPENSSL_gmtime_adj tm off_day offset_sec = (ok, tm')"
  shows "ok = (julian_day 1900 1 1 * SECS_PER_DAY \<le> t \<and> t < julian_day 10000 1 1 * SECS_PER_DAY) \<and>
    (if ok then valid_tm tm' \<and> tm_secs tm' = t else tm' = tm)"
  by (rule gmtime_adj_sum [OF assms])

theorem gmtime_adj_adds_witness:
  "\<exists>tm. OPENSSL_gmtime_adj \<lparr>tm_sec = 59, tm_min = 59, tm_hour = 23, tm_mday = 31, tm_mon = 11, tm_year = 99\<rparr> 0 1 = (True, tm) \<and>
     valid_tm tm \<and> tm_secs tm = julian_day 2000 1 1 * SECS_PER_DAY"
proof -
  define tm where "tm = \<lparr>tm_sec = 59, tm_min = 59, tm_hour = 23, tm_mday = 31, tm_mon = 11, tm_year = 99\<rparr>"
  have c: "clock_ok tm" by (simp add: tm_def clock_ok_def)
  have r: "date_in_range tm" "offsets_in_range 0 1" by (simp_all add: tm_def date_in_range_def offsets_in_range_def)
  have t: "211813488000 = tm_secs tm + 0 * SECS_PER_DAY + 1"
    by (simp add: tm_def tm_secs_def tm_jd_def tm_clock_def julian_day_def SECS_PER_DAY_def signed_divide_int_def sgn_if)
  obtain ok tm' where a: "OPENSSL_gmtime_adj tm 0 1 = (ok, tm')" by fastforce
  from gmtime_adj_adds [OF c r t _ a] have "ok \<and> valid_tm tm' \<and> tm_secs tm' = 211813488000"
    by (simp add: julian_day_def SECS_PER_DAY_def signed_divide_int_def sgn_if split: if_split_asm)
  moreover have "julian_day 2000 1 1 * SECS_PER_DAY = 211813488000"
    by (simp add: julian_day_def SECS_PER_DAY_def signed_divide_int_def sgn_if)
  ultimately show ?thesis using a by (simp add: tm_def)
qed

end
