(* ===== verification/Asn1_Time.thy ===== *)
theory Asn1_Time
  imports Asn1_String Time_Support
begin

text \<open>
  Times as texts: \<^verbatim>\<open>crypto/asn1/a_gentm.c\<close> (GeneralizedTime), \<^verbatim>\<open>a_utctm.c\<close> (UTCTime) and \<^verbatim>\<open>a_time.c\<close> (the choice of the two).
  The parsers walk over the memory of a string and store its fields in a \<^verbatim>\<open>struct tm\<close>; the writers print one with
  \<^verbatim>\<open>BIO_snprintf\<close>. The lemmas show that what is written is read back as the same second, that a UTCTime and the
  GeneralizedTime made from it are read alike, and that differences and comparisons are those of the counts of seconds. The
  proofs read a text into the list of its fields first (\<open>read_fields\<close>); everything about a parser is a lemma on this list.
\<close>

section \<open>Reading times\<close>

definition V_ASN1_UTCTIME :: int where "V_ASN1_UTCTIME = 23"
definition V_ASN1_GENERALIZEDTIME :: int where "V_ASN1_GENERALIZEDTIME = 24"

text \<open>\<open>a\<close> is the memory of the string, \<open>l\<close> its length and \<open>p\<close> (\<^verbatim>\<open>o\<close> in the code) the position; the byte behind the
  memory reads as zero. Two digits and the positions behind them:\<close>

definition is_digit :: "byte \<Rightarrow> bool" where
  "is_digit c \<longleftrightarrow> \<not> (c < 48 \<or> c > 57)"

definition digit_val :: "byte \<Rightarrow> int" where
  "digit_val c = int (unat c) - 48"

definition two_digits :: "byte list \<Rightarrow> int \<Rightarrow> nat \<Rightarrow> (int \<times> nat) option" where
  "two_digits a l p =
     (if \<not> is_digit (cstr_at a p) then None
      else
        let n = digit_val (cstr_at a p); p = p + 1 in
        if int p > l then None
        else if \<not> is_digit (cstr_at a p) then None
        else
          let n = n * 10 + digit_val (cstr_at a p); p = p + 1 in
          if int p > l then None else Some (n, p))"

text \<open>The loop over the fields: \<open>secs\<close> is the index of the seconds, which may be missing, and \<open>put\<close> stores a field. The
  output \<open>tm\<close> is \<open>None\<close> for a null pointer.\<close>

function time_fields ::
    "int list \<Rightarrow> int list \<Rightarrow> nat \<Rightarrow> (nat \<Rightarrow> int \<Rightarrow> tm \<Rightarrow> tm) \<Rightarrow> byte list \<Rightarrow> int \<Rightarrow> nat \<Rightarrow> nat \<Rightarrow> tm option \<Rightarrow>
     (nat \<times> tm option) option" where
  "time_fields mn mx secs put a l i p tm =
     (if i < secs + 1 then
        (if i = secs \<and> (cstr_at a p = 90 \<or> cstr_at a p = 43 \<or> cstr_at a p = 45)
         then Some (p, map_option (\<lambda>tm. tm\<lparr>tm_sec := 0\<rparr>) tm)
         else
           (case two_digits a l p of
              None \<Rightarrow> None
            | Some (n, p) \<Rightarrow>
              if n < mn ! i \<or> n > mx ! i then None
              else time_fields mn mx secs put a l (i + 1) p (map_option (put i n) tm)))
      else Some (p, tm))"
  by pat_completeness auto
termination
  by (relation "measure (\<lambda>(mn, mx, secs, put, a, l, i, p, tm). secs + 1 - i)") auto

declare time_fields.simps [simp del]

text \<open>The offset from Greenwich, four digits behind a sign. Nothing is added for a null pointer.\<close>

definition zone_field :: "int \<Rightarrow> int \<Rightarrow> byte list \<Rightarrow> nat \<Rightarrow> (int \<times> nat) option" where
  "zone_field lo hi a p =
     (if \<not> is_digit (cstr_at a p) then None
      else
        let n = digit_val (cstr_at a p); p = p + 1 in
        if \<not> is_digit (cstr_at a p) then None
        else
          let n = n * 10 + digit_val (cstr_at a p) in
          if n < lo \<or> n > hi then None else Some (n, p + 1))"

definition time_zone :: "int list \<Rightarrow> int list \<Rightarrow> nat \<Rightarrow> byte list \<Rightarrow> int \<Rightarrow> nat \<Rightarrow> tm option \<Rightarrow> (nat \<times> tm option) option" where
  "time_zone mn mx i a l p tm =
     (let offsign = (if cstr_at a p = 45 then 1 else - 1); p = p + 1 in
      if int p + 4 > l then None
      else
        (case zone_field (mn ! i) (mx ! i) a p of
           None \<Rightarrow> None
         | Some (h, p) \<Rightarrow>
           (case zone_field (mn ! (i + 1)) (mx ! (i + 1)) a p of
              None \<Rightarrow> None
            | Some (m, p) \<Rightarrow>
              (case tm of
                 None \<Rightarrow> Some (p, None)
               | Some tm \<Rightarrow>
                 let offset = h * 3600 + m * 60 in
                 if offset \<noteq> 0 then
                   (case OPENSSL_gmtime_adj tm 0 (offset * offsign) of
                      (False, _) \<Rightarrow> None
                    | (True, tm) \<Rightarrow> Some (p, Some tm))
                 else Some (p, Some tm)))))"

function skip_digits :: "byte list \<Rightarrow> int \<Rightarrow> nat \<Rightarrow> nat" where
  "skip_digits a l p = (if is_digit (cstr_at a p) \<and> int p \<le> l then skip_digits a l (p + 1) else p)"
  by pat_completeness auto
termination
  by (relation "measure (\<lambda>(a, l, p). nat (l + 1 - int p))") auto

declare skip_digits.simps [simp del]

text \<open>GeneralizedTime: the century and the year are two fields.\<close>

definition gen_min :: "int list" where "gen_min = [0, 0, 1, 1, 0, 0, 0, 0, 0]"
definition gen_max :: "int list" where "gen_max = [99, 99, 12, 31, 23, 59, 59, 12, 59]"

definition gen_set :: "nat \<Rightarrow> int \<Rightarrow> tm \<Rightarrow> tm" where
  "gen_set i n tm =
     (if i = 0 then tm\<lparr>tm_year := n * 100 - 1900\<rparr>
      else if i = 1 then tm\<lparr>tm_year := tm_year tm + n\<rparr>
      else if i = 2 then tm\<lparr>tm_mon := n - 1\<rparr>
      else if i = 3 then tm\<lparr>tm_mday := n\<rparr>
      else if i = 4 then tm\<lparr>tm_hour := n\<rparr>
      else if i = 5 then tm\<lparr>tm_min := n\<rparr>
      else if i = 6 then tm\<lparr>tm_sec := n\<rparr>
      else tm)"

definition gen_fraction :: "byte list \<Rightarrow> int \<Rightarrow> nat \<Rightarrow> nat option" where
  "gen_fraction a l p =
     (if cstr_at a p = 46 then
        let p = p + 1 in
        if int p > l then None
        else let i = p; p = skip_digits a l p in if i = p then None else Some p
      else Some p)"

text \<open>The outer \<open>None\<close> is failure; on success the result is the output, which stays a null pointer if it is one.\<close>

definition asn1_generalizedtime_to_tm :: "tm option \<Rightarrow> asn1_string \<Rightarrow> tm option option" where
  "asn1_generalizedtime_to_tm tm d =
     (if st_type d \<noteq> V_ASN1_GENERALIZEDTIME then None
      else
        let l = st_length d; a = st_mem d in
        if l < 13 then None
        else
          (case time_fields gen_min gen_max 6 gen_set a l 0 0 tm of
             None \<Rightarrow> None
           | Some (p, tm) \<Rightarrow>
             (case gen_fraction a l p of
                None \<Rightarrow> None
              | Some p \<Rightarrow>
                (case (if cstr_at a p = 90 then Some (p + 1, tm)
                       else if cstr_at a p = 43 \<or> cstr_at a p = 45 then time_zone gen_min gen_max 7 a l p tm
                       else if cstr_at a p \<noteq> 0 then None
                       else Some (p, tm)) of
                   None \<Rightarrow> None
                 | Some (p, tm) \<Rightarrow> if int p = l then Some tm else None))))"

text \<open>UTCTime: years below 50 are in the century from 2000 on.\<close>

definition utc_min :: "int list" where "utc_min = [0, 1, 1, 0, 0, 0, 0, 0]"
definition utc_max :: "int list" where "utc_max = [99, 12, 31, 23, 59, 59, 12, 59]"

definition utc_set :: "nat \<Rightarrow> int \<Rightarrow> tm \<Rightarrow> tm" where
  "utc_set i n tm =
     (if i = 0 then tm\<lparr>tm_year := (if n < 50 then n + 100 else n)\<rparr>
      else if i = 1 then tm\<lparr>tm_mon := n - 1\<rparr>
      else if i = 2 then tm\<lparr>tm_mday := n\<rparr>
      else if i = 3 then tm\<lparr>tm_hour := n\<rparr>
      else if i = 4 then tm\<lparr>tm_min := n\<rparr>
      else if i = 5 then tm\<lparr>tm_sec := n\<rparr>
      else tm)"

definition asn1_utctime_to_tm :: "tm option \<Rightarrow> asn1_string \<Rightarrow> tm option option" where
  "asn1_utctime_to_tm tm d =
     (if st_type d \<noteq> V_ASN1_UTCTIME then None
      else
        let l = st_length d; a = st_mem d in
        if l < 11 then None
        else
          (case time_fields utc_min utc_max 5 utc_set a l 0 0 tm of
             None \<Rightarrow> None
           | Some (p, tm) \<Rightarrow>
             (case (if cstr_at a p = 90 then Some (p + 1, tm)
                    else if cstr_at a p = 43 \<or> cstr_at a p = 45 then time_zone utc_min utc_max 6 a l p tm
                    else Some (p, tm)) of
                None \<Rightarrow> None
              | Some (p, tm) \<Rightarrow> if int p = l then Some tm else None)))"

definition ASN1_GENERALIZEDTIME_check :: "asn1_string \<Rightarrow> bool" where
  "ASN1_GENERALIZEDTIME_check d \<longleftrightarrow> asn1_generalizedtime_to_tm None d \<noteq> None"

definition ASN1_UTCTIME_check :: "asn1_string \<Rightarrow> bool" where
  "ASN1_UTCTIME_check d \<longleftrightarrow> asn1_utctime_to_tm None d \<noteq> None"

definition ASN1_TIME_check :: "asn1_string \<Rightarrow> bool" where
  "ASN1_TIME_check t =
     (if st_type t = V_ASN1_GENERALIZEDTIME then ASN1_GENERALIZEDTIME_check t
      else if st_type t = V_ASN1_UTCTIME then ASN1_UTCTIME_check t
      else False)"

text \<open>A C string as a string object; the flags are not looked at.\<close>

definition string_of_cstr :: "int \<Rightarrow> cstr \<Rightarrow> asn1_string" where
  "string_of_cstr type str = \<lparr>st_length = int (length str), st_type = type, st_data = Some (str @ [0]), st_flags = 0\<rparr>"

text \<open>The three functions that set a time from a text; the result is the return value and the object.\<close>

definition ASN1_GENERALIZEDTIME_set_string :: "heap_env \<Rightarrow> asn1_string option \<Rightarrow> cstr \<Rightarrow> bool \<times> asn1_string option" where
  "ASN1_GENERALIZEDTIME_set_string env s str =
     (let t = string_of_cstr V_ASN1_GENERALIZEDTIME str in
      if ASN1_GENERALIZEDTIME_check t then
        (case s of
           None \<Rightarrow> (True, None)
         | Some s \<Rightarrow>
           (case ASN1_STRING_set env s (Some (str @ [0])) (st_length t) of
              (False, s) \<Rightarrow> (False, Some s)
            | (True, s) \<Rightarrow> (True, Some (s\<lparr>st_type := V_ASN1_GENERALIZEDTIME\<rparr>))))
      else (False, s))"

definition ASN1_UTCTIME_set_string :: "heap_env \<Rightarrow> asn1_string option \<Rightarrow> cstr \<Rightarrow> bool \<times> asn1_string option" where
  "ASN1_UTCTIME_set_string env s str =
     (let t = string_of_cstr V_ASN1_UTCTIME str in
      if ASN1_UTCTIME_check t then
        (case s of
           None \<Rightarrow> (True, None)
         | Some s \<Rightarrow>
           (case ASN1_STRING_set env s (Some (str @ [0])) (st_length t) of
              (False, s) \<Rightarrow> (False, Some s)
            | (True, s) \<Rightarrow> (True, Some (s\<lparr>st_type := V_ASN1_UTCTIME\<rparr>))))
      else (False, s))"

definition ASN1_TIME_set_string :: "heap_env \<Rightarrow> asn1_string option \<Rightarrow> cstr \<Rightarrow> bool \<times> asn1_string option" where
  "ASN1_TIME_set_string env s str =
     (let t = (if ASN1_TIME_check (string_of_cstr V_ASN1_UTCTIME str) then string_of_cstr V_ASN1_UTCTIME str
               else string_of_cstr V_ASN1_GENERALIZEDTIME str) in
      if \<not> ASN1_TIME_check t then (False, s)
      else
        (case s of
           None \<Rightarrow> (True, None)
         | Some s \<Rightarrow> (case ASN1_STRING_copy env s (Some t) of (ok, s) \<Rightarrow> (ok, Some s))))"

section \<open>Writing times\<close>

text \<open>The conversion \<^verbatim>\<open>%0wd\<close> of the C library for a number that is not negative.\<close>

definition fmt_d :: "nat \<Rightarrow> int \<Rightarrow> byte list" where
  "fmt_d w n = (let digits = dec (nat n) in replicate (w - length digits) 48 @ digits)"

text \<open>\<^verbatim>\<open>BIO_snprintf\<close> writes at most \<open>len - 1\<close> characters and a zero.\<close>

definition snprintf_to :: "byte list \<Rightarrow> nat \<Rightarrow> byte list \<Rightarrow> byte list" where
  "snprintf_to mem len text = mem_write 0 (take (len - 1) text @ [0]) mem"

definition gen_text :: "tm \<Rightarrow> byte list" where
  "gen_text ts = fmt_d 4 (tm_year ts + 1900) @ fmt_d 2 (tm_mon ts + 1) @ fmt_d 2 (tm_mday ts) @
     fmt_d 2 (tm_hour ts) @ fmt_d 2 (tm_min ts) @ fmt_d 2 (tm_sec ts) @ [90]"

definition utc_text :: "tm \<Rightarrow> byte list" where
  "utc_text ts = fmt_d 2 (tm_year ts smod 100) @ fmt_d 2 (tm_mon ts + 1) @ fmt_d 2 (tm_mday ts) @
     fmt_d 2 (tm_hour ts) @ fmt_d 2 (tm_min ts) @ fmt_d 2 (tm_sec ts) @ [90]"

text \<open>The memory the text goes to: a fresh block of 20 bytes unless the string is that long already.\<close>

definition time_buffer :: "heap_env \<Rightarrow> asn1_string \<Rightarrow> nat \<Rightarrow> byte list option" where
  "time_buffer env s len =
     (case st_data s of
        None \<Rightarrow> OPENSSL_malloc env len
      | Some p \<Rightarrow> if st_length s < int len then OPENSSL_malloc env len else Some p)"

text \<open>The string \<open>s\<close> is an argument that may be a null pointer. \<open>None\<close> is the result \<^verbatim>\<open>NULL\<close>; the string an argument
  points to is unchanged then.\<close>

definition ASN1_GENERALIZEDTIME_adj :: "heap_env \<Rightarrow> asn1_string option \<Rightarrow> int \<Rightarrow> int \<Rightarrow> int \<Rightarrow> asn1_string option" where
  "ASN1_GENERALIZEDTIME_adj env s t offset_day offset_sec =
     (let len = 20 in
      case (case s of None \<Rightarrow> ASN1_STRING_type_new env V_ASN1_GENERALIZEDTIME | Some s \<Rightarrow> Some s) of
        None \<Rightarrow> None
      | Some tmps \<Rightarrow>
        (case OPENSSL_gmtime t of
           None \<Rightarrow> None
         | Some ts \<Rightarrow>
           (case (if offset_day \<noteq> 0 \<or> offset_sec \<noteq> 0 then OPENSSL_gmtime_adj ts offset_day offset_sec else (True, ts)) of
              (False, _) \<Rightarrow> None
            | (True, ts) \<Rightarrow>
              if tm_year ts < 0 - 1900 \<or> tm_year ts > 9999 - 1900 then None
              else
                (case time_buffer env tmps len of
                   None \<Rightarrow> None
                 | Some p \<Rightarrow>
                   let p = snprintf_to p len (gen_text ts) in
                   Some (tmps\<lparr>st_data := Some p, st_length := int (length (takeWhile (\<lambda>c. c \<noteq> 0) p)),
                     st_type := V_ASN1_GENERALIZEDTIME\<rparr>)))))"

definition ASN1_GENERALIZEDTIME_set :: "heap_env \<Rightarrow> asn1_string option \<Rightarrow> int \<Rightarrow> asn1_string option" where
  "ASN1_GENERALIZEDTIME_set env s t = ASN1_GENERALIZEDTIME_adj env s t 0 0"

definition ASN1_UTCTIME_adj :: "heap_env \<Rightarrow> asn1_string option \<Rightarrow> int \<Rightarrow> int \<Rightarrow> int \<Rightarrow> asn1_string option" where
  "ASN1_UTCTIME_adj env s t offset_day offset_sec =
     (let len = 20 in
      case (case s of None \<Rightarrow> ASN1_STRING_type_new env V_ASN1_UTCTIME | Some s \<Rightarrow> Some s) of
        None \<Rightarrow> None
      | Some s \<Rightarrow>
        (case OPENSSL_gmtime t of
           None \<Rightarrow> None
         | Some ts \<Rightarrow>
           (case (if offset_day \<noteq> 0 \<or> offset_sec \<noteq> 0 then OPENSSL_gmtime_adj ts offset_day offset_sec else (True, ts)) of
              (False, _) \<Rightarrow> None
            | (True, ts) \<Rightarrow>
              if tm_year ts < 50 \<or> tm_year ts \<ge> 150 then None
              else
                (case time_buffer env s len of
                   None \<Rightarrow> None
                 | Some p \<Rightarrow>
                   let p = snprintf_to p len (utc_text ts) in
                   Some (s\<lparr>st_data := Some p, st_length := int (length (takeWhile (\<lambda>c. c \<noteq> 0) p)),
                     st_type := V_ASN1_UTCTIME\<rparr>)))))"

definition ASN1_UTCTIME_set :: "heap_env \<Rightarrow> asn1_string option \<Rightarrow> int \<Rightarrow> asn1_string option" where
  "ASN1_UTCTIME_set env s t = ASN1_UTCTIME_adj env s t 0 0"

definition ASN1_TIME_adj :: "heap_env \<Rightarrow> asn1_string option \<Rightarrow> int \<Rightarrow> int \<Rightarrow> int \<Rightarrow> asn1_string option" where
  "ASN1_TIME_adj env s t offset_day offset_sec =
     (case OPENSSL_gmtime t of
        None \<Rightarrow> None
      | Some ts \<Rightarrow>
        (case (if offset_day \<noteq> 0 \<or> offset_sec \<noteq> 0 then OPENSSL_gmtime_adj ts offset_day offset_sec else (True, ts)) of
           (False, _) \<Rightarrow> None
         | (True, ts) \<Rightarrow>
           if tm_year ts \<ge> 50 \<and> tm_year ts < 150 then ASN1_UTCTIME_adj env s t offset_day offset_sec
           else ASN1_GENERALIZEDTIME_adj env s t offset_day offset_sec))"

definition ASN1_TIME_set :: "heap_env \<Rightarrow> asn1_string option \<Rightarrow> int \<Rightarrow> asn1_string option" where
  "ASN1_TIME_set env s t = ASN1_TIME_adj env s t 0 0"

section \<open>Converting and comparing times\<close>

text \<open>\<open>ret\<close> is the object a non-null \<^verbatim>\<open>*out\<close> points to, which is not the argument \<open>t\<close>. The outer \<open>None\<close> is an
  access behind the end of a buffer; the result is the string, or \<open>None\<close> for a null pointer, with what has become of \<open>ret\<close>.\<close>

definition ASN1_TIME_to_generalizedtime ::
    "heap_env \<Rightarrow> asn1_string \<Rightarrow> asn1_string option \<Rightarrow> (asn1_string option \<times> asn1_string option) option" where
  "ASN1_TIME_to_generalizedtime env t out =
     (if \<not> ASN1_TIME_check t then Some (None, out)
      else
        (case (case out of None \<Rightarrow> ASN1_STRING_type_new env V_ASN1_GENERALIZEDTIME | Some ret \<Rightarrow> Some ret) of
           None \<Rightarrow> Some (None, out)
         | Some ret \<Rightarrow>
           if st_type t = V_ASN1_GENERALIZEDTIME then
             (case ASN1_STRING_set env ret (st_data t) (st_length t) of
                (False, ret) \<Rightarrow> Some (None, map_option (\<lambda>_. ret) out)
              | (True, ret) \<Rightarrow> Some (Some ret, Some ret))
           else
             (case ASN1_STRING_set env ret None (int32 (st_length t + 2)) of
                (False, ret) \<Rightarrow> Some (None, map_option (\<lambda>_. ret) out)
              | (True, ret) \<Rightarrow>
                let newlen = nat (int32 (int32 (st_length t + 2) + 1)) in
                (case OPENSSL_strlcpy (st_mem ret) (if cstr_at (st_mem t) 0 \<ge> 53 then [49, 57] else [50, 48]) newlen of
                   None \<Rightarrow> None
                 | Some (str, _) \<Rightarrow>
                   (case OPENSSL_strlcat str (takeWhile (\<lambda>c. c \<noteq> 0) (st_mem t)) newlen of
                      None \<Rightarrow> None
                    | Some (str, _) \<Rightarrow>
                      let ret = ret\<lparr>st_data := Some str\<rparr> in Some (Some ret, Some ret))))))"

text \<open>A null pointer stands for the current time.\<close>

definition asn1_time_to_tm :: "int \<Rightarrow> tm \<Rightarrow> asn1_string option \<Rightarrow> tm option" where
  "asn1_time_to_tm now tm p =
     (case p of
        None \<Rightarrow> OPENSSL_gmtime now
      | Some t \<Rightarrow>
        if st_type t = V_ASN1_UTCTIME then
          (case asn1_utctime_to_tm (Some tm) t of None \<Rightarrow> None | Some tm \<Rightarrow> tm)
        else if st_type t = V_ASN1_GENERALIZEDTIME then
          (case asn1_generalizedtime_to_tm (Some tm) t of None \<Rightarrow> None | Some tm \<Rightarrow> tm)
        else None)"

text \<open>The contents of the local variables are arbitrary.\<close>

definition ASN1_TIME_diff :: "int \<Rightarrow> tm \<Rightarrow> tm \<Rightarrow> asn1_string option \<Rightarrow> asn1_string option \<Rightarrow> (int \<times> int) option" where
  "ASN1_TIME_diff now tm_from tm_to from to =
     (case asn1_time_to_tm now tm_from from of
        None \<Rightarrow> None
      | Some tm_from \<Rightarrow>
        (case asn1_time_to_tm now tm_to to of
           None \<Rightarrow> None
         | Some tm_to \<Rightarrow> OPENSSL_gmtime_diff tm_from tm_to))"

definition ASN1_UTCTIME_cmp_time_t :: "tm \<Rightarrow> asn1_string \<Rightarrow> int \<Rightarrow> int" where
  "ASN1_UTCTIME_cmp_time_t stm s t =
     (case asn1_utctime_to_tm (Some stm) s of
        None \<Rightarrow> - 2
      | Some None \<Rightarrow> - 2
      | Some (Some stm) \<Rightarrow>
        (case OPENSSL_gmtime t of
           None \<Rightarrow> - 2
         | Some ttm \<Rightarrow>
           (case OPENSSL_gmtime_diff ttm stm of
              None \<Rightarrow> - 2
            | Some (day, sec) \<Rightarrow>
              if day > 0 then 1
              else if day < 0 then - 1
              else if sec > 0 then 1
              else if sec < 0 then - 1
              else 0)))"

section \<open>Digits\<close>

lemma dec_small:
  "n < 10 \<Longrightarrow> dec n = [word_of_nat (48 + n)]"
  "10 \<le> n \<Longrightarrow> dec n = dec (n div 10) @ [word_of_nat (48 + n mod 10)]"
  by (simp_all add: dec.simps [of n])

text \<open>The two digits of a number below 100.\<close>

definition d2 :: "int \<Rightarrow> byte list" where
  "d2 n = [word_of_nat (48 + nat n div 10), word_of_nat (48 + nat n mod 10)]"

lemma fmt_d_2:
  assumes "0 \<le> n" "n \<le> 99"
  shows "fmt_d 2 n = d2 n"
proof (cases "nat n < 10")
  case True
  then show ?thesis by (simp add: fmt_d_def d2_def dec_small)
next
  case False
  then have "nat n div 10 < 10" "10 \<le> nat n" using assms by simp_all
  then show ?thesis by (simp add: fmt_d_def d2_def dec_small)
qed

lemma fmt_d_4:
  assumes "0 \<le> n" "n \<le> 9999"
  shows "fmt_d 4 n = d2 (n div 100) @ d2 (n mod 100)"
proof -
  define k where "k = nat n"
  have k: "k \<le> 9999" using assms by (simp add: k_def)
  have e: "nat (n div 100) = k div 100" "nat (n mod 100) = k mod 100"
    using assms by (simp_all add: k_def nat_div_distrib nat_mod_distrib)
  have r: "replicate 3 (48 :: byte) = [48, 48, 48]" "replicate 2 (48 :: byte) = [48, 48]"
    by (simp_all add: numeral_eq_Suc)
  have m: "k div 10 div 10 = k div 100" "k div 10 div 10 div 10 = k div 1000" "k div 100 div 10 = k div 1000"
    by (simp_all only: div_mult2_eq [symmetric]) simp_all
  have "k mod 100 = 10 * (k div 10 mod 10) + k mod 10" using mod_mult2_eq [of k 10 10] by simp
  then have m2: "k mod 100 div 10 = k div 10 mod 10" "k mod 100 mod 10 = k mod 10" by simp_all
  have f: "fmt_d 4 n = replicate (4 - length (dec k)) 48 @ dec k" by (simp add: fmt_d_def k_def Let_def)
  have g: "d2 (n div 100) @ d2 (n mod 100) =
      [word_of_nat (48 + k div 1000), word_of_nat (48 + k div 100 mod 10), word_of_nat (48 + k div 10 mod 10), word_of_nat (48 + k mod 10)]"
    unfolding d2_def e m2 m(3) by simp
  consider "k < 10" | "10 \<le> k" "k < 100" | "100 \<le> k" "k < 1000" | "1000 \<le> k" by linarith
  then show ?thesis
  proof cases
    case 1
    then show ?thesis unfolding f g using r by (simp add: dec_small)
  next
    case 2
    then have "k div 10 < 10" "k div 100 = 0" "k div 1000 = 0" by simp_all
    then show ?thesis unfolding f g using 2 r by (simp add: dec_small)
  next
    case 3
    then have a: "10 \<le> k div 10" "k div 100 < 10" "10 \<le> k" "k div 1000 = 0" by simp_all
    have "dec k = [word_of_nat (48 + k div 100), word_of_nat (48 + k div 10 mod 10), word_of_nat (48 + k mod 10)]"
      unfolding dec_small(2) [OF a(3)] dec_small(2) [OF a(1)] m(1) dec_small(1) [OF a(2)] by simp
    then show ?thesis unfolding f g using a by simp
  next
    case 4
    then have a: "10 \<le> k div 10" "10 \<le> k div 100" "k div 1000 < 10" "10 \<le> k" using k by simp_all
    have "dec k = [word_of_nat (48 + k div 1000), word_of_nat (48 + k div 100 mod 10), word_of_nat (48 + k div 10 mod 10),
        word_of_nat (48 + k mod 10)]"
      unfolding dec_small(2) [OF a(4)] dec_small(2) [OF a(1)] m(1) dec_small(2) [OF a(2)] m(3) dec_small(1) [OF a(3)] by simp
    then show ?thesis unfolding f g by simp
  qed
qed

lemma digit_byte:
  assumes "n < 10"
  shows "is_digit (word_of_nat (48 + n))" "digit_val (word_of_nat (48 + n)) = int n"
    "word_of_nat (48 + n) \<notin> {0, 43, 45, 46, 90 :: byte}"
proof -
  have u: "unat (word_of_nat (48 + n) :: byte) = 48 + n" by (rule unat_word_of_nat_lt) (use assms in simp)
  then show "is_digit (word_of_nat (48 + n))" "digit_val (word_of_nat (48 + n)) = int n"
    using assms by (simp_all add: is_digit_def digit_val_def word_less_nat_alt)
  have "unat (word_of_nat (48 + n) :: byte) \<notin> {0, 43, 45, 46, 90}" unfolding u using assms by auto
  moreover have "unat b \<in> {0, 43, 45, 46, 90}" if "b \<in> {0, 43, 45, 46, 90 :: byte}" for b using that by auto
  ultimately show "word_of_nat (48 + n) \<notin> {0, 43, 45, 46, 90 :: byte}" by blast
qed

lemma cstr_at_drop: "drop p a = c # r \<Longrightarrow> cstr_at a p = c \<and> drop (Suc p) a = r"
  by (cases "p < length a") (auto simp: cstr_at_def Cons_nth_drop_Suc [symmetric])

lemma two_digits_d2:
  assumes "drop p a = d2 n @ r" "0 \<le> n" "n \<le> 99" "int p + 2 \<le> l"
  shows "two_digits a l p = Some (n, p + 2) \<and> drop (p + 2) a = r \<and> cstr_at a p \<notin> {0, 43, 45, 46, 90}"
proof -
  have lt: "nat n div 10 < 10" "nat n mod 10 < 10" using assms(2,3) by simp_all
  have c: "cstr_at a p = word_of_nat (48 + nat n div 10)" "drop (Suc p) a = word_of_nat (48 + nat n mod 10) # r"
    using cstr_at_drop [of p a] assms(1) by (simp_all add: d2_def)
  have c': "cstr_at a (Suc p) = word_of_nat (48 + nat n mod 10)" "drop (Suc (Suc p)) a = r"
    using cstr_at_drop [OF c(2)] by simp_all
  have "int (nat n div 10) * 10 + int (nat n mod 10) = n"
    using assms(2) by (simp add: zdiv_int zmod_int) 
  then show ?thesis
    using assms(4) c(1) c' digit_byte [OF lt(1)] digit_byte [OF lt(2)]
    by (simp add: two_digits_def Let_def)
qed

section \<open>Fields\<close>

fun put_all :: "(nat \<Rightarrow> int \<Rightarrow> tm \<Rightarrow> tm) \<Rightarrow> nat \<Rightarrow> int list \<Rightarrow> tm \<Rightarrow> tm" where
  "put_all put i [] tm = tm"
| "put_all put i (n # ns) tm = put_all put (Suc i) ns (put i n tm)"

fun fields_in_range :: "int list \<Rightarrow> int list \<Rightarrow> nat \<Rightarrow> int list \<Rightarrow> bool" where
  "fields_in_range mn mx i [] = True"
| "fields_in_range mn mx i (n # ns) \<longleftrightarrow> mn ! i \<le> n \<and> n \<le> mx ! i \<and> fields_in_range mn mx (Suc i) ns"

text \<open>What is printed is read back.\<close>

lemma time_fields_text:
  "drop p a = concat (map d2 ns) @ r \<Longrightarrow> i + length ns = secs + 1 \<Longrightarrow> int p + 2 * int (length ns) \<le> l \<Longrightarrow>
   fields_in_range mn mx i ns \<Longrightarrow> list_all (\<lambda>n. 0 \<le> n \<and> n \<le> 99) ns \<Longrightarrow>
   time_fields mn mx secs put a l i p tm = Some (p + 2 * length ns, map_option (put_all put i ns) tm) \<and>
     drop (p + 2 * length ns) a = r"
proof (induction ns arbitrary: p i tm)
  case Nil
  then have "i = secs + 1" by simp
  then have "time_fields mn mx secs put a l i p tm = Some (p, tm)" by (subst time_fields.simps) simp
  then show ?case using Nil by (cases tm) simp_all
next
  case (Cons n ns)
  have t: "two_digits a l p = Some (n, p + 2) \<and> drop (p + 2) a = concat (map d2 ns) @ r \<and> cstr_at a p \<notin> {0, 43, 45, 46, 90}"
    using Cons.prems by (intro two_digits_d2) simp_all
  have "time_fields mn mx secs put a l i p tm = time_fields mn mx secs put a l (Suc i) (p + 2) (map_option (put i n) tm)"
    using t Cons.prems(2,4) by (subst time_fields.simps) auto
  moreover have "time_fields mn mx secs put a l (Suc i) (p + 2) (map_option (put i n) tm) =
      Some (p + 2 + 2 * length ns, map_option (put_all put (Suc i) ns) (map_option (put i n) tm)) \<and>
      drop (p + 2 + 2 * length ns) a = r"
    using Cons.prems t by (intro Cons.IH) simp_all
  ultimately show ?case by (cases tm) (simp_all add: algebra_simps)
qed

text \<open>What is read: the fields are in range, and no character is a zero.\<close>

lemma two_digits_Some:
  assumes "two_digits a l p = Some (n, q)"
  shows "q = p + 2 \<and> int q \<le> l \<and> cstr_at a p \<noteq> 0 \<and> cstr_at a (Suc p) \<noteq> 0 \<and> 0 \<le> n \<and> n \<le> 99 \<and>
    is_digit (cstr_at a p) \<and> 10 * digit_val (cstr_at a p) \<le> n \<and> n \<le> 10 * digit_val (cstr_at a p) + 9"
proof -
  have d: "is_digit (cstr_at a p)" "is_digit (cstr_at a (Suc p))" and q: "q = p + 2" "int q \<le> l"
    and n: "n = digit_val (cstr_at a p) * 10 + digit_val (cstr_at a (Suc p))"
    using assms by (auto simp: two_digits_def Let_def split: if_split_asm)
  have "0 \<le> digit_val c \<and> digit_val c \<le> 9 \<and> c \<noteq> 0" if "is_digit c" for c
  proof -
    have "48 \<le> unat c" "unat c \<le> 57" using that by (simp_all add: is_digit_def word_less_nat_alt)
    then have "48 \<le> int (unat c)" "int (unat c) \<le> 57" "unat c \<noteq> 0" by linarith+
    then show ?thesis unfolding digit_val_def by (auto simp: unsigned_eq_0_iff)
  qed
  from this [OF d(1)] this [OF d(2)] show ?thesis using q n d by simp
qed

lemma is_digit_val: "is_digit c \<Longrightarrow> 0 \<le> digit_val c \<and> digit_val c \<le> 9 \<and> c \<noteq> 0"
proof -
  assume "is_digit c"
  then have "48 \<le> unat c" "unat c \<le> 57" by (simp_all add: is_digit_def word_less_nat_alt)
  then have "48 \<le> int (unat c)" "int (unat c) \<le> 57" "unat c \<noteq> 0" by linarith+
  then show ?thesis unfolding digit_val_def by (auto simp: unsigned_eq_0_iff)
qed

text \<open>The values of the fields alone, with the number of fields to read; the last one may be missing.\<close>

fun read_fields :: "int list \<Rightarrow> int list \<Rightarrow> byte list \<Rightarrow> int \<Rightarrow> nat \<Rightarrow> nat \<Rightarrow> nat \<Rightarrow> (nat \<times> int list) option" where
  "read_fields mn mx a l i p 0 = Some (p, [])"
| "read_fields mn mx a l i p (Suc k) =
     (if k = 0 \<and> (cstr_at a p = 90 \<or> cstr_at a p = 43 \<or> cstr_at a p = 45) then Some (p, [])
      else
        (case two_digits a l p of
           None \<Rightarrow> None
         | Some (n, p) \<Rightarrow>
           if n < mn ! i \<or> n > mx ! i then None
           else map_option (apsnd ((#) n)) (read_fields mn mx a l (Suc i) p k)))"

definition store :: "(nat \<Rightarrow> int \<Rightarrow> tm \<Rightarrow> tm) \<Rightarrow> nat \<Rightarrow> nat \<Rightarrow> int list \<Rightarrow> tm \<Rightarrow> tm" where
  "store put k i ns tm = (if length ns < k then put_all put i ns tm\<lparr>tm_sec := 0\<rparr> else put_all put i ns tm)"

lemma time_fields_read:
  "i + k = secs + 1 \<Longrightarrow>
   time_fields mn mx secs put a l i p tm =
     map_option (\<lambda>(q, ns). (q, map_option (store put k i ns) tm)) (read_fields mn mx a l i p k)"
proof (induction k arbitrary: i p tm)
  case 0
  then show ?case by (subst time_fields.simps) (cases tm, simp_all add: store_def)
next
  case (Suc k)
  then have i: "i < secs + 1" "i = secs \<longleftrightarrow> k = 0" by auto
  show ?case
  proof (cases "two_digits a l p")
    case None
    then show ?thesis using i by (subst time_fields.simps) (cases tm, auto simp: store_def)
  next
    case (Some np)
    obtain n p' where np: "np = (n, p')" by fastforce
    have "time_fields mn mx secs put a l (Suc i) p' (map_option (put i n) tm) =
        map_option (\<lambda>(q, ns). (q, map_option (store put k (Suc i) ns) (map_option (put i n) tm))) (read_fields mn mx a l (Suc i) p' k)"
      using Suc by simp
    moreover have "map_option (store put k (Suc i) ns) (map_option (put i n) tm) = map_option (store put (Suc k) i (n # ns)) tm" for ns
      by (cases tm) (simp_all add: store_def)
    ultimately show ?thesis using i Some np
      by (subst time_fields.simps) (cases tm; cases "read_fields mn mx a l (Suc i) p' k"; auto simp: store_def)
  qed
qed

lemma read_fields_Some:
  "read_fields mn mx a l i p k = Some (q, ns) \<Longrightarrow>
   (length ns = k \<or> Suc (length ns) = k) \<and> fields_in_range mn mx i ns \<and> q = p + 2 * length ns \<and>
     (\<forall>k. p \<le> k \<and> k < q \<longrightarrow> cstr_at a k \<noteq> 0) \<and> list_all (\<lambda>n. 0 \<le> n \<and> n \<le> 99) ns \<and> (ns \<noteq> [] \<longrightarrow> int q \<le> l)"
proof (induction k arbitrary: i p ns)
  case (Suc k)
  show ?case
  proof (cases "k = 0 \<and> (cstr_at a p = 90 \<or> cstr_at a p = 43 \<or> cstr_at a p = 45)")
    case True
    then show ?thesis using Suc.prems by auto
  next
    case False
    with Suc.prems obtain n p' ns' where n: "two_digits a l p = Some (n, p')" "mn ! i \<le> n" "n \<le> mx ! i"
      and rec: "read_fields mn mx a l (Suc i) p' k = Some (q, ns')" and ns: "ns = n # ns'"
      by (auto split: option.split_asm if_split_asm)
    note td = two_digits_Some [OF n(1)]
    note ih = Suc.IH [OF rec]
    have "cstr_at a j \<noteq> 0" if "p \<le> j" "j < q" for j
      using that ih td by (cases "j = p"; cases "j = Suc p") auto
    then show ?thesis using ih td n ns by auto
  qed
qed auto

text \<open>Reading the same characters further on, with the bounds further on too.\<close>

lemma two_digits_shift:
  assumes "\<And>k. int k \<le> l \<Longrightarrow> cstr_at b (k + j) = cstr_at a k" "int p \<le> l"
  shows "two_digits b (l + int j) (p + j) = map_option (apsnd (\<lambda>q. q + j)) (two_digits a l p)"
  using assms(1) [of p] assms(1) [of "Suc p"] assms(2) by (auto simp: two_digits_def Let_def)

lemma read_fields_shift:
  assumes "\<And>k. int k \<le> l \<Longrightarrow> cstr_at b (k + j) = cstr_at a k"
  shows "int p \<le> l \<Longrightarrow> (\<And>h. h < k \<Longrightarrow> mn' ! (m + i + h) = mn ! (i + h) \<and> mx' ! (m + i + h) = mx ! (i + h)) \<Longrightarrow>
    read_fields mn' mx' b (l + int j) (m + i) (p + j) k = map_option (apfst (\<lambda>q. q + j)) (read_fields mn mx a l i p k)"
proof (induction k arbitrary: i p)
  case (Suc k)
  show ?case
  proof (cases "two_digits a l p")
    case None
    then show ?thesis using assms [of p] Suc.prems(1) two_digits_shift [OF assms Suc.prems(1)] by simp
  next
    case (Some np)
    obtain n p' where np: "np = (n, p')" by fastforce
    have "int p' \<le> l" using two_digits_Some Some np by blast
    moreover have "mn' ! (m + Suc i + h) = mn ! (Suc i + h) \<and> mx' ! (m + Suc i + h) = mx ! (Suc i + h)" if "h < k" for h
      using Suc.prems(2) [of "Suc h"] that by simp
    ultimately have "read_fields mn' mx' b (l + int j) (m + Suc i) (p' + j) k =
        map_option (apfst (\<lambda>q. q + j)) (read_fields mn mx a l (Suc i) p' k)" by (rule Suc.IH)
    then show ?thesis using assms [of p] Suc.prems(1) Suc.prems(2) [of 0] two_digits_shift [OF assms Suc.prems(1)] Some np
      by (simp add: option.map_comp comp_def split_def apsnd_def apfst_def map_prod_def)
  qed
qed simp

section \<open>What is written is read back\<close>

lemma length_d2 [simp]: "length (d2 n) = 2"
  by (simp add: d2_def)

lemma length_concat_d2: "length (concat (map d2 ns)) = 2 * length ns"
  by (induction ns) simp_all

lemma d2_nonzero: "0 \<le> n \<Longrightarrow> n \<le> 99 \<Longrightarrow> c \<in> set (d2 n) \<Longrightarrow> c \<noteq> 0"
proof -
  assume "0 \<le> n" "n \<le> 99" "c \<in> set (d2 n)"
  then have "nat n div 10 < 10" "nat n mod 10 < 10"
    "c = word_of_nat (48 + nat n div 10) \<or> c = word_of_nat (48 + nat n mod 10)" by (simp_all add: d2_def)
  then obtain m where m: "m < 10" "c = word_of_nat (48 + m)" by metis
  show ?thesis using digit_byte(3) [OF m(1)] unfolding m(2) [symmetric] by simp
qed

lemma fields_nonzero: "list_all (\<lambda>n. 0 \<le> n \<and> n \<le> 99) ns \<Longrightarrow> \<forall>c \<in> set (concat (map d2 ns)). c \<noteq> 0"
  using d2_nonzero by (fastforce simp: list_all_iff)

text \<open>The buffer after the text has been written to it.\<close>

lemma snprintf_text:
  assumes "length text < len" "\<forall>c \<in> set text. c \<noteq> 0"
  shows "\<exists>r. snprintf_to mem len text = text @ 0 # r"
    "length (takeWhile (\<lambda>c. c \<noteq> 0) (snprintf_to mem len text)) = length text"
proof -
  have "take (len - 1) text = text" using assms(1) by simp
  then have e: "snprintf_to mem len text = text @ 0 # drop (Suc (length text)) mem"
    by (simp add: snprintf_to_def mem_write_def)
  then show "\<exists>r. snprintf_to mem len text = text @ 0 # r" by blast
  show "length (takeWhile (\<lambda>c. c \<noteq> 0) (snprintf_to mem len text)) = length text"
    unfolding e using assms(2) by (simp add: takeWhile_append2)
qed

lemma valid_tm_fields:
  assumes "valid_tm tm"
  shows "0 \<le> tm_mon tm" "tm_mon tm \<le> 11" "1 \<le> tm_mday tm" "tm_mday tm \<le> 31" "0 \<le> tm_hour tm" "tm_hour tm \<le> 23"
    "0 \<le> tm_min tm" "tm_min tm \<le> 59" "0 \<le> tm_sec tm" "tm_sec tm \<le> 59"
  using assms by (auto simp: valid_tm_def valid_date_def clock_ok_def month_length_def split: if_split_asm)

text \<open>The last part of the two parsers, for a text that ends in \<^verbatim>\<open>Z\<close>.\<close>

lemma utctime_reads:
  assumes "valid_tm ts" "50 \<le> tm_year ts" "tm_year ts < 150" "st_mem s = utc_text ts @ r"
    and "st_length s = int (length (utc_text ts))" "st_type s = V_ASN1_UTCTIME"
  shows "asn1_utctime_to_tm (Some tm) s = Some (Some ts)" "length (utc_text ts) = 13" "\<forall>c \<in> set (utc_text ts). c \<noteq> 0"
proof -
  define ns where "ns = [tm_year ts mod 100, tm_mon ts + 1, tm_mday ts, tm_hour ts, tm_min ts, tm_sec ts]"
  note v = valid_tm_fields [OF assms(1)]
  have y: "tm_year ts smod 100 = tm_year ts mod 100" using assms(2) by (simp add: signed_modulo_int_def signed_divide_int_def
    minus_mult_div_eq_mod [symmetric])
  have y2: "0 \<le> tm_year ts mod 100" "tm_year ts mod 100 \<le> 99" using pos_mod_bound [of 100 "tm_year ts"] by simp_all
  have t: "utc_text ts = concat (map d2 ns) @ [90]"
    using v y2 by (simp add: utc_text_def ns_def y fmt_d_2)
  have ok: "list_all (\<lambda>n. 0 \<le> n \<and> n \<le> 99) ns" using v y2 by (simp add: ns_def)
  have len: "length ns = 6" by (simp add: ns_def)
  show l13: "length (utc_text ts) = 13" by (simp add: t length_concat_d2 len)
  show "\<forall>c \<in> set (utc_text ts). c \<noteq> 0" using fields_nonzero [OF ok] by (auto simp: t)
  have rng: "fields_in_range utc_min utc_max 0 ns" using v y2 by (simp add: ns_def utc_min_def utc_max_def numeral_nat)
  have d: "drop 0 (st_mem s) = concat (map d2 ns) @ 90 # r" by (simp add: assms(4) t)
  have f: "time_fields utc_min utc_max 5 utc_set (st_mem s) 13 0 0 (Some tm) = Some (12, map_option (put_all utc_set 0 ns) (Some tm)) \<and>
      drop 12 (st_mem s) = 90 # r"
    using time_fields_text [OF d, of 0 5 13 utc_min utc_max utc_set "Some tm"] rng ok len by simp
  then have c: "cstr_at (st_mem s) 12 = 90" using cstr_at_drop by blast
  have yy: "tm_year ts mod 100 = (if tm_year ts < 100 then tm_year ts else tm_year ts - 100)"
  proof (cases "tm_year ts < 100")
    case False
    have "tm_year ts mod 100 = (tm_year ts - 100) mod 100" by simp
    also have "\<dots> = tm_year ts - 100" using assms(3) False by (intro mod_pos_pos_trivial) simp_all
    finally show ?thesis using False by simp
  qed (use assms(2) in simp)
  have "put_all utc_set 0 ns tm = ts"
    using assms(2,3) by (cases "tm_year ts < 100") (simp_all add: ns_def utc_set_def yy)
  then show "asn1_utctime_to_tm (Some tm) s = Some (Some ts)"
    using f c by (simp add: asn1_utctime_to_tm_def assms(5,6) l13 Let_def)
qed

lemma gentime_reads:
  assumes "valid_tm ts" "0 \<le> tm_year ts + 1900" "tm_year ts + 1900 \<le> 9999" "st_mem s = gen_text ts @ r"
    and "st_length s = int (length (gen_text ts))" "st_type s = V_ASN1_GENERALIZEDTIME"
  shows "asn1_generalizedtime_to_tm (Some tm) s = Some (Some ts)" "length (gen_text ts) = 15"
    "\<forall>c \<in> set (gen_text ts). c \<noteq> 0"
proof -
  define Y where "Y = tm_year ts + 1900"
  define ns where "ns = [Y div 100, Y mod 100, tm_mon ts + 1, tm_mday ts, tm_hour ts, tm_min ts, tm_sec ts]"
  note v = valid_tm_fields [OF assms(1)]
  have y2: "0 \<le> Y mod 100" "Y mod 100 \<le> 99" using pos_mod_bound [of 100 Y] by simp_all
  have y3: "0 \<le> Y div 100" "Y div 100 \<le> 99" using assms(2,3) div_range [of 100 Y] by (simp_all add: Y_def)
  have t: "gen_text ts = concat (map d2 ns) @ [90]"
    using v assms(2,3) by (simp add: gen_text_def ns_def fmt_d_2 fmt_d_4 Y_def)
  have ok: "list_all (\<lambda>n. 0 \<le> n \<and> n \<le> 99) ns" using v y2 y3 by (simp add: ns_def)
  have len: "length ns = 7" by (simp add: ns_def)
  show l15: "length (gen_text ts) = 15" by (simp add: t length_concat_d2 len)
  show "\<forall>c \<in> set (gen_text ts). c \<noteq> 0" using fields_nonzero [OF ok] by (auto simp: t)
  have rng: "fields_in_range gen_min gen_max 0 ns" using v y2 y3 by (simp add: ns_def gen_min_def gen_max_def numeral_nat)
  have d: "drop 0 (st_mem s) = concat (map d2 ns) @ 90 # r" by (simp add: assms(4) t)
  have f: "time_fields gen_min gen_max 6 gen_set (st_mem s) 15 0 0 (Some tm) = Some (14, map_option (put_all gen_set 0 ns) (Some tm)) \<and>
      drop 14 (st_mem s) = 90 # r"
    using time_fields_text [OF d, of 0 6 15 gen_min gen_max gen_set "Some tm"] rng ok len by simp
  then have c: "cstr_at (st_mem s) 14 = 90" using cstr_at_drop by blast
  have "Y div 100 * 100 - 1900 + Y mod 100 = tm_year ts" using div_mult_mod_eq [of Y 100] unfolding Y_def by linarith
  then have "put_all gen_set 0 ns tm = ts" by (simp add: ns_def gen_set_def numeral_nat)
  then show "asn1_generalizedtime_to_tm (Some tm) s = Some (Some ts)"
    using f c by (simp add: asn1_generalizedtime_to_tm_def gen_fraction_def assms(5,6) l15 Let_def)
qed

text \<open>The two writers, once the time is broken down.\<close>

lemma new_string:
  "h_ok env 32 \<Longrightarrow>
   ASN1_STRING_type_new env type = Some \<lparr>st_length = 0, st_type = type, st_data = None, st_flags = 0\<rparr>"
  by (simp add: ASN1_STRING_type_new_def OPENSSL_malloc_def sizeof_ASN1_STRING_def size_add_def SIZE_MOD_def)

lemma time_buffer_Some: "h_ok env 28 \<Longrightarrow> \<exists>p. time_buffer env s 20 = Some p"
  by (cases "st_data s") (auto simp: time_buffer_def OPENSSL_malloc_def size_add_def SIZE_MOD_def)

lemma utc_text_chars:
  assumes "valid_tm ts" "50 \<le> tm_year ts" "tm_year ts < 150"
  shows "length (utc_text ts) = 13" "\<forall>c \<in> set (utc_text ts). c \<noteq> 0"
proof -
  define s where "s = \<lparr>st_length = int (length (utc_text ts)), st_type = V_ASN1_UTCTIME, st_data = Some (utc_text ts), st_flags = 0\<rparr>"
  have "st_mem s = utc_text ts @ []" "st_length s = int (length (utc_text ts))" "st_type s = V_ASN1_UTCTIME"
    by (simp_all add: s_def)
  from utctime_reads(2,3) [OF assms this] show "length (utc_text ts) = 13" "\<forall>c \<in> set (utc_text ts). c \<noteq> 0" .
qed

lemma gen_text_chars:
  assumes "valid_tm ts" "0 \<le> tm_year ts + 1900" "tm_year ts + 1900 \<le> 9999"
  shows "length (gen_text ts) = 15" "\<forall>c \<in> set (gen_text ts). c \<noteq> 0"
proof -
  define s where "s = \<lparr>st_length = int (length (gen_text ts)), st_type = V_ASN1_GENERALIZEDTIME, st_data = Some (gen_text ts), st_flags = 0\<rparr>"
  have "st_mem s = gen_text ts @ []" "st_length s = int (length (gen_text ts))" "st_type s = V_ASN1_GENERALIZEDTIME"
    by (simp_all add: s_def)
  from gentime_reads(2,3) [OF assms this] show "length (gen_text ts) = 15" "\<forall>c \<in> set (gen_text ts). c \<noteq> 0" .
qed

lemma utctime_adj_reads:
  assumes "h_ok env 32" "h_ok env 28" "OPENSSL_gmtime t = Some ts0"
    and "(if day \<noteq> 0 \<or> sec \<noteq> 0 then OPENSSL_gmtime_adj ts0 day sec else (True, ts0)) = (True, ts)"
    and "valid_tm ts" "50 \<le> tm_year ts" "tm_year ts < 150"
  shows "\<exists>str. ASN1_UTCTIME_adj env s t day sec = Some str \<and> st_type str = V_ASN1_UTCTIME \<and>
    asn1_utctime_to_tm (Some tm) str = Some (Some ts)"
proof -
  obtain s' where s': "(case s of None \<Rightarrow> ASN1_STRING_type_new env V_ASN1_UTCTIME | Some s \<Rightarrow> Some s) = Some s'"
    using new_string [OF assms(1)] by (cases s) simp_all
  obtain p where p: "time_buffer env s' 20 = Some p" using time_buffer_Some [OF assms(2)] by blast
  define str where "str = s'\<lparr>st_data := Some (snprintf_to p 20 (utc_text ts)),
    st_length := int (length (takeWhile (\<lambda>c. c \<noteq> 0) (snprintf_to p 20 (utc_text ts)))), st_type := V_ASN1_UTCTIME\<rparr>"
  have "ASN1_UTCTIME_adj env s t day sec = Some str"
    unfolding ASN1_UTCTIME_adj_def Let_def s' option.case assms(3,4) prod.case bool.case p str_def
    using assms(6,7) by simp
  moreover have "asn1_utctime_to_tm (Some tm) str = Some (Some ts)"
  proof -
    have l: "length (utc_text ts) < 20" using utc_text_chars(1) [OF assms(5-7)] by simp
    note z = utc_text_chars(2) [OF assms(5-7)]
    obtain q where q: "snprintf_to p 20 (utc_text ts) = utc_text ts @ 0 # q" using snprintf_text(1) [OF l z] by blast
    have "st_mem str = utc_text ts @ 0 # q" by (simp add: str_def q)
    moreover have "st_length str = int (length (utc_text ts))" using snprintf_text(2) [OF l z, of p] by (simp add: str_def)
    moreover have "st_type str = V_ASN1_UTCTIME" by (simp add: str_def)
    ultimately show ?thesis by (rule utctime_reads(1) [OF assms(5-7)])
  qed
  ultimately show ?thesis by (auto simp: str_def)
qed

lemma gentime_adj_reads:
  assumes "h_ok env 32" "h_ok env 28" "OPENSSL_gmtime t = Some ts0"
    and "(if day \<noteq> 0 \<or> sec \<noteq> 0 then OPENSSL_gmtime_adj ts0 day sec else (True, ts0)) = (True, ts)"
    and "valid_tm ts" "0 \<le> tm_year ts + 1900" "tm_year ts + 1900 \<le> 9999"
  shows "\<exists>str. ASN1_GENERALIZEDTIME_adj env s t day sec = Some str \<and> st_type str = V_ASN1_GENERALIZEDTIME \<and>
    asn1_generalizedtime_to_tm (Some tm) str = Some (Some ts)"
proof -
  obtain s' where s': "(case s of None \<Rightarrow> ASN1_STRING_type_new env V_ASN1_GENERALIZEDTIME | Some s \<Rightarrow> Some s) = Some s'"
    using new_string [OF assms(1)] by (cases s) simp_all
  obtain p where p: "time_buffer env s' 20 = Some p" using time_buffer_Some [OF assms(2)] by blast
  define str where "str = s'\<lparr>st_data := Some (snprintf_to p 20 (gen_text ts)),
    st_length := int (length (takeWhile (\<lambda>c. c \<noteq> 0) (snprintf_to p 20 (gen_text ts)))), st_type := V_ASN1_GENERALIZEDTIME\<rparr>"
  have "ASN1_GENERALIZEDTIME_adj env s t day sec = Some str"
    unfolding ASN1_GENERALIZEDTIME_adj_def Let_def s' option.case assms(3,4) prod.case bool.case p str_def
    using assms(6,7) by simp
  moreover have "asn1_generalizedtime_to_tm (Some tm) str = Some (Some ts)"
  proof -
    have l: "length (gen_text ts) < 20" using gen_text_chars(1) [OF assms(5-7)] by simp
    note z = gen_text_chars(2) [OF assms(5-7)]
    obtain q where q: "snprintf_to p 20 (gen_text ts) = gen_text ts @ 0 # q" using snprintf_text(1) [OF l z] by blast
    have "st_mem str = gen_text ts @ 0 # q" by (simp add: str_def q)
    moreover have "st_length str = int (length (gen_text ts))" using snprintf_text(2) [OF l z, of p] by (simp add: str_def)
    moreover have "st_type str = V_ASN1_GENERALIZEDTIME" by (simp add: str_def)
    ultimately show ?thesis by (rule gentime_reads(1) [OF assms(5-7)])
  qed
  ultimately show ?thesis by (auto simp: str_def)
qed


lemma year_of_time:
  assumes "valid_tm ts" "0 \<le> march_year (tm_year ts + 1900) (tm_mon ts + 1)" "- 4799 \<le> y"
  shows "y \<le> tm_year ts + 1900 \<longleftrightarrow> julian_day y 1 1 * SECS_PER_DAY \<le> tm_secs ts"
proof -
  have "y \<le> tm_year ts + 1900 \<longleftrightarrow> julian_day y 1 1 \<le> tm_jd ts"
    using year_range(1) [OF _ assms(2), of "tm_mday ts" y] assms(1) new_year_eq [OF assms(3)]
    by (simp add: valid_tm_def tm_jd_def)
  also have "tm_jd ts = tm_secs ts div SECS_PER_DAY" using tm_secs_day assms(1) by (simp add: valid_tm_def)
  also have "julian_day y 1 1 \<le> tm_secs ts div SECS_PER_DAY \<longleftrightarrow> julian_day y 1 1 * SECS_PER_DAY \<le> tm_secs ts"
    using div_range [of SECS_PER_DAY "tm_secs ts"] unfolding SECS_PER_DAY_def by auto
  finally show ?thesis .
qed

text \<open>A time before \<open>2 ^ 45\<close> is broken down to a year up to 1400000, for which the conversions are exact.\<close>

lemma gmtime_in_range:
  assumes "OPENSSL_gmtime t = Some ts" "0 \<le> EPOCH_JD + t div SECS_PER_DAY" "t < 2 ^ 45"
  shows "date_in_range ts"
proof -
  note g = gmtime_fields [OF assms(1,2)]
  note v = valid_tm_fields [of ts]
  have "julian_day 1400001 1 1 = 513060926" by (simp add: julian_day_def signed_divide_int_def sgn_if)
  moreover have "tm_secs ts < 35184372088832 + 2440588 * 86400" using g assms(3) by (simp add: EPOCH_JD_def SECS_PER_DAY_def)
  ultimately have "\<not> 1400001 \<le> tm_year ts + 1900"
    using year_of_time [of ts 1400001] g by (simp add: SECS_PER_DAY_def)
  moreover have "- 4800 \<le> tm_year ts + 1900" using g by (simp add: march_year_def split: if_split_asm)
  ultimately show ?thesis using v g unfolding date_in_range_def by simp
qed

text \<open>The time the writers break \<open>t\<close> and the offsets down to.\<close>

lemma adjusted_time:
  assumes "OPENSSL_gmtime t = Some ts0" "0 \<le> EPOCH_JD + t div SECS_PER_DAY" "t < 2 ^ 45" "offsets_in_range day sec"
    and "u = t + EPOCH_JD * SECS_PER_DAY + day * SECS_PER_DAY + sec"
    and "julian_day 1900 1 1 * SECS_PER_DAY \<le> u" "u < julian_day 10000 1 1 * SECS_PER_DAY"
  obtains ts where "(if day \<noteq> 0 \<or> sec \<noteq> 0 then OPENSSL_gmtime_adj ts0 day sec else (True, ts0)) = (True, ts)"
    "valid_tm ts" "tm_secs ts = u" "0 \<le> march_year (tm_year ts + 1900) (tm_mon ts + 1)"
proof (cases "day \<noteq> 0 \<or> sec \<noteq> 0")
  case True
  note g = gmtime_fields [OF assms(1,2)]
  have "clock_ok ts0" "u = tm_secs ts0 + day * SECS_PER_DAY + sec" using g assms(5) by (simp_all add: valid_tm_def)
  moreover have "0 \<le> u" using assms(6) by (simp add: julian_day_def SECS_PER_DAY_def signed_divide_int_def sgn_if)
  moreover obtain y m d where ymd: "julian_date (u div SECS_PER_DAY) = (y, m, d)" by (metis prod.exhaust)
  moreover obtain ok ts where a: "OPENSSL_gmtime_adj ts0 day sec = (ok, ts)" by fastforce
  ultimately have "ok" "valid_tm ts \<and> tm_secs ts = u" "1900 \<le> tm_year ts + 1900"
    using gmtime_adj_sum [of ts0 day sec u ok ts] gmtime_adj [of ts0 day sec u y m d ok ts] gmtime_in_range [OF assms(1-3)] assms(4) assms(6,7) by auto
  moreover from this have "0 \<le> march_year (tm_year ts + 1900) (tm_mon ts + 1)" by (simp add: march_year_def)
  ultimately show ?thesis using that [of ts] True a by simp
next
  case False
  then show ?thesis using that [of ts0] gmtime_fields [OF assms(1,2)] assms(5) by simp
qed

lemma time_adj_reads:
  assumes "h_ok env 32" "h_ok env 28" "OPENSSL_gmtime t = Some ts0" "0 \<le> EPOCH_JD + t div SECS_PER_DAY"
    and "t < 2 ^ 45" "offsets_in_range day sec" "u = t + EPOCH_JD * SECS_PER_DAY + day * SECS_PER_DAY + sec"
    and "julian_day 1900 1 1 * SECS_PER_DAY \<le> u" "u < julian_day 10000 1 1 * SECS_PER_DAY"
  shows "\<exists>str ts. ASN1_TIME_adj env s t day sec = Some str \<and> asn1_time_to_tm now tm (Some str) = Some ts \<and>
    valid_tm ts \<and> tm_secs ts = u \<and>
    st_type str = (if julian_day 1950 1 1 * SECS_PER_DAY \<le> u \<and> u < julian_day 2050 1 1 * SECS_PER_DAY
                   then V_ASN1_UTCTIME else V_ASN1_GENERALIZEDTIME)"
proof -
  obtain ts where ts: "(if day \<noteq> 0 \<or> sec \<noteq> 0 then OPENSSL_gmtime_adj ts0 day sec else (True, ts0)) = (True, ts)"
    "valid_tm ts" "tm_secs ts = u" "0 \<le> march_year (tm_year ts + 1900) (tm_mon ts + 1)"
    using adjusted_time [OF assms(3-9)] by blast
  note y = year_of_time [OF ts(2,4), unfolded ts(3)]
  have r: "0 \<le> tm_year ts + 1900" "tm_year ts + 1900 \<le> 9999"
    using y [of 1900] y [of 10000] assms(8,9) by auto
  have u: "50 \<le> tm_year ts \<and> tm_year ts < 150 \<longleftrightarrow>
      julian_day 1950 1 1 * SECS_PER_DAY \<le> u \<and> u < julian_day 2050 1 1 * SECS_PER_DAY"
    using y [of 1950] y [of 2050] by auto
  have e: "ASN1_TIME_adj env s t day sec =
      (if 50 \<le> tm_year ts \<and> tm_year ts < 150 then ASN1_UTCTIME_adj env s t day sec
       else ASN1_GENERALIZEDTIME_adj env s t day sec)"
    unfolding ASN1_TIME_adj_def assms(3) option.case ts(1) by simp
  show ?thesis
  proof (cases "50 \<le> tm_year ts \<and> tm_year ts < 150")
    case True
    then obtain str where "ASN1_UTCTIME_adj env s t day sec = Some str" "st_type str = V_ASN1_UTCTIME"
      "asn1_utctime_to_tm (Some tm) str = Some (Some ts)"
      using utctime_adj_reads [OF assms(1-3) ts(1,2), of s tm] by blast
    then show ?thesis
      using ts(2,3) u True unfolding e by (intro exI [of _ str] exI [of _ ts]) (simp add: asn1_time_to_tm_def)
  next
    case False
    then obtain str where "ASN1_GENERALIZEDTIME_adj env s t day sec = Some str" "st_type str = V_ASN1_GENERALIZEDTIME"
      "asn1_generalizedtime_to_tm (Some tm) str = Some (Some ts)"
      using gentime_adj_reads [OF assms(1-3) ts(1,2) r, of s tm] by blast
    then show ?thesis
      using ts(2,3) u False unfolding e
      by (intro exI [of _ str] exI [of _ ts]) (auto simp: asn1_time_to_tm_def V_ASN1_UTCTIME_def V_ASN1_GENERALIZEDTIME_def)
  qed
qed

section \<open>A UTCTime as a GeneralizedTime\<close>

lemma zone_field_shift:
  assumes "\<And>k. int k \<le> l \<Longrightarrow> cstr_at b (k + j) = cstr_at a k" "int p + 1 \<le> l"
  shows "zone_field lo hi b (p + j) = map_option (apsnd (\<lambda>q. q + j)) (zone_field lo hi a p)"
  using assms(1) [of p] assms(1) [of "Suc p"] assms(2) by (auto simp: zone_field_def Let_def)

lemma zone_field_Some:
  "zone_field lo hi a p = Some (n, q) \<Longrightarrow> q = p + 2 \<and> cstr_at a p \<noteq> 0 \<and> cstr_at a (Suc p) \<noteq> 0 \<and> lo \<le> n \<and> n \<le> hi"
  using is_digit_val by (auto simp: zone_field_def Let_def split: if_split_asm)

text \<open>The time with the offset applied, apart from the reading of the offset.\<close>

definition zone_adj :: "bool \<Rightarrow> int \<Rightarrow> int \<Rightarrow> tm \<Rightarrow> tm option" where
  "zone_adj west h m tm =
     (if h * 3600 + m * 60 \<noteq> 0 then
        (case OPENSSL_gmtime_adj tm 0 ((h * 3600 + m * 60) * (if west then 1 else - 1)) of
           (ok, tm) \<Rightarrow> if ok then Some tm else None)
      else Some tm)"

lemma time_zone_eq:
  "time_zone mn mx i a l p (Some tm) =
     (if int p + 5 > l then None
      else
        (case zone_field (mn ! i) (mx ! i) a (p + 1) of
           None \<Rightarrow> None
         | Some (h, q) \<Rightarrow>
           (case zone_field (mn ! (i + 1)) (mx ! (i + 1)) a q of
              None \<Rightarrow> None
            | Some (m, r) \<Rightarrow> map_option (\<lambda>tm. (r, Some tm)) (zone_adj (cstr_at a p = 45) h m tm))))"
  by (auto simp: time_zone_def zone_adj_def Let_def split: option.split prod.split bool.split)

lemma time_zone_shift:
  assumes "\<And>k. int k \<le> l \<Longrightarrow> cstr_at b (k + j) = cstr_at a k" "int p \<le> l"
    and "mn' ! m = mn ! i" "mx' ! m = mx ! i" "mn' ! (m + 1) = mn ! (i + 1)" "mx' ! (m + 1) = mx ! (i + 1)"
  shows "time_zone mn' mx' m b (l + int j) (p + j) (Some tm) = map_option (apfst (\<lambda>q. q + j)) (time_zone mn mx i a l p (Some tm))"
proof (cases "int p + 5 \<le> l")
  case True
  have c: "cstr_at b (p + j) = cstr_at a p" using assms(1,2) .
  have z: "zone_field lo hi b (q + j) = map_option (apsnd (\<lambda>q. q + j)) (zone_field lo hi a q)" if "q \<le> p + 3" for lo hi q
    by (rule zone_field_shift [where l = l]) (use assms(1) True that in auto)
  have z1: "zone_field lo hi b (Suc (p + j)) = map_option (apsnd (\<lambda>q. q + j)) (zone_field lo hi a (Suc p))" for lo hi
    using z [of "Suc p" lo hi] by simp
  show ?thesis
  proof (cases "zone_field (mn ! i) (mx ! i) a (p + 1)")
    case None
    then show ?thesis by (simp add: time_zone_eq z1 assms(3,4))
  next
    case (Some hq)
    obtain h q where h: "zone_field (mn ! i) (mx ! i) a (p + 1) = Some (h, q)" using Some by (cases hq) simp
    then have "q \<le> p + 3" using zone_field_Some by fastforce
    note z2 = z [OF this, of "mn ! (i + 1)" "mx ! (i + 1)"]
    show ?thesis
    proof (cases "zone_field (mn ! (i + 1)) (mx ! (i + 1)) a q")
      case None
      then show ?thesis using h z1 z2 by (simp add: time_zone_eq assms(3,4) assms(5,6) [simplified])
    next
      case (Some mr)
      obtain n r where n: "zone_field (mn ! (i + 1)) (mx ! (i + 1)) a q = Some (n, r)" using Some by (cases mr) simp
      then have n': "zone_field (mn ! Suc i) (mx ! Suc i) a q = Some (n, r)"
        "zone_field (mn ! Suc i) (mx ! Suc i) b (q + j) = Some (n, r + j)" using z2 by simp_all
      show ?thesis
        using True c by (cases "zone_adj (cstr_at a p = 45) h n tm") (simp_all add: time_zone_eq z1 n' h [simplified] assms(3,4) assms(5,6) [simplified])
    qed
  qed
qed (simp add: time_zone_eq)

lemma time_zone_Some:
  assumes "time_zone mn mx i a l p (Some tm) = Some (q, tm')"
  shows "q = p + 5 \<and> (\<forall>k. p < k \<and> k < q \<longrightarrow> cstr_at a k \<noteq> 0)"
proof -
  obtain h m p' where z: "zone_field (mn ! i) (mx ! i) a (Suc p) = Some (h, p')"
    "zone_field (mn ! (i + 1)) (mx ! (i + 1)) a p' = Some (m, q)"
    using assms by (auto simp: time_zone_def Let_def split: option.split_asm if_split_asm prod.split_asm bool.split_asm)
  have "cstr_at a k \<noteq> 0" if "p < k" "k < q" for k
  proof -
    have "k = Suc p \<or> k = Suc (Suc p) \<or> k = p' \<or> k = Suc p'" using that zone_field_Some [OF z(1)] zone_field_Some [OF z(2)] by auto
    then show ?thesis using zone_field_Some [OF z(1)] zone_field_Some [OF z(2)] by auto
  qed
  then show ?thesis using zone_field_Some [OF z(1)] zone_field_Some [OF z(2)] by auto
qed

text \<open>The fields of a UTCTime behind its century give the same time.\<close>

lemma store_century:
  assumes "length ns = 6 \<or> length ns = 5" "hd ns < 50 \<longleftrightarrow> c = 20" "c = 19 \<or> c = 20"
  shows "store gen_set 7 0 (c # ns) tm = store utc_set 6 0 ns tm'"
proof -
  from assms(1) obtain n a1 a2 a3 a4 r where ns: "ns = n # a1 # a2 # a3 # a4 # r" and r: "r = [] \<or> (\<exists>a5. r = [a5])"
    by (cases ns; cases "tl ns"; cases "tl (tl ns)"; cases "tl (tl (tl ns))"; cases "tl (tl (tl (tl ns)))")
      (auto simp: length_Suc_conv)
  have i: "Suc 0 = 1" "Suc (Suc 0) = 2" "Suc 2 = 3" "Suc 3 = 4" "Suc 4 = 5" "Suc 5 = 6" by simp_all
  show ?thesis
    using r assms(2,3) by (elim disjE exE) (simp_all add: ns store_def gen_set_def utc_set_def)
qed

lemma utc_fields:
  assumes "read_fields utc_min utc_max a l 0 0 6 = Some (q, ns)"
  shows "(length ns = 6 \<or> length ns = 5) \<and> int q \<le> l \<and> (\<forall>k < q. cstr_at a k \<noteq> 0) \<and> (hd ns < 50 \<longleftrightarrow> cstr_at a 0 < 53)"
proof -
  note f = read_fields_Some [OF assms]
  have "read_fields utc_min utc_max a l 0 0 (Suc 5) = Some (q, ns)" using assms by simp
  then obtain n p' where n: "two_digits a l 0 = Some (n, p')" "hd ns = n"
    unfolding read_fields.simps(2)
    by (auto split: option.split_asm if_split_asm)
  have "digit_val (cstr_at a 0) < 5 \<longleftrightarrow> n < 50" using two_digits_Some [OF n(1)] by auto
  moreover have "digit_val (cstr_at a 0) < 5 \<longleftrightarrow> cstr_at a 0 < 53"
  proof -
    have "digit_val (cstr_at a 0) < 5 \<longleftrightarrow> int (unat (cstr_at a 0)) < int 53" unfolding digit_val_def by linarith
    also have "\<dots> \<longleftrightarrow> cstr_at a 0 < 53" by (simp only: of_nat_less_iff word_less_nat_alt) simp
    finally show ?thesis .
  qed
  ultimately show ?thesis using f n(2) by auto
qed

lemma gen_bounds_0: "gen_min ! 0 = 0" "gen_max ! 0 = 99"
  by (simp_all add: gen_min_def gen_max_def)

lemma utctime_as_gentime:
  assumes "st_type d = V_ASN1_UTCTIME" "0 \<le> st_length d" "cstr_at (st_mem d) (nat (st_length d)) = 0"
    and "asn1_utctime_to_tm (Some tm) d = Some t"
  obtains tm' where "t = Some tm'" "\<forall>k < nat (st_length d). cstr_at (st_mem d) k \<noteq> 0" "11 \<le> st_length d"
    "\<And>g tm0 r. st_type g = V_ASN1_GENERALIZEDTIME \<Longrightarrow> st_length g = st_length d + 2 \<Longrightarrow>
       st_mem g = d2 (if cstr_at (st_mem d) 0 \<ge> 53 then 19 else 20) @ r \<Longrightarrow>
       (\<And>k. int k \<le> st_length d \<Longrightarrow> cstr_at (st_mem g) (k + 2) = cstr_at (st_mem d) k) \<Longrightarrow>
       asn1_generalizedtime_to_tm (Some tm0) g = Some (Some tm')"
proof -
  define a l where "a = st_mem d" and "l = st_length d"
  have l: "\<not> l < 11" using assms(1,4) by (auto simp: asn1_utctime_to_tm_def l_def Let_def split: if_split_asm)
  have tf: "time_fields utc_min utc_max 5 utc_set a l 0 0 (Some tm) =
      map_option (\<lambda>(q, ns). (q, map_option (store utc_set 6 0 ns) (Some tm))) (read_fields utc_min utc_max a l 0 0 6)"
    by (rule time_fields_read) simp
  obtain q ns where r: "read_fields utc_min utc_max a l 0 0 6 = Some (q, ns)"
    using assms(1,4) tf unfolding a_def l_def
    by (cases "read_fields utc_min utc_max a l 0 0 6") (auto simp: asn1_utctime_to_tm_def Let_def a_def l_def split: if_split_asm)
  note u = utc_fields [OF r]
  define tm1 where "tm1 = store utc_set 6 0 ns tm"
  define zone where "zone = (if cstr_at a q = 90 then Some (q + 1, Some tm1)
      else if cstr_at a q = 43 \<or> cstr_at a q = 45 then time_zone utc_min utc_max 6 a l q (Some tm1)
      else Some (q, Some tm1))"
  obtain p where z: "zone = Some (p, t)" and p: "int p = l"
    using assms(1,4) tf l unfolding asn1_utctime_to_tm_def Let_def a_def [symmetric] l_def [symmetric]
    by (simp add: r tm1_def [symmetric] zone_def [symmetric] split: option.split_asm if_split_asm prod.split_asm)
  obtain tm' where tm': "t = Some tm'"
    using z unfolding zone_def by (auto simp: time_zone_eq split: if_split_asm option.split_asm)
  have nz: "cstr_at a k \<noteq> 0" if "k < nat l" for k
  proof (cases "k < q")
    case False
    then have k: "q \<le> k" "k < p" using that p by auto
    then have "(cstr_at a q = 90 \<and> p = q + 1) \<or> ((cstr_at a q = 43 \<or> cstr_at a q = 45) \<and> time_zone utc_min utc_max 6 a l q (Some tm1) = Some (p, t))"
      using z unfolding zone_def by (auto split: if_split_asm)
    then show ?thesis using k time_zone_Some [of utc_min utc_max 6 a l q tm1 p t] by (cases "k = q") auto
  qed (use u in blast)
  have end0: "cstr_at a q = 90 \<or> cstr_at a q = 43 \<or> cstr_at a q = 45 \<or> cstr_at a q = 0 \<and> p = q"
    using z p assms(2,3) unfolding zone_def a_def [symmetric] l_def [symmetric] by (auto split: if_split_asm)
  show ?thesis
  proof (rule that [OF tm'])
    show "\<forall>k < nat (st_length d). cstr_at (st_mem d) k \<noteq> 0" using nz by (simp add: a_def l_def)
    show "11 \<le> st_length d" using l by (simp add: l_def)
  next
    fix g tm0 rest
    assume g: "st_type g = V_ASN1_GENERALIZEDTIME" "st_length g = st_length d + 2"
      "st_mem g = d2 (if cstr_at (st_mem d) 0 \<ge> 53 then 19 else 20) @ rest"
      "\<And>k. int k \<le> st_length d \<Longrightarrow> cstr_at (st_mem g) (k + 2) = cstr_at (st_mem d) k"
    define b c where "b = st_mem g" and "c = (if cstr_at a 0 \<ge> 53 then 19 else 20 :: int)"
    have s: "\<And>k. int k \<le> l \<Longrightarrow> cstr_at b (k + 2) = cstr_at a k" using g(4) by (simp add: b_def l_def a_def)
    have d: "drop 0 b = d2 c @ rest" using g(3) by (simp add: b_def c_def a_def split del: if_split)
    have c: "c = 19 \<or> c = 20" "hd ns < 50 \<longleftrightarrow> c = 20" using u by (auto simp: c_def)
    then have t2: "two_digits b (l + 2) 0 = Some (c, 0 + 2) \<and> drop (0 + 2) b = rest \<and> cstr_at b 0 \<notin> {0, 43, 45, 46, 90}"
      using l by (intro two_digits_d2 [OF d]) auto
    have "read_fields gen_min gen_max b (l + int 2) (1 + 0) (0 + 2) 6 = map_option (apfst (\<lambda>q. q + 2)) (read_fields utc_min utc_max a l 0 0 6)"
    proof (rule read_fields_shift [OF s])
      show "int 0 \<le> l" using l by simp
      fix h :: nat assume "h < 6"
      then have "h \<in> {0, 1, 2, 3, 4, 5}" by auto
      then show "gen_min ! (1 + 0 + h) = utc_min ! (0 + h) \<and> gen_max ! (1 + 0 + h) = utc_max ! (0 + h)"
        by (auto simp: gen_min_def gen_max_def utc_min_def utc_max_def)
    qed
    then have "read_fields gen_min gen_max b (l + 2) 0 0 (Suc 6) = Some (q + 2, c # ns)"
      using t2 c(1) r unfolding read_fields.simps(2) by (auto simp: gen_bounds_0)
    moreover have "time_fields gen_min gen_max 6 gen_set b (l + 2) 0 0 (Some tm0) =
      map_option (\<lambda>(q, ns). (q, map_option (store gen_set (Suc 6) 0 ns) (Some tm0))) (read_fields gen_min gen_max b (l + 2) 0 0 (Suc 6))"
      by (rule time_fields_read) simp
    moreover have "store gen_set 7 0 (c # ns) tm0 = tm1" using store_century u c by (simp add: tm1_def)
    ultimately have f: "time_fields gen_min gen_max 6 gen_set b (l + 2) 0 0 (Some tm0) = Some (q + 2, Some tm1)" by simp
    have cq: "cstr_at b (q + 2) = cstr_at a q" using s u by simp
    have fr: "gen_fraction b (l + 2) (q + 2) = Some (q + 2)" using end0 cq by (auto simp: gen_fraction_def)
    have "time_zone gen_min gen_max 7 b (l + int 2) (q + 2) (Some tm1) = map_option (apfst (\<lambda>q. q + 2)) (time_zone utc_min utc_max 6 a l q (Some tm1))"
      by (rule time_zone_shift [OF s]) (use u in \<open>auto simp: gen_min_def gen_max_def utc_min_def utc_max_def\<close>)
    then have "(if cstr_at b (q + 2) = 90 then Some (q + 2 + 1, Some tm1)
        else if cstr_at b (q + 2) = 43 \<or> cstr_at b (q + 2) = 45 then time_zone gen_min gen_max 7 b (l + 2) (q + 2) (Some tm1)
        else if cstr_at b (q + 2) \<noteq> 0 then None else Some (q + 2, Some tm1)) = Some (p + 2, t)"
      using z end0 cq unfolding zone_def by (auto split: if_split_asm)
    then show "asn1_generalizedtime_to_tm (Some tm0) g = Some (Some tm')"
      using p l tm' unfolding asn1_generalizedtime_to_tm_def Let_def b_def [symmetric] g(1,2) l_def [symmetric]
      unfolding f option.case prod.case fr by simp
  qed
qed

section \<open>The range of the times that are read\<close>

definition fields_ok :: "tm \<Rightarrow> bool" where
  "fields_ok tm \<longleftrightarrow> 0 \<le> tm_year tm + 1900 \<and> tm_year tm + 1900 \<le> 9999 \<and> 0 \<le> tm_mon tm \<and> tm_mon tm \<le> 11 \<and>
     1 \<le> tm_mday tm \<and> tm_mday tm \<le> 31 \<and> clock_ok tm"

lemma fields_ok_jd: "fields_ok tm \<Longrightarrow> 1721060 \<le> tm_jd tm"
proof -
  assume f: "fields_ok tm"
  define y m where "y = tm_year tm + 1900" and "m = tm_mon tm + 1"
  have v: "valid_date y m 1" "0 \<le> march_year y m" "0 \<le> y" "1 \<le> tm_mday tm"
    using f by (simp_all add: fields_ok_def valid_date_def month_length_def march_year_def y_def m_def)
  have "new_year 0 \<le> julian_day y m 1" using year_range(1) [OF v(1,2)] v(3) by blast
  moreover have "new_year 0 = 1721060" by (simp add: new_year_def days_before_def)
  moreover have "tm_jd tm = julian_day y m 1 + (tm_mday tm - 1)" by (simp add: tm_jd_def y_def m_def julian_day_def)
  ultimately show ?thesis using v(4) by simp
qed

lemma fields_ok_range: "fields_ok tm \<Longrightarrow> date_in_range tm"
  by (simp add: fields_ok_def date_in_range_def)

lemma store_utc_ok:
  assumes "fields_in_range utc_min utc_max 0 ns" "length ns = 6 \<or> length ns = 5"
  shows "fields_ok (store utc_set 6 0 ns tm)"
proof -
  from assms(2) obtain n a1 a2 a3 a4 r where ns: "ns = n # a1 # a2 # a3 # a4 # r" and r: "r = [] \<or> (\<exists>a5. r = [a5])"
    by (cases ns; cases "tl ns"; cases "tl (tl ns)"; cases "tl (tl (tl ns))"; cases "tl (tl (tl (tl ns)))")
      (auto simp: length_Suc_conv)
  show ?thesis
    using r assms(1)
    by (elim disjE exE) (simp_all add: ns store_def utc_set_def fields_ok_def clock_ok_def utc_min_def utc_max_def numeral_nat)
qed

lemma store_gen_ok:
  assumes "fields_in_range gen_min gen_max 0 ns" "length ns = 7 \<or> length ns = 6"
  shows "fields_ok (store gen_set 7 0 ns tm)"
proof -
  from assms(2) obtain c n a1 a2 a3 a4 r where ns: "ns = c # n # a1 # a2 # a3 # a4 # r" and r: "r = [] \<or> (\<exists>a5. r = [a5])"
    by (cases ns; cases "tl ns"; cases "tl (tl ns)"; cases "tl (tl (tl ns))"; cases "tl (tl (tl (tl ns)))";
        cases "tl (tl (tl (tl (tl ns))))") (auto simp: length_Suc_conv)
  show ?thesis
    using r assms(1)
    by (elim disjE exE) (simp_all add: ns store_def gen_set_def fields_ok_def clock_ok_def gen_min_def gen_max_def numeral_nat)
qed

definition read_ok :: "tm \<Rightarrow> bool" where
  "read_ok tm \<longleftrightarrow> clock_ok tm \<and> date_in_range tm \<and> 0 \<le> tm_jd tm"

lemma zone_adj_ok:
  assumes "zone_adj west h m tm = Some tm'" "fields_ok tm" "0 \<le> h" "h \<le> 12" "0 \<le> m" "m \<le> 59"
  shows "read_ok tm'"
proof (cases "h * 3600 + m * 60 = 0")
  case True
  then show ?thesis using assms(1,2) fields_ok_jd [OF assms(2)] fields_ok_range [OF assms(2)] by (auto simp: zone_adj_def read_ok_def fields_ok_def)
next
  case False
  define e where "e = (h * 3600 + m * 60) * (if west then 1 else - 1)"
  have a: "OPENSSL_gmtime_adj tm 0 e = (True, tm')"
    using assms(1) False by (auto simp: zone_adj_def e_def split: prod.split_asm if_split_asm)
  have c: "clock_ok tm" using assms(2) by (simp add: fields_ok_def)
  have "- SECS_PER_DAY \<le> e" using assms(3-6) by (auto simp: e_def SECS_PER_DAY_def)
  then have u: "0 \<le> tm_secs tm + 0 * SECS_PER_DAY + e"
    using fields_ok_jd [OF assms(2)] clock_range [OF c] by (simp add: tm_secs_def SECS_PER_DAY_def)
  have o: "offsets_in_range 0 e" using assms(3-6) by (auto simp: e_def offsets_in_range_def)
  note f = fields_ok_range [OF assms(2)]
  have v: "valid_tm tm'" "tm_secs tm' = tm_secs tm + 0 * SECS_PER_DAY + e"
    using gmtime_adj_sum [OF c f o refl u a] by simp_all
  obtain y m' d where ymd: "julian_date ((tm_secs tm + 0 * SECS_PER_DAY + e) div SECS_PER_DAY) = (y, m', d)"
    by (metis prod.exhaust)
  have "1900 \<le> y \<and> y \<le> 9999" "tm_year tm' = y - 1900" using gmtime_adj [OF c f o refl u ymd a] by simp_all
  then have r: "date_in_range tm'" using valid_tm_fields [OF v(1)] by (simp add: date_in_range_def)
  from v have "tm_jd tm' = (tm_secs tm + 0 * SECS_PER_DAY + e) div SECS_PER_DAY"
    using tm_secs_day [of tm'] by (simp add: valid_tm_def)
  then have "0 \<le> tm_jd tm'" using u by (simp add: SECS_PER_DAY_def)
  then show ?thesis using v(1) r by (simp add: read_ok_def valid_tm_def)
qed

lemma time_zone_ok:
  assumes "time_zone mn mx i a l p (Some tm) = Some (q, Some tm')" "fields_ok tm"
    and "mn ! i = 0" "mx ! i = 12" "mn ! (i + 1) = 0" "mx ! (i + 1) = 59"
  shows "read_ok tm'"
  using assms zone_field_Some
  by (auto simp: time_zone_eq split: if_split_asm option.split_asm prod.split_asm intro!: zone_adj_ok dest!: zone_field_Some)

lemma fields_read_ok: "fields_ok tm \<Longrightarrow> read_ok tm"
  using fields_ok_jd [of tm] fields_ok_range [of tm] by (simp add: read_ok_def fields_ok_def)

lemma utctime_ok:
  assumes "asn1_utctime_to_tm (Some tm) d = Some (Some tm')"
  shows "read_ok tm'"
proof -
  define a l where "a = st_mem d" and "l = st_length d"
  have tf: "time_fields utc_min utc_max 5 utc_set a l 0 0 (Some tm) =
      map_option (\<lambda>(q, ns). (q, map_option (store utc_set 6 0 ns) (Some tm))) (read_fields utc_min utc_max a l 0 0 6)"
    by (rule time_fields_read) simp
  obtain q ns where r: "read_fields utc_min utc_max a l 0 0 6 = Some (q, ns)"
    using assms(1) tf
    by (cases "read_fields utc_min utc_max a l 0 0 6") (auto simp: asn1_utctime_to_tm_def Let_def a_def l_def split: if_split_asm)
  define tm1 where "tm1 = store utc_set 6 0 ns tm"
  have "length ns = 6 \<or> length ns = 5" "fields_in_range utc_min utc_max 0 ns" using read_fields_Some [OF r] by auto
  then have ok: "fields_ok tm1" unfolding tm1_def by (intro store_utc_ok)
  have z: "(if cstr_at a q = 90 then Some (q + 1, Some tm1)
      else if cstr_at a q = 43 \<or> cstr_at a q = 45 then time_zone utc_min utc_max 6 a l q (Some tm1)
      else Some (q, Some tm1)) = Some (nat l, Some tm')"
    using assms unfolding asn1_utctime_to_tm_def Let_def a_def [symmetric] l_def [symmetric] tf
    by (auto simp: r tm1_def [symmetric] split: if_split_asm option.split_asm prod.split_asm)
  show ?thesis
  proof (cases "cstr_at a q = 43 \<or> cstr_at a q = 45")
    case True
    then have "time_zone utc_min utc_max 6 a l q (Some tm1) = Some (nat l, Some tm')" using z by auto
    then show ?thesis using ok by (rule time_zone_ok) (simp_all add: utc_min_def utc_max_def)
  next
    case False
    then show ?thesis using z fields_read_ok [OF ok] by (auto split: if_split_asm)
  qed
qed

lemma gentime_ok:
  assumes "asn1_generalizedtime_to_tm (Some tm) d = Some (Some tm')"
  shows "read_ok tm'"
proof -
  define a l where "a = st_mem d" and "l = st_length d"
  have tf: "time_fields gen_min gen_max 6 gen_set a l 0 0 (Some tm) =
      map_option (\<lambda>(q, ns). (q, map_option (store gen_set 7 0 ns) (Some tm))) (read_fields gen_min gen_max a l 0 0 7)"
    by (rule time_fields_read) simp
  obtain p ns where r: "read_fields gen_min gen_max a l 0 0 7 = Some (p, ns)"
    using assms(1) tf
    by (cases "read_fields gen_min gen_max a l 0 0 7") (auto simp: asn1_generalizedtime_to_tm_def Let_def a_def l_def split: if_split_asm)
  define tm1 where "tm1 = store gen_set 7 0 ns tm"
  have "length ns = 7 \<or> length ns = 6" "fields_in_range gen_min gen_max 0 ns" using read_fields_Some [OF r] by auto
  then have ok: "fields_ok tm1" unfolding tm1_def by (intro store_gen_ok)
  obtain q where q: "gen_fraction a l p = Some q"
    using assms unfolding asn1_generalizedtime_to_tm_def Let_def a_def [symmetric] l_def [symmetric] tf
    by (cases "gen_fraction a l p") (auto simp: r split: if_split_asm)
  have z: "(if cstr_at a q = 90 then Some (q + 1, Some tm1)
      else if cstr_at a q = 43 \<or> cstr_at a q = 45 then time_zone gen_min gen_max 7 a l q (Some tm1)
      else if cstr_at a q \<noteq> 0 then None else Some (q, Some tm1)) = Some (nat l, Some tm')"
    using assms unfolding asn1_generalizedtime_to_tm_def Let_def a_def [symmetric] l_def [symmetric] tf
    by (auto simp: r q tm1_def [symmetric] split: if_split_asm option.split_asm prod.split_asm)
  show ?thesis
  proof (cases "cstr_at a q = 43 \<or> cstr_at a q = 45")
    case True
    then have "time_zone gen_min gen_max 7 a l q (Some tm1) = Some (nat l, Some tm')" using z by auto
    then show ?thesis using ok by (rule time_zone_ok) (simp_all add: gen_min_def gen_max_def)
  next
    case False
    then show ?thesis using z fields_read_ok [OF ok] by (auto split: if_split_asm)
  qed
qed

lemma time_read_ok: "asn1_time_to_tm now tm (Some t) = Some tm' \<Longrightarrow> read_ok tm'"
  using utctime_ok gentime_ok by (auto simp: asn1_time_to_tm_def split: if_split_asm option.split_asm)

section \<open>The memory of the converted string\<close>

lemma time_zone_None:
  "time_zone mn mx i a l p (Some tm) = Some (q, t) \<Longrightarrow> time_zone mn mx i a l p None = Some (q, None)"
  by (auto simp: time_zone_def Let_def split: option.split_asm if_split_asm prod.split_asm bool.split_asm)

text \<open>A time that is read passes the check, which is the same parser without an output.\<close>

lemma utctime_check:
  assumes "asn1_utctime_to_tm (Some tm) d = Some (Some tm')"
  shows "ASN1_UTCTIME_check d"
proof -
  define a l where "a = st_mem d" and "l = st_length d"
  have tf: "time_fields utc_min utc_max 5 utc_set a l 0 0 t =
      map_option (\<lambda>(q, ns). (q, map_option (store utc_set 6 0 ns) t)) (read_fields utc_min utc_max a l 0 0 6)" for t
    by (rule time_fields_read) simp
  obtain q ns where r: "read_fields utc_min utc_max a l 0 0 6 = Some (q, ns)"
    using assms tf [of "Some tm"]
    by (cases "read_fields utc_min utc_max a l 0 0 6") (auto simp: asn1_utctime_to_tm_def Let_def a_def l_def split: if_split_asm)
  note z = time_zone_None [of utc_min utc_max 6 a l q "store utc_set 6 0 ns tm"]
  show ?thesis
    using assms z unfolding ASN1_UTCTIME_check_def asn1_utctime_to_tm_def Let_def a_def [symmetric] l_def [symmetric] tf
    by (auto simp: r split: if_split_asm option.split_asm prod.split_asm)
qed

lemma utctime_length:
  assumes "asn1_utctime_to_tm (Some tm) d = Some (Some tm')"
  shows "st_length d \<le> 17"
proof -
  define a l where "a = st_mem d" and "l = st_length d"
  have tf: "time_fields utc_min utc_max 5 utc_set a l 0 0 (Some tm) =
      map_option (\<lambda>(q, ns). (q, map_option (store utc_set 6 0 ns) (Some tm))) (read_fields utc_min utc_max a l 0 0 6)"
    by (rule time_fields_read) simp
  obtain q ns where r: "read_fields utc_min utc_max a l 0 0 6 = Some (q, ns)"
    using assms tf
    by (cases "read_fields utc_min utc_max a l 0 0 6") (auto simp: asn1_utctime_to_tm_def Let_def a_def l_def split: if_split_asm)
  have q: "q \<le> 12" using read_fields_Some [OF r] by auto
  have "\<exists>p t. (if cstr_at a q = 90 then Some (q + 1, Some (store utc_set 6 0 ns tm))
      else if cstr_at a q = 43 \<or> cstr_at a q = 45 then time_zone utc_min utc_max 6 a l q (Some (store utc_set 6 0 ns tm))
      else Some (q, Some (store utc_set 6 0 ns tm))) = Some (p, t) \<and> int p = l"
    using assms unfolding asn1_utctime_to_tm_def Let_def a_def [symmetric] l_def [symmetric] tf
    by (auto simp: r split: if_split_asm option.split_asm prod.split_asm)
  then show ?thesis using q time_zone_Some [of utc_min utc_max 6 a l q "store utc_set 6 0 ns tm"]
    unfolding l_def [symmetric] by (auto split: if_split_asm)
qed

lemma OPENSSL_realloc_length: "OPENSSL_realloc env (Some old) n = Some m \<Longrightarrow> length m = n"
  by (auto simp: OPENSSL_realloc_def mem_write_def dest!: OPENSSL_malloc_length split: option.split_asm if_split_asm)

text \<open>\<^const>\<open>ASN1_STRING_set\<close> without data makes room for the length and a zero; it fails only when memory is missing.\<close>

lemma string_set_room:
  assumes "st_ok r" "n \<le> INT_MAX" "ASN1_STRING_set env r None (int n) = (ok, r')"
  shows "if ok then \<exists>m. r' = r\<lparr>st_data := Some m, st_length := int n\<rparr> \<and> n + 1 \<le> length m else \<not> h_ok env (n + 9)"
proof -
  have n: "\<not> size_add (n + 1) 8 < n + 1" using assms(2) by (simp add: size_add_def SIZE_MOD_def INT_MAX_def)
  have m: "OPENSSL_malloc env (n + 1) = (if h_ok env (n + 9) then Some (map (h_junk env) [0..<n + 1]) else None)"
    using n by (simp add: OPENSSL_malloc_def add.commute)
  note m' = m [unfolded Suc_eq_plus1 [symmetric]]
  show ?thesis
  proof (cases "st_data r")
    case None
    then show ?thesis using assms(3) by (auto simp: ASN1_STRING_set_def m' split: if_split_asm)
  next
    case (Some c)
    show ?thesis
    proof (cases "st_length r \<le> int n")
      case True
      have "OPENSSL_realloc env (Some c) (n + 1) = None \<Longrightarrow> \<not> h_ok env (n + 9)"
        using m by (auto simp: OPENSSL_realloc_def Let_def split: option.split_asm if_split_asm)
      then show ?thesis using assms(3) True Some OPENSSL_realloc_length [of env c "n + 1"]
        by (cases "OPENSSL_realloc env (Some c) (n + 1)") (auto simp: ASN1_STRING_set_def)
    next
      case False
      then have "n < nat (st_length r)" by simp
      then have "n + 1 \<le> length c" using assms(1) Some by (simp add: st_ok_def st_mem_def)
      then show ?thesis using assms(3) False Some by (auto simp: ASN1_STRING_set_def)
    qed
  qed
qed

text \<open>The century and the old text in a buffer with room for them.\<close>

lemma century_text:
  assumes "is_cstr pre" "length pre = 2" "is_cstr txt" "length txt + 3 \<le> length m"
  shows "\<exists>m1 k k'. OPENSSL_strlcpy m pre (length txt + 3) = Some (m1, k) \<and>
    OPENSSL_strlcat m1 txt (length txt + 3) = Some (pre @ txt @ 0 # drop (length txt + 3) m, k')"
proof -
  define m1 where "m1 = pre @ 0 # drop 3 m"
  have l: "length m1 = length m" using assms(2,4) by (simp add: m1_def)
  have "OPENSSL_strlcpy m pre (length txt + 3) = Some (m1, 2)"
    using OPENSSL_strlcpy_eq [of "length txt + 3" m pre] assms(2,4) by (simp add: m1_def mem_write_def)
  moreover have "OPENSSL_strlcat m1 txt (length txt + 3) =
      Some (mem_write (length pre) (take (length txt + 3 - length pre - 1) txt @ [0]) m1, length pre + length txt)"
    by (rule OPENSSL_strlcat_eq [OF assms(1) m1_def]) (use assms(2,4) l in simp_all)
  moreover have "mem_write (length pre) (take (length txt + 3 - length pre - 1) txt @ [0]) m1 =
      pre @ txt @ 0 # drop (length txt + 3) m"
    using assms(2) by (simp add: mem_write_def m1_def add.commute)
  ultimately show ?thesis by auto
qed

section \<open>Properties\<close>

text \<open>C38: a time that is written is read back. For a time from Julian day 0 on and below \<open>2 ^ 45\<close> seconds, an offset in
  days of at most \<open>2 ^ 31 - 25000\<close> and an offset in seconds that fits an \<^verbatim>\<open>int\<close>, which is where the conversions of the code from
  \<^verbatim>\<open>long\<close> to \<^verbatim>\<open>int\<close> and its products in \<^verbatim>\<open>int\<close> are exact, \<^verbatim>\<open>ASN1_TIME_adj\<close> succeeds whenever the sum is in the years 1900 to
  9999 and memory is there; the text it writes, a UTCTime exactly in the years 1950 to 2049, is read by the parsers as the
  valid date and time of day that stands for this sum.\<close>

theorem ASN1_TIME_adj_reads_back:
  assumes "h_ok env 32" "h_ok env 28" "OPENSSL_gmtime t = Some ts0" "0 \<le> EPOCH_JD + t div SECS_PER_DAY"
    and "t < 2 ^ 45" "offsets_in_range day sec" "u = t + EPOCH_JD * SECS_PER_DAY + day * SECS_PER_DAY + sec"
    and "julian_day 1900 1 1 * SECS_PER_DAY \<le> u" "u < julian_day 10000 1 1 * SECS_PER_DAY"
  shows "\<exists>str ts. ASN1_TIME_adj env s t day sec = Some str \<and> asn1_time_to_tm now tm (Some str) = Some ts \<and>
    valid_tm ts \<and> tm_secs ts = u \<and>
    st_type str = (if julian_day 1950 1 1 * SECS_PER_DAY \<le> u \<and> u < julian_day 2050 1 1 * SECS_PER_DAY
                   then V_ASN1_UTCTIME else V_ASN1_GENERALIZEDTIME)"
  by (rule time_adj_reads [OF assms])

definition tm0 :: tm where
  "tm0 = \<lparr>tm_sec = 0, tm_min = 0, tm_hour = 0, tm_mday = 0, tm_mon = 0, tm_year = 0\<rparr>"

lemma julian_examples:
  "julian_day 1900 1 1 = 2415021" "julian_day 10000 1 1 = 5373485" "julian_day 1950 1 1 = 2433283"
  "julian_day 2050 1 1 = 2469808"
  by (simp_all add: julian_day_def signed_divide_int_def sgn_if)

theorem ASN1_TIME_adj_reads_back_witness:
  "\<exists>str ts. ASN1_TIME_adj all_ok None 0 1 (- 1) = Some str \<and> asn1_time_to_tm 0 tm0 (Some str) = Some ts \<and>
     tm_secs ts = EPOCH_JD * SECS_PER_DAY + 86399 \<and> st_type str = V_ASN1_UTCTIME"
proof -
  have "julian_day (- 4430) 1 1 = 103036" by (simp add: julian_day_def signed_divide_int_def sgn_if)
  then have j: "julian_date 103036 = (- 4430, 1, 1)"
    using julian_roundtrip [of "- 4430" 1 1] by (simp add: valid_date_def month_length_def march_year_def)
  obtain ts0 where g: "OPENSSL_gmtime 0 = Some ts0"
    by (simp add: OPENSSL_gmtime_def Let_def EPOCH_JD_def j)
  have "\<exists>str ts. ASN1_TIME_adj all_ok None 0 1 (- 1) = Some str \<and> asn1_time_to_tm 0 tm0 (Some str) = Some ts \<and> valid_tm ts \<and>
      tm_secs ts = EPOCH_JD * SECS_PER_DAY + 86399 \<and>
      st_type str = (if julian_day 1950 1 1 * SECS_PER_DAY \<le> EPOCH_JD * SECS_PER_DAY + 86399 \<and>
          EPOCH_JD * SECS_PER_DAY + 86399 < julian_day 2050 1 1 * SECS_PER_DAY
        then V_ASN1_UTCTIME else V_ASN1_GENERALIZEDTIME)"
    by (rule ASN1_TIME_adj_reads_back [OF _ _ g]) (simp_all add: julian_examples EPOCH_JD_def SECS_PER_DAY_def offsets_in_range_def)
  then show ?thesis by (auto simp: julian_examples EPOCH_JD_def SECS_PER_DAY_def)
qed

text \<open>The memory of a UTCTime that is read, and the text with the century in front of it.\<close>

lemma utctime_read_memory:
  assumes "st_ok t" "st_type t = V_ASN1_UTCTIME" "cstr_at (st_mem t) (nat (st_length t)) = 0"
    and "asn1_utctime_to_tm (Some tm) t = Some (Some tm')"
  shows "ASN1_TIME_check t" "11 \<le> st_length t" "st_length t < 2 ^ 30" "is_cstr (contents t)"
    "\<And>g rest tm0. st_type g = V_ASN1_GENERALIZEDTIME \<Longrightarrow> st_length g = st_length t + 2 \<Longrightarrow>
       st_mem g = (if cstr_at (st_mem t) 0 \<ge> 53 then [49, 57] else [50, 48]) @ contents t @ 0 # rest \<Longrightarrow>
       asn1_generalizedtime_to_tm (Some tm0) g = Some (Some tm')"
proof -
  define a l where "a = st_mem t" and "l = nat (st_length t)"
  have l0: "0 \<le> st_length t" "l \<le> length a" using assms(1) by (simp_all add: st_ok_def l_def a_def)
  from utctime_as_gentime [OF assms(2) l0(1) assms(3,4)]
  have nz: "\<forall>k < l. cstr_at a k \<noteq> 0" and l11: "11 \<le> st_length t"
    and gen: "\<And>g tm0 r. st_type g = V_ASN1_GENERALIZEDTIME \<Longrightarrow> st_length g = st_length t + 2 \<Longrightarrow>
       st_mem g = d2 (if cstr_at a 0 \<ge> 53 then 19 else 20) @ r \<Longrightarrow>
       (\<And>k. int k \<le> st_length t \<Longrightarrow> cstr_at (st_mem g) (k + 2) = cstr_at a k) \<Longrightarrow>
       asn1_generalizedtime_to_tm (Some tm0) g = Some (Some tm')"
    unfolding l_def a_def by (blast, blast, metis option.inject)
  show "11 \<le> st_length t" by (rule l11)
  have "V_ASN1_UTCTIME \<noteq> V_ASN1_GENERALIZEDTIME" by (simp add: V_ASN1_UTCTIME_def V_ASN1_GENERALIZEDTIME_def)
  then show "ASN1_TIME_check t" using utctime_check [OF assms(4)] assms(2) by (simp add: ASN1_TIME_check_def)
  show "st_length t < 2 ^ 30" using utctime_length [OF assms(4)] by simp
  have ct: "contents t = take l a" by (simp add: contents_def l_def a_def)
  show "is_cstr (contents t)" using nz l0 unfolding ct by (auto simp: is_cstr_def list_all_iff in_set_conv_nth cstr_at_def)
  fix g :: asn1_string and rest tm0
  assume g: "st_type g = V_ASN1_GENERALIZEDTIME" "st_length g = st_length t + 2"
    "st_mem g = (if cstr_at (st_mem t) 0 \<ge> 53 then [49, 57] else [50, 48]) @ contents t @ 0 # rest"
  define pre :: "byte list" where "pre = (if cstr_at a 0 \<ge> 53 then [49, 57] else [50, 48])"
  have pre: "pre = d2 (if cstr_at a 0 \<ge> 53 then 19 else 20)" "length pre = 2" by (simp_all add: pre_def d2_def)
  have mem: "st_mem g = pre @ take l a @ 0 # rest" using g(3) by (simp add: pre_def ct a_def)
  show "asn1_generalizedtime_to_tm (Some tm0) g = Some (Some tm')"
  proof (rule gen [OF g(1,2)])
    show "st_mem g = d2 (if cstr_at a 0 \<ge> 53 then 19 else 20) @ take l a @ 0 # rest" by (simp only: mem pre(1))
    fix k assume "int k \<le> st_length t"
    then have kl: "k \<le> l" by (simp add: l_def)
    have "cstr_at (pre @ take l a @ 0 # rest) (k + 2) = cstr_at (take l a @ 0 # rest) k"
      using pre(2) by (simp add: cstr_at_def nth_append)
    also have "\<dots> = cstr_at a k"
      using kl l0(2) assms(3) unfolding a_def [symmetric] l_def [symmetric]
      by (cases "k = l") (simp_all add: cstr_at_def nth_append)
    finally show "cstr_at (st_mem g) (k + 2) = cstr_at a k" unfolding mem .
  qed
qed

lemma generalizedtime_memory:
  assumes "st_type t = V_ASN1_UTCTIME" "ASN1_TIME_check t" "11 \<le> st_length t" "st_ok t" "st_length t < 2 ^ 30"
    and "is_cstr (contents t)" "cstr_at (st_mem t) (nat (st_length t)) = 0" "\<And>r. out = Some r \<Longrightarrow> st_ok r"
    and "pre = (if cstr_at (st_mem t) 0 \<ge> 53 then [49, 57] else [50, 48])"
  shows "\<exists>res out'. ASN1_TIME_to_generalizedtime env t out = Some (res, out') \<and>
    (case res of
       None \<Rightarrow> \<not> (h_ok env 32 \<and> h_ok env (nat (st_length t) + 11))
     | Some g \<Rightarrow> out' = Some g \<and> st_length g = st_length t + 2 \<and>
         st_type g = (case out of None \<Rightarrow> V_ASN1_GENERALIZEDTIME | Some r \<Rightarrow> st_type r) \<and>
         (\<exists>rest. st_mem g = pre @ contents t @ 0 # rest))"
proof -
  define l where "l = nat (st_length t)"
  have len: "int l = st_length t" "l < 1073741824" using assms(3,5) by (simp_all add: l_def)
  have il: "int32 (st_length t + 2) = int (l + 2)" "int32 (int (l + 2) + 1) = int (l + 3)"
    using len by (simp_all add: int32_id)
  have lc: "length (contents t) = l" using assms(4) by (simp add: contents_def l_def st_ok_def)
  have tk: "takeWhile (\<lambda>c. c \<noteq> 0) (st_mem t) = contents t"
  proof -
    have "takeWhile (\<lambda>c. c \<noteq> 0) (drop l (st_mem t)) = []"
      using assms(7) unfolding l_def [symmetric] by (cases "drop l (st_mem t)") (auto dest: cstr_at_drop)
    then show ?thesis
      using takeWhile_append2 [of "contents t" "\<lambda>c. c \<noteq> 0" "drop l (st_mem t)"] assms(6)
      by (simp add: contents_def l_def is_cstr_def list_all_iff)
  qed
  have ut: "V_ASN1_UTCTIME \<noteq> V_ASN1_GENERALIZEDTIME" by (simp add: V_ASN1_UTCTIME_def V_ASN1_GENERALIZEDTIME_def)
  show ?thesis
  proof (cases "(case out of None \<Rightarrow> ASN1_STRING_type_new env V_ASN1_GENERALIZEDTIME | Some ret \<Rightarrow> Some ret)")
    case None
    then have "\<not> h_ok env 32" using new_string [of env] by (cases out) auto
    then show ?thesis using None by (simp add: ASN1_TIME_to_generalizedtime_def assms(2))
  next
    case (Some ret)
    have ret: "st_ok ret" "st_type ret = (case out of None \<Rightarrow> V_ASN1_GENERALIZEDTIME | Some r \<Rightarrow> st_type r)"
      using Some assms(8)
      by (cases out; auto simp: ASN1_STRING_type_new_def st_ok_def st_mem_def split: option.split_asm)+
    obtain ok r' where set: "ASN1_STRING_set env ret None (int (l + 2)) = (ok, r')" by fastforce
    have "l + 2 \<le> INT_MAX" using len(2) by (simp add: INT_MAX_def)
    note room = string_set_room [OF ret(1) this set]
    show ?thesis
    proof (cases ok)
      case False
      then have "\<not> h_ok env (l + 11)" using room by (simp add: add.commute)
      then show ?thesis
        using set False ut by (simp add: ASN1_TIME_to_generalizedtime_def assms(1,2) Some il l_def [symmetric])
    next
      case True
      then obtain m where m: "r' = ret\<lparr>st_data := Some m, st_length := int (l + 2)\<rparr>" "l + 3 \<le> length m" using room by auto
      have "is_cstr pre" "length pre = 2" by (simp_all add: assms(9) is_cstr_def)
      then obtain m1 k k' where m1: "OPENSSL_strlcpy m pre (l + 3) = Some (m1, k)"
        "OPENSSL_strlcat m1 (contents t) (l + 3) = Some (pre @ contents t @ 0 # drop (l + 3) m, k')"
        using century_text [of pre "contents t" m] assms(6) m(2) lc by auto
      have mm: "st_mem r' = m" by (simp add: m st_mem_def)
      have n3: "nat (int (l + 3)) = l + 3" by simp
      have okT: "ok = True" using True by simp
      show ?thesis
        unfolding ASN1_TIME_to_generalizedtime_def Some option.case il set prod.case okT bool.case Let_def mm tk
          assms(9) [symmetric] n3 m1
        using ut len ret(2) by (simp add: assms(1,2) m(1) st_mem_def)
    qed
  qed
qed

text \<open>C39: converting a UTCTime, whose characters a zero follows as in every string the library makes, to a GeneralizedTime keeps
  the time. No buffer is left, into a new object and into another object at \<^verbatim>\<open>*out\<close> alike, and the conversion succeeds when
  memory is there. The new string is two characters longer; its type is GeneralizedTime for a new object, but the one it had
  for an object that is reused; and when it is GeneralizedTime, the string is read as exactly the fields the UTCTime is read
  as, whatever form its seconds and its time zone have.\<close>

theorem ASN1_TIME_to_generalizedtime_same_time:
  assumes "st_ok t" "st_type t = V_ASN1_UTCTIME" "cstr_at (st_mem t) (nat (st_length t)) = 0"
    and "asn1_time_to_tm now tm (Some t) = Some tm'" "\<forall>r. out = Some r \<longrightarrow> st_ok r"
  shows "\<exists>res out'. ASN1_TIME_to_generalizedtime env t out = Some (res, out') \<and>
    (case res of
       None \<Rightarrow> \<not> (h_ok env 32 \<and> h_ok env (nat (st_length t) + 11))
     | Some g \<Rightarrow> out' = Some g \<and> st_length g = st_length t + 2 \<and>
         st_type g = (case out of None \<Rightarrow> V_ASN1_GENERALIZEDTIME | Some r \<Rightarrow> st_type r) \<and>
         (st_type g = V_ASN1_GENERALIZEDTIME \<longrightarrow> asn1_time_to_tm now tm (Some g) = Some tm'))"
proof -
  define pre :: "byte list" where "pre = (if cstr_at (st_mem t) 0 \<ge> 53 then [49, 57] else [50, 48])"
  have p: "asn1_utctime_to_tm (Some tm) t = Some (Some tm')"
    using assms(2,4) by (auto simp: asn1_time_to_tm_def split: option.split_asm)
  note r = utctime_read_memory [OF assms(1,2,3) p]
  obtain res out' where c: "ASN1_TIME_to_generalizedtime env t out = Some (res, out')"
    "case res of
       None \<Rightarrow> \<not> (h_ok env 32 \<and> h_ok env (nat (st_length t) + 11))
     | Some g \<Rightarrow> out' = Some g \<and> st_length g = st_length t + 2 \<and>
         st_type g = (case out of None \<Rightarrow> V_ASN1_GENERALIZEDTIME | Some r \<Rightarrow> st_type r) \<and>
         (\<exists>rest. st_mem g = pre @ contents t @ 0 # rest)"
    using generalizedtime_memory [OF assms(2) r(1,2) assms(1) r(3,4) assms(3) assms(5) [rule_format] pre_def, where env = env and out = out] by blast
  have "asn1_time_to_tm now tm (Some g) = Some tm'"
    if "st_length g = st_length t + 2" "st_mem g = pre @ contents t @ 0 # rest" "st_type g = V_ASN1_GENERALIZEDTIME" for g rest
    using r(5) [of g rest tm] that by (simp add: asn1_time_to_tm_def pre_def V_ASN1_UTCTIME_def V_ASN1_GENERALIZEDTIME_def)
  then show ?thesis using c by (cases res) auto
qed

definition new_year_2020 :: asn1_string where
  "new_year_2020 = \<lparr>st_length = 13, st_type = V_ASN1_UTCTIME,
     st_data = Some [50, 48, 48, 49, 48, 49, 48, 48, 48, 48, 48, 48, 90, 0], st_flags = 0\<rparr>"

theorem ASN1_TIME_to_generalizedtime_same_time_witness:
  "\<exists>g. ASN1_TIME_to_generalizedtime all_ok new_year_2020 None = Some (Some g, Some g) \<and> st_length g = 15 \<and>
     asn1_time_to_tm 0 tm0 (Some g) = Some (tm0\<lparr>tm_mday := 1, tm_year := 120\<rparr>)"
proof -
  have s: "st_ok new_year_2020" "st_type new_year_2020 = V_ASN1_UTCTIME"
    "cstr_at (st_mem new_year_2020) (nat (st_length new_year_2020)) = 0"
    by (simp_all add: new_year_2020_def st_ok_def st_mem_def cstr_at_def INT_MAX_def)
  have p: "asn1_time_to_tm 0 tm0 (Some new_year_2020) = Some (tm0\<lparr>tm_mday := 1, tm_year := 120\<rparr>)"
    by code_simp
  have "\<forall>r. None = Some r \<longrightarrow> st_ok r" by simp
  from ASN1_TIME_to_generalizedtime_same_time [OF s p this, where env = all_ok]
  obtain res out' where r: "ASN1_TIME_to_generalizedtime all_ok new_year_2020 None = Some (res, out')"
    and "case res of
       None \<Rightarrow> \<not> (h_ok all_ok 32 \<and> h_ok all_ok (nat (st_length new_year_2020) + 11))
     | Some g \<Rightarrow> out' = Some g \<and> st_length g = st_length new_year_2020 + 2 \<and>
         st_type g = (case (None :: asn1_string option) of None \<Rightarrow> V_ASN1_GENERALIZEDTIME | Some r \<Rightarrow> st_type r) \<and>
         (st_type g = V_ASN1_GENERALIZEDTIME \<longrightarrow> asn1_time_to_tm 0 tm0 (Some g) = Some (tm0\<lparr>tm_mday := 1, tm_year := 120\<rparr>))"
    by (elim exE conjE) (rule that)
  then show ?thesis by (cases res) (auto simp: new_year_2020_def)
qed

lemma time_diff:
  assumes "asn1_time_to_tm now a (Some from) = Some x" "asn1_time_to_tm now b (Some to) = Some y"
  shows "\<exists>dd ds. ASN1_TIME_diff now a b (Some from) (Some to) = Some (dd, ds) \<and>
    dd * SECS_PER_DAY + ds = tm_secs y - tm_secs x \<and> - SECS_PER_DAY < ds \<and> ds < SECS_PER_DAY \<and>
    (0 < dd \<longrightarrow> 0 \<le> ds) \<and> (dd < 0 \<longrightarrow> ds \<le> 0)"
  using gmtime_diff [of x y] time_read_ok [OF assms(1)] time_read_ok [OF assms(2)] assms
  by (metis ASN1_TIME_diff_def option.simps(5) read_ok_def)

text \<open>C40: \<^verbatim>\<open>ASN1_TIME_diff\<close> of two times that are read is their exact distance, the second minus the first: it always succeeds,
  the days and seconds add up to the difference, the seconds are less than a day, and the two have the same sign. So both are
  positive or zero when \<open>from\<close> is before \<open>to\<close>, which is the first sentence of the documentation in \<^verbatim>\<open>asn1.h\<close>, to compute
  \<open>to - from\<close>, and the contrary of its last one, by which they are then negative or zero.\<close>

theorem ASN1_TIME_diff_exact:
  assumes "asn1_time_to_tm now a (Some from) = Some x" "asn1_time_to_tm now b (Some to) = Some y"
  shows "\<exists>dd ds. ASN1_TIME_diff now a b (Some from) (Some to) = Some (dd, ds) \<and>
    dd * SECS_PER_DAY + ds = tm_secs y - tm_secs x \<and> - SECS_PER_DAY < ds \<and> ds < SECS_PER_DAY \<and>
    (0 < dd \<longrightarrow> 0 \<le> ds) \<and> (dd < 0 \<longrightarrow> ds \<le> 0)"
  by (rule time_diff [OF assms])

text \<open>The second of the epoch.\<close>

definition epoch_1 :: asn1_string where
  "epoch_1 = \<lparr>st_length = 13, st_type = V_ASN1_UTCTIME,
     st_data = Some [55, 48, 48, 49, 48, 49, 48, 48, 48, 48, 48, 49, 90, 0], st_flags = 0\<rparr>"

lemma time_examples:
  "asn1_time_to_tm 0 tm0 (Some new_year_2020) = Some (tm0\<lparr>tm_mday := 1, tm_year := 120\<rparr>)"
  "asn1_time_to_tm 0 tm0 (Some epoch_1) = Some (tm0\<lparr>tm_mday := 1, tm_year := 70, tm_sec := 1\<rparr>)"
  by code_simp+

lemma time_examples_secs:
  "tm_secs (tm0\<lparr>tm_mday := 1, tm_year := 120\<rparr>) = EPOCH_JD * SECS_PER_DAY + 1577836800"
  "tm_secs (tm0\<lparr>tm_mday := 1, tm_year := 70, tm_sec := 1\<rparr>) = EPOCH_JD * SECS_PER_DAY + 1"
  by (simp_all add: tm_secs_def tm_jd_def tm_clock_def tm0_def EPOCH_JD_def SECS_PER_DAY_def julian_day_def
      signed_divide_int_def sgn_if)

theorem ASN1_TIME_diff_exact_witness:
  "\<exists>dd ds. ASN1_TIME_diff 0 tm0 tm0 (Some epoch_1) (Some new_year_2020) = Some (dd, ds) \<and> dd * 86400 + ds = 1577836799"
  using ASN1_TIME_diff_exact [OF time_examples(2,1)] time_examples_secs by (auto simp: SECS_PER_DAY_def)

text \<open>\<^verbatim>\<open>ASN1_UTCTIME_cmp_time_t\<close> is the sign of the difference between the time that is read and a count of seconds.\<close>

theorem ASN1_UTCTIME_cmp_time_t_sign:
  assumes "asn1_utctime_to_tm (Some tm) s = Some (Some x)" "OPENSSL_gmtime t = Some y" "0 \<le> EPOCH_JD + t div SECS_PER_DAY"
    and "t < 2 ^ 45"
  shows "ASN1_UTCTIME_cmp_time_t tm s t = sgn (tm_secs x - (t + EPOCH_JD * SECS_PER_DAY))"
proof -
  note y = gmtime_fields [OF assms(2,3)]
  have c: "clock_ok y" using y by (simp add: valid_tm_def)
  have "0 \<le> tm_jd y" using y tm_secs_day [OF c] assms(3) by (simp add: SECS_PER_DAY_def)
  then obtain dd ds where d: "OPENSSL_gmtime_diff y x = Some (dd, ds)" "dd * SECS_PER_DAY + ds = tm_secs x - tm_secs y"
    "- SECS_PER_DAY < ds" "ds < SECS_PER_DAY" "0 < dd \<longrightarrow> 0 \<le> ds" "dd < 0 \<longrightarrow> ds \<le> 0"
    using gmtime_diff [of y x] c utctime_ok [OF assms(1)] gmtime_in_range [OF assms(2-4)] unfolding read_ok_def by metis
  have e: "ASN1_UTCTIME_cmp_time_t tm s t = (if 0 < dd then 1 else if dd < 0 then - 1 else if 0 < ds then 1 else if ds < 0 then - 1 else 0)"
    by (simp add: ASN1_UTCTIME_cmp_time_t_def assms(1,2) d(1))
  have "sgn (dd * SECS_PER_DAY + ds) = (if 0 < dd then 1 else if dd < 0 then - 1 else if 0 < ds then 1 else if ds < 0 then - 1 else 0)"
    using d(3-6) by (auto simp: SECS_PER_DAY_def sgn_if)
  then show ?thesis using d(2) e y by simp
qed

theorem ASN1_UTCTIME_cmp_time_t_sign_witness: "ASN1_UTCTIME_cmp_time_t tm0 epoch_1 0 = 1"
proof -
  have "julian_day (- 4430) 1 1 = 103036" by (simp add: julian_day_def signed_divide_int_def sgn_if)
  then have j: "julian_date 103036 = (- 4430, 1, 1)"
    using julian_roundtrip [of "- 4430" 1 1] by (simp add: valid_date_def month_length_def march_year_def)
  obtain ts0 where g: "OPENSSL_gmtime 0 = Some ts0"
    by (simp add: OPENSSL_gmtime_def Let_def EPOCH_JD_def j)
  have p: "asn1_utctime_to_tm (Some tm0) epoch_1 = Some (Some (tm0\<lparr>tm_mday := 1, tm_year := 70, tm_sec := 1\<rparr>))"
    using time_examples(2) by (auto simp: asn1_time_to_tm_def epoch_1_def split: option.split_asm)
  from ASN1_UTCTIME_cmp_time_t_sign [OF p g] show ?thesis
    by (simp add: time_examples_secs EPOCH_JD_def SECS_PER_DAY_def)
qed

end
