(* ===== verification/Refcount.thy ===== *)
theory Refcount
  imports Prelude
begin

text \<open>
  Reference counts (\<^verbatim>\<open>crypto/refcount_lock.c\<close> and \<^verbatim>\<open>crypto/refcount_c11.c\<close>, two implementations of one interface). The locked
  operations are functions; the lock-free ones are a step relation of threads whose atomic operations interleave
  (\<open>rc_step\<close>, with weak exchanges that may fail). \<open>rc_order\<close> is the invariant of reachable states: an order of the
  finished threads in which the locked operations agree. From it follow linearizability and that the last owner of an
  object learns that it is the last.
\<close>

section \<open>One operation at a time\<close>

definition CRYPTO_REFCOUNT_MAX :: u32 where "CRYPTO_REFCOUNT_MAX = 0xffffffff"

text \<open>The operations of \<^verbatim>\<open>refcount_lock.c\<close>, which hold a lock. The decrement aborts the program at zero (\<open>None\<close>); otherwise it
  yields whether the count has become zero, and the count.\<close>

definition CRYPTO_refcount_inc :: "u32 \<Rightarrow> u32" where
  "CRYPTO_refcount_inc count = (if count < CRYPTO_REFCOUNT_MAX then count + 1 else count)"

definition CRYPTO_refcount_dec_and_test_zero :: "u32 \<Rightarrow> (bool \<times> u32) option" where
  "CRYPTO_refcount_dec_and_test_zero count =
     (if count = 0 then None
      else let count = (if count < CRYPTO_REFCOUNT_MAX then count - 1 else count) in Some (count = 0, count))"

section \<open>Threads without a lock\<close>

text \<open>The operations of \<^verbatim>\<open>refcount_c11.c\<close> as the atomic steps of threads: a load of the count, then rounds of a weak
  compare-and-exchange, which may fail also when the count is as expected, and stores the count it has seen in the
  expected value when it fails. The result of an increment is \<open>False\<close>.\<close>

datatype rc_op = Rc_inc | Rc_dec

datatype rc_thread = Rc_start rc_op | Rc_loaded rc_op u32 | Rc_finished rc_op bool | Rc_aborted

fun rc_op_of :: "rc_thread \<Rightarrow> rc_op" where
  "rc_op_of (Rc_start op) = op"
| "rc_op_of (Rc_loaded op e) = op"
| "rc_op_of (Rc_finished op r) = op"
| "rc_op_of Rc_aborted = Rc_dec"

type_synonym rc_state = "u32 \<times> rc_thread list"

inductive rc_step :: "rc_state \<Rightarrow> rc_state \<Rightarrow> bool" where
  load: "i < length ts \<Longrightarrow> ts ! i = Rc_start op \<Longrightarrow> rc_step (c, ts) (c, ts[i := Rc_loaded op c])"
| inc_saturated: "i < length ts \<Longrightarrow> ts ! i = Rc_loaded Rc_inc e \<Longrightarrow> e = CRYPTO_REFCOUNT_MAX \<Longrightarrow>
    rc_step (c, ts) (c, ts[i := Rc_finished Rc_inc False])"
| inc_exchange: "i < length ts \<Longrightarrow> ts ! i = Rc_loaded Rc_inc e \<Longrightarrow> e \<noteq> CRYPTO_REFCOUNT_MAX \<Longrightarrow> c = e \<Longrightarrow>
    rc_step (c, ts) (e + 1, ts[i := Rc_finished Rc_inc False])"
| dec_abort: "i < length ts \<Longrightarrow> ts ! i = Rc_loaded Rc_dec e \<Longrightarrow> e = 0 \<Longrightarrow> rc_step (c, ts) (c, ts[i := Rc_aborted])"
| dec_saturated: "i < length ts \<Longrightarrow> ts ! i = Rc_loaded Rc_dec e \<Longrightarrow> e = CRYPTO_REFCOUNT_MAX \<Longrightarrow>
    rc_step (c, ts) (c, ts[i := Rc_finished Rc_dec False])"
| dec_exchange: "i < length ts \<Longrightarrow> ts ! i = Rc_loaded Rc_dec e \<Longrightarrow> e \<noteq> 0 \<Longrightarrow> e \<noteq> CRYPTO_REFCOUNT_MAX \<Longrightarrow> c = e \<Longrightarrow>
    rc_step (c, ts) (e - 1, ts[i := Rc_finished Rc_dec (e - 1 = 0)])"
| exchange_fails: "i < length ts \<Longrightarrow> ts ! i = Rc_loaded op e \<Longrightarrow> e \<noteq> CRYPTO_REFCOUNT_MAX \<Longrightarrow> op = Rc_inc \<or> e \<noteq> 0 \<Longrightarrow>
    rc_step (c, ts) (c, ts[i := Rc_loaded op c])"

inductive rc_run :: "rc_state \<Rightarrow> rc_state \<Rightarrow> bool" where
  none: "rc_run s s"
| more: "rc_run s s' \<Longrightarrow> rc_step s' s'' \<Longrightarrow> rc_run s s''"

inductive_cases rc_stepE: "rc_step s s'"

section \<open>Threads in any order act one at a time\<close>

text \<open>Operations one after the other, with their results.\<close>

definition rc_apply :: "rc_op \<Rightarrow> u32 \<Rightarrow> (bool \<times> u32) option" where
  "rc_apply op c = (case op of Rc_inc \<Rightarrow> Some (False, CRYPTO_refcount_inc c) | Rc_dec \<Rightarrow> CRYPTO_refcount_dec_and_test_zero c)"

fun rc_serial :: "u32 \<Rightarrow> rc_op list \<Rightarrow> (bool list \<times> u32) option" where
  "rc_serial c [] = Some ([], c)"
| "rc_serial c (op # ops) =
     (case rc_apply op c of
        None \<Rightarrow> None
      | Some (r, c) \<Rightarrow> map_option (\<lambda>(rs, c). (r # rs, c)) (rc_serial c ops))"

lemma rc_serial_snoc:
  "rc_serial c ops = Some (rs, c') \<Longrightarrow> rc_apply op c' = Some (r, c'') \<Longrightarrow> rc_serial c (ops @ [op]) = Some (rs @ [r], c'')"
  by (induction ops arbitrary: c rs) (auto split: option.splits prod.splits)

text \<open>The invariant: an order of the finished threads in which the locked operations give the same results and the
  same count. A thread that has seen a zero and will abort, or has aborted, would have aborted in this order after
  some of them.\<close>

definition rc_order :: "u32 \<Rightarrow> rc_op list \<Rightarrow> rc_state \<Rightarrow> nat list \<Rightarrow> bool" where
  "rc_order c0 ops s os \<longleftrightarrow>
     length (snd s) = length ops \<and> (\<forall>i < length ops. rc_op_of (snd s ! i) = ops ! i) \<and>
     distinct os \<and> set os = {i. i < length ops \<and> (\<exists>op r. snd s ! i = Rc_finished op r)} \<and>
     (\<exists>rs. rc_serial c0 (map ((!) ops) os) = Some (rs, fst s) \<and> list_all2 (\<lambda>i r. snd s ! i = Rc_finished (ops ! i) r) os rs) \<and>
     (\<forall>i < length ops. snd s ! i = Rc_aborted \<or> snd s ! i = Rc_loaded Rc_dec 0 \<longrightarrow>
        (\<exists>k rs. rc_serial c0 (map ((!) ops) (take k os)) = Some (rs, 0))) \<and>
     (\<forall>i < length ops. \<forall>op. snd s ! i = Rc_loaded op CRYPTO_REFCOUNT_MAX \<longrightarrow> fst s = CRYPTO_REFCOUNT_MAX)"

lemma rc_order_start: "rc_order c0 ops (c0, map Rc_start ops) []"
  by (auto simp: rc_order_def)

text \<open>A thread that does not finish leaves the order as it is.\<close>

lemma rc_order_wait:
  assumes "rc_order c0 ops (c, ts) os" "i < length ts" "\<not> (\<exists>op r. ts ! i = Rc_finished op r)"
    and "t = Rc_loaded (ops ! i) c \<or> t = Rc_aborted \<and> ts ! i = Rc_loaded Rc_dec 0"
  shows "rc_order c0 ops (c, ts[i := t]) os"
proof -
  have o: "length ts = length ops" "\<And>j. j < length ops \<Longrightarrow> rc_op_of (ts ! j) = ops ! j" "distinct os"
    "set os = {i. i < length ops \<and> (\<exists>op r. ts ! i = Rc_finished op r)}"
    "\<And>j. j < length ops \<Longrightarrow> ts ! j = Rc_aborted \<or> ts ! j = Rc_loaded Rc_dec 0 \<Longrightarrow>
      \<exists>k rs. rc_serial c0 (map ((!) ops) (take k os)) = Some (rs, 0)"
    "\<And>j op. j < length ops \<Longrightarrow> ts ! j = Rc_loaded op CRYPTO_REFCOUNT_MAX \<Longrightarrow> c = CRYPTO_REFCOUNT_MAX"
    using assms(1) by (auto simp: rc_order_def)
  from assms(1) obtain rs where rs: "rc_serial c0 (map ((!) ops) os) = Some (rs, c)"
    "list_all2 (\<lambda>i r. ts ! i = Rc_finished (ops ! i) r) os rs" by (auto simp: rc_order_def)
  have i: "i \<notin> set os" using o(4) assms(3) by auto
  have all2: "list_all2 (\<lambda>j r. ts[i := t] ! j = Rc_finished (ops ! j) r) os rs"
    using rs(2) i by (auto simp: list_all2_conv_all_nth) (metis nth_list_update_neq nth_mem)
  have "rc_op_of (ts[i := t] ! j) = ops ! j" if "j < length ops" for j
    using that o(1) o(2) [of i] o(2) [of j] assms(2,4) by (cases "j = i") auto
  moreover have "set os = {j. j < length ops \<and> (\<exists>op r. ts[i := t] ! j = Rc_finished op r)}"
    using o(1,4) assms(2,3,4) by (auto simp: nth_list_update)
  moreover have "\<exists>k rs. rc_serial c0 (map ((!) ops) (take k os)) = Some (rs, 0)"
    if j: "j < length ops" "ts[i := t] ! j = Rc_aborted \<or> ts[i := t] ! j = Rc_loaded Rc_dec 0" for j
  proof (cases "j = i")
    case True
    show ?thesis
    proof (cases "t = Rc_aborted")
      case True
      with o(5) [of i] assms(2,4) o(1) show ?thesis by auto
    next
      case False
      with j \<open>j = i\<close> assms(2,4) o(1) have "c = 0" by auto
      with rs(1) have "rc_serial c0 (map ((!) ops) (take (length os) os)) = Some (rs, 0)" by simp
      then show ?thesis by blast
    qed
  next
    case False
    with j o(5) [of j] show ?thesis by simp
  qed
  moreover have "c = CRYPTO_REFCOUNT_MAX" if "j < length ops" "ts[i := t] ! j = Rc_loaded op CRYPTO_REFCOUNT_MAX" for j op
    using that o(1,6) assms(2,4) by (cases "j = i") auto
  ultimately show ?thesis using o(1,3) rs(1) all2 by (auto simp: rc_order_def)
qed

text \<open>A thread that finishes is the next of the order.\<close>

lemma rc_order_finish:
  assumes "rc_order c0 ops (c, ts) os" "i < length ts" "\<not> (\<exists>op r. ts ! i = Rc_finished op r)"
    and "rc_apply (ops ! i) c = Some (r, c')" "c = CRYPTO_REFCOUNT_MAX \<Longrightarrow> c' = CRYPTO_REFCOUNT_MAX"
  shows "rc_order c0 ops (c', ts[i := Rc_finished (ops ! i) r]) (os @ [i])"
proof -
  have o: "length ts = length ops" "\<And>j. j < length ops \<Longrightarrow> rc_op_of (ts ! j) = ops ! j" "distinct os"
    "set os = {i. i < length ops \<and> (\<exists>op r. ts ! i = Rc_finished op r)}"
    "\<And>j. j < length ops \<Longrightarrow> ts ! j = Rc_aborted \<or> ts ! j = Rc_loaded Rc_dec 0 \<Longrightarrow>
      \<exists>k rs. rc_serial c0 (map ((!) ops) (take k os)) = Some (rs, 0)"
    "\<And>j op. j < length ops \<Longrightarrow> ts ! j = Rc_loaded op CRYPTO_REFCOUNT_MAX \<Longrightarrow> c = CRYPTO_REFCOUNT_MAX"
    using assms(1) by (auto simp: rc_order_def)
  from assms(1) obtain rs where rs: "rc_serial c0 (map ((!) ops) os) = Some (rs, c)"
    "list_all2 (\<lambda>i r. ts ! i = Rc_finished (ops ! i) r) os rs" by (auto simp: rc_order_def)
  define t where "t = Rc_finished (ops ! i) r"
  have i: "i \<notin> set os" using o(4) assms(3) by auto
  have all2: "list_all2 (\<lambda>j r. ts[i := t] ! j = Rc_finished (ops ! j) r) (os @ [i]) (rs @ [r])"
  proof (rule list_all2_appendI)
    show "list_all2 (\<lambda>j r. ts[i := t] ! j = Rc_finished (ops ! j) r) os rs"
      using rs(2) i by (auto simp: list_all2_conv_all_nth) (metis nth_list_update_neq nth_mem)
  qed (simp add: t_def assms(2))
  have "rc_serial c0 (map ((!) ops) (os @ [i])) = Some (rs @ [r], c')"
    using rc_serial_snoc [OF rs(1) assms(4)] by simp
  moreover have "rc_op_of (ts[i := t] ! j) = ops ! j" if "j < length ops" for j
    using that o(1,2) assms(2) by (cases "j = i") (auto simp: t_def)
  moreover have "set (os @ [i]) = {j. j < length ops \<and> (\<exists>op r. ts[i := t] ! j = Rc_finished op r)}"
    using o(1,4) assms(2,3) by (auto simp: nth_list_update t_def)
  moreover have "\<exists>k rs. rc_serial c0 (map ((!) ops) (take k (os @ [i]))) = Some (rs, 0)"
    if j: "j < length ops" "ts[i := t] ! j = Rc_aborted \<or> ts[i := t] ! j = Rc_loaded Rc_dec 0" for j
  proof -
    from j have "j \<noteq> i" using o(1) by (auto simp: t_def)
    with j o(5) [of j] obtain k rs where k: "rc_serial c0 (map ((!) ops) (take k os)) = Some (rs, 0)" by auto
    have "take (min k (length os)) (os @ [i]) = take k os" by (simp add: min_def)
    with k show ?thesis by metis
  qed
  moreover have "c' = CRYPTO_REFCOUNT_MAX" if "j < length ops" "ts[i := t] ! j = Rc_loaded op CRYPTO_REFCOUNT_MAX" for j op
    using that o(1,6) assms(2,5) by (cases "j = i") (auto simp: t_def)
  ultimately show ?thesis using o(1,3) i all2 unfolding t_def by (auto simp: rc_order_def)
qed

lemma rc_order_step:
  assumes "rc_order c0 ops s os" "rc_step s s'"
  shows "\<exists>os'. rc_order c0 ops s' os'"
proof -
  have op: "\<And>i t. i < length (snd s) \<Longrightarrow> snd s ! i = t \<Longrightarrow> ops ! i = rc_op_of t"
    using assms(1) by (auto simp: rc_order_def)
  have max: "\<And>i op. i < length (snd s) \<Longrightarrow> snd s ! i = Rc_loaded op CRYPTO_REFCOUNT_MAX \<Longrightarrow> fst s = CRYPTO_REFCOUNT_MAX"
    using assms(1) by (auto simp: rc_order_def)
  have m: "CRYPTO_REFCOUNT_MAX = - 1" by (simp add: CRYPTO_REFCOUNT_MAX_def)
  have le: "c < CRYPTO_REFCOUNT_MAX \<longleftrightarrow> c \<noteq> CRYPTO_REFCOUNT_MAX" for c
    unfolding m using word_order.not_eq_extremum [of c] by simp
  from assms(2) show ?thesis
  proof (cases rule: rc_step.cases)
    case (load i ts op c)
    with op [of i] have "ops ! i = op" by simp
    with load rc_order_wait [of c0 ops c ts os i "Rc_loaded op c"] assms(1) show ?thesis by auto
  next
    case (inc_saturated i ts e c)
    with op [of i] max [of i] have o: "ops ! i = Rc_inc" "c = CRYPTO_REFCOUNT_MAX" by simp_all
    then have "rc_apply (ops ! i) c = Some (False, c)" by (simp add: rc_apply_def CRYPTO_refcount_inc_def)
    with rc_order_finish [of c0 ops c ts os i False c] o inc_saturated assms(1) show ?thesis by auto
  next
    case (inc_exchange i ts e c)
    with op [of i] have o: "ops ! i = Rc_inc" by simp
    then have "rc_apply (ops ! i) c = Some (False, c + 1)"
      using inc_exchange le [of c] by (simp add: rc_apply_def CRYPTO_refcount_inc_def)
    with rc_order_finish [of c0 ops c ts os i False "c + 1"] o inc_exchange assms(1) show ?thesis by auto
  next
    case (dec_abort i ts e c)
    with rc_order_wait [of c0 ops c ts os i Rc_aborted] assms(1) show ?thesis by auto
  next
    case (dec_saturated i ts e c)
    with op [of i] max [of i] have o: "ops ! i = Rc_dec" "c = CRYPTO_REFCOUNT_MAX" by simp_all
    then have "rc_apply (ops ! i) c = Some (False, c)"
      by (simp add: rc_apply_def CRYPTO_refcount_dec_and_test_zero_def CRYPTO_REFCOUNT_MAX_def)
    with rc_order_finish [of c0 ops c ts os i False c] o dec_saturated assms(1) show ?thesis by auto
  next
    case (dec_exchange i ts e c)
    with op [of i] have o: "ops ! i = Rc_dec" by simp
    then have "rc_apply (ops ! i) c = Some (c - 1 = 0, c - 1)"
      using dec_exchange le [of c] by (simp add: rc_apply_def CRYPTO_refcount_dec_and_test_zero_def Let_def)
    with rc_order_finish [of c0 ops c ts os i "c - 1 = 0" "c - 1"] o dec_exchange assms(1) show ?thesis by auto
  next
    case (exchange_fails i ts op' e c)
    with op [of i] have "ops ! i = op'" by simp
    with exchange_fails rc_order_wait [of c0 ops c ts os i "Rc_loaded op' c"] assms(1) show ?thesis by auto
  qed
qed

lemma rc_order_run: "rc_run s s' \<Longrightarrow> rc_order c0 ops s os \<Longrightarrow> \<exists>os'. rc_order c0 ops s' os'"
proof (induction rule: rc_run.induct)
  case (more s s' s'')
  then show ?case using rc_order_step by blast
qed blast

section \<open>Properties\<close>

text \<open>C17: The lock-free reference count is linearizable: however the threads interleave and however often their exchanges fail, the
  finished threads have an order in which the operations with a lock give the same results and the same count. A
  thread aborts only if the locked operation would have aborted at some point of this order.\<close>

theorem refcount_linearizable:
  assumes "rc_run (c0, map Rc_start ops) (c, ts)"
  shows "\<exists>os rs. distinct os \<and> set os = {i. i < length ops \<and> (\<exists>op r. ts ! i = Rc_finished op r)} \<and>
    rc_serial c0 (map ((!) ops) os) = Some (rs, c) \<and> list_all2 (\<lambda>i r. ts ! i = Rc_finished (ops ! i) r) os rs \<and>
    (\<forall>i < length ops. ts ! i = Rc_aborted \<longrightarrow> (\<exists>k rs. rc_serial c0 (map ((!) ops) (take k os)) = Some (rs, 0)))"
proof -
  from rc_order_run [OF assms rc_order_start [of c0 ops]] obtain os where "rc_order c0 ops (c, ts) os" by blast
  then show ?thesis
    unfolding rc_order_def fst_conv snd_conv by (elim conjE exE, intro exI conjI) (assumption | blast)+
qed

text \<open>Two threads release the last two references; the exchange of the second fails once.\<close>

lemma rc_example_run:
  "rc_run (2, map Rc_start [Rc_dec, Rc_dec]) (0, [Rc_finished Rc_dec False, Rc_finished Rc_dec True])"
proof -
  have m: "2 \<noteq> CRYPTO_REFCOUNT_MAX" "1 \<noteq> CRYPTO_REFCOUNT_MAX" by (simp_all add: CRYPTO_REFCOUNT_MAX_def)
  let ?L = "Rc_loaded Rc_dec" and ?S = "Rc_start Rc_dec" and ?F = "Rc_finished Rc_dec"
  have "rc_run (2, [?S, ?S]) (2, [?S, ?S])" by (rule rc_run.none)
  moreover have "rc_step (2, [?S, ?S]) (2, [?L 2, ?S])" using rc_step.load [of 0 "[?S, ?S]" Rc_dec 2] by simp
  moreover have "rc_step (2, [?L 2, ?S]) (2, [?L 2, ?L 2])" using rc_step.load [of 1 "[?L 2, ?S]" Rc_dec 2] by simp
  moreover have "rc_step (2, [?L 2, ?L 2]) (1, [?F False, ?L 2])"
    using rc_step.dec_exchange [of 0 "[?L 2, ?L 2]" 2 2] m by simp
  moreover have "rc_step (1, [?F False, ?L 2]) (1, [?F False, ?L 1])"
    using rc_step.exchange_fails [of 1 "[?F False, ?L 2]" Rc_dec 2 1] m by simp
  moreover have "rc_step (1, [?F False, ?L 1]) (0, [?F False, ?F True])"
    using rc_step.dec_exchange [of 1 "[?F False, ?L 1]" 1 1] m by simp
  ultimately have "rc_run (2, [?S, ?S]) (0, [?F False, ?F True])" by (meson rc_run.more)
  then show ?thesis by simp
qed

theorem refcount_linearizable_witness:
  "\<exists>os rs. distinct os \<and> set os = {0, 1} \<and> rc_serial 2 (map ((!) [Rc_dec, Rc_dec]) os) = Some (rs, 0) \<and>
    list_all2 (\<lambda>i r. [Rc_finished Rc_dec False, Rc_finished Rc_dec True] ! i = Rc_finished ([Rc_dec, Rc_dec] ! i) r) os rs"
proof -
  have "{i. i < length [Rc_dec, Rc_dec] \<and> (\<exists>op r. [Rc_finished Rc_dec False, Rc_finished Rc_dec True] ! i = Rc_finished op r)} = {0, 1}"
    by (auto simp: nth_Cons' less_Suc_eq)
  with refcount_linearizable [OF rc_example_run] show ?thesis by auto
qed

text \<open>Counting the operations of an order.\<close>

lemma rc_apply_count:
  assumes "rc_apply op c = Some (r, c')" "unat c < 2 ^ 32 - 1"
  shows "unat c' + (if op = Rc_dec then 1 else 0) = unat c + (if op = Rc_inc then 1 else 0)" "r = (op = Rc_dec \<and> c' = 0)"
proof -
  have m: "unat CRYPTO_REFCOUNT_MAX = 2 ^ 32 - 1" by (simp add: CRYPTO_REFCOUNT_MAX_def)
  have l: "c < CRYPTO_REFCOUNT_MAX" using assms(2) by (simp add: word_less_nat_alt m)
  have p: "unat (c + 1) = unat c + 1" using assms(2) by (simp add: unat_word_ariths)
  have d: "unat (c - 1) = unat c - 1" if "c \<noteq> 0" using that by (simp add: unat_minus_one)
  have z: "0 < unat c" if "c \<noteq> 0" using that by (simp add: unat_gt_0)
  show "unat c' + (if op = Rc_dec then 1 else 0) = unat c + (if op = Rc_inc then 1 else 0)" "r = (op = Rc_dec \<and> c' = 0)"
    using assms(1) l p d z
    by (cases op; auto simp: rc_apply_def CRYPTO_refcount_inc_def CRYPTO_refcount_dec_and_test_zero_def Let_def
      split: if_splits)+
qed

lemma rc_serial_decs:
  "rc_serial c (replicate n Rc_dec) = Some (rs, c') \<Longrightarrow> unat c < 2 ^ 32 - 1 \<Longrightarrow>
     unat c' + n = unat c \<and> rs = map (\<lambda>i. i + 1 = unat c) [0..<n]"
proof (induction n arbitrary: c rs)
  case (Suc n)
  from Suc.prems(1) obtain r c1 rs1 where
    s: "rc_apply Rc_dec c = Some (r, c1)" "rc_serial c1 (replicate n Rc_dec) = Some (rs1, c')" "rs = r # rs1"
    by (auto split: option.splits prod.splits)
  from rc_apply_count [OF s(1) Suc.prems(2)] have c1: "unat c1 + 1 = unat c" "r = (c1 = 0)" by simp_all
  then have "unat c1 < 2 ^ 32 - 1" using Suc.prems(2) by simp
  from Suc.IH [OF s(2) this] have i: "unat c' + n = unat c1" "rs1 = map (\<lambda>i. i + 1 = unat c1) [0..<n]" by simp_all
  have "c1 = 0 \<longleftrightarrow> unat c1 = 0" by (simp add: word_unat_eq_iff)
  then have "r = (0 + 1 = unat c)" using c1 by auto
  moreover have "map (\<lambda>i. i + 1 = unat c1) [0..<n] = map (\<lambda>i. i + 1 = unat c) [Suc 0..<Suc n]"
    using c1(1) by (intro nth_equalityI) (auto simp del: upt_Suc)
  ultimately have "rs = map (\<lambda>i. i + 1 = unat c) [0..<Suc n]"
    unfolding s(3) i(2) by (simp only: upt_conv_Cons list.map zero_less_Suc)
  then show ?case using i(1) c1(1) by simp
qed simp

lemma rc_decs_order:
  assumes "rc_order (word_of_nat n) (replicate n Rc_dec) (c, ts) os" "n < 2 ^ 32 - 1"
  shows "distinct os" "set os = {i. i < n \<and> (\<exists>op r. ts ! i = Rc_finished op r)}" "unat c + length os = n"
    and "\<And>k. k < length os \<Longrightarrow> ts ! (os ! k) = Rc_finished Rc_dec (k + 1 = n)"
    and "\<And>i. i < n \<Longrightarrow> ts ! i = Rc_aborted \<Longrightarrow> n \<le> length os"
proof -
  from assms(1) obtain rs where os: "distinct os" "set os = {i. i < n \<and> (\<exists>op r. ts ! i = Rc_finished op r)}"
    "rc_serial (word_of_nat n) (map ((!) (replicate n Rc_dec)) os) = Some (rs, c)"
    "list_all2 (\<lambda>i r. ts ! i = Rc_finished (replicate n Rc_dec ! i) r) os rs"
    "\<And>i. i < n \<Longrightarrow> ts ! i = Rc_aborted \<Longrightarrow>
      \<exists>k rs. rc_serial (word_of_nat n) (map ((!) (replicate n Rc_dec)) (take k os)) = Some (rs, 0)"
    by (auto simp: rc_order_def)
  have lt: "os ! k < n" if "k < length os" for k using os(2) that nth_mem [of k os] by simp
  have u: "unat (word_of_nat n :: u32) = n" using assms(2) by (intro unat_word_of_nat_lt) simp
  have decs: "map ((!) (replicate n Rc_dec)) (take k os) = replicate (min k (length os)) Rc_dec" for k
    using lt by (intro nth_equalityI) auto
  have ser: "unat c' + min k (length os) = n \<and> rs' = map (\<lambda>i. i + 1 = n) [0..<min k (length os)]"
    if "rc_serial (word_of_nat n) (map ((!) (replicate n Rc_dec)) (take k os)) = Some (rs', c')" for k rs' c'
    using rc_serial_decs [of "word_of_nat n" "min k (length os)" rs' c'] that assms(2) unfolding decs u by simp
  show "distinct os" "set os = {i. i < n \<and> (\<exists>op r. ts ! i = Rc_finished op r)}" by (rule os(1), rule os(2))
  from ser [of "length os" rs c] os(3) have r: "unat c + length os = n" "rs = map (\<lambda>i. i + 1 = n) [0..<length os]" by simp_all
  show "unat c + length os = n" by (rule r(1))
  show "ts ! (os ! k) = Rc_finished Rc_dec (k + 1 = n)" if "k < length os" for k
    using os(4) lt [OF that] that r(2) by (auto simp: list_all2_conv_all_nth)
  show "n \<le> length os" if "i < n" "ts ! i = Rc_aborted" for i
  proof -
    from os(5) [OF that] obtain k rs' where "rc_serial (word_of_nat n) (map ((!) (replicate n Rc_dec)) (take k os)) = Some (rs', 0)"
      by blast
    from ser [OF this] have "min k (length os) = n" by simp
    then show ?thesis by (simp add: min_def split: if_splits)
  qed
qed

text \<open>C18: When as many threads release a reference as there are, none aborts, and once none is running any more the count is zero and
  exactly one thread has been told so, the one that has to free the object.\<close>

theorem refcount_last_owner:
  assumes "rc_run (word_of_nat n, map Rc_start (replicate n Rc_dec)) (c, ts)" "0 < n" "n < 2 ^ 32 - 1"
  shows "(\<forall>i < n. ts ! i \<noteq> Rc_aborted) \<and>
    ((\<forall>i < n. \<exists>r. ts ! i = Rc_finished Rc_dec r) \<longrightarrow> c = 0 \<and> (\<exists>!i. i < n \<and> ts ! i = Rc_finished Rc_dec True))"
proof -
  from rc_order_run [OF assms(1) rc_order_start] obtain os where "rc_order (word_of_nat n) (replicate n Rc_dec) (c, ts) os"
    by blast
  note os = rc_decs_order [OF this assms(3)]
  have card: "length os = card (set os)" using os(1) by (simp add: distinct_card)
  have "ts ! i \<noteq> Rc_aborted" if i: "i < n" for i
  proof
    assume a: "ts ! i = Rc_aborted"
    have "set os \<subseteq> {..<n} - {i}" using os(2) a by auto
    then have "card (set os) \<le> card ({..<n} - {i})" by (intro card_mono) simp_all
    then have "length os \<le> n - 1" using card i by simp
    with os(5) [OF i a] assms(2) show False by simp
  qed
  moreover have "c = 0 \<and> (\<exists>!i. i < n \<and> ts ! i = Rc_finished Rc_dec True)"
    if all: "\<forall>i < n. \<exists>r. ts ! i = Rc_finished Rc_dec r"
  proof -
    have set: "set os = {..<n}" using os(2) all by auto
    then have len: "length os = n" using card by simp
    have "i = os ! (n - 1)" if "i < n" "ts ! i = Rc_finished Rc_dec True" for i
    proof -
      from that(1) set len obtain k where k: "k < n" "os ! k = i" by (metis in_set_conv_nth lessThan_iff)
      with os(4) [of k] that(2) len have "k + 1 = n" by simp
      with k(2) show ?thesis by auto
    qed
    moreover have "os ! (n - 1) < n" using set len nth_mem [of "n - 1" os] assms(2) by simp
    moreover have "ts ! (os ! (n - 1)) = Rc_finished Rc_dec True" using os(4) [of "n - 1"] len assms(2) by simp
    moreover have "c = 0" using os(3) len by (simp add: word_unat_eq_iff)
    ultimately show ?thesis by blast
  qed
  ultimately show ?thesis by blast
qed

theorem refcount_last_owner_witness:
  "\<exists>!i. i < 2 \<and> [Rc_finished Rc_dec False, Rc_finished Rc_dec True] ! i = Rc_finished Rc_dec True"
proof -
  have "rc_run (word_of_nat 2, map Rc_start (replicate 2 Rc_dec)) (0, [Rc_finished Rc_dec False, Rc_finished Rc_dec True])"
    using rc_example_run by (simp add: numeral_2_eq_2)
  from refcount_last_owner [OF this] have
    "(\<forall>i < 2. \<exists>r. [Rc_finished Rc_dec False, Rc_finished Rc_dec True] ! i = Rc_finished Rc_dec r) \<longrightarrow>
      (\<exists>!i. i < 2 \<and> [Rc_finished Rc_dec False, Rc_finished Rc_dec True] ! i = Rc_finished Rc_dec True)" by simp
  moreover have "\<forall>i < 2. \<exists>r. [Rc_finished Rc_dec False, Rc_finished Rc_dec True] ! i = Rc_finished Rc_dec r"
    by (auto simp: less_2_cases_iff)
  ultimately show ?thesis by (rule mp)
qed

end
