(* ===== verification/Bio_Pair.thy ===== *)
theory Bio_Pair
  imports Mem Refcount "HOL-Library.Monad_Syntax"
begin

text \<open>
  BIO pairs (\<^verbatim>\<open>crypto/bio/pair.c\<close>) and the operations on a BIO they are used through (\<^verbatim>\<open>crypto/bio/bio.c\<close>). A heap maps addresses
  to the living BIOs; the two ends of a pair point to each other, and each holds the ring buffer of what is written to
  it. The lemmas go from the ring buffer, which is a queue (\<open>ring\<close>), to the operations on one end, which are those of two
  bounded channels (\<open>chan_read\<close>, \<open>chan_write\<close>), to runs of events on a pair (\<open>pair_run\<close>, with the invariant \<open>pair_inv\<close>) and to
  programs with any number of pairs (\<open>bio_reach\<close>, with the invariant \<open>bio_heap_ok\<close>).
\<close>

section \<open>State\<close>

text \<open>The buffer of one direction, with the fields of \<^verbatim>\<open>bio_bio_st\<close>, and a BIO. Addresses are numbers; the heap maps those of the
  living BIOs. Every BIO here has the method of the pair, and is not part of a chain. An operation that would
  follow a dangling or null pointer is \<open>None\<close>.\<close>

record bio_bio_st =
  b_peer :: "nat option"
  b_closed :: bool
  b_len :: nat
  b_offset :: nat
  b_size :: nat
  b_buf :: "byte list option"
  b_request :: nat

record BIO =
  bio_init :: bool
  bio_shutdown :: int
  bio_flags :: u32
  bio_retry_reason :: int
  bio_references :: u32
  bio_ptr :: bio_bio_st
  bio_num_read :: nat
  bio_num_write :: nat

type_synonym bio_heap = "nat \<rightharpoonup> BIO"

definition sizeof_BIO :: nat where "sizeof_BIO = 64"
definition sizeof_bio_bio :: nat where "sizeof_bio_bio = 56"

section \<open>Flags\<close>

definition BIO_FLAGS_READ :: u32 where "BIO_FLAGS_READ = 0x01"
definition BIO_FLAGS_WRITE :: u32 where "BIO_FLAGS_WRITE = 0x02"
definition BIO_FLAGS_IO_SPECIAL :: u32 where "BIO_FLAGS_IO_SPECIAL = 0x04"
definition BIO_FLAGS_RWS :: u32 where "BIO_FLAGS_RWS = BIO_FLAGS_READ OR BIO_FLAGS_WRITE OR BIO_FLAGS_IO_SPECIAL"
definition BIO_FLAGS_SHOULD_RETRY :: u32 where "BIO_FLAGS_SHOULD_RETRY = 0x08"
definition kRetryFlags :: u32 where "kRetryFlags = BIO_FLAGS_RWS OR BIO_FLAGS_SHOULD_RETRY"

definition BIO_set_flags :: "BIO \<Rightarrow> u32 \<Rightarrow> BIO" where
  "BIO_set_flags bio flags = bio\<lparr>bio_flags := bio_flags bio OR flags\<rparr>"

definition BIO_test_flags :: "BIO \<Rightarrow> u32 \<Rightarrow> u32" where
  "BIO_test_flags bio flags = bio_flags bio AND flags"

definition BIO_clear_flags :: "BIO \<Rightarrow> u32 \<Rightarrow> BIO" where
  "BIO_clear_flags bio flags = bio\<lparr>bio_flags := bio_flags bio AND NOT flags\<rparr>"

definition BIO_should_read :: "BIO \<Rightarrow> u32" where "BIO_should_read bio = BIO_test_flags bio BIO_FLAGS_READ"
definition BIO_should_write :: "BIO \<Rightarrow> u32" where "BIO_should_write bio = BIO_test_flags bio BIO_FLAGS_WRITE"
definition BIO_should_io_special :: "BIO \<Rightarrow> u32" where "BIO_should_io_special bio = BIO_test_flags bio BIO_FLAGS_IO_SPECIAL"
definition BIO_should_retry :: "BIO \<Rightarrow> u32" where "BIO_should_retry bio = BIO_test_flags bio BIO_FLAGS_SHOULD_RETRY"

definition BIO_set_retry_read :: "BIO \<Rightarrow> BIO" where
  "BIO_set_retry_read bio = bio\<lparr>bio_flags := bio_flags bio OR (BIO_FLAGS_READ OR BIO_FLAGS_SHOULD_RETRY)\<rparr>"

definition BIO_set_retry_write :: "BIO \<Rightarrow> BIO" where
  "BIO_set_retry_write bio = bio\<lparr>bio_flags := bio_flags bio OR (BIO_FLAGS_WRITE OR BIO_FLAGS_SHOULD_RETRY)\<rparr>"

definition BIO_get_retry_reason :: "BIO \<Rightarrow> int" where "BIO_get_retry_reason bio = bio_retry_reason bio"

definition BIO_set_retry_reason :: "BIO \<Rightarrow> int \<Rightarrow> BIO" where
  "BIO_set_retry_reason bio reason = bio\<lparr>bio_retry_reason := reason\<rparr>"

definition BIO_get_retry_flags :: "BIO \<Rightarrow> u32" where
  "BIO_get_retry_flags bio = bio_flags bio AND kRetryFlags"

definition BIO_clear_retry_flags :: "BIO \<Rightarrow> BIO" where
  "BIO_clear_retry_flags bio = bio\<lparr>bio_flags := bio_flags bio AND NOT kRetryFlags, bio_retry_reason := 0\<rparr>"

section \<open>The methods of the pair\<close>

definition put_b :: "nat \<Rightarrow> bio_bio_st \<Rightarrow> bio_heap \<Rightarrow> bio_heap" where
  "put_b a b h = (case h a of None \<Rightarrow> h | Some bio \<Rightarrow> h(a \<mapsto> bio\<lparr>bio_ptr := b\<rparr>))"

definition bio_new :: "heap_env \<Rightarrow> bio_bio_st option" where
  "bio_new env =
     (if OPENSSL_malloc env sizeof_bio_bio = None then None
      else Some \<lparr>b_peer = None, b_closed = False, b_len = 0, b_offset = 0, b_size = 17 * 1024, b_buf = None, b_request = 0\<rparr>)"

definition bio_destroy_pair :: "bio_heap \<Rightarrow> nat \<Rightarrow> bio_heap option" where
  "bio_destroy_pair h bio =
     do {
       x \<leftarrow> h bio;
       case b_peer (bio_ptr x) of
         None \<Rightarrow> Some h
       | Some peer \<Rightarrow>
         do {
           y \<leftarrow> h peer;
           let h = h(peer \<mapsto> y\<lparr>bio_init := False, bio_ptr := (bio_ptr y)\<lparr>b_peer := None, b_len := 0, b_offset := 0\<rparr>\<rparr>);
           x \<leftarrow> h bio;
           Some (h(bio \<mapsto> x\<lparr>bio_init := False, bio_ptr := (bio_ptr x)\<lparr>b_peer := None, b_len := 0, b_offset := 0\<rparr>\<rparr>))
         }
     }"

text \<open>Freeing the state of the pair; the BIO itself is freed by \<^verbatim>\<open>BIO_free\<close>.\<close>

definition bio_free :: "bio_heap \<Rightarrow> nat \<Rightarrow> bio_heap option" where
  "bio_free h bio =
     do {
       x \<leftarrow> h bio;
       if b_peer (bio_ptr x) \<noteq> None then bio_destroy_pair h bio else Some h
     }"

text \<open>The loops over the ring buffer, of one or two rounds: \<open>rest\<close> bytes are read from or written to the buffer \<open>buf\<close>.\<close>

partial_function (option) bio_read_loop ::
    "byte list \<Rightarrow> bio_bio_st \<Rightarrow> nat \<Rightarrow> byte list \<Rightarrow> (byte list \<times> bio_bio_st) option" where
  "bio_read_loop buf peer_b rest out =
     (let chunk = (if b_offset peer_b + rest \<le> b_size peer_b then rest else b_size peer_b - b_offset peer_b);
          out = out @ take chunk (drop (b_offset peer_b) buf);
          peer_b = peer_b\<lparr>b_len := b_len peer_b - chunk\<rparr>;
          peer_b =
            (if b_len peer_b \<noteq> 0 then
               let offset = b_offset peer_b + chunk in peer_b\<lparr>b_offset := (if offset = b_size peer_b then 0 else offset)\<rparr>
             else peer_b\<lparr>b_offset := 0\<rparr>);
          rest = rest - chunk
      in if rest \<noteq> 0 then bio_read_loop buf peer_b rest out else Some (out, peer_b))"

partial_function (option) bio_write_loop ::
    "byte list \<Rightarrow> bio_bio_st \<Rightarrow> nat \<Rightarrow> byte list \<Rightarrow> (byte list \<times> bio_bio_st) option" where
  "bio_write_loop buf b rest data =
     (let write_offset = b_offset b + b_len b;
          write_offset = (if write_offset \<ge> b_size b then write_offset - b_size b else write_offset);
          chunk = (if write_offset + rest \<le> b_size b then rest else b_size b - write_offset);
          buf = mem_write write_offset (take chunk data) buf;
          b = b\<lparr>b_len := b_len b + chunk\<rparr>;
          rest = rest - chunk
      in if rest \<noteq> 0 then bio_write_loop buf b rest (drop chunk data) else Some (buf, b))"

text \<open>Reading returns the number of bytes, zero at the end, -1 when the reader has to try again, and the bytes. \<open>room\<close> tells whether the
  destination is not a null pointer.\<close>

definition bio_read :: "bio_heap \<Rightarrow> nat \<Rightarrow> bool \<Rightarrow> nat \<Rightarrow> (int \<times> byte list \<times> bio_heap) option" where
  "bio_read h bio room len =
     do {
       x \<leftarrow> h bio;
       let x = BIO_clear_retry_flags x;
       let h = h(bio \<mapsto> x);
       if \<not> bio_init x then Some (0, [], h)
       else do {
         peer \<leftarrow> b_peer (bio_ptr x);
         y \<leftarrow> h peer;
         let peer_b = (bio_ptr y)\<lparr>b_request := 0\<rparr>;
         if \<not> room \<or> len = 0 then Some (0, [], put_b peer peer_b h)
         else if b_len peer_b = 0 then
           if b_closed peer_b then Some (0, [], put_b peer peer_b h)
           else
             let h = h(bio \<mapsto> BIO_set_retry_read x);
                 peer_b = peer_b\<lparr>b_request := (if len \<le> b_size peer_b then len else b_size peer_b)\<rparr>
             in Some (- 1, [], put_b peer peer_b h)
         else do {
           let len = (if b_len peer_b < len then b_len peer_b else len);
           buf \<leftarrow> b_buf peer_b;
           (out, peer_b) \<leftarrow> bio_read_loop buf peer_b len [];
           Some (int len, out, put_b peer peer_b h)
         }
       }
     }"

text \<open>Writing returns the number of bytes taken, or -1. The data is \<open>None\<close> for a null pointer.\<close>

definition bio_write :: "bio_heap \<Rightarrow> nat \<Rightarrow> byte list option \<Rightarrow> (int \<times> bio_heap) option" where
  "bio_write h bio data =
     do {
       x \<leftarrow> h bio;
       let x = BIO_clear_retry_flags x;
       let h = h(bio \<mapsto> x);
       case data of
         None \<Rightarrow> Some (0, h)
       | Some data \<Rightarrow>
         if \<not> bio_init x \<or> length data = 0 then Some (0, h)
         else
           let num = length data;
               b = (bio_ptr x)\<lparr>b_request := 0\<rparr>;
               h = put_b bio b h
           in if b_closed b then Some (- 1, h)
              else if b_len b = b_size b then Some (- 1, h(bio \<mapsto> BIO_set_retry_write (x\<lparr>bio_ptr := b\<rparr>)))
              else do {
                let num = (if num > b_size b - b_len b then b_size b - b_len b else num);
                buf \<leftarrow> b_buf b;
                (buf, b) \<leftarrow> bio_write_loop buf b num data;
                Some (int num, put_b bio (b\<lparr>b_buf := Some buf\<rparr>) h)
              }
     }"

text \<open>One end gets its buffer.\<close>

definition bio_alloc_buf :: "heap_env \<Rightarrow> bio_bio_st \<Rightarrow> nat \<Rightarrow> bool \<times> bio_bio_st" where
  "bio_alloc_buf env b writebuf_len =
     (if b_buf b = None then
        let b = (if writebuf_len \<noteq> 0 then b\<lparr>b_size := writebuf_len\<rparr> else b) in
        case OPENSSL_malloc env (b_size b) of
          None \<Rightarrow> (False, b)
        | Some buf \<Rightarrow> (True, b\<lparr>b_buf := Some buf, b_len := 0, b_offset := 0\<rparr>)
      else (True, b))"

definition bio_make_pair :: "heap_env \<Rightarrow> heap_env \<Rightarrow> bio_heap \<Rightarrow> nat \<Rightarrow> nat \<Rightarrow> nat \<Rightarrow> nat \<Rightarrow> (bool \<times> bio_heap) option" where
  "bio_make_pair env1 env2 h bio1 bio2 writebuf1_len writebuf2_len =
     do {
       x1 \<leftarrow> h bio1;
       x2 \<leftarrow> h bio2;
       let b1 = bio_ptr x1;
       let b2 = bio_ptr x2;
       if b_peer b1 \<noteq> None \<or> b_peer b2 \<noteq> None then Some (False, h)
       else
         let (ok, b1) = bio_alloc_buf env1 b1 writebuf1_len in
         if \<not> ok then Some (False, put_b bio1 b1 h)
         else
           let (ok, b2) = bio_alloc_buf env2 b2 writebuf2_len in
           if \<not> ok then Some (False, put_b bio2 b2 (put_b bio1 b1 h))
           else
             let b1 = b1\<lparr>b_peer := Some bio2, b_closed := False, b_request := 0\<rparr>;
                 b2 = b2\<lparr>b_peer := Some bio1, b_closed := False, b_request := 0\<rparr>
             in Some (True, h(bio1 \<mapsto> x1\<lparr>bio_init := True, bio_ptr := b1\<rparr>, bio2 \<mapsto> x2\<lparr>bio_init := True, bio_ptr := b2\<rparr>))
     }"

datatype bio_cmd =
    BIO_C_GET_WRITE_BUF_SIZE
  | BIO_C_GET_WRITE_GUARANTEE
  | BIO_C_GET_READ_REQUEST
  | BIO_C_RESET_READ_REQUEST
  | BIO_C_SHUTDOWN_WR
  | BIO_CTRL_GET_CLOSE
  | BIO_CTRL_SET_CLOSE
  | BIO_CTRL_PENDING
  | BIO_CTRL_WPENDING
  | BIO_CTRL_FLUSH
  | BIO_CTRL_EOF
  | BIO_other_cmd

text \<open>\<open>ptr\<close> is the argument of \<^verbatim>\<open>BIO_CTRL_EOF\<close>, the address of a BIO.\<close>

fun bio_ctrl :: "bio_heap \<Rightarrow> nat \<Rightarrow> bio_cmd \<Rightarrow> int \<Rightarrow> nat option \<Rightarrow> (int \<times> bio_heap) option" where
  "bio_ctrl h bio BIO_C_GET_WRITE_BUF_SIZE num ptr = do { x \<leftarrow> h bio; Some (int (b_size (bio_ptr x)), h) }"
| "bio_ctrl h bio BIO_C_GET_WRITE_GUARANTEE num ptr =
     do {
       x \<leftarrow> h bio;
       let b = bio_ptr x;
       Some (if b_peer b = None \<or> b_closed b then 0 else int (b_size b) - int (b_len b), h)
     }"
| "bio_ctrl h bio BIO_C_GET_READ_REQUEST num ptr = do { x \<leftarrow> h bio; Some (int (b_request (bio_ptr x)), h) }"
| "bio_ctrl h bio BIO_C_RESET_READ_REQUEST num ptr =
     do { x \<leftarrow> h bio; Some (1, put_b bio ((bio_ptr x)\<lparr>b_request := 0\<rparr>) h) }"
| "bio_ctrl h bio BIO_C_SHUTDOWN_WR num ptr = do { x \<leftarrow> h bio; Some (1, put_b bio ((bio_ptr x)\<lparr>b_closed := True\<rparr>) h) }"
| "bio_ctrl h bio BIO_CTRL_GET_CLOSE num ptr = do { x \<leftarrow> h bio; Some (bio_shutdown x, h) }"
| "bio_ctrl h bio BIO_CTRL_SET_CLOSE num ptr = do { x \<leftarrow> h bio; Some (1, h(bio \<mapsto> x\<lparr>bio_shutdown := num\<rparr>)) }"
| "bio_ctrl h bio BIO_CTRL_PENDING num ptr =
     do {
       x \<leftarrow> h bio;
       case b_peer (bio_ptr x) of
         None \<Rightarrow> Some (0, h)
       | Some peer \<Rightarrow> do { y \<leftarrow> h peer; Some (int (b_len (bio_ptr y)), h) }
     }"
| "bio_ctrl h bio BIO_CTRL_WPENDING num ptr =
     do { x \<leftarrow> h bio; Some (if b_buf (bio_ptr x) \<noteq> None then int (b_len (bio_ptr x)) else 0, h) }"
| "bio_ctrl h bio BIO_CTRL_FLUSH num ptr = Some (1, h)"
| "bio_ctrl h bio BIO_CTRL_EOF num ptr =
     (case ptr of
        None \<Rightarrow> Some (1, h)
      | Some other \<Rightarrow>
          do { y \<leftarrow> h other; Some (if b_len (bio_ptr y) = 0 \<and> b_closed (bio_ptr y) then 1 else 0, h) })"
| "bio_ctrl h bio BIO_other_cmd num ptr = Some (0, h)"

section \<open>Operations on a BIO\<close>

text \<open>A new BIO, without the buffer; the allocator gives the address.\<close>

definition BIO_new :: "heap_env \<Rightarrow> bio_heap \<Rightarrow> nat \<Rightarrow> bio_heap option" where
  "BIO_new env h a =
     (if OPENSSL_malloc env sizeof_BIO = None then None
      else
        case bio_new env of
          None \<Rightarrow> None
        | Some b \<Rightarrow>
            Some (h(a \<mapsto> \<lparr>bio_init = False, bio_shutdown = 1, bio_flags = 0, bio_retry_reason = 0, bio_references = 1,
              bio_ptr = b, bio_num_read = 0, bio_num_write = 0\<rparr>)))"

definition BIO_up_ref :: "bio_heap \<Rightarrow> nat \<Rightarrow> bio_heap option" where
  "BIO_up_ref h bio = do { x \<leftarrow> h bio; Some (h(bio \<mapsto> x\<lparr>bio_references := CRYPTO_refcount_inc (bio_references x)\<rparr>)) }"

definition BIO_free :: "bio_heap \<Rightarrow> nat option \<Rightarrow> (int \<times> bio_heap) option" where
  "BIO_free h bio =
     (case bio of
        None \<Rightarrow> Some (1, h)
      | Some a \<Rightarrow>
        do {
          x \<leftarrow> h a;
          (zero, count) \<leftarrow> CRYPTO_refcount_dec_and_test_zero (bio_references x);
          let h = h(a \<mapsto> x\<lparr>bio_references := count\<rparr>);
          if \<not> zero then Some (0, h)
          else do { h \<leftarrow> bio_free h a; Some (1, h(a := None)) }
        })"

definition BIO_read :: "bio_heap \<Rightarrow> nat option \<Rightarrow> bool \<Rightarrow> int \<Rightarrow> (int \<times> byte list \<times> bio_heap) option" where
  "BIO_read h bio room len =
     (case bio of
        None \<Rightarrow> Some (- 2, [], h)
      | Some a \<Rightarrow>
        do {
          x \<leftarrow> h a;
          if \<not> bio_init x then Some (- 2, [], h)
          else if len \<le> 0 then Some (0, [], h)
          else do {
            (ret, out, h) \<leftarrow> bio_read h a room (nat len);
            x \<leftarrow> h a;
            Some (ret, out, if ret > 0 then h(a \<mapsto> x\<lparr>bio_num_read := size_add (bio_num_read x) (nat ret)\<rparr>) else h)
          }
        })"

text \<open>The length argument is that of the data; for a null pointer it is given as \<open>inl\<close>.\<close>

definition BIO_write :: "bio_heap \<Rightarrow> nat option \<Rightarrow> byte list option \<Rightarrow> int \<Rightarrow> (int \<times> bio_heap) option" where
  "BIO_write h bio data inl =
     (case bio of
        None \<Rightarrow> Some (- 2, h)
      | Some a \<Rightarrow>
        do {
          x \<leftarrow> h a;
          if \<not> bio_init x then Some (- 2, h)
          else if inl \<le> 0 then Some (0, h)
          else do {
            (ret, h) \<leftarrow> bio_write h a (map_option (take (nat inl)) data);
            x \<leftarrow> h a;
            Some (ret, if ret > 0 then h(a \<mapsto> x\<lparr>bio_num_write := size_add (bio_num_write x) (nat ret)\<rparr>) else h)
          }
        })"

definition BIO_ctrl :: "bio_heap \<Rightarrow> nat option \<Rightarrow> bio_cmd \<Rightarrow> int \<Rightarrow> nat option \<Rightarrow> (int \<times> bio_heap) option" where
  "BIO_ctrl h bio cmd larg parg = (case bio of None \<Rightarrow> Some (0, h) | Some a \<Rightarrow> bio_ctrl h a cmd larg parg)"

definition BIO_eof :: "bio_heap \<Rightarrow> nat option \<Rightarrow> (int \<times> bio_heap) option" where
  "BIO_eof h bio = BIO_ctrl h bio BIO_CTRL_EOF 0 None"

definition BIO_flush :: "bio_heap \<Rightarrow> nat option \<Rightarrow> (int \<times> bio_heap) option" where
  "BIO_flush h bio = BIO_ctrl h bio BIO_CTRL_FLUSH 0 None"

definition BIO_pending :: "bio_heap \<Rightarrow> nat option \<Rightarrow> (nat \<times> bio_heap) option" where
  "BIO_pending h bio =
     do { (r, h) \<leftarrow> BIO_ctrl h bio BIO_CTRL_PENDING 0 None; Some (if r < 0 then 0 else nat r, h) }"

definition BIO_ctrl_pending :: "bio_heap \<Rightarrow> nat option \<Rightarrow> (nat \<times> bio_heap) option" where
  "BIO_ctrl_pending h bio = BIO_pending h bio"

definition BIO_wpending :: "bio_heap \<Rightarrow> nat option \<Rightarrow> (nat \<times> bio_heap) option" where
  "BIO_wpending h bio =
     do { (r, h) \<leftarrow> BIO_ctrl h bio BIO_CTRL_WPENDING 0 None; Some (if r < 0 then 0 else nat r, h) }"

definition BIO_set_close :: "bio_heap \<Rightarrow> nat option \<Rightarrow> int \<Rightarrow> (int \<times> bio_heap) option" where
  "BIO_set_close h bio close_flag = BIO_ctrl h bio BIO_CTRL_SET_CLOSE close_flag None"

definition BIO_ctrl_get_read_request :: "bio_heap \<Rightarrow> nat option \<Rightarrow> (int \<times> bio_heap) option" where
  "BIO_ctrl_get_read_request h bio = BIO_ctrl h bio BIO_C_GET_READ_REQUEST 0 None"

definition BIO_ctrl_get_write_guarantee :: "bio_heap \<Rightarrow> nat option \<Rightarrow> (int \<times> bio_heap) option" where
  "BIO_ctrl_get_write_guarantee h bio = BIO_ctrl h bio BIO_C_GET_WRITE_GUARANTEE 0 None"

definition BIO_shutdown_wr :: "bio_heap \<Rightarrow> nat option \<Rightarrow> (int \<times> bio_heap) option" where
  "BIO_shutdown_wr h bio = BIO_ctrl h bio BIO_C_SHUTDOWN_WR 0 None"

text \<open>A string is given as its bytes before the null byte; its length becomes an \<^verbatim>\<open>int\<close>.\<close>

definition BIO_puts :: "bio_heap \<Rightarrow> nat option \<Rightarrow> byte list \<Rightarrow> (int \<times> bio_heap) option" where
  "BIO_puts h bio s = BIO_write h bio (Some s) (int32 (int (length s)))"

primrec BIO_indent_loop :: "nat \<Rightarrow> bio_heap \<Rightarrow> nat option \<Rightarrow> (bool \<times> bio_heap) option" where
  "BIO_indent_loop 0 h bio = Some (True, h)"
| "BIO_indent_loop (Suc n) h bio =
     do { (r, h) \<leftarrow> BIO_puts h bio [0x20]; if r \<noteq> 1 then Some (False, h) else BIO_indent_loop n h bio }"

definition BIO_indent :: "bio_heap \<Rightarrow> nat option \<Rightarrow> nat \<Rightarrow> nat \<Rightarrow> (bool \<times> bio_heap) option" where
  "BIO_indent h bio indent max_indent = BIO_indent_loop (if indent > max_indent then max_indent else indent) h bio"

definition BIO_number_read :: "BIO \<Rightarrow> nat" where "BIO_number_read bio = bio_num_read bio"
definition BIO_number_written :: "BIO \<Rightarrow> nat" where "BIO_number_written bio = bio_num_write bio"

text \<open>Writing all of the data, in pieces the \<^verbatim>\<open>int\<close> of the interface can count.\<close>

partial_function (option) BIO_write_all :: "bio_heap \<Rightarrow> nat option \<Rightarrow> byte list \<Rightarrow> (bool \<times> bio_heap) option" where
  "BIO_write_all h bio data =
     (if length data > 0 then
        do {
          (ret, h) \<leftarrow> BIO_write h bio (Some data) (if length data > INT_MAX then int INT_MAX else int (length data));
          if ret \<le> 0 then Some (False, h) else BIO_write_all h bio (drop (nat ret) data)
        }
      else Some (True, h))"

text \<open>Both ends of a new pair, at the addresses the allocator gives. \<open>env\<close> is the allocator at each of the four steps that
  ask it for memory.\<close>

definition BIO_new_bio_pair ::
    "(nat \<Rightarrow> heap_env) \<Rightarrow> bio_heap \<Rightarrow> nat \<Rightarrow> nat \<Rightarrow> nat \<Rightarrow> nat \<Rightarrow> ((nat \<times> nat) option \<times> bio_heap) option" where
  "BIO_new_bio_pair env h a1 writebuf1_len a2 writebuf2_len =
     (case BIO_new (env 0) h a1 of
        None \<Rightarrow> (case BIO_new (env 1) h a2 of
                   None \<Rightarrow> Some (None, h)
                 | Some h \<Rightarrow> do { (r, h) \<leftarrow> BIO_free h (Some a2); Some (None, h) })
      | Some h1 \<Rightarrow>
        (case BIO_new (env 1) h1 a2 of
           None \<Rightarrow> do { (r, h) \<leftarrow> BIO_free h1 (Some a1); Some (None, h) }
         | Some h2 \<Rightarrow>
           do {
             (ok, h) \<leftarrow> bio_make_pair (env 2) (env 3) h2 a1 a2 writebuf1_len writebuf2_len;
             if ok then Some (Some (a1, a2), h)
             else do {
               (r, h) \<leftarrow> BIO_free h (Some a1);
               (r, h) \<leftarrow> BIO_free h (Some a2);
               Some (None, h)
             }
           }))"

section \<open>The ring buffer is a queue\<close>

definition ring_ok :: "bio_bio_st \<Rightarrow> byte list \<Rightarrow> bool" where
  "ring_ok b buf \<longleftrightarrow> length buf = b_size b \<and> 0 < b_size b \<and> b_len b \<le> b_size b \<and> b_offset b < b_size b"

definition ring :: "bio_bio_st \<Rightarrow> byte list \<Rightarrow> byte list" where
  "ring b buf = take (b_len b) (rotate (b_offset b) buf)"

lemma length_ring: "ring_ok b buf \<Longrightarrow> length (ring b buf) = b_len b"
  by (simp add: ring_def ring_ok_def)

lemma ring_drop:
  assumes "n \<le> len" "len \<le> length buf"
  shows "take (len - n) (rotate ((off + n) mod length buf) buf) = drop n (take len (rotate off buf))"
proof (cases "buf = []")
  case False
  have "rotate ((off + n) mod length buf) buf = rotate n (rotate off buf)"
    by (simp add: rotate_rotate add.commute flip: rotate_conv_mod)
  moreover have "take (len - n) (rotate n xs) = take (len - n) (drop n xs)" if "length xs = length buf" for xs :: "'a list"
  proof (cases "n = length xs")
    case True
    then show ?thesis using assms that by simp
  next
    case False
    then have "n mod length xs = n" using assms that by simp
    then show ?thesis using assms that by (simp add: rotate_drop_take)
  qed
  ultimately show ?thesis by (simp add: drop_take)
qed (use assms in simp)

lemma bio_read_loop_last:
  assumes "b_offset c + m \<le> b_size c" "m \<le> b_len c"
  shows "bio_read_loop buf c m out = Some (out @ take m (drop (b_offset c) buf),
    c\<lparr>b_len := b_len c - m, b_offset := (if b_len c = m then 0 else (b_offset c + m) mod b_size c)\<rparr>)"
proof (cases "b_len c = m")
  case True
  then show ?thesis using assms by (subst bio_read_loop.simps) (simp add: Let_def)
next
  case False
  then have lt: "m < b_len c" using assms(2) by simp
  show ?thesis
  proof (cases "b_offset c + m = b_size c")
    case True
    then show ?thesis using lt by (subst bio_read_loop.simps) (simp add: Let_def)
  next
    case False
    then have "b_offset c + m < b_size c" using assms(1) by simp
    then show ?thesis using lt by (subst bio_read_loop.simps) (simp add: Let_def)
  qed
qed

lemma bio_read_loop_wrap:
  assumes "\<not> b_offset c + m \<le> b_size c" "m \<le> b_len c" "k = b_size c - b_offset c" "b_offset c < b_size c"
  shows "bio_read_loop buf c m out =
    bio_read_loop buf (c\<lparr>b_len := b_len c - k, b_offset := 0\<rparr>) (m - k) (out @ take k (drop (b_offset c) buf))"
proof -
  have k: "b_len c - k \<noteq> 0" "m - k \<noteq> 0" "b_offset c + k = b_size c" using assms by linarith+
  show ?thesis
    by (subst bio_read_loop.simps, simp only: Let_def if_not_P [OF assms(1)] assms(3) [symmetric])
      (use k in simp)
qed

lemma bio_read_loop:
  assumes "ring_ok b buf" "0 < n" "n \<le> b_len b"
  shows "\<exists>off. bio_read_loop buf b n out = Some (out @ take n (ring b buf), b\<lparr>b_len := b_len b - n, b_offset := off\<rparr>) \<and>
    off < b_size b \<and> (b_len b = n \<longrightarrow> off = 0) \<and> ring (b\<lparr>b_len := b_len b - n, b_offset := off\<rparr>) buf = drop n (ring b buf)"
proof -
  define size len offset where "size = b_size b" and "len = b_len b" and "offset = b_offset b"
  have ok: "length buf = size" "0 < size" "len \<le> size" "offset < size" "0 < n" "n \<le> len"
    using assms by (simp_all add: ring_ok_def size_def len_def offset_def)
  have rot: "rotate offset buf = drop offset buf @ take offset buf" using ok(1,4) by (simp add: rotate_drop_take)
  have rg: "ring b buf = take len (rotate offset buf)" by (simp add: ring_def len_def offset_def)
  show ?thesis
  proof (cases "offset + n \<le> size")
    case True
    define off where "off = (if len = n then 0 else (offset + n) mod size)"
    have "bio_read_loop buf b n out = Some (out @ take n (drop offset buf), b\<lparr>b_len := len - n, b_offset := off\<rparr>)"
      using bio_read_loop_last [of b n buf out] True ok by (simp add: size_def len_def offset_def off_def)
    moreover have "take n (drop offset buf) = take n (ring b buf)"
    proof -
      have "take n (ring b buf) = take n (rotate offset buf)" unfolding rg using ok by (simp add: min_absorb1)
      moreover have "n - length (drop offset buf) = 0" using True ok by simp
      ultimately show ?thesis unfolding rot by simp
    qed
    moreover have "off < size \<and> (len = n \<longrightarrow> off = 0)" using ok(2) by (simp add: off_def)
    moreover have "ring (b\<lparr>b_len := len - n, b_offset := off\<rparr>) buf = drop n (ring b buf)"
      using ring_drop [of n len buf offset] ok unfolding rg by (simp add: ring_def off_def)
    ultimately show ?thesis unfolding len_def size_def by auto
  next
    case False
    define c where "c = size - offset"
    define b1 where "b1 = b\<lparr>b_len := len - c, b_offset := 0\<rparr>"
    have c: "0 < c" "c < n" "offset + c = size" "n - c \<le> size" using False ok by (simp_all add: c_def)
    have "bio_read_loop buf b n out = bio_read_loop buf b1 (n - c) (out @ take c (drop offset buf))"
      unfolding b1_def len_def offset_def
      by (rule bio_read_loop_wrap) (use False ok in \<open>simp_all add: c_def size_def len_def offset_def\<close>)
    also have "take c (drop offset buf) = drop offset buf" using ok(1) by (simp add: c_def)
    also have "bio_read_loop buf b1 (n - c) (out @ drop offset buf) = Some ((out @ drop offset buf) @ take (n - c) buf,
        b1\<lparr>b_len := len - c - (n - c), b_offset := (if len - c = n - c then 0 else (n - c) mod size)\<rparr>)"
      using bio_read_loop_last [of b1 "n - c" buf "out @ drop offset buf"] c ok by (simp add: b1_def size_def)
    also have "len - c - (n - c) = len - n" using c ok by simp
    also have "(len - c = n - c) = (len = n)" using c ok by auto
    also have "(n - c) mod size = (offset + n) mod size"
    proof -
      have "offset + n = (n - c) + size" using c by simp
      then show ?thesis by simp
    qed
    finally have e: "bio_read_loop buf b n out = Some ((out @ drop offset buf) @ take (n - c) buf,
        b1\<lparr>b_len := len - n, b_offset := (if len = n then 0 else (offset + n) mod size)\<rparr>)" .
    define off where "off = (if len = n then 0 else (offset + n) mod size)"
    have "drop offset buf @ take (n - c) buf = take n (ring b buf)"
    proof -
      have "n - length (drop offset buf) = n - c" "n - c \<le> offset" using c ok by simp_all
      then show ?thesis unfolding rg rot using ok c by (simp add: min_def)
    qed
    moreover have "off < size \<and> (len = n \<longrightarrow> off = 0)" using ok(2) by (simp add: off_def)
    moreover have "ring (b\<lparr>b_len := len - n, b_offset := off\<rparr>) buf = drop n (ring b buf)"
      using ring_drop [of n len buf offset] ok unfolding rg by (simp add: ring_def off_def)
    ultimately show ?thesis
      using e unfolding off_def [symmetric] by (intro exI [of _ off]) (simp add: b1_def len_def size_def)
  qed
qed

lemma nth_mem_write:
  "off + length d \<le> length m \<Longrightarrow> i < length m \<Longrightarrow> mem_write off d m ! i = (if off \<le> i \<and> i < off + length d then d ! (i - off) else m ! i)"
proof -
  assume a: "off + length d \<le> length m" "i < length m"
  consider "i < off" | "off \<le> i" "i < off + length d" | "off + length d \<le> i" by linarith
  then show ?thesis
  proof cases
    case 2
    then have "\<not> i < off" "i - off < length d" by linarith+
    with 2 a show ?thesis by (simp add: mem_write_def nth_append)
  next
    case 3
    then have "\<not> i - off < length d" "off + length d + (i - off - length d) = i" by simp_all
    with 3 a show ?thesis by (simp add: mem_write_def nth_append)
  qed (use a in \<open>simp_all add: mem_write_def nth_append\<close>)
qed

lemma ring_write:
  assumes "off < length buf" "len + length d \<le> length buf" "w = (off + len) mod length buf" "w + length d \<le> length buf"
  shows "take (len + length d) (rotate off (mem_write w d buf)) = take len (rotate off buf) @ d"
proof (rule nth_equalityI)
  have l: "length (mem_write w d buf) = length buf" using assms(4) by (simp add: mem_write_def)
  show "length (take (len + length d) (rotate off (mem_write w d buf))) = length (take len (rotate off buf) @ d)"
    using assms l by simp
  fix i assume "i < length (take (len + length d) (rotate off (mem_write w d buf)))"
  then have i: "i < len + length d" using assms l by simp
  define p where "p = (off + i) mod length buf"
  have "0 < length buf" using assms(1) by linarith
  then have p: "p < length buf" unfolding p_def by (rule mod_less_divisor)
  have "take (len + length d) (rotate off (mem_write w d buf)) ! i = mem_write w d buf ! p"
    using i assms l by (simp add: nth_rotate p_def)
  also have "\<dots> = (if w \<le> p \<and> p < w + length d then d ! (p - w) else buf ! p)"
    by (rule nth_mem_write [OF assms(4) p])
  also have "\<dots> = (take len (rotate off buf) @ d) ! i"
  proof (cases "i < len")
    case True
    have n: "\<not> (w \<le> p \<and> p < w + length d)"
    proof
      assume a: "w \<le> p \<and> p < w + length d"
      have "(off + len + (p - w)) mod length buf = (off + i) mod length buf"
        using a p assms(3) by (metis le_add_diff_inverse mod_add_left_eq mod_less p_def)
      moreover have "off + len + (p - w) = off + i + (len + (p - w) - i)" using True by simp
      moreover have "0 < len + (p - w) - i" "len + (p - w) - i < length buf" using a True assms(2) by linarith+
      ultimately have "(off + i + (len + (p - w) - i)) mod length buf = (off + i) mod length buf" by simp
      then have "(len + (p - w) - i) mod length buf = 0"
        by (metis add_diff_cancel_left' le_add1 mod_eq_dvd_iff_nat dvd_imp_mod_0)
      with \<open>0 < len + (p - w) - i\<close> \<open>len + (p - w) - i < length buf\<close> show False by simp
    qed
    show ?thesis unfolding if_not_P [OF n] using True assms(1,2) by (simp add: nth_append nth_rotate p_def)
  next
    case False
    have "off + i = off + len + (i - len)" using False by simp
    then have "p = (w + (i - len)) mod length buf" by (simp only: p_def assms(3) mod_add_left_eq)
    also have "\<dots> = w + (i - len)" using i assms(4) False by (intro mod_less) linarith
    finally have e: "p - w = i - len" "w \<le> p \<and> p < w + length d" using False i by linarith+
    show ?thesis unfolding if_P [OF e(2)] e(1) using False i assms(1,2) by (simp add: nth_append)
  qed
  finally show "take (len + length d) (rotate off (mem_write w d buf)) ! i = (take len (rotate off buf) @ d) ! i" .
qed

lemma write_offset:
  "off < n \<Longrightarrow> len \<le> n \<Longrightarrow> (if off + len \<ge> n then off + len - n else off + len) = (off + len) mod n" for off len n :: nat
  by (simp add: mod_if)

lemma bio_write_loop_last:
  assumes "b_offset c < b_size c" "b_len c \<le> b_size c" "w = (b_offset c + b_len c) mod b_size c" "w + k \<le> b_size c"
  shows "bio_write_loop m c k d = Some (mem_write w (take k d) m, c\<lparr>b_len := b_len c + k\<rparr>)"
  by (subst bio_write_loop.simps,
      simp only: Let_def write_offset [OF assms(1,2)] assms(3) [symmetric] if_P [OF assms(4)]) simp

lemma bio_write_loop_wrap:
  assumes "b_offset c < b_size c" "b_len c \<le> b_size c" "w = (b_offset c + b_len c) mod b_size c" "\<not> w + k \<le> b_size c"
    and "s = b_size c - w"
  shows "bio_write_loop m c k d = bio_write_loop (mem_write w (take s d) m) (c\<lparr>b_len := b_len c + s\<rparr>) (k - s) (drop s d)"
proof -
  have "w < b_size c" using assms(1,3) by simp
  then have nz: "k - s \<noteq> 0" using assms(4,5) by linarith
  show ?thesis
    by (subst bio_write_loop.simps,
        simp only: Let_def write_offset [OF assms(1,2)] assms(3) [symmetric] if_not_P [OF assms(4)] assms(5) [symmetric] if_P [OF nz])
qed

lemma bio_write_loop:
  assumes "ring_ok b buf" "0 < n" "n \<le> b_size b - b_len b" "n \<le> length data"
  shows "\<exists>buf'. bio_write_loop buf b n data = Some (buf', b\<lparr>b_len := b_len b + n\<rparr>) \<and> length buf' = length buf \<and>
    ring (b\<lparr>b_len := b_len b + n\<rparr>) buf' = ring b buf @ take n data"
proof -
  define size len offset where "size = b_size b" and "len = b_len b" and "offset = b_offset b"
  have ok: "length buf = size" "0 < size" "len \<le> size" "offset < size" "0 < n" "n \<le> size - len" "n \<le> length data"
    using assms by (simp_all add: ring_ok_def size_def len_def offset_def)
  define w where "w = (offset + len) mod size"
  have rg: "ring b buf = take len (rotate offset buf)" by (simp add: ring_def len_def offset_def)
  show ?thesis
  proof (cases "w + n \<le> size")
    case True
    have "bio_write_loop buf b n data = Some (mem_write w (take n data) buf, b\<lparr>b_len := len + n\<rparr>)"
      unfolding len_def by (rule bio_write_loop_last) (use True ok in \<open>simp_all add: w_def size_def len_def offset_def\<close>)
    moreover have "take (len + n) (rotate offset (mem_write w (take n data) buf)) = take len (rotate offset buf) @ take n data"
      using ring_write [of offset buf len "take n data" w] True ok by (simp add: w_def)
    moreover have "length (mem_write w (take n data) buf) = length buf" using True ok by (simp add: mem_write_def)
    ultimately show ?thesis unfolding rg by (simp add: ring_def len_def [symmetric] offset_def [symmetric])
  next
    case False
    define c where "c = size - w"
    have "w < size" using ok(2) by (simp add: w_def)
    with False ok have c: "0 < c" "c < n" "w + c = size" by (simp_all add: c_def)
    define m1 where "m1 = mem_write w (take c data) buf"
    define b1 where "b1 = b\<lparr>b_len := len + c\<rparr>"
    have w1: "(offset + (len + c)) mod size = 0"
    proof -
      have "(offset + (len + c)) mod size = (w + c) mod size" by (simp add: w_def mod_add_left_eq flip: add.assoc)
      then show ?thesis by (simp add: c(3))
    qed
    have m1: "length m1 = size" using c ok by (simp add: m1_def mem_write_def)
    have "bio_write_loop buf b n data = bio_write_loop m1 b1 (n - c) (drop c data)"
      unfolding m1_def b1_def len_def
      by (rule bio_write_loop_wrap) (use False ok in \<open>simp_all add: c_def w_def size_def len_def offset_def\<close>)
    also have "\<dots> = Some (mem_write 0 (take (n - c) (drop c data)) m1, b1\<lparr>b_len := len + c + (n - c)\<rparr>)"
      using bio_write_loop_last [of b1 0 "n - c" m1 "drop c data"] c ok w1 by (simp add: b1_def size_def offset_def)
    also have "len + c + (n - c) = len + n" using c by simp
    finally have e: "bio_write_loop buf b n data = Some (mem_write 0 (take (n - c) (drop c data)) m1, b\<lparr>b_len := len + n\<rparr>)"
      by (simp add: b1_def)
    have "take (len + c) (rotate offset m1) = take len (rotate offset buf) @ take c data"
      using ring_write [of offset buf len "take c data" w] c ok by (simp add: m1_def w_def)
    moreover have "take (len + c + (n - c)) (rotate offset (mem_write 0 (take (n - c) (drop c data)) m1)) =
        take (len + c) (rotate offset m1) @ take (n - c) (drop c data)"
      using ring_write [of offset m1 "len + c" "take (n - c) (drop c data)" 0] c ok m1 w1 by simp
    moreover have "take c data @ take (n - c) (drop c data) = take n data"
      using c take_add [of c "n - c" data] by simp
    ultimately have "take (len + n) (rotate offset (mem_write 0 (take (n - c) (drop c data)) m1)) = ring b buf @ take n data"
      unfolding rg using c by simp
    moreover have "length (mem_write 0 (take (n - c) (drop c data)) m1) = length buf" using m1 c ok by (simp add: mem_write_def)
    ultimately show ?thesis using e by (simp add: ring_def len_def [symmetric] offset_def [symmetric])
  qed
qed

section \<open>A pair is two channels\<close>

text \<open>The specification: a channel is a queue of bounded length that can be shut. Reading from an empty channel yields -1,
  or zero once it is shut; writing to a full or shut one yields -1.\<close>

record chan =
  queued :: "byte list"
  capacity :: nat
  shut :: bool

definition chan_read :: "nat \<Rightarrow> chan \<Rightarrow> int \<times> byte list \<times> chan" where
  "chan_read n c =
     (if queued c = [] then (if shut c then 0 else - 1, [], c)
      else (int (min n (length (queued c))), take n (queued c), c\<lparr>queued := drop n (queued c)\<rparr>))"

definition chan_write :: "byte list \<Rightarrow> chan \<Rightarrow> int \<times> chan" where
  "chan_write d c =
     (let n = min (length d) (capacity c - length (queued c)) in
      if shut c \<or> n = 0 then (- 1, c) else (int n, c\<lparr>queued := queued c @ take n d\<rparr>))"

text \<open>The channel of what is written to a BIO.\<close>

definition chan_of :: "bio_bio_st \<Rightarrow> chan" where
  "chan_of b = \<lparr>queued = ring b (case b_buf b of None \<Rightarrow> [] | Some u \<Rightarrow> u), capacity = b_size b, shut = b_closed b\<rparr>"

definition chan_at :: "bio_heap \<Rightarrow> nat \<Rightarrow> chan option" where
  "chan_at h a = map_option (\<lambda>x. chan_of (bio_ptr x)) (h a)"

text \<open>One end of a pair, as the comments in \<^verbatim>\<open>bio_bio_st\<close> describe it: the offset is zero when nothing is pending, and a request
  of the peer is noted only then, for no more than the buffer holds.\<close>

definition ring_tidy :: "bio_bio_st \<Rightarrow> bool" where
  "ring_tidy b \<longleftrightarrow> (b_len b = 0 \<longrightarrow> b_offset b = 0) \<and> (b_len b \<noteq> 0 \<longrightarrow> b_request b = 0) \<and> b_request b \<le> b_size b"

definition bio_ok :: "BIO \<Rightarrow> nat \<Rightarrow> bool" where
  "bio_ok x p \<longleftrightarrow> bio_init x \<and> b_peer (bio_ptr x) = Some p \<and> ring_tidy (bio_ptr x) \<and>
     (\<exists>u. b_buf (bio_ptr x) = Some u \<and> ring_ok (bio_ptr x) u)"

definition pair_ok :: "bio_heap \<Rightarrow> nat \<Rightarrow> nat \<Rightarrow> bool" where
  "pair_ok h a p \<longleftrightarrow> a \<noteq> p \<and> (\<exists>x y. h a = Some x \<and> h p = Some y \<and> bio_ok x p \<and> bio_ok y a)"

lemma pair_ok_sym: "pair_ok h a p \<Longrightarrow> pair_ok h p a"
  by (auto simp: pair_ok_def)

lemma bio_flags_simps [simp]:
  "bio_ptr (BIO_clear_retry_flags x) = bio_ptr x" "bio_init (BIO_clear_retry_flags x) = bio_init x"
  "bio_references (BIO_clear_retry_flags x) = bio_references x"
  "bio_ptr (BIO_set_retry_read x) = bio_ptr x" "bio_init (BIO_set_retry_read x) = bio_init x"
  "bio_references (BIO_set_retry_read x) = bio_references x"
  "bio_ptr (BIO_set_retry_write x) = bio_ptr x" "bio_init (BIO_set_retry_write x) = bio_init x"
  "bio_references (BIO_set_retry_write x) = bio_references x"
  by (simp_all add: BIO_clear_retry_flags_def BIO_set_retry_read_def BIO_set_retry_write_def)

lemma retry_cleared: "(bio_flags y AND NOT kRetryFlags) AND m = 0" if "m \<in> {BIO_FLAGS_SHOULD_RETRY, BIO_FLAGS_READ, BIO_FLAGS_WRITE}"
proof -
  have "NOT kRetryFlags AND m = 0"
    using that by (auto simp: kRetryFlags_def BIO_FLAGS_RWS_def BIO_FLAGS_READ_def BIO_FLAGS_WRITE_def BIO_FLAGS_IO_SPECIAL_def
        BIO_FLAGS_SHOULD_RETRY_def)
  then show ?thesis by (simp add: and.assoc)
qed

lemma no_retry:
  "BIO_should_retry (BIO_clear_retry_flags y) = 0" "BIO_should_read (BIO_clear_retry_flags y) = 0"
  "BIO_should_write (BIO_clear_retry_flags y) = 0"
  by (simp_all add: BIO_should_retry_def BIO_should_read_def BIO_should_write_def BIO_test_flags_def BIO_clear_retry_flags_def
      retry_cleared)

lemma set_retry_read:
  "BIO_should_retry (BIO_set_retry_read y) \<noteq> 0" "BIO_should_read (BIO_set_retry_read y) \<noteq> 0"
  "BIO_should_write (BIO_set_retry_read y) = BIO_should_write y"
proof -
  have "bit (BIO_should_retry (BIO_set_retry_read y)) 3" "bit (BIO_should_read (BIO_set_retry_read y)) 0"
    by (simp_all add: BIO_should_retry_def BIO_should_read_def BIO_test_flags_def BIO_set_retry_read_def BIO_FLAGS_READ_def
        BIO_FLAGS_SHOULD_RETRY_def bit_simps)
  then show "BIO_should_retry (BIO_set_retry_read y) \<noteq> 0" "BIO_should_read (BIO_set_retry_read y) \<noteq> 0" by auto
  show "BIO_should_write (BIO_set_retry_read y) = BIO_should_write y"
    by (simp add: BIO_should_write_def BIO_test_flags_def BIO_set_retry_read_def BIO_FLAGS_READ_def BIO_FLAGS_WRITE_def
        BIO_FLAGS_SHOULD_RETRY_def bit.conj_disj_distrib2)
qed

text \<open>What a read leaves in the flags of its BIO: the request to read again if and only if it returned -1.\<close>

definition read_flags :: "int \<Rightarrow> BIO \<Rightarrow> bool" where
  "read_flags r y \<longleftrightarrow> (BIO_should_retry y \<noteq> 0 \<longleftrightarrow> r = - 1) \<and> (BIO_should_read y \<noteq> 0 \<longleftrightarrow> r = - 1) \<and> BIO_should_write y = 0"

lemma bio_flags_ptr [simp]: "BIO_clear_retry_flags (x\<lparr>bio_ptr := b\<rparr>) = (BIO_clear_retry_flags x)\<lparr>bio_ptr := b\<rparr>"
  by (simp add: BIO_clear_retry_flags_def)

lemma chan_of_simps [simp]:
  "chan_of (b\<lparr>b_request := n\<rparr>) = chan_of b" "chan_of (b\<lparr>b_closed := c\<rparr>) = (chan_of b)\<lparr>shut := c\<rparr>"
  by (simp_all add: chan_of_def ring_def)

lemma ring_ok_request [simp]:
  "ring_ok (b\<lparr>b_request := n\<rparr>) u = ring_ok b u" "ring_ok (b\<lparr>b_closed := c\<rparr>) u = ring_ok b u"
  by (simp_all add: ring_ok_def)

text \<open>What an operation on one end leaves alone: the addresses and the references. The two ends stay a pair.\<close>

definition bio_frame :: "bio_heap \<Rightarrow> nat \<Rightarrow> nat \<Rightarrow> bio_heap \<Rightarrow> bool" where
  "bio_frame h a p h' \<longleftrightarrow> pair_ok h' a p \<and> (\<forall>c. c \<noteq> a \<longrightarrow> c \<noteq> p \<longrightarrow> h' c = h c) \<and>
     map_option bio_references (h' a) = map_option bio_references (h a) \<and>
     map_option bio_references (h' p) = map_option bio_references (h p)"

lemma bio_read_pair:
  assumes "pair_ok h a p" "0 < n" "chan_at h a = Some c" "chan_read n c = (r, out, c')"
  shows "\<exists>h'. bio_read h p True n = Some (r, out, h') \<and> bio_frame h a p h' \<and> chan_at h' a = Some c' \<and> chan_at h' p = chan_at h p \<and>
    (\<exists>y. h' p = Some y \<and> read_flags r y)"
proof -
  from assms(1) obtain x y where xy: "a \<noteq> p" "h a = Some x" "h p = Some y" "bio_ok x p" "bio_ok y a" by (auto simp: pair_ok_def)
  obtain u where u: "b_buf (bio_ptr x) = Some u" "ring_ok (bio_ptr x) u" using xy(4) by (auto simp: bio_ok_def)
  define y1 where "y1 = BIO_clear_retry_flags y"
  define b where "b = (bio_ptr x)\<lparr>b_request := 0\<rparr>"
  have y: "bio_init y" "b_peer (bio_ptr y) = Some a" using xy(5) by (simp_all add: bio_ok_def)
  have c: "c = chan_of (bio_ptr x)" using assms(3) xy(2) by (simp add: chan_at_def)
  have q: "queued c = ring b u" "length (queued c) = b_len b" "shut c = b_closed b" "capacity c = b_size b"
    using u length_ring [of "bio_ptr x" u] by (simp_all add: c chan_of_def b_def ring_def)
  have put: "put_b a b' (h(p \<mapsto> z)) = h(p \<mapsto> z, a \<mapsto> x\<lparr>bio_ptr := b'\<rparr>)" for b' z
    using xy by (simp add: put_b_def)
  have frame: "bio_frame h a p (h(p \<mapsto> z, a \<mapsto> x\<lparr>bio_ptr := b'\<rparr>))"
    if "bio_ptr z = bio_ptr y" "bio_init z" "bio_references z = bio_references y" "b_peer b' = Some p" "b_buf b' = Some u" "ring_ok b' u" "ring_tidy b'"
    for z b'
    using that xy by (auto simp: bio_frame_def pair_ok_def bio_ok_def)
  have bp: "b_peer b = Some p" "b_buf b = Some u" "ring_ok b u" "ring_tidy b" "b_request b = 0"
    using xy(4) u by (simp_all add: b_def bio_ok_def ring_tidy_def)
  have rd: "bio_read h p True n =
      (if b_len b = 0 then
         if b_closed b then Some (0, [], h(p \<mapsto> y1, a \<mapsto> x\<lparr>bio_ptr := b\<rparr>))
         else Some (- 1, [], h(p \<mapsto> BIO_set_retry_read y1,
                               a \<mapsto> x\<lparr>bio_ptr := b\<lparr>b_request := (if n \<le> b_size b then n else b_size b)\<rparr>\<rparr>))
       else do {
         let len = (if b_len b < n then b_len b else n);
         (out, b) \<leftarrow> bio_read_loop u b len [];
         Some (int len, out, h(p \<mapsto> y1, a \<mapsto> x\<lparr>bio_ptr := b\<rparr>))
       })"
    using xy(1-3) y assms(2) u(1) by (simp add: bio_read_def y1_def b_def put Let_def)
  show ?thesis
  proof (cases "b_len b = 0")
    case True
    with q have "queued c = []" by simp
    then have r: "r = (if b_closed b then 0 else - 1)" "out = []" "c' = c" using assms(4) q(3) by (auto simp: chan_read_def)
    show ?thesis
    proof (cases "b_closed b")
      case cl: True
      have "bio_read h p True n = Some (0, [], h(p \<mapsto> y1, a \<mapsto> x\<lparr>bio_ptr := b\<rparr>))"
        unfolding rd using True cl by simp
      moreover have "bio_frame h a p (h(p \<mapsto> y1, a \<mapsto> x\<lparr>bio_ptr := b\<rparr>))"
        by (rule frame) (use y bp in \<open>simp_all add: y1_def\<close>)
      ultimately show ?thesis using r cl xy(1-3) c by (simp add: chan_at_def y1_def b_def read_flags_def no_retry)
    next
      case cl: False
      define b2 where "b2 = b\<lparr>b_request := (if n \<le> b_size b then n else b_size b)\<rparr>"
      define y2 where "y2 = BIO_set_retry_read y1"
      have "bio_read h p True n = Some (- 1, [], h(p \<mapsto> y2, a \<mapsto> x\<lparr>bio_ptr := b2\<rparr>))"
        unfolding rd y2_def b2_def using True cl by simp
      moreover have "bio_frame h a p (h(p \<mapsto> y2, a \<mapsto> x\<lparr>bio_ptr := b2\<rparr>))"
        by (rule frame) (use y bp True in \<open>simp_all add: y1_def y2_def b2_def ring_tidy_def\<close>)
      moreover have "read_flags (- 1) y2"
        using set_retry_read [of y1] no_retry(3) [of y] by (simp add: read_flags_def y2_def y1_def)
      ultimately show ?thesis using r cl xy(1-3) c by (simp add: chan_at_def y2_def y1_def b_def b2_def)
    qed
  next
    case False
    define m where "m = (if b_len b < n then b_len b else n)"
    have m: "0 < m" "m \<le> b_len b" using False assms(2) by (simp_all add: m_def)
    from bio_read_loop [OF bp(3) m, of "[]"] obtain off where
      off: "bio_read_loop u b m [] = Some (take m (ring b u), b\<lparr>b_len := b_len b - m, b_offset := off\<rparr>)" "off < b_size b"
        "ring (b\<lparr>b_len := b_len b - m, b_offset := off\<rparr>) u = drop m (ring b u)" "b_len b = m \<longrightarrow> off = 0" by auto
    define b2 where "b2 = b\<lparr>b_len := b_len b - m, b_offset := off\<rparr>"
    have "m = min n (length (queued c))" "queued c \<noteq> []" using q(2) False by (auto simp: m_def min_def)
    then have r: "r = int m" "out = take m (ring b u)" "c' = c\<lparr>queued := drop m (ring b u)\<rparr>"
      using assms(4) q(1) by (auto simp: chan_read_def min_def)
    have "bio_read h p True n = Some (int m, take m (ring b u), h(p \<mapsto> y1, a \<mapsto> x\<lparr>bio_ptr := b2\<rparr>))"
      unfolding rd Let_def m_def [symmetric] using False off(1) by (simp add: b2_def)
    moreover have "bio_frame h a p (h(p \<mapsto> y1, a \<mapsto> x\<lparr>bio_ptr := b2\<rparr>))"
      by (rule frame) (use y bp m off(2,4) in \<open>auto simp: y1_def b2_def ring_ok_def ring_tidy_def\<close>)
    moreover have "chan_of b2 = c'"
      using off(3) bp q by (simp add: r(3) b2_def chan_of_def)
    ultimately show ?thesis using r m xy(1-3) by (simp add: chan_at_def y1_def read_flags_def no_retry)
  qed
qed

lemma bio_write_pair:
  assumes "pair_ok h a p" "d \<noteq> []" "chan_at h a = Some c" "chan_write d c = (r, c')"
  shows "\<exists>h'. bio_write h a (Some d) = Some (r, h') \<and> bio_frame h a p h' \<and> chan_at h' a = Some c' \<and> chan_at h' p = chan_at h p"
proof -
  from assms(1) obtain x y where xy: "a \<noteq> p" "h a = Some x" "h p = Some y" "bio_ok x p" "bio_ok y a" by (auto simp: pair_ok_def)
  obtain u where u: "b_buf (bio_ptr x) = Some u" "ring_ok (bio_ptr x) u" using xy(4) by (auto simp: bio_ok_def)
  define x1 where "x1 = BIO_clear_retry_flags x"
  define b where "b = (bio_ptr x)\<lparr>b_request := 0\<rparr>"
  have x: "bio_init x" using xy(4) by (simp add: bio_ok_def)
  have c: "c = chan_of (bio_ptr x)" using assms(3) xy(2) by (simp add: chan_at_def)
  have bp: "b_peer b = Some p" "b_buf b = Some u" "ring_ok b u" "ring_tidy b" "b_request b = 0"
    using xy(4) u by (simp_all add: b_def bio_ok_def ring_tidy_def)
  have q: "queued c = ring b u" "length (queued c) = b_len b" "shut c = b_closed b" "capacity c = b_size b"
    using u length_ring [of "bio_ptr x" u] by (simp_all add: c chan_of_def b_def ring_def)
  have put: "put_b a b' (h(a \<mapsto> z)) = h(a \<mapsto> z\<lparr>bio_ptr := b'\<rparr>)" for b' z
    by (simp add: put_b_def)
  have frame: "bio_frame h a p (h(a \<mapsto> z))"
    if "bio_init z" "bio_references z = bio_references x" "b_peer (bio_ptr z) = Some p" "b_buf (bio_ptr z) = Some v" "ring_ok (bio_ptr z) v" "ring_tidy (bio_ptr z)"
    for z v
    using that xy by (auto simp: bio_frame_def pair_ok_def bio_ok_def)
  have w: "bio_write h a (Some d) =
      (if b_closed b then Some (- 1, h(a \<mapsto> x1\<lparr>bio_ptr := b\<rparr>))
       else if b_len b = b_size b then Some (- 1, h(a \<mapsto> BIO_set_retry_write (x1\<lparr>bio_ptr := b\<rparr>)))
       else do {
         let num = (if length d > b_size b - b_len b then b_size b - b_len b else length d);
         (buf, b) \<leftarrow> bio_write_loop u b num d;
         Some (int num, h(a \<mapsto> x1\<lparr>bio_ptr := b\<lparr>b_buf := Some buf\<rparr>\<rparr>))
       })"
    using xy(2) x assms(2) u(1) by (simp add: bio_write_def x1_def b_def put Let_def)
  define n where "n = min (length d) (capacity c - length (queued c))"
  have cw: "(r, c') = (if shut c \<or> n = 0 then (- 1, c) else (int n, c\<lparr>queued := queued c @ take n d\<rparr>))"
    using assms(4) unfolding chan_write_def Let_def n_def by (rule sym)
  have le: "b_len b \<le> b_size b" using bp(3) by (simp add: ring_ok_def)
  show ?thesis
  proof (cases "b_closed b \<or> b_len b = b_size b")
    case True
    then have "shut c \<or> n = 0" using q by (auto simp: n_def)
    then have r: "r = - 1" "c' = c" using cw by simp_all
    define z where "z = (if b_closed b then x1\<lparr>bio_ptr := b\<rparr> else BIO_set_retry_write (x1\<lparr>bio_ptr := b\<rparr>))"
    have z: "bio_ptr z = b" "bio_init z" "bio_references z = bio_references x" using x by (simp_all add: z_def x1_def)
    have "bio_write h a (Some d) = Some (- 1, h(a \<mapsto> z))" unfolding w z_def using True by (cases "b_closed b") simp_all
    moreover have "bio_frame h a p (h(a \<mapsto> z))" by (rule frame [where v = u]) (use z bp in simp_all)
    moreover have "chan_of b = c" by (simp add: c b_def)
    ultimately show ?thesis using r z(1) xy(1) by (simp add: chan_at_def)
  next
    case False
    have n: "0 < n" "n \<le> b_size b - b_len b" "n \<le> length d" using False le q assms(2) by (auto simp: n_def)
    have num: "(if length d > b_size b - b_len b then b_size b - b_len b else length d) = n" using q by (simp add: n_def)
    from bio_write_loop [OF bp(3) n] obtain v where
      v: "bio_write_loop u b n d = Some (v, b\<lparr>b_len := b_len b + n\<rparr>)" "length v = length u"
        "ring (b\<lparr>b_len := b_len b + n\<rparr>) v = ring b u @ take n d" by blast
    define b2 where "b2 = b\<lparr>b_len := b_len b + n, b_buf := Some v\<rparr>"
    have "bio_write h a (Some d) = Some (int n, h(a \<mapsto> x1\<lparr>bio_ptr := b2\<rparr>))"
      unfolding w num using False v(1) by (simp add: b2_def)
    moreover have "bio_frame h a p (h(a \<mapsto> x1\<lparr>bio_ptr := b2\<rparr>))"
      by (rule frame [where v = v]) (use bp n v(2) x in \<open>simp_all add: x1_def b2_def ring_ok_def ring_tidy_def\<close>)
    moreover have "r = int n" "chan_of b2 = c'"
      using cw False n q v(3) by (auto simp: b2_def chan_of_def ring_def)
    ultimately show ?thesis using xy(1) by (simp add: chan_at_def)
  qed
qed

lemma bio_frame_count:
  assumes "bio_frame h a p h1" "h1 e = Some x" "e = a \<or> e = p"
  shows "bio_frame h a p (h1(e \<mapsto> x\<lparr>bio_num_read := k\<rparr>))" "bio_frame h a p (h1(e \<mapsto> x\<lparr>bio_num_write := k\<rparr>))"
    "chan_at (h1(e \<mapsto> x\<lparr>bio_num_read := k\<rparr>)) = chan_at h1" "chan_at (h1(e \<mapsto> x\<lparr>bio_num_write := k\<rparr>)) = chan_at h1"
  using assms by (auto simp: bio_frame_def pair_ok_def bio_ok_def chan_at_def fun_eq_iff)

lemma bio_frame_refl: "pair_ok h a p \<Longrightarrow> bio_frame h a p h"
  by (simp add: bio_frame_def)

lemma bio_frame_sym: "bio_frame h a p h' \<Longrightarrow> bio_frame h p a h'"
  by (auto simp: bio_frame_def pair_ok_sym)

text \<open>The public operations on one end of a pair are the operations of the channels.\<close>

lemma BIO_read_pair:
  assumes "pair_ok h a p" "0 < n" "chan_at h a = Some c" "chan_read n c = (r, out, c')"
  shows "\<exists>h'. BIO_read h (Some p) True (int n) = Some (r, out, h') \<and> bio_frame h a p h' \<and> chan_at h' a = Some c' \<and>
    chan_at h' p = chan_at h p \<and> (\<exists>y. h' p = Some y \<and> read_flags r y)"
proof -
  from bio_read_pair [OF assms] obtain h1 where
    h1: "bio_read h p True n = Some (r, out, h1)" "bio_frame h a p h1" "chan_at h1 a = Some c'" "chan_at h1 p = chan_at h p"
      "\<exists>y. h1 p = Some y \<and> read_flags r y" by blast
  from h1(5) obtain y where y: "h1 p = Some y" "read_flags r y" by blast
  from assms(1) obtain y0 where y0: "h p = Some y0" "bio_init y0" by (auto simp: pair_ok_def bio_ok_def)
  define h2 where "h2 = (if r > 0 then h1(p \<mapsto> y\<lparr>bio_num_read := size_add (bio_num_read y) (nat r)\<rparr>) else h1)"
  have "BIO_read h (Some p) True (int n) = Some (r, out, h2)"
    using y0 assms(2) h1(1) y(1) by (simp add: BIO_read_def h2_def)
  moreover have "bio_frame h a p h2 \<and> chan_at h2 = chan_at h1"
    using h1(2) bio_frame_count [OF h1(2) y(1)] by (simp add: h2_def)
  moreover have "read_flags r (y\<lparr>bio_num_read := m\<rparr>)" for m
    using y(2) by (simp add: read_flags_def BIO_should_retry_def BIO_should_read_def BIO_should_write_def BIO_test_flags_def)
  then have "\<exists>z. h2 p = Some z \<and> read_flags r z" using y by (simp add: h2_def)
  ultimately show ?thesis using h1(3,4) by auto
qed

lemma BIO_write_pair:
  assumes "pair_ok h a p" "d \<noteq> []" "chan_at h a = Some c" "chan_write d c = (r, c')"
  shows "\<exists>h'. BIO_write h (Some a) (Some d) (int (length d)) = Some (r, h') \<and> bio_frame h a p h' \<and> chan_at h' a = Some c' \<and>
    chan_at h' p = chan_at h p"
proof -
  from bio_write_pair [OF assms] obtain h1 where
    h1: "bio_write h a (Some d) = Some (r, h1)" "bio_frame h a p h1" "chan_at h1 a = Some c'" "chan_at h1 p = chan_at h p" by blast
  from h1(2) obtain x where x: "h1 a = Some x" by (auto simp: bio_frame_def pair_ok_def)
  from assms(1) obtain x0 where x0: "h a = Some x0" "bio_init x0" by (auto simp: pair_ok_def bio_ok_def)
  define h2 where "h2 = (if r > 0 then h1(a \<mapsto> x\<lparr>bio_num_write := size_add (bio_num_write x) (nat r)\<rparr>) else h1)"
  have "BIO_write h (Some a) (Some d) (int (length d)) = Some (r, h2)"
    using x0 assms(2) h1(1) x by (simp add: BIO_write_def h2_def)
  moreover have "bio_frame h a p h2 \<and> chan_at h2 = chan_at h1"
    using h1(2) bio_frame_count [OF h1(2) x] by (simp add: h2_def)
  ultimately show ?thesis using h1(3,4) by auto
qed

lemma BIO_ctrl_pair:
  assumes "pair_ok h a p" "BIO_ctrl h (Some a) cmd num ptr = Some (r, h')"
  shows "bio_frame h a p h' \<and> chan_at h' p = chan_at h p \<and>
    chan_at h' a = (if cmd = BIO_C_SHUTDOWN_WR then map_option (\<lambda>c. c\<lparr>shut := True\<rparr>) (chan_at h a) else chan_at h a)"
proof -
  from assms(1) obtain x y where xy: "a \<noteq> p" "h a = Some x" "h p = Some y" "bio_ok x p" "bio_ok y a" by (auto simp: pair_ok_def)
  have same: "bio_frame h a p h \<and> chan_at h p = chan_at h p \<and> chan_at h a = chan_at h a" using assms(1) by (simp add: bio_frame_refl)
  show ?thesis
  proof (cases cmd)
    case BIO_C_RESET_READ_REQUEST
    then show ?thesis using assms(2) xy
      by (auto simp: BIO_ctrl_def put_b_def bio_frame_def pair_ok_def bio_ok_def ring_tidy_def chan_at_def)
  next
    case BIO_C_SHUTDOWN_WR
    then show ?thesis using assms(2) xy
      by (auto simp: BIO_ctrl_def put_b_def bio_frame_def pair_ok_def bio_ok_def ring_tidy_def chan_at_def)
  next
    case BIO_CTRL_SET_CLOSE
    then show ?thesis using assms(2) xy
      by (auto simp: BIO_ctrl_def bio_frame_def pair_ok_def bio_ok_def ring_tidy_def chan_at_def)
  qed (use assms(2) same xy in \<open>auto simp: BIO_ctrl_def bind_eq_Some_conv Let_def split: option.splits\<close>)
qed

section \<open>Runs\<close>

text \<open>What happens to a pair: a write of some data with its result, a read of at most so many bytes with its result and the
  bytes, and a control operation, shutting among them.\<close>

datatype pair_event =
    Wrote nat "byte list" int
  | Got nat nat int "byte list"
  | Asked nat bio_cmd int

inductive pair_step :: "nat set \<Rightarrow> bio_heap \<Rightarrow> pair_event \<Rightarrow> bio_heap \<Rightarrow> bool" for ends where
  do_write: "e \<in> ends \<Longrightarrow> BIO_write h (Some e) (Some d) (int (length d)) = Some (r, h') \<Longrightarrow> pair_step ends h (Wrote e d r) h'"
| do_read: "e \<in> ends \<Longrightarrow> BIO_read h (Some e) True (int n) = Some (r, out, h') \<Longrightarrow> pair_step ends h (Got e n r out) h'"
| do_ctrl: "e \<in> ends \<Longrightarrow> BIO_ctrl h (Some e) cmd num ptr = Some (r, h') \<Longrightarrow> pair_step ends h (Asked e cmd r) h'"

inductive pair_run :: "nat set \<Rightarrow> bio_heap \<Rightarrow> pair_event list \<Rightarrow> bio_heap \<Rightarrow> bool" for ends where
  start: "pair_run ends h [] h"
| step: "pair_run ends h es h' \<Longrightarrow> pair_step ends h' ev h'' \<Longrightarrow> pair_run ends h (es @ [ev]) h''"

inductive_cases pair_stepE: "pair_step ends h ev h'"

text \<open>The bytes an end has accepted and the bytes it has handed out, and whether it has been shut.\<close>

fun accepted :: "nat \<Rightarrow> pair_event \<Rightarrow> byte list" where
  "accepted a (Wrote e d r) = (if e = a then take (nat r) d else [])"
| "accepted a _ = []"

fun delivered :: "nat \<Rightarrow> pair_event \<Rightarrow> byte list" where
  "delivered a (Got e n r out) = (if e = a then out else [])"
| "delivered a _ = []"

definition was_shut :: "nat \<Rightarrow> pair_event list \<Rightarrow> bool" where
  "was_shut a es \<longleftrightarrow> (\<exists>r. Asked a BIO_C_SHUTDOWN_WR r \<in> set es)"

definition chan_history :: "nat \<Rightarrow> nat \<Rightarrow> pair_event list \<Rightarrow> nat \<Rightarrow> chan \<Rightarrow> bool" where
  "chan_history a p es n c \<longleftrightarrow> concat (map (delivered p) es) @ queued c = concat (map (accepted a) es) \<and>
     length (queued c) \<le> capacity c \<and> capacity c = n \<and> (shut c \<longleftrightarrow> was_shut a es)"

definition pair_inv :: "nat \<Rightarrow> nat \<Rightarrow> pair_event list \<Rightarrow> nat \<Rightarrow> nat \<Rightarrow> bio_heap \<Rightarrow> bool" where
  "pair_inv a p es n m h \<longleftrightarrow> pair_ok h a p \<and> (\<exists>c. chan_at h a = Some c \<and> chan_history a p es n c) \<and>
     (\<exists>c. chan_at h p = Some c \<and> chan_history p a es m c)"

lemma pair_inv_sym: "pair_inv a p es n m h \<Longrightarrow> pair_inv p a es m n h"
  by (auto simp: pair_inv_def pair_ok_sym)

lemma pair_inv_write:
  assumes "pair_inv a p es n m h" "BIO_write h (Some a) (Some d) (int (length d)) = Some (r, h')"
  shows "pair_inv a p (es @ [Wrote a d r]) n m h'"
proof -
  from assms(1) obtain c c2 where i: "pair_ok h a p" "chan_at h a = Some c" "chan_history a p es n c" "chan_at h p = Some c2"
    "chan_history p a es m c2" by (auto simp: pair_inv_def)
  have ap: "a \<noteq> p" using i(1) by (simp add: pair_ok_def)
  show ?thesis
  proof (cases "d = []")
    case True
    from i(1) obtain x where "h a = Some x" "bio_init x" by (auto simp: pair_ok_def bio_ok_def)
    with assms(2) True have "h' = h" by (simp add: BIO_write_def)
    then show ?thesis using i ap True by (simp add: pair_inv_def chan_history_def was_shut_def)
  next
    case False
    obtain r1 c1 where w: "chan_write d c = (r1, c1)" by force
    from BIO_write_pair [OF i(1) False i(2) w] assms(2) have
      h': "r1 = r" "bio_frame h a p h'" "chan_at h' a = Some c1" "chan_at h' p = Some c2" using i(4) by auto
    have "length (queued c) \<le> capacity c" using i(3) by (simp add: chan_history_def)
    then have "queued c1 = queued c @ take (nat r) d \<and> length (queued c1) \<le> capacity c1 \<and> capacity c1 = capacity c \<and> shut c1 = shut c"
      using w h'(1) by (auto simp: chan_write_def Let_def split: if_splits)
    with i(3) have "concat (map (delivered p) es) @ queued c1 = concat (map (accepted a) es) @ take (nat r) d \<and>
      length (queued c1) \<le> capacity c1 \<and> capacity c1 = n \<and> shut c1 = was_shut a es"
      unfolding chan_history_def by (metis append_assoc)
    then have "chan_history a p (es @ [Wrote a d r]) n c1" by (simp add: chan_history_def was_shut_def)
    moreover have "chan_history p a (es @ [Wrote a d r]) m c2" using i(5) ap by (simp add: chan_history_def was_shut_def)
    ultimately show ?thesis using h' by (simp add: pair_inv_def bio_frame_def)
  qed
qed

lemma pair_inv_read:
  assumes "pair_inv a p es n m h" "BIO_read h (Some p) True (int k) = Some (r, out, h')"
  shows "pair_inv a p (es @ [Got p k r out]) n m h'"
proof -
  from assms(1) obtain c c2 where i: "pair_ok h a p" "chan_at h a = Some c" "chan_history a p es n c" "chan_at h p = Some c2"
    "chan_history p a es m c2" by (auto simp: pair_inv_def)
  have ap: "a \<noteq> p" using i(1) by (simp add: pair_ok_def)
  show ?thesis
  proof (cases "k = 0")
    case True
    from i(1) obtain x where "h p = Some x" "bio_init x" by (auto simp: pair_ok_def bio_ok_def)
    with assms(2) True have "h' = h" "out = []" by (simp_all add: BIO_read_def)
    then show ?thesis using i ap by (simp add: pair_inv_def chan_history_def was_shut_def)
  next
    case False
    then have k: "0 < k" by simp
    obtain r1 o1 c1 where w: "chan_read k c = (r1, o1, c1)" by (cases "chan_read k c") auto
    from BIO_read_pair [OF i(1) k i(2) w] assms(2) have
      h': "o1 = out" "bio_frame h a p h'" "chan_at h' a = Some c1" "chan_at h' p = Some c2" using i(4) by auto
    have "out @ queued c1 = queued c \<and> length (queued c1) \<le> length (queued c) \<and> capacity c1 = capacity c \<and> shut c1 = shut c"
      using w h'(1) by (auto simp: chan_read_def split: if_splits)
    then have "chan_history a p (es @ [Got p k r out]) n c1"
      using i(3) ap by (auto simp: chan_history_def was_shut_def)
    moreover have "chan_history p a (es @ [Got p k r out]) m c2" using i(5) ap by (simp add: chan_history_def was_shut_def)
    ultimately show ?thesis using h' by (simp add: pair_inv_def bio_frame_def)
  qed
qed

lemma pair_inv_ctrl:
  assumes "pair_inv a p es n m h" "BIO_ctrl h (Some a) cmd num ptr = Some (r, h')"
  shows "pair_inv a p (es @ [Asked a cmd r]) n m h'"
proof -
  from assms(1) obtain c c2 where i: "pair_ok h a p" "chan_at h a = Some c" "chan_history a p es n c" "chan_at h p = Some c2"
    "chan_history p a es m c2" by (auto simp: pair_inv_def)
  have ap: "a \<noteq> p" using i(1) by (simp add: pair_ok_def)
  note k = BIO_ctrl_pair [OF i(1) assms(2)]
  have "chan_history p a (es @ [Asked a cmd r]) m c2" using i(5) ap by (auto simp: chan_history_def was_shut_def)
  moreover have "chan_history a p (es @ [Asked a cmd r]) n (if cmd = BIO_C_SHUTDOWN_WR then c\<lparr>shut := True\<rparr> else c)"
    using i(3) by (auto simp: chan_history_def was_shut_def)
  ultimately show ?thesis using k i(2,4) by (auto simp: pair_inv_def bio_frame_def split: if_splits)
qed

lemma pair_inv_step:
  assumes "pair_inv a p es n m h" "pair_step {a, p} h ev h'"
  shows "pair_inv a p (es @ [ev]) n m h'"
  using assms(2)
proof (cases rule: pair_step.cases)
  case (do_write e d r)
  then show ?thesis
    using pair_inv_write [OF assms(1)] pair_inv_sym [OF pair_inv_write [OF pair_inv_sym [OF assms(1)]]] by auto
next
  case (do_read e k r out)
  then show ?thesis
    using pair_inv_read [OF assms(1)] pair_inv_sym [OF pair_inv_read [OF pair_inv_sym [OF assms(1)]]] by auto
next
  case (do_ctrl e cmd num ptr r)
  then show ?thesis
    using pair_inv_ctrl [OF assms(1)] pair_inv_sym [OF pair_inv_ctrl [OF pair_inv_sym [OF assms(1)]]] by auto
qed

lemma pair_inv_run:
  "pair_run {a, p} h es h' \<Longrightarrow> pair_inv a p [] n m h \<Longrightarrow> pair_inv a p es n m h'"
  by (induction rule: pair_run.induct) (auto intro: pair_inv_step)

section \<open>All BIOs of a program\<close>

text \<open>A BIO without a peer is not initialised and holds nothing.\<close>

definition bio_alone :: "BIO \<Rightarrow> bool" where
  "bio_alone x \<longleftrightarrow> \<not> bio_init x \<and> b_peer (bio_ptr x) = None \<and> b_len (bio_ptr x) = 0 \<and> b_offset (bio_ptr x) = 0"

text \<open>Every living BIO has a reference, and stands alone or in a pair with a living BIO which points back.\<close>

definition bio_heap_ok :: "bio_heap \<Rightarrow> bool" where
  "bio_heap_ok h \<longleftrightarrow> (\<forall>a x. h a = Some x \<longrightarrow> bio_references x \<noteq> 0 \<and>
     (b_peer (bio_ptr x) = None \<longrightarrow> bio_alone x) \<and> (\<forall>p. b_peer (bio_ptr x) = Some p \<longrightarrow> pair_ok h a p))"

lemma bio_heap_ok_peer:
  assumes "bio_heap_ok h" "h a = Some x"
  shows "bio_references x \<noteq> 0"
    and "b_peer (bio_ptr x) = None \<Longrightarrow> bio_alone x"
    and "b_peer (bio_ptr x) = Some p \<Longrightarrow> pair_ok h a p"
  using assms by (auto simp: bio_heap_ok_def)

lemma bio_heap_ok_init:
  assumes "bio_heap_ok h" "h a = Some x" "bio_init x"
  obtains p where "b_peer (bio_ptr x) = Some p" "pair_ok h a p"
  using bio_heap_ok_peer [OF assms(1,2)] assms(3) by (cases "b_peer (bio_ptr x)") (auto simp: bio_alone_def)

lemma pair_ok_peer: "pair_ok h a p \<Longrightarrow> h a = Some x \<Longrightarrow> b_peer (bio_ptr x) = Some p"
  by (auto simp: pair_ok_def bio_ok_def)

lemma pair_ok_cong: "pair_ok h c q \<Longrightarrow> h' c = h c \<Longrightarrow> h' q = h q \<Longrightarrow> pair_ok h' c q"
  by (simp add: pair_ok_def)

text \<open>The pair of another BIO does not involve the ends of this one.\<close>

lemma pair_ok_apart:
  assumes "pair_ok h a p" "pair_ok h c q" "c \<noteq> a" "c \<noteq> p"
  shows "q \<noteq> a" "q \<noteq> p"
  using assms by (auto simp: pair_ok_def bio_ok_def)

lemma bio_heap_ok_frame:
  assumes "bio_heap_ok h" "pair_ok h a p" "bio_frame h a p h'"
  shows "bio_heap_ok h'"
  unfolding bio_heap_ok_def
proof (intro allI impI)
  fix c x assume c: "h' c = Some x"
  have p: "pair_ok h' a p" "pair_ok h' p a" using assms(3) by (simp_all add: bio_frame_def pair_ok_sym)
  show "bio_references x \<noteq> 0 \<and> (b_peer (bio_ptr x) = None \<longrightarrow> bio_alone x) \<and>
    (\<forall>q. b_peer (bio_ptr x) = Some q \<longrightarrow> pair_ok h' c q)"
  proof (cases "c = a \<or> c = p")
    case True
    then have "h c \<noteq> None" using assms(2) by (auto simp: pair_ok_def)
    then obtain y where y: "h c = Some y" by blast
    have "bio_references x = bio_references y" using True assms(3) c y by (auto simp: bio_frame_def)
    moreover have "b_peer (bio_ptr x) = Some (if c = a then p else a)"
      using True pair_ok_peer [OF p(1)] pair_ok_peer [OF p(2)] c by auto
    ultimately show ?thesis using True p bio_heap_ok_peer(1) [OF assms(1) y] by auto
  next
    case False
    then have y: "h c = Some x" using assms(3) c by (simp add: bio_frame_def)
    show ?thesis
    proof (cases "b_peer (bio_ptr x)")
      case None
      then show ?thesis using bio_heap_ok_peer [OF assms(1) y] by simp
    next
      case (Some q)
      then have q: "pair_ok h c q" by (rule bio_heap_ok_peer(3) [OF assms(1) y])
      from pair_ok_apart [OF assms(2) q] False have "q \<noteq> a" "q \<noteq> p" by simp_all
      then have "pair_ok h' c q" using pair_ok_cong [OF q] assms(3) False by (simp add: bio_frame_def)
      then show ?thesis using Some bio_heap_ok_peer(1) [OF assms(1) y] by simp
    qed
  qed
qed

text \<open>A BIO that changes without losing its references, its peer or its buffer.\<close>

lemma bio_heap_ok_upd:
  assumes "bio_heap_ok h" "h a = Some x" "bio_references z \<noteq> 0" "bio_init z = bio_init x" "bio_ptr z = bio_ptr x"
  shows "bio_heap_ok (h(a \<mapsto> z))"
proof -
  have "pair_ok (h(a \<mapsto> z)) c q" if "pair_ok h c q" for c q
    using that assms(2,4,5) by (auto simp: pair_ok_def bio_ok_def)
  then show ?thesis
    using assms by (auto simp: bio_heap_ok_def bio_alone_def)
qed

lemma bio_heap_ok_alone:
  assumes "bio_heap_ok h" "h a = Some x" "bio_alone x" "bio_references z \<noteq> 0" "bio_alone z"
  shows "bio_heap_ok (h(a \<mapsto> z))"
proof -
  have "a \<noteq> c \<and> a \<noteq> q" if "pair_ok h c q" for c q
    using that assms(2,3) by (auto simp: pair_ok_def bio_ok_def bio_alone_def)
  then have "pair_ok (h(a \<mapsto> z)) c q" if "pair_ok h c q" for c q
    using that by (intro pair_ok_cong [OF that]) (metis fun_upd_other)+
  then show ?thesis
    using assms by (auto simp: bio_heap_ok_def bio_alone_def)
qed

text \<open>A BIO is taken away; its peer, if it has one, becomes alone.\<close>

lemma bio_free_ok:
  assumes "bio_heap_ok h" "h a = Some x" "h1 = h(a \<mapsto> x\<lparr>bio_references := k\<rparr>)"
  shows "\<exists>h'. bio_free h1 a = Some h' \<and> bio_heap_ok (h'(a := None)) \<and>
    (\<forall>c. c \<noteq> a \<longrightarrow> b_peer (bio_ptr x) \<noteq> Some c \<longrightarrow> h' c = h c) \<and> dom h' = dom h"
proof (cases "b_peer (bio_ptr x)")
  case None
  have "bio_free h1 a = Some h1" using assms(3) None by (simp add: bio_free_def)
  moreover have "pair_ok (h1(a := None)) c q" if "pair_ok h c q" for c q
  proof -
    have "c \<noteq> a" "q \<noteq> a" using that assms(2) None by (auto simp: pair_ok_def bio_ok_def)
    then show ?thesis using assms(3) by (intro pair_ok_cong [OF that]) simp_all
  qed
  then have "bio_heap_ok (h1(a := None))"
    using assms by (auto simp: bio_heap_ok_def)
  ultimately show ?thesis using assms(2,3) by auto
next
  case (Some p)
  then have pp: "pair_ok h a p" by (rule bio_heap_ok_peer(3) [OF assms(1,2)])
  then obtain y where y: "a \<noteq> p" "h p = Some y" by (auto simp: pair_ok_def)
  define y' where "y' = y\<lparr>bio_init := False, bio_ptr := (bio_ptr y)\<lparr>b_peer := None, b_len := 0, b_offset := 0\<rparr>\<rparr>"
  define x' where "x' = x\<lparr>bio_references := k, bio_init := False, bio_ptr := (bio_ptr x)\<lparr>b_peer := None, b_len := 0, b_offset := 0\<rparr>\<rparr>"
  define h' where "h' = h(p \<mapsto> y', a \<mapsto> x')"
  have "bio_free h1 a = Some h'"
    using assms(2,3) Some y by (simp add: bio_free_def bio_destroy_pair_def h'_def y'_def x'_def fun_upd_twist)
  moreover have "bio_heap_ok (h'(a := None))"
    unfolding bio_heap_ok_def
  proof (intro allI impI)
    fix c z assume c: "(h'(a := None)) c = Some z"
    then have ca: "c \<noteq> a" by auto
    show "bio_references z \<noteq> 0 \<and> (b_peer (bio_ptr z) = None \<longrightarrow> bio_alone z) \<and>
      (\<forall>q. b_peer (bio_ptr z) = Some q \<longrightarrow> pair_ok (h'(a := None)) c q)"
    proof (cases "c = p")
      case True
      then have "z = y'" using c y by (simp add: h'_def)
      then show ?thesis using bio_heap_ok_peer(1) [OF assms(1) y(2)] by (simp add: y'_def bio_alone_def)
    next
      case False
      then have z: "h c = Some z" using c ca by (simp add: h'_def)
      have "pair_ok (h'(a := None)) c q" if "b_peer (bio_ptr z) = Some q" for q
      proof -
        have q: "pair_ok h c q" by (rule bio_heap_ok_peer(3) [OF assms(1) z that])
        from pair_ok_apart [OF pp q ca False] show ?thesis
          using ca False by (intro pair_ok_cong [OF q]) (simp_all add: h'_def)
      qed
      then show ?thesis using bio_heap_ok_peer(1,2) [OF assms(1) z] by (simp split: option.split)
    qed
  qed
  ultimately show ?thesis using Some assms(2) y by (auto simp: h'_def)
qed

lemma bio_frame_dom: "bio_frame h a p h' \<Longrightarrow> dom h' = dom h"
proof -
  assume "bio_frame h a p h'"
  then have "h' c = None \<longleftrightarrow> h c = None" for c
    by (cases "c = a \<or> c = p") (auto simp: bio_frame_def dest: arg_cong [where f = "\<lambda>x. x = None"])
  then show ?thesis by (auto simp: dom_def)
qed

text \<open>Every operation on a living BIO goes through, and keeps the heap well formed.\<close>

lemma bio_read_null:
  assumes "pair_ok h a p"
  shows "\<exists>h'. bio_read h p False n = Some (0, [], h') \<and> bio_frame h a p h'"
proof -
  from assms obtain x y where xy: "a \<noteq> p" "h a = Some x" "h p = Some y" "bio_ok x p" "bio_ok y a" by (auto simp: pair_ok_def)
  define h' where "h' = h(p \<mapsto> BIO_clear_retry_flags y, a \<mapsto> x\<lparr>bio_ptr := (bio_ptr x)\<lparr>b_request := 0\<rparr>\<rparr>)"
  have "bio_read h p False n = Some (0, [], h')"
    using xy by (simp add: bio_read_def bio_ok_def put_b_def h'_def)
  moreover have "bio_frame h a p h'"
    using xy by (auto simp: h'_def bio_frame_def pair_ok_def bio_ok_def ring_tidy_def)
  ultimately show ?thesis by blast
qed

lemma BIO_read_ok:
  assumes "bio_heap_ok h" "e \<in> dom h"
  shows "\<exists>r out h'. BIO_read h (Some e) room len = Some (r, out, h') \<and> bio_heap_ok h' \<and> dom h' = dom h"
proof -
  from assms(2) obtain x where x: "h e = Some x" by blast
  show ?thesis
  proof (cases "bio_init x \<and> 0 < len")
    case False
    then show ?thesis using x assms(1) by (auto simp: BIO_read_def)
  next
    case True
    then obtain p where p: "pair_ok h e p" using bio_heap_ok_init [OF assms(1) x] by metis
    then have q: "pair_ok h p e" by (rule pair_ok_sym)
    from p obtain y where "h p = Some y" by (auto simp: pair_ok_def)
    then obtain c where c: "chan_at h p = Some c" by (simp add: chan_at_def)
    have "\<exists>r out h'. BIO_read h (Some e) room len = Some (r, out, h') \<and> bio_frame h p e h'"
    proof (cases room)
      case room: True
      obtain r out c' where "chan_read (nat len) c = (r, out, c')" by (cases "chan_read (nat len) c") auto
      from BIO_read_pair [OF q _ c this] True room show ?thesis by auto
    next
      case room: False
      from bio_read_null [OF q] obtain h' where h': "bio_read h e False (nat len) = Some (0, [], h')" "bio_frame h p e h'" by blast
      then obtain z where "h' e = Some z" by (auto simp: bio_frame_def pair_ok_def)
      with h' True x room show ?thesis by (simp add: BIO_read_def)
    qed
    then show ?thesis using bio_heap_ok_frame [OF assms(1) q] bio_frame_dom by metis
  qed
qed

lemma BIO_write_take:
  assumes "inl \<le> int (length d)"
  shows "BIO_write h bio (Some d) inl = BIO_write h bio (Some (take (nat inl) d)) (int (length (take (nat inl) d)))"
proof (cases "0 \<le> inl")
  case True
  then have e: "int (length (take (nat inl) d)) = inl" using assms by simp
  have "map_option (take (nat inl)) (Some (take (nat inl) d)) = map_option (take (nat inl)) (Some d)" by simp
  then show ?thesis unfolding e BIO_write_def by presburger
next
  case False
  then show ?thesis by (cases bio) (simp_all add: BIO_write_def)
qed

lemma BIO_write_ok:
  assumes "bio_heap_ok h" "e \<in> dom h" "\<And>d. data = Some d \<Longrightarrow> inl \<le> int (length d)"
  shows "\<exists>r h'. BIO_write h (Some e) data inl = Some (r, h') \<and> bio_heap_ok h' \<and> dom h' = dom h"
proof -
  from assms(2) obtain x where x: "h e = Some x" by blast
  show ?thesis
  proof (cases "bio_init x \<and> 0 < inl")
    case False
    then show ?thesis using x assms(1) by (auto simp: BIO_write_def)
  next
    case True
    then obtain p where p: "pair_ok h e p" using bio_heap_ok_init [OF assms(1) x] by metis
    obtain c where c: "chan_at h e = Some c" using x by (simp add: chan_at_def)
    show ?thesis
    proof (cases data)
      case None
      define h' where "h' = h(e \<mapsto> BIO_clear_retry_flags x)"
      have "BIO_write h (Some e) data inl = Some (0, h')"
        using x True None by (simp add: BIO_write_def bio_write_def h'_def)
      moreover have "bio_heap_ok h'"
        unfolding h'_def by (rule bio_heap_ok_upd [OF assms(1) x]) (simp_all add: bio_heap_ok_peer [OF assms(1) x])
      ultimately show ?thesis using x by (auto simp: h'_def)
    next
      case (Some d)
      define d' where "d' = take (nat inl) d"
      have le: "inl \<le> int (length d)" by (rule assms(3) [OF Some])
      then have d': "d' \<noteq> []" using True by (auto simp: d'_def)
      obtain r c' where "chan_write d' c = (r, c')" by force
      from BIO_write_pair [OF p d' c this] obtain h' where
        h': "BIO_write h (Some e) (Some d') (int (length d')) = Some (r, h')" "bio_frame h e p h'" by blast
      have "BIO_write h (Some e) data inl = Some (r, h')"
        using h'(1) BIO_write_take [OF le, of h "Some e"] unfolding Some d'_def by simp
      then show ?thesis using bio_heap_ok_frame [OF assms(1) p h'(2)] bio_frame_dom [OF h'(2)] by blast
    qed
  qed
qed

lemma BIO_ctrl_returns:
  assumes "bio_heap_ok h" "e \<in> dom h" "\<And>a. ptr = Some a \<Longrightarrow> a \<in> dom h"
  shows "\<exists>r h'. BIO_ctrl h (Some e) cmd num ptr = Some (r, h')"
proof -
  from assms(2) obtain x where x: "h e = Some x" by blast
  have peer: "\<exists>y. h p = Some y" if "b_peer (bio_ptr x) = Some p" for p
    using bio_heap_ok_peer(3) [OF assms(1) x that] by (auto simp: pair_ok_def)
  show ?thesis
  proof (cases cmd)
    case BIO_CTRL_PENDING
    then show ?thesis using x peer by (cases "b_peer (bio_ptr x)") (auto simp: BIO_ctrl_def)
  next
    case BIO_CTRL_EOF
    then show ?thesis using x assms(3) by (cases ptr) (auto simp: BIO_ctrl_def)
  qed (use x in \<open>simp_all add: BIO_ctrl_def Let_def\<close>)
qed

lemma BIO_ctrl_alone:
  assumes "h e = Some x" "bio_alone x" "BIO_ctrl h (Some e) cmd num ptr = Some (r, h')"
  shows "h' = h \<or> (\<exists>z. h' = h(e \<mapsto> z) \<and> bio_references z = bio_references x \<and> bio_alone z)"
  using assms
  by (cases cmd) (auto simp: BIO_ctrl_def put_b_def bio_alone_def Let_def bind_eq_Some_conv split: option.splits)

lemma BIO_ctrl_ok:
  assumes "bio_heap_ok h" "e \<in> dom h" "\<And>a. ptr = Some a \<Longrightarrow> a \<in> dom h"
  shows "\<exists>r h'. BIO_ctrl h (Some e) cmd num ptr = Some (r, h') \<and> bio_heap_ok h' \<and> dom h' = dom h"
proof -
  from assms(2) obtain x where x: "h e = Some x" by blast
  obtain r h' where r: "BIO_ctrl h (Some e) cmd num ptr = Some (r, h')" using BIO_ctrl_returns [OF assms] by blast
  have "bio_heap_ok h' \<and> dom h' = dom h"
  proof (cases "b_peer (bio_ptr x)")
    case None
    then have a: "bio_alone x" by (rule bio_heap_ok_peer(2) [OF assms(1) x])
    from BIO_ctrl_alone [OF x a r] show ?thesis
      using bio_heap_ok_alone [OF assms(1) x a] bio_heap_ok_peer(1) [OF assms(1) x] assms(1) x by (auto split: if_splits)
  next
    case (Some p)
    then have p: "pair_ok h e p" by (rule bio_heap_ok_peer(3) [OF assms(1) x])
    from BIO_ctrl_pair [OF p r] have "bio_frame h e p h'" by simp
    then show ?thesis using bio_heap_ok_frame [OF assms(1) p] bio_frame_dom by blast
  qed
  with r show ?thesis by blast
qed

lemma BIO_up_ref_ok:
  assumes "bio_heap_ok h" "e \<in> dom h"
  shows "\<exists>h'. BIO_up_ref h e = Some h' \<and> bio_heap_ok h' \<and> dom h' = dom h"
proof -
  from assms(2) obtain x where x: "h e = Some x" by blast
  note r = bio_heap_ok_peer(1) [OF assms(1) x]
  have "CRYPTO_refcount_inc c \<noteq> 0" if "c \<noteq> 0" for c
  proof (cases "c = - 1")
    case False
    then have "c + 1 \<noteq> 0" by (metis eq_neg_iff_add_eq_0)
    then show ?thesis using that by (simp add: CRYPTO_refcount_inc_def)
  qed (simp add: CRYPTO_refcount_inc_def CRYPTO_REFCOUNT_MAX_def)
  then have "bio_heap_ok (h(e \<mapsto> x\<lparr>bio_references := CRYPTO_refcount_inc (bio_references x)\<rparr>))"
    using r by (intro bio_heap_ok_upd [OF assms(1) x]) simp_all
  then show ?thesis using x by (auto simp: BIO_up_ref_def)
qed

lemma BIO_free_ok:
  assumes "bio_heap_ok h" "h e = Some x"
  shows "\<exists>r h'. BIO_free h (Some e) = Some (r, h') \<and> bio_heap_ok h' \<and>
    dom h' = (if bio_references x = 1 then dom h - {e} else dom h)"
proof -
  note r = bio_heap_ok_peer(1) [OF assms]
  define k where "k = (if bio_references x < CRYPTO_REFCOUNT_MAX then bio_references x - 1 else bio_references x)"
  define h1 where "h1 = h(e \<mapsto> x\<lparr>bio_references := k\<rparr>)"
  have dec: "CRYPTO_refcount_dec_and_test_zero (bio_references x) = Some (k = 0, k)"
    using r by (simp add: CRYPTO_refcount_dec_and_test_zero_def Let_def k_def)
  have k0: "k = 0 \<longleftrightarrow> bio_references x = 1"
    using r by (auto simp: k_def CRYPTO_REFCOUNT_MAX_def)
  show ?thesis
  proof (cases "k = 0")
    case False
    then have "bio_heap_ok h1" unfolding h1_def by (intro bio_heap_ok_upd [OF assms]) simp_all
    then show ?thesis using assms(2) dec False k0 by (auto simp: BIO_free_def h1_def)
  next
    case True
    from bio_free_ok [OF assms h1_def] obtain h' where h': "bio_free h1 e = Some h'" "bio_heap_ok (h'(e := None))" "dom h' = dom h"
      by blast
    then show ?thesis using assms(2) dec True k0 by (simp add: BIO_free_def h1_def)
  qed
qed

section \<open>New pairs\<close>

definition pair_size :: "nat \<Rightarrow> nat" where
  "pair_size writebuf_len = (if writebuf_len \<noteq> 0 then writebuf_len else 17 * 1024)"

lemma length_malloc: "OPENSSL_malloc env n = Some u \<Longrightarrow> length u = n"
  by (auto simp: OPENSSL_malloc_def split: if_splits)

lemma BIO_new_fresh:
  assumes "BIO_new env h a = Some h'"
  shows "\<exists>x. h' = h(a \<mapsto> x) \<and> bio_references x = 1 \<and> bio_alone x \<and> bio_ptr x =
    \<lparr>b_peer = None, b_closed = False, b_len = 0, b_offset = 0, b_size = 17 * 1024, b_buf = None, b_request = 0\<rparr>"
  using assms by (auto simp: BIO_new_def bio_new_def bio_alone_def split: if_splits)

lemma BIO_free_fresh:
  assumes "h a = Some x" "bio_references x = 1" "b_peer (bio_ptr x) = None"
  shows "BIO_free h (Some a) = Some (1, h(a := None))"
  using assms by (simp add: BIO_free_def CRYPTO_refcount_dec_and_test_zero_def CRYPTO_REFCOUNT_MAX_def bio_free_def)

lemma bio_alloc_buf_spec:
  assumes "bio_alloc_buf env b n = (ok, b')" "b_buf b = None" "b_size b = 17 * 1024" "b_peer b = None"
  shows "b_peer b' = None \<and> (ok \<longrightarrow> (\<exists>u. b_buf b' = Some u \<and> length u = pair_size n) \<and> b_size b' = pair_size n \<and>
    b_len b' = 0 \<and> b_offset b' = 0)"
  using assms by (auto simp: bio_alloc_buf_def pair_size_def Let_def length_malloc split: option.splits if_splits)

lemma bio_make_pair_fresh:
  assumes "a \<noteq> p" "h a = Some x" "h p = Some y"
    and "bio_ptr x = \<lparr>b_peer = None, b_closed = False, b_len = 0, b_offset = 0, b_size = 17 * 1024, b_buf = None, b_request = 0\<rparr>"
    and "bio_ptr y = \<lparr>b_peer = None, b_closed = False, b_len = 0, b_offset = 0, b_size = 17 * 1024, b_buf = None, b_request = 0\<rparr>"
  shows "(\<exists>x' y'. bio_make_pair env1 env2 h a p n m = Some (False, h(a \<mapsto> x', p \<mapsto> y')) \<and> b_peer (bio_ptr x') = None \<and>
      b_peer (bio_ptr y') = None \<and> bio_references x' = bio_references x \<and> bio_references y' = bio_references y) \<or>
    (\<exists>x' y'. bio_make_pair env1 env2 h a p n m = Some (True, h(a \<mapsto> x', p \<mapsto> y')) \<and> pair_ok (h(a \<mapsto> x', p \<mapsto> y')) a p \<and>
      chan_of (bio_ptr x') = \<lparr>queued = [], capacity = pair_size n, shut = False\<rparr> \<and>
      chan_of (bio_ptr y') = \<lparr>queued = [], capacity = pair_size m, shut = False\<rparr> \<and>
      bio_references x' = bio_references x \<and> bio_references y' = bio_references y)"
proof -
  obtain ok1 b1 where b1: "bio_alloc_buf env1 (bio_ptr x) n = (ok1, b1)" by force
  obtain ok2 b2 where b2: "bio_alloc_buf env2 (bio_ptr y) m = (ok2, b2)" by force
  have s1: "b_peer b1 = None \<and> (ok1 \<longrightarrow> (\<exists>u. b_buf b1 = Some u \<and> length u = pair_size n) \<and> b_size b1 = pair_size n \<and>
      b_len b1 = 0 \<and> b_offset b1 = 0)"
    by (rule bio_alloc_buf_spec [OF b1]) (simp_all add: assms(4))
  have s2: "b_peer b2 = None \<and> (ok2 \<longrightarrow> (\<exists>u. b_buf b2 = Some u \<and> length u = pair_size m) \<and> b_size b2 = pair_size m \<and>
      b_len b2 = 0 \<and> b_offset b2 = 0)"
    by (rule bio_alloc_buf_spec [OF b2]) (simp_all add: assms(5))
  have pos: "0 < pair_size k" for k by (simp add: pair_size_def)
  define c1 where "c1 = b1\<lparr>b_peer := Some p, b_closed := False, b_request := 0\<rparr>"
  define c2 where "c2 = b2\<lparr>b_peer := Some a, b_closed := False, b_request := 0\<rparr>"
  define x' where "x' = x\<lparr>bio_init := True, bio_ptr := c1\<rparr>"
  define y' where "y' = y\<lparr>bio_init := True, bio_ptr := c2\<rparr>"
  have mk: "bio_make_pair env1 env2 h a p n m =
      (if \<not> ok1 then Some (False, h(a \<mapsto> x\<lparr>bio_ptr := b1\<rparr>))
       else if \<not> ok2 then Some (False, h(a \<mapsto> x\<lparr>bio_ptr := b1\<rparr>, p \<mapsto> y\<lparr>bio_ptr := b2\<rparr>))
       else Some (True, h(a \<mapsto> x', p \<mapsto> y')))"
    using assms(1-3) b1 b2
    by (simp add: bio_make_pair_def assms(4,5) put_b_def x'_def y'_def c1_def c2_def)
  consider "\<not> ok1" | "ok1" "\<not> ok2" | "ok1" "ok2" by blast
  then show ?thesis
  proof cases
    case 1
    then have "bio_make_pair env1 env2 h a p n m = Some (False, h(a \<mapsto> x\<lparr>bio_ptr := b1\<rparr>, p \<mapsto> y))"
      unfolding mk using assms(1,3) by (auto simp: fun_eq_iff)
    then show ?thesis using s1 assms(5) by (intro disjI1 exI conjI) (assumption | simp)+
  next
    case 2
    then have "bio_make_pair env1 env2 h a p n m = Some (False, h(a \<mapsto> x\<lparr>bio_ptr := b1\<rparr>, p \<mapsto> y\<lparr>bio_ptr := b2\<rparr>))"
      unfolding mk by simp
    then show ?thesis using s1 s2 by (intro disjI1 exI conjI) (assumption | simp)+
  next
    case 3
    then have "bio_make_pair env1 env2 h a p n m = Some (True, h(a \<mapsto> x', p \<mapsto> y'))" unfolding mk by simp
    moreover have "pair_ok (h(a \<mapsto> x', p \<mapsto> y')) a p"
      using 3 s1 s2 pos assms(1) by (auto simp: pair_ok_def bio_ok_def x'_def y'_def c1_def c2_def ring_ok_def ring_tidy_def)
    moreover have "chan_of c1 = \<lparr>queued = [], capacity = pair_size n, shut = False\<rparr>"
      "chan_of c2 = \<lparr>queued = [], capacity = pair_size m, shut = False\<rparr>"
      using 3 s1 s2 by (auto simp: c1_def c2_def chan_of_def ring_def)
    ultimately show ?thesis by (intro disjI2 exI conjI) (assumption | simp add: x'_def y'_def)+
  qed
qed

lemma BIO_new_bio_pair_spec:
  assumes "a \<noteq> p" "h a = None" "h p = None"
  shows "BIO_new_bio_pair env h a n p m = Some (None, h) \<or>
    (\<exists>x y. BIO_new_bio_pair env h a n p m = Some (Some (a, p), h(a \<mapsto> x, p \<mapsto> y)) \<and> pair_ok (h(a \<mapsto> x, p \<mapsto> y)) a p \<and>
      chan_of (bio_ptr x) = \<lparr>queued = [], capacity = pair_size n, shut = False\<rparr> \<and>
      chan_of (bio_ptr y) = \<lparr>queued = [], capacity = pair_size m, shut = False\<rparr> \<and>
      bio_references x = 1 \<and> bio_references y = 1)"
proof (cases "BIO_new (env 0) h a")
  case None
  show ?thesis
  proof (cases "BIO_new (env 1) h p")
    case (Some h1)
    from BIO_new_fresh [OF Some] obtain y where y: "h1 = h(p \<mapsto> y)" "bio_references y = 1" "b_peer (bio_ptr y) = None" by auto
    from BIO_free_fresh [of h1 p y] y assms(3) show ?thesis using None Some by (simp add: BIO_new_bio_pair_def fun_upd_idem)
  qed (use None in \<open>simp add: BIO_new_bio_pair_def\<close>)
next
  case (Some h1)
  from BIO_new_fresh [OF Some] obtain x where x: "h1 = h(a \<mapsto> x)" "bio_references x = 1" "bio_ptr x =
    \<lparr>b_peer = None, b_closed = False, b_len = 0, b_offset = 0, b_size = 17 * 1024, b_buf = None, b_request = 0\<rparr>" by auto
  show ?thesis
  proof (cases "BIO_new (env 1) h1 p")
    case None
    from BIO_free_fresh [of h1 a x] x assms(2) show ?thesis using None Some by (simp add: BIO_new_bio_pair_def fun_upd_idem)
  next
    case h2: (Some h2)
    from BIO_new_fresh [OF h2] obtain y where y: "h2 = h1(p \<mapsto> y)" "bio_references y = 1" "bio_ptr y =
      \<lparr>b_peer = None, b_closed = False, b_len = 0, b_offset = 0, b_size = 17 * 1024, b_buf = None, b_request = 0\<rparr>" by auto
    have "h2 a = Some x" "h2 p = Some y" using x y assms(1) by simp_all
    from bio_make_pair_fresh [OF assms(1) this x(3) y(3), of "env 2" "env 3" n m] show ?thesis
    proof (elim disjE exE conjE)
      fix x' y'
      assume mk: "bio_make_pair (env 2) (env 3) h2 a p n m = Some (False, h2(a \<mapsto> x', p \<mapsto> y'))"
        and c: "b_peer (bio_ptr x') = None" "b_peer (bio_ptr y') = None" "bio_references x' = bio_references x"
          "bio_references y' = bio_references y"
      define h3 where "h3 = h2(a \<mapsto> x', p \<mapsto> y')"
      have f1: "BIO_free h3 (Some a) = Some (1, h3(a := None))"
        by (rule BIO_free_fresh) (use c(1,3) x(2) assms(1) in \<open>simp_all add: h3_def\<close>)
      have f2: "BIO_free (h3(a := None)) (Some p) = Some (1, (h3(a := None))(p := None))"
        by (rule BIO_free_fresh) (use c(2,4) y(2) assms(1) in \<open>simp_all add: h3_def\<close>)
      have e: "(h3(a := None))(p := None) = h" using x y assms by (auto simp: h3_def fun_eq_iff)
      have "BIO_new_bio_pair env h a n p m = Some (None, h)"
        using Some h2 mk [folded h3_def] f1 f2 [unfolded e] by (simp add: BIO_new_bio_pair_def)
      then show ?thesis by (rule disjI1)
    next
      fix x' y'
      assume mk: "bio_make_pair (env 2) (env 3) h2 a p n m = Some (True, h2(a \<mapsto> x', p \<mapsto> y'))"
        and c: "pair_ok (h2(a \<mapsto> x', p \<mapsto> y')) a p"
          "chan_of (bio_ptr x') = \<lparr>queued = [], capacity = pair_size n, shut = False\<rparr>"
          "chan_of (bio_ptr y') = \<lparr>queued = [], capacity = pair_size m, shut = False\<rparr>"
          "bio_references x' = bio_references x" "bio_references y' = bio_references y"
      have e: "h2(a \<mapsto> x', p \<mapsto> y') = h(a \<mapsto> x', p \<mapsto> y')" using x y by (auto simp: fun_eq_iff)
      have "BIO_new_bio_pair env h a n p m = Some (Some (a, p), h(a \<mapsto> x', p \<mapsto> y'))"
        using Some h2 mk unfolding e by (simp add: BIO_new_bio_pair_def)
      then show ?thesis using c x(2) y(2) unfolding e by auto
    qed
  qed
qed

section \<open>Programs\<close>

text \<open>The calls of a program, and when they are allowed: on living BIOs, with no more data than there is; the allocator gives two new
  addresses.\<close>

datatype bio_call =
    New_pair nat nat nat nat
  | Up_ref nat
  | Free nat
  | Read nat bool int
  | Write nat "byte list option" int
  | Ctrl nat bio_cmd int "nat option"

fun bio_call_ok :: "bio_heap \<Rightarrow> bio_call \<Rightarrow> bool" where
  "bio_call_ok h (New_pair a n p m) \<longleftrightarrow> a \<noteq> p \<and> h a = None \<and> h p = None"
| "bio_call_ok h (Up_ref e) \<longleftrightarrow> e \<in> dom h"
| "bio_call_ok h (Free e) \<longleftrightarrow> e \<in> dom h"
| "bio_call_ok h (Read e room len) \<longleftrightarrow> e \<in> dom h"
| "bio_call_ok h (Write e data inl) \<longleftrightarrow> e \<in> dom h \<and> (case data of None \<Rightarrow> True | Some d \<Rightarrow> inl \<le> int (length d))"
| "bio_call_ok h (Ctrl e cmd num ptr) \<longleftrightarrow> e \<in> dom h \<and> (case ptr of None \<Rightarrow> True | Some a \<Rightarrow> a \<in> dom h)"

fun bio_exec :: "(nat \<Rightarrow> heap_env) \<Rightarrow> bio_heap \<Rightarrow> bio_call \<Rightarrow> bio_heap option" where
  "bio_exec env h (New_pair a n p m) = map_option snd (BIO_new_bio_pair env h a n p m)"
| "bio_exec env h (Up_ref e) = BIO_up_ref h e"
| "bio_exec env h (Free e) = map_option snd (BIO_free h (Some e))"
| "bio_exec env h (Read e room len) = map_option (snd \<circ> snd) (BIO_read h (Some e) room len)"
| "bio_exec env h (Write e data inl) = map_option snd (BIO_write h (Some e) data inl)"
| "bio_exec env h (Ctrl e cmd num ptr) = map_option snd (BIO_ctrl h (Some e) cmd num ptr)"

inductive bio_reach :: "bio_heap \<Rightarrow> bool" where
  begin_empty: "bio_reach (\<lambda>a. None)"
| next_call: "bio_reach h \<Longrightarrow> bio_call_ok h c \<Longrightarrow> bio_exec env h c = Some h' \<Longrightarrow> bio_reach h'"

definition bio_last_free :: "bio_heap \<Rightarrow> bio_call \<Rightarrow> nat \<Rightarrow> bool" where
  "bio_last_free h c a \<longleftrightarrow> c = Free a \<and> (\<exists>x. h a = Some x \<and> bio_references x = 1)"

lemma bio_new_pair_ok:
  assumes "bio_heap_ok h" "a \<noteq> p" "h a = None" "h p = None"
  shows "\<exists>r h'. BIO_new_bio_pair env h a n p m = Some (r, h') \<and> bio_heap_ok h' \<and> dom h \<subseteq> dom h'"
  using BIO_new_bio_pair_spec [OF assms(2-4), of env n m]
proof (elim disjE exE conjE)
  fix x y
  assume n: "BIO_new_bio_pair env h a n p m = Some (Some (a, p), h(a \<mapsto> x, p \<mapsto> y))" "pair_ok (h(a \<mapsto> x, p \<mapsto> y)) a p"
    "bio_references x = 1" "bio_references y = 1"
  have old: "pair_ok (h(a \<mapsto> x, p \<mapsto> y)) c q" if "pair_ok h c q" for c q
    using that assms(3,4) by (intro pair_ok_cong [OF that]) (auto simp: pair_ok_def)
  have peers: "b_peer (bio_ptr x) = Some p" "b_peer (bio_ptr y) = Some a"
    using pair_ok_peer [OF n(2)] pair_ok_peer [OF pair_ok_sym [OF n(2)]] assms(2) by simp_all
  have at: "c = a \<and> z = x \<or> c = p \<and> z = y \<or> h c = Some z" if "(h(a \<mapsto> x, p \<mapsto> y)) c = Some z" for c z
    using that by (auto split: if_splits)
  have "bio_heap_ok (h(a \<mapsto> x, p \<mapsto> y))"
    unfolding bio_heap_ok_def
  proof (intro allI impI)
    fix c z assume "(h(a \<mapsto> x, p \<mapsto> y)) c = Some z"
    from at [OF this] show "bio_references z \<noteq> 0 \<and> (b_peer (bio_ptr z) = None \<longrightarrow> bio_alone z) \<and>
        (\<forall>q. b_peer (bio_ptr z) = Some q \<longrightarrow> pair_ok (h(a \<mapsto> x, p \<mapsto> y)) c q)"
      using peers n(2-4) pair_ok_sym [OF n(2)] old bio_heap_ok_peer [OF assms(1)] by (elim disjE conjE) simp_all
  qed
  then show ?thesis using n(1) by auto
qed (use assms(1) in auto)

lemma bio_call_safe:
  assumes "bio_heap_ok h" "bio_call_ok h c"
  shows "\<exists>h'. bio_exec env h c = Some h' \<and> bio_heap_ok h' \<and> (\<forall>a \<in> dom h - dom h'. bio_last_free h c a)"
proof (cases c)
  case (New_pair a n p m)
  then show ?thesis using bio_new_pair_ok [OF assms(1), of a p env n m] assms(2) by fastforce
next
  case (Up_ref e)
  then show ?thesis using BIO_up_ref_ok [OF assms(1), of e] assms(2) by auto
next
  case (Free e)
  then obtain x where "h e = Some x" using assms(2) by auto
  from BIO_free_ok [OF assms(1) this] Free this show ?thesis by (fastforce simp: bio_last_free_def split: if_splits)
next
  case (Read e room len)
  then show ?thesis using BIO_read_ok [OF assms(1), of e room len] assms(2) by fastforce
next
  case (Write e data inl)
  then show ?thesis using BIO_write_ok [OF assms(1), of e data inl] assms(2) by fastforce
next
  case (Ctrl e cmd num ptr)
  then show ?thesis using BIO_ctrl_ok [OF assms(1), of e ptr cmd num] assms(2) by fastforce
qed

lemma bio_reach_ok: "bio_reach h \<Longrightarrow> bio_heap_ok h"
proof (induction rule: bio_reach.induct)
  case begin_empty
  then show ?case by (simp add: bio_heap_ok_def)
next
  case (next_call h c env h')
  with bio_call_safe [OF next_call.IH next_call.hyps(2), of env] show ?case by auto
qed

section \<open>Properties\<close>

lemma pair_inv_new:
  assumes "BIO_new_bio_pair env h a n p m = Some (Some (a, p), h0)" "a \<noteq> p" "h a = None" "h p = None"
  shows "pair_inv a p [] (pair_size n) (pair_size m) h0"
proof -
  from BIO_new_bio_pair_spec [OF assms(2-4), of env n m] assms(1) obtain x y where
    h0: "h0 = h(a \<mapsto> x, p \<mapsto> y)" "pair_ok h0 a p" "chan_of (bio_ptr x) = \<lparr>queued = [], capacity = pair_size n, shut = False\<rparr>"
      "chan_of (bio_ptr y) = \<lparr>queued = [], capacity = pair_size m, shut = False\<rparr>" by auto
  have "chan_at h0 a = Some \<lparr>queued = [], capacity = pair_size n, shut = False\<rparr>"
    "chan_at h0 p = Some \<lparr>queued = [], capacity = pair_size m, shut = False\<rparr>"
    using h0 assms(2) by (simp_all add: chan_at_def)
  then show ?thesis using h0(2) by (simp add: pair_inv_def chan_history_def was_shut_def)
qed

lemma pair_pending:
  assumes "pair_ok h a p" "chan_at h a = Some c"
  shows "BIO_pending h (Some p) = Some (length (queued c), h)"
proof -
  from assms(1) obtain x y u where xy: "h a = Some x" "h p = Some y" "b_peer (bio_ptr y) = Some a" "b_buf (bio_ptr x) = Some u"
    "ring_ok (bio_ptr x) u" by (auto simp: pair_ok_def bio_ok_def)
  have "length (queued c) = b_len (bio_ptr x)"
    using assms(2) xy length_ring [OF xy(5)] by (auto simp: chan_at_def chan_of_def)
  then show ?thesis using xy by (simp add: BIO_pending_def BIO_ctrl_def)
qed

text \<open>C19: A BIO pair is two bounded byte queues: after any run of reads, writes and control operations on its ends, the bytes that
  one end has handed out, followed by the bytes still pending, are exactly those the other end has accepted, in order,
  and no more are pending than the buffer was made for.\<close>

theorem bio_pair_delivers_in_order:
  assumes "BIO_new_bio_pair env h a n p m = Some (Some (a, p), h0)" "a \<noteq> p" "h a = None" "h p = None"
    and "pair_run {a, p} h0 es h'"
  shows "(\<exists>q. concat (map (delivered p) es) @ q = concat (map (accepted a) es) \<and> length q \<le> pair_size n \<and>
      BIO_pending h' (Some p) = Some (length q, h')) \<and>
    (\<exists>q. concat (map (delivered a) es) @ q = concat (map (accepted p) es) \<and> length q \<le> pair_size m \<and>
      BIO_pending h' (Some a) = Some (length q, h'))"
proof -
  from pair_inv_run [OF assms(5) pair_inv_new [OF assms(1-4)]] obtain c d where
    i: "pair_ok h' a p" "chan_at h' a = Some c" "chan_history a p es (pair_size n) c"
      "chan_at h' p = Some d" "chan_history p a es (pair_size m) d" by (auto simp: pair_inv_def)
  show ?thesis
    using i(3,5) pair_pending [OF i(1,2)] pair_pending [OF pair_ok_sym [OF i(1)] i(4)] by (auto simp: chan_history_def)
qed

text \<open>C20: After any run, a read from one end of a pair gets as many of the pending bytes as it asked for and there are; it says end of
  file exactly when the other end has been shut and all it accepted has been handed out; and when nothing is pending but more
  may come it returns -1 and sets the flags that tell the reader to read again. In every other case these flags are clear
  afterwards, also when an earlier operation had set them.\<close>

theorem bio_pair_read_result:
  assumes "BIO_new_bio_pair env h a n p m = Some (Some (a, p), h0)" "a \<noteq> p" "h a = None" "h p = None"
    and "pair_run {a, p} h0 es h'" "0 < k"
  defines "q \<equiv> drop (length (concat (map (delivered p) es))) (concat (map (accepted a) es))"
  defines "r \<equiv> if q \<noteq> [] then int (min k (length q)) else if was_shut a es then 0 else - 1"
  shows "\<exists>h'' y. BIO_read h' (Some p) True (int k) = Some (r, take k q, h'') \<and> h'' p = Some y \<and>
    (BIO_should_retry y \<noteq> 0 \<longleftrightarrow> q = [] \<and> \<not> was_shut a es) \<and> (BIO_should_read y \<noteq> 0 \<longleftrightarrow> q = [] \<and> \<not> was_shut a es) \<and>
    BIO_should_write y = 0"
proof -
  from pair_inv_run [OF assms(5) pair_inv_new [OF assms(1-4)]] obtain c where
    i: "pair_ok h' a p" "chan_at h' a = Some c" "chan_history a p es (pair_size n) c" by (auto simp: pair_inv_def)
  have q: "q = queued c" using i(3) unfolding q_def by (simp add: chan_history_def append_eq_conv_conj)
  obtain r' out c' where r': "chan_read k c = (r', out, c')" by (cases "chan_read k c") auto
  from BIO_read_pair [OF i(1) assms(6) i(2) r'] obtain h'' y where
    "BIO_read h' (Some p) True (int k) = Some (r', out, h'')" "h'' p = Some y" "read_flags r' y" by blast
  moreover have "r' = r" "out = take k q"
    using r' i(3) unfolding r_def q by (auto simp: chan_read_def chan_history_def split: if_splits)
  moreover have "r = - 1 \<longleftrightarrow> q = [] \<and> \<not> was_shut a es" by (simp add: r_def)
  ultimately show ?thesis by (auto simp: read_flags_def)
qed

text \<open>C21: However a program makes, shares, releases and uses BIO pairs, as long as it names only BIOs that are alive, no operation
  follows a dangling or null pointer. The peer of every living BIO is alive and points back to it, with buffers and
  indices in bounds, and a BIO goes away only when its last reference is released.\<close>

theorem bio_pairs_memory_safe:
  assumes "bio_reach h" "bio_call_ok h c"
  shows "bio_heap_ok h \<and> (\<exists>h'. bio_exec env h c = Some h' \<and> bio_heap_ok h' \<and> (\<forall>a \<in> dom h - dom h'. bio_last_free h c a))"
  using bio_reach_ok [OF assms(1)] bio_call_safe [OF bio_reach_ok [OF assms(1)] assms(2), of env] by (rule conjI)

text \<open>Asked through \<^verbatim>\<open>BIO_eof\<close>, which passes no argument, a pair always says that its input has ended, also when bytes are
  pending (\<^verbatim>\<open>BIO_CTRL_EOF\<close> expects the other end as its argument).\<close>

lemma BIO_eof_of_pair: "BIO_eof h (Some a) = Some (1, h)"
  by (simp add: BIO_eof_def BIO_ctrl_def)

text \<open>A pair with buffers of three and two bytes: five bytes are offered and three taken, two are read, another two written around the
  end of the buffer, the writer shuts its end, and the reader gets the rest.\<close>

definition bio_env :: "nat \<Rightarrow> heap_env" where "bio_env i = \<lparr>h_ok = (\<lambda>_. True), h_junk = (\<lambda>_. 0)\<rparr>"

definition pair_example_events :: "pair_event list" where
  "pair_example_events =
     [Wrote 0 [1, 2, 3, 4, 5] 3, Got 1 2 2 [1, 2], Wrote 0 [6, 7] 2, Asked 0 BIO_C_SHUTDOWN_WR 1]"

lemma bio_env_malloc: "n < 2 ^ 32 \<Longrightarrow> OPENSSL_malloc (bio_env i) n = Some (replicate n 0)"
  by (simp add: OPENSSL_malloc_def bio_env_def size_add_def SIZE_MOD_def map_replicate_const)

lemma pair_example_new: "\<exists>h. BIO_new_bio_pair bio_env (\<lambda>a. None) 0 3 1 2 = Some (Some (0, 1), h)"
  by (simp add: BIO_new_bio_pair_def BIO_new_def bio_new_def bio_make_pair_def bio_alloc_buf_def bio_env_malloc
    sizeof_BIO_def sizeof_bio_bio_def)

lemma pair_example_run:
  "\<exists>h0 h. BIO_new_bio_pair bio_env (\<lambda>a. None) 0 3 1 2 = Some (Some (0, 1), h0) \<and> pair_run {0, 1} h0 pair_example_events h"
proof -
  from pair_example_new obtain h0 where new: "BIO_new_bio_pair bio_env (\<lambda>a. None) 0 3 1 2 = Some (Some (0, 1), h0)" by blast
  with BIO_new_bio_pair_spec [of 0 1 "\<lambda>a. None" bio_env 3 2] have
    p0: "pair_ok h0 0 1" "chan_at h0 0 = Some \<lparr>queued = [], capacity = 3, shut = False\<rparr>"
    by (auto simp: chan_at_def pair_size_def)
  from BIO_write_pair [OF p0(1) _ p0(2), of "[1, 2, 3, 4, 5]" 3 "\<lparr>queued = [1, 2, 3], capacity = 3, shut = False\<rparr>"] obtain h1 where
    w1: "BIO_write h0 (Some 0) (Some [1, 2, 3, 4, 5]) 5 = Some (3, h1)" "pair_ok h1 0 1"
      "chan_at h1 0 = Some \<lparr>queued = [1, 2, 3], capacity = 3, shut = False\<rparr>"
    by (auto simp: chan_write_def Let_def bio_frame_def)
  from BIO_read_pair [OF w1(2) _ w1(3), of 2 2 "[1, 2]" "\<lparr>queued = [3], capacity = 3, shut = False\<rparr>"] obtain h2 where
    w2: "BIO_read h1 (Some 1) True 2 = Some (2, [1, 2], h2)" "pair_ok h2 0 1"
      "chan_at h2 0 = Some \<lparr>queued = [3], capacity = 3, shut = False\<rparr>"
    by (auto simp: chan_read_def bio_frame_def)
  from BIO_write_pair [OF w2(2) _ w2(3), of "[6, 7]" 2 "\<lparr>queued = [3, 6, 7], capacity = 3, shut = False\<rparr>"] obtain h3 where
    w3: "BIO_write h2 (Some 0) (Some [6, 7]) 2 = Some (2, h3)" "pair_ok h3 0 1"
    by (auto simp: chan_write_def Let_def bio_frame_def)
  from w3(2) obtain x where "h3 0 = Some x" by (auto simp: pair_ok_def)
  then obtain h4 where w4: "BIO_ctrl h3 (Some 0) BIO_C_SHUTDOWN_WR 0 None = Some (1, h4)" by (simp add: BIO_ctrl_def)
  note ops = w1(1) w2(1) w3(1) w4
  have "pair_run {0, 1} h0 ([] @ [Wrote 0 [1, 2, 3, 4, 5] 3]) h1"
    by (rule pair_run.step [OF pair_run.start], rule pair_step.do_write) (use ops in simp_all)
  then have "pair_run {0, 1} h0 (([] @ [Wrote 0 [1, 2, 3, 4, 5] 3]) @ [Got 1 2 2 [1, 2]]) h2"
    by (rule pair_run.step, intro pair_step.do_read) (use ops in simp_all)
  then have "pair_run {0, 1} h0 ((([] @ [Wrote 0 [1, 2, 3, 4, 5] 3]) @ [Got 1 2 2 [1, 2]]) @ [Wrote 0 [6, 7] 2]) h3"
    by (rule pair_run.step, intro pair_step.do_write) (use ops in simp_all)
  then have "pair_run {0, 1} h0 (((([] @ [Wrote 0 [1, 2, 3, 4, 5] 3]) @ [Got 1 2 2 [1, 2]]) @ [Wrote 0 [6, 7] 2]) @
      [Asked 0 BIO_C_SHUTDOWN_WR 1]) h4"
    by (rule pair_run.step, intro pair_step.do_ctrl) (use ops in simp_all)
  then show ?thesis using new unfolding pair_example_events_def by auto
qed

theorem bio_pair_delivers_in_order_witness:
  "\<exists>h h'. BIO_new_bio_pair bio_env (\<lambda>a. None) 0 3 1 2 = Some (Some (0, 1), h) \<and> pair_run {0, 1} h pair_example_events h' \<and>
    BIO_pending h' (Some 1) = Some (3, h')"
proof -
  from pair_example_run obtain h0 h where
    r: "BIO_new_bio_pair bio_env (\<lambda>a. None) 0 3 1 2 = Some (Some (0, 1), h0)" "pair_run {0, 1} h0 pair_example_events h" by blast
  from bio_pair_delivers_in_order [OF r(1) _ _ _ r(2)] have "BIO_pending h (Some 1) = Some (3, h)"
    by (auto simp: pair_example_events_def)
  with r show ?thesis by blast
qed

theorem bio_pair_read_result_witness:
  "\<exists>h h' h'' y. BIO_new_bio_pair bio_env (\<lambda>a. None) 0 3 1 2 = Some (Some (0, 1), h) \<and>
    BIO_read h (Some 1) True 9 = Some (- 1, [], h') \<and> h' 1 = Some y \<and> BIO_should_retry y \<noteq> 0 \<and>
    (\<exists>h'. pair_run {0, 1} h pair_example_events h' \<and> BIO_read h' (Some 1) True 9 = Some (3, [3, 6, 7], h''))"
proof -
  from pair_example_run obtain h0 h where
    r: "BIO_new_bio_pair bio_env (\<lambda>a. None) 0 3 1 2 = Some (Some (0, 1), h0)" "pair_run {0, 1} h0 pair_example_events h" by blast
  have "\<exists>h' y. BIO_read h0 (Some 1) True 9 = Some (- 1, [], h') \<and> h' 1 = Some y \<and> BIO_should_retry y \<noteq> 0"
    using bio_pair_read_result [OF r(1) _ _ _ pair_run.start, of 9] by (auto simp: was_shut_def)
  moreover have "\<exists>h''. BIO_read h (Some 1) True 9 = Some (3, [3, 6, 7], h'')"
    using bio_pair_read_result [OF r(1) _ _ _ r(2), of 9] by (auto simp: pair_example_events_def)
  ultimately show ?thesis using r by blast
qed

theorem bio_pairs_memory_safe_witness:
  "\<exists>h h'. BIO_new_bio_pair bio_env (\<lambda>a. None) 0 3 1 2 = Some (Some (0, 1), h) \<and> bio_exec bio_env h (Free 0) = Some h' \<and>
    bio_heap_ok h' \<and> 1 \<in> dom h'"
proof -
  from pair_example_run obtain h0 where n: "BIO_new_bio_pair bio_env (\<lambda>a. None) 0 3 1 2 = Some (Some (0, 1), h0)" by blast
  have "bio_reach h0"
    by (rule bio_reach.next_call [OF bio_reach.begin_empty, of "New_pair 0 3 1 2" bio_env]) (use n in simp_all)
  moreover have dom: "0 \<in> dom h0" "1 \<in> dom h0"
    using BIO_new_bio_pair_spec [of 0 1 "\<lambda>a. None" bio_env 3 2] n by auto
  ultimately obtain h' where "bio_exec bio_env h0 (Free 0) = Some h'" "bio_heap_ok h'" "\<forall>a \<in> dom h0 - dom h'. bio_last_free h0 (Free 0) a"
    using bio_pairs_memory_safe [of h0 "Free 0" bio_env] by auto
  moreover from this(3) dom(2) have "1 \<in> dom h'" unfolding bio_last_free_def by (metis Diff_iff bio_call.inject(3) zero_neq_one)
  ultimately show ?thesis using n by blast
qed

end
