(* ===== verification/Spec2Isabelle.thy ===== *)
theory Spec2Isabelle
  imports Base64 Stack Kdf Obj Asn1_Time Bio_Pair
begin

text \<open>
  A verification library for the C code of the Clubzey Flutter repository. The application itself is written in Dart
  (\<^verbatim>\<open>lib/\<close>); its C code is what the Firebase plugins of the macOS build bring along under \<^verbatim>\<open>macos/Pods/\<close>. The part
  modelled here is the core of the cryptography library of the gRPC transport, \<^verbatim>\<open>BoringSSL-GRPC/src/crypto/\<close> (written
  \<^verbatim>\<open>crypto/\<close> below), as it is compiled with \<^verbatim>\<open>OPENSSL_NO_ASM\<close> for 64-bit little-endian targets: byte strings and
  ASN.1, the containers, the registry of object identifiers, the digests, reference counts, BIO pairs and the text encodings. Everything
  received from the network passes through the first of these.

  \<^bold>\<open>Conventions.\<close> A definition has the name of its C function. A C function that returns \<^verbatim>\<open>int\<close> for success returns an
  option, a boolean with the new state, or a sum with the error; the state is returned also when the function fails
  and has changed it. Memory a pointer points to is the list of its bytes, a null pointer is \<open>None\<close>. The allocator is
  a parameter (\<open>heap_env\<close>: which sizes are served and what fresh memory holds), and the theorems hold for all of
  them or say which requests must succeed. \<^verbatim>\<open>size_t\<close> is a natural number with the wrap-around written out
  (\<open>size_add\<close>), fixed-width integers are words, and \<^verbatim>\<open>int\<close> and \<^verbatim>\<open>long\<close> are integers: where the code does not bound a value, every
  operation is followed by the reduction to the width of its type (\<open>int32\<close>, \<open>int64\<close> of \<open>Prelude\<close>, the wrap-around of the
  usual compilers), and the theorems state in which range no operation leaves it, as in \<open>Time_Support\<close>. A buffer written
  through a pointer is accessed by \<open>mem_store\<close> and \<open>mem_load\<close> of \<open>Mem\<close>, whose result is \<open>None\<close> behind its end, so that a
  theorem that a function returns also says that it stays inside its buffers. Loops are recursive
  functions with termination proofs; there is no fuel, except that the nesting bound of the BER converter is the
  one of the code. A function parameter of the code (comparison, hash, copy and free functions, block functions)
  is a function argument here, and the contract it has to meet is a locale.

  \<^bold>\<open>Foundations.\<close> \<open>Prelude\<close> has the machine types, byte values, the codec locales (\<open>codec\<close>, \<open>canonical_codec\<close>: a
  reader that accepts exactly the encodings) and the shared word lemmas; \<open>Mem\<close> is \<^verbatim>\<open>crypto/mem.c\<close>; \<open>Endian\<close> and
  \<open>Constant_Time\<close> are the helpers of \<^verbatim>\<open>crypto/internal.h\<close>; \<open>Qsort\<close> states what the C library's sorting and
  searching promise.

  \<^bold>\<open>Byte strings\<close> (\<^verbatim>\<open>crypto/bytestring/\<close>). \<open>Cbs\<close> is the reader and \<open>Der\<close> proves that its parser accepts exactly DER.
  \<open>Cbb\<close> is the builder with its tree of pending length prefixes; \<open>Cbb_Spec\<close> gives it an abstract value (the bytes it
  stands for) and the contract \<open>cbb_appender\<close>, \<open>Cbb_Child\<close> the contract \<open>cbb_opener\<close> of nested elements, \<open>Asn1_Int\<close> the
  integers, and \<open>Cbb_Build\<close> whole sessions: whatever is finished is the encoding of what was written (C1, C2), and
  errors of writes are sticky. What fills a child meets the weaker contract \<open>child_filler\<close>, so that it may also rearrange it. \<open>Oid\<close> and \<open>Unicode\<close> are texts of object identifiers and the character encodings, \<open>Set_Of\<close> the
  sorting of SET OF inside a child, and \<open>Ber\<close> the conversion of BER to DER with its soundness, completeness and idempotence; there
  the search for BER is shown to miss some (see the findings of the manifest).

  \<^bold>\<open>Older ASN.1 interface\<close> (\<^verbatim>\<open>crypto/asn1/\<close>). \<open>Asn1_Header\<close> reads and writes headers (\<^verbatim>\<open>asn1_lib.c\<close>) and is compared
  with \<open>Cbs\<close>; \<open>Asn1_Object\<close> and \<open>Asn1_String\<close> are objects, strings and bit strings (\<^verbatim>\<open>a_object.c\<close>, \<^verbatim>\<open>asn1_lib.c\<close>,
  \<^verbatim>\<open>a_bitstr.c\<close>), the latter shown to implement sets of numbers; \<open>Time_Support\<close> (\<^verbatim>\<open>time_support.c\<close>) proves the Julian
  day functions to be the calendar as long as their \<^verbatim>\<open>int\<close> arithmetic does not overflow, and \<open>Asn1_Time\<close> (\<^verbatim>\<open>a_gentm.c\<close>, \<^verbatim>\<open>a_utctm.c\<close>, \<^verbatim>\<open>a_time.c\<close>) the texts of times to be
  read back as the second they were written for.

  \<^bold>\<open>Containers.\<close> \<open>Stack\<close> (\<^verbatim>\<open>crypto/stack/stack.c\<close>) refines lists, \<open>Lhash\<close> (\<^verbatim>\<open>crypto/lhash/lhash.c\<close>) refines a
  dictionary across its resizes; both for any sequence of operations and any allocator. \<open>Obj\<close>
  (\<^verbatim>\<open>crypto/obj/obj.c\<close>) combines the searches over generated tables, which are a parameter with the property
  \<open>tables_ok\<close>, with four such hash tables.

  \<^bold>\<open>Digests and what is built on them.\<close> \<open>Md32\<close> is the block collector \<^verbatim>\<open>md32_common.h\<close>, with the contract \<open>md_block\<close> of a
  block function; \<open>Sha256\<close>, \<open>Sha1\<close> and \<open>Md5\<close> (with MD4) interpret it, \<open>Sha512\<close> has a collector of its own. Their digests are
  those of the standards however the message is cut. The specifications share no table with the code: the constants and initial
  values of the SHA-2 functions are computed from the roots of the primes (\<open>root_word\<close>), those of the others are written
  out a second time, as are the round functions. \<open>Evp_Digest\<close> (\<^verbatim>\<open>digest.c\<close>, \<^verbatim>\<open>digests.c\<close>) is the layer of method tables
  above them: the contract \<open>stream_digest\<close> is interpreted on all nine tables, and the layers above use nothing else of
  a digest. \<open>Hmac\<close> (\<^verbatim>\<open>hmac.c\<close>) implements RFC 2104, and \<open>Kdf\<close> HKDF (\<^verbatim>\<open>crypto/hkdf/hkdf.c\<close>, RFC 5869) and PBKDF2
  (\<^verbatim>\<open>crypto/evp/pbkdf.c\<close>, RFC 8018), each reusing one HMAC context; here a null pointer that the code would follow makes
  the result \<open>None\<close>, so that the theorems also say that it never is.

  \<^bold>\<open>Sharing and transport.\<close> \<open>Refcount\<close> (\<^verbatim>\<open>refcount_lock.c\<close>, \<^verbatim>\<open>refcount_c11.c\<close>) has the reference counts, the lock-free ones as
  interleaved atomic steps of threads that are shown to agree with the locked functions. \<open>Bio_Pair\<close>
  (\<^verbatim>\<open>crypto/bio/pair.c\<close>, and \<^verbatim>\<open>bio.c\<close> where a pair is used) has the pairs of BIOs a TLS connection can be run over: each is
  two bounded queues, and no sequence of operations on living BIOs goes wrong.

  \<^bold>\<open>Texts.\<close> \<open>Base64\<close> (\<^verbatim>\<open>crypto/base64/base64.c\<close>) shows that decoding undoes encoding for streams cut anywhere.

  \<^bold>\<open>Reading the properties.\<close> The statements marked C1, C2, ... are the claims of the manifest; each stands in the theory
  of its component, and this theory holds those that span several. Each with a hypothesis has a witness, a closed theorem that
  applies it at a concrete input.

  \<^bold>\<open>Not modelled.\<close> Freeing memory (other than that of BIOs) and the error queue, since neither is visible in a result; locks and
  concurrency except in \<open>Refcount\<close>, since the functions are modelled as running one after the other; BIOs other than
  pairs, chains of BIOs, and code on \<^verbatim>\<open>FILE\<close>; assembly and vector code;
  what C leaves undefined, such as overlapping buffers (the overflow of \<^verbatim>\<open>int\<close> wraps around). The remaining subdirectories of
  \<^verbatim>\<open>crypto/\<close>, \<^verbatim>\<open>ssl/\<close>, and the other pods (gRPC, Abseil, Firebase, libuv, LevelDB, nanopb and generated message
  code) are listed in the manifest with the reason.
\<close>

section \<open>Builders and readers of byte strings\<close>

definition sample_items :: "item list" where
  "sample_items = [Asn1 0x20000010 [Raw [1, 2], Asn1 0x4 [Raw [3]]], Prefixed 2 [Raw [7]]]"

lemma sample_items_props [simp]:
  "items_wf sample_items" "items_ok sample_items"
  "enc_items sample_items = [0x30, 5, 1, 2, 4, 1, 3, 0, 1, 7]"
  by (simp_all add: sample_items_def der_element_def der_header_def der_tag_def der_len_def Let_def
      be_bytes_numeral)

text \<open>C1: building any nested structure of strings, length-prefixed strings and ASN.1 elements and finishing the builder
  succeeds when memory is available and every length fits its prefix, and the output is the encoding of
  the structure, whatever initial capacity was chosen and however often the buffer had to grow.\<close>

theorem cbb_builds_items:
  assumes "init_ok env N" "cap \<le> N" "items_wf its" "items_ok its" "length (enc_items its) \<le> N"
  shows "cbb_run env cap (\<lambda>env. build_items env its) = Some (enc_items its)"
  by (rule cbb_appender.run_complete [OF build_items_appender [OF assms(3)] assms(1,2,4,5)])

theorem cbb_builds_items_witness:
  "cbb_run all_ok 1 (\<lambda>env. build_items env sample_items) = Some [0x30, 5, 1, 2, 4, 1, 3, 0, 1, 7]"
  using cbb_builds_items [of all_ok 16 1 sample_items] by simp

text \<open>C2: a builder run that returns a string returns the encoding of what was written, and then
  no length was too large for its prefix: nothing is ever truncated.\<close>

theorem cbb_output_sound:
  assumes "cbb_run env cap (\<lambda>env. build_items env its) = Some out" "cap < SIZE_MOD" "items_wf its"
    "length (enc_items its) < SIZE_MOD"
  shows "out = enc_items its \<and> items_ok its"
  by (rule cbb_appender.run_sound [OF build_items_appender [OF assms(3)] assms(1,2,4)])

theorem cbb_output_sound_witness:
  "\<exists>out. cbb_run all_ok 1 (\<lambda>env. build_items env sample_items) = Some out \<and> out = enc_items sample_items"
proof -
  have "cbb_run all_ok 1 (\<lambda>env. build_items env sample_items) = Some (enc_items sample_items)"
    by (rule cbb_appender.run_complete [OF build_items_appender, where N = 16]) simp_all
  with cbb_output_sound [OF this] show ?thesis by (simp add: SIZE_MOD_def)
qed

text \<open>C3: the reader of DER elements accepts exactly the DER encodings with contents below four gigabytes: what it
  returns re-encodes to the bytes it consumed, and it accepts no other encoding of the same element.\<close>

theorem CBS_get_any_asn1_canonical:
  "CBS_get_any_asn1 c = (Some (body, tag), r) \<longleftrightarrow> length body < 2 ^ 32 \<and> c = der_element tag body @ r"
  using der.dec_Some_iff [of c "(body, tag)" r] by simp

text \<open>C4: a signed 64-bit integer written with \<^verbatim>\<open>CBB_add_asn1_int64\<close> is read back by \<^verbatim>\<open>CBS_get_asn1_int64\<close>, and the
  output is the one shortest two's complement encoding that the reader accepts for it.\<close>

theorem asn1_int64_roundtrip:
  assumes "- (2 ^ 63) \<le> i" "i < 2 ^ 63" "cbb_run env cap (\<lambda>env. CBB_add_asn1_int64 env i) = Some out" "cap < SIZE_MOD"
  shows "CBS_get_asn1_int64 (out @ r) = (Some i, r) \<and>
    (\<forall>c. CBS_get_asn1_int64 c = (Some i, r) \<longrightarrow> c = out @ r)"
proof -
  have "length (der_element CBS_ASN1_INTEGER (der_int i)) < SIZE_MOD"
    using length_der_int_8 [OF assms(1,2)] length_der_tag(1) [of CBS_ASN1_INTEGER]
    by (simp add: der_element_def der_header_def der_len_def SIZE_MOD_def)
  from cbb_appender.run_sound [OF add_asn1_int64_appender [OF assms(1,2)] assms(3,4) this]
  show ?thesis using assms(1,2) by (simp add: asn1_int64.dec_Some_iff)
qed

theorem asn1_int64_roundtrip_witness:
  "\<exists>out. cbb_run all_ok 0 (\<lambda>env. CBB_add_asn1_int64 env (- 129)) = Some out \<and>
     CBS_get_asn1_int64 (out @ [5]) = (Some (- 129), [5])"
proof -
  have "cbb_run all_ok 0 (\<lambda>env. CBB_add_asn1_int64 env (- 129)) = Some (der_element CBS_ASN1_INTEGER (der_int (- 129)))"
    by (rule cbb_appender.run_complete [OF add_asn1_int64_appender, where N = 32])
      (use length_der_int_8 [of "- 129"] length_der_tag(1) [of CBS_ASN1_INTEGER] in
        \<open>simp_all add: der_element_def der_header_def der_len_def\<close>)
  with asn1_int64_roundtrip [of "- 129" all_ok 0 _ "[5]"] show ?thesis by simp
qed

section \<open>BER\<close>

text \<open>A constructed octet string of two fragments in an indefinite-length sequence.\<close>

definition sample_ber :: "ber list" where
  "sample_ber = [BIndef 0x20000010 [BCons 0x20000004 0 [BPrim 4 0 [1], BPrim 4 0 [2, 3]], BPrim 2 1 [5]]]"

lemma sample_ber_props:
  "ber_wf 0 sample_ber" "ber_depth 0 sample_ber" "found_ber sample_ber" "der_ok 0 sample_ber"
  "enc_ber sample_ber = [0x30, 0x80, 0x24, 7, 4, 1, 1, 4, 2, 2, 3, 2, 0x81, 1, 5, 0, 0]"
  "der_of 0 sample_ber = [0x30, 8, 4, 3, 1, 2, 3, 2, 1, 5]"
  by (simp_all add: sample_ber_def is_constructed_def fragment_ok_def child_string_tag_def is_string_type_def ber_form_def
      ber_len_def der_tag_def kMaxDepth_def wrap_ok_def der_wrap_def der_element_def der_header_def der_len_def
      der_out_tag_def Let_def be_bytes_numeral CBS_ASN1_CONSTRUCTED_def CBS_ASN1_TAG_SHIFT_def)

text \<open>C5: what \<^verbatim>\<open>CBS_asn1_ber_to_der\<close> converts is a sequence of well-formed BER elements, nested no deeper than the
  limit, the whole input is consumed, and the output is the DER encoding of the same elements: definite lengths in
  their shortest form and the fragments of constructed strings joined.\<close>

theorem ber_conversion_sound:
  assumes "CBS_asn1_ber_to_der env c = (Some (out, True), rest)" "length c < 2 ^ 60"
  shows "\<exists>ts. ber_wf 0 ts \<and> ber_depth 0 ts \<and> c = enc_ber ts \<and> rest = [] \<and> out = der_of 0 ts"
  using ber_to_der_sound [OF assms] by blast

text \<open>C6: every sequence of well-formed BER elements nested no deeper than the limit in which the search finds
  something to convert is converted to its DER encoding when memory is available and no length exceeds four gigabytes.\<close>

theorem ber_conversion_complete:
  assumes "ber_wf 0 ts" "ber_depth 0 ts" "found_ber ts" "der_ok 0 ts"
    and "init_ok env N" "length (enc_ber ts) \<le> N" "length (der_of 0 ts) \<le> N"
  shows "CBS_asn1_ber_to_der env (enc_ber ts) = (Some (der_of 0 ts, True), [])"
  using assms by (rule ber_to_der_complete)

theorem ber_conversion_complete_witness:
  "CBS_asn1_ber_to_der all_ok [0x30, 0x80, 0x24, 7, 4, 1, 1, 4, 2, 2, 3, 2, 0x81, 1, 5, 0, 0] =
    (Some ([0x30, 8, 4, 3, 1, 2, 3, 2, 1, 5], True), [])"
  using ber_conversion_complete [of sample_ber all_ok 32] by (simp add: sample_ber_props)

theorem ber_conversion_sound_witness:
  "\<exists>ts. ber_wf 0 ts \<and> ber_depth 0 ts \<and> [0x30, 0x80, 0x24, 7, 4, 1, 1, 4, 2, 2, 3, 2, 0x81, 1, 5, 0, 0] = enc_ber ts \<and>
     [0x30, 8, 4, 3, 1, 2, 3, 2, 1, 5] = der_of 0 ts"
proof -
  have "CBS_asn1_ber_to_der all_ok (enc_ber sample_ber) = (Some (der_of 0 sample_ber, True), [])"
    by (rule ber_to_der_complete [where N = 32]) (simp_all add: sample_ber_props)
  from ber_conversion_sound [OF this] show ?thesis by (simp add: sample_ber_props)
qed

text \<open>The conversion is idempotent: in the DER that comes out of it the search finds nothing to convert.\<close>

theorem ber_conversion_idempotent:
  assumes "CBS_asn1_ber_to_der env c = (Some (out, True), rest)" "length c < 2 ^ 60"
  shows "cbs_find_ber out 0 = Some False"
  using ber_to_der_sound [OF assms] ber_to_der_idem by blast

theorem ber_conversion_idempotent_witness: "cbs_find_ber [0x30, 8, 4, 3, 1, 2, 3, 2, 1, 5] 0 = Some False"
proof -
  have "CBS_asn1_ber_to_der all_ok (enc_ber sample_ber) = (Some (der_of 0 sample_ber, True), [])"
    by (rule ber_to_der_complete [where N = 32]) (simp_all add: sample_ber_props)
  from ber_conversion_idempotent [OF this] show ?thesis by (simp add: sample_ber_props)
qed

text \<open>The search misses BER that is nested in an element which a sibling follows: it overwrites its finding with
  that of the next element, so that the constructed string below is reported as DER and handed out unconverted.\<close>

theorem find_ber_misses_nested:
  "cbs_find_ber [0x30, 0x0a, 0x30, 5, 0x24, 3, 4, 1, 0xaa, 2, 1, 5] 0 = Some False \<and>
   cbs_find_ber [0x30, 0x07, 0x30, 5, 0x24, 3, 4, 1, 0xaa] 0 = Some True \<and>
   CBS_asn1_ber_to_der env [0x30, 0x0a, 0x30, 5, 0x24, 3, 4, 1, 0xaa, 2, 1, 5] =
     (Some ([0x30, 0x0a, 0x30, 5, 0x24, 3, 4, 1, 0xaa, 2, 1, 5], False), [])"
proof -
  define ts where "ts = [BCons 0x20000010 0 [BCons 0x20000010 0 [BCons 0x20000004 0 [BPrim 4 0 [0xaa]]], BPrim 2 0 [5]]]"
  define us where "us = [BCons 0x20000010 0 [BCons 0x20000010 0 [BCons 0x20000004 0 [BPrim 4 0 [0xaa]]]]]"
  note defs = is_constructed_def is_string_type_def ber_form_def der_form_def ber_len_def der_tag_def kMaxDepth_def
    CBS_ASN1_CONSTRUCTED_def CBS_ASN1_TAG_SHIFT_def Let_def be_bytes_numeral
  have t: "enc_ber ts = [0x30, 0x0a, 0x30, 5, 0x24, 3, 4, 1, 0xaa, 2, 1, 5]" "ber_shape ts" "ber_depth 0 ts"
    "\<not> found_ber ts" "\<not> own_ber (hd ts)"
    and u: "enc_ber us = [0x30, 0x07, 0x30, 5, 0x24, 3, 4, 1, 0xaa]" "ber_shape us" "ber_depth 0 us" "found_ber us"
    by (simp_all add: ts_def us_def defs)
  have "CBS_asn1_ber_to_der env (enc_ber ts) = (Some (enc_ber ts, False), [])"
    using ber_to_der_der [of "hd ts" "[]" env] t by (simp add: ts_def)
  with cbs_find_ber_enc [OF t(2,3)] cbs_find_ber_enc [OF u(2,3)] t u show ?thesis by simp
qed

text \<open>C7: reading a BER element consumes at least the two bytes of its header, and its contents are shorter than the input:
  the loops over elements and the descent into contents end.\<close>

theorem ber_element_progress:
  assumes "CBS_get_any_ber_asn1_element c = (Some el, r)"
  shows "c = el_out el @ r \<and> 2 \<le> el_header_len el \<and> el_header_len el \<le> length (el_out el) \<and> length r < length c \<and>
    length (el_out el) - el_header_len el < length c"
  using get_ber_element_shape [OF assms] by blast

theorem ber_element_progress_witness:
  "\<exists>el. CBS_get_any_ber_asn1_element [4, 1, 7, 9] = (Some el, [9]) \<and> length (el_out el) - el_header_len el < length [4, 1, 7, 9 :: byte]"
proof -
  have "CBS_get_any_ber_asn1_element ([4, 1, 7] @ [9]) = (Some (definite_el 4 0 [7]), [9])"
    using get_ber_definite [where t = 4 and k = 0 and body = "[7]" and r = "[9]"] by (simp add: definite_el_def ber_form_def ber_len_def der_tag_def Let_def)
  from ber_element_progress [of "[4, 1, 7, 9]" "definite_el 4 0 [7]" "[9]"] this show ?thesis by simp
qed

end
